(* ===== verification/Prelude.thy ===== *)
theory Prelude
  imports Main "HOL-Library.Word"
begin

text \<open>
  Shared vocabulary of the development: the Go types the components use, the theorem
  collections their proofs extend, and the generic facts on lists and machine words.

  A Go \<open>byte\<close> is an 8-bit word, a \<open>rune\<close> (int32) a 32-bit word compared with the signed
  order where the code compares runes, a string or byte slice a list of bytes.  Lengths
  and indices of Go type \<open>int\<close> are naturals where the code keeps them non-negative and
  integers where it uses a negative value as a signal (the index \<open>-1\<close>).
\<close>

unbundle bit_operations_syntax

type_synonym byte = "8 word"
type_synonym rune = "32 word"
type_synonym bytes = "byte list"
type_synonym u32 = "32 word"
type_synonym u64 = "64 word"

named_theorems view_simps \<open>arithmetic views of word operations, as natural numbers\<close>
named_theorems loop_unfold \<open>one-step unfolding of the loops of the model\<close>
named_theorems inv_intros \<open>invariant preservation\<close>

text \<open>The ways a Go program stops instead of returning.\<close>

datatype panic =
    IndexOutOfRange
  | SliceOutOfRange
  | DivideByZero
  | PanicValue string

type_synonym 'a go = "panic + 'a"

text \<open>Indexing and slicing as the language defines them: out of range is a panic.\<close>

definition go_index :: "'a list \<Rightarrow> int \<Rightarrow> 'a go" where
  "go_index xs i = (if 0 \<le> i \<and> i < int (length xs) then Inr (xs ! nat i) else Inl IndexOutOfRange)"

definition seg :: "nat \<Rightarrow> nat \<Rightarrow> 'a list \<Rightarrow> 'a list" where
  "seg i j xs = take (j - i) (drop i xs)"

text \<open>
  Storing through an index, and sequencing: a panic stops the computation.  Slices whose length
  stays fixed while a loop fills them are lists updated in place.
\<close>

definition go_set :: "'a list \<Rightarrow> nat \<Rightarrow> 'a \<Rightarrow> 'a list go" where
  "go_set xs i x = (if i < length xs then Inr (xs[i := x]) else Inl IndexOutOfRange)"

fun go_bind :: "'a go \<Rightarrow> ('a \<Rightarrow> 'b go) \<Rightarrow> 'b go" where
  "go_bind (Inl e) f = Inl e"
| "go_bind (Inr x) f = f x"

definition go_nth :: "'a list \<Rightarrow> nat \<Rightarrow> 'a go" where
  "go_nth xs i = (if i < length xs then Inr (xs ! i) else Inl IndexOutOfRange)"

definition go_slice :: "'a list \<Rightarrow> nat \<Rightarrow> nat \<Rightarrow> 'a list go" where
  "go_slice xs i j = (if i \<le> j \<and> j \<le> length xs then Inr (seg i j xs) else Inl SliceOutOfRange)"

text \<open>
  \<open>make([]T, n)\<close>: a panic when \<open>n\<close> is negative or more than \<open>M\<close>, the largest length for which the
  runtime can allocate a slice of that element type.
\<close>

definition go_make :: "int \<Rightarrow> int \<Rightarrow> 'a \<Rightarrow> 'a list go" where
  "go_make M n x = (if 0 \<le> n \<and> n \<le> M then Inr (replicate (nat n) x) else Inl (PanicValue ''makeslice: len out of range''))"

lemma go_nth_ok [simp]: "i < length xs \<Longrightarrow> go_nth xs i = Inr (xs ! i)"
  by (simp add: go_nth_def)

lemma go_slice_ok [simp]: "i \<le> j \<Longrightarrow> j \<le> length xs \<Longrightarrow> go_slice xs i j = Inr (seg i j xs)"
  by (simp add: go_slice_def)

lemma go_set_ok [simp]: "i < length xs \<Longrightarrow> go_set xs i x = Inr (xs[i := x])"
  by (simp add: go_set_def)

text \<open>
  Loops whose termination is proved rather than evident return an option as well: \<open>None\<close> is a
  computation that does not return.
\<close>

fun run_bind :: "'a go option \<Rightarrow> ('a \<Rightarrow> 'b go option) \<Rightarrow> 'b go option" where
  "run_bind None f = None"
| "run_bind (Some (Inl e)) f = Some (Inl e)"
| "run_bind (Some (Inr x)) f = f x"

lemma go_bind_Inr: "go_bind m f = Inr y \<longleftrightarrow> (\<exists>x. m = Inr x \<and> f x = Inr y)"
  by (cases m) auto

text \<open>The language's 64-bit \<open>int\<close>: arithmetic wraps, division truncates towards zero.\<close>

definition wrap64 :: "int \<Rightarrow> int" where
  "wrap64 x = sint (word_of_int x :: 64 word)"

definition go_quot :: "int \<Rightarrow> int \<Rightarrow> int" where
  "go_quot a b = (if (a < 0) = (b < 0) then \<bar>a\<bar> div \<bar>b\<bar> else - (\<bar>a\<bar> div \<bar>b\<bar>))"

lemma wrap64_range: "- (2 ^ 63) \<le> wrap64 x" "wrap64 x < 2 ^ 63"
  using sint_ge [of "word_of_int x :: 64 word"] sint_lt [of "word_of_int x :: 64 word"]
  by (simp_all add: wrap64_def)

lemma wrap64_id: "- (2 ^ 63) \<le> x \<Longrightarrow> x < 2 ^ 63 \<Longrightarrow> wrap64 x = x"
  unfolding wrap64_def by (simp add: signed_of_int signed_take_bit_int_eq_self)

lemma take_Suc_update: "n < length xs \<Longrightarrow> take (Suc n) (xs[n := x]) = take n xs @ [x]"
  by (simp add: take_Suc_conv_app_nth)

lemma length_seg [simp]: "j \<le> length xs \<Longrightarrow> length (seg i j xs) = j - i"
  by (simp add: seg_def)

lemma seg_0 [simp]: "seg 0 j xs = take j xs"
  by (simp add: seg_def)

lemma seg_self [simp]: "seg i i xs = []"
  by (simp add: seg_def)

lemma seg_to_end [simp]: "seg i (length xs) xs = drop i xs"
  by (simp add: seg_def)

lemma nth_seg: "k < j - i \<Longrightarrow> j \<le> length xs \<Longrightarrow> seg i j xs ! k = xs ! (i + k)"
  by (simp add: seg_def)

lemma seg_Suc: "i \<le> j \<Longrightarrow> j < length xs \<Longrightarrow> seg i (Suc j) xs = seg i j xs @ [xs ! j]"
  by (simp add: seg_def Suc_diff_le take_Suc_conv_app_nth)

lemma seg_append_seg: "i \<le> j \<Longrightarrow> j \<le> k \<Longrightarrow> seg i j xs @ seg j k xs = seg i k xs"
proof -
  assume "i \<le> j" "j \<le> k"
  then obtain a b where "j = i + a" "k = i + a + b"
    by (auto simp: le_iff_add)
  then show ?thesis by (simp add: seg_def take_add ac_simps)
qed

subsection \<open>Occurrences of a substring\<close>

definition occurs_at :: "'a list \<Rightarrow> 'a list \<Rightarrow> nat \<Rightarrow> bool" where
  "occurs_at s sub i \<longleftrightarrow> i + length sub \<le> length s \<and> take (length sub) (drop i s) = sub"

text \<open>
  What every index function of the string packages promises: the least position at which
  the substring occurs, or \<open>-1\<close> when there is none; and its mirror for the last one.
\<close>

definition is_first_index :: "'a list \<Rightarrow> 'a list \<Rightarrow> int \<Rightarrow> bool" where
  "is_first_index s sub r \<longleftrightarrow>
     (if r < 0 then r = -1 \<and> (\<forall>i. \<not> occurs_at s sub i)
      else occurs_at s sub (nat r) \<and> (\<forall>j < nat r. \<not> occurs_at s sub j))"

definition is_last_index :: "'a list \<Rightarrow> 'a list \<Rightarrow> int \<Rightarrow> bool" where
  "is_last_index s sub r \<longleftrightarrow>
     (if r < 0 then r = -1 \<and> (\<forall>i. \<not> occurs_at s sub i)
      else occurs_at s sub (nat r) \<and> (\<forall>j > nat r. \<not> occurs_at s sub j))"

lemma occurs_at_nth:
  "occurs_at s sub i \<longleftrightarrow>
     i + length sub \<le> length s \<and> (\<forall>k < length sub. s ! (i + k) = sub ! k)"
  unfolding occurs_at_def by (auto simp: list_eq_iff_nth_eq)

lemma occurs_at_drop: "j \<le> length s \<Longrightarrow> occurs_at (drop j s) sub i \<longleftrightarrow> occurs_at s sub (j + i)"
  by (auto simp: occurs_at_def add.commute)

lemma occurs_at_bound: "occurs_at s sub i \<Longrightarrow> i + length sub \<le> length s"
  by (simp add: occurs_at_def)

lemma is_first_indexI:
  "occurs_at s sub i \<Longrightarrow> (\<And>j. j < i \<Longrightarrow> \<not> occurs_at s sub j) \<Longrightarrow> is_first_index s sub (int i)"
  by (simp add: is_first_index_def)

lemma is_first_index_none: "(\<And>i. \<not> occurs_at s sub i) \<Longrightarrow> is_first_index s sub (-1)"
  by (simp add: is_first_index_def)

lemma is_first_index_cases:
  assumes "is_first_index s sub r"
  obtains (found) i where "r = int i" "occurs_at s sub i" "\<And>j. j < i \<Longrightarrow> \<not> occurs_at s sub j"
    | (absent) "r = -1" "\<And>i. \<not> occurs_at s sub i"
  using assms that(1) [of "nat r"] that(2)
  by (cases "r < 0") (auto simp: is_first_index_def)

lemma is_first_index_unique:
  assumes "is_first_index s sub r" and "is_first_index s sub r'"
  shows "r = r'"
  using assms(1)
proof (cases rule: is_first_index_cases)
  case r: (found i)
  from assms(2) show ?thesis
    by (cases rule: is_first_index_cases) (use r in \<open>auto dest: linorder_neqE_nat\<close>)
next
  case absent
  with assms(2) show ?thesis
    by (cases rule: is_first_index_cases) auto
qed

subsection \<open>Arithmetic views of word operations\<close>

lemma unat_ucast_view [view_simps]:
  "unat (ucast (w :: 'a::len word) :: 'b::len word) = unat w mod 2 ^ LENGTH('b)"
  by (simp add: unsigned_ucast_eq take_bit_eq_mod)

lemma unat_and_mask [view_simps]: "unat (w AND mask n) = unat w mod 2 ^ n"
  for w :: "'a::len word"
  unfolding take_bit_eq_mask [symmetric] unsigned_take_bit_eq by (rule take_bit_eq_mod)

lemma unat_push_bit_view [view_simps]:
  "unat (push_bit n w) = (unat w * 2 ^ n) mod 2 ^ LENGTH('a)" for w :: "'a::len word"
  unfolding unsigned_push_bit_eq by (simp only: take_bit_eq_mod push_bit_eq_mult)

lemma unat_drop_bit_view [view_simps]: "unat (drop_bit n w) = unat w div 2 ^ n"
  for w :: "'a::len word"
  unfolding unat_drop_bit_eq by (rule drop_bit_eq_div)

lemma nat_or_disjoint:
  assumes "a mod 2 ^ n = (0::nat)" and "b < 2 ^ n"
  shows "a OR b = a + b"
proof -
  have "take_bit n b = b" using assms(2) by (simp add: take_bit_nat_eq_self_iff)
  then have "a AND b = take_bit n a AND b"
    by (metis (no_types) take_bit_eq_mask and.assoc and.commute)
  also have "\<dots> = 0" using assms(1) by (simp add: take_bit_eq_mod)
  finally show ?thesis by (simp add: disjunctive_add_eq_or)
qed

lemma unat_or_disjoint:
  fixes a b :: "'a::len word"
  assumes "unat a mod 2 ^ n = 0" and "unat b < 2 ^ n"
  shows "unat (a OR b) = unat a + unat b"
  using assms by (simp add: unsigned_or_eq nat_or_disjoint)

lemma sint_view:
  "sint w = (if uint w < 2 ^ (LENGTH('a) - 1) then uint w else uint w - 2 ^ LENGTH('a))"
  for w :: "'a::len word"
proof -
  obtain n where n: "LENGTH('a) = Suc n" by (metis len_gt_0 gr0_implies_Suc)
  have lt: "uint w < 2 ^ Suc n" and ge: "0 \<le> uint w"
    using unsigned_less [of w] by (simp_all add: n)
  have "sint w = (uint w + 2 ^ n) mod 2 ^ Suc n - 2 ^ n"
    by (simp add: sint_uint n signed_take_bit_eq_take_bit_shift take_bit_eq_mod del: power_Suc)
  also have "\<dots> = (if uint w < 2 ^ n then uint w else uint w - 2 ^ Suc n)"
  proof (cases "uint w < 2 ^ n")
    case True
    then have "uint w + 2 ^ n < 2 ^ Suc n" by simp
    then show ?thesis using True ge by (simp add: mod_pos_pos_trivial)
  next
    case False
    then have "(uint w + 2 ^ n) mod 2 ^ Suc n = uint w + 2 ^ n - 2 ^ Suc n"
      using lt by (subst mod_pos_geq) (auto simp: mod_pos_pos_trivial)
    then show ?thesis using False by simp
  qed
  finally show ?thesis by (simp add: n)
qed

lemma unat_signed_drop_bit [view_simps]:
  "unat w < 2 ^ (LENGTH('a) - 1) \<Longrightarrow> unat (signed_drop_bit n w) = unat w div 2 ^ n"
  for w :: "'a::len word"
proof -
  assume a: "unat w < 2 ^ (LENGTH('a) - 1)"
  have "signed_drop_bit n w = drop_bit n w"
  proof (rule bit_word_eqI)
    fix k assume "k < LENGTH('a)"
    have "\<not> bit (unat w) (LENGTH('a) - 1)"
      using a by (simp add: bit_iff_odd div_less)
    then have "\<not> bit w (LENGTH('a) - 1)"
      by (simp add: bit_unsigned_iff)
    then show "bit (signed_drop_bit n w) k = bit (drop_bit n w) k"
      by (auto simp: bit_signed_drop_bit_iff bit_drop_bit_eq dest: bit_imp_le_length)
  qed
  then show ?thesis by (simp add: view_simps)
qed

lemma sless_view: "v <s w \<longleftrightarrow> sint v < sint w" and sle_view: "v \<le>s w \<longleftrightarrow> sint v \<le> sint w"
  by (simp_all add: word_sless_alt word_sle_eq)

lemma word_natE:
  fixes w :: "'a::len word"
  obtains n where "unat w = n" "uint w = int n" "n < 2 ^ LENGTH('a)"
  using that [of "unat w"] unsigned_less [of w] by simp

end
