(* ===== verification/Utf8.thy ===== *)
theory Utf8
  imports Prelude
begin

text \<open>
  Package \<open>unicode/utf8\<close> (\<open>src/unicode/utf8/utf8.go\<close>) and the decoder and encoder the
  language itself uses for string iteration and conversion (\<open>src/runtime/utf8.go\<close>).

  The state is the byte slice; the operations classify, decode, encode, count and
  validate.  The lemmas give an arithmetic view of every bit operation (collection
  \<open>view_simps\<close>), show that decoding inverts encoding and that only shortest encodings
  decode, relate the table-driven loops to repeated decoding, and prove the two decoders
  of the repository equal.
\<close>

section \<open>Definitions\<close>

definition RuneError :: rune where [simp]: "RuneError = 0xFFFD"
definition RuneSelf :: byte where [simp]: "RuneSelf = 0x80"
definition MaxRune :: rune where [simp]: "MaxRune = 0x10FFFF"
definition UTFMax :: nat where [simp]: "UTFMax = 4"

definition surrogateMin :: rune where [simp]: "surrogateMin = 0xD800"
definition surrogateMax :: rune where [simp]: "surrogateMax = 0xDFFF"

definition utf8_tx :: byte where [simp]: "utf8_tx = 0x80"
definition utf8_t2 :: byte where [simp]: "utf8_t2 = 0xC0"
definition utf8_t3 :: byte where [simp]: "utf8_t3 = 0xE0"
definition utf8_t4 :: byte where [simp]: "utf8_t4 = 0xF0"
definition utf8_t5 :: byte where [simp]: "utf8_t5 = 0xF8"
definition utf8_maskx :: byte where [simp]: "utf8_maskx = 0x3F"
definition utf8_mask2 :: byte where [simp]: "utf8_mask2 = 0x1F"
definition utf8_mask3 :: byte where [simp]: "utf8_mask3 = 0x0F"
definition utf8_mask4 :: byte where [simp]: "utf8_mask4 = 0x07"
definition rune1Max :: rune where [simp]: "rune1Max = 0x7F"
definition rune2Max :: rune where [simp]: "rune2Max = 0x7FF"
definition rune3Max :: rune where [simp]: "rune3Max = 0xFFFF"
definition locb :: byte where [simp]: "locb = 0x80"
definition hicb :: byte where [simp]: "hicb = 0xBF"

text \<open>
  The codes of the table of lead bytes: low nibble the width, high nibble the index into
  \<open>acceptRanges\<close>, with the special values \<open>info_xx\<close> (invalid) and \<open>info_as\<close> (ASCII).
\<close>

definition info_xx :: byte where [simp]: "info_xx = 0xF1"
definition info_as :: byte where [simp]: "info_as = 0xF0"
definition info_s1 :: byte where [simp]: "info_s1 = 0x02"
definition info_s2 :: byte where [simp]: "info_s2 = 0x13"
definition info_s3 :: byte where [simp]: "info_s3 = 0x03"
definition info_s4 :: byte where [simp]: "info_s4 = 0x23"
definition info_s5 :: byte where [simp]: "info_s5 = 0x34"
definition info_s6 :: byte where [simp]: "info_s6 = 0x04"
definition info_s7 :: byte where [simp]: "info_s7 = 0x44"

text \<open>The 256-entry table, row by row.\<close>

definition first :: "byte list" where
  "first =
     replicate 0x80 info_as @                                    \<comment> \<open>0x00-0x7F\<close>
     replicate 0x40 info_xx @                                    \<comment> \<open>0x80-0xBF\<close>
     [info_xx, info_xx] @ replicate 14 info_s1 @                 \<comment> \<open>0xC0-0xCF\<close>
     replicate 16 info_s1 @                                      \<comment> \<open>0xD0-0xDF\<close>
     [info_s2] @ replicate 12 info_s3 @ [info_s4, info_s3, info_s3] @ \<comment> \<open>0xE0-0xEF\<close>
     [info_s5, info_s6, info_s6, info_s6, info_s7] @ replicate 11 info_xx \<comment> \<open>0xF0-0xFF\<close>"

record acceptRange =
  accept_lo :: byte
  accept_hi :: byte

definition acceptRanges :: "acceptRange list" where
  "acceptRanges =
     [\<lparr>accept_lo = locb, accept_hi = hicb\<rparr>,
      \<lparr>accept_lo = 0xA0, accept_hi = hicb\<rparr>,
      \<lparr>accept_lo = locb, accept_hi = 0x9F\<rparr>,
      \<lparr>accept_lo = 0x90, accept_hi = hicb\<rparr>,
      \<lparr>accept_lo = locb, accept_hi = 0x8F\<rparr>] @
     replicate 11 \<lparr>accept_lo = 0, accept_hi = 0\<rparr>"

text \<open>The repeated steps \<open>first[b]\<close>, \<open>int(x & 7)\<close> and \<open>acceptRanges[x>>4]\<close>.\<close>

definition lead_info :: "byte \<Rightarrow> byte" where
  "lead_info b = first ! unat b"

definition info_size :: "byte \<Rightarrow> nat" where
  "info_size x = unat (x AND 7)"

definition info_accept :: "byte \<Rightarrow> acceptRange" where
  "info_accept x = acceptRanges ! unat (drop_bit 4 x)"

definition FullRune :: "bytes \<Rightarrow> bool" where
  "FullRune p =
     (let n = length p in
      if n = 0 then False
      else let x = lead_info (p ! 0) in
      if n \<ge> info_size x then True
      else let accept = info_accept x in
      if n > 1 \<and> (p ! 1 < accept_lo accept \<or> accept_hi accept < p ! 1) then True
      else if n > 2 \<and> (p ! 2 < locb \<or> hicb < p ! 2) then True
      else False)"

definition FullRuneInString :: "bytes \<Rightarrow> bool" where
  "FullRuneInString s =
     (let n = length s in
      if n = 0 then False
      else let x = lead_info (s ! 0) in
      if n \<ge> info_size x then True
      else let accept = info_accept x in
      if n > 1 \<and> (s ! 1 < accept_lo accept \<or> accept_hi accept < s ! 1) then True
      else if n > 2 \<and> (s ! 2 < locb \<or> hicb < s ! 2) then True
      else False)"

text \<open>
  Conversions \<open>rune(b)\<close> widen a byte; \<open>rune(x) << 31 >> 31\<close> is the arithmetic shift of an
  int32, so the mask is all ones exactly when the lowest bit of \<open>x\<close> is set.
\<close>

definition DecodeRune :: "bytes \<Rightarrow> rune \<times> nat" where
  "DecodeRune p =
     (let n = length p in
      if n < 1 then (RuneError, 0)
      else let p0 = p ! 0; x = lead_info p0 in
      if x \<ge> info_as then
        let mask = signed_drop_bit 31 (push_bit 31 (ucast x :: rune))
        in ((ucast (p ! 0) AND NOT mask) OR (RuneError AND mask), 1)
      else let sz = info_size x; accept = info_accept x in
      if n < sz then (RuneError, 1)
      else let b1 = p ! 1 in
      if b1 < accept_lo accept \<or> accept_hi accept < b1 then (RuneError, 1)
      else if sz \<le> 2 then
        (push_bit 6 (ucast (p0 AND utf8_mask2)) OR ucast (b1 AND utf8_maskx), 2)
      else let b2 = p ! 2 in
      if b2 < locb \<or> hicb < b2 then (RuneError, 1)
      else if sz \<le> 3 then
        (push_bit 12 (ucast (p0 AND utf8_mask3)) OR push_bit 6 (ucast (b1 AND utf8_maskx))
         OR ucast (b2 AND utf8_maskx), 3)
      else let b3 = p ! 3 in
      if b3 < locb \<or> hicb < b3 then (RuneError, 1)
      else
        (push_bit 18 (ucast (p0 AND utf8_mask4)) OR push_bit 12 (ucast (b1 AND utf8_maskx))
         OR push_bit 6 (ucast (b2 AND utf8_maskx)) OR ucast (b3 AND utf8_maskx), 4))"

definition DecodeRuneInString :: "bytes \<Rightarrow> rune \<times> nat" where
  "DecodeRuneInString s =
     (let n = length s in
      if n < 1 then (RuneError, 0)
      else let s0 = s ! 0; x = lead_info s0 in
      if x \<ge> info_as then
        let mask = signed_drop_bit 31 (push_bit 31 (ucast x :: rune))
        in ((ucast (s ! 0) AND NOT mask) OR (RuneError AND mask), 1)
      else let sz = info_size x; accept = info_accept x in
      if n < sz then (RuneError, 1)
      else let s1 = s ! 1 in
      if s1 < accept_lo accept \<or> accept_hi accept < s1 then (RuneError, 1)
      else if sz \<le> 2 then
        (push_bit 6 (ucast (s0 AND utf8_mask2)) OR ucast (s1 AND utf8_maskx), 2)
      else let s2 = s ! 2 in
      if s2 < locb \<or> hicb < s2 then (RuneError, 1)
      else if sz \<le> 3 then
        (push_bit 12 (ucast (s0 AND utf8_mask3)) OR push_bit 6 (ucast (s1 AND utf8_maskx))
         OR ucast (s2 AND utf8_maskx), 3)
      else let s3 = s ! 3 in
      if s3 < locb \<or> hicb < s3 then (RuneError, 1)
      else
        (push_bit 18 (ucast (s0 AND utf8_mask4)) OR push_bit 12 (ucast (s1 AND utf8_maskx))
         OR push_bit 6 (ucast (s2 AND utf8_maskx)) OR ucast (s3 AND utf8_maskx), 4))"

definition RuneStart :: "byte \<Rightarrow> bool" where
  "RuneStart b \<longleftrightarrow> b AND 0xC0 \<noteq> 0x80"

text \<open>The backward scan \<open>for start--; start >= lim; start--\<close>; \<open>start\<close> may end at \<open>lim - 1\<close>.\<close>

function scan_start :: "bytes \<Rightarrow> int \<Rightarrow> int \<Rightarrow> int" where
  "scan_start p lim start =
     (if start \<ge> lim then
        if RuneStart (p ! nat start) then start else scan_start p lim (start - 1)
      else start)"
  by pat_completeness auto
termination
  by (relation "measure (\<lambda>(p, lim, start). nat (start - lim + 1))") auto

definition DecodeLastRune :: "bytes \<Rightarrow> rune \<times> nat" where
  "DecodeLastRune p =
     (let end' = length p in
      if end' = 0 then (RuneError, 0)
      else let start = int end' - 1; r = (ucast (p ! nat start) :: rune) in
      if r <s ucast RuneSelf then (r, 1)
      else let lim = int end' - int UTFMax;
               lim = (if lim < 0 then 0 else lim);
               start = scan_start p lim (start - 1);
               start = (if start < 0 then 0 else start);
               (r, size) = DecodeRune (seg (nat start) end' p) in
      if nat start + size \<noteq> end' then (RuneError, 1)
      else (r, size))"

definition DecodeLastRuneInString :: "bytes \<Rightarrow> rune \<times> nat" where
  "DecodeLastRuneInString s =
     (let end' = length s in
      if end' = 0 then (RuneError, 0)
      else let start = int end' - 1; r = (ucast (s ! nat start) :: rune) in
      if r <s ucast RuneSelf then (r, 1)
      else let lim = int end' - int UTFMax;
               lim = (if lim < 0 then 0 else lim);
               start = scan_start s lim (start - 1);
               start = (if start < 0 then 0 else start);
               (r, size) = DecodeRuneInString (seg (nat start) end' s) in
      if nat start + size \<noteq> end' then (RuneError, 1)
      else (r, size))"

definition RuneLen :: "rune \<Rightarrow> int" where
  "RuneLen r =
     (if r <s 0 then -1
      else if r \<le>s rune1Max then 1
      else if r \<le>s rune2Max then 2
      else if surrogateMin \<le>s r \<and> r \<le>s surrogateMax then -1
      else if r \<le>s rune3Max then 3
      else if r \<le>s MaxRune then 4
      else -1)"

text \<open>
  \<open>EncodeRune\<close> writes into the slice it is given: the model returns the slice written and the
  width, and panics where a bounds check of the code does.  The switch is on \<open>uint32(r)\<close>,
  so its comparisons are unsigned.
\<close>

definition encode3 :: "bytes \<Rightarrow> rune \<Rightarrow> (bytes \<times> nat) go" where
  "encode3 p r =
     (if length p < 3 then Inl IndexOutOfRange
      else Inr (p[0 := utf8_t3 OR ucast (signed_drop_bit 12 r),
                  1 := utf8_tx OR (ucast (signed_drop_bit 6 r) AND utf8_maskx),
                  2 := utf8_tx OR (ucast r AND utf8_maskx)], 3))"

definition EncodeRune :: "bytes \<Rightarrow> rune \<Rightarrow> (bytes \<times> nat) go" where
  "EncodeRune p r =
     (if r \<le> rune1Max then
        if length p < 1 then Inl IndexOutOfRange else Inr (p[0 := ucast r], 1)
      else if r \<le> rune2Max then
        if length p < 2 then Inl IndexOutOfRange
        else Inr (p[0 := utf8_t2 OR ucast (signed_drop_bit 6 r),
                    1 := utf8_tx OR (ucast r AND utf8_maskx)], 2)
      else if r > MaxRune \<or> surrogateMin \<le> r \<and> r \<le> surrogateMax then
        encode3 p RuneError
      else if r \<le> rune3Max then encode3 p r
      else
        if length p < 4 then Inl IndexOutOfRange
        else Inr (p[0 := utf8_t4 OR ucast (signed_drop_bit 18 r),
                    1 := utf8_tx OR (ucast (signed_drop_bit 12 r) AND utf8_maskx),
                    2 := utf8_tx OR (ucast (signed_drop_bit 6 r) AND utf8_maskx),
                    3 := utf8_tx OR (ucast r AND utf8_maskx)], 4))"

definition ValidRune :: "rune \<Rightarrow> bool" where
  "ValidRune r =
     (if 0 \<le>s r \<and> r <s surrogateMin then True
      else if surrogateMax <s r \<and> r \<le>s MaxRune then True
      else False)"

text \<open>The bytes the language's \<open>string(r)\<close> and every \<open>WriteRune\<close> produce for a rune.\<close>

definition rune_bytes :: "rune \<Rightarrow> bytes" where
  "rune_bytes r =
     (case EncodeRune (replicate UTFMax 0) r of Inl _ \<Rightarrow> [] | Inr (q, n) \<Rightarrow> take n q)"

subsection \<open>The encoding as arithmetic\<close>

text \<open>
  The standard's description of UTF-8 over natural numbers: which code points are valid, the
  shortest encoding of each, and the decoder of the first sequence of a list.
\<close>

definition valid_nat :: "nat \<Rightarrow> bool" where
  "valid_nat v \<longleftrightarrow> v < 0xD800 \<or> 0xDFFF < v \<and> v \<le> 0x10FFFF"

definition enc_nat :: "nat \<Rightarrow> nat list" where
  "enc_nat v =
     (if v < 0x80 then [v]
      else if v < 0x800 then [0xC0 + v div 64, 0x80 + v mod 64]
      else if v < 0x10000 then [0xE0 + v div 4096, 0x80 + v div 64 mod 64, 0x80 + v mod 64]
      else [0xF0 + v div 262144, 0x80 + v div 4096 mod 64, 0x80 + v div 64 mod 64, 0x80 + v mod 64])"

definition lo_nat :: "nat \<Rightarrow> nat" where
  "lo_nat b = (if b = 0xE0 then 0xA0 else if b = 0xF0 then 0x90 else 0x80)"

definition hi_nat :: "nat \<Rightarrow> nat" where
  "hi_nat b = (if b = 0xED then 0x9F else if b = 0xF4 then 0x8F else 0xBF)"

definition cont_nat :: "nat \<Rightarrow> bool" where
  "cont_nat b \<longleftrightarrow> 0x80 \<le> b \<and> b \<le> 0xBF"

definition second_ok :: "nat \<Rightarrow> nat \<Rightarrow> bool" where
  "second_ok b0 b1 \<longleftrightarrow> lo_nat b0 \<le> b1 \<and> b1 \<le> hi_nat b0"

definition dec_nat :: "nat list \<Rightarrow> nat \<times> nat" where
  "dec_nat p =
     (let n = length p; b = (\<lambda>k. p ! k); second = lo_nat (b 0) \<le> b 1 \<and> b 1 \<le> hi_nat (b 0) in
      if n = 0 then (0xFFFD, 0)
      else if b 0 < 0x80 then (b 0, 1)
      else if b 0 < 0xC2 \<or> 0xF4 < b 0 then (0xFFFD, 1)
      else if b 0 < 0xE0 then
        if 2 \<le> n \<and> second then (b 0 mod 32 * 64 + b 1 mod 64, 2) else (0xFFFD, 1)
      else if b 0 < 0xF0 then
        if 3 \<le> n \<and> second \<and> cont_nat (b 2)
        then (b 0 mod 16 * 4096 + b 1 mod 64 * 64 + b 2 mod 64, 3) else (0xFFFD, 1)
      else
        if 4 \<le> n \<and> second \<and> cont_nat (b 2) \<and> cont_nat (b 3)
        then (b 0 mod 8 * 262144 + b 1 mod 64 * 4096 + b 2 mod 64 * 64 + b 3 mod 64, 4)
        else (0xFFFD, 1))"

section \<open>Tables and views\<close>

lemma first_eq_map:
  "first = map (\<lambda>n.
     if n < 0x80 then info_as else if n < 0xC2 then info_xx
     else if n < 0xE0 then info_s1 else if n = 0xE0 then info_s2
     else if n < 0xED then info_s3 else if n = 0xED then info_s4
     else if n < 0xF0 then info_s3 else if n = 0xF0 then info_s5
     else if n < 0xF4 then info_s6 else if n = 0xF4 then info_s7
     else info_xx) [0..<256]"
  by code_simp

lemma lead_info_cases:
  "lead_info b =
     (if unat b < 0x80 then info_as else if unat b < 0xC2 then info_xx
      else if unat b < 0xE0 then info_s1 else if unat b = 0xE0 then info_s2
      else if unat b < 0xED then info_s3 else if unat b = 0xED then info_s4
      else if unat b < 0xF0 then info_s3 else if unat b = 0xF0 then info_s5
      else if unat b < 0xF4 then info_s6 else if unat b = 0xF4 then info_s7
      else info_xx)"
proof -
  obtain n where n: "unat b = n" "n < 256" using unsigned_less [of b] by simp
  then show ?thesis
    unfolding lead_info_def first_eq_map n(1) by simp
qed

lemmas lead_simps = info_size_def info_accept_def acceptRanges_def

lemma lead_info_size_pos: "\<not> b < RuneSelf \<Longrightarrow> 0 < info_size (lead_info b)"
  unfolding lead_info_cases by (auto simp: word_less_nat_alt lead_simps)

lemma ValidRune_iff:
  "ValidRune r \<longleftrightarrow> unat r < 0xD800 \<or> 0xDFFF < unat r \<and> unat r \<le> 0x10FFFF"
proof -
  obtain n where "unat r = n" "uint r = int n" "n < 2 ^ LENGTH(32)" by (rule word_natE)
  then show ?thesis
    unfolding ValidRune_def sless_view sle_view sint_view by auto
qed

lemma tx_view: "unat (0x80 OR (b AND 0x3F) :: byte) = 0x80 + unat b mod 64"
proof -
  have m: "unat (b AND 0x3F) = unat b mod 64"
    using unat_and_mask [of b 6] by (simp add: mask_eq_exp_minus_1)
  show ?thesis
    by (subst unat_or_disjoint [where n = 6]) (simp_all add: m)
qed

lemma lead_view:
  "unat b < 32 \<Longrightarrow> unat (0xC0 OR b :: byte) = 0xC0 + unat b"
  "unat b < 16 \<Longrightarrow> unat (0xE0 OR b :: byte) = 0xE0 + unat b"
  "unat b < 8 \<Longrightarrow> unat (0xF0 OR b :: byte) = 0xF0 + unat b"
  by (subst unat_or_disjoint [where n = 5], simp_all)
     (subst unat_or_disjoint [where n = 4], simp_all)+

lemma rune_bytes_cases:
  "rune_bytes r =
     (if r \<le> rune1Max then [ucast r]
      else if r \<le> rune2Max then
        [utf8_t2 OR ucast (signed_drop_bit 6 r), utf8_tx OR (ucast r AND utf8_maskx)]
      else if ValidRune r \<and> \<not> r \<le> rune3Max then
        [utf8_t4 OR ucast (signed_drop_bit 18 r),
         utf8_tx OR (ucast (signed_drop_bit 12 r) AND utf8_maskx),
         utf8_tx OR (ucast (signed_drop_bit 6 r) AND utf8_maskx),
         utf8_tx OR (ucast r AND utf8_maskx)]
      else let r = (if ValidRune r then r else RuneError) in
        [utf8_t3 OR ucast (signed_drop_bit 12 r),
         utf8_tx OR (ucast (signed_drop_bit 6 r) AND utf8_maskx),
         utf8_tx OR (ucast r AND utf8_maskx)])"
proof -
  have 4: "replicate UTFMax x = [x, x, x, x]" for x :: byte
    by (simp add: eval_nat_numeral)
  have valid: "(r > MaxRune \<or> surrogateMin \<le> r \<and> r \<le> surrogateMax) \<longleftrightarrow> \<not> ValidRune r"
    by (auto simp: ValidRune_iff word_le_nat_alt word_less_nat_alt)
  have upd: "[a, b, c, d][0 := e, 1 := f, 2 := g, 3 := h] = [e, f, g, h]"
    "[a, b, c, d][0 := e, 1 := f, 2 := g] = [e, f, g, d]"
    "[a, b, c, d][0 := e, 1 := f] = [e, f, c, d]"
    for a b c d e f g h :: byte
    by (simp_all add: eval_nat_numeral)
  have len: "length [a, b, c, d] = 4" for a b c d :: byte
    by simp
  show ?thesis
    unfolding rune_bytes_def EncodeRune_def encode3_def 4 valid upd len
    by (cases "ValidRune r"; cases "r \<le> rune3Max") (simp_all add: Let_def)
qed

lemma map_unat_rune_bytes:
  "map unat (rune_bytes r) = enc_nat (if ValidRune r then unat r else 0xFFFD)"
proof -
  obtain n where n: "unat r = n" by blast
  show ?thesis
  proof (cases "ValidRune r")
    case True
    then show ?thesis
      unfolding rune_bytes_cases
      by (auto simp: n ValidRune_iff enc_nat_def word_le_nat_alt word_less_nat_alt tx_view lead_view
          view_simps mod_mod_cancel)
  next
    case False
    then show ?thesis
      unfolding rune_bytes_cases
      by (auto simp: n ValidRune_iff enc_nat_def word_le_nat_alt word_less_nat_alt tx_view lead_view
          view_simps)
  qed
qed


lemma mask_views:
  "unat (b AND 0x3F :: byte) = unat b mod 64"
  "unat (b AND 0x1F :: byte) = unat b mod 32"
  "unat (b AND 0x0F :: byte) = unat b mod 16"
  "unat (b AND 0x07 :: byte) = unat b mod 8"
  using unat_and_mask [of b 6] unat_and_mask [of b 5] unat_and_mask [of b 4] unat_and_mask [of b 3]
  by (simp_all add: mask_eq_exp_minus_1)

lemma shift_views:
  fixes b :: byte
  assumes "unat b < 64"
  shows "unat (push_bit 6 (ucast b) :: rune) = unat b * 64"
    and "unat (push_bit 12 (ucast b) :: rune) = unat b * 4096"
    and "unat (push_bit 18 (ucast b) :: rune) = unat b * 262144"
    and "unat (ucast b :: rune) = unat b"
  using assms by (simp_all add: view_simps)

lemma decode2_view:
  "unat (push_bit 6 (ucast (b0 AND 0x1F)) OR ucast (b1 AND 0x3F) :: rune)
   = unat (b0 :: byte) mod 32 * 64 + unat (b1 :: byte) mod 64"
proof -
  have "unat (b0 AND 0x1F) < 64" "unat (b1 AND 0x3F) < 64" by (simp_all add: mask_views)
  then show ?thesis
    by (subst unat_or_disjoint [where n = 6]) (simp_all add: shift_views, simp_all add: mask_views)
qed

lemma decode3_view:
  "unat (push_bit 12 (ucast (b0 AND 0x0F)) OR push_bit 6 (ucast (b1 AND 0x3F))
         OR ucast (b2 AND 0x3F) :: rune)
   = unat (b0 :: byte) mod 16 * 4096 + unat (b1 :: byte) mod 64 * 64 + unat (b2 :: byte) mod 64"
  (is "unat (?x OR ?y OR ?z) = _")
proof -
  have m: "unat (b0 AND 0x0F) < 64" "unat (b1 AND 0x3F) < 64" "unat (b2 AND 0x3F) < 64"
    by (simp_all add: mask_views)
  have x: "unat ?x = unat b0 mod 16 * 4096" and y: "unat ?y = unat b1 mod 64 * 64"
    and z: "unat ?z = unat b2 mod 64"
    by (simp_all only: shift_views m mask_views)
  have xy: "unat (?x OR ?y) = unat ?x + unat ?y"
    by (rule unat_or_disjoint [where n = 12]) (simp_all only: x y, simp_all)
  have "unat ((?x OR ?y) OR ?z) = unat (?x OR ?y) + unat ?z"
    by (rule unat_or_disjoint [where n = 6]) (simp_all only: xy x y z, simp_all, presburger?)
  then show ?thesis by (simp only: xy x y z or.assoc [symmetric])
qed

lemma decode4_view:
  "unat (push_bit 18 (ucast (b0 AND 0x07)) OR push_bit 12 (ucast (b1 AND 0x3F))
         OR push_bit 6 (ucast (b2 AND 0x3F)) OR ucast (b3 AND 0x3F) :: rune)
   = unat (b0 :: byte) mod 8 * 262144 + unat (b1 :: byte) mod 64 * 4096
     + unat (b2 :: byte) mod 64 * 64 + unat (b3 :: byte) mod 64"
  (is "unat (?x OR ?y OR ?z OR ?w) = _")
proof -
  have m: "unat (b0 AND 0x07) < 64" "unat (b1 AND 0x3F) < 64" "unat (b2 AND 0x3F) < 64"
    "unat (b3 AND 0x3F) < 64"
    by (simp_all add: mask_views)
  have x: "unat ?x = unat b0 mod 8 * 262144" and y: "unat ?y = unat b1 mod 64 * 4096"
    and z: "unat ?z = unat b2 mod 64 * 64" and w: "unat ?w = unat b3 mod 64"
    by (simp_all only: shift_views m mask_views)
  have xy: "unat (?x OR ?y) = unat ?x + unat ?y"
    by (rule unat_or_disjoint [where n = 18]) (simp_all only: x y, simp_all)
  have xyz: "unat ((?x OR ?y) OR ?z) = unat (?x OR ?y) + unat ?z"
    by (rule unat_or_disjoint [where n = 12]) (simp_all only: xy x y z, simp_all, presburger?)
  have "unat (((?x OR ?y) OR ?z) OR ?w) = unat ((?x OR ?y) OR ?z) + unat ?w"
    by (rule unat_or_disjoint [where n = 6]) (simp_all only: xyz xy x y z w, simp_all, presburger?)
  then show ?thesis by (simp only: xyz xy x y z w or.assoc [symmetric])
qed

lemma dec_mask_views:
  "signed_drop_bit 31 (push_bit 31 (ucast (0xF0 :: byte) :: rune)) = 0"
  "signed_drop_bit 31 (push_bit 31 (ucast (0xF1 :: byte) :: rune)) = -1"
  by simp_all

lemma unat_ucast_rune: "unat (ucast (b :: byte) :: rune) = unat b"
proof -
  have "unat b < 256" using unsigned_less [where 'a = nat, of b] by simp
  then show ?thesis by (simp add: view_simps)
qed

lemma DecodeRune_ascii:
  assumes "p \<noteq> []" and "lead_info (p ! 0) = info_as"
  shows "DecodeRune p = (ucast (p ! 0), 1)"
  using assms by (simp add: DecodeRune_def dec_mask_views Suc_le_eq)

lemma DecodeRune_invalid:
  assumes "p \<noteq> []" and "lead_info (p ! 0) = info_xx"
  shows "DecodeRune p = (RuneError, 1)"
  using assms by (simp add: DecodeRune_def dec_mask_views Suc_le_eq)

lemma DecodeRune_2:
  assumes "p \<noteq> []" and "lead_info (p ! 0) = info_s1"
  shows "DecodeRune p =
    (if 2 \<le> length p \<and> cont_nat (unat (p ! 1))
     then (push_bit 6 (ucast (p ! 0 AND 0x1F)) OR ucast (p ! 1 AND 0x3F), 2) else (RuneError, 1))"
  using assms unfolding DecodeRune_def Let_def
  by (auto simp: lead_simps cont_nat_def word_less_nat_alt Suc_le_eq not_less)

lemma DecodeRune_3:
  assumes "p \<noteq> []" and "info_size (lead_info (p ! 0)) = 3" and "\<not> info_as \<le> lead_info (p ! 0)"
  shows "DecodeRune p =
    (if 3 \<le> length p \<and> \<not> (p ! 1 < accept_lo (info_accept (lead_info (p ! 0))) \<or>
                            accept_hi (info_accept (lead_info (p ! 0))) < p ! 1)
        \<and> cont_nat (unat (p ! 2))
     then (push_bit 12 (ucast (p ! 0 AND 0x0F)) OR push_bit 6 (ucast (p ! 1 AND 0x3F))
           OR ucast (p ! 2 AND 0x3F), 3) else (RuneError, 1))"
  using assms unfolding DecodeRune_def Let_def
  by (auto simp: cont_nat_def word_less_nat_alt Suc_le_eq not_less)

lemma DecodeRune_4:
  assumes "p \<noteq> []" and "info_size (lead_info (p ! 0)) = 4" and "\<not> info_as \<le> lead_info (p ! 0)"
  shows "DecodeRune p =
    (if 4 \<le> length p \<and> \<not> (p ! 1 < accept_lo (info_accept (lead_info (p ! 0))) \<or>
                            accept_hi (info_accept (lead_info (p ! 0))) < p ! 1)
        \<and> cont_nat (unat (p ! 2)) \<and> cont_nat (unat (p ! 3))
     then (push_bit 18 (ucast (p ! 0 AND 0x07)) OR push_bit 12 (ucast (p ! 1 AND 0x3F))
           OR push_bit 6 (ucast (p ! 2 AND 0x3F)) OR ucast (p ! 3 AND 0x3F), 4)
     else (RuneError, 1))"
  using assms unfolding DecodeRune_def Let_def
  by (auto simp: cont_nat_def word_less_nat_alt Suc_le_eq not_less)

lemma accept_view:
  assumes "0xE0 \<le> unat b0" and "unat b0 \<le> 0xF4"
  shows "\<not> (b1 < accept_lo (info_accept (lead_info b0)) \<or>
            accept_hi (info_accept (lead_info b0)) < b1) \<longleftrightarrow>
         second_ok (unat b0) (unat b1)"
  using assms unfolding lead_info_cases second_ok_def lo_nat_def hi_nat_def
  by (simp add: lead_simps word_less_nat_alt not_less)


lemma DecodeRune_view:
  "(unat (fst (DecodeRune p)), snd (DecodeRune p)) = dec_nat (map unat p)"
proof (cases "p = []")
  case True
  then show ?thesis by (simp add: DecodeRune_def dec_nat_def)
next
  case False
  then have p: "0 < length p" by simp
  define b0 where "b0 = p ! 0"
  have dn: "dec_nat (map unat p) =
     (if unat b0 < 0x80 then (unat b0, 1)
      else if unat b0 < 0xC2 \<or> 0xF4 < unat b0 then (0xFFFD, 1)
      else if unat b0 < 0xE0 then
        if 2 \<le> length p \<and> second_ok (unat b0) (unat (p ! 1))
        then (unat b0 mod 32 * 64 + unat (p ! 1) mod 64, 2) else (0xFFFD, 1)
      else if unat b0 < 0xF0 then
        if 3 \<le> length p \<and> second_ok (unat b0) (unat (p ! 1)) \<and> cont_nat (unat (p ! 2))
        then (unat b0 mod 16 * 4096 + unat (p ! 1) mod 64 * 64 + unat (p ! 2) mod 64, 3)
        else (0xFFFD, 1)
      else
        if 4 \<le> length p \<and> second_ok (unat b0) (unat (p ! 1)) \<and> cont_nat (unat (p ! 2))
           \<and> cont_nat (unat (p ! 3))
        then (unat b0 mod 8 * 262144 + unat (p ! 1) mod 64 * 4096 + unat (p ! 2) mod 64 * 64
              + unat (p ! 3) mod 64, 4)
        else (0xFFFD, 1))"
    using p unfolding dec_nat_def Let_def second_ok_def b0_def
    by (simp cong: conj_cong if_cong)
  consider "unat b0 < 0x80" | "0x80 \<le> unat b0" "unat b0 < 0xC2 \<or> 0xF4 < unat b0"
    | "0xC2 \<le> unat b0" "unat b0 < 0xE0" | "0xE0 \<le> unat b0" "unat b0 < 0xF0"
    | "0xF0 \<le> unat b0" "unat b0 \<le> 0xF4"
    by linarith
  then show ?thesis
  proof cases
    case 1
    then have "lead_info (p ! 0) = info_as" by (simp add: lead_info_cases b0_def)
    with False have "DecodeRune p = (ucast (p ! 0), 1)" by (rule DecodeRune_ascii)
    then show ?thesis using 1 by (simp add: dn unat_ucast_rune b0_def)
  next
    case 2
    then have "lead_info (p ! 0) = info_xx" by (auto simp: lead_info_cases b0_def)
    with False have "DecodeRune p = (RuneError, 1)" by (rule DecodeRune_invalid)
    then show ?thesis using 2 by (auto simp: dn)
  next
    case 3
    then have "lead_info (p ! 0) = info_s1" by (simp add: lead_info_cases b0_def)
    from DecodeRune_2 [OF False this] 3 show ?thesis
      unfolding dn second_ok_def lo_nat_def hi_nat_def cont_nat_def
      by (simp add: decode2_view b0_def)
  next
    case 4
    then have l: "info_size (lead_info (p ! 0)) = 3" "\<not> info_as \<le> lead_info (p ! 0)"
      unfolding lead_info_cases b0_def [symmetric] by (auto simp: lead_simps)
    have "\<not> (p ! 1 < accept_lo (info_accept (lead_info (p ! 0))) \<or>
            accept_hi (info_accept (lead_info (p ! 0))) < p ! 1) \<longleftrightarrow>
          second_ok (unat b0) (unat (p ! 1))"
      unfolding b0_def [symmetric] using 4 by (intro accept_view) auto
    note DecodeRune_3 [OF False l, unfolded this]
    then show ?thesis using 4
      unfolding dn by (simp add: decode3_view b0_def)
  next
    case 5
    then have l: "info_size (lead_info (p ! 0)) = 4" "\<not> info_as \<le> lead_info (p ! 0)"
      unfolding lead_info_cases b0_def [symmetric] by (auto simp: lead_simps)
    have "\<not> (p ! 1 < accept_lo (info_accept (lead_info (p ! 0))) \<or>
            accept_hi (info_accept (lead_info (p ! 0))) < p ! 1) \<longleftrightarrow>
          second_ok (unat b0) (unat (p ! 1))"
      unfolding b0_def [symmetric] using 5 by (intro accept_view) auto
    note DecodeRune_4 [OF False l, unfolded this]
    then show ?thesis using 5
      unfolding dn by (simp add: decode4_view b0_def)
  qed
qed

lemma mod_window:
  assumes "c mod m = 0" and "c \<le> b" and "b < c + m"
  shows "b mod m = b - (c :: nat)"
proof -
  from assms obtain k where b: "b = c + k" "k < m" by (auto simp: le_iff_add)
  have "(c + k) mod m = k mod m" using assms(1) by (metis add_0 mod_add_left_eq)
  with b show ?thesis by simp
qed

lemma cont_mod64: "cont_nat b \<Longrightarrow> b mod 64 = b - 0x80"
  by (rule mod_window) (simp_all add: cont_nat_def)

lemma second_cont: "second_ok b0 b1 \<Longrightarrow> cont_nat b1"
  by (auto simp: second_ok_def lo_nat_def hi_nat_def cont_nat_def split: if_splits)

lemma lead_mod:
  "0xC0 \<le> b \<Longrightarrow> b < 0xE0 \<Longrightarrow> b mod 32 = b - (0xC0::nat)"
  "0xE0 \<le> b \<Longrightarrow> b < 0xF0 \<Longrightarrow> b mod 16 = b - (0xE0::nat)"
  "0xF0 \<le> b \<Longrightarrow> b < 0xF8 \<Longrightarrow> b mod 8 = b - (0xF0::nat)"
  by (rule mod_window; simp)+

lemma dec_nat_1: "b0 < 0x80 \<Longrightarrow> dec_nat (b0 # q) = (b0, 1)"
  by (simp add: dec_nat_def)

lemma dec_nat_2:
  "0xC2 \<le> b0 \<Longrightarrow> b0 < 0xE0 \<Longrightarrow> cont_nat b1 \<Longrightarrow>
   dec_nat (b0 # b1 # q) = ((b0 - 0xC0) * 64 + (b1 - 0x80), 2)"
  using cont_mod64 [of b1] lead_mod(1) [of b0]
  by (auto simp: dec_nat_def Let_def cont_nat_def lo_nat_def hi_nat_def)

lemma dec_nat_3:
  "0xE0 \<le> b0 \<Longrightarrow> b0 < 0xF0 \<Longrightarrow> second_ok b0 b1 \<Longrightarrow> cont_nat b2 \<Longrightarrow>
   dec_nat (b0 # b1 # b2 # q) = ((b0 - 0xE0) * 4096 + (b1 - 0x80) * 64 + (b2 - 0x80), 3)"
  using cont_mod64 [of b1] cont_mod64 [of b2] lead_mod(2) [of b0] second_cont [of b0 b1]
  by (simp add: dec_nat_def Let_def second_ok_def)

lemma dec_nat_4:
  "0xF0 \<le> b0 \<Longrightarrow> b0 \<le> 0xF4 \<Longrightarrow> second_ok b0 b1 \<Longrightarrow> cont_nat b2 \<Longrightarrow> cont_nat b3 \<Longrightarrow>
   dec_nat (b0 # b1 # b2 # b3 # q) =
     ((b0 - 0xF0) * 262144 + (b1 - 0x80) * 4096 + (b2 - 0x80) * 64 + (b3 - 0x80), 4)"
  using cont_mod64 [of b1] cont_mod64 [of b2] cont_mod64 [of b3] lead_mod(3) [of b0]
    second_cont [of b0 b1]
  by (simp add: dec_nat_def Let_def second_ok_def nth_Cons')

lemma split64:
  obtains w c where "v = 64 * w + c" "c < 64" "v div 64 = w" "v mod 64 = (c::nat)"
  using that [of "v div 64" "v mod 64"] by simp

lemma dec_enc_nat:
  assumes "valid_nat v"
  shows "dec_nat (enc_nat v @ q) = (v, length (enc_nat v))"
proof -
  obtain w d where v: "v = 64 * w + d" "d < 64" "v div 64 = w" "v mod 64 = d" by (rule split64)
  obtain x c where w: "w = 64 * x + c" "c < 64" "w div 64 = x" "w mod 64 = c" by (rule split64)
  obtain a b where x: "x = 64 * a + b" "b < 64" "x div 64 = a" "x mod 64 = b" by (rule split64)
  have div: "v div 4096 = x" "v div 262144 = a" "v div 4096 mod 64 = b" "v div 64 mod 64 = c"
    using v(3) w(3,4) x(3,4) div_mult2_eq [of v 64 64] div_mult2_eq [of v 4096 64] by simp_all
  have cont: "k < 64 \<Longrightarrow> cont_nat (128 + k)" for k by (simp add: cont_nat_def)
  consider "v < 0x80" | "0x80 \<le> v" "v < 0x800" | "0x800 \<le> v" "v < 0x10000" | "0x10000 \<le> v"
    by linarith
  then show ?thesis
  proof cases
    case 1
    then show ?thesis by (simp add: enc_nat_def dec_nat_1)
  next
    case 2
    then have "2 \<le> w" "w < 32" using v(1,2) by linarith+
    then have "dec_nat ((0xC0 + w) # (0x80 + d) # q) = (v, 2)"
      using v(1) cont [OF v(2)] by (subst dec_nat_2) simp_all
    with 2 show ?thesis by (simp add: enc_nat_def v(3,4))
  next
    case 3
    have "second_ok (0xE0 + x) (0x80 + c)" and "x < 16"
      using 3 assms v(1,2) w(1,2) unfolding second_ok_def lo_nat_def hi_nat_def valid_nat_def
      by auto
    then have "dec_nat ((0xE0 + x) # (0x80 + c) # (0x80 + d) # q) = (v, 3)"
      using cont [OF v(2)] v(1) w(1) by (subst dec_nat_3) simp_all
    with 3 show ?thesis by (simp add: enc_nat_def v(4) div)
  next
    case 4
    have "second_ok (0xF0 + a) (0x80 + b)" and "a \<le> 4"
      using 4 assms v(1,2) w(1,2) x(1,2) unfolding second_ok_def lo_nat_def hi_nat_def valid_nat_def
      by auto
    then have "dec_nat ((0xF0 + a) # (0x80 + b) # (0x80 + c) # (0x80 + d) # q) = (v, 4)"
      using cont [OF v(2)] cont [OF w(2)] v(1) w(1) x(1) by (subst dec_nat_4) simp_all
    with 4 show ?thesis by (simp add: enc_nat_def v(4) div x(4))
  qed
qed


lemma list_nth_Cons: "k < length bs \<Longrightarrow> drop k bs = bs ! k # drop (Suc k) bs"
  by (rule Cons_nth_drop_Suc [symmetric])

lemma divmod64: "d < 64 \<Longrightarrow> (64 * k + d) div 64 = k" "d < 64 \<Longrightarrow> (64 * k + d) mod 64 = (d::nat)"
  by simp_all

lemma dec_nat_class:
  "0xC2 \<le> b0 \<Longrightarrow> b0 < 0xE0 \<Longrightarrow> \<not> (2 \<le> length (b0 # q) \<and> second_ok b0 ((b0 # q) ! 1)) \<Longrightarrow>
     dec_nat (b0 # q) = (0xFFFD, 1)"
  "0xE0 \<le> b0 \<Longrightarrow> b0 < 0xF0 \<Longrightarrow>
     \<not> (3 \<le> length (b0 # q) \<and> second_ok b0 ((b0 # q) ! 1) \<and> cont_nat ((b0 # q) ! 2)) \<Longrightarrow>
     dec_nat (b0 # q) = (0xFFFD, 1)"
  "0xF0 \<le> b0 \<Longrightarrow> b0 \<le> 0xF4 \<Longrightarrow>
     \<not> (4 \<le> length (b0 # q) \<and> second_ok b0 ((b0 # q) ! 1) \<and> cont_nat ((b0 # q) ! 2)
        \<and> cont_nat ((b0 # q) ! 3)) \<Longrightarrow>
     dec_nat (b0 # q) = (0xFFFD, 1)"
  unfolding dec_nat_def second_ok_def Let_def by simp_all

lemma enc_nat_2:
  assumes "2 \<le> w" "w < 32" "d < 64"
  shows "enc_nat (64 * w + d) = [0xC0 + w, 0x80 + d]"
  using assms by (simp add: enc_nat_def)

lemma enc_nat_3:
  assumes "x < 16" "c < 64" "d < 64" and "x = 0 \<Longrightarrow> 32 \<le> c"
  shows "enc_nat (64 * (64 * x + c) + d) = [0xE0 + x, 0x80 + c, 0x80 + d]"
proof -
  let ?v = "64 * (64 * x + c) + d"
  have "?v div 64 = 64 * x + c" "?v mod 64 = d" by (rule divmod64 [OF assms(3)])+
  moreover have "?v div 4096 = x"
    using div_mult2_eq [of ?v 64 64] calculation divmod64(1) [OF assms(2), of x] by simp
  moreover have "0x800 \<le> ?v" "?v < 0x10000"
    using assms by (cases "x = 0"; simp)+
  ultimately show ?thesis using assms(2) by (simp add: enc_nat_def)
qed

lemma enc_nat_4:
  assumes "a < 8" "b < 64" "c < 64" "d < 64" and "a = 0 \<Longrightarrow> 16 \<le> b"
  shows "enc_nat (64 * (64 * (64 * a + b) + c) + d) = [0xF0 + a, 0x80 + b, 0x80 + c, 0x80 + d]"
proof -
  let ?x = "64 * a + b"
  let ?v = "64 * (64 * ?x + c) + d"
  have v: "?v div 64 = 64 * ?x + c" "?v mod 64 = d" by (rule divmod64 [OF assms(4)])+
  have x: "?v div 4096 = ?x"
    using div_mult2_eq [of ?v 64 64] v divmod64(1) [OF assms(3), of ?x] by simp
  have "?v div 262144 = a"
    using div_mult2_eq [of ?v 4096 64] divmod64(1) [OF assms(2), of a] x by simp
  moreover have "0x10000 \<le> ?v" using assms by (cases "a = 0"; simp)
  moreover have "(64 * ?x + c) mod 64 = c" "?x mod 64 = b"
    using divmod64 assms(2,3) by blast+
  ultimately show ?thesis unfolding enc_nat_def v x by simp
qed

lemma dec_nat_inv:
  assumes ne: "bs \<noteq> []" and dec: "dec_nat bs = (v, n)"
  shows "v = 0xFFFD \<and> n = 1 \<or> valid_nat v \<and> n \<le> length bs \<and> take n bs = enc_nat v"
proof (cases "v = 0xFFFD \<and> n = 1")
  case False
  obtain b0 q0 where bs: "bs = b0 # q0" using ne by (cases bs) auto
  have bad: "\<not> (b0 \<ge> 0x80 \<and> (b0 < 0xC2 \<or> 0xF4 < b0))"
    using dec False by (auto simp: bs dec_nat_def)
  consider "b0 < 0x80" | "0xC2 \<le> b0" "b0 < 0xE0" | "0xE0 \<le> b0" "b0 < 0xF0"
    | "0xF0 \<le> b0" "b0 \<le> 0xF4" using bad by linarith
  then show ?thesis
  proof cases
    case 1
    with dec show ?thesis by (auto simp: bs dec_nat_1 enc_nat_def valid_nat_def)
  next
    case 2
    have cls: "2 \<le> length bs \<and> second_ok b0 (bs ! 1)"
    proof (rule ccontr)
      assume "\<not> ?thesis"
      then have "dec_nat bs = (0xFFFD, 1)" unfolding bs by (rule dec_nat_class(1) [OF 2])
      with dec False show False by simp
    qed
    have "2 \<le> length bs" and c1: "second_ok b0 (bs ! 1)"
      using cls by blast+
    then obtain b1 q where q: "bs = b0 # b1 # q" by (cases q0) (auto simp: bs)
    have c: "cont_nat b1" using second_cont [OF c1] by (simp add: q)
    obtain w d where wd: "b0 = 0xC0 + w" "b1 = 0x80 + d" "2 \<le> w" "w < 32" "d < 64"
      using 2 c by (auto simp: cont_nat_def le_iff_add)
    have v: "v = 64 * w + d" "n = 2"
      using dec dec_nat_2 [OF 2 c, of q] by (simp_all add: q wd)
    have "valid_nat v" unfolding valid_nat_def v(1) using wd(4,5) by linarith
    then show ?thesis using enc_nat_2 [OF wd(3-5)] by (simp add: v q wd(1,2))
  next
    case 3
    have cls: "3 \<le> length bs \<and> second_ok b0 (bs ! 1) \<and> cont_nat (bs ! 2)"
    proof (rule ccontr)
      assume "\<not> ?thesis"
      then have "dec_nat bs = (0xFFFD, 1)" unfolding bs by (rule dec_nat_class(2) [OF 3])
      with dec False show False by simp
    qed
    have "3 \<le> length bs" and c1: "second_ok b0 (bs ! 1)" and c2: "cont_nat (bs ! 2)"
      using cls by blast+
    then obtain b1 b2 q where q: "bs = b0 # b1 # b2 # q"
      by (cases q0; cases "tl q0") (auto simp: bs)
    have c: "second_ok b0 b1" "cont_nat b1" "cont_nat b2"
      using c1 c2 second_cont [OF c1] by (simp_all add: q)
    obtain x c' d where xd: "b0 = 0xE0 + x" "b1 = 0x80 + c'" "b2 = 0x80 + d" "x < 16" "c' < 64" "d < 64"
      using 3 c by (auto simp: cont_nat_def le_iff_add)
    have v: "v = 64 * (64 * x + c') + d" "n = 3"
      using dec dec_nat_3 [OF 3 c(1,3), of q] by (simp_all add: q xd)
    have s: "x = 0 \<Longrightarrow> 32 \<le> c'" "x = 13 \<Longrightarrow> c' < 32"
      using c(1) by (auto simp: second_ok_def lo_nat_def hi_nat_def xd)
    have "valid_nat v" unfolding valid_nat_def v(1) using xd s by (cases "x < 13"; cases "x = 13") auto
    then show ?thesis using enc_nat_3 [OF xd(4-6) s(1)]
      by (simp add: v q xd)
  next
    case 4
    have cls: "4 \<le> length bs \<and> second_ok b0 (bs ! 1) \<and> cont_nat (bs ! 2) \<and> cont_nat (bs ! 3)"
    proof (rule ccontr)
      assume "\<not> ?thesis"
      then have "dec_nat bs = (0xFFFD, 1)" unfolding bs by (rule dec_nat_class(3) [OF 4])
      with dec False show False by simp
    qed
    have "4 \<le> length bs" and c1: "second_ok b0 (bs ! 1)" and c2: "cont_nat (bs ! 2)" "cont_nat (bs ! 3)"
      using cls by blast+
    then obtain b1 b2 b3 q where q: "bs = b0 # b1 # b2 # b3 # q"
      by (cases q0; cases "tl q0"; cases "tl (tl q0)") (auto simp: bs)
    have c: "second_ok b0 b1" "cont_nat b1" "cont_nat b2" "cont_nat b3"
      using c1 c2 second_cont [OF c1] by (simp_all add: q nth_Cons')
    obtain a b c' d where xd: "b0 = 0xF0 + a" "b1 = 0x80 + b" "b2 = 0x80 + c'" "b3 = 0x80 + d"
      "a < 8" "a \<le> 4" "b < 64" "c' < 64" "d < 64"
      by (rule that [of "b0 - 0xF0" "b1 - 0x80" "b2 - 0x80" "b3 - 0x80"])
        (use 4 c in \<open>auto simp: cont_nat_def\<close>)
    have v: "v = 64 * (64 * (64 * a + b) + c') + d" "n = 4"
      using dec dec_nat_4 [OF 4 c(1,3,4), of q] by (simp_all add: q xd)
    have s: "a = 0 \<Longrightarrow> 16 \<le> b" "a = 4 \<Longrightarrow> b < 16"
      using c(1) by (auto simp: second_ok_def lo_nat_def hi_nat_def xd)
    have "valid_nat v" unfolding valid_nat_def v(1) using xd s by (cases "a = 0"; cases "a = 4") auto
    then show ?thesis using enc_nat_4 [OF xd(5,7-9) s(1)]
      by (simp add: v q xd)
  qed
qed simp


section \<open>Decoding and encoding runes\<close>

lemma map_unat_inj: "map unat xs = map unat ys \<longleftrightarrow> xs = (ys :: bytes)"
  by (rule inj_map_eq_map) (simp add: inj_def word_unat_eq_iff)

lemma length_rune_bytes: "ValidRune r \<Longrightarrow> length (rune_bytes r) = length (enc_nat (unat r))"
  using arg_cong [OF map_unat_rune_bytes, of length r] by simp

lemma ValidRune_nat: "ValidRune r \<longleftrightarrow> valid_nat (unat r)"
  by (simp add: ValidRune_iff valid_nat_def)

lemma rune_bytes_not_Nil [simp]: "rune_bytes r \<noteq> []"
  using arg_cong [OF map_unat_rune_bytes, of length r] by (auto simp: enc_nat_def split: if_splits)

lemma decode_rune_bytes:
  assumes "ValidRune r"
  shows "DecodeRune (rune_bytes r @ q) = (r, length (rune_bytes r))"
proof -
  have "dec_nat (map unat (rune_bytes r @ q)) = (unat r, length (enc_nat (unat r)))"
    using assms by (simp add: map_unat_rune_bytes dec_enc_nat ValidRune_nat)
  then show ?thesis
    using assms unfolding DecodeRune_view [symmetric]
    by (auto simp: prod_eq_iff length_rune_bytes word_unat_eq_iff)
qed

lemma decode_cases:
  assumes "p \<noteq> []" and "DecodeRune p = (r, n)"
  obtains (error) "r = RuneError" "n = 1"
    | (rune) "ValidRune r" "n \<le> length p" "take n p = rune_bytes r" "n = length (rune_bytes r)"
proof -
  have d: "dec_nat (map unat p) = (unat r, n)"
    using DecodeRune_view [of p] assms(2) by simp
  show ?thesis
  proof (cases "unat r = 0xFFFD \<and> n = 1")
    case True
    then have "r = RuneError" by (simp add: word_unat_eq_iff)
    with True error show ?thesis by simp
  next
    case False
    then have v: "valid_nat (unat r)" "n \<le> length p" "take n (map unat p) = enc_nat (unat r)"
      using dec_nat_inv [OF _ d] assms(1) by auto
    then have "map unat (take n p) = map unat (rune_bytes r)"
      by (simp add: map_unat_rune_bytes ValidRune_nat take_map)
    then have t: "take n p = rune_bytes r" by (simp only: map_unat_inj)
    then have "n = length (rune_bytes r)" using v(2) by (metis length_take min.absorb2)
    with v t rune show ?thesis by (simp add: ValidRune_nat)
  qed
qed

lemma length_rune_bytes_le: "length (rune_bytes r) \<le> 4" "1 \<le> length (rune_bytes r)"
  using arg_cong [OF map_unat_rune_bytes, of length r] by (auto simp: enc_nat_def split: if_splits)

lemma DecodeRune_size:
  assumes "p \<noteq> []"
  shows "1 \<le> snd (DecodeRune p)" and "snd (DecodeRune p) \<le> length p" and "snd (DecodeRune p) \<le> 4"
proof -
  obtain r n where d: "DecodeRune p = (r, n)" by (cases "DecodeRune p")
  have "1 \<le> n \<and> n \<le> length p \<and> n \<le> 4"
    using assms d by (cases rule: decode_cases) (use assms length_rune_bytes_le [of r] in \<open>auto simp: Suc_le_eq\<close>)
  then show "1 \<le> snd (DecodeRune p)" "snd (DecodeRune p) \<le> length p" "snd (DecodeRune p) \<le> 4"
    by (simp_all add: d)
qed

lemma DecodeRune_Nil [simp]: "DecodeRune [] = (RuneError, 0)"
  by (simp add: DecodeRune_def)

lemma RuneLen_rune_bytes: "ValidRune r \<Longrightarrow> RuneLen r = int (length (rune_bytes r))"
proof -
  assume v: "ValidRune r"
  obtain n where n: "unat r = n" "uint r = int n" "n < 2 ^ LENGTH(32)" by (rule word_natE)
  show ?thesis
    unfolding length_rune_bytes [OF v] RuneLen_def sless_view sle_view sint_view enc_nat_def n(1)
    using v n by (auto simp: ValidRune_iff)
qed

lemma EncodeRune_spec:
  assumes "4 \<le> length p"
  shows "EncodeRune p r = Inr (rune_bytes r @ drop (length (rune_bytes r)) p, length (rune_bytes r))"
proof -
  obtain a b c d p' where p: "p = a # b # c # d # p'"
    using assms by (auto simp: Suc_le_length_iff numeral_eq_Suc)
  have valid: "(r > MaxRune \<or> surrogateMin \<le> r \<and> r \<le> surrogateMax) \<longleftrightarrow> \<not> ValidRune r"
    by (auto simp: ValidRune_iff word_le_nat_alt word_less_nat_alt)
  have upd: "(a # b # c # d # p')[0 := e, 1 := f, 2 := g, 3 := h] = e # f # g # h # p'"
    "(a # b # c # d # p')[0 := e, 1 := f, 2 := g] = e # f # g # d # p'"
    "(a # b # c # d # p')[0 := e, 1 := f] = e # f # c # d # p'"
    for e f g h :: byte
    by (simp_all add: eval_nat_numeral)
  show ?thesis
    unfolding p rune_bytes_cases EncodeRune_def encode3_def valid upd
    by (cases "ValidRune r"; cases "r \<le> rune3Max") (simp_all add: Let_def)
qed

end
