(* ===== verification/Utf16.thy ===== *)
theory Utf16
  imports Utf8
begin

text \<open>
  Package \<open>unicode/utf16\<close> (\<open>src/unicode/utf16/utf16.go\<close>): surrogate pairs and the conversions between
  rune slices and UTF-16.  Runes are compared with the signed order, code units (uint16) with
  the unsigned one.  \<open>Encode\<close> fills a slice it sized beforehand, so every store is an indexed
  write that could panic.
\<close>

type_synonym u16 = "16 word"

definition replacementChar :: rune where [simp]: "replacementChar = 0xFFFD"
definition maxRune16 :: rune where [simp]: "maxRune16 = 0x10FFFF"
definition surr1 :: nat where [simp]: "surr1 = 0xD800"
definition surr2 :: nat where [simp]: "surr2 = 0xDC00"
definition surr3 :: nat where [simp]: "surr3 = 0xE000"
definition surrSelf :: rune where [simp]: "surrSelf = 0x10000"

definition IsSurrogate :: "rune \<Rightarrow> bool" where
  "IsSurrogate r \<longleftrightarrow> of_nat surr1 \<le>s r \<and> r <s of_nat surr3"

definition DecodeRune16 :: "rune \<Rightarrow> rune \<Rightarrow> rune" where
  "DecodeRune16 r1 r2 =
     (if of_nat surr1 \<le>s r1 \<and> r1 <s of_nat surr2 \<and> of_nat surr2 \<le>s r2 \<and> r2 <s of_nat surr3
      then (push_bit 10 (r1 - of_nat surr1) OR (r2 - of_nat surr2)) + surrSelf
      else replacementChar)"

definition EncodeRune16 :: "rune \<Rightarrow> rune \<times> rune" where
  "EncodeRune16 r =
     (if r <s surrSelf \<or> maxRune16 <s r then (replacementChar, replacementChar)
      else let r = r - surrSelf in
        (of_nat surr1 + (signed_drop_bit 10 r AND 0x3FF), of_nat surr2 + (r AND 0x3FF)))"

text \<open>The second loop of \<open>Encode\<close>: the slice \<open>a\<close> being filled and the write position \<open>n\<close>.\<close>

fun Encode16_loop :: "rune list \<Rightarrow> u16 list \<Rightarrow> nat \<Rightarrow> (u16 list \<times> nat) go" where
  "Encode16_loop [] a n = Inr (a, n)"
| "Encode16_loop (v # s) a n =
     (if 0 \<le>s v \<and> v <s of_nat surr1 \<or> of_nat surr3 \<le>s v \<and> v <s surrSelf then
        go_bind (go_set a n (ucast v)) (\<lambda>a. Encode16_loop s a (n + 1))
      else if surrSelf \<le>s v \<and> v \<le>s maxRune16 then
        let (r1, r2) = EncodeRune16 v in
        go_bind (go_set a n (ucast r1)) (\<lambda>a.
        go_bind (go_set a (n + 1) (ucast r2)) (\<lambda>a. Encode16_loop s a (n + 2)))
      else go_bind (go_set a n (ucast replacementChar)) (\<lambda>a. Encode16_loop s a (n + 1)))"

definition Encode16 :: "rune list \<Rightarrow> u16 list go" where
  "Encode16 s =
     (let n = length s;
          n = foldl (\<lambda>n v. if surrSelf \<le>s v then n + 1 else n) n s in
      go_bind (Encode16_loop s (replicate n 0) 0) (\<lambda>(a, n). Inr (take n a)))"

text \<open>\<open>Decode\<close> writes at most one rune per code unit into a slice of the input's length.\<close>

function Decode16_loop :: "u16 list \<Rightarrow> nat \<Rightarrow> rune list \<Rightarrow> nat \<Rightarrow> (rune list \<times> nat) go" where
  "Decode16_loop s i a n =
     (if i < length s then
        let r = s ! i in
        if r < of_nat surr1 \<or> of_nat surr3 \<le> r then
          go_bind (go_set a n (ucast r)) (\<lambda>a. Decode16_loop s (i + 1) a (n + 1))
        else if of_nat surr1 \<le> r \<and> r < of_nat surr2 \<and> i + 1 < length s
                \<and> of_nat surr2 \<le> s ! (i + 1) \<and> s ! (i + 1) < of_nat surr3 then
          go_bind (go_set a n (DecodeRune16 (ucast r) (ucast (s ! (i + 1)))))
            (\<lambda>a. Decode16_loop s (i + 2) a (n + 1))
        else go_bind (go_set a n replacementChar) (\<lambda>a. Decode16_loop s (i + 1) a (n + 1))
      else Inr (a, n))"
  by pat_completeness auto
termination
  by (relation "measure (\<lambda>(s, i, a, n). length s - i)") auto

definition Decode16 :: "u16 list \<Rightarrow> rune list go" where
  "Decode16 s = go_bind (Decode16_loop s 0 (replicate (length s) 0) 0) (\<lambda>(a, n). Inr (take n a))"

declare Decode16_loop.simps [simp del]
lemmas Decode16_loop_simps [loop_unfold] = Decode16_loop.simps


section \<open>The conversions without the buffers\<close>

definition enc16 :: "rune \<Rightarrow> u16 list" where
  "enc16 v =
     (if \<not> ValidRune v then [0xFFFD]
      else if unat v < 0x10000 then [ucast v]
      else [ucast (fst (EncodeRune16 v)), ucast (snd (EncodeRune16 v))])"

function dec16 :: "u16 list \<Rightarrow> rune list" where
  "dec16 [] = []"
| "dec16 (r # s) =
     (if unat r < 0xD800 \<or> 0xE000 \<le> unat r then ucast r # dec16 s
      else if unat r < 0xDC00 \<and> s \<noteq> [] \<and> 0xDC00 \<le> unat (hd s) \<and> unat (hd s) < 0xE000
        then DecodeRune16 (ucast r) (ucast (hd s)) # dec16 (tl s)
      else 0xFFFD # dec16 s)"
  by pat_completeness auto
termination by (relation "measure length") auto

lemma units_needed: "foldl (\<lambda>n v. if surrSelf \<le>s v then n + 1 else n) k s
    = k + length (filter (\<lambda>v. surrSelf \<le>s v) s)"
  by (induction s arbitrary: k) (simp_all del: surrSelf_def)

lemma class16:
  "0 \<le>s v \<and> v <s of_nat surr1 \<or> of_nat surr3 \<le>s v \<and> v <s surrSelf \<longleftrightarrow> ValidRune v \<and> unat v < 0x10000"
  "surrSelf \<le>s v \<and> v \<le>s maxRune16 \<longleftrightarrow> ValidRune v \<and> 0x10000 \<le> unat v"
proof -
  obtain n where n: "unat v = n" "uint v = int n" "n < 2 ^ LENGTH(32)" by (rule word_natE)
  then show "0 \<le>s v \<and> v <s of_nat surr1 \<or> of_nat surr3 \<le>s v \<and> v <s surrSelf \<longleftrightarrow> ValidRune v \<and> unat v < 0x10000"
    "surrSelf \<le>s v \<and> v \<le>s maxRune16 \<longleftrightarrow> ValidRune v \<and> 0x10000 \<le> unat v"
    unfolding ValidRune_iff sless_view sle_view sint_view n(1) by auto
qed

lemma length_enc16: "length (enc16 v) \<le> 1 + (if surrSelf \<le>s v then 1 else 0)"
proof (cases "ValidRune v \<and> 0x10000 \<le> unat v")
  case True
  then have "surrSelf \<le>s v" using class16(2) by blast
  then show ?thesis by (simp add: enc16_def)
qed (auto simp: enc16_def)

lemma Encode16_loop_spec:
  "n + length s + length (filter (\<lambda>v. surrSelf \<le>s v) s) \<le> length a \<Longrightarrow>
   \<exists>a' n'. Encode16_loop s a n = Inr (a', n')
     \<and> take n' a' = take n a @ concat (map enc16 s)"
proof (induction s arbitrary: a n)
  case (Cons v s)
  consider "ValidRune v \<and> unat v < 0x10000" | "ValidRune v \<and> 0x10000 \<le> unat v" | "\<not> ValidRune v"
    by linarith
  then show ?case
  proof cases
    case 1
    have room: "n < length a" "n + 1 + length s + length (filter (\<lambda>v. surrSelf \<le>s v) s) \<le> length (a[n := ucast v])"
      using Cons.prems by (simp_all split: if_splits)
    from Cons.IH [OF room(2)] room(1) 1 show ?thesis
      unfolding Encode16_loop.simps class16 by (simp add: take_Suc_update enc16_def)
  next
    case 2
    then have "surrSelf \<le>s v" using class16(2) by blast
    obtain r1 r2 where r: "EncodeRune16 v = (r1, r2)" by fastforce
    have room: "n < length a" "Suc n < length a"
      "n + 2 + length s + length (filter (\<lambda>v. surrSelf \<le>s v) s) \<le> length (a[n := ucast r1, Suc n := ucast r2])"
      using Cons.prems \<open>surrSelf \<le>s v\<close> by (auto simp del: surrSelf_def)
    from Cons.IH [OF room(3)] room(1,2) 2 show ?thesis
      unfolding Encode16_loop.simps class16
      by (simp add: take_Suc_update enc16_def r)
  next
    case 3
    have room: "n < length a" "n + 1 + length s + length (filter (\<lambda>v. surrSelf \<le>s v) s) \<le> length (a[n := ucast replacementChar])"
      using Cons.prems by (simp_all split: if_splits)
    from Cons.IH [OF room(2)] room(1) 3 show ?thesis
      unfolding Encode16_loop.simps class16 by (simp add: take_Suc_update enc16_def)
  qed
qed simp

lemma Encode16_spec: "Encode16 s = Inr (concat (map enc16 s))"
  using Encode16_loop_spec [of 0 s "replicate (length s + length (filter (\<lambda>v. surrSelf \<le>s v) s)) 0"]
  unfolding Encode16_def Let_def units_needed by (auto simp del: surrSelf_def)

lemma Decode16_loop_spec:
  "n + (length s - i) \<le> length a \<Longrightarrow>
   \<exists>a' n'. Decode16_loop s i a n = Inr (a', n') \<and> take n' a' = take n a @ dec16 (drop i s)"
proof (induction s i a n rule: Decode16_loop.induct)
  case (1 s i a n)
  show ?case
  proof (cases "i < length s")
    case False
    then show ?thesis by (simp add: Decode16_loop.simps)
  next
    case True
    have d: "drop i s = s ! i # drop (Suc i) s" using True by (rule Cons_nth_drop_Suc [symmetric])
    have room: "n < length a" using 1(4) True by linarith
    let ?single = "s ! i < of_nat surr1 \<or> of_nat surr3 \<le> s ! i"
    let ?pair = "of_nat surr1 \<le> s ! i \<and> s ! i < of_nat surr2 \<and> i + 1 < length s
                \<and> of_nat surr2 \<le> s ! (i + 1) \<and> s ! (i + 1) < of_nat surr3"
    have single: "?single \<longleftrightarrow> unat (s ! i) < 0xD800 \<or> 0xE000 \<le> unat (s ! i)"
      by (simp add: word_less_nat_alt word_le_nat_alt)
    consider ?single | "\<not> ?single" ?pair | "\<not> ?single" "\<not> ?pair" by blast
    then show ?thesis
    proof cases
      case a: 1
      show ?thesis
        using 1(1) [OF True refl a, of "a[n := ucast (s ! i)]"] 1(4) True a room single
        by (subst Decode16_loop.simps) (simp add: d take_Suc_update Let_def del: of_nat_numeral surr1_def surr3_def)
    next
      case a: 2
      have pair: "unat (s ! i) < 0xDC00 \<and> drop (Suc i) s \<noteq> [] \<and> 0xDC00 \<le> unat (hd (drop (Suc i) s))
          \<and> unat (hd (drop (Suc i) s)) < 0xE000"
        using a(2) by (simp add: word_less_nat_alt word_le_nat_alt hd_drop_conv_nth)
      have h: "hd (drop (Suc i) s) = s ! (i + 1)" using a(2) by (simp add: hd_drop_conv_nth)
      have ns: "\<not> (unat (s ! i) < 0xD800 \<or> 0xE000 \<le> unat (s ! i))" using a(1) single by blast
      have e: "dec16 (drop i s) = DecodeRune16 (ucast (s ! i)) (ucast (s ! (i + 1))) # dec16 (drop (i + 2) s)"
        unfolding d dec16.simps(2) using pair ns h by (simp add: drop_Suc tl_drop)
      show ?thesis
        using 1(2) [OF True refl a, of "a[n := DecodeRune16 (ucast (s ! i)) (ucast (s ! (i + 1)))]"] 1(4) True a room
        unfolding e
        by (subst Decode16_loop.simps) (simp add: take_Suc_update Let_def del: surr1_def surr2_def surr3_def)
    next
      case a: 3
      have ns: "\<not> (unat (s ! i) < 0xD800 \<or> 0xE000 \<le> unat (s ! i))" using a(1) single by blast
      have np: "\<not> (unat (s ! i) < 0xDC00 \<and> drop (Suc i) s \<noteq> [] \<and> 0xDC00 \<le> unat (hd (drop (Suc i) s))
          \<and> unat (hd (drop (Suc i) s)) < 0xE000)"
        using a by (auto simp: word_less_nat_alt word_le_nat_alt hd_drop_conv_nth)
      have e: "dec16 (drop i s) = 0xFFFD # dec16 (drop (Suc i) s)"
        unfolding d dec16.simps(2) by (simp only: np ns if_False)
      have step: "Decode16_loop s i a n = Decode16_loop s (i + 1) (a[n := replacementChar]) (n + 1)"
        by (subst Decode16_loop.simps)
           (simp only: Let_def if_not_P [OF a(1)] if_not_P [OF a(2)] True if_True
              go_set_ok [OF room] go_bind.simps)
      show ?thesis
        using 1(3) [OF True refl a, of "a[n := replacementChar]"] 1(4) True room
        unfolding e step by (simp add: take_Suc_update)
    qed
  qed
qed

lemma Decode16_spec: "Decode16 s = Inr (dec16 s)"
  using Decode16_loop_spec [of 0 s 0 "replicate (length s) 0"]
  unfolding Decode16_def by auto


section \<open>Surrogate pairs as arithmetic\<close>

lemma unat_ucast16: "unat r < 0x10000 \<Longrightarrow> unat (ucast r :: u16) = unat r" for r :: rune
  by (simp add: view_simps)

lemma ucast16_back: "unat r < 0x10000 \<Longrightarrow> (ucast (ucast r :: u16) :: rune) = r"
  by (simp add: word_unat_eq_iff view_simps)

lemma unat_and_3FF: "unat (x AND 0x3FF) = unat x mod 1024" for x :: rune
  using unat_and_mask [of x 10] by (simp add: mask_eq_exp_minus_1)

lemma EncodeRune16_view:
  assumes "0x10000 \<le> unat v" and "unat v \<le> 0x10FFFF"
  shows "unat (fst (EncodeRune16 v)) = 0xD800 + (unat v - 0x10000) div 1024"
    and "unat (snd (EncodeRune16 v)) = 0xDC00 + (unat v - 0x10000) mod 1024"
proof -
  obtain n where n: "unat v = n" "uint v = int n" "n < 2 ^ LENGTH(32)" by (rule word_natE)
  have c: "\<not> (v <s surrSelf \<or> maxRune16 <s v)"
    unfolding sless_view sle_view sint_view using assms n by simp
  have x: "unat (v - surrSelf) = n - 0x10000"
    using assms n by (simp add: unat_sub word_le_nat_alt)
  then have d: "unat (signed_drop_bit 10 (v - surrSelf) :: rune) = (n - 0x10000) div 1024"
    using assms n by (subst unat_signed_drop_bit) simp_all
  have "(n - 0x10000) div 1024 < 1024"
    using assms n by (simp add: div_less_iff_less_mult)
  then have "unat (signed_drop_bit 10 (v - surrSelf) AND 0x3FF :: rune) = (n - 0x10000) div 1024"
    unfolding unat_and_3FF d by simp
  moreover have "(n - 0x10000) mod 1024 < 1024" by simp
  moreover have "unat ((v - surrSelf) AND 0x3FF) = (n - 0x10000) mod 1024"
    unfolding unat_and_3FF x ..
  ultimately show "unat (fst (EncodeRune16 v)) = 0xD800 + (unat v - 0x10000) div 1024"
    "unat (snd (EncodeRune16 v)) = 0xDC00 + (unat v - 0x10000) mod 1024"
    using c \<open>(n - 0x10000) div 1024 < 1024\<close> unfolding EncodeRune16_def Let_def n(1)
    by (simp_all add: unat_word_ariths del: surrSelf_def)
qed

lemma DecodeRune16_view:
  assumes "unat r1 = 0xD800 + a" and "unat r2 = 0xDC00 + b" and "a < 1024" and "b < 1024"
  shows "unat (DecodeRune16 r1 r2) = 0x10000 + a * 1024 + b"
proof -
  obtain n1 where n1: "unat r1 = n1" "uint r1 = int n1" by (rule word_natE)
  obtain n2 where n2: "unat r2 = n2" "uint r2 = int n2" by (rule word_natE)
  have c: "of_nat surr1 \<le>s r1 \<and> r1 <s of_nat surr2 \<and> of_nat surr2 \<le>s r2 \<and> r2 <s of_nat surr3"
    unfolding sless_view sle_view sint_view using assms n1 n2 by simp
  have d: "unat (r1 - of_nat surr1) = a" "unat (r2 - of_nat surr2) = b"
    using assms by (simp_all add: unat_sub word_le_nat_alt)
  have p: "unat (push_bit 10 (r1 - of_nat surr1)) = a * 1024"
    using assms(3) by (simp only: unat_push_bit_view d) simp
  have o: "unat (push_bit 10 (r1 - of_nat surr1) OR (r2 - of_nat surr2)) = a * 1024 + b"
    by (subst unat_or_disjoint [where n = 10]) (simp_all only: p d, use assms(4) in simp_all)
  have "unat ((push_bit 10 (r1 - of_nat surr1) OR (r2 - of_nat surr2)) + surrSelf) = a * 1024 + b + 0x10000"
    using assms(3,4) unfolding unat_word_ariths o by simp
  then show ?thesis using c unfolding DecodeRune16_def by simp
qed

lemma dec16_enc16:
  "dec16 (enc16 v @ q) = (if ValidRune v then v else 0xFFFD) # dec16 q"
proof -
  consider "\<not> ValidRune v" | "ValidRune v" "unat v < 0x10000" | "ValidRune v" "0x10000 \<le> unat v"
    by linarith
  then show ?thesis
  proof cases
    case 1
    then show ?thesis by (simp add: enc16_def)
  next
    case 2
    then show ?thesis
      by (auto simp: enc16_def unat_ucast16 ucast16_back ValidRune_iff)
  next
    case 3
    then have r: "0x10000 \<le> unat v" "unat v \<le> 0x10FFFF" by (auto simp: ValidRune_iff)
    let ?a = "(unat v - 0x10000) div 1024" and ?b = "(unat v - 0x10000) mod 1024"
    let ?r1 = "fst (EncodeRune16 v)" and ?r2 = "snd (EncodeRune16 v)"
    have a: "?a < 1024" using r by (simp add: div_less_iff_less_mult)
    have b: "?b < 1024" by simp
    note e = EncodeRune16_view [OF r]
    have "unat (DecodeRune16 ?r1 ?r2) = 0x10000 + ?a * 1024 + ?b"
      by (rule DecodeRune16_view [OF e a b])
    also have "\<dots> = unat v" using r by simp
    finally have d: "DecodeRune16 ?r1 ?r2 = v" by (simp add: word_unat_eq_iff)
    have lt: "unat ?r1 < 0x10000" "unat ?r2 < 0x10000" using e a b by linarith+
    have u: "unat (ucast ?r1 :: u16) = 0xD800 + ?a" "unat (ucast ?r2 :: u16) = 0xDC00 + ?b"
      using lt e by (simp_all only: unat_ucast16)
    have "dec16 (ucast ?r1 # ucast ?r2 # q) = DecodeRune16 (ucast (ucast ?r1 :: u16)) (ucast (ucast ?r2 :: u16)) # dec16 q"
      using a b by (simp add: u)
    with 3 d lt show ?thesis by (simp add: enc16_def ucast16_back)
  qed
qed

section \<open>Properties\<close>

text \<open>
  C35: \<open>Encode\<close> and \<open>Decode\<close> of UTF-16 never write outside the slices they allocate, and decoding
  what \<open>Encode\<close> produced gives the runes back, with every rune that is not a Unicode scalar value
  (negative, a surrogate half, or above \<open>U+10FFFF\<close>) replaced by \<open>U+FFFD\<close>.
\<close>

theorem utf16_roundtrip:
  "\<exists>u. Encode16 s = Inr u
     \<and> Decode16 u = Inr (map (\<lambda>r. if ValidRune r then r else replacementChar) s)"
proof -
  have "dec16 (concat (map enc16 s)) = map (\<lambda>r. if ValidRune r then r else replacementChar) s"
    by (induction s) (simp_all add: dec16_enc16)
  then show ?thesis by (simp add: Encode16_spec Decode16_spec)
qed

end
