(* ===== verification/Strconv.thy ===== *)
theory Strconv
  imports Prelude
begin

text \<open>
  Package \<open>strconv\<close>: integers to text (\<open>itoa.go\<close>), text to integers (\<open>atoi.go\<close>) and booleans
  (\<open>atob.go\<close>).  \<open>int\<close>, \<open>int64\<close> and \<open>uint64\<close> values are 64-bit words; the word size of the host
  is 64 except where \<open>formatBits\<close> asks for it (\<open>host32bit\<close>).  Errors are values: a \<open>*NumError\<close> or none.
\<close>

definition bytes_of :: "string \<Rightarrow> bytes" where
  "bytes_of s = map of_char s"

section \<open>Formatting\<close>

definition nSmalls :: nat where [simp]: "nSmalls = 100"

definition smallsString :: bytes where
  "smallsString = bytes_of
     (''00010203040506070809'' @ ''10111213141516171819'' @ ''20212223242526272829'' @
      ''30313233343536373839'' @ ''40414243444546474849'' @ ''50515253545556575859'' @
      ''60616263646566676869'' @ ''70717273747576777879'' @ ''80818283848586878889'' @
      ''90919293949596979899'')"

definition digits :: bytes where
  "digits = bytes_of ''0123456789abcdefghijklmnopqrstuvwxyz''"

definition small :: "nat \<Rightarrow> bytes" where
  "small i = (if i < 10 then seg i (i + 1) digits else seg (i * 2) (i * 2 + 2) smallsString)"

definition isPowerOfTwo :: "64 word \<Rightarrow> bool" where
  "isPowerOfTwo x \<longleftrightarrow> x AND (x - 1) = 0"

text \<open>
  The local array \<open>a\<close> of 65 bytes is filled from the end; \<open>acc\<close> is \<open>a[i:]\<close>, so \<open>i\<close> is
  \<open>65 - length acc\<close> and storing below index 0 panics.
\<close>

definition put :: "byte \<Rightarrow> bytes \<Rightarrow> bytes go" where
  "put c acc = (if length acc < 65 then Inr (c # acc) else Inl IndexOutOfRange)"

text \<open>\<open>i -= 2; a[i+1] = smallsString[is+1]; a[i+0] = smallsString[is+0]\<close>\<close>

definition put2 :: "nat \<Rightarrow> bytes \<Rightarrow> bytes go" where
  "put2 k acc = go_bind (put (smallsString ! (k + 1)) acc) (put (smallsString ! k))"

fun low_digits32 :: "nat \<Rightarrow> nat \<Rightarrow> bytes \<Rightarrow> (nat \<times> bytes) go" where
  "low_digits32 0 us acc = Inr (us, acc)"
| "low_digits32 (Suc j) us acc =
     (let is2 = us mod 100 * 2 in
      go_bind (put2 is2 acc) (low_digits32 j (us div 100)))"

function host32_loop :: "u64 \<Rightarrow> bytes \<Rightarrow> (u64 \<times> bytes) go" where
  "host32_loop u acc =
     (if u \<ge> 1000000000 then
        let q = u div 1000000000; us = unat (u - q * 1000000000) in
        go_bind (low_digits32 4 us acc) (\<lambda>(us, acc).
        go_bind (put (smallsString ! (us * 2 + 1)) acc) (host32_loop q))
      else Inr (u, acc))"
  by pat_completeness auto
termination
proof (relation "measure (\<lambda>(u, acc). unat u)", goal_cases)
  case (2 u acc)
  then have "1000000000 \<le> unat u" by (simp add: word_le_nat_alt)
  with 2 show ?case by (simp add: unat_div_distrib)
qed simp

function base10_loop :: "nat \<Rightarrow> bytes \<Rightarrow> (nat \<times> bytes) go" where
  "base10_loop us acc =
     (if us \<ge> 100 then
        let is2 = us mod 100 * 2 in go_bind (put2 is2 acc) (base10_loop (us div 100))
      else Inr (us, acc))"
  by pat_completeness auto
termination by (relation "measure fst") auto

function pow2_loop :: "u64 \<Rightarrow> u64 \<Rightarrow> nat \<Rightarrow> bytes \<Rightarrow> (u64 \<times> bytes) go" where
  "pow2_loop b u shift acc =
     (if u \<ge> b \<and> 0 < shift \<and> 0 < b then
        go_bind (put (digits ! unat (u AND (b - 1))) acc) (pow2_loop b (drop_bit shift u) shift)
      else Inr (u, acc))"
  by pat_completeness auto
termination
proof (relation "measure (\<lambda>(b, u, shift, acc). unat u)", goal_cases)
  case (2 b u shift acc)
  then have "0 < unat u" by (auto simp: word_le_nat_alt word_less_nat_alt)
  moreover have "2 \<le> (2::nat) ^ shift" using 2 by (cases shift) auto
  ultimately show ?case by (simp add: unat_drop_bit_view div_less_dividend)
qed simp

function general_loop :: "u64 \<Rightarrow> u64 \<Rightarrow> bytes \<Rightarrow> (u64 \<times> bytes) go" where
  "general_loop b u acc =
     (if u \<ge> b \<and> 1 < b then
        let q = u div b in
        go_bind (put (digits ! unat (u - q * b)) acc) (general_loop b q)
      else Inr (u, acc))"
  by pat_completeness auto
termination
proof (relation "measure (\<lambda>(b, u, acc). unat u)", goal_cases)
  case (2 b u acc)
  then have "0 < unat u" "1 < unat b" by (auto simp: word_le_nat_alt word_less_nat_alt)
  then show ?case using 2 by (simp add: unat_div_distrib)
qed simp

declare host32_loop.simps [simp del] base10_loop.simps [simp del] pow2_loop.simps [simp del]
  general_loop.simps [simp del]
lemmas format_loops [loop_unfold] =
  host32_loop.simps base10_loop.simps pow2_loop.simps general_loop.simps

fun trailing_zeros :: "nat \<Rightarrow> nat \<Rightarrow> nat" where
  "trailing_zeros 0 x = 0"
| "trailing_zeros (Suc w) x = (if odd x then 0 else 1 + trailing_zeros w (x div 2))"

definition formatBits :: "bool \<Rightarrow> bytes \<Rightarrow> u64 \<Rightarrow> int \<Rightarrow> bool \<Rightarrow> bool \<Rightarrow> (bytes \<times> bytes) go" where
  "formatBits host32bit dst u base neg appendIt =
     (if base < 2 \<or> base > int (length digits)
      then Inl (PanicValue ''strconv: illegal AppendInt/FormatInt base'')
      else let u = (if neg then - u else u) in
      go_bind
        (if base = 10 then
           go_bind (if host32bit then host32_loop u [] else Inr (u, [])) (\<lambda>(u, acc).
           go_bind (base10_loop (unat u) acc) (\<lambda>(us, acc).
             let is2 = us * 2 in
             go_bind (put (smallsString ! (is2 + 1)) acc) (\<lambda>acc.
               if us \<ge> 10 then put (smallsString ! is2) acc else Inr acc)))
         else if isPowerOfTwo (word_of_int base) then
           let shift = trailing_zeros 64 (nat base) mod 8 in
           go_bind (pow2_loop (word_of_int base) u shift []) (\<lambda>(u, acc).
             put (digits ! unat u) acc)
         else
           go_bind (general_loop (word_of_int base) u []) (\<lambda>(u, acc).
             put (digits ! unat u) acc)) (\<lambda>acc.
      go_bind (if neg then put 0x2D acc else Inr acc) (\<lambda>acc.
        if appendIt then Inr (dst @ acc, []) else Inr ([], acc))))"

definition FormatUint :: "bool \<Rightarrow> u64 \<Rightarrow> int \<Rightarrow> bytes go" where
  "FormatUint h i base =
     (if i < of_nat nSmalls \<and> base = 10 then Inr (small (unat i))
      else go_bind (formatBits h [] i base False False) (\<lambda>(d, s). Inr s))"

definition FormatInt :: "bool \<Rightarrow> 64 word \<Rightarrow> int \<Rightarrow> bytes go" where
  "FormatInt h i base =
     (if 0 \<le>s i \<and> i <s of_nat nSmalls \<and> base = 10 then Inr (small (unat i))
      else go_bind (formatBits h [] i base (i <s 0) False) (\<lambda>(d, s). Inr s))"

definition Itoa :: "bool \<Rightarrow> 64 word \<Rightarrow> bytes go" where
  "Itoa h i = FormatInt h i 10"

definition AppendInt :: "bool \<Rightarrow> bytes \<Rightarrow> 64 word \<Rightarrow> int \<Rightarrow> bytes go" where
  "AppendInt h dst i base =
     (if 0 \<le>s i \<and> i <s of_nat nSmalls \<and> base = 10 then Inr (dst @ small (unat i))
      else go_bind (formatBits h dst i base (i <s 0) True) (\<lambda>(d, s). Inr d))"

definition AppendUint :: "bool \<Rightarrow> bytes \<Rightarrow> u64 \<Rightarrow> int \<Rightarrow> bytes go" where
  "AppendUint h dst i base =
     (if i < of_nat nSmalls \<and> base = 10 then Inr (dst @ small (unat i))
      else go_bind (formatBits h dst i base False True) (\<lambda>(d, s). Inr d))"


section \<open>The digits of a number\<close>

function nat_digits :: "nat \<Rightarrow> nat \<Rightarrow> nat list" where
  "nat_digits b n = (if n < b \<or> b < 2 then [n] else nat_digits b (n div b) @ [n mod b])"
  by pat_completeness auto
termination by (relation "measure snd") auto

declare nat_digits.simps [simp del]

definition digit_char :: "nat \<Rightarrow> byte" where
  "digit_char d = digits ! d"

lemma length_digits: "length digits = 36"
  by (simp add: digits_def bytes_of_def)

lemma smalls_table:
  assumes "k < 100"
  shows "smallsString ! (k * 2) = digit_char (k div 10)" "smallsString ! (k * 2 + 1) = digit_char (k mod 10)"
proof -
  have "map (\<lambda>k. (smallsString ! (k * 2), smallsString ! (k * 2 + 1))) [0..<100]
      = map (\<lambda>k. (digit_char (k div 10), digit_char (k mod 10))) [0..<100]"
    by code_simp
  then have "\<forall>k < 100. smallsString ! (k * 2) = digit_char (k div 10)
      \<and> smallsString ! (k * 2 + 1) = digit_char (k mod 10)"
    by (simp only: map_eq_conv set_upt) auto
  then show "smallsString ! (k * 2) = digit_char (k div 10)" "smallsString ! (k * 2 + 1) = digit_char (k mod 10)"
    using assms by blast+
qed

lemma nat_digits_small: "n < b \<Longrightarrow> nat_digits b n = [n]"
  by (simp add: nat_digits.simps)

lemma nat_digits_step: "b \<le> n \<Longrightarrow> 2 \<le> b \<Longrightarrow> nat_digits b n = nat_digits b (n div b) @ [n mod b]"
  by (subst nat_digits.simps) simp

lemma nat_digits_not_Nil [simp]: "nat_digits b n \<noteq> []"
  by (subst nat_digits.simps) simp

lemma nat_digits_length:
  "2 \<le> b \<Longrightarrow> n < b ^ Suc k \<Longrightarrow> length (nat_digits b n) \<le> Suc k"
proof (induction k arbitrary: n)
  case 0
  then show ?case by (simp add: nat_digits_small)
next
  case (Suc k)
  show ?case
  proof (cases "n < b")
    case True
    then show ?thesis by (simp add: nat_digits_small)
  next
    case False
    have "n div b < b ^ Suc k" using Suc.prems by (simp add: less_mult_imp_div_less mult.commute)
    then show ?thesis using Suc False by (simp add: nat_digits_step)
  qed
qed

lemma nat_digits_length64:
  assumes "2 \<le> b" "n < 2 ^ 64"
  shows "length (nat_digits b n) \<le> 64"
proof -
  have "(2::nat) ^ Suc 63 \<le> b ^ Suc 63" using assms(1) by (intro power_mono) auto
  then have "n < b ^ Suc 63" using assms(2) by simp
  from nat_digits_length [OF assms(1) this] show ?thesis by simp
qed

lemma put_ok: "length acc < 65 \<Longrightarrow> put c acc = Inr (c # acc)"
  by (simp add: put_def)

lemma put2_ok: "length acc < 64 \<Longrightarrow> put2 k acc = Inr (smallsString ! k # smallsString ! (k + 1) # acc)"
  by (simp add: put2_def put_ok)

text \<open>Each loop leaves a quotient whose digits, followed by what is written, are those it started with.\<close>

definition denotes :: "nat \<Rightarrow> nat \<Rightarrow> bytes \<Rightarrow> bytes" where
  "denotes b n acc = map digit_char (nat_digits b n) @ acc"

lemma denotes_step:
  "b \<le> n \<Longrightarrow> 2 \<le> b \<Longrightarrow> denotes b n acc = denotes b (n div b) (digit_char (n mod b) # acc)"
  by (simp add: denotes_def nat_digits_step)

lemma denotes_small: "n < b \<Longrightarrow> denotes b n acc = digit_char n # acc"
  by (simp add: denotes_def nat_digits_small)

lemma denotes_length: "length acc < length (denotes b n acc)"
  by (simp add: denotes_def)

lemma general_loop_denotes:
  assumes "2 \<le> unat b" "unat b \<le> 36" "length (denotes (unat b) (unat u) acc) \<le> 64"
  shows "\<exists>u' acc'. general_loop b u acc = Inr (u', acc') \<and> unat u' < unat b
    \<and> denotes (unat b) (unat u') acc' = denotes (unat b) (unat u) acc"
  using assms(3)
proof (induction "unat u" arbitrary: u acc rule: less_induct)
  case less
  have b1: "1 < b" using assms(1) by (simp add: word_less_nat_alt)
  show ?case
  proof (cases "b \<le> u")
    case True
    then have ge: "unat b \<le> unat u" by (simp add: word_le_nat_alt)
    have q: "unat (u div b) = unat u div unat b" by (simp add: unat_div_distrib)
    have r: "u - u div b * b = u mod b" by (simp add: minus_div_mult_eq_mod)
    have r': "digits ! unat (u - u div b * b) = digit_char (unat u mod unat b)"
      unfolding r by (simp add: digit_char_def unat_mod_distrib)
    have d: "denotes (unat b) (unat u) acc
        = denotes (unat b) (unat (u div b)) (digit_char (unat u mod unat b) # acc)"
      using denotes_step [OF ge assms(1)] by (simp add: q)
    have len: "length acc < 65" using denotes_length [of acc "unat b" "unat u"] less.prems by simp
    have lt: "unat (u div b) < unat u" using ge assms(1) by (simp add: q)
    have step: "general_loop b u acc = general_loop b (u div b) (digit_char (unat u mod unat b) # acc)"
      using True b1 len by (subst general_loop.simps) (simp add: Let_def r' put_ok)
    show ?thesis using less.hyps [OF lt] less.prems unfolding step d by simp
  next
    case False
    then show ?thesis by (subst general_loop.simps) (simp add: word_le_nat_alt not_le)
  qed
qed

lemma pow2_loop_denotes:
  assumes "unat b = 2 ^ shift" "0 < shift" "length (denotes (unat b) (unat u) acc) \<le> 64"
  shows "\<exists>u' acc'. pow2_loop b u shift acc = Inr (u', acc') \<and> unat u' < unat b
    \<and> denotes (unat b) (unat u') acc' = denotes (unat b) (unat u) acc"
  using assms(3)
proof (induction "unat u" arbitrary: u acc rule: less_induct)
  case less
  have b2: "2 \<le> unat b" using assms(1,2) by (cases shift) auto
  then have b0: "0 < b" by (simp add: word_less_nat_alt)
  have "b = word_of_nat (2 ^ shift)" unfolding assms(1) [symmetric] by simp
  then have "b = 2 ^ shift" by simp
  then have m: "b - 1 = mask shift" by (simp add: mask_eq_exp_minus_1)
  show ?case
  proof (cases "b \<le> u")
    case True
    then have ge: "unat b \<le> unat u" by (simp add: word_le_nat_alt)
    have q: "unat (drop_bit shift u) = unat u div unat b" by (simp add: unat_drop_bit_view assms(1))
    have r: "unat (u AND (b - 1)) = unat u mod unat b" unfolding m unat_and_mask assms(1) ..
    have d: "denotes (unat b) (unat u) acc
        = denotes (unat b) (unat (drop_bit shift u)) (digit_char (unat u mod unat b) # acc)"
      using denotes_step [OF ge b2] by (simp add: q)
    have len: "length acc < 65" using denotes_length [of acc "unat b" "unat u"] less.prems by simp
    have lt: "unat (drop_bit shift u) < unat u" using ge b2 by (simp add: q)
    have step: "pow2_loop b u shift acc = pow2_loop b (drop_bit shift u) shift (digit_char (unat u mod unat b) # acc)"
      using True b0 assms(2) len by (subst pow2_loop.simps) (simp add: r put_ok digit_char_def)
    show ?thesis using less.hyps [OF lt] less.prems unfolding step d by simp
  next
    case False
    then show ?thesis by (subst pow2_loop.simps) (simp add: word_le_nat_alt not_le)
  qed
qed

lemma denotes_two:
  "100 \<le> n \<Longrightarrow> denotes 10 n acc
     = denotes 10 (n div 100) (digit_char (n mod 100 div 10) # digit_char (n mod 100 mod 10) # acc)"
proof -
  assume n: "100 \<le> n"
  have "denotes 10 n acc = denotes 10 (n div 10) (digit_char (n mod 10) # acc)"
    using n by (intro denotes_step) auto
  also have "\<dots> = denotes 10 (n div 10 div 10) (digit_char (n div 10 mod 10) # digit_char (n mod 10) # acc)"
    using n by (intro denotes_step) auto
  also have "n div 10 div 10 = n div 100" by (simp add: div_mult2_eq [symmetric])
  also have "n div 10 mod 10 = n mod 100 div 10" using mod_mult2_eq [of n 10 10] by simp
  also have "n mod 10 = n mod 100 mod 10" by (simp add: mod_mod_cancel)
  finally show ?thesis .
qed

lemma base10_loop_denotes:
  assumes "length (denotes 10 us acc) \<le> 64"
  shows "\<exists>us' acc'. base10_loop us acc = Inr (us', acc') \<and> us' < 100
    \<and> denotes 10 us' acc' = denotes 10 us acc"
  using assms
proof (induction us acc rule: base10_loop.induct)
  case (1 us acc)
  show ?case
  proof (cases "100 \<le> us")
    case True
    let ?acc = "digit_char (us mod 100 div 10) # digit_char (us mod 100 mod 10) # acc"
    have d: "denotes 10 us acc = denotes 10 (us div 100) ?acc" by (rule denotes_two [OF True])
    have "us mod 100 < 100" by simp
    note t = smalls_table [OF this]
    have len: "length acc < 64"
      using denotes_length [of ?acc 10 "us div 100"] 1(2) unfolding d by simp
    have p: "put2 (us mod 100 * 2) acc = Inr ?acc" by (simp only: put2_ok [OF len] t)
    have step: "base10_loop us acc = base10_loop (us div 100) ?acc"
      using True by (subst base10_loop.simps) (simp only: Let_def p go_bind.simps if_True)
    show ?thesis using 1(1) [OF True refl, of ?acc] 1(2) unfolding step d by simp
  next
    case False
    then show ?thesis by (subst base10_loop.simps) simp
  qed
qed

text \<open>Digits of fixed width, leading zeros included: what one round of the 32-bit loop writes.\<close>

fun fixed_digits :: "nat \<Rightarrow> nat \<Rightarrow> nat list" where
  "fixed_digits 0 n = []"
| "fixed_digits (Suc k) n = fixed_digits k (n div 10) @ [n mod 10]"

lemma length_fixed_digits [simp]: "length (fixed_digits k n) = k"
  by (induction k arbitrary: n) simp_all

lemma denotes_fixed:
  "10 ^ k \<le> n \<Longrightarrow> denotes 10 n acc = denotes 10 (n div 10 ^ k) (map digit_char (fixed_digits k n) @ acc)"
proof (induction k arbitrary: n acc)
  case (Suc k)
  then have "10 \<le> n" by (metis le_trans power_Suc mult_le_mono2 one_le_power mult_1_right one_le_numeral)
  then have "denotes 10 n acc = denotes 10 (n div 10) (digit_char (n mod 10) # acc)" by (intro denotes_step) auto
  also have "\<dots> = denotes 10 (n div 10 div 10 ^ k) (map digit_char (fixed_digits k (n div 10)) @ digit_char (n mod 10) # acc)"
    using Suc.prems by (intro Suc.IH) (simp add: less_eq_div_iff_mult_less_eq mult.commute)
  finally show ?case by (simp add: div_mult2_eq)
qed simp

lemma fixed_digits_mod: "fixed_digits k (n mod 10 ^ k) = fixed_digits k n"
proof (induction k arbitrary: n)
  case (Suc k)
  have "n mod (10 * 10 ^ k) div 10 = n div 10 mod 10 ^ k" using mod_mult2_eq [of n 10 "10 ^ k"] by simp
  moreover have "n mod (10 * 10 ^ k) mod 10 = n mod 10" by (simp add: mod_mod_cancel)
  ultimately show ?case using Suc [of "n div 10"] by simp
qed simp

lemma low_digits32_spec:
  assumes "2 * j + length acc \<le> 64"
  shows "low_digits32 j us acc = Inr (us div 100 ^ j, map digit_char (fixed_digits (2 * j) us) @ acc)"
  using assms
proof (induction j arbitrary: us acc)
  case (Suc j)
  let ?acc = "digit_char (us mod 100 div 10) # digit_char (us mod 100 mod 10) # acc"
  have "us mod 100 < 100" by simp
  note t = smalls_table [OF this]
  have len: "length acc < 64" using Suc.prems by simp
  have p: "put2 (us mod 100 * 2) acc = Inr ?acc" by (simp only: put2_ok [OF len] t)
  have "us mod 100 div 10 = us div 10 mod 10" using mod_mult2_eq [of us 10 10] by simp
  moreover have "us mod 100 mod 10 = us mod 10" by (simp add: mod_mod_cancel)
  moreover have "us div 10 div 10 = us div 100" by (simp add: div_mult2_eq [symmetric])
  moreover have "low_digits32 j (us div 100) ?acc
      = Inr (us div 100 div 100 ^ j, map digit_char (fixed_digits (2 * j) (us div 100)) @ ?acc)"
    using Suc.prems by (intro Suc.IH) simp
  ultimately show ?case
    by (simp only: low_digits32.simps Let_def p go_bind.simps) (simp add: div_mult2_eq)
qed simp

lemma host32_loop_denotes:
  assumes "length (denotes 10 (unat u) acc) \<le> 64"
  shows "\<exists>u' acc'. host32_loop u acc = Inr (u', acc') \<and> denotes 10 (unat u') acc' = denotes 10 (unat u) acc"
  using assms
proof (induction "unat u" arbitrary: u acc rule: less_induct)
  case less
  show ?case
  proof (cases "1000000000 \<le> u")
    case True
    let ?q = "u div 1000000000"
    let ?acc = "map digit_char (fixed_digits 9 (unat u)) @ acc"
    have ge: "10 ^ 9 \<le> unat u" using True by (simp add: word_le_nat_alt)
    have q: "unat ?q = unat u div 10 ^ 9" by (simp add: unat_div_distrib)
    have "u - ?q * 1000000000 = u mod 1000000000" by (simp add: minus_div_mult_eq_mod)
    then have us: "unat (u - ?q * 1000000000) = unat u mod 10 ^ 9" by (simp add: unat_mod_distrib)
    have d: "denotes 10 (unat u) acc = denotes 10 (unat ?q) ?acc"
      unfolding q by (rule denotes_fixed [OF ge])
    have len: "9 + length acc < 64" using denotes_length [of ?acc 10 "unat ?q"] less.prems unfolding d by simp
    define r where "r = unat u mod 10 ^ 9"
    have r9: "r < 10 ^ 9" by (simp add: r_def)
    have low: "low_digits32 4 r acc = Inr (r div 10 ^ 8, map digit_char (fixed_digits 8 r) @ acc)"
      using low_digits32_spec [of 4 acc r] len by simp
    have r8: "r div 10 ^ 8 < 10" using r9 by (simp add: div_less_iff_less_mult)
    have top: "smallsString ! (r div 10 ^ 8 * 2 + 1) = digit_char (r div 10 ^ 8)"
      using smalls_table(2) [of "r div 10 ^ 8"] r8 by simp
    have fx: "fixed_digits (Suc k) m = m div 10 ^ k mod 10 # fixed_digits k m" for k m
    proof (induction k arbitrary: m)
      case (Suc k)
      from Suc [of "m div 10"] show ?case by (simp add: div_mult2_eq)
    qed simp
    have "fixed_digits 9 (unat u) = fixed_digits 9 r"
      unfolding r_def by (rule fixed_digits_mod [symmetric])
    also have "\<dots> = r div 10 ^ 8 # fixed_digits 8 r"
    proof -
      have "fixed_digits 9 r = fixed_digits (Suc 8) r" by (rule arg_cong [of _ _ "\<lambda>k. fixed_digits k r"]) simp
      also have "\<dots> = r div 10 ^ 8 mod 10 # fixed_digits 8 r" by (rule fx)
      also have "r div 10 ^ 8 mod 10 = r div 10 ^ 8" using r8 by (rule mod_less)
      finally show ?thesis .
    qed
    finally have f9: "fixed_digits 9 (unat u) = r div 10 ^ 8 # fixed_digits 8 r" .
    have "put (digit_char (r div 10 ^ 8)) (map digit_char (fixed_digits 8 r) @ acc) = Inr ?acc"
      using len by (simp add: put_ok f9)
    then have step: "host32_loop u acc = host32_loop ?q ?acc"
      by (subst host32_loop.simps)
         (simp only: Let_def us True if_True flip: r_def, simp only: low go_bind.simps prod.case top)
    have lt: "unat ?q < unat u" using ge unfolding q by (intro div_less_dividend) auto
    show ?thesis using less.hyps [OF lt] less.prems unfolding step d by simp
  next
    case False
    then show ?thesis by (subst host32_loop.simps) simp
  qed
qed

lemma isPowerOfTwo_small:
  assumes "2 \<le> base" "base \<le> 36"
  shows "isPowerOfTwo (word_of_int base) \<longleftrightarrow> base \<in> {2, 4, 8, 16, 32}"
    and "isPowerOfTwo (word_of_int base) \<Longrightarrow> 0 < trailing_zeros 64 (nat base) mod 8
      \<and> nat base = 2 ^ (trailing_zeros 64 (nat base) mod 8)"
proof -
  have "map (\<lambda>n. isPowerOfTwo (word_of_nat n)) [2..<37] = map (\<lambda>n. n \<in> {2, 4, 8, 16, 32}) [2..<37]"
    by code_simp
  then have t: "\<forall>n \<in> {2..<37}. isPowerOfTwo (word_of_nat n) \<longleftrightarrow> n \<in> {2, 4, 8, 16, 32}"
    by (simp only: map_eq_conv set_upt)
  have z: "list_all (\<lambda>n. 0 < trailing_zeros 64 n mod 8 \<and> n = 2 ^ (trailing_zeros 64 n mod 8)) [2, 4, 8, 16, 32]"
    by code_simp
  obtain n where n: "base = int n" "n \<in> {2..<37}" using assms by (cases base) auto
  show p: "isPowerOfTwo (word_of_int base) \<longleftrightarrow> base \<in> {2, 4, 8, 16, 32}" using t n by auto
  show "0 < trailing_zeros 64 (nat base) mod 8 \<and> nat base = 2 ^ (trailing_zeros 64 (nat base) mod 8)"
    if "isPowerOfTwo (word_of_int base)"
    using that p z n by auto
qed

definition text_of :: "nat \<Rightarrow> nat \<Rightarrow> bytes" where
  "text_of b n = map digit_char (nat_digits b n)"

lemma formatBits_digits:
  assumes "2 \<le> base" "base \<le> 36"
  shows "formatBits h dst u base neg appendIt =
    (let s = (if neg then [0x2D] else []) @ text_of (nat base) (unat (if neg then - u else u)) in
     Inr (if appendIt then (dst @ s, []) else ([], s)))"
proof -
  let ?u = "if neg then - u else u"
  let ?b = "nat base"
  have b: "2 \<le> ?b" "?b \<le> 36" using assms by auto
  have bw: "unat (word_of_int base :: u64) = ?b"
    using assms by (simp add: unat_eq_nat_uint uint_word_of_int_eq take_bit_int_eq_self)
  have u64: "unat ?u < 2 ^ 64" using unsigned_less [where 'a = nat, of ?u] by simp
  have len: "length (denotes ?b (unat ?u) []) \<le> 64"
    using nat_digits_length64 [OF b(1) u64] by (simp add: denotes_def)
  have t: "denotes ?b (unat ?u) [] = text_of ?b (unat ?u)" by (simp add: denotes_def text_of_def)
  let ?body = "if base = 10 then
           go_bind (if h then host32_loop ?u [] else Inr (?u, [])) (\<lambda>(u, acc).
           go_bind (base10_loop (unat u) acc) (\<lambda>(us, acc).
             let is2 = us * 2 in
             go_bind (put (smallsString ! (is2 + 1)) acc) (\<lambda>acc.
               if us \<ge> 10 then put (smallsString ! is2) acc else Inr acc)))
         else if isPowerOfTwo (word_of_int base) then
           let shift = trailing_zeros 64 (nat base) mod 8 in
           go_bind (pow2_loop (word_of_int base) ?u shift []) (\<lambda>(u, acc).
             put (digits ! unat u) acc)
         else
           go_bind (general_loop (word_of_int base) ?u []) (\<lambda>(u, acc).
             put (digits ! unat u) acc)"
  have fin: "put (digits ! n) acc = Inr (text_of ?b (unat ?u))"
    if "n < ?b" "denotes ?b n acc = denotes ?b (unat ?u) []" for n acc
  proof -
    have e: "digit_char n # acc = text_of ?b (unat ?u)"
      using denotes_small [OF that(1), of acc] that(2) t by simp
    have "length acc < 65" using denotes_length [of acc ?b n] len that(2) by simp
    then show ?thesis using e by (simp add: put_ok digit_char_def)
  qed
  have body: "?body = Inr (text_of ?b (unat ?u))"
  proof (cases "base = 10")
    case True
    then have b10: "?b = 10" by simp
    obtain u' acc' where 1: "(if h then host32_loop ?u [] else Inr (?u, [])) = Inr (u', acc')"
      "denotes 10 (unat u') acc' = denotes 10 (unat ?u) []"
      using host32_loop_denotes [of ?u "[]"] len b10 by (cases h) auto
    have len': "length (denotes 10 (unat u') acc') \<le> 64" using len b10 1(2) by simp
    obtain us acc where 2: "base10_loop (unat u') acc' = Inr (us, acc)" "us < 100"
      "denotes 10 us acc = denotes 10 (unat ?u) []"
      using base10_loop_denotes [OF len'] 1(2) by auto
    note tab = smalls_table [OF 2(2)]
    have al: "length acc < length (denotes 10 us acc)" "length (denotes 10 us acc) \<le> 64"
      using denotes_length [of acc 10 us] len unfolding 2(3) b10 by (simp_all only:)
    have "go_bind (put (smallsString ! (us * 2 + 1)) acc) (\<lambda>acc.
        if us \<ge> 10 then put (smallsString ! (us * 2)) acc else Inr acc) = Inr (denotes 10 us acc)"
    proof (cases "10 \<le> us")
      case ge: True
      have "denotes 10 us acc = denotes 10 (us div 10) (digit_char (us mod 10) # acc)"
        using ge by (intro denotes_step) auto
      also have "\<dots> = digit_char (us div 10) # digit_char (us mod 10) # acc"
        using 2(2) by (intro denotes_small) simp
      finally show ?thesis using al ge unfolding tab by (simp add: put_ok)
    next
      case False
      then have "denotes 10 us acc = digit_char us # acc" by (intro denotes_small) simp
      then show ?thesis using al False unfolding tab by (simp add: put_ok)
    qed
    then show ?thesis using True 1(1) 2 t b10 by (simp add: Let_def)
  next
    case n10: False
    show ?thesis
    proof (cases "isPowerOfTwo (word_of_int base)")
      case True
      note z = isPowerOfTwo_small(2) [OF assms True]
      have "\<exists>u' acc'. pow2_loop (word_of_int base) ?u (trailing_zeros 64 ?b mod 8) [] = Inr (u', acc')
          \<and> unat u' < ?b \<and> denotes ?b (unat u') acc' = denotes ?b (unat ?u) []"
        by (rule pow2_loop_denotes [of "word_of_int base" "trailing_zeros 64 ?b mod 8" ?u "[]", unfolded bw])
          (use z len in simp_all)
      then show ?thesis using True n10 fin by (auto simp: Let_def)
    next
      case False
      have "\<exists>u' acc'. general_loop (word_of_int base) ?u [] = Inr (u', acc')
          \<and> unat u' < ?b \<and> denotes ?b (unat u') acc' = denotes ?b (unat ?u) []"
        using general_loop_denotes [of "word_of_int base" ?u "[]", unfolded bw] b len by blast
      then show ?thesis using False n10 fin by auto
    qed
  qed
  have bl: "length (text_of ?b (unat ?u)) < 65" using len t by simp
  have nb: "\<not> (base < 2 \<or> base > int (length digits))" using assms by (simp add: length_digits)
  show ?thesis
    unfolding formatBits_def if_not_P [OF nb] Let_def [of ?u] body [unfolded Let_def [of ?u]]
    using bl by (cases neg) (simp_all add: put_ok Let_def)
qed

lemma length_smallsString: "length smallsString = 200"
  by (simp add: smallsString_def bytes_of_def)

lemma small_text:
  assumes "n < 100"
  shows "small n = text_of 10 n"
proof (cases "n < 10")
  case True
  then show ?thesis
    using seg_Suc [of n n digits]
    by (simp add: small_def text_of_def nat_digits_small digit_char_def length_digits)
next
  case False
  have "seg (n * 2) (n * 2 + 2) smallsString = [smallsString ! (n * 2), smallsString ! (n * 2 + 1)]"
    using assms seg_Suc [of "n * 2" "n * 2" smallsString] seg_Suc [of "n * 2" "n * 2 + 1" smallsString]
    by (simp add: length_smallsString)
  then show ?thesis
    using False assms unfolding smalls_table [OF assms] by (simp add: small_def text_of_def nat_digits_step nat_digits_small)
qed

lemma FormatUint_text:
  assumes "2 \<le> base" "base \<le> 36"
  shows "FormatUint h i base = Inr (text_of (nat base) (unat i))"
  using assms small_text [of "unat i"] unfolding FormatUint_def
  by (auto simp: formatBits_digits Let_def word_less_nat_alt)

definition int_text :: "nat \<Rightarrow> int \<Rightarrow> bytes" where
  "int_text b z = (if z < 0 then 0x2D # text_of b (nat (- z)) else text_of b (nat z))"

lemma sint_nonneg: "0 \<le> sint i \<Longrightarrow> unat i = nat (sint i)" for i :: "64 word"
proof -
  obtain n where "unat i = n" "uint i = int n" "n < 2 ^ LENGTH(64)" by (rule word_natE)
  then show "0 \<le> sint i \<Longrightarrow> ?thesis" unfolding sint_view by (auto split: if_splits)
qed

lemma unat_neg: "sint i < 0 \<Longrightarrow> unat (- i) = nat (- sint i)" for i :: "64 word"
proof -
  assume neg: "sint i < 0"
  obtain n where n: "unat i = n" "uint i = int n" "n < 2 ^ LENGTH(64)" by (rule word_natE)
  have s: "sint i = int n - 2 ^ 64" "n \<noteq> 0" using neg n unfolding sint_view by (auto split: if_splits)
  have "unat (- i) = 2 ^ 64 - n"
  proof -
    have "uint (- i) = (- int n) mod 2 ^ 64" using uint_word_ariths(4) [of i] n(2) by simp
    also have "\<dots> = (2 ^ 64 - int n) mod 2 ^ 64" by (simp add: mod_diff_left_eq [symmetric])
    also have "\<dots> = 2 ^ 64 - int n" using s(2) n(3) by (intro mod_pos_pos_trivial) auto
    finally show ?thesis using n(3) by (simp add: unat_eq_nat_uint nat_diff_distrib')
  qed
  then show ?thesis using s n(3) by simp
qed

lemma FormatInt_text:
  assumes "2 \<le> base" "base \<le> 36"
  shows "FormatInt h i base = Inr (int_text (nat base) (sint i))"
proof (cases "sint i < 0")
  case True
  then have "i <s 0" by (simp add: sless_view)
  then show ?thesis
    using assms True unat_neg [OF True] unfolding FormatInt_def
    by (simp add: formatBits_digits Let_def int_text_def sle_view sless_view)
next
  case False
  then have "\<not> i <s 0" "0 \<le>s i" by (simp_all add: sless_view sle_view)
  moreover have "i <s of_nat nSmalls \<longleftrightarrow> unat i < 100"
    using False sint_nonneg [of i] by (simp add: sless_view nat_less_iff)
  ultimately show ?thesis
    using assms False sint_nonneg [of i] small_text [of "unat i"] unfolding FormatInt_def
    by (auto simp: formatBits_digits Let_def int_text_def)
qed

end
