(* ===== verification/StrconvParse.thy ===== *)
theory StrconvParse
  imports Strconv
begin

text \<open>
  Package \<open>strconv\<close>, the parsers: \<open>atoi.go\<close> and \<open>atob.go\<close>.  A result \<open>(value, error)\<close> is a pair
  whose error is \<open>None\<close> for \<open>nil\<close> and a \<open>*NumError\<close> otherwise.
\<close>

section \<open>Errors\<close>

datatype num_err = ErrSyntax | ErrRange | ErrBase int | ErrBitSize int

record NumError =
  Func :: string
  Num :: bytes
  Err :: num_err

definition NumError_Unwrap :: "NumError \<Rightarrow> num_err" where
  "NumError_Unwrap e = Err e"

definition syntaxError :: "string \<Rightarrow> bytes \<Rightarrow> NumError" where
  "syntaxError fn str = \<lparr>Func = fn, Num = str, Err = ErrSyntax\<rparr>"

definition rangeError :: "string \<Rightarrow> bytes \<Rightarrow> NumError" where
  "rangeError fn str = \<lparr>Func = fn, Num = str, Err = ErrRange\<rparr>"

definition baseError :: "string \<Rightarrow> bytes \<Rightarrow> int \<Rightarrow> NumError" where
  "baseError fn str base = \<lparr>Func = fn, Num = str, Err = ErrBase base\<rparr>"

definition bitSizeError :: "string \<Rightarrow> bytes \<Rightarrow> int \<Rightarrow> NumError" where
  "bitSizeError fn str bitSize = \<lparr>Func = fn, Num = str, Err = ErrBitSize bitSize\<rparr>"

section \<open>Operations of \<open>atoi.go\<close>\<close>

definition lower :: "byte \<Rightarrow> byte" where
  "lower c = c OR (0x78 - 0x58)"

text \<open>\<open>32 << (^uint(0) >> 63)\<close> where \<open>uint\<close> has 64 bits.\<close>

definition intSize :: int where
  "intSize = push_bit (unat (drop_bit 63 (NOT (0 :: u64)))) 32"

definition maxUint64 :: u64 where
  "maxUint64 = 0xFFFFFFFFFFFFFFFF"

text \<open>The loop of \<open>underscoreOK\<close>; \<open>saw\<close> is one of the characters \<open>^ 0 _ !\<close>.\<close>

fun underscore_loop :: "bool \<Rightarrow> byte \<Rightarrow> bytes \<Rightarrow> bool" where
  "underscore_loop hex saw [] = (saw \<noteq> 0x5F)"
| "underscore_loop hex saw (c # cs) =
     (if 0x30 \<le> c \<and> c \<le> 0x39 \<or> hex \<and> 0x61 \<le> lower c \<and> lower c \<le> 0x66 then underscore_loop hex 0x30 cs
      else if c = 0x5F then
        if saw \<noteq> 0x30 then False else underscore_loop hex 0x5F cs
      else if saw = 0x5F then False
      else underscore_loop hex 0x21 cs)"

definition underscoreOK :: "bytes \<Rightarrow> bool" where
  "underscoreOK s =
     (let s = (if length s \<ge> 1 \<and> (s ! 0 = 0x2D \<or> s ! 0 = 0x2B) then drop 1 s else s) in
      if length s \<ge> 2 \<and> s ! 0 = 0x30 \<and> (lower (s ! 1) = 0x62 \<or> lower (s ! 1) = 0x6F \<or> lower (s ! 1) = 0x78)
      then underscore_loop (lower (s ! 1) = 0x78) 0x30 (drop 2 s)
      else underscore_loop False 0x5E s)"

text \<open>
  The digit loop of \<open>ParseUint\<close>: \<open>Inl (value, err)\<close> is an early return, \<open>Inr (n, underscores)\<close>
  the state after the last byte.
\<close>

fun uint_loop ::
  "u64 \<Rightarrow> bool \<Rightarrow> u64 \<Rightarrow> u64 \<Rightarrow> bytes \<Rightarrow> bool \<Rightarrow> u64 \<Rightarrow> (u64 \<times> num_err) + (u64 \<times> bool)" where
  "uint_loop base base0 cutoff maxVal [] us n = Inr (n, us)"
| "uint_loop base base0 cutoff maxVal (c # cs) us n =
     (if c = 0x5F \<and> base0 then uint_loop base base0 cutoff maxVal cs True n
      else if \<not> (0x30 \<le> c \<and> c \<le> 0x39) \<and> \<not> (0x61 \<le> lower c \<and> lower c \<le> 0x7A) then Inl (0, ErrSyntax)
      else
        let d = (if 0x30 \<le> c \<and> c \<le> 0x39 then c - 0x30 else lower c - 0x61 + 10) in
        if d \<ge> ucast base then Inl (0, ErrSyntax)
        else if n \<ge> cutoff then Inl (maxVal, ErrRange)
        else
          let n = n * base; n1 = n + ucast d in
          if n1 < n \<or> n1 > maxVal then Inl (maxVal, ErrRange)
          else uint_loop base base0 cutoff maxVal cs us n1)"

text \<open>The first \<open>switch\<close> of \<open>ParseUint\<close>: the base and the text after its prefix, none for a bad base.\<close>

definition base_prefix :: "bytes \<Rightarrow> int \<Rightarrow> (int \<times> bytes) option" where
  "base_prefix s base =
     (if 2 \<le> base \<and> base \<le> 36 then Some (base, s)
      else if base = 0 then
        Some (if s ! 0 = 0x30 then
                if length s \<ge> 3 \<and> lower (s ! 1) = 0x62 then (2, drop 2 s)
                else if length s \<ge> 3 \<and> lower (s ! 1) = 0x6F then (8, drop 2 s)
                else if length s \<ge> 3 \<and> lower (s ! 1) = 0x78 then (16, drop 2 s)
                else (8, drop 1 s)
              else (10, s))
      else None)"

definition ParseUint :: "bytes \<Rightarrow> int \<Rightarrow> int \<Rightarrow> u64 \<times> NumError option" where
  "ParseUint s base bitSize =
     (if s = [] then (0, Some (syntaxError ''ParseUint'' s))
      else case base_prefix s base of
        None \<Rightarrow> (0, Some (baseError ''ParseUint'' s base))
      | Some (b, t) \<Rightarrow>
          if bitSize \<noteq> 0 \<and> (bitSize < 0 \<or> bitSize > 64) then (0, Some (bitSizeError ''ParseUint'' s bitSize))
          else
            let bitSize = (if bitSize = 0 then intSize else bitSize);
                cutoff = (if b = 10 then maxUint64 div 10 + 1
                          else if b = 16 then maxUint64 div 16 + 1
                          else maxUint64 div word_of_int b + 1);
                maxVal = push_bit (nat bitSize) 1 - 1 in
            case uint_loop (word_of_int b) (base = 0) cutoff maxVal t False 0 of
              Inl (v, e) \<Rightarrow> (v, Some \<lparr>Func = ''ParseUint'', Num = s, Err = e\<rparr>)
            | Inr (n, underscores) \<Rightarrow>
                if underscores \<and> \<not> underscoreOK s then (0, Some (syntaxError ''ParseUint'' s)) else (n, None))"

definition ParseInt :: "bytes \<Rightarrow> int \<Rightarrow> int \<Rightarrow> u64 \<times> NumError option" where
  "ParseInt s base bitSize =
     (if s = [] then (0, Some (syntaxError ''ParseInt'' s))
      else
        let neg = (s ! 0 \<noteq> 0x2B \<and> s ! 0 = 0x2D);
            t = (if s ! 0 = 0x2B \<or> s ! 0 = 0x2D then drop 1 s else s) in
        case ParseUint t base bitSize of
          (un, err) \<Rightarrow>
            if (case err of None \<Rightarrow> False | Some e \<Rightarrow> Err e \<noteq> ErrRange)
            then (0, map_option (\<lambda>e. e\<lparr>Func := ''ParseInt'', Num := s\<rparr>) err)
            else
              let bitSize = (if bitSize = 0 then intSize else bitSize);
                  cutoff = push_bit (nat (bitSize - 1)) 1 in
              if \<not> neg \<and> un \<ge> cutoff then (cutoff - 1, Some (rangeError ''ParseInt'' s))
              else if neg \<and> un > cutoff then (- cutoff, Some (rangeError ''ParseInt'' s))
              else (if neg then - un else un, None))"

text \<open>The fast path of \<open>Atoi\<close>: the value, or none at a byte that is not a decimal digit.\<close>

fun atoi_loop :: "u64 \<Rightarrow> bytes \<Rightarrow> u64 option" where
  "atoi_loop n [] = Some n"
| "atoi_loop n (ch # cs) =
     (let ch = ch - 0x30 in if ch > 9 then None else atoi_loop (n * 10 + ucast ch) cs)"

definition Atoi :: "bytes \<Rightarrow> u64 \<times> NumError option" where
  "Atoi s =
     (if intSize = 32 \<and> 0 < length s \<and> length s < 10 \<or> intSize = 64 \<and> 0 < length s \<and> length s < 19
      then
        let t = (if s ! 0 = 0x2D \<or> s ! 0 = 0x2B then drop 1 s else s) in
        if (s ! 0 = 0x2D \<or> s ! 0 = 0x2B) \<and> length t < 1
        then (0, Some \<lparr>Func = ''Atoi'', Num = s, Err = ErrSyntax\<rparr>)
        else case atoi_loop 0 t of
          None \<Rightarrow> (0, Some \<lparr>Func = ''Atoi'', Num = s, Err = ErrSyntax\<rparr>)
        | Some n \<Rightarrow> (if s ! 0 = 0x2D then - n else n, None)
      else case ParseInt s 10 0 of
        (i64, err) \<Rightarrow> (i64, map_option (\<lambda>e. e\<lparr>Func := ''Atoi''\<rparr>) err))"

section \<open>Operations of \<open>atob.go\<close>\<close>

definition ParseBool :: "bytes \<Rightarrow> bool \<times> NumError option" where
  "ParseBool str =
     (if str \<in> set (map bytes_of [''1'', ''t'', ''T'', ''true'', ''TRUE'', ''True'']) then (True, None)
      else if str \<in> set (map bytes_of [''0'', ''f'', ''F'', ''false'', ''FALSE'', ''False'']) then (False, None)
      else (False, Some (syntaxError ''ParseBool'' str)))"

definition FormatBool :: "bool \<Rightarrow> bytes" where
  "FormatBool b = (if b then bytes_of ''true'' else bytes_of ''false'')"

definition AppendBool :: "bytes \<Rightarrow> bool \<Rightarrow> bytes" where
  "AppendBool dst b = (if b then dst @ bytes_of ''true'' else dst @ bytes_of ''false'')"

section \<open>What the text denotes\<close>

text \<open>The digit a byte stands for, 36 when it is none.\<close>

definition digit_val :: "byte \<Rightarrow> nat" where
  "digit_val c =
     (if 0x30 \<le> c \<and> c \<le> 0x39 then unat (c - 0x30)
      else if 0x61 \<le> lower c \<and> lower c \<le> 0x7A then unat (lower c - 0x61 + 10) else 36)"

definition digits_value :: "nat \<Rightarrow> bytes \<Rightarrow> nat \<Rightarrow> nat" where
  "digits_value b cs n = foldl (\<lambda>v c. v * b + digit_val c) n cs"

lemma digits_value_simps [simp]:
  "digits_value b [] n = n"
  "digits_value b (c # cs) n = digits_value b cs (n * b + digit_val c)"
  by (simp_all add: digits_value_def)

lemma digits_value_append: "digits_value b (xs @ ys) n = digits_value b ys (digits_value b xs n)"
  by (simp add: digits_value_def)

lemma intSize_64 [simp]: "intSize = 64"
  by (simp add: intSize_def)


lemma digit_val_byte:
  assumes "digit_val c < 36"
  shows "\<not> (\<not> (0x30 \<le> c \<and> c \<le> 0x39) \<and> \<not> (0x61 \<le> lower c \<and> lower c \<le> 0x7A))"
    and "digit_val c = unat (if 0x30 \<le> c \<and> c \<le> 0x39 then c - 0x30 else lower c - 0x61 + 10)"
  using assms unfolding digit_val_def by (auto split: if_splits)

lemma digit_val_none:
  assumes "\<not> digit_val c < b" "b \<le> 36"
  shows "(\<not> (0x30 \<le> c \<and> c \<le> 0x39) \<and> \<not> (0x61 \<le> lower c \<and> lower c \<le> 0x7A)) \<or>
    b \<le> unat (if 0x30 \<le> c \<and> c \<le> 0x39 then c - 0x30 else lower c - 0x61 + 10)"
  using assms unfolding digit_val_def by (auto split: if_splits)

lemma digit_val_underscore: "digit_val 0x5F = 36"
  by (simp add: digit_val_def lower_def)

lemma digits_value_mono: "1 \<le> b \<Longrightarrow> n \<le> digits_value b cs n"
proof (induction cs arbitrary: n)
  case (Cons c cs)
  have "n \<le> n * b + digit_val c" using Cons.prems by (simp add: trans_le_add1)
  also have "\<dots> \<le> digits_value b cs (n * b + digit_val c)" by (rule Cons.IH [OF Cons.prems])
  finally show ?case by simp
qed simp

definition uint_ok :: "nat \<Rightarrow> bool \<Rightarrow> byte \<Rightarrow> bool" where
  "uint_ok b base0 c \<longleftrightarrow> digit_val c < b \<or> base0 \<and> c = 0x5F"

definition drop_us :: "bool \<Rightarrow> bytes \<Rightarrow> bytes" where
  "drop_us base0 = filter (\<lambda>c. \<not> (base0 \<and> c = 0x5F))"

lemma uint_loop_value:
  assumes b: "2 \<le> b" "b \<le> 36"
    and base: "base = of_nat b" and cutoff: "cutoff = maxUint64 div of_nat b + 1"
    and n: "unat n \<le> unat maxVal"
  shows "uint_loop base base0 cutoff maxVal cs us n =
    (let p = takeWhile (uint_ok b base0) cs; v = digits_value b (drop_us base0 p) (unat n) in
     if v > unat maxVal then Inl (maxVal, ErrRange)
     else if p \<noteq> cs then Inl (0, ErrSyntax)
     else Inr (of_nat v, us \<or> base0 \<and> 0x5F \<in> set cs))"
  using n
proof (induction cs arbitrary: us n)
  case Nil
  then show ?case by (simp add: drop_us_def)
next
  case (Cons c cs)
  have ub: "unat base = b" using b by (simp add: base unat_of_nat)
  have ubb: "unat (ucast base :: byte) = b"
    using b by (simp add: base unsigned_ucast_eq unat_of_nat take_bit_nat_eq_self)
  have uc: "unat cutoff = (2 ^ 64 - 1) div b + 1"
  proof -
    have m: "unat maxUint64 = 2 ^ 64 - 1" by (simp add: maxUint64_def)
    have d: "unat (maxUint64 div of_nat b) = (2 ^ 64 - 1) div b"
      using ub m by (simp add: base unat_div)
    have "(2 ^ 64 - 1) div b \<le> (2 ^ 64 - 1) div (2 :: nat)" using b by (intro div_le_mono2) auto
    then show ?thesis using d unfolding cutoff by (subst unat_word_ariths(1)) simp
  qed
  show ?case
  proof (cases "c = 0x5F \<and> base0")
    case True
    then have ok: "uint_ok b base0 c" by (simp add: uint_ok_def)
    have skip: "drop_us base0 (c # p) = drop_us base0 p" for p
      using True by (simp add: drop_us_def)
    show ?thesis using True Cons.IH [OF Cons.prems, of True] ok skip
      by (simp add: Let_def del: takeWhile_eq_all_conv)
  next
    case nus: False
    show ?thesis
    proof (cases "digit_val c < b")
      case False
      then have "\<not> uint_ok b base0 c" using nus by (auto simp: uint_ok_def)
      then show ?thesis
        using digit_val_none [OF False b(2)] nus Cons.prems
        by (auto simp: Let_def drop_us_def word_le_nat_alt ubb)
    next
      case True
      define d where "d = (if 0x30 \<le> c \<and> c \<le> 0x39 then c - 0x30 else lower c - 0x61 + 10)"
      have dv: "digit_val c < 36" using True b by simp
      have d: "unat d = digit_val c" using digit_val_byte(2) [OF dv] by (simp add: d_def)
      have nd: "\<not> d \<ge> ucast base" using True d by (simp add: word_le_nat_alt ubb)
      have ok: "uint_ok b base0 c" using True by (simp add: uint_ok_def)
      have keep: "drop_us base0 (c # p) = c # drop_us base0 p" for p
        using nus by (auto simp: drop_us_def)
      let ?p = "takeWhile (uint_ok b base0) cs"
      have step: "uint_loop base base0 cutoff maxVal (c # cs) us n =
         (if n \<ge> cutoff then Inl (maxVal, ErrRange)
          else if n * base + ucast d < n * base \<or> n * base + ucast d > maxVal then Inl (maxVal, ErrRange)
          else uint_loop base base0 cutoff maxVal cs us (n * base + ucast d))"
        using nus digit_val_byte(1) [OF dv] nd
        by (simp only: uint_loop.simps Let_def if_False d_def [symmetric])
      have le: "unat n * b + digit_val c \<le> digits_value b (drop_us base0 ?p) (unat n * b + digit_val c)"
        using b by (intro digits_value_mono) simp
      have m64: "unat maxVal \<le> 2 ^ 64 - 1" using unsigned_less [where 'a = nat, of maxVal] by simp
      show ?thesis
      proof (cases "n \<ge> cutoff")
        case True
        then have "(2 ^ 64 - 1) div b + 1 \<le> unat n" by (simp add: word_le_nat_alt uc)
        then have "((2 ^ 64 - 1) div b + 1) * b \<le> unat n * b" by (rule mult_le_mono1)
        moreover have "2 ^ 64 - 1 < ((2 ^ 64 - 1) div b + 1) * (b :: nat)"
          using b dividend_less_times_div [of b "2 ^ 64 - 1"] by (simp add: algebra_simps)
        ultimately have "unat maxVal < digits_value b (drop_us base0 ?p) (unat n * b + digit_val c)"
          using le m64 by linarith
        then show ?thesis using True step ok keep by (simp add: Let_def)
      next
        case False
        then have "unat n \<le> (2 ^ 64 - 1) div b" by (simp add: word_le_nat_alt uc)
        then have "unat n * b \<le> (2 ^ 64 - 1) div b * b" by (rule mult_le_mono1)
        also have "\<dots> \<le> 2 ^ 64 - 1" by (rule div_times_less_eq_dividend)
        finally have nb: "unat n * b < 2 ^ 64" by simp
        have un: "unat (n * base) = unat n * b" using nb by (simp add: unat_word_ariths(2) ub)
        have ucd: "unat (ucast d :: u64) = digit_val c"
          using d dv by (simp add: unsigned_ucast_eq take_bit_nat_eq_self)
        have over: "n * base + ucast d < n * base \<or> n * base + ucast d > maxVal
            \<longleftrightarrow> unat n * b + digit_val c > unat maxVal"
        proof (cases "unat n * b + digit_val c < 2 ^ 64")
          case True
          then have "unat (n * base + ucast d) = unat n * b + digit_val c"
            by (simp add: unat_word_ariths(1) un ucd)
          then show ?thesis by (simp add: word_less_nat_alt un)
        next
          case False
          then have "unat (n * base + ucast d) = unat n * b + digit_val c - 2 ^ 64"
            using nb dv by (simp add: unat_word_ariths(1) un ucd le_mod_geq)
          then show ?thesis using False nb dv m64 by (simp add: word_less_nat_alt un) linarith
        qed
        show ?thesis
        proof (cases "unat n * b + digit_val c > unat maxVal")
          case True
          then show ?thesis using False step over ok keep le by (simp add: Let_def)
        next
          case small: False
          then have s64: "unat n * b + digit_val c < 2 ^ 64" using m64 by simp
          then have u1: "unat (n * base + ucast d) = unat n * b + digit_val c"
            by (simp add: unat_word_ariths(1) un ucd)
          have "uint_loop base base0 cutoff maxVal (c # cs) us n =
              uint_loop base base0 cutoff maxVal cs us (n * base + ucast d)"
            using False small over step by simp
          then show ?thesis
            using Cons.IH [of "n * base + ucast d" us] small u1 ok keep nus by (auto simp: Let_def)
        qed
      qed
    qed
  qed
qed

section \<open>\<open>ParseUint\<close>\<close>

lemma unat_maxVal:
  assumes "k \<le> 64"
  shows "unat (push_bit k 1 - 1 :: u64) = 2 ^ k - 1"
proof (cases "k = 64")
  case True
  have "(push_bit 64 1 :: u64) = 0" by simp
  then show ?thesis using True by simp
next
  case False
  then have k: "k < 64" using assms by simp
  have p: "unat (2 ^ k :: u64) = 2 ^ k"
  proof -
    have "(2 :: nat) ^ k < 2 ^ 64" using k by (intro power_strict_increasing) auto
    moreover have "unat (word_of_nat n :: u64) = n" if "n < 2 ^ 64" for n
      using that by (simp add: unsigned_of_nat take_bit_nat_eq_self)
    moreover have "(2 ^ k :: u64) = word_of_nat (2 ^ k)" by simp
    ultimately show ?thesis by (simp only:)
  qed
  have "1 \<le> (2 ^ k :: u64)" by (simp add: word_le_nat_alt p)
  then show ?thesis by (simp add: push_bit_eq_mult unat_sub p)
qed

definition bits_of :: "int \<Rightarrow> nat" where
  "bits_of bitSize = (if bitSize = 0 then 64 else nat bitSize)"

lemma base_prefix_range: "base_prefix s base = Some (b, t) \<Longrightarrow> 2 \<le> b \<and> b \<le> 36"
  by (auto simp: base_prefix_def split: if_splits)

text \<open>\<open>ParseUint\<close> reads the longest run of digits (and, with base 0, underscores) after the base
  prefix; it is the value of that run when it is the whole text and fits the bit size, a range error
  with the largest value when it does not fit, and a syntax error with 0 otherwise.\<close>

lemma ParseUint_spec:
  assumes "s \<noteq> []" "base_prefix s base = Some (b, t)" "0 \<le> bitSize" "bitSize \<le> 64"
  shows "ParseUint s base bitSize =
    (let p = takeWhile (uint_ok (nat b) (base = 0)) t;
         v = digits_value (nat b) (drop_us (base = 0) p) 0 in
     if v \<ge> 2 ^ bits_of bitSize then (of_nat (2 ^ bits_of bitSize - 1), Some (rangeError ''ParseUint'' s))
     else if p \<noteq> t \<or> base = 0 \<and> 0x5F \<in> set t \<and> \<not> underscoreOK s
     then (0, Some (syntaxError ''ParseUint'' s))
     else (of_nat v, None))"
proof -
  have b: "2 \<le> nat b" "nat b \<le> 36" using base_prefix_range [OF assms(2)] by auto
  have wb: "word_of_int b = (of_nat (nat b) :: u64)" using b by simp
  let ?k = "nat (if bitSize = 0 then intSize else bitSize)"
  have k: "?k = bits_of bitSize" by (simp add: bits_of_def)
  have "?k \<le> 64" using assms by (simp add: nat_le_iff)
  define M where "M = push_bit ?k (1 :: u64) - 1"
  have mv: "unat M = 2 ^ bits_of bitSize - 1"
    unfolding M_def k using \<open>?k \<le> 64\<close> by (intro unat_maxVal) (simp only: k)
  then have mw: "of_nat (2 ^ bits_of bitSize - 1) = M"
    by (metis of_nat_unat ucast_id)
  have cut: "(if b = 10 then maxUint64 div 10 + 1 else if b = 16 then maxUint64 div 16 + 1
      else maxUint64 div word_of_int b + 1) = maxUint64 div of_nat (nat b) + (1 :: u64)"
    unfolding wb by simp
  have nb: "\<not> (bitSize \<noteq> 0 \<and> (bitSize < 0 \<or> bitSize > 64))" using assms by auto
  have pos: "(0 :: nat) < 2 ^ bits_of bitSize" by simp
  have ov: "v > 2 ^ bits_of bitSize - 1 \<longleftrightarrow> v \<ge> 2 ^ bits_of bitSize" for v :: nat using pos by linarith
  let ?p = "takeWhile (uint_ok (nat b) (base = 0)) t"
  let ?v = "digits_value (nat b) (drop_us (base = 0) ?p) 0"
  have loop: "uint_loop (word_of_int b) (base = 0) (maxUint64 div of_nat (nat b) + 1) M t False 0 =
    (if ?v \<ge> 2 ^ bits_of bitSize then Inl (M, ErrRange)
     else if ?p \<noteq> t then Inl (0, ErrSyntax) else Inr (of_nat ?v, base = 0 \<and> 0x5F \<in> set t))"
    using uint_loop_value [OF b wb refl, of 0 M "base = 0" t False]
    unfolding Let_def mv ov unat_0 by simp
  show ?thesis
    unfolding ParseUint_def if_not_P [OF assms(1)] assms(2) option.case prod.case if_not_P [OF nb] Let_def cut
      M_def [symmetric] loop mw
    by (simp add: syntaxError_def rangeError_def del: takeWhile_eq_all_conv of_nat_diff)
qed

lemma ParseUint_spec_witness:
  "ParseUint (bytes_of ''0x_f1'') 0 8 = (0xF1, None) \<and> ParseUint (bytes_of ''256'') 10 8 = (255, Some (rangeError ''ParseUint'' (bytes_of ''256'')))"
  using ParseUint_spec [of "bytes_of ''0x_f1''" 0 16 "bytes_of ''_f1''" 8] ParseUint_spec [of "bytes_of ''256''" 10 10 "bytes_of ''256''" 8]
  by (simp add: bytes_of_def base_prefix_def lower_def uint_ok_def drop_us_def digit_val_def bits_of_def
      underscoreOK_def Let_def)

section \<open>\<open>ParseInt\<close> and \<open>Atoi\<close>\<close>

lemma uint_ok_base: "uint_ok b False = (\<lambda>c. digit_val c < b)"
  by (simp add: uint_ok_def fun_eq_iff)

lemma drop_us_False [simp]: "drop_us False cs = cs"
  by (simp add: drop_us_def)

lemma ParseUint_base:
  assumes "t \<noteq> []" "2 \<le> base" "base \<le> 36" "0 \<le> bitSize" "bitSize \<le> 64"
  shows "ParseUint t base bitSize =
    (let p = takeWhile (\<lambda>c. digit_val c < nat base) t; v = digits_value (nat base) p 0 in
     if v \<ge> 2 ^ bits_of bitSize then (of_nat (2 ^ bits_of bitSize - 1), Some (rangeError ''ParseUint'' t))
     else if p \<noteq> t then (0, Some (syntaxError ''ParseUint'' t))
     else (of_nat v, None))"
proof -
  have 1: "base_prefix t base = Some (base, t)" using assms(2,3) by (simp add: base_prefix_def)
  have 2: "(base = 0) = False" using assms(2) by simp
  show ?thesis
    using ParseUint_spec [OF assms(1) 1 assms(4,5)] unfolding 2 uint_ok_base drop_us_False by (simp only: simp_thms)
qed

lemma word_of_nat_below: "n < 2 ^ 64 \<Longrightarrow> unat (word_of_nat n :: u64) = n"
  by (simp add: unsigned_of_nat take_bit_nat_eq_self)

text \<open>C24: with a base from 2 to 36 and a bit size of 0 (an \<open>int\<close> of 64 bits) or from 2 to 64, \<open>ParseInt\<close> returns the
  signed value of the digits when it fits the two's complement range, and the end of that range that was
  passed with a range error when it does not.  A text with no digit or with an invalid one gets a
  syntax error and 0, unless the digits before the invalid one already exceed the unsigned range of the
  bit size: the code stops there with a range error, where the comment on \<open>ParseInt\<close> promises a syntax
  error for every invalid digit.\<close>

lemma ParseInt_spec:
  assumes "2 \<le> base" "base \<le> 36" "bitSize = 0 \<or> 2 \<le> bitSize" "bitSize \<le> 64"
  shows "ParseInt s base bitSize =
    (let neg = (s \<noteq> [] \<and> hd s = 0x2D);
         t = (if s \<noteq> [] \<and> (hd s = 0x2D \<or> hd s = 0x2B) then tl s else s);
         p = takeWhile (\<lambda>c. digit_val c < nat base) t; v = digits_value (nat base) p 0;
         lim = 2 ^ (bits_of bitSize - 1) in
     if t = [] \<or> v < 2 * lim \<and> p \<noteq> t then (0, Some (syntaxError ''ParseInt'' s))
     else if neg \<and> v > lim then (- of_nat lim, Some (rangeError ''ParseInt'' s))
     else if \<not> neg \<and> v \<ge> lim then (of_nat (lim - 1), Some (rangeError ''ParseInt'' s))
     else (if neg then - of_nat v else of_nat v, None))"
proof (cases "s = []")
  case True
  then show ?thesis by (simp add: ParseInt_def)
next
  case False
  let ?neg = "s ! 0 = (0x2D :: byte)"
  define t where "t = (if s ! 0 = 0x2B \<or> s ! 0 = 0x2D then drop 1 s else s)"
  define v where "v = digits_value (nat base) (takeWhile (\<lambda>c. digit_val c < nat base) t) 0"
  define lim where "lim = (2 :: nat) ^ (bits_of bitSize - 1)"
  have bits: "2 \<le> bits_of bitSize" "bits_of bitSize \<le> 64" using assms(3,4) by (auto simp: bits_of_def)
  have lim2: "2 ^ bits_of bitSize = 2 * lim"
    using bits by (simp add: lim_def flip: power_Suc)
  have "lim \<le> 2 ^ 63" using bits unfolding lim_def by (intro power_increasing) auto
  moreover have "2 ^ 1 \<le> lim" using bits unfolding lim_def by (intro power_increasing) auto
  ultimately have lim: "2 \<le> lim" "lim < 2 ^ 64" "2 * lim - 1 < 2 ^ 64" by auto
  have bs: "0 \<le> bitSize" using assms(3) by auto
  have cut: "push_bit (nat ((if bitSize = 0 then intSize else bitSize) - 1)) (1 :: u64) = word_of_nat lim"
  proof -
    have "nat ((if bitSize = 0 then intSize else bitSize) - 1) = bits_of bitSize - 1"
      using bs by (simp add: bits_of_def nat_diff_distrib)
    then show ?thesis by (simp add: push_bit_eq_mult lim_def)
  qed
  have neg: "(s ! 0 \<noteq> 0x2B \<and> s ! 0 = 0x2D) = ?neg" by auto
  have hd: "hd s = s ! 0" using False by (simp add: hd_conv_nth)
  have tl: "(if s \<noteq> [] \<and> (hd s = 0x2D \<or> hd s = 0x2B) then tl s else s) = t"
    using False by (auto simp: t_def hd drop_Suc)
  have pu: "ParseUint t base bitSize =
    (if t = [] then (0, Some (syntaxError ''ParseUint'' t))
     else if v \<ge> 2 * lim then (of_nat (2 * lim - 1), Some (rangeError ''ParseUint'' t))
     else if takeWhile (\<lambda>c. digit_val c < nat base) t \<noteq> t then (0, Some (syntaxError ''ParseUint'' t))
     else (of_nat v, None))"
    using ParseUint_base [OF _ assms(1,2) bs assms(4), of t] unfolding lim2 v_def Let_def
    by (cases "t = []") (simp_all add: ParseUint_def)
  define M :: u64 where "M = word_of_nat (2 * lim - 1)"
  define L :: u64 where "L = word_of_nat lim"
  have un: "unat M = 2 * lim - 1" "unat L = lim"
    unfolding M_def L_def using lim by (auto intro!: word_of_nat_below simp del: of_nat_diff)
  have uv: "v < 2 * lim \<Longrightarrow> unat (word_of_nat v :: u64) = v"
    using lim by (intro word_of_nat_below) simp
  have L1: "L - 1 = word_of_nat (lim - 1)" using lim by (simp add: L_def)
  have cmp: "L \<le> M" "L < M"
    "v < 2 * lim \<Longrightarrow> L \<le> word_of_nat v \<longleftrightarrow> lim \<le> v"
    "v < 2 * lim \<Longrightarrow> L < word_of_nat v \<longleftrightarrow> lim < v"
    using lim by (simp_all add: word_le_nat_alt word_less_nat_alt un uv)
  show ?thesis
    unfolding ParseInt_def if_not_P [OF False] neg cut tl v_def [symmetric] lim_def [symmetric] Let_def
      t_def [symmetric] pu M_def [symmetric] L_def [symmetric] L1 [symmetric]
    using lim False cmp
    by (simp add: hd syntaxError_def rangeError_def del: takeWhile_eq_all_conv)
qed

lemma ParseInt_spec_witness:
  "ParseInt (bytes_of ''-128'') 10 8 = (-128, None) \<and>
   ParseInt (bytes_of ''128'') 10 8 = (127, Some (rangeError ''ParseInt'' (bytes_of ''128'')))"
  using ParseInt_spec [of 10 8 "bytes_of ''-128''"] ParseInt_spec [of 10 8 "bytes_of ''128''"]
  by (simp add: bytes_of_def digit_val_def bits_of_def lower_def Let_def)

section \<open>Round trips\<close>

lemma digit_val_char:
  assumes "d < 36"
  shows "digit_val (digit_char d) = d" "digit_char d \<noteq> 0x2D" "digit_char d \<noteq> 0x2B"
proof -
  have "list_all (\<lambda>d. digit_val (digits ! d) = d \<and> digits ! d \<noteq> 0x2D \<and> digits ! d \<noteq> 0x2B) [0..<36]"
    by (simp add: upt_rec digits_def bytes_of_def digit_val_def lower_def)
  then show "digit_val (digit_char d) = d" "digit_char d \<noteq> 0x2D" "digit_char d \<noteq> 0x2B"
    using assms by (simp_all add: list_all_iff digit_char_def)
qed

lemma nat_digits_bound: "2 \<le> b \<Longrightarrow> d \<in> set (nat_digits b n) \<Longrightarrow> d < b"
proof (induction b n rule: nat_digits.induct)
  case (1 b n)
  show ?case
  proof (cases "n < b")
    case True
    then show ?thesis using 1 by (simp add: nat_digits_small)
  next
    case False
    then have "d \<in> set (nat_digits b (n div b)) \<or> d = n mod b"
      using 1(2,3) by (auto simp: nat_digits_step)
    then show ?thesis using 1 False by auto
  qed
qed

lemma digits_value_text:
  assumes "2 \<le> b" "b \<le> 36"
  shows "digits_value b (text_of b n) 0 = n"
  using assms
proof (induction b n rule: nat_digits.induct)
  case (1 b n)
  show ?case
  proof (cases "n < b")
    case True
    then show ?thesis using 1 by (simp add: text_of_def nat_digits_small digit_val_char)
  next
    case False
    have "n mod b < 36" using 1 by (intro less_le_trans [OF mod_less_divisor]) auto
    then show ?thesis using False 1
      by (simp add: text_of_def nat_digits_step digits_value_append digit_val_char)
  qed
qed

lemma text_of_chars:
  assumes "2 \<le> b" "b \<le> 36"
  shows "text_of b n \<noteq> []" "c \<in> set (text_of b n) \<Longrightarrow> digit_val c < b"
    "hd (text_of b n) \<noteq> 0x2D" "hd (text_of b n) \<noteq> 0x2B"
proof -
  show ne: "text_of b n \<noteq> []" by (subst text_of_def, subst nat_digits.simps) simp
  have all: "\<exists>d < b. d < 36 \<and> c = digit_char d" if "c \<in> set (text_of b n)" for c
    using that assms nat_digits_bound [OF assms(1)] by (fastforce simp: text_of_def)
  show "c \<in> set (text_of b n) \<Longrightarrow> digit_val c < b"
    using all digit_val_char(1) by fastforce
  show "hd (text_of b n) \<noteq> 0x2D" "hd (text_of b n) \<noteq> 0x2B"
    using all [OF hd_in_set [OF ne]] digit_val_char(2,3) by auto
qed

lemma takeWhile_text:
  assumes "2 \<le> b" "b \<le> 36"
  shows "takeWhile (\<lambda>c. digit_val c < b) (text_of b n) = text_of b n"
  using text_of_chars(2) [OF assms] by simp

lemma word_of_sint: "sint i < 0 \<Longrightarrow> - word_of_nat (nat (- sint i)) = i"
  "0 \<le> sint i \<Longrightarrow> word_of_nat (nat (sint i)) = i" for i :: u64
  by (simp_all add: of_nat_nat)

lemma ParseInt_int_text:
  assumes "2 \<le> base" "base \<le> 36"
  shows "ParseInt (int_text (nat base) (sint i)) base 64 = (i, None)"
proof -
  have b: "2 \<le> nat base" "nat base \<le> 36" using assms by auto
  note t = text_of_chars(1,3,4) [OF b] takeWhile_text [OF b] digits_value_text [OF b]
  have lo: "- (2 ^ 63) \<le> sint i" using sint_ge [of i] by simp
  have hi: "sint i < 2 ^ 63" using sint_lt [of i] by simp
  show ?thesis
  proof (cases "sint i < 0")
    case True
    have "nat (- sint i) \<le> 2 ^ 63" using lo by simp
    then show ?thesis using True assms
      by (subst ParseInt_spec)
        (simp_all add: int_text_def bits_of_def Let_def word_of_sint t del: takeWhile_eq_all_conv)
  next
    case False
    have "nat (sint i) < 2 ^ 63" using hi by (simp add: nat_less_iff)
    then show ?thesis using False assms
      by (subst ParseInt_spec)
        (simp_all add: int_text_def bits_of_def Let_def word_of_sint t del: takeWhile_eq_all_conv)
  qed
qed

text \<open>C36: for every base from 2 to 36, \<open>FormatInt\<close> returns a text (it does not run past its 65-byte
  buffer, on 32-bit and on 64-bit hosts) that \<open>ParseInt\<close> reads back as the same integer.\<close>

lemma ParseInt_FormatInt:
  assumes "2 \<le> base" "base \<le> 36"
  shows "\<exists>s. FormatInt host32 i base = Inr s \<and> ParseInt s base 64 = (i, None)"
  using FormatInt_text [OF assms] ParseInt_int_text [OF assms] by blast

lemma ParseInt_FormatInt_witness: "\<exists>s. FormatInt True (-255) 16 = Inr s \<and> ParseInt s 16 64 = (-255, None)"
  by (rule ParseInt_FormatInt) simp_all

text \<open>The round trip of \<open>FormatUint\<close> and \<open>ParseUint\<close>.\<close>

lemma ParseUint_FormatUint:
  assumes "2 \<le> base" "base \<le> 36"
  shows "\<exists>s. FormatUint host32 u base = Inr s \<and> ParseUint s base 64 = (u, None)"
proof -
  have b: "2 \<le> nat base" "nat base \<le> 36" using assms by auto
  have "unat u < 2 ^ 64" using unsigned_less [where 'a = nat, of u] by simp
  then have "ParseUint (text_of (nat base) (unat u)) base 64 = (u, None)"
    using assms text_of_chars(1) [OF b]
    by (subst ParseUint_base)
      (simp_all add: takeWhile_text [OF b] digits_value_text [OF b] bits_of_def Let_def del: takeWhile_eq_all_conv)
  then show ?thesis using FormatUint_text [OF assms] by blast
qed

lemma ParseUint_FormatUint_witness: "\<exists>s. FormatUint False 35 36 = Inr s \<and> ParseUint s 36 64 = (35, None)"
  by (rule ParseUint_FormatUint) simp_all

lemma decimal_byte:
  "\<not> c - 0x30 > 9 \<longleftrightarrow> digit_val c < 10" "digit_val c < 10 \<Longrightarrow> unat (c - 0x30) = digit_val c"
proof -
  have n: "unat c < 256" using unsigned_less [where 'a = nat, of c] by simp
  have "unat (c - 0x30) = (if 48 \<le> unat c then unat c - 48 else unat c + 208)"
  proof (cases "48 \<le> unat c")
    case True
    then show ?thesis by (simp add: unat_sub word_le_nat_alt)
  next
    case False
    have "c - 0x30 = c + 0xD0" by simp
    then show ?thesis using False by (simp only: unat_word_ariths(1)) simp
  qed
  then have dec: "\<not> c - 0x30 > 9 \<longleftrightarrow> 0x30 \<le> c \<and> c \<le> 0x39"
    by (auto simp: word_less_nat_alt word_le_nat_alt)
  have let': "10 \<le> unat (l - 0x61 + 10)" if "0x61 \<le> l" "l \<le> 0x7A" for l :: byte
  proof -
    have "l - 0x61 + 10 = l - 87" "unat (l - 87) = unat l - 87" "97 \<le> unat l"
      using that by (simp_all add: unat_sub word_le_nat_alt)
    then show ?thesis by simp
  qed
  have "digit_val c < 10 \<longleftrightarrow> 0x30 \<le> c \<and> c \<le> 0x39"
    using let' [of "lower c"] dec by (auto simp: digit_val_def word_less_nat_alt)
  then show "\<not> c - 0x30 > 9 \<longleftrightarrow> digit_val c < 10" "digit_val c < 10 \<Longrightarrow> unat (c - 0x30) = digit_val c"
    using dec by (auto simp: digit_val_def)
qed

lemma atoi_loop_value:
  "atoi_loop (of_nat m) cs =
    (if takeWhile (\<lambda>c. digit_val c < 10) cs = cs then Some (of_nat (digits_value 10 cs m)) else None)"
proof (induction cs arbitrary: m)
  case (Cons c cs)
  show ?case
  proof (cases "digit_val c < 10")
    case True
    have "unat (ucast (c - 0x30) :: u64) = digit_val c"
      using decimal_byte(2) [OF True] True by (simp add: unsigned_ucast_eq take_bit_nat_eq_self)
    then have "(ucast (c - 0x30) :: u64) = of_nat (digit_val c)" by (metis of_nat_unat ucast_id)
    then have "of_nat m * 10 + (ucast (c - 0x30) :: u64) = of_nat (m * 10 + digit_val c)" by simp
    then show ?thesis using True decimal_byte(1) [of c] Cons.IH [of "m * 10 + digit_val c"]
      by (simp only: atoi_loop.simps Let_def if_False digits_value_simps takeWhile.simps if_True list.inject simp_thms)
  next
    case False
    then show ?thesis using decimal_byte(1) [of c] by (auto simp: Let_def)
  qed
qed simp

lemma digits_value_less:
  assumes "\<forall>c\<in>set cs. digit_val c < b" "n < k"
  shows "digits_value b cs n < k * b ^ length cs"
  using assms
proof (induction cs arbitrary: n k)
  case (Cons c cs)
  have "n * b + digit_val c < Suc n * b" using Cons.prems by simp
  also have "\<dots> \<le> k * b" using Cons.prems(2) by (intro mult_le_mono1) simp
  finally show ?case using Cons.IH [of "n * b + digit_val c" "k * b"] Cons.prems by (simp add: mult.assoc)
qed simp

text \<open>\<open>Atoi\<close> is \<open>ParseInt(s, 10, 0)\<close> on every text, its fast path for short texts included,
  except that the error names \<open>Atoi\<close>.\<close>

lemma Atoi_ParseInt:
  "Atoi s = (fst (ParseInt s 10 0), map_option (\<lambda>e. e\<lparr>Func := ''Atoi''\<rparr>) (snd (ParseInt s 10 0)))"
proof (cases "0 < length s \<and> length s < 19")
  case False
  then have "\<not> (intSize = 32 \<and> 0 < length s \<and> length s < 10 \<or> intSize = 64 \<and> 0 < length s \<and> length s < 19)"
    by simp
  then show ?thesis unfolding Atoi_def by (simp only: if_False split: prod.split) simp
next
  case True
  then have ne: "s \<noteq> []" and cond: "intSize = 32 \<and> 0 < length s \<and> length s < 10 \<or> intSize = 64 \<and> 0 < length s \<and> length s < 19"
    by auto
  define t where "t = (if s ! 0 = 0x2D \<or> s ! 0 = 0x2B then drop 1 s else s)"
  define p where "p = takeWhile (\<lambda>c. digit_val c < 10) t"
  have tl: "(if s \<noteq> [] \<and> (hd s = 0x2D \<or> hd s = 0x2B) then tl s else s) = t"
    using ne by (auto simp: t_def hd_conv_nth drop_Suc)
  have "length p \<le> length t" unfolding p_def by (rule length_takeWhile_le)
  also have "\<dots> \<le> 18" using True by (auto simp: t_def)
  finally have "(10 :: nat) ^ length p \<le> 10 ^ 18" by (intro power_increasing) auto
  moreover have "digits_value 10 p 0 < 1 * 10 ^ length p"
    by (intro digits_value_less) (auto simp: p_def dest: set_takeWhileD)
  ultimately have v: "digits_value 10 p 0 < 2 ^ 63" by (auto intro: less_le_trans)
  have t0: "t = [] \<longrightarrow> s ! 0 = 0x2D \<or> s ! 0 = 0x2B" using ne by (auto simp: t_def)
  have pi: "ParseInt s 10 0 =
      (if t = [] \<or> p \<noteq> t then (0, Some (syntaxError ''ParseInt'' s))
       else (if s ! 0 = 0x2D then - of_nat (digits_value 10 p 0) else of_nat (digits_value 10 p 0), None))"
    using ParseInt_spec [of 10 0 s] v ne unfolding tl Let_def
    by (auto simp: p_def [symmetric] bits_of_def hd_conv_nth simp del: takeWhile_eq_all_conv)
  have lp: "atoi_loop 0 t = (if p = t then Some (of_nat (digits_value 10 t 0)) else None)"
    using atoi_loop_value [of 0 t] by (simp add: p_def)
  have tc: "(s ! 0 = 0x2D \<or> s ! 0 = 0x2B) \<and> length t < 1 \<longleftrightarrow> t = []"
    using t0 by auto
  show ?thesis
    unfolding Atoi_def if_P [OF cond] Let_def t_def [symmetric] lp tc pi
    by (auto simp: syntaxError_def)
qed

text \<open>With bit size 1 the range check of \<open>ParseInt\<close> is lost for negative numbers: every decimal
  integer below \<open>-1\<close> is read as \<open>-1\<close>, without an error.\<close>

lemma ParseInt_bitSize1:
  assumes "2 \<le> v"
  shows "ParseInt (0x2D # text_of 10 v) 10 1 = (-1, None)"
proof -
  have u: "ParseUint (text_of 10 v) 10 1 = (1, Some (rangeError ''ParseUint'' (text_of 10 v)))"
    using assms by (subst ParseUint_base) (simp_all add: text_of_chars takeWhile_text digits_value_text
      bits_of_def Let_def del: takeWhile_eq_all_conv)
  show ?thesis by (simp add: ParseInt_def u rangeError_def Let_def)
qed

lemma ParseInt_bitSize1_witness: "ParseInt (bytes_of ''-7'') 10 1 = (-1, None)"
  using ParseInt_bitSize1 [of 7]
  by (simp add: text_of_def nat_digits_small digit_char_def digits_def bytes_of_def)

section \<open>Underscores and booleans\<close>

definition us_digit :: "bool \<Rightarrow> byte \<Rightarrow> bool" where
  "us_digit hex c \<longleftrightarrow> 0x30 \<le> c \<and> c \<le> 0x39 \<or> hex \<and> 0x61 \<le> lower c \<and> lower c \<le> 0x66"

lemma us_digit_underscore [simp]: "\<not> us_digit hex 0x5F"
  by (simp add: us_digit_def lower_def)

lemma underscore_loop_spec:
  "underscore_loop hex saw cs \<longleftrightarrow>
    (\<forall>i < length cs. cs ! i = 0x5F \<longrightarrow>
       (if i = 0 then saw = 0x30 else us_digit hex (cs ! (i - 1))) \<and>
       i + 1 < length cs \<and> us_digit hex (cs ! (i + 1))) \<and>
    (saw = 0x5F \<longrightarrow> cs \<noteq> [] \<and> us_digit hex (cs ! 0))"
proof (induction cs arbitrary: saw)
  case (Cons c cs)
  have all: "(\<forall>i < length (c # cs). P i) \<longleftrightarrow> P 0 \<and> (\<forall>i < length cs. P (Suc i))" for P
    by (auto simp: less_Suc_eq_0_disj)
  have prev: "us_digit hex ((c # cs) ! (Suc i - 1)) = (if i = 0 then us_digit hex c else us_digit hex (cs ! (i - 1)))" for i
    by (cases i) simp_all
  have succ: "Suc i + 1 < length (c # cs) \<longleftrightarrow> i + 1 < length cs" "(c # cs) ! (Suc i + 1) = cs ! (i + 1)"
    "0 + 1 < length (c # cs) \<longleftrightarrow> cs \<noteq> []" "(c # cs) ! (0 + 1) = cs ! 0" for i
    by auto
  note norm = all prev succ nth_Cons_Suc nth_Cons_0 nat.distinct if_True if_False simp_thms
    underscore_loop.simps us_digit_def [symmetric] list.distinct
  have chars: "(0x5F :: byte) \<noteq> 0x30" "(0x30 :: byte) \<noteq> 0x5F" "(0x21 :: byte) \<noteq> 0x5F" "(0x21 :: byte) \<noteq> 0x30"
    by simp_all
  consider (dig) "us_digit hex c" "c \<noteq> 0x5F" | (us) "c = 0x5F" | (other) "\<not> us_digit hex c" "c \<noteq> 0x5F"
    by fastforce
  then show ?case
  proof cases
    case dig
    show ?thesis using Cons.IH [of "0x30"] by (simp only: norm dig chars)
  next
    case us
    have u: "(c = 0x5F) = True" "us_digit hex c = False" using us by simp_all
    show ?thesis using Cons.IH [of "0x5F"]
      by (cases "saw = 0x30") (simp_all only: norm u chars, blast)
  next
    case other
    show ?thesis using Cons.IH [of "0x21"]
      by (cases "saw = 0x5F") (simp_all only: norm other chars)
  qed
qed auto

definition underscores_placed :: "bytes \<Rightarrow> bool" where
  "underscores_placed s \<longleftrightarrow>
    (let t = (if s \<noteq> [] \<and> hd s \<in> {0x2D, 0x2B} then tl s else s);
         pre = (length t \<ge> 2 \<and> t ! 0 = 0x30 \<and> lower (t ! 1) \<in> {0x62, 0x6F, 0x78});
         hex = (pre \<and> lower (t ! 1) = 0x78);
         cs = (if pre then drop 2 t else t) in
     \<forall>i < length cs. cs ! i = 0x5F \<longrightarrow>
       (if i = 0 then pre else us_digit hex (cs ! (i - 1))) \<and>
       i + 1 < length cs \<and> us_digit hex (cs ! (i + 1)))"

text \<open>\<open>underscoreOK\<close> accepts exactly the texts where, after the sign, every underscore stands between
  two digits, or between the base prefix and a digit; the digits are decimal, and hexadecimal after
  \<open>0x\<close>.\<close>

lemma underscoreOK_spec: "underscoreOK s \<longleftrightarrow> underscores_placed s"
proof -
  define t where "t = (if s \<noteq> [] \<and> hd s \<in> {0x2D, 0x2B} then tl s else s)"
  have t: "(if length s \<ge> 1 \<and> (s ! 0 = 0x2D \<or> s ! 0 = 0x2B) then drop 1 s else s) = t"
    by (cases s) (auto simp: t_def)
  let ?pre = "length t \<ge> 2 \<and> t ! 0 = 0x30 \<and> (lower (t ! 1) = 0x62 \<or> lower (t ! 1) = 0x6F \<or> lower (t ! 1) = 0x78)"
  have mem: "lower (t ! 1) \<in> {0x62, 0x6F, 0x78} \<longleftrightarrow> lower (t ! 1) = 0x62 \<or> lower (t ! 1) = 0x6F \<or> lower (t ! 1) = 0x78"
    by simp
  have not: "(0x30 :: byte) \<noteq> 0x5F" "(0x5E :: byte) \<noteq> 0x5F" "(0x5E :: byte) \<noteq> 0x30" by simp_all
  show ?thesis
    unfolding underscoreOK_def underscores_placed_def t t_def [symmetric] Let_def mem underscore_loop_spec
    by (cases ?pre) (simp_all only: if_True if_False simp_thms not)
qed

text \<open>\<open>ParseBool\<close> reads back what \<open>FormatBool\<close> writes, and \<open>AppendBool\<close> appends that text.\<close>

lemma ParseBool_FormatBool:
  "ParseBool (FormatBool b) = (b, None) \<and> AppendBool dst b = dst @ FormatBool b"
  by (cases b) (simp_all add: ParseBool_def FormatBool_def AppendBool_def bytes_of_def)

end
