(* ===== verification/Io.thy ===== *)
theory Io
  imports Prelude
begin

text \<open>
  Package \<open>io\<close>: \<open>io.go\<close> and \<open>multi.go\<close>.  A value of an interface type is a state together with the
  method as a function on that state, passed as an argument: a \<open>Reader\<close> takes the bytes of the
  buffer it is given and returns its new state, the bytes the buffer holds afterwards, the count and
  the error.  The slices handed to the functions have no capacity beyond their length.
\<close>

section \<open>Errors and interface types\<close>

datatype io_error = EOF | ErrShortWrite | ErrShortBuffer | ErrUnexpectedEOF | ErrNoProgress | NewError string

type_synonym 'r reader = "'r \<Rightarrow> bytes \<Rightarrow> ('r \<times> bytes \<times> int \<times> io_error option) go"
type_synonym 'r reader_at = "'r \<Rightarrow> bytes \<Rightarrow> int \<Rightarrow> ('r \<times> bytes \<times> int \<times> io_error option) go"
type_synonym 'w writer = "'w \<Rightarrow> bytes \<Rightarrow> ('w \<times> int \<times> io_error option) go"
type_synonym ('r, 'w) transfer = "'r \<Rightarrow> 'w \<Rightarrow> ('r \<times> 'w \<times> int \<times> io_error option) go option"

text \<open>\<open>xs[i:j]\<close> and \<open>xs[i:]\<close> with indices of type \<open>int\<close>.\<close>

definition go_sub :: "'a list \<Rightarrow> int \<Rightarrow> int \<Rightarrow> 'a list go" where
  "go_sub xs i j = (if 0 \<le> i \<and> i \<le> j \<and> j \<le> int (length xs) then Inr (seg (nat i) (nat j) xs) else Inl SliceOutOfRange)"

definition go_from :: "'a list \<Rightarrow> int \<Rightarrow> 'a list go" where
  "go_from xs i = go_sub xs i (int (length xs))"

lemma go_from_ok [simp]: "i \<le> length xs \<Longrightarrow> go_from xs (int i) = Inr (drop i xs)"
  by (simp add: go_from_def go_sub_def)

lemma go_sub_ok [simp]: "i \<le> j \<Longrightarrow> j \<le> length xs \<Longrightarrow> go_sub xs (int i) (int j) = Inr (seg i j xs)"
  by (simp add: go_sub_def)

lemma go_sub_take [simp]: "j \<le> length xs \<Longrightarrow> go_sub xs 0 (int j) = Inr (take j xs)"
  using go_sub_ok [of 0 j xs] by simp

section \<open>Reading whole buffers\<close>

partial_function (option) read_loop ::
  "'r reader \<Rightarrow> int \<Rightarrow> 'r \<Rightarrow> bytes \<Rightarrow> int \<Rightarrow> io_error option \<Rightarrow> ('r \<times> bytes \<times> int \<times> io_error option) go option" where
  "read_loop rd least r buf n err =
     (if n < least \<and> err = None then
        (case go_from buf n of
           Inl e \<Rightarrow> Some (Inl e)
         | Inr p \<Rightarrow>
             (case rd r p of
                Inl e \<Rightarrow> Some (Inl e)
              | Inr (r', p', nn, err') \<Rightarrow> read_loop rd least r' (take (nat n) buf @ p') (wrap64 (n + nn)) err'))
      else Some (Inr (r, buf, n, err)))"

definition ReadAtLeast ::
  "'r reader \<Rightarrow> 'r \<Rightarrow> bytes \<Rightarrow> int \<Rightarrow> ('r \<times> bytes \<times> int \<times> io_error option) go option" where
  "ReadAtLeast rd r buf least =
     (if int (length buf) < least then Some (Inr (r, buf, 0, Some ErrShortBuffer))
      else run_bind (read_loop rd least r buf 0 None) (\<lambda>(r, buf, n, err).
        Some (Inr (r, buf, n,
          if n \<ge> least then None
          else if n > 0 \<and> err = Some EOF then Some ErrUnexpectedEOF else err))))"

definition ReadFull ::
  "'r reader \<Rightarrow> 'r \<Rightarrow> bytes \<Rightarrow> ('r \<times> bytes \<times> int \<times> io_error option) go option" where
  "ReadFull rd r buf = ReadAtLeast rd r buf (int (length buf))"

section \<open>Limited and section readers\<close>

record 'r LimitedReader =
  lim_R :: 'r
  lim_N :: int

definition LimitReader :: "'r \<Rightarrow> int \<Rightarrow> 'r LimitedReader" where
  "LimitReader r n = \<lparr>lim_R = r, lim_N = n\<rparr>"

definition limited_read :: "'r reader \<Rightarrow> 'r LimitedReader reader" where
  "limited_read rd l p =
     (if lim_N l \<le> 0 then Inr (l, p, 0, Some EOF)
      else let q = (if int (length p) > lim_N l then take (nat (lim_N l)) p else p) in
        go_bind (rd (lim_R l) q) (\<lambda>(r, q', n, err).
          Inr (l\<lparr>lim_R := r, lim_N := wrap64 (lim_N l - n)\<rparr>, q' @ drop (length q) p, n, err)))"

record 'r SectionReader =
  sec_r :: 'r
  sec_base :: int
  sec_off :: int
  sec_limit :: int

definition NewSectionReader :: "'r \<Rightarrow> int \<Rightarrow> int \<Rightarrow> 'r SectionReader" where
  "NewSectionReader r off n = \<lparr>sec_r = r, sec_base = off, sec_off = off, sec_limit = wrap64 (off + n)\<rparr>"

definition section_Read :: "'r reader_at \<Rightarrow> 'r SectionReader reader" where
  "section_Read ra s p =
     (if sec_off s \<ge> sec_limit s then Inr (s, p, 0, Some EOF)
      else let max = wrap64 (sec_limit s - sec_off s) in
        go_bind (if int (length p) > max then go_sub p 0 max else Inr p) (\<lambda>q.
        go_bind (ra (sec_r s) q (sec_off s)) (\<lambda>(r, q', n, err).
          Inr (s\<lparr>sec_r := r, sec_off := wrap64 (sec_off s + n)\<rparr>, q' @ drop (length q) p, n, err))))"

definition SeekStart :: int where "SeekStart = 0"
definition SeekCurrent :: int where "SeekCurrent = 1"
definition SeekEnd :: int where "SeekEnd = 2"

definition errWhence :: io_error where "errWhence = NewError ''Seek: invalid whence''"
definition errOffset :: io_error where "errOffset = NewError ''Seek: invalid offset''"

definition section_Seek :: "'r SectionReader \<Rightarrow> int \<Rightarrow> int \<Rightarrow> 'r SectionReader \<times> int \<times> io_error option" where
  "section_Seek s offset whence =
     (if whence \<notin> {SeekStart, SeekCurrent, SeekEnd} then (s, 0, Some errWhence)
      else
        let offset = wrap64 (offset + (if whence = SeekStart then sec_base s
                                       else if whence = SeekCurrent then sec_off s else sec_limit s)) in
        if offset < sec_base s then (s, 0, Some errOffset)
        else (s\<lparr>sec_off := offset\<rparr>, wrap64 (offset - sec_base s), None))"

definition section_ReadAt :: "'r reader_at \<Rightarrow> 'r SectionReader reader_at" where
  "section_ReadAt ra s p off =
     (if off < 0 \<or> off \<ge> wrap64 (sec_limit s - sec_base s) then Inr (s, p, 0, Some EOF)
      else
        let off = wrap64 (off + sec_base s); max = wrap64 (sec_limit s - off) in
        if int (length p) > max then
          go_bind (go_sub p 0 max) (\<lambda>q. go_bind (ra (sec_r s) q off) (\<lambda>(r, q', n, err).
            Inr (s\<lparr>sec_r := r\<rparr>, q' @ drop (length q) p, n, if err = None then Some EOF else err)))
        else go_bind (ra (sec_r s) p off) (\<lambda>(r, p', n, err). Inr (s\<lparr>sec_r := r\<rparr>, p', n, err)))"

definition section_Size :: "'r SectionReader \<Rightarrow> int" where
  "section_Size s = wrap64 (sec_limit s - sec_base s)"

section \<open>Copying\<close>

text \<open>A \<open>StringWriter\<close> is a writer with a second method; the type assertion is an option.\<close>

definition io_WriteString :: "'w writer \<Rightarrow> 'w writer option \<Rightarrow> 'w writer" where
  "io_WriteString wr sw w s = (case sw of Some f \<Rightarrow> f w s | None \<Rightarrow> wr w s)"

record ('r, 'w) teeReader =
  tee_r :: 'r
  tee_w :: 'w

definition TeeReader :: "'r \<Rightarrow> 'w \<Rightarrow> ('r, 'w) teeReader" where
  "TeeReader r w = \<lparr>tee_r = r, tee_w = w\<rparr>"

definition tee_Read :: "'r reader \<Rightarrow> 'w writer \<Rightarrow> ('r, 'w) teeReader reader" where
  "tee_Read rd wr t p =
     go_bind (rd (tee_r t) p) (\<lambda>(r, p', n, err).
       if n > 0 then
         go_bind (go_sub p' 0 n) (\<lambda>q. go_bind (wr (tee_w t) q) (\<lambda>(w, n', err').
           Inr (\<lparr>tee_r = r, tee_w = w\<rparr>, p', if err' \<noteq> None then n' else n, if err' \<noteq> None then err' else err)))
       else Inr (t\<lparr>tee_r := r\<rparr>, p', n, err))"

text \<open>One turn of the loop of \<open>copyBuffer\<close> after the read: a \<open>Some\<close> error leaves the loop.\<close>

definition copy_write :: "'w writer \<Rightarrow> 'w \<Rightarrow> bytes \<Rightarrow> int \<Rightarrow> int \<Rightarrow> ('w \<times> int \<times> io_error option) go" where
  "copy_write wr dst buf nr written =
     (if nr > 0 then
        go_bind (go_sub buf 0 nr) (\<lambda>q. go_bind (wr dst q) (\<lambda>(dst, nw, ew).
          let written = (if nw > 0 then wrap64 (written + nw) else written) in
          if ew \<noteq> None then Inr (dst, written, ew)
          else if nr \<noteq> nw then Inr (dst, written, Some ErrShortWrite)
          else Inr (dst, written, None)))
      else Inr (dst, written, None))"

partial_function (option) copy_loop ::
  "'r reader \<Rightarrow> 'w writer \<Rightarrow> 'r \<Rightarrow> 'w \<Rightarrow> bytes \<Rightarrow> int \<Rightarrow> ('r \<times> 'w \<times> int \<times> io_error option) go option" where
  "copy_loop rd wr src dst buf written =
     (case rd src buf of
        Inl e \<Rightarrow> Some (Inl e)
      | Inr (src', buf', nr, er) \<Rightarrow>
          (case copy_write wr dst buf' nr written of
             Inl e \<Rightarrow> Some (Inl e)
           | Inr (dst', written', err) \<Rightarrow>
               if err \<noteq> None then Some (Inr (src', dst', written', err))
               else if er \<noteq> None then Some (Inr (src', dst', written', if er \<noteq> Some EOF then er else None))
               else copy_loop rd wr src' dst' buf' written'))"

text \<open>
  The type assertions of \<open>copyBuffer\<close> on its arguments: \<open>wt\<close> is the \<open>WriteTo\<close> method of the source,
  \<open>rf\<close> the \<open>ReadFrom\<close> method of the destination, \<open>lim\<close> the bound of the source when it is a
  \<open>*LimitedReader\<close>; \<open>None\<close> when the value has no such method.
\<close>

definition copyBuffer ::
  "'r reader \<Rightarrow> ('r, 'w) transfer option \<Rightarrow> ('r \<Rightarrow> int option) \<Rightarrow> 'w writer \<Rightarrow> ('r, 'w) transfer option \<Rightarrow>
   'w \<Rightarrow> 'r \<Rightarrow> bytes option \<Rightarrow> ('r \<times> 'w \<times> int \<times> io_error option) go option" where
  "copyBuffer rd wt lim wr rf dst src buf =
     (case wt of Some f \<Rightarrow> f src dst
      | None \<Rightarrow> (case rf of Some f \<Rightarrow> f src dst
      | None \<Rightarrow>
          (let buf = (case buf of Some b \<Rightarrow> b
                      | None \<Rightarrow> replicate (case lim src of
                            Some n \<Rightarrow> (if 32 * 1024 > n then (if n < 1 then 1 else nat n) else 32 * 1024)
                          | None \<Rightarrow> 32 * 1024) 0) in
           copy_loop rd wr src dst buf 0)))"

definition Copy ::
  "'r reader \<Rightarrow> ('r, 'w) transfer option \<Rightarrow> ('r \<Rightarrow> int option) \<Rightarrow> 'w writer \<Rightarrow> ('r, 'w) transfer option \<Rightarrow>
   'w \<Rightarrow> 'r \<Rightarrow> ('r \<times> 'w \<times> int \<times> io_error option) go option" where
  "Copy rd wt lim wr rf dst src = copyBuffer rd wt lim wr rf dst src None"

definition CopyBuffer ::
  "'r reader \<Rightarrow> ('r, 'w) transfer option \<Rightarrow> ('r \<Rightarrow> int option) \<Rightarrow> 'w writer \<Rightarrow> ('r, 'w) transfer option \<Rightarrow>
   'w \<Rightarrow> 'r \<Rightarrow> bytes option \<Rightarrow> ('r \<times> 'w \<times> int \<times> io_error option) go option" where
  "CopyBuffer rd wt lim wr rf dst src buf =
     (if buf \<noteq> None \<and> buf = Some [] then Some (Inl (PanicValue ''empty buffer in io.CopyBuffer''))
      else copyBuffer rd wt lim wr rf dst src buf)"

definition CopyN ::
  "'r reader \<Rightarrow> 'w writer \<Rightarrow> ('r LimitedReader, 'w) transfer option \<Rightarrow>
   'w \<Rightarrow> 'r \<Rightarrow> int \<Rightarrow> ('r \<times> 'w \<times> int \<times> io_error option) go option" where
  "CopyN rd wr rf dst src n =
     run_bind (Copy (limited_read rd) None (\<lambda>l. Some (lim_N l)) wr rf dst (LimitReader src n)) (\<lambda>(l, dst, written, err).
       Some (Inr (lim_R l, dst,
         if written = n then n else written,
         if written = n then None else if written < n \<and> err = None then Some EOF else err)))"

section \<open>Several readers, several writers\<close>

datatype 'r mreader = Leaf 'r | EofReader | Multi "'r mreader list"

lemma go_bind_cong [fundef_cong]:
  "m = m' \<Longrightarrow> (\<And>x. m' = Inr x \<Longrightarrow> f x = g x) \<Longrightarrow> go_bind m f = go_bind m' g"
  by (cases m') auto

function multi_read :: "'r reader \<Rightarrow> 'r mreader reader" where
  "multi_read rd (Leaf r) p = go_bind (rd r p) (\<lambda>(r, p', n, err). Inr (Leaf r, p', n, err))"
| "multi_read rd EofReader p = Inr (EofReader, p, 0, Some EOF)"
| "multi_read rd (Multi []) p = Inr (Multi [], p, 0, Some EOF)"
| "multi_read rd (Multi (m # ms)) p =
     (case (m, ms) of
        (Multi rs, []) \<Rightarrow> multi_read rd (Multi rs) p
      | _ \<Rightarrow> go_bind (multi_read rd m p) (\<lambda>(m', p', n, err).
          if err = Some EOF then
            if n > 0 then Inr (Multi ms, p', n, if ms \<noteq> [] then None else Some EOF)
            else multi_read rd (Multi ms) p'
          else Inr (Multi (m' # ms), p', n, err)))"
  by pat_completeness auto
termination by (relation "measure (\<lambda>(rd, m, p). size m)") auto

definition MultiReader :: "'r mreader list \<Rightarrow> 'r mreader" where
  "MultiReader readers = Multi readers"

fun multi_write :: "'w writer \<Rightarrow> 'w list \<Rightarrow> bytes \<Rightarrow> ('w list \<times> int \<times> io_error option) go" where
  "multi_write wr [] p = Inr ([], int (length p), None)"
| "multi_write wr (w # ws) p =
     go_bind (wr w p) (\<lambda>(w', n, err).
       if err \<noteq> None then Inr (w' # ws, n, err)
       else if n \<noteq> int (length p) then Inr (w' # ws, n, Some ErrShortWrite)
       else go_bind (multi_write wr ws p) (\<lambda>(ws', n, err). Inr (w' # ws', n, err)))"

fun multi_WriteString ::
  "'w writer \<Rightarrow> ('w \<Rightarrow> 'w writer option) \<Rightarrow> 'w list \<Rightarrow> bytes \<Rightarrow> ('w list \<times> int \<times> io_error option) go" where
  "multi_WriteString wr sw [] s = Inr ([], int (length s), None)"
| "multi_WriteString wr sw (w # ws) s =
     go_bind (case sw w of Some f \<Rightarrow> f w s | None \<Rightarrow> wr w s) (\<lambda>(w', n, err).
       if err \<noteq> None then Inr (w' # ws, n, err)
       else if n \<noteq> int (length s) then Inr (w' # ws, n, Some ErrShortWrite)
       else go_bind (multi_WriteString wr sw ws s) (\<lambda>(ws', n, err). Inr (w' # ws', n, err)))"

text \<open>The constructor flattens the writers that are themselves multi-writers, \<open>Inr\<close> here.\<close>

definition MultiWriter :: "('w + 'w list) list \<Rightarrow> 'w list" where
  "MultiWriter writers = foldl (\<lambda>all w. case w of Inr ws \<Rightarrow> all @ ws | Inl w \<Rightarrow> all @ [w]) [] writers"

end
