(* ===== verification/IoLaws.thy ===== *)
theory IoLaws
  imports Io
begin

text \<open>
  The contracts of \<open>io.Reader\<close> and \<open>io.Writer\<close> as locales, what \<open>io.go\<close> and \<open>multi.go\<close> build on
  them, proved once for every reader and writer that keeps its contract.
\<close>

section \<open>Readers\<close>

text \<open>
  A reader over a finite stream: a call delivers the next bytes of the stream, at least one unless
  the buffer is empty or the stream has ended; \<open>EOF\<close> is reported only when nothing is left.
\<close>

definition delivers ::
  "'r reader \<Rightarrow> ('r \<Rightarrow> bytes) \<Rightarrow> ('r \<Rightarrow> bool) \<Rightarrow> 'r \<Rightarrow> bytes \<Rightarrow> bool" where
  "delivers rd rest ok r p \<longleftrightarrow>
     (\<exists>r' k e. rd r p = Inr (r', take k (rest r) @ drop k p, int k, e) \<and> ok r' \<and>
        k \<le> length p \<and> k \<le> length (rest r) \<and> rest r' = drop k (rest r) \<and>
        (e = None \<and> (p = [] \<or> 0 < k) \<or> e = Some EOF \<and> k = length (rest r)))"

lemma deliversI:
  assumes "rd r p = Inr (r', take k (rest r) @ drop k p, int k, e)" "ok r'" "k \<le> length p"
    "k \<le> length (rest r)" "rest r' = drop k (rest r)"
    "e = None \<and> (p = [] \<or> 0 < k) \<or> e = Some EOF \<and> k = length (rest r)"
  shows "delivers rd rest ok r p"
  unfolding delivers_def using assms by blast

lemma deliversE:
  assumes "delivers rd rest ok r p"
  obtains r' k e where "rd r p = Inr (r', take k (rest r) @ drop k p, int k, e)" "ok r'" "k \<le> length p"
    "k \<le> length (rest r)" "rest r' = drop k (rest r)"
    "e = None \<and> (p = [] \<or> 0 < k) \<or> e = Some EOF \<and> k = length (rest r)"
  using assms unfolding delivers_def by blast

locale stream_reader =
  fixes rd :: "'r reader" and rest :: "'r \<Rightarrow> bytes" and ok :: "'r \<Rightarrow> bool"
  assumes delivers: "ok r \<Longrightarrow> delivers rd rest ok r p"
begin

lemma read_loop_delivers:
  assumes "ok r" "n \<le> length buf" "least \<le> length buf" "length buf < 2 ^ 63"
  shows "\<exists>r' k e. read_loop rd (int least) r buf (int n) None
      = Some (Inr (r', take n buf @ take k (rest r) @ drop (n + k) buf, int (n + k), e))
    \<and> ok r' \<and> n + k \<le> length buf \<and> k \<le> length (rest r) \<and> rest r' = drop k (rest r)
    \<and> (least \<le> n + k \<or> e = Some EOF \<and> k = length (rest r))"
  using assms
proof (induction "least - n" arbitrary: n r buf rule: less_induct)
  case less
  show ?case
  proof (cases "n < least")
    case False
    then have "read_loop rd (int least) r buf (int n) None = Some (Inr (r, buf, int n, None))"
      by (subst read_loop.simps) simp
    then show ?thesis using less.prems False by (intro exI [of _ r] exI [of _ 0]) auto
  next
    case True
    let ?p = "drop n buf"
    obtain r1 k1 e1 where r: "rd r ?p = Inr (r1, take k1 (rest r) @ drop k1 ?p, int k1, e1)"
      and ok: "ok r1" and k: "k1 \<le> length ?p" "k1 \<le> length (rest r)"
      and rest: "rest r1 = drop k1 (rest r)"
      and e: "e1 = None \<and> (?p = [] \<or> 0 < k1) \<or> e1 = Some EOF \<and> k1 = length (rest r)"
      by (rule deliversE [OF delivers [OF less.prems(1)]])
    let ?buf = "take n buf @ take k1 (rest r) @ drop k1 ?p"
    have lb: "length ?buf = length buf" using less.prems(2) k by simp
    have w: "wrap64 (int n + int k1) = int (n + k1)"
      using k less.prems(2,4) by (subst wrap64_id) auto
    have step: "read_loop rd (int least) r buf (int n) None =
        read_loop rd (int least) r1 ?buf (int (n + k1)) e1"
      using True less.prems(2) by (subst read_loop.simps) (simp add: r w)
    show ?thesis
    proof (cases "e1 = None")
      case e1: True
      then have k0: "0 < k1" using e True less.prems(2,3) by auto
      have h: "least - (n + k1) < least - n" "n + k1 \<le> length ?buf" "least \<le> length ?buf" "length ?buf < 2 ^ 63"
        using k0 True k less.prems(2-4) lb by auto
      obtain r' k e' where IH: "read_loop rd (int least) r1 ?buf (int (n + k1)) None
          = Some (Inr (r', take (n + k1) ?buf @ take k (rest r1) @ drop (n + k1 + k) ?buf, int (n + k1 + k), e'))"
        "ok r'" "n + k1 + k \<le> length ?buf" "k \<le> length (rest r1)" "rest r' = drop k (rest r1)"
        "least \<le> n + k1 + k \<or> e' = Some EOF \<and> k = length (rest r1)"
        using less.hyps [OF h(1) ok h(2-4)] by blast
      have "take (n + k1) ?buf @ take k (rest r1) @ drop (n + k1 + k) ?buf
          = take n buf @ take (k1 + k) (rest r) @ drop (n + (k1 + k)) buf"
        using less.prems(2) k rest by (simp add: take_add add.commute add.left_commute)
      then show ?thesis
        using step IH e1 k rest lb
        by (intro exI [of _ r'] exI [of _ "k1 + k"] exI [of _ e']) (auto simp: add.assoc add.commute [of k k1])
    next
      case False
      then have "read_loop rd (int least) r1 ?buf (int (n + k1)) e1 = Some (Inr (r1, ?buf, int (n + k1), e1))"
        by (subst read_loop.simps) (simp only: simp_thms if_False)
      then show ?thesis
        using step ok k rest e False less.prems(2)
        by (intro exI [of _ r1] exI [of _ k1] exI [of _ e1]) (auto simp: add.commute)
    qed
  qed
qed

lemma ReadFull_delivers:
  assumes "ok r" "length buf < 2 ^ 63"
  shows "\<exists>r'. ReadFull rd r buf =
      (let m = min (length buf) (length (rest r)) in
       Some (Inr (r', take m (rest r) @ drop m buf, int m,
         if length buf \<le> length (rest r) then None
         else if rest r = [] then Some EOF else Some ErrUnexpectedEOF)))
    \<and> ok r' \<and> rest r' = drop (length buf) (rest r)"
proof -
  obtain r' k e where l: "read_loop rd (int (length buf)) r buf (int 0) None
      = Some (Inr (r', take 0 buf @ take k (rest r) @ drop (0 + k) buf, int (0 + k), e))"
    "ok r'" "0 + k \<le> length buf" "k \<le> length (rest r)" "rest r' = drop k (rest r)"
    "length buf \<le> 0 + k \<or> e = Some EOF \<and> k = length (rest r)"
    using read_loop_delivers [OF assms(1), of 0 buf "length buf"] assms(2) by auto
  have m: "min (length buf) (length (rest r)) = k" using l(3,4,6) by auto
  have d: "drop (length buf) (rest r) = drop k (rest r)" using l(3,4,6) by auto
  show ?thesis
    unfolding Let_def m d ReadFull_def ReadAtLeast_def
    using l by (intro exI [of _ r']) auto
qed

end

section \<open>Writers\<close>

text \<open>
  A writer over an unbounded sink: as long as there is room, a call takes all bytes it is given.
  \<open>room w n\<close> says that \<open>n\<close> more bytes can be written to \<open>w\<close>, in any number of calls.
\<close>

definition accepts ::
  "'w writer \<Rightarrow> ('w \<Rightarrow> bytes) \<Rightarrow> ('w \<Rightarrow> nat \<Rightarrow> bool) \<Rightarrow> 'w \<Rightarrow> bytes \<Rightarrow> nat \<Rightarrow> bool" where
  "accepts wr sent room w p n \<longleftrightarrow>
     (\<exists>w'. wr w p = Inr (w', int (length p), None) \<and> sent w' = sent w @ p \<and> room w' (n - length p))"

locale stream_writer =
  fixes wr :: "'w writer" and sent :: "'w \<Rightarrow> bytes" and room :: "'w \<Rightarrow> nat \<Rightarrow> bool"
  assumes accepts: "room w n \<Longrightarrow> length p \<le> n \<Longrightarrow> accepts wr sent room w p n"
begin

lemma acceptsE:
  assumes "room w n" "length p \<le> n"
  obtains w' where "wr w p = Inr (w', int (length p), None)" "sent w' = sent w @ p" "room w' (n - length p)"
  using accepts [OF assms] unfolding accepts_def by blast

lemma multi_write_all:
  assumes "\<forall>w\<in>set ws. room w (length p)"
  shows "\<exists>ws'. multi_write wr ws p = Inr (ws', int (length p), None)
    \<and> map sent ws' = map (\<lambda>w. sent w @ p) ws"
  using assms
proof (induction ws)
  case (Cons w ws)
  obtain w' where w: "wr w p = Inr (w', int (length p), None)" "sent w' = sent w @ p"
    using acceptsE [of w "length p" p] Cons.prems by auto
  obtain ws' where "multi_write wr ws p = Inr (ws', int (length p), None)"
    "map sent ws' = map (\<lambda>w. sent w @ p) ws"
    using Cons by auto
  then show ?case using w by (intro exI [of _ "w' # ws'"]) simp
qed simp

end

section \<open>Copying a stream\<close>

locale copying = stream_reader rd rest ok + stream_writer wr sent room
  for rd :: "'r reader" and rest ok and wr :: "'w writer" and sent room
begin

lemma copy_loop_all:
  assumes "ok r" "room w (length (rest r))" "buf \<noteq> []" "n + length (rest r) < 2 ^ 63"
  shows "\<exists>r' w'. copy_loop rd wr r w buf (int n) = Some (Inr (r', w', int (n + length (rest r)), None))
    \<and> ok r' \<and> rest r' = [] \<and> sent w' = sent w @ rest r"
  using assms
proof (induction "length (rest r)" arbitrary: r w n buf rule: less_induct)
  case less
  obtain r1 k e where r: "rd r buf = Inr (r1, take k (rest r) @ drop k buf, int k, e)"
    and ok: "ok r1" and k: "k \<le> length buf" "k \<le> length (rest r)"
    and rest: "rest r1 = drop k (rest r)"
    and e: "e = None \<and> (buf = [] \<or> 0 < k) \<or> e = Some EOF \<and> k = length (rest r)"
    by (rule deliversE [OF delivers [OF less.prems(1)]])
  let ?buf = "take k (rest r) @ drop k buf" and ?p = "take k (rest r)"
  have "\<exists>w1. copy_write wr w ?buf (int k) (int n) = Inr (w1, int (n + k), None)
      \<and> sent w1 = sent w @ ?p \<and> room w1 (length (rest r) - k)"
  proof (cases "k = 0")
    case True
    then show ?thesis using less.prems(2) by (intro exI [of _ w]) (simp add: copy_write_def)
  next
    case False
    obtain w1 where w1: "wr w ?p = Inr (w1, int k, None)" "sent w1 = sent w @ ?p" "room w1 (length (rest r) - k)"
      using acceptsE [OF less.prems(2), of ?p] k by auto
    have s: "go_sub ?buf 0 (int k) = Inr ?p" using k by simp
    have wrap: "wrap64 (int n + int k) = int (n + k)"
      using less.prems(4) k by (subst wrap64_id) auto
    show ?thesis using w1 False by (intro exI [of _ w1]) (simp add: copy_write_def s wrap Let_def)
  qed
  then obtain w1 where w: "copy_write wr w ?buf (int k) (int n) = Inr (w1, int (n + k), None)"
    "sent w1 = sent w @ ?p" "room w1 (length (rest r) - k)" by blast
  show ?case
  proof (cases "e = None")
    case True
    then have k0: "0 < k" using e less.prems(3) by auto
    have h: "length (rest r1) < length (rest r)" "room w1 (length (rest r1))" "?buf \<noteq> []"
      "n + k + length (rest r1) < 2 ^ 63"
      using k0 k rest w(3) less.prems(3,4) by auto
    obtain r' w' where IH: "copy_loop rd wr r1 w1 ?buf (int (n + k)) = Some (Inr (r', w', int (n + k + length (rest r1)), None))"
      "ok r'" "rest r' = []" "sent w' = sent w1 @ rest r1"
      using less.hyps [OF h(1) ok h(2-4)] by blast
    have "n + k + length (rest r1) = n + length (rest r)" using k rest by simp
    moreover have "copy_loop rd wr r w buf (int n) = copy_loop rd wr r1 w1 ?buf (int (n + k))"
      by (subst copy_loop.simps) (simp only: r w True sum.case prod.case simp_thms if_False)
    ultimately show ?thesis using IH w(2) rest by (intro exI [of _ r'] exI [of _ w']) simp
  next
    case False
    then have e1: "e = Some EOF" "k = length (rest r)" using e by auto
    have "copy_loop rd wr r w buf (int n) = Some (Inr (r1, w1, int (n + k), None))"
      by (subst copy_loop.simps) (simp add: r w e1(1) del: of_nat_add)
    then show ?thesis using ok rest e1 w(2) by (intro exI [of _ r1] exI [of _ w1]) simp
  qed
qed

lemma Copy_all:
  assumes "ok r" "room w (length (rest r))" "length (rest r) < 2 ^ 63"
  shows "\<exists>r' w'. Copy rd None lim wr None w r = Some (Inr (r', w', int (length (rest r)), None))
    \<and> ok r' \<and> rest r' = [] \<and> sent w' = sent w @ rest r"
proof -
  have ne: "replicate (case lim r of Some n \<Rightarrow> (if 32 * 1024 > n then (if n < 1 then 1 else nat n) else 32 * 1024)
      | None \<Rightarrow> 32 * 1024) (0 :: byte) \<noteq> []"
    by (auto split: option.split)
  show ?thesis
    using copy_loop_all [OF assms(1,2) ne, of 0] assms(3)
    unfolding Copy_def copyBuffer_def Let_def option.case by simp
qed

end

section \<open>A reader that is limited, a sequence of readers\<close>

definition limited_rest :: "('r \<Rightarrow> bytes) \<Rightarrow> 'r LimitedReader \<Rightarrow> bytes" where
  "limited_rest rest l = take (nat (lim_N l)) (rest (lim_R l))"

text \<open>\<open>c\<close> bytes of the original stream \<open>s\<close> and of the original bound \<open>n\<close> have been consumed.\<close>

definition limited_ok :: "('r \<Rightarrow> bytes) \<Rightarrow> ('r \<Rightarrow> bool) \<Rightarrow> bytes \<Rightarrow> nat \<Rightarrow> 'r LimitedReader \<Rightarrow> bool" where
  "limited_ok rest ok s n l \<longleftrightarrow> ok (lim_R l) \<and> n < 2 ^ 63 \<and>
     (\<exists>c \<le> n. lim_N l = int (n - c) \<and> c \<le> length s \<and> rest (lim_R l) = drop c s)"

context stream_reader
begin

lemma limited_delivers:
  assumes "limited_ok rest ok s n l"
  shows "delivers (limited_read rd) (limited_rest rest) (limited_ok rest ok s n) l p"
proof -
  obtain c where c: "c \<le> n" "lim_N l = int (n - c)" "c \<le> length s" "rest (lim_R l) = drop c s"
    and ok: "ok (lim_R l)" and n: "n < 2 ^ 63"
    using assms by (auto simp: limited_ok_def)
  show ?thesis
  proof (cases "c = n")
    case True
    then show ?thesis using assms c
      by (intro deliversI [where r' = l and k = 0 and e = "Some EOF"]) (simp_all add: limited_read_def limited_rest_def)
  next
    case False
    define q where "q = (if int (length p) > lim_N l then take (nat (lim_N l)) p else p)"
    have q: "q = take (n - c) p" unfolding q_def c(2) by (simp del: of_nat_diff)
    obtain r' k e where r: "rd (lim_R l) q = Inr (r', take k (drop c s) @ drop k q, int k, e)"
      and ok': "ok r'" and k: "k \<le> length q" "k \<le> length (drop c s)"
      and rest: "rest r' = drop k (drop c s)"
      and e: "e = None \<and> (q = [] \<or> 0 < k) \<or> e = Some EOF \<and> k = length (drop c s)"
      using deliversE [OF delivers [OF ok, of q]] unfolding c(4) by metis
    have kn: "k \<le> n - c" "k \<le> length p" "c + k \<le> n" using k(1) q c(1) by auto
    have w: "wrap64 (lim_N l - int k) = int (n - (c + k))"
      using n kn c(1,2) by (subst wrap64_id) auto
    let ?l = "l\<lparr>lim_R := r', lim_N := int (n - (c + k))\<rparr>"
    have tk: "take k (limited_rest rest l) = take k (drop c s)"
      using kn c by (simp add: limited_rest_def min_def)
    have pos: "\<not> lim_N l \<le> 0" using False c(1,2) by simp
    have pq: "q @ drop (length q) p = p" unfolding q by (cases "n - c \<le> length p") simp_all
    have "drop k q @ drop (length q) p = drop k (q @ drop (length q) p)" using k(1) by simp
    then have dk: "drop k q @ drop (length q) p = drop k p" unfolding pq .
    have read: "limited_read rd l p = Inr (?l, take k (limited_rest rest l) @ drop k p, int k, e)"
      unfolding limited_read_def q_def [symmetric] if_not_P [OF pos] Let_def
      by (simp add: r w tk dk)
    have ok1: "limited_ok rest ok s n ?l"
      using ok' n kn k(2) c rest
      by (auto simp: limited_ok_def add.commute intro!: exI [of _ "c + k"])
    have rest1: "limited_rest rest ?l = drop k (limited_rest rest l)"
      by (simp only: limited_rest_def LimitedReader.simps c(2,4) nat_int) (simp add: drop_take rest)
    have e1: "e = None \<and> (p = [] \<or> 0 < k) \<or> e = Some EOF \<and> k = length (limited_rest rest l)"
      using e False c kn k unfolding q by (auto simp: limited_rest_def)
    have lr: "length (limited_rest rest l) = min (n - c) (length (rest (lim_R l)))"
      by (simp only: limited_rest_def c(2) nat_int length_take min.commute)
    show ?thesis
      by (rule deliversI [where r' = ?l and k = k and e = e])
        (use read ok1 rest1 e1 kn k(2) in \<open>simp_all add: lr c(4)\<close>)
  qed
qed

end

locale limited_copying = copying rd rest ok wr sent room
  for rd :: "'r reader" and rest ok and wr :: "'w writer" and sent room +
  fixes s :: bytes and n :: nat

sublocale limited_copying \<subseteq> lim: copying "limited_read rd" "limited_rest rest" "limited_ok rest ok s n" wr sent room
  by unfold_locales (rule limited_delivers)

context limited_copying
begin

lemma CopyN_all:
  assumes "ok r" "rest r = s" "n < 2 ^ 63" "room w (min n (length s))"
  shows "\<exists>r' w'. CopyN rd wr None w r (int n) = Some (Inr (r', w', int (min n (length s)),
        if n \<le> length s then None else Some EOF))
    \<and> ok r' \<and> rest r' = drop n s \<and> sent w' = sent w @ take n s"
proof -
  let ?l = "LimitReader r (int n)"
  have lr: "limited_rest rest ?l = take n s"
    using assms(2) by (simp add: limited_rest_def LimitReader_def)
  have ok0: "limited_ok rest ok s n ?l"
    using assms(1-3) by (auto simp: limited_ok_def LimitReader_def intro!: exI [of _ 0])
  have len: "length (limited_rest rest ?l) = min n (length s)" by (simp add: lr min.commute)
  have pre: "room w (length (limited_rest rest ?l))" "length (limited_rest rest ?l) < 2 ^ 63"
    using assms(3,4) unfolding len by auto
  obtain l' w' where l: "Copy (limited_read rd) None (\<lambda>l. Some (lim_N l)) wr None w ?l
      = Some (Inr (l', w', int (min n (length s)), None))"
    "limited_ok rest ok s n l'" "limited_rest rest l' = []" "sent w' = sent w @ take n s"
    using lim.Copy_all [OF ok0 pre, of "\<lambda>l. Some (lim_N l)"] unfolding len unfolding lr by blast
  obtain c where c: "c \<le> n" "lim_N l' = int (n - c)" "c \<le> length s" "rest (lim_R l') = drop c s" "ok (lim_R l')"
    using l(2) by (auto simp: limited_ok_def)
  have "drop c s = drop n s" using l(3) c by (auto simp: limited_rest_def)
  then show ?thesis
    using l c by (intro exI [of _ "lim_R l'"] exI [of _ w']) (auto simp: CopyN_def min_def)
qed

end

fun multi_rest :: "('r \<Rightarrow> bytes) \<Rightarrow> 'r mreader \<Rightarrow> bytes" where
  "multi_rest f (Leaf r) = f r"
| "multi_rest f EofReader = []"
| "multi_rest f (Multi ms) = concat (map (multi_rest f) ms)"

definition multi_ok :: "('r \<Rightarrow> bool) \<Rightarrow> 'r mreader \<Rightarrow> bool" where
  "multi_ok ok m \<longleftrightarrow> (\<forall>r\<in>set_mreader m. ok r)"

context stream_reader
begin

lemma multi_delivers:
  assumes "multi_ok ok m"
  shows "delivers (multi_read rd) (multi_rest rest) (multi_ok ok) m p"
  using assms
proof (induction m arbitrary: p rule: measure_induct_rule [where f = size])
  case (less m p)
  show ?case
  proof (cases m)
    case (Leaf r)
    then have "ok r" using less.prems by (simp add: multi_ok_def)
    then obtain r' k e where r: "rd r p = Inr (r', take k (rest r) @ drop k p, int k, e)" "ok r'" "k \<le> length p"
      "k \<le> length (rest r)" "rest r' = drop k (rest r)" "e = None \<and> (p = [] \<or> 0 < k) \<or> e = Some EOF \<and> k = length (rest r)"
      by (rule deliversE [OF delivers])
    show ?thesis unfolding Leaf
      by (rule deliversI [where r' = "Leaf r'" and k = k and e = e]) (use r in \<open>simp_all add: multi_ok_def\<close>)
  next
    case EofReader
    then show ?thesis
      by (intro deliversI [where r' = EofReader and k = 0 and e = "Some EOF"]) (simp_all add: multi_ok_def)
  next
    case (Multi rs)
    note m = this
    show ?thesis
    proof (cases rs)
      case Nil
      then show ?thesis unfolding m
        by (intro deliversI [where r' = "Multi []" and k = 0 and e = "Some EOF"]) (simp_all add: multi_ok_def)
    next
      case (Cons x ms)
      have oks: "multi_ok ok x" "multi_ok ok (Multi ms)" using less.prems by (simp_all add: m Cons multi_ok_def)
      have sz: "size x < size m" "size (Multi ms) < size m" by (simp_all add: m Cons)
      show ?thesis
      proof (cases "ms = [] \<and> (\<exists>ns. x = Multi ns)")
        case True
        then obtain ns where ns: "ms = []" "x = Multi ns" by blast
        have "delivers (multi_read rd) (multi_rest rest) (multi_ok ok) x p"
          using less.IH [OF sz(1) oks(1)] .
        then show ?thesis unfolding delivers_def m Cons ns by simp
      next
        case False
        then have step: "multi_read rd m p = go_bind (multi_read rd x p) (\<lambda>(m', p', n, err).
            if err = Some EOF then
              if n > 0 then Inr (Multi ms, p', n, if ms \<noteq> [] then None else Some EOF)
              else multi_read rd (Multi ms) p'
            else Inr (Multi (m' # ms), p', n, err))"
          unfolding m Cons by (cases x; cases ms) auto
        obtain x' k e where x: "multi_read rd x p = Inr (x', take k (multi_rest rest x) @ drop k p, int k, e)"
          "multi_ok ok x'" "k \<le> length p" "k \<le> length (multi_rest rest x)"
          "multi_rest rest x' = drop k (multi_rest rest x)"
          "e = None \<and> (p = [] \<or> 0 < k) \<or> e = Some EOF \<and> k = length (multi_rest rest x)"
          by (rule deliversE [OF less.IH [OF sz(1) oks(1)]])
        have rm: "multi_rest rest m = multi_rest rest x @ multi_rest rest (Multi ms)"
          by (simp add: m Cons)
        consider (go) "e = None" "p = [] \<or> 0 < k" | (last) "e = Some EOF" "0 < k" | (next') "e = Some EOF" "k = 0"
          using x(6) by auto
        then show ?thesis
        proof cases
          case go
          have ok': "multi_ok ok (Multi (x' # ms))" using x(2) oks(2) by (auto simp: multi_ok_def)
          show ?thesis
            by (rule deliversI [where r' = "Multi (x' # ms)" and k = k and e = e])
              (use go x ok' in \<open>simp_all add: step rm\<close>)
        next
          case last
          then have k: "k = length (multi_rest rest x)" using x(6) by simp
          show ?thesis
            by (rule deliversI [where r' = "Multi ms" and k = k and e = "if ms \<noteq> [] then None else Some EOF"])
              (use last k x oks in \<open>simp_all add: step rm\<close>)
        next
          case next'
          then have e: "multi_rest rest x = []" using x(6) by simp
          have "multi_read rd m p = multi_read rd (Multi ms) p"
            using next' x(1) by (simp add: step)
          then show ?thesis
            using less.IH [OF sz(2) oks(2), of p] rm e unfolding delivers_def by simp
        qed
      qed
    qed
  qed
qed

end

end
