(* ===== verification/Utf8Seq.thy ===== *)
theory Utf8Seq
  imports Utf8
begin

text \<open>
  The loops of package \<open>unicode/utf8\<close> over whole strings (\<open>RuneCount\<close>, \<open>Valid\<close> and their string
  versions), the backward decoder, \<open>FullRune\<close> and the runtime's own decoder, all related to the
  same reference: \<open>DecodeRune\<close> iterated from the front.
\<close>

section \<open>Counting and validating\<close>

text \<open>
  The width the loops of \<open>RuneCount\<close> use once the lead byte and the length have been checked:
  1 when a continuation byte is out of range, the width of the lead otherwise.
\<close>

definition seq_size :: "bytes \<Rightarrow> nat \<Rightarrow> nat \<Rightarrow> acceptRange \<Rightarrow> nat" where
  "seq_size p i sz accept =
     (if p ! (i + 1) < accept_lo accept \<or> accept_hi accept < p ! (i + 1) then 1
      else if sz = 2 then sz
      else if p ! (i + 2) < locb \<or> hicb < p ! (i + 2) then 1
      else if sz = 3 then sz
      else if p ! (i + 3) < locb \<or> hicb < p ! (i + 3) then 1
      else sz)"

lemma seq_size_pos: "0 < sz \<Longrightarrow> 0 < seq_size p i sz accept"
  by (simp add: seq_size_def)

function RuneCount_loop :: "bytes \<Rightarrow> nat \<Rightarrow> nat \<Rightarrow> nat" where
  "RuneCount_loop p i n =
     (let np = length p in
      if i < np then
        let n = n + 1; c = p ! i in
        if c < RuneSelf then RuneCount_loop p (i + 1) n
        else let x = lead_info c in
        if x = info_xx then RuneCount_loop p (i + 1) n
        else let sz = info_size x in
        if i + sz > np then RuneCount_loop p (i + 1) n
        else RuneCount_loop p (i + seq_size p i sz (info_accept x)) n
      else n)"
  by pat_completeness auto
termination
  by (relation "measure (\<lambda>(p, i, n). length p - i)")
     (auto simp: lead_info_size_pos seq_size_pos simp del: RuneSelf_def intro!: diff_less_mono2)

definition RuneCount :: "bytes \<Rightarrow> nat" where
  "RuneCount p = RuneCount_loop p 0 0"

function RuneCountInString_loop :: "bytes \<Rightarrow> nat \<Rightarrow> nat \<Rightarrow> nat" where
  "RuneCountInString_loop s i n =
     (let ns = length s in
      if i < ns then
        let c = s ! i in
        if c < RuneSelf then RuneCountInString_loop s (i + 1) (n + 1)
        else let x = lead_info c in
        if x = info_xx then RuneCountInString_loop s (i + 1) (n + 1)
        else let sz = info_size x in
        if i + sz > ns then RuneCountInString_loop s (i + 1) (n + 1)
        else RuneCountInString_loop s (i + seq_size s i sz (info_accept x)) (n + 1)
      else n)"
  by pat_completeness auto
termination
  by (relation "measure (\<lambda>(p, i, n). length p - i)")
     (auto simp: lead_info_size_pos seq_size_pos simp del: RuneSelf_def intro!: diff_less_mono2)

definition RuneCountInString :: "bytes \<Rightarrow> nat" where
  "RuneCountInString s = RuneCountInString_loop s 0 0"

function Valid_loop :: "bytes \<Rightarrow> nat \<Rightarrow> bool" where
  "Valid_loop p i =
     (let n = length p in
      if i < n then
        let pi = p ! i in
        if pi < RuneSelf then Valid_loop p (i + 1)
        else let x = lead_info pi in
        if x = info_xx then False
        else let sz = info_size x in
        if i + sz > n then False
        else let accept = info_accept x in
        if p ! (i + 1) < accept_lo accept \<or> accept_hi accept < p ! (i + 1) then False
        else if sz = 2 then Valid_loop p (i + sz)
        else if p ! (i + 2) < locb \<or> hicb < p ! (i + 2) then False
        else if sz = 3 then Valid_loop p (i + sz)
        else if p ! (i + 3) < locb \<or> hicb < p ! (i + 3) then False
        else Valid_loop p (i + sz)
      else True)"
  by pat_completeness auto
termination
  by (relation "measure (\<lambda>(p, i). length p - i)")
     (auto simp: lead_info_size_pos simp del: RuneSelf_def intro!: diff_less_mono2)

definition Valid :: "bytes \<Rightarrow> bool" where
  "Valid p = Valid_loop p 0"

function ValidString_loop :: "bytes \<Rightarrow> nat \<Rightarrow> bool" where
  "ValidString_loop s i =
     (let n = length s in
      if i < n then
        let si = s ! i in
        if si < RuneSelf then ValidString_loop s (i + 1)
        else let x = lead_info si in
        if x = info_xx then False
        else let sz = info_size x in
        if i + sz > n then False
        else let accept = info_accept x in
        if s ! (i + 1) < accept_lo accept \<or> accept_hi accept < s ! (i + 1) then False
        else if sz = 2 then ValidString_loop s (i + sz)
        else if s ! (i + 2) < locb \<or> hicb < s ! (i + 2) then False
        else if sz = 3 then ValidString_loop s (i + sz)
        else if s ! (i + 3) < locb \<or> hicb < s ! (i + 3) then False
        else ValidString_loop s (i + sz)
      else True)"
  by pat_completeness auto
termination
  by (relation "measure (\<lambda>(p, i). length p - i)")
     (auto simp: lead_info_size_pos simp del: RuneSelf_def intro!: diff_less_mono2)

definition ValidString :: "bytes \<Rightarrow> bool" where
  "ValidString s = ValidString_loop s 0"

declare RuneCount_loop.simps [simp del] RuneCountInString_loop.simps [simp del]
  Valid_loop.simps [simp del] ValidString_loop.simps [simp del]

lemmas loop_simps [loop_unfold] =
  RuneCount_loop.simps RuneCountInString_loop.simps Valid_loop.simps ValidString_loop.simps


text \<open>One iteration of every loop advances by what \<open>DecodeRune\<close> would consume.\<close>

lemma lead_info_multi:
  assumes "\<not> c < RuneSelf" and "lead_info c \<noteq> info_xx"
  shows "info_size (lead_info c) \<in> {2, 3, 4}" and "\<not> info_as \<le> lead_info c"
  using assms unfolding lead_info_cases
  by (auto simp: word_less_nat_alt lead_simps split: if_splits)

lemma lead_info_ascii: "c < RuneSelf \<Longrightarrow> lead_info c = info_as"
  unfolding lead_info_cases by (simp add: word_less_nat_alt)

lemma DecodeRune_width:
  assumes "i < length p"
  shows "snd (DecodeRune (drop i p)) =
    (if p ! i < RuneSelf \<or> lead_info (p ! i) = info_xx
        \<or> i + info_size (lead_info (p ! i)) > length p then 1
     else seq_size p i (info_size (lead_info (p ! i))) (info_accept (lead_info (p ! i))))"
proof (cases "p ! i < RuneSelf \<or> lead_info (p ! i) = info_xx")
  case True
  then have "snd (DecodeRune (drop i p)) = 1"
    using assms lead_info_ascii [of "p ! i"] DecodeRune_ascii [of "drop i p"]
      DecodeRune_invalid [of "drop i p"] by auto
  with True show ?thesis by auto
next
  case False
  then have c: "info_size (lead_info (p ! i)) \<in> {2, 3, 4}" "\<not> info_as \<le> lead_info (p ! i)"
    using lead_info_multi [of "p ! i"] by auto
  from assms have d: "length (drop i p) < 1 \<longleftrightarrow> False" "drop i p ! k = p ! (i + k)" for k
    by simp_all
  have len: "length (drop i p) < k \<longleftrightarrow> length p < i + k" for k using assms by auto
  from c(1) consider "info_size (lead_info (p ! i)) = 2" | "info_size (lead_info (p ! i)) = 3"
    | "info_size (lead_info (p ! i)) = 4" by auto
  then show ?thesis
    by cases (use c(2) False assms in \<open>simp_all add: DecodeRune_def Let_def seq_size_def d len
        del: length_drop RuneSelf_def info_xx_def\<close>)
qed

lemma enc_nat_single: "[k] = enc_nat v \<Longrightarrow> k < 0x80"
  by (simp add: enc_nat_def split: if_splits)

lemma DecodeRune_error_width:
  assumes "i < length p" and "\<not> p ! i < RuneSelf"
  shows "lead_info (p ! i) = info_xx \<or> i + info_size (lead_info (p ! i)) > length p
         \<or> seq_size p i (info_size (lead_info (p ! i))) (info_accept (lead_info (p ! i))) = 1
         \<longleftrightarrow> DecodeRune (drop i p) = (RuneError, 1)"
proof -
  have w: "(lead_info (p ! i) = info_xx \<or> i + info_size (lead_info (p ! i)) > length p
         \<or> seq_size p i (info_size (lead_info (p ! i))) (info_accept (lead_info (p ! i))) = 1)
     \<longleftrightarrow> snd (DecodeRune (drop i p)) = 1"
    unfolding DecodeRune_width [OF assms(1)] using assms(2)
    by (simp del: RuneSelf_def info_xx_def)
  obtain r n where d: "DecodeRune (drop i p) = (r, n)" by (cases "DecodeRune (drop i p)")
  have ne: "drop i p \<noteq> []" using assms(1) by simp
  have "snd (DecodeRune (drop i p)) = 1 \<Longrightarrow> r = RuneError"
  proof -
    assume n1: "snd (DecodeRune (drop i p)) = 1"
    from ne d show "r = RuneError"
    proof (cases rule: decode_cases)
      case rune
      have "n = 1" using n1 d by simp
      then have "[p ! i] = rune_bytes r" using rune(3) assms(1) by (simp add: take_Suc hd_drop_conv_nth)
      then have "map unat [p ! i] = enc_nat (unat r)"
        using map_unat_rune_bytes [of r] rune(1) by (simp only: if_True)
      then have "[unat (p ! i)] = enc_nat (unat r)" by (simp only: list.map)
      then have "unat (p ! i) < 0x80" by (rule enc_nat_single)
      then show ?thesis using assms(2) by (simp add: word_less_nat_alt)
    qed
  qed
  with d show ?thesis unfolding w by auto
qed

lemma RuneCount_step:
  assumes "i < length p"
  shows "RuneCount_loop p i n = RuneCount_loop p (i + snd (DecodeRune (drop i p))) (n + 1)"
  unfolding DecodeRune_width [OF assms]
  using assms by (subst RuneCount_loop.simps) (auto simp: Let_def simp del: RuneSelf_def)

lemma RuneCountInString_step:
  assumes "i < length p"
  shows "RuneCountInString_loop p i n
       = RuneCountInString_loop p (i + snd (DecodeRune (drop i p))) (n + 1)"
  unfolding DecodeRune_width [OF assms]
  using assms by (subst RuneCountInString_loop.simps) (auto simp: Let_def simp del: RuneSelf_def)

lemma Valid_step:
  assumes "i < length p"
  shows "Valid_loop p i \<longleftrightarrow>
    DecodeRune (drop i p) \<noteq> (RuneError, 1) \<and> Valid_loop p (i + snd (DecodeRune (drop i p)))"
proof (cases "p ! i < RuneSelf")
  case True
  then have "DecodeRune (drop i p) = (ucast (p ! i), 1)"
    using assms lead_info_ascii DecodeRune_ascii [of "drop i p"] by simp
  moreover have "(ucast (p ! i) :: rune) \<noteq> RuneError"
    using True unat_ucast_rune [of "p ! i"] by (auto simp: word_less_nat_alt)
  ultimately show ?thesis
    using assms True by (subst Valid_loop.simps) (simp add: Let_def)
next
  case False
  show ?thesis
    unfolding DecodeRune_error_width [OF assms False, symmetric] DecodeRune_width [OF assms]
    using assms False lead_info_multi [OF False]
    by (subst Valid_loop.simps) (auto simp: Let_def seq_size_def simp del: RuneSelf_def)
qed

lemma ValidString_step:
  assumes "i < length p"
  shows "ValidString_loop p i \<longleftrightarrow>
    DecodeRune (drop i p) \<noteq> (RuneError, 1) \<and> ValidString_loop p (i + snd (DecodeRune (drop i p)))"
proof (cases "p ! i < RuneSelf")
  case True
  then have "DecodeRune (drop i p) = (ucast (p ! i), 1)"
    using assms lead_info_ascii DecodeRune_ascii [of "drop i p"] by simp
  moreover have "(ucast (p ! i) :: rune) \<noteq> RuneError"
    using True unat_ucast_rune [of "p ! i"] by (auto simp: word_less_nat_alt)
  ultimately show ?thesis
    using assms True by (subst ValidString_loop.simps) (simp add: Let_def)
next
  case False
  show ?thesis
    unfolding DecodeRune_error_width [OF assms False, symmetric] DecodeRune_width [OF assms]
    using assms False lead_info_multi [OF False]
    by (subst ValidString_loop.simps) (auto simp: Let_def seq_size_def simp del: RuneSelf_def)
qed

section \<open>The runes of a byte string\<close>

text \<open>The reference decoder: \<open>DecodeRune\<close> applied again and again to what is left.\<close>

function runes_of :: "bytes \<Rightarrow> rune list" where
  "runes_of p = (if p = [] then []
     else fst (DecodeRune p) # runes_of (drop (snd (DecodeRune p)) p))"
  by pat_completeness auto
termination
  by (relation "measure length") (use DecodeRune_size(1) in \<open>force simp: Suc_le_eq\<close>)+

declare runes_of.simps [simp del]

lemma runes_of_Nil [simp]: "runes_of [] = []"
  by (simp add: runes_of.simps)

lemma runes_of_step:
  "i < length p \<Longrightarrow> runes_of (drop i p) =
     fst (DecodeRune (drop i p)) # runes_of (drop (i + snd (DecodeRune (drop i p))) p)"
  by (subst runes_of.simps) (simp add: add.commute)

lemma DecodeRune_progress:
  "i < length p \<Longrightarrow> 0 < snd (DecodeRune (drop i p))"
  using DecodeRune_size(1) [of "drop i p"] by simp

lemma scan_induct:
  assumes "\<And>i. length p \<le> i \<Longrightarrow> P i"
    and "\<And>i. i < length p \<Longrightarrow> P (i + snd (DecodeRune (drop i p))) \<Longrightarrow> P i"
  shows "P i"
proof (induction "length p - i" arbitrary: i rule: less_induct)
  case less
  show ?case
  proof (cases "i < length p")
    case True
    show ?thesis
      by (rule assms(2) [OF True], rule less.hyps)
        (use True DecodeRune_progress [OF True] in linarith)
  qed (simp add: assms(1))
qed

lemma RuneCount_loop_runes: "RuneCount_loop p i n = n + length (runes_of (drop i p))"
proof (induction i arbitrary: n rule: scan_induct [of p])
  case (1 i)
  then show ?case by (simp add: RuneCount_loop.simps)
next
  case (2 i)
  show ?case
    unfolding RuneCount_step [OF 2(1)] 2(2) runes_of_step [OF 2(1)] by simp
qed

lemma RuneCountInString_loop_runes:
  "RuneCountInString_loop p i n = n + length (runes_of (drop i p))"
proof (induction i arbitrary: n rule: scan_induct [of p])
  case (1 i)
  then show ?case by (simp add: RuneCountInString_loop.simps)
next
  case (2 i)
  show ?case
    unfolding RuneCountInString_step [OF 2(1)] 2(2) runes_of_step [OF 2(1)] by simp
qed

lemma runes_of_rune_bytes:
  "ValidRune r \<Longrightarrow> runes_of (rune_bytes r @ q) = r # runes_of q"
  by (subst runes_of.simps) (simp add: decode_rune_bytes)

lemma runes_of_concat:
  "(\<forall>r \<in> set rs. ValidRune r) \<Longrightarrow> runes_of (concat (map rune_bytes rs)) = rs"
  by (induction rs) (simp_all add: runes_of_rune_bytes)

lemma RuneError_valid: "ValidRune RuneError"
  by (simp add: ValidRune_iff)

lemma length_RuneError_bytes: "length (rune_bytes RuneError) = 3"
  by (subst length_rune_bytes [OF RuneError_valid]) (simp add: enc_nat_def)

lemma valid_decode_step:
  assumes "p \<noteq> []"
  shows "(\<exists>rs. (\<forall>r \<in> set rs. ValidRune r) \<and> p = concat (map rune_bytes rs)) \<longleftrightarrow>
    DecodeRune p \<noteq> (RuneError, 1) \<and>
    (\<exists>rs. (\<forall>r \<in> set rs. ValidRune r) \<and> drop (snd (DecodeRune p)) p = concat (map rune_bytes rs))"
    (is "?L \<longleftrightarrow> ?R")
proof
  assume ?L
  then obtain rs where rs: "\<forall>r \<in> set rs. ValidRune r" "p = concat (map rune_bytes rs)" by blast
  with assms obtain r rs' where r: "rs = r # rs'" by (cases rs) auto
  with rs have d: "DecodeRune p = (r, length (rune_bytes r))" by (simp add: decode_rune_bytes)
  have "drop (snd (DecodeRune p)) p = concat (map rune_bytes rs')"
    unfolding d using rs(2) r by simp
  moreover have "DecodeRune p \<noteq> (RuneError, 1)"
    using d length_RuneError_bytes by (auto simp del: RuneError_def)
  ultimately show ?R using rs(1) r by auto
next
  assume R: ?R
  obtain r n where d: "DecodeRune p = (r, n)" by (cases "DecodeRune p")
  from R obtain rs where rs: "\<forall>r \<in> set rs. ValidRune r" "drop n p = concat (map rune_bytes rs)"
    by (auto simp: d)
  from assms d show ?L
  proof (cases rule: decode_cases)
    case error
    with R d show ?thesis by simp
  next
    case rune
    have "p = concat (map rune_bytes (r # rs))"
      using rune(3) rs(2) append_take_drop_id [of n p] by simp
    with rune(1) rs(1) show ?thesis by (intro exI [of _ "r # rs"]) auto
  qed
qed

lemma Valid_loop_spec:
  "Valid_loop p i \<longleftrightarrow> (\<exists>rs. (\<forall>r \<in> set rs. ValidRune r) \<and> drop i p = concat (map rune_bytes rs))"
proof (induction i rule: scan_induct [of p])
  case (1 i)
  then have "drop i p = concat (map rune_bytes [])" by simp
  then have "\<exists>rs. (\<forall>r \<in> set rs. ValidRune r) \<and> drop i p = concat (map rune_bytes rs)"
    by (intro exI [of _ "[]"]) simp
  with 1 show ?case by (simp add: Valid_loop.simps)
next
  case (2 i)
  then have "drop i p \<noteq> []" by simp
  from valid_decode_step [OF this] show ?case
    unfolding Valid_step [OF 2(1)] 2(2) by (simp add: add.commute)
qed

lemma ValidString_loop_spec: "ValidString_loop p i \<longleftrightarrow> Valid_loop p i"
proof (induction i rule: scan_induct [of p])
  case (1 i)
  then show ?case by (simp add: Valid_loop.simps ValidString_loop.simps)
next
  case (2 i)
  then show ?case unfolding Valid_step [OF 2(1)] ValidString_step [OF 2(1)] by simp
qed

section \<open>Decoding backwards\<close>

lemma RuneStart_iff: "RuneStart b \<longleftrightarrow> \<not> cont_nat (unat b)"
proof -
  have "map (\<lambda>n. RuneStart (word_of_nat n)) [0..<256] = map (\<lambda>n. \<not> cont_nat n) [0..<256]"
    by code_simp
  then have "\<forall>n < 256. RuneStart (word_of_nat n) \<longleftrightarrow> \<not> cont_nat n"
    by (simp only: map_eq_conv set_upt) auto
  then show ?thesis using unsigned_less [where 'a = nat, of b] by auto
qed

lemma rune_bytes_shape:
  assumes "ValidRune r"
  shows "RuneStart (hd (rune_bytes r))" and "b \<in> set (tl (rune_bytes r)) \<Longrightarrow> \<not> RuneStart b"
    and "last (rune_bytes r) < RuneSelf \<longleftrightarrow> length (rune_bytes r) = 1"
proof -
  have e: "map unat (rune_bytes r) = enc_nat (unat r)"
    using map_unat_rune_bytes [of r] assms by (simp only: if_True)
  have h: "hd (enc_nat v) < 0x80 \<or> 0xC0 \<le> hd (enc_nat v)" for v by (simp add: enc_nat_def)
  have "unat (hd (rune_bytes r)) < 0x80 \<or> 0xC0 \<le> unat (hd (rune_bytes r))"
    using h [of "unat r"] unfolding e [symmetric] by (simp add: hd_map)
  then show "RuneStart (hd (rune_bytes r))" by (auto simp: RuneStart_iff cont_nat_def)
  have t: "\<forall>k \<in> set (tl (enc_nat v)). cont_nat k" for v
  proof -
    have "k mod 64 \<le> 63" for k :: nat using mod_less_divisor [of 64 k] by linarith
    then show ?thesis by (simp add: enc_nat_def cont_nat_def)
  qed
  show "\<not> RuneStart b" if "b \<in> set (tl (rune_bytes r))"
    using t [of "unat r"] that unfolding e [symmetric] RuneStart_iff by (auto simp: map_tl [symmetric])
  have l: "last (enc_nat v) < 0x80 \<longleftrightarrow> length (enc_nat v) = 1" for v by (simp add: enc_nat_def)
  have "unat (last (rune_bytes r)) < 0x80 \<longleftrightarrow> length (rune_bytes r) = 1"
    using l [of "unat r"] unfolding e [symmetric] by (simp add: last_map)
  then show "last (rune_bytes r) < RuneSelf \<longleftrightarrow> length (rune_bytes r) = 1"
    by (simp add: word_less_nat_alt)
qed

declare scan_start.simps [simp del]

lemma scan_start_stop:
  assumes "lim \<le> int n" and "RuneStart (p ! n)"
    and "\<And>j. n < j \<Longrightarrow> j \<le> n + k \<Longrightarrow> \<not> RuneStart (p ! j)"
  shows "scan_start p lim (int n + int k) = int n"
  using assms(3)
proof (induction k)
  case 0
  then show ?case using assms(1,2) by (subst scan_start.simps) simp
next
  case (Suc k)
  have nj: "nat (int n + int (Suc k)) = n + Suc k" by simp
  have s: "scan_start p lim (int n + int (Suc k)) = scan_start p lim (int n + int k)"
    using assms(1) Suc.prems [of "n + Suc k"] unfolding scan_start.simps [of p lim "int n + int (Suc k)"] nj
    by (simp add: algebra_simps)
  show ?case unfolding s by (rule Suc.IH) (use Suc.prems in auto)
qed

lemma scan_start_range:
  "lim - 1 \<le> start \<Longrightarrow> lim - 1 \<le> scan_start p lim start \<and> scan_start p lim start \<le> start"
proof (induction p lim start rule: scan_start.induct)
  case (1 p lim start)
  show ?case
  proof (cases "lim \<le> start \<and> \<not> RuneStart (p ! nat start)")
    case True
    then show ?thesis using 1 by (subst (1 2) scan_start.simps) auto
  next
    case False
    then show ?thesis using 1 by (subst (1 2) scan_start.simps) auto
  qed
qed

lemma rune_byte_ascii: "(ucast (b :: byte) :: rune) <s ucast RuneSelf \<longleftrightarrow> b < RuneSelf"
proof -
  obtain n where n: "unat (ucast b :: rune) = n" "uint (ucast b :: rune) = int n" by (rule word_natE)
  have "n < 256" "unat b = n" using unsigned_less [where 'a = nat, of b] n(1) by (simp_all add: unat_ucast_rune)
  moreover have "uint (ucast RuneSelf :: rune) = 128" by simp
  ultimately show ?thesis
    unfolding sless_view sint_view n(2) word_less_nat_alt by simp
qed

lemma byte_rune:
  assumes "b < RuneSelf"
  shows "ValidRune (ucast b)" and "rune_bytes (ucast b) = [b]"
proof -
  have v: "unat (ucast b :: rune) < 0x80" using assms by (simp add: unat_ucast_rune word_less_nat_alt)
  then show val: "ValidRune (ucast b)" by (simp add: ValidRune_iff)
  have "map unat (rune_bytes (ucast b)) = map unat [b]"
    using val v by (simp add: map_unat_rune_bytes enc_nat_def unat_ucast_rune)
  then show "rune_bytes (ucast b) = [b]" by (simp only: map_unat_inj)
qed

lemma last_byte: "p \<noteq> [] \<Longrightarrow> p ! nat (int (length p) - 1) = last p"
proof -
  have "nat (int (length p) - 1) = length p - 1" by linarith
  then show "p \<noteq> [] \<Longrightarrow> ?thesis" by (simp add: last_conv_nth)
qed

lemma DecodeLastRune_sound:
  assumes "p \<noteq> []" and "DecodeLastRune p = (r, n)" and "(r, n) \<noteq> (RuneError, 1)"
  shows "ValidRune r \<and> n = length (rune_bytes r) \<and> (\<exists>q. p = q @ rune_bytes r)"
proof (cases "last p < RuneSelf")
  case True
  have p: "p = butlast p @ [last p]" using assms(1) by simp
  have "p ! nat (int (length p) - 1) = last p" by (rule last_byte [OF assms(1)])
  then have "(r, n) = (ucast (last p), 1)"
    using assms(1,2) True by (simp add: DecodeLastRune_def rune_byte_ascii del: RuneSelf_def)
  with byte_rune [OF True] p show ?thesis by simp metis
next
  case False
  have l: "p ! nat (int (length p) - 1) = last p" by (rule last_byte [OF assms(1)])
  let ?lim = "max 0 (int (length p) - 4)"
  let ?start = "max 0 (scan_start p ?lim (int (length p) - 2))"
  have lim: "(if int (length p) - int UTFMax < 0 then 0 else int (length p) - int UTFMax) = ?lim"
    by simp
  obtain m k where d: "DecodeRune (seg (nat ?start) (length p) p) = (m, k)" by fastforce
  have "DecodeLastRune p = (if nat ?start + k \<noteq> length p then (RuneError, 1) else (m, k))"
    using assms(1) False d unfolding DecodeLastRune_def Let_def l lim rune_byte_ascii
    by (simp add: max_def split: if_splits)
  with assms(2,3) have k: "nat ?start + k = length p" "m = r" "k = n" by (auto split: if_splits)
  have "0 < length p" using assms(1) by simp
  then have "?lim - 1 \<le> int (length p) - 2" by linarith
  then have "scan_start p ?lim (int (length p) - 2) \<le> int (length p) - 2"
    by (rule scan_start_range [THEN conjunct2])
  with \<open>0 < length p\<close> have lt: "nat ?start < length p" by linarith
  have d': "DecodeRune (drop (nat ?start) p) = (r, n)" using d k by simp
  have "drop (nat ?start) p \<noteq> []" using lt by simp
  then show ?thesis using d'
  proof (cases rule: decode_cases)
    case error
    with assms(3) show ?thesis by simp
  next
    case rune
    have "take n (drop (nat ?start) p) = drop (nat ?start) p"
      by (rule take_all) (use k(1,3) in \<open>unfold length_drop, linarith\<close>)
    then have "drop (nat ?start) p = rune_bytes r" using rune(3) by simp
    then have "p = take (nat ?start) p @ rune_bytes r" by (metis append_take_drop_id)
    with rune show ?thesis by blast
  qed
qed

lemma DecodeLastRune_complete:
  assumes "ValidRune r"
  shows "DecodeLastRune (p @ rune_bytes r) = (r, length (rune_bytes r))"
proof -
  let ?s = "p @ rune_bytes r"
  have ne: "?s \<noteq> []" by simp
  have l: "?s ! nat (int (length ?s) - 1) = last (rune_bytes r)" using last_byte [OF ne] by simp
  note shape = rune_bytes_shape [OF assms]
  show ?thesis
  proof (cases "length (rune_bytes r) = 1")
    case True
    then obtain b where b: "rune_bytes r = [b]" by (auto simp: length_Suc_conv)
    with shape(3) have "b < RuneSelf" by simp
    with b have r: "r = ucast b"
      using decode_rune_bytes [OF assms, of "[]"] DecodeRune_ascii [of "[b]"] lead_info_ascii [of b]
      by simp
    show ?thesis using \<open>b < RuneSelf\<close> l unfolding DecodeLastRune_def Let_def b
      by (simp add: r rune_byte_ascii del: RuneSelf_def)
  next
    case False
    then have n2: "2 \<le> length (rune_bytes r)" using length_rune_bytes_le(2) [of r] by linarith
    let ?lim = "max 0 (int (length ?s) - 4)"
    have lim: "(if int (length ?s) - int UTFMax < 0 then 0 else int (length ?s) - int UTFMax) = ?lim"
      by simp
    have hd: "RuneStart (?s ! length p)"
      using shape(1) by (simp add: nth_append hd_conv_nth)
    have tl: "\<not> RuneStart (?s ! j)"
      if "length p < j" "j \<le> length p + (length (rune_bytes r) - 2)" for j
    proof -
      have "?s ! j = tl (rune_bytes r) ! (j - length p - 1)"
        using that n2 by (simp add: nth_append nth_tl Suc_diff_Suc Suc_diff_le)
      moreover have "tl (rune_bytes r) ! (j - length p - 1) \<in> set (tl (rune_bytes r))"
        by (rule nth_mem) (use that n2 in simp)
      ultimately show ?thesis using shape(2) by simp
    qed
    have e: "int (length ?s) - 2 = int (length p) + int (length (rune_bytes r) - 2)" using n2 by simp
    have "scan_start ?s ?lim (int (length ?s) - 2) = int (length p)"
      unfolding e
    proof (rule scan_start_stop [OF _ hd tl])
      show "max 0 (int (length (p @ rune_bytes r)) - 4) \<le> int (length p)"
        using length_rune_bytes_le(1) [of r] by simp
    qed
    then have st: "scan_start ?s ?lim (int (length ?s) - 1 - 1) = int (length p)"
      by (simp add: algebra_simps)
    have "\<not> last (rune_bytes r) < RuneSelf" using shape(3) False by simp
    then show ?thesis
      using ne decode_rune_bytes [OF assms, of "[]"]
      unfolding DecodeLastRune_def Let_def l lim st rune_byte_ascii
      by (simp add: seg_def)
  qed
qed


section \<open>Partial runes\<close>

lemma accept_order: "accept_lo (info_accept (lead_info b)) \<le> accept_hi (info_accept (lead_info b))"
  unfolding lead_info_cases by (simp add: lead_simps)

text \<open>Four bytes always decide a rune.\<close>

lemma FullRune_long: "4 \<le> length p \<Longrightarrow> FullRune p"
proof -
  assume p: "4 \<le> length p"
  have "info_size (lead_info (p ! 0)) \<le> 4" by (simp add: lead_info_cases info_size_def)
  then show ?thesis using p by (auto simp: FullRune_def Let_def)
qed

lemma FullRune_settled:
  assumes "FullRune p"
  shows "DecodeRune (p @ q) = DecodeRune p"
proof -
  from assms have p: "p \<noteq> []" by (auto simp: FullRune_def)
  then have p0: "(p @ q) ! 0 = p ! 0" by (cases p) simp_all
  show ?thesis
  proof (cases "p ! 0 < RuneSelf \<or> lead_info (p ! 0) = info_xx")
    case True
    then have c: "lead_info (p ! 0) = info_as \<or> lead_info (p ! 0) = info_xx"
      using lead_info_ascii [of "p ! 0"] by auto
    then show ?thesis
    proof
      assume "lead_info (p ! 0) = info_as"
      then show ?thesis using DecodeRune_ascii [of p] DecodeRune_ascii [of "p @ q"] p p0 by simp
    next
      assume "lead_info (p ! 0) = info_xx"
      then show ?thesis using DecodeRune_invalid [of p] DecodeRune_invalid [of "p @ q"] p p0 by simp
    qed
  next
    case False
    then have sz: "info_size (lead_info (p ! 0)) \<in> {2, 3, 4}" "\<not> info_as \<le> lead_info (p ! 0)"
      using lead_info_multi [of "p ! 0"] by auto
    have nth: "k < length p \<Longrightarrow> (p @ q) ! k = p ! k" for k by (simp add: nth_append)
    have dp: "DecodeRune s = DecodeRune s" for s ..
    show ?thesis
    proof (cases "info_size (lead_info (p ! 0)) \<le> length p")
      case True
      then show ?thesis using sz nth p unfolding DecodeRune_def Let_def p0 by auto
    next
      case False
      with assms p have bad: "1 < length p \<and> (p ! 1 < accept_lo (info_accept (lead_info (p ! 0)))
            \<or> accept_hi (info_accept (lead_info (p ! 0))) < p ! 1)
          \<or> 2 < length p \<and> (p ! 2 < locb \<or> hicb < p ! 2)"
        by (auto simp: FullRune_def Let_def split: if_splits)
      then show ?thesis using sz nth p False unfolding DecodeRune_def Let_def p0 by auto
    qed
  qed
qed

lemma FullRune_extend:
  assumes "\<not> FullRune p"
  shows "\<exists>q. snd (DecodeRune (p @ q)) \<noteq> snd (DecodeRune p)"
proof (cases "p = []")
  case True
  then have "snd (DecodeRune (p @ [0])) \<noteq> snd (DecodeRune p)"
    using DecodeRune_size(1) [of "p @ [0]"] by simp
  then show ?thesis by blast
next
  case False
  let ?x = "lead_info (p ! 0)"
  let ?sz = "info_size ?x" and ?a = "info_accept ?x"
  have short: "length p < ?sz"
    and ok1: "1 < length p \<Longrightarrow> \<not> (p ! 1 < accept_lo ?a \<or> accept_hi ?a < p ! 1)"
    and ok2: "2 < length p \<Longrightarrow> \<not> (p ! 2 < locb \<or> hicb < p ! 2)"
    using assms False by (auto simp: FullRune_def Let_def split: if_splits)
  have nx: "\<not> (p ! 0 < RuneSelf \<or> ?x = info_xx)"
    using short False lead_info_ascii [of "p ! 0"]
    by (auto simp: info_size_def Suc_le_eq simp del: RuneSelf_def)
  then have sz: "?sz \<in> {2, 3, 4}" using lead_info_multi(1) [of "p ! 0"] by simp
  have one: "snd (DecodeRune p) = 1"
    using DecodeRune_width [of 0 p] False short by simp
  have s2: "p ! Suc (Suc 0) = p ! 2" by (simp add: numeral_2_eq_2)
  define q where "q = drop (length p - 1) [accept_lo ?a, locb, locb]"
  have p0: "(p @ q) ! 0 = p ! 0" using False by (cases p) simp_all
  consider "length p = 1" | "length p = 2" | "length p = 3"
  proof -
    have "0 < length p" "?sz \<le> 4" using False sz by auto
    then have "length p = 1 \<or> length p = 2 \<or> length p = 3" using short by arith
    with that show ?thesis by blast
  qed
  then have "seq_size (p @ q) 0 ?sz ?a = ?sz \<and> ?sz \<le> length (p @ q)"
    by cases (use sz ok1 ok2 accept_order [of "p ! 0"] in
        \<open>auto simp: seq_size_def q_def nth_append not_less s2\<close>)
  then have "snd (DecodeRune (p @ q)) = ?sz"
    using DecodeRune_width [of 0 "p @ q"] False nx unfolding p0 by auto
  with one sz show ?thesis by (intro exI [of _ q]) auto
qed


section \<open>The runtime's decoder\<close>

text \<open>
  \<open>runtime.decoderune\<close> decodes the non-ASCII rune at index \<open>k\<close>; the compiler calls it for
  \<open>range\<close> loops over strings and conversions to \<open>[]rune\<close>.  It checks continuation bytes
  first and the numeric range of the result afterwards, where the package uses a table.
\<close>

definition decoderune :: "bytes \<Rightarrow> nat \<Rightarrow> rune \<times> nat" where
  "decoderune s k =
     (if k \<ge> length s then (RuneError, k + 1)
      else let s = drop k s; cont = (\<lambda>b. locb \<le> b \<and> b \<le> hicb); fail = (RuneError, k + 1) in
      if utf8_t2 \<le> s ! 0 \<and> s ! 0 < utf8_t3 then
        if length s > 1 \<and> cont (s ! 1) then
          let r = push_bit 6 (ucast (s ! 0 AND utf8_mask2)) OR ucast (s ! 1 AND utf8_maskx)
          in if rune1Max <s r then (r, k + 2) else fail
        else fail
      else if utf8_t3 \<le> s ! 0 \<and> s ! 0 < utf8_t4 then
        if length s > 2 \<and> cont (s ! 1) \<and> cont (s ! 2) then
          let r = push_bit 12 (ucast (s ! 0 AND utf8_mask3))
                  OR push_bit 6 (ucast (s ! 1 AND utf8_maskx)) OR ucast (s ! 2 AND utf8_maskx)
          in if rune2Max <s r \<and> \<not> (surrogateMin \<le>s r \<and> r \<le>s surrogateMax)
             then (r, k + 3) else fail
        else fail
      else if utf8_t4 \<le> s ! 0 \<and> s ! 0 < utf8_t5 then
        if length s > 3 \<and> cont (s ! 1) \<and> cont (s ! 2) \<and> cont (s ! 3) then
          let r = push_bit 18 (ucast (s ! 0 AND utf8_mask4))
                  OR push_bit 12 (ucast (s ! 1 AND utf8_maskx))
                  OR push_bit 6 (ucast (s ! 2 AND utf8_maskx)) OR ucast (s ! 3 AND utf8_maskx)
          in if rune3Max <s r \<and> r \<le>s MaxRune then (r, k + 4) else fail
        else fail
      else fail)"

lemma decoderune_progress: "k < snd (decoderune s k)"
  unfolding decoderune_def Let_def
  by (simp only: if_distrib [of snd] snd_conv split: if_split) simp

text \<open>The loop \<open>for i, r := range s\<close>: the runes and the byte index each starts at.\<close>

function range_string :: "bytes \<Rightarrow> nat \<Rightarrow> (nat \<times> rune) list" where
  "range_string s k =
     (if k < length s then
        if s ! k < RuneSelf then (k, ucast (s ! k)) # range_string s (k + 1)
        else let (r, pos) = decoderune s k in
             (k, r) # range_string s pos
      else [])"
  by pat_completeness auto
termination
proof (relation "measure (\<lambda>(s, k). length s - k)", goal_cases)
  case (3 s k x r pos)
  then have "k < pos" using decoderune_progress [of k s] by (metis snd_conv)
  with 3 show ?case by simp
qed auto

declare range_string.simps [simp del]

definition countrunes :: "bytes \<Rightarrow> nat" where
  "countrunes s = foldl (\<lambda>n _. n + 1) 0 (range_string s 0)"

lemma window_mods:
  "x < 16 \<Longrightarrow> (0xE0 + x) mod 16 = x" "x < 8 \<Longrightarrow> (0xF0 + x) mod 8 = x"
  "x < 64 \<Longrightarrow> (0x80 + x) mod 64 = x" for x :: nat
  using mod_window [of 224 16 "0xE0 + x"] mod_window [of 240 8 "0xF0 + x"]
    mod_window [of 128 64 "0x80 + x"] by simp_all

lemma range_check_3:
  assumes "0xE0 \<le> b0" "b0 < 0xF0" "cont_nat b1" "cont_nat b2"
  defines "v \<equiv> b0 mod 16 * 4096 + b1 mod 64 * 64 + b2 mod 64"
  shows "0x7FF < v \<and> \<not> (0xD800 \<le> v \<and> v \<le> 0xDFFF) \<longleftrightarrow> second_ok b0 b1"
proof -
  obtain x c d where e: "b0 = 0xE0 + x" "b1 = 0x80 + c" "b2 = 0x80 + d" "x < 16" "c < 64" "d < 64"
    using assms(1-4) by (auto simp: cont_nat_def le_iff_add)
  have m: "b0 mod 16 = x" "b1 mod 64 = c" "b2 mod 64 = d" using e by (simp_all add: window_mods)
  have "second_ok b0 b1 \<longleftrightarrow> (x = 0 \<longrightarrow> 32 \<le> c) \<and> (x = 13 \<longrightarrow> c < 32)"
    using e by (auto simp: second_ok_def lo_nat_def hi_nat_def)
  moreover have "(x = 0 \<longrightarrow> 32 \<le> c) \<and> (x = 13 \<longrightarrow> c < 32) \<longleftrightarrow>
      0x7FF < x * 4096 + c * 64 + d \<and> \<not> (0xD800 \<le> x * 4096 + c * 64 + d \<and> x * 4096 + c * 64 + d \<le> 0xDFFF)"
    using e(4-6) by (cases "x = 0"; cases "x < 13"; cases "x = 13") auto
  ultimately show ?thesis unfolding v_def m by simp
qed

lemma range_check_4:
  assumes "0xF0 \<le> b0" "b0 < 0xF8" "cont_nat b1" "cont_nat b2" "cont_nat b3"
  defines "v \<equiv> b0 mod 8 * 262144 + b1 mod 64 * 4096 + b2 mod 64 * 64 + b3 mod 64"
  shows "0xFFFF < v \<and> v \<le> 0x10FFFF \<longleftrightarrow> b0 \<le> 0xF4 \<and> second_ok b0 b1"
proof -
  obtain x b c d where e: "b0 = 0xF0 + x" "b1 = 0x80 + b" "b2 = 0x80 + c" "b3 = 0x80 + d"
    "x < 8" "b < 64" "c < 64" "d < 64"
    by (rule that [of "b0 - 0xF0" "b1 - 0x80" "b2 - 0x80" "b3 - 0x80"])
       (use assms(1-5) in \<open>auto simp: cont_nat_def\<close>)
  have m: "b0 mod 8 = x" "b1 mod 64 = b" "b2 mod 64 = c" "b3 mod 64 = d"
    using e by (simp_all add: window_mods)
  have "b0 \<le> 0xF4 \<and> second_ok b0 b1 \<longleftrightarrow> x \<le> 4 \<and> (x = 0 \<longrightarrow> 16 \<le> b) \<and> (x = 4 \<longrightarrow> b < 16)"
    using e by (auto simp: second_ok_def lo_nat_def hi_nat_def)
  moreover have "x \<le> 4 \<and> (x = 0 \<longrightarrow> 16 \<le> b) \<and> (x = 4 \<longrightarrow> b < 16) \<longleftrightarrow>
      0xFFFF < x * 262144 + b * 4096 + c * 64 + d \<and> x * 262144 + b * 4096 + c * 64 + d \<le> 0x10FFFF"
    using e(5-8) by (cases "x = 0"; cases "x < 4"; cases "x = 4") auto
  ultimately show ?thesis unfolding v_def m by simp
qed

text \<open>The runes both decoders build are below \<open>2\<^sup>2\<^sup>1\<close>, so the signed comparisons are unsigned.\<close>

lemma rune_cmp:
  fixes r :: rune
  assumes "unat r < 0x80000000"
  shows "rune1Max <s r \<longleftrightarrow> 0x7F < unat r" "rune2Max <s r \<longleftrightarrow> 0x7FF < unat r"
    "rune3Max <s r \<longleftrightarrow> 0xFFFF < unat r" "r \<le>s MaxRune \<longleftrightarrow> unat r \<le> 0x10FFFF"
    "surrogateMin \<le>s r \<longleftrightarrow> 0xD800 \<le> unat r" "r \<le>s surrogateMax \<longleftrightarrow> unat r \<le> 0xDFFF"
proof -
  obtain n where n: "unat r = n" "uint r = int n" by (rule word_natE)
  with assms show "rune1Max <s r \<longleftrightarrow> 0x7F < unat r" "rune2Max <s r \<longleftrightarrow> 0x7FF < unat r"
    "rune3Max <s r \<longleftrightarrow> 0xFFFF < unat r" "r \<le>s MaxRune \<longleftrightarrow> unat r \<le> 0x10FFFF"
    "surrogateMin \<le>s r \<longleftrightarrow> 0xD800 \<le> unat r" "r \<le>s surrogateMax \<longleftrightarrow> unat r \<le> 0xDFFF"
    unfolding sless_view sle_view sint_view n(1) by simp_all
qed

lemma decode_bounds:
  fixes a b c d :: nat
  shows "a mod 32 * 64 + b mod 64 < 0x80000000"
    and "a mod 16 * 4096 + b mod 64 * 64 + c mod 64 < 0x80000000"
    and "a mod 8 * 262144 + b mod 64 * 4096 + c mod 64 * 64 + d mod 64 < 0x80000000"
proof -
  have "a mod 32 < 32" "a mod 16 < 16" "a mod 8 < 8" "b mod 64 < 64" "c mod 64 < 64" "d mod 64 < 64"
    by simp_all
  then show "a mod 32 * 64 + b mod 64 < 0x80000000"
    "a mod 16 * 4096 + b mod 64 * 64 + c mod 64 < 0x80000000"
    "a mod 8 * 262144 + b mod 64 * 4096 + c mod 64 * 64 + d mod 64 < 0x80000000"
    by linarith+
qed

lemma cont_byte: "locb \<le> b \<and> b \<le> hicb \<longleftrightarrow> cont_nat (unat b)"
  by (simp add: cont_nat_def word_le_nat_alt)

lemma runtime_lead:
  "utf8_t2 \<le> b \<and> b < utf8_t3 \<longleftrightarrow> 0xC0 \<le> unat b \<and> unat b < 0xE0"
  "utf8_t3 \<le> b \<and> b < utf8_t4 \<longleftrightarrow> 0xE0 \<le> unat b \<and> unat b < 0xF0"
  "utf8_t4 \<le> b \<and> b < utf8_t5 \<longleftrightarrow> 0xF0 \<le> unat b \<and> unat b < 0xF8"
  by (simp_all add: word_le_nat_alt word_less_nat_alt)

lemma decoderune_fail:
  assumes "k < length s" and "unat (s ! k) < 0xC0 \<or> 0xF8 \<le> unat (s ! k)"
  shows "decoderune s k = (RuneError, k + 1)"
proof -
  have e: "drop k s ! 0 = s ! k" "(length s \<le> k) = False" using assms(1) by simp_all
  have "(0xC0 \<le> unat (s ! k) \<and> unat (s ! k) < 0xE0) = False"
    "(0xE0 \<le> unat (s ! k) \<and> unat (s ! k) < 0xF0) = False"
    "(0xF0 \<le> unat (s ! k) \<and> unat (s ! k) < 0xF8) = False" using assms(2) by auto
  then show ?thesis
    unfolding decoderune_def Let_def runtime_lead e by (simp only: if_False)
qed

lemma decoderune_2:
  assumes "k < length p" and "0xC0 \<le> unat (p ! k)" "unat (p ! k) < 0xE0"
  shows "decoderune p k =
    (if 2 \<le> length (drop k p) \<and> cont_nat (unat (drop k p ! 1)) \<and> 0xC2 \<le> unat (p ! k)
     then (push_bit 6 (ucast (drop k p ! 0 AND 0x1F)) OR ucast (drop k p ! 1 AND 0x3F), k + 2)
     else (RuneError, k + 1))"
proof -
  let ?s = "drop k p" and ?b1 = "drop k p ! 1"
  let ?v = "unat (p ! k) mod 32 * 64 + unat ?b1 mod 64"
  have s0: "?s ! 0 = p ! k" using assms(1) by simp
  have lt: "\<not> length p \<le> k" using assms(1) by simp
  obtain x where x: "unat (p ! k) = 0xC0 + x" "x < 32" using assms(2,3) by (auto simp: le_iff_add)
  have "unat ?b1 mod 64 < 64" by simp
  then have v: "0x7F < ?v \<longleftrightarrow> 0xC2 \<le> unat (p ! k)"
    using mod_window [of 192 32 "unat (p ! k)"] x by auto
  let ?r = "push_bit 6 (ucast (p ! k AND 0x1F)) OR ucast (?b1 AND 0x3F) :: rune"
  have r: "rune1Max <s ?r \<longleftrightarrow> 0xC2 \<le> unat (p ! k)"
    using rune_cmp(1) [of ?r] decode_bounds(1) unfolding decode2_view v by blast
  show ?thesis
    unfolding decoderune_def Let_def cont_byte s0 runtime_lead
    using lt assms(2,3) r by (simp add: Suc_le_eq del: rune1Max_def)
qed

lemma decoderune_3:
  assumes "k < length p" and "0xE0 \<le> unat (p ! k)" "unat (p ! k) < 0xF0"
  shows "decoderune p k =
    (if 3 \<le> length (drop k p) \<and> second_ok (unat (p ! k)) (unat (drop k p ! 1))
        \<and> cont_nat (unat (drop k p ! 2))
     then (push_bit 12 (ucast (drop k p ! 0 AND 0x0F)) OR push_bit 6 (ucast (drop k p ! 1 AND 0x3F))
           OR ucast (drop k p ! 2 AND 0x3F), k + 3)
     else (RuneError, k + 1))"
proof -
  let ?s = "drop k p" and ?b1 = "drop k p ! 1" and ?b2 = "drop k p ! 2"
  have s0: "?s ! 0 = p ! k" using assms(1) by simp
  have lt: "\<not> length p \<le> k" using assms(1) by simp
  let ?r = "push_bit 12 (ucast (p ! k AND 0x0F)) OR push_bit 6 (ucast (?b1 AND 0x3F))
    OR ucast (?b2 AND 0x3F) :: rune"
  have bd: "unat ?r < 0x80000000" unfolding decode3_view by (rule decode_bounds)
  have r: "rune2Max <s ?r \<and> \<not> (surrogateMin \<le>s ?r \<and> ?r \<le>s surrogateMax) \<longleftrightarrow>
      second_ok (unat (p ! k)) (unat ?b1)" if "cont_nat (unat ?b1)" "cont_nat (unat ?b2)"
    using range_check_3 [OF assms(2,3) that]
    unfolding rune_cmp [OF bd] decode3_view by blast
  show ?thesis
    unfolding decoderune_def Let_def cont_byte s0 runtime_lead
    using lt assms(2,3) r second_cont
    by (simp add: Suc_le_eq numeral_3_eq_3 del: rune2Max_def surrogateMin_def surrogateMax_def) blast
qed

lemma decoderune_4:
  assumes "k < length p" and "0xF0 \<le> unat (p ! k)" "unat (p ! k) < 0xF8"
  shows "decoderune p k =
    (if 4 \<le> length (drop k p) \<and> unat (p ! k) \<le> 0xF4 \<and> second_ok (unat (p ! k)) (unat (drop k p ! 1))
        \<and> cont_nat (unat (drop k p ! 2)) \<and> cont_nat (unat (drop k p ! 3))
     then (push_bit 18 (ucast (drop k p ! 0 AND 0x07)) OR push_bit 12 (ucast (drop k p ! 1 AND 0x3F))
           OR push_bit 6 (ucast (drop k p ! 2 AND 0x3F)) OR ucast (drop k p ! 3 AND 0x3F), k + 4)
     else (RuneError, k + 1))"
proof -
  let ?s = "drop k p" and ?b1 = "drop k p ! 1" and ?b2 = "drop k p ! 2" and ?b3 = "drop k p ! 3"
  have s0: "?s ! 0 = p ! k" using assms(1) by simp
  have lt: "\<not> length p \<le> k" using assms(1) by simp
  let ?r = "push_bit 18 (ucast (p ! k AND 0x07)) OR push_bit 12 (ucast (?b1 AND 0x3F))
    OR push_bit 6 (ucast (?b2 AND 0x3F)) OR ucast (?b3 AND 0x3F) :: rune"
  have bd: "unat ?r < 0x80000000" unfolding decode4_view by (rule decode_bounds)
  have r: "rune3Max <s ?r \<and> ?r \<le>s MaxRune \<longleftrightarrow>
      unat (p ! k) \<le> 0xF4 \<and> second_ok (unat (p ! k)) (unat ?b1)"
    if "cont_nat (unat ?b1)" "cont_nat (unat ?b2)" "cont_nat (unat ?b3)"
    using range_check_4 [OF assms(2,3) that]
    unfolding rune_cmp [OF bd] decode4_view by blast
  have l: "3 < length ?s \<longleftrightarrow> 4 \<le> length ?s" by linarith
  show ?thesis
  proof (cases "cont_nat (unat ?b1) \<and> cont_nat (unat ?b2) \<and> cont_nat (unat ?b3)")
    case True
    then show ?thesis
      unfolding decoderune_def Let_def cont_byte s0 runtime_lead l
      using lt assms(2,3) r by (simp del: rune3Max_def MaxRune_def length_drop)
  next
    case False
    with second_cont have "\<not> (cont_nat (unat ?b2) \<and> cont_nat (unat ?b3) \<and> second_ok (unat (p ! k)) (unat ?b1))"
      by blast
    with False show ?thesis
      unfolding decoderune_def Let_def cont_byte s0 runtime_lead l
      using lt assms(2,3) by (auto simp del: rune3Max_def MaxRune_def length_drop RuneError_def)
  qed
qed

lemma decoderune_eq:
  assumes "k < length p" and "\<not> p ! k < RuneSelf"
  shows "decoderune p k = (fst (DecodeRune (drop k p)), k + snd (DecodeRune (drop k p)))"
proof -
  let ?s = "drop k p"
  have ne: "?s \<noteq> []" and s0: "?s ! 0 = p ! k" using assms(1) by simp_all
  have b0: "0x80 \<le> unat (p ! k)" using assms(2) by (simp add: word_less_nat_alt)
  consider "unat (p ! k) < 0xC0 \<or> 0xF8 \<le> unat (p ! k)" | "0xC0 \<le> unat (p ! k)" "unat (p ! k) < 0xE0"
    | "0xE0 \<le> unat (p ! k)" "unat (p ! k) < 0xF0" | "0xF0 \<le> unat (p ! k)" "unat (p ! k) < 0xF8"
    by linarith
  then show ?thesis
  proof cases
    case 1
    with b0 have "lead_info (?s ! 0) = info_xx" unfolding s0 lead_info_cases by auto
    from DecodeRune_invalid [OF ne this] decoderune_fail [OF assms(1) 1] show ?thesis by simp
  next
    case 2
    show ?thesis
    proof (cases "unat (p ! k) < 0xC2")
      case True
      with b0 have "lead_info (?s ! 0) = info_xx" unfolding s0 lead_info_cases by auto
      from DecodeRune_invalid [OF ne this] decoderune_2 [OF assms(1) 2] True show ?thesis by simp
    next
      case False
      with 2 have "lead_info (?s ! 0) = info_s1" unfolding s0 lead_info_cases by auto
      note d = DecodeRune_2 [OF ne this]
      show ?thesis unfolding d decoderune_2 [OF assms(1) 2] using False by (simp del: length_drop nth_drop)
    qed
  next
    case 3
    then have l: "info_size (lead_info (?s ! 0)) = 3" "\<not> info_as \<le> lead_info (?s ! 0)"
      unfolding lead_info_cases s0 by (auto simp: lead_simps)
    from 3 have "unat (p ! k) \<le> 0xF4" by simp
    note d = DecodeRune_3 [OF ne l, unfolded s0 accept_view [OF 3(1) this]]
    show ?thesis unfolding d decoderune_3 [OF assms(1) 3] s0 by (simp del: length_drop)
  next
    case 4
    show ?thesis
    proof (cases "unat (p ! k) \<le> 0xF4")
      case True
      with 4 have l: "info_size (lead_info (?s ! 0)) = 4" "\<not> info_as \<le> lead_info (?s ! 0)"
        unfolding lead_info_cases s0 by (auto simp: lead_simps)
      have "0xE0 \<le> unat (p ! k)" using 4 by simp
      note d = DecodeRune_4 [OF ne l, unfolded s0 accept_view [OF this True]]
      show ?thesis unfolding d decoderune_4 [OF assms(1) 4] s0 using True by (simp del: length_drop)
    next
      case False
      then have "lead_info (?s ! 0) = info_xx" unfolding s0 lead_info_cases by auto
      from DecodeRune_invalid [OF ne this] decoderune_4 [OF assms(1) 4] False show ?thesis by simp
    qed
  qed
qed

lemma range_string_spec: "map snd (range_string s k) = runes_of (drop k s)"
proof (induction k rule: scan_induct [of s])
  case (1 k)
  then show ?case by (subst range_string.simps) simp
next
  case (2 k)
  show ?case
  proof (cases "s ! k < RuneSelf")
    case True
    then have "DecodeRune (drop k s) = (ucast (s ! k), 1)"
      using 2(1) lead_info_ascii DecodeRune_ascii [of "drop k s"] by simp
    with 2 True show ?thesis
      by (subst range_string.simps, subst runes_of_step) simp_all
  next
    case False
    then show ?thesis
      using 2 decoderune_eq [OF 2(1) False]
      by (subst range_string.simps, subst runes_of_step) (simp_all add: Let_def split_beta del: RuneSelf_def)
  qed
qed

text \<open>The runtime's encoder, which writes into \<open>p\<close> and returns the count.\<close>

definition encoderune :: "bytes \<Rightarrow> rune \<Rightarrow> (bytes \<times> nat) go" where
  "encoderune p r =
     (let three = (\<lambda>r. if length p < 3 then Inl IndexOutOfRange
        else Inr (p[0 := utf8_t3 OR ucast (signed_drop_bit 12 r),
                    1 := utf8_tx OR (ucast (signed_drop_bit 6 r) AND utf8_maskx),
                    2 := utf8_tx OR (ucast r AND utf8_maskx)], 3)) in
      if r \<le> rune1Max then
        if length p < 1 then Inl IndexOutOfRange else Inr (p[0 := ucast r], 1)
      else if r \<le> rune2Max then
        if length p < 2 then Inl IndexOutOfRange
        else Inr (p[0 := utf8_t2 OR ucast (signed_drop_bit 6 r),
                    1 := utf8_tx OR (ucast r AND utf8_maskx)], 2)
      else if r > MaxRune \<or> surrogateMin \<le> r \<and> r \<le> surrogateMax then three RuneError
      else if r \<le> rune3Max then three r
      else
        if length p < 4 then Inl IndexOutOfRange
        else Inr (p[0 := utf8_t4 OR ucast (signed_drop_bit 18 r),
                    1 := utf8_tx OR (ucast (signed_drop_bit 12 r) AND utf8_maskx),
                    2 := utf8_tx OR (ucast (signed_drop_bit 6 r) AND utf8_maskx),
                    3 := utf8_tx OR (ucast r AND utf8_maskx)], 4))"

lemma encoderune_eq: "encoderune p r = EncodeRune p r"
  unfolding encoderune_def EncodeRune_def encode3_def Let_def by simp

lemma string_versions:
  "DecodeRuneInString s = DecodeRune s" "DecodeLastRuneInString s = DecodeLastRune s"
  "FullRuneInString s = FullRune s" "ValidString s = Valid s"
  unfolding DecodeRuneInString_def DecodeRune_def DecodeLastRuneInString_def DecodeLastRune_def
    FullRuneInString_def FullRune_def ValidString_def Valid_def ValidString_loop_spec
  by (rule refl)+

lemma EncodeRune_exact:
  "ValidRune r \<Longrightarrow> RuneLen r = int (length (rune_bytes r)) \<and> RuneLen r \<le> 4"
  using length_rune_bytes_le(1) [of r] by (simp add: RuneLen_rune_bytes)

section \<open>Properties\<close>

text \<open>
  C2: \<open>EncodeRune\<close> into a buffer of at least \<open>UTFMax\<close> bytes never panics; for a valid rune it writes
  exactly \<open>RuneLen r\<close> bytes, leaves the rest of the buffer as it was, and \<open>DecodeRune\<close> (like
  \<open>DecodeRuneInString\<close>) reads the rune and its width back, whatever follows it.  The runtime's
  \<open>encoderune\<close> computes the same buffer.
\<close>

theorem encode_decode_roundtrip:
  assumes "UTFMax \<le> length p" and "ValidRune r"
  shows "\<exists>q n. EncodeRune p r = Inr (q, n) \<and> encoderune p r = Inr (q, n) \<and> int n = RuneLen r
           \<and> length q = length p \<and> drop n q = drop n p
           \<and> DecodeRune q = (r, n) \<and> DecodeRuneInString q = (r, n)"
proof -
  have "EncodeRune p r = Inr (rune_bytes r @ drop (length (rune_bytes r)) p, length (rune_bytes r))"
    using assms(1) by (intro EncodeRune_spec) simp
  then show ?thesis
    using assms length_rune_bytes_le(1) [of r]
    by (simp add: encoderune_eq RuneLen_rune_bytes decode_rune_bytes string_versions)
qed

theorem encode_decode_roundtrip_witness:
  "\<exists>q n. EncodeRune [1, 2, 3, 4, 5] 0x20AC = Inr (q, n) \<and> encoderune [1, 2, 3, 4, 5] 0x20AC = Inr (q, n)
           \<and> int n = RuneLen 0x20AC
           \<and> length q = length [1, 2, 3, 4, 5 :: byte] \<and> drop n q = drop n [1, 2, 3, 4, 5]
           \<and> DecodeRune q = (0x20AC, n) \<and> DecodeRuneInString q = (0x20AC, n)"
  using encode_decode_roundtrip [of "[1, 2, 3, 4, 5]" "0x20AC"] by (simp add: ValidRune_iff)

text \<open>
  C1: \<open>DecodeRune\<close> accepts only canonical UTF-8.  On a non-empty slice it either reports
  \<open>(RuneError, 1)\<close>, and then no encoding of a valid rune is a prefix of the slice, or it returns a
  valid rune whose shortest encoding is exactly the prefix it consumed.
\<close>

theorem DecodeRune_canonical:
  assumes "p \<noteq> []"
  shows "case DecodeRune p of (r, n) \<Rightarrow>
    if (r, n) = (RuneError, 1) then (\<forall>v q. ValidRune v \<longrightarrow> p \<noteq> rune_bytes v @ q)
    else ValidRune r \<and> int n = RuneLen r \<and> take n p = rune_bytes r"
proof -
  obtain r n where d: "DecodeRune p = (r, n)" by (cases "DecodeRune p")
  show ?thesis
  proof (cases "(r, n) = (RuneError, 1)")
    case True
    have "p \<noteq> rune_bytes v @ q" if "ValidRune v" for v q
      using decode_rune_bytes [OF that, of q] d True length_RuneError_bytes
      by (auto simp del: RuneError_def)
    with d True show ?thesis by simp
  next
    case False
    from assms d show ?thesis
      by (cases rule: decode_cases) (use False d in \<open>auto simp: RuneLen_rune_bytes\<close>)
  qed
qed

theorem DecodeRune_canonical_witness:
  "case DecodeRune [0xC3, 0xA9, 0x21] of (r, n) \<Rightarrow>
    if (r, n) = (RuneError, 1) then (\<forall>v q. ValidRune v \<longrightarrow> [0xC3, 0xA9, 0x21] \<noteq> rune_bytes v @ q)
    else ValidRune r \<and> int n = RuneLen r \<and> take n [0xC3, 0xA9, 0x21] = rune_bytes r"
  by (rule DecodeRune_canonical) simp

text \<open>
  C33: \<open>Valid\<close> (and \<open>ValidString\<close>) hold exactly of the concatenations of encodings of valid runes.
\<close>

theorem Valid_iff_encoding:
  "(Valid p \<longleftrightarrow> (\<exists>rs. list_all ValidRune rs \<and> p = concat (map rune_bytes rs)))
   \<and> (ValidString p \<longleftrightarrow> Valid p)"
  using Valid_loop_spec [of p 0] by (simp add: Valid_def string_versions list_all_iff)

text \<open>
  The counting loops agree with decoding: \<open>RuneCount\<close>, \<open>RuneCountInString\<close> and the runtime's
  \<open>countrunes\<close> are all the number of runes \<open>DecodeRune\<close> yields when applied repeatedly, which are the
  runes a \<open>range\<close> loop over the string visits.
\<close>

theorem RuneCount_runes:
  "RuneCount p = length (runes_of p) \<and> RuneCountInString p = length (runes_of p)
   \<and> countrunes p = length (runes_of p) \<and> map snd (range_string p 0) = runes_of p"
proof -
  have "foldl (\<lambda>n _. n + 1) k xs = k + length xs" for k and xs :: "(nat \<times> rune) list"
    by (induction xs arbitrary: k) simp_all
  moreover have "length (range_string p 0) = length (runes_of p)"
    using arg_cong [OF range_string_spec [of p 0], of length] by simp
  ultimately show ?thesis
    using range_string_spec [of p 0]
    by (simp add: RuneCount_def RuneCountInString_def countrunes_def RuneCount_loop_runes
        RuneCountInString_loop_runes)
qed

text \<open>
  \<open>DecodeLastRune\<close> returns a valid rune \<open>r\<close> of width \<open>n\<close> exactly when the slice ends with the
  encoding of \<open>r\<close>; otherwise it returns \<open>(RuneError, 1)\<close>, or \<open>(RuneError, 0)\<close> on an empty slice.
\<close>

theorem DecodeLastRune_suffix:
  "(ValidRune r \<and> DecodeLastRune p = (r, length (rune_bytes r))
      \<longleftrightarrow> ValidRune r \<and> (\<exists>q. p = q @ rune_bytes r))
   \<and> (DecodeLastRune p = (RuneError, if p = [] then 0 else 1)
      \<or> (\<exists>v. ValidRune v \<and> DecodeLastRune p = (v, length (rune_bytes v))))"
proof (cases "p = []")
  case True
  then show ?thesis by (auto simp: DecodeLastRune_def)
next
  case False
  have "\<exists>q. p = q @ rune_bytes r"
    if "ValidRune r" "DecodeLastRune p = (r, length (rune_bytes r))"
  proof -
    have "(r, length (rune_bytes r)) \<noteq> (RuneError, 1)"
      using length_RuneError_bytes by (auto simp del: RuneError_def)
    with DecodeLastRune_sound [OF False that(2)] show ?thesis by blast
  qed
  moreover have "DecodeLastRune p = (RuneError, 1)
      \<or> (\<exists>v. ValidRune v \<and> DecodeLastRune p = (v, length (rune_bytes v)))"
  proof -
    obtain v m where d: "DecodeLastRune p = (v, m)" by (cases "DecodeLastRune p")
    then show ?thesis using DecodeLastRune_sound [OF False d] by blast
  qed
  ultimately show ?thesis
    using DecodeLastRune_complete [of r] False by (auto simp del: RuneError_def)
qed

text \<open>
  \<open>FullRune p\<close> holds exactly when no further input can change what \<open>DecodeRune\<close> returns for
  \<open>p\<close>: a reader that has a full rune may decode it, one that has not must read more.
\<close>

theorem FullRune_iff_settled:
  "(FullRune p \<longleftrightarrow> (\<forall>q. DecodeRune (p @ q) = DecodeRune p))
   \<and> (FullRuneInString p \<longleftrightarrow> FullRune p)"
proof -
  have "FullRune p" if settled: "\<forall>q. DecodeRune (p @ q) = DecodeRune p"
  proof (rule ccontr)
    assume "\<not> FullRune p"
    then obtain q where "snd (DecodeRune (p @ q)) \<noteq> snd (DecodeRune p)" using FullRune_extend by blast
    with settled show False by simp
  qed
  then show ?thesis using FullRune_settled by (auto simp: string_versions)
qed

text \<open>
  The runtime's table-free \<open>decoderune\<close> returns the rune of \<open>DecodeRune\<close> at the same index and the
  index after it, on every non-ASCII lead byte; past the end it reports \<open>RuneError\<close> and moves on.
\<close>

theorem decoderune_refines_DecodeRune:
  "decoderune p k =
     (if length p \<le> k then (RuneError, k + 1)
      else if p ! k < RuneSelf then (RuneError, k + 1)
      else (fst (DecodeRune (drop k p)), k + snd (DecodeRune (drop k p))))"
proof (cases "k < length p")
  case True
  show ?thesis
  proof (cases "p ! k < RuneSelf")
    case lt: True
    then have "unat (p ! k) < 0xC0" by (simp add: word_less_nat_alt)
    with lt True show ?thesis by (simp add: decoderune_fail)
  next
    case False
    with True show ?thesis by (simp add: decoderune_eq del: RuneSelf_def)
  qed
qed (simp add: decoderune_def)

end
