(* ===== verification/BytesReader.thy ===== *)
theory BytesReader
  imports IoLaws Utf8Seq
begin

text \<open>
  \<open>bytes.Reader\<close> (\<open>bytes/reader.go\<close>): a reader over a byte slice with a position that may be moved
  anywhere, also past the end.  \<open>i\<close> is an \<open>int64\<close> and its arithmetic wraps.
\<close>

record BytesReader =
  br_s :: bytes
  br_i :: int
  br_prevRune :: int

definition br_NewReader :: "bytes \<Rightarrow> BytesReader" where
  "br_NewReader b = \<lparr>br_s = b, br_i = 0, br_prevRune = -1\<rparr>"

definition br_Reset :: "BytesReader \<Rightarrow> bytes \<Rightarrow> BytesReader" where
  "br_Reset r b = \<lparr>br_s = b, br_i = 0, br_prevRune = -1\<rparr>"

definition br_Len :: "BytesReader \<Rightarrow> int" where
  "br_Len r = (if br_i r \<ge> int (length (br_s r)) then 0 else wrap64 (int (length (br_s r)) - br_i r))"

definition br_Size :: "BytesReader \<Rightarrow> int" where
  "br_Size r = int (length (br_s r))"

definition br_Read :: "BytesReader reader" where
  "br_Read r b =
     (if br_i r \<ge> int (length (br_s r)) then Inr (r, b, 0, Some EOF)
      else go_bind (go_from (br_s r) (br_i r)) (\<lambda>t.
        let n = min (length b) (length t) in
        Inr (r\<lparr>br_prevRune := -1, br_i := wrap64 (br_i r + int n)\<rparr>, take n t @ drop n b, int n, None)))"

definition br_ReadAt :: "BytesReader reader_at" where
  "br_ReadAt r b off =
     (if off < 0 then Inr (r, b, 0, Some (NewError ''bytes.Reader.ReadAt: negative offset''))
      else if off \<ge> int (length (br_s r)) then Inr (r, b, 0, Some EOF)
      else go_bind (go_from (br_s r) off) (\<lambda>t.
        let n = min (length b) (length t) in
        Inr (r, take n t @ drop n b, int n, if n < length b then Some EOF else None)))"

definition br_ReadByte :: "BytesReader \<Rightarrow> (BytesReader \<times> byte \<times> io_error option) go" where
  "br_ReadByte r =
     (let r = r\<lparr>br_prevRune := -1\<rparr> in
      if br_i r \<ge> int (length (br_s r)) then Inr (r, 0, Some EOF)
      else go_bind (go_index (br_s r) (br_i r)) (\<lambda>b. Inr (r\<lparr>br_i := wrap64 (br_i r + 1)\<rparr>, b, None)))"

definition br_UnreadByte :: "BytesReader \<Rightarrow> BytesReader \<times> io_error option" where
  "br_UnreadByte r =
     (if br_i r \<le> 0 then (r, Some (NewError ''bytes.Reader.UnreadByte: at beginning of slice''))
      else (r\<lparr>br_prevRune := -1, br_i := br_i r - 1\<rparr>, None))"

definition br_ReadRune :: "BytesReader \<Rightarrow> (BytesReader \<times> rune \<times> int \<times> io_error option) go" where
  "br_ReadRune r =
     (if br_i r \<ge> int (length (br_s r)) then Inr (r\<lparr>br_prevRune := -1\<rparr>, 0, 0, Some EOF)
      else
        let r = r\<lparr>br_prevRune := br_i r\<rparr> in
        go_bind (go_index (br_s r) (br_i r)) (\<lambda>c.
          if c < RuneSelf then Inr (r\<lparr>br_i := wrap64 (br_i r + 1)\<rparr>, ucast c, 1, None)
          else go_bind (go_from (br_s r) (br_i r)) (\<lambda>t.
            case DecodeRune t of (ch, n) \<Rightarrow> Inr (r\<lparr>br_i := wrap64 (br_i r + int n)\<rparr>, ch, int n, None))))"

definition br_UnreadRune :: "BytesReader \<Rightarrow> BytesReader \<times> io_error option" where
  "br_UnreadRune r =
     (if br_i r \<le> 0 then (r, Some (NewError ''bytes.Reader.UnreadRune: at beginning of slice''))
      else if br_prevRune r < 0
      then (r, Some (NewError ''bytes.Reader.UnreadRune: previous operation was not ReadRune''))
      else (r\<lparr>br_i := br_prevRune r, br_prevRune := -1\<rparr>, None))"

definition br_Seek :: "BytesReader \<Rightarrow> int \<Rightarrow> int \<Rightarrow> BytesReader \<times> int \<times> io_error option" where
  "br_Seek r offset whence =
     (let r = r\<lparr>br_prevRune := -1\<rparr> in
      if whence \<notin> {SeekStart, SeekCurrent, SeekEnd}
      then (r, 0, Some (NewError ''bytes.Reader.Seek: invalid whence''))
      else
        let abs = (if whence = SeekStart then offset
                   else if whence = SeekCurrent then wrap64 (br_i r + offset)
                   else wrap64 (int (length (br_s r)) + offset)) in
        if abs < 0 then (r, 0, Some (NewError ''bytes.Reader.Seek: negative position''))
        else (r\<lparr>br_i := abs\<rparr>, abs, None))"

definition br_WriteTo :: "'w writer \<Rightarrow> BytesReader \<Rightarrow> 'w \<Rightarrow> (BytesReader \<times> 'w \<times> int \<times> io_error option) go" where
  "br_WriteTo wr r w =
     (let r = r\<lparr>br_prevRune := -1\<rparr> in
      if br_i r \<ge> int (length (br_s r)) then Inr (r, w, 0, None)
      else go_bind (go_from (br_s r) (br_i r)) (\<lambda>b. go_bind (wr w b) (\<lambda>(w, m, err).
        if m > int (length b) then Inl (PanicValue ''bytes.Reader.WriteTo: invalid Write count'')
        else Inr (r\<lparr>br_i := wrap64 (br_i r + m)\<rparr>, w, m,
               if m \<noteq> int (length b) \<and> err = None then Some ErrShortWrite else err))))"

section \<open>The stream of a reader\<close>

definition br_ok :: "BytesReader \<Rightarrow> bool" where
  "br_ok r \<longleftrightarrow> 0 \<le> br_i r \<and> br_i r < 2 ^ 63 \<and> length (br_s r) < 2 ^ 63"

definition br_rest :: "BytesReader \<Rightarrow> bytes" where
  "br_rest r = drop (nat (br_i r)) (br_s r)"

lemma br_restE:
  assumes "br_ok r"
  obtains (at_end) "br_i r \<ge> int (length (br_s r))" "br_rest r = []"
    | (inside) i where "br_i r = int i" "i < length (br_s r)" "br_rest r = drop i (br_s r)" "br_rest r \<noteq> []"
proof (cases "br_i r \<ge> int (length (br_s r))")
  case True
  then show ?thesis by (intro at_end) (simp_all add: br_rest_def nat_le_iff)
next
  case False
  then show ?thesis using assms
    by (intro inside [of "nat (br_i r)"]) (auto simp: br_ok_def br_rest_def nat_less_iff)
qed

lemma br_Read_delivers: "br_ok r \<Longrightarrow> delivers br_Read br_rest br_ok r p"
proof -
  assume ok: "br_ok r"
  show ?thesis
    using ok
  proof (cases rule: br_restE)
    case at_end
    then show ?thesis using ok
      by (intro deliversI [where r' = r and k = 0 and e = "Some EOF"]) (simp_all add: br_Read_def)
  next
    case (inside i)
    let ?n = "min (length p) (length (br_rest r))"
    have n: "i + ?n \<le> length (br_s r)" using inside by auto
    have "wrap64 (br_i r + int ?n) = int (i + ?n)"
      using n ok inside(1) by (subst wrap64_id) (auto simp: br_ok_def)
    then have read: "br_Read r p = Inr (r\<lparr>br_prevRune := -1, br_i := int (i + ?n)\<rparr>,
        take ?n (br_rest r) @ drop ?n p, int ?n, None)"
      using inside by (simp add: br_Read_def Let_def)
    show ?thesis
      by (rule deliversI [where r' = "r\<lparr>br_prevRune := -1, br_i := int (i + ?n)\<rparr>" and k = ?n and e = None])
        (use read n ok inside in \<open>auto simp: br_ok_def br_rest_def nat_add_distrib add.commute min_def\<close>)
  qed
qed

interpretation br: stream_reader br_Read br_rest br_ok
  by unfold_locales (rule br_Read_delivers)

context stream_writer
begin

lemma br_WriteTo_all:
  assumes "br_ok r" "room w (length (br_rest r))"
  shows "\<exists>r' w'. br_WriteTo wr r w = Inr (r', w', int (length (br_rest r)), None)
    \<and> br_ok r' \<and> br_rest r' = [] \<and> sent w' = sent w @ br_rest r"
  using assms(1)
proof (cases rule: br_restE)
  case at_end
  then show ?thesis using assms
    by (intro exI [of _ "r\<lparr>br_prevRune := -1\<rparr>"] exI [of _ w]) (auto simp: br_WriteTo_def br_ok_def br_rest_def)
next
  case (inside i)
  obtain w' where w: "wr w (br_rest r) = Inr (w', int (length (br_rest r)), None)" "sent w' = sent w @ br_rest r"
    using acceptsE [OF assms(2), of "br_rest r"] by auto
  have l: "i + length (br_rest r) = length (br_s r)" using inside by simp
  then have wrap: "wrap64 (int i + int (length (br_rest r))) = int (length (br_s r))"
    using assms(1) by (subst wrap64_id) (auto simp: br_ok_def)
  show ?thesis
    using inside w wrap assms(1)
    by (intro exI [of _ "r\<lparr>br_prevRune := -1, br_i := int (length (br_s r))\<rparr>"] exI [of _ w'])
      (simp add: br_WriteTo_def br_ok_def, simp add: br_rest_def)
qed

end

lemma br_ReadAt_segment:
  assumes "0 \<le> off"
  shows "br_ReadAt r b off =
    (let t = take (length b) (drop (nat off) (br_s r)) in
     Inr (r, t @ drop (length t) b, int (length t),
       if nat off \<ge> length (br_s r) \<or> length t < length b then Some EOF else None))"
proof (cases "nat off < length (br_s r)")
  case True
  then have "off < int (length (br_s r))" using assms by (simp add: nat_less_iff)
  moreover have "go_from (br_s r) off = Inr (drop (nat off) (br_s r))"
    using go_from_ok [of "nat off" "br_s r"] True assms by simp
  ultimately show ?thesis using assms True by (auto simp: br_ReadAt_def Let_def min_def)
next
  case False
  then have "\<not> off < int (length (br_s r))" "length (br_s r) \<le> nat off" using assms by (simp_all add: nat_less_iff)
  then show ?thesis using assms by (simp add: br_ReadAt_def Let_def)
qed

text \<open>What a reader returns for one byte and for one rune, and that the Unread methods take it back.\<close>

definition unreads :: "('r \<Rightarrow> bytes) \<Rightarrow> 'r \<Rightarrow> 'r \<times> io_error option \<Rightarrow> bool" where
  "unreads rest r u \<longleftrightarrow> (case u of (r', err) \<Rightarrow> err = None \<and> rest r' = rest r)"

lemma br_ReadByte_Unread:
  assumes "br_ok r" "br_rest r \<noteq> []"
  shows "\<exists>r'. br_ReadByte r = Inr (r', hd (br_rest r), None) \<and> br_rest r' = tl (br_rest r)
    \<and> unreads br_rest r (br_UnreadByte r')"
  using assms(1)
proof (cases rule: br_restE)
  case (inside i)
  have "wrap64 (int i + 1) = int (Suc i)" using assms(1) inside by (subst wrap64_id) (auto simp: br_ok_def)
  then show ?thesis using inside
    by (simp add: br_ReadByte_def br_UnreadByte_def br_rest_def go_index_def hd_drop_conv_nth drop_Suc tl_drop
        unreads_def Let_def nat_add_distrib)
qed (use assms in simp)

lemma br_ReadRune_Unread:
  assumes "br_ok r" "br_rest r \<noteq> []"
  shows "\<exists>r'. br_ReadRune r = Inr (r', fst (DecodeRune (br_rest r)), int (snd (DecodeRune (br_rest r))), None)
    \<and> br_rest r' = drop (snd (DecodeRune (br_rest r))) (br_rest r)
    \<and> unreads br_rest r (br_UnreadRune r')"
  using assms(1)
proof (cases rule: br_restE)
  case (inside i)
  let ?d = "DecodeRune (br_rest r)"
  have sz: "snd ?d \<le> length (br_rest r)" "0 < snd ?d"
    using DecodeRune_size(1,2) [of "br_rest r"] assms(2) by auto
  then have n: "i + snd ?d \<le> length (br_s r)" using inside by simp
  have w: "wrap64 (int i + int (snd ?d)) = int (i + snd ?d)"
    using assms(1) inside n by (subst wrap64_id) (auto simp: br_ok_def)
  have read: "br_ReadRune r = Inr (r\<lparr>br_prevRune := int i, br_i := int (i + snd ?d)\<rparr>, fst ?d, int (snd ?d), None)"
  proof (cases "br_s r ! i < RuneSelf")
    case True
    have "br_rest r = br_s r ! i # drop (Suc i) (br_s r)" using inside by (simp add: Cons_nth_drop_Suc)
    then have "?d = (ucast (br_s r ! i), 1)" using DecodeRune_ascii [of "br_rest r"] lead_info_ascii [OF True] by simp
    then show ?thesis using True inside w by (simp add: br_ReadRune_def go_index_def Let_def)
  next
    case False
    then show ?thesis using inside w
      by (simp add: br_ReadRune_def go_index_def Let_def case_prod_beta del: RuneSelf_def)
  qed
  show ?thesis unfolding read
    using sz inside
    by (simp add: br_UnreadRune_def br_rest_def unreads_def nat_add_distrib add.commute)
qed (use assms in simp)

end
