(* ===== verification/StringsReader.thy ===== *)
theory StringsReader
  imports BytesReader
begin

text \<open>
  \<open>strings.Reader\<close> (\<open>strings/reader.go\<close>) and \<open>strings.Builder\<close> (\<open>strings/builder.go\<close>).
\<close>

record StringsReader =
  sr_s :: bytes
  sr_i :: int
  sr_prevRune :: int

definition sr_NewReader :: "bytes \<Rightarrow> StringsReader" where
  "sr_NewReader b = \<lparr>sr_s = b, sr_i = 0, sr_prevRune = -1\<rparr>"

definition sr_Reset :: "StringsReader \<Rightarrow> bytes \<Rightarrow> StringsReader" where
  "sr_Reset r b = \<lparr>sr_s = b, sr_i = 0, sr_prevRune = -1\<rparr>"

definition sr_Len :: "StringsReader \<Rightarrow> int" where
  "sr_Len r = (if sr_i r \<ge> int (length (sr_s r)) then 0 else wrap64 (int (length (sr_s r)) - sr_i r))"

definition sr_Size :: "StringsReader \<Rightarrow> int" where
  "sr_Size r = int (length (sr_s r))"

definition sr_Read :: "StringsReader reader" where
  "sr_Read r b =
     (if sr_i r \<ge> int (length (sr_s r)) then Inr (r, b, 0, Some EOF)
      else go_bind (go_from (sr_s r) (sr_i r)) (\<lambda>t.
        let n = min (length b) (length t) in
        Inr (r\<lparr>sr_prevRune := -1, sr_i := wrap64 (sr_i r + int n)\<rparr>, take n t @ drop n b, int n, None)))"

definition sr_ReadAt :: "StringsReader reader_at" where
  "sr_ReadAt r b off =
     (if off < 0 then Inr (r, b, 0, Some (NewError ''strings.Reader.ReadAt: negative offset''))
      else if off \<ge> int (length (sr_s r)) then Inr (r, b, 0, Some EOF)
      else go_bind (go_from (sr_s r) off) (\<lambda>t.
        let n = min (length b) (length t) in
        Inr (r, take n t @ drop n b, int n, if n < length b then Some EOF else None)))"

definition sr_ReadByte :: "StringsReader \<Rightarrow> (StringsReader \<times> byte \<times> io_error option) go" where
  "sr_ReadByte r =
     (let r = r\<lparr>sr_prevRune := -1\<rparr> in
      if sr_i r \<ge> int (length (sr_s r)) then Inr (r, 0, Some EOF)
      else go_bind (go_index (sr_s r) (sr_i r)) (\<lambda>b. Inr (r\<lparr>sr_i := wrap64 (sr_i r + 1)\<rparr>, b, None)))"

definition sr_UnreadByte :: "StringsReader \<Rightarrow> StringsReader \<times> io_error option" where
  "sr_UnreadByte r =
     (if sr_i r \<le> 0 then (r, Some (NewError ''strings.Reader.UnreadByte: at beginning of string''))
      else (r\<lparr>sr_prevRune := -1, sr_i := sr_i r - 1\<rparr>, None))"

definition sr_ReadRune :: "StringsReader \<Rightarrow> (StringsReader \<times> rune \<times> int \<times> io_error option) go" where
  "sr_ReadRune r =
     (if sr_i r \<ge> int (length (sr_s r)) then Inr (r\<lparr>sr_prevRune := -1\<rparr>, 0, 0, Some EOF)
      else
        let r = r\<lparr>sr_prevRune := sr_i r\<rparr> in
        go_bind (go_index (sr_s r) (sr_i r)) (\<lambda>c.
          if c < RuneSelf then Inr (r\<lparr>sr_i := wrap64 (sr_i r + 1)\<rparr>, ucast c, 1, None)
          else go_bind (go_from (sr_s r) (sr_i r)) (\<lambda>t.
            case DecodeRuneInString t of (ch, n) \<Rightarrow> Inr (r\<lparr>sr_i := wrap64 (sr_i r + int n)\<rparr>, ch, int n, None))))"

definition sr_UnreadRune :: "StringsReader \<Rightarrow> StringsReader \<times> io_error option" where
  "sr_UnreadRune r =
     (if sr_i r \<le> 0 then (r, Some (NewError ''strings.Reader.UnreadRune: at beginning of string''))
      else if sr_prevRune r < 0
      then (r, Some (NewError ''strings.Reader.UnreadRune: previous operation was not ReadRune''))
      else (r\<lparr>sr_i := sr_prevRune r, sr_prevRune := -1\<rparr>, None))"

definition sr_Seek :: "StringsReader \<Rightarrow> int \<Rightarrow> int \<Rightarrow> StringsReader \<times> int \<times> io_error option" where
  "sr_Seek r offset whence =
     (let r = r\<lparr>sr_prevRune := -1\<rparr> in
      if whence \<notin> {SeekStart, SeekCurrent, SeekEnd}
      then (r, 0, Some (NewError ''strings.Reader.Seek: invalid whence''))
      else
        let abs = (if whence = SeekStart then offset
                   else if whence = SeekCurrent then wrap64 (sr_i r + offset)
                   else wrap64 (int (length (sr_s r)) + offset)) in
        if abs < 0 then (r, 0, Some (NewError ''strings.Reader.Seek: negative position''))
        else (r\<lparr>sr_i := abs\<rparr>, abs, None))"

definition sr_WriteTo :: "'w writer \<Rightarrow> 'w writer option \<Rightarrow> StringsReader \<Rightarrow> 'w \<Rightarrow> (StringsReader \<times> 'w \<times> int \<times> io_error option) go" where
  "sr_WriteTo wr sw r w =
     (let r = r\<lparr>sr_prevRune := -1\<rparr> in
      if sr_i r \<ge> int (length (sr_s r)) then Inr (r, w, 0, None)
      else go_bind (go_from (sr_s r) (sr_i r)) (\<lambda>b. go_bind (io_WriteString wr sw w b) (\<lambda>(w, m, err).
        if m > int (length b) then Inl (PanicValue ''strings.Reader.WriteTo: invalid WriteString count'')
        else Inr (r\<lparr>sr_i := wrap64 (sr_i r + m)\<rparr>, w, m,
               if m \<noteq> int (length b) \<and> err = None then Some ErrShortWrite else err))))"


section \<open>The reader of a string behaves like the reader of a slice\<close>

definition sr_of :: "BytesReader \<Rightarrow> StringsReader" where
  "sr_of r = \<lparr>sr_s = br_s r, sr_i = br_i r, sr_prevRune = br_prevRune r\<rparr>"

definition br_of :: "StringsReader \<Rightarrow> BytesReader" where
  "br_of r = \<lparr>br_s = sr_s r, br_i = sr_i r, br_prevRune = sr_prevRune r\<rparr>"

lemma sr_of_br_of [simp]: "sr_of (br_of r) = r" by (simp add: sr_of_def br_of_def)

lemma br_of_sel [simp]: "br_s (br_of r) = sr_s r" "br_i (br_of r) = sr_i r" "br_prevRune (br_of r) = sr_prevRune r"
  by (simp_all add: br_of_def)

definition sr_result :: "(BytesReader \<times> 'a) go \<Rightarrow> (StringsReader \<times> 'a) go" where
  "sr_result m = go_bind m (\<lambda>(r, x). Inr (sr_of r, x))"

lemma sr_result_simps [simp]:
  "sr_result (Inl e) = Inl e" "sr_result (Inr (r, x)) = Inr (sr_of r, x)"
  "sr_result (go_bind m f) = go_bind m (\<lambda>x. sr_result (f x))"
  "sr_result (if c then m1 else m2) = (if c then sr_result m1 else sr_result m2)"
  by (cases m; simp add: sr_result_def)+

lemma sr_of_update [simp]:
  "sr_of (br_of r\<lparr>br_i := i\<rparr>) = r\<lparr>sr_i := i\<rparr>"
  "sr_of (br_of r\<lparr>br_prevRune := k\<rparr>) = r\<lparr>sr_prevRune := k\<rparr>"
  "sr_of (br_of r\<lparr>br_prevRune := k, br_i := i\<rparr>) = r\<lparr>sr_prevRune := k, sr_i := i\<rparr>"
  "sr_of (br_of r\<lparr>br_i := i, br_prevRune := k\<rparr>) = r\<lparr>sr_i := i, sr_prevRune := k\<rparr>"
  by (simp_all add: sr_of_def br_of_def)

lemma sr_Read_sim: "sr_Read r b = sr_result (br_Read (br_of r) b)"
  by (simp add: sr_Read_def br_Read_def Let_def)

lemma sr_ReadAt_sim: "0 \<le> off \<Longrightarrow> sr_ReadAt r b off = sr_result (br_ReadAt (br_of r) b off)"
  by (simp add: sr_ReadAt_def br_ReadAt_def Let_def)

lemma sr_ReadByte_sim: "sr_ReadByte r = sr_result (br_ReadByte (br_of r))"
  by (simp add: sr_ReadByte_def br_ReadByte_def Let_def cong: if_cong)

lemma sr_ReadRune_sim: "sr_ReadRune r = sr_result (br_ReadRune (br_of r))"
  by (simp add: sr_ReadRune_def br_ReadRune_def Let_def case_prod_beta string_versions cong: if_cong)

lemma sr_Unread_sim: "fst (sr_UnreadByte r) = sr_of (fst (br_UnreadByte (br_of r)))"
  "fst (sr_UnreadRune r) = sr_of (fst (br_UnreadRune (br_of r)))"
  by (simp_all add: sr_UnreadByte_def br_UnreadByte_def sr_UnreadRune_def br_UnreadRune_def)

lemma sr_Seek_sim: "fst (sr_Seek r off whence) = sr_of (fst (br_Seek (br_of r) off whence))"
  "fst (snd (sr_Seek r off whence)) = fst (snd (br_Seek (br_of r) off whence))"
  by (simp_all add: sr_Seek_def br_Seek_def Let_def)

lemma sr_Len_sim: "sr_Len r = br_Len (br_of r)"
  by (simp add: sr_Len_def br_Len_def)

lemmas sr_sims = sr_Read_sim sr_ReadByte_sim sr_ReadRune_sim sr_Unread_sim sr_Seek_sim sr_Len_sim

section \<open>The stream of a reader\<close>

definition sr_rest :: "StringsReader \<Rightarrow> bytes" where
  "sr_rest r = br_rest (br_of r)"

definition sr_ok :: "StringsReader \<Rightarrow> bool" where
  "sr_ok r \<longleftrightarrow> br_ok (br_of r)"

lemma br_of_sr_of [simp]: "br_of (sr_of r) = r" by (simp add: sr_of_def br_of_def)

interpretation sr: stream_reader sr_Read sr_rest sr_ok
proof
  fix r and p :: bytes
  assume "sr_ok r"
  then have "br_ok (br_of r)" by (simp add: sr_ok_def)
  from br.delivers [OF this, of p] show "delivers sr_Read sr_rest sr_ok r p"
  proof (rule deliversE)
    fix r' k e
    assume "br_Read (br_of r) p = Inr (r', take k (br_rest (br_of r)) @ drop k p, int k, e)" "br_ok r'" "k \<le> length p"
      "k \<le> length (br_rest (br_of r))" "br_rest r' = drop k (br_rest (br_of r))"
      "e = None \<and> (p = [] \<or> 0 < k) \<or> e = Some EOF \<and> k = length (br_rest (br_of r))"
    then show ?thesis
      by (intro deliversI [where r' = "sr_of r'" and k = k and e = e]) (simp_all add: sr_Read_sim sr_rest_def sr_ok_def)
  qed
qed

end
