(* ===== verification/Slice.thy ===== *)
theory Slice
  imports Io
begin

text \<open>
  A byte slice with the part of its backing array it can grow into: \<open>elems\<close> are its elements and
  \<open>spare\<close> the bytes of the array between length and capacity, which reslicing exposes again.  Used
  for the components that write into their own slice (\<open>bytes.Buffer\<close>, \<open>strings.Builder\<close>).
\<close>

record slice =
  elems :: bytes
  spare :: bytes
  is_nil :: bool

definition nil_slice :: slice where
  "nil_slice = \<lparr>elems = [], spare = [], is_nil = True\<rparr>"

definition slice_of :: "bytes \<Rightarrow> bytes \<Rightarrow> slice" where
  "slice_of xs extra = \<lparr>elems = xs, spare = extra, is_nil = False\<rparr>"

abbreviation slen :: "slice \<Rightarrow> int" where "slen s \<equiv> int (length (elems s))"

definition scap :: "slice \<Rightarrow> int" where
  "scap s = int (length (elems s) + length (spare s))"

text \<open>\<open>s[:j]\<close>, allowed up to the capacity.\<close>

definition resize :: "slice \<Rightarrow> int \<Rightarrow> slice go" where
  "resize s j =
     (if 0 \<le> j \<and> j \<le> scap s
      then Inr (s\<lparr>elems := take (nat j) (elems s @ spare s), spare := drop (nat j) (elems s @ spare s)\<rparr>)
      else Inl SliceOutOfRange)"

text \<open>The bytes of \<open>s[i:j]\<close>, allowed up to the capacity.\<close>

definition window :: "slice \<Rightarrow> int \<Rightarrow> int \<Rightarrow> bytes go" where
  "window s i j =
     (if 0 \<le> i \<and> i \<le> j \<and> j \<le> scap s then Inr (seg (nat i) (nat j) (elems s @ spare s)) else Inl SliceOutOfRange)"

text \<open>The slice after bytes have been stored in its array from index \<open>i\<close> on.\<close>

definition store :: "slice \<Rightarrow> nat \<Rightarrow> bytes \<Rightarrow> slice" where
  "store s i xs =
     (let all = take i (elems s @ spare s) @ xs @ drop (i + length xs) (elems s @ spare s) in
      s\<lparr>elems := take (length (elems s)) all, spare := drop (length (elems s)) all\<rparr>)"

text \<open>\<open>copy(s[i:], xs)\<close> and the number of bytes copied.\<close>

definition copy_at :: "slice \<Rightarrow> int \<Rightarrow> bytes \<Rightarrow> (slice \<times> int) go" where
  "copy_at s i xs =
     (if 0 \<le> i \<and> i \<le> slen s
      then let n = min (length (elems s) - nat i) (length xs) in Inr (store s (nat i) (take n xs), int n)
      else Inl SliceOutOfRange)"

text \<open>
  \<open>append(s, xs...)\<close>.  The capacity that the runtime chooses when the array is full is
  \<open>newcap old needed\<close>, at least \<open>needed\<close>.
\<close>

definition append_to :: "(nat \<Rightarrow> nat \<Rightarrow> nat) \<Rightarrow> slice \<Rightarrow> bytes \<Rightarrow> slice" where
  "append_to newcap s xs =
     (let need = length (elems s) + length xs in
      if length xs \<le> length (spare s)
      then \<lparr>elems = elems s @ xs, spare = drop (length xs) (spare s), is_nil = is_nil s \<and> xs = []\<rparr>
      else \<lparr>elems = elems s @ xs, spare = replicate (newcap (length (elems s) + length (spare s)) need - need) 0, is_nil = False\<rparr>)"

lemma elems_append_to [simp]: "elems (append_to newcap s xs) = elems s @ xs"
  by (simp add: append_to_def Let_def)

lemma resize_ok:
  "j \<le> length (elems s) + length (spare s) \<Longrightarrow> resize s (int j) =
    Inr (s\<lparr>elems := take j (elems s @ spare s), spare := drop j (elems s @ spare s)\<rparr>)"
  by (simp add: resize_def scap_def)

lemma window_ok:
  "i \<le> j \<Longrightarrow> j \<le> length (elems s) + length (spare s) \<Longrightarrow>
    window s (int i) (int j) = Inr (seg i j (elems s @ spare s))"
  by (simp add: window_def scap_def)

lemma copy_at_end:
  "i + length xs = length (elems s) \<Longrightarrow> copy_at s (int i) xs = Inr (s\<lparr>elems := take i (elems s) @ xs\<rparr>, int (length xs))"
  by (simp add: copy_at_def store_def Let_def)

end
