(* ===== verification/StringsBuilder.thy ===== *)
theory StringsBuilder
  imports Slice IoLaws Utf8Seq
begin

text \<open>
  \<open>strings.Builder\<close> (\<open>strings/builder.go\<close>).  \<open>self\<close> is the address of the receiver, which \<open>copyCheck\<close>
  compares with the address recorded at the first write; \<open>make\<close> and \<open>append\<close> always find memory.
\<close>

record Builder =
  sb_addr :: "nat option"
  sb_buf :: slice

definition new_Builder :: Builder where
  "new_Builder = \<lparr>sb_addr = None, sb_buf = nil_slice\<rparr>"

definition copyCheck :: "nat \<Rightarrow> Builder \<Rightarrow> Builder go" where
  "copyCheck self b =
     (case sb_addr b of None \<Rightarrow> Inr (b\<lparr>sb_addr := Some self\<rparr>)
      | Some a \<Rightarrow> if a \<noteq> self
          then Inl (PanicValue ''strings: illegal use of non-zero Builder copied by value'') else Inr b)"

definition sb_String :: "Builder \<Rightarrow> bytes" where
  "sb_String b = elems (sb_buf b)"

definition sb_Len :: "Builder \<Rightarrow> int" where
  "sb_Len b = slen (sb_buf b)"

definition sb_Cap :: "Builder \<Rightarrow> int" where
  "sb_Cap b = scap (sb_buf b)"

definition sb_Reset :: "Builder \<Rightarrow> Builder" where
  "sb_Reset b = \<lparr>sb_addr = None, sb_buf = nil_slice\<rparr>"

definition sb_grow :: "Builder \<Rightarrow> nat \<Rightarrow> Builder" where
  "sb_grow b n =
     (let c = nat (2 * scap (sb_buf b)) + n; l = length (elems (sb_buf b)) in
      b\<lparr>sb_buf := slice_of (elems (sb_buf b)) (replicate (c - l) 0)\<rparr>)"

definition sb_Grow :: "nat \<Rightarrow> Builder \<Rightarrow> int \<Rightarrow> Builder go" where
  "sb_Grow self b n =
     go_bind (copyCheck self b) (\<lambda>b.
       if n < 0 then Inl (PanicValue ''strings.Builder.Grow: negative count'')
       else if scap (sb_buf b) - slen (sb_buf b) < n then Inr (sb_grow b (nat n)) else Inr b)"

definition sb_Write :: "(nat \<Rightarrow> nat \<Rightarrow> nat) \<Rightarrow> nat \<Rightarrow> Builder writer" where
  "sb_Write newcap self b p =
     go_bind (copyCheck self b) (\<lambda>b.
       Inr (b\<lparr>sb_buf := append_to newcap (sb_buf b) p\<rparr>, int (length p), None))"

definition sb_WriteByte :: "(nat \<Rightarrow> nat \<Rightarrow> nat) \<Rightarrow> nat \<Rightarrow> Builder \<Rightarrow> byte \<Rightarrow> Builder go" where
  "sb_WriteByte newcap self b c =
     go_bind (copyCheck self b) (\<lambda>b. Inr (b\<lparr>sb_buf := append_to newcap (sb_buf b) [c]\<rparr>))"

definition sb_WriteRune :: "(nat \<Rightarrow> nat \<Rightarrow> nat) \<Rightarrow> nat \<Rightarrow> Builder \<Rightarrow> rune \<Rightarrow> (Builder \<times> int) go" where
  "sb_WriteRune newcap self b r =
     go_bind (copyCheck self b) (\<lambda>b.
       if r <s ucast RuneSelf then Inr (b\<lparr>sb_buf := append_to newcap (sb_buf b) [ucast r]\<rparr>, 1)
       else
         let l = slen (sb_buf b);
             b = (if scap (sb_buf b) - l < int UTFMax then sb_grow b UTFMax else b) in
         go_bind (window (sb_buf b) l (l + int UTFMax)) (\<lambda>w.
         go_bind (EncodeRune w r) (\<lambda>(w', n).
         go_bind (resize (store (sb_buf b) (nat l) w') (l + int n)) (\<lambda>s.
           Inr (b\<lparr>sb_buf := s\<rparr>, int n)))))"

definition sb_WriteString :: "(nat \<Rightarrow> nat \<Rightarrow> nat) \<Rightarrow> nat \<Rightarrow> Builder writer" where
  "sb_WriteString newcap self b s =
     go_bind (copyCheck self b) (\<lambda>b.
       Inr (b\<lparr>sb_buf := append_to newcap (sb_buf b) s\<rparr>, int (length s), None))"

section \<open>A builder accumulates what is written to it\<close>

definition owned :: "nat \<Rightarrow> Builder \<Rightarrow> bool" where
  "owned self b \<longleftrightarrow> sb_addr b \<in> {None, Some self}"

lemma copyCheck_owned: "owned self b \<Longrightarrow> copyCheck self b = Inr (b\<lparr>sb_addr := Some self\<rparr>)"
  by (auto simp: owned_def copyCheck_def)

interpretation sb: stream_writer "sb_Write newcap self" sb_String "\<lambda>b n. owned self b" for newcap self
proof
  fix b n and p :: bytes
  assume "owned self b"
  then have "sb_Write newcap self b p
      = Inr (b\<lparr>sb_addr := Some self, sb_buf := append_to newcap (sb_buf b) p\<rparr>, int (length p), None)"
    by (simp add: sb_Write_def copyCheck_owned)
  then show "accepts (sb_Write newcap self) sb_String (\<lambda>b n. owned self b) b p n"
    unfolding accepts_def
    by (intro exI [of _ "b\<lparr>sb_addr := Some self, sb_buf := append_to newcap (sb_buf b) p\<rparr>"])
      (simp add: sb_String_def owned_def)
qed

end
