(* ===== verification/Bytealg.thy ===== *)
theory Bytealg
  imports Prelude
begin

text \<open>
  Package \<open>internal/bytealg\<close>: the portable routines (\<open>*_generic.go\<close>) and the per-architecture
  constants.  On amd64, arm64 and s390x \<open>Index\<close> and \<open>IndexString\<close> are assembly: they are fields of the
  record \<open>bytealg_ops\<close>, and the contract that \<open>index_native.go\<close> documents for them is the locale
  \<open>bytealg\<close>.  Where no assembly exists the package keeps \<open>MaxLen = 0\<close> and both panic.
\<close>

section \<open>Comparison, counting, searching for a byte\<close>

function cmp_loop :: "bytes \<Rightarrow> bytes \<Rightarrow> nat \<Rightarrow> nat \<Rightarrow> int option" where
  "cmp_loop a b l i =
     (if i < l then
        let c1 = a ! i; c2 = b ! i in
        if c1 < c2 then Some (-1)
        else if c1 > c2 then Some 1
        else cmp_loop a b l (i + 1)
      else None)"
  by pat_completeness auto
termination
  by (relation "measure (\<lambda>(a, b, l, i). l - i)") auto

declare cmp_loop.simps [simp del]
lemmas cmp_loop_simps [loop_unfold] = cmp_loop.simps

text \<open>\<open>same\<close> is the pointer test \<open>&a[0] == &b[0]\<close>, which skips the comparison of the bytes.\<close>

definition bytealg_Compare :: "bool \<Rightarrow> bytes \<Rightarrow> bytes \<Rightarrow> int" where
  "bytealg_Compare same a b =
     (let l = length a; l = (if length b < l then length b else l);
          samebytes = (if length a < length b then -1 else if length a > length b then 1 else 0) in
      if l = 0 \<or> same then samebytes
      else case cmp_loop a b l 0 of Some r \<Rightarrow> r | None \<Rightarrow> samebytes)"

definition runtime_cmpstring :: "bytes \<Rightarrow> bytes \<Rightarrow> int" where
  "runtime_cmpstring a b =
     (let l = length a; l = (if length b < l then length b else l) in
      case cmp_loop a b l 0 of
        Some r \<Rightarrow> r
      | None \<Rightarrow> if length a < length b then -1 else if length a > length b then 1 else 0)"

definition bytealg_Equal :: "bytes \<Rightarrow> bytes \<Rightarrow> bool" where
  "bytealg_Equal a b \<longleftrightarrow> a = b"

definition bytealg_Count :: "bytes \<Rightarrow> byte \<Rightarrow> nat" where
  "bytealg_Count b c = foldl (\<lambda>n x. if x = c then n + 1 else n) 0 b"

definition bytealg_CountString :: "bytes \<Rightarrow> byte \<Rightarrow> nat" where
  "bytealg_CountString s c = foldl (\<lambda>n i. if s ! i = c then n + 1 else n) 0 [0..<length s]"

fun indexbyte_loop :: "bytes \<Rightarrow> byte \<Rightarrow> int \<Rightarrow> int" where
  "indexbyte_loop [] c i = -1"
| "indexbyte_loop (x # b) c i = (if x = c then i else indexbyte_loop b c (i + 1))"

definition bytealg_IndexByte :: "bytes \<Rightarrow> byte \<Rightarrow> int" where
  "bytealg_IndexByte b c = indexbyte_loop b c 0"

function indexbytestring_loop :: "bytes \<Rightarrow> byte \<Rightarrow> nat \<Rightarrow> int" where
  "indexbytestring_loop s c i =
     (if i < length s then
        if s ! i = c then int i else indexbytestring_loop s c (i + 1)
      else -1)"
  by pat_completeness auto
termination
  by (relation "measure (\<lambda>(s, c, i). length s - i)") auto

declare indexbytestring_loop.simps [simp del]
lemmas indexbytestring_loop_simps [loop_unfold] = indexbytestring_loop.simps

definition bytealg_IndexByteString :: "bytes \<Rightarrow> byte \<Rightarrow> int" where
  "bytealg_IndexByteString s c = indexbytestring_loop s c 0"


section \<open>The architecture's substring search\<close>

record bytealg_ops =
  MaxLen :: nat
  MaxBruteForce :: nat
  Cutover :: "nat \<Rightarrow> nat go"
  IndexBytes :: "bytes \<Rightarrow> bytes \<Rightarrow> int go"
  IndexString :: "bytes \<Rightarrow> bytes \<Rightarrow> int go"

text \<open>\<open>index_generic.go\<close>: nothing is implemented, and \<open>MaxLen\<close> keeps its zero value.\<close>

definition generic_ops :: bytealg_ops where
  "generic_ops = \<lparr>MaxLen = 0, MaxBruteForce = 0,
     Cutover = (\<lambda>n. Inl (PanicValue ''unimplemented'')),
     IndexBytes = (\<lambda>a b. Inl (PanicValue ''unimplemented'')),
     IndexString = (\<lambda>a b. Inl (PanicValue ''unimplemented''))\<rparr>"

text \<open>The Go side of the three native ports; the assembly entry points are arguments.\<close>

definition amd64_ops :: "bool \<Rightarrow> (bytes \<Rightarrow> bytes \<Rightarrow> int go) \<Rightarrow> (bytes \<Rightarrow> bytes \<Rightarrow> int go) \<Rightarrow> bytealg_ops" where
  "amd64_ops hasAVX2 indexAsm indexStringAsm =
     \<lparr>MaxLen = (if hasAVX2 then 63 else 31), MaxBruteForce = 64,
      Cutover = (\<lambda>n. Inr ((n + 16) div 8)),
      IndexBytes = indexAsm, IndexString = indexStringAsm\<rparr>"

definition arm64_ops :: "(bytes \<Rightarrow> bytes \<Rightarrow> int go) \<Rightarrow> (bytes \<Rightarrow> bytes \<Rightarrow> int go) \<Rightarrow> bytealg_ops" where
  "arm64_ops indexAsm indexStringAsm =
     \<lparr>MaxLen = 32, MaxBruteForce = 16, Cutover = (\<lambda>n. Inr (4 + n div 16)),
      IndexBytes = indexAsm, IndexString = indexStringAsm\<rparr>"

definition s390x_ops :: "bool \<Rightarrow> (bytes \<Rightarrow> bytes \<Rightarrow> int go) \<Rightarrow> (bytes \<Rightarrow> bytes \<Rightarrow> int go) \<Rightarrow> bytealg_ops" where
  "s390x_ops hasVX indexAsm indexStringAsm =
     \<lparr>MaxLen = (if hasVX then 64 else 0), MaxBruteForce = 64,
      Cutover = (\<lambda>n. Inr ((n + 16) div 8)),
      IndexBytes = indexAsm, IndexString = indexStringAsm\<rparr>"

definition finds_first :: "nat \<Rightarrow> (bytes \<Rightarrow> bytes \<Rightarrow> int go) \<Rightarrow> bool" where
  "finds_first maxLen index \<longleftrightarrow>
     (\<forall>a b. 2 \<le> length b \<longrightarrow> length b \<le> maxLen \<longrightarrow> (\<exists>r. index a b = Inr r \<and> is_first_index a b r))"

text \<open>
  The contract of the package: within \<open>2 \<le> len(b) \<le> MaxLen\<close> the two index functions return the first
  occurrence, and \<open>Cutover\<close> does not panic if any such length exists.
\<close>

locale bytealg =
  fixes ops :: bytealg_ops
  assumes index_bytes: "finds_first (MaxLen ops) (IndexBytes ops)"
    and index_string: "finds_first (MaxLen ops) (IndexString ops)"
    and cutover: "2 \<le> MaxLen ops \<Longrightarrow> \<exists>k. Cutover ops n = Inr k"
begin

lemma index_bytes_first:
  "2 \<le> length b \<Longrightarrow> length b \<le> MaxLen ops \<Longrightarrow> \<exists>r. IndexBytes ops a b = Inr r \<and> is_first_index a b r"
  using index_bytes by (auto simp: finds_first_def)

lemma index_string_first:
  "2 \<le> length b \<Longrightarrow> length b \<le> MaxLen ops \<Longrightarrow> \<exists>r. IndexString ops a b = Inr r \<and> is_first_index a b r"
  using index_string by (auto simp: finds_first_def)

end

interpretation generic: bytealg generic_ops
  by unfold_locales (auto simp: generic_ops_def finds_first_def)

text \<open>A direct search, the specification the assembly implements.\<close>

function index_spec_loop :: "bytes \<Rightarrow> bytes \<Rightarrow> nat \<Rightarrow> int" where
  "index_spec_loop a b i =
     (if i + length b \<le> length a then
        if seg i (i + length b) a = b then int i else index_spec_loop a b (i + 1)
      else -1)"
  by pat_completeness auto
termination
  by (relation "measure (\<lambda>(a, b, i). Suc (length a) - i)") auto

declare index_spec_loop.simps [simp del]
lemmas index_spec_loop_simps [loop_unfold] = index_spec_loop.simps

definition index_spec :: "bytes \<Rightarrow> bytes \<Rightarrow> int go" where
  "index_spec a b = Inr (index_spec_loop a b 0)"

lemma occurs_at_seg: "occurs_at s sub i \<longleftrightarrow> i + length sub \<le> length s \<and> seg i (i + length sub) s = sub"
  by (simp add: occurs_at_def seg_def)

lemma index_spec_loop_first:
  "(\<And>j. j < i \<Longrightarrow> \<not> occurs_at a b j) \<Longrightarrow> is_first_index a b (index_spec_loop a b i)"
proof (induction a b i rule: index_spec_loop.induct)
  case (1 a b i)
  show ?case
  proof (cases "occurs_at a b i")
    case True
    then have "index_spec_loop a b i = int i"
      by (subst index_spec_loop.simps) (simp add: occurs_at_seg)
    then show ?thesis using is_first_indexI [OF True] 1(2) by simp
  next
    case False
    show ?thesis
    proof (cases "i + length b \<le> length a")
      case le: True
      then have "index_spec_loop a b i = index_spec_loop a b (i + 1)"
        using False by (subst index_spec_loop.simps) (simp add: occurs_at_seg)
      moreover have "is_first_index a b (index_spec_loop a b (i + 1))"
      proof (rule 1(1) [OF le])
        show "seg i (i + length b) a \<noteq> b" using False le by (simp add: occurs_at_seg)
        show "\<not> occurs_at a b j" if "j < i + 1" for j
          using that False 1(2) by (cases "j = i") auto
      qed
      ultimately show ?thesis by simp
    next
      case nle: False
      have "\<not> occurs_at a b j" for j
        using 1(2) [of j] nle by (cases "j < i") (auto simp: occurs_at_def)
      then have "is_first_index a b (-1)" by (rule is_first_index_none)
      then show ?thesis using nle by (subst index_spec_loop.simps) simp
    qed
  qed
qed

lemma index_spec_finds: "finds_first n index_spec"
  using index_spec_loop_first by (simp add: finds_first_def index_spec_def)

interpretation amd64: bytealg "amd64_ops hasAVX2 index_spec index_spec" for hasAVX2
  by unfold_locales (simp_all add: amd64_ops_def index_spec_finds)

interpretation arm64: bytealg "arm64_ops index_spec index_spec"
  by unfold_locales (simp_all add: arm64_ops_def index_spec_finds)

interpretation s390x: bytealg "s390x_ops hasVX index_spec index_spec" for hasVX
  by unfold_locales (simp_all add: s390x_ops_def index_spec_finds)


section \<open>What the portable routines compute\<close>

lemma indexbytestring_loop_spec:
  assumes "\<forall>j < i. s ! j \<noteq> c" and "i \<le> length s"
  shows "is_first_index s [c] (indexbytestring_loop s c i)"
  using assms
proof (induction s c i rule: indexbytestring_loop.induct)
  case (1 s c i)
  have occ: "occurs_at s [c] j \<longleftrightarrow> j < length s \<and> s ! j = c" for j
    by (auto simp: occurs_at_nth)
  show ?case
  proof (cases "i < length s \<and> s ! i \<noteq> c")
    case True
    then have "indexbytestring_loop s c i = indexbytestring_loop s c (i + 1)"
      by (subst indexbytestring_loop.simps) simp
    then show ?thesis using 1 True by (simp add: less_Suc_eq)
  next
    case False
    then show ?thesis
      using 1(2,3) by (subst indexbytestring_loop.simps)
        (auto simp: is_first_index_def occ linorder_not_less)
  qed
qed

lemma IndexByteString_first: "is_first_index s [c] (bytealg_IndexByteString s c)"
  using indexbytestring_loop_spec [of 0 s c] by (simp add: bytealg_IndexByteString_def)

lemma indexbyte_loop_eq: "i \<le> length s \<Longrightarrow> indexbyte_loop (drop i s) c (int i) = indexbytestring_loop s c i"
proof (induction "length s - i" arbitrary: i)
  case 0
  then show ?case by (simp add: indexbytestring_loop.simps)
next
  case (Suc n)
  then have i: "i < length s" by linarith
  have "indexbyte_loop (drop (Suc i) s) c (int (Suc i)) = indexbytestring_loop s c (Suc i)"
    using Suc i by (intro Suc.hyps(1)) auto
  then show ?case using i
    by (subst indexbytestring_loop.simps, subst Cons_nth_drop_Suc [symmetric]) (simp_all add: add.commute)
qed

lemma IndexByte_eq: "bytealg_IndexByte s c = bytealg_IndexByteString s c"
  using indexbyte_loop_eq [of 0 s c] by (simp add: bytealg_IndexByte_def bytealg_IndexByteString_def)

lemma Count_filter: "bytealg_Count s c = length (filter (\<lambda>x. x = c) s)"
  and CountString_filter: "bytealg_CountString s c = length (filter (\<lambda>x. x = c) s)"
proof -
  have a: "foldl (\<lambda>n x. if x = c then n + 1 else n) k xs = k + length (filter (\<lambda>x. x = c) xs)" for k xs
    by (induction xs arbitrary: k) simp_all
  then show "bytealg_Count s c = length (filter (\<lambda>x. x = c) s)" by (simp add: bytealg_Count_def)
  have "foldl (\<lambda>n i. if s ! i = c then n + 1 else n) k is
      = foldl (\<lambda>n x. if x = c then n + 1 else n) k (map (\<lambda>i. s ! i) is)" for k :: nat and "is"
    by (induction "is" arbitrary: k) simp_all
  from this [of 0 "[0..<length s]"] show "bytealg_CountString s c = length (filter (\<lambda>x. x = c) s)"
    unfolding bytealg_CountString_def map_nth using a [of 0 s] by (simp only: add_0)
qed

lemma cmp_loop_spec:
  "cmp_loop a b l i = None \<longleftrightarrow> seg i l a = seg i l b"
  "cmp_loop a b l i = Some r \<Longrightarrow> r = -1 \<and> ord_class.lexordp (drop i a) (drop i b)
      \<or> r = 1 \<and> ord_class.lexordp (drop i b) (drop i a)"
  if "i \<le> l" "l \<le> length a" "l \<le> length b"
  using that
proof (induction a b l i rule: cmp_loop.induct)
  case (1 a b l i)
  {
    case 1
    show ?case
    proof (cases "i < l")
      case True
      have s: "seg i l x = x ! i # seg (Suc i) l x" if "l \<le> length x" for x :: bytes
        using True that seg_append_seg [of i "Suc i" l x] seg_Suc [of i i x] by simp
      show ?thesis
        using 1 True "1.IH"(1) [OF True refl refl] s [of a] s [of b]
        by (subst cmp_loop.simps) (auto simp: Let_def)
    qed (use 1 in \<open>simp add: cmp_loop.simps\<close>)
  next
    case 2
    show ?case
    proof (cases "i < l")
      case True
      have d: "drop i x = x ! i # drop (Suc i) x" if "l \<le> length x" for x :: bytes
        using True that by (simp add: Cons_nth_drop_Suc)
      have step: "cmp_loop a b l i = (if a ! i < b ! i then Some (-1) else if a ! i > b ! i then Some 1
          else cmp_loop a b l (i + 1))"
        using True by (subst cmp_loop.simps) (simp add: Let_def)
      show ?thesis
      proof (cases "a ! i < b ! i \<or> b ! i < a ! i")
        case neq: True
        then show ?thesis using 2(1) unfolding step d [OF 2(3)] d [OF 2(4)] by (auto split: if_splits)
      next
        case False
        then have "cmp_loop a b l (i + 1) = Some r" using 2(1) unfolding step by simp
        with False 2 True "1.IH"(2) [OF True refl refl]
        show ?thesis unfolding d [OF 2(3)] d [OF 2(4)] by simp
      qed
    qed (use 2 in \<open>simp add: cmp_loop.simps\<close>)
  }
qed

lemma lexordp_append_prefix:
  "ord_class.lexordp (q @ xs) (q @ ys) \<longleftrightarrow> ord_class.lexordp xs ys" for q :: "'a::linorder list"
  by (induction q) auto

lemma compare_by_prefix:
  fixes a b :: bytes
  assumes "take (min (length a) (length b)) a = take (min (length a) (length b)) b"
  shows "(if length a < length b then -1 else if length a > length b then 1 else 0) =
     (if ord_class.lexordp a b then -1 else if a = b then 0 else (1 :: int))"
proof (rule linorder_cases [of "length a" "length b"])
  assume lt: "length a < length b"
  then obtain t where "b = a @ t" "t \<noteq> []"
    using assms append_take_drop_id [of "length a" b] by (auto intro: that [of "drop (length a) b"])
  then show ?thesis using lexordp_append_prefix [of a "[]" t] by (cases t) auto
next
  assume lt: "length b < length a"
  then obtain t where t: "a = b @ t" "t \<noteq> []"
    using assms append_take_drop_id [of "length b" a] by (auto intro: that [of "drop (length b) a"])
  then have "\<not> ord_class.lexordp a b" using lexordp_append_prefix [of b t "[]"] by (cases t) auto
  with t show ?thesis by auto
next
  assume "length a = length b"
  then have "a = b" using assms by simp
  then show ?thesis using lexordp_append_prefix [of b "[]" "[]"] by simp
qed

lemma Compare_spec:
  assumes "same \<Longrightarrow> take (min (length a) (length b)) a = take (min (length a) (length b)) b"
  shows "bytealg_Compare same a b = (if ord_class.lexordp a b then -1 else if a = b then 0 else 1)"
proof -
  define l where "l = (if length b < length a then length b else length a)"
  have l: "l = min (length a) (length b)" by (simp add: l_def)
  have def: "bytealg_Compare same a b =
     (if l = 0 \<or> same then (if length a < length b then -1 else if length a > length b then 1 else 0)
      else case cmp_loop a b l 0 of Some r \<Rightarrow> r
       | None \<Rightarrow> if length a < length b then -1 else if length a > length b then 1 else 0)"
    by (simp add: bytealg_Compare_def Let_def l_def)
  have bounds: "0 \<le> l" "l \<le> length a" "l \<le> length b" by (auto simp: l)
  show ?thesis
  proof (cases "(l = 0 \<or> same) \<or> cmp_loop a b l 0 = None")
    case True
    then have "take l a = take l b"
      using assms cmp_loop_spec(1) [OF bounds] by (auto simp: l)
    then show ?thesis using True compare_by_prefix [of a b] unfolding def l by auto
  next
    case False
    then obtain r where r: "cmp_loop a b l 0 = Some r" by auto
    with cmp_loop_spec(2) [OF bounds r] False
    show ?thesis unfolding def using lexordp_antisym by auto
  qed
qed

lemma cmpstring_spec:
  "runtime_cmpstring a b = (if ord_class.lexordp a b then -1 else if a = b then 0 else 1)"
proof -
  have "runtime_cmpstring a b = bytealg_Compare False a b"
    by (cases "length a = 0 \<or> length b = 0")
       (auto simp: runtime_cmpstring_def bytealg_Compare_def Let_def cmp_loop.simps)
  then show ?thesis by (simp add: Compare_spec)
qed

end
