(* ===== verification/BytesBuffer.thy ===== *)
theory BytesBuffer
  imports Slice IoLaws Utf8Seq Bytealg
begin

text \<open>
  \<open>bytes.Buffer\<close> (\<open>bytes/buffer.go\<close>).  The slice \<open>buf\<close> keeps its backing array up to the capacity, so
  that growing by reslicing exposes the old bytes as the code does.  \<open>maxAlloc\<close> is the largest slice
  the runtime can allocate; a failed allocation is the panic \<open>ErrTooLarge\<close>.
\<close>

section \<open>State\<close>

definition smallBufferSize :: int where "smallBufferSize = 64"
definition MinRead :: int where "MinRead = 512"
definition maxInt :: int where "maxInt = uint (drop_bit 1 (NOT (0 :: u64)))"

record Buffer =
  bb_buf :: slice
  bb_off :: int
  bb_lastRead :: int

definition opRead :: int where "opRead = -1"
definition opInvalid :: int where "opInvalid = 0"
definition opReadRune1 :: int where "opReadRune1 = 1"

definition ErrTooLarge :: panic where "ErrTooLarge = PanicValue ''bytes.Buffer: too large''"
definition errNegativeRead :: panic where
  "errNegativeRead = PanicValue ''bytes.Buffer: reader returned negative count from Read''"
definition errUnreadByte :: io_error where
  "errUnreadByte = NewError ''bytes.Buffer: UnreadByte: previous operation was not a successful read''"
definition errUnreadRune :: io_error where
  "errUnreadRune = NewError ''bytes.Buffer: UnreadRune: previous operation was not a successful ReadRune''"

definition NewBuffer :: "slice \<Rightarrow> Buffer" where
  "NewBuffer buf = \<lparr>bb_buf = buf, bb_off = 0, bb_lastRead = opInvalid\<rparr>"

definition NewBufferString :: "bytes \<Rightarrow> Buffer" where
  "NewBufferString s = \<lparr>bb_buf = slice_of s [], bb_off = 0, bb_lastRead = opInvalid\<rparr>"

definition bb_Bytes :: "Buffer \<Rightarrow> bytes go" where
  "bb_Bytes b = go_from (elems (bb_buf b)) (bb_off b)"

text \<open>The receiver of \<open>String\<close> may be a nil pointer.\<close>

definition bb_String :: "Buffer option \<Rightarrow> bytes go" where
  "bb_String p = (case p of None \<Rightarrow> Inr (map of_char ''<nil>'') | Some b \<Rightarrow> go_from (elems (bb_buf b)) (bb_off b))"

definition bb_empty :: "Buffer \<Rightarrow> bool" where
  "bb_empty b \<longleftrightarrow> slen (bb_buf b) \<le> bb_off b"

definition bb_Len :: "Buffer \<Rightarrow> int" where
  "bb_Len b = slen (bb_buf b) - bb_off b"

definition bb_Cap :: "Buffer \<Rightarrow> int" where
  "bb_Cap b = scap (bb_buf b)"

definition set_len :: "Buffer \<Rightarrow> int \<Rightarrow> Buffer go" where
  "set_len b n = go_bind (resize (bb_buf b) n) (\<lambda>s. Inr (b\<lparr>bb_buf := s\<rparr>))"

definition bb_Reset :: "Buffer \<Rightarrow> Buffer" where
  "bb_Reset b = b\<lparr>bb_buf := (bb_buf b)\<lparr>elems := [], spare := elems (bb_buf b) @ spare (bb_buf b)\<rparr>,
                  bb_off := 0, bb_lastRead := opInvalid\<rparr>"

definition bb_Truncate :: "Buffer \<Rightarrow> int \<Rightarrow> Buffer go" where
  "bb_Truncate b n =
     (if n = 0 then Inr (bb_Reset b)
      else let b = b\<lparr>bb_lastRead := opInvalid\<rparr> in
        if n < 0 \<or> n > bb_Len b then Inl (PanicValue ''bytes.Buffer: truncation out of range'')
        else set_len b (bb_off b + n))"

section \<open>Growing\<close>

definition tryGrowByReslice :: "Buffer \<Rightarrow> int \<Rightarrow> (Buffer \<times> int \<times> bool) go" where
  "tryGrowByReslice b n =
     (let l = slen (bb_buf b) in
      if n \<le> scap (bb_buf b) - l then go_bind (set_len b (l + n)) (\<lambda>b. Inr (b, l, True))
      else Inr (b, 0, False))"

definition makeSlice :: "int \<Rightarrow> int \<Rightarrow> slice go" where
  "makeSlice maxAlloc n =
     (if 0 \<le> n \<and> n \<le> maxAlloc then Inr (slice_of (replicate (nat n) 0) []) else Inl ErrTooLarge)"

text \<open>The end of \<open>grow\<close>: \<open>b.off = 0; b.buf = b.buf[:m+n]; return m\<close>.\<close>

definition grow_finish :: "Buffer \<Rightarrow> int \<Rightarrow> int \<Rightarrow> (Buffer \<times> int) go" where
  "grow_finish b m n = go_bind (set_len (b\<lparr>bb_off := 0\<rparr>) (m + n)) (\<lambda>b. Inr (b, m))"

definition bb_grow :: "int \<Rightarrow> Buffer \<Rightarrow> int \<Rightarrow> (Buffer \<times> int) go" where
  "bb_grow maxAlloc b n =
     (let m = bb_Len b; b = (if m = 0 \<and> bb_off b \<noteq> 0 then bb_Reset b else b) in
      go_bind (tryGrowByReslice b n) (\<lambda>(b, i, ok).
        if ok then Inr (b, i)
        else if is_nil (bb_buf b) \<and> n \<le> smallBufferSize
        then Inr (b\<lparr>bb_buf := slice_of (replicate (nat n) 0) (replicate (nat (smallBufferSize - n)) 0)\<rparr>, 0)
        else
          let c = scap (bb_buf b) in
          if n \<le> c div 2 - m then
            go_bind (go_from (elems (bb_buf b)) (bb_off b)) (\<lambda>xs.
            go_bind (copy_at (bb_buf b) 0 xs) (\<lambda>(s, _). grow_finish (b\<lparr>bb_buf := s\<rparr>) m n))
          else if c > maxInt - c - n then Inl ErrTooLarge
          else
            go_bind (makeSlice maxAlloc (2 * c + n)) (\<lambda>buf.
            go_bind (go_from (elems (bb_buf b)) (bb_off b)) (\<lambda>xs.
            go_bind (copy_at buf 0 xs) (\<lambda>(s, _). grow_finish (b\<lparr>bb_buf := s\<rparr>) m n)))))"

definition bb_Grow :: "int \<Rightarrow> Buffer \<Rightarrow> int \<Rightarrow> Buffer go" where
  "bb_Grow maxAlloc b n =
     (if n < 0 then Inl (PanicValue ''bytes.Buffer.Grow: negative count'')
      else go_bind (bb_grow maxAlloc b n) (\<lambda>(b, m). set_len b m))"

text \<open>The common start of the writers: \<open>m, ok := b.tryGrowByReslice(n); if !ok { m = b.grow(n) }\<close>.\<close>

definition make_room :: "int \<Rightarrow> Buffer \<Rightarrow> int \<Rightarrow> (Buffer \<times> int) go" where
  "make_room maxAlloc b n =
     go_bind (tryGrowByReslice b n) (\<lambda>(b, m, ok). if ok then Inr (b, m) else bb_grow maxAlloc b n)"

section \<open>Writing\<close>

definition bb_Write :: "int \<Rightarrow> Buffer writer" where
  "bb_Write maxAlloc b p =
     go_bind (make_room maxAlloc (b\<lparr>bb_lastRead := opInvalid\<rparr>) (int (length p))) (\<lambda>(b, m).
     go_bind (copy_at (bb_buf b) m p) (\<lambda>(s, n). Inr (b\<lparr>bb_buf := s\<rparr>, n, None)))"

definition bb_WriteString :: "int \<Rightarrow> Buffer writer" where
  "bb_WriteString maxAlloc b s =
     go_bind (make_room maxAlloc (b\<lparr>bb_lastRead := opInvalid\<rparr>) (int (length s))) (\<lambda>(b, m).
     go_bind (copy_at (bb_buf b) m s) (\<lambda>(t, n). Inr (b\<lparr>bb_buf := t\<rparr>, n, None)))"

definition bb_WriteByte :: "int \<Rightarrow> Buffer \<Rightarrow> byte \<Rightarrow> (Buffer \<times> io_error option) go" where
  "bb_WriteByte maxAlloc b c =
     go_bind (make_room maxAlloc (b\<lparr>bb_lastRead := opInvalid\<rparr>) 1) (\<lambda>(b, m).
       if 0 \<le> m \<and> m < slen (bb_buf b)
       then Inr (b\<lparr>bb_buf := (bb_buf b)\<lparr>elems := (elems (bb_buf b))[nat m := c]\<rparr>\<rparr>, None)
       else Inl IndexOutOfRange)"

definition bb_WriteRune :: "int \<Rightarrow> Buffer \<Rightarrow> rune \<Rightarrow> (Buffer \<times> int \<times> io_error option) go" where
  "bb_WriteRune maxAlloc b r =
     (if r <s ucast RuneSelf
      then go_bind (bb_WriteByte maxAlloc b (ucast r)) (\<lambda>(b, _). Inr (b, 1, None))
      else
        go_bind (make_room maxAlloc (b\<lparr>bb_lastRead := opInvalid\<rparr>) (int UTFMax)) (\<lambda>(b, m).
        go_bind (window (bb_buf b) m (m + int UTFMax)) (\<lambda>w.
        go_bind (EncodeRune w r) (\<lambda>(w', n).
        go_bind (set_len (b\<lparr>bb_buf := store (bb_buf b) (nat m) w'\<rparr>) (m + int n)) (\<lambda>b.
          Inr (b, int n, None))))))"

text \<open>The loop of \<open>ReadFrom\<close>, which does not return when the reader never ends.\<close>

definition read_chunk :: "int \<Rightarrow> 'r reader \<Rightarrow> Buffer \<Rightarrow> 'r \<Rightarrow> (Buffer \<times> 'r \<times> int \<times> io_error option) go" where
  "read_chunk maxAlloc rd b r =
     go_bind (bb_grow maxAlloc b MinRead) (\<lambda>(b, i).
     go_bind (set_len b i) (\<lambda>b.
     go_bind (window (bb_buf b) i (scap (bb_buf b))) (\<lambda>p.
     go_bind (rd r p) (\<lambda>(r, p', m, e).
       if m < 0 then Inl errNegativeRead
       else go_bind (set_len (b\<lparr>bb_buf := store (bb_buf b) (nat i) p'\<rparr>) (i + m)) (\<lambda>b. Inr (b, r, m, e))))))"

partial_function (option) readfrom_loop ::
  "int \<Rightarrow> 'r reader \<Rightarrow> Buffer \<Rightarrow> 'r \<Rightarrow> int \<Rightarrow> (Buffer \<times> 'r \<times> int \<times> io_error option) go option" where
  "readfrom_loop maxAlloc rd b r n =
     (case read_chunk maxAlloc rd b r of
        Inl e \<Rightarrow> Some (Inl e)
      | Inr (b', r', m, e) \<Rightarrow>
          if e = Some EOF then Some (Inr (b', r', wrap64 (n + m), None))
          else if e \<noteq> None then Some (Inr (b', r', wrap64 (n + m), e))
          else readfrom_loop maxAlloc rd b' r' (wrap64 (n + m)))"

definition bb_ReadFrom ::
  "int \<Rightarrow> 'r reader \<Rightarrow> Buffer \<Rightarrow> 'r \<Rightarrow> (Buffer \<times> 'r \<times> int \<times> io_error option) go option" where
  "bb_ReadFrom maxAlloc rd b r = readfrom_loop maxAlloc rd (b\<lparr>bb_lastRead := opInvalid\<rparr>) r 0"

section \<open>Reading\<close>

definition bb_WriteTo :: "'w writer \<Rightarrow> Buffer \<Rightarrow> 'w \<Rightarrow> (Buffer \<times> 'w \<times> int \<times> io_error option) go" where
  "bb_WriteTo wr b w =
     (let b = b\<lparr>bb_lastRead := opInvalid\<rparr>; nBytes = bb_Len b in
      if nBytes > 0 then
        go_bind (go_from (elems (bb_buf b)) (bb_off b)) (\<lambda>xs. go_bind (wr w xs) (\<lambda>(w, m, e).
          if m > nBytes then Inl (PanicValue ''bytes.Buffer.WriteTo: invalid Write count'')
          else let b = b\<lparr>bb_off := wrap64 (bb_off b + m)\<rparr> in
            if e \<noteq> None then Inr (b, w, m, e)
            else if m \<noteq> nBytes then Inr (b, w, m, Some ErrShortWrite)
            else Inr (bb_Reset b, w, m, None)))
      else Inr (bb_Reset b, w, 0, None))"

definition bb_Read :: "Buffer reader" where
  "bb_Read b p =
     (let b = b\<lparr>bb_lastRead := opInvalid\<rparr> in
      if bb_empty b then Inr (bb_Reset b, p, 0, if length p = 0 then None else Some EOF)
      else go_bind (go_from (elems (bb_buf b)) (bb_off b)) (\<lambda>xs.
        let n = min (length p) (length xs);
            b = b\<lparr>bb_off := bb_off b + int n\<rparr> in
        Inr (if n > 0 then b\<lparr>bb_lastRead := opRead\<rparr> else b, take n xs @ drop n p, int n, None)))"

definition bb_Next :: "Buffer \<Rightarrow> int \<Rightarrow> (Buffer \<times> bytes) go" where
  "bb_Next b n =
     (let b = b\<lparr>bb_lastRead := opInvalid\<rparr>; m = bb_Len b; n = (if n > m then m else n) in
      go_bind (window (bb_buf b) (bb_off b) (bb_off b + n)) (\<lambda>data.
        let b = b\<lparr>bb_off := bb_off b + n\<rparr> in
        Inr (if n > 0 then b\<lparr>bb_lastRead := opRead\<rparr> else b, data)))"

definition bb_ReadByte :: "Buffer \<Rightarrow> (Buffer \<times> byte \<times> io_error option) go" where
  "bb_ReadByte b =
     (if bb_empty b then Inr (bb_Reset b, 0, Some EOF)
      else go_bind (go_index (elems (bb_buf b)) (bb_off b)) (\<lambda>c.
        Inr (b\<lparr>bb_off := bb_off b + 1, bb_lastRead := opRead\<rparr>, c, None)))"

definition bb_ReadRune :: "Buffer \<Rightarrow> (Buffer \<times> rune \<times> int \<times> io_error option) go" where
  "bb_ReadRune b =
     (if bb_empty b then Inr (bb_Reset b, 0, 0, Some EOF)
      else go_bind (go_index (elems (bb_buf b)) (bb_off b)) (\<lambda>c.
        if c < RuneSelf then Inr (b\<lparr>bb_off := bb_off b + 1, bb_lastRead := opReadRune1\<rparr>, ucast c, 1, None)
        else go_bind (go_from (elems (bb_buf b)) (bb_off b)) (\<lambda>xs.
          case DecodeRune xs of (r, n) \<Rightarrow>
            Inr (b\<lparr>bb_off := bb_off b + int n, bb_lastRead := int n\<rparr>, r, int n, None))))"

definition bb_UnreadRune :: "Buffer \<Rightarrow> Buffer \<times> io_error option" where
  "bb_UnreadRune b =
     (if bb_lastRead b \<le> opInvalid then (b, Some errUnreadRune)
      else ((if bb_off b \<ge> bb_lastRead b then b\<lparr>bb_off := bb_off b - bb_lastRead b\<rparr> else b)
              \<lparr>bb_lastRead := opInvalid\<rparr>, None))"

definition bb_UnreadByte :: "Buffer \<Rightarrow> Buffer \<times> io_error option" where
  "bb_UnreadByte b =
     (if bb_lastRead b = opInvalid then (b, Some errUnreadByte)
      else ((if bb_off b > 0 then b\<lparr>bb_off := bb_off b - 1\<rparr> else b)\<lparr>bb_lastRead := opInvalid\<rparr>, None))"

definition bytes_IndexByte :: "bytes \<Rightarrow> byte \<Rightarrow> int" where
  "bytes_IndexByte b c = bytealg_IndexByte b c"

definition bb_readSlice :: "Buffer \<Rightarrow> byte \<Rightarrow> (Buffer \<times> bytes \<times> io_error option) go" where
  "bb_readSlice b delim =
     go_bind (go_from (elems (bb_buf b)) (bb_off b)) (\<lambda>xs.
       let i = bytes_IndexByte xs delim;
           end' = (if i < 0 then slen (bb_buf b) else bb_off b + i + 1) in
       go_bind (window (bb_buf b) (bb_off b) end') (\<lambda>line.
         Inr (b\<lparr>bb_off := end', bb_lastRead := opRead\<rparr>, line, if i < 0 then Some EOF else None)))"

definition bb_ReadBytes :: "Buffer \<Rightarrow> byte \<Rightarrow> (Buffer \<times> bytes \<times> io_error option) go" where
  "bb_ReadBytes b delim = go_bind (bb_readSlice b delim) (\<lambda>(b, slice, err). Inr (b, [] @ slice, err))"

definition bb_ReadString :: "Buffer \<Rightarrow> byte \<Rightarrow> (Buffer \<times> bytes \<times> io_error option) go" where
  "bb_ReadString b delim = go_bind (bb_readSlice b delim) (\<lambda>(b, slice, err). Inr (b, slice, err))"

section \<open>Invariant and contents\<close>

definition bb_ok :: "Buffer \<Rightarrow> bool" where
  "bb_ok b \<longleftrightarrow> 0 \<le> bb_off b \<and> bb_off b \<le> slen (bb_buf b) \<and> scap (bb_buf b) < 2 ^ 63 \<and>
     bb_lastRead b \<in> {-1..4} \<and> (is_nil (bb_buf b) \<longrightarrow> scap (bb_buf b) = 0)"

definition bb_rest :: "Buffer \<Rightarrow> bytes" where
  "bb_rest b = drop (nat (bb_off b)) (elems (bb_buf b))"

named_theorems buffer_defs \<open>the invariant of a buffer and what it reads\<close>

declare bb_ok_def [buffer_defs] bb_rest_def [buffer_defs] scap_def [buffer_defs]
  opInvalid_def [buffer_defs] opRead_def [buffer_defs] opReadRune1_def [buffer_defs]

lemma maxInt_eq: "maxInt = 2 ^ 63 - 1"
  unfolding maxInt_def by code_simp

lemma bb_Reset_ok: "bb_ok b \<Longrightarrow> bb_ok (bb_Reset b)" "bb_rest (bb_Reset b) = []"
  by (auto simp: bb_Reset_def buffer_defs)

lemma bb_offE:
  assumes "bb_ok b"
  obtains k where "bb_off b = int k" "k \<le> length (elems (bb_buf b))" "bb_rest b = drop k (elems (bb_buf b))"
    "bb_Len b = int (length (bb_rest b))" "bb_empty b \<longleftrightarrow> bb_rest b = []"
    "go_from (elems (bb_buf b)) (bb_off b) = Inr (bb_rest b)"
proof (rule that [of "nat (bb_off b)"])
  have "go_from (elems (bb_buf b)) (int (nat (bb_off b))) = Inr (drop (nat (bb_off b)) (elems (bb_buf b)))"
    using assms by (intro go_from_ok) (auto simp: bb_ok_def)
  then show "go_from (elems (bb_buf b)) (bb_off b) = Inr (bb_rest b)"
    using assms by (simp add: bb_ok_def bb_rest_def)
qed (use assms in \<open>auto simp: bb_ok_def bb_rest_def bb_Len_def bb_empty_def nat_le_iff\<close>)

text \<open>The result of growing: \<open>n\<close> fresh bytes after the old contents, which end at index \<open>i\<close>.\<close>

definition grown :: "Buffer \<Rightarrow> Buffer \<Rightarrow> nat \<Rightarrow> nat \<Rightarrow> bool" where
  "grown b b' i n \<longleftrightarrow> bb_ok b' \<and> length (elems (bb_buf b')) = i + n \<and> bb_off b' \<le> int i \<and>
     drop (nat (bb_off b')) (take i (elems (bb_buf b'))) = bb_rest b \<and>
     bb_lastRead b' \<in> {bb_lastRead b, opInvalid}"

lemma tryGrow_cases:
  assumes "bb_ok b"
  obtains (fits) b' where "tryGrowByReslice b (int n) = Inr (b', slen (bb_buf b), True)"
      "grown b b' (length (elems (bb_buf b))) n"
    | (full) "tryGrowByReslice b (int n) = Inr (b, 0, False)" "scap (bb_buf b) < slen (bb_buf b) + int n"
proof (cases "int n \<le> scap (bb_buf b) - slen (bb_buf b)")
  case True
  let ?l = "length (elems (bb_buf b))"
  have n: "n \<le> length (spare (bb_buf b))" using True by (simp add: scap_def)
  have "resize (bb_buf b) (slen (bb_buf b) + int n) = resize (bb_buf b) (int (?l + n))" by simp
  also have "\<dots> = Inr ((bb_buf b)\<lparr>elems := elems (bb_buf b) @ take n (spare (bb_buf b)),
      spare := drop n (spare (bb_buf b))\<rparr>)"
    using n by (subst resize_ok) simp_all
  finally have r: "resize (bb_buf b) (slen (bb_buf b) + int n) = \<dots>" .
  show ?thesis
    by (rule fits [of "b\<lparr>bb_buf := (bb_buf b)\<lparr>elems := elems (bb_buf b) @ take n (spare (bb_buf b)),
      spare := drop n (spare (bb_buf b))\<rparr>\<rparr>"])
      (use True n assms r in \<open>auto simp: tryGrowByReslice_def Let_def set_len_def grown_def buffer_defs\<close>)
next
  case False
  then show ?thesis by (intro full) (auto simp: tryGrowByReslice_def Let_def)
qed

lemma grow_finish_grown:
  assumes "m + n \<le> length (elems s) + length (spare s)" "scap s < 2 ^ 63" "\<not> is_nil s"
    "bb_lastRead b \<in> {-1..4}" "take m (elems s) = bb_rest b0" "bb_lastRead b \<in> {bb_lastRead b0, opInvalid}"
    "m \<le> length (elems s)"
  shows "\<exists>b'. grow_finish (b\<lparr>bb_buf := s\<rparr>) (int m) (int n) = Inr (b', int m) \<and> grown b0 b' m n"
proof -
  have "resize s (int m + int n) = resize s (int (m + n))" by simp
  also have "\<dots> = Inr (s\<lparr>elems := take (m + n) (elems s @ spare s), spare := drop (m + n) (elems s @ spare s)\<rparr>)"
    using assms(1) by (rule resize_ok)
  finally have r: "resize s (int m + int n) = \<dots>" .
  have "take m (take (m + n) (elems s @ spare s)) = bb_rest b0" using assms(5,7) by simp
  then show ?thesis using assms
    by (auto simp: grow_finish_def set_len_def r grown_def bb_ok_def scap_def)
qed

lemma bb_grow_cases:
  assumes "bb_ok b" "int n < 2 ^ 63"
  obtains (grown) b' i where "bb_grow maxAlloc b (int n) = Inr (b', int i)" "grown b b' i n"
    | (too_large) "bb_grow maxAlloc b (int n) = Inl ErrTooLarge"
      "min maxInt maxAlloc < 2 * scap (bb_buf b) + int n"
      "scap (bb_buf b) div 2 < int (length (bb_rest b) + n)"
proof -
  define m where "m = length (bb_rest b)"
  define b1 where "b1 = (if bb_Len b = 0 \<and> bb_off b \<noteq> 0 then bb_Reset b else b)"
  obtain k where "bb_Len b = int m" using assms(1) by (rule bb_offE) (simp add: m_def)
  note len = this
  have ok1: "bb_ok b1" using assms(1) bb_Reset_ok(1) by (simp add: b1_def)
  have rest1: "bb_rest b1 = bb_rest b" using len bb_Reset_ok(2) by (auto simp: b1_def m_def)
  have cap1: "scap (bb_buf b1) = scap (bb_buf b)" by (simp add: b1_def bb_Reset_def scap_def)
  have last1: "bb_lastRead b1 \<in> {bb_lastRead b, opInvalid}" by (simp add: b1_def bb_Reset_def)
  note grow = bb_grow_def [of maxAlloc b "int n", unfolded Let_def b1_def [symmetric]]
  show ?thesis
    using ok1
  proof (cases rule: tryGrow_cases [of _ n])
    case (fits b')
    then show ?thesis using last1
      by (intro that(1) [of b' "length (elems (bb_buf b1))"]) (auto simp: grow grown_def rest1)
  next
    case full
    obtain k where k: "bb_off b1 = int k" "k \<le> length (elems (bb_buf b1))" "bb_rest b1 = drop k (elems (bb_buf b1))"
      "go_from (elems (bb_buf b1)) (bb_off b1) = Inr (bb_rest b1)"
      using ok1 by (rule bb_offE)
    have lm: "m \<le> length (elems (bb_buf b1))" using k(2,3) rest1 by (simp add: m_def)
    let ?s = "bb_buf b1" and ?c = "scap (bb_buf b1)"
    have last: "bb_lastRead b1 \<in> {-1..4}" using ok1 by (simp add: bb_ok_def)
    consider (small) "is_nil ?s" "int n \<le> smallBufferSize"
      | (slide) "\<not> (is_nil ?s \<and> int n \<le> smallBufferSize)" "int n \<le> ?c div 2 - int m"
      | (alloc) "\<not> (is_nil ?s \<and> int n \<le> smallBufferSize)" "\<not> int n \<le> ?c div 2 - int m"
      by blast
    then show ?thesis
    proof cases
      case small
      let ?b = "b1\<lparr>bb_buf := slice_of (replicate n 0) (replicate (nat (smallBufferSize - int n)) 0)\<rparr>"
      have "bb_grow maxAlloc b (int n) = Inr (?b, 0)" using small full by (simp add: grow)
      moreover have "elems ?s = []"
      proof -
        have "slen ?s + int (length (spare ?s)) = 0" using small ok1 by (auto simp: bb_ok_def scap_def)
        then have "length (elems ?s) = 0" by linarith
        then show ?thesis by simp
      qed
      moreover from this have "bb_rest b = []" unfolding rest1 [symmetric] by (simp add: bb_rest_def)
      ultimately show ?thesis using small ok1 last1 last
        by (intro that(1) [of ?b 0])
          (auto simp: grown_def bb_ok_def slice_of_def scap_def smallBufferSize_def)
    next
      case slide
      have "slen ?s \<le> ?c" by (simp add: scap_def)
      then have ns: "\<not> is_nil ?s" using slide(2) full(2) ok1 by (auto simp: bb_ok_def)
      let ?t = "store ?s 0 (bb_rest b)"
      have t: "elems ?t = bb_rest b @ drop m (elems ?s)" "spare ?t = spare ?s" "is_nil ?t = is_nil ?s"
        using lm by (simp_all add: store_def Let_def m_def)
      have cp: "copy_at ?s 0 (bb_rest b) = Inr (?t, int m)"
        using lm by (simp add: copy_at_def m_def)
      have step: "bb_grow maxAlloc b (int n) = grow_finish (b1\<lparr>bb_buf := ?t\<rparr>) (int m) (int n)"
        unfolding grow len
        by (simp only: full(1) go_bind.simps prod.case if_False if_not_P [OF slide(1)] if_P [OF slide(2)]
            k(4) rest1 cp)
      have fit: "m + n \<le> length (elems ?t) + length (spare ?t)"
        using slide(2) lm unfolding t scap_def by (simp add: m_def)
      show ?thesis
        using grow_finish_grown [OF fit, of b1 b] ok1 last1 last ns t lm
        unfolding step [symmetric] by (force intro: that(1) simp: bb_ok_def scap_def m_def)
    next
      case alloc
      show ?thesis
      proof (cases "?c > maxInt - ?c - int n \<or> \<not> 2 * ?c + int n \<le> maxAlloc")
        case True
        have "0 \<le> 2 * ?c + int n" by (simp add: scap_def)
        then have "bb_grow maxAlloc b (int n) = Inl ErrTooLarge"
          unfolding grow len
          by (simp only: full(1) go_bind.simps prod.case if_False if_not_P [OF alloc(1)] if_not_P [OF alloc(2)])
            (use True in \<open>auto simp: makeSlice_def\<close>)
        then show ?thesis using True alloc(2) by (intro that(2)) (auto simp: m_def cap1)
      next
        case False
        let ?k = "nat (2 * ?c + int n)"
        let ?z = "slice_of (replicate ?k 0) []"
        let ?t = "store ?z 0 (bb_rest b)"
        have cm: "int m \<le> ?c" using lm by (simp add: scap_def)
        have mk: "m \<le> ?k" "m + n \<le> ?k" using cm lm by (auto simp: scap_def)
        have t: "elems ?t = bb_rest b @ replicate (?k - m) 0" "spare ?t = []" "is_nil ?t = False"
          using mk by (simp_all add: store_def Let_def m_def slice_of_def)
        have cp: "copy_at ?z 0 (bb_rest b) = Inr (?t, int m)"
          using mk by (simp add: copy_at_def m_def slice_of_def)
        have "0 \<le> ?c" by (simp add: scap_def)
        then have "makeSlice maxAlloc (2 * ?c + int n) = Inr ?z" using False by (simp add: makeSlice_def)
        then have step: "bb_grow maxAlloc b (int n) = grow_finish (b1\<lparr>bb_buf := ?t\<rparr>) (int m) (int n)"
          unfolding grow len
          by (simp only: full(1) go_bind.simps prod.case if_False if_not_P [OF alloc(1)] if_not_P [OF alloc(2)]
              k(4) rest1 cp) (use False in simp)
        have fit: "m + n \<le> length (elems ?t) + length (spare ?t)"
          using mk by (simp add: t m_def)
        have "length (elems ?t) + length (spare ?t) = ?k" using mk by (simp add: t m_def)
        then have "scap ?t = int ?k" by (simp only: scap_def)
        then have cap: "scap ?t < 2 ^ 63" using False \<open>0 \<le> ?c\<close> by (simp add: maxInt_eq)
        show ?thesis
          using grow_finish_grown [OF fit cap, of b1 b] last1 last t
          unfolding step [symmetric] by (force intro: that(1) simp: m_def)
      qed
    qed
  qed
qed

section \<open>Writing appends, reading takes from the front\<close>

definition bb_room :: "int \<Rightarrow> Buffer \<Rightarrow> nat \<Rightarrow> bool" where
  "bb_room maxAlloc b n \<longleftrightarrow> bb_ok b \<and> 5 * int (length (bb_rest b) + n) \<le> min maxInt maxAlloc"

lemma bb_ok_lastRead: "bb_ok b \<Longrightarrow> bb_ok (b\<lparr>bb_lastRead := opInvalid\<rparr>)"
  "bb_rest (b\<lparr>bb_lastRead := k\<rparr>) = bb_rest b"
  by (simp_all add: bb_ok_def bb_rest_def opInvalid_def)

lemma bb_grow_room:
  assumes "bb_ok b" "int n < 2 ^ 63"
  obtains (grown) b' i where "bb_grow maxAlloc b (int n) = Inr (b', int i)" "grown b b' i n"
    | (too_large) "bb_grow maxAlloc b (int n) = Inl ErrTooLarge" "\<not> bb_room maxAlloc b n"
  using assms
proof (cases rule: bb_grow_cases [of _ _ maxAlloc])
  case too_large
  have "a < 2 * L" if "a div 2 < L" for a L :: int using that by presburger
  then have "scap (bb_buf b) < 2 * int (length (bb_rest b) + n)" using too_large(3) by blast
  then have "min maxInt maxAlloc < 5 * int (length (bb_rest b) + n)" using too_large(2)
    by (auto simp: min_def split: if_splits)
  then have "\<not> bb_room maxAlloc b n" by (auto simp: bb_room_def)
  then show ?thesis using too_large(1) by (intro that(2))
qed (rule that(1))

lemma make_room_cases:
  assumes "bb_ok b" "int n < 2 ^ 63"
  obtains (grown) b' i where "make_room maxAlloc b (int n) = Inr (b', int i)" "grown b b' i n"
    | (too_large) "make_room maxAlloc b (int n) = Inl ErrTooLarge" "\<not> bb_room maxAlloc b n"
  using assms(1)
proof (cases rule: tryGrow_cases [of _ n])
  case (fits b')
  then show ?thesis using that(1) by (simp add: make_room_def)
next
  case full
  then have eq: "make_room maxAlloc b (int n) = bb_grow maxAlloc b (int n)" by (simp add: make_room_def)
  show ?thesis
    using assms by (cases rule: bb_grow_room [of _ _ maxAlloc]) (use eq that in auto)
qed

definition appended :: "int \<Rightarrow> Buffer \<Rightarrow> nat \<Rightarrow> bytes \<Rightarrow> Buffer go \<Rightarrow> bool" where
  "appended maxAlloc b n xs res \<longleftrightarrow>
     (case res of Inr b' \<Rightarrow> bb_ok b' \<and> bb_rest b' = bb_rest b @ xs \<and> bb_lastRead b' = opInvalid
      | Inl e \<Rightarrow> e = ErrTooLarge \<and> \<not> bb_room maxAlloc b n)"

definition result_buffer :: "(Buffer \<times> 'a) go \<Rightarrow> Buffer go" where
  "result_buffer m = go_bind m (\<lambda>(b, _). Inr b)"

lemma grown_fill:
  assumes "grown b b' i n" "length xs = n" "bb_lastRead b = opInvalid"
  shows "bb_ok (b'\<lparr>bb_buf := (bb_buf b')\<lparr>elems := take i (elems (bb_buf b')) @ xs\<rparr>\<rparr>)"
    and "bb_rest (b'\<lparr>bb_buf := (bb_buf b')\<lparr>elems := take i (elems (bb_buf b')) @ xs\<rparr>\<rparr>) = bb_rest b @ xs"
    and "bb_lastRead b' = opInvalid"
  using assms by (auto simp: grown_def bb_ok_def bb_rest_def scap_def nat_le_iff)

lemma bb_room_lastRead: "bb_room maxAlloc (b\<lparr>bb_lastRead := opInvalid\<rparr>) n \<Longrightarrow> bb_ok b \<Longrightarrow> bb_room maxAlloc b n"
  by (simp add: bb_room_def bb_ok_lastRead)

lemma bb_Write_appends:
  assumes "bb_ok b" "int (length p) < 2 ^ 63"
  obtains (written) b' where "bb_Write maxAlloc b p = Inr (b', int (length p), None)"
      "appended maxAlloc b (length p) p (Inr b')"
    | (too_large) "bb_Write maxAlloc b p = Inl ErrTooLarge" "\<not> bb_room maxAlloc b (length p)"
  using bb_ok_lastRead(1) [OF assms(1)] assms(2)
proof (cases rule: make_room_cases [of _ _ maxAlloc])
  case (grown b' i)
  have "copy_at (bb_buf b') (int i) p = Inr ((bb_buf b')\<lparr>elems := take i (elems (bb_buf b')) @ p\<rparr>, int (length p))"
    using grown(2) by (intro copy_at_end) (simp add: grown_def)
  then show ?thesis
    using grown grown_fill [OF grown(2), of p]
    by (intro that(1) [of "b'\<lparr>bb_buf := (bb_buf b')\<lparr>elems := take i (elems (bb_buf b')) @ p\<rparr>\<rparr>"])
      (simp_all add: bb_Write_def appended_def bb_ok_lastRead)
next
  case too_large
  then show ?thesis using assms(1) bb_room_lastRead
    by (intro that(2)) (auto simp: bb_Write_def bb_room_def bb_ok_lastRead)
qed

lemma bb_WriteString_eq: "bb_WriteString maxAlloc b s = bb_Write maxAlloc b s"
  by (simp add: bb_WriteString_def bb_Write_def)

lemma bb_WriteByte_appends:
  assumes "bb_ok b"
  shows "appended maxAlloc b 1 [c] (result_buffer (bb_WriteByte maxAlloc b c))"
proof -
  have 1: "int 1 < 2 ^ 63" by simp
  show ?thesis
    using bb_ok_lastRead(1) [OF assms] 1
  proof (cases rule: make_room_cases [of _ _ maxAlloc])
    case (grown b' i)
    let ?e = "elems (bb_buf b')"
    have l: "length ?e = Suc i" using grown(2) by (simp add: grown_def)
    then have u: "?e[i := c] = take i ?e @ [c]"
      by (metis Suc_n_not_le_n less_Suc_eq_le order_refl take_Suc_update take_all length_list_update lessI)
    show ?thesis
      using grown grown_fill [OF grown(2), of "[c]"] l u
      by (simp add: bb_WriteByte_def result_buffer_def appended_def bb_ok_lastRead)
  next
    case too_large
    then show ?thesis using assms
      by (auto simp: bb_WriteByte_def result_buffer_def appended_def bb_room_def bb_ok_lastRead)
  qed
qed

text \<open>\<open>WriteRune\<close> writes the encoding of the rune, and one truncated byte for a negative value.\<close>

definition written_rune :: "rune \<Rightarrow> bytes" where
  "written_rune r = (if sint r < 0 then [ucast r] else rune_bytes r)"

lemma rune_bytes_ascii:
  assumes "0 \<le> sint r" "r <s ucast RuneSelf"
  shows "rune_bytes r = [ucast r]"
proof -
  obtain n where n: "unat r = n" "uint r = int n" "n < 2 ^ LENGTH(32)" by (rule word_natE)
  have "sint (ucast RuneSelf :: rune) = 128" by simp
  then have "n < 128" using assms n unfolding sless_view sint_view by (auto split: if_splits)
  moreover from this have u: "unat (ucast r :: byte) = n" by (simp add: view_simps n)
  ultimately have "ucast r < RuneSelf" by (simp add: word_less_nat_alt)
  moreover have "unat (ucast (ucast r :: byte) :: rune) = unat r"
    using \<open>n < 128\<close> by (simp add: view_simps n)
  then have "(ucast (ucast r :: byte) :: rune) = r" by (rule word_unat_eq_iff [THEN iffD2])
  ultimately show ?thesis using byte_rune(2) [of "ucast r"] by simp
qed

lemma bb_WriteRune_appends:
  assumes "bb_ok b"
  shows "appended maxAlloc b UTFMax (written_rune r) (result_buffer (bb_WriteRune maxAlloc b r))"
proof (cases "r <s ucast RuneSelf")
  case True
  then have "written_rune r = [ucast r]" using rune_bytes_ascii [of r] by (simp add: written_rune_def)
  moreover have "result_buffer (bb_WriteRune maxAlloc b r) = result_buffer (bb_WriteByte maxAlloc b (ucast r))"
    using True by (cases "bb_WriteByte maxAlloc b (ucast r)") (auto simp: bb_WriteRune_def result_buffer_def)
  ultimately show ?thesis
    using bb_WriteByte_appends [OF assms, of maxAlloc "ucast r"]
    by (cases "result_buffer (bb_WriteByte maxAlloc b (ucast r))") (auto simp: appended_def bb_room_def)
next
  case False
  have "sint (ucast RuneSelf :: rune) = 128" by simp
  then have wr: "written_rune r = rune_bytes r" using False by (simp add: written_rune_def sless_view)
  have 4: "int UTFMax < 2 ^ 63" by simp
  show ?thesis
    using bb_ok_lastRead(1) [OF assms] 4
  proof (cases rule: make_room_cases [of _ _ maxAlloc])
    case (grown b' i)
    define n where "n = length (rune_bytes r)"
    let ?s = "bb_buf b'"
    obtain w where w: "elems ?s = take i (elems ?s) @ w" "length w = 4"
      using grown(2) that [of "drop i (elems ?s)"] by (auto simp: grown_def)
    have i: "length (take i (elems ?s)) = i" using grown(2) by (simp add: grown_def)
    have n4: "n \<le> 4" unfolding n_def by (rule length_rune_bytes_le)
    have win: "window ?s (int i) (int i + 4) = Inr w"
    proof -
      have "window ?s (int i) (int (i + 4)) = Inr (seg i (i + 4) (elems ?s @ spare ?s))"
        using grown(2) by (intro window_ok) (auto simp: grown_def)
      also have "seg i (i + 4) (elems ?s @ spare ?s) = w"
        using w(2) i by (subst w(1)) (simp add: seg_def)
      finally show ?thesis by simp
    qed
    have enc: "EncodeRune w r = Inr (rune_bytes r @ drop n w, n)"
      using EncodeRune_spec [of w r] w(2) by (simp add: n_def)
    let ?all = "take i (elems ?s) @ rune_bytes r @ drop n w @ spare ?s"
    have st: "store ?s i (rune_bytes r @ drop n w) = ?s\<lparr>elems := take i (elems ?s) @ rune_bytes r @ drop n w\<rparr>"
      using w n4 i grown(2) by (simp add: store_def Let_def n_def grown_def)
    have res: "resize (?s\<lparr>elems := take i (elems ?s) @ rune_bytes r @ drop n w\<rparr>) (int i + int n) =
        Inr (?s\<lparr>elems := take i (elems ?s) @ rune_bytes r, spare := drop n w @ spare ?s\<rparr>)"
    proof -
      have "resize (?s\<lparr>elems := take i (elems ?s) @ rune_bytes r @ drop n w\<rparr>) (int (i + n)) =
        Inr (?s\<lparr>elems := take i (elems ?s) @ rune_bytes r, spare := drop n w @ spare ?s\<rparr>)"
        using i by (subst resize_ok) (simp_all add: n_def)
      then show ?thesis by simp
    qed
    let ?b = "b'\<lparr>bb_buf := ?s\<lparr>elems := take i (elems ?s) @ rune_bytes r, spare := drop n w @ spare ?s\<rparr>\<rparr>"
    have "bb_WriteRune maxAlloc b r = Inr (?b, int n, None)"
      using grown(1) by (simp add: bb_WriteRune_def False win enc st set_len_def res del: RuneSelf_def)
    moreover have "bb_ok ?b" "bb_rest ?b = bb_rest b @ rune_bytes r" "bb_lastRead ?b = opInvalid"
      using grown(2) i n4 w(2) by (auto simp: grown_def bb_ok_def bb_rest_def scap_def n_def)
    ultimately show ?thesis by (simp add: appended_def result_buffer_def wr)
  next
    case too_large
    then show ?thesis using assms False
      by (auto simp: bb_WriteRune_def result_buffer_def appended_def bb_room_def bb_ok_lastRead)
  qed
qed

interpretation bb: stream_writer "bb_Write maxAlloc" bb_rest "bb_room maxAlloc" for maxAlloc
proof
  fix b n and p :: bytes
  assume room: "bb_room maxAlloc b n" and n: "length p \<le> n"
  have ok: "bb_ok b" "int (length p) < 2 ^ 63" using room n by (auto simp: bb_room_def maxInt_eq)
  then show "accepts (bb_Write maxAlloc) bb_rest (bb_room maxAlloc) b p n"
  proof (cases rule: bb_Write_appends [of _ _ maxAlloc])
    case (written b')
    then show ?thesis unfolding accepts_def
      using room n by (intro exI [of _ b']) (auto simp: appended_def bb_room_def)
  next
    case too_large
    then show ?thesis using room n by (simp add: bb_room_def)
  qed
qed

end
