(* ===== verification/BufferQueue.thy ===== *)
theory BufferQueue
  imports BytesBuffer
begin

text \<open>
  \<open>bytes.Buffer\<close> refines a queue of bytes: every operation, run on the slice with offset and capacity,
  has the result and the effect of the same operation on the list of unread bytes.
\<close>

section \<open>Operations as data\<close>

datatype buffer_op =
    OpWrite bytes | OpWriteString bytes | OpWriteByte byte | OpWriteRune rune
  | OpRead bytes | OpNext int | OpReadByte | OpReadRune | OpReadBytes byte | OpReadString byte
  | OpTruncate int | OpReset | OpGrow int

datatype buffer_out =
    Done | Count int "io_error option" | Bytes bytes int "io_error option"
  | Byte byte "io_error option" | Rune rune int "io_error option"

fun run_op :: "int \<Rightarrow> Buffer \<Rightarrow> buffer_op \<Rightarrow> (Buffer \<times> buffer_out) go" where
  "run_op M b (OpWrite p) = go_bind (bb_Write M b p) (\<lambda>(b, n, e). Inr (b, Count n e))"
| "run_op M b (OpWriteString p) = go_bind (bb_WriteString M b p) (\<lambda>(b, n, e). Inr (b, Count n e))"
| "run_op M b (OpWriteByte c) = go_bind (bb_WriteByte M b c) (\<lambda>(b, e). Inr (b, Done))"
| "run_op M b (OpWriteRune r) = go_bind (bb_WriteRune M b r) (\<lambda>(b, n, e). Inr (b, Done))"
| "run_op M b (OpRead p) = go_bind (bb_Read b p) (\<lambda>(b, p', n, e). Inr (b, Bytes p' n e))"
| "run_op M b (OpNext n) = go_bind (bb_Next b n) (\<lambda>(b, data). Inr (b, Bytes data (int (length data)) None))"
| "run_op M b OpReadByte = go_bind (bb_ReadByte b) (\<lambda>(b, c, e). Inr (b, Byte c e))"
| "run_op M b OpReadRune = go_bind (bb_ReadRune b) (\<lambda>(b, r, n, e). Inr (b, Rune r n e))"
| "run_op M b (OpReadBytes d) = go_bind (bb_ReadBytes b d) (\<lambda>(b, l, e). Inr (b, Bytes l (int (length l)) e))"
| "run_op M b (OpReadString d) = go_bind (bb_ReadString b d) (\<lambda>(b, l, e). Inr (b, Bytes l (int (length l)) e))"
| "run_op M b (OpTruncate n) = go_bind (bb_Truncate b n) (\<lambda>b. Inr (b, Done))"
| "run_op M b OpReset = Inr (bb_Reset b, Done)"
| "run_op M b (OpGrow n) = go_bind (bb_Grow M b n) (\<lambda>b. Inr (b, Done))"

text \<open>The same operations on a queue.\<close>

definition queue_line :: "bytes \<Rightarrow> byte \<Rightarrow> (bytes \<times> buffer_out) go" where
  "queue_line q d =
     (let l = (if d \<in> set q then takeWhile (\<lambda>c. c \<noteq> d) q @ [d] else q) in
      Inr (drop (length l) q, Bytes l (int (length l)) (if d \<in> set q then None else Some EOF)))"

fun queue_op :: "bytes \<Rightarrow> buffer_op \<Rightarrow> (bytes \<times> buffer_out) go" where
  "queue_op q (OpWrite p) = Inr (q @ p, Count (int (length p)) None)"
| "queue_op q (OpWriteString p) = Inr (q @ p, Count (int (length p)) None)"
| "queue_op q (OpWriteByte c) = Inr (q @ [c], Done)"
| "queue_op q (OpWriteRune r) = Inr (q @ written_rune r, Done)"
| "queue_op q (OpRead p) =
     (if q = [] then Inr ([], Bytes p 0 (if p = [] then None else Some EOF))
      else let n = min (length p) (length q) in Inr (drop n q, Bytes (take n q @ drop n p) (int n) None))"
| "queue_op q (OpNext n) =
     (if n < 0 then Inl SliceOutOfRange
      else let d = take (nat n) q in Inr (drop (nat n) q, Bytes d (int (length d)) None))"
| "queue_op q OpReadByte = (case q of [] \<Rightarrow> Inr ([], Byte 0 (Some EOF)) | c # q' \<Rightarrow> Inr (q', Byte c None))"
| "queue_op q OpReadRune =
     (if q = [] then Inr ([], Rune 0 0 (Some EOF))
      else case DecodeRune q of (r, n) \<Rightarrow> Inr (drop n q, Rune r (int n) None))"
| "queue_op q (OpReadBytes d) = queue_line q d"
| "queue_op q (OpReadString d) = queue_line q d"
| "queue_op q (OpTruncate n) =
     (if n < 0 \<or> n > int (length q) then Inl (PanicValue ''bytes.Buffer: truncation out of range'')
      else Inr (take (nat n) q, Done))"
| "queue_op q OpReset = Inr ([], Done)"
| "queue_op q (OpGrow n) =
     (if n < 0 then Inl (PanicValue ''bytes.Buffer.Grow: negative count'') else Inr (q, Done))"

text \<open>The arguments are values of the language: lengths and counts fit an \<open>int\<close>.\<close>

fun op_valid :: "buffer_op \<Rightarrow> bool" where
  "op_valid (OpWrite p) = (int (length p) < 2 ^ 63)"
| "op_valid (OpWriteString p) = (int (length p) < 2 ^ 63)"
| "op_valid (OpGrow n) = (n < 2 ^ 63)"
| "op_valid _ = True"

text \<open>The room an operation may need: \<open>UTFMax\<close> bytes for one rune.\<close>

fun op_need :: "buffer_op \<Rightarrow> nat" where
  "op_need (OpWrite p) = length p"
| "op_need (OpWriteString p) = length p"
| "op_need (OpWriteByte c) = 1"
| "op_need (OpWriteRune r) = UTFMax"
| "op_need (OpGrow n) = nat n"
| "op_need _ = 0"

definition op_refines :: "int \<Rightarrow> Buffer \<Rightarrow> buffer_op \<Rightarrow> bool" where
  "op_refines M b op \<longleftrightarrow>
     (case run_op M b op of
        Inr (b', out) \<Rightarrow> bb_ok b' \<and> queue_op (bb_rest b) op = Inr (bb_rest b', out)
      | Inl e \<Rightarrow> queue_op (bb_rest b) op = Inl e \<or> e = ErrTooLarge \<and> \<not> bb_room M b (op_need op))"

section \<open>Each operation\<close>

lemma op_refinesI:
  "run_op M b op = Inr (b', out) \<Longrightarrow> bb_ok b' \<Longrightarrow> queue_op (bb_rest b) op = Inr (bb_rest b', out) \<Longrightarrow> op_refines M b op"
  by (simp add: op_refines_def)

lemma write_refines:
  assumes "bb_ok b" "int (length p) < 2 ^ 63"
  shows "op_refines M b (OpWrite p)" "op_refines M b (OpWriteString p)"
  using bb_Write_appends [OF assms, of M "op_refines M b (OpWrite p) \<and> op_refines M b (OpWriteString p)"]
  by (auto simp: op_refines_def bb_WriteString_eq appended_def)

lemma appended_cases:
  assumes "appended M b n xs (result_buffer m)"
  obtains b' x where "m = Inr (b', x)" "bb_ok b'" "bb_rest b' = bb_rest b @ xs" "bb_lastRead b' = opInvalid"
    | "m = Inl ErrTooLarge" "\<not> bb_room M b n"
  using assms by (cases m) (auto simp: appended_def result_buffer_def)

lemma writebyte_refines: "bb_ok b \<Longrightarrow> op_refines M b (OpWriteByte c)"
  by (erule appended_cases [OF bb_WriteByte_appends [of b M c]]) (auto simp: op_refines_def)

lemma writerune_refines: "bb_ok b \<Longrightarrow> op_refines M b (OpWriteRune r)"
  by (erule appended_cases [OF bb_WriteRune_appends [of b M r]]) (auto simp: op_refines_def)

lemma bb_advance:
  assumes "bb_ok b" "n \<le> length (bb_rest b)" "k \<in> {-1..4}"
  shows "bb_ok (b\<lparr>bb_off := bb_off b + int n, bb_lastRead := k\<rparr>)"
    and "bb_rest (b\<lparr>bb_off := bb_off b + int n, bb_lastRead := k\<rparr>) = drop n (bb_rest b)"
  using assms by (auto simp: bb_ok_def bb_rest_def nat_add_distrib add.commute)

lemma bb_Read_step:
  assumes "bb_ok b"
  shows "\<exists>b'. bb_Read b p = (let n = min (length p) (length (bb_rest b)) in
      Inr (b', take n (bb_rest b) @ drop n p, int n,
        if bb_rest b = [] \<and> p \<noteq> [] then Some EOF else None))
    \<and> bb_ok b' \<and> bb_rest b' = drop (length p) (bb_rest b)"
proof -
  let ?b = "b\<lparr>bb_lastRead := opInvalid\<rparr>"
  have ok: "bb_ok ?b" and rest: "bb_rest ?b = bb_rest b" using assms by (simp_all add: bb_ok_lastRead)
  obtain k where k: "bb_empty ?b \<longleftrightarrow> bb_rest b = []" "go_from (elems (bb_buf ?b)) (bb_off ?b) = Inr (bb_rest b)"
    using bb_offE [OF ok] unfolding rest by metis
  show ?thesis
  proof (cases "bb_rest b = []")
    case True
    then show ?thesis using k bb_Reset_ok [of ?b] ok
      by (intro exI [of _ "bb_Reset ?b"]) (simp add: bb_Read_def Let_def)
  next
    case False
    let ?n = "min (length p) (length (bb_rest b))"
    let ?b' = "b\<lparr>bb_off := bb_off b + int ?n, bb_lastRead := if ?n > 0 then opRead else opInvalid\<rparr>"
    have "bb_Read b p = Inr (?b', take ?n (bb_rest b) @ drop ?n p, int ?n, None)"
      using False k by (simp add: bb_Read_def Let_def)
    moreover have "drop ?n (bb_rest b) = drop (length p) (bb_rest b)" by (simp add: min_def)
    ultimately show ?thesis
      using False bb_advance [OF assms, of ?n "if ?n > 0 then opRead else opInvalid"]
      by (intro exI [of _ ?b']) (simp add: Let_def opRead_def opInvalid_def)
  qed
qed

lemma read_refines: "bb_ok b \<Longrightarrow> op_refines M b (OpRead p)"
  using bb_Read_step [of b p] by (auto simp: op_refines_def Let_def min_def)

interpretation bb: stream_reader bb_Read bb_rest bb_ok
proof
  fix b and p :: bytes
  assume "bb_ok b"
  from bb_Read_step [OF this, of p] obtain b' where b': "bb_Read b p = (let n = min (length p) (length (bb_rest b)) in
      Inr (b', take n (bb_rest b) @ drop n p, int n, if bb_rest b = [] \<and> p \<noteq> [] then Some EOF else None))"
    "bb_ok b'" "bb_rest b' = drop (length p) (bb_rest b)" by blast
  show "delivers bb_Read bb_rest bb_ok b p"
    by (rule deliversI [where r' = b' and k = "min (length p) (length (bb_rest b))"
          and e = "if bb_rest b = [] \<and> p \<noteq> [] then Some EOF else None"])
      (use b' in \<open>auto simp: Let_def min_def\<close>)
qed

lemma next_refines: "bb_ok b \<Longrightarrow> op_refines M b (OpNext n)"
proof -
  assume ok: "bb_ok b"
  obtain k where k: "bb_off b = int k" "k \<le> length (elems (bb_buf b))" "bb_rest b = drop k (elems (bb_buf b))"
    "bb_Len b = int (length (bb_rest b))" using ok by (rule bb_offE)
  have len: "bb_Len (b\<lparr>bb_lastRead := opInvalid\<rparr>) = int (length (bb_rest b))"
    using k(4) by (simp add: bb_Len_def)
  show ?thesis
  proof (cases "n < 0")
    case True
    then have "window (bb_buf b) (bb_off b) (bb_off b + n) = Inl SliceOutOfRange" by (simp add: window_def)
    then have "run_op M b (OpNext n) = Inl SliceOutOfRange" using True len by (simp add: bb_Next_def Let_def)
    then show ?thesis using True by (simp add: op_refines_def)
  next
    case False
    define m where "m = min (nat n) (length (bb_rest b))"
    have m: "(if n > int (length (bb_rest b)) then int (length (bb_rest b)) else n) = int m"
      using False by (auto simp: m_def min_def)
    have mle: "m \<le> length (bb_rest b)" by (simp add: m_def)
    have "window (bb_buf b) (int k) (int (k + m)) = Inr (seg k (k + m) (elems (bb_buf b) @ spare (bb_buf b)))"
      using mle k by (intro window_ok) auto
    also have "seg k (k + m) (elems (bb_buf b) @ spare (bb_buf b)) = take m (bb_rest b)"
      using mle k by (simp add: seg_def)
    finally have w: "window (bb_buf b) (int k) (int k + int m) = Inr (take m (bb_rest b))" by simp
    let ?b = "b\<lparr>bb_off := bb_off b + int m, bb_lastRead := if int m > 0 then opRead else opInvalid\<rparr>"
    have run: "run_op M b (OpNext n) = Inr (?b, Bytes (take m (bb_rest b)) (int (length (take m (bb_rest b)))) None)"
      unfolding run_op.simps bb_Next_def Let_def len m using k(1) w by simp
    show ?thesis
      using bb_advance [OF ok mle, of "if int m > 0 then opRead else opInvalid"] False
      by (intro op_refinesI [OF run]) (auto simp: opRead_def opInvalid_def m_def min_def)
  qed
qed

lemma readbyte_refines: "bb_ok b \<Longrightarrow> op_refines M b OpReadByte"
proof -
  assume ok: "bb_ok b"
  obtain k where k: "bb_off b = int k" "k \<le> length (elems (bb_buf b))" "bb_rest b = drop k (elems (bb_buf b))"
    "bb_empty b \<longleftrightarrow> bb_rest b = []" using ok by (rule bb_offE)
  show ?thesis
  proof (cases "bb_rest b")
    case Nil
    then show ?thesis using k ok bb_Reset_ok [of b] by (simp add: op_refines_def bb_ReadByte_def)
  next
    case (Cons c q)
    then have "k < length (elems (bb_buf b))" "elems (bb_buf b) ! k = c"
      using k by (auto simp: drop_eq_Nil dest: arg_cong [where f = "\<lambda>xs. xs ! 0"] intro: Suc_le_lessD)
        (metis drop_eq_Nil2 list.distinct(1) not_le)
    then show ?thesis
      using k(1,4) Cons bb_advance [OF ok, of 1 opRead]
      by (simp add: op_refines_def bb_ReadByte_def go_index_def opRead_def)
  qed
qed

lemma readrune_refines: "bb_ok b \<Longrightarrow> op_refines M b OpReadRune"
proof -
  assume ok: "bb_ok b"
  obtain k where k: "bb_off b = int k" "k \<le> length (elems (bb_buf b))" "bb_rest b = drop k (elems (bb_buf b))"
    "bb_empty b \<longleftrightarrow> bb_rest b = []" "go_from (elems (bb_buf b)) (bb_off b) = Inr (bb_rest b)"
    using ok by (rule bb_offE)
  show ?thesis
  proof (cases "bb_rest b = []")
    case True
    then show ?thesis using k ok bb_Reset_ok [of b] by (simp add: op_refines_def bb_ReadRune_def)
  next
    case False
    then have kl: "k < length (elems (bb_buf b))" using k by auto
    then have c: "go_index (elems (bb_buf b)) (bb_off b) = Inr (bb_rest b ! 0)"
      using k by (simp add: go_index_def)
    obtain r n where d: "DecodeRune (bb_rest b) = (r, n)" by (cases "DecodeRune (bb_rest b)")
    have n: "n \<le> length (bb_rest b)" "n \<le> 4" "1 \<le> n" using DecodeRune_size [OF False] d by simp_all
    have "run_op M b OpReadRune = Inr (b\<lparr>bb_off := bb_off b + int n, bb_lastRead := int n\<rparr>, Rune r (int n) None)"
    proof (cases "bb_rest b ! 0 < RuneSelf")
      case True
      then have "r = ucast (bb_rest b ! 0)" "n = 1"
        using DecodeRune_ascii [OF False lead_info_ascii] d by auto
      then show ?thesis using True False c k(4) by (simp add: bb_ReadRune_def opReadRune1_def)
    next
      case ge: False
      then show ?thesis using False c k(4,5) d by (simp add: bb_ReadRune_def del: RuneSelf_def)
    qed
    then show ?thesis
      using bb_advance [OF ok n(1), of "int n"] n False d by (intro op_refinesI) auto
  qed
qed

lemma bytes_IndexByte_find:
  "bytes_IndexByte q d = (if d \<in> set q then int (length (takeWhile (\<lambda>c. c \<noteq> d) q)) else -1)"
proof -
  have "indexbyte_loop q d i = (if d \<in> set q then i + int (length (takeWhile (\<lambda>c. c \<noteq> d) q)) else -1)" for i
    by (induction q arbitrary: i) auto
  then show ?thesis by (simp add: bytes_IndexByte_def bytealg_IndexByte_def)
qed

lemma bb_readSlice_line:
  assumes "bb_ok b"
  shows "\<exists>b' l e. bb_readSlice b d = Inr (b', l, e) \<and> bb_ok b'
    \<and> queue_line (bb_rest b) d = Inr (bb_rest b', Bytes l (int (length l)) e)"
proof -
  obtain k where k: "bb_off b = int k" "k \<le> length (elems (bb_buf b))" "bb_rest b = drop k (elems (bb_buf b))"
    "go_from (elems (bb_buf b)) (bb_off b) = Inr (bb_rest b)" using assms by (rule bb_offE)
  define l where "l = (if d \<in> set (bb_rest b) then takeWhile (\<lambda>c. c \<noteq> d) (bb_rest b) @ [d] else bb_rest b)"
  have tk: "l = take (length l) (bb_rest b)"
  proof (cases "d \<in> set (bb_rest b)")
    case True
    then obtain xs ys where "bb_rest b = xs @ d # ys" "d \<notin> set xs" by (meson split_list_first)
    moreover have "takeWhile (\<lambda>c. c \<noteq> d) (xs @ d # ys) = xs" if "d \<notin> set xs" for xs ys
      using that by (induction xs) auto
    ultimately show ?thesis by (simp add: l_def)
  qed (simp add: l_def)
  then have len: "length l \<le> length (bb_rest b)" by (metis length_take min.cobounded1)
  have win: "window (bb_buf b) (int k) (int (k + length l)) = Inr l"
  proof -
    have "window (bb_buf b) (int k) (int (k + length l)) = Inr (seg k (k + length l) (elems (bb_buf b) @ spare (bb_buf b)))"
      using len k(2,3) by (intro window_ok) auto
    also have "seg k (k + length l) (elems (bb_buf b) @ spare (bb_buf b)) = take (length l) (bb_rest b)"
      using len k(2,3) by (simp add: seg_def)
    finally show ?thesis using tk by simp
  qed
  define i where "i = bytes_IndexByte (bb_rest b) d"
  have neg: "i < 0 \<longleftrightarrow> d \<notin> set (bb_rest b)" by (simp add: i_def bytes_IndexByte_find)
  have en: "(if i < 0 then slen (bb_buf b) else bb_off b + i + 1) = int (k + length l)"
    using k by (simp add: i_def bytes_IndexByte_find l_def)
  have "bb_readSlice b d = Inr (b\<lparr>bb_off := bb_off b + int (length l), bb_lastRead := opRead\<rparr>, l,
      if d \<in> set (bb_rest b) then None else Some EOF)"
    unfolding bb_readSlice_def k(4) go_bind.simps Let_def i_def [symmetric] en unfolding neg
    using k(1) win by simp
  then show ?thesis
    using bb_advance [OF assms len, of opRead] by (simp add: queue_line_def Let_def l_def [symmetric] opRead_def)
qed

lemma readline_refines:
  assumes "bb_ok b"
  shows "op_refines M b (OpReadBytes d)" "op_refines M b (OpReadString d)"
  using bb_readSlice_line [OF assms, of d] by (auto simp: op_refines_def bb_ReadBytes_def bb_ReadString_def)

lemma truncate_refines: "bb_ok b \<Longrightarrow> op_refines M b (OpTruncate n)"
proof -
  assume ok: "bb_ok b"
  obtain k where k: "bb_off b = int k" "k \<le> length (elems (bb_buf b))" "bb_rest b = drop k (elems (bb_buf b))"
    "bb_Len b = int (length (bb_rest b))" using ok by (rule bb_offE)
  have len: "bb_Len (b\<lparr>bb_lastRead := opInvalid\<rparr>) = int (length (bb_rest b))"
    using k(4) by (simp add: bb_Len_def)
  consider "n = 0" | "n \<noteq> 0" "n < 0 \<or> n > int (length (bb_rest b))" | "0 < n" "n \<le> int (length (bb_rest b))"
    by linarith
  then show ?thesis
  proof cases
    case 1
    then show ?thesis using ok bb_Reset_ok [of b] by (simp add: op_refines_def bb_Truncate_def)
  next
    case 2
    then show ?thesis by (auto simp: op_refines_def bb_Truncate_def len Let_def)
  next
    case 3
    let ?s = "bb_buf b" and ?j = "k + nat n"
    let ?t = "?s\<lparr>elems := take ?j (elems ?s), spare := drop ?j (elems ?s) @ spare ?s\<rparr>"
    have j: "?j \<le> length (elems ?s)" using 3 k(2,3) by auto
    then have "resize ?s (int ?j) = Inr ?t" by (subst resize_ok) simp_all
    moreover have "int ?j = int k + n" using 3 by simp
    ultimately have r: "resize ?s (int k + n) = Inr ?t" by metis
    let ?b = "b\<lparr>bb_buf := ?t, bb_lastRead := opInvalid\<rparr>"
    have run: "run_op M b (OpTruncate n) = Inr (?b, Done)"
      using 3 k(1) r by (simp add: bb_Truncate_def len set_len_def Let_def)
    have "bb_ok ?b" using ok j k(1) by (auto simp: bb_ok_def scap_def opInvalid_def)
    moreover have "bb_rest ?b = take (nat n) (bb_rest b)"
      using k(1,3) by (simp add: bb_rest_def drop_take)
    ultimately show ?thesis using 3 by (intro op_refinesI [OF run]) auto
  qed
qed

lemma grow_refines: "bb_ok b \<Longrightarrow> n < 2 ^ 63 \<Longrightarrow> op_refines M b (OpGrow n)"
proof (cases "n < 0")
  case False
  assume ok: "bb_ok b" and n: "n < 2 ^ 63"
  have nn: "int (nat n) = n" "int (nat n) < 2 ^ 63" using False n by auto
  from ok nn(2) show ?thesis
  proof (cases rule: bb_grow_room [of _ _ M])
    case (grown b' i)
    let ?s = "bb_buf b'"
    let ?t = "?s\<lparr>elems := take i (elems ?s), spare := drop i (elems ?s) @ spare ?s\<rparr>"
    have i: "i \<le> length (elems ?s)" using grown(2) by (simp add: grown_def)
    then have r: "resize ?s (int i) = Inr ?t" by (subst resize_ok) simp_all
    have run: "run_op M b (OpGrow n) = Inr (b'\<lparr>bb_buf := ?t\<rparr>, Done)"
      using False grown(1) [unfolded nn(1)] r by (simp add: bb_Grow_def set_len_def)
    have "scap ?t = scap ?s" by (simp add: scap_def)
    then have "bb_ok (b'\<lparr>bb_buf := ?t\<rparr>)" using grown(2) i by (simp add: grown_def bb_ok_def)
    moreover have "bb_rest (b'\<lparr>bb_buf := ?t\<rparr>) = bb_rest b"
      using grown(2) by (simp add: grown_def bb_rest_def [of "b'\<lparr>bb_buf := ?t\<rparr>"])
    ultimately have "bb_ok (b'\<lparr>bb_buf := ?t\<rparr>)" "bb_rest (b'\<lparr>bb_buf := ?t\<rparr>) = bb_rest b" by auto
    then show ?thesis using False by (intro op_refinesI [OF run]) auto
  next
    case too_large
    then show ?thesis using False by (simp add: op_refines_def bb_Grow_def nn(1))
  qed
qed (simp add: op_refines_def bb_Grow_def)

lemma buffer_op_refines:
  assumes "bb_ok b" "op_valid op"
  shows "op_refines M b op"
proof (cases op)
  case OpReset
  then show ?thesis using assms(1) bb_Reset_ok by (simp add: op_refines_def)
qed (use assms write_refines writebyte_refines writerune_refines read_refines next_refines readbyte_refines
      readrune_refines readline_refines truncate_refines grow_refines in auto)

section \<open>Sequences of operations\<close>

fun run_ops :: "int \<Rightarrow> Buffer \<Rightarrow> buffer_op list \<Rightarrow> (Buffer \<times> buffer_out list) go" where
  "run_ops M b [] = Inr (b, [])"
| "run_ops M b (op # ops) =
     go_bind (run_op M b op) (\<lambda>(b, out). go_bind (run_ops M b ops) (\<lambda>(b, outs). Inr (b, out # outs)))"

fun queue_ops :: "bytes \<Rightarrow> buffer_op list \<Rightarrow> (bytes \<times> buffer_out list) go" where
  "queue_ops q [] = Inr (q, [])"
| "queue_ops q (op # ops) =
     go_bind (queue_op q op) (\<lambda>(q, out). go_bind (queue_ops q ops) (\<lambda>(q, outs). Inr (q, out # outs)))"

text \<open>What growing does to the mark of the last read and to the offset.\<close>

lemma grow_mark:
  assumes "bb_grow M b n = Inr (b', i)"
  shows "bb_lastRead b' = (if bb_Len b = 0 \<and> bb_off b \<noteq> 0 then opInvalid else bb_lastRead b)"
  using assms
  by (auto simp: bb_grow_def Let_def go_bind_Inr tryGrowByReslice_def set_len_def grow_finish_def bb_Reset_def
      split: if_splits)

lemma grow_offset:
  assumes "bb_grow M b n = Inr (b', i)" "bb_ok b" "bb_Len b \<noteq> 0"
  shows "bb_off b' = (if n \<le> int (length (spare (bb_buf b))) then bb_off b else 0)"
proof -
  have nn: "\<not> is_nil (bb_buf b)" using assms(2,3) by (auto simp: bb_ok_def bb_Len_def scap_def)
  show ?thesis using assms(1,3) nn
    by (auto simp: bb_grow_def Let_def go_bind_Inr tryGrowByReslice_def set_len_def grow_finish_def scap_def
      split: if_splits)
qed

text \<open>\<open>Grow\<close> within the capacity changes nothing: it reslices up and down again.\<close>

lemma Grow_fits:
  assumes "bb_ok b" "bb_Len b \<noteq> 0" "n \<le> length (spare (bb_buf b))"
  shows "bb_Grow M b (int n) = Inr b"
proof -
  let ?s = "bb_buf b"
  let ?l = "length (elems ?s)"
  have "resize ?s (int (?l + n)) = Inr (?s\<lparr>elems := elems ?s @ take n (spare ?s), spare := drop n (spare ?s)\<rparr>)"
    by (subst resize_ok) (use assms(3) in simp_all)
  moreover have "resize (?s\<lparr>elems := elems ?s @ take n (spare ?s), spare := drop n (spare ?s)\<rparr>) (int ?l)
      = Inr (?s\<lparr>elems := elems ?s, spare := spare ?s\<rparr>)"
    by (subst resize_ok) simp_all
  ultimately show ?thesis using assms
    by (simp add: bb_Grow_def bb_grow_def tryGrowByReslice_def set_len_def Let_def scap_def)
qed

text \<open>C7: a buffer behaves as a queue of bytes: from a well-formed buffer, any sequence of reads, writes,
  truncations and growths keeps the buffer well formed and returns what the same operations return
  on the list of unread bytes, the documented panics included; the only other outcome is the panic
  \<open>ErrTooLarge\<close>.\<close>

lemma buffer_refines_queue:
  assumes "bb_ok b" "list_all op_valid ops"
  shows "case run_ops M b ops of
      Inr (b', outs) \<Rightarrow> bb_ok b' \<and> queue_ops (bb_rest b) ops = Inr (bb_rest b', outs)
    | Inl e \<Rightarrow> queue_ops (bb_rest b) ops = Inl e \<or> e = ErrTooLarge"
  using assms
proof (induction ops arbitrary: b)
  case (Cons op ops)
  have op: "op_refines M b op" using Cons.prems by (intro buffer_op_refines) auto
  show ?case
  proof (cases "run_op M b op")
    case (Inl e)
    then show ?thesis using op by (auto simp: op_refines_def)
  next
    case (Inr res)
    obtain b1 out where res: "res = (b1, out)" by (cases res)
    then have 1: "bb_ok b1" "queue_op (bb_rest b) op = Inr (bb_rest b1, out)"
      using op Inr by (auto simp: op_refines_def)
    have "list_all op_valid ops" using Cons.prems by simp
    from Cons.IH [OF 1(1) this] show ?thesis
      using 1(2) Inr res by (auto split: sum.splits)
  qed
qed simp

lemma buffer_refines_queue_witness:
  "case run_ops 1000 (NewBufferString [1, 2]) [OpReadByte, OpWrite [3, 4], OpRead [0, 0], OpReadBytes 9] of
      Inr (b', outs) \<Rightarrow> bb_ok b' \<and> queue_ops [1, 2] [OpReadByte, OpWrite [3, 4], OpRead [0, 0], OpReadBytes 9] = Inr (bb_rest b', outs)
    | Inl e \<Rightarrow> queue_ops [1, 2] [OpReadByte, OpWrite [3, 4], OpRead [0, 0], OpReadBytes 9] = Inl e \<or> e = ErrTooLarge"
proof -
  have ok: "bb_ok (NewBufferString [1, 2])" and rest: "bb_rest (NewBufferString [1, 2]) = [1, 2]"
    by (simp_all add: NewBufferString_def buffer_defs slice_of_def)
  show ?thesis
    using buffer_refines_queue [OF ok, of "[OpReadByte, OpWrite [3, 4], OpRead [0, 0], OpReadBytes 9]" 1000]
    unfolding rest by (simp del: run_ops.simps queue_ops.simps)
qed

section \<open>Taking a read back\<close>

definition restores :: "Buffer \<Rightarrow> Buffer \<times> io_error option \<Rightarrow> bool" where
  "restores b u \<longleftrightarrow> (case u of (b', err) \<Rightarrow> err = None \<and> bb_ok b' \<and> bb_rest b' = bb_rest b)"

text \<open>After a successful \<open>ReadByte\<close> or \<open>ReadRune\<close> the matching Unread method succeeds and the unread
  bytes are what they were; \<open>UnreadByte\<close> after \<open>ReadRune\<close> takes back the last byte of the rune.\<close>

lemma buffer_unread:
  assumes "bb_ok b" "bb_rest b \<noteq> []"
  shows "(\<exists>b' c. bb_ReadByte b = Inr (b', c, None) \<and> restores b (bb_UnreadByte b'))
    \<and> (\<exists>b' r n. bb_ReadRune b = Inr (b', r, n, None) \<and> restores b (bb_UnreadRune b') \<and> restores (b\<lparr>bb_off := bb_off b + n - 1\<rparr>) (bb_UnreadByte b'))"
proof -
  obtain k where k: "bb_off b = int k" "k \<le> length (elems (bb_buf b))" "bb_rest b = drop k (elems (bb_buf b))"
    "bb_empty b \<longleftrightarrow> bb_rest b = []" "go_from (elems (bb_buf b)) (bb_off b) = Inr (bb_rest b)"
    using assms(1) by (rule bb_offE)
  have kl: "k < length (elems (bb_buf b))" using k assms(2) by auto
  have idx: "go_index (elems (bb_buf b)) (bb_off b) = Inr (bb_rest b ! 0)"
    using k kl by (simp add: go_index_def)
  have byte: "bb_ReadByte b = Inr (b\<lparr>bb_off := bb_off b + 1, bb_lastRead := opRead\<rparr>, bb_rest b ! 0, None)"
    using k(4) assms(2) idx by (simp add: bb_ReadByte_def)
  have 1: "restores b (bb_UnreadByte (b\<lparr>bb_off := bb_off b + 1, bb_lastRead := opRead\<rparr>))"
    using assms(1) k(1) by (simp add: restores_def bb_UnreadByte_def buffer_defs)
  obtain b' r n where rr: "bb_ReadRune b = Inr (b', r, int n, None)"
    "b' = b\<lparr>bb_off := bb_off b + int n, bb_lastRead := int n\<rparr>" "1 \<le> n" "n \<le> length (bb_rest b)"
  proof (cases "bb_rest b ! 0 < RuneSelf")
    case True
    have "bb_ReadRune b = Inr (b\<lparr>bb_off := bb_off b + int 1, bb_lastRead := int 1\<rparr>, ucast (bb_rest b ! 0), int 1, None)"
      using True k(4) assms(2) idx by (simp add: bb_ReadRune_def opReadRune1_def)
    then show ?thesis using kl k(3) by (intro that) auto
  next
    case False
    then have "bb_ReadRune b = Inr (b\<lparr>bb_off := bb_off b + int (snd (DecodeRune (bb_rest b))),
        bb_lastRead := int (snd (DecodeRune (bb_rest b)))\<rparr>, fst (DecodeRune (bb_rest b)), int (snd (DecodeRune (bb_rest b))), None)"
      using k(4,5) assms(2) idx by (simp add: bb_ReadRune_def case_prod_beta del: RuneSelf_def)
    then show ?thesis using DecodeRune_size [OF assms(2)] by (intro that) auto
  qed
  have l: "k + n \<le> length (elems (bb_buf b))" using rr(4) k(2,3) by simp
  have 2: "restores b (bb_UnreadRune b')"
    using assms(1) k(1) rr(3) by (simp add: rr(2) restores_def bb_UnreadRune_def buffer_defs)
  have 3: "restores (b\<lparr>bb_off := bb_off b + int n - 1\<rparr>) (bb_UnreadByte b')"
    using assms(1) k(1) rr(3) l by (simp add: rr(2) restores_def bb_UnreadByte_def buffer_defs)
  show ?thesis using byte 1 rr(1) 2 3 by blast
qed

lemma buffer_unread_witness:
  "\<exists>b' c. bb_ReadByte (NewBufferString [0xC3, 0xA9]) = Inr (b', c, None) \<and> restores (NewBufferString [0xC3, 0xA9]) (bb_UnreadByte b')"
proof -
  have ok: "bb_ok (NewBufferString [0xC3, 0xA9])" and ne: "bb_rest (NewBufferString [0xC3, 0xA9]) \<noteq> []"
    by (simp_all add: NewBufferString_def buffer_defs slice_of_def)
  show ?thesis using buffer_unread [OF ok ne] by (elim conjE)
qed

text \<open>C39: what \<open>UnreadByte\<close> does after \<open>ReadByte\<close> and \<open>Grow\<close>, for every buffer.  While \<open>Grow\<close> finds its room
  in the capacity, the byte comes back.  When the contents are moved the byte read is gone, but not the mark
  that there was a read: \<open>UnreadByte\<close> then reports success and restores nothing.  When the byte was the last
  one, \<open>Grow\<close> resets the buffer, and \<open>UnreadByte\<close> reports an error.\<close>

lemma unread_after_grow:
  assumes "bb_ok b" "bb_rest b = c # xs" "bb_room M b n"
  shows "\<exists>b1 b2 b3. bb_ReadByte b = Inr (b1, c, None) \<and> bb_Grow M b1 (int n) = Inr b2
    \<and> bb_UnreadByte b2 = (b3, if xs = [] then Some errUnreadByte else None)
    \<and> bb_ok b3 \<and> bb_rest b3 = (if xs \<noteq> [] \<and> n \<le> length (spare (bb_buf b)) then c # xs else xs)"
proof -
  let ?b1 = "b\<lparr>bb_off := bb_off b + 1, bb_lastRead := opRead\<rparr>"
  obtain k where k: "bb_off b = int k" "k \<le> length (elems (bb_buf b))" "bb_rest b = drop k (elems (bb_buf b))"
    "bb_empty b \<longleftrightarrow> bb_rest b = []" using assms(1) by (rule bb_offE)
  have kl: "k < length (elems (bb_buf b))" using k(2,3) assms(2) by (cases "k = length (elems (bb_buf b))") auto
  have hd: "elems (bb_buf b) ! k = c" using hd_drop_conv_nth [OF kl] k(3) assms(2) by (metis list.sel(1))
  have tl: "drop (Suc k) (elems (bb_buf b)) = xs" using k(3) assms(2) by (metis drop_Suc tl_drop list.sel(3))
  have read: "bb_ReadByte b = Inr (?b1, c, None)"
    using k(1,4) assms(2) kl hd by (simp add: bb_ReadByte_def go_index_def)
  have ok1: "bb_ok ?b1" and rest1: "bb_rest ?b1 = xs"
    using assms(1) k(1) kl tl by (auto simp: buffer_defs nat_add_distrib)
  have len1: "bb_Len ?b1 = int (length xs)" using k(1) tl kl by (auto simp: bb_Len_def)
  have n63: "int n < 2 ^ 63" using assms(3) by (simp add: bb_room_def maxInt_eq)
  have room1: "bb_room M ?b1 n" using assms(2,3) ok1 rest1 by (simp add: bb_room_def)
  show ?thesis
  proof (cases "xs \<noteq> [] \<and> n \<le> length (spare (bb_buf b))")
    case True
    have "bb_Grow M ?b1 (int n) = Inr ?b1" by (rule Grow_fits [OF ok1]) (use True len1 in simp_all)
    moreover have "bb_UnreadByte ?b1 = (b\<lparr>bb_off := bb_off b, bb_lastRead := opInvalid\<rparr>, None)"
      using k(1) by (simp add: bb_UnreadByte_def opRead_def opInvalid_def)
    moreover have "bb_ok (b\<lparr>bb_lastRead := opInvalid\<rparr>)" "bb_rest (b\<lparr>bb_lastRead := opInvalid\<rparr>) = c # xs"
      using bb_ok_lastRead(1) [OF assms(1)] assms(2) by (simp_all add: bb_ok_lastRead(2))
    ultimately show ?thesis using read True by simp
  next
    case moved: False
    obtain b2 i where g: "bb_grow M ?b1 (int n) = Inr (b2, int i)" "grown ?b1 b2 i n"
      using ok1 n63 by (cases rule: bb_grow_room [of _ _ M]) (use room1 in auto)
    let ?s = "bb_buf b2"
    let ?t = "?s\<lparr>elems := take i (elems ?s), spare := drop i (elems ?s) @ spare ?s\<rparr>"
    let ?b3 = "b2\<lparr>bb_buf := ?t\<rparr>"
    have i: "i \<le> length (elems ?s)" using g(2) by (simp add: grown_def)
    then have r: "resize ?s (int i) = Inr ?t" by (subst resize_ok) simp_all
    have grow: "bb_Grow M ?b1 (int n) = Inr ?b3" using g(1) r by (simp add: bb_Grow_def set_len_def)
    have "scap ?t = scap ?s" by (simp add: scap_def)
    then have ok3: "bb_ok ?b3" using g(2) i by (simp add: grown_def bb_ok_def)
    have rest3: "bb_rest ?b3 = xs" using g(2) rest1 by (simp add: grown_def bb_rest_def [of ?b3])
    have mark: "bb_lastRead b2 = (if xs = [] then opInvalid else opRead)"
      using grow_mark [OF g(1)] len1 k(1) by simp
    have "bb_UnreadByte ?b3 = (?b3\<lparr>bb_lastRead := opInvalid\<rparr>, if xs = [] then Some errUnreadByte else None)"
    proof (cases "xs = []")
      case True
      then show ?thesis using mark by (simp add: bb_UnreadByte_def)
    next
      case False
      then have "bb_off b2 = 0" using grow_offset [OF g(1) ok1] len1 moved by simp
      then show ?thesis using mark False by (simp add: bb_UnreadByte_def opRead_def opInvalid_def)
    qed
    then show ?thesis using read grow ok3 rest3 moved bb_ok_lastRead(1) [OF ok3] bb_ok_lastRead(2) [of opInvalid "?b3"]
      by (intro exI [of _ ?b1] exI [of _ ?b3] exI [of _ "?b3\<lparr>bb_lastRead := opInvalid\<rparr>"]) auto
  qed
qed

lemma unread_after_grow_witness:
  "\<exists>b1 b2 b3. bb_ReadByte (NewBufferString [1, 2]) = Inr (b1, 1, None) \<and> bb_Grow 1000 b1 (int 10) = Inr b2
    \<and> bb_UnreadByte b2 = (b3, None) \<and> bb_ok b3 \<and> bb_rest b3 = [2]"
proof -
  have ok: "bb_ok (NewBufferString [1, 2])" and rest: "bb_rest (NewBufferString [1, 2]) = [1, 2]"
    by (simp_all add: NewBufferString_def buffer_defs slice_of_def)
  have "bb_room 1000 (NewBufferString [1, 2]) 10" using ok rest by (simp add: bb_room_def maxInt_eq)
  from unread_after_grow [OF ok rest this] show ?thesis by (simp add: NewBufferString_def slice_of_def)
qed
text \<open>\<open>WriteRune\<close> appends the encoding of every rune that is not negative and returns its length; a
  negative rune is appended as one byte, the low byte of its value, not as \<open>RuneError\<close>.\<close>

lemma WriteRune_text:
  assumes "bb_ok b"
  shows "case bb_WriteRune M b r of
      Inr (b', n, err) \<Rightarrow> bb_ok b' \<and> err = None
        \<and> bb_rest b' = bb_rest b @ (if sint r < 0 then [ucast r] else rune_bytes r)
    | Inl e \<Rightarrow> e = ErrTooLarge"
proof -
  have err: "err = None" if "bb_WriteRune M b r = Inr (b', n, err)" for b' n err
    using that by (auto simp: bb_WriteRune_def go_bind_Inr split: if_splits prod.splits)
  show ?thesis
    using bb_WriteRune_appends [OF assms, of M r]
    by (rule appended_cases) (auto simp: written_rune_def dest: err)
qed

lemma WriteRune_text_witness:
  "case bb_WriteRune 1000 (NewBufferString [7]) (- 1) of
      Inr (b', n, err) \<Rightarrow> bb_ok b' \<and> err = None \<and> bb_rest b' = [7, 0xFF]
    | Inl e \<Rightarrow> e = ErrTooLarge"
proof -
  have ok: "bb_ok (NewBufferString [7])" and rest: "bb_rest (NewBufferString [7]) = [7]"
    by (simp_all add: NewBufferString_def buffer_defs slice_of_def)
  have "(ucast (- 1 :: rune) :: byte) = 0xFF" by code_simp
  then show ?thesis using WriteRune_text [OF ok, where M = 1000 and r = "- 1"] unfolding rest
    by (simp split: sum.splits prod.splits)
qed

section \<open>Whole streams\<close>

context stream_writer
begin

lemma bb_WriteTo_all:
  assumes "bb_ok b" "room w (length (bb_rest b))"
  shows "\<exists>b' w'. bb_WriteTo wr b w = Inr (b', w', int (length (bb_rest b)), None)
    \<and> bb_ok b' \<and> bb_rest b' = [] \<and> sent w' = sent w @ bb_rest b"
proof -
  let ?b = "b\<lparr>bb_lastRead := opInvalid\<rparr>"
  have ok: "bb_ok ?b" and rest: "bb_rest ?b = bb_rest b" using assms(1) by (simp_all add: bb_ok_lastRead)
  have len: "bb_Len ?b = int (length (bb_rest b))" and tail: "go_from (elems (bb_buf ?b)) (bb_off ?b) = Inr (bb_rest b)"
    using bb_offE [OF ok] unfolding rest by metis+
  obtain w' where w: "wr w (bb_rest b) = Inr (w', int (length (bb_rest b)), None)" "sent w' = sent w @ bb_rest b"
    using acceptsE [OF assms(2), of "bb_rest b"] by auto
  show ?thesis
  proof (cases "bb_rest b = []")
    case True
    then show ?thesis using len bb_Reset_ok [of ?b] ok
      by (intro exI [of _ "bb_Reset ?b"] exI [of _ w]) (simp add: bb_WriteTo_def Let_def)
  next
    case False
    let ?b' = "bb_Reset (?b\<lparr>bb_off := wrap64 (bb_off ?b + int (length (bb_rest b)))\<rparr>)"
    have "bb_WriteTo wr b w = Inr (?b', w', int (length (bb_rest b)), None)"
      using False len tail w(1) by (simp add: bb_WriteTo_def Let_def)
    moreover have "?b' = bb_Reset ?b" by (simp add: bb_Reset_def)
    ultimately show ?thesis using bb_Reset_ok [of ?b] ok w(2)
      by (intro exI [of _ ?b'] exI [of _ w']) simp
  qed
qed

end

context stream_reader
begin

lemma read_chunk_step:
  assumes "ok r" "bb_room M b 512"
  shows "\<exists>b' r' k e. read_chunk M rd b r = Inr (b', r', int k, e) \<and> bb_ok b' \<and> ok r'
    \<and> k \<le> length (rest r) \<and> rest r' = drop k (rest r) \<and> bb_rest b' = bb_rest b @ take k (rest r)
    \<and> (e = None \<and> 0 < k \<or> e = Some EOF \<and> k = length (rest r))"
proof -
  have b: "bb_ok b" "int 512 < 2 ^ 63" using assms(2) by (simp_all add: bb_room_def)
  from b show ?thesis
  proof (cases rule: bb_grow_room [of _ _ M])
    case (grown b1 i)
    let ?s = "bb_buf b1" and ?e = "take i (elems (bb_buf b1))"
    define p where "p = drop i (elems ?s) @ spare ?s"
    have li: "length (elems ?s) = i + 512" using grown(2) by (simp add: grown_def)
    then have i: "length ?e = i" "length p = 512 + length (spare ?s)" by (simp_all add: p_def)
    let ?s1 = "?s\<lparr>elems := ?e, spare := p\<rparr>"
    have r1: "resize ?s (int i) = Inr ?s1" using li by (subst resize_ok) (simp_all add: p_def)
    have cap1: "scap ?s1 = int (i + length p)" using i by (simp add: scap_def)
    have win: "window ?s1 (int i) (scap ?s1) = Inr p"
      unfolding cap1 using i by (subst window_ok) (simp_all add: seg_def)
    obtain r' k e where r: "rd r p = Inr (r', take k (rest r) @ drop k p, int k, e)" "ok r'" "k \<le> length p"
      "k \<le> length (rest r)" "rest r' = drop k (rest r)"
      "e = None \<and> (p = [] \<or> 0 < k) \<or> e = Some EOF \<and> k = length (rest r)"
      by (rule deliversE [OF delivers [OF assms(1)]])
    let ?p = "take k (rest r) @ drop k p"
    have lp: "length ?p = length p" using r(3,4) by simp
    have st: "store ?s1 i ?p = ?s1\<lparr>spare := ?p\<rparr>" using i lp by (simp add: store_def Let_def)
    let ?s2 = "?s1\<lparr>elems := ?e @ take k (rest r), spare := drop k p\<rparr>"
    have "resize (?s1\<lparr>spare := ?p\<rparr>) (int (i + k)) = Inr ?s2"
      using i r(3,4) by (subst resize_ok) simp_all
    then have r2: "resize (?s1\<lparr>spare := ?p\<rparr>) (int i + int k) = Inr ?s2" by simp
    let ?b = "b1\<lparr>bb_buf := ?s2\<rparr>"
    have m: "MinRead = int 512" by (simp add: MinRead_def)
    have "read_chunk M rd b r = Inr (?b, r', int k, e)"
      unfolding read_chunk_def m grown(1) using r1 win r(1) st r2 by (simp add: set_len_def)
    moreover have "scap ?s2 = scap ?s" using i r(3,4) li by (simp add: scap_def p_def)
    then have "bb_ok ?b" using grown(2) i by (simp add: grown_def bb_ok_def)
    moreover have "bb_rest ?b = bb_rest b @ take k (rest r)"
    proof -
      have "bb_rest ?b = drop (nat (bb_off b1)) (?e @ take k (rest r))" by (simp add: bb_rest_def)
      then show ?thesis using grown(2) i(1) by (simp add: grown_def nat_le_iff)
    qed
    ultimately show ?thesis using r i(2) by (intro exI [of _ ?b] exI [of _ r'] exI [of _ k] exI [of _ e]) auto
  next
    case too_large
    then show ?thesis using assms(2) by simp
  qed
qed

lemma readfrom_loop_all:
  assumes "ok r" "bb_room M b (length (rest r) + 512)" "n + length (rest r) < 2 ^ 63"
  shows "\<exists>b' r'. readfrom_loop M rd b r (int n) = Some (Inr (b', r', int (n + length (rest r)), None))
    \<and> bb_ok b' \<and> ok r' \<and> rest r' = [] \<and> bb_rest b' = bb_rest b @ rest r"
  using assms
proof (induction "length (rest r)" arbitrary: r b n rule: less_induct)
  case less
  have room: "bb_room M b 512" using less.prems(2) by (simp add: bb_room_def)
  obtain b1 r1 k e where c: "read_chunk M rd b r = Inr (b1, r1, int k, e)" "bb_ok b1" "ok r1"
    "k \<le> length (rest r)" "rest r1 = drop k (rest r)" "bb_rest b1 = bb_rest b @ take k (rest r)"
    "e = None \<and> 0 < k \<or> e = Some EOF \<and> k = length (rest r)"
    using read_chunk_step [OF less.prems(1) room] by blast
  have w: "wrap64 (int n + int k) = int (n + k)" using less.prems(3) c(4) by (subst wrap64_id) auto
  show ?case
  proof (cases "e = None")
    case True
    have h: "length (rest r1) < length (rest r)" "bb_room M b1 (length (rest r1) + 512)"
      "n + k + length (rest r1) < 2 ^ 63"
      using c True less.prems(2,3) by (auto simp: bb_room_def)
    obtain b' r' where IH: "readfrom_loop M rd b1 r1 (int (n + k)) = Some (Inr (b', r', int (n + k + length (rest r1)), None))"
      "bb_ok b'" "ok r'" "rest r' = []" "bb_rest b' = bb_rest b1 @ rest r1"
      using less.hyps [OF h(1) c(3) h(2,3)] by blast
    have "n + k + length (rest r1) = n + length (rest r)" using c(4,5) by simp
    moreover have "readfrom_loop M rd b r (int n) = readfrom_loop M rd b1 r1 (int (n + k))"
      by (subst readfrom_loop.simps) (simp add: c(1) True w del: of_nat_add)
    ultimately show ?thesis using IH c(5,6) by (intro exI [of _ b'] exI [of _ r']) simp
  next
    case False
    then have e: "e = Some EOF" "k = length (rest r)" using c(7) by auto
    have "readfrom_loop M rd b r (int n) = Some (Inr (b1, r1, int (n + k), None))"
      by (subst readfrom_loop.simps) (simp add: c(1) e(1) w del: of_nat_add)
    then show ?thesis using c e by (intro exI [of _ b1] exI [of _ r1]) simp
  qed
qed

lemma bb_ReadFrom_all:
  assumes "ok r" "bb_room M b (length (rest r) + 512)" "length (rest r) < 2 ^ 63"
  shows "\<exists>b' r'. bb_ReadFrom M rd b r = Some (Inr (b', r', int (length (rest r)), None))
    \<and> bb_ok b' \<and> ok r' \<and> rest r' = [] \<and> bb_rest b' = bb_rest b @ rest r"
proof -
  let ?b = "b\<lparr>bb_lastRead := opInvalid\<rparr>"
  have "bb_room M ?b (length (rest r) + 512)"
    using assms(2) by (simp add: bb_room_def bb_ok_lastRead)
  from readfrom_loop_all [OF assms(1) this, of 0] show ?thesis
    using assms(3) by (simp add: bb_ReadFrom_def bb_ok_lastRead)
qed

end

end
