(* ===== verification/IoProps.thy ===== *)
theory IoProps
  imports StringsReader StringsBuilder BufferQueue
begin

text \<open>
  The readers and writers of \<open>bytes\<close> and \<open>strings\<close> joined by the functions of \<open>io\<close>: the contracts of
  \<open>IoLaws\<close> interpreted on them, and what copying between them does.
\<close>

section \<open>Compositions of readers and writers\<close>

interpretation multi_sr: copying "multi_read sr_Read" "multi_rest sr_rest" "multi_ok sr_ok" "sb_Write newcap self" sb_String
    "\<lambda>b n. owned self b" for newcap self
  by unfold_locales (rule sr.multi_delivers)

interpretation br_sb: limited_copying br_Read br_rest br_ok "sb_Write newcap self" sb_String "\<lambda>b n. owned self b" s n for newcap self s n
  by unfold_locales

interpretation bb_sb: copying bb_Read bb_rest bb_ok "sb_Write newcap self" sb_String "\<lambda>b n. owned self b" for newcap self
  by unfold_locales

text \<open>\<open>*bytes.Buffer\<close> as the destination of \<open>io.Copy\<close>: its method \<open>ReadFrom\<close>, which \<open>copyBuffer\<close> prefers to \<open>Write\<close>.\<close>

definition buffer_ReaderFrom :: "int \<Rightarrow> 'r reader \<Rightarrow> ('r, Buffer) transfer" where
  "buffer_ReaderFrom M rd src dst = run_bind (bb_ReadFrom M rd dst src) (\<lambda>(b, r, n, err). Some (Inr (r, b, n, err)))"

text \<open>C22: \<open>io.Copy\<close> from what \<open>MultiReader\<close> returns, nested to any depth, over string readers ends, appends to the destination
  the concatenation of what the readers hold, and reports its length and no error: through the loop of \<open>copyBuffer\<close>
  and \<open>Write\<close> for a \<open>strings.Builder\<close>, which has no \<open>ReadFrom\<close>, and through \<open>ReadFrom\<close> for a \<open>bytes.Buffer\<close>.\<close>

lemma Copy_MultiReader:
  assumes "multi_ok sr_ok (Multi ms)" "length (multi_rest sr_rest (Multi ms)) < 2 ^ 63"
    "owned self sb" "bb_room M b (length (multi_rest sr_rest (Multi ms)) + 512)"
  shows "(\<exists>m' sb'. Copy (multi_read sr_Read) None (\<lambda>_. None) (sb_Write newcap self) None sb (Multi ms)
        = Some (Inr (m', sb', int (length (multi_rest sr_rest (Multi ms))), None))
      \<and> multi_rest sr_rest m' = [] \<and> sb_String sb' = sb_String sb @ multi_rest sr_rest (Multi ms))
    \<and> (\<exists>m' b'. Copy (multi_read sr_Read) None (\<lambda>_. None) (bb_Write M) (Some (buffer_ReaderFrom M (multi_read sr_Read))) b (Multi ms)
        = Some (Inr (m', b', int (length (multi_rest sr_rest (Multi ms))), None))
      \<and> multi_rest sr_rest m' = [] \<and> bb_rest b' = bb_rest b @ multi_rest sr_rest (Multi ms))"
proof
  show "\<exists>m' sb'. Copy (multi_read sr_Read) None (\<lambda>_. None) (sb_Write newcap self) None sb (Multi ms)
        = Some (Inr (m', sb', int (length (multi_rest sr_rest (Multi ms))), None))
      \<and> multi_rest sr_rest m' = [] \<and> sb_String sb' = sb_String sb @ multi_rest sr_rest (Multi ms)"
    using multi_sr.Copy_all [where lim = "\<lambda>_. None" and newcap = newcap, OF assms(1,3,2)] by blast
  obtain b' m' where "bb_ReadFrom M (multi_read sr_Read) b (Multi ms)
      = Some (Inr (b', m', int (length (multi_rest sr_rest (Multi ms))), None))"
    "multi_rest sr_rest m' = []" "bb_rest b' = bb_rest b @ multi_rest sr_rest (Multi ms)"
    using multi_sr.bb_ReadFrom_all [OF assms(1,4,2)] by blast
  then show "\<exists>m' b'. Copy (multi_read sr_Read) None (\<lambda>_. None) (bb_Write M) (Some (buffer_ReaderFrom M (multi_read sr_Read))) b (Multi ms)
        = Some (Inr (m', b', int (length (multi_rest sr_rest (Multi ms))), None))
      \<and> multi_rest sr_rest m' = [] \<and> bb_rest b' = bb_rest b @ multi_rest sr_rest (Multi ms)"
    by (simp add: Copy_def copyBuffer_def buffer_ReaderFrom_def)
qed

lemma Copy_MultiReader_witness:
  "(\<exists>m' sb'. Copy (multi_read sr_Read) None (\<lambda>_. None) (sb_Write (\<lambda>c n. c + n) 1) None new_Builder
        (Multi [Leaf (sr_NewReader [2, 3]), EofReader, Multi [Leaf (sr_NewReader [4])]])
      = Some (Inr (m', sb', 3, None)) \<and> sb_String sb' = [2, 3, 4])
   \<and> (\<exists>m' b'. Copy (multi_read sr_Read) None (\<lambda>_. None) (bb_Write 10000) (Some (buffer_ReaderFrom 10000 (multi_read sr_Read))) (NewBufferString [1])
        (Multi [Leaf (sr_NewReader [2, 3]), EofReader, Multi [Leaf (sr_NewReader [4])]])
      = Some (Inr (m', b', 3, None)) \<and> bb_rest b' = [1, 2, 3, 4])"
proof -
  let ?ms = "[Leaf (sr_NewReader [2, 3]), EofReader, Multi [Leaf (sr_NewReader [4])]]"
  have rest: "multi_rest sr_rest (Multi ?ms) = [2, 3, 4]" "bb_rest (NewBufferString [1]) = [1]" "sb_String new_Builder = []"
    by (simp_all add: sr_NewReader_def sr_rest_def br_rest_def NewBufferString_def bb_rest_def slice_of_def
        sb_String_def new_Builder_def nil_slice_def)
  have "multi_ok sr_ok (Multi ?ms)" "length (multi_rest sr_rest (Multi ?ms)) < 2 ^ 63" "owned 1 new_Builder"
    "bb_room 10000 (NewBufferString [1]) (length (multi_rest sr_rest (Multi ?ms)) + 512)"
    unfolding rest
    by (simp_all add: sr_NewReader_def multi_ok_def sr_ok_def br_ok_def bb_room_def bb_rest_def owned_def new_Builder_def
        NewBufferString_def bb_ok_def scap_def slice_of_def opInvalid_def maxInt_eq)
  from Copy_MultiReader [OF this, of "\<lambda>c n. c + n"] show ?thesis unfolding rest by auto
qed

text \<open>\<open>io.CopyN\<close> moves exactly \<open>n\<close> bytes from a reader to a builder, leaving the rest of the reader alone, or all
  there are and the error \<open>EOF\<close>.\<close>

lemma CopyN_exact:
  assumes "br_ok r" "n < 2 ^ 63" "owned self b"
  shows "\<exists>r' b'. CopyN br_Read (sb_Write newcap self) None b r (int n)
      = Some (Inr (r', b', int (min n (length (br_rest r))), if n \<le> length (br_rest r) then None else Some EOF))
    \<and> br_rest r' = drop n (br_rest r) \<and> sb_String b' = sb_String b @ take n (br_rest r)"
  using br_sb.CopyN_all [OF assms(1) refl assms(2,3)] by blast

lemma CopyN_exact_witness:
  "\<exists>r' b'. CopyN br_Read (sb_Write (\<lambda>c n. c + n) 1) None new_Builder (br_NewReader [1, 2, 3]) (int 2)
      = Some (Inr (r', b', 2, None)) \<and> br_rest r' = [3] \<and> sb_String b' = [1, 2]"
proof -
  have rest: "br_rest (br_NewReader [1, 2, 3]) = [1, 2, 3]" "sb_String new_Builder = []"
    by (simp_all add: br_NewReader_def br_rest_def sb_String_def new_Builder_def nil_slice_def)
  have "br_ok (br_NewReader [1, 2, 3])" "(2 :: nat) < 2 ^ 63" "owned 1 new_Builder"
    by (simp_all add: br_NewReader_def br_ok_def owned_def new_Builder_def)
  from CopyN_exact [OF this, of "\<lambda>c n. c + n"] show ?thesis unfolding rest by simp
qed

section \<open>Sections\<close>

definition sec_rest :: "BytesReader SectionReader \<Rightarrow> bytes" where
  "sec_rest s = take (nat (sec_limit s - sec_off s)) (drop (nat (sec_off s)) (br_s (sec_r s)))"

definition sec_ok :: "BytesReader SectionReader \<Rightarrow> bool" where
  "sec_ok s \<longleftrightarrow> 0 \<le> sec_base s \<and> sec_base s \<le> sec_off s \<and> sec_off s < 2 ^ 63 \<and> sec_limit s < 2 ^ 63 \<and> - (2 ^ 63) \<le> sec_limit s"

lemma section_Read_delivers:
  assumes "sec_ok s"
  shows "delivers (section_Read br_ReadAt) sec_rest sec_ok s p"
proof (cases "sec_off s \<ge> sec_limit s")
  case True
  then show ?thesis using assms
    by (intro deliversI [where r' = s and k = 0 and e = "Some EOF"]) (simp_all add: section_Read_def sec_rest_def)
next
  case False
  let ?max = "sec_limit s - sec_off s"
  obtain o' where o': "sec_off s = int o'" using assms by (metis nonneg_int_cases order_trans sec_ok_def)
  obtain m where m: "?max = int m" "0 < m" using False by (metis diff_gt_0_iff_gt not_le pos_int_cases)
  have w: "wrap64 ?max = ?max" using assms False by (intro wrap64_id) (auto simp: sec_ok_def)
  define q where "q = take m p"
  have q: "(if int (length p) > ?max then go_sub p 0 ?max else Inr p) = Inr q"
    unfolding m q_def by simp
  define t where "t = take (length q) (drop o' (br_s (sec_r s)))"
  have at: "br_ReadAt (sec_r s) q (sec_off s) = Inr (sec_r s, t @ drop (length t) q, int (length t),
      if o' \<ge> length (br_s (sec_r s)) \<or> length t < length q then Some EOF else None)"
    using br_ReadAt_segment [of "sec_off s" "sec_r s" q] unfolding o' Let_def nat_int t_def [symmetric] by simp
  have rest: "sec_rest s = take m (drop o' (br_s (sec_r s)))" using m(1) by (simp add: sec_rest_def o')
  have tl: "length t \<le> m" "length t \<le> length p" "length t \<le> length (drop o' (br_s (sec_r s)))"
    by (simp_all add: t_def q_def)
  have tt: "t = take (length t) (sec_rest s)"
  proof -
    have "t = take (length t) t" by simp
    also have "\<dots> = take (length t) (take (length q) (drop o' (br_s (sec_r s))))" by (simp only: t_def)
    also have "\<dots> = take (length t) (drop o' (br_s (sec_r s)))" by (simp add: t_def)
    also have "\<dots> = take (length t) (sec_rest s)" using tl(1) by (simp add: rest min_def)
    finally show ?thesis .
  qed
  have w2: "wrap64 (sec_off s + int (length t)) = int (o' + length t)"
    using assms m tl(1) by (subst wrap64_id) (auto simp: sec_ok_def o')
  have dq: "t @ drop (length t) q @ drop (length q) p = t @ drop (length t) p"
  proof -
    have "q @ drop (length q) p = p" unfolding q_def by (cases "m \<le> length p") simp_all
    moreover have "length t \<le> length q" by (simp add: t_def)
    then have "drop (length t) q @ drop (length q) p = drop (length t) (q @ drop (length q) p)" by simp
    ultimately show ?thesis by simp
  qed
  let ?s = "s\<lparr>sec_off := int (o' + length t)\<rparr>"
  have read: "section_Read br_ReadAt s p = Inr (?s, t @ drop (length t) p, int (length t),
      if o' \<ge> length (br_s (sec_r s)) \<or> length t < length q then Some EOF else None)"
    unfolding section_Read_def if_not_P [OF False] Let_def w q go_bind.simps at using w2 dq by simp
  have ok: "sec_ok ?s" using assms m tl(1) by (auto simp: sec_ok_def o')
  have rest': "sec_rest ?s = drop (length t) (sec_rest s)"
  proof -
    have "nat (sec_limit s - int (o' + length t)) = m - length t" using m(1) by (simp add: o')
    moreover have "sec_rest ?s = take (nat (sec_limit s - int (o' + length t))) (drop (o' + length t) (br_s (sec_r s)))"
      by (simp add: sec_rest_def del: of_nat_add)
    ultimately show ?thesis by (simp add: rest drop_take add.commute)
  qed
  let ?a = "length (br_s (sec_r s)) - o'"
  have lr: "length (sec_rest s) = min m ?a" by (simp add: rest min.commute)
  have lq: "length q = min m (length p)" by (simp add: q_def min.commute)
  have lt: "length t = min (length q) ?a" by (simp add: t_def min.commute)
  let ?e = "if o' \<ge> length (br_s (sec_r s)) \<or> length t < length q then Some EOF else None"
  have e: "?e = None \<and> (p = [] \<or> 0 < length t) \<or> ?e = Some EOF \<and> length t = length (sec_rest s)"
  proof (cases "o' \<ge> length (br_s (sec_r s)) \<or> length t < length q")
    case True
    then have "?a \<le> length q" using lt by (auto simp: min_def split: if_splits)
    then have "length t = length (sec_rest s)" using lt lr lq by linarith
    then show ?thesis using True by (simp only: if_True simp_thms)
  next
    case ge: False
    then have "length t = length q" using lt by (simp add: min_def split: if_splits)
    then have "p = [] \<or> 0 < length t" using lq m(2) by (cases p) simp_all
    then show ?thesis using ge by (simp only: if_False simp_thms)
  qed
  have le: "length t \<le> length (sec_rest s)" using lt lr lq by simp
  show ?thesis
  proof (rule deliversI [where r' = ?s and k = "length t" and e = ?e])
    show "section_Read br_ReadAt s p = Inr (?s, take (length t) (sec_rest s) @ drop (length t) p, int (length t), ?e)"
      unfolding tt [symmetric] by (rule read)
  qed (fact ok tl(2) le rest' e)+
qed

interpretation sec: stream_reader "section_Read br_ReadAt" sec_rest sec_ok
  by unfold_locales (rule section_Read_delivers)

text \<open>C37: reading a section fully: \<open>io.ReadFull\<close> over \<open>NewSectionReader(r, off, n)\<close> fills the buffer with the bytes
  \<open>off, off+1, ...\<close> of the underlying data, never past \<open>off+n\<close>, with \<open>EOF\<close> when there are none and
  \<open>ErrUnexpectedEOF\<close> when there are too few; but when \<open>off+n\<close> does not fit an \<open>int64\<close> the bound wraps
  and the section is empty.\<close>

lemma ReadFull_section:
  assumes "0 \<le> off" "off < 2 ^ 63" "0 \<le> n" "n < 2 ^ 63" "length buf < 2 ^ 63"
  shows "\<exists>s'. ReadFull (section_Read br_ReadAt) (NewSectionReader r off n) buf =
      (let sect = (if off + n < 2 ^ 63 then take (nat n) (drop (nat off) (br_s r)) else []);
           m = min (length buf) (length sect) in
       Some (Inr (s', take m sect @ drop m buf, int m,
         if length buf \<le> length sect then None
         else if sect = [] then Some EOF else Some ErrUnexpectedEOF)))"
proof -
  let ?s = "NewSectionReader r off n"
  have ok: "sec_ok ?s" using assms wrap64_range [of "off + n"] by (simp add: sec_ok_def NewSectionReader_def)
  have rest: "sec_rest ?s = (if off + n < 2 ^ 63 then take (nat n) (drop (nat off) (br_s r)) else [])"
  proof (cases "off + n < 2 ^ 63")
    case True
    then have "wrap64 (off + n) = off + n" using assms by (intro wrap64_id) auto
    then show ?thesis using True by (simp add: sec_rest_def NewSectionReader_def)
  next
    case False
    have "wrap64 (off + n) = wrap64 (off + n - 2 ^ 64)"
    proof -
      have "(word_of_int (off + n) :: 64 word) = word_of_int (off + n - 2 ^ 64)" by (simp add: word_of_int_eq_iff take_bit_eq_mod)
      then show ?thesis by (simp only: wrap64_def)
    qed
    also have "\<dots> = off + n - 2 ^ 64" using False assms by (intro wrap64_id) auto
    finally have "wrap64 (off + n) < 0" using assms by simp
    then show ?thesis using False assms(1) by (simp add: sec_rest_def NewSectionReader_def)
  qed
  show ?thesis using sec.ReadFull_delivers [OF ok assms(5)] unfolding rest by (simp only: Let_def) blast
qed

lemma ReadFull_section_witness:
  "\<exists>s'. ReadFull (section_Read br_ReadAt) (NewSectionReader (br_NewReader [1, 2, 3, 4]) 1 2) [0, 0, 0] =
     Some (Inr (s', [2, 3, 0], 2, Some ErrUnexpectedEOF))"
  using ReadFull_section [of 1 2 "[0, 0, 0]" "br_NewReader [1, 2, 3, 4]"]
  by (simp add: br_NewReader_def Let_def)

end
