(* ===== verification/SyncMutex.thy ===== *)
theory SyncMutex
  imports Prelude
begin

text \<open>
  \<open>sync.Mutex\<close> (\<open>sync/mutex.go\<close>): any number of goroutines that lock and unlock one mutex, as a step
  relation whose steps are the atomic accesses to the state word and to the semaphore.
\<close>

section \<open>The state word\<close>

definition mutexLocked :: u32 where "mutexLocked = 1"
definition mutexWoken :: u32 where "mutexWoken = 2"
definition mutexStarving :: u32 where "mutexStarving = 4"
definition mutexWaiterShift :: nat where "mutexWaiterShift = 3"

definition mutexWaiter :: u32 where "mutexWaiter = push_bit mutexWaiterShift 1"

abbreviation waiters :: "u32 \<Rightarrow> u32" where "waiters old \<equiv> signed_drop_bit mutexWaiterShift old"

text \<open>The value of the word with its three flags and the number of waiters.\<close>

definition mk :: "bool \<Rightarrow> bool \<Rightarrow> bool \<Rightarrow> nat \<Rightarrow> u32" where
  "mk l w s n = of_nat (of_bool l + 2 * of_bool w + 4 * of_bool s + 8 * n)"

lemmas mutex_consts = mutexLocked_def mutexWoken_def mutexStarving_def mutexWaiterShift_def mutexWaiter_def

lemma and_push3:
  assumes "m \<in> {1, 2, 3, 4, 5, 6, 7}"
  shows "(m :: u32) AND push_bit 3 x = 0" "push_bit 3 x AND m = 0"
proof -
  have "take_bit 3 m = m" using assms by (auto simp: take_bit_eq_mod)
  then have "\<not> bit m n" if "3 \<le> n" for n using that by (metis bit_take_bit_iff not_le)
  then show "m AND push_bit 3 x = 0"
    by (intro bit_eqI) (auto simp: bit_and_iff bit_push_bit_iff)
  then show "push_bit 3 x AND m = 0" by (simp only: and.commute)
qed

lemma mk_bits: "mk l w s n = of_nat (of_bool l + 2 * of_bool w + 4 * of_bool s) OR push_bit 3 (of_nat n)"
proof -
  have "of_nat (of_bool l + 2 * of_bool w + 4 * of_bool s) AND push_bit 3 (of_nat n) = (0 :: u32)"
    using and_push3 [of "of_nat (of_bool l + 2 * of_bool w + 4 * of_bool s)" "of_nat n"]
    by (cases l; cases w; cases s) (simp_all add: and_push3)
  then have "of_nat (of_bool l + 2 * of_bool w + 4 * of_bool s) OR push_bit 3 (of_nat n) =
      of_nat (of_bool l + 2 * of_bool w + 4 * of_bool s) + push_bit 3 (of_nat n :: u32)"
    by (simp add: disjunctive_add_eq_or)
  then show ?thesis by (simp add: mk_def push_bit_eq_mult algebra_simps)
qed

lemma mk_and:
  assumes "m \<in> {1, 2, 3, 4, 5, 6, 7}"
  shows "mk l w s n AND m = of_nat (of_bool l + 2 * of_bool w + 4 * of_bool s) AND m"
  unfolding mk_bits bit.conj_disj_distrib2 and_push3(2) [OF assms] by simp

lemma mk_tests [simp]:
  "mk l w s n AND mutexLocked = 0 \<longleftrightarrow> \<not> l"
  "mk l w s n AND mutexWoken = 0 \<longleftrightarrow> \<not> w"
  "mk l w s n AND mutexStarving = 0 \<longleftrightarrow> \<not> s"
  "mk l w s n AND (mutexLocked OR mutexStarving) = 0 \<longleftrightarrow> \<not> l \<and> \<not> s"
  "mk l w s n AND (mutexLocked OR mutexStarving) = mutexLocked \<longleftrightarrow> l \<and> \<not> s"
  "mk l w s n AND (mutexLocked OR mutexWoken) = 0 \<longleftrightarrow> \<not> l \<and> \<not> w"
  "mk l w s n AND (mutexLocked OR mutexWoken OR mutexStarving) = 0 \<longleftrightarrow> \<not> l \<and> \<not> w \<and> \<not> s"
  by (cases l; cases w; cases s; simp add: mutex_consts mk_and)+

lemma mk_unat: "n < 2 ^ 28 \<Longrightarrow> unat (mk l w s n) = of_bool l + 2 * of_bool w + 4 * of_bool s + 8 * n"
  unfolding mk_def
  by (subst unsigned_of_nat, subst take_bit_nat_eq_self) (auto split: if_splits simp: of_bool_def)

lemma mk_eq: "n < 2 ^ 28 \<Longrightarrow> n' < 2 ^ 28 \<Longrightarrow>
    mk l w s n = mk l' w' s' n' \<longleftrightarrow> l = l' \<and> w = w' \<and> s = s' \<and> n = n'"
proof
  assume n: "n < 2 ^ 28" "n' < 2 ^ 28" and eq: "mk l w s n = mk l' w' s' n'"
  have "of_bool l + 2 * of_bool w + 4 * of_bool s + 8 * n
      = of_bool l' + 2 * of_bool w' + 4 * of_bool s' + (8 * n' :: nat)"
    using mk_unat [OF n(1)] mk_unat [OF n(2)] eq by metis
  then show "l = l' \<and> w = w' \<and> s = s' \<and> n = n'"
    by (cases l; cases w; cases s; cases l'; cases w'; cases s'; simp; presburger)
qed simp

lemma mk_waiters: "n < 2 ^ 28 \<Longrightarrow> waiters (mk l w s n) = of_nat n"
proof -
  assume n: "n < 2 ^ 28"
  have "unat (mk l w s n) < 2 ^ 31" unfolding mk_unat [OF n] using n by (auto simp: of_bool_def)
  then have "unat (waiters (mk l w s n)) = unat (mk l w s n) div 2 ^ 3"
    unfolding mutex_consts by (intro unat_signed_drop_bit) simp
  also have "\<dots> = n" unfolding mk_unat [OF n] by (cases l; cases w; cases s) simp_all
  finally show ?thesis by (metis of_nat_unat ucast_id)
qed

lemma mk_waiters_tests [simp]:
  assumes "n < 2 ^ 28"
  shows "waiters (mk l w s n) = 0 \<longleftrightarrow> n = 0" "waiters (mk l w s n) = 1 \<longleftrightarrow> n = 1"
proof -
  have "unat (of_nat n :: u32) = n" using assms by (simp add: unsigned_of_nat take_bit_nat_eq_self)
  then show "waiters (mk l w s n) = 0 \<longleftrightarrow> n = 0" "waiters (mk l w s n) = 1 \<longleftrightarrow> n = 1"
    unfolding mk_waiters [OF assms] by (auto simp: word_unat_eq_iff)
qed

lemma mk_updates [simp]:
  "mk l w s n OR mutexLocked = mk True w s n"
  "mk l w s n OR mutexWoken = mk l True s n"
  "mk l w s n OR mutexStarving = mk l w True n"
  "mk l w s n AND NOT mutexWoken = mk l False s n"
  "mk l w s n + mutexWaiter = mk l w s (Suc n)"
  "mk True w s n - mutexLocked = mk False w s n"
  "mk False w s n + mutexLocked = mk True w s n"
  "mk False w s (Suc n) + (mutexLocked - mutexWaiter) = mk True w s n"
  "mk False w True (Suc n) + (mutexLocked - mutexWaiter - mutexStarving) = mk True w False n"
  "mk l w s (Suc n) - mutexWaiter = mk l w s n"
proof -
  show "mk l w s n OR mutexLocked = mk True w s n" "mk l w s n OR mutexWoken = mk l True s n"
    "mk l w s n OR mutexStarving = mk l w True n"
    by (cases l; cases w; cases s; simp add: mk_bits mutex_consts or.assoc or.commute or.left_commute;
        simp flip: or.assoc)+
  have "push_bit 3 x AND NOT (2 :: u32) = push_bit 3 x" for x :: u32
  proof -
    have "push_bit 3 x = (push_bit 3 x AND NOT 2) OR (push_bit 3 x AND 2)"
      by (simp flip: bit.conj_disj_distrib)
    then show ?thesis using and_push3 [of 2 x] by (simp add: and.commute)
  qed
  then show "mk l w s n AND NOT mutexWoken = mk l False s n"
    by (cases l; cases w; cases s) (simp_all add: mk_bits mutex_consts bit.conj_disj_distrib2)
qed (simp_all add: mk_def mutex_consts push_bit_eq_mult algebra_simps)

lemma mk_zero: "mk False False False 0 = 0"
  by (simp add: mk_def)

lemma mk_cases:
  obtains l w s n where "old = mk l w s n"
proof
  define r where "r = unat old mod 8"
  have "r < 8" by (simp add: r_def)
  then have "r \<in> {0, 1, 2, 3, 4, 5, 6, 7}" by auto
  then have "of_bool (odd r) + 2 * of_bool (odd (r div 2)) + 4 * of_bool (odd (r div 4)) = r" by auto
  moreover have "unat old = r + 8 * (unat old div 8)" by (simp add: r_def)
  ultimately show "old = mk (odd r) (odd (r div 2)) (odd (r div 4)) (unat old div 8)"
    unfolding mk_def by (metis of_nat_unat ucast_id)
qed

section \<open>Goroutines\<close>

text \<open>
  Where a goroutine is, with the local variables that matter there: \<open>old\<close>, \<open>starving\<close>, \<open>awoke\<close>.
  \<^item> \<open>Loop\<close>: at the top of the loop of \<open>lockSlow\<close>; \<open>Reread\<close>: about to execute \<open>old = m.state\<close>;
  \<^item> \<open>Sleeping\<close>: in \<open>runtime_SemacquireMutex\<close>; \<open>Woken\<close>: after it returned; \<open>Handoff\<close>: before the
    \<open>AddInt32\<close> that takes over a starving mutex;
  \<^item> \<open>Critical\<close>: holds the mutex; \<open>UnlockLoop\<close>, \<open>UnlockReread\<close>, \<open>Release\<close>: in \<open>unlockSlow\<close>, \<open>Release\<close>
    before \<open>runtime_Semrelease\<close> with its \<open>handoff\<close> argument;
  \<^item> \<open>Thrown\<close>: has thrown a fatal error.
\<close>

datatype pc =
    Idle
  | Loop u32 bool bool | Reread bool bool
  | Sleeping bool | Woken bool | Handoff u32
  | Critical
  | UnlockLoop u32 | UnlockReread | Release bool
  | Thrown

record mutex =
  state :: u32
  sema :: nat
  pcs :: "pc list"

text \<open>The word that \<open>lockSlow\<close> tries to install, none when it throws.\<close>

definition lock_word :: "u32 \<Rightarrow> bool \<Rightarrow> bool \<Rightarrow> u32 option" where
  "lock_word old starving awoke =
     (let new = old;
          new = (if old AND mutexStarving = 0 then new OR mutexLocked else new);
          new = (if old AND (mutexLocked OR mutexStarving) \<noteq> 0 then new + mutexWaiter else new);
          new = (if starving \<and> old AND mutexLocked \<noteq> 0 then new OR mutexStarving else new) in
      if awoke then (if new AND mutexWoken = 0 then None else Some (new AND NOT mutexWoken)) else Some new)"

text \<open>What a goroutine that was handed a starving mutex adds to the word, none when it throws.\<close>

definition handoff_delta :: "u32 \<Rightarrow> bool \<Rightarrow> u32 option" where
  "handoff_delta old starving =
     (if old AND (mutexLocked OR mutexWoken) \<noteq> 0 \<or> waiters old = 0 then None
      else if \<not> starving \<or> waiters old = 1 then Some (mutexLocked - mutexWaiter - mutexStarving)
      else Some (mutexLocked - mutexWaiter))"

definition spin_wakes :: "u32 \<Rightarrow> bool \<Rightarrow> bool" where
  "spin_wakes old awoke \<longleftrightarrow> \<not> awoke \<and> old AND mutexWoken = 0 \<and> waiters old \<noteq> 0"

definition after_unlock :: "u32 \<Rightarrow> pc" where
  "after_unlock new =
     (if new = 0 then Idle
      else if (new + mutexLocked) AND mutexLocked = 0 then Thrown
      else if new AND mutexStarving = 0 then UnlockLoop new else Release True)"

definition nobody_to_wake :: "u32 \<Rightarrow> bool" where
  "nobody_to_wake old \<longleftrightarrow> waiters old = 0 \<or> old AND (mutexLocked OR mutexWoken OR mutexStarving) \<noteq> 0"

text \<open>
  One atomic step of goroutine \<open>i\<close>.  Whether \<open>runtime_canSpin\<close> allows a spin and whether more than a
  millisecond has passed are not determined; the semaphore is a counter that any goroutine waiting
  on it may decrement, so the order in which sleepers wake is not determined either.
\<close>

inductive mutex_step :: "nat \<Rightarrow> mutex \<Rightarrow> mutex \<Rightarrow> bool" for i where
  lock_fast: "i < length (pcs m) \<Longrightarrow> pcs m ! i = Idle \<Longrightarrow> state m = 0 \<Longrightarrow>
    mutex_step i m (m\<lparr>state := mutexLocked, pcs := (pcs m)[i := Critical]\<rparr>)"
| lock_slow: "i < length (pcs m) \<Longrightarrow> pcs m ! i = Idle \<Longrightarrow> state m \<noteq> 0 \<Longrightarrow>
    mutex_step i m (m\<lparr>pcs := (pcs m)[i := Reread False False]\<rparr>)"
| reread: "i < length (pcs m) \<Longrightarrow> pcs m ! i = Reread starving awoke \<Longrightarrow>
    mutex_step i m (m\<lparr>pcs := (pcs m)[i := Loop (state m) starving awoke]\<rparr>)"
| spin_wake: "i < length (pcs m) \<Longrightarrow> pcs m ! i = Loop old starving awoke \<Longrightarrow>
    old AND (mutexLocked OR mutexStarving) = mutexLocked \<Longrightarrow> spin_wakes old awoke \<Longrightarrow> state m = old \<Longrightarrow>
    mutex_step i m (m\<lparr>state := old OR mutexWoken, pcs := (pcs m)[i := Reread starving True]\<rparr>)"
| spin: "i < length (pcs m) \<Longrightarrow> pcs m ! i = Loop old starving awoke \<Longrightarrow>
    old AND (mutexLocked OR mutexStarving) = mutexLocked \<Longrightarrow> \<not> (spin_wakes old awoke \<and> state m = old) \<Longrightarrow>
    mutex_step i m (m\<lparr>pcs := (pcs m)[i := Reread starving awoke]\<rparr>)"
| lock_throw: "i < length (pcs m) \<Longrightarrow> pcs m ! i = Loop old starving awoke \<Longrightarrow>
    lock_word old starving awoke = None \<Longrightarrow>
    mutex_step i m (m\<lparr>pcs := (pcs m)[i := Thrown]\<rparr>)"
| lock_cas: "i < length (pcs m) \<Longrightarrow> pcs m ! i = Loop old starving awoke \<Longrightarrow>
    lock_word old starving awoke = Some new \<Longrightarrow> state m = old \<Longrightarrow>
    mutex_step i m (m\<lparr>state := new, pcs := (pcs m)[i :=
      if old AND (mutexLocked OR mutexStarving) = 0 then Critical else Sleeping starving]\<rparr>)"
| lock_retry: "i < length (pcs m) \<Longrightarrow> pcs m ! i = Loop old starving awoke \<Longrightarrow>
    lock_word old starving awoke = Some new \<Longrightarrow> state m \<noteq> old \<Longrightarrow>
    mutex_step i m (m\<lparr>pcs := (pcs m)[i := Reread starving awoke]\<rparr>)"
| acquire: "i < length (pcs m) \<Longrightarrow> pcs m ! i = Sleeping starving \<Longrightarrow> 0 < sema m \<Longrightarrow>
    mutex_step i m (m\<lparr>sema := sema m - 1, pcs := (pcs m)[i := Woken (starving \<or> late)]\<rparr>)"
| woken_retry: "i < length (pcs m) \<Longrightarrow> pcs m ! i = Woken starving \<Longrightarrow> state m AND mutexStarving = 0 \<Longrightarrow>
    mutex_step i m (m\<lparr>pcs := (pcs m)[i := Loop (state m) starving True]\<rparr>)"
| woken_handoff: "i < length (pcs m) \<Longrightarrow> pcs m ! i = Woken starving \<Longrightarrow> state m AND mutexStarving \<noteq> 0 \<Longrightarrow>
    mutex_step i m (m\<lparr>pcs := (pcs m)[i :=
      case handoff_delta (state m) starving of None \<Rightarrow> Thrown | Some delta \<Rightarrow> Handoff delta]\<rparr>)"
| handoff: "i < length (pcs m) \<Longrightarrow> pcs m ! i = Handoff delta \<Longrightarrow>
    mutex_step i m (m\<lparr>state := state m + delta, pcs := (pcs m)[i := Critical]\<rparr>)"
| unlock: "i < length (pcs m) \<Longrightarrow> pcs m ! i = Critical \<Longrightarrow>
    mutex_step i m (m\<lparr>state := state m - mutexLocked, pcs := (pcs m)[i := after_unlock (state m - mutexLocked)]\<rparr>)"
| unlock_done: "i < length (pcs m) \<Longrightarrow> pcs m ! i = UnlockLoop old \<Longrightarrow> nobody_to_wake old \<Longrightarrow>
    mutex_step i m (m\<lparr>pcs := (pcs m)[i := Idle]\<rparr>)"
| unlock_wake: "i < length (pcs m) \<Longrightarrow> pcs m ! i = UnlockLoop old \<Longrightarrow> \<not> nobody_to_wake old \<Longrightarrow> state m = old \<Longrightarrow>
    mutex_step i m (m\<lparr>state := (old - mutexWaiter) OR mutexWoken, pcs := (pcs m)[i := Release False]\<rparr>)"
| unlock_retry: "i < length (pcs m) \<Longrightarrow> pcs m ! i = UnlockLoop old \<Longrightarrow> \<not> nobody_to_wake old \<Longrightarrow> state m \<noteq> old \<Longrightarrow>
    mutex_step i m (m\<lparr>pcs := (pcs m)[i := UnlockReread]\<rparr>)"
| unlock_reread: "i < length (pcs m) \<Longrightarrow> pcs m ! i = UnlockReread \<Longrightarrow>
    mutex_step i m (m\<lparr>pcs := (pcs m)[i := UnlockLoop (state m)]\<rparr>)"
| release: "i < length (pcs m) \<Longrightarrow> pcs m ! i = Release h \<Longrightarrow>
    mutex_step i m (m\<lparr>sema := sema m + 1, pcs := (pcs m)[i := Idle]\<rparr>)"

text \<open>The zero value of a mutex, shared by \<open>n\<close> goroutines.\<close>

definition new_mutex :: "nat \<Rightarrow> mutex" where
  "new_mutex n = \<lparr>state = 0, sema = 0, pcs = replicate n Idle\<rparr>"

inductive reachable :: "nat \<Rightarrow> mutex \<Rightarrow> bool" for n where
  start: "reachable n (new_mutex n)"
| step: "reachable n m \<Longrightarrow> mutex_step i m m' \<Longrightarrow> reachable n m'"

section \<open>The invariant\<close>

definition cnt :: "('a \<Rightarrow> bool) \<Rightarrow> 'a list \<Rightarrow> nat" where
  "cnt P xs = length (filter P xs)"

lemma cnt_update: "i < length xs \<Longrightarrow> cnt P (xs[i := y]) + of_bool (P (xs ! i)) = cnt P xs + of_bool (P y)"
proof (induction xs arbitrary: i)
  case (Cons x xs)
  then show ?case by (cases i) (auto simp: cnt_def)
qed simp

lemma cnt_disjoint: "(\<And>x. P x \<Longrightarrow> \<not> R x) \<Longrightarrow> cnt P xs + cnt R xs \<le> length xs"
proof (induction xs)
  case (Cons x xs)
  then show ?case using Cons.prems [of x] by (auto simp: cnt_def)
qed (simp add: cnt_def)

lemma cnt_zero: "cnt P xs = 0 \<longleftrightarrow> (\<forall>x\<in>set xs. \<not> P x)"
  by (simp add: cnt_def filter_empty_conv)

lemma cnt_pos: "x \<in> set xs \<Longrightarrow> P x \<Longrightarrow> 0 < cnt P xs"
  using cnt_zero [of P xs] by auto

lemma cnt_nth: "i < length xs \<Longrightarrow> P (xs ! i) \<Longrightarrow> 0 < cnt P xs"
  by (rule cnt_pos) (rule nth_mem)

lemma cnt_two: "i < length xs \<Longrightarrow> j < length xs \<Longrightarrow> i \<noteq> j \<Longrightarrow> P (xs ! i) \<Longrightarrow> P (xs ! j) \<Longrightarrow> 2 \<le> cnt P xs"
proof -
  assume *: "i < length xs" "j < length xs" "i \<noteq> j" "P (xs ! i)" "P (xs ! j)"
  have "card {i, j} \<le> card {k. k < length xs \<and> P (xs ! k)}" by (rule card_mono) (use * in auto)
  then show ?thesis using * by (simp add: cnt_def length_filter_conv_card)
qed

fun holds :: "pc \<Rightarrow> bool" where "holds Critical = True" | "holds _ = False"
fun asleep :: "pc \<Rightarrow> bool" where "asleep (Sleeping _) = True" | "asleep _ = False"

text \<open>
  The wake-ups on their way, on the waking and on the woken side, and the goroutines that were woken,
  or woke themselves by spinning, and still know it.
\<close>

fun sending :: "pc \<Rightarrow> bool" where "sending (Release _) = True" | "sending _ = False"
fun taking :: "pc \<Rightarrow> bool" where
  "taking (Woken _) = True" | "taking (Handoff _) = True" | "taking _ = False"
fun awake :: "pc \<Rightarrow> bool" where
  "awake (Loop _ _ awoke) = awoke" | "awake (Reread _ awoke) = awoke" | "awake _ = False"

text \<open>
  In normal mode the woken bit says whether a wake-up is under way, and the sleepers are the waiters
  plus those whose wake-up has been granted; in starvation mode the mutex is either locked or on its
  way to one goroutine, which still counts as a waiter.
\<close>

definition counts :: "bool \<Rightarrow> bool \<Rightarrow> bool \<Rightarrow> nat \<Rightarrow> nat \<Rightarrow> pc list \<Rightarrow> bool" where
  "counts l w s n k xs \<longleftrightarrow>
     cnt holds xs = of_bool l \<and>
     (if s then \<not> w \<and> cnt awake xs = 0 \<and> cnt taking xs + cnt sending xs + k + of_bool l = 1
               \<and> n = cnt asleep xs + cnt taking xs \<and> 1 \<le> n
      else cnt taking xs + cnt sending xs + k + cnt awake xs = of_bool w
               \<and> cnt asleep xs = n + k + cnt sending xs)"

fun pc_ok :: "bool \<Rightarrow> nat \<Rightarrow> pc \<Rightarrow> bool" where
  "pc_ok s n (Loop old starving awoke) = ((starving \<longrightarrow> awoke) \<and> (awoke \<longrightarrow> old AND mutexWoken \<noteq> 0))"
| "pc_ok s n (Reread starving awoke) = (starving \<longrightarrow> awoke)"
| "pc_ok s n (Handoff delta) = (s \<and> (delta = mutexLocked - mutexWaiter \<and> 2 \<le> n
      \<or> delta = mutexLocked - mutexWaiter - mutexStarving))"
| "pc_ok s n (Release h) = (h = s)"
| "pc_ok s n Thrown = False"
| "pc_ok s n _ = True"

fun will_wake :: "pc \<Rightarrow> bool" where
  "will_wake UnlockReread = True"
| "will_wake (UnlockLoop old) = (\<not> nobody_to_wake old)"
| "will_wake _ = False"

definition mutex_ok :: "bool \<Rightarrow> bool \<Rightarrow> bool \<Rightarrow> nat \<Rightarrow> nat \<Rightarrow> pc list \<Rightarrow> bool" where
  "mutex_ok l w s n k xs \<longleftrightarrow> counts l w s n k xs \<and> (\<forall>p\<in>set xs. pc_ok s n p) \<and>
     (\<not> l \<and> \<not> w \<and> \<not> s \<and> 0 < n \<longrightarrow> 0 < cnt will_wake xs)"

definition mutex_inv :: "mutex \<Rightarrow> bool" where
  "mutex_inv m \<longleftrightarrow> (\<exists>l w s n. state m = mk l w s n \<and> mutex_ok l w s n (sema m) (pcs m))"

lemma counts_bound: "counts l w s n k xs \<Longrightarrow> n \<le> length xs"
proof -
  have "cnt asleep xs + cnt taking xs \<le> length xs"
    by (rule cnt_disjoint) (auto elim: asleep.elims(2))
  then show "counts l w s n k xs \<Longrightarrow> n \<le> length xs" by (auto simp: counts_def split: if_splits)
qed

text \<open>One goroutine moves from one place to another: every count follows.\<close>

lemma counts_update:
  assumes "i < length xs" and "xs ! i = p"
  shows "cnt P (xs[i := q]) = cnt P xs + of_bool (P q) - of_bool (P p)"
    and "P p \<Longrightarrow> 0 < cnt P xs"
  using cnt_update [OF assms(1), of P q] cnt_nth [OF assms(1), of P] assms(2) by auto

lemma pc_ok_keep: "pc_ok s n x \<Longrightarrow> s' = s \<and> n \<le> n' \<or> \<not> taking x \<and> \<not> sending x \<Longrightarrow> pc_ok s' n' x"
  by (cases x) auto

lemma mutex_ok_move:
  assumes ok: "mutex_ok l w s n k xs" and i: "i < length xs" "xs ! i = p"
    and c: "counts l w s n k xs \<Longrightarrow> pc_ok s n p \<Longrightarrow> counts l' w' s' n' k' (xs[i := q])"
    and q: "counts l w s n k xs \<Longrightarrow> pc_ok s n p \<Longrightarrow> pc_ok s' n' q"
    and keep: "s' = s \<and> n \<le> n' \<or> (\<forall>j<length xs. j \<noteq> i \<longrightarrow> \<not> taking (xs ! j) \<and> \<not> sending (xs ! j))"
    and wake: "\<not> l' \<and> \<not> w' \<and> \<not> s' \<and> 0 < n' \<Longrightarrow> will_wake q \<or> \<not> will_wake p \<and> \<not> l \<and> \<not> w \<and> \<not> s \<and> 0 < n"
  shows "mutex_ok l' w' s' n' k' (xs[i := q])"
proof -
  have p: "pc_ok s n p" and cs: "counts l w s n k xs"
    using ok nth_mem [OF i(1)] unfolding mutex_ok_def i(2) by blast+
  have "pc_ok s' n' x" if mem: "x \<in> set (xs[i := q])" for x
  proof -
    obtain j where j: "j < length xs" "x = xs[i := q] ! j"
      using mem by (metis in_set_conv_nth length_list_update)
    show ?thesis
    proof (cases "j = i")
      case True
      then show ?thesis using j q [OF cs p] by simp
    next
      case False
      then have x: "x = xs ! j" "j < length xs" using j by simp_all
      then have "pc_ok s n x" using ok nth_mem [of j xs] by (simp add: mutex_ok_def)
      moreover have "s' = s \<and> n \<le> n' \<or> \<not> taking x \<and> \<not> sending x" using keep False x by blast
      ultimately show ?thesis by (rule pc_ok_keep)
    qed
  qed
  then have pcs: "\<forall>x\<in>set (xs[i := q]). pc_ok s' n' x" by blast
  have "0 < cnt will_wake (xs[i := q])" if *: "\<not> l' \<and> \<not> w' \<and> \<not> s' \<and> 0 < n'"
  proof -
    have "\<not> l \<and> \<not> w \<and> \<not> s \<and> 0 < n \<longrightarrow> 0 < cnt will_wake xs"
      using ok unfolding mutex_ok_def by (elim conjE)
    then have "will_wake q \<or> \<not> will_wake p \<and> 0 < cnt will_wake xs" using wake [OF *] by argo
    moreover have "cnt will_wake (xs[i := q]) + of_bool (will_wake p) = cnt will_wake xs + of_bool (will_wake q)"
      using cnt_update [OF i(1), of will_wake q] unfolding i(2) .
    moreover have "will_wake p \<longrightarrow> 0 < cnt will_wake xs" using cnt_nth [OF i(1), of will_wake] i(2) by blast
    ultimately show ?thesis by (cases "will_wake q"; cases "will_wake p") simp_all
  qed
  then show ?thesis unfolding mutex_ok_def by (intro conjI impI c [OF cs p] pcs)
qed

lemma mutex_invI: "state m = mk l w s n \<Longrightarrow> mutex_ok l w s n (sema m) (pcs m) \<Longrightarrow> mutex_inv m"
  unfolding mutex_inv_def by blast

lemmas counting = counts_def counts_update cnt_zero

text \<open>The goroutine at \<open>i\<close> is the only one with a wake-up in its hands.\<close>

lemma only_one:
  assumes "i < length xs" and "taking (xs ! i) \<or> sending (xs ! i)" and "cnt taking xs + cnt sending xs \<le> 1"
  shows "\<forall>j<length xs. j \<noteq> i \<longrightarrow> \<not> taking (xs ! j) \<and> \<not> sending (xs ! j)"
proof (intro allI impI)
  fix j assume j: "j < length xs" "j \<noteq> i"
  show "\<not> taking (xs ! j) \<and> \<not> sending (xs ! j)"
    using assms cnt_two [OF assms(1) j(1), of taking] cnt_two [OF assms(1) j(1), of sending]
      cnt_nth [OF assms(1), of taking] cnt_nth [OF assms(1), of sending]
      cnt_nth [OF j(1), of taking] cnt_nth [OF j(1), of sending] j(2)
    by fastforce
qed

lemma none_if_zero: "cnt taking xs = 0 \<Longrightarrow> cnt sending xs = 0 \<Longrightarrow>
    \<forall>j<length xs. j \<noteq> i \<longrightarrow> \<not> taking (xs ! j) \<and> \<not> sending (xs ! j)"
  by (simp add: cnt_zero)

subsection \<open>The words that the steps install\<close>

lemma lock_word_mk:
  "lock_word (mk l w s n) starving awoke =
     (if awoke \<and> \<not> w then None
      else Some (mk (l \<or> \<not> s) (w \<and> \<not> awoke) (s \<or> starving \<and> l) (if l \<or> s then Suc n else n)))"
  by (cases l; cases s; cases awoke; cases starving) (simp_all add: lock_word_def Let_def)

lemma lock_word_throws: "lock_word old starving awoke = None \<longleftrightarrow> awoke \<and> old AND mutexWoken = 0"
  by (rule mk_cases [of old]) (simp add: lock_word_mk)

lemma after_unlock_mk: "n < 2 ^ 28 \<Longrightarrow> after_unlock (mk False w s n) =
    (if \<not> w \<and> \<not> s \<and> n = 0 then Idle else if \<not> s then UnlockLoop (mk False w s n) else Release True)"
  using mk_eq [of n 0 False w s False False False]
  by (auto simp: after_unlock_def mk_zero)

section \<open>Every step preserves the invariant\<close>

lemma counts_cas:
  assumes "counts l w s n k xs" and "i < length xs" and "xs ! i = Loop old starving awoke"
    and "starving \<longrightarrow> awoke" and "awoke \<longrightarrow> w"
  shows "counts (l \<or> \<not> s) (w \<and> \<not> awoke) (s \<or> starving \<and> l) (if l \<or> s then Suc n else n) k
        (xs[i := if \<not> l \<and> \<not> s then Critical else Sleeping starving])"
proof -
  have "awoke \<longrightarrow> 0 < cnt awake xs" using counts_update(2) [OF assms(2,3), of awake] by simp
  then show ?thesis using assms(1,4,5)
    by (cases l; cases s; cases awoke; cases starving; cases w)
      (auto simp: counts_def counts_update(1) [OF assms(2,3)])
qed

lemma nobody_mk [simp]: "n < 2 ^ 28 \<Longrightarrow> nobody_to_wake (mk l w s n) \<longleftrightarrow> n = 0 \<or> l \<or> w \<or> s"
  by (auto simp: nobody_to_wake_def)

lemma unlock_ok:
  assumes ok: "mutex_ok l w s n k xs" and i: "i < length xs" "xs ! i = Critical" and n: "n < 2 ^ 28"
  shows "l" and "mutex_ok False w s n k (xs[i := after_unlock (mk False w s n)])"
proof -
  have h: "0 < cnt holds xs" using counts_update(2) [OF i, of holds] by simp
  then show l: "l" using ok by (cases l) (auto simp: mutex_ok_def counts_def)
  note count = counts_def counts_update(1) [OF i]
  consider "s" | "\<not> s" "w \<or> n \<noteq> 0" | "\<not> s" "\<not> w" "n = 0" by blast
  then show "mutex_ok False w s n k (xs[i := after_unlock (mk False w s n)])"
  proof cases
    case 1
    then show ?thesis unfolding after_unlock_mk [OF n] using l
      by (intro mutex_ok_move [OF ok i]) (simp_all add: count)
  next
    case 2
    then show ?thesis unfolding after_unlock_mk [OF n] using l n
      by (intro mutex_ok_move [OF ok i]) (auto simp: count)
  next
    case 3
    then show ?thesis unfolding after_unlock_mk [OF n] using l
      by (intro mutex_ok_move [OF ok i]) (simp_all add: count)
  qed
qed

lemma handoff_ok:
  assumes ok: "mutex_ok l w s n k xs" and i: "i < length xs" "xs ! i = Handoff delta"
  obtains s' n' where "mk l w s n + delta = mk True w s' n'" "mutex_ok True w s' n' k (xs[i := Critical])"
proof -
  have cs: "counts l w s n k xs" using ok by (simp add: mutex_ok_def)
  have t: "0 < cnt taking xs" using counts_update(2) [OF i, of taking] by simp
  have pc: "s" "delta = mutexLocked - mutexWaiter \<and> 2 \<le> n \<or> delta = mutexLocked - mutexWaiter - mutexStarving"
    using ok i nth_mem [OF i(1)] by (auto simp: mutex_ok_def)
  then have e: "\<not> l" "\<not> w" "1 \<le> n" "k = 0" "cnt taking xs = 1" using cs t by (auto simp: counts_def)
  then obtain n' where n': "n = Suc n'" by (cases n) auto
  have only: "\<forall>j<length xs. j \<noteq> i \<longrightarrow> \<not> taking (xs ! j) \<and> \<not> sending (xs ! j)"
    using cs pc by (intro only_one [OF i(1)]) (auto simp: i(2) counts_def)
  note count = counts_def counts_update(1) [OF i]
  from pc(2) show ?thesis
  proof
    assume d: "delta = mutexLocked - mutexWaiter \<and> 2 \<le> n"
    have "mutex_ok True w s n' k (xs[i := Critical])"
      using e d n' pc(1) by (intro mutex_ok_move [OF ok i] disjI2 only) (simp_all add: count)
    moreover have "mk l w s n + delta = mk True w s n'" using e n' d by simp
    ultimately show ?thesis by (intro that)
  next
    assume d: "delta = mutexLocked - mutexWaiter - mutexStarving"
    have "mutex_ok True w False n' k (xs[i := Critical])"
      using e n' pc(1) by (intro mutex_ok_move [OF ok i] disjI2 only) (simp_all add: count)
    moreover have "mk l w s n + delta = mk True w False n'" using e n' d pc(1) by simp
    ultimately show ?thesis by (intro that)
  qed
qed

lemma step_inv:
  assumes inv: "mutex_inv m" and len: "length (pcs m) < 2 ^ 28" and step: "mutex_step i m m'"
  shows "mutex_inv m'"
proof -
  from inv obtain l w s n where m: "state m = mk l w s n" and ok: "mutex_ok l w s n (sema m) (pcs m)"
    by (auto simp: mutex_inv_def)
  have cs: "counts l w s n (sema m) (pcs m)" using ok by (simp add: mutex_ok_def)
  then have n: "n < 2 ^ 28" using counts_bound len by fastforce
  note move = mutex_ok_move [OF ok]
  from step show ?thesis
  proof cases
    case lock_fast
    have "mk l w s n = mk False False False 0" using lock_fast(4) m by (simp add: mk_zero)
    then have e: "\<not> l" "\<not> w" "\<not> s" "n = 0" using mk_eq [OF n, of 0] by auto
    have "mutex_ok True False False 0 (sema m) ((pcs m)[i := Critical])"
      using e by (intro move [OF lock_fast(2,3)]) (auto simp: counts_def counts_update(1) [OF lock_fast(2,3)])
    moreover have "mutexLocked = mk True False False 0" by (simp add: mk_def mutex_consts)
    ultimately show ?thesis unfolding lock_fast(1) by (intro mutex_invI) auto
  next
    case lock_slow
    have "mutex_ok l w s n (sema m) ((pcs m)[i := Reread False False])"
      by (intro move [OF lock_slow(2,3)]) (auto simp: counts_def counts_update(1) [OF lock_slow(2,3)])
    then show ?thesis using m unfolding lock_slow(1) by (intro mutex_invI) auto
  next
    case (reread starving awoke)
    have "awoke \<longrightarrow> 0 < cnt awake (pcs m)" using counts_update(2) [OF reread(2,3), of awake] by simp
    then have "awoke \<longrightarrow> w" using cs by (cases w) (auto simp: counts_def split: if_splits)
    then have "mutex_ok l w s n (sema m) ((pcs m)[i := Loop (state m) starving awoke])"
      using m
      by (intro move [OF reread(2,3)])
        (auto simp: counts_def counts_update(1) [OF reread(2,3)] split: if_splits)
    then show ?thesis using m unfolding reread(1) by (intro mutex_invI) auto
  next
    case (spin_wake old starving awoke)
    have "\<not> s" "l" "\<not> w" "\<not> awoke" using spin_wake(4-6) m n by (auto simp: spin_wakes_def)
    then have "mutex_ok l True s n (sema m) ((pcs m)[i := Reread starving True])"
      by (intro move [OF spin_wake(2,3)]) (auto simp: counts_def counts_update(1) [OF spin_wake(2,3)])
    then show ?thesis using m spin_wake(6) unfolding spin_wake(1) by (intro mutex_invI) auto
  next
    case (spin old starving awoke)
    have "mutex_ok l w s n (sema m) ((pcs m)[i := Reread starving awoke])"
      by (intro move [OF spin(2,3)]) (auto simp: counts_def counts_update(1) [OF spin(2,3)])
    then show ?thesis using m unfolding spin(1) by (intro mutex_invI) auto
  next
    case (lock_throw old starving awoke)
    have "pc_ok s n (Loop old starving awoke)"
      using ok lock_throw(2,3) nth_mem [OF lock_throw(2)] by (auto simp: mutex_ok_def)
    then show ?thesis using lock_throw(4) by (simp add: lock_word_throws)
  next
    case (lock_cas old starving awoke new)
    have "pc_ok s n (Loop old starving awoke)"
      using ok lock_cas(3) nth_mem [OF lock_cas(2)] by (auto simp: mutex_ok_def)
    then have pc: "starving \<longrightarrow> awoke" "awoke \<longrightarrow> w" using lock_cas(5) m by auto
    let ?q = "if \<not> l \<and> \<not> s then Critical else Sleeping starving"
    have new: "new = mk (l \<or> \<not> s) (w \<and> \<not> awoke) (s \<or> starving \<and> l) (if l \<or> s then Suc n else n)"
      using lock_cas(4,5) m pc by (auto simp: lock_word_mk split: if_splits)
    have keep: "(s \<or> starving \<and> l) = s \<and> n \<le> (if l \<or> s then Suc n else n) \<or>
        (\<forall>j<length (pcs m). j \<noteq> i \<longrightarrow> \<not> taking (pcs m ! j) \<and> \<not> sending (pcs m ! j))"
    proof (cases "starving \<and> l \<and> \<not> s")
      case True
      then have "0 < cnt awake (pcs m)" using pc counts_update(2) [OF lock_cas(2,3), of awake] by simp
      then have "cnt taking (pcs m) = 0" "cnt sending (pcs m) = 0"
        using cs True by (cases w; auto simp: counts_def split: if_splits)+
      then show ?thesis using none_if_zero by blast
    qed auto
    have "mutex_ok (l \<or> \<not> s) (w \<and> \<not> awoke) (s \<or> starving \<and> l) (if l \<or> s then Suc n else n) (sema m)
        ((pcs m)[i := ?q])"
      using counts_cas [OF _ lock_cas(2,3) pc] keep by (intro move [OF lock_cas(2,3)]) auto
    moreover have "pcs m' = (pcs m)[i := ?q]" using m lock_cas(5) unfolding lock_cas(1) by simp
    ultimately show ?thesis using new unfolding lock_cas(1) by (intro mutex_invI) auto
  next
    case (lock_retry old starving awoke new)
    have "mutex_ok l w s n (sema m) ((pcs m)[i := Reread starving awoke])"
      by (intro move [OF lock_retry(2,3)]) (auto simp: counts_def counts_update(1) [OF lock_retry(2,3)])
    then show ?thesis using m unfolding lock_retry(1) by (intro mutex_invI) auto
  next
    case (acquire starving late)
    have "mutex_ok l w s n (sema m - 1) ((pcs m)[i := Woken (starving \<or> late)])"
      using acquire(4) counts_update(2) [OF acquire(2,3), of asleep]
      by (intro move [OF acquire(2,3)])
        (auto simp: counts_def counts_update(1) [OF acquire(2,3)] split: if_splits)
    then show ?thesis using m unfolding acquire(1) by (intro mutex_invI) auto
  next
    case (woken_retry starving)
    then have "\<not> s" using m by simp
    moreover have "0 < cnt taking (pcs m)" using counts_update(2) [OF woken_retry(2,3), of taking] by simp
    moreover have w using cs calculation by (cases w) (auto simp: counts_def)
    ultimately have "mutex_ok l w s n (sema m) ((pcs m)[i := Loop (state m) starving True])"
      using m
      by (intro move [OF woken_retry(2,3)])
        (auto simp: counts_def counts_update(1) [OF woken_retry(2,3)] split: if_splits)
    then show ?thesis using m unfolding woken_retry(1) by (intro mutex_invI) auto
  next
    case (woken_handoff starving)
    then have s: "s" using m by simp
    have t: "0 < cnt taking (pcs m)" using counts_update(2) [OF woken_handoff(2,3), of taking] by simp
    then have e: "\<not> l" "\<not> w" "1 \<le> n" using cs s by (auto simp: counts_def)
    let ?d = "if \<not> starving \<or> n = 1 then mutexLocked - mutexWaiter - mutexStarving else mutexLocked - mutexWaiter"
    have d: "handoff_delta (state m) starving = Some ?d" using e n by (simp add: handoff_delta_def m)
    have "mutex_ok l w s n (sema m) ((pcs m)[i := Handoff ?d])"
      using s e by (intro move [OF woken_handoff(2,3)])
        (auto simp: counts_def counts_update(1) [OF woken_handoff(2,3)])
    then show ?thesis using m d unfolding woken_handoff(1) by (intro mutex_invI) auto
  next
    case (handoff delta)
    obtain s' n' where "mk l w s n + delta = mk True w s' n'"
      "mutex_ok True w s' n' (sema m) ((pcs m)[i := Critical])"
      by (rule handoff_ok [OF ok handoff(2,3)])
    then show ?thesis unfolding handoff(1) m by (intro mutex_invI) auto
  next
    case unlock
    have "state m - mutexLocked = mk False w s n" using unlock_ok(1) [OF ok unlock(2,3) n] by (simp add: m)
    then show ?thesis using unlock_ok(2) [OF ok unlock(2,3) n]
      unfolding unlock(1) by (intro mutex_invI) auto
  next
    case (unlock_done old)
    have "mutex_ok l w s n (sema m) ((pcs m)[i := Idle])"
      using unlock_done(4)
      by (intro move [OF unlock_done(2,3)]) (auto simp: counts_def counts_update(1) [OF unlock_done(2,3)])
    then show ?thesis using m unfolding unlock_done(1) by (intro mutex_invI) auto
  next
    case (unlock_wake old)
    have old: "old = mk l w s n" using unlock_wake(5) m by simp
    have e: "\<not> l" "\<not> w" "\<not> s" "0 < n" using unlock_wake(4,5) m n by auto
    then obtain n' where n': "n = Suc n'" by (cases n) auto
    have none: "cnt taking (pcs m) = 0" "cnt sending (pcs m) = 0" using cs e by (auto simp: counts_def)
    have "old - mutexWaiter OR mutexWoken = mk l True s n'"
      by (simp add: old n')
    moreover have "mutex_ok l True s n' (sema m) ((pcs m)[i := Release False])"
      using e n' none none_if_zero [OF none]
      by (intro move [OF unlock_wake(2,3)]) (auto simp: counts_def counts_update(1) [OF unlock_wake(2,3)])
    ultimately show ?thesis unfolding unlock_wake(1) by (intro mutex_invI) auto
  next
    case (unlock_retry old)
    have "mutex_ok l w s n (sema m) ((pcs m)[i := UnlockReread])"
      by (intro move [OF unlock_retry(2,3)]) (auto simp: counts_def counts_update(1) [OF unlock_retry(2,3)])
    then show ?thesis using m unfolding unlock_retry(1) by (intro mutex_invI) auto
  next
    case unlock_reread
    have "mutex_ok l w s n (sema m) ((pcs m)[i := UnlockLoop (state m)])"
      using n by (intro move [OF unlock_reread(2,3)])
        (auto simp: counts_def counts_update(1) [OF unlock_reread(2,3)] m)
    then show ?thesis using m unfolding unlock_reread(1) by (intro mutex_invI) auto
  next
    case (release h)
    have pc: "h = s" using ok release(2,3) nth_mem [OF release(2)] by (auto simp: mutex_ok_def)
    have t: "0 < cnt sending (pcs m)" using counts_update(2) [OF release(2,3), of sending] by simp
    have "mutex_ok l w s n (sema m + 1) ((pcs m)[i := Idle])"
      using t by (intro move [OF release(2,3)])
        (auto simp: counts_def counts_update(1) [OF release(2,3)] split: if_splits)
    then show ?thesis using m unfolding release(1) by (intro mutex_invI) auto
  qed
qed

lemma step_length: "mutex_step i m m' \<Longrightarrow> length (pcs m') = length (pcs m)"
  by (erule mutex_step.cases) auto

lemma new_mutex_inv: "mutex_inv (new_mutex n)"
proof (rule mutex_invI)
  show "state (new_mutex n) = mk False False False 0" by (simp add: new_mutex_def mk_zero)
  show "mutex_ok False False False 0 (sema (new_mutex n)) (pcs (new_mutex n))"
    by (simp add: new_mutex_def mutex_ok_def counts_def cnt_def)
qed

lemma reachable_inv:
  assumes "reachable n m" and "n < 2 ^ 28"
  shows "mutex_inv m \<and> length (pcs m) = n"
  using assms(1)
proof induction
  case start
  then show ?case using new_mutex_inv by (simp add: new_mutex_def)
next
  case (step m i m')
  then show ?case using step_inv [of m i m'] step_length assms(2) by simp
qed

section \<open>Mutual exclusion and freedom from deadlock\<close>

text \<open>A run used by the examples: the first goroutine takes the mutex, the second goes to sleep on it.\<close>

lemma reachable_sleeping:
  "reachable 2 \<lparr>state = 9, sema = 0, pcs = [Critical, Sleeping False]\<rparr>"
proof -
  have "reachable 2 \<lparr>state = 0, sema = 0, pcs = [Idle, Idle]\<rparr>"
    using reachable.start [of 2] by (simp add: new_mutex_def numeral_2_eq_2)
  from reachable.step [OF this lock_fast [of 0]]
  have "reachable 2 \<lparr>state = 1, sema = 0, pcs = [Critical, Idle]\<rparr>" by (simp add: mutexLocked_def)
  from reachable.step [OF this lock_slow [of 1]]
  have "reachable 2 \<lparr>state = 1, sema = 0, pcs = [Critical, Reread False False]\<rparr>" by simp
  from reachable.step [OF this reread [of 1 _ False False]]
  have r: "reachable 2 \<lparr>state = 1, sema = 0, pcs = [Critical, Loop 1 False False]\<rparr>" by simp
  have "lock_word 1 False False = Some 9" by code_simp
  from reachable.step [OF r lock_cas [of 1 _ 1 False False 9]] this
  show ?thesis by (simp add: mutex_consts)
qed

text \<open>C5: however many goroutines lock and unlock a mutex (fewer than \<open>2\<^sup>28\<close>, so that the count of waiters
fits), in whatever order their atomic steps interleave, at most one of them is in its critical
section, none ever throws ("inconsistent mutex state", "unlock of unlocked mutex"), and the lock bit of
the state word is set exactly when one of them is inside.\<close>
theorem mutex_exclusion:
  assumes "reachable n m" and "n < 2 ^ 28"
  shows "length (filter (\<lambda>p. p = Critical) (pcs m)) = of_bool (state m AND mutexLocked \<noteq> 0) \<and> Thrown \<notin> set (pcs m)"
proof -
  obtain l w s k where m: "state m = mk l w s k" "mutex_ok l w s k (sema m) (pcs m)"
    using reachable_inv [OF assms] by (auto simp: mutex_inv_def)
  have "(\<lambda>p. p = Critical) = holds"
  proof
    show "(p = Critical) = holds p" for p by (cases p) simp_all
  qed
  then show ?thesis using m by (auto simp: mutex_ok_def counts_def cnt_def)
qed

theorem mutex_exclusion_witness:
  "length (filter (\<lambda>p. p = Critical) [Critical, Sleeping False]) = of_bool ((9 :: u32) AND mutexLocked \<noteq> 0)
     \<and> Thrown \<notin> set [Critical, Sleeping False]"
  using mutex_exclusion [OF reachable_sleeping] by simp

lemma running_steps:
  assumes "i < length (pcs m)" and "pcs m ! i \<noteq> Idle" and "pcs m ! i \<noteq> Thrown" and "\<not> asleep (pcs m ! i)"
  shows "\<exists>m'. mutex_step i m m'"
proof (cases "pcs m ! i")
  case (Loop old starving awoke)
  then show ?thesis
    using lock_throw lock_cas lock_retry assms(1) by (cases "lock_word old starving awoke"; cases "state m = old"; blast)
next
  case (Woken starving)
  then show ?thesis using woken_retry woken_handoff assms(1) by (cases "state m AND mutexStarving = 0"; blast)
next
  case (UnlockLoop old)
  then show ?thesis using unlock_done unlock_wake unlock_retry assms(1)
    by (cases "nobody_to_wake old"; cases "state m = old"; blast)
qed (use assms in \<open>auto intro: mutex_step.intros\<close>)

text \<open>C9: no wake-up is ever lost: in every reachable state in which some goroutine is inside \<open>Lock\<close>, holds the
mutex or is inside \<open>Unlock\<close>, one of those goroutines can take a step; they are never all asleep.\<close>
theorem mutex_no_deadlock:
  assumes "reachable n m" and "n < 2 ^ 28" and "\<exists>p\<in>set (pcs m). p \<noteq> Idle"
  shows "\<exists>i m'. pcs m ! i \<noteq> Idle \<and> mutex_step i m m'"
proof (rule ccontr)
  assume stuck: "\<not> (\<exists>i m'. pcs m ! i \<noteq> Idle \<and> mutex_step i m m')"
  obtain l w s k where m: "state m = mk l w s k" "mutex_ok l w s k (sema m) (pcs m)"
    using reachable_inv [OF assms(1,2)] by (auto simp: mutex_inv_def)
  then have cs: "counts l w s k (sema m) (pcs m)" by (simp add: mutex_ok_def)
  have only: "p = Idle \<or> asleep p" if p: "p \<in> set (pcs m)" for p
  proof -
    obtain i where i: "i < length (pcs m)" "pcs m ! i = p" using p by (metis in_set_conv_nth)
    have "pc_ok s k p" using m p by (auto simp: mutex_ok_def)
    then have "p \<noteq> Thrown" by auto
    then show ?thesis using running_steps [OF i(1)] stuck unfolding i(2) by (metis i(2))
  qed
  then have none: "cnt holds (pcs m) = 0" "cnt taking (pcs m) = 0" "cnt sending (pcs m) = 0"
      "cnt awake (pcs m) = 0" "cnt will_wake (pcs m) = 0"
    unfolding cnt_zero by (auto dest!: only elim!: asleep.elims(2))
  obtain p where "p \<in> set (pcs m)" "asleep p" using assms(3) only by blast
  then obtain i starving where i: "i < length (pcs m)" "pcs m ! i = Sleeping starving"
    by (metis asleep.elims(2) in_set_conv_nth)
  have z: "sema m = 0"
  proof (rule ccontr)
    assume "sema m \<noteq> 0"
    then obtain m' where "mutex_step i m m'" using acquire [OF i, of False] by blast
    then have "pcs m ! i \<noteq> Idle \<and> mutex_step i m m'" using i(2) by simp
    then show False using stuck by blast
  qed
  have pos: "0 < cnt asleep (pcs m)" using cnt_nth [OF i(1), of asleep] i(2) by simp
  show False
  proof (cases s)
    case True
    then show False using cs none z by (auto simp: counts_def split: if_splits)
  next
    case False
    then have "\<not> l" "\<not> w" "0 < k" using cs none z pos by (auto simp: counts_def split: if_splits)
    then show False using m(2) False none by (simp add: mutex_ok_def)
  qed
qed

theorem mutex_no_deadlock_witness:
  "\<exists>i m'. [Critical, Sleeping False] ! i \<noteq> Idle \<and>
     mutex_step i \<lparr>state = 9, sema = 0, pcs = [Critical, Sleeping False]\<rparr> m'"
  using mutex_no_deadlock [OF reachable_sleeping] by simp

end
