(* ===== verification/SyncCounts.thy ===== *)
theory SyncCounts
  imports Prelude
begin

text \<open>
  Counting goroutines: sums of a weight over the places where the goroutines are, and signed 32-bit
  counters without overflow.  The models of package sync share them.
\<close>

definition tally :: "('a \<Rightarrow> int) \<Rightarrow> 'a list \<Rightarrow> int" where
  "tally f xs = sum_list (map f xs)"

lemma tally_update: "i < length xs \<Longrightarrow> tally f (xs[i := y]) = tally f xs - f (xs ! i) + f y"
proof (induction xs arbitrary: i)
  case (Cons x xs)
  then show ?case by (cases i) (simp_all add: tally_def)
qed simp

lemma tally_nonneg: "(\<And>x. 0 \<le> f x) \<Longrightarrow> 0 \<le> tally f xs"
  by (induction xs) (simp_all add: tally_def)

lemma tally_ge: "(\<And>x. 0 \<le> f x) \<Longrightarrow> i < length xs \<Longrightarrow> f (xs ! i) \<le> tally f xs"
proof -
  assume f: "\<And>x. 0 \<le> f x" and i: "i < length xs"
  have "f (xs ! i) \<in> set (map f xs)" using i by simp
  then show ?thesis using f member_le_sum_list [of "f (xs ! i)" "map f xs"]
    by (auto simp: tally_def)
qed

lemma tally_ge2:
  assumes "\<And>x. 0 \<le> f x" "i < length xs" "j < length xs" "i \<noteq> j"
  shows "f (xs ! i) + f (xs ! j) \<le> tally f xs"
proof -
  have "tally f xs = (\<Sum>k<length xs. f (xs ! k))" by (simp add: tally_def sum_list_sum_nth atLeast0LessThan)
  also have "\<dots> \<ge> (\<Sum>k\<in>{i, j}. f (xs ! k))" by (rule sum_mono2) (use assms in auto)
  finally show ?thesis using assms(4) by simp
qed

lemma tally_pos: "0 < tally f xs \<Longrightarrow> \<exists>i<length xs. 0 < f (xs ! i)"
proof (rule ccontr)
  assume p: "0 < tally f xs" and "\<not> (\<exists>i<length xs. 0 < f (xs ! i))"
  then have "\<forall>x\<in>set xs. f x \<le> 0" by (metis in_set_conv_nth not_le)
  then have "sum_list (map f xs) \<le> 0" by (induction xs) auto
  then show False using p by (simp add: tally_def)
qed

lemma tally_le: "(\<And>x. f x \<le> g x) \<Longrightarrow> tally f xs \<le> tally g xs"
  by (auto simp: tally_def intro: sum_list_mono)

lemma tally_add: "tally (\<lambda>x. f x + g x) xs = tally f xs + tally g xs"
  by (simp add: tally_def sum_list_addf)

lemma tally_const: "tally (\<lambda>_. c) xs = c * int (length xs)"
  by (induction xs) (simp_all add: tally_def algebra_simps)

lemma tally_replicate [simp]: "tally f (replicate n x) = int n * f x"
  by (induction n) (simp_all add: tally_def algebra_simps)

text \<open>\<open>AddInt32\<close> on counters that stay in range.\<close>

lemma sint32_range: "- (2 ^ 31) \<le> sint (x :: u32)" "sint (x :: u32) < 2 ^ 31"
  using sint_ge [of x] sint_lt [of x] by simp_all

lemma sint32_add:
  "- (2 ^ 31) \<le> sint x + sint y \<Longrightarrow> sint x + sint y < 2 ^ 31 \<Longrightarrow> sint (x + y :: u32) = sint x + sint y"
  by (simp add: sint_word_ariths signed_take_bit_int_eq_self)

lemma sint32_diff:
  "- (2 ^ 31) \<le> sint x - sint y \<Longrightarrow> sint x - sint y < 2 ^ 31 \<Longrightarrow> sint (x - y :: u32) = sint x - sint y"
  by (simp add: sint_word_ariths signed_take_bit_int_eq_self)

lemma sint32_eq: "x = y \<longleftrightarrow> sint x = sint (y :: u32)"
  by (metis signed_word_eqI)

end
