(* ===== verification/SyncRWMutex.thy ===== *)
theory SyncRWMutex
  imports SyncCounts
begin

text \<open>
  \<open>sync.RWMutex\<close> (\<open>sync/rwmutex.go\<close>): any number of goroutines that lock and unlock one readers-writer
  lock for reading or for writing, as atomic steps on its two counters and two semaphores.  Its mutex
  \<open>w\<close> is the lock that theory \<open>SyncMutex\<close> shows a mutex to be (for fewer than \<open>2 ^ 28\<close> goroutines): a goroutine in
  \<open>rw.w.Lock()\<close> waits at a place of its own until one step takes the free lock.
\<close>

section \<open>Goroutines\<close>

definition rwmutexMaxReaders :: u32 where "rwmutexMaxReaders = push_bit 30 1"

text \<open>
  Where a goroutine is, with the local variables that matter there.
  \<^item> \<open>ReaderSleep\<close>: in \<open>RLock\<close>, at the semaphore \<open>readerSem\<close>; \<open>Reading\<close>: holds the lock for reading;
    \<open>Departing\<close>: in \<open>rUnlockSlow\<close>, before the \<open>AddInt32\<close> on \<open>readerWait\<close>; \<open>WakeWriter\<close>: before the
    \<open>Semrelease\<close> there;
  \<^item> \<open>LockWait\<close>: in \<open>Lock\<close>, at \<open>rw.w.Lock()\<close>; \<open>WriterFirst\<close>: in \<open>Lock\<close>, with \<open>rw.w\<close> locked; \<open>Announced r\<close>: before the \<open>AddInt32\<close> on \<open>readerWait\<close>;
    \<open>WriterSleep\<close>: at the semaphore \<open>writerSem\<close>; \<open>Writing\<close>: holds the lock for writing;
    \<open>WakeReaders i r\<close>: in the loop of \<open>Unlock\<close>;
  \<^item> \<open>RwThrown\<close>: has thrown a fatal error.
\<close>

datatype rw_pc =
    RwIdle
  | ReaderSleep | Reading | Departing | WakeWriter
  | LockWait | WriterFirst | Announced u32 | WriterSleep | Writing | WakeReaders nat u32
  | RwThrown

record rwmutex =
  rw_locked :: bool
  writerSem :: nat
  readerSem :: nat
  readerCount :: u32
  readerWait :: u32
  rw_pcs :: "rw_pc list"

definition after_runlock :: "u32 \<Rightarrow> rw_pc" where
  "after_runlock r =
     (if r <s 0 then if r + 1 = 0 \<or> r + 1 = - rwmutexMaxReaders then RwThrown else Departing else RwIdle)"

definition after_lock :: "u32 \<Rightarrow> rw_pc" where
  "after_lock r = (if r \<noteq> 0 then Announced r else Writing)"

definition after_unlock_rw :: "u32 \<Rightarrow> rw_pc" where
  "after_unlock_rw r = (if rwmutexMaxReaders \<le>s r then RwThrown else WakeReaders 0 r)"

abbreviation at_pc :: "nat \<Rightarrow> rwmutex \<Rightarrow> rw_pc \<Rightarrow> bool" where
  "at_pc i m p \<equiv> i < length (rw_pcs m) \<and> rw_pcs m ! i = p"

abbreviation goes :: "nat \<Rightarrow> rw_pc \<Rightarrow> rwmutex \<Rightarrow> rwmutex" where
  "goes i p m \<equiv> m\<lparr>rw_pcs := (rw_pcs m)[i := p]\<rparr>"

text \<open>One atomic step of goroutine \<open>i\<close>; the test after an \<open>AddInt32\<close> uses its result only.\<close>

inductive rw_step :: "nat \<Rightarrow> rwmutex \<Rightarrow> rwmutex \<Rightarrow> bool" for i where
  rlock: "at_pc i m RwIdle \<Longrightarrow> r = readerCount m + 1 \<Longrightarrow>
    rw_step i m (goes i (if r <s 0 then ReaderSleep else Reading) (m\<lparr>readerCount := r\<rparr>))"
| reader_wakes: "at_pc i m ReaderSleep \<Longrightarrow> 0 < readerSem m \<Longrightarrow>
    rw_step i m (goes i Reading (m\<lparr>readerSem := readerSem m - 1\<rparr>))"
| runlock: "at_pc i m Reading \<Longrightarrow> r = readerCount m - 1 \<Longrightarrow>
    rw_step i m (goes i (after_runlock r) (m\<lparr>readerCount := r\<rparr>))"
| depart: "at_pc i m Departing \<Longrightarrow> r = readerWait m - 1 \<Longrightarrow>
    rw_step i m (goes i (if r = 0 then WakeWriter else RwIdle) (m\<lparr>readerWait := r\<rparr>))"
| wake_writer: "at_pc i m WakeWriter \<Longrightarrow>
    rw_step i m (goes i RwIdle (m\<lparr>writerSem := writerSem m + 1\<rparr>))"
| lock: "at_pc i m RwIdle \<Longrightarrow> rw_step i m (goes i LockWait m)"
| lock_w: "at_pc i m LockWait \<Longrightarrow> \<not> rw_locked m \<Longrightarrow>
    rw_step i m (goes i WriterFirst (m\<lparr>rw_locked := True\<rparr>))"
| announce: "at_pc i m WriterFirst \<Longrightarrow> c = readerCount m - rwmutexMaxReaders \<Longrightarrow>
    rw_step i m (goes i (after_lock (c + rwmutexMaxReaders)) (m\<lparr>readerCount := c\<rparr>))"
| count_readers: "at_pc i m (Announced r) \<Longrightarrow> c = readerWait m + r \<Longrightarrow>
    rw_step i m (goes i (if c \<noteq> 0 then WriterSleep else Writing) (m\<lparr>readerWait := c\<rparr>))"
| writer_wakes: "at_pc i m WriterSleep \<Longrightarrow> 0 < writerSem m \<Longrightarrow>
    rw_step i m (goes i Writing (m\<lparr>writerSem := writerSem m - 1\<rparr>))"
| unlock: "at_pc i m Writing \<Longrightarrow> r = readerCount m + rwmutexMaxReaders \<Longrightarrow>
    rw_step i m (goes i (after_unlock_rw r) (m\<lparr>readerCount := r\<rparr>))"
| wake_reader: "at_pc i m (WakeReaders k r) \<Longrightarrow> int k < sint r \<Longrightarrow>
    rw_step i m (goes i (WakeReaders (k + 1) r) (m\<lparr>readerSem := readerSem m + 1\<rparr>))"
| unlock_w: "at_pc i m (WakeReaders k r) \<Longrightarrow> \<not> int k < sint r \<Longrightarrow>
    rw_step i m (goes i RwIdle (m\<lparr>rw_locked := False\<rparr>))"

text \<open>The zero value, shared by \<open>n\<close> goroutines.\<close>

definition new_rwmutex :: "nat \<Rightarrow> rwmutex" where
  "new_rwmutex n = \<lparr>rw_locked = False, writerSem = 0, readerSem = 0, readerCount = 0, readerWait = 0,
     rw_pcs = replicate n RwIdle\<rparr>"

inductive rw_reachable :: "nat \<Rightarrow> rwmutex \<Rightarrow> bool" for n where
  start: "rw_reachable n (new_rwmutex n)"
| step: "rw_reachable n m \<Longrightarrow> rw_step i m m' \<Longrightarrow> rw_reachable n m'"

section \<open>The invariant\<close>

fun is_asleep :: "rw_pc \<Rightarrow> int" where "is_asleep ReaderSleep = 1" | "is_asleep _ = 0"
fun is_reading :: "rw_pc \<Rightarrow> int" where "is_reading Reading = 1" | "is_reading _ = 0"
fun is_departing :: "rw_pc \<Rightarrow> int" where "is_departing Departing = 1" | "is_departing _ = 0"
fun is_waking :: "rw_pc \<Rightarrow> int" where "is_waking WakeWriter = 1" | "is_waking _ = 0"
fun is_counting :: "rw_pc \<Rightarrow> int" where "is_counting (Announced r) = 1" | "is_counting _ = 0"
fun is_sleeping :: "rw_pc \<Rightarrow> int" where "is_sleeping WriterSleep = 1" | "is_sleeping _ = 0"
fun is_writing :: "rw_pc \<Rightarrow> int" where "is_writing Writing = 1" | "is_writing _ = 0"
fun is_silent :: "rw_pc \<Rightarrow> int" where
  "is_silent WriterFirst = 1" | "is_silent (WakeReaders k r) = 1" | "is_silent _ = 0"

text \<open>What the writer has not yet added to \<open>readerWait\<close>, and the readers it still has to wake.\<close>

fun owed :: "rw_pc \<Rightarrow> int" where "owed (Announced r) = sint r" | "owed _ = 0"
fun to_wake :: "rw_pc \<Rightarrow> int" where "to_wake (WakeReaders k r) = sint r - int k" | "to_wake _ = 0"

fun rw_pc_ok :: "rw_pc \<Rightarrow> bool" where
  "rw_pc_ok (Announced r) \<longleftrightarrow> 0 < sint r"
| "rw_pc_ok (WakeReaders k r) \<longleftrightarrow> int k \<le> sint r"
| "rw_pc_ok RwThrown \<longleftrightarrow> False"
| "rw_pc_ok _ \<longleftrightarrow> True"

text \<open>
  The counters in terms of the places: \<open>a\<close> readers asleep, \<open>b\<close> reading, \<open>d\<close> departing, \<open>e\<close> about to wake
  the writer; \<open>nc\<close>, \<open>ns\<close>, \<open>nw\<close> writers counting, asleep, writing and \<open>q\<close> before or after that; \<open>ow\<close>
  owed to \<open>readerWait\<close>, \<open>tw\<close> readers still to wake.  The readers entitled to the lock are those reading
  and, of those asleep, as many as there are tokens in \<open>readerSem\<close> or still to be put there.  The four
  cases: no writer has announced itself; one has, and not yet counted the readers; it sleeps; it writes.
\<close>

definition rw_nums ::
  "bool \<Rightarrow> int \<Rightarrow> int \<Rightarrow> int \<Rightarrow> int \<Rightarrow> int \<Rightarrow> int \<Rightarrow> int \<Rightarrow> int \<Rightarrow> int \<Rightarrow> int \<Rightarrow> int \<Rightarrow> int \<Rightarrow> int \<Rightarrow> int \<Rightarrow> bool" where
  "rw_nums l nc ns nw q a b d e rc rt rs ws ow tw \<longleftrightarrow>
     nc = 0 \<and> ns = 0 \<and> nw = 0 \<and> q = of_bool l \<and> rc = a + b \<and> rs + tw = a \<and> d = 0 \<and> e = 0 \<and> rt = 0 \<and> ws = 0
   \<or> l \<and> nc = 1 \<and> ns = 0 \<and> nw = 0 \<and> q = 0 \<and> rc = a + b - 2 ^ 30 \<and> rs \<le> a \<and> rt + ow = b + rs + d \<and> rt \<le> 0 \<and> ow < 2 ^ 30 \<and> e = 0 \<and> ws = 0
   \<or> l \<and> nc = 0 \<and> ns = 1 \<and> nw = 0 \<and> q = 0 \<and> rc = a + b - 2 ^ 30 \<and> rs \<le> a \<and> rt = b + rs + d \<and> e + ws = of_bool (rt = 0)
   \<or> l \<and> nc = 0 \<and> ns = 0 \<and> nw = 1 \<and> q = 0 \<and> rc = a + b - 2 ^ 30 \<and> b = 0 \<and> rs = 0 \<and> d = 0 \<and> e = 0 \<and> rt = 0 \<and> ws = 0"

definition rw_inv :: "rwmutex \<Rightarrow> bool" where
  "rw_inv m \<longleftrightarrow> (\<forall>p\<in>set (rw_pcs m). rw_pc_ok p) \<and>
    (let W = (\<lambda>f. tally f (rw_pcs m)) in
     rw_nums (rw_locked m) (W is_counting) (W is_sleeping) (W is_writing) (W is_silent)
       (W is_asleep) (W is_reading) (W is_departing) (W is_waking)
       (sint (readerCount m)) (sint (readerWait m)) (int (readerSem m)) (int (writerSem m)) (W owed) (W to_wake))"

lemma weights_nonneg:
  "0 \<le> is_asleep p" "0 \<le> is_reading p" "0 \<le> is_departing p" "0 \<le> is_waking p" "0 \<le> is_counting p"
  "0 \<le> is_sleeping p" "0 \<le> is_writing p" "0 \<le> is_silent p"
  by (cases p; simp)+

lemma weights_one: "is_asleep p + is_reading p + is_departing p + is_waking p + is_counting p + is_sleeping p + is_writing p + is_silent p \<le> 1"
  by (cases p) simp_all

lemma tallies_bound:
  "tally is_asleep xs + tally is_reading xs + tally is_departing xs + tally is_waking xs + tally is_counting xs
    + tally is_sleeping xs + tally is_writing xs + tally is_silent xs \<le> int (length xs)"
  using tally_le [OF weights_one, where xs = xs] by (simp add: tally_add tally_const)

lemma tallies_nonneg:
  "0 \<le> tally is_asleep xs" "0 \<le> tally is_reading xs" "0 \<le> tally is_departing xs" "0 \<le> tally is_waking xs"
  "0 \<le> tally is_counting xs" "0 \<le> tally is_sleeping xs" "0 \<le> tally is_writing xs" "0 \<le> tally is_silent xs"
  by (intro tally_nonneg weights_nonneg)+

lemma rw_step_length: "rw_step i m m' \<Longrightarrow> length (rw_pcs m') = length (rw_pcs m)"
  by (induction rule: rw_step.induct) simp_all

lemma tally_only:
  assumes "\<And>p. rw_pc_ok p \<Longrightarrow> 0 \<le> f p" "\<And>p. 0 < f p \<Longrightarrow> g p = 1" "\<And>p. 0 \<le> g p" "\<forall>p\<in>set xs. rw_pc_ok p"
  shows "0 \<le> tally f xs" "tally g xs = 0 \<Longrightarrow> tally f xs = 0"
proof -
  show "0 \<le> tally f xs" using assms(1,4) by (induction xs) (simp_all add: tally_def)
  moreover assume "tally g xs = 0"
  then have "\<not> 0 < tally f xs"
  proof -
    have "g (xs ! i) \<le> 0" if "i < length xs" for i using tally_ge [of g i xs] assms(3) that \<open>tally g xs = 0\<close> by simp
    then show ?thesis using tally_pos [of f xs] assms(2) by fastforce
  qed
  ultimately show "tally f xs = 0" by simp
qed

lemma owed_nonneg: "\<forall>p\<in>set xs. rw_pc_ok p \<Longrightarrow> 0 \<le> tally owed xs"
  and owed_zero: "\<forall>p\<in>set xs. rw_pc_ok p \<Longrightarrow> tally is_counting xs = 0 \<Longrightarrow> tally owed xs = 0"
  and to_wake_nonneg: "\<forall>p\<in>set xs. rw_pc_ok p \<Longrightarrow> 0 \<le> tally to_wake xs"
  and to_wake_zero: "\<forall>p\<in>set xs. rw_pc_ok p \<Longrightarrow> tally is_silent xs = 0 \<Longrightarrow> tally to_wake xs = 0"
proof -
  have o: "rw_pc_ok p \<Longrightarrow> 0 \<le> owed p" "0 < owed p \<Longrightarrow> is_counting p = 1" for p by (cases p; simp)+
  have t: "rw_pc_ok p \<Longrightarrow> 0 \<le> to_wake p" "0 < to_wake p \<Longrightarrow> is_silent p = 1" for p by (cases p; simp)+
  assume ok: "\<forall>p\<in>set xs. rw_pc_ok p"
  show "0 \<le> tally owed xs" "tally is_counting xs = 0 \<Longrightarrow> tally owed xs = 0"
    using tally_only [of owed is_counting xs, OF o weights_nonneg(5) ok] by blast+
  show "0 \<le> tally to_wake xs" "tally is_silent xs = 0 \<Longrightarrow> tally to_wake xs = 0"
    using tally_only [of to_wake is_silent xs, OF t weights_nonneg(8) ok] by blast+
qed

section \<open>Every step keeps it\<close>

lemma max_readers: "sint rwmutexMaxReaders = 2 ^ 30"
  by (simp add: rwmutexMaxReaders_def)

lemma ok_update: "\<forall>p\<in>set xs. rw_pc_ok p \<Longrightarrow> rw_pc_ok q \<Longrightarrow> \<forall>p\<in>set (xs[i := q]). rw_pc_ok p"
  using set_update_subset_insert [of xs i q] by auto

text \<open>What is known in a state where goroutine \<open>i\<close> is at \<open>p\<close>.\<close>

lemma rw_facts:
  assumes "rw_inv m" "at_pc i m p"
  shows "\<forall>q\<in>set (rw_pcs m). rw_pc_ok q" "rw_pc_ok p"
    "0 \<le> tally is_asleep (rw_pcs m)" "0 \<le> tally is_reading (rw_pcs m)" "0 \<le> tally is_departing (rw_pcs m)"
    "0 \<le> tally is_waking (rw_pcs m)" "0 \<le> tally owed (rw_pcs m)" "0 \<le> tally to_wake (rw_pcs m)"
    "tally is_counting (rw_pcs m) = 0 \<Longrightarrow> tally owed (rw_pcs m) = 0"
    "tally is_silent (rw_pcs m) = 0 \<Longrightarrow> tally to_wake (rw_pcs m) = 0"
    "tally is_asleep (rw_pcs m) + tally is_reading (rw_pcs m) \<le> int (length (rw_pcs m))"
proof -
  show ok: "\<forall>q\<in>set (rw_pcs m). rw_pc_ok q" using assms(1) by (simp add: rw_inv_def Let_def)
  then show "rw_pc_ok p" using assms(2) by auto
  show "tally is_asleep (rw_pcs m) + tally is_reading (rw_pcs m) \<le> int (length (rw_pcs m))"
    using tallies_bound [of "rw_pcs m"] tallies_nonneg [of "rw_pcs m"] by linarith
qed (use assms in \<open>auto simp: rw_inv_def Let_def intro!: tallies_nonneg owed_nonneg to_wake_nonneg owed_zero to_wake_zero\<close>)

lemma pc_weight:
  assumes "at_pc i m p"
  shows "is_asleep p \<le> tally is_asleep (rw_pcs m)" "is_reading p \<le> tally is_reading (rw_pcs m)"
    "is_departing p \<le> tally is_departing (rw_pcs m)" "is_waking p \<le> tally is_waking (rw_pcs m)"
    "is_counting p \<le> tally is_counting (rw_pcs m)" "is_sleeping p \<le> tally is_sleeping (rw_pcs m)"
    "is_writing p \<le> tally is_writing (rw_pcs m)" "is_silent p \<le> tally is_silent (rw_pcs m)"
  using assms weights_nonneg by (auto intro: tally_ge)

text \<open>A goroutine moves from \<open>p\<close> to \<open>p'\<close> and the fields change: all that has to be checked is arithmetic.\<close>

lemma rw_move:
  assumes "rw_inv m" "at_pc i m p" "rw_pc_ok p'"
    and "let W = (\<lambda>f. tally f (rw_pcs m) - f p + f p') in
      rw_nums l (W is_counting) (W is_sleeping) (W is_writing) (W is_silent)
       (W is_asleep) (W is_reading) (W is_departing) (W is_waking)
       (sint rc) (sint rt) (int rs) (int ws) (W owed) (W to_wake)"
  shows "rw_inv (goes i p' (m\<lparr>rw_locked := l, readerCount := rc, readerWait := rt, readerSem := rs, writerSem := ws\<rparr>))"
  using assms(3,4) ok_update [OF rw_facts(1) [OF assms(1,2)] assms(3), of i] assms(2)
  by (simp add: rw_inv_def Let_def tally_update)

text \<open>The arithmetic of the steps.\<close>

lemma nums_range:
  assumes "rw_nums l nc ns nw q a b d e rc rt rs ws ow tw" "0 \<le> a" "0 \<le> b" "0 \<le> d" "0 \<le> rs" "a + b < 2 ^ 30" "d < 2 ^ 30"
  shows "- (2 ^ 30) \<le> rc \<and> rc < 2 ^ 30 \<and> - (2 ^ 30) < rt \<and> rt < 2 ^ 31 \<and> (0 < b \<longrightarrow> - (2 ^ 30) < rc)"
  using assms unfolding rw_nums_def by (elim disjE conjE) simp_all

lemma nums_rlock:
  assumes "rw_nums l nc ns nw q a b d e rc rt rs ws ow tw" "0 \<le> a" "0 \<le> b" "a + b + 1 < 2 ^ 30"
  shows "if rc + 1 < 0 then rw_nums l nc ns nw q (a + 1) b d e (rc + 1) rt rs ws ow tw
    else rw_nums l nc ns nw q a (b + 1) d e (rc + 1) rt rs ws ow tw"
  using assms unfolding rw_nums_def by (elim disjE conjE) simp_all

lemma nums_reader_wakes:
  assumes "rw_nums l nc ns nw q a b d e rc rt rs ws ow tw" "0 < rs" "1 \<le> a"
  shows "rw_nums l nc ns nw q (a - 1) (b + 1) d e rc rt (rs - 1) ws ow tw"
  using assms unfolding rw_nums_def by (elim disjE conjE) simp_all

lemma nums_runlock:
  assumes "rw_nums l nc ns nw q a b d e rc rt rs ws ow tw" "0 \<le> a" "1 \<le> b" "a + b < 2 ^ 30"
  shows "if rc - 1 < 0 then rw_nums l nc ns nw q a (b - 1) (d + 1) e (rc - 1) rt rs ws ow tw
    else rw_nums l nc ns nw q a (b - 1) d e (rc - 1) rt rs ws ow tw"
  using assms unfolding rw_nums_def by (elim disjE conjE) simp_all

lemma nums_depart:
  assumes "rw_nums l nc ns nw q a b d e rc rt rs ws ow tw" "0 \<le> b" "0 \<le> rs" "1 \<le> d" "0 \<le> ws"
  shows "if rt - 1 = 0 then rw_nums l nc ns nw q a b (d - 1) (e + 1) rc (rt - 1) rs ws ow tw
    else rw_nums l nc ns nw q a b (d - 1) e rc (rt - 1) rs ws ow tw"
  using assms unfolding rw_nums_def by (elim disjE conjE) simp_all

lemma nums_wake_writer:
  assumes "rw_nums l nc ns nw q a b d e rc rt rs ws ow tw" "1 \<le> e"
  shows "rw_nums l nc ns nw q a b d (e - 1) rc rt rs (ws + 1) ow tw"
  using assms unfolding rw_nums_def by (elim disjE conjE) simp_all

lemma nums_lock_w: "rw_nums False nc ns nw q a b d e rc rt rs ws ow tw \<Longrightarrow> rw_nums True nc ns nw (q + 1) a b d e rc rt rs ws ow tw"
  unfolding rw_nums_def by (elim disjE conjE) simp_all

lemma nums_announce:
  assumes "rw_nums l nc ns nw q a b d e rc rt rs ws ow tw" "1 \<le> q" "0 \<le> a" "0 \<le> b" "0 \<le> rs" "ow = 0" "tw = 0" "a + b < 2 ^ 30"
  shows "if rc \<noteq> 0 then rw_nums l (nc + 1) ns nw (q - 1) a b d e (rc - 2 ^ 30) rt rs ws (ow + rc) tw \<and> 0 < rc
    else rw_nums l nc ns (nw + 1) (q - 1) a b d e (rc - 2 ^ 30) rt rs ws ow tw"
  using assms unfolding rw_nums_def by (elim disjE conjE) (simp_all add: of_bool_def split: if_splits)

lemma nums_count_readers:
  assumes "rw_nums l nc ns nw q a b d e rc rt rs ws ow tw" "1 \<le> nc" "0 \<le> b" "0 \<le> rs" "0 \<le> d" "tw = 0"
  shows "if rt + ow \<noteq> 0 then rw_nums l (nc - 1) (ns + 1) nw q a b d e rc (rt + ow) rs ws 0 tw
    else rw_nums l (nc - 1) ns (nw + 1) q a b d e rc (rt + ow) rs ws 0 tw"
  using assms unfolding rw_nums_def by (elim disjE conjE) simp_all

lemma nums_writer_wakes:
  assumes "rw_nums l nc ns nw q a b d e rc rt rs ws ow tw" "1 \<le> ns" "0 < ws" "0 \<le> b" "0 \<le> rs" "0 \<le> d" "0 \<le> e"
  shows "rw_nums l nc (ns - 1) (nw + 1) q a b d e rc rt rs (ws - 1) ow tw"
  using assms unfolding rw_nums_def by (elim disjE conjE) (simp_all add: of_bool_def split: if_splits)

lemma nums_unlock:
  assumes "rw_nums l nc ns nw q a b d e rc rt rs ws ow tw" "1 \<le> nw" "0 \<le> a" "a < 2 ^ 30" "tw = 0"
  shows "rw_nums l nc ns (nw - 1) (q + 1) a b d e (rc + 2 ^ 30) rt rs ws ow (rc + 2 ^ 30) \<and> 0 \<le> rc + 2 ^ 30 \<and> rc + 2 ^ 30 < 2 ^ 30"
  using assms unfolding rw_nums_def by (elim disjE conjE) simp_all

lemma nums_wake_reader:
  assumes "rw_nums l nc ns nw q a b d e rc rt rs ws ow tw" "1 \<le> q"
  shows "rw_nums l nc ns nw q a b d e rc rt (rs + 1) ws ow (tw - 1)"
  using assms unfolding rw_nums_def by (elim disjE conjE) simp_all

lemma nums_unlock_w:
  assumes "rw_nums l nc ns nw q a b d e rc rt rs ws ow tw" "1 \<le> q"
  shows "rw_nums False nc ns nw (q - 1) a b d e rc rt rs ws ow tw"
  using assms unfolding rw_nums_def by (elim disjE conjE) (simp_all add: of_bool_def split: if_splits)

section \<open>Reachable states\<close>

lemma inv_nums:
  assumes "rw_inv m"
  shows "rw_nums (rw_locked m) (tally is_counting (rw_pcs m)) (tally is_sleeping (rw_pcs m)) (tally is_writing (rw_pcs m))
    (tally is_silent (rw_pcs m)) (tally is_asleep (rw_pcs m)) (tally is_reading (rw_pcs m)) (tally is_departing (rw_pcs m))
    (tally is_waking (rw_pcs m)) (sint (readerCount m)) (sint (readerWait m)) (int (readerSem m)) (int (writerSem m))
    (tally owed (rw_pcs m)) (tally to_wake (rw_pcs m))"
  using assms by (simp add: rw_inv_def Let_def)

lemma idle_bound:
  assumes "at_pc i m RwIdle"
  shows "tally is_asleep (rw_pcs m) + tally is_reading (rw_pcs m) + 1 \<le> int (length (rw_pcs m))"
  using tallies_bound [of "(rw_pcs m)[i := ReaderSleep]"] tallies_nonneg [of "rw_pcs m"] assms
  by (simp add: tally_update)

lemma nums_reading:
  assumes "rw_nums l nc ns nw q a b d e rc rt rs ws ow tw" "0 \<le> a" "1 \<le> b" "a + b < 2 ^ 30"
  shows "rc \<noteq> 0 \<and> rc \<noteq> - (2 ^ 30)"
  using assms unfolding rw_nums_def by (elim disjE conjE) simp_all

lemma nums_count_range:
  assumes "rw_nums l nc ns nw q a b d e rc rt rs ws ow tw" "1 \<le> nc"
  shows "rt \<le> 0 \<and> ow < 2 ^ 30"
  using assms unfolding rw_nums_def by (elim disjE conjE) simp_all

text \<open>There is one writer at most.\<close>

lemma nums_single:
  assumes "rw_nums l nc ns nw q a b d e rc rt rs ws ow tw"
  shows "q \<le> 1" "nc \<le> 1" "1 \<le> q \<Longrightarrow> nc = 0" "1 \<le> nc \<Longrightarrow> q = 0" "1 \<le> nw \<Longrightarrow> q = 0"
  using assms unfolding rw_nums_def by (elim disjE conjE; simp)+

lemma single_weight:
  assumes "rw_inv m" "at_pc i m p"
  shows "is_silent p = 1 \<Longrightarrow> tally to_wake (rw_pcs m) = to_wake p \<and> tally owed (rw_pcs m) = 0"
    "is_counting p = 1 \<Longrightarrow> tally owed (rw_pcs m) = owed p \<and> tally to_wake (rw_pcs m) = 0"
    "is_writing p = 1 \<Longrightarrow> tally to_wake (rw_pcs m) = 0"
proof -
  note n = nums_single [OF inv_nums [OF assms(1)]] and w = pc_weight [OF assms(2)] and f = rw_facts [OF assms]
  have ok: "\<forall>q\<in>set ((rw_pcs m)[i := RwIdle]). rw_pc_ok q" by (rule ok_update [OF f(1)]) simp
  show "is_silent p = 1 \<Longrightarrow> tally to_wake (rw_pcs m) = to_wake p \<and> tally owed (rw_pcs m) = 0"
    using to_wake_zero [OF ok] n(1,3) w(8) f(9) assms(2) by (simp add: tally_update)
  show "is_counting p = 1 \<Longrightarrow> tally owed (rw_pcs m) = owed p \<and> tally to_wake (rw_pcs m) = 0"
    using owed_zero [OF ok] n(2,4) w(5) f(10) assms(2) by (simp add: tally_update)
  show "is_writing p = 1 \<Longrightarrow> tally to_wake (rw_pcs m) = 0" using n(5) w(7) f(10) by simp
qed

text \<open>Bounds that keep the counters from overflowing.\<close>

lemma rw_range:
  assumes "rw_inv m" "at_pc i m p" "length (rw_pcs m) < 2 ^ 30"
  shows "- (2 ^ 30) \<le> sint (readerCount m)" "sint (readerCount m) < 2 ^ 30" "- (2 ^ 30) < sint (readerWait m)"
    "sint (readerWait m) < 2 ^ 31" "tally is_asleep (rw_pcs m) + tally is_reading (rw_pcs m) < 2 ^ 30"
    "0 < tally is_reading (rw_pcs m) \<Longrightarrow> - (2 ^ 30) < sint (readerCount m)"
    "tally is_asleep (rw_pcs m) < 2 ^ 30"
proof -
  note f = rw_facts [OF assms(1,2)]
  have len: "int (length (rw_pcs m)) < 2 ^ 30" using assms(3) by simp
  have d: "tally is_departing (rw_pcs m) < 2 ^ 30"
    using tallies_bound [of "rw_pcs m"] tallies_nonneg [of "rw_pcs m"] assms(3) by simp
  show ab: "tally is_asleep (rw_pcs m) + tally is_reading (rw_pcs m) < 2 ^ 30" using f(11) len by linarith
  then show "tally is_asleep (rw_pcs m) < 2 ^ 30" using f(4) by linarith
  show "- (2 ^ 30) \<le> sint (readerCount m)" "sint (readerCount m) < 2 ^ 30" "- (2 ^ 30) < sint (readerWait m)"
    "sint (readerWait m) < 2 ^ 31" "0 < tally is_reading (rw_pcs m) \<Longrightarrow> - (2 ^ 30) < sint (readerCount m)"
    using nums_range [OF inv_nums [OF assms(1)] f(3,4,5) of_nat_0_le_iff ab d] by blast+
qed

lemma rlock_inv:
  assumes "rw_inv m" "at_pc i m RwIdle" "length (rw_pcs m) < 2 ^ 30" "r = readerCount m + 1"
  shows "rw_inv (goes i (if r <s 0 then ReaderSleep else Reading) (m\<lparr>readerCount := r\<rparr>))"
proof -
  note f = rw_facts [OF assms(1,2)] and w = pc_weight [OF assms(2), simplified] and n = inv_nums [OF assms(1)] and range = rw_range [OF assms(1-3)]
  have len: "int (length (rw_pcs m)) < 2 ^ 30" using assms(3) by simp
  have room: "tally is_asleep (rw_pcs m) + tally is_reading (rw_pcs m) + 1 < 2 ^ 30"
    using idle_bound [OF assms(2)] len by linarith
  have r: "sint r = sint (readerCount m) + 1" unfolding assms(4) by (subst sint32_add) (use range in simp_all)
  have "rw_inv (goes i (if r <s 0 then ReaderSleep else Reading) (m\<lparr>rw_locked := rw_locked m, readerCount := r, readerWait := readerWait m, readerSem := readerSem m, writerSem := writerSem m\<rparr>))"
    by (rule rw_move [OF assms(1,2)]) (use nums_rlock [OF n f(3,4) room] in \<open>simp_all add: r sless_view Let_def split: if_splits\<close>)
  then show ?thesis by simp
qed

lemma reader_wakes_inv:
  assumes "rw_inv m" "at_pc i m ReaderSleep" "length (rw_pcs m) < 2 ^ 30" "0 < readerSem m"
  shows "rw_inv (goes i Reading (m\<lparr>readerSem := readerSem m - 1\<rparr>))"
proof -
  note f = rw_facts [OF assms(1,2)] and w = pc_weight [OF assms(2), simplified] and n = inv_nums [OF assms(1)] and range = rw_range [OF assms(1-3)]
  have len: "int (length (rw_pcs m)) < 2 ^ 30" using assms(3) by simp
  have "rw_inv (goes i Reading (m\<lparr>rw_locked := rw_locked m, readerCount := readerCount m, readerWait := readerWait m, readerSem := readerSem m - 1, writerSem := writerSem m\<rparr>))"
    by (rule rw_move [OF assms(1,2)]) (use nums_reader_wakes [OF n _ w(1)] assms(4) in \<open>simp_all add: of_nat_diff Let_def\<close>)
  then show ?thesis by simp
qed

lemma runlock_inv:
  assumes "rw_inv m" "at_pc i m Reading" "length (rw_pcs m) < 2 ^ 30" "r = readerCount m - 1"
  shows "rw_inv (goes i (after_runlock r) (m\<lparr>readerCount := r\<rparr>))"
proof -
  note f = rw_facts [OF assms(1,2)] and w = pc_weight [OF assms(2), simplified] and n = inv_nums [OF assms(1)] and range = rw_range [OF assms(1-3)]
  have len: "int (length (rw_pcs m)) < 2 ^ 30" using assms(3) by simp
  have r: "sint r = sint (readerCount m) - 1" unfolding assms(4) by (subst sint32_diff) (use range w in simp_all)
  have "r + 1 = readerCount m" unfolding assms(4) by simp
  then have "r <s 0 \<Longrightarrow> r + 1 \<noteq> 0 \<and> r + 1 \<noteq> - rwmutexMaxReaders"
    using nums_reading [OF n f(3) w(2) range(5)] r by (auto simp: rwmutexMaxReaders_def sless_view sint32_eq)
  then have p': "after_runlock r = (if r <s 0 then Departing else RwIdle)" by (simp add: after_runlock_def)
  have "rw_inv (goes i (after_runlock r) (m\<lparr>rw_locked := rw_locked m, readerCount := r, readerWait := readerWait m, readerSem := readerSem m, writerSem := writerSem m\<rparr>))"
    unfolding p' by (rule rw_move [OF assms(1,2)]) (use nums_runlock [OF n f(3) w(2) range(5)] in \<open>simp_all add: r sless_view Let_def split: if_splits\<close>)
  then show ?thesis by simp
qed

lemma depart_inv:
  assumes "rw_inv m" "at_pc i m Departing" "length (rw_pcs m) < 2 ^ 30" "r = readerWait m - 1"
  shows "rw_inv (goes i (if r = 0 then WakeWriter else RwIdle) (m\<lparr>readerWait := r\<rparr>))"
proof -
  note f = rw_facts [OF assms(1,2)] and w = pc_weight [OF assms(2), simplified] and n = inv_nums [OF assms(1)] and range = rw_range [OF assms(1-3)]
  have len: "int (length (rw_pcs m)) < 2 ^ 30" using assms(3) by simp
  have r: "sint r = sint (readerWait m) - 1" unfolding assms(4) by (subst sint32_diff) (use range in simp_all)
  have "rw_inv (goes i (if r = 0 then WakeWriter else RwIdle) (m\<lparr>rw_locked := rw_locked m, readerCount := readerCount m, readerWait := r, readerSem := readerSem m, writerSem := writerSem m\<rparr>))"
    by (rule rw_move [OF assms(1,2)]) (use nums_depart [OF n f(4) of_nat_0_le_iff w(3) of_nat_0_le_iff] in \<open>simp_all add: r sint32_eq Let_def split: if_splits\<close>)
  then show ?thesis by simp
qed

lemma wake_writer_inv:
  assumes "rw_inv m" "at_pc i m WakeWriter" "length (rw_pcs m) < 2 ^ 30"
  shows "rw_inv (goes i RwIdle (m\<lparr>writerSem := writerSem m + 1\<rparr>))"
proof -
  note f = rw_facts [OF assms(1,2)] and w = pc_weight [OF assms(2), simplified] and n = inv_nums [OF assms(1)] and range = rw_range [OF assms(1-3)]
  have len: "int (length (rw_pcs m)) < 2 ^ 30" using assms(3) by simp
  have "rw_inv (goes i RwIdle (m\<lparr>rw_locked := rw_locked m, readerCount := readerCount m, readerWait := readerWait m, readerSem := readerSem m, writerSem := writerSem m + 1\<rparr>))"
    by (rule rw_move [OF assms(1,2)]) (use nums_wake_writer [OF n w(4)] in \<open>simp_all add: Let_def add.commute\<close>)
  then show ?thesis by simp
qed

lemma lock_inv:
  assumes "rw_inv m" "at_pc i m RwIdle" "length (rw_pcs m) < 2 ^ 30"
  shows "rw_inv (goes i LockWait m)"
proof -
  note n = inv_nums [OF assms(1)]
  have "rw_inv (goes i LockWait (m\<lparr>rw_locked := rw_locked m, readerCount := readerCount m, readerWait := readerWait m, readerSem := readerSem m, writerSem := writerSem m\<rparr>))"
    by (rule rw_move [OF assms(1,2)]) (use n in \<open>simp_all add: Let_def\<close>)
  then show ?thesis by simp
qed

lemma lock_w_inv:
  assumes "rw_inv m" "at_pc i m LockWait" "length (rw_pcs m) < 2 ^ 30" "\<not> rw_locked m"
  shows "rw_inv (goes i WriterFirst (m\<lparr>rw_locked := True\<rparr>))"
proof -
  note f = rw_facts [OF assms(1,2)] and w = pc_weight [OF assms(2), simplified] and n = inv_nums [OF assms(1)] and range = rw_range [OF assms(1-3)]
  have len: "int (length (rw_pcs m)) < 2 ^ 30" using assms(3) by simp
  have "rw_inv (goes i WriterFirst (m\<lparr>rw_locked := True, readerCount := readerCount m, readerWait := readerWait m, readerSem := readerSem m, writerSem := writerSem m\<rparr>))"
    by (rule rw_move [OF assms(1,2)]) (use n assms(4) nums_lock_w in \<open>simp_all add: Let_def\<close>)
  then show ?thesis by simp
qed

lemma announce_inv:
  assumes "rw_inv m" "at_pc i m WriterFirst" "length (rw_pcs m) < 2 ^ 30" "c = readerCount m - rwmutexMaxReaders"
  shows "rw_inv (goes i (after_lock (c + rwmutexMaxReaders)) (m\<lparr>readerCount := c\<rparr>))"
proof -
  note f = rw_facts [OF assms(1,2)] and w = pc_weight [OF assms(2), simplified] and n = inv_nums [OF assms(1)] and range = rw_range [OF assms(1-3)]
  have len: "int (length (rw_pcs m)) < 2 ^ 30" using assms(3) by simp
  have c: "sint c = sint (readerCount m) - 2 ^ 30" unfolding assms(4)
    by (subst sint32_diff; subst max_readers) (use range in simp_all)
  have p': "after_lock (c + rwmutexMaxReaders) = (if sint (readerCount m) \<noteq> 0 then Announced (readerCount m) else Writing)"
    by (simp add: assms(4) after_lock_def sint32_eq)
  have "rw_inv (goes i (after_lock (c + rwmutexMaxReaders)) (m\<lparr>rw_locked := rw_locked m, readerCount := c, readerWait := readerWait m, readerSem := readerSem m, writerSem := writerSem m\<rparr>))"
    unfolding p' by (rule rw_move [OF assms(1,2)]) (use nums_announce [OF n w(8) f(3,4) of_nat_0_le_iff _ _ range(5)] single_weight(1) [OF assms(1,2)] in \<open>simp_all add: c Let_def split: if_splits\<close>)
  then show ?thesis by simp
qed

lemma count_readers_inv:
  assumes "rw_inv m" "at_pc i m (Announced r)" "length (rw_pcs m) < 2 ^ 30" "c = readerWait m + r"
  shows "rw_inv (goes i (if c \<noteq> 0 then WriterSleep else Writing) (m\<lparr>readerWait := c\<rparr>))"
proof -
  note f = rw_facts [OF assms(1,2)] and w = pc_weight [OF assms(2), simplified] and n = inv_nums [OF assms(1)] and range = rw_range [OF assms(1-3)]
  have len: "int (length (rw_pcs m)) < 2 ^ 30" using assms(3) by simp
  have owed: "tally owed (rw_pcs m) = sint r" "tally to_wake (rw_pcs m) = 0" using single_weight(2) [OF assms(1,2)] by simp_all
  have c: "sint c = sint (readerWait m) + sint r" unfolding assms(4)
    by (subst sint32_add) (use range owed f(2) nums_count_range [OF n w(5)] in simp_all)
  have "rw_inv (goes i (if c \<noteq> 0 then WriterSleep else Writing) (m\<lparr>rw_locked := rw_locked m, readerCount := readerCount m, readerWait := c, readerSem := readerSem m, writerSem := writerSem m\<rparr>))"
    by (rule rw_move [OF assms(1,2)]) (use nums_count_readers [OF n w(5) f(4) of_nat_0_le_iff f(5)] owed in \<open>simp_all add: c sint32_eq Let_def split: if_splits\<close>)
  then show ?thesis by simp
qed

lemma writer_wakes_inv:
  assumes "rw_inv m" "at_pc i m WriterSleep" "length (rw_pcs m) < 2 ^ 30" "0 < writerSem m"
  shows "rw_inv (goes i Writing (m\<lparr>writerSem := writerSem m - 1\<rparr>))"
proof -
  note f = rw_facts [OF assms(1,2)] and w = pc_weight [OF assms(2), simplified] and n = inv_nums [OF assms(1)] and range = rw_range [OF assms(1-3)]
  have len: "int (length (rw_pcs m)) < 2 ^ 30" using assms(3) by simp
  have "rw_inv (goes i Writing (m\<lparr>rw_locked := rw_locked m, readerCount := readerCount m, readerWait := readerWait m, readerSem := readerSem m, writerSem := writerSem m - 1\<rparr>))"
    by (rule rw_move [OF assms(1,2)]) (use nums_writer_wakes [OF n w(6) _ f(4) of_nat_0_le_iff f(5,6)] assms(4) in \<open>simp_all add: of_nat_diff Let_def\<close>)
  then show ?thesis by simp
qed

lemma unlock_inv:
  assumes "rw_inv m" "at_pc i m Writing" "length (rw_pcs m) < 2 ^ 30" "r = readerCount m + rwmutexMaxReaders"
  shows "rw_inv (goes i (after_unlock_rw r) (m\<lparr>readerCount := r\<rparr>))"
proof -
  note f = rw_facts [OF assms(1,2)] and w = pc_weight [OF assms(2), simplified] and n = inv_nums [OF assms(1)] and range = rw_range [OF assms(1-3)]
  have len: "int (length (rw_pcs m)) < 2 ^ 30" using assms(3) by simp
  have r: "sint r = sint (readerCount m) + 2 ^ 30" unfolding assms(4)
    by (subst sint32_add; subst max_readers) (use range in simp_all)
  have p': "after_unlock_rw r = WakeReaders 0 r"
    using nums_unlock [OF n w(7) f(3) range(7)] single_weight(3) [OF assms(1,2)] by (simp add: after_unlock_rw_def sle_view max_readers r)
  have "rw_inv (goes i (after_unlock_rw r) (m\<lparr>rw_locked := rw_locked m, readerCount := r, readerWait := readerWait m, readerSem := readerSem m, writerSem := writerSem m\<rparr>))"
    unfolding p' by (rule rw_move [OF assms(1,2)]) (use nums_unlock [OF n w(7) f(3) range(7)] single_weight(3) [OF assms(1,2)] in \<open>simp_all add: r Let_def\<close>)
  then show ?thesis by simp
qed

lemma wake_reader_inv:
  assumes "rw_inv m" "at_pc i m (WakeReaders k r)" "length (rw_pcs m) < 2 ^ 30" "int k < sint r"
  shows "rw_inv (goes i (WakeReaders (k + 1) r) (m\<lparr>readerSem := readerSem m + 1\<rparr>))"
proof -
  note f = rw_facts [OF assms(1,2)] and w = pc_weight [OF assms(2), simplified] and n = inv_nums [OF assms(1)] and range = rw_range [OF assms(1-3)]
  have len: "int (length (rw_pcs m)) < 2 ^ 30" using assms(3) by simp
  have "rw_inv (goes i (WakeReaders (k + 1) r) (m\<lparr>rw_locked := rw_locked m, readerCount := readerCount m, readerWait := readerWait m, readerSem := readerSem m + 1, writerSem := writerSem m\<rparr>))"
    by (rule rw_move [OF assms(1,2)]) (use nums_wake_reader [OF n w(8)] assms(4) in \<open>simp_all add: Let_def algebra_simps\<close>)
  then show ?thesis by simp
qed

lemma unlock_w_inv:
  assumes "rw_inv m" "at_pc i m (WakeReaders k r)" "length (rw_pcs m) < 2 ^ 30" "\<not> int k < sint r"
  shows "rw_inv (goes i RwIdle (m\<lparr>rw_locked := False\<rparr>))"
proof -
  note f = rw_facts [OF assms(1,2)] and w = pc_weight [OF assms(2), simplified] and n = inv_nums [OF assms(1)] and range = rw_range [OF assms(1-3)]
  have len: "int (length (rw_pcs m)) < 2 ^ 30" using assms(3) by simp
  have "rw_inv (goes i RwIdle (m\<lparr>rw_locked := False, readerCount := readerCount m, readerWait := readerWait m, readerSem := readerSem m, writerSem := writerSem m\<rparr>))"
    by (rule rw_move [OF assms(1,2)]) (use nums_unlock_w [OF n w(8)] assms(4) f(2) in \<open>simp_all add: Let_def\<close>)
  then show ?thesis by simp
qed

lemma rw_step_inv: "rw_step i m m' \<Longrightarrow> rw_inv m \<Longrightarrow> length (rw_pcs m) < 2 ^ 30 \<Longrightarrow> rw_inv m'"
  by (erule rw_step.cases)
    (auto simp only: intro!: rlock_inv reader_wakes_inv runlock_inv depart_inv wake_writer_inv lock_inv lock_w_inv announce_inv
      count_readers_inv writer_wakes_inv unlock_inv wake_reader_inv unlock_w_inv)

lemma rw_reachable_inv:
  assumes "rw_reachable n m" "n < 2 ^ 30"
  shows "rw_inv m \<and> length (rw_pcs m) = n"
  using assms
proof (induction rule: rw_reachable.induct)
  case start
  then show ?case by (simp add: rw_inv_def Let_def new_rwmutex_def rw_nums_def)
next
  case (step m i m')
  then have "rw_inv m'" using rw_step_inv by auto
  then show ?case using step rw_step_length by auto
qed

lemma some_pc: "0 < tally f (rw_pcs m) \<Longrightarrow> \<exists>j p. at_pc j m p \<and> 0 < f p"
  using tally_pos [of f "rw_pcs m"] by auto

text \<open>Places at which a goroutine can always go on.\<close>

lemma can_step:
  assumes "at_pc j m p" "p \<notin> {RwIdle, ReaderSleep, LockWait, WriterSleep, RwThrown}"
  shows "\<exists>m'. rw_step j m m'"
proof (cases p)
  case Reading
  then have "at_pc j m Reading" using assms(1) by simp
  from rw_step.runlock [OF this] show ?thesis by blast
next
  case Departing
  then have "at_pc j m Departing" using assms(1) by simp
  from rw_step.depart [OF this] show ?thesis by blast
next
  case WakeWriter
  then have "at_pc j m WakeWriter" using assms(1) by simp
  from rw_step.wake_writer [OF this] show ?thesis by blast
next
  case WriterFirst
  then have "at_pc j m WriterFirst" using assms(1) by simp
  from rw_step.announce [OF this] show ?thesis by blast
next
  case (Announced r)
  then have "at_pc j m (Announced r)" using assms(1) by simp
  from rw_step.count_readers [OF this] show ?thesis by blast
next
  case Writing
  then have "at_pc j m Writing" using assms(1) by simp
  from rw_step.unlock [OF this] show ?thesis by blast
next
  case (WakeReaders k r)
  then have "at_pc j m (WakeReaders k r)" using assms(1) by simp
  from rw_step.wake_reader [OF this] rw_step.unlock_w [OF this] show ?thesis by blast
qed (use assms(2) in simp_all)

lemma goes_on:
  assumes "rw_inv m" "0 < tally f (rw_pcs m)" "\<And>p. 0 < f p \<Longrightarrow> p \<notin> {RwIdle, ReaderSleep, LockWait, WriterSleep, RwThrown}"
  shows "\<exists>j m'. rw_step j m m' \<and> rw_pcs m ! j \<noteq> RwIdle"
proof -
  obtain j p where j: "at_pc j m p" "0 < f p" using some_pc [OF assms(2)] by blast
  then have "p \<notin> {RwIdle, ReaderSleep, LockWait, WriterSleep, RwThrown}" using assms(3) by blast
  then show ?thesis using can_step [OF j(1)] j(1) by blast
qed

lemma sleeper_wakes:
  assumes "rw_inv m" "0 < tally is_asleep (rw_pcs m)" "0 < readerSem m"
  shows "\<exists>j m'. rw_step j m m' \<and> rw_pcs m ! j \<noteq> RwIdle"
proof -
  obtain j p where j: "at_pc j m p" "0 < is_asleep p" using some_pc [OF assms(2)] by blast
  then have "p = ReaderSleep" by (cases p) simp_all
  then show ?thesis using rw_step.reader_wakes [OF _ assms(3), of j] j(1) by (metis rw_pc.distinct(1))
qed

lemma writer_wakes_up:
  assumes "rw_inv m" "0 < tally is_sleeping (rw_pcs m)" "0 < writerSem m"
  shows "\<exists>j m'. rw_step j m m' \<and> rw_pcs m ! j \<noteq> RwIdle"
proof -
  obtain j p where j: "at_pc j m p" "0 < is_sleeping p" using some_pc [OF assms(2)] by blast
  then have "p = WriterSleep" by (cases p) simp_all
  then show ?thesis using rw_step.writer_wakes [OF _ assms(3), of j] j(1) by (metis rw_pc.simps)
qed

lemma nums_progress:
  assumes "rw_nums l nc ns nw q a b d e rc rt rs ws ow tw" "0 < a \<or> 0 < ns" "0 \<le> b" "0 \<le> rs" "0 \<le> d" "0 \<le> e" "0 \<le> ws"
  shows "0 < nc \<or> 0 < nw \<or> 0 < tw \<or> 0 < b \<or> 0 < d \<or> 0 < e \<or> 0 < a \<and> 0 < rs \<or> 0 < ns \<and> 0 < ws"
  using assms unfolding rw_nums_def by (elim disjE conjE) (auto simp: of_bool_def split: if_splits)

lemma waiters_progress:
  assumes "rw_inv m" "0 < tally is_asleep (rw_pcs m) \<or> 0 < tally is_sleeping (rw_pcs m)"
  shows "\<exists>j m'. rw_step j m m' \<and> rw_pcs m ! j \<noteq> RwIdle"
proof -
  note p = nums_progress [OF inv_nums [OF assms(1)] assms(2) tallies_nonneg(2) of_nat_0_le_iff tallies_nonneg(3,4) of_nat_0_le_iff]
  note go = goes_on [OF assms(1)]
  have places: "0 < is_counting p \<Longrightarrow> p \<notin> {RwIdle, ReaderSleep, LockWait, WriterSleep, RwThrown}"
    "0 < is_writing p \<Longrightarrow> p \<notin> {RwIdle, ReaderSleep, LockWait, WriterSleep, RwThrown}"
    "0 < to_wake p \<Longrightarrow> p \<notin> {RwIdle, ReaderSleep, LockWait, WriterSleep, RwThrown}"
    "0 < is_reading p \<Longrightarrow> p \<notin> {RwIdle, ReaderSleep, LockWait, WriterSleep, RwThrown}"
    "0 < is_departing p \<Longrightarrow> p \<notin> {RwIdle, ReaderSleep, LockWait, WriterSleep, RwThrown}"
    "0 < is_waking p \<Longrightarrow> p \<notin> {RwIdle, ReaderSleep, LockWait, WriterSleep, RwThrown}" for p
    by auto
  show ?thesis
    using p [unfolded of_nat_0_less_iff] go [where f = is_counting, OF _ places(1)] go [where f = is_writing, OF _ places(2)]
      go [where f = to_wake, OF _ places(3)] go [where f = is_reading, OF _ places(4)] go [where f = is_departing, OF _ places(5)]
      go [where f = is_waking, OF _ places(6)] sleeper_wakes [OF assms(1)] writer_wakes_up [OF assms(1)] by blast
qed

text \<open>When \<open>rw.w\<close> is held, somebody holds it: before or after the waiting for readers, or in it.\<close>

lemma nums_owner: "rw_nums True nc ns nw q a b d e rc rt rs ws ow tw \<Longrightarrow> 0 < nc \<or> 0 < nw \<or> 0 < q \<or> 0 < ns"
  by (auto simp: rw_nums_def)

lemma owner_progress:
  assumes "rw_inv m" "0 < tally is_counting (rw_pcs m) \<or> 0 < tally is_writing (rw_pcs m) \<or> 0 < tally is_silent (rw_pcs m)
    \<or> 0 < tally is_sleeping (rw_pcs m)"
  shows "\<exists>j m'. rw_step j m m' \<and> rw_pcs m ! j \<noteq> RwIdle"
proof -
  have places: "0 < is_counting p \<Longrightarrow> p \<notin> {RwIdle, ReaderSleep, LockWait, WriterSleep, RwThrown}"
    "0 < is_writing p \<Longrightarrow> p \<notin> {RwIdle, ReaderSleep, LockWait, WriterSleep, RwThrown}"
    "0 < is_silent p \<Longrightarrow> p \<notin> {RwIdle, ReaderSleep, LockWait, WriterSleep, RwThrown}" for p
    by auto
  note go = goes_on [OF assms(1)]
  show ?thesis
    using assms(2) go [where f = is_counting, OF _ places(1)] go [where f = is_writing, OF _ places(2)]
      go [where f = is_silent, OF _ places(3)] waiters_progress [OF assms(1)] by blast
qed

section \<open>Properties\<close>

text \<open>C6: an \<open>RWMutex\<close> is held by any number of readers or by a single writer, under every interleaving of
  the atomic steps of fewer than \<open>rwmutexMaxReaders\<close> goroutines; the two 32-bit counters do not overflow,
  and no goroutine that unlocks only what it has locked dies of a fatal error.\<close>
theorem rwmutex_exclusion:
  assumes "rw_reachable n m" "n < 2 ^ 30"
  shows "(\<forall>i j. i < length (rw_pcs m) \<longrightarrow> j < length (rw_pcs m) \<longrightarrow> i \<noteq> j \<longrightarrow> rw_pcs m ! i = Writing \<longrightarrow>
      rw_pcs m ! j \<noteq> Reading \<and> rw_pcs m ! j \<noteq> Writing)
    \<and> RwThrown \<notin> set (rw_pcs m)"
proof (intro conjI allI impI)
  have inv: "rw_inv m" using rw_reachable_inv [OF assms] by blast
  then show "RwThrown \<notin> set (rw_pcs m)" by (auto simp: rw_inv_def)
  fix i j assume ij: "i < length (rw_pcs m)" "j < length (rw_pcs m)" "i \<noteq> j" "rw_pcs m ! i = Writing"
  have one: "1 \<le> tally is_writing (rw_pcs m)" using pc_weight(7) [of i m Writing] ij by simp
  have "tally is_reading (rw_pcs m) = 0" "tally is_writing (rw_pcs m) \<le> 1"
    using inv_nums [OF inv] one unfolding rw_nums_def by (elim disjE conjE; simp)+
  then show "rw_pcs m ! j \<noteq> Reading" "rw_pcs m ! j \<noteq> Writing"
    using pc_weight(2) [of j m Reading] tally_ge2 [where f = is_writing, OF weights_nonneg(7) ij(1-3)] ij by auto
qed

text \<open>C15: an \<open>RWMutex\<close> does not deadlock: as long as some goroutine holds the lock, waits for it or is inside
  one of the methods, a step is enabled for a goroutine that does.  So a waiting writer whose last reader
  has left, and readers whose writer has left, have a wake-up on its way; and a writer that waits at
  \<open>rw.w.Lock()\<close> has a writer before it that can go on, waits for readers that can, or can itself take \<open>rw.w\<close>.\<close>
theorem rwmutex_no_deadlock:
  assumes "rw_reachable n m" "n < 2 ^ 30" "i < length (rw_pcs m)" "rw_pcs m ! i \<noteq> RwIdle"
  shows "\<exists>j m'. rw_step j m m' \<and> rw_pcs m ! j \<noteq> RwIdle"
proof -
  have inv: "rw_inv m" using rw_reachable_inv [OF assms(1,2)] by blast
  have at: "at_pc i m (rw_pcs m ! i)" using assms(3) by simp
  consider (asleep) "rw_pcs m ! i = ReaderSleep \<or> rw_pcs m ! i = WriterSleep"
    | (free) "rw_pcs m ! i = LockWait" "\<not> rw_locked m" | (taken) "rw_pcs m ! i = LockWait" "rw_locked m"
    | (free_place) "rw_pcs m ! i \<notin> {RwIdle, ReaderSleep, LockWait, WriterSleep}" using assms(4) by auto
  then show ?thesis
  proof cases
    case asleep
    have "0 < tally is_asleep (rw_pcs m) \<or> 0 < tally is_sleeping (rw_pcs m)" using pc_weight(1,6) [OF at] asleep by auto
    then show ?thesis by (rule waiters_progress [OF inv])
  next
    case free
    then have "at_pc i m LockWait" using assms(3) by simp
    from rw_step.lock_w [OF this free(2)] show ?thesis using assms(4) by blast
  next
    case taken
    then have "rw_nums True (tally is_counting (rw_pcs m)) (tally is_sleeping (rw_pcs m)) (tally is_writing (rw_pcs m))
      (tally is_silent (rw_pcs m)) (tally is_asleep (rw_pcs m)) (tally is_reading (rw_pcs m)) (tally is_departing (rw_pcs m))
      (tally is_waking (rw_pcs m)) (sint (readerCount m)) (sint (readerWait m)) (int (readerSem m)) (int (writerSem m))
      (tally owed (rw_pcs m)) (tally to_wake (rw_pcs m))" using inv_nums [OF inv] by simp
    from nums_owner [OF this] show ?thesis by (rule owner_progress [OF inv])
  next
    case free_place
    moreover have "rw_pcs m ! i \<noteq> RwThrown" using rw_facts(2) [OF inv at] by auto
    ultimately show ?thesis using can_step [OF at] assms(4) by blast
  qed
qed

section \<open>Witnesses\<close>

text \<open>Of two goroutines, the second holds the lock for reading.\<close>

definition rw_demo :: rwmutex where
  "rw_demo = \<lparr>rw_locked = False, writerSem = 0, readerSem = 0, readerCount = 1, readerWait = 0, rw_pcs = [RwIdle, Reading]\<rparr>"

lemma rw_demo_reachable: "rw_reachable 2 rw_demo"
proof -
  have "rw_step 1 (new_rwmutex 2) (goes 1 (if (1 :: u32) <s 0 then ReaderSleep else Reading) ((new_rwmutex 2)\<lparr>readerCount := 1\<rparr>))"
    by (rule rw_step.rlock) (simp_all add: new_rwmutex_def)
  moreover have "goes 1 (if (1 :: u32) <s 0 then ReaderSleep else Reading) ((new_rwmutex 2)\<lparr>readerCount := 1\<rparr>) = rw_demo"
    by (simp add: new_rwmutex_def rw_demo_def sless_view numeral_2_eq_2)
  ultimately show ?thesis using rw_reachable.step [OF rw_reachable.start] by metis
qed

lemma rwmutex_exclusion_witness: "RwThrown \<notin> set (rw_pcs rw_demo) \<and> rw_pcs rw_demo ! 1 = Reading"
  using rwmutex_exclusion [OF rw_demo_reachable] by (simp add: rw_demo_def)

lemma rwmutex_no_deadlock_witness: "\<exists>j m'. rw_step j rw_demo m' \<and> rw_pcs rw_demo ! j \<noteq> RwIdle"
  by (rule rwmutex_no_deadlock [OF rw_demo_reachable, of 1]) (simp_all add: rw_demo_def)

end
