(* ===== verification/SyncOnce.thy ===== *)
theory SyncOnce
  imports SyncCounts
begin

text \<open>
  \<open>sync.Once\<close> (\<open>sync/once.go\<close>): goroutines that call \<open>Do\<close> on one \<open>Once\<close>, as atomic steps.  The mutex \<open>m\<close> is
  the lock that theory \<open>SyncMutex\<close> shows a mutex to be.  \<open>started\<close> and \<open>ended\<close> count the calls of the
  function; it may end by returning or by a panic, and does not itself call \<open>Do\<close> on the same \<open>Once\<close>.
\<close>

text \<open>
  \<open>OLock\<close>: in \<open>doSlow\<close>, before \<open>o.m.Lock()\<close>; \<open>OHold\<close>: before the test of \<open>o.done\<close>; \<open>ORunning\<close>: in \<open>f\<close>;
  \<open>OStore\<close>, \<open>OUnlock\<close>: before the deferred calls; \<open>OReturned\<close>: \<open>Do\<close> has returned (or panicked).
\<close>

datatype once_pc = OIdle | OLock | OHold | ORunning | OStore | OUnlock | OReturned

record once =
  once_done :: u32
  once_locked :: bool
  started :: nat
  ended :: nat
  once_pcs :: "once_pc list"

abbreviation once_at :: "nat \<Rightarrow> once \<Rightarrow> once_pc \<Rightarrow> bool" where
  "once_at i m p \<equiv> i < length (once_pcs m) \<and> once_pcs m ! i = p"

abbreviation once_goes :: "nat \<Rightarrow> once_pc \<Rightarrow> once \<Rightarrow> once" where
  "once_goes i p m \<equiv> m\<lparr>once_pcs := (once_pcs m)[i := p]\<rparr>"

inductive once_step :: "nat \<Rightarrow> once \<Rightarrow> once \<Rightarrow> bool" for i where
  fast: "once_at i m OIdle \<Longrightarrow> once_done m \<noteq> 0 \<Longrightarrow> once_step i m (once_goes i OReturned m)"
| slow: "once_at i m OIdle \<Longrightarrow> once_done m = 0 \<Longrightarrow> once_step i m (once_goes i OLock m)"
| lock: "once_at i m OLock \<Longrightarrow> \<not> once_locked m \<Longrightarrow> once_step i m (once_goes i OHold (m\<lparr>once_locked := True\<rparr>))"
| late: "once_at i m OHold \<Longrightarrow> once_done m \<noteq> 0 \<Longrightarrow> once_step i m (once_goes i OUnlock m)"
| call: "once_at i m OHold \<Longrightarrow> once_done m = 0 \<Longrightarrow>
    once_step i m (once_goes i ORunning (m\<lparr>started := started m + 1\<rparr>))"
| finish: "once_at i m ORunning \<Longrightarrow> once_step i m (once_goes i OStore (m\<lparr>ended := ended m + 1\<rparr>))"
| store: "once_at i m OStore \<Longrightarrow> once_step i m (once_goes i OUnlock (m\<lparr>once_done := 1\<rparr>))"
| unlock: "once_at i m OUnlock \<Longrightarrow> once_step i m (once_goes i OReturned (m\<lparr>once_locked := False\<rparr>))"
| again: "once_at i m OReturned \<Longrightarrow> once_step i m (once_goes i OIdle m)"

definition new_once :: "nat \<Rightarrow> once" where
  "new_once n = \<lparr>once_done = 0, once_locked = False, started = 0, ended = 0, once_pcs = replicate n OIdle\<rparr>"

inductive once_reachable :: "nat \<Rightarrow> once \<Rightarrow> bool" for n where
  start: "once_reachable n (new_once n)"
| step: "once_reachable n m \<Longrightarrow> once_step i m m' \<Longrightarrow> once_reachable n m'"

section \<open>The invariant\<close>

fun o_holds :: "once_pc \<Rightarrow> int" where
  "o_holds OHold = 1" | "o_holds ORunning = 1" | "o_holds OStore = 1" | "o_holds OUnlock = 1" | "o_holds _ = 0"
fun o_runs :: "once_pc \<Rightarrow> int" where "o_runs ORunning = 1" | "o_runs _ = 0"
fun o_stores :: "once_pc \<Rightarrow> int" where "o_stores OStore = 1" | "o_stores _ = 0"
fun o_past :: "once_pc \<Rightarrow> int" where "o_past OReturned = 1" | "o_past OUnlock = 1" | "o_past _ = 0"

definition once_inv :: "once \<Rightarrow> bool" where
  "once_inv m \<longleftrightarrow>
     tally o_holds (once_pcs m) = of_bool (once_locked m) \<and>
     int (started m) = tally o_runs (once_pcs m) + int (ended m) \<and>
     int (ended m) = tally o_stores (once_pcs m) + of_bool (once_done m \<noteq> 0) \<and>
     (once_done m \<noteq> 0 \<longrightarrow> tally o_runs (once_pcs m) = 0 \<and> tally o_stores (once_pcs m) = 0) \<and>
     (once_done m = 0 \<longrightarrow> tally o_past (once_pcs m) = 0)"

lemma o_nonneg: "0 \<le> o_holds p" "0 \<le> o_runs p" "0 \<le> o_stores p" "0 \<le> o_past p" "0 \<le> o_holds p - o_runs p - o_stores p"
  by (cases p; simp)+

lemma o_weights:
  assumes "once_at i m p"
  shows "o_holds p \<le> tally o_holds (once_pcs m)" "o_runs p \<le> tally o_runs (once_pcs m)"
    "o_stores p \<le> tally o_stores (once_pcs m)" "o_past p \<le> tally o_past (once_pcs m)"
    "0 \<le> tally o_runs (once_pcs m)" "0 \<le> tally o_stores (once_pcs m)" "0 \<le> tally o_past (once_pcs m)"
    "o_holds p - o_runs p - o_stores p \<le> tally o_holds (once_pcs m) - tally o_runs (once_pcs m) - tally o_stores (once_pcs m)"
proof -
  have "tally (\<lambda>p. o_holds p - o_runs p - o_stores p) xs = tally o_holds xs - tally o_runs xs - tally o_stores xs" for xs
    by (induction xs) (simp_all add: tally_def)
  moreover have "o_holds p - o_runs p - o_stores p \<le> tally (\<lambda>p. o_holds p - o_runs p - o_stores p) (once_pcs m)"
    using tally_ge [where f = "\<lambda>p. o_holds p - o_runs p - o_stores p", OF o_nonneg(5)] assms by blast
  ultimately show "o_holds p - o_runs p - o_stores p \<le> tally o_holds (once_pcs m) - tally o_runs (once_pcs m) - tally o_stores (once_pcs m)"
    by simp
qed (use assms o_nonneg in \<open>auto intro: tally_ge tally_nonneg\<close>)

lemma once_step_inv: "once_step i m m' \<Longrightarrow> once_inv m \<Longrightarrow> once_inv m'"
proof (induction rule: once_step.induct)
  case (fast m)
  then show ?case using o_weights [OF fast(1)] by (simp add: once_inv_def tally_update)
next
  case (slow m)
  then show ?case using o_weights [OF slow(1)] by (simp add: once_inv_def tally_update)
next
  case (lock m)
  then show ?case using o_weights [OF lock(1)] by (simp add: once_inv_def tally_update)
next
  case (late m)
  then show ?case using o_weights [OF late(1)] by (simp add: once_inv_def tally_update)
next
  case (call m)
  then show ?case using o_weights [OF call(1)] by (simp add: once_inv_def tally_update)
next
  case (finish m)
  then show ?case using o_weights [OF finish(1)] by (auto simp: once_inv_def tally_update)
next
  case (store m)
  then show ?case using o_weights [OF store(1)] by (auto simp: once_inv_def tally_update of_bool_def split: if_splits)
next
  case (unlock m)
  then show ?case using o_weights [OF unlock(1)] by (auto simp: once_inv_def tally_update of_bool_def split: if_splits)
next
  case (again m)
  then show ?case using o_weights [OF again(1)] by (auto simp: once_inv_def tally_update of_bool_def split: if_splits)
qed

lemma once_reachable_inv: "once_reachable n m \<Longrightarrow> once_inv m"
proof (induction rule: once_reachable.induct)
  case start
  then show ?case by (simp add: once_inv_def new_once_def)
qed (use once_step_inv in blast)

section \<open>Properties\<close>

text \<open>C14: \<open>Do\<close> calls its function at most once, whatever the interleaving, and no call of \<open>Do\<close> returns before
  that one call has ended, be it by returning or by a panic.\<close>
theorem once_calls_once:
  assumes "once_reachable n m"
  shows "started m \<le> 1 \<and> (OReturned \<in> set (once_pcs m) \<longrightarrow> ended m = 1 \<and> once_done m \<noteq> 0)"
proof -
  have inv: "once_inv m" by (rule once_reachable_inv [OF assms])
  have "tally o_runs (once_pcs m) + tally o_stores (once_pcs m) \<le> tally o_holds (once_pcs m)"
  proof -
    have "tally (\<lambda>p. o_runs p + o_stores p) (once_pcs m) \<le> tally o_holds (once_pcs m)"
      by (rule tally_le) (use o_nonneg(5) in \<open>simp add: algebra_simps\<close>)
    then show ?thesis by (simp add: tally_add)
  qed
  moreover have "0 \<le> tally o_runs (once_pcs m)" "0 \<le> tally o_stores (once_pcs m)" by (intro tally_nonneg o_nonneg)+
  ultimately have "started m \<le> 1" using inv by (auto simp: once_inv_def of_bool_def split: if_splits)
  moreover have "ended m = 1 \<and> once_done m \<noteq> 0" if r: "OReturned \<in> set (once_pcs m)"
  proof -
    obtain i where "once_at i m OReturned" using r by (metis in_set_conv_nth)
    then have "1 \<le> tally o_past (once_pcs m)" using o_weights(4) by fastforce
    then show ?thesis using inv by (auto simp: once_inv_def)
  qed
  ultimately show ?thesis by blast
qed

text \<open>Both of two goroutines have found the \<open>Once\<close> not done; the first one is in the function.\<close>

lemma once_calls_once_witness:
  "started \<lparr>once_done = 0, once_locked = True, started = 1, ended = 0, once_pcs = [ORunning, OIdle]\<rparr> \<le> 1"
proof -
  have "once_step 0 (new_once 2) \<lparr>once_done = 0, once_locked = False, started = 0, ended = 0, once_pcs = [OLock, OIdle]\<rparr>"
    using once_step.slow [of 0 "new_once 2"] by (simp add: new_once_def numeral_2_eq_2)
  note r1 = once_reachable.step [OF once_reachable.start this]
  have "once_step 0 \<lparr>once_done = 0, once_locked = False, started = 0, ended = 0, once_pcs = [OLock, OIdle]\<rparr>
      \<lparr>once_done = 0, once_locked = True, started = 0, ended = 0, once_pcs = [OHold, OIdle]\<rparr>"
    using once_step.lock [of 0 "\<lparr>once_done = 0, once_locked = False, started = 0, ended = 0, once_pcs = [OLock, OIdle]\<rparr>"] by simp
  note r2 = once_reachable.step [OF r1 this]
  have "once_step 0 \<lparr>once_done = 0, once_locked = True, started = 0, ended = 0, once_pcs = [OHold, OIdle]\<rparr>
      \<lparr>once_done = 0, once_locked = True, started = 1, ended = 0, once_pcs = [ORunning, OIdle]\<rparr>"
    using once_step.call [of 0 "\<lparr>once_done = 0, once_locked = True, started = 0, ended = 0, once_pcs = [OHold, OIdle]\<rparr>"] by simp
  note r3 = once_reachable.step [OF r2 this]
  show ?thesis using once_calls_once [OF r3] by blast
qed

end
