(* ===== verification/SyncWaitGroup.thy ===== *)
theory SyncWaitGroup
  imports SyncCounts
begin

text \<open>
  \<open>sync.WaitGroup\<close> (\<open>sync/waitgroup.go\<close>): workers that call \<open>Add\<close> and \<open>Done\<close> and waiters that call \<open>Wait\<close>
  on one group, as the atomic accesses to the 64-bit word and to the semaphore.
\<close>

section \<open>The word\<close>

text \<open>High half: the counter; low half: the number of waiters.\<close>

definition wg_counter :: "u64 \<Rightarrow> u32" where "wg_counter s = ucast (drop_bit 32 s)"

definition wg_waiters :: "u64 \<Rightarrow> u32" where "wg_waiters s = ucast s"

definition wg_word :: "nat \<Rightarrow> nat \<Rightarrow> u64" where
  "wg_word v w = of_nat (v * 2 ^ 32 + w)"

lemma wg_word_unat: "v < 2 ^ 31 \<Longrightarrow> w < 2 ^ 32 \<Longrightarrow> unat (wg_word v w) = v * 2 ^ 32 + w"
  unfolding wg_word_def by (subst unsigned_of_nat, subst take_bit_nat_eq_self) auto

lemma wg_word_parts:
  assumes "v < 2 ^ 31" "w < 2 ^ 32"
  shows "wg_counter (wg_word v w) = of_nat v" "wg_waiters (wg_word v w) = of_nat w"
    "sint (wg_counter (wg_word v w)) = int v" "unat (wg_waiters (wg_word v w)) = w"
proof -
  have "unat (wg_counter (wg_word v w)) = v"
  proof -
    have "unat (drop_bit 32 (wg_word v w)) = v"
      using assms by (simp only: unsigned_drop_bit_eq wg_word_unat drop_bit_nat_def take_bit_nat_def) simp
    then show ?thesis using assms by (simp only: wg_counter_def unsigned_ucast_eq) (simp add: take_bit_nat_eq_self)
  qed
  then show c: "wg_counter (wg_word v w) = of_nat v" by (metis of_nat_unat ucast_id)
  show w: "unat (wg_waiters (wg_word v w)) = w"
    using assms by (simp add: wg_waiters_def unsigned_ucast_eq wg_word_unat take_bit_eq_mod)
  then show "wg_waiters (wg_word v w) = of_nat w" by (metis of_nat_unat ucast_id)
  show "sint (wg_counter (wg_word v w)) = int v"
    unfolding c using assms by (simp add: signed_of_nat signed_take_bit_int_eq_self)
qed

lemma wg_word_eq:
  "v < 2 ^ 31 \<Longrightarrow> w < 2 ^ 32 \<Longrightarrow> v' < 2 ^ 31 \<Longrightarrow> w' < 2 ^ 32 \<Longrightarrow> wg_word v w = wg_word v' w' \<longleftrightarrow> v = v' \<and> w = w'"
  using wg_word_parts(3,4) by (metis of_nat_eq_iff)

lemma wg_word_zero [simp]: "wg_word 0 0 = 0"
  by (simp add: wg_word_def)

lemma wg_word_waiter: "wg_word v w + 1 = wg_word v (w + 1)"
  by (simp add: wg_word_def)

lemma wg_word_add:
  assumes "- int v \<le> delta"
  shows "wg_word v w + push_bit 32 (word_of_int delta) = wg_word (nat (int v + delta)) w"
proof -
  have "push_bit 32 (word_of_int delta :: u64) = word_of_int (delta * 2 ^ 32)" by (simp add: push_bit_eq_mult)
  moreover have "wg_word v w = word_of_int (int v * 2 ^ 32 + int w)" for v
    by (simp add: wg_word_def)
  ultimately show ?thesis using assms by (simp add: algebra_simps)
qed

section \<open>Goroutines\<close>

text \<open>
  \<open>Worker k\<close> still owes \<open>k\<close> to the counter; \<open>AddCheck s k\<close>: in \<open>Add\<close>, before the comparison of \<open>*statep\<close>
  with \<open>s\<close>; \<open>AddReset w k\<close>: before \<open>*statep = 0\<close>; \<open>Waking w k\<close>: in the loop that wakes the waiters;
  \<open>WaitLoad\<close>: at the top of the loop of \<open>Wait\<close>; \<open>WaitCas s\<close>: before the compare-and-swap; \<open>WaitSleep\<close>: at
  the semaphore; \<open>WaitCheck\<close>: after it; \<open>Waited\<close>: \<open>Wait\<close> has returned; \<open>WgPanic\<close>: has panicked.
\<close>

datatype wg_pc =
    Worker nat | AddCheck u64 nat | AddReset u32 nat | Waking u32 nat
  | WaitLoad | WaitCas u64 | WaitSleep | WaitCheck | Waited
  | WgPanic

record waitgroup =
  wg_state :: u64
  wg_sema :: nat
  wg_pcs :: "wg_pc list"

text \<open>What \<open>Add(delta)\<close> does after its \<open>AddUint64\<close>, which returned \<open>s\<close>.\<close>

definition after_add :: "int \<Rightarrow> u64 \<Rightarrow> nat \<Rightarrow> wg_pc" where
  "after_add delta s k =
     (let v = wg_counter s; w = wg_waiters s in
      if v <s 0 then WgPanic
      else if w \<noteq> 0 \<and> delta > 0 \<and> v = word_of_int delta then WgPanic
      else if 0 <s v \<or> w = 0 then Worker k
      else AddCheck s k)"

definition owing :: "wg_pc list \<Rightarrow> int" where
  "owing pcs = tally (\<lambda>p. case p of Worker k \<Rightarrow> int k | _ \<Rightarrow> 0) pcs"

abbreviation wg_at :: "nat \<Rightarrow> waitgroup \<Rightarrow> wg_pc \<Rightarrow> bool" where
  "wg_at i m p \<equiv> i < length (wg_pcs m) \<and> wg_pcs m ! i = p"

abbreviation wg_goes :: "nat \<Rightarrow> wg_pc \<Rightarrow> waitgroup \<Rightarrow> waitgroup" where
  "wg_goes i p m \<equiv> m\<lparr>wg_pcs := (wg_pcs m)[i := p]\<rparr>"

text \<open>
  Steps.  \<open>Add\<close> is used as documented: a goroutine that the counter counts may take work back or add to
  it, as long as the counter fits its 32 bits; \<open>Done\<close> is \<open>Add(-1)\<close>.
\<close>

inductive wg_step :: "nat \<Rightarrow> waitgroup \<Rightarrow> waitgroup \<Rightarrow> bool" for i where
  add: "wg_at i m (Worker k) \<Longrightarrow> 0 < k \<Longrightarrow> - int k \<le> delta \<Longrightarrow> owing (wg_pcs m) + delta < 2 ^ 31 \<Longrightarrow>
    s = wg_state m + push_bit 32 (word_of_int delta) \<Longrightarrow>
    wg_step i m (wg_goes i (after_add delta s (nat (int k + delta))) (m\<lparr>wg_state := s\<rparr>))"
| add_check: "wg_at i m (AddCheck s k) \<Longrightarrow>
    wg_step i m (wg_goes i (if wg_state m \<noteq> s then WgPanic else AddReset (wg_waiters s) k) m)"
| add_reset: "wg_at i m (AddReset w k) \<Longrightarrow>
    wg_step i m (wg_goes i (Waking w k) (m\<lparr>wg_state := 0\<rparr>))"
| wake: "wg_at i m (Waking w k) \<Longrightarrow> w \<noteq> 0 \<Longrightarrow>
    wg_step i m (wg_goes i (Waking (w - 1) k) (m\<lparr>wg_sema := wg_sema m + 1\<rparr>))"
| woken: "wg_at i m (Waking w k) \<Longrightarrow> w = 0 \<Longrightarrow>
    wg_step i m (wg_goes i (Worker k) m)"
| load: "wg_at i m WaitLoad \<Longrightarrow>
    wg_step i m (wg_goes i (if wg_counter (wg_state m) = 0 then Waited else WaitCas (wg_state m)) m)"
| cas: "wg_at i m (WaitCas s) \<Longrightarrow> wg_state m = s \<Longrightarrow>
    wg_step i m (wg_goes i WaitSleep (m\<lparr>wg_state := s + 1\<rparr>))"
| cas_fails: "wg_at i m (WaitCas s) \<Longrightarrow> wg_state m \<noteq> s \<Longrightarrow>
    wg_step i m (wg_goes i WaitLoad m)"
| acquire: "wg_at i m WaitSleep \<Longrightarrow> 0 < wg_sema m \<Longrightarrow>
    wg_step i m (wg_goes i WaitCheck (m\<lparr>wg_sema := wg_sema m - 1\<rparr>))"
| wait_done: "wg_at i m WaitCheck \<Longrightarrow>
    wg_step i m (wg_goes i (if wg_state m \<noteq> 0 then WgPanic else Waited) m)"

text \<open>A group after the first calls of \<open>Add\<close>: workers that owe \<open>ks\<close>, and \<open>n\<close> waiters.\<close>

definition new_wg :: "nat list \<Rightarrow> nat \<Rightarrow> waitgroup" where
  "new_wg ks n = \<lparr>wg_state = push_bit 32 (of_nat (sum_list ks)), wg_sema = 0,
     wg_pcs = map Worker ks @ replicate n WaitLoad\<rparr>"

inductive wg_reachable :: "nat list \<Rightarrow> nat \<Rightarrow> waitgroup \<Rightarrow> bool" for ks n where
  start: "wg_reachable ks n (new_wg ks n)"
| step: "wg_reachable ks n m \<Longrightarrow> wg_step i m m' \<Longrightarrow> wg_reachable ks n m'"

section \<open>The invariant\<close>

fun w_owes :: "wg_pc \<Rightarrow> int" where "w_owes (Worker k) = int k" | "w_owes _ = 0"
fun w_asleep :: "wg_pc \<Rightarrow> int" where "w_asleep WaitSleep = 1" | "w_asleep _ = 0"
fun w_last :: "wg_pc \<Rightarrow> int" where
  "w_last (AddCheck s k) = 1" | "w_last (AddReset w k) = 1" | "w_last _ = 0"
fun w_waking :: "wg_pc \<Rightarrow> int" where "w_waking (Waking w k) = int (unat w)" | "w_waking _ = 0"
fun w_past :: "wg_pc \<Rightarrow> int" where "w_past (Waking w k) = 1" | "w_past WaitCheck = 1" | "w_past Waited = 1" | "w_past _ = 0"

lemma owing_tally: "owing pcs = tally w_owes pcs"
proof -
  have "(\<lambda>p. case p of Worker k \<Rightarrow> int k | _ \<Rightarrow> 0) = w_owes" by (rule ext) (simp split: wg_pc.split)
  then show ?thesis by (simp add: owing_def)
qed

text \<open>\<open>v\<close> and \<open>w\<close>: the halves of the word.  A goroutine past the update to zero owes nothing itself.\<close>

fun wg_pc_ok :: "nat \<Rightarrow> nat \<Rightarrow> wg_pc \<Rightarrow> bool" where
  "wg_pc_ok v w (AddCheck s k) \<longleftrightarrow> s = wg_word 0 w \<and> k = 0"
| "wg_pc_ok v w (AddReset w' k) \<longleftrightarrow> w' = of_nat w \<and> k = 0"
| "wg_pc_ok v w (Waking w' k) \<longleftrightarrow> k = 0"
| "wg_pc_ok v w (WaitCas s) \<longleftrightarrow> wg_counter s \<noteq> 0"
| "wg_pc_ok v w WaitCheck \<longleftrightarrow> v = 0 \<and> w = 0"
| "wg_pc_ok v w WgPanic \<longleftrightarrow> False"
| "wg_pc_ok v w _ \<longleftrightarrow> True"

text \<open>
  \<open>o\<close> owed, \<open>z\<close> waiters asleep, \<open>l\<close> workers at the last \<open>Done\<close>, \<open>u\<close> still to wake, \<open>p\<close> past the last \<open>Done\<close>.
  The cases: work is outstanding; it is done and the last worker has not reset the word; the word is 0.
\<close>

definition wg_nums :: "nat \<Rightarrow> nat \<Rightarrow> int \<Rightarrow> int \<Rightarrow> int \<Rightarrow> int \<Rightarrow> int \<Rightarrow> int \<Rightarrow> bool" where
  "wg_nums v w ow z l u p sm \<longleftrightarrow>
     0 < v \<and> int v = ow \<and> int w = z \<and> l = 0 \<and> u = 0 \<and> p = 0 \<and> sm = 0
   \<or> v = 0 \<and> 0 < w \<and> ow = 0 \<and> int w = z \<and> l = 1 \<and> u = 0 \<and> sm = 0
   \<or> v = 0 \<and> w = 0 \<and> ow = 0 \<and> z = u + sm \<and> l = 0"

definition wg_inv :: "waitgroup \<Rightarrow> bool" where
  "wg_inv m \<longleftrightarrow> (\<exists>v w. v < 2 ^ 31 \<and> wg_state m = wg_word v w \<and> (\<forall>p\<in>set (wg_pcs m). wg_pc_ok v w p) \<and>
     wg_nums v w (tally w_owes (wg_pcs m)) (tally w_asleep (wg_pcs m)) (tally w_last (wg_pcs m))
       (tally w_waking (wg_pcs m)) (tally w_past (wg_pcs m)) (int (wg_sema m)))"

section \<open>Every step keeps it\<close>

lemma w_nonneg: "0 \<le> w_owes p" "0 \<le> w_asleep p" "0 \<le> w_last p" "0 \<le> w_waking p" "0 \<le> w_past p"
  by (cases p; simp)+

lemma w_tallies: "0 \<le> tally w_owes xs" "0 \<le> tally w_asleep xs" "0 \<le> tally w_last xs" "0 \<le> tally w_waking xs" "0 \<le> tally w_past xs"
  by (intro tally_nonneg w_nonneg)+

lemma w_weight:
  assumes "wg_at i m p"
  shows "w_owes p \<le> tally w_owes (wg_pcs m)" "w_asleep p \<le> tally w_asleep (wg_pcs m)" "w_last p \<le> tally w_last (wg_pcs m)"
    "w_waking p \<le> tally w_waking (wg_pcs m)" "w_past p \<le> tally w_past (wg_pcs m)"
  using assms w_nonneg by (auto intro: tally_ge)

lemma asleep_bound: "tally w_asleep xs \<le> int (length xs)"
proof -
  have "w_asleep p \<le> 1" for p by (cases p) simp_all
  then show ?thesis using tally_le [where f = w_asleep and g = "\<lambda>_. 1" and xs = xs] by (simp add: tally_const)
qed

text \<open>The other goroutines do not mind a change of the counter, nor one of the waiters unless one of them is
  at the last \<open>Done\<close>.\<close>

lemma others_ok:
  assumes "\<forall>q\<in>set xs. wg_pc_ok v w q" "wg_pc_ok v' w' p'" "i < length xs" "w' = w \<or> tally w_last (xs[i := p']) = 0"
    "v = 0 \<Longrightarrow> w = 0 \<Longrightarrow> v' = 0 \<and> w' = 0"
  shows "\<forall>q\<in>set (xs[i := p']). wg_pc_ok v' w' q"
proof
  fix q assume "q \<in> set (xs[i := p'])"
  then obtain j where j: "j < length (xs[i := p'])" "(xs[i := p']) ! j = q" by (metis in_set_conv_nth)
  show "wg_pc_ok v' w' q"
  proof (cases "j = i")
    case True
    then show ?thesis using j assms(2,3) by simp
  next
    case False
    then have "wg_pc_ok v w q" using j assms(1) by auto
    moreover have "w' = w \<or> w_last q = 0"
      using tally_ge [where f = w_last, OF w_nonneg(3) j(1)] j(2) w_nonneg(3) [of q] assms(4) by auto
    ultimately show ?thesis using assms(5) by (cases q) auto
  qed
qed

lemma wg_move:
  assumes "wg_at i m p" "\<forall>q\<in>set (wg_pcs m). wg_pc_ok v w q" "wg_pc_ok v' w' p'" "v' < 2 ^ 31"
    "w' = w \<or> tally w_last (wg_pcs m) - w_last p + w_last p' = 0" "v = 0 \<Longrightarrow> w = 0 \<Longrightarrow> v' = 0 \<and> w' = 0"
    "wg_nums v' w' (tally w_owes (wg_pcs m) - w_owes p + w_owes p') (tally w_asleep (wg_pcs m) - w_asleep p + w_asleep p')
      (tally w_last (wg_pcs m) - w_last p + w_last p') (tally w_waking (wg_pcs m) - w_waking p + w_waking p')
      (tally w_past (wg_pcs m) - w_past p + w_past p') (int sm)"
  shows "wg_inv (wg_goes i p' (m\<lparr>wg_state := wg_word v' w', wg_sema := sm\<rparr>))"
proof -
  have "\<forall>q\<in>set ((wg_pcs m)[i := p']). wg_pc_ok v' w' q"
    by (rule others_ok [OF assms(2,3)]) (use assms(1,5,6) in \<open>simp_all add: tally_update\<close>)
  then show ?thesis unfolding wg_inv_def
    by (intro exI [of _ v'] exI [of _ w']) (use assms(1,4,7) in \<open>simp add: tally_update\<close>)
qed

lemma wg_invE:
  assumes "wg_inv m" "wg_at i m p" "length (wg_pcs m) < 2 ^ 32"
  obtains v w where "v < 2 ^ 31" "w < 2 ^ 32" "wg_state m = wg_word v w" "\<forall>p\<in>set (wg_pcs m). wg_pc_ok v w p" "wg_pc_ok v w p"
    "wg_nums v w (tally w_owes (wg_pcs m)) (tally w_asleep (wg_pcs m)) (tally w_last (wg_pcs m))
       (tally w_waking (wg_pcs m)) (tally w_past (wg_pcs m)) (int (wg_sema m))"
proof -
  obtain v w where vw: "v < 2 ^ 31" "wg_state m = wg_word v w" "\<forall>p\<in>set (wg_pcs m). wg_pc_ok v w p"
    "wg_nums v w (tally w_owes (wg_pcs m)) (tally w_asleep (wg_pcs m)) (tally w_last (wg_pcs m))
       (tally w_waking (wg_pcs m)) (tally w_past (wg_pcs m)) (int (wg_sema m))"
    using assms(1) unfolding wg_inv_def by blast
  have "int w \<le> tally w_asleep (wg_pcs m)" using vw(4) w_tallies [of "wg_pcs m"] unfolding wg_nums_def by (elim disjE conjE) simp_all
  then have "w < 2 ^ 32" using asleep_bound [of "wg_pcs m"] assms(3) by simp
  moreover have "wg_pc_ok v w p" using vw(3) assms(2) by auto
  ultimately show ?thesis using that vw by blast
qed

lemma nums_work:
  assumes "wg_nums v w ow z l u p sm" "0 < ow"
  shows "0 < v" "int v = ow" "int w = z" "l = 0" "u = 0" "p = 0" "sm = 0"
  using assms unfolding wg_nums_def by (elim disjE conjE; simp)+

lemma nums_last:
  assumes "wg_nums v w ow z l u p sm" "1 \<le> l"
  shows "v = 0" "0 < w" "ow = 0" "int w = z" "l = 1" "u = 0" "sm = 0"
  using assms unfolding wg_nums_def by (elim disjE conjE; simp)+

lemma nums_zero:
  assumes "wg_nums v w ow z l u p sm" "1 \<le> u \<or> 1 \<le> sm"
  shows "v = 0" "w = 0" "ow = 0" "z = u + sm" "l = 0"
  using assms unfolding wg_nums_def by (elim disjE conjE; simp)+

lemma nums_past: "wg_nums v w ow z l u p sm \<Longrightarrow> 1 \<le> p \<Longrightarrow> v = 0"
  unfolding wg_nums_def by (elim disjE conjE; simp)

lemma nums_any: "wg_nums 0 w ow z l u p sm \<Longrightarrow> wg_nums 0 w ow z l u p' sm"
  unfolding wg_nums_def by simp

lemma add_inv:
  assumes "wg_inv m" "wg_at i m (Worker k)" "length (wg_pcs m) < 2 ^ 32" "0 < k" "- int k \<le> delta" "owing (wg_pcs m) + delta < 2 ^ 31"
    "s = wg_state m + push_bit 32 (word_of_int delta)"
  shows "wg_inv (wg_goes i (after_add delta s (nat (int k + delta))) (m\<lparr>wg_state := s\<rparr>))"
proof -
  obtain v w where vw: "v < 2 ^ 31" "w < 2 ^ 32" "wg_state m = wg_word v w" "\<forall>p\<in>set (wg_pcs m). wg_pc_ok v w p"
    and n: "wg_nums v w (tally w_owes (wg_pcs m)) (tally w_asleep (wg_pcs m)) (tally w_last (wg_pcs m))
       (tally w_waking (wg_pcs m)) (tally w_past (wg_pcs m)) (int (wg_sema m))"
    using wg_invE [OF assms(1-3)] by metis
  have k: "int k \<le> tally w_owes (wg_pcs m)" using w_weight(1) [OF assms(2)] by simp
  then have A: "0 < v" "int v = tally w_owes (wg_pcs m)" "int w = tally w_asleep (wg_pcs m)" "tally w_last (wg_pcs m) = 0"
    "tally w_waking (wg_pcs m) = 0" "tally w_past (wg_pcs m) = 0" "wg_sema m = 0"
    using nums_work [OF n] assms(4) by simp_all
  define v' where "v' = nat (int v + delta)"
  have v': "int v' = int v + delta" "v' < 2 ^ 31" using k A(2) assms(5,6) by (simp_all add: v'_def owing_tally)
  have s: "s = wg_word v' w" using assms(7) wg_word_add [of v delta w] k A(2) assms(5) by (simp add: vw(3) v'_def)
  note parts = wg_word_parts [OF v'(2) vw(2), folded s]
  have "wg_counter s \<noteq> word_of_int delta" if "delta > 0"
  proof
    assume e: "wg_counter s = word_of_int delta"
    have "sint (word_of_int delta :: u32) = delta"
      using that v' A(1) by (simp add: signed_of_int signed_take_bit_int_eq_self)
    then show False using e parts(3) v'(1) A(1) by simp
  qed
  moreover have "wg_waiters s = 0 \<longleftrightarrow> w = 0" using parts(4) by (metis unat_eq_zero)
  ultimately have p': "after_add delta s (nat (int k + delta)) = (if 0 < v' \<or> w = 0 then Worker (nat (int k + delta)) else AddCheck s (nat (int k + delta)))"
    by (auto simp: after_add_def Let_def sless_view parts(3))
  have z: "v' = 0 \<Longrightarrow> nat (int k + delta) = 0" using k A(2) v'(1) by simp
  have "wg_inv (wg_goes i (after_add delta s (nat (int k + delta))) (m\<lparr>wg_state := wg_word v' w, wg_sema := wg_sema m\<rparr>))"
    unfolding p' by (rule wg_move [OF assms(2) vw(4)]) (use v' A assms(5) z s in \<open>auto simp: wg_nums_def\<close>)
  then show ?thesis by (simp add: s)
qed

lemma add_check_inv:
  assumes "wg_inv m" "wg_at i m (AddCheck s k)" "length (wg_pcs m) < 2 ^ 32"
  shows "wg_inv (wg_goes i (if wg_state m \<noteq> s then WgPanic else AddReset (wg_waiters s) k) m)"
proof -
  obtain v w where vw: "v < 2 ^ 31" "w < 2 ^ 32" "wg_state m = wg_word v w" "\<forall>p\<in>set (wg_pcs m). wg_pc_ok v w p" "wg_pc_ok v w (AddCheck s k)"
    and n: "wg_nums v w (tally w_owes (wg_pcs m)) (tally w_asleep (wg_pcs m)) (tally w_last (wg_pcs m))
       (tally w_waking (wg_pcs m)) (tally w_past (wg_pcs m)) (int (wg_sema m))"
    using wg_invE [OF assms] by metis
  have "v = 0" using nums_last(1) [OF n] w_weight(3) [OF assms(2)] by simp
  then have s: "wg_state m = s" "wg_waiters s = of_nat w" using vw wg_word_parts(2) by simp_all
  have "wg_inv (wg_goes i (AddReset (of_nat w) k) (m\<lparr>wg_state := wg_word v w, wg_sema := wg_sema m\<rparr>))"
    by (rule wg_move [OF assms(2) vw(4)]) (use n vw in simp_all)
  then have "wg_inv (wg_goes i (AddReset (of_nat w) k) m)" unfolding vw(3) [symmetric] by simp
  then show ?thesis by (simp add: s)
qed

lemma add_reset_inv:
  assumes "wg_inv m" "wg_at i m (AddReset w' k)" "length (wg_pcs m) < 2 ^ 32"
  shows "wg_inv (wg_goes i (Waking w' k) (m\<lparr>wg_state := 0\<rparr>))"
proof -
  obtain v w where vw: "v < 2 ^ 31" "w < 2 ^ 32" "wg_state m = wg_word v w" "\<forall>p\<in>set (wg_pcs m). wg_pc_ok v w p" "wg_pc_ok v w (AddReset w' k)"
    and n: "wg_nums v w (tally w_owes (wg_pcs m)) (tally w_asleep (wg_pcs m)) (tally w_last (wg_pcs m))
       (tally w_waking (wg_pcs m)) (tally w_past (wg_pcs m)) (int (wg_sema m))"
    using wg_invE [OF assms] by metis
  have u: "unat w' = w" using vw(2,5) by (simp add: unsigned_of_nat take_bit_nat_eq_self)
  have "wg_inv (wg_goes i (Waking w' k) (m\<lparr>wg_state := wg_word 0 0, wg_sema := wg_sema m\<rparr>))"
    by (rule wg_move [OF assms(2) vw(4)])
      (use nums_last [OF n] vw(5) u w_weight(3) [OF assms(2)] in \<open>simp_all add: wg_nums_def\<close>)
  then show ?thesis by simp
qed

lemma wake_inv:
  assumes "wg_inv m" "wg_at i m (Waking w' k)" "length (wg_pcs m) < 2 ^ 32" "w' \<noteq> 0"
  shows "wg_inv (wg_goes i (Waking (w' - 1) k) (m\<lparr>wg_sema := wg_sema m + 1\<rparr>))"
proof -
  obtain v w where vw: "v < 2 ^ 31" "w < 2 ^ 32" "wg_state m = wg_word v w" "\<forall>p\<in>set (wg_pcs m). wg_pc_ok v w p" "wg_pc_ok v w (Waking w' k)"
    and n: "wg_nums v w (tally w_owes (wg_pcs m)) (tally w_asleep (wg_pcs m)) (tally w_last (wg_pcs m))
       (tally w_waking (wg_pcs m)) (tally w_past (wg_pcs m)) (int (wg_sema m))"
    using wg_invE [OF assms(1-3)] by metis
  have u: "int (unat (w' - 1)) = int (unat w') - 1" "0 < unat w'"
    using assms(4) by (simp_all add: unat_minus_one unat_gt_0 of_nat_diff Suc_le_eq del: of_nat_unat)
  have "wg_inv (wg_goes i (Waking (w' - 1) k) (m\<lparr>wg_state := wg_word v w, wg_sema := wg_sema m + 1\<rparr>))"
    by (rule wg_move [OF assms(2) vw(4)])
      (use nums_zero [OF n] vw(1,5) u w_weight(4) [OF assms(2)] in \<open>simp_all add: wg_nums_def del: of_nat_unat\<close>)
  then show ?thesis unfolding vw(3) [symmetric] by simp
qed

lemma woken_inv:
  assumes "wg_inv m" "wg_at i m (Waking 0 k)" "length (wg_pcs m) < 2 ^ 32"
  shows "wg_inv (wg_goes i (Worker k) m)"
proof -
  obtain v w where vw: "v < 2 ^ 31" "w < 2 ^ 32" "wg_state m = wg_word v w" "\<forall>p\<in>set (wg_pcs m). wg_pc_ok v w p" "wg_pc_ok v w (Waking 0 k)"
    and n: "wg_nums v w (tally w_owes (wg_pcs m)) (tally w_asleep (wg_pcs m)) (tally w_last (wg_pcs m))
       (tally w_waking (wg_pcs m)) (tally w_past (wg_pcs m)) (int (wg_sema m))"
    using wg_invE [OF assms] by metis
  have v: "v = 0" using nums_past [OF n] w_weight(5) [OF assms(2)] by simp
  have "wg_inv (wg_goes i (Worker k) (m\<lparr>wg_state := wg_word v w, wg_sema := wg_sema m\<rparr>))"
    by (rule wg_move [OF assms(2) vw(4)])
      (use nums_any [OF n [unfolded v]] vw(1,5) in \<open>simp_all add: v\<close>)
  then show ?thesis unfolding vw(3) [symmetric] by simp
qed

lemma load_inv:
  assumes "wg_inv m" "wg_at i m WaitLoad" "length (wg_pcs m) < 2 ^ 32"
  shows "wg_inv (wg_goes i (if wg_counter (wg_state m) = 0 then Waited else WaitCas (wg_state m)) m)"
proof -
  obtain v w where vw: "v < 2 ^ 31" "w < 2 ^ 32" "wg_state m = wg_word v w" "\<forall>p\<in>set (wg_pcs m). wg_pc_ok v w p"
    and n: "wg_nums v w (tally w_owes (wg_pcs m)) (tally w_asleep (wg_pcs m)) (tally w_last (wg_pcs m))
       (tally w_waking (wg_pcs m)) (tally w_past (wg_pcs m)) (int (wg_sema m))"
    using wg_invE [OF assms] by metis
  have c: "wg_counter (wg_state m) = 0 \<longleftrightarrow> v = 0"
    using wg_word_parts(3) [OF vw(1,2)] by (metis vw(3) of_nat_eq_0_iff signed_0 signed_word_eqI)
  have "wg_inv (wg_goes i (if wg_counter (wg_state m) = 0 then Waited else WaitCas (wg_state m)) (m\<lparr>wg_state := wg_word v w, wg_sema := wg_sema m\<rparr>))"
    unfolding c by (rule wg_move [OF assms(2) vw(4)])
      (use n nums_any [of w] vw(1) c in \<open>auto simp: vw(3)\<close>)
  then show ?thesis unfolding vw(3) [symmetric] by simp
qed

lemma cas_inv:
  assumes "wg_inv m" "wg_at i m (WaitCas s)" "length (wg_pcs m) < 2 ^ 32" "wg_state m = s"
  shows "wg_inv (wg_goes i WaitSleep (m\<lparr>wg_state := s + 1\<rparr>))"
proof -
  obtain v w where vw: "v < 2 ^ 31" "w < 2 ^ 32" "wg_state m = wg_word v w" "\<forall>p\<in>set (wg_pcs m). wg_pc_ok v w p" "wg_pc_ok v w (WaitCas s)"
    and n: "wg_nums v w (tally w_owes (wg_pcs m)) (tally w_asleep (wg_pcs m)) (tally w_last (wg_pcs m))
       (tally w_waking (wg_pcs m)) (tally w_past (wg_pcs m)) (int (wg_sema m))"
    using wg_invE [OF assms(1-3)] by metis
  have "0 < v" using vw(5) wg_word_parts(1) [OF vw(1,2)] assms(4) vw(3) by (cases v) auto
  then have A: "int v = tally w_owes (wg_pcs m)" "int w = tally w_asleep (wg_pcs m)" "tally w_last (wg_pcs m) = 0"
    "tally w_waking (wg_pcs m) = 0" "tally w_past (wg_pcs m) = 0" "wg_sema m = 0"
    using n unfolding wg_nums_def by (elim disjE conjE; simp)+
  have "wg_inv (wg_goes i WaitSleep (m\<lparr>wg_state := wg_word v (w + 1), wg_sema := wg_sema m\<rparr>))"
    by (rule wg_move [OF assms(2) vw(4)]) (use A vw(1) \<open>0 < v\<close> in \<open>simp_all add: wg_nums_def\<close>)
  moreover have "wg_word v (w + 1) = s + 1" using wg_word_waiter [of v w] assms(4) vw(3) by simp
  ultimately show ?thesis by simp
qed

lemma cas_fails_inv:
  assumes "wg_inv m" "wg_at i m (WaitCas s)" "length (wg_pcs m) < 2 ^ 32"
  shows "wg_inv (wg_goes i WaitLoad m)"
proof -
  obtain v w where vw: "v < 2 ^ 31" "w < 2 ^ 32" "wg_state m = wg_word v w" "\<forall>p\<in>set (wg_pcs m). wg_pc_ok v w p"
    and n: "wg_nums v w (tally w_owes (wg_pcs m)) (tally w_asleep (wg_pcs m)) (tally w_last (wg_pcs m))
       (tally w_waking (wg_pcs m)) (tally w_past (wg_pcs m)) (int (wg_sema m))"
    using wg_invE [OF assms] by metis
  have "wg_inv (wg_goes i WaitLoad (m\<lparr>wg_state := wg_word v w, wg_sema := wg_sema m\<rparr>))"
    by (rule wg_move [OF assms(2) vw(4)]) (use n vw(1) in simp_all)
  then show ?thesis unfolding vw(3) [symmetric] by simp
qed

lemma acquire_inv:
  assumes "wg_inv m" "wg_at i m WaitSleep" "length (wg_pcs m) < 2 ^ 32" "0 < wg_sema m"
  shows "wg_inv (wg_goes i WaitCheck (m\<lparr>wg_sema := wg_sema m - 1\<rparr>))"
proof -
  obtain v w where vw: "v < 2 ^ 31" "w < 2 ^ 32" "wg_state m = wg_word v w" "\<forall>p\<in>set (wg_pcs m). wg_pc_ok v w p"
    and n: "wg_nums v w (tally w_owes (wg_pcs m)) (tally w_asleep (wg_pcs m)) (tally w_last (wg_pcs m))
       (tally w_waking (wg_pcs m)) (tally w_past (wg_pcs m)) (int (wg_sema m))"
    using wg_invE [OF assms(1-3)] by metis
  have "wg_inv (wg_goes i WaitCheck (m\<lparr>wg_state := wg_word v w, wg_sema := wg_sema m - 1\<rparr>))"
    by (rule wg_move [OF assms(2) vw(4)])
      (use nums_zero [OF n] vw(1) assms(4) in \<open>simp_all add: wg_nums_def of_nat_diff\<close>)
  then show ?thesis unfolding vw(3) [symmetric] by simp
qed

lemma wait_done_inv:
  assumes "wg_inv m" "wg_at i m WaitCheck" "length (wg_pcs m) < 2 ^ 32"
  shows "wg_inv (wg_goes i (if wg_state m \<noteq> 0 then WgPanic else Waited) m)"
proof -
  obtain v w where vw: "v < 2 ^ 31" "w < 2 ^ 32" "wg_state m = wg_word v w" "\<forall>p\<in>set (wg_pcs m). wg_pc_ok v w p" "wg_pc_ok v w WaitCheck"
    and n: "wg_nums v w (tally w_owes (wg_pcs m)) (tally w_asleep (wg_pcs m)) (tally w_last (wg_pcs m))
       (tally w_waking (wg_pcs m)) (tally w_past (wg_pcs m)) (int (wg_sema m))"
    using wg_invE [OF assms] by metis
  have "wg_inv (wg_goes i Waited (m\<lparr>wg_state := wg_word v w, wg_sema := wg_sema m\<rparr>))"
    by (rule wg_move [OF assms(2) vw(4)]) (use n vw in simp_all)
  then have "wg_inv (wg_goes i Waited m)" unfolding vw(3) [symmetric] by simp
  moreover have "wg_state m = 0" using vw(3,5) by simp
  ultimately show ?thesis by simp
qed

section \<open>Reachable states\<close>

lemma wg_step_inv: "wg_step i m m' \<Longrightarrow> wg_inv m \<Longrightarrow> length (wg_pcs m) < 2 ^ 32 \<Longrightarrow> wg_inv m'"
  by (erule wg_step.cases)
    (auto simp only: intro!: add_inv add_check_inv add_reset_inv wake_inv woken_inv load_inv cas_inv cas_fails_inv acquire_inv wait_done_inv)

lemma wg_step_length: "wg_step i m m' \<Longrightarrow> length (wg_pcs m') = length (wg_pcs m)"
  by (induction rule: wg_step.induct) simp_all

lemma new_wg_inv:
  assumes "sum_list ks < 2 ^ 31"
  shows "wg_inv (new_wg ks n)"
proof -
  have owes: "tally w_owes (map Worker ks) = int (sum_list ks)" by (induction ks) (simp_all add: tally_def)
  have zero: "tally f (map Worker ks) = 0" if "\<And>k. f (Worker k) = 0" for f
    by (induction ks) (simp_all add: tally_def that)
  have app: "tally f (xs @ ys) = tally f xs + tally f ys" for f :: "wg_pc \<Rightarrow> int" and xs ys by (simp add: tally_def)
  have "push_bit 32 (of_nat (sum_list ks)) = wg_word (sum_list ks) 0"
    by (simp add: wg_word_def push_bit_eq_mult)
  moreover have "wg_nums (sum_list ks) 0 (tally w_owes (wg_pcs (new_wg ks n))) (tally w_asleep (wg_pcs (new_wg ks n)))
      (tally w_last (wg_pcs (new_wg ks n))) (tally w_waking (wg_pcs (new_wg ks n))) (tally w_past (wg_pcs (new_wg ks n))) 0"
    by (simp add: new_wg_def app owes zero wg_nums_def neq0_conv [symmetric] del: sum_list_eq_0_iff neq0_conv)
  ultimately show ?thesis unfolding wg_inv_def
    by (intro exI [of _ "sum_list ks"] exI [of _ 0]) (use assms in \<open>auto simp: new_wg_def\<close>)
qed

lemma wg_reachable_inv:
  assumes "wg_reachable ks n m" "sum_list ks < 2 ^ 31" "length ks + n < 2 ^ 32"
  shows "wg_inv m \<and> length (wg_pcs m) = length ks + n"
  using assms
proof (induction rule: wg_reachable.induct)
  case start
  then show ?case using new_wg_inv by (simp add: new_wg_def)
next
  case (step m i m')
  then have "wg_inv m'" using wg_step_inv by auto
  then show ?case using step wg_step_length by auto
qed

text \<open>Places at which a goroutine can always go on.\<close>

lemma wg_can_step:
  assumes "wg_at j m p" "p \<notin> {Worker 0, WaitSleep, Waited, WgPanic}" "owing (wg_pcs m) < 2 ^ 31"
  shows "\<exists>m'. wg_step j m m'"
proof (cases p)
  case (Worker k)
  then have "wg_at j m (Worker k)" "0 < k" using assms(1,2) by auto
  from wg_step.add [OF this, of "-1"] show ?thesis using assms(3) \<open>0 < k\<close> by auto
next
  case (AddCheck s k)
  then have "wg_at j m (AddCheck s k)" using assms(1) by simp
  from wg_step.add_check [OF this] show ?thesis by blast
next
  case (AddReset w k)
  then have "wg_at j m (AddReset w k)" using assms(1) by simp
  from wg_step.add_reset [OF this] show ?thesis by blast
next
  case (Waking w k)
  then have "wg_at j m (Waking w k)" using assms(1) by simp
  from wg_step.wake [OF this] wg_step.woken [OF this] show ?thesis by blast
next
  case WaitLoad
  then have "wg_at j m WaitLoad" using assms(1) by simp
  from wg_step.load [OF this] show ?thesis by blast
next
  case (WaitCas s)
  then have "wg_at j m (WaitCas s)" using assms(1) by simp
  from wg_step.cas [OF this] wg_step.cas_fails [OF this] show ?thesis by blast
next
  case WaitCheck
  then have "wg_at j m WaitCheck" using assms(1) by simp
  from wg_step.wait_done [OF this] show ?thesis by blast
qed (use assms(2) in simp_all)

lemma wg_goes_on:
  assumes "0 < tally f (wg_pcs m)" "\<And>p. 0 < f p \<Longrightarrow> p \<notin> {Worker 0, WaitSleep, Waited, WgPanic}" "owing (wg_pcs m) < 2 ^ 31"
  shows "\<exists>j m'. wg_step j m m' \<and> wg_pcs m ! j \<notin> {Worker 0, Waited}"
proof -
  obtain j where j: "j < length (wg_pcs m)" "0 < f (wg_pcs m ! j)" using tally_pos [OF assms(1)] by blast
  then have "wg_pcs m ! j \<notin> {Worker 0, WaitSleep, Waited, WgPanic}" using assms(2) by blast
  then show ?thesis using wg_can_step [of j m "wg_pcs m ! j"] j(1) assms(3) by blast
qed

section \<open>Properties\<close>

text \<open>C13: \<open>Wait\<close> returns only when every \<open>Add\<close> has been matched by a \<open>Done\<close>, and no call panics, for any
  interleaving of workers that owe \<open>ks\<close>, add to what they owe and take it back, and waiters, as long as
  the counter fits its 32 bits.\<close>
theorem waitgroup_waits:
  assumes "wg_reachable ks n m" "sum_list ks < 2 ^ 31" "length ks + n < 2 ^ 32"
  shows "WgPanic \<notin> set (wg_pcs m) \<and> (Waited \<in> set (wg_pcs m) \<longrightarrow> owing (wg_pcs m) = 0)"
proof (intro conjI impI)
  obtain v w where vw: "\<forall>p\<in>set (wg_pcs m). wg_pc_ok v w p"
    and n: "wg_nums v w (tally w_owes (wg_pcs m)) (tally w_asleep (wg_pcs m)) (tally w_last (wg_pcs m))
       (tally w_waking (wg_pcs m)) (tally w_past (wg_pcs m)) (int (wg_sema m))"
    using wg_reachable_inv [OF assms] unfolding wg_inv_def by blast
  then show "WgPanic \<notin> set (wg_pcs m)" by auto
  assume "Waited \<in> set (wg_pcs m)"
  then obtain i where "wg_at i m Waited" by (metis in_set_conv_nth)
  then have "1 \<le> tally w_past (wg_pcs m)" using w_weight(5) by fastforce
  then have "v = 0" by (rule nums_past [OF n])
  then show "owing (wg_pcs m) = 0" using n by (auto simp: wg_nums_def owing_tally)
qed

text \<open>C16: no waiter is forgotten: until every worker has paid what it owes and every waiter has returned, a
  step of one of them is enabled.\<close>
theorem waitgroup_no_lost_wakeup:
  assumes "wg_reachable ks n m" "sum_list ks < 2 ^ 31" "length ks + n < 2 ^ 32"
    "i < length (wg_pcs m)" "wg_pcs m ! i \<noteq> Worker 0" "wg_pcs m ! i \<noteq> Waited"
  shows "\<exists>j m'. wg_step j m m' \<and> wg_pcs m ! j \<notin> {Worker 0, Waited}"
proof -
  obtain v w where vw: "v < 2 ^ 31" "\<forall>p\<in>set (wg_pcs m). wg_pc_ok v w p"
    and n: "wg_nums v w (tally w_owes (wg_pcs m)) (tally w_asleep (wg_pcs m)) (tally w_last (wg_pcs m))
       (tally w_waking (wg_pcs m)) (tally w_past (wg_pcs m)) (int (wg_sema m))"
    using wg_reachable_inv [OF assms(1-3)] unfolding wg_inv_def by blast
  have "int v = owing (wg_pcs m)" using n unfolding wg_nums_def owing_tally by auto
  then have small: "owing (wg_pcs m) < 2 ^ 31" using vw(1) by simp
  have at: "wg_at i m (wg_pcs m ! i)" using assms(4) by simp
  show ?thesis
  proof (cases "wg_pcs m ! i = WaitSleep")
    case True
    then have "1 \<le> tally w_asleep (wg_pcs m)" using w_weight(2) [OF at] by simp
    then consider "0 < tally w_owes (wg_pcs m)" | "0 < tally w_last (wg_pcs m)" | "0 < tally w_waking (wg_pcs m)" | "0 < wg_sema m"
      using n unfolding wg_nums_def by fastforce
    then show ?thesis
    proof cases
      case 1
      then show ?thesis by (rule wg_goes_on) (use small in auto)
    next
      case 2
      then show ?thesis by (rule wg_goes_on) (use small in auto)
    next
      case 3
      then show ?thesis by (rule wg_goes_on) (use small in auto)
    next
      case 4
      then show ?thesis using wg_step.acquire [of i m] True at by fastforce
    qed
  next
    case False
    have "wg_pcs m ! i \<noteq> WgPanic" using vw(2) assms(4) by (metis nth_mem wg_pc_ok.simps(6))
    then show ?thesis using wg_can_step [OF at _ small] False assms(5,6) by blast
  qed
qed

section \<open>Witnesses\<close>

text \<open>One worker that owes 1 and one waiter, which has seen the counter.\<close>

definition wg_demo :: waitgroup where
  "wg_demo = \<lparr>wg_state = push_bit 32 1, wg_sema = 0, wg_pcs = [Worker 1, WaitCas (push_bit 32 1)]\<rparr>"

lemma wg_demo_reachable: "wg_reachable [1] 1 wg_demo"
proof -
  have "wg_at 1 (new_wg [1] 1) WaitLoad" by (simp add: new_wg_def)
  from wg_step.load [OF this] have "wg_step 1 (new_wg [1] 1) wg_demo"
    by (simp add: new_wg_def wg_demo_def wg_counter_def)
  then show ?thesis by (rule wg_reachable.step [OF wg_reachable.start])
qed

lemma waitgroup_waits_witness: "WgPanic \<notin> set (wg_pcs wg_demo)"
  using waitgroup_waits [OF wg_demo_reachable] by simp

lemma waitgroup_no_lost_wakeup_witness: "\<exists>j m'. wg_step j wg_demo m' \<and> wg_pcs wg_demo ! j \<notin> {Worker 0, Waited}"
  by (rule waitgroup_no_lost_wakeup [OF wg_demo_reachable, of 1]) (simp_all add: wg_demo_def)

end
