(* ===== verification/Utf8Segs.thy ===== *)
theory Utf8Segs
  imports Utf8Seq
begin

text \<open>
  How a byte string is cut into runes: the pieces that \<open>DecodeRune\<close> consumes one after the other, the
  positions at which they start (what a \<open>range\<close> loop visits), and the same pieces read from the end
  with \<open>DecodeLastRune\<close>.
\<close>

function segs :: "bytes \<Rightarrow> (rune \<times> bytes) list" where
  "segs p = (if p = [] then []
     else (fst (DecodeRune p), take (snd (DecodeRune p)) p) # segs (drop (snd (DecodeRune p)) p))"
  by pat_completeness auto
termination
proof (relation "measure length", goal_cases)
  case (2 p)
  then show ?case using DecodeRune_size [of p] by simp
qed simp

declare segs.simps [simp del]

lemma segs_Nil [simp]: "segs [] = []"
  by (simp add: segs.simps)

lemma segs_induct [case_names Nil cut]:
  assumes "P []" and "\<And>p. p \<noteq> [] \<Longrightarrow> P (drop (snd (DecodeRune p)) p) \<Longrightarrow> P p"
  shows "P p"
proof (induction p rule: length_induct)
  case (1 p)
  then show ?case using assms DecodeRune_size [of p] by (cases "p = []") auto
qed

lemma concat_segs [simp]: "concat (map snd (segs p)) = p"
  by (induction p rule: segs_induct) (simp_all add: segs.simps)

lemma runes_of_segs: "runes_of p = map fst (segs p)"
  by (induction p rule: segs_induct) (simp_all add: segs.simps runes_of.simps)

lemma segs_Nil_iff [simp]: "segs p = [] \<longleftrightarrow> p = []"
  by (simp add: segs.simps)

text \<open>Where the pieces start.\<close>

fun starts :: "nat \<Rightarrow> (rune \<times> bytes) list \<Rightarrow> (nat \<times> rune) list" where
  "starts k [] = []"
| "starts k ((r, b) # xs) = (k, r) # starts (k + length b) xs"

lemma starts_append: "starts k (xs @ ys) = starts k xs @ starts (k + length (concat (map snd xs))) ys"
  by (induction xs arbitrary: k) (auto simp: ac_simps)

lemma starts_shift: "starts (k + d) xs = map (\<lambda>(i, r). (i + d, r)) (starts k xs)"
proof (induction xs arbitrary: k)
  case (Cons x xs)
  have "starts (k + length (snd x) + d) xs = map (\<lambda>(i, r). (i + d, r)) (starts (k + length (snd x)) xs)"
    by (rule Cons.IH)
  then show ?case by (cases x) (simp add: ac_simps)
qed simp

lemma range_string_starts: "range_string s k = starts k (segs (drop k s))"
proof (induction k rule: scan_induct [of s])
  case (1 k)
  then show ?case by (subst range_string.simps) simp
next
  case (2 k)
  let ?n = "snd (DecodeRune (drop k s))"
  have len: "length (take ?n (drop k s)) = ?n" using DecodeRune_size(2) [of "drop k s"] 2(1) by simp
  have right: "starts k (segs (drop k s)) = (k, fst (DecodeRune (drop k s))) # range_string s (k + ?n)"
    using 2 len by (subst segs.simps) (simp add: add.commute)
  show ?case
  proof (cases "s ! k < RuneSelf")
    case True
    have "DecodeRune (drop k s) = (ucast (s ! k), 1)"
      using True 2(1) DecodeRune_ascii [of "drop k s"] lead_info_ascii [OF True] by simp
    then show ?thesis using right True 2(1) by (subst range_string.simps) simp
  next
    case False
    then show ?thesis using right 2(1) decoderune_eq [OF 2(1) False] by (subst range_string.simps) simp
  qed
qed

section \<open>Cutting is local\<close>

text \<open>Bytes that start a rune do not change what precedes them.\<close>

lemma DecodeRune_before_start:
  assumes "p \<noteq> []" and "\<not> (\<exists>v n. ValidRune v \<and> length p < n \<and> n \<le> length (p @ q) \<and> take n (p @ q) = rune_bytes v)"
  shows "DecodeRune (p @ q) = DecodeRune p"
proof -
  have ne: "p @ q \<noteq> []" using assms(1) by simp
  obtain r n where d: "DecodeRune (p @ q) = (r, n)" by (cases "DecodeRune (p @ q)")
  from ne d show ?thesis
  proof (cases rule: decode_cases)
    case rune
    then have n: "n \<le> length p" using assms(2) by (metis not_le)
    then have "take n p = rune_bytes r" using rune(3) by simp
    then have "p = rune_bytes r @ drop n p" by (metis append_take_drop_id)
    then have "DecodeRune p = (r, length (rune_bytes r))" using decode_rune_bytes [OF rune(1)] by metis
    then show ?thesis using d rune(4) by simp
  next
    case error
    obtain v k where e: "DecodeRune p = (v, k)" by (cases "DecodeRune p")
    from assms(1) e show ?thesis
    proof (cases rule: decode_cases)
      case error': error
      then show ?thesis using d e error by simp
    next
      case rune
      then have "p = rune_bytes v @ drop k p" by (metis append_take_drop_id)
      then have "DecodeRune (p @ q) = (v, length (rune_bytes v))"
        using decode_rune_bytes [OF rune(1)] by (metis append_assoc)
      then show ?thesis using e rune(4) by simp
    qed
  qed
qed

lemma segs_append:
  assumes "\<And>i. i < length p \<Longrightarrow> \<not> (\<exists>v n. ValidRune v \<and> length p - i < n \<and> n \<le> length (drop i p @ q)
      \<and> take n (drop i p @ q) = rune_bytes v)"
  shows "segs (p @ q) = segs p @ segs q"
  using assms
proof (induction p rule: segs_induct)
  case (cut p)
  let ?n = "snd (DecodeRune p)"
  have d: "DecodeRune (p @ q) = DecodeRune p"
    using cut.prems [of 0] cut.hyps by (intro DecodeRune_before_start) auto
  have n: "1 \<le> ?n" "?n \<le> length p" using DecodeRune_size cut.hyps by blast+
  have "segs (drop ?n p @ q) = segs (drop ?n p) @ segs q"
  proof (rule cut.IH)
    fix i assume "i < length (drop ?n p)"
    then show "\<not> (\<exists>v n. ValidRune v \<and> length (drop ?n p) - i < n \<and> n \<le> length (drop i (drop ?n p) @ q)
        \<and> take n (drop i (drop ?n p) @ q) = rune_bytes v)"
      using cut.prems [of "i + ?n"] by (simp add: add.commute)
  qed
  then show ?case using cut.hyps n by (subst (1 2) segs.simps) (simp add: d)
qed simp

lemma segs_before_start:
  assumes "q = [] \<or> RuneStart (hd q)"
  shows "segs (p @ q) = segs p @ segs q"
proof (rule segs_append)
  fix i assume i: "i < length p"
  show "\<not> (\<exists>v n. ValidRune v \<and> length p - i < n \<and> n \<le> length (drop i p @ q) \<and> take n (drop i p @ q) = rune_bytes v)"
  proof
    assume "\<exists>v n. ValidRune v \<and> length p - i < n \<and> n \<le> length (drop i p @ q) \<and> take n (drop i p @ q) = rune_bytes v"
    then obtain v n where v: "ValidRune v" "length p - i < n" "n \<le> length (drop i p @ q)"
      "take n (drop i p @ q) = rune_bytes v" by blast
    then have "q \<noteq> []" by auto
    then obtain b t where q: "q = b # t" by (cases q) auto
    obtain a p' where p: "drop i p = a # p'" using i by (cases "drop i p") auto
    have "length p - i = length (a # p')" using p by (metis length_drop)
    then obtain k where k: "n = Suc (Suc (length p' + k))"
      using v(2) by (auto simp: less_iff_Suc_add)
    have "b \<in> set (tl (rune_bytes v))"
      unfolding v(4) [symmetric] q p k by simp
    then show False using rune_bytes_shape(2) [OF v(1)] assms q by auto
  qed
qed

lemma segs_rune_bytes: "ValidRune r \<Longrightarrow> segs (rune_bytes r @ q) = (r, rune_bytes r) # segs q"
  by (subst segs.simps) (simp add: decode_rune_bytes)

section \<open>Reading from the end\<close>

lemma segs_last:
  assumes "s \<noteq> []" and "DecodeLastRune s = (r, n)"
  shows "1 \<le> n \<and> n \<le> length s \<and> segs s = segs (take (length s - n) s) @ [(r, drop (length s - n) s)]"
proof (cases "(r, n) = (RuneError, 1)")
  case False
  then obtain q where v: "ValidRune r" "n = length (rune_bytes r)" "s = q @ rune_bytes r"
    using DecodeLastRune_sound [OF assms] by blast
  have "segs (q @ rune_bytes r) = segs q @ segs (rune_bytes r @ [])"
    using segs_before_start [of "rune_bytes r" q] rune_bytes_shape(1) [OF v(1)] by simp
  then show ?thesis using v segs_rune_bytes [OF v(1), of "[]"] length_rune_bytes_le(2) [of r] by simp
next
  case True
  obtain q b where s: "s = q @ [b]" using assms(1) by (cases s rule: rev_cases) auto
  have no: "\<not> (\<exists>v q. ValidRune v \<and> s = q @ rune_bytes v)"
  proof
    assume "\<exists>v q. ValidRune v \<and> s = q @ rune_bytes v"
    then obtain v q where v: "ValidRune v" "s = q @ rune_bytes v" by blast
    then have "v = RuneError" "length (rune_bytes v) = 1"
      using DecodeLastRune_complete [OF v(1), of q] assms(2) True by (metis prod.inject)+
    then show False using length_RuneError_bytes by simp
  qed
  have "segs (q @ [b]) = segs q @ segs [b]"
  proof (rule segs_append)
    fix i assume i: "i < length q"
    show "\<not> (\<exists>v n. ValidRune v \<and> length q - i < n \<and> n \<le> length (drop i q @ [b]) \<and> take n (drop i q @ [b]) = rune_bytes v)"
    proof
      assume "\<exists>v n. ValidRune v \<and> length q - i < n \<and> n \<le> length (drop i q @ [b]) \<and> take n (drop i q @ [b]) = rune_bytes v"
      then obtain v where v: "ValidRune v" "drop i q @ [b] = rune_bytes v" by auto
      have "s = take i q @ rune_bytes v" unfolding s v(2) [symmetric] by simp
      then show False using no v(1) by blast
    qed
  qed
  moreover have "segs [b] = [(RuneError, [b])]"
  proof -
    obtain v k where d: "DecodeRune [b] = (v, k)" by (cases "DecodeRune [b]")
    have "(v, k) = (RuneError, 1)"
    proof (cases rule: decode_cases [OF _ d])
      case 2
      then show ?thesis by simp
    next
      case 3
      then have "rune_bytes v = [b]" using length_rune_bytes_le(2) [of v] by (cases k) auto
      then show ?thesis using no 3(1) s by auto
    qed simp
    then show ?thesis by (subst segs.simps) (simp add: d)
  qed
  ultimately show ?thesis using s True by simp
qed

end
