(* ===== verification/StringsSearch.thy ===== *)
theory StringsSearch
  imports Prelude
begin

text \<open>
  The Boyer--Moore finder of \<open>src/strings/search.go\<close>, used by the generic \<open>Replacer\<close>: the two skip
  tables \<open>makeStringFinder\<close> builds, and the search loop \<open>next\<close>.  Table entries and the frame
  positions are integers, as in the code (the frame may start at \<open>-1\<close> for the empty pattern);
  the loop is a partial function, so that termination is a theorem and not an assumption.
\<close>

record stringFinder =
  pattern :: bytes
  badCharSkip :: "int list"
  goodSuffixSkip :: "int list"

definition HasPrefix :: "'a list \<Rightarrow> 'a list \<Rightarrow> bool" where
  "HasPrefix s prefix' \<longleftrightarrow> length prefix' \<le> length s \<and> seg 0 (length prefix') s = prefix'"

function lcs_loop :: "'a list \<Rightarrow> 'a list \<Rightarrow> nat \<Rightarrow> nat" where
  "lcs_loop a b i =
     (if i < length a \<and> i < length b then
        if a ! (length a - 1 - i) \<noteq> b ! (length b - 1 - i) then i
        else lcs_loop a b (i + 1)
      else i)"
  by pat_completeness auto
termination
  by (relation "measure (\<lambda>(a, b, i). length a - i)") auto

declare lcs_loop.simps [simp del]
lemmas lcs_loop_simps [loop_unfold] = lcs_loop.simps

definition longestCommonSuffix :: "'a list \<Rightarrow> 'a list \<Rightarrow> nat" where
  "longestCommonSuffix a b = lcs_loop a b 0"

definition badCharTable :: "bytes \<Rightarrow> int list" where
  "badCharTable p =
     (let last = int (length p) - 1 in
      foldl (\<lambda>bad i. bad[unat (p ! i) := last - int i])
        (replicate 256 (int (length p))) [0..<nat last])"

definition prefixPass :: "bytes \<Rightarrow> int list" where
  "prefixPass p =
     (let last = int (length p) - 1 in
      snd (foldl (\<lambda>(lastPrefix, good) i.
             let lastPrefix = (if HasPrefix p (drop (i + 1) p) then int i + 1 else lastPrefix)
             in (lastPrefix, good[i := lastPrefix + last - int i]))
           (last, replicate (length p) 0) (rev [0..<length p])))"

definition suffixPass :: "bytes \<Rightarrow> int list \<Rightarrow> int list" where
  "suffixPass p good =
     (let last = length p - 1 in
      foldl (\<lambda>good i.
          let lenSuffix = longestCommonSuffix p (seg 1 (i + 1) p) in
          if p ! (i - lenSuffix) \<noteq> p ! (last - lenSuffix)
          then good[last - lenSuffix := int lenSuffix + int last - int i] else good)
        good [0..<last])"

definition makeStringFinder :: "bytes \<Rightarrow> stringFinder" where
  "makeStringFinder p =
     \<lparr>pattern = p, badCharSkip = badCharTable p, goodSuffixSkip = suffixPass p (prefixPass p)\<rparr>"

definition go_max :: "int \<Rightarrow> int \<Rightarrow> int" where
  "go_max a b = (if a > b then a else b)"

text \<open>The inner loop compares backwards and yields the positions of the mismatch, \<open>j = -1\<close> for none.\<close>

function next_cmp :: "bytes \<Rightarrow> bytes \<Rightarrow> int \<Rightarrow> int \<Rightarrow> (int \<times> int) go" where
  "next_cmp text p i j =
     (if j \<ge> 0 then
        go_bind (go_index text i) (\<lambda>c.
        go_bind (go_index p j) (\<lambda>d.
          if c = d then next_cmp text p (i - 1) (j - 1) else Inr (i, j)))
      else Inr (i, j))"
  by pat_completeness auto
termination
  by (relation "measure (\<lambda>(text, p, i, j). nat (j + 1))") auto

declare next_cmp.simps [simp del]
lemmas next_cmp_simps [loop_unfold] = next_cmp.simps

definition skip_of :: "stringFinder \<Rightarrow> bytes \<Rightarrow> int \<Rightarrow> int \<Rightarrow> int go" where
  "skip_of f text i j =
     go_bind (go_index text i) (\<lambda>c.
     go_bind (go_index (badCharSkip f) (int (unat c))) (\<lambda>b.
     go_bind (go_index (goodSuffixSkip f) j) (\<lambda>g. Inr (go_max b g))))"

partial_function (option) next_loop :: "stringFinder \<Rightarrow> bytes \<Rightarrow> int \<Rightarrow> int go option" where
  "next_loop f text i =
     (if i < int (length text) then
        (case next_cmp text (pattern f) i (int (length (pattern f)) - 1) of
           Inl e \<Rightarrow> Some (Inl e)
         | Inr (i, j) \<Rightarrow>
             if j < 0 then Some (Inr (i + 1))
             else (case skip_of f text i j of
                     Inl e \<Rightarrow> Some (Inl e)
                   | Inr d \<Rightarrow> next_loop f text (i + d)))
      else Some (Inr (-1)))"

definition finder_next :: "stringFinder \<Rightarrow> bytes \<Rightarrow> int go option" where
  "finder_next f text = next_loop f text (int (length (pattern f)) - 1)"


section \<open>The bad character table\<close>

lemma length_badCharTable: "length (badCharTable p) = 256"
proof -
  have "length (foldl (\<lambda>bad i. bad[unat (p ! i) := f i]) t xs) = length t" for f xs and t :: "int list"
    by (induction xs arbitrary: t) simp_all
  then show ?thesis by (simp add: badCharTable_def Let_def)
qed

lemma badCharTable_fold:
  fixes p :: bytes and l :: int
  defines "T n \<equiv> foldl (\<lambda>bad i. bad[unat (p ! i) := l - int i]) (replicate 256 (l + 1)) [0..<n]"
  shows "T n ! unat c \<le> l + 1 \<and> (\<forall>k < n. p ! k = c \<longrightarrow> T n ! unat c \<le> l - int k)"
proof (induction n)
  case 0
  then show ?case using unsigned_less [where 'a = nat, of c] by (simp add: T_def)
next
  case (Suc n)
  have len: "length (T n) = 256"
    unfolding T_def by (induction n) simp_all
  have T: "T (Suc n) = (T n)[unat (p ! n) := l - int n]" by (simp add: T_def)
  show ?case
  proof (cases "p ! n = c")
    case True
    then have "T (Suc n) ! unat c = l - int n"
      using len unsigned_less [where 'a = nat, of c] by (simp add: T)
    then show ?thesis by auto
  next
    case False
    then have "unat (p ! n) \<noteq> unat c" by (simp add: word_unat_eq_iff)
    then have "T (Suc n) ! unat c = T n ! unat c" by (simp add: T)
    with Suc False show ?thesis by (auto simp: less_Suc_eq)
  qed
qed

lemma badCharTable_bound:
  assumes "p \<noteq> []"
  shows "badCharTable p ! unat c \<le> int (length p)"
    and "k < length p - 1 \<Longrightarrow> p ! k = c \<Longrightarrow> badCharTable p ! unat c \<le> int (length p) - 1 - int k"
proof -
  have n: "nat (int (length p) - 1) = length p - 1" by linarith
  show "badCharTable p ! unat c \<le> int (length p)"
    "k < length p - 1 \<Longrightarrow> p ! k = c \<Longrightarrow> badCharTable p ! unat c \<le> int (length p) - 1 - int k"
    using badCharTable_fold [of p "int (length p) - 1" "length p - 1" c]
    unfolding badCharTable_def Let_def n by auto
qed


section \<open>The good suffix table\<close>

text \<open>
  A shift by \<open>s\<close> is compatible with a mismatch at \<open>j\<close> when the pattern moved right by \<open>s\<close> agrees
  with the matched suffix where they overlap and differs from it at \<open>j\<close>.
\<close>

definition compat :: "'a list \<Rightarrow> nat \<Rightarrow> nat \<Rightarrow> bool" where
  "compat p j s \<longleftrightarrow>
     (\<forall>k. j < k \<longrightarrow> k < length p \<longrightarrow> s \<le> k \<longrightarrow> p ! (k - s) = p ! k)
     \<and> (s \<le> j \<longrightarrow> p ! (j - s) \<noteq> p ! j)"

lemma lcs_loop_spec:
  assumes "i \<le> length a" "i \<le> length b" and "\<forall>t < i. a ! (length a - 1 - t) = b ! (length b - 1 - t)"
  shows "lcs_loop a b i \<le> length a \<and> lcs_loop a b i \<le> length b
    \<and> (\<forall>t < lcs_loop a b i. a ! (length a - 1 - t) = b ! (length b - 1 - t))
    \<and> (lcs_loop a b i < length a \<longrightarrow> lcs_loop a b i < length b \<longrightarrow>
       a ! (length a - 1 - lcs_loop a b i) \<noteq> b ! (length b - 1 - lcs_loop a b i))"
  using assms
proof (induction a b i rule: lcs_loop.induct)
  case (1 a b i)
  show ?case
  proof (cases "i < length a \<and> i < length b \<and> a ! (length a - 1 - i) = b ! (length b - 1 - i)")
    case True
    then have "lcs_loop a b i = lcs_loop a b (i + 1)" by (subst lcs_loop.simps) simp
    then show ?thesis using 1 True by (simp add: less_Suc_eq)
  next
    case False
    then have "lcs_loop a b i = i" by (subst lcs_loop.simps) auto
    then show ?thesis using 1 False by auto
  qed
qed

lemma lcs_unique:
  assumes "i < length p" and "L \<le> i"
    and "\<forall>t < L. p ! (length p - 1 - t) = p ! (i - t)"
    and "p ! (length p - 1 - L) \<noteq> p ! (i - L)"
  shows "longestCommonSuffix p (seg 1 (i + 1) p) = L"
proof -
  let ?b = "seg 1 (i + 1) p" and ?n = "longestCommonSuffix p (seg 1 (i + 1) p)"
  have lb: "length ?b = i" using assms(1) by simp
  have b: "?b ! (length ?b - 1 - t) = p ! (i - t)" if "t < i" for t
    using that assms(1) lb by (simp add: nth_seg Suc_diff_Suc)
  note spec = lcs_loop_spec [of 0 p ?b, folded longestCommonSuffix_def, simplified]
  have le: "?n \<le> i" using spec lb by simp
  have eq: "p ! (length p - 1 - t) = p ! (i - t)" if "t < ?n" for t
    using spec that b [of t] le by auto
  have neq: "p ! (length p - 1 - ?n) \<noteq> p ! (i - ?n)" if "?n < i"
    using spec that b [of ?n] lb assms(1) by auto
  show ?thesis
  proof (rule linorder_cases [of ?n L])
    assume "?n < L"
    then show ?thesis using neq assms(2,3) by auto
  next
    assume "L < ?n"
    then show ?thesis using eq assms(4) by auto
  qed
qed

lemma lcs_le: "i < length p \<Longrightarrow> longestCommonSuffix p (seg 1 (i + 1) p) \<le> i"
  using lcs_loop_spec [of 0 p "seg 1 (i + 1) p"] by (simp add: longestCommonSuffix_def)

definition shift_at :: "'a list \<Rightarrow> int list \<Rightarrow> nat \<Rightarrow> int" where
  "shift_at p good j = good ! j + int j - (int (length p) - 1)"

lemma HasPrefix_iff: "HasPrefix s q \<longleftrightarrow> (\<exists>t. s = q @ t)"
proof
  assume "HasPrefix s q"
  then have "s = q @ drop (length q) s" by (simp add: HasPrefix_def) (metis append_take_drop_id)
  then show "\<exists>t. s = q @ t" by blast
qed (auto simp: HasPrefix_def)

lemma HasPrefix_suffix: "HasPrefix p (drop m p) \<longleftrightarrow> (\<forall>k. m \<le> k \<longrightarrow> k < length p \<longrightarrow> p ! (k - m) = p ! k)"
proof -
  have "HasPrefix p (drop m p) \<longleftrightarrow> take (length p - m) p = drop m p"
    by (simp add: HasPrefix_def)
  also have "\<dots> \<longleftrightarrow> (\<forall>t < length p - m. p ! t = p ! (m + t))"
    by (auto simp: list_eq_iff_nth_eq)
  also have "\<dots> \<longleftrightarrow> (\<forall>k. m \<le> k \<longrightarrow> k < length p \<longrightarrow> p ! (k - m) = p ! k)"
  proof (intro iffI allI impI)
    fix k assume "\<forall>t < length p - m. p ! t = p ! (m + t)" "m \<le> k" "k < length p"
    then show "p ! (k - m) = p ! k" by (metis diff_less_mono le_add_diff_inverse)
  next
    fix t assume a: "\<forall>k. m \<le> k \<longrightarrow> k < length p \<longrightarrow> p ! (k - m) = p ! k" "t < length p - m"
    from a(1) [THEN spec, of "m + t"] a(2) show "p ! t = p ! (m + t)" by simp
  qed
  finally show ?thesis .
qed

lemma compat_prefix: "j < s \<Longrightarrow> compat p j s \<Longrightarrow> HasPrefix p (drop s p)"
  unfolding HasPrefix_suffix compat_def by auto

text \<open>The first pass, as a loop from the back; it stores the least \<open>m > j\<close> with \<open>pattern[m:]\<close> a prefix.\<close>

definition prefix_step :: "bytes \<Rightarrow> int \<times> int list \<Rightarrow> nat \<Rightarrow> int \<times> int list" where
  "prefix_step p st i = (case st of (lastPrefix, good) \<Rightarrow>
     let lastPrefix = (if HasPrefix p (drop (i + 1) p) then int i + 1 else lastPrefix)
     in (lastPrefix, good[i := lastPrefix + (int (length p) - 1) - int i]))"

lemma prefix_fold:
  assumes "n \<le> length p"
  shows "case foldl (prefix_step p) (int (length p) - 1, replicate (length p) 0) (rev [n..<length p])
    of (lp, good) \<Rightarrow> length good = length p \<and>
      (n < length p \<longrightarrow> int n < lp \<and> (\<forall>m. n < m \<longrightarrow> int m < lp \<longrightarrow> \<not> HasPrefix p (drop m p))) \<and>
      (\<forall>j. n \<le> j \<longrightarrow> j < length p \<longrightarrow>
         int j < shift_at p good j
         \<and> (\<forall>m. j < m \<longrightarrow> int m < shift_at p good j \<longrightarrow> \<not> HasPrefix p (drop m p)))"
  using assms
proof (induction n rule: inc_induct)
  case base
  then show ?case by simp
next
  case (step n)
  obtain lp good where st: "foldl (prefix_step p) (int (length p) - 1, replicate (length p) 0)
      (rev [Suc n..<length p]) = (lp, good)" by fastforce
  have rev: "rev [n..<length p] = rev [Suc n..<length p] @ [n]"
    using step by (simp add: upt_conv_Cons)
  define lp' where "lp' = (if HasPrefix p (drop (n + 1) p) then int n + 1 else lp)"
  define good' where "good' = good[n := lp' + (int (length p) - 1) - int n]"
  have fold: "foldl (prefix_step p) (int (length p) - 1, replicate (length p) 0) (rev [n..<length p])
      = (lp', good')"
    unfolding rev foldl_append st by (simp add: prefix_step_def lp'_def good'_def)
  have len: "length good = length p" and
    ih: "Suc n < length p \<Longrightarrow> int (Suc n) < lp"
      "\<And>m. Suc n < length p \<Longrightarrow> Suc n < m \<Longrightarrow> int m < lp \<Longrightarrow> \<not> HasPrefix p (drop m p)"
    and old: "\<And>j. Suc n \<le> j \<Longrightarrow> j < length p \<Longrightarrow> int j < shift_at p good j
         \<and> (\<forall>m. j < m \<longrightarrow> int m < shift_at p good j \<longrightarrow> \<not> HasPrefix p (drop m p))"
    using step.IH st by auto
  have nil: "HasPrefix p (drop (n + 1) p)" if "\<not> Suc n < length p"
    using that by (simp add: HasPrefix_def)
  have lp: "int n < lp'" "\<And>m. n < m \<Longrightarrow> int m < lp' \<Longrightarrow> \<not> HasPrefix p (drop m p)"
  proof -
    show "int n < lp'" using ih(1) nil by (cases "Suc n < length p") (auto simp: lp'_def)
    fix m assume m: "n < m" "int m < lp'"
    then have np: "\<not> HasPrefix p (drop (n + 1) p)" by (auto simp: lp'_def)
    with nil have s: "Suc n < length p" by blast
    show "\<not> HasPrefix p (drop m p)"
    proof (cases "m = n + 1")
      case False
      then show ?thesis using ih(2) [OF s, of m] m np by (simp add: lp'_def)
    qed (use np in simp)
  qed
  have s: "shift_at p good' j = (if j = n then lp' else shift_at p good j)" if "j < length p" for j
    using that len by (auto simp: shift_at_def good'_def)
  have len': "length good' = length p" using len by (simp add: good'_def)
  have each: "int j < shift_at p good' j
      \<and> (\<forall>m. j < m \<longrightarrow> int m < shift_at p good' j \<longrightarrow> \<not> HasPrefix p (drop m p))"
    if "n \<le> j" "j < length p" for j
    using lp old [of j] that unfolding s [OF that(2)] by (cases "j = n") auto
  show ?case
    unfolding fold using lp each len' by auto
qed

lemma prefixPass_spec:
  assumes "j < length p"
  shows "length (prefixPass p) = length p" and "int j < shift_at p (prefixPass p) j"
    and "j < s \<Longrightarrow> int s < shift_at p (prefixPass p) j \<Longrightarrow> \<not> compat p j s"
proof -
  have e: "prefixPass p = snd (foldl (prefix_step p) (int (length p) - 1, replicate (length p) 0)
      (rev [0..<length p]))"
    unfolding prefixPass_def Let_def
    by (rule arg_cong [of _ _ snd], rule foldl_cong) (auto simp: prefix_step_def Let_def)
  show "length (prefixPass p) = length p" and "int j < shift_at p (prefixPass p) j"
    and "j < s \<Longrightarrow> int s < shift_at p (prefixPass p) j \<Longrightarrow> \<not> compat p j s"
    using prefix_fold [of 0 p] assms compat_prefix [of j s p] unfolding e by (auto split: prod.splits)
qed

text \<open>The second pass lowers an entry when it finds a closer copy of the suffix.\<close>

definition suffix_step :: "bytes \<Rightarrow> int list \<Rightarrow> nat \<Rightarrow> int list" where
  "suffix_step p good i =
     (let last = length p - 1; lenSuffix = longestCommonSuffix p (seg 1 (i + 1) p) in
      if p ! (i - lenSuffix) \<noteq> p ! (last - lenSuffix)
      then good[last - lenSuffix := int lenSuffix + int last - int i] else good)"

definition table_ok :: "bytes \<Rightarrow> nat \<Rightarrow> int list \<Rightarrow> bool" where
  "table_ok p n good \<longleftrightarrow> length good = length p \<and>
     (\<forall>j < length p. 1 \<le> shift_at p good j \<and>
        (\<forall>s. 1 \<le> s \<longrightarrow> int s < shift_at p good j \<longrightarrow> j < s \<or> length p - 1 < s + n \<longrightarrow> \<not> compat p j s))"

lemma table_ok_init: "table_ok p 0 (prefixPass p)"
  unfolding table_ok_def
proof (intro conjI allI impI)
  show "length (prefixPass p) = length p"
    using prefixPass_spec(1) [of 0 p] by (cases "p = []") (auto simp: prefixPass_def)
next
  fix j assume "j < length p"
  then show "1 \<le> shift_at p (prefixPass p) j" using prefixPass_spec(2) [of j p] by simp
next
  fix j s assume "j < length p" "int s < shift_at p (prefixPass p) j" "j < s \<or> length p - 1 < s + 0"
  then have "j < s" by linarith
  then show "\<not> compat p j s" using prefixPass_spec(3) [OF \<open>j < length p\<close>, of s] \<open>int s < _\<close> by simp
qed

text \<open>A compatible shift that keeps \<open>j\<close> inside the pattern determines the common suffix.\<close>

lemma compat_lcs:
  assumes "compat p j s" and "1 \<le> s" "s \<le> j" "j < length p"
  defines "i \<equiv> length p - 1 - s"
  shows "longestCommonSuffix p (seg 1 (i + 1) p) = length p - 1 - j"
    and "p ! (i - (length p - 1 - j)) \<noteq> p ! (length p - 1 - (length p - 1 - j))"
proof -
  have idx: "i - (length p - 1 - j) = j - s" "length p - 1 - (length p - 1 - j) = j"
    using assms(2-4) by (auto simp: i_def)
  show neq: "p ! (i - (length p - 1 - j)) \<noteq> p ! (length p - 1 - (length p - 1 - j))"
    unfolding idx using assms(1,3) by (simp add: compat_def)
  show "longestCommonSuffix p (seg 1 (i + 1) p) = length p - 1 - j"
  proof (rule lcs_unique)
    show "\<forall>t < length p - 1 - j. p ! (length p - 1 - t) = p ! (i - t)"
    proof (intro allI impI)
      fix t assume t: "t < length p - 1 - j"
      have "p ! (length p - 1 - t - s) = p ! (length p - 1 - t)"
        using assms(1) unfolding compat_def
        by (elim conjE allE [of _ "length p - 1 - t"] impE) (use t assms(3,4) in auto)
      moreover have "i - t = length p - 1 - t - s" by (simp add: i_def)
      ultimately show "p ! (length p - 1 - t) = p ! (i - t)" by simp
    qed
    show "p ! (length p - 1 - (length p - 1 - j)) \<noteq> p ! (i - (length p - 1 - j))" using neq by metis
  qed (use assms(2-4) in \<open>auto simp: i_def\<close>)
qed

lemma table_ok_step:
  assumes "table_ok p n good" and "Suc n < length p"
  shows "table_ok p (Suc n) (suffix_step p good n)"
proof -
  let ?l = "length p - 1"
  define L where "L = longestCommonSuffix p (seg 1 (n + 1) p)"
  have L: "L \<le> n" using lcs_le [of n p] assms(2) by (simp add: L_def)
  have len: "length good = length p" using assms(1) by (simp add: table_ok_def)
  have old: "1 \<le> shift_at p good j" "1 \<le> s \<Longrightarrow> int s < shift_at p good j \<Longrightarrow>
      j < s \<or> ?l < s + n \<Longrightarrow> \<not> compat p j s" if "j < length p" for j s
    using assms(1) that unfolding table_ok_def by auto
  have new: "p ! (n - L) \<noteq> p ! (?l - L) \<and> j = ?l - L"
    if "compat p j s" "1 \<le> s" "s \<le> j" "j < length p" "s + n = ?l" for j s
  proof -
    from that(5) have "n = length p - 1 - s" by simp
    with compat_lcs [OF that(1-4)] have "L = length p - 1 - j"
      "p ! (n - (length p - 1 - j)) \<noteq> p ! (length p - 1 - (length p - 1 - j))"
      by (simp_all add: L_def)
    then show ?thesis using that(4) by auto
  qed
  let ?g = "suffix_step p good n"
  have g: "?g = (if p ! (n - L) \<noteq> p ! (?l - L) then good[?l - L := int L + int ?l - int n] else good)"
    by (simp add: suffix_step_def Let_def L_def)
  have sh: "shift_at p ?g j = (if p ! (n - L) \<noteq> p ! (?l - L) \<and> j = ?l - L then int (?l - n)
      else shift_at p good j)" if "j < length p" for j
    using that len L assms(2) by (auto simp: shift_at_def g)
  show ?thesis
    unfolding table_ok_def
  proof (intro conjI allI impI)
    show "length ?g = length p" by (simp add: g len)
  next
    fix j assume j: "j < length p"
    then show "1 \<le> shift_at p ?g j" using old(1) [OF j] assms(2) by (simp add: sh)
  next
    fix j s assume j: "j < length p" and s: "1 \<le> s" "int s < shift_at p ?g j"
      "j < s \<or> ?l < s + Suc n"
    show "\<not> compat p j s"
    proof (cases "p ! (n - L) \<noteq> p ! (?l - L) \<and> j = ?l - L")
      case True
      then show ?thesis using s L j assms(2) by (auto simp: sh)
    next
      case False
      then have "int s < shift_at p good j" using s(2) j by (simp add: sh split: if_splits)
      then show ?thesis using old(2) [OF j s(1)] s(3) new [of j s] False j s(1)
        by (cases "s + n = ?l"; cases "j < s") auto
    qed
  qed
qed

lemma suffixPass_ok:
  assumes "p \<noteq> []"
  shows "table_ok p (length p - 1) (suffixPass p (prefixPass p))"
proof -
  have "table_ok p n (foldl (suffix_step p) (prefixPass p) [0..<n])" if "n < length p" for n
    using that by (induction n) (simp_all add: table_ok_init table_ok_step)
  then show ?thesis
    using assms by (simp add: suffixPass_def Let_def suffix_step_def [abs_def])
qed

lemma goodSuffix_spec:
  assumes "j < length p"
  defines "good \<equiv> goodSuffixSkip (makeStringFinder p)"
  shows "length good = length p" and "1 \<le> shift_at p good j"
    and "1 \<le> s \<Longrightarrow> int s < shift_at p good j \<Longrightarrow> \<not> compat p j s"
proof -
  have "p \<noteq> []" using assms(1) by auto
  then have ok: "table_ok p (length p - 1) good"
    using suffixPass_ok [OF \<open>p \<noteq> []\<close>] by (simp add: good_def makeStringFinder_def)
  show "length good = length p" "1 \<le> shift_at p good j"
    using ok assms(1) by (simp_all add: table_ok_def)
  have "length p - 1 < s + (length p - 1)" if "1 \<le> s" using that by linarith
  then show "\<not> compat p j s" if "1 \<le> s" "int s < shift_at p good j"
    using ok assms(1) that unfolding table_ok_def by blast
qed


section \<open>The search loop\<close>

lemma go_index_ok: "0 \<le> i \<Longrightarrow> i < int (length xs) \<Longrightarrow> go_index xs i = Inr (xs ! nat i)"
  by (simp add: go_index_def)

lemma go_index_nat: "n < length xs \<Longrightarrow> go_index xs (int n) = Inr (xs ! n)"
  by (simp add: go_index_def)

text \<open>Comparing at frame \<open>w\<close>: the last mismatch, or \<open>-1\<close> when the pattern occurs there.\<close>

lemma next_cmp_spec:
  assumes "w + length p \<le> length text" and "j \<le> int (length p) - 1" "-1 \<le> j"
    and "\<forall>k < length p. j < int k \<longrightarrow> text ! (w + k) = p ! k"
  shows "\<exists>j'. next_cmp text p (int w + j) j = Inr (int w + j', j') \<and> -1 \<le> j' \<and> j' \<le> j
    \<and> (\<forall>k < length p. j' < int k \<longrightarrow> text ! (w + k) = p ! k)
    \<and> (0 \<le> j' \<longrightarrow> text ! (w + nat j') \<noteq> p ! nat j')"
  using assms
proof (induction "nat (j + 1)" arbitrary: j rule: less_induct)
  case less
  show ?case
  proof (cases "0 \<le> j \<and> text ! (w + nat j) = p ! nat j")
    case True
    have n: "nat (int w + j) = w + nat j" using True by (simp add: nat_add_distrib)
    have step: "next_cmp text p (int w + j) j = next_cmp text p (int w + (j - 1)) (j - 1)"
      using True less.prems by (subst next_cmp.simps) (simp add: go_index_ok n add_diff_eq)
    have "text ! (w + k) = p ! k" if "k < length p" "j - 1 < int k" for k
      using that True less.prems(4) by (cases "int k = j") auto
    then show ?thesis
      unfolding step using less.hyps [of "j - 1"] True less.prems by force
  next
    case False
    then have "next_cmp text p (int w + j) j = Inr (int w + j, j)"
      using less.prems by (subst next_cmp.simps) (auto simp: go_index_ok nat_add_distrib)
    then show ?thesis using False less.prems by (intro exI [of _ j]) auto
  qed
qed

lemma skip_sound:
  assumes "p \<noteq> []" and "w + length p \<le> length text" and "j < length p"
    and match: "\<forall>k < length p. j < k \<longrightarrow> text ! (w + k) = p ! k"
    and mismatch: "text ! (w + j) \<noteq> p ! j"
  shows "\<exists>d. skip_of (makeStringFinder p) text (int (w + j)) (int j) = Inr d
    \<and> int w + int (length p) \<le> int (w + j) + d
    \<and> (\<forall>v. w < v \<longrightarrow> int v + int (length p) - 1 < int (w + j) + d \<longrightarrow> \<not> occurs_at text p v)"
proof -
  let ?f = "makeStringFinder p"
  define c where "c = text ! (w + j)"
  define b where "b = badCharTable p ! unat c"
  define g where "g = goodSuffixSkip ?f ! j"
  have len: "length (goodSuffixSkip ?f) = length p" by (rule goodSuffix_spec(1) [OF assms(3)])
  have "unat c < 256" using unsigned_less [where 'a = nat, of c] by simp
  then have ix: "go_index text (int (w + j)) = Inr c" "go_index (badCharSkip ?f) (int (unat c)) = Inr b"
    "go_index (goodSuffixSkip ?f) (int j) = Inr g"
    using assms(2,3) len length_badCharTable [of p] go_index_nat [of "w + j" "text"]
      go_index_nat [of "unat c" "badCharTable p"] go_index_nat [of j "goodSuffixSkip ?f"]
    by (simp_all add: b_def c_def g_def makeStringFinder_def)
  have skip: "skip_of ?f text (int (w + j)) (int j) = Inr (go_max b g)"
    unfolding skip_of_def ix go_bind.simps ..
  have shift: "shift_at p (goodSuffixSkip ?f) j = g + int j - (int (length p) - 1)"
    by (simp add: shift_at_def g_def)
  have prog: "int w + int (length p) \<le> int (w + j) + go_max b g"
    using goodSuffix_spec(2) [OF assms(3)] shift by (simp add: go_max_def)
  moreover have "\<not> occurs_at text p v"
    if v: "w < v" "int v + int (length p) - 1 < int (w + j) + go_max b g" for v
  proof
    assume occ: "occurs_at text p v"
    define s where "s = v - w"
    have vs: "v = w + s" "1 \<le> s" using v(1) by (auto simp: s_def)
    have pat: "text ! (v + k) = p ! k" if "k < length p" for k
      using occ that by (simp add: occurs_at_nth)
    have bad: "int s + int (length p) - 1 \<ge> int j + b"
    proof (rule ccontr)
      assume lt: "\<not> ?thesis"
      then have "s \<le> j" using badCharTable_bound(1) [OF assms(1), of c] by (simp add: b_def)
      then have "p ! (j - s) = c" using pat [of "j - s"] assms(3) by (simp add: vs c_def)
      then have "b \<le> int (length p) - 1 - int (j - s)"
        unfolding b_def using vs(2) assms(3) \<open>s \<le> j\<close>
        by (intro badCharTable_bound(2) [OF assms(1)]) auto
      with lt \<open>s \<le> j\<close> show False by simp
    qed
    have "int s < shift_at p (goodSuffixSkip ?f) j"
      using bad v(2) unfolding shift vs by (simp add: go_max_def split: if_splits)
    then have "\<not> compat p j s" by (rule goodSuffix_spec(3) [OF assms(3) vs(2)])
    moreover have "compat p j s"
      unfolding compat_def
    proof (intro conjI allI impI)
      fix k assume "j < k" "k < length p" "s \<le> k"
      then show "p ! (k - s) = p ! k"
        using pat [of "k - s"] match by (simp add: vs)
    next
      assume "s \<le> j"
      then show "p ! (j - s) \<noteq> p ! j" using pat [of "j - s"] mismatch assms(3) by (simp add: vs)
    qed
    ultimately show False by blast
  qed
  ultimately show ?thesis using skip by blast
qed

lemma next_loop_correct:
  assumes "p \<noteq> []" and "\<forall>v < w. \<not> occurs_at text p v"
  shows "\<exists>r. next_loop (makeStringFinder p) text (int w + int (length p) - 1) = Some (Inr r)
    \<and> is_first_index text p r"
  using assms(2)
proof (induction "length text - w" arbitrary: w rule: less_induct)
  case less
  let ?f = "makeStringFinder p"
  have fp: "pattern ?f = p" by (simp add: makeStringFinder_def)
  show ?case
  proof (cases "w + length p \<le> length text")
    case False
    then have "next_loop ?f text (int w + int (length p) - 1) = Some (Inr (-1))"
      by (subst next_loop.simps) simp
    moreover have "\<not> occurs_at text p v" for v
      using less.prems False by (cases "v < w") (auto simp: occurs_at_def)
    ultimately show ?thesis using is_first_index_none by blast
  next
    case True
    obtain j where j: "next_cmp text p (int w + int (length p) - 1) (int (length p) - 1)
        = Inr (int w + j, j)" "-1 \<le> j" "j \<le> int (length p) - 1"
      "\<forall>k < length p. j < int k \<longrightarrow> text ! (w + k) = p ! k"
      "0 \<le> j \<longrightarrow> text ! (w + nat j) \<noteq> p ! nat j"
      using next_cmp_spec [OF True, of "int (length p) - 1"] by (auto simp: add_diff_eq)
    have lt: "int w + int (length p) - 1 < int (length text)" using True by linarith
    show ?thesis
    proof (cases "j < 0")
      case neg: True
      with j(2) have "j = -1" by simp
      with j(4) True have "occurs_at text p w" by (simp add: occurs_at_nth)
      moreover have "next_loop ?f text (int w + int (length p) - 1) = Some (Inr (int w))"
        using lt j(1) \<open>j = -1\<close> by (subst next_loop.simps) (simp add: fp)
      ultimately show ?thesis using less.prems is_first_indexI by blast
    next
      case False
      then obtain m where m: "j = int m" by (metis not_less zero_le_imp_eq_int)
      have ml: "m < length p" using j(3) m by simp
      obtain d where d: "skip_of ?f text (int (w + m)) (int m) = Inr d"
        "int w + int (length p) \<le> int (w + m) + d"
        "\<And>v. w < v \<Longrightarrow> int v + int (length p) - 1 < int (w + m) + d \<Longrightarrow> \<not> occurs_at text p v"
        using skip_sound [OF assms(1) True ml] j(4,5) m by auto
      define w' where "w' = nat (int (w + m) + d + 1 - int (length p))"
      have w': "int (w + m) + d = int w' + int (length p) - 1" "w < w'"
        using d(2) by (auto simp: w'_def)
      have step: "next_loop ?f text (int w + int (length p) - 1)
          = next_loop ?f text (int w' + int (length p) - 1)"
        using lt j(1) d(1) w'(1) by (subst next_loop.simps) (simp add: fp m)
      have "\<not> occurs_at text p w" using j(5) False ml m by (auto simp: occurs_at_nth)
      have none: "\<forall>v < w'. \<not> occurs_at text p v"
      proof (intro allI impI)
        fix v assume "v < w'"
        then have "int v + int (length p) - 1 < int (w + m) + d" using w'(1) by simp
        then show "\<not> occurs_at text p v"
          using less.prems d(3) [of v] \<open>\<not> occurs_at text p w\<close>
          by (cases v w rule: linorder_cases) auto
      qed
      have "0 < length p" using assms(1) by simp
      then have "length text - w' < length text - w" using w'(2) True by linarith
      then show ?thesis unfolding step by (rule less.hyps) (rule none)
    qed
  qed
qed

section \<open>Properties\<close>

text \<open>
  C30: the Boyer--Moore search terminates, never indexes outside the text, the pattern or the skip
  tables, and returns the index of the first occurrence of the pattern (\<open>-1\<close> if there is none), for
  every pattern, the empty one included.
\<close>

theorem finder_next_first:
  "\<exists>r. finder_next (makeStringFinder p) s = Some (Inr r) \<and> is_first_index s p r"
proof (cases "p = []")
  case True
  have "finder_next (makeStringFinder p) s = Some (Inr 0)"
    unfolding finder_next_def
    by (subst next_loop.simps, subst next_cmp.simps) (simp add: True makeStringFinder_def)
  moreover have "is_first_index s p 0" by (simp add: True is_first_index_def occurs_at_def)
  ultimately show ?thesis by blast
next
  case False
  from next_loop_correct [OF False, of 0 s] show ?thesis
    by (simp add: finder_next_def makeStringFinder_def)
qed

end
