(* ===== verification/StringsIndex.thy ===== *)
theory StringsIndex
  imports Bytealg Utf8Seq StringsSearch
begin

text \<open>
  Searching in \<open>src/strings/strings.go\<close>: \<open>Index\<close> with its two scanning strategies, the Rabin--Karp
  fallback, \<open>LastIndex\<close>, \<open>Count\<close>, and the byte, rune and character-set searches.  The architecture's
  search is the argument \<open>ops\<close>.  Index and slice expressions whose bounds depend on the scanning
  state are checked (\<open>go_nth\<close>, \<open>go_slice\<close>), so that the absence of panics is proved.
\<close>

section \<open>Bytes\<close>

definition strings_IndexByte :: "bytes \<Rightarrow> byte \<Rightarrow> int" where
  "strings_IndexByte s c = bytealg_IndexByteString s c"

fun lastbyte_loop :: "bytes \<Rightarrow> byte \<Rightarrow> nat \<Rightarrow> int" where
  "lastbyte_loop s c 0 = -1"
| "lastbyte_loop s c (Suc i) = (if s ! i = c then int i else lastbyte_loop s c i)"

definition LastIndexByte :: "bytes \<Rightarrow> byte \<Rightarrow> int" where
  "LastIndexByte s c = lastbyte_loop s c (length s)"


section \<open>Rabin--Karp\<close>

definition primeRK :: u32 where "primeRK = 16777619"

function pow_loop :: "nat \<Rightarrow> u32 \<Rightarrow> u32 \<Rightarrow> u32" where
  "pow_loop i pow sq =
     (if i > 0 then pow_loop (i div 2) (if odd i then pow * sq else pow) (sq * sq) else pow)"
  by pat_completeness auto
termination by (relation "measure (\<lambda>(i, _, _). i)") auto

declare pow_loop.simps [simp del]
lemmas pow_loop_simps [loop_unfold] = pow_loop.simps

definition hashStr :: "bytes \<Rightarrow> u32 \<times> u32" where
  "hashStr sep =
     (let hash = foldl (\<lambda>hash i. hash * primeRK + ucast (sep ! i)) 0 [0..<length sep]
      in (hash, pow_loop (length sep) 1 primeRK))"

definition hashStrRev :: "bytes \<Rightarrow> u32 \<times> u32" where
  "hashStrRev sep =
     (let hash = foldl (\<lambda>hash i. hash * primeRK + ucast (sep ! i)) 0 (rev [0..<length sep])
      in (hash, pow_loop (length sep) 1 primeRK))"

function rk_loop :: "bytes \<Rightarrow> bytes \<Rightarrow> u32 \<Rightarrow> u32 \<Rightarrow> nat \<Rightarrow> u32 \<Rightarrow> int" where
  "rk_loop s substr hashss pow i h =
     (if i < length s then
        let n = length substr;
            h = h * primeRK; h = h + ucast (s ! i); h = h - pow * ucast (s ! (i - n)); i = i + 1 in
        if h = hashss \<and> seg (i - n) i s = substr then int (i - n)
        else rk_loop s substr hashss pow i h
      else -1)"
  by pat_completeness auto
termination by (relation "measure (\<lambda>(s, _, _, _, i, _). length s - i)") auto

declare rk_loop.simps [simp del]
lemmas rk_loop_simps [loop_unfold] = rk_loop.simps

definition indexRabinKarp :: "bytes \<Rightarrow> bytes \<Rightarrow> int go" where
  "indexRabinKarp s substr =
     (let (hashss, pow) = hashStr substr; n = length substr in
      if n > length s then Inl IndexOutOfRange
      else let h = foldl (\<lambda>h i. h * primeRK + ucast (s ! i)) 0 [0..<n] in
      if h = hashss \<and> seg 0 n s = substr then Inr 0
      else Inr (rk_loop s substr hashss pow n h))"

fun lastrk_loop :: "bytes \<Rightarrow> bytes \<Rightarrow> u32 \<Rightarrow> u32 \<Rightarrow> u32 \<Rightarrow> nat \<Rightarrow> int" where
  "lastrk_loop s substr hashss pow h 0 = -1"
| "lastrk_loop s substr hashss pow h (Suc i) =
     (let n = length substr;
          h = h * primeRK; h = h + ucast (s ! i); h = h - pow * ucast (s ! (i + n)) in
      if h = hashss \<and> seg i (i + n) s = substr then int i
      else lastrk_loop s substr hashss pow h i)"

definition LastIndex :: "bytes \<Rightarrow> bytes \<Rightarrow> int" where
  "LastIndex s substr =
     (let n = length substr in
      if n = 0 then int (length s)
      else if n = 1 then LastIndexByte s (substr ! 0)
      else if n = length s then (if substr = s then 0 else -1)
      else if n > length s then -1
      else
        let (hashss, pow) = hashStrRev substr; last = length s - n;
            h = foldl (\<lambda>h i. h * primeRK + ucast (s ! i)) 0 (rev [last..<length s]) in
        if h = hashss \<and> drop last s = substr then int last
        else lastrk_loop s substr hashss pow h last)"


section \<open>\<open>Index\<close>\<close>

text \<open>The test \<open>s[i+1] == c1 && s[i:i+n] == substr\<close>.\<close>

definition match_here :: "bytes \<Rightarrow> bytes \<Rightarrow> byte \<Rightarrow> nat \<Rightarrow> bool go" where
  "match_here s substr c1 i =
     go_bind (go_nth s (i + 1)) (\<lambda>b.
       if b = c1 then go_bind (go_slice s i (i + length substr)) (\<lambda>w. Inr (w = substr))
       else Inr False)"

text \<open>The loop for substrings within \<open>MaxLen\<close>, which gives up for \<open>IndexString\<close>.\<close>

function index_short :: "bytealg_ops \<Rightarrow> bytes \<Rightarrow> bytes \<Rightarrow> byte \<Rightarrow> byte \<Rightarrow> nat \<Rightarrow> nat \<Rightarrow> int go" where
  "index_short ops s substr c0 c1 i fails =
     (let t = length s - length substr + 1 in
      if i < t then
        go_bind (go_nth s i) (\<lambda>b.
          let o' = (if b \<noteq> c0 then strings_IndexByte (seg i t s) c0 else 0) in
          if o' < 0 then Inr (-1)
          else let i = i + nat o' in
          go_bind (match_here s substr c1 i) (\<lambda>found.
            if found then Inr (int i)
            else let fails = fails + 1; i = i + 1 in
            go_bind (Cutover ops i) (\<lambda>limit.
              if fails > limit then
                go_bind (IndexString ops (drop i s) substr) (\<lambda>r.
                  if r \<ge> 0 then Inr (r + int i) else Inr (-1))
              else index_short ops s substr c0 c1 i fails)))
      else Inr (-1))"
  by pat_completeness auto
termination
  by (relation "measure (\<lambda>(ops, s, substr, _, _, i, _). length s - length substr + 1 - i)") auto

text \<open>The loop for longer substrings, which gives up for Rabin--Karp.\<close>

function index_long :: "bytes \<Rightarrow> bytes \<Rightarrow> byte \<Rightarrow> byte \<Rightarrow> nat \<Rightarrow> nat \<Rightarrow> int go" where
  "index_long s substr c0 c1 i fails =
     (let t = length s - length substr + 1 in
      if i < t then
        go_bind (go_nth s i) (\<lambda>b.
          let o' = (if b \<noteq> c0 then strings_IndexByte (seg i t s) c0 else 0) in
          if o' < 0 then Inr (-1)
          else let i = i + nat o' in
          go_bind (match_here s substr c1 i) (\<lambda>found.
            if found then Inr (int i)
            else let i = i + 1; fails = fails + 1 in
            if fails \<ge> 4 + i div 16 \<and> i < t then
              go_bind (indexRabinKarp (drop i s) substr) (\<lambda>j.
                if j < 0 then Inr (-1) else Inr (int i + j))
            else index_long s substr c0 c1 i fails))
      else Inr (-1))"
  by pat_completeness auto
termination
  by (relation "measure (\<lambda>(s, substr, _, _, i, _). length s - length substr + 1 - i)") auto

declare index_short.simps [simp del] index_long.simps [simp del]
lemmas index_loops [loop_unfold] = index_short.simps index_long.simps

definition Index :: "bytealg_ops \<Rightarrow> bytes \<Rightarrow> bytes \<Rightarrow> int go" where
  "Index ops s substr =
     (let n = length substr in
      if n = 0 then Inr 0
      else if n = 1 then Inr (strings_IndexByte s (substr ! 0))
      else if n = length s then Inr (if substr = s then 0 else -1)
      else if n > length s then Inr (-1)
      else if n \<le> MaxLen ops then
        if length s \<le> MaxBruteForce ops then IndexString ops s substr
        else index_short ops s substr (substr ! 0) (substr ! 1) 0 0
      else index_long s substr (substr ! 0) (substr ! 1) 0 0)"

definition Contains :: "bytealg_ops \<Rightarrow> bytes \<Rightarrow> bytes \<Rightarrow> bool go" where
  "Contains ops s substr = go_bind (Index ops s substr) (\<lambda>i. Inr (i \<ge> 0))"

text \<open>\<open>Count\<close> loops until \<open>Index\<close> reports \<open>-1\<close>; that it does is part of what is proved.\<close>

partial_function (option) count_loop ::
  "bytealg_ops \<Rightarrow> bytes \<Rightarrow> bytes \<Rightarrow> nat \<Rightarrow> nat go option" where
  "count_loop ops s substr n =
     (case Index ops s substr of
        Inl e \<Rightarrow> Some (Inl e)
      | Inr i \<Rightarrow>
          if i = -1 then Some (Inr n)
          else let k = i + int (length substr) in
            if 0 \<le> k \<and> k \<le> int (length s)
            then count_loop ops (drop (nat k) s) substr (n + 1)
            else Some (Inl SliceOutOfRange))"

definition strings_Count :: "bytealg_ops \<Rightarrow> bytes \<Rightarrow> bytes \<Rightarrow> nat go option" where
  "strings_Count ops s substr =
     (if length substr = 0 then Some (Inr (RuneCountInString s + 1))
      else if length substr = 1 then Some (Inr (bytealg_CountString s (substr ! 0)))
      else count_loop ops s substr 0)"


section \<open>Rabin--Karp hashes\<close>

lemma pow_loop_power: "pow_loop i p q = p * q ^ i"
proof (induction i p q rule: pow_loop.induct)
  case (1 i p q)
  show ?case
  proof (cases "i = 0")
    case False
    then have "pow_loop i p q = (if odd i then p * q else p) * (q * q) ^ (i div 2)"
      using 1 by (subst pow_loop.simps) simp
    also have "(q * q) ^ (i div 2) = q ^ (2 * (i div 2))"
      by (simp add: power_mult power2_eq_square)
    also have "(if odd i then p * q else p) * q ^ (2 * (i div 2)) = p * q ^ i"
    proof (cases "odd i")
      case True
      then have "i = Suc (2 * (i div 2))" by (simp add: odd_two_times_div_two_succ)
      then have "q ^ i = q * q ^ (2 * (i div 2))" by (metis power_Suc)
      then show ?thesis using True by (simp add: mult.assoc)
    qed simp
    finally show ?thesis .
  qed (simp add: pow_loop.simps)
qed

definition rk_hash :: "bytes \<Rightarrow> u32" where
  "rk_hash xs = foldl (\<lambda>h c. h * primeRK + ucast c) 0 xs"

lemma foldl_hash: "foldl (\<lambda>h c. h * primeRK + ucast c) k xs = k * primeRK ^ length xs + rk_hash xs"
proof (induction xs arbitrary: k)
  case (Cons x xs)
  show ?case
    using Cons [of "k * primeRK + ucast x"] Cons [of "ucast x"]
    by (simp add: rk_hash_def algebra_simps)
qed (simp add: rk_hash_def)

lemma foldl_hash_upt:
  "j \<le> length s \<Longrightarrow> foldl (\<lambda>h i. h * primeRK + ucast (s ! i)) 0 [i..<j] = rk_hash (seg i j s)"
  and foldl_hash_rev:
  "j \<le> length s \<Longrightarrow> foldl (\<lambda>h i. h * primeRK + ucast (s ! i)) 0 (rev [i..<j]) = rk_hash (rev (seg i j s))"
proof -
  have f: "foldl (\<lambda>h i. h * primeRK + ucast (s ! i)) k is
      = foldl (\<lambda>h c. h * primeRK + ucast c) k (map (\<lambda>i. s ! i) is)" for k :: u32 and "is"
    by (induction "is" arbitrary: k) simp_all
  have m: "map (\<lambda>i. s ! i) [i..<j] = seg i j s" if "j \<le> length s"
    using that by (auto simp: list_eq_iff_nth_eq nth_seg seg_def)
  show "j \<le> length s \<Longrightarrow> foldl (\<lambda>h i. h * primeRK + ucast (s ! i)) 0 [i..<j] = rk_hash (seg i j s)"
    "j \<le> length s \<Longrightarrow> foldl (\<lambda>h i. h * primeRK + ucast (s ! i)) 0 (rev [i..<j]) = rk_hash (rev (seg i j s))"
    by (simp_all add: f m rk_hash_def rev_map [symmetric])
qed

text \<open>Rolling: dropping the oldest byte and appending a new one.\<close>

lemma rk_roll: "rk_hash (c # w) * primeRK + ucast d - primeRK ^ length (c # w) * ucast c = rk_hash (w @ [d])"
proof -
  have "rk_hash (c # w) = ucast c * primeRK ^ length w + rk_hash w"
    unfolding rk_hash_def [of "c # w"] foldl_Cons by (subst foldl_hash) simp
  moreover have "rk_hash (w @ [d]) = rk_hash w * primeRK + ucast d" by (simp add: rk_hash_def)
  ultimately show ?thesis by (simp add: algebra_simps)
qed

lemma hashStr_spec: "hashStr sep = (rk_hash sep, primeRK ^ length sep)"
  and hashStrRev_spec: "hashStrRev sep = (rk_hash (rev sep), primeRK ^ length sep)"
  using foldl_hash_upt [of "length sep" sep 0] foldl_hash_rev [of "length sep" sep 0]
  by (simp_all add: hashStr_def hashStrRev_def pow_loop_power)

lemma seg_Cons: "i < j \<Longrightarrow> j \<le> length xs \<Longrightarrow> seg i j xs = xs ! i # seg (Suc i) j xs"
  using seg_append_seg [of i "Suc i" j xs] seg_Suc [of i i xs] by simp

lemma roll_window:
  assumes "0 < n" "n \<le> i" "i < length s"
  shows "rk_hash (seg (i - n) i s) * primeRK + ucast (s ! i) - primeRK ^ n * ucast (s ! (i - n))
    = rk_hash (seg (i + 1 - n) (i + 1) s)"
proof -
  have w: "seg (i - n) i s = s ! (i - n) # seg (Suc (i - n)) i s"
    using assms by (intro seg_Cons) auto
  have l: "length (s ! (i - n) # seg (Suc (i - n)) i s) = n" using assms by simp
  have "seg (i + 1 - n) (i + 1) s = seg (Suc (i - n)) i s @ [s ! i]"
    using assms by (simp add: Suc_diff_le seg_Suc)
  then show ?thesis using rk_roll [of "s ! (i - n)" "seg (Suc (i - n)) i s" "s ! i"] unfolding w l by simp
qed

lemma roll_window_back:
  assumes "0 < n" "i + n < length s"
  shows "rk_hash (rev (seg (i + 1) (i + 1 + n) s)) * primeRK + ucast (s ! i) - primeRK ^ n * ucast (s ! (i + n))
    = rk_hash (rev (seg i (i + n) s))"
proof -
  have a: "rev (seg (i + 1) (i + 1 + n) s) = s ! (i + n) # rev (seg (i + 1) (i + n) s)"
    using assms seg_Suc [of "i + 1" "i + n" s] by simp
  have b: "rev (seg i (i + n) s) = rev (seg (i + 1) (i + n) s) @ [s ! i]"
    using assms seg_Cons [of i "i + n" s] by simp
  have l: "length (s ! (i + n) # rev (seg (i + 1) (i + n) s)) = n" using assms by simp
  show ?thesis
    using rk_roll [of "s ! (i + n)" "rev (seg (i + 1) (i + n) s)" "s ! i"] unfolding a b l by simp
qed

lemma rk_loop_first:
  assumes "0 < length p" "length p \<le> i" "i \<le> length s"
    and "h = rk_hash (seg (i - length p) i s)"
    and "\<forall>j \<le> i - length p. \<not> occurs_at s p j"
  shows "is_first_index s p (rk_loop s p (rk_hash p) (primeRK ^ length p) i h)"
  using assms
proof (induction "length s - i" arbitrary: i h rule: less_induct)
  case less
  show ?case
  proof (cases "i < length s")
    case False
    then have "\<not> occurs_at s p j" for j
      using less.prems(3,5) by (cases "j \<le> i - length p") (auto simp: occurs_at_def)
    then show ?thesis using False is_first_index_none [of s p] by (subst rk_loop.simps) simp
  next
    case True
    let ?j = "i + 1 - length p"
    have h': "h * primeRK + ucast (s ! i) - primeRK ^ length p * ucast (s ! (i - length p))
        = rk_hash (seg ?j (i + 1) s)"
      unfolding less.prems(4) by (rule roll_window) (use less.prems True in auto)
    have occ: "occurs_at s p ?j \<longleftrightarrow> seg ?j (i + 1) s = p"
      using less.prems True by (auto simp: occurs_at_seg)
    have step: "rk_loop s p (rk_hash p) (primeRK ^ length p) i h =
       (if seg ?j (i + 1) s = p then int ?j
        else rk_loop s p (rk_hash p) (primeRK ^ length p) (i + 1) (rk_hash (seg ?j (i + 1) s)))"
      by (subst rk_loop.simps) (auto simp: Let_def True h')
    have le: "j \<le> ?j \<longleftrightarrow> j \<le> i - length p \<or> j = ?j" for j
      using less.prems by auto
    show ?thesis
    proof (cases "occurs_at s p ?j")
      case found: True
      have "\<not> occurs_at s p j" if "j < ?j" for j
        using that less.prems(2,5) by auto
      then have "is_first_index s p (int ?j)" by (rule is_first_indexI [OF found])
      then show ?thesis using found occ step by simp
    next
      case False
      have "is_first_index s p (rk_loop s p (rk_hash p) (primeRK ^ length p) (i + 1) (rk_hash (seg ?j (i + 1) s)))"
      proof (rule less.hyps)
        show "\<forall>j \<le> i + 1 - length p. \<not> occurs_at s p j" using False less.prems(5) le by metis
      qed (use less.prems True in auto)
      then show ?thesis using False occ step by simp
    qed
  qed
qed

lemma indexRabinKarp_first:
  assumes "0 < length p" "length p \<le> length s"
  shows "\<exists>r. indexRabinKarp s p = Inr r \<and> is_first_index s p r"
proof -
  let ?n = "length p"
  have h: "foldl (\<lambda>h i. h * primeRK + ucast (s ! i)) 0 [0..<?n] = rk_hash (seg 0 ?n s)"
    using assms(2) by (rule foldl_hash_upt)
  have "occurs_at s p 0 \<longleftrightarrow> take ?n s = p" using assms(2) by (auto simp: occurs_at_def)
  then have "is_first_index s p (if take ?n s = p then 0
      else rk_loop s p (rk_hash p) (primeRK ^ ?n) ?n (rk_hash (take ?n s)))"
    using is_first_indexI [of s p 0] rk_loop_first [of p ?n s] assms by auto
  moreover have "indexRabinKarp s p = Inr (if take ?n s = p then 0
      else rk_loop s p (rk_hash p) (primeRK ^ ?n) ?n (rk_hash (take ?n s)))"
    unfolding indexRabinKarp_def hashStr_spec Let_def h using assms(2) by auto
  ultimately show ?thesis by blast
qed

lemma lastbyte_loop_spec:
  "i \<le> length s \<Longrightarrow> (\<And>j. i \<le> j \<Longrightarrow> \<not> occurs_at s [c] j) \<Longrightarrow> is_last_index s [c] (lastbyte_loop s c i)"
proof (induction i)
  case (Suc i)
  show ?case
  proof (cases "s ! i = c")
    case True
    then show ?thesis using Suc.prems by (auto simp: is_last_index_def occurs_at_nth)
  next
    case False
    then have "\<not> occurs_at s [c] j" if "i \<le> j" for j
      using Suc.prems(2) [of j] that by (cases "j = i") (auto simp: occurs_at_nth)
    then show ?thesis using Suc False by simp
  qed
qed (auto simp: is_last_index_def)

lemma LastIndexByte_last: "is_last_index s [c] (LastIndexByte s c)"
  unfolding LastIndexByte_def by (rule lastbyte_loop_spec) (auto simp: occurs_at_def)

lemma lastrk_loop_last:
  assumes "0 < length p" "i + length p \<le> length s"
    and "h = rk_hash (rev (seg i (i + length p) s))"
    and "\<forall>j \<ge> i. \<not> occurs_at s p j"
  shows "is_last_index s p (lastrk_loop s p (rk_hash (rev p)) (primeRK ^ length p) h i)"
  using assms
proof (induction i arbitrary: h)
  case 0
  then show ?case by (auto simp: is_last_index_def)
next
  case (Suc i)
  let ?n = "length p"
  have h': "h * primeRK + ucast (s ! i) - primeRK ^ ?n * ucast (s ! (i + ?n)) = rk_hash (rev (seg i (i + ?n) s))"
    using roll_window_back [of ?n i s] Suc.prems by simp
  have occ: "occurs_at s p i \<longleftrightarrow> seg i (i + ?n) s = p"
    using Suc.prems(2) by (auto simp: occurs_at_seg)
  have step: "lastrk_loop s p (rk_hash (rev p)) (primeRK ^ ?n) h (Suc i) =
      (if seg i (i + ?n) s = p then int i
       else lastrk_loop s p (rk_hash (rev p)) (primeRK ^ ?n) (rk_hash (rev (seg i (i + ?n) s))) i)"
    by (auto simp: Let_def h')
  show ?case
  proof (cases "occurs_at s p i")
    case True
    then show ?thesis using Suc.prems(4) occ unfolding step by (auto simp: is_last_index_def Suc_le_eq)
  next
    case False
    have "\<forall>j \<ge> i. \<not> occurs_at s p j"
    proof (intro allI impI)
      fix j assume "i \<le> j"
      then show "\<not> occurs_at s p j" using Suc.prems(4) False by (cases "j = i") auto
    qed
    then show ?thesis using False occ Suc.IH [OF Suc.prems(1) _ refl] Suc.prems(2) unfolding step by simp
  qed
qed

lemma LastIndex_last: "is_last_index s p (LastIndex s p)"
proof -
  let ?n = "length p"
  consider "?n = 0" | "?n = 1" | "1 < ?n" "?n = length s" | "length s < ?n" "1 < ?n"
    | "1 < ?n" "?n < length s" by linarith
  then show ?thesis
  proof cases
    case 1
    then show ?thesis by (auto simp: LastIndex_def is_last_index_def occurs_at_def)
  next
    case 2
    then have "p = [p ! 0]" by (auto simp: length_Suc_conv)
    then show ?thesis using LastIndexByte_last [of s "p ! 0"] 2 by (simp add: LastIndex_def)
  next
    case 3
    then have "occurs_at s p j \<longleftrightarrow> j = 0 \<and> p = s" for j by (auto simp: occurs_at_def)
    moreover have "p \<noteq> []" "s \<noteq> []" using 3 by auto
    moreover have "LastIndex s p = (if p = s then 0 else -1)" using 3 \<open>p \<noteq> []\<close> \<open>s \<noteq> []\<close> by (simp add: LastIndex_def Let_def)
    ultimately show ?thesis by (simp add: is_last_index_def)
  next
    case 4
    then have "\<not> occurs_at s p j" for j by (simp add: occurs_at_def)
    moreover have "p \<noteq> []" using 4 by auto
    ultimately show ?thesis using 4 by (simp add: LastIndex_def Let_def is_last_index_def)
  next
    case 5
    let ?l = "length s - ?n"
    have h: "foldl (\<lambda>h i. h * primeRK + ucast (s ! i)) 0 (rev [?l..<length s]) = rk_hash (rev (seg ?l (length s) s))"
      by (rule foldl_hash_rev) simp
    have def: "LastIndex s p = (if drop ?l s = p then int ?l
        else lastrk_loop s p (rk_hash (rev p)) (primeRK ^ ?n) (rk_hash (rev (drop ?l s))) ?l)"
      using 5 unfolding LastIndex_def Let_def hashStrRev_spec h by auto
    have occ: "occurs_at s p ?l \<longleftrightarrow> drop ?l s = p" using 5 by (auto simp: occurs_at_def)
    have beyond: "\<not> occurs_at s p j" if "?l < j" for j
      using that occurs_at_bound [of s p j] by auto
    show ?thesis
    proof (cases "occurs_at s p ?l")
      case True
      then show ?thesis using beyond occ by (simp add: def is_last_index_def)
    next
      case False
      have "is_last_index s p (lastrk_loop s p (rk_hash (rev p)) (primeRK ^ ?n) (rk_hash (rev (drop ?l s))) ?l)"
      proof (rule lastrk_loop_last)
        show "\<forall>j \<ge> ?l. \<not> occurs_at s p j" using False beyond by (metis le_eq_less_or_eq)
      qed (use 5 in auto)
      then show ?thesis using False occ by (simp add: def)
    qed
  qed
qed

section \<open>\<open>Index\<close> finds the first occurrence\<close>

text \<open>What both loops do with \<open>IndexByte\<close>: skip to the next place the first byte occurs.\<close>

lemma skip_to_c0:
  fixes s p :: bytes and i :: nat
  defines "t \<equiv> length s - length p + 1"
  assumes "i < t" "length p \<le> length s" "0 < length p"
  defines "o' \<equiv> if s ! i \<noteq> p ! 0 then strings_IndexByte (seg i t s) (p ! 0) else 0"
  shows "o' < 0 \<Longrightarrow> \<forall>j \<ge> i. \<not> occurs_at s p j"
    and "0 \<le> o' \<Longrightarrow> i + nat o' < t \<and> (\<forall>j. i \<le> j \<longrightarrow> j < i + nat o' \<longrightarrow> \<not> occurs_at s p j)"
proof -
  have t: "t \<le> length s" using assms(3,4) unfolding t_def by linarith
  have hd: "s ! j = p ! 0" if "occurs_at s p j" for j
    using that assms(4) by (auto simp: occurs_at_nth)
  have lt: "j < t" if "occurs_at s p j" for j
    using occurs_at_bound [OF that] by (simp add: t_def)
  have first: "is_first_index (seg i t s) [p ! 0] o'" if "s ! i \<noteq> p ! 0"
    using IndexByteString_first [of "seg i t s" "p ! 0"] that by (simp add: o'_def strings_IndexByte_def)
  have at: "occurs_at (seg i t s) [p ! 0] (j - i)" if "occurs_at s p j" "i \<le> j" for j
    using that hd [OF that(1)] lt [OF that(1)] t by (simp add: occurs_at_nth nth_seg)
  show "\<forall>j \<ge> i. \<not> occurs_at s p j" if "o' < 0"
    using first that at by (auto simp: is_first_index_def o'_def split: if_splits)
  show "i + nat o' < t \<and> (\<forall>j. i \<le> j \<longrightarrow> j < i + nat o' \<longrightarrow> \<not> occurs_at s p j)" if nn: "0 \<le> o'"
  proof (cases "s ! i = p ! 0")
    case True
    then show ?thesis using assms(2) by (simp add: o'_def)
  next
    case False
    then have f: "occurs_at (seg i t s) [p ! 0] (nat o')" "\<forall>j < nat o'. \<not> occurs_at (seg i t s) [p ! 0] j"
      using first nn by (auto simp: is_first_index_def)
    have "nat o' < t - i" using occurs_at_bound [OF f(1)] t by simp
    moreover have "\<not> occurs_at s p j" if "i \<le> j" "j < i + nat o'" for j
      using f(2) at [of j] that by (metis less_diff_conv2 add.commute)
    ultimately show ?thesis by auto
  qed
qed

lemma match_here_spec:
  assumes "i + length p \<le> length s" "2 \<le> length p"
  shows "match_here s p (p ! 1) i = Inr (occurs_at s p i)"
proof -
  have "s ! (i + 1) = p ! 1" if "occurs_at s p i"
    using that assms(2) unfolding occurs_at_nth by (elim conjE allE [of _ 1]) simp
  then show ?thesis using assms by (auto simp: match_here_def occurs_at_seg)
qed

lemma first_index_drop:
  assumes "is_first_index (drop i s) p r" "i \<le> length s" "\<forall>j < i. \<not> occurs_at s p j"
  shows "is_first_index s p (if r \<ge> 0 then r + int i else -1)"
  using assms(1)
proof (cases rule: is_first_index_cases)
  case (found k)
  have "occurs_at s p (i + k)" using found(2) assms(2) by (simp add: occurs_at_drop)
  moreover have "\<not> occurs_at s p j" if "j < i + k" for j
    using found(3) [of "j - i"] assms that by (cases "j < i") (auto simp: occurs_at_drop)
  ultimately have "is_first_index s p (int (i + k))" by (rule is_first_indexI)
  then show ?thesis using found(1) by (simp add: add.commute)
next
  case absent
  have "\<not> occurs_at s p j" for j
    using absent(2) [of "j - i"] assms by (cases "j < i") (auto simp: occurs_at_drop)
  then show ?thesis using absent(1) is_first_index_none [of s p] by simp
qed

lemma no_occ_at_end:
  "(\<And>j. j < i \<Longrightarrow> \<not> occurs_at s p j) \<Longrightarrow> length s - length p + 1 \<le> i \<Longrightarrow> is_first_index s p (-1)"
proof (rule is_first_index_none)
  fix j assume a: "\<And>j. j < i \<Longrightarrow> \<not> occurs_at s p j" "length s - length p + 1 \<le> i"
  show "\<not> occurs_at s p j"
  proof
    assume "occurs_at s p j"
    then have "j < i" using a(2) occurs_at_bound [of s p j] by linarith
    then show False using a(1) \<open>occurs_at s p j\<close> by blast
  qed
qed

lemma index_long_first:
  assumes "2 \<le> length p" "length p \<le> length s" "\<And>j. j < i \<Longrightarrow> \<not> occurs_at s p j"
  shows "\<exists>r. index_long s p (p ! 0) (p ! 1) i fails = Inr r \<and> is_first_index s p r"
  using assms(3)
proof (induction "length s - length p + 1 - i" arbitrary: i fails rule: less_induct)
  case less
  let ?t = "length s - length p + 1"
  show ?case
  proof (cases "i < ?t")
    case False
    then show ?thesis
      using no_occ_at_end [OF less.prems] by (subst index_long.simps) simp
  next
    case True
    define o' where "o' = (if s ! i \<noteq> p ! 0 then strings_IndexByte (seg i ?t s) (p ! 0) else 0)"
    have p0: "0 < length p" using assms(1) by linarith
    note skip = skip_to_c0 [OF True assms(2) p0, folded o'_def]
    have ilt: "i < length s" using True assms(2) p0 by linarith
    show ?thesis
    proof (cases "o' < 0")
      case neg: True
      have "\<not> occurs_at s p j" for j using skip(1) [OF neg] less.prems by (cases "j < i") auto
      then have "is_first_index s p (-1)" by (rule is_first_index_none)
      moreover have "index_long s p (p ! 0) (p ! 1) i fails = Inr (-1)"
        using True ilt neg by (subst index_long.simps) (simp only: Let_def if_True if_False go_nth_ok go_bind.simps flip: o'_def)
      ultimately show ?thesis by blast
    next
      case False
      define k where "k = i + nat o'"
      have sk: "k < ?t \<and> (\<forall>j. i \<le> j \<longrightarrow> j < k \<longrightarrow> \<not> occurs_at s p j)"
        using skip(2) False not_less unfolding k_def by blast
      have k: "k < ?t" "\<And>j. j < k \<Longrightarrow> \<not> occurs_at s p j"
        using sk less.prems not_less by blast+
      have m: "match_here s p (p ! 1) k = Inr (occurs_at s p k)"
        by (rule match_here_spec) (use k assms in auto)
      have step: "index_long s p (p ! 0) (p ! 1) i fails =
        (if occurs_at s p k then Inr (int k)
         else if fails + 1 \<ge> 4 + (k + 1) div 16 \<and> k + 1 < ?t
           then go_bind (indexRabinKarp (drop (k + 1) s) p) (\<lambda>j. if j < 0 then Inr (-1) else Inr (int (k + 1) + j))
         else index_long s p (p ! 0) (p ! 1) (k + 1) (fails + 1))"
        using True ilt False m
        by (subst index_long.simps) (simp only: Let_def if_True if_False go_nth_ok go_bind.simps
            flip: o'_def k_def)
      show ?thesis
      proof (cases "occurs_at s p k")
        case True
        then show ?thesis using is_first_indexI [OF True k(2)] unfolding step by simp
      next
        case nk: False
        have none: "\<not> occurs_at s p j" if "j < k + 1" for j
          using that nk k(2) by (cases "j = k") auto
        show ?thesis
        proof (cases "fails + 1 \<ge> 4 + (k + 1) div 16 \<and> k + 1 < ?t")
          case rk: True
          have kl: "k + 1 \<le> length s" "length p \<le> length (drop (k + 1) s)" using rk assms(2) by auto
          obtain r where r: "indexRabinKarp (drop (k + 1) s) p = Inr r" "is_first_index (drop (k + 1) s) p r"
            using indexRabinKarp_first [OF p0 kl(2)] by blast
          have "is_first_index s p (if r \<ge> 0 then r + int (k + 1) else -1)"
            using first_index_drop [OF r(2) kl(1)] none by blast
          then show ?thesis using r(1) nk rk unfolding step by (auto simp: add.commute split: if_splits)
        next
          case nrk: False
          have "?t - (k + 1) < ?t - i" using True k(1) by (simp add: k_def)
          from less.hyps [OF this, of "fails + 1"] none nk nrk show ?thesis unfolding step by auto
        qed
      qed
    qed
  qed
qed

context bytealg
begin

lemma index_short_first:
  assumes "2 \<le> length p" "length p \<le> MaxLen ops" "length p \<le> length s"
    and "\<And>j. j < i \<Longrightarrow> \<not> occurs_at s p j"
  shows "\<exists>r. index_short ops s p (p ! 0) (p ! 1) i fails = Inr r \<and> is_first_index s p r"
  using assms(4)
proof (induction "length s - length p + 1 - i" arbitrary: i fails rule: less_induct)
  case less
  let ?t = "length s - length p + 1"
  show ?case
  proof (cases "i < ?t")
    case False
    then show ?thesis
      using no_occ_at_end [OF less.prems] by (subst index_short.simps) simp
  next
    case True
    define o' where "o' = (if s ! i \<noteq> p ! 0 then strings_IndexByte (seg i ?t s) (p ! 0) else 0)"
    have p0: "0 < length p" using assms(1) by linarith
    note skip = skip_to_c0 [OF True assms(3) p0, folded o'_def]
    have ilt: "i < length s" using True assms(3) p0 by linarith
    show ?thesis
    proof (cases "o' < 0")
      case neg: True
      have "\<not> occurs_at s p j" for j using skip(1) [OF neg] less.prems by (cases "j < i") auto
      then have "is_first_index s p (-1)" by (rule is_first_index_none)
      moreover have "index_short ops s p (p ! 0) (p ! 1) i fails = Inr (-1)"
        using True ilt neg by (subst index_short.simps) (simp only: Let_def if_True if_False go_nth_ok go_bind.simps flip: o'_def)
      ultimately show ?thesis by blast
    next
      case False
      define k where "k = i + nat o'"
      have sk: "k < ?t \<and> (\<forall>j. i \<le> j \<longrightarrow> j < k \<longrightarrow> \<not> occurs_at s p j)"
        using skip(2) False not_less unfolding k_def by blast
      have k: "k < ?t" "\<And>j. j < k \<Longrightarrow> \<not> occurs_at s p j"
        using sk less.prems not_less by blast+
      have m: "match_here s p (p ! 1) k = Inr (occurs_at s p k)"
        by (rule match_here_spec) (use k assms in auto)
      have "2 \<le> MaxLen ops" using assms(1,2) by linarith
      then obtain limit where limit: "Cutover ops (k + 1) = Inr limit" using cutover by blast
      have step: "index_short ops s p (p ! 0) (p ! 1) i fails =
        (if occurs_at s p k then Inr (int k)
         else if fails + 1 > limit
           then go_bind (IndexString ops (drop (k + 1) s) p) (\<lambda>r. if r \<ge> 0 then Inr (r + int (k + 1)) else Inr (-1))
         else index_short ops s p (p ! 0) (p ! 1) (k + 1) (fails + 1))"
        using True ilt False m limit
        by (subst index_short.simps) (simp only: Let_def if_True if_False go_nth_ok go_bind.simps
            flip: o'_def k_def)
      show ?thesis
      proof (cases "occurs_at s p k")
        case True
        then show ?thesis using is_first_indexI [OF True k(2)] unfolding step by simp
      next
        case nk: False
        have none: "\<not> occurs_at s p j" if "j < k + 1" for j
          using that nk k(2) by (cases "j = k") auto
        show ?thesis
        proof (cases "fails + 1 > limit")
          case over: True
          have kl: "k + 1 \<le> length s" using k(1) p0 assms(3) by linarith
          obtain r where r: "IndexString ops (drop (k + 1) s) p = Inr r" "is_first_index (drop (k + 1) s) p r"
            using index_string_first [OF assms(1,2)] by blast
          have "is_first_index s p (if r \<ge> 0 then r + int (k + 1) else -1)"
            using first_index_drop [OF r(2) kl] none by blast
          then show ?thesis using r(1) nk over unfolding step by (auto split: if_splits)
        next
          case nover: False
          have "?t - (k + 1) < ?t - i" using True k(1) by (simp add: k_def)
          from less.hyps [OF this, of "fails + 1"] none nk nover show ?thesis unfolding step by auto
        qed
      qed
    qed
  qed
qed

lemma Index_first: "\<exists>r. Index ops s p = Inr r \<and> is_first_index s p r"
proof -
  let ?n = "length p"
  consider "?n = 0" | "?n = 1" | "2 \<le> ?n" "?n = length s" | "2 \<le> ?n" "length s < ?n"
    | "2 \<le> ?n" "?n < length s" by linarith
  then show ?thesis
  proof cases
    case 1
    then show ?thesis by (auto simp: Index_def is_first_index_def occurs_at_def)
  next
    case 2
    then have "p = [p ! 0]" by (auto simp: length_Suc_conv)
    then show ?thesis using IndexByteString_first [of s "p ! 0"] 2
      by (simp add: Index_def strings_IndexByte_def)
  next
    case 3
    then have "occurs_at s p j \<longleftrightarrow> j = 0 \<and> p = s" for j by (auto simp: occurs_at_def)
    moreover have "p \<noteq> []" "s \<noteq> []" using 3 by auto
    moreover have "Index ops s p = Inr (if p = s then 0 else -1)" using 3 \<open>p \<noteq> []\<close> \<open>s \<noteq> []\<close> by (simp add: Index_def Let_def)
    ultimately show ?thesis by (simp add: is_first_index_def)
  next
    case 4
    then have "\<not> occurs_at s p j" for j by (simp add: occurs_at_def)
    moreover have "p \<noteq> []" using 4 by auto
    ultimately show ?thesis using 4 by (simp add: Index_def Let_def is_first_index_def)
  next
    case 5
    then have "p \<noteq> []" by auto
    with 5 have d: "Index ops s p = (if ?n \<le> MaxLen ops then
        if length s \<le> MaxBruteForce ops then IndexString ops s p
        else index_short ops s p (p ! 0) (p ! 1) 0 0
      else index_long s p (p ! 0) (p ! 1) 0 0)"
      using \<open>p \<noteq> []\<close> by (simp add: Index_def Let_def)
    show ?thesis
      unfolding d using 5 index_string_first [of p s] index_short_first [of p s 0 0]
        index_long_first [of p s 0 0] by simp
  qed
qed

end

section \<open>Counting\<close>

text \<open>The reference: scan from the left, and skip the whole substring when it is found.\<close>

function greedy_count :: "bytes \<Rightarrow> bytes \<Rightarrow> nat" where
  "greedy_count p s =
     (if p = [] \<or> s = [] then 0
      else if HasPrefix s p then Suc (greedy_count p (drop (length p) s))
      else greedy_count p (tl s))"
  by pat_completeness auto
termination by (relation "measure (\<lambda>(p, s). length s)") auto

declare greedy_count.simps [simp del]

lemma HasPrefix_occurs: "HasPrefix s p \<longleftrightarrow> occurs_at s p 0"
  by (auto simp: HasPrefix_def occurs_at_def)

lemma greedy_count_skip:
  assumes "p \<noteq> []" "i \<le> length s" "\<forall>j < i. \<not> occurs_at s p j"
  shows "greedy_count p s = greedy_count p (drop i s)"
  using assms(2,3)
proof (induction i)
  case (Suc i)
  then have "greedy_count p s = greedy_count p (drop i s)" by simp
  also have "\<dots> = greedy_count p (tl (drop i s))"
    using Suc.prems assms(1) by (subst greedy_count.simps) (auto simp: HasPrefix_occurs occurs_at_drop)
  finally show ?case by (simp add: drop_Suc tl_drop)
qed simp

lemma greedy_count_index:
  assumes "p \<noteq> []" "is_first_index s p r"
  shows "greedy_count p s =
    (if r = -1 then 0 else Suc (greedy_count p (drop (nat (r + int (length p))) s)))"
  using assms(2)
proof (cases rule: is_first_index_cases)
  case (found i)
  have i: "i \<le> length s" using occurs_at_bound [OF found(2)] by simp
  have "HasPrefix (drop i s) p" using found(2) i by (simp add: HasPrefix_occurs occurs_at_drop)
  have "0 < length p" using assms(1) by simp
  then have "i < length s" using occurs_at_bound [OF found(2)] by linarith
  then have "drop i s \<noteq> []" by simp
  with \<open>HasPrefix (drop i s) p\<close> have "greedy_count p (drop i s) = Suc (greedy_count p (drop (i + length p) s))"
    using assms(1) by (subst greedy_count.simps) (simp add: add.commute)
  then show ?thesis
    using greedy_count_skip [OF assms(1) i] found by (simp add: nat_add_distrib)
next
  case absent
  have "greedy_count p s = greedy_count p (drop (length s) s)"
    by (rule greedy_count_skip [OF assms(1) le_refl]) (use absent in auto)
  then show ?thesis using absent by (simp add: greedy_count.simps)
qed

lemma greedy_count_single: "greedy_count [c] s = length (filter (\<lambda>x. x = c) s)"
  by (induction s) (simp_all add: greedy_count.simps HasPrefix_def)

context bytealg
begin

lemma count_loop_greedy:
  "p \<noteq> [] \<Longrightarrow> count_loop ops s p n = Some (Inr (n + greedy_count p s))"
proof (induction "length s" arbitrary: s n rule: less_induct)
  case less
  obtain r where r: "Index ops s p = Inr r" "is_first_index s p r" using Index_first by blast
  note g = greedy_count_index [OF less.prems r(2)]
  show ?case
  proof (cases "r = -1")
    case True
    then show ?thesis using r(1) g by (subst count_loop.simps) simp
  next
    case False
    with r(2) obtain i where i: "r = int i" "occurs_at s p i" by (cases rule: is_first_index_cases) auto
    have b: "i + length p \<le> length s" using occurs_at_bound [OF i(2)] .
    have k: "nat (r + int (length p)) = i + length p" using i(1) by simp
    have "length (drop (i + length p) s) < length s"
      using b less.prems by (auto simp: length_greater_0_conv [symmetric] simp del: length_greater_0_conv)
    then have "count_loop ops (drop (i + length p) s) p (n + 1)
        = Some (Inr (n + 1 + greedy_count p (drop (i + length p) s)))"
      by (rule less.hyps) (rule less.prems)
    then show ?thesis
      using r(1) g b k unfolding i(1) by (subst count_loop.simps) (simp add: Let_def)
  qed
qed

lemma Count_spec:
  "strings_Count ops s p = Some (Inr (if p = [] then length (runes_of s) + 1 else greedy_count p s))"
proof (cases "length p = 1")
  case True
  then obtain c where "p = [c]" by (auto simp: length_Suc_conv)
  then show ?thesis by (simp add: strings_Count_def greedy_count_single CountString_filter)
next
  case False
  then show ?thesis
    by (simp add: strings_Count_def count_loop_greedy RuneCountInString_def RuneCountInString_loop_runes)
qed

end

section \<open>Properties\<close>

text \<open>
  C20: \<open>strings.Index\<close> never panics and returns the index of the first occurrence of the substring
  (\<open>-1\<close> if there is none), whichever strategy it takes: byte scan, brute force, the scan that falls
  back to the architecture's \<open>IndexString\<close>, or the one that falls back to Rabin--Karp.  All that is
  assumed of the architecture is the documented contract of \<open>internal/bytealg\<close>.
\<close>

theorem strings_Index_first:
  assumes "bytealg ops"
  shows "\<exists>r. Index ops s substr = Inr r \<and> is_first_index s substr r"
  using assms by (rule bytealg.Index_first)

theorem strings_Index_first_witness:
  "\<exists>r. Index (amd64_ops True index_spec index_spec) [1, 2, 3, 1, 2, 3] [2, 3] = Inr r
     \<and> is_first_index [1, 2, 3, 1, 2, 3 :: byte] [2, 3] r"
  by (rule strings_Index_first) (rule amd64.bytealg_axioms)

text \<open>
  \<open>strings.LastIndex\<close> (a Rabin--Karp search from the back) returns the index of the last
  occurrence, \<open>-1\<close> if there is none and \<open>len(s)\<close> for the empty substring.
\<close>

theorem strings_LastIndex_last: "is_last_index s substr (LastIndex s substr)"
  by (rule LastIndex_last)

text \<open>
  \<open>strings.Count\<close> terminates, never panics and returns the number of non-overlapping occurrences
  found from the left; for the empty substring it is one more than the number of runes.
\<close>

theorem strings_Count_greedy:
  assumes "bytealg ops"
  shows "strings_Count ops s substr =
    Some (Inr (if substr = [] then RuneCountInString s + 1 else greedy_count substr s))"
  using bytealg.Count_spec [OF assms] by (simp add: RuneCountInString_def RuneCountInString_loop_runes)

theorem strings_Count_greedy_witness:
  "strings_Count (arm64_ops index_spec index_spec) [5, 5, 5, 5, 5] [5, 5] =
    Some (Inr (if [5, 5] = ([] :: bytes) then RuneCountInString [5, 5, 5, 5, 5] + 1
      else greedy_count [5, 5] [5, 5, 5, 5, 5]))"
  by (rule strings_Count_greedy) (rule arm64.bytealg_axioms)

end
