(* ===== verification/UnicodeLetter.thy ===== *)
theory UnicodeLetter
  imports Prelude
begin

text \<open>
  Package \<open>unicode\<close>: range tables and case mapping (\<open>letter.go\<close>, \<open>graphic.go\<close>, \<open>digit.go\<close>).  The
  generated data of \<open>tables.go\<close> is the record \<open>unicode_data\<close>, an argument of every routine that
  reads it; the small table \<open>White_Space\<close> is transcribed.  Runes are signed 32-bit values, and the
  conversions \<open>uint16(r)\<close> and \<open>rune(x)\<close> are the truncating and widening casts of the language.
\<close>

record 'w ranges =
  Lo :: 'w
  Hi :: 'w
  Stride :: 'w

record RangeTable =
  R16 :: "16 word ranges list"
  R32 :: "32 word ranges list"
  LatinOffset :: nat

record CaseRange =
  caseLo :: u32
  caseHi :: u32
  Delta :: "rune list"

record unicode_data =
  properties :: "byte list"
  Upper :: RangeTable
  Lower :: RangeTable
  Title :: RangeTable
  Letter :: RangeTable
  Mark :: RangeTable
  Number :: RangeTable
  Digit :: RangeTable
  Punct :: RangeTable
  Symbol :: RangeTable
  Zs :: RangeTable
  CaseRanges :: "CaseRange list"
  asciiFold :: "16 word list"
  caseOrbit :: "(16 word \<times> 16 word) list"

definition linearMax :: nat where [simp]: "linearMax = 18"
definition MaxLatin1 :: nat where [simp]: "MaxLatin1 = 0xFF"
definition MaxASCII :: rune where [simp]: "MaxASCII = 0x7F"
definition unicode_MaxRune :: rune where [simp]: "unicode_MaxRune = 0x10FFFF"
definition ReplacementChar :: rune where [simp]: "ReplacementChar = 0xFFFD"

definition UpperCase :: int where [simp]: "UpperCase = 0"
definition LowerCase :: int where [simp]: "LowerCase = 1"
definition TitleCase :: int where [simp]: "TitleCase = 2"
definition MaxCase :: int where [simp]: "MaxCase = 3"
definition UpperLower :: rune where [simp]: "UpperLower = unicode_MaxRune + 1"

section \<open>Range tables\<close>

definition hits :: "'w::len word \<Rightarrow> 'w word ranges \<Rightarrow> bool" where
  "hits r x \<longleftrightarrow> Stride x = 1 \<or> (r - Lo x) mod Stride x = 0"

fun linear_search :: "'w::len word ranges list \<Rightarrow> 'w word \<Rightarrow> bool" where
  "linear_search [] r = False"
| "linear_search (x # xs) r =
     (if r < Lo x then False
      else if r \<le> Hi x then hits r x
      else linear_search xs r)"

function range_bsearch :: "'w::len word ranges list \<Rightarrow> 'w word \<Rightarrow> nat \<Rightarrow> nat \<Rightarrow> bool" where
  "range_bsearch xs r lo hi =
     (if lo < hi then
        let m = lo + (hi - lo) div 2; x = xs ! m in
        if Lo x \<le> r \<and> r \<le> Hi x then hits r x
        else if r < Lo x then range_bsearch xs r lo m
        else range_bsearch xs r (m + 1) hi
      else False)"
  by pat_completeness auto
termination by (relation "measure (\<lambda>(_, _, lo, hi). hi - lo)") auto

declare range_bsearch.simps [simp del]
lemmas range_bsearch_simps [loop_unfold] = range_bsearch.simps

definition is16 :: "16 word ranges list \<Rightarrow> 16 word \<Rightarrow> bool" where
  "is16 xs r =
     (if length xs \<le> linearMax \<or> r \<le> of_nat MaxLatin1 then linear_search xs r
      else range_bsearch xs r 0 (length xs))"

definition is32 :: "32 word ranges list \<Rightarrow> u32 \<Rightarrow> bool" where
  "is32 xs r =
     (if length xs \<le> linearMax then linear_search xs r
      else range_bsearch xs r 0 (length xs))"

definition unicode_Is :: "RangeTable \<Rightarrow> rune \<Rightarrow> bool" where
  "unicode_Is tab r =
     (let r16 = R16 tab in
      if length r16 > 0 \<and> r \<le>s ucast (Hi (r16 ! (length r16 - 1))) then is16 r16 (ucast r)
      else let r32 = R32 tab in
      if length r32 > 0 \<and> Lo (r32 ! 0) \<le>s r then is32 r32 r
      else False)"

definition isExcludingLatin :: "RangeTable \<Rightarrow> rune \<Rightarrow> bool" where
  "isExcludingLatin tab r =
     (let r16 = R16 tab; off = LatinOffset tab in
      if length r16 > off \<and> r \<le>s ucast (Hi (r16 ! (length r16 - 1)))
      then is16 (drop off r16) (ucast r)
      else let r32 = R32 tab in
      if length r32 > 0 \<and> Lo (r32 ! 0) \<le>s r then is32 r32 r
      else False)"

definition White_Space :: RangeTable where
  "White_Space = \<lparr>R16 =
     [\<lparr>Lo = 0x0009, Hi = 0x000d, Stride = 1\<rparr>,
      \<lparr>Lo = 0x0020, Hi = 0x0085, Stride = 101\<rparr>,
      \<lparr>Lo = 0x00a0, Hi = 0x1680, Stride = 5600\<rparr>,
      \<lparr>Lo = 0x2000, Hi = 0x200a, Stride = 1\<rparr>,
      \<lparr>Lo = 0x2028, Hi = 0x2029, Stride = 1\<rparr>,
      \<lparr>Lo = 0x202f, Hi = 0x205f, Stride = 48\<rparr>,
      \<lparr>Lo = 0x3000, Hi = 0x3000, Stride = 1\<rparr>],
     R32 = [], LatinOffset = 2\<rparr>"


section \<open>Classification\<close>

definition pC :: byte where [simp]: "pC = 0x01"
definition pP :: byte where [simp]: "pP = 0x02"
definition pN :: byte where [simp]: "pN = 0x04"
definition pS :: byte where [simp]: "pS = 0x08"
definition pZ :: byte where [simp]: "pZ = 0x10"
definition pLu :: byte where [simp]: "pLu = 0x20"
definition pLl :: byte where [simp]: "pLl = 0x40"
definition pp :: byte where [simp]: "pp = 0x80"
definition pg :: byte where [simp]: "pg = pp OR pZ"
definition pLo :: byte where [simp]: "pLo = pLl OR pLu"
definition pLmask :: byte where [simp]: "pLmask = pLo"

text \<open>The test \<open>uint32(r) <= MaxLatin1\<close>, and the table entry it guards.\<close>

definition is_latin1 :: "rune \<Rightarrow> bool" where
  "is_latin1 r \<longleftrightarrow> r \<le> of_nat MaxLatin1"

definition property_of :: "unicode_data \<Rightarrow> rune \<Rightarrow> byte" where
  "property_of u r = properties u ! unat (ucast r :: byte)"

definition IsUpper :: "unicode_data \<Rightarrow> rune \<Rightarrow> bool" where
  "IsUpper u r = (if is_latin1 r then property_of u r AND pLmask = pLu else isExcludingLatin (Upper u) r)"

definition IsLower :: "unicode_data \<Rightarrow> rune \<Rightarrow> bool" where
  "IsLower u r = (if is_latin1 r then property_of u r AND pLmask = pLl else isExcludingLatin (Lower u) r)"

definition IsTitle :: "unicode_data \<Rightarrow> rune \<Rightarrow> bool" where
  "IsTitle u r = (if r \<le>s of_nat MaxLatin1 then False else isExcludingLatin (Title u) r)"

definition unicode_In :: "rune \<Rightarrow> RangeTable list \<Rightarrow> bool" where
  "unicode_In r tabs = foldr (\<lambda>inside rest. if unicode_Is inside r then True else rest) tabs False"

definition IsOneOf :: "RangeTable list \<Rightarrow> rune \<Rightarrow> bool" where
  "IsOneOf tabs r = foldr (\<lambda>inside rest. if unicode_Is inside r then True else rest) tabs False"

definition GraphicRanges :: "unicode_data \<Rightarrow> RangeTable list" where
  "GraphicRanges u = [Letter u, Mark u, Number u, Punct u, Symbol u, Zs u]"

definition PrintRanges :: "unicode_data \<Rightarrow> RangeTable list" where
  "PrintRanges u = [Letter u, Mark u, Number u, Punct u, Symbol u]"

definition IsGraphic :: "unicode_data \<Rightarrow> rune \<Rightarrow> bool" where
  "IsGraphic u r = (if is_latin1 r then property_of u r AND pg \<noteq> 0 else unicode_In r (GraphicRanges u))"

definition IsPrint :: "unicode_data \<Rightarrow> rune \<Rightarrow> bool" where
  "IsPrint u r = (if is_latin1 r then property_of u r AND pp \<noteq> 0 else unicode_In r (PrintRanges u))"

definition IsControl :: "unicode_data \<Rightarrow> rune \<Rightarrow> bool" where
  "IsControl u r = (if is_latin1 r then property_of u r AND pC \<noteq> 0 else False)"

definition IsLetter :: "unicode_data \<Rightarrow> rune \<Rightarrow> bool" where
  "IsLetter u r = (if is_latin1 r then property_of u r AND pLmask \<noteq> 0 else isExcludingLatin (Letter u) r)"

definition IsMark :: "unicode_data \<Rightarrow> rune \<Rightarrow> bool" where
  "IsMark u r = isExcludingLatin (Mark u) r"

definition IsNumber :: "unicode_data \<Rightarrow> rune \<Rightarrow> bool" where
  "IsNumber u r = (if is_latin1 r then property_of u r AND pN \<noteq> 0 else isExcludingLatin (Number u) r)"

definition IsPunct :: "unicode_data \<Rightarrow> rune \<Rightarrow> bool" where
  "IsPunct u r = (if is_latin1 r then property_of u r AND pP \<noteq> 0 else unicode_Is (Punct u) r)"

definition IsSpace :: "rune \<Rightarrow> bool" where
  "IsSpace r =
     (if is_latin1 r then r \<in> {0x09, 0x0A, 0x0B, 0x0C, 0x0D, 0x20, 0x85, 0xA0}
      else isExcludingLatin White_Space r)"

definition IsSymbol :: "unicode_data \<Rightarrow> rune \<Rightarrow> bool" where
  "IsSymbol u r = (if is_latin1 r then property_of u r AND pS \<noteq> 0 else isExcludingLatin (Symbol u) r)"

definition IsDigit :: "unicode_data \<Rightarrow> rune \<Rightarrow> bool" where
  "IsDigit u r =
     (if r \<le>s of_nat MaxLatin1 then 0x30 \<le>s r \<and> r \<le>s 0x39 else isExcludingLatin (Digit u) r)"


section \<open>Case mapping\<close>

definition mapped_rune :: "int \<Rightarrow> rune \<Rightarrow> CaseRange \<Rightarrow> rune" where
  "mapped_rune c r cr =
     (let delta = Delta cr ! nat c in
      if unicode_MaxRune <s delta
      then caseLo cr + (((r - caseLo cr) AND NOT 1) OR (of_int c AND 1))
      else r + delta)"

function case_bsearch :: "int \<Rightarrow> rune \<Rightarrow> CaseRange list \<Rightarrow> nat \<Rightarrow> nat \<Rightarrow> rune \<times> bool" where
  "case_bsearch c r cs lo hi =
     (if lo < hi then
        let m = lo + (hi - lo) div 2; cr = cs ! m in
        if caseLo cr \<le>s r \<and> r \<le>s caseHi cr then (mapped_rune c r cr, True)
        else if r <s caseLo cr then case_bsearch c r cs lo m
        else case_bsearch c r cs (m + 1) hi
      else (r, False))"
  by pat_completeness auto
termination by (relation "measure (\<lambda>(_, _, _, lo, hi). hi - lo)") auto

declare case_bsearch.simps [simp del]
lemmas case_bsearch_simps [loop_unfold] = case_bsearch.simps

definition case_to :: "int \<Rightarrow> rune \<Rightarrow> CaseRange list \<Rightarrow> rune \<times> bool" where
  "case_to c r cs =
     (if c < 0 \<or> MaxCase \<le> c then (ReplacementChar, False)
      else case_bsearch c r cs 0 (length cs))"

definition unicode_To :: "unicode_data \<Rightarrow> int \<Rightarrow> rune \<Rightarrow> rune" where
  "unicode_To u c r = fst (case_to c r (CaseRanges u))"

definition unicode_ToUpper :: "unicode_data \<Rightarrow> rune \<Rightarrow> rune" where
  "unicode_ToUpper u r =
     (if r \<le>s MaxASCII then (if 0x61 \<le>s r \<and> r \<le>s 0x7A then r - 0x20 else r)
      else unicode_To u UpperCase r)"

definition unicode_ToLower :: "unicode_data \<Rightarrow> rune \<Rightarrow> rune" where
  "unicode_ToLower u r =
     (if r \<le>s MaxASCII then (if 0x41 \<le>s r \<and> r \<le>s 0x5A then r + 0x20 else r)
      else unicode_To u LowerCase r)"

definition unicode_ToTitle :: "unicode_data \<Rightarrow> rune \<Rightarrow> rune" where
  "unicode_ToTitle u r =
     (if r \<le>s MaxASCII then (if 0x61 \<le>s r \<and> r \<le>s 0x7A then r - 0x20 else r)
      else unicode_To u TitleCase r)"

definition Special_ToUpper :: "unicode_data \<Rightarrow> CaseRange list \<Rightarrow> rune \<Rightarrow> rune" where
  "Special_ToUpper u special r =
     (let (r1, hadMapping) = case_to UpperCase r special in
      if r1 = r \<and> \<not> hadMapping then unicode_ToUpper u r else r1)"

definition Special_ToTitle :: "unicode_data \<Rightarrow> CaseRange list \<Rightarrow> rune \<Rightarrow> rune" where
  "Special_ToTitle u special r =
     (let (r1, hadMapping) = case_to TitleCase r special in
      if r1 = r \<and> \<not> hadMapping then unicode_ToTitle u r else r1)"

definition Special_ToLower :: "unicode_data \<Rightarrow> CaseRange list \<Rightarrow> rune \<Rightarrow> rune" where
  "Special_ToLower u special r =
     (let (r1, hadMapping) = case_to LowerCase r special in
      if r1 = r \<and> \<not> hadMapping then unicode_ToLower u r else r1)"

function orbit_bsearch :: "(16 word \<times> 16 word) list \<Rightarrow> rune \<Rightarrow> nat \<Rightarrow> nat \<Rightarrow> nat" where
  "orbit_bsearch orbit r lo hi =
     (if lo < hi then
        let m = lo + (hi - lo) div 2 in
        if (ucast (fst (orbit ! m)) :: rune) <s r then orbit_bsearch orbit r (m + 1) hi
        else orbit_bsearch orbit r lo m
      else lo)"
  by pat_completeness auto
termination by (relation "measure (\<lambda>(_, _, lo, hi). hi - lo)") auto

declare orbit_bsearch.simps [simp del]
lemmas orbit_bsearch_simps [loop_unfold] = orbit_bsearch.simps

definition SimpleFold :: "unicode_data \<Rightarrow> rune \<Rightarrow> rune" where
  "SimpleFold u r =
     (if r <s 0 \<or> unicode_MaxRune <s r then r
      else if sint r < int (length (asciiFold u)) then ucast (asciiFold u ! unat r)
      else let orbit = caseOrbit u; lo = orbit_bsearch orbit r 0 (length orbit) in
      if lo < length orbit \<and> ucast (fst (orbit ! lo)) = r then ucast (snd (orbit ! lo))
      else let l = unicode_ToLower u r in
      if l \<noteq> r then l else unicode_ToUpper u r)"


section \<open>Searching a sorted table\<close>

definition ranges_ok :: "'w::len word ranges list \<Rightarrow> bool" where
  "ranges_ok xs \<longleftrightarrow> (\<forall>x \<in> set xs. Lo x \<le> Hi x) \<and> sorted_wrt (\<lambda>x y. Hi x < Lo y) xs"

definition in_ranges :: "'w::len word ranges list \<Rightarrow> 'w word \<Rightarrow> bool" where
  "in_ranges xs r \<longleftrightarrow> (\<exists>x \<in> set xs. Lo x \<le> r \<and> r \<le> Hi x \<and> hits r x)"

lemma linear_search_spec:
  assumes "ranges_ok xs"
  shows "linear_search xs r \<longleftrightarrow> in_ranges xs r"
  using assms
proof (induction xs)
  case (Cons x xs)
  then have ok: "ranges_ok xs" "\<forall>y \<in> set xs. Hi x < Lo y" "Lo x \<le> Hi x" by (auto simp: ranges_ok_def)
  have later: "\<not> in_ranges xs r" if "r \<le> Hi x"
    using that ok(2) by (force simp: in_ranges_def)
  show ?case
    using Cons.IH [OF ok(1)] later ok(3) by (auto simp: in_ranges_def not_less)
qed (simp add: in_ranges_def)

lemma range_bsearch_spec:
  assumes "ranges_ok xs" "hi \<le> length xs"
    and "\<forall>k < lo. Hi (xs ! k) < r" "\<forall>k. hi \<le> k \<longrightarrow> k < length xs \<longrightarrow> r < Lo (xs ! k)"
  shows "range_bsearch xs r lo hi \<longleftrightarrow> in_ranges xs r"
  using assms
proof (induction xs r lo hi rule: range_bsearch.induct)
  case (1 xs r lo hi)
  define m where "m = lo + (hi - lo) div 2"
  show ?case
  proof (cases "lo < hi")
    case False
    have "\<not> (Lo (xs ! k) \<le> r \<and> r \<le> Hi (xs ! k))" if "k < length xs" for k
      using "1.prems"(3,4) False that by (cases "k < lo") (auto dest!: leD)
    then have "\<not> in_ranges xs r" by (auto simp: in_ranges_def in_set_conv_nth)
    then show ?thesis using False by (simp add: range_bsearch.simps)
  next
    case True
    then have m: "m < hi" "lo \<le> m" "m < length xs" using "1.prems"(2) by (auto simp: m_def)
    have sorted: "Hi (xs ! j) < Lo (xs ! k)" if "j < k" "k < length xs" for j k
      using "1.prems"(1) that by (simp add: ranges_ok_def sorted_wrt_iff_nth_less)
    have ord: "Lo (xs ! k) \<le> Hi (xs ! k)" if "k < length xs" for k
      using "1.prems"(1) that by (simp add: ranges_ok_def)
    consider "Lo (xs ! m) \<le> r" "r \<le> Hi (xs ! m)" | "r < Lo (xs ! m)" | "Hi (xs ! m) < r"
      by (meson not_less)
    then show ?thesis
    proof cases
      case a: 1
      have "in_ranges xs r \<longleftrightarrow> hits r (xs ! m)"
      proof
        assume "in_ranges xs r"
        then obtain k where k: "k < length xs" "Lo (xs ! k) \<le> r" "r \<le> Hi (xs ! k)" "hits r (xs ! k)"
          by (auto simp: in_ranges_def in_set_conv_nth)
        have "k = m"
          using sorted [of k m] sorted [of m k] k a m(3) by (cases k m rule: linorder_cases) force+
        with k show "hits r (xs ! m)" by simp
      qed (use a m(3) in \<open>auto simp: in_ranges_def intro!: bexI [of _ "xs ! m"]\<close>)
      then show ?thesis using a True by (subst range_bsearch.simps) (simp add: Let_def flip: m_def)
    next
      case a: 2
      have "\<forall>k. m \<le> k \<longrightarrow> k < length xs \<longrightarrow> r < Lo (xs ! k)"
      proof (intro allI impI)
        fix k assume "m \<le> k" "k < length xs"
        then show "r < Lo (xs ! k)" using a sorted [of m k] ord [OF m(3)] by (cases "k = m") force+
      qed
      then have "range_bsearch xs r lo m \<longleftrightarrow> in_ranges xs r"
        using "1.IH"(1) [OF True m_def refl] a "1.prems" m by (simp add: not_le)
      moreover have "\<not> Lo (xs ! m) \<le> r" using a by (simp add: not_le)
      ultimately show ?thesis using a True by (subst range_bsearch.simps) (simp add: Let_def flip: m_def)
    next
      case a: 3
      have "\<forall>k < m + 1. Hi (xs ! k) < r"
      proof (intro allI impI)
        fix k assume "k < m + 1"
        then show "Hi (xs ! k) < r" using a sorted [of k m] ord [OF m(3)] m(3) by (cases "k = m") force+
      qed
      moreover have nl: "\<not> r < Lo (xs ! m)" using a ord [OF m(3)] by force
      ultimately have "range_bsearch xs r (m + 1) hi \<longleftrightarrow> in_ranges xs r"
        using "1.IH"(2) [OF True m_def refl] a "1.prems" m by (simp add: not_le)
      moreover have "\<not> r \<le> Hi (xs ! m)" using a by (simp add: not_le)
      ultimately show ?thesis using nl True by (subst range_bsearch.simps) (simp add: Let_def flip: m_def)
    qed
  qed
qed

lemma is16_spec: "ranges_ok xs \<Longrightarrow> is16 xs r \<longleftrightarrow> in_ranges xs r"
  and is32_spec: "ranges_ok ys \<Longrightarrow> is32 ys q \<longleftrightarrow> in_ranges ys q"
  using range_bsearch_spec [of xs "length xs" 0 r] range_bsearch_spec [of ys "length ys" 0 q]
  by (auto simp: is16_def is32_def linear_search_spec)

text \<open>A well-formed table: both parts sorted, the 32-bit part above the 16-bit one.\<close>

definition rtable_ok :: "RangeTable \<Rightarrow> bool" where
  "rtable_ok tab \<longleftrightarrow> ranges_ok (R16 tab) \<and> ranges_ok (R32 tab)
     \<and> (\<forall>y \<in> set (R32 tab). unat (Hi y) < 0x80000000
          \<and> (\<forall>x \<in> set (R16 tab). unat (Hi x) < unat (Lo y)))"

definition in_table :: "RangeTable \<Rightarrow> rune \<Rightarrow> bool" where
  "in_table tab r \<longleftrightarrow> unat r < 0x10000 \<and> in_ranges (R16 tab) (ucast r) \<or> in_ranges (R32 tab) r"

lemma nonneg_rune: "0 \<le>s r \<longleftrightarrow> unat r < 0x80000000" for r :: rune
proof -
  obtain n where n: "unat r = n" "uint r = int n" "n < 2 ^ LENGTH(32)" by (rule word_natE)
  then show ?thesis unfolding sle_view sint_view n(1) by simp
qed

lemma sle_nonneg:
  "unat a < 0x80000000 \<Longrightarrow> unat b < 0x80000000 \<Longrightarrow> a \<le>s b \<longleftrightarrow> unat a \<le> unat b" for a b :: rune
proof -
  assume "unat a < 0x80000000" "unat b < 0x80000000"
  moreover obtain m n where "unat a = m" "uint a = int m" "unat b = n" "uint b = int n"
    by (meson word_natE)
  ultimately show ?thesis unfolding sle_view sint_view by simp
qed

lemma unat_ucast_16: "unat (ucast (w :: 16 word) :: rune) = unat w"
  using unsigned_less [where 'a = nat, of w] by (simp add: view_simps)

lemma unat_ucast_to16: "unat r < 0x10000 \<Longrightarrow> unat (ucast r :: 16 word) = unat r" for r :: rune
  by (simp add: view_simps)

lemma last_Hi:
  assumes "ranges_ok xs" "x \<in> set xs"
  shows "Hi x \<le> Hi (xs ! (length xs - 1))" and "Lo (xs ! 0) \<le> Lo x"
proof -
  obtain k where k: "k < length xs" "x = xs ! k" using assms(2) by (auto simp: in_set_conv_nth)
  have s: "Hi (xs ! i) < Lo (xs ! j)" if "i < j" "j < length xs" for i j
    using assms(1) that by (simp add: ranges_ok_def sorted_wrt_iff_nth_less)
  have o: "Lo (xs ! i) \<le> Hi (xs ! i)" if "i < length xs" for i
    using assms(1) that by (simp add: ranges_ok_def)
  show "Hi x \<le> Hi (xs ! (length xs - 1))"
    using k s [of k "length xs - 1"] o [of "length xs - 1"] by (cases "k = length xs - 1") force+
  show "Lo (xs ! 0) \<le> Lo x"
    using k s [of 0 k] o [of 0] by (cases "k = 0") force+
qed

lemma Is_spec:
  assumes "rtable_ok tab" "0 \<le>s r"
  shows "unicode_Is tab r \<longleftrightarrow> in_table tab r"
proof -
  have ok: "ranges_ok (R16 tab)" "ranges_ok (R32 tab)" using assms(1) by (auto simp: rtable_ok_def)
  have bounds: "unat (Hi y) < 0x80000000" "x \<in> set (R16 tab) \<Longrightarrow> unat (Hi x) < unat (Lo y)"
    "unat (Lo y) \<le> unat (Hi y)" if "y \<in> set (R32 tab)" for x y
    using assms(1) that by (auto simp: rtable_ok_def ranges_ok_def word_le_nat_alt)
  have r: "unat r < 0x80000000" using assms(2) nonneg_rune by blast
  let ?h = "Hi (R16 tab ! (length (R16 tab) - 1))"
  have hb: "unat ?h < 0x10000" using unsigned_less [where 'a = nat, of ?h] by simp
  have c16: "r \<le>s ucast ?h \<longleftrightarrow> unat r \<le> unat ?h"
    using sle_nonneg [OF r, of "ucast ?h"] hb by (simp add: unat_ucast_16)
  show ?thesis
  proof (cases "length (R16 tab) > 0 \<and> unat r \<le> unat ?h")
    case True
    have "\<not> in_ranges (R32 tab) r"
    proof
      assume "in_ranges (R32 tab) r"
      then obtain y where y: "y \<in> set (R32 tab)" "Lo y \<le> r" by (auto simp: in_ranges_def)
      have "unat ?h < unat (Lo y)" using bounds(2) [OF y(1), of "R16 tab ! (length (R16 tab) - 1)"] True by simp
      then show False using y(2) True by (simp add: word_le_nat_alt)
    qed
    then show ?thesis using True hb c16 ok by (simp add: unicode_Is_def in_table_def is16_spec)
  next
    case False
    have no16: "\<not> (unat r < 0x10000 \<and> in_ranges (R16 tab) (ucast r))"
    proof
      assume a: "unat r < 0x10000 \<and> in_ranges (R16 tab) (ucast r)"
      then obtain x where x: "x \<in> set (R16 tab)" "ucast r \<le> Hi x" by (auto simp: in_ranges_def)
      have "unat r \<le> unat (Hi x)" using x(2) a by (simp add: word_le_nat_alt unat_ucast_to16)
      also have "\<dots> \<le> unat ?h" using last_Hi(1) [OF ok(1) x(1)] by (simp add: word_le_nat_alt)
      finally show False using False x(1) by (auto simp: length_pos_if_in_set)
    qed
    show ?thesis
    proof (cases "R32 tab = []")
      case True
      then show ?thesis using False c16 no16 by (auto simp: unicode_Is_def in_table_def in_ranges_def)
    next
      case ne: False
      then have y0: "R32 tab ! 0 \<in> set (R32 tab)" by simp
      have lo: "Lo (R32 tab ! 0) \<le>s r \<longleftrightarrow> Lo (R32 tab ! 0) \<le> r"
        using sle_nonneg [of "Lo (R32 tab ! 0)" r] r bounds(1,3) [OF y0] by (simp add: word_le_nat_alt)
      have "in_ranges (R32 tab) r \<Longrightarrow> Lo (R32 tab ! 0) \<le> r"
        using last_Hi(2) [OF ok(2)] by (force simp: in_ranges_def)
      then show ?thesis
        using False c16 no16 ne lo ok(2) by (auto simp: unicode_Is_def in_table_def is32_spec Let_def)
    qed
  qed
qed

section \<open>White space\<close>

definition white_space_points :: "nat set" where
  "white_space_points = {0x09, 0x0A, 0x0B, 0x0C, 0x0D, 0x20, 0x85, 0xA0, 0x1680, 0x2000, 0x2001,
     0x2002, 0x2003, 0x2004, 0x2005, 0x2006, 0x2007, 0x2008, 0x2009, 0x200A, 0x2028, 0x2029,
     0x202F, 0x205F, 0x3000}"

lemma ranges_ok_White: "ranges_ok (R16 White_Space)"
  by (simp add: White_Space_def ranges_ok_def)

lemma word_mod_view: "(a mod b = 0) \<longleftrightarrow> unat a mod unat b = 0" for a b :: "16 word"
  by (simp add: word_unat_eq_iff unat_mod_distrib)

lemma mod_end: "k \<le> m \<Longrightarrow> 0 < m \<Longrightarrow> k mod m = 0 \<longleftrightarrow> k = 0 \<or> k = m" for k m :: nat
  by (cases "k = m") auto

lemma White_tail:
  assumes "unat w = n" "n \<le> 0x3000"
  shows "in_ranges (drop 2 (R16 White_Space)) w \<longleftrightarrow>
     n = 0xA0 \<or> n = 0x1680 \<or> (0x2000 \<le> n \<and> n \<le> 0x200A) \<or> n = 0x2028 \<or> n = 0x2029
      \<or> n = 0x202F \<or> n = 0x205F \<or> n = 0x3000" (is "_ \<longleftrightarrow> ?R")
proof -
  have m1: "(w - 0xA0) mod 5600 = 0 \<longleftrightarrow> n = 0xA0 \<or> n = 0x1680" if b: "0xA0 \<le> n" "n \<le> 0x1680"
  proof -
    have "unat (w - 0xA0) = n - 0xA0" using assms(1) b by (simp add: unat_sub word_le_nat_alt)
    then have "(w - 0xA0) mod 5600 = 0 \<longleftrightarrow> (n - 0xA0) mod 5600 = 0" by (simp only: word_mod_view) simp
    also have "\<dots> \<longleftrightarrow> n - 0xA0 = 0 \<or> n - 0xA0 = 5600" by (rule mod_end) (use b in simp_all)
    also have "\<dots> \<longleftrightarrow> n = 0xA0 \<or> n = 0x1680" using b by arith
    finally show ?thesis .
  qed
  have m2: "(w - 0x202F) mod 48 = 0 \<longleftrightarrow> n = 0x202F \<or> n = 0x205F" if b: "0x202F \<le> n" "n \<le> 0x205F"
  proof -
    have "unat (w - 0x202F) = n - 0x202F" using assms(1) b by (simp add: unat_sub word_le_nat_alt)
    then have "(w - 0x202F) mod 48 = 0 \<longleftrightarrow> (n - 0x202F) mod 48 = 0" by (simp only: word_mod_view) simp
    also have "\<dots> \<longleftrightarrow> n - 0x202F = 0 \<or> n - 0x202F = 48" by (rule mod_end) (use b in simp_all)
    also have "\<dots> \<longleftrightarrow> n = 0x202F \<or> n = 0x205F" using b by arith
    finally show ?thesis .
  qed
  have "in_ranges (drop 2 (R16 White_Space)) w \<longleftrightarrow>
      (0xA0 \<le> w \<and> w \<le> 0x1680 \<and> (w - 0xA0) mod 5600 = 0) \<or> (0x2000 \<le> w \<and> w \<le> 0x200A)
      \<or> (0x2028 \<le> w \<and> w \<le> 0x2029) \<or> (0x202F \<le> w \<and> w \<le> 0x205F \<and> (w - 0x202F) mod 48 = 0)
      \<or> (0x3000 \<le> w \<and> w \<le> 0x3000)"
    unfolding in_ranges_def White_Space_def hits_def by simp
  also have "\<dots> \<longleftrightarrow> (0xA0 \<le> n \<and> n \<le> 0x1680 \<and> (w - 0xA0) mod 5600 = 0) \<or> (0x2000 \<le> n \<and> n \<le> 0x200A)
      \<or> (0x2028 \<le> n \<and> n \<le> 0x2029) \<or> (0x202F \<le> n \<and> n \<le> 0x205F \<and> (w - 0x202F) mod 48 = 0)
      \<or> (0x3000 \<le> n \<and> n \<le> 0x3000)"
    unfolding word_le_nat_alt assms(1) by simp
  also have "\<dots> \<longleftrightarrow> ?R"
  proof -
    have a: "0xA0 \<le> n \<and> n \<le> 0x1680 \<and> (w - 0xA0) mod 5600 = 0 \<longleftrightarrow> n = 0xA0 \<or> n = 0x1680"
      using m1 by (cases "0xA0 \<le> n \<and> n \<le> 0x1680") auto
    have b: "0x202F \<le> n \<and> n \<le> 0x205F \<and> (w - 0x202F) mod 48 = 0 \<longleftrightarrow> n = 0x202F \<or> n = 0x205F"
      using m2 by (cases "0x202F \<le> n \<and> n \<le> 0x205F") auto
    have c: "0x2028 \<le> n \<and> n \<le> 0x2029 \<longleftrightarrow> n = 0x2028 \<or> n = 0x2029"
      "0x3000 \<le> n \<and> n \<le> 0x3000 \<longleftrightarrow> n = 0x3000" by arith+
    show ?thesis unfolding a b c by blast
  qed
  finally show ?thesis .
qed

lemma spaces_above_latin1:
  "0xFF < n \<Longrightarrow> n \<in> white_space_points \<longleftrightarrow> n = 0xA0 \<or> n = 0x1680 \<or> (0x2000 \<le> n \<and> n \<le> 0x200A)
      \<or> n = 0x2028 \<or> n = 0x2029 \<or> n = 0x202F \<or> n = 0x205F \<or> n = 0x3000"
  unfolding white_space_points_def by (simp only: insert_iff empty_iff) arith

lemma IsSpace_spec:
  assumes "0 \<le>s r"
  shows "IsSpace r \<longleftrightarrow> unat r \<in> white_space_points"
proof (cases "unat r \<le> 0xFF")
  case True
  then have "is_latin1 r" by (simp add: is_latin1_def word_le_nat_alt)
  moreover have "r \<in> {0x09, 0x0A, 0x0B, 0x0C, 0x0D, 0x20, 0x85, 0xA0} \<longleftrightarrow> unat r \<in> white_space_points"
    using True by (auto simp: white_space_points_def word_unat_eq_iff)
  ultimately show ?thesis by (simp add: IsSpace_def)
next
  case False
  then have nl: "\<not> is_latin1 r" by (simp add: is_latin1_def word_le_nat_alt)
  have r: "unat r < 0x80000000" using assms nonneg_rune by blast
  have c: "r \<le>s ucast (0x3000 :: 16 word) \<longleftrightarrow> unat r \<le> 0x3000"
    using sle_nonneg [OF r, of "ucast (0x3000 :: 16 word)"] by simp
  have last: "Hi (R16 White_Space ! (length (R16 White_Space) - 1)) = 0x3000" by (simp add: White_Space_def)
  have "2 < length (R16 White_Space)" "R32 White_Space = []" "LatinOffset White_Space = 2"
    by (simp_all add: White_Space_def)
  then have ex: "isExcludingLatin White_Space r \<longleftrightarrow>
      unat r \<le> 0x3000 \<and> is16 (drop 2 (R16 White_Space)) (ucast r)"
    unfolding isExcludingLatin_def Let_def last c by simp
  have ok: "ranges_ok (drop 2 (R16 White_Space))"
    by (simp add: White_Space_def ranges_ok_def)
  show ?thesis
  proof (cases "unat r \<le> 0x3000")
    case le: True
    then have "unat (ucast r :: 16 word) = unat r" by (intro unat_ucast_to16) simp
    note tail = White_tail [OF this le]
    have "IsSpace r \<longleftrightarrow> in_ranges (drop 2 (R16 White_Space)) (ucast r)"
      using nl le ex is16_spec [OF ok] by (simp add: IsSpace_def)
    then show ?thesis
      unfolding tail using spaces_above_latin1 [of "unat r"] False by (simp add: not_le)
  next
    case gt: False
    then show ?thesis using nl ex by (auto simp: IsSpace_def white_space_points_def)
  qed
qed

section \<open>Case ranges\<close>

definition cases_ok :: "CaseRange list \<Rightarrow> bool" where
  "cases_ok cs \<longleftrightarrow> (\<forall>x \<in> set cs. caseLo x \<le>s caseHi x) \<and> sorted_wrt (\<lambda>x y. caseHi x <s caseLo y) cs"

definition case_range_of :: "CaseRange list \<Rightarrow> rune \<Rightarrow> CaseRange option" where
  "case_range_of cs r = find (\<lambda>cr. caseLo cr \<le>s r \<and> r \<le>s caseHi cr) cs"

lemma case_bsearch_spec:
  assumes "cases_ok cs" "hi \<le> length cs"
    and "\<forall>k < lo. caseHi (cs ! k) <s r" "\<forall>k. hi \<le> k \<longrightarrow> k < length cs \<longrightarrow> r <s caseLo (cs ! k)"
  shows "case_bsearch c r cs lo hi =
    (case case_range_of cs r of Some cr \<Rightarrow> (mapped_rune c r cr, True) | None \<Rightarrow> (r, False))"
  using assms
proof (induction c r cs lo hi rule: case_bsearch.induct)
  case (1 c r cs lo hi)
  define m where "m = lo + (hi - lo) div 2"
  define inr where "inr = (\<lambda>k. caseLo (cs ! k) \<le>s r \<and> r \<le>s caseHi (cs ! k))"
  have sorted: "sint (caseHi (cs ! j)) < sint (caseLo (cs ! k))" if "j < k" "k < length cs" for j k
    using "1.prems"(1) that by (simp add: cases_ok_def sorted_wrt_iff_nth_less sless_view)
  have ord: "sint (caseLo (cs ! k)) \<le> sint (caseHi (cs ! k))" if "k < length cs" for k
    using "1.prems"(1) that by (simp add: cases_ok_def sle_view)
  have unique: "case_range_of cs r = Some (cs ! k)" if k: "k < length cs" "inr k" for k
  proof -
    have "\<not> inr j" if "j < k" for j
      using sorted [OF that k(1)] k(2) by (auto simp: inr_def sle_view)
    then show ?thesis using k by (auto simp: case_range_of_def find_Some_iff inr_def)
  qed
  show ?case
  proof (cases "lo < hi")
    case False
    have "\<not> inr k" if "k < length cs" for k
      using "1.prems"(3) "1.prems"(4) [rule_format, of k] False that
      by (cases "k < lo") (auto simp: inr_def sle_view sless_view)
    then have "case_range_of cs r = None"
      by (auto simp: case_range_of_def find_None_iff in_set_conv_nth inr_def)
    then show ?thesis using False by (simp add: case_bsearch.simps)
  next
    case True
    then have m: "m < hi" "lo \<le> m" "m < length cs" using "1.prems"(2) by (auto simp: m_def)
    consider "inr m" | "\<not> inr m" "r <s caseLo (cs ! m)" | "\<not> inr m" "\<not> r <s caseLo (cs ! m)" by blast
    then show ?thesis
    proof cases
      case a: 1
      then show ?thesis using True unique [OF m(3) a]
        by (subst case_bsearch.simps) (simp add: Let_def inr_def flip: m_def)
    next
      case a: 2
      have "\<forall>k. m \<le> k \<longrightarrow> k < length cs \<longrightarrow> r <s caseLo (cs ! k)"
      proof (intro allI impI)
        fix k assume "m \<le> k" "k < length cs"
        then show "r <s caseLo (cs ! k)"
          using a(2) sorted [of m k] ord [OF m(3)] by (cases "k = m") (auto simp: sless_view)
      qed
      then have "case_bsearch c r cs lo m =
          (case case_range_of cs r of Some cr \<Rightarrow> (mapped_rune c r cr, True) | None \<Rightarrow> (r, False))"
        using "1.IH"(1) [OF True m_def refl] a "1.prems" m by (simp add: inr_def)
      then show ?thesis
        by (subst case_bsearch.simps)
           (simp only: Let_def flip: m_def, simp only: True if_True a(2) if_not_P [OF a(1) [unfolded inr_def]])
    next
      case a: 3
      have "\<forall>k < m + 1. caseHi (cs ! k) <s r"
      proof (intro allI impI)
        fix k assume "k < m + 1"
        then show "caseHi (cs ! k) <s r"
          using a sorted [of k m] ord [OF m(3)] m(3)
          by (cases "k = m") (auto simp: sless_view sle_view inr_def)
      qed
      then have "case_bsearch c r cs (m + 1) hi =
          (case case_range_of cs r of Some cr \<Rightarrow> (mapped_rune c r cr, True) | None \<Rightarrow> (r, False))"
        using "1.IH"(2) [OF True m_def refl] a "1.prems" m by (simp add: inr_def)
      then show ?thesis
        by (subst case_bsearch.simps)
           (simp only: Let_def flip: m_def, simp only: True if_True a(2) if_False if_not_P [OF a(1) [unfolded inr_def]])
    qed
  qed
qed

lemma case_to_spec:
  assumes "cases_ok cs" "0 \<le> c" "c < MaxCase"
  shows "case_to c r cs =
    (case case_range_of cs r of Some cr \<Rightarrow> (mapped_rune c r cr, True) | None \<Rightarrow> (r, False))"
  using case_bsearch_spec [OF assms(1), of "length cs" 0 r c] assms(2,3) by (simp add: case_to_def)

section \<open>Properties\<close>

text \<open>
  For every non-negative rune and every sorted table, \<open>unicode.Is\<close> (the linear scan for short
  tables, the binary search for long ones, in the 16-bit or the 32-bit part) decides membership in
  one of the table's strided ranges.
\<close>

theorem unicode_Is_membership:
  assumes "rtable_ok tab" "0 \<le>s r"
  shows "unicode_Is tab r \<longleftrightarrow>
    unat r < 0x10000 \<and> in_ranges (R16 tab) (ucast r) \<or> in_ranges (R32 tab) r"
  using Is_spec [OF assms] by (simp add: in_table_def)

theorem unicode_Is_membership_witness:
  "unicode_Is White_Space 0x205F \<longleftrightarrow>
    unat (0x205F :: rune) < 0x10000 \<and> in_ranges (R16 White_Space) (ucast (0x205F :: rune))
      \<or> in_ranges (R32 White_Space) 0x205F"
proof (rule unicode_Is_membership)
  show "rtable_ok White_Space"
    using ranges_ok_White by (simp add: rtable_ok_def) (simp add: White_Space_def ranges_ok_def)
  show "0 \<le>s (0x205F :: rune)" by (simp add: nonneg_rune)
qed

text \<open>
  C38: \<open>IsSpace\<close> holds of exactly the 25 code points of the property White_Space, for non-negative
  runes; for negative ones it looks at the low 16 bits only, so it accepts \<open>-57344\<close>.
\<close>

theorem IsSpace_exact:
  "(0 \<le>s r \<longrightarrow> (IsSpace r \<longleftrightarrow> unat r \<in> white_space_points)) \<and> IsSpace (- 57344)"
proof -
  have "IsSpace (- 57344)" by code_simp
  then show ?thesis using IsSpace_spec by blast
qed

theorem IsSpace_exact_witness:
  "0 \<le>s (0x2003 :: rune) \<and> IsSpace 0x2003 \<and> \<not> IsSpace 0x200B"
  using IsSpace_exact [of "0x2003"] IsSpace_exact [of "0x200B"]
  by (simp add: nonneg_rune white_space_points_def)

text \<open>
  The binary search of the case ranges finds the range that contains the rune: \<open>to\<close> returns
  the mapped rune (delta, or alternating upper and lower) of that range, and the rune itself, with
  \<open>false\<close>, when no range contains it; a case out of range gives the replacement character.
\<close>

theorem case_to_lookup:
  assumes "cases_ok cs"
  shows "case_to c r cs =
    (if c < 0 \<or> MaxCase \<le> c then (ReplacementChar, False)
     else case case_range_of cs r of Some cr \<Rightarrow> (mapped_rune c r cr, True) | None \<Rightarrow> (r, False))"
  using case_to_spec [OF assms, of c r] by (auto simp: case_to_def)

theorem case_to_lookup_witness:
  "case_to UpperCase 0x66 [\<lparr>caseLo = 0x61, caseHi = 0x7A, Delta = [- 32, 0, - 32]\<rparr>] =
    (if UpperCase < 0 \<or> MaxCase \<le> UpperCase then (ReplacementChar, False)
     else case case_range_of [\<lparr>caseLo = 0x61, caseHi = 0x7A, Delta = [- 32, 0, - 32]\<rparr>] 0x66 of
       Some cr \<Rightarrow> (mapped_rune UpperCase 0x66 cr, True) | None \<Rightarrow> (0x66, False))"
  by (rule case_to_lookup) (simp add: cases_ok_def sle_nonneg)

end
