(* ===== verification/StringsSplit.thy ===== *)
theory StringsSplit
  imports StringsIndex UnicodeLetter
begin

text \<open>
  Splitting, joining, repeating and replacing in \<open>src/strings/strings.go\<close>.  A result slice is the
  list of its elements; \<open>M\<close> is the largest length of a slice of strings (in \<open>Replace\<close>: of bytes) that \<open>make\<close> can allocate.  The
  buffer \<open>Replace\<close> fills has a fixed length, and \<open>copy\<close> into it truncates, as in the code.  The capacities a \<open>Builder\<close> reserves are not part of these models.
\<close>

section \<open>Splitting\<close>

fun explode_loop :: "nat \<Rightarrow> bytes \<Rightarrow> bytes list \<times> bytes" where
  "explode_loop 0 s = ([], s)"
| "explode_loop (Suc k) s =
     (let (ch, sz) = DecodeRuneInString s;
          a = take sz s; s = drop sz s;
          a = (if ch = RuneError then rune_bytes RuneError else a);
          (as, rest) = explode_loop k s
      in (a # as, rest))"

definition explode :: "int \<Rightarrow> bytes \<Rightarrow> int \<Rightarrow> bytes list go" where
  "explode M s n =
     (let l = int (RuneCountInString s);
          n = (if n < 0 \<or> n > l then l else n)
      in go_bind (go_make M n ([] :: bytes)) (\<lambda>_.
           let (as, s) = explode_loop (nat (n - 1)) s
           in Inr (if n > 0 then as @ [s] else as)))"

fun split_loop :: "bytealg_ops \<Rightarrow> bytes \<Rightarrow> nat \<Rightarrow> nat \<Rightarrow> bytes \<Rightarrow> bytes list go" where
  "split_loop ops sep sepSave 0 s = Inr [s]"
| "split_loop ops sep sepSave (Suc k) s =
     go_bind (Index ops s sep) (\<lambda>m.
       if m < 0 then Inr [s]
       else go_bind (go_slice s 0 (nat m + sepSave)) (\<lambda>a.
            go_bind (go_slice s (nat m + length sep) (length s)) (\<lambda>s.
            go_bind (split_loop ops sep sepSave k s) (\<lambda>as. Inr (a # as)))))"

definition genSplit :: "bytealg_ops \<Rightarrow> int \<Rightarrow> bytes \<Rightarrow> bytes \<Rightarrow> nat \<Rightarrow> int \<Rightarrow> bytes list go option" where
  "genSplit ops M s sep sepSave n =
     (if n = 0 then Some (Inr [])
      else if sep = [] then Some (explode M s n)
      else run_bind (if n < 0
             then run_bind (strings_Count ops s sep) (\<lambda>c. Some (Inr (int c + 1)))
             else Some (Inr n)) (\<lambda>n.
        run_bind (Some (go_make M n ([] :: bytes))) (\<lambda>_.
        Some (split_loop ops sep sepSave (nat (n - 1)) s))))"

definition SplitN :: "bytealg_ops \<Rightarrow> int \<Rightarrow> bytes \<Rightarrow> bytes \<Rightarrow> int \<Rightarrow> bytes list go option" where
  "SplitN ops M s sep n = genSplit ops M s sep 0 n"

definition SplitAfterN :: "bytealg_ops \<Rightarrow> int \<Rightarrow> bytes \<Rightarrow> bytes \<Rightarrow> int \<Rightarrow> bytes list go option" where
  "SplitAfterN ops M s sep n = genSplit ops M s sep (length sep) n"

definition Split :: "bytealg_ops \<Rightarrow> int \<Rightarrow> bytes \<Rightarrow> bytes \<Rightarrow> bytes list go option" where
  "Split ops M s sep = genSplit ops M s sep 0 (-1)"

definition SplitAfter :: "bytealg_ops \<Rightarrow> int \<Rightarrow> bytes \<Rightarrow> bytes \<Rightarrow> bytes list go option" where
  "SplitAfter ops M s sep = genSplit ops M s sep (length sep) (-1)"

definition Join :: "bytes list \<Rightarrow> bytes \<Rightarrow> bytes" where
  "Join elems sep =
     (case elems of
        [] \<Rightarrow> []
      | [e] \<Rightarrow> e
      | e # rest \<Rightarrow> foldl (\<lambda>b s. (b @ sep) @ s) e rest)"

definition HasSuffix :: "bytes \<Rightarrow> bytes \<Rightarrow> bool" where
  "HasSuffix s suffix' \<longleftrightarrow> length suffix' \<le> length s \<and> drop (length s - length suffix') s = suffix'"

definition TrimPrefix :: "bytes \<Rightarrow> bytes \<Rightarrow> bytes" where
  "TrimPrefix s prefix' = (if HasPrefix s prefix' then drop (length prefix') s else s)"

definition TrimSuffix :: "bytes \<Rightarrow> bytes \<Rightarrow> bytes" where
  "TrimSuffix s suffix' = (if HasSuffix s suffix' then take (length s - length suffix') s else s)"


section \<open>Repeating\<close>

partial_function (option) repeat_loop :: "int \<Rightarrow> bytes \<Rightarrow> bytes option" where
  "repeat_loop n b =
     (if int (length b) < n then
        if int (length b) \<le> n div 2 then repeat_loop n (b @ b)
        else Some (b @ take (nat (n - int (length b))) b)
      else Some b)"

definition Repeat :: "bytes \<Rightarrow> int \<Rightarrow> bytes go option" where
  "Repeat s count =
     (if count = 0 then Some (Inr [])
      else if count < 0 then Some (Inl (PanicValue ''strings: negative Repeat count''))
      else if go_quot (wrap64 (int (length s) * count)) count \<noteq> int (length s)
      then Some (Inl (PanicValue ''strings: Repeat count causes overflow''))
      else (case repeat_loop (wrap64 (int (length s) * count)) s of
              None \<Rightarrow> None | Some b \<Rightarrow> Some (Inr b)))"


section \<open>Replacing\<close>

text \<open>\<open>copy(t[w:], src)\<close> where \<open>t[0:w]\<close> is \<open>acc\<close> and \<open>t\<close> has length \<open>cap\<close>.\<close>

definition copy_into :: "nat \<Rightarrow> bytes \<Rightarrow> bytes \<Rightarrow> bytes" where
  "copy_into cap acc src = acc @ take (cap - length acc) src"

fun replace_loop :: "bytealg_ops \<Rightarrow> bytes \<Rightarrow> bytes \<Rightarrow> bytes \<Rightarrow> nat \<Rightarrow> nat \<Rightarrow> nat \<Rightarrow> nat \<Rightarrow> bytes \<Rightarrow> bytes go" where
  "replace_loop ops s old new cap 0 i start acc =
     go_bind (go_slice s start (length s)) (\<lambda>rest. Inr (copy_into cap acc rest))"
| "replace_loop ops s old new cap (Suc k) i start acc =
     go_bind (if length old = 0 then
                if i > 0 then
                  go_bind (go_slice s start (length s)) (\<lambda>t. Inr (int start + int (snd (DecodeRuneInString t))))
                else Inr (int start)
              else
                go_bind (go_slice s start (length s)) (\<lambda>t.
                go_bind (Index ops t old) (\<lambda>m. Inr (int start + m)))) (\<lambda>j.
     if j < int start then Inl SliceOutOfRange
     else go_bind (go_slice s start (nat j)) (\<lambda>piece.
       replace_loop ops s old new cap k (i + 1) (nat j + length old)
         (copy_into cap (copy_into cap acc piece) new)))"

definition Replace :: "bytealg_ops \<Rightarrow> int \<Rightarrow> bytes \<Rightarrow> bytes \<Rightarrow> bytes \<Rightarrow> int \<Rightarrow> bytes go option" where
  "Replace ops M s old new n =
     (if old = new \<or> n = 0 then Some (Inr s)
      else run_bind (strings_Count ops s old) (\<lambda>m.
        if m = 0 then Some (Inr s)
        else let n = (if n < 0 \<or> int m < n then int m else n);
                 cap = wrap64 (int (length s) + n * (int (length new) - int (length old))) in
          run_bind (Some (go_make M cap (0 :: byte))) (\<lambda>_.
          Some (replace_loop ops s old new (nat cap) (nat n) 0 0 []))))"

definition ReplaceAll :: "bytealg_ops \<Rightarrow> int \<Rightarrow> bytes \<Rightarrow> bytes \<Rightarrow> bytes \<Rightarrow> bytes go option" where
  "ReplaceAll ops M s old new = Replace ops M s old new (-1)"


section \<open>Fields\<close>

text \<open>The state of the scanning loop of \<open>FieldsFunc\<close>: the spans so far, \<open>fromIndex\<close>, \<open>wasField\<close>.\<close>

definition fields_step ::
  "(rune \<Rightarrow> bool) \<Rightarrow> (nat \<times> nat) list \<times> nat \<times> bool \<Rightarrow> nat \<times> rune \<Rightarrow> (nat \<times> nat) list \<times> nat \<times> bool" where
  "fields_step f st ir = (case st of (spans, fromIndex, wasField) \<Rightarrow> case ir of (i, r) \<Rightarrow>
     if f r then
       if wasField then (spans @ [(fromIndex, i)], fromIndex, False)
       else (spans, fromIndex, wasField)
     else if \<not> wasField then (spans, i, True)
     else (spans, fromIndex, wasField))"

definition FieldsFunc :: "bytes \<Rightarrow> (rune \<Rightarrow> bool) \<Rightarrow> bytes list" where
  "FieldsFunc s f =
     (let (spans, fromIndex, wasField) = foldl (fields_step f) ([], 0, False) (range_string s 0);
          spans = (if wasField then spans @ [(fromIndex, length s)] else spans)
      in map (\<lambda>(start, end'). seg start end' s) spans)"

definition asciiSpace :: "byte \<Rightarrow> nat" where
  "asciiSpace c = (if c \<in> {0x09, 0x0A, 0x0B, 0x0C, 0x0D, 0x20} then 1 else 0)"

text \<open>The counting pass of \<open>Fields\<close>: number of fields, \<open>wasSpace\<close>, and the union of all bytes.\<close>

definition fields_count :: "bytes \<Rightarrow> nat \<times> nat \<times> byte" where
  "fields_count s = foldl (\<lambda>(n, wasSpace, setBits) r.
     (n + (if wasSpace = 1 \<and> asciiSpace r = 0 then 1 else 0), asciiSpace r, setBits OR r)) (0, 1, 0) s"

function skip_spaces :: "bytes \<Rightarrow> nat \<Rightarrow> nat" where
  "skip_spaces s i = (if i < length s \<and> asciiSpace (s ! i) \<noteq> 0 then skip_spaces s (i + 1) else i)"
  by pat_completeness auto
termination by (relation "measure (\<lambda>(s, i). length s - i)") auto

declare skip_spaces.simps [simp del]
lemmas skip_spaces_simps [loop_unfold] = skip_spaces.simps

lemma skip_spaces_le: "i \<le> skip_spaces s i"
proof (induction s i rule: skip_spaces.induct)
  case (1 s i)
  then show ?case by (subst skip_spaces.simps) auto
qed

lemma skip_spaces_len: "i \<le> length s \<Longrightarrow> skip_spaces s i \<le> length s"
proof (induction s i rule: skip_spaces.induct)
  case (1 s i)
  then show ?case by (subst skip_spaces.simps) auto
qed

function fields_loop :: "bytes \<Rightarrow> nat \<Rightarrow> nat \<Rightarrow> bytes list \<Rightarrow> nat \<Rightarrow> (bytes list \<times> nat \<times> nat) go" where
  "fields_loop s i fieldStart a na =
     (if i < length s then
        if asciiSpace (s ! i) = 0 then fields_loop s (i + 1) fieldStart a na
        else go_bind (go_set a na (seg fieldStart i s)) (\<lambda>a.
          let i = skip_spaces s (i + 1) in fields_loop s i i a (na + 1))
      else Inr (a, na, fieldStart))"
  by pat_completeness auto
termination
proof (relation "measure (\<lambda>(s, i, _). length s - i)", goal_cases)
  case (3 s i fieldStart a na a' x)
  then show ?case using skip_spaces_le [of "i + 1" s] by auto
qed auto

declare fields_loop.simps [simp del]
lemmas fields_loop_simps [loop_unfold] = fields_loop.simps

definition Fields :: "bytes \<Rightarrow> bytes list go" where
  "Fields s =
     (let (n, wasSpace, setBits) = fields_count s in
      if setBits \<ge> RuneSelf then Inr (FieldsFunc s IsSpace)
      else let i = skip_spaces s 0 in
        go_bind (fields_loop s i i (replicate n []) 0) (\<lambda>(a, na, fieldStart).
          if fieldStart < length s then go_set a na (drop fieldStart s) else Inr a))"

section \<open>Cutting at the first occurrences\<close>

text \<open>The reference: at most \<open>k\<close> cuts, each at the first occurrence of the separator in what is left.\<close>

fun cuts :: "bytes \<Rightarrow> nat \<Rightarrow> bytes \<Rightarrow> bytes list" where
  "cuts sep 0 s = [s]"
| "cuts sep (Suc k) s =
     (let i = index_spec_loop s sep 0 in
      if i < 0 then [s] else take (nat i) s # cuts sep k (drop (nat i + length sep) s))"

lemma index_spec_first: "is_first_index s sep (index_spec_loop s sep 0)"
  by (rule index_spec_loop_first) simp

lemma cuts_not_Nil [simp]: "cuts sep k s \<noteq> []"
  by (cases k) (simp_all add: Let_def)

lemma Join_Cons: "Join (x # xs) sep = x @ concat (map (\<lambda>s. sep @ s) xs)"
proof -
  have "foldl (\<lambda>b s. (b @ sep) @ s) x xs = x @ concat (map (\<lambda>s. sep @ s) xs)" for x
    by (induction xs arbitrary: x) simp_all
  note fold = this
  show ?thesis
  proof (cases xs)
    case (Cons y ys)
    then have "Join (x # xs) sep = foldl (\<lambda>b s. (b @ sep) @ s) x xs" by (simp only: Join_def list.case)
    then show ?thesis by (simp only: fold)
  qed (simp add: Join_def)
qed

lemma Join_step: "xs \<noteq> [] \<Longrightarrow> Join (x # xs) sep = x @ sep @ Join xs sep"
  by (cases xs) (simp_all add: Join_Cons)

lemma cuts_found:
  assumes "occurs_at s sep i" "\<forall>j < i. \<not> occurs_at s sep j"
  shows "cuts sep (Suc k) s = take i s # cuts sep k (drop (i + length sep) s)"
  using is_first_index_unique [OF index_spec_first is_first_indexI [of s sep i]] assms by simp

lemma cuts_absent:
  assumes "\<forall>j. \<not> occurs_at s sep j"
  shows "cuts sep k s = [s]"
  using is_first_index_unique [OF index_spec_first is_first_index_none [of s sep]] assms by (cases k) simp_all

lemma cuts_cases:
  obtains (found) i where "occurs_at s sep i" "\<forall>j < i. \<not> occurs_at s sep j"
      "index_spec_loop s sep 0 = int i"
    | (absent) "\<forall>j. \<not> occurs_at s sep j" "index_spec_loop s sep 0 = -1"
  using index_spec_first [of s sep] by (cases rule: is_first_index_cases) auto

lemma take_drop_occurs: "occurs_at s sep i \<Longrightarrow> take i s @ sep @ drop (i + length sep) s = s"
proof -
  assume o: "occurs_at s sep i"
  have "drop i s = take (length sep) (drop i s) @ drop (length sep) (drop i s)"
    by (rule append_take_drop_id [symmetric])
  also have "\<dots> = sep @ drop (i + length sep) s" using o by (simp add: occurs_at_def add.commute)
  finally show ?thesis by (metis append_take_drop_id)
qed

lemma Join_cuts: "Join (cuts sep k s) sep = s"
proof (induction sep k s rule: cuts.induct)
  case (2 sep k s)
  show ?case
  proof (cases rule: cuts_cases [of s sep])
    case (found i)
    then have "Join (cuts sep k (drop (i + length sep) s)) sep = drop (i + length sep) s"
      using 2 [OF refl] by simp
    then have "Join (take i s # cuts sep k (drop (i + length sep) s)) sep = s"
      using take_drop_occurs [OF found(1)] by (simp add: Join_step)
    then show ?thesis unfolding cuts_found [OF found(1,2)] .
  next
    case absent
    then show ?thesis by (simp add: Join_Cons)
  qed
qed (simp add: Join_Cons)

lemma greedy_found:
  assumes "sep \<noteq> []" "occurs_at s sep i" "\<forall>j < i. \<not> occurs_at s sep j"
  shows "greedy_count sep s = Suc (greedy_count sep (drop (i + length sep) s))"
  using greedy_count_index [OF assms(1) is_first_indexI [of s sep i]] assms by (simp add: nat_add_distrib)

lemma greedy_absent:
  assumes "sep \<noteq> []" "\<forall>j. \<not> occurs_at s sep j"
  shows "greedy_count sep s = 0"
  using greedy_count_index [OF assms(1) is_first_index_none [of s sep]] assms by simp

lemma length_cuts: "sep \<noteq> [] \<Longrightarrow> length (cuts sep k s) = 1 + min k (greedy_count sep s)"
proof (induction sep k s rule: cuts.induct)
  case (2 sep k s)
  show ?case
  proof (cases rule: cuts_cases [of s sep])
    case (found i)
    then show ?thesis using 2(1) [OF refl] 2(2) greedy_found [OF 2(2) found(1,2)] by simp
  next
    case absent
    then show ?thesis using greedy_absent [OF 2(2) absent(1)] by simp
  qed
qed simp

lemma occurs_at_take: "occurs_at (take n s) sep j \<Longrightarrow> occurs_at s sep j"
  by (auto simp: occurs_at_nth)

lemma cuts_free:
  assumes "sep \<noteq> []"
  shows "p \<in> set (butlast (cuts sep k s)) \<Longrightarrow> \<not> occurs_at p sep j"
    and "greedy_count sep s \<le> k \<Longrightarrow> \<not> occurs_at (last (cuts sep k s)) sep j"
proof -
  have "(p \<in> set (butlast (cuts sep k s)) \<longrightarrow> \<not> occurs_at p sep j)
      \<and> (greedy_count sep s \<le> k \<longrightarrow> \<not> occurs_at (last (cuts sep k s)) sep j)"
    using assms
  proof (induction sep k s rule: cuts.induct)
    case (1 sep s)
    have "\<not> occurs_at s sep j" if "greedy_count sep s = 0"
      using that greedy_found [OF 1] by (cases rule: cuts_cases [of s sep]) auto
    then show ?case by simp
  next
    case (2 sep k s)
    show ?case
    proof (cases rule: cuts_cases [of s sep])
      case (found i)
      have "\<not> occurs_at (take i s) sep j"
      proof
        assume o: "occurs_at (take i s) sep j"
        have "0 < length sep" using 2(2) by simp
        then have "j < i" using occurs_at_bound [OF o] unfolding length_take by linarith
        with found(2) occurs_at_take [OF o] show False by blast
      qed
      then show ?thesis
        using 2(1) [OF refl _ 2(2)] found(3) greedy_found [OF 2(2) found(1,2)]
        unfolding cuts_found [OF found(1,2)] by auto
    next
      case absent
      then show ?thesis by simp
    qed
  qed
  then show "p \<in> set (butlast (cuts sep k s)) \<Longrightarrow> \<not> occurs_at p sep j"
    "greedy_count sep s \<le> k \<Longrightarrow> \<not> occurs_at (last (cuts sep k s)) sep j" by auto
qed

lemma length_Join_cuts:
  assumes "sep \<noteq> []" "k \<le> greedy_count sep s"
  shows "int (length (Join (cuts sep k s) new)) = int (length s) + int k * (int (length new) - int (length sep))"
  using assms
proof (induction sep k s rule: cuts.induct)
  case (2 sep k s)
  show ?case
  proof (cases rule: cuts_cases [of s sep])
    case (found i)
    have b: "i + length sep \<le> length s" by (rule occurs_at_bound [OF found(1)])
    have "int (length (Join (cuts sep k (drop (i + length sep) s)) new))
        = int (length (drop (i + length sep) s)) + int k * (int (length new) - int (length sep))"
      using 2(1) [OF refl _ 2(2)] found(3) 2(3) greedy_found [OF 2(2) found(1,2)] by simp
    then show ?thesis
      unfolding cuts_found [OF found(1,2)] using b by (simp add: Join_step algebra_simps)
  next
    case absent
    with 2(3) greedy_absent [OF 2(2) absent(1)] show ?thesis by simp
  qed
qed (simp add: Join_Cons)

lemma cuts_min:
  assumes "old \<noteq> []"
  shows "cuts old j s = cuts old (min j (greedy_count old s)) s"
proof (induction j arbitrary: s)
  case (Suc j)
  show ?case
  proof (cases rule: cuts_cases [of s old])
    case (found i)
    show ?thesis
      using Suc [of "drop (i + length old) s"] greedy_found [OF assms(1) found(1,2)]
      by (simp add: found(3))
  next
    case absent
    then show ?thesis using cuts_absent [OF absent(1)] by metis
  qed
qed simp

lemma length_Join_cuts_le:
  assumes "old \<noteq> []"
  shows "int (length (Join (cuts old k s) new)) \<le> int (length s) + int (greedy_count old s) * int (length new)"
proof -
  let ?j = "min k (greedy_count old s)"
  have "int (length (Join (cuts old k s) new)) = int (length s) + int ?j * (int (length new) - int (length old))"
    using length_Join_cuts [OF assms, of ?j s new] cuts_min [OF assms, of k s] by simp
  also have "\<dots> \<le> int (length s) + int ?j * int (length new)"
    by (intro add_left_mono mult_left_mono) simp_all
  also have "\<dots> \<le> int (length s) + int (greedy_count old s) * int (length new)"
    by (intro add_left_mono mult_right_mono) simp_all
  finally show ?thesis .
qed

context bytealg
begin

lemma Index_eq: "Index ops s sep = Inr (index_spec_loop s sep 0)"
  using Index_first [of s sep] is_first_index_unique [OF _ index_spec_first [of s sep]] by blast

lemma split_loop_cuts:
  assumes "save \<le> length sep"
  shows "split_loop ops sep save k s
    = Inr (map (\<lambda>p. p @ take save sep) (butlast (cuts sep k s)) @ [last (cuts sep k s)])"
proof (induction k arbitrary: s)
  case (Suc k)
  show ?case
  proof (cases rule: cuts_cases [of s sep])
    case (found i)
    have b: "i + length sep \<le> length s" by (rule occurs_at_bound [OF found(1)])
    have t: "take (i + save) s = take i s @ take save sep"
      using found(1) assms by (simp add: occurs_at_def take_add) (metis min.absorb1 take_take)
    show ?thesis
      unfolding cuts_found [OF found(1,2)] using b assms t Suc
      by (simp add: Index_eq found(3))
  next
    case absent
    then show ?thesis using cuts_absent [OF absent(1)] by (simp add: Index_eq)
  qed
qed simp

lemma genSplit_cuts:
  assumes "sep \<noteq> []" "n \<noteq> 0" "save \<le> length sep"
    and k: "k = (if n < 0 then greedy_count sep s else nat (n - 1))"
  shows "genSplit ops M s sep save n = Some (if int k + 1 \<le> M
    then Inr (map (\<lambda>p. p @ take save sep) (butlast (cuts sep k s)) @ [last (cuts sep k s)])
    else Inl (PanicValue ''makeslice: len out of range''))"
proof (cases "n < 0")
  case True
  then show ?thesis using assms(1,2) split_loop_cuts [OF assms(3)] Count_spec [of s sep]
    by (auto simp: genSplit_def k go_make_def)
next
  case False
  then have "int k + 1 = n" using assms(2) by (simp add: k)
  moreover have "k = nat (n - 1)" using False by (simp add: k)
  ultimately show ?thesis using assms(1,2) False split_loop_cuts [OF assms(3)]
    by (auto simp: genSplit_def go_make_def)
qed

lemma copy_into_fits: "length acc + length src \<le> cap \<Longrightarrow> copy_into cap acc src = acc @ src"
  by (simp add: copy_into_def)

lemma replace_loop_cuts:
  assumes "old \<noteq> []" "start \<le> length s" "k \<le> greedy_count old (drop start s)"
    and "length acc + length (Join (cuts old k (drop start s)) new) \<le> cap"
  shows "replace_loop ops s old new cap k i start acc = Inr (acc @ Join (cuts old k (drop start s)) new)"
  using assms(2-)
proof (induction k arbitrary: i start acc)
  case 0
  then show ?case by (simp add: Join_Cons copy_into_fits)
next
  case (Suc k)
  let ?t = "drop start s"
  show ?case
  proof (cases rule: cuts_cases [of ?t old])
    case (found m)
    have b: "m + length old \<le> length s - start" using occurs_at_bound [OF found(1)] by simp
    have c: "cuts old (Suc k) ?t = take m ?t # cuts old k (drop (start + m + length old) s)"
      using cuts_found [OF found(1,2), of k] by (simp add: add_ac)
    have g: "k \<le> greedy_count old (drop (start + m + length old) s)"
      using Suc.prems(2) greedy_found [OF assms(1) found(1,2)] by (simp add: add_ac)
    have j: "Join (cuts old (Suc k) ?t) new
        = take m ?t @ new @ Join (cuts old k (drop (start + m + length old) s)) new"
      unfolding c by (simp add: Join_step)
    have fit: "length acc + (m + length new + length (Join (cuts old k (drop (start + m + length old) s)) new)) \<le> cap"
      using Suc.prems(3) b unfolding j by simp
    have seg: "seg start (start + m) s = take m ?t" by (simp add: seg_def)
    have "copy_into cap (copy_into cap acc (take m ?t)) new = acc @ take m ?t @ new"
      using fit b by (simp add: copy_into_fits)
    moreover have "replace_loop ops s old new cap k (i + 1) (start + m + length old) (acc @ take m ?t @ new)
        = Inr ((acc @ take m ?t @ new) @ Join (cuts old k (drop (start + m + length old) s)) new)"
      by (rule Suc.IH) (use Suc.prems(1) b g fit in auto)
    moreover have "nat (int start + int m) = start + m" by simp
    ultimately show ?thesis
      using assms(1) b Suc.prems(1) unfolding j
      by (simp add: Index_eq found(3) seg flip: of_nat_add)
  next
    case absent
    with Suc.prems(2) greedy_absent [OF assms(1) absent(1)] show ?thesis by simp
  qed
qed

lemma Replace_cuts:
  assumes "old \<noteq> []" and k: "k = (if n < 0 then greedy_count old s else nat n)"
    and M: "int (length (Join (cuts old k s) new)) \<le> M" "M < 2 ^ 63"
  shows "Replace ops M s old new n = Some (Inr (Join (cuts old k s) new))"
proof -
  let ?g = "greedy_count old s"
  note full = cuts_min [OF assms(1)]
  have run: "replace_loop ops s old new (nat (int (length s) + int j * (int (length new) - int (length old)))) j 0 0 []
      = Inr (Join (cuts old j s) new)
      \<and> 0 \<le> int (length s) + int j * (int (length new) - int (length old))" if "j \<le> ?g" for j
  proof -
    have l: "int (length (Join (cuts old j s) new)) = int (length s) + int j * (int (length new) - int (length old))"
      by (rule length_Join_cuts [OF assms(1) that])
    then have "nat (int (length s) + int j * (int (length new) - int (length old))) = length (Join (cuts old j s) new)"
      by linarith
    then show ?thesis using replace_loop_cuts [OF assms(1), of 0 s j "[]"] that l by simp
  qed
  consider "old = new" | "old \<noteq> new" "n = 0" | "old \<noteq> new" "n \<noteq> 0" "?g = 0"
    | "old \<noteq> new" "n \<noteq> 0" "?g \<noteq> 0" by blast
  then show ?thesis
  proof cases
    case 1
    then show ?thesis using Join_cuts [of old] by (simp add: Replace_def)
  next
    case 2
    then show ?thesis by (simp add: Replace_def k Join_Cons)
  next
    case 3
    then show ?thesis using full [of k s] assms(1)
      by (simp add: Replace_def Count_spec Join_Cons)
  next
    case 4
    define j where "j = nat (if n < 0 \<or> int ?g < n then int ?g else n)"
    have j: "j \<le> ?g" "(if n < 0 \<or> int ?g < n then int ?g else n) = int j" using 4 by (auto simp: j_def)
    have "j = min k ?g" using 4 by (auto simp: k j_def)
    then have c: "cuts old j s = cuts old k s" by (simp only: full [of k s, symmetric])
    have l: "int (length s) + int j * (int (length new) - int (length old)) = int (length (Join (cuts old k s) new))"
      unfolding c [symmetric] by (rule length_Join_cuts [OF assms(1) j(1), symmetric])
    have w: "wrap64 (int (length (Join (cuts old k s) new))) = int (length (Join (cuts old k s) new))"
      using M by (intro wrap64_id) simp_all
    have "Replace ops M s old new n = Some (Inr (Join (cuts old j s) new))"
      using 4 assms(1) M(1) run [OF j(1)] unfolding Replace_def Count_spec by (simp add: Let_def j(2) l w go_make_def)
    then show ?thesis by (simp only: c)
  qed
qed

end

section \<open>Doubling\<close>

lemma concat_replicate_add:
  "concat (replicate (m + n) s) = concat (replicate m s) @ concat (replicate n s)"
  by (simp add: replicate_add)

lemma length_concat_replicate [simp]: "length (concat (replicate n s)) = n * length s"
  by (simp add: length_concat sum_list_replicate)

lemma repeat_loop_spec:
  assumes "s \<noteq> []" "1 \<le> j" "j \<le> c"
  shows "repeat_loop (int (length s * c)) (concat (replicate j s)) = Some (concat (replicate c s))"
  using assms(2,3)
proof (induction "c - j" arbitrary: j rule: less_induct)
  case less
  let ?b = "concat (replicate j s)"
  have pos: "0 < length s" using assms(1) by simp
  have lt: "int (length ?b) < int (length s * c) \<longleftrightarrow> j < c"
    using pos by (simp add: mult.commute)
  show ?case
  proof (cases "j < c")
    case False
    then have "j = c" using less.prems by simp
    then show ?thesis by (subst repeat_loop.simps) (simp add: mult.commute)
  next
    case True
    have half: "int (length ?b) \<le> int (length s * c) div 2 \<longleftrightarrow> 2 * length ?b \<le> length s * c"
      by linarith
    show ?thesis
    proof (cases "2 * length ?b \<le> length s * c")
      case dbl: True
      then have "length s * (2 * j) \<le> length s * c" by (simp add: mult.commute mult.left_commute)
      then have "j + j \<le> c" using pos by simp
      moreover have "?b @ ?b = concat (replicate (j + j) s)" by (simp add: concat_replicate_add)
      ultimately show ?thesis
        using less.hyps [of "j + j"] less.prems True dbl lt half by (subst repeat_loop.simps) simp
    next
      case False
      then have "\<not> length s * (2 * j) \<le> length s * c" by (simp add: mult.commute mult.left_commute)
      then have "c - j < j" using pos by auto
      then have "concat (replicate j s) = concat (replicate (c - j) s) @ concat (replicate (j - (c - j)) s)"
        by (simp flip: concat_replicate_add)
      moreover have "nat (int (length s * c) - int (length ?b)) = (c - j) * length s"
      proof -
        have "int (length s * c) - int (length ?b) = int ((c - j) * length s)"
          using True by (simp add: of_nat_diff algebra_simps)
        then show ?thesis by (simp only: nat_int)
      qed
      ultimately have "take (nat (int (length s * c) - int (length ?b))) ?b = concat (replicate (c - j) s)"
        by simp
      moreover have "?b @ concat (replicate (c - j) s) = concat (replicate c s)"
        using True by (simp flip: concat_replicate_add)
      ultimately show ?thesis using True False lt half by (subst repeat_loop.simps) simp
    qed
  qed
qed

lemma wrap_overflow:
  assumes "0 < c" "0 \<le> l" "l * c \<ge> 2 ^ 63"
  shows "go_quot (wrap64 (l * c)) c \<noteq> l"
proof
  let ?w = "wrap64 (l * c)"
  assume q: "go_quot ?w c = l"
  have "0 < l" using assms by (cases "l = 0") auto
  show False
  proof (cases "?w < 0")
    case True
    then have "go_quot ?w c \<le> 0" using assms(1) by (simp add: go_quot_def pos_imp_zdiv_nonneg_iff)
    then show False using q \<open>0 < l\<close> by simp
  next
    case False
    then have "?w div c = l" using q assms(1) by (simp add: go_quot_def)
    then have "l * c \<le> ?w" using assms(1) by (metis div_mult_mod_eq le_add_same_cancel1 pos_mod_sign mult.commute)
    then show False using assms(3) wrap64_range(2) [of "l * c"] by simp
  qed
qed

section \<open>The ASCII path of \<open>Fields\<close>\<close>

lemma byte_bit7: "b < RuneSelf \<longleftrightarrow> \<not> bit b 7" for b :: byte
proof -
  have "unat b < 256" using unsigned_less [where 'a = nat, of b] by simp
  then have "unat b < 128 \<longleftrightarrow> even (unat b div 128)"
    by (cases "unat b < 128") (simp_all add: div_nat_eqI [of 128 1] not_less)
  then show ?thesis
    using bit_unsigned_iff [where 'a = nat, of b 7] by (auto simp: word_less_nat_alt bit_iff_odd)
qed

lemma or_ascii: "b OR c < RuneSelf \<longleftrightarrow> b < RuneSelf \<and> c < RuneSelf" for b c :: byte
  unfolding byte_bit7 by (simp add: bit_or_iff)

lemma fields_count_bits:
  "snd (snd (fields_count s)) < RuneSelf \<longleftrightarrow> (\<forall>c \<in> set s. c < RuneSelf)"
proof -
  have "snd (snd (foldl (\<lambda>(n, wasSpace, setBits) r.
     (n + (if wasSpace = 1 \<and> asciiSpace r = 0 then 1 else 0), asciiSpace r, setBits OR r)) (n, w, bits) xs)) < RuneSelf
     \<longleftrightarrow> bits < RuneSelf \<and> (\<forall>c \<in> set xs. c < RuneSelf)"
    for xs and n w :: nat and bits :: byte
    by (induction xs arbitrary: n w bits) (auto simp: or_ascii simp del: RuneSelf_def)
  then show ?thesis by (simp add: fields_count_def)
qed

lemma range_string_ascii:
  assumes "\<forall>c \<in> set s. c < RuneSelf"
  shows "range_string s k = map (\<lambda>i. (i, ucast (s ! i))) [k..<length s]"
proof (induction "length s - k" arbitrary: k)
  case 0
  then show ?case by (subst range_string.simps) simp
next
  case (Suc n)
  then have k: "k < length s" by simp
  then have "s ! k < RuneSelf" using assms by simp
  moreover have "n = length s - (k + 1)" using Suc.hyps(2) by simp
  ultimately show ?case
    using Suc.hyps(1) k by (subst range_string.simps) (simp add: upt_conv_Cons)
qed

lemma IsSpace_ascii: "c < RuneSelf \<Longrightarrow> IsSpace (ucast c) \<longleftrightarrow> asciiSpace c \<noteq> 0"
proof -
  assume c: "c < RuneSelf"
  have u: "unat (ucast c :: rune) = unat c" by (rule unat_ucast_rune)
  have "is_latin1 (ucast c)"
    using c u by (simp add: is_latin1_def word_le_nat_alt word_less_nat_alt)
  moreover have "(ucast c :: rune) = word_of_nat n \<longleftrightarrow> unat c = n" if "n < 256" for n
    using that u by (simp add: word_unat_eq_iff unat_of_nat)
  ultimately show ?thesis
    using c u unfolding IsSpace_def asciiSpace_def by (simp add: word_unat_eq_iff word_less_nat_alt)
qed

function field_end :: "bytes \<Rightarrow> nat \<Rightarrow> nat" where
  "field_end s i = (if i < length s \<and> asciiSpace (s ! i) = 0 then field_end s (i + 1) else i)"
  by pat_completeness auto
termination by (relation "measure (\<lambda>(s, i). length s - i)") auto

declare field_end.simps [simp del]

lemma field_end_le: "i \<le> field_end s i"
proof (induction s i rule: field_end.induct)
  case (1 s i)
  then show ?case by (subst field_end.simps) auto
qed

text \<open>The fields from position \<open>i\<close> on, as pairs of start and end.\<close>

function spans_from :: "bytes \<Rightarrow> nat \<Rightarrow> (nat \<times> nat) list" where
  "spans_from s i =
     (let j = skip_spaces s i in
      if j < length s \<and> asciiSpace (s ! j) = 0 then (j, field_end s j) # spans_from s (field_end s j) else [])"
  by pat_completeness auto
termination
proof (relation "measure (\<lambda>(s, i). length s - i)", goal_cases)
  case (2 s i j)
  have "field_end s j = field_end s (j + 1)" using 2 by (subst field_end.simps) simp
  then have "i < field_end s j" using skip_spaces_le [of i s] field_end_le [of "j + 1" s] 2 by simp
  moreover have "i < length s" using 2 skip_spaces_le [of i s] by simp
  ultimately show ?case using 2 by (simp add: diff_less_mono2)
qed simp

declare spans_from.simps [simp del]

lemma skip_spaces_stop: "skip_spaces s i < length s \<Longrightarrow> asciiSpace (s ! skip_spaces s i) = 0"
proof (induction s i rule: skip_spaces.induct)
  case (1 s i)
  show ?case
  proof (cases "i < length s \<and> asciiSpace (s ! i) \<noteq> 0")
    case True
    then have "skip_spaces s i = skip_spaces s (i + 1)" by (subst skip_spaces.simps) simp
    then show ?thesis using 1 True by simp
  next
    case False
    then have "skip_spaces s i = i" by (subst skip_spaces.simps) auto
    then show ?thesis using 1(2) False by simp
  qed
qed

lemma scan_rules:
  "i < length s \<Longrightarrow> asciiSpace (s ! i) \<noteq> 0 \<Longrightarrow> field_end s i = i"
  "i < length s \<Longrightarrow> asciiSpace (s ! i) = 0 \<Longrightarrow> field_end s i = field_end s (Suc i)"
  "length s \<le> i \<Longrightarrow> field_end s i = i"
  "i < length s \<Longrightarrow> asciiSpace (s ! i) \<noteq> 0 \<Longrightarrow> skip_spaces s i = skip_spaces s (Suc i)"
  "i < length s \<Longrightarrow> asciiSpace (s ! i) = 0 \<Longrightarrow> skip_spaces s i = i"
  "length s \<le> i \<Longrightarrow> skip_spaces s i = i"
  by (subst field_end.simps, simp)+ (subst skip_spaces.simps, simp)+

lemma spans_from_rules:
  "i < length s \<Longrightarrow> asciiSpace (s ! i) \<noteq> 0 \<Longrightarrow> spans_from s i = spans_from s (Suc i)"
  "i < length s \<Longrightarrow> asciiSpace (s ! i) = 0 \<Longrightarrow> spans_from s i = (i, field_end s i) # spans_from s (field_end s i)"
  "length s \<le> i \<Longrightarrow> spans_from s i = []"
proof -
  show "spans_from s i = spans_from s (Suc i)" if "i < length s" "asciiSpace (s ! i) \<noteq> 0"
    using that by (simp add: spans_from.simps [of s i] spans_from.simps [of s "Suc i"] scan_rules(4))
qed (simp_all add: spans_from.simps [of s i] scan_rules)

lemma spans_from_skip:
  "spans_from s i = (if skip_spaces s i < length s
     then (skip_spaces s i, field_end s (skip_spaces s i)) # spans_from s (field_end s (skip_spaces s i)) else [])"
  using skip_spaces_stop [of s i] by (subst spans_from.simps) (simp add: Let_def)

lemma fields_fold:
  assumes "\<forall>c \<in> set s. c < RuneSelf" "i \<le> length s"
  shows "(case foldl (fields_step IsSpace) (spans, from', fld) (map (\<lambda>i. (i, ucast (s ! i))) [i..<length s])
      of (spans, from', fld) \<Rightarrow> if fld then spans @ [(from', length s)] else spans)
    = spans @ (if fld then (from', field_end s i) # spans_from s (field_end s i) else spans_from s i)"
  using assms(2)
proof (induction "length s - i" arbitrary: i spans from' fld)
  case 0
  then show ?case by (simp add: scan_rules spans_from_rules)
next
  case (Suc n)
  then have i: "i < length s" "n = length s - Suc i" by auto
  have sp: "IsSpace (ucast (s ! i)) \<longleftrightarrow> asciiSpace (s ! i) \<noteq> 0"
    using IsSpace_ascii assms(1) i(1) by simp
  show ?case
    using Suc.hyps(1) [OF i(2)] i sp
    by (cases "asciiSpace (s ! i) = 0"; cases fld)
       (simp_all add: upt_conv_Cons fields_step_def scan_rules spans_from_rules)
qed

lemma FieldsFunc_ascii:
  assumes "\<forall>c \<in> set s. c < RuneSelf"
  shows "FieldsFunc s IsSpace = map (\<lambda>(start, end'). seg start end' s) (spans_from s 0)"
  using fields_fold [OF assms, of 0 "[]" 0 False]
  unfolding FieldsFunc_def range_string_ascii [OF assms] by (simp add: split_beta Let_def)

lemma fields_count_spans: "fst (fields_count s) = length (spans_from s 0)"
proof -
  have "fst (foldl (\<lambda>(n, wasSpace, setBits) r.
     (n + (if wasSpace = 1 \<and> asciiSpace r = 0 then 1 else 0), asciiSpace r, setBits OR r)) (n, w, bits) (drop i s))
     = n + (if w = 1 then length (spans_from s i) else length (spans_from s (field_end s i)))"
    if "i \<le> length s" "w \<le> 1" for n w i and bits :: byte
    using that
  proof (induction "length s - i" arbitrary: i n w bits)
    case 0
    then show ?case by (simp add: spans_from_rules scan_rules)
  next
    case (Suc k)
    then have i: "i < length s" "k = length s - Suc i" by auto
    then have d: "drop i s = s ! i # drop (Suc i) s" by (simp add: Cons_nth_drop_Suc)
    have w: "w = 0 \<or> w = 1" using Suc.prems by linarith
    have le: "asciiSpace (s ! i) \<le> 1" "asciiSpace (s ! i) \<noteq> 0 \<Longrightarrow> asciiSpace (s ! i) = 1"
      by (simp add: asciiSpace_def) (simp add: asciiSpace_def split: if_splits)
    show ?case
      unfolding d using Suc.hyps(1) [OF i(2) _ le(1)] i w le(2)
      by (cases "asciiSpace (s ! i) = 0") (auto simp: scan_rules spans_from_rules)
  qed
  from this [of 0 1 0 0] show ?thesis by (simp add: fields_count_def)
qed

lemma fields_loop_spec:
  assumes "fs \<le> i" "i \<le> length s" "fs < length s \<longrightarrow> asciiSpace (s ! fs) = 0"
    and "na + length (if fs < length s then (fs, field_end s i) # spans_from s (field_end s i) else []) = length a"
  shows "\<exists>a' na' fs'. fields_loop s i fs a na = Inr (a', na', fs')
     \<and> (if fs' < length s then go_set a' na' (drop fs' s) else Inr a')
       = Inr (take na a @ map (\<lambda>(start, end'). seg start end' s)
           (if fs < length s then (fs, field_end s i) # spans_from s (field_end s i) else []))"
  using assms
proof (induction "length s - i" arbitrary: i fs a na rule: less_induct)
  case less
  show ?case
  proof (cases "i < length s")
    case False
    then have "fields_loop s i fs a na = Inr (a, na, fs)" by (subst fields_loop.simps) simp
    moreover have "fs < length s \<Longrightarrow> a[na := drop fs s] = take na a @ [drop fs s]"
      using less.prems(4) False less.prems(2)
      by (simp add: scan_rules spans_from_rules list_eq_iff_nth_eq nth_append nth_list_update less_Suc_eq flip: less.prems(4))
    ultimately show ?thesis using False less.prems by (auto simp: scan_rules spans_from_rules)
  next
    case True
    then have fsl: "fs < length s" using less.prems(1) by simp
    show ?thesis
    proof (cases "asciiSpace (s ! i) = 0")
      case ns: True
      then have "fields_loop s i fs a na = fields_loop s (i + 1) fs a na"
        using True by (subst fields_loop.simps) simp
      then show ?thesis
        using less.hyps [of "i + 1" fs na a] less.prems True ns fsl by (simp add: scan_rules(2))
    next
      case sp: False
      let ?i = "skip_spaces s (i + 1)"
      have "na < length a" using less.prems(4) fsl by simp
      then have step: "fields_loop s i fs a na = fields_loop s ?i ?i (a[na := seg fs i s]) (na + 1)"
        using True sp by (subst fields_loop.simps) (simp add: Let_def)
      have "skip_spaces s i = ?i" using True sp by (simp add: scan_rules(4))
      then have rest: "spans_from s i = (if ?i < length s then (?i, field_end s ?i) # spans_from s (field_end s ?i) else [])"
        using spans_from_skip [of s i] by simp
      have fe: "field_end s i = i" using True sp by (simp add: scan_rules(1))
      have "?i \<le> length s"
        using True by (intro skip_spaces_len) simp
      moreover have "length s - ?i < length s - i" using skip_spaces_le [of "i + 1" s] True by simp
      ultimately have "\<exists>a' na' fs'. fields_loop s ?i ?i (a[na := seg fs i s]) (na + 1) = Inr (a', na', fs')
          \<and> (if fs' < length s then go_set a' na' (drop fs' s) else Inr a')
            = Inr (take (na + 1) (a[na := seg fs i s]) @ map (\<lambda>(start, end'). seg start end' s)
               (if ?i < length s then (?i, field_end s ?i) # spans_from s (field_end s ?i) else []))"
        using less.hyps [of ?i ?i "na + 1" "a[na := seg fs i s]"] less.prems(4) fsl skip_spaces_stop [of s "i + 1"]
        by (simp add: fe rest)
      then show ?thesis
        unfolding step using fsl \<open>na < length a\<close> by (simp add: fe rest take_Suc_update)
    qed
  qed
qed

lemma Fields_FieldsFunc: "Fields s = Inr (FieldsFunc s IsSpace)"
proof (cases "\<forall>c \<in> set s. c < RuneSelf")
  case False
  then have "RuneSelf \<le> snd (snd (fields_count s))"
    using fields_count_bits [of s] by (auto simp: not_less simp del: RuneSelf_def)
  then show ?thesis by (simp add: Fields_def split_beta Let_def del: RuneSelf_def)
next
  case True
  then have nb: "\<not> RuneSelf \<le> snd (snd (fields_count s))"
    using fields_count_bits [of s] by (simp add: not_le del: RuneSelf_def)
  let ?i = "skip_spaces s 0"
  let ?L = "if ?i < length s then (?i, field_end s ?i) # spans_from s (field_end s ?i) else []"
  have L: "spans_from s 0 = ?L" by (rule spans_from_skip)
  have le: "?i \<le> length s" by (rule skip_spaces_len) simp
  have "\<exists>a' na' fs'. fields_loop s ?i ?i (replicate (fst (fields_count s)) []) 0 = Inr (a', na', fs')
     \<and> (if fs' < length s then go_set a' na' (drop fs' s) else Inr a')
       = Inr (map (\<lambda>(start, end'). seg start end' s) ?L)"
    using fields_loop_spec [of ?i ?i s 0 "replicate (fst (fields_count s)) []"] le skip_spaces_stop [of s 0]
    by (simp add: fields_count_spans L)
  then show ?thesis
    using nb unfolding Fields_def FieldsFunc_ascii [OF True] L
    by (auto simp: split_beta Let_def simp del: RuneSelf_def)
qed

lemma repeat_ok:
  assumes "0 \<le> count" "int (length s) * count < 2 ^ 63"
  shows "Repeat s count = Some (Inr (concat (replicate (nat count) s)))"
proof (cases "count = 0")
  case False
  then have c: "0 < count" using assms(1) by simp
  have w: "wrap64 (int (length s) * count) = int (length s) * count"
    using assms c by (intro wrap64_id) (auto intro: order_trans [of _ 0])
  have q: "go_quot (int (length s) * count) count = int (length s)"
    using c by (simp add: go_quot_def abs_mult not_less)
  have n: "int (length s) * count = int (length s * nat count)" using c by simp
  have "repeat_loop (int (length s * nat count)) s = Some (concat (replicate (nat count) s))"
  proof (cases "s = []")
    case True
    then show ?thesis by (subst repeat_loop.simps) simp
  next
    case ne: False
    have "1 \<le> nat count" using c by simp
    from repeat_loop_spec [OF ne le_refl this] show ?thesis by simp
  qed
  then have "repeat_loop (int (length s) * count) s = Some (concat (replicate (nat count) s))"
    unfolding n .
  then show ?thesis using c by (simp add: Repeat_def w q)
qed (simp add: Repeat_def)

section \<open>Properties\<close>



text \<open>
  \<open>Replace\<close> fills exactly the buffer it sized, without panicking, and equals splitting at the old
  string and joining with the new one, as long as the slices it sizes can be allocated; \<open>n < 0\<close> replaces every occurrence, otherwise the first \<open>n\<close>.
\<close>

theorem replace_is_split_join:
  assumes "bytealg ops" "old \<noteq> []" "(if n < 0 then int (greedy_count old s) else n) < M"
    "int (length s) + int (greedy_count old s) * int (length new) \<le> K" "K < 2 ^ 63"
  shows "\<exists>parts. SplitN ops M s old (if n < 0 then -1 else n + 1) = Some (Inr parts)
    \<and> Replace ops K s old new n = Some (Inr (Join parts new))"
proof -
  let ?k = "if n < 0 then greedy_count old s else nat n"
  have "SplitN ops M s old (if n < 0 then -1 else n + 1) = Some (Inr (cuts old ?k s))"
    using bytealg.genSplit_cuts [OF assms(1,2), of "if n < 0 then -1 else n + 1" 0 ?k s M] assms(3)
    by (simp add: SplitN_def split: if_splits)
  moreover have "int (length (Join (cuts old ?k s) new)) \<le> K"
    using length_Join_cuts_le [OF assms(2)] assms(4) by (rule order_trans)
  ultimately show ?thesis using bytealg.Replace_cuts [OF assms(1,2) refl _ assms(5)] by blast
qed

theorem replace_is_split_join_witness:
  "\<exists>parts. SplitN (s390x_ops True index_spec index_spec) 9 [1, 2, 1, 2, 1] [1, 2] (if 1 < (0 :: int) then -1 else 1 + 1)
      = Some (Inr parts)
    \<and> Replace (s390x_ops True index_spec index_spec) 99 [1, 2, 1, 2, 1] [1, 2] [7, 8, 9] 1 = Some (Inr (Join parts [7, 8, 9]))"
  by (rule replace_is_split_join) (simp_all add: s390x.bytealg_axioms greedy_count.simps HasPrefix_def)

text \<open>
  \<open>Repeat\<close> panics for a negative count and when the length of the result does not fit in an
  int, and otherwise terminates (it doubles its buffer) with that many copies of the string.
\<close>

theorem repeat_copies:
  "Repeat s count =
    (if count < 0 then Some (Inl (PanicValue ''strings: negative Repeat count''))
     else if 2 ^ 63 \<le> int (length s) * count
     then Some (Inl (PanicValue ''strings: Repeat count causes overflow''))
     else Some (Inr (concat (replicate (nat count) s))))"
proof (cases "0 < count \<and> 2 ^ 63 \<le> int (length s) * count")
  case True
  then show ?thesis using wrap_overflow [of count "int (length s)"] by (simp add: Repeat_def)
next
  case False
  then show ?thesis
  proof (cases "count < 0")
    case True
    then show ?thesis by (simp add: Repeat_def)
  next
    case nn: False
    then have "int (length s) * count < 2 ^ 63" using False by (cases "count = 0") auto
    then show ?thesis using repeat_ok [of count s] nn by simp
  qed
qed

text \<open>
  The ASCII path of \<open>Fields\<close>, which counts the fields first and then fills a slice of exactly
  that many elements, never indexes outside it and returns what \<open>FieldsFunc\<close> with \<open>unicode.IsSpace\<close>
  returns; so does the path for other strings.
\<close>

theorem Fields_is_FieldsFunc: "Fields s = Inr (FieldsFunc s IsSpace)"
  by (rule Fields_FieldsFunc)

text \<open>
  The comment on \<open>explode\<close> promises that invalid sequences become the encoding of \<open>U+FFFD\<close>; the last
  piece is stored as it is.
\<close>

lemma explode_keeps_last_invalid:
  "explode 2 [0xFF, 0xFF] (-1) = Inr [[0xEF, 0xBF, 0xBD], [0xFF]]"
  by code_simp

end
