(* ===== verification/StringsRunes.thy ===== *)
theory StringsRunes
  imports Utf8Segs StringsSplit
begin

text \<open>
  The functions of the \<open>strings\<close> package that look at a string rune by rune (\<open>strings/strings.go\<close>):
  searching for a rune, for any of a set of runes or for a rune that satisfies a predicate, and
  trimming.  A predicate is a Go function value: it may panic.
\<close>

section \<open>Searching\<close>

text \<open>The index of the first item of a \<open>range\<close> loop that satisfies a test, \<open>-1\<close> if there is none.\<close>

definition first_item :: "(rune \<Rightarrow> bool) \<Rightarrow> (nat \<times> rune) list \<Rightarrow> int" where
  "first_item f xs = (case find (\<lambda>(i, r). f r) xs of None \<Rightarrow> -1 | Some (i, r) \<Rightarrow> int i)"

definition IndexRune :: "bytealg_ops \<Rightarrow> bytes \<Rightarrow> rune \<Rightarrow> int go" where
  "IndexRune ops s r =
     (if 0 \<le>s r \<and> r <s ucast RuneSelf then Inr (strings_IndexByte s (ucast r))
      else if r = RuneError then Inr (first_item (\<lambda>r. r = RuneError) (range_string s 0))
      else if \<not> ValidRune r then Inr (-1)
      else Index ops s (rune_bytes r))"

definition ContainsRune :: "bytealg_ops \<Rightarrow> bytes \<Rightarrow> rune \<Rightarrow> bool go" where
  "ContainsRune ops s r = go_bind (IndexRune ops s r) (\<lambda>i. Inr (i \<ge> 0))"

text \<open>A set of ASCII characters as 8 words of 32 bits.\<close>

type_synonym asciiSet = "u32 list"

fun asciiset_loop :: "asciiSet \<Rightarrow> bytes \<Rightarrow> asciiSet \<times> bool" where
  "asciiset_loop as [] = (as, True)"
| "asciiset_loop as (c # chars) =
     (if c \<ge> RuneSelf then (as, False)
      else let k = unat (drop_bit 5 c) in
        asciiset_loop (as[k := as ! k OR push_bit (unat (c AND 31)) 1]) chars)"

definition makeASCIISet :: "bytes \<Rightarrow> asciiSet \<times> bool" where
  "makeASCIISet chars = asciiset_loop (replicate 8 0) chars"

definition asciiSet_contains :: "asciiSet \<Rightarrow> byte \<Rightarrow> bool" where
  "asciiSet_contains as c \<longleftrightarrow> as ! unat (drop_bit 5 c) AND push_bit (unat (c AND 31)) 1 \<noteq> 0"

definition IndexAny :: "bytes \<Rightarrow> bytes \<Rightarrow> int" where
  "IndexAny s chars =
     (if chars = [] then -1
      else let (as, isASCII) = makeASCIISet chars in
      if length s > 8 \<and> isASCII then
        (case find (\<lambda>i. asciiSet_contains as (s ! i)) [0..<length s] of None \<Rightarrow> -1 | Some i \<Rightarrow> int i)
      else first_item (\<lambda>c. list_ex (\<lambda>(_, m). c = m) (range_string chars 0)) (range_string s 0))"

definition ContainsAny :: "bytes \<Rightarrow> bytes \<Rightarrow> bool" where
  "ContainsAny s chars \<longleftrightarrow> IndexAny s chars \<ge> 0"

text \<open>The loops that go backwards; \<open>i\<close> bytes are left to look at.\<close>

lemma DecodeLastRune_progress: "0 < i \<Longrightarrow> i \<le> length s \<Longrightarrow> 0 < snd (DecodeLastRuneInString (take i s))"
  using segs_last [of "take i s" "fst (DecodeLastRune (take i s))" "snd (DecodeLastRune (take i s))"]
  by (cases "s = []") (auto simp: string_versions)

function lastany_loop :: "bytes \<Rightarrow> bytes \<Rightarrow> nat \<Rightarrow> int" where
  "lastany_loop s chars i =
     (if 0 < i \<and> i \<le> length s then
        let (r, n) = DecodeLastRuneInString (take i s); i = i - n in
        if list_ex (\<lambda>(_, c). r = c) (range_string chars 0) then int i else lastany_loop s chars i
      else -1)"
  by pat_completeness auto
termination
proof (relation "measure (\<lambda>(s, chars, i). i)", goal_cases)
  case (2 s chars i x r n i')
  then show ?case using DecodeLastRune_progress [of i s] by (metis diff_less in_measure prod.case snd_conv)
qed simp

definition LastIndexAny :: "bytes \<Rightarrow> bytes \<Rightarrow> int" where
  "LastIndexAny s chars =
     (if chars = [] then -1
      else let (as, isASCII) = makeASCIISet chars in
      if length s > 8 \<and> isASCII then
        (case find (\<lambda>i. asciiSet_contains as (s ! i)) (rev [0..<length s]) of None \<Rightarrow> -1 | Some i \<Rightarrow> int i)
      else lastany_loop s chars (length s))"

type_synonym rune_pred = "rune \<Rightarrow> bool go"

fun indexfunc_loop :: "rune_pred \<Rightarrow> bool \<Rightarrow> (nat \<times> rune) list \<Rightarrow> int go" where
  "indexfunc_loop f truth [] = Inr (-1)"
| "indexfunc_loop f truth ((i, r) # xs) =
     go_bind (f r) (\<lambda>b. if b = truth then Inr (int i) else indexfunc_loop f truth xs)"

definition indexFunc :: "bytes \<Rightarrow> rune_pred \<Rightarrow> bool \<Rightarrow> int go" where
  "indexFunc s f truth = indexfunc_loop f truth (range_string s 0)"

function lastindexfunc_loop :: "bytes \<Rightarrow> rune_pred \<Rightarrow> bool \<Rightarrow> nat \<Rightarrow> int go" where
  "lastindexfunc_loop s f truth i =
     (if 0 < i \<and> i \<le> length s then
        let (r, n) = DecodeLastRuneInString (take i s); i = i - n in
        go_bind (f r) (\<lambda>b. if b = truth then Inr (int i) else lastindexfunc_loop s f truth i)
      else Inr (-1))"
  by pat_completeness auto
termination
proof (relation "measure (\<lambda>(s, f, truth, i). i)", goal_cases)
  case (2 s f truth i x r n i' b)
  then show ?case using DecodeLastRune_progress [of i s] by (metis diff_less in_measure prod.case snd_conv)
qed simp

declare lastany_loop.simps [simp del] lastindexfunc_loop.simps [simp del]

definition lastIndexFunc :: "bytes \<Rightarrow> rune_pred \<Rightarrow> bool \<Rightarrow> int go" where
  "lastIndexFunc s f truth = lastindexfunc_loop s f truth (length s)"

definition IndexFunc :: "bytes \<Rightarrow> rune_pred \<Rightarrow> int go" where
  "IndexFunc s f = indexFunc s f True"

definition LastIndexFunc :: "bytes \<Rightarrow> rune_pred \<Rightarrow> int go" where
  "LastIndexFunc s f = lastIndexFunc s f True"

section \<open>Trimming\<close>

definition TrimLeftFunc :: "bytes \<Rightarrow> rune_pred \<Rightarrow> bytes go" where
  "TrimLeftFunc s f = go_bind (indexFunc s f False) (\<lambda>i. Inr (if i = -1 then [] else drop (nat i) s))"

definition TrimRightFunc :: "bytes \<Rightarrow> rune_pred \<Rightarrow> bytes go" where
  "TrimRightFunc s f = go_bind (lastIndexFunc s f False) (\<lambda>i.
     let i = (if i \<ge> 0 \<and> s ! nat i \<ge> RuneSelf then i + int (snd (DecodeRuneInString (drop (nat i) s))) else i + 1) in
     Inr (take (nat i) s))"

definition TrimFunc :: "bytes \<Rightarrow> rune_pred \<Rightarrow> bytes go" where
  "TrimFunc s f = go_bind (TrimLeftFunc s f) (\<lambda>s. TrimRightFunc s f)"

definition makeCutsetFunc :: "bytealg_ops \<Rightarrow> bytes \<Rightarrow> rune_pred" where
  "makeCutsetFunc ops cutset =
     (if length cutset = 1 \<and> cutset ! 0 < RuneSelf then (\<lambda>r. Inr (r = ucast (cutset ! 0)))
      else let (as, isASCII) = makeASCIISet cutset in
      if isASCII then (\<lambda>r. Inr (r <s ucast RuneSelf \<and> asciiSet_contains as (ucast r)))
      else (\<lambda>r. go_bind (IndexRune ops cutset r) (\<lambda>i. Inr (i \<ge> 0))))"

definition Trim :: "bytealg_ops \<Rightarrow> bytes \<Rightarrow> bytes \<Rightarrow> bytes go" where
  "Trim ops s cutset = (if s = [] \<or> cutset = [] then Inr s else TrimFunc s (makeCutsetFunc ops cutset))"

definition TrimLeft :: "bytealg_ops \<Rightarrow> bytes \<Rightarrow> bytes \<Rightarrow> bytes go" where
  "TrimLeft ops s cutset = (if s = [] \<or> cutset = [] then Inr s else TrimLeftFunc s (makeCutsetFunc ops cutset))"

definition TrimRight :: "bytealg_ops \<Rightarrow> bytes \<Rightarrow> bytes \<Rightarrow> bytes go" where
  "TrimRight ops s cutset = (if s = [] \<or> cutset = [] then Inr s else TrimRightFunc s (makeCutsetFunc ops cutset))"

text \<open>The two scans of \<open>TrimSpace\<close>: \<open>Inl k\<close> when a byte that is not ASCII stops the scan at \<open>k\<close>.\<close>

function space_start :: "bytes \<Rightarrow> nat \<Rightarrow> nat + nat" where
  "space_start s start =
     (if start < length s then
        if s ! start \<ge> RuneSelf then Inl start
        else if asciiSpace (s ! start) = 0 then Inr start else space_start s (start + 1)
      else Inr start)"
  by pat_completeness auto
termination by (relation "measure (\<lambda>(s, i). length s - i)") auto

fun space_stop :: "bytes \<Rightarrow> nat \<Rightarrow> nat \<Rightarrow> nat + nat" where
  "space_stop s start 0 = Inr 0"
| "space_stop s start (Suc k) =
     (if start < Suc k then
        if s ! k \<ge> RuneSelf then Inl (Suc k)
        else if asciiSpace (s ! k) = 0 then Inr (Suc k) else space_stop s start k
      else Inr (Suc k))"

declare space_start.simps [simp del]

definition TrimSpace :: "bytes \<Rightarrow> bytes go" where
  "TrimSpace s = (case space_start s 0 of
     Inl start \<Rightarrow> TrimFunc (drop start s) (\<lambda>r. Inr (IsSpace r))
   | Inr start \<Rightarrow> (case space_stop s start (length s) of
       Inl stop \<Rightarrow> TrimFunc (seg start stop s) (\<lambda>r. Inr (IsSpace r))
     | Inr stop \<Rightarrow> Inr (seg start stop s)))"

section \<open>Sets of ASCII characters\<close>

lemma byte_split: "unat (drop_bit 5 c) = unat c div 32" "unat (c AND 31) = unat c mod 32" for c :: byte
  using unat_and_mask [of c 5] by (simp_all add: view_simps mask_eq_exp_minus_1)

lemma byte_eq_split: "c = d \<longleftrightarrow> unat (drop_bit 5 c) = unat (drop_bit 5 d) \<and> unat (c AND 31) = unat (d AND 31)"
  for c d :: byte
proof -
  have "unat c = unat d \<longleftrightarrow> unat c div 32 = unat d div 32 \<and> unat c mod 32 = unat d mod 32"
    by (metis div_mult_mod_eq)
  then show ?thesis unfolding byte_split by (simp add: word_unat_eq_iff)
qed

lemma contains_bit: "asciiSet_contains as c \<longleftrightarrow> bit (as ! unat (drop_bit 5 c)) (unat (c AND 31))"
proof -
  have "unat (c AND 31) < LENGTH(32)" by (simp add: byte_split)
  then have "as ! unat (drop_bit 5 c) AND push_bit (unat (c AND 31)) 1 \<noteq> (0 :: u32)
      \<longleftrightarrow> bit (as ! unat (drop_bit 5 c)) (unat (c AND 31))"
    by (simp add: and_exp_eq_0_iff_not_bit push_bit_eq_mult)
  then show ?thesis by (simp add: asciiSet_contains_def)
qed

lemma asciiset_add:
  assumes "length as = 8"
  shows "asciiSet_contains (as[unat (drop_bit 5 c) := as ! unat (drop_bit 5 c) OR push_bit (unat (c AND 31)) 1]) d
     \<longleftrightarrow> asciiSet_contains as d \<or> d = c"
proof -
  have "unat c < 256" using unsigned_less [where 'a = nat, of c] by simp
  then have k: "unat (drop_bit 5 c) < length as" using assms by (simp add: byte_split)
  have len: "unat (c AND 31) < LENGTH(32)" "unat (d AND 31) < LENGTH(32)" by (simp_all add: byte_split)
  show ?thesis
    using k len unfolding contains_bit byte_eq_split
    by (cases "unat (drop_bit 5 d) = unat (drop_bit 5 c)")
      (auto simp: bit_or_iff bit_push_bit_iff bit_1_iff bit_exp_iff)
qed

lemma asciiset_loop_ok: "snd (asciiset_loop as cs) \<longleftrightarrow> (\<forall>c\<in>set cs. c < RuneSelf)"
  by (induction cs arbitrary: as) (auto simp: Let_def not_less simp del: RuneSelf_def)

lemma asciiset_loop_contains:
  "length as = 8 \<Longrightarrow> snd (asciiset_loop as cs) \<Longrightarrow>
    asciiSet_contains (fst (asciiset_loop as cs)) d \<longleftrightarrow> asciiSet_contains as d \<or> d \<in> set cs"
proof (induction cs arbitrary: as)
  case (Cons c cs)
  have "\<not> c \<ge> RuneSelf" using Cons.prems(2) by (auto split: if_splits)
  then show ?case using Cons.prems Cons.IH [of "as[unat (drop_bit 5 c) := as ! unat (drop_bit 5 c) OR push_bit (unat (c AND 31)) 1]"]
    asciiset_add [OF Cons.prems(1), of c d] by (auto simp: Let_def simp del: RuneSelf_def push_bit_of_1)
qed simp

lemma makeASCIISet_spec:
  "snd (makeASCIISet cs) \<longleftrightarrow> (\<forall>c\<in>set cs. c < RuneSelf)"
  "snd (makeASCIISet cs) \<Longrightarrow> asciiSet_contains (fst (makeASCIISet cs)) d \<longleftrightarrow> d \<in> set cs"
proof -
  have "\<not> asciiSet_contains (replicate 8 0) d"
  proof -
    have "unat d < 256" using unsigned_less [where 'a = nat, of d] by simp
    then show ?thesis by (simp add: contains_bit byte_split)
  qed
  then show "snd (makeASCIISet cs) \<longleftrightarrow> (\<forall>c\<in>set cs. c < RuneSelf)"
    "snd (makeASCIISet cs) \<Longrightarrow> asciiSet_contains (fst (makeASCIISet cs)) d \<longleftrightarrow> d \<in> set cs"
    using asciiset_loop_ok [of "replicate 8 0" cs] asciiset_loop_contains [of "replicate 8 0" cs]
    by (simp_all add: makeASCIISet_def del: RuneSelf_def)
qed

section \<open>What the searches find\<close>

lemma first_item_Nil [simp]: "first_item f [] = -1"
  by (simp add: first_item_def)

lemma first_item_Cons [simp]: "first_item f ((i, r) # xs) = (if f r then int i else first_item f xs)"
  by (simp add: first_item_def)

lemma first_item_append: "first_item f (xs @ ys) = (if first_item f xs = -1 then first_item f ys else first_item f xs)"
  by (induction xs) auto

lemma first_item_none: "first_item f xs = -1 \<longleftrightarrow> \<not> list_ex (\<lambda>(i, r). f r) xs"
  by (induction xs) (auto split: if_splits)

lemma first_item_cong: "(\<And>i r. (i, r) \<in> set xs \<Longrightarrow> f r = g r) \<Longrightarrow> first_item f xs = first_item g xs"
proof (induction xs)
  case (Cons x xs)
  then have "first_item f xs = first_item g xs" by auto
  then show ?case using Cons.prems by (cases x) auto
qed simp

lemma first_item_rev_append: "first_item f (rev (xs @ [(i, r)])) = (if f r then int i else first_item f (rev xs))"
  by simp

lemma range_runes: "list_ex (\<lambda>(_, m). P m) (range_string s 0) \<longleftrightarrow> (\<exists>r\<in>set (runes_of s). P r)"
proof -
  have "set (runes_of s) = snd ` set (range_string s 0)"
    using range_string_spec [of s 0] by (metis drop0 list.set_map)
  then show ?thesis by (simp add: list_ex_iff split_beta)
qed

lemma first_item_none_runes: "first_item f (range_string s 0) = -1 \<longleftrightarrow> (\<forall>r\<in>set (runes_of s). \<not> f r)"
  unfolding first_item_none range_runes by blast

text \<open>The byte at which an item starts is its rune, for an ASCII rune; other bytes of a piece are not ASCII.\<close>

lemma segs_pieces: "(r, b) \<in> set (segs p) \<Longrightarrow>
    b \<noteq> [] \<and> (if hd b < RuneSelf then b = [hd b] \<and> r = ucast (hd b)
      else (\<forall>x\<in>set b. \<not> x < RuneSelf) \<and> \<not> unat r < 0x80)"
proof (induction p rule: segs_induct)
  case (cut p)
  obtain r' n where d: "DecodeRune p = (r', n)" by (cases "DecodeRune p")
  have n: "1 \<le> n" "n \<le> length p" using DecodeRune_size [OF cut.hyps] d by simp_all
  have "take n p \<noteq> [] \<and> (if hd (take n p) < RuneSelf then take n p = [hd (take n p)] \<and> r' = ucast (hd (take n p))
      else (\<forall>x\<in>set (take n p). \<not> x < RuneSelf) \<and> \<not> unat r' < 0x80)"
  proof (cases "p ! 0 < RuneSelf")
    case True
    then have "DecodeRune p = (ucast (p ! 0), 1)"
      using cut.hyps DecodeRune_ascii lead_info_ascii by blast
    then show ?thesis using True d cut.hyps by (cases p) auto
  next
    case False
    have ne: "take n p \<noteq> []" "hd (take n p) = p ! 0" using n cut.hyps by (auto simp: hd_take hd_conv_nth)
    have "(\<forall>x\<in>set (take n p). \<not> x < RuneSelf) \<and> \<not> unat r' < 0x80"
      using cut.hyps d
    proof (cases rule: decode_cases)
      case error
      then show ?thesis using False cut.hyps by (cases p) auto
    next
      case rune
      have "set (rune_bytes r') = set (take n p)" using rune by simp
      have enc: "map unat (take n p) = enc_nat (unat r')"
        using rune by (simp add: map_unat_rune_bytes)
      have hd: "unat (p ! 0) = hd (enc_nat (unat r'))"
        using ne unfolding enc [symmetric] by (simp add: hd_map)
      have big: "\<not> unat r' < 0x80"
      proof
        assume "unat r' < 0x80"
        then have "unat (p ! 0) < 0x80" using hd by (simp add: enc_nat_def)
        then show False using False by (simp add: word_less_nat_alt)
      qed
      then have "\<forall>x\<in>set (map unat (take n p)). \<not> x < 0x80" unfolding enc by (auto simp: enc_nat_def)
      then show ?thesis using big by (auto simp: word_less_nat_alt)
    qed
    then show ?thesis using ne False by simp
  qed
  then show ?case using cut d by (subst (asm) segs.simps) (auto split: if_splits)
qed simp

text \<open>Searching byte by byte for ASCII characters finds what searching rune by rune finds.\<close>

lemma filter_nth_append:
  "filter (\<lambda>i. P ((b @ c) ! i)) [0..<length b + n] =
     filter (\<lambda>i. P (b ! i)) [0..<length b] @ map (\<lambda>i. length b + i) (filter (\<lambda>i. P (c ! i)) [0..<n])"
proof -
  have "[0..<length b + n] = [0..<length b] @ map (\<lambda>i. length b + i) [0..<n]"
    using map_add_upt [of "length b" n] upt_add_eq_append [of 0 "length b" n] by (simp add: add.commute)
  moreover have "filter (\<lambda>i. P ((b @ c) ! i)) [0..<length b] = filter (\<lambda>i. P (b ! i)) [0..<length b]"
    by (rule filter_cong) (simp_all add: nth_append)
  ultimately show ?thesis by (simp add: filter_map comp_def)
qed

lemma ascii_hits_pieces:
  assumes "\<And>x. P x \<Longrightarrow> x < RuneSelf" and "\<And>x. x < RuneSelf \<Longrightarrow> f (ucast x) = P x"
    and "\<And>r. \<not> unat r < 0x80 \<Longrightarrow> \<not> f r"
    and "\<forall>(r, b)\<in>set xs. b \<noteq> [] \<and> (if hd b < RuneSelf then b = [hd b] \<and> r = ucast (hd b)
      else (\<forall>x\<in>set b. \<not> x < RuneSelf) \<and> \<not> unat r < 0x80)"
  shows "map fst (filter (\<lambda>(i, r). f r) (starts k xs)) =
    map (\<lambda>i. k + i) (filter (\<lambda>i. P (concat (map snd xs) ! i)) [0..<length (concat (map snd xs))])"
  using assms(4)
proof (induction xs arbitrary: k)
  case (Cons x xs)
  obtain r b where x: "x = (r, b)" by (cases x)
  let ?c = "concat (map snd xs)"
  have IH: "map fst (filter (\<lambda>(i, r). f r) (starts (k + length b) xs)) =
      map (\<lambda>i. k + length b + i) (filter (\<lambda>i. P (?c ! i)) [0..<length ?c])"
    using Cons by simp
  have b: "b \<noteq> []" "if hd b < RuneSelf then b = [hd b] \<and> r = ucast (hd b)
      else (\<forall>x\<in>set b. \<not> x < RuneSelf) \<and> \<not> unat r < 0x80" using Cons.prems x by auto
  have "map (\<lambda>i. k + i) (filter (\<lambda>i. P (b ! i)) [0..<length b]) = (if f r then [k] else [])"
  proof (cases "hd b < RuneSelf")
    case True
    then obtain y where "b = [y]" "r = ucast y" "y < RuneSelf" using b by (metis list.sel(1))
    then show ?thesis using assms(2) by simp
  next
    case False
    then have no: "\<forall>x\<in>set b. \<not> P x" "\<not> f r" using b(2) assms(1,3) by auto
    have "filter (\<lambda>i. P (b ! i)) [0..<length b] = []"
      using no(1) by (auto simp: filter_empty_conv)
    then show ?thesis using no(2) by simp
  qed
  then show ?case using IH by (simp add: x filter_nth_append comp_def add.assoc)
qed simp

lemma ascii_hits:
  assumes "\<And>x. P x \<Longrightarrow> x < RuneSelf" and "\<And>x. x < RuneSelf \<Longrightarrow> f (ucast x) = P x"
    and "\<And>r. \<not> unat r < 0x80 \<Longrightarrow> \<not> f r"
  shows "map fst (filter (\<lambda>(i, r). f r) (range_string s 0)) = filter (\<lambda>i. P (s ! i)) [0..<length s]"
proof -
  have "\<forall>(r, b)\<in>set (segs s). b \<noteq> [] \<and> (if hd b < RuneSelf then b = [hd b] \<and> r = ucast (hd b)
      else (\<forall>x\<in>set b. \<not> x < RuneSelf) \<and> \<not> unat r < 0x80)"
    using segs_pieces [of _ _ s] by blast
  from ascii_hits_pieces [where P = P and f = f and k = 0, OF assms this]
  show ?thesis by (simp add: range_string_starts map_idI)
qed

lemma first_item_hits:
  "first_item f xs = (case map fst (filter (\<lambda>(i, r). f r) xs) of [] \<Rightarrow> -1 | i # _ \<Rightarrow> int i)"
  by (induction xs) auto

lemma find_hits: "(case find P xs of None \<Rightarrow> -1 | Some i \<Rightarrow> int i) = (case filter P xs of [] \<Rightarrow> -1 | i # _ \<Rightarrow> int i)"
  by (induction xs) auto

lemma ascii_first_item:
  assumes "\<And>x. P x \<Longrightarrow> x < RuneSelf" and "\<And>x. x < RuneSelf \<Longrightarrow> f (ucast x) = P x"
    and "\<And>r. \<not> unat r < 0x80 \<Longrightarrow> \<not> f r"
  shows "(case find (\<lambda>i. P (s ! i)) [0..<length s] of None \<Rightarrow> -1 | Some i \<Rightarrow> int i) = first_item f (range_string s 0)"
    and "(case find (\<lambda>i. P (s ! i)) (rev [0..<length s]) of None \<Rightarrow> -1 | Some i \<Rightarrow> int i)
      = first_item f (rev (range_string s 0))"
proof -
  have hits: "map fst (filter (\<lambda>(i, r). f r) (range_string s 0)) = filter (\<lambda>i. P (s ! i)) [0..<length s]"
    by (rule ascii_hits) (fact assms)+
  show "(case find (\<lambda>i. P (s ! i)) [0..<length s] of None \<Rightarrow> -1 | Some i \<Rightarrow> int i) = first_item f (range_string s 0)"
    using hits by (simp only: find_hits first_item_hits)
  have "map fst (filter (\<lambda>(i, r). f r) (rev (range_string s 0))) = filter (\<lambda>i. P (s ! i)) (rev [0..<length s])"
    using hits by (simp only: rev_filter [symmetric] rev_map [symmetric])
  then show "(case find (\<lambda>i. P (s ! i)) (rev [0..<length s]) of None \<Rightarrow> -1 | Some i \<Rightarrow> int i)
      = first_item f (rev (range_string s 0))"
    by (simp only: find_hits first_item_hits)
qed

section \<open>The loops\<close>

lemma lastany_loop_spec:
  "i \<le> length s \<Longrightarrow> lastany_loop s chars i =
     first_item (\<lambda>r. list_ex (\<lambda>(_, c). r = c) (range_string chars 0)) (rev (range_string (take i s) 0))"
proof (induction i rule: less_induct)
  case (less i)
  show ?case
  proof (cases "i = 0")
    case True
    then show ?thesis by (subst lastany_loop.simps) (simp add: range_string_starts)
  next
    case False
    then have ne: "take i s \<noteq> []" using less.prems by auto
    have len: "length (take i s) = i" using less.prems by simp
    obtain r n where d: "DecodeLastRune (take i s) = (r, n)" by (cases "DecodeLastRune (take i s)")
    have l: "1 \<le> n" "n \<le> i" "segs (take i s) = segs (take (i - n) s) @ [(r, drop (i - n) (take i s))]"
      using segs_last [OF ne d] unfolding len by simp_all
    have st: "range_string (take i s) 0 = range_string (take (i - n) s) 0 @ [(i - n, r)]"
      using less.prems by (simp add: range_string_starts l(3) starts_append)
    have "lastany_loop s chars (i - n) =
        first_item (\<lambda>r. list_ex (\<lambda>(_, c). r = c) (range_string chars 0)) (rev (range_string (take (i - n) s) 0))"
      using less l False by (intro less.IH) auto
    then show ?thesis
      using False less.prems d by (subst lastany_loop.simps) (simp add: string_versions st)
  qed
qed

lemma lastindexfunc_loop_spec:
  "i \<le> length s \<Longrightarrow> lastindexfunc_loop s f truth i = indexfunc_loop f truth (rev (range_string (take i s) 0))"
proof (induction i rule: less_induct)
  case (less i)
  show ?case
  proof (cases "i = 0")
    case True
    then show ?thesis by (subst lastindexfunc_loop.simps) (simp add: range_string_starts)
  next
    case False
    then have ne: "take i s \<noteq> []" using less.prems by auto
    have len: "length (take i s) = i" using less.prems by simp
    obtain r n where d: "DecodeLastRune (take i s) = (r, n)" by (cases "DecodeLastRune (take i s)")
    have l: "1 \<le> n" "n \<le> i" "segs (take i s) = segs (take (i - n) s) @ [(r, drop (i - n) (take i s))]"
      using segs_last [OF ne d] unfolding len by simp_all
    have st: "range_string (take i s) 0 = range_string (take (i - n) s) 0 @ [(i - n, r)]"
      using less.prems by (simp add: range_string_starts l(3) starts_append)
    have "lastindexfunc_loop s f truth (i - n) = indexfunc_loop f truth (rev (range_string (take (i - n) s) 0))"
      using less l False by (intro less.IH) auto
    then show ?thesis
      using False less.prems d by (subst lastindexfunc_loop.simps) (simp add: string_versions st Let_def cong: if_cong)
  qed
qed

lemma indexfunc_loop_pure: "indexfunc_loop (\<lambda>r. Inr (f r)) truth xs = Inr (first_item (\<lambda>r. f r = truth) xs)"
  by (induction xs) auto

section \<open>Structure of the pieces\<close>

lemma segs_suffix: "segs s = xs @ ys \<Longrightarrow> segs (concat (map snd ys)) = ys"
proof (induction xs arbitrary: s)
  case Nil
  then show ?case by (metis concat_segs append_Nil)
next
  case (Cons x xs)
  then have "s \<noteq> []" by auto
  then have "segs (drop (snd (DecodeRune s)) s) = xs @ ys" using Cons.prems by (subst (asm) segs.simps) simp
  then show ?case by (rule Cons.IH)
qed

lemma segs_head: "segs s = (r, b) # ys \<Longrightarrow> DecodeRune s = (r, length b) \<and> b = take (length b) s"
proof -
  assume a: "segs s = (r, b) # ys"
  then have ne: "s \<noteq> []" by auto
  then show ?thesis using a DecodeRune_size(2) [OF ne] by (subst (asm) segs.simps) auto
qed

lemma segs_piece_rune: "(r, b) \<in> set (segs p) \<Longrightarrow> r = RuneError \<or> ValidRune r \<and> b = rune_bytes r"
proof (induction p rule: segs_induct)
  case (cut p)
  obtain v n where d: "DecodeRune p = (v, n)" by (cases "DecodeRune p")
  have "v = RuneError \<or> ValidRune v \<and> take n p = rune_bytes v"
    using cut.hyps d by (cases rule: decode_cases) auto
  then show ?case using cut d by (subst (asm) segs.simps) auto
qed simp

lemma runes_of_valid: "r \<in> set (runes_of p) \<Longrightarrow> ValidRune r"
  using segs_piece_rune RuneError_valid unfolding runes_of_segs by fastforce

lemma starts_in: "(i, r) \<in> set (starts k xs) \<longleftrightarrow> (\<exists>ys b zs. xs = ys @ (r, b) # zs \<and> i = k + length (concat (map snd ys)))"
proof (induction xs arbitrary: k)
  case (Cons x xs)
  obtain v c where x: "x = (v, c)" by (cases x)
  show ?case
  proof
    assume "(i, r) \<in> set (starts k (x # xs))"
    then consider "i = k" "r = v" | "(i, r) \<in> set (starts (k + length c) xs)" by (auto simp: x)
    then show "\<exists>ys b zs. x # xs = ys @ (r, b) # zs \<and> i = k + length (concat (map snd ys))"
    proof cases
      case 1
      then have "x # xs = [] @ (r, c) # xs \<and> i = k + length (concat (map snd ([] :: (rune \<times> bytes) list)))" by (simp add: x)
      then show ?thesis by blast
    next
      case 2
      then obtain ys b zs where "xs = ys @ (r, b) # zs" "i = k + length c + length (concat (map snd ys))"
        using Cons.IH by blast
      then have "x # xs = (x # ys) @ (r, b) # zs \<and> i = k + length (concat (map snd (x # ys)))" by (simp add: x)
      then show ?thesis by blast
    qed
  next
    assume "\<exists>ys b zs. x # xs = ys @ (r, b) # zs \<and> i = k + length (concat (map snd ys))"
    then obtain ys b zs where a: "x # xs = ys @ (r, b) # zs" "i = k + length (concat (map snd ys))" by blast
    show "(i, r) \<in> set (starts k (x # xs))"
    proof (cases ys)
      case Nil
      then show ?thesis using a by (simp add: x)
    next
      case (Cons y ys')
      then have "xs = ys' @ (r, b) # zs" "i = k + length c + length (concat (map snd ys'))" using a by (auto simp: x)
      then have "(i, r) \<in> set (starts (k + length c) xs)" using Cons.IH by blast
      then show ?thesis by (simp add: x)
    qed
  qed
qed simp

lemma item_decodes:
  assumes "(i, r) \<in> set (range_string s 0)"
  obtains xs b ys where "segs s = xs @ (r, b) # ys" "i = length (concat (map snd xs))"
    "s = concat (map snd xs) @ b @ concat (map snd ys)" "DecodeRune (drop i s) = (r, length b)" "i < length s"
proof -
  obtain xs b ys where x: "segs s = xs @ (r, b) # ys" "i = length (concat (map snd xs))"
    using assms unfolding range_string_starts drop0 starts_in by auto
  have s: "s = concat (map snd xs) @ b @ concat (map snd ys)" using concat_segs [of s] x(1) by simp
  have "segs (drop i s) = (r, b) # ys" using segs_suffix [OF x(1)] s x(2) by simp
  then have "DecodeRune (drop i s) = (r, length b)" using segs_head by blast
  moreover have "b \<noteq> []" using segs_pieces [of r b s] x(1) by simp
  ultimately show ?thesis using that x s by simp
qed

lemma starts_sorted: "\<forall>(r, b)\<in>set xs. b \<noteq> [] \<Longrightarrow> sorted_wrt (<) (map fst (starts k xs))"
proof (induction xs arbitrary: k)
  case (Cons x xs)
  obtain r b where x: "x = (r, b)" by (cases x)
  have "k < i" if mem: "i \<in> set (map fst (starts (k + length b) xs))" for i
  proof -
    obtain v where "(i, v) \<in> set (starts (k + length b) xs)" using mem by auto
    then show ?thesis using starts_in [of i v "k + length b" xs] Cons.prems x by auto
  qed
  then show ?case using Cons by (auto simp: x)
qed simp

lemma range_string_sorted: "sorted_wrt (<) (map fst (range_string s 0))"
  unfolding range_string_starts using segs_pieces by (intro starts_sorted) auto

lemma first_item_cases:
  assumes "sorted_wrt (<) (map fst xs)"
  shows "if first_item f xs = -1 then \<forall>(i, r)\<in>set xs. \<not> f r
    else \<exists>i r. first_item f xs = int i \<and> (i, r) \<in> set xs \<and> f r \<and> (\<forall>(j, v)\<in>set xs. j < i \<longrightarrow> \<not> f v)"
  using assms
proof (induction xs)
  case (Cons x xs)
  obtain k v where x: "x = (k, v)" by (cases x)
  show ?case
  proof (cases "f v")
    case True
    then have "first_item f (x # xs) = int k \<and> (k, v) \<in> set (x # xs) \<and> f v
        \<and> (\<forall>(j, w)\<in>set (x # xs). j < k \<longrightarrow> \<not> f w)"
      using Cons.prems by (fastforce simp: x)
    moreover have "first_item f (x # xs) \<noteq> -1" using True by (simp add: x)
    ultimately show ?thesis unfolding if_not_P [OF \<open>first_item f (x # xs) \<noteq> -1\<close>] by blast
  next
    case False
    then show ?thesis using Cons by (auto simp: x split: if_splits)
  qed
qed simp

section \<open>Searching for the encoding of a rune\<close>

text \<open>The encoding is self-synchronising: the bytes of a rune are found only where a rune starts.\<close>

lemma occurs_rune:
  assumes "ValidRune r" and "r \<noteq> RuneError"
  shows "occurs_at s (rune_bytes r) i \<longleftrightarrow> (i, r) \<in> set (range_string s 0)"
proof
  assume o: "occurs_at s (rune_bytes r) i"
  let ?q = "drop (i + length (rune_bytes r)) s"
  have s: "s = take i s @ rune_bytes r @ ?q"
    using o unfolding occurs_at_def by (metis append_take_drop_id drop_drop add.commute)
  have "segs s = segs (take i s) @ segs (rune_bytes r @ ?q)"
    using segs_before_start [of "rune_bytes r @ ?q" "take i s"] rune_bytes_shape(1) [OF assms(1)] s by simp
  then have "segs s = segs (take i s) @ (r, rune_bytes r) # segs ?q"
    using segs_rune_bytes [OF assms(1)] by simp
  moreover have "i = length (concat (map snd (segs (take i s))))" using o by (simp add: occurs_at_def)
  ultimately show "(i, r) \<in> set (range_string s 0)"
    unfolding range_string_starts drop0 starts_in by (metis add_0)
next
  assume "(i, r) \<in> set (range_string s 0)"
  then obtain xs b ys where x: "segs s = xs @ (r, b) # ys" "i = length (concat (map snd xs))"
    "s = concat (map snd xs) @ b @ concat (map snd ys)" by (rule item_decodes)
  then have "b = rune_bytes r" using segs_piece_rune [of r b s] assms(2) by simp
  then show "occurs_at s (rune_bytes r) i" using x by (simp add: occurs_at_def)
qed

lemma first_rune:
  assumes "ValidRune r" and "r \<noteq> RuneError"
  shows "is_first_index s (rune_bytes r) (first_item (\<lambda>x. x = r) (range_string s 0))"
proof -
  note first_item_cases [OF range_string_sorted, of "\<lambda>x. x = r" s]
  then show ?thesis
    by (auto simp: is_first_index_def occurs_rune [OF assms] split: if_splits)
qed

lemma small_rune: "0 \<le>s r \<and> r <s ucast RuneSelf \<longleftrightarrow> unat r < 0x80" for r :: rune
proof -
  obtain n where n: "unat r = n" "uint r = int n" "n < 2 ^ LENGTH(32)" by (rule word_natE)
  show ?thesis unfolding sle_view sless_view sint_view n(2) using n by simp
qed

lemma IndexRune_first:
  assumes "bytealg ops"
  shows "IndexRune ops s r = Inr (first_item (\<lambda>x. x = r) (range_string s 0))"
proof -
  consider "unat r < 0x80" | "\<not> unat r < 0x80" "r = RuneError" | "\<not> unat r < 0x80" "r \<noteq> RuneError" "\<not> ValidRune r"
    | "\<not> unat r < 0x80" "r \<noteq> RuneError" "ValidRune r" by blast
  then show ?thesis
  proof cases
    case 1
    let ?c = "ucast r :: byte"
    have c: "unat ?c = unat r" using 1 by (simp add: view_simps)
    have v: "ValidRune r" "r \<noteq> RuneError" using 1 by (auto simp: ValidRune_iff)
    have "?c < RuneSelf" using 1 c by (simp add: word_less_nat_alt)
    then have b: "rune_bytes (ucast ?c) = [?c]" by (rule byte_rune(2))
    have "ucast ?c = r" using c by (simp add: word_unat_eq_iff unat_ucast_rune)
    then have "rune_bytes r = [?c]" using b by simp
    then have "is_first_index s [?c] (first_item (\<lambda>x. x = r) (range_string s 0))" using first_rune [OF v, of s] by simp
    then show ?thesis using 1 small_rune [of r] IndexByteString_first is_first_index_unique
      by (simp add: IndexRune_def strings_IndexByte_def del: RuneSelf_def) blast
  next
    case 2
    have big: "\<not> (0 \<le>s r \<and> r <s ucast RuneSelf)" using 2(1) small_rune by blast
    show ?thesis unfolding IndexRune_def if_not_P [OF big] by (simp only: 2(2) simp_thms if_True)
  next
    case 3
    have "first_item (\<lambda>x. x = r) (range_string s 0) = -1"
      using 3 runes_of_valid [of _ s] unfolding first_item_none_runes by auto
    moreover have big: "\<not> (0 \<le>s r \<and> r <s ucast RuneSelf)" using 3(1) small_rune by blast
    ultimately show ?thesis unfolding IndexRune_def if_not_P [OF big] by (simp add: 3(2,3) del: RuneError_def)
  next
    case 4
    obtain i where "Index ops s (rune_bytes r) = Inr i" "is_first_index s (rune_bytes r) i"
      using bytealg.Index_first [OF assms] by blast
    then have i: "Index ops s (rune_bytes r) = Inr (first_item (\<lambda>x. x = r) (range_string s 0))"
      using first_rune [of r s] 4(2,3) is_first_index_unique by blast
    have big: "\<not> (0 \<le>s r \<and> r <s ucast RuneSelf)" using 4(1) small_rune by blast
    show ?thesis unfolding IndexRune_def if_not_P [OF big] using i by (simp add: 4(2,3) del: RuneError_def)
  qed
qed

section \<open>Searching for one of several runes\<close>

lemma ascii_runes: "\<forall>c\<in>set p. c < RuneSelf \<Longrightarrow> runes_of p = map ucast p"
proof (induction p)
  case (Cons c p)
  then have "DecodeRune (c # p) = (ucast c, 1)"
    using DecodeRune_ascii [of "c # p"] lead_info_ascii [of c] by simp
  then show ?case using Cons by (subst runes_of.simps) simp
qed simp

lemma ucast_byte_eq: "(ucast x :: rune) = ucast y \<longleftrightarrow> x = y" for x y :: byte
  by (metis unat_ucast_rune word_unat_eq_iff)

lemma ascii_search:
  assumes "snd (makeASCIISet chars)"
  defines "P \<equiv> asciiSet_contains (fst (makeASCIISet chars))" and "f \<equiv> \<lambda>r. r \<in> set (runes_of chars)"
  shows "P x \<Longrightarrow> x < RuneSelf" "x < RuneSelf \<Longrightarrow> f (ucast x) = P x" "\<not> unat r < 0x80 \<Longrightarrow> \<not> f r"
proof -
  have a: "\<forall>c\<in>set chars. c < RuneSelf" and P: "P x \<longleftrightarrow> x \<in> set chars" for x
    using makeASCIISet_spec [of chars] assms(1) by (simp_all add: P_def del: RuneSelf_def)
  have f: "f r \<longleftrightarrow> (\<exists>c\<in>set chars. r = ucast c)" for r
    unfolding f_def ascii_runes [OF a] by auto
  show "P x \<Longrightarrow> x < RuneSelf" "x < RuneSelf \<Longrightarrow> f (ucast x) = P x"
    using a by (auto simp: P f ucast_byte_eq simp del: RuneSelf_def)
  show "\<not> unat r < 0x80 \<Longrightarrow> \<not> f r"
    using a by (auto simp: f unat_ucast_rune word_less_nat_alt)
qed

lemma member_runes: "(\<lambda>r. list_ex (\<lambda>(_, c). r = c) (range_string chars 0)) = (\<lambda>r. r \<in> set (runes_of chars))"
  by (simp add: range_runes fun_eq_iff)

lemma first_item_False [simp]: "first_item (\<lambda>r. False) xs = -1"
  by (simp add: first_item_none list_ex_iff split_beta)

lemma IndexAny_first: "IndexAny s chars = first_item (\<lambda>r. r \<in> set (runes_of chars)) (range_string s 0)"
proof (cases "length s > 8 \<and> snd (makeASCIISet chars)")
  case True
  note a = ascii_search [of chars, OF conjunct2 [OF True]]
  show ?thesis using ascii_first_item(1) [where P = "asciiSet_contains (fst (makeASCIISet chars))" and f = "\<lambda>r. r \<in> set (runes_of chars)" and s = s, OF a] True
    by (auto simp: IndexAny_def split_beta Let_def first_item_none_runes)
next
  case False
  then show ?thesis by (auto simp: IndexAny_def split_beta Let_def member_runes)
qed

lemma LastIndexAny_last: "LastIndexAny s chars = first_item (\<lambda>r. r \<in> set (runes_of chars)) (rev (range_string s 0))"
proof (cases "length s > 8 \<and> snd (makeASCIISet chars)")
  case True
  note a = ascii_search [of chars, OF conjunct2 [OF True]]
  show ?thesis using ascii_first_item(2) [where P = "asciiSet_contains (fst (makeASCIISet chars))" and f = "\<lambda>r. r \<in> set (runes_of chars)" and s = s, OF a] True
    by (auto simp: LastIndexAny_def split_beta Let_def first_item_none list_ex_iff)
next
  case False
  then show ?thesis
    by (auto simp: LastIndexAny_def split_beta Let_def lastany_loop_spec member_runes)
qed

section \<open>What trimming leaves\<close>

definition trimmed_left :: "(rune \<Rightarrow> bool) \<Rightarrow> bytes \<Rightarrow> bytes" where
  "trimmed_left f s = concat (map snd (dropWhile (\<lambda>x. f (fst x)) (segs s)))"

definition trimmed_right :: "(rune \<Rightarrow> bool) \<Rightarrow> bytes \<Rightarrow> bytes" where
  "trimmed_right f s = concat (map snd (rev (dropWhile (\<lambda>x. f (fst x)) (rev (segs s)))))"

text \<open>A predicate that is \<open>f\<close> on the runes of the string.\<close>

lemma indexfunc_loop_on:
  "(\<forall>(i, r)\<in>set xs. g r = Inr (f r)) \<Longrightarrow> indexfunc_loop g truth xs = Inr (first_item (\<lambda>r. f r = truth) xs)"
  by (induction xs) auto

lemma on_runes: "\<forall>r\<in>set (runes_of s). P r \<Longrightarrow> \<forall>(i, r)\<in>set (range_string s 0). P r"
  using range_string_spec [of s 0] by (metis (mono_tags, lifting) case_prodI2 drop0 imageI list.set_map snd_conv)

lemma first_item_not:
  "first_item (\<lambda>r. \<not> f r) (starts k xs) =
     (if dropWhile (\<lambda>x. f (fst x)) xs = [] then -1
      else int (k + length (concat (map snd (takeWhile (\<lambda>x. f (fst x)) xs)))))"
proof (induction xs arbitrary: k)
  case (Cons x xs)
  obtain r b where x: "x = (r, b)" by (cases x)
  show ?case using Cons.IH [of "k + length b"] by (cases "f r") (simp_all add: x)
qed simp

lemma TrimLeftFunc_on:
  assumes "\<forall>r\<in>set (runes_of s). g r = Inr (f r)"
  shows "TrimLeftFunc s g = Inr (trimmed_left f s)"
proof -
  let ?D = "dropWhile (\<lambda>x. f (fst x)) (segs s)" and ?T = "takeWhile (\<lambda>x. f (fst x)) (segs s)"
  have s: "s = concat (map snd ?T) @ concat (map snd ?D)"
    by (metis concat_append concat_segs map_append takeWhile_dropWhile_id)
  then have "drop (length (concat (map snd ?T))) s = concat (map snd ?D)" by (metis append_eq_conv_conj)
  moreover have "indexFunc s g False = Inr (first_item (\<lambda>r. \<not> f r) (starts 0 (segs s)))"
    unfolding indexFunc_def using indexfunc_loop_on [OF on_runes [OF assms]] by (simp add: range_string_starts)
  ultimately show ?thesis
    by (cases "?D = []") (simp_all add: TrimLeftFunc_def first_item_not trimmed_left_def del: dropWhile_eq_Nil_conv)
qed

lemma last_item_not:
  assumes "segs s = xs @ (r, b) # ys" "\<forall>(r, b)\<in>set ys. f r" "\<not> f r"
  shows "first_item (\<lambda>r. \<not> f r) (rev (range_string s 0)) = int (length (concat (map snd xs)))"
proof -
  have "\<forall>(i, r)\<in>set (starts k ys). f r" for k
    using assms(2) by (auto simp: starts_in)
  then have "first_item (\<lambda>r. \<not> f r) (rev (starts k ys)) = -1" for k
    by (force simp: first_item_none list_ex_iff)
  then show ?thesis using assms(3)
    by (simp add: range_string_starts assms(1) starts_append first_item_append)
qed

lemma TrimRightFunc_on:
  assumes "\<forall>r\<in>set (runes_of s). g r = Inr (f r)"
  shows "TrimRightFunc s g = Inr (trimmed_right f s)"
proof -
  have idx: "lastIndexFunc s g False = Inr (first_item (\<lambda>r. \<not> f r) (rev (range_string s 0)))"
  proof -
    have "\<forall>(i, r)\<in>set (rev (range_string (take (length s) s) 0)). g r = Inr (f r)" using on_runes [OF assms] by simp
    from indexfunc_loop_on [OF this, of False] show ?thesis
      unfolding lastIndexFunc_def lastindexfunc_loop_spec [OF order_refl] by simp
  qed
  show ?thesis
  proof (cases "\<forall>x\<in>set (segs s). f (fst x)")
    case True
    then have "first_item (\<lambda>r. \<not> f r) (rev (range_string s 0)) = -1"
      by (force simp: first_item_none list_ex_iff range_string_starts starts_in)
    moreover have "dropWhile (\<lambda>x. f (fst x)) (rev (segs s)) = []" using True by auto
    ultimately show ?thesis by (simp add: TrimRightFunc_def idx trimmed_right_def del: dropWhile_eq_Nil_conv)
  next
    case False
    then obtain xs x ys where x: "segs s = xs @ x # ys" "\<not> f (fst x)" "\<forall>y\<in>set ys. f (fst y)"
      using split_list_last_prop [of "segs s" "\<lambda>x. \<not> f (fst x)"] by auto
    obtain r b where rb: "x = (r, b)" by (cases x)
    have seg: "segs s = xs @ (r, b) # ys" using x(1) rb by simp
    let ?i = "length (concat (map snd xs))"
    have i: "first_item (\<lambda>r. \<not> f r) (rev (range_string s 0)) = int ?i"
      using x rb by (intro last_item_not [OF seg]) auto
    have s: "s = concat (map snd xs) @ b @ concat (map snd ys)" using concat_segs [of s] seg by simp
    have "segs (drop ?i s) = (r, b) # ys" using segs_suffix [OF seg] s by simp
    then have d: "DecodeRune (drop ?i s) = (r, length b)" using segs_head by blast
    have p: "b \<noteq> []" "hd b < RuneSelf \<Longrightarrow> length b = 1" using segs_pieces [of r b s] seg by (auto dest: arg_cong [of b _ length])
    have hd: "s ! ?i = hd b" using p(1) s by (metis hd_append2 hd_conv_nth append_is_Nil_conv nth_append_length_plus add_0_right)
    have "TrimRightFunc s g = Inr (take (?i + length b) s)"
      using p d hd by (cases "hd b < RuneSelf") (simp_all add: TrimRightFunc_def idx i string_versions not_le nat_add_distrib)
    moreover have "take (?i + length b) s = concat (map snd xs) @ b" by (subst s) simp
    moreover have "dropWhile (\<lambda>x. f (fst x)) (rev (segs s)) = (r, b) # rev xs"
      using x rb by (simp add: dropWhile_append)
    ultimately show ?thesis by (simp add: trimmed_right_def)
  qed
qed


lemma TrimFunc_on:
  assumes "\<forall>r\<in>set (runes_of s). g r = Inr (f r)"
  shows "TrimFunc s g = Inr (trimmed_right f (trimmed_left f s))"
proof -
  have "segs s = takeWhile (\<lambda>x. f (fst x)) (segs s) @ dropWhile (\<lambda>x. f (fst x)) (segs s)" by simp
  then have "segs (trimmed_left f s) = dropWhile (\<lambda>x. f (fst x)) (segs s)"
    unfolding trimmed_left_def by (rule segs_suffix)
  then have "set (runes_of (trimmed_left f s)) \<subseteq> set (runes_of s)"
    unfolding runes_of_segs by (auto dest: set_dropWhileD)
  then have "\<forall>r\<in>set (runes_of (trimmed_left f s)). g r = Inr (f r)" using assms by auto
  then show ?thesis using TrimLeftFunc_on [OF assms] TrimRightFunc_on by (simp add: TrimFunc_def)
qed

lemma trimmed_same: "f = g \<Longrightarrow> trimmed_left f s = trimmed_left g s \<and> trimmed_right f s = trimmed_right g s"
  by simp

text \<open>The predicate that \<open>Trim\<close> builds from a cut set.\<close>

lemma valid_nonneg: "ValidRune r \<Longrightarrow> r <s ucast RuneSelf \<longleftrightarrow> unat r < 0x80"
proof -
  assume "ValidRune r"
  then have "unat r < 2 ^ 31" by (auto simp: ValidRune_iff)
  moreover obtain n where "unat r = n" "uint r = int n" "n < 2 ^ LENGTH(32)" by (rule word_natE)
  ultimately have "0 \<le>s r" by (simp add: sle_view sint_view)
  then show ?thesis using small_rune [of r] by blast
qed

lemma makeCutsetFunc_spec:
  assumes "bytealg ops" and "ValidRune r"
  shows "makeCutsetFunc ops cutset r = Inr (r \<in> set (runes_of cutset))"
proof -
  consider "length cutset = 1" "cutset ! 0 < RuneSelf" | "snd (makeASCIISet cutset)" "\<not> (length cutset = 1 \<and> cutset ! 0 < RuneSelf)"
    | "\<not> snd (makeASCIISet cutset)" "\<not> (length cutset = 1 \<and> cutset ! 0 < RuneSelf)" by blast
  then show ?thesis
  proof cases
    case 1
    then obtain c where c: "cutset = [c]" "c < RuneSelf" by (cases cutset) auto
    then have "runes_of cutset = [ucast c]" using ascii_runes [of cutset] by simp
    then show ?thesis using c by (simp add: makeCutsetFunc_def)
  next
    case 2
    note a = ascii_search [of cutset, OF 2(1)]
    have "r <s ucast RuneSelf \<and> asciiSet_contains (fst (makeASCIISet cutset)) (ucast r) \<longleftrightarrow> r \<in> set (runes_of cutset)"
    proof (cases "unat r < 0x80")
      case True
      have u: "unat (ucast r :: byte) = unat r" using True by (simp add: view_simps)
      then have "(ucast (ucast r :: byte) :: rune) = r" by (simp add: word_unat_eq_iff unat_ucast_rune)
      moreover have "(ucast r :: byte) < RuneSelf" using True u by (simp add: word_less_nat_alt)
      ultimately show ?thesis using a(2) [of "ucast r"] True valid_nonneg [OF assms(2)] by simp
    next
      case False
      then show ?thesis using a(3) [of r] valid_nonneg [OF assms(2)] by simp
    qed
    then show ?thesis unfolding makeCutsetFunc_def if_not_P [OF 2(2)] using 2(1) by (simp add: split_beta Let_def)
  next
    case 3
    have "(first_item (\<lambda>x. x = r) (range_string cutset 0) \<ge> 0) \<longleftrightarrow> r \<in> set (runes_of cutset)"
      using first_item_cases [OF range_string_sorted, of "\<lambda>x. x = r" cutset] first_item_none_runes [of "\<lambda>x. x = r" cutset]
      by (auto split: if_splits)
    then show ?thesis unfolding makeCutsetFunc_def if_not_P [OF 3(2)]
      using 3(1) IndexRune_first [OF assms(1)] by (simp add: split_beta Let_def)
  qed
qed

lemma cutset_on:
  assumes "bytealg ops"
  shows "\<forall>r\<in>set (runes_of s). makeCutsetFunc ops cutset r = Inr (r \<in> set (runes_of cutset))"
  using makeCutsetFunc_spec [OF assms] runes_of_valid by blast

lemma trimmed_Nil [simp]: "trimmed_left f [] = []" "trimmed_right f [] = []"
  by (simp_all add: trimmed_left_def trimmed_right_def)

lemma trimmed_False [simp]: "trimmed_left (\<lambda>r. False) s = s" "trimmed_right (\<lambda>r. False) s = s"
  by (simp_all add: trimmed_left_def trimmed_right_def dropWhile_eq_self_iff)

section \<open>Trimming white space\<close>

text \<open>White space at the end that is ASCII can be cut before the runes are looked at.\<close>

abbreviation trimmed :: "bytes \<Rightarrow> bytes" where
  "trimmed s \<equiv> trimmed_right IsSpace (trimmed_left IsSpace s)"

lemma segs_ascii: "c < RuneSelf \<Longrightarrow> segs (c # p) = (ucast c, [c]) # segs p"
  using DecodeRune_ascii [of "c # p"] lead_info_ascii [of c] by (subst segs.simps) simp

lemma segs_snoc_ascii: "c < RuneSelf \<Longrightarrow> segs (p @ [c]) = segs p @ [(ucast c, [c])]"
proof -
  assume c: "c < RuneSelf"
  have "RuneStart c" using c by (simp add: RuneStart_iff cont_nat_def word_less_nat_alt)
  then show ?thesis using segs_before_start [of "[c]" p] segs_ascii [OF c, of "[]"] by simp
qed

lemma trimmed_first:
  assumes "c < RuneSelf"
  shows "trimmed_left IsSpace (c # p) = (if asciiSpace c \<noteq> 0 then trimmed_left IsSpace p else c # p)"
  using IsSpace_ascii [OF assms] by (simp add: trimmed_left_def segs_ascii [OF assms])

lemma trimmed_right_last:
  assumes "c < RuneSelf"
  shows "trimmed_right IsSpace (p @ [c]) = (if asciiSpace c \<noteq> 0 then trimmed_right IsSpace p else p @ [c])"
  using IsSpace_ascii [OF assms] by (simp add: trimmed_right_def segs_snoc_ascii [OF assms])

lemma trimmed_last_space:
  assumes "c < RuneSelf" and "asciiSpace c \<noteq> 0"
  shows "trimmed (p @ [c]) = trimmed p"
proof (cases "\<forall>x\<in>set (segs p). IsSpace (fst x)")
  case True
  then have "dropWhile (\<lambda>x. IsSpace (fst x)) (segs p) = []"
    "dropWhile (\<lambda>x. IsSpace (fst x)) (segs (p @ [c])) = []"
    using assms IsSpace_ascii [OF assms(1)] by (simp_all add: segs_snoc_ascii)
  then have "trimmed_left IsSpace p = []" "trimmed_left IsSpace (p @ [c]) = []"
    unfolding trimmed_left_def by (simp_all only: list.map concat.simps)
  then show ?thesis by simp
next
  case False
  then have "trimmed_left IsSpace (p @ [c]) = trimmed_left IsSpace p @ [c]"
    by (auto simp: trimmed_left_def segs_snoc_ascii [OF assms(1)] dropWhile_append)
  then show ?thesis using trimmed_right_last [OF assms(1)] assms(2) by simp
qed

lemma trimmed_spaces:
  assumes "\<forall>c\<in>set a. c < RuneSelf \<and> asciiSpace c \<noteq> 0" and "\<forall>c\<in>set b. c < RuneSelf \<and> asciiSpace c \<noteq> 0"
  shows "trimmed (a @ p @ b) = trimmed p"
proof -
  have "trimmed (a @ q) = trimmed q" for q using assms(1) by (induction a) (simp_all add: trimmed_first)
  moreover have "trimmed (p @ b) = trimmed p" using assms(2)
  proof (induction b rule: rev_induct)
    case (snoc c b)
    then show ?case using trimmed_last_space [of c "p @ b"] by simp
  qed simp
  ultimately show ?thesis by simp
qed

definition spaces :: "nat \<Rightarrow> nat \<Rightarrow> bytes \<Rightarrow> bool" where
  "spaces i j s \<longleftrightarrow> (\<forall>k. i \<le> k \<and> k < j \<longrightarrow> s ! k < RuneSelf \<and> asciiSpace (s ! k) \<noteq> 0)"

lemma space_start_spec:
  assumes "start \<le> length s" and "spaces 0 start s"
  shows "case space_start s start of Inl k \<Rightarrow> k < length s \<and> spaces 0 k s
    | Inr k \<Rightarrow> k \<le> length s \<and> spaces 0 k s \<and> (k < length s \<longrightarrow> s ! k < RuneSelf \<and> asciiSpace (s ! k) = 0)"
  using assms
proof (induction s start rule: space_start.induct)
  case (1 s start)
  show ?case
  proof (cases "start < length s \<and> s ! start < RuneSelf \<and> asciiSpace (s ! start) \<noteq> 0")
    case True
    then have "spaces 0 (start + 1) s" using 1(3) by (auto simp: spaces_def less_Suc_eq)
    then show ?thesis using 1 True by (subst space_start.simps) (simp add: not_le del: RuneSelf_def)
  next
    case False
    then show ?thesis using 1(2,3) by (subst space_start.simps) (auto simp: not_le simp del: RuneSelf_def)
  qed
qed

lemma space_stop_spec:
  "stop \<le> length s \<Longrightarrow> case space_stop s start stop of Inl k \<Rightarrow> start < k \<and> k \<le> stop \<and> spaces k stop s
    | Inr k \<Rightarrow> k \<le> stop \<and> spaces k stop s \<and> (start < k \<longrightarrow> s ! (k - 1) < RuneSelf \<and> asciiSpace (s ! (k - 1)) = 0)"
proof (induction stop)
  case (Suc k)
  have step: "spaces j k s \<Longrightarrow> s ! k < RuneSelf \<Longrightarrow> asciiSpace (s ! k) \<noteq> 0 \<Longrightarrow> spaces j (Suc k) s" for j
    by (auto simp: spaces_def less_Suc_eq)
  show ?case
  proof (cases "start < Suc k \<and> s ! k < RuneSelf \<and> asciiSpace (s ! k) \<noteq> 0")
    case True
    then show ?thesis using Suc step by (auto simp: not_le split: sum.splits simp del: RuneSelf_def)
  next
    case False
    then show ?thesis by (auto simp: not_le spaces_def simp del: RuneSelf_def)
  qed
qed (simp add: spaces_def)

lemma spaces_seg: "j \<le> length s \<Longrightarrow> spaces i j s \<Longrightarrow> \<forall>c\<in>set (seg i j s). c < RuneSelf \<and> asciiSpace c \<noteq> 0"
  by (auto simp: spaces_def in_set_conv_nth nth_seg simp del: RuneSelf_def)

lemma TrimFunc_spaces: "TrimFunc s (\<lambda>r. Inr (IsSpace r)) = Inr (trimmed s)"
  by (rule TrimFunc_on) simp

lemma TrimSpace_trimmed: "TrimSpace s = Inr (trimmed s)"
proof (cases "space_start s 0")
  case (Inl k)
  then have k: "k < length s" "spaces 0 k s" using space_start_spec [of 0 s] by (simp_all add: spaces_def)
  have "trimmed (take k s @ drop k s @ []) = trimmed (drop k s)"
    using k spaces_seg [of k s 0] by (intro trimmed_spaces) auto
  then show ?thesis by (simp add: TrimSpace_def Inl TrimFunc_spaces)
next
  case (Inr i)
  then have i: "i \<le> length s" "spaces 0 i s" "i < length s \<longrightarrow> s ! i < RuneSelf \<and> asciiSpace (s ! i) = 0"
    using space_start_spec [of 0 s] by (simp_all add: spaces_def)
  have cut: "trimmed s = trimmed (seg i j s)" if j: "i \<le> j" "j \<le> length s" "spaces j (length s) s" for j
  proof -
    have "s = take i s @ seg i j s @ drop j s" using seg_append_seg [of i j "length s" s] j by simp
    then show ?thesis using trimmed_spaces [of "take i s" "drop j s" "seg i j s"] spaces_seg [of i s 0]
      spaces_seg [of "length s" s j] i j by (simp del: RuneSelf_def)
  qed
  show ?thesis
  proof (cases "space_stop s i (length s)")
    case (Inl j)
    then have "i < j" "j \<le> length s" "spaces j (length s) s" using space_stop_spec [of "length s" s i] by simp_all
    then show ?thesis using cut [of j] by (simp add: TrimSpace_def Inr Inl TrimFunc_spaces)
  next
    case inr: (Inr j)
    then have j: "j \<le> length s" "spaces j (length s) s" "i < j \<longrightarrow> s ! (j - 1) < RuneSelf \<and> asciiSpace (s ! (j - 1)) = 0"
      using space_stop_spec [of "length s" s i] by simp_all
    have "trimmed s = seg i j s"
    proof (cases "i < j")
      case True
      then have ne: "seg i j s = s ! i # seg (Suc i) j s" using j(1)
        by (simp add: seg_def Cons_nth_drop_Suc [symmetric] Suc_diff_Suc take_Suc_conv_app_nth [symmetric] flip: take_Suc_Cons)
      have "seg i j s = seg i (j - 1) s @ [s ! (j - 1)]" using True j(1) seg_Suc [of i "j - 1" s] by simp
      then have r: "trimmed_right IsSpace (seg i j s) = seg i j s" using trimmed_right_last [of "s ! (j - 1)"] j(3) True by metis
      have "trimmed_left IsSpace (seg i j s) = seg i j s" using trimmed_first [of "s ! i"] i(3) True j(1) ne by simp
      then show ?thesis using cut [of j] True j r by simp
    next
      case False
      have "spaces i (length s) s" using j(2) False by (simp add: spaces_def)
      then show ?thesis using cut [of i] i(1) False by (simp add: seg_def)
    qed
    then show ?thesis by (simp add: TrimSpace_def Inr inr)
  qed
qed

section \<open>Properties\<close>

text \<open>
  \<open>strings.IndexRune\<close> returns the index at which the \<open>range\<close> loop over the string first yields the
  rune (\<open>-1\<close> if it never does), whichever of its four methods it uses: a byte search, a loop for
  \<open>RuneError\<close>, nothing for an invalid rune, a substring search for the encoding.
\<close>
theorem IndexRune_range:
  assumes "bytealg ops"
  shows "IndexRune ops s r = Inr (first_item (\<lambda>x. x = r) (range_string s 0))"
  using assms by (rule IndexRune_first)

theorem IndexRune_range_witness:
  "IndexRune (amd64_ops True index_spec index_spec) [0x61, 0xE2, 0x82, 0xAC] 0x20AC =
     Inr (first_item (\<lambda>x. x = 0x20AC) (range_string [0x61, 0xE2, 0x82, 0xAC] 0))"
  by (rule IndexRune_range) (rule amd64.bytealg_axioms)

text \<open>
  \<open>strings.IndexAny\<close> and \<open>strings.LastIndexAny\<close> return the first and the last index at which the
  \<open>range\<close> loop over the string yields one of the runes of \<open>chars\<close>; the bit set for ASCII characters
  and the backward decoding do not change the result.
\<close>
theorem IndexAny_range:
  "IndexAny s chars = first_item (\<lambda>r. r \<in> set (runes_of chars)) (range_string s 0)
   \<and> LastIndexAny s chars = first_item (\<lambda>r. r \<in> set (runes_of chars)) (rev (range_string s 0))"
  by (simp add: IndexAny_first LastIndexAny_last)

text \<open>
  \<open>strings.Trim\<close>, \<open>TrimLeft\<close> and \<open>TrimRight\<close> never panic and remove exactly the maximal runs of
  leading and trailing runes that occur in the cut set, whichever of the three predicates \<open>makeCutsetFunc\<close> builds.
\<close>
theorem Trim_cutset:
  assumes "bytealg ops"
  shows "Trim ops s cutset = Inr (trimmed_right (\<lambda>r. r \<in> set (runes_of cutset)) (trimmed_left (\<lambda>r. r \<in> set (runes_of cutset)) s))
    \<and> TrimLeft ops s cutset = Inr (trimmed_left (\<lambda>r. r \<in> set (runes_of cutset)) s)
    \<and> TrimRight ops s cutset = Inr (trimmed_right (\<lambda>r. r \<in> set (runes_of cutset)) s)"
  using cutset_on [OF assms, of _ cutset] TrimFunc_on TrimLeftFunc_on TrimRightFunc_on
  by (simp add: Trim_def TrimLeft_def TrimRight_def)

theorem Trim_cutset_witness:
  "Trim (arm64_ops index_spec index_spec) [0x20, 0x61, 0x2D] [0x2D, 0x20] =
      Inr (trimmed_right (\<lambda>r. r \<in> set (runes_of [0x2D, 0x20])) (trimmed_left (\<lambda>r. r \<in> set (runes_of [0x2D, 0x20])) [0x20, 0x61, 0x2D]))
    \<and> TrimLeft (arm64_ops index_spec index_spec) [0x20, 0x61, 0x2D] [0x2D, 0x20] =
      Inr (trimmed_left (\<lambda>r. r \<in> set (runes_of [0x2D, 0x20])) [0x20, 0x61, 0x2D])
    \<and> TrimRight (arm64_ops index_spec index_spec) [0x20, 0x61, 0x2D] [0x2D, 0x20] =
      Inr (trimmed_right (\<lambda>r. r \<in> set (runes_of [0x2D, 0x20])) [0x20, 0x61, 0x2D])"
  by (rule Trim_cutset) (rule arm64.bytealg_axioms)

text \<open>
  \<open>strings.TrimSpace\<close>, with its scans for ASCII bytes from both ends, returns what trimming all
  leading and trailing runes that satisfy \<open>unicode.IsSpace\<close> leaves.
\<close>
theorem TrimSpace_runes: "TrimSpace s = Inr (trimmed_right IsSpace (trimmed_left IsSpace s))"
  by (rule TrimSpace_trimmed)

end
