(* ===== verification/StringsMap.thy ===== *)
theory StringsMap
  imports StringsRunes
begin

text \<open>
  The functions of \<open>strings/strings.go\<close> that rewrite a string rune by rune: \<open>Map\<close> and the case
  conversions built on it, \<open>ToValidUTF8\<close>, \<open>Title\<close>, and \<open>EqualFold\<close>.  The mapping of \<open>Map\<close> is a
  closure: it may keep state between its calls, as the one of \<open>Title\<close> does.
\<close>

section \<open>Map\<close>

type_synonym 'st mapping = "'st \<Rightarrow> rune \<Rightarrow> rune \<times> 'st"

text \<open>
  The first loop of \<open>Map\<close>: up to the first rune that does not map to itself; its index and width,
  the rune it maps to and the state of the closure.
\<close>

fun map_prefix :: "'st mapping \<Rightarrow> 'st \<Rightarrow> bytes \<Rightarrow> (nat \<times> rune) list \<Rightarrow> (nat \<times> nat \<times> rune \<times> 'st) option" where
  "map_prefix m st s [] = None"
| "map_prefix m st s ((i, c) # xs) =
     (let (r, st) = m st c in
      if r = c \<and> c \<noteq> RuneError then map_prefix m st s xs
      else if c = RuneError then
        (let (c, width) = DecodeRuneInString (drop i s) in
         if width \<noteq> 1 \<and> r = c then map_prefix m st s xs else Some (i, width, r, st))
      else Some (i, nat (RuneLen c), r, st))"

text \<open>The second loop, which writes every mapped rune.\<close>

fun map_rest :: "'st mapping \<Rightarrow> 'st \<Rightarrow> bytes \<Rightarrow> (nat \<times> rune) list \<Rightarrow> bytes" where
  "map_rest m st b [] = b"
| "map_rest m st b ((i, c) # xs) =
     (let (r, st) = m st c in
      map_rest m st
        (if 0 \<le>s r then (if r <s ucast RuneSelf then b @ [ucast r] else b @ rune_bytes r) else b) xs)"

definition Map :: "'st mapping \<Rightarrow> 'st \<Rightarrow> bytes \<Rightarrow> bytes" where
  "Map m st s =
     (case map_prefix m st s (range_string s 0) of
        None \<Rightarrow> s
      | Some (i, width, r, st) \<Rightarrow>
          map_rest m st (take i s @ (if 0 \<le>s r then rune_bytes r else [])) (range_string (drop (i + width) s) 0))"

text \<open>A mapping without state.\<close>

definition pure_map :: "(rune \<Rightarrow> rune) \<Rightarrow> unit mapping" where
  "pure_map f st r = (f r, st)"

section \<open>Case conversions\<close>

fun upper_scan :: "bytes \<Rightarrow> bool \<Rightarrow> bool \<times> bool" where
  "upper_scan [] hasLower = (True, hasLower)"
| "upper_scan (c # s) hasLower =
     (if c \<ge> RuneSelf then (False, hasLower) else upper_scan s (hasLower \<or> 0x61 \<le> c \<and> c \<le> 0x7A))"

definition ToUpper :: "unicode_data \<Rightarrow> bytes \<Rightarrow> bytes" where
  "ToUpper u s =
     (let (isASCII, hasLower) = upper_scan s False in
      if isASCII then
        if \<not> hasLower then s else map (\<lambda>c. if 0x61 \<le> c \<and> c \<le> 0x7A then c - (0x61 - 0x41) else c) s
      else Map (pure_map (unicode_ToUpper u)) () s)"

fun lower_scan :: "bytes \<Rightarrow> bool \<Rightarrow> bool \<times> bool" where
  "lower_scan [] hasUpper = (True, hasUpper)"
| "lower_scan (c # s) hasUpper =
     (if c \<ge> RuneSelf then (False, hasUpper) else lower_scan s (hasUpper \<or> 0x41 \<le> c \<and> c \<le> 0x5A))"

definition ToLower :: "unicode_data \<Rightarrow> bytes \<Rightarrow> bytes" where
  "ToLower u s =
     (let (isASCII, hasUpper) = lower_scan s False in
      if isASCII then
        if \<not> hasUpper then s else map (\<lambda>c. if 0x41 \<le> c \<and> c \<le> 0x5A then c + (0x61 - 0x41) else c) s
      else Map (pure_map (unicode_ToLower u)) () s)"

definition ToTitle :: "unicode_data \<Rightarrow> bytes \<Rightarrow> bytes" where
  "ToTitle u s = Map (pure_map (unicode_ToTitle u)) () s"

definition ToUpperSpecial :: "unicode_data \<Rightarrow> CaseRange list \<Rightarrow> bytes \<Rightarrow> bytes" where
  "ToUpperSpecial u c s = Map (pure_map (Special_ToUpper u c)) () s"

definition ToLowerSpecial :: "unicode_data \<Rightarrow> CaseRange list \<Rightarrow> bytes \<Rightarrow> bytes" where
  "ToLowerSpecial u c s = Map (pure_map (Special_ToLower u c)) () s"

definition ToTitleSpecial :: "unicode_data \<Rightarrow> CaseRange list \<Rightarrow> bytes \<Rightarrow> bytes" where
  "ToTitleSpecial u c s = Map (pure_map (Special_ToTitle u c)) () s"

definition isSeparator :: "unicode_data \<Rightarrow> rune \<Rightarrow> bool" where
  "isSeparator u r =
     (if r \<le>s 0x7F then
        (if 0x30 \<le>s r \<and> r \<le>s 0x39 then False
         else if 0x61 \<le>s r \<and> r \<le>s 0x7A then False
         else if 0x41 \<le>s r \<and> r \<le>s 0x5A then False
         else if r = 0x5F then False
         else True)
      else if IsLetter u r \<or> IsDigit u r then False
      else IsSpace r)"

text \<open>The closure of \<open>Title\<close>; its state is \<open>prev\<close>.\<close>

definition title_map :: "unicode_data \<Rightarrow> rune mapping" where
  "title_map u prev r = (if isSeparator u prev then (unicode_ToTitle u r, r) else (r, r))"

definition strings_Title :: "unicode_data \<Rightarrow> bytes \<Rightarrow> bytes" where
  "strings_Title u s = Map (title_map u) 0x20 s"

section \<open>Valid strings\<close>

function validutf8_loop :: "bytes \<Rightarrow> bytes \<Rightarrow> nat \<Rightarrow> bool \<Rightarrow> bytes \<Rightarrow> bytes" where
  "validutf8_loop s replacement i invalid b =
     (if i < length s then
        let c = s ! i in
        if c < RuneSelf then validutf8_loop s replacement (i + 1) False (b @ [c])
        else let wid = snd (DecodeRuneInString (drop i s)) in
        if wid = 1 then validutf8_loop s replacement (i + 1) True (if \<not> invalid then b @ replacement else b)
        else validutf8_loop s replacement (i + wid) False (b @ seg i (i + wid) s)
      else b)"
  by pat_completeness auto
termination
proof (relation "measure (\<lambda>(s, _, i, _). length s - i)", goal_cases)
  case (4 s replacement i invalid b c wid)
  then show ?case using DecodeRune_progress [of i s] by (simp add: string_versions)
qed auto

declare validutf8_loop.simps [simp del]

definition ToValidUTF8 :: "bytes \<Rightarrow> bytes \<Rightarrow> bytes" where
  "ToValidUTF8 s replacement =
     (case find (\<lambda>(i, c). c = RuneError \<and> snd (DecodeRuneInString (drop i s)) = 1) (range_string s 0) of
        None \<Rightarrow> s
      | Some (i, c) \<Rightarrow> validutf8_loop (drop i s) replacement 0 False (take i s))"

section \<open>Equality under case folding\<close>

definition next_rune :: "bytes \<Rightarrow> rune \<times> bytes" where
  "next_rune s =
     (if s ! 0 < RuneSelf then (ucast (s ! 0), drop 1 s)
      else let (r, n) = DecodeRuneInString s in (r, drop n s))"

partial_function (option) fold_orbit :: "unicode_data \<Rightarrow> rune \<Rightarrow> rune \<Rightarrow> rune \<Rightarrow> rune option" where
  "fold_orbit u sr tr r = (if r \<noteq> sr \<and> r <s tr then fold_orbit u sr tr (SimpleFold u r) else Some r)"

text \<open>The test of one pair of runes, \<open>None\<close> when the loop over the orbit does not end.\<close>

definition fold_rune_eq :: "unicode_data \<Rightarrow> rune \<Rightarrow> rune \<Rightarrow> bool option" where
  "fold_rune_eq u sr tr =
     (if tr = sr then Some True
      else let (sr, tr) = (if tr <s sr then (tr, sr) else (sr, tr)) in
      if tr <s ucast RuneSelf then Some (0x41 \<le>s sr \<and> sr \<le>s 0x5A \<and> tr = sr + 0x61 - 0x41)
      else map_option (\<lambda>r. r = tr) (fold_orbit u sr tr (SimpleFold u sr)))"

lemma next_rune_eq: "s \<noteq> [] \<Longrightarrow> next_rune s = (fst (DecodeRune s), drop (snd (DecodeRune s)) s)"
  using DecodeRune_ascii [of s] lead_info_ascii [of "s ! 0"]
  by (auto simp: next_rune_def string_versions split_beta)

function EqualFold :: "unicode_data \<Rightarrow> bytes \<Rightarrow> bytes \<Rightarrow> bool option" where
  "EqualFold u s t =
     (if s \<noteq> [] \<and> t \<noteq> [] then
        let (sr, s') = next_rune s; (tr, t') = next_rune t in
        (case fold_rune_eq u sr tr of
           None \<Rightarrow> None
         | Some b \<Rightarrow> if b then EqualFold u s' t' else Some False)
      else Some (s = t))"
  by pat_completeness auto
termination
proof (relation "measure (\<lambda>(u, s, t). length s)", goal_cases)
  case (2 u s t x sr s' y tr t' b)
  then have "s' = drop (snd (DecodeRune s)) s" by (simp add: next_rune_eq)
  then show ?case using 2 DecodeRune_size(1) [of s] by simp
qed simp

declare EqualFold.simps [simp del]

section \<open>What \<open>Map\<close> returns\<close>

fun map_runes :: "'st mapping \<Rightarrow> 'st \<Rightarrow> rune list \<Rightarrow> rune list" where
  "map_runes m st [] = []"
| "map_runes m st (c # cs) = (let (r, st) = m st c in r # map_runes m st cs)"

definition encode_all :: "rune list \<Rightarrow> bytes" where
  "encode_all rs = concat (map rune_bytes (filter (\<lambda>r. 0 \<le>s r) rs))"

lemma encode_all_simps [simp]:
  "encode_all [] = []"
  "encode_all (r # rs) = (if 0 \<le>s r then rune_bytes r else []) @ encode_all rs"
  "encode_all (rs @ rs') = encode_all rs @ encode_all rs'"
  by (simp_all add: encode_all_def)

lemma small_rune_bytes: "0 \<le>s r \<Longrightarrow> r <s ucast RuneSelf \<Longrightarrow> rune_bytes r = [ucast r]"
proof -
  assume "0 \<le>s r" "r <s ucast RuneSelf"
  then have r: "unat r < 0x80" using small_rune by blast
  then have u: "unat (ucast r :: byte) = unat r" by (simp add: view_simps)
  then have "(ucast (ucast r :: byte) :: rune) = r" by (simp add: word_unat_eq_iff unat_ucast_rune)
  moreover have "(ucast r :: byte) < RuneSelf" using r u by (simp add: word_less_nat_alt)
  ultimately show ?thesis using byte_rune(2) [of "ucast r"] by simp
qed

lemma map_rest_spec: "map_rest m st b xs = b @ encode_all (map_runes m st (map snd xs))"
  by (induction m st b xs rule: map_rest.induct) (auto simp: small_rune_bytes split: prod.splits)

lemma piece_decodes:
  assumes "segs s = xs @ (c, b) # ys"
  shows "DecodeRune (drop (length (concat (map snd xs))) s) = (c, length b)"
    and "drop (length (concat (map snd xs)) + length b) s = concat (map snd ys)"
proof -
  have s: "s = concat (map snd xs) @ b @ concat (map snd ys)" using concat_segs [of s] assms by simp
  then have "segs (drop (length (concat (map snd xs))) s) = (c, b) # ys" using segs_suffix [OF assms] by simp
  then show "DecodeRune (drop (length (concat (map snd xs))) s) = (c, length b)" using segs_head by blast
  show "drop (length (concat (map snd xs)) + length b) s = concat (map snd ys)" by (subst s) simp
qed

lemma error_piece: "(RuneError, b) \<in> set (segs s) \<Longrightarrow> length b \<noteq> 1 \<Longrightarrow> b = rune_bytes RuneError"
proof (induction s rule: segs_induct)
  case (cut p)
  obtain v n where d: "DecodeRune p = (v, n)" by (cases "DecodeRune p")
  have "v = RuneError \<Longrightarrow> length (take n p) \<noteq> 1 \<Longrightarrow> take n p = rune_bytes v"
    using cut.hyps d
  proof (cases rule: decode_cases)
    case error
    then show "length (take n p) \<noteq> 1 \<Longrightarrow> ?thesis" using cut.hyps by (cases p) auto
  qed
  then show ?case using cut d by (subst (asm) segs.simps) (auto simp del: RuneError_def)
qed simp

lemma valid_nonneg': "ValidRune r \<Longrightarrow> 0 \<le>s r"
  using nonneg_rune [of r] by (auto simp: ValidRune_iff)

lemma piece_stop:
  assumes "segs s = xs @ (c, b) # ys" and "i = length (concat (map snd xs))"
  shows "take i s = concat (map snd xs)" and "runes_of (drop (i + length b) s) = map fst ys"
proof -
  have s: "s = concat (map snd xs) @ b @ concat (map snd ys)" using concat_segs [of s] assms(1) by simp
  then show "take i s = concat (map snd xs)" by (simp add: assms(2))
  have "segs s = (xs @ [(c, b)]) @ ys" using assms(1) by simp
  from segs_suffix [OF this] show "runes_of (drop (i + length b) s) = map fst ys"
    using piece_decodes(2) [OF assms(1)] by (simp add: runes_of_segs assms(2))
qed

lemma map_prefix_spec:
  assumes "segs s = xs @ ys"
  shows "case map_prefix m st s (starts (length (concat (map snd xs))) ys) of
      None \<Rightarrow> encode_all (map_runes m st (map fst ys)) = concat (map snd ys)
    | Some (i, width, r, st') \<Rightarrow>
        take i s @ (if 0 \<le>s r then rune_bytes r else []) @ encode_all (map_runes m st' (runes_of (drop (i + width) s)))
          = concat (map snd xs) @ encode_all (map_runes m st (map fst ys))"
  using assms
proof (induction ys arbitrary: xs st)
  case (Cons y ys)
  obtain c b where y: "y = (c, b)" by (cases y)
  obtain r st1 where m: "m st c = (r, st1)" by (cases "m st c")
  have seg: "segs s = xs @ (c, b) # ys" using Cons.prems y by simp
  have mem: "(c, b) \<in> set (segs s)" using seg by simp
  let ?i = "length (concat (map snd xs))"
  have IH: "case map_prefix m st1 s (starts (?i + length b) ys) of
      None \<Rightarrow> encode_all (map_runes m st1 (map fst ys)) = concat (map snd ys)
    | Some (i, width, r, st') \<Rightarrow>
        take i s @ (if 0 \<le>s r then rune_bytes r else []) @ encode_all (map_runes m st' (runes_of (drop (i + width) s)))
          = concat (map snd xs) @ b @ encode_all (map_runes m st1 (map fst ys))"
    using Cons.IH [of "xs @ [(c, b)]" st1] seg by (simp cong: option.case_cong prod.case_cong)
  have d: "DecodeRuneInString (drop ?i s) = (c, length b)" using piece_decodes(1) [OF seg] by (simp add: string_versions)
  have v: "ValidRune c" using segs_piece_rune [OF mem] RuneError_valid by blast
  have keep: "encode_all (map_runes m st (map fst (y # ys))) = b @ encode_all (map_runes m st1 (map fst ys))"
    if "r = c" "b = rune_bytes c" using that v m y valid_nonneg' by simp
  have stop: "take ?i s @ (if 0 \<le>s r then rune_bytes r else []) @ encode_all (map_runes m st1 (runes_of (drop (?i + length b) s)))
      = concat (map snd xs) @ encode_all (map_runes m st (map fst (y # ys)))"
    using piece_stop [OF seg refl] m y by simp
  consider "r = c" "c \<noteq> RuneError" | "r \<noteq> c" "c \<noteq> RuneError" | "c = RuneError" "length b \<noteq> 1" "r = c"
    | "c = RuneError" "length b = 1 \<or> r \<noteq> c" by blast
  then show ?case
  proof cases
    case 1
    then have "b = rune_bytes c" using segs_piece_rune [OF mem] by blast
    then have k: "encode_all (map_runes m st (map fst (y # ys))) = b @ encode_all (map_runes m st1 (map fst ys))"
      using keep 1 by blast
    have "map_prefix m st s (starts ?i (y # ys)) = map_prefix m st1 s (starts (?i + length b) ys)" using 1 by (simp add: y m)
    then show ?thesis unfolding k using IH by (simp add: y cong: option.case_cong prod.case_cong)
  next
    case 2
    then have "b = rune_bytes c" using segs_piece_rune [OF mem] by blast
    then have "nat (RuneLen c) = length b" using RuneLen_rune_bytes [OF v] by simp
    with 2 stop show ?thesis by (simp add: y m)
  next
    case 3
    then have "b = rune_bytes c" using error_piece mem by blast
    then have k: "encode_all (map_runes m st (map fst (y # ys))) = b @ encode_all (map_runes m st1 (map fst ys))"
      using keep 3 by blast
    have "map_prefix m st s (starts ?i (y # ys)) = map_prefix m st1 s (starts (?i + length b) ys)"
      using 3 d m by (auto simp: y)
    then show ?thesis unfolding k using IH by (simp add: y cong: option.case_cong prod.case_cong)
  next
    case 4
    have "map_prefix m st s (starts ?i (y # ys)) = Some (?i, length b, r, st1)" using 4 d m by (auto simp: y)
    then show ?thesis using stop by simp
  qed
qed simp

lemma Map_spec: "Map m st s = encode_all (map_runes m st (runes_of s))"
proof (cases "map_prefix m st s (range_string s 0)")
  case None
  then show ?thesis using map_prefix_spec [of s "[]" "segs s" m st]
    by (simp add: Map_def range_string_starts runes_of_segs)
next
  case (Some a)
  obtain i width r st' where a: "a = (i, width, r, st')" by (cases a)
  have "map snd (range_string (drop (i + width) s) 0) = runes_of (drop (i + width) s)"
    using range_string_spec [of "drop (i + width) s" 0] by simp
  then show ?thesis using map_prefix_spec [of s "[]" "segs s" m st] Some a
    by (simp add: Map_def map_rest_spec range_string_starts runes_of_segs)
qed

lemma map_runes_pure [simp]: "map_runes (pure_map f) st cs = map f cs"
  by (induction cs) (simp_all add: pure_map_def)

lemma encode_ascii: "\<forall>c\<in>set s. g c < RuneSelf \<Longrightarrow> encode_all (map (\<lambda>c. ucast (g c)) s) = map g s"
proof (induction s)
  case (Cons c s)
  have "ValidRune (ucast (g c))" "rune_bytes (ucast (g c)) = [g c]" using byte_rune [of "g c"] Cons.prems by simp_all
  then show ?case using Cons valid_nonneg' by simp
qed simp

lemma upper_scan_spec: "fst (upper_scan s h) \<longleftrightarrow> (\<forall>c\<in>set s. c < RuneSelf)"
  "fst (upper_scan s h) \<Longrightarrow> snd (upper_scan s h) \<longleftrightarrow> h \<or> (\<exists>c\<in>set s. 0x61 \<le> c \<and> c \<le> 0x7A)"
  by (induction s arbitrary: h) (auto simp: not_less simp del: RuneSelf_def split: if_splits)

lemma lower_scan_spec: "fst (lower_scan s h) \<longleftrightarrow> (\<forall>c\<in>set s. c < RuneSelf)"
  "fst (lower_scan s h) \<Longrightarrow> snd (lower_scan s h) \<longleftrightarrow> h \<or> (\<exists>c\<in>set s. 0x41 \<le> c \<and> c \<le> 0x5A)"
  by (induction s arbitrary: h) (auto simp: not_less simp del: RuneSelf_def split: if_splits)

text \<open>The case mappings on ASCII characters.\<close>

lemma byte_sle: "n < 0x80 \<Longrightarrow> (ucast c :: rune) \<le>s word_of_nat n \<longleftrightarrow> unat c \<le> n"
  "n < 0x80 \<Longrightarrow> word_of_nat n \<le>s (ucast c :: rune) \<longleftrightarrow> n \<le> unat c" for c :: byte
proof -
  have c: "unat (ucast c :: rune) < 0x80000000"
    using unsigned_less [where 'a = nat, of c] by (simp add: unat_ucast_rune)
  assume n: "n < 0x80"
  have u: "unat (word_of_nat n :: rune) = n" using n by (simp add: unsigned_of_nat take_bit_nat_eq_self)
  have big: "unat (word_of_nat n :: rune) < 0x80000000" unfolding u using n by simp
  show "(ucast c :: rune) \<le>s word_of_nat n \<longleftrightarrow> unat c \<le> n" "word_of_nat n \<le>s (ucast c :: rune) \<longleftrightarrow> n \<le> unat c"
    using sle_nonneg [OF c big] sle_nonneg [OF big c] u by (simp_all only: unat_ucast_rune)
qed

lemma upper_ascii:
  assumes "c < RuneSelf"
  shows "unicode_ToUpper u (ucast c) = ucast (if 0x61 \<le> c \<and> c \<le> 0x7A then c - (0x61 - 0x41) else c)"
    and "(if 0x61 \<le> c \<and> c \<le> 0x7A then c - (0x61 - 0x41) else c) < RuneSelf"
proof -
  have c: "unat c < 0x80" using assms by (simp add: word_less_nat_alt)
  have cmp: "(ucast c :: rune) \<le>s 0x7F" "0x61 \<le>s (ucast c :: rune) \<longleftrightarrow> 0x61 \<le> unat c"
    "(ucast c :: rune) \<le>s 0x7A \<longleftrightarrow> unat c \<le> 0x7A"
    using byte_sle(1) [of "0x7F" c] byte_sle(2) [of "0x61" c] byte_sle(1) [of "0x7A" c] c by simp_all
  have le: "0x61 \<le> c \<and> c \<le> 0x7A \<longleftrightarrow> 0x61 \<le> unat c \<and> unat c \<le> 0x7A" by (simp add: word_le_nat_alt)
  have sub: "(ucast c :: rune) - 0x20 = ucast (c - 0x20)" "c - 0x20 < RuneSelf" if "0x61 \<le> unat c"
  proof -
    have "0x20 \<le> c" "0x20 \<le> (ucast c :: rune)" using that by (simp_all add: word_le_nat_alt unat_ucast_rune)
    then have "unat (c - 0x20) = unat c - 0x20" "unat ((ucast c :: rune) - 0x20) = unat c - 0x20"
      by (simp_all add: unat_sub unat_ucast_rune)
    then show "(ucast c :: rune) - 0x20 = ucast (c - 0x20)" "c - 0x20 < RuneSelf"
      using c by (simp_all add: word_unat_eq_iff unat_ucast_rune word_less_nat_alt)
  qed
  show "unicode_ToUpper u (ucast c) = ucast (if 0x61 \<le> c \<and> c \<le> 0x7A then c - (0x61 - 0x41) else c)"
    using cmp le sub by (simp add: unicode_ToUpper_def)
  show "(if 0x61 \<le> c \<and> c \<le> 0x7A then c - (0x61 - 0x41) else c) < RuneSelf"
    using assms sub le by simp
qed

lemma lower_ascii:
  assumes "c < RuneSelf"
  shows "unicode_ToLower u (ucast c) = ucast (if 0x41 \<le> c \<and> c \<le> 0x5A then c + (0x61 - 0x41) else c)"
    and "(if 0x41 \<le> c \<and> c \<le> 0x5A then c + (0x61 - 0x41) else c) < RuneSelf"
proof -
  have c: "unat c < 0x80" using assms by (simp add: word_less_nat_alt)
  have cmp: "(ucast c :: rune) \<le>s 0x7F" "0x41 \<le>s (ucast c :: rune) \<longleftrightarrow> 0x41 \<le> unat c"
    "(ucast c :: rune) \<le>s 0x5A \<longleftrightarrow> unat c \<le> 0x5A"
    using byte_sle(1) [of "0x7F" c] byte_sle(2) [of "0x41" c] byte_sle(1) [of "0x5A" c] c by simp_all
  have le: "0x41 \<le> c \<and> c \<le> 0x5A \<longleftrightarrow> 0x41 \<le> unat c \<and> unat c \<le> 0x5A" by (simp add: word_le_nat_alt)
  have add: "(ucast c :: rune) + 0x20 = ucast (c + 0x20)" "c + 0x20 < RuneSelf" if "unat c \<le> 0x5A"
  proof -
    have "unat (c + 0x20) = unat c + 0x20" "unat ((ucast c :: rune) + 0x20) = unat c + 0x20"
      using that by (simp_all add: unat_word_ariths unat_ucast_rune)
    then show "(ucast c :: rune) + 0x20 = ucast (c + 0x20)" "c + 0x20 < RuneSelf"
      using that by (simp_all add: word_unat_eq_iff unat_ucast_rune word_less_nat_alt)
  qed
  show "unicode_ToLower u (ucast c) = ucast (if 0x41 \<le> c \<and> c \<le> 0x5A then c + (0x61 - 0x41) else c)"
    using cmp le add by (simp add: unicode_ToLower_def)
  show "(if 0x41 \<le> c \<and> c \<le> 0x5A then c + (0x61 - 0x41) else c) < RuneSelf"
    using assms add le by simp
qed

lemma ToUpper_encode: "ToUpper u s = encode_all (map (unicode_ToUpper u) (runes_of s))"
proof (cases "fst (upper_scan s False)")
  case True
  then have a: "\<forall>c\<in>set s. c < RuneSelf" using upper_scan_spec(1) by blast
  let ?g = "\<lambda>c. if 0x61 \<le> c \<and> c \<le> 0x7A then c - (0x61 - 0x41) else c :: byte"
  have "encode_all (map (unicode_ToUpper u) (runes_of s)) = encode_all (map (\<lambda>c. ucast (?g c)) s)"
    unfolding ascii_runes [OF a] map_map comp_def using a upper_ascii(1) by (intro arg_cong [of _ _ encode_all] map_cong) auto
  also have "\<dots> = map ?g s" using a upper_ascii(2) by (intro encode_ascii) blast
  finally have e: "encode_all (map (unicode_ToUpper u) (runes_of s)) = map ?g s" .
  have "map ?g s = s" if "\<not> snd (upper_scan s False)"
    using that upper_scan_spec(2) [OF True] by (intro map_idI) auto
  then show ?thesis using True e by (auto simp: ToUpper_def split_beta)
next
  case False
  then show ?thesis by (simp add: ToUpper_def split_beta Map_spec)
qed

lemma ToLower_encode: "ToLower u s = encode_all (map (unicode_ToLower u) (runes_of s))"
proof (cases "fst (lower_scan s False)")
  case True
  then have a: "\<forall>c\<in>set s. c < RuneSelf" using lower_scan_spec(1) by blast
  let ?g = "\<lambda>c. if 0x41 \<le> c \<and> c \<le> 0x5A then c + (0x61 - 0x41) else c :: byte"
  have "encode_all (map (unicode_ToLower u) (runes_of s)) = encode_all (map (\<lambda>c. ucast (?g c)) s)"
    unfolding ascii_runes [OF a] map_map comp_def using a lower_ascii(1) by (intro arg_cong [of _ _ encode_all] map_cong) auto
  also have "\<dots> = map ?g s" using a lower_ascii(2) by (intro encode_ascii) blast
  finally have e: "encode_all (map (unicode_ToLower u) (runes_of s)) = map ?g s" .
  have "map ?g s = s" if "\<not> snd (lower_scan s False)"
    using that lower_scan_spec(2) [OF True] by (intro map_idI) auto
  then show ?thesis using True e by (auto simp: ToLower_def split_beta)
next
  case False
  then show ?thesis by (simp add: ToLower_def split_beta Map_spec)
qed

section \<open>What \<open>ToValidUTF8\<close> returns\<close>

text \<open>The pieces of the string, every run of invalid bytes replaced.\<close>

fun sanitized :: "bytes \<Rightarrow> bool \<Rightarrow> (rune \<times> bytes) list \<Rightarrow> bytes" where
  "sanitized replacement invalid [] = []"
| "sanitized replacement invalid ((r, b) # xs) =
     (if r = RuneError \<and> length b = 1 then (if invalid then [] else replacement) @ sanitized replacement True xs
      else b @ sanitized replacement False xs)"

lemma ascii_not_error: "c < RuneSelf \<Longrightarrow> (ucast c :: rune) \<noteq> RuneError"
proof
  assume "c < RuneSelf" "(ucast c :: rune) = RuneError"
  then have "unat (ucast c :: rune) = 0xFFFD" "unat c < 0x80" by (simp_all add: word_less_nat_alt)
  then show False by (simp add: unat_ucast_rune)
qed

lemma validutf8_loop_spec:
  "validutf8_loop s replacement i invalid b = b @ sanitized replacement invalid (segs (drop i s))"
proof (induction i arbitrary: invalid b rule: scan_induct [of s])
  case (1 i)
  then show ?case by (simp add: validutf8_loop.simps)
next
  case (2 i)
  let ?d = "DecodeRune (drop i s)"
  have ne: "drop i s \<noteq> []" using 2(1) by simp
  have seg: "segs (drop i s) = (fst ?d, take (snd ?d) (drop i s)) # segs (drop (i + snd ?d) s)"
    using ne by (subst segs.simps) (simp add: add.commute)
  have len: "length (take (snd ?d) (drop i s)) = snd ?d" using DecodeRune_size(2) [OF ne] by simp
  show ?case
  proof (cases "s ! i < RuneSelf")
    case True
    then have d: "?d = (ucast (s ! i), 1)" using 2(1) DecodeRune_ascii [of "drop i s"] lead_info_ascii [OF True] by simp
    have "take (Suc 0) (drop i s) = [s ! i]" using 2(1) by (simp add: take_Suc_conv_app_nth)
    then show ?thesis using True 2 d ascii_not_error [OF True]
      by (subst validutf8_loop.simps, subst seg) simp
  next
    case False
    have w: "snd ?d = 1 \<longleftrightarrow> fst ?d = RuneError \<and> snd ?d = 1"
    proof
      assume w1: "snd ?d = 1"
      obtain v n where d: "?d = (v, n)" by (cases ?d)
      from ne d have "v = RuneError"
      proof (cases rule: decode_cases)
        case rune
        then have "rune_bytes v = [s ! i]" using w1 d 2(1) by (simp add: take_Suc_conv_app_nth)
        moreover have "last (rune_bytes v) < RuneSelf \<longleftrightarrow> length (rune_bytes v) = 1" using rune_bytes_shape(3) [OF rune(1)] .
        ultimately show ?thesis using False by simp
      qed
      then show "fst ?d = RuneError \<and> snd ?d = 1" using d w1 by simp
    qed simp
    show ?thesis
    proof (cases "snd ?d = 1")
      case True
      then have "fst ?d = RuneError" using w by blast
      then show ?thesis using False 2 True len
        by (subst validutf8_loop.simps, subst seg) (simp add: string_versions Let_def del: RuneSelf_def RuneError_def)
    next
      case big: False
      then show ?thesis using False 2 len
        by (subst validutf8_loop.simps, subst seg)
          (simp add: string_versions seg_def Let_def del: RuneSelf_def RuneError_def)
    qed
  qed
qed

lemma sanitized_append_clean:
  assumes "\<forall>(r, b)\<in>set xs. \<not> (r = RuneError \<and> length b = 1)"
  shows "sanitized replacement False (xs @ ys) = concat (map snd xs) @ sanitized replacement False ys"
  using assms by (induction xs) (auto simp del: RuneError_def)

lemma find_append: "find P (xs @ ys) = (case find P xs of None \<Rightarrow> find P ys | Some x \<Rightarrow> Some x)"
  by (induction xs) auto

lemma ToValidUTF8_spec: "ToValidUTF8 s replacement = sanitized replacement False (segs s)"
proof -
  let ?P = "\<lambda>(i, c). c = RuneError \<and> snd (DecodeRuneInString (drop i s)) = 1"
  have P: "?P (i, c) \<longleftrightarrow> c = RuneError \<and> length b = 1"
    if seg: "segs s = xs @ (c, b) # ys" and i: "i = length (concat (map snd xs))" for i c b xs ys
    using piece_decodes(1) [OF seg] i by (simp add: string_versions)
  show ?thesis
  proof (cases "\<forall>(r, b)\<in>set (segs s). \<not> (r = RuneError \<and> length b = 1)")
    case True
    have "\<not> ?P (i, c)" if mem: "(i, c) \<in> set (range_string s 0)" for i c
    proof -
      obtain xs b ys where x: "segs s = xs @ (c, b) # ys" "i = length (concat (map snd xs))"
        using mem by (rule item_decodes)
      then have "(c, b) \<in> set (segs s)" by simp
      then show ?thesis using P [OF x] True by blast
    qed
    then have "find ?P (range_string s 0) = None" by (auto simp: find_None_iff)
    then show ?thesis using sanitized_append_clean [of "segs s" replacement "[]"] True by (simp add: ToValidUTF8_def)
  next
    case False
    then obtain xs x ys where x: "segs s = xs @ x # ys" "fst x = RuneError \<and> length (snd x) = 1"
      "\<forall>y\<in>set xs. \<not> (fst y = RuneError \<and> length (snd y) = 1)"
      using split_list_first_prop [of "segs s" "\<lambda>x. fst x = RuneError \<and> length (snd x) = 1"] by (auto simp: split_beta)
    let ?i = "length (concat (map snd xs))"
    have seg: "segs s = xs @ (RuneError, snd x) # ys" using x by (metis prod.collapse)
    have "find ?P (starts 0 xs) = None"
    proof -
      have "\<not> ?P (i, c)" if mem: "(i, c) \<in> set (starts 0 xs)" for i c
      proof -
        obtain us b vs where u: "xs = us @ (c, b) # vs" "i = length (concat (map snd us))"
          using mem starts_in [of i c 0 xs] by auto
        then have "segs s = us @ (c, b) # (vs @ x # ys)" "(c, b) \<in> set xs" using x(1) by auto
        then show ?thesis using P u(2) x(3) by fastforce
      qed
      then show ?thesis by (auto simp: find_None_iff)
    qed
    moreover have "?P (?i, RuneError)" using P [OF seg refl] x(2) by blast
    ultimately have "find ?P (range_string s 0) = Some (?i, RuneError)"
      by (simp add: range_string_starts seg starts_append find_append)
    moreover have "segs (drop ?i s) = x # ys"
      using segs_suffix [OF x(1)] piece_decodes(2) concat_segs [of s] x(1) by (metis append_eq_conv_conj concat_append map_append)
    moreover have "take ?i s = concat (map snd xs)" using concat_segs [of s] x(1) by (metis append_eq_conv_conj concat_append map_append)
    ultimately show ?thesis
      using sanitized_append_clean [of xs replacement "x # ys"] x
      by (auto simp: ToValidUTF8_def validutf8_loop_spec split_beta)
  qed
qed

text \<open>The result is valid UTF-8.\<close>

lemma Valid_runes: "Valid p \<longleftrightarrow> (\<exists>rs. (\<forall>r \<in> set rs. ValidRune r) \<and> p = concat (map rune_bytes rs))"
  using Valid_loop_spec [of p 0] by (simp add: Valid_def)

lemma Valid_append: "Valid p \<Longrightarrow> Valid q \<Longrightarrow> Valid (p @ q)"
proof -
  assume "Valid p" "Valid q"
  then obtain rs rs' where "\<forall>r \<in> set (rs @ rs'). ValidRune r" "p @ q = concat (map rune_bytes (rs @ rs'))"
    unfolding Valid_runes by auto
  then show ?thesis unfolding Valid_runes by blast
qed

lemma Valid_Nil: "Valid []"
  unfolding Valid_runes by (rule exI [of _ "[]"]) simp

lemma Valid_rune: "ValidRune r \<Longrightarrow> Valid (rune_bytes r)"
  unfolding Valid_runes by (rule exI [of _ "[r]"]) simp

lemma sanitized_valid:
  assumes "Valid replacement" and "set xs \<subseteq> set (segs s)"
  shows "Valid (sanitized replacement invalid xs)"
  using assms(2)
proof (induction xs arbitrary: invalid)
  case Nil
  then show ?case using Valid_Nil by simp
next
  case (Cons x xs)
  obtain r b where x: "x = (r, b)" by (cases x)
  have mem: "(r, b) \<in> set (segs s)" using Cons.prems x by simp
  have IH: "Valid (sanitized replacement v xs)" for v using Cons by simp
  show ?case
  proof (cases "r = RuneError \<and> length b = 1")
    case True
    then show ?thesis using IH Valid_append assms(1) by (auto simp: x)
  next
    case False
    have "ValidRune r" "b = rune_bytes r"
      using segs_piece_rune [OF mem] RuneError_valid error_piece [of b s] mem False by blast+
    then show ?thesis using False IH Valid_append Valid_rune by (auto simp: x)
  qed
qed

lemma segs_valid: "\<forall>r\<in>set rs. ValidRune r \<Longrightarrow> segs (concat (map rune_bytes rs)) = map (\<lambda>r. (r, rune_bytes r)) rs"
  by (induction rs) (simp_all add: segs_rune_bytes)

lemma sanitized_valid_id: "Valid s \<Longrightarrow> sanitized replacement False (segs s) = s"
proof -
  assume "Valid s"
  then obtain rs where rs: "\<forall>r\<in>set rs. ValidRune r" "s = concat (map rune_bytes rs)" unfolding Valid_runes by blast
  have "\<forall>(r, b)\<in>set (segs s). \<not> (r = RuneError \<and> length b = 1)"
    using length_RuneError_bytes by (auto simp: rs(2) segs_valid [OF rs(1)])
  from sanitized_append_clean [OF this, of replacement "[]"] show ?thesis by simp
qed

section \<open>What \<open>EqualFold\<close> compares\<close>

lemma fold_rune_eq_sym: "fold_rune_eq u a b = fold_rune_eq u b a"
proof -
  consider "sint a < sint b" | "sint b < sint a" | "a = b" by (metis linorder_neqE signed_word_eqI)
  then show ?thesis by cases (auto simp: fold_rune_eq_def sless_view)
qed

lemma fold_rune_eq_refl [simp]: "fold_rune_eq u a a = Some True"
  by (simp add: fold_rune_eq_def)

lemma EqualFold_step:
  "s \<noteq> [] \<Longrightarrow> t \<noteq> [] \<Longrightarrow> EqualFold u s t =
     (case fold_rune_eq u (fst (DecodeRune s)) (fst (DecodeRune t)) of
        None \<Rightarrow> None
      | Some b \<Rightarrow> if b then EqualFold u (drop (snd (DecodeRune s)) s) (drop (snd (DecodeRune t)) t) else Some False)"
  by (subst EqualFold.simps) (simp add: next_rune_eq)

lemma EqualFold_Nil: "EqualFold u [] t = Some (t = [])" "EqualFold u s [] = Some (s = [])"
  by (subst EqualFold.simps; auto)+

lemma fold_induct [case_names finish step]:
  assumes "\<And>s t. s = [] \<or> t = [] \<Longrightarrow> P s t"
    and "\<And>s t. s \<noteq> [] \<Longrightarrow> t \<noteq> [] \<Longrightarrow> P (drop (snd (DecodeRune s)) s) (drop (snd (DecodeRune t)) t) \<Longrightarrow> P s t"
  shows "P s t"
proof (induction "length s" arbitrary: s t rule: less_induct)
  case (less s t)
  show ?case
  proof (cases "s = [] \<or> t = []")
    case True
    then show ?thesis by (rule assms(1))
  next
    case False
    then have ne: "s \<noteq> []" "t \<noteq> []" by simp_all
    have "length (drop (snd (DecodeRune s)) s) < length s" using DecodeRune_size(1) [OF ne(1)] ne(1) by simp
    then have "P (drop (snd (DecodeRune s)) s) (drop (snd (DecodeRune t)) t)" by (rule less.hyps)
    with ne show ?thesis by (rule assms(2))
  qed
qed

lemma EqualFold_pairs:
  "EqualFold u s t = Some True \<longleftrightarrow> list_all2 (\<lambda>a b. fold_rune_eq u a b = Some True) (runes_of s) (runes_of t)"
proof (induction s t rule: fold_induct)
  case (finish s t)
  then show ?case by (auto simp: EqualFold_Nil runes_of_segs)
next
  case (step s t)
  then show ?case
    by (subst EqualFold_step, simp, simp, subst (1 2) runes_of.simps) (auto split: option.splits)
qed

lemma EqualFold_sym: "EqualFold u s t = EqualFold u t s"
proof (induction s t rule: fold_induct)
  case (finish s t)
  then show ?case by (auto simp: EqualFold_Nil)
next
  case (step s t)
  show ?case
    unfolding EqualFold_step [OF step(1,2)] EqualFold_step [OF step(2,1)] step(3)
    by (subst fold_rune_eq_sym) (rule refl)
qed

text \<open>The lower-case form of an ASCII character.\<close>

definition ascii_lower :: "byte \<Rightarrow> byte" where
  "ascii_lower c = (if 0x41 \<le> c \<and> c \<le> 0x5A then c + 0x20 else c)"

lemma unat_ascii_lower: "unat c < 0x80 \<Longrightarrow>
    unat (ascii_lower c) = (if 0x41 \<le> unat c \<and> unat c \<le> 0x5A then unat c + 0x20 else unat c)"
  by (auto simp: ascii_lower_def word_le_nat_alt unat_word_ariths)

lemma fold_ascii_less:
  fixes a b :: byte
  assumes "unat a < unat b" and "unat b < 0x80"
  shows "fold_rune_eq u (ucast a) (ucast b) = Some (0x41 \<le> unat a \<and> unat a \<le> 0x5A \<and> unat b = unat a + 0x20)"
proof -
  have ne: "(ucast b :: rune) \<noteq> ucast a" using assms(1) ucast_byte_eq [of b a] by (metis less_irrefl)
  have u: "uint (ucast c :: rune) = int (unat c)" for c :: byte by (metis uint_nat unat_ucast_rune)
  have si: "sint (ucast c :: rune) = int (unat c)" if "unat c < 0x80" for c :: byte
  proof -
    have "int (unat c) < 2147483648" using that by linarith
    then show ?thesis unfolding sint_view u by simp
  qed
  have less: "\<not> (ucast b :: rune) <s ucast a"
  proof -
    have "unat a < 0x80" using assms by linarith
    then show ?thesis unfolding sless_view si [OF assms(2)] using assms(1) by (simp only: si)
  qed
  have "int (unat b) < 128" using assms(2) by linarith
  then have "(ucast b :: rune) <s 0x80" unfolding sless_view si [OF assms(2)] by simp
  then have less': "(ucast b :: rune) <s ucast RuneSelf" by simp
  have cmp: "0x41 \<le>s (ucast a :: rune) \<longleftrightarrow> 0x41 \<le> unat a" "(ucast a :: rune) \<le>s 0x5A \<longleftrightarrow> unat a \<le> 0x5A"
    using byte_sle(2) [of "0x41" a] byte_sle(1) [of "0x5A" a] by simp_all
  have "unat ((ucast a :: rune) + 0x20) = unat a + 0x20"
    using assms by (simp add: unat_word_ariths unat_ucast_rune)
  then have add: "(ucast b :: rune) = ucast a + 0x61 - 0x41 \<longleftrightarrow> unat b = unat a + 0x20"
    by (simp add: word_unat_eq_iff unat_ucast_rune add.commute)
  show ?thesis using ne less less' cmp add by (simp add: fold_rune_eq_def)
qed

lemma fold_ascii:
  fixes a b :: byte
  assumes "unat a < 0x80" and "unat b < 0x80"
  shows "fold_rune_eq u (ucast a) (ucast b) = Some (ascii_lower a = ascii_lower b)"
proof -
  have l: "ascii_lower a = ascii_lower b \<longleftrightarrow>
      (if 0x41 \<le> unat a \<and> unat a \<le> 0x5A then unat a + 0x20 else unat a) =
      (if 0x41 \<le> unat b \<and> unat b \<le> 0x5A then unat b + 0x20 else unat b)"
    using assms by (simp add: word_unat_eq_iff unat_ascii_lower)
  consider "unat a < unat b" | "unat b < unat a" | "a = b" by (metis linorder_neqE_nat word_unat_eq_iff)
  then show ?thesis
  proof cases
    case 1
    show ?thesis unfolding fold_ascii_less [OF 1 assms(2)] l using 1 by auto
  next
    case 2
    show ?thesis unfolding fold_rune_eq_sym [of u "ucast a"] fold_ascii_less [OF 2 assms(1)] l using 2 by auto
  qed simp
qed

lemma EqualFold_ascii:
  "\<forall>c\<in>set s \<union> set t. c < RuneSelf \<Longrightarrow> EqualFold u s t = Some (map ascii_lower s = map ascii_lower t)"
proof (induction s arbitrary: t)
  case Nil
  then show ?case by (auto simp: EqualFold_Nil)
next
  case (Cons c s)
  show ?case
  proof (cases t)
    case Nil
    then show ?thesis by (simp add: EqualFold_Nil)
  next
    case t: (Cons d t')
    have a: "c < RuneSelf" "d < RuneSelf" using Cons.prems t by auto
    have d: "DecodeRune (c # s) = (ucast c, 1)" "DecodeRune (d # t') = (ucast d, 1)"
      using DecodeRune_ascii [of "c # s"] DecodeRune_ascii [of "d # t'"] a lead_info_ascii by simp_all
    have "unat c < 0x80" "unat d < 0x80" using a by (simp_all add: word_less_nat_alt)
    then show ?thesis using Cons d t fold_ascii by (subst EqualFold_step) simp_all
  qed
qed

section \<open>Properties\<close>

text \<open>
  \<open>strings.Map\<close> calls the mapping once for every rune, from left to right, and returns the encodings of
  the results that are not negative; its first loop, which returns or copies the unchanged prefix of the
  string, does not show.  An invalid byte is mapped as \<open>RuneError\<close> and never copied.
\<close>
theorem Map_runes: "Map m st s = encode_all (map_runes m st (runes_of s))"
  by (rule Map_spec)

text \<open>
  \<open>strings.ToUpper\<close> and \<open>ToLower\<close>, with their fast paths for ASCII strings, return the encodings of the
  upper-case and lower-case forms of the runes of the string.
\<close>
theorem ToUpper_ToLower_runes:
  "ToUpper u s = encode_all (map (unicode_ToUpper u) (runes_of s))
   \<and> ToLower u s = encode_all (map (unicode_ToLower u) (runes_of s))"
  by (simp add: ToUpper_encode ToLower_encode)

text \<open>
  \<open>strings.ToValidUTF8\<close> returns the pieces of the string with every maximal run of invalid bytes
  replaced; with a valid replacement the result is valid UTF-8, and a second pass does not change it.
\<close>
theorem ToValidUTF8_valid:
  assumes "Valid replacement"
  shows "ToValidUTF8 s replacement = sanitized replacement False (segs s)
    \<and> Valid (ToValidUTF8 s replacement)
    \<and> ToValidUTF8 (ToValidUTF8 s replacement) replacement = ToValidUTF8 s replacement"
  using sanitized_valid [OF assms, of "segs s" s False] sanitized_valid_id by (simp add: ToValidUTF8_spec)

theorem ToValidUTF8_valid_witness:
  "ToValidUTF8 [0x61, 0xFF, 0xC0, 0x62] [0x3F] = sanitized [0x3F] False (segs [0x61, 0xFF, 0xC0, 0x62])
    \<and> Valid (ToValidUTF8 [0x61, 0xFF, 0xC0, 0x62] [0x3F])
    \<and> ToValidUTF8 (ToValidUTF8 [0x61, 0xFF, 0xC0, 0x62] [0x3F]) [0x3F] = ToValidUTF8 [0x61, 0xFF, 0xC0, 0x62] [0x3F]"
  by (rule ToValidUTF8_valid) code_simp

text \<open>
  \<open>strings.EqualFold\<close> is symmetric, it holds exactly when the strings have as many runes and each
  pair of runes passes the test of \<open>fold_rune_eq\<close>, and on ASCII strings (here the strings of the low seven
  bits of any two strings) it always returns and compares the lower-case forms.
\<close>
theorem EqualFold_runes:
  "EqualFold u s t = EqualFold u t s
   \<and> (EqualFold u s t = Some True
      \<longleftrightarrow> list_all2 (\<lambda>a b. fold_rune_eq u a b = Some True) (runes_of s) (runes_of t))
   \<and> EqualFold u (map (\<lambda>c. c AND 0x7F) s) (map (\<lambda>c. c AND 0x7F) t)
       = Some (map (\<lambda>c. ascii_lower (c AND 0x7F)) s = map (\<lambda>c. ascii_lower (c AND 0x7F)) t)"
proof (intro conjI)
  have "c AND 0x7F < RuneSelf" for c :: byte
    using unat_and_mask [of c 7] by (simp add: mask_eq_exp_minus_1 word_less_nat_alt)
  then show "EqualFold u (map (\<lambda>c. c AND 0x7F) s) (map (\<lambda>c. c AND 0x7F) t)
       = Some (map (\<lambda>c. ascii_lower (c AND 0x7F)) s = map (\<lambda>c. ascii_lower (c AND 0x7F)) t)"
    using EqualFold_ascii [of "map (\<lambda>c. c AND 0x7F) s" "map (\<lambda>c. c AND 0x7F) t" u] by (auto simp: comp_def)
qed (rule EqualFold_sym EqualFold_pairs)+

end
