(* ===== verification/BytesFns.thy ===== *)
theory BytesFns
  imports StringsMap BytesBuffer
begin

text \<open>
  Package \<open>bytes\<close> (\<open>bytes/bytes.go\<close>), part one: comparing, searching, splitting and joining byte slices.
  The functions mirror those of package \<open>strings\<close> but are written anew in the source, with other loops
  and other library calls; so are these definitions.  A nil slice and an empty slice are both the empty
  list.  The architecture's search is the argument \<open>ops\<close>, of which this package uses \<open>bytealg.Index\<close>.
\<close>

section \<open>Comparing and counting\<close>

definition bytes_Equal :: "bytes \<Rightarrow> bytes \<Rightarrow> bool" where
  "bytes_Equal a b \<longleftrightarrow> a = b"

text \<open>\<open>same\<close> tells whether the two slices start at the same address.\<close>

definition bytes_Compare :: "bool \<Rightarrow> bytes \<Rightarrow> bytes \<Rightarrow> int" where
  "bytes_Compare same a b = bytealg_Compare same a b"

function bytes_explode_loop :: "bytes \<Rightarrow> nat \<Rightarrow> nat \<Rightarrow> bytes list" where
  "bytes_explode_loop s n na =
     (if length s > 0 then
        if na + 1 \<ge> n then [s]
        else let (_, size') = DecodeRune s in
          take size' s # bytes_explode_loop (drop size' s) n (na + 1)
      else [])"
  by pat_completeness auto
termination
proof (relation "measure (\<lambda>(s, _). length s)", goal_cases)
  case (2 s n na x y size')
  then show ?case using DecodeRune_size(1) [of s] by (cases "DecodeRune s") auto
qed simp

text \<open>\<open>M\<close> is the largest length of the slice \<open>a\<close> that \<open>make\<close> can allocate.\<close>

definition bytes_explode :: "int \<Rightarrow> bytes \<Rightarrow> int \<Rightarrow> bytes list go" where
  "bytes_explode M s n =
     (let n = (if n \<le> 0 then int (length s) else n)
      in go_bind (go_make M n ([] :: bytes)) (\<lambda>_. Inr (bytes_explode_loop s (nat n) 0)))"

section \<open>\<open>Index\<close>\<close>

text \<open>The test \<open>s[i+1] == c1 && Equal(s[i:i+n], sep)\<close>.\<close>

definition bytes_match_here :: "bytes \<Rightarrow> bytes \<Rightarrow> byte \<Rightarrow> nat \<Rightarrow> bool go" where
  "bytes_match_here s sep c1 i =
     go_bind (go_nth s (i + 1)) (\<lambda>b.
       if b = c1 then go_bind (go_slice s i (i + length sep)) (\<lambda>w. Inr (bytes_Equal w sep))
       else Inr False)"

function bytes_rk_loop :: "bytes \<Rightarrow> bytes \<Rightarrow> u32 \<Rightarrow> u32 \<Rightarrow> nat \<Rightarrow> u32 \<Rightarrow> int" where
  "bytes_rk_loop s sep hashsep pow i h =
     (if i < length s then
        let n = length sep;
            h = h * primeRK; h = h + ucast (s ! i); h = h - pow * ucast (s ! (i - n)); i = i + 1 in
        if h = hashsep \<and> bytes_Equal (seg (i - n) i s) sep then int (i - n)
        else bytes_rk_loop s sep hashsep pow i h
      else -1)"
  by pat_completeness auto
termination by (relation "measure (\<lambda>(s, _, _, _, i, _). length s - i)") auto

definition bytes_hashStr :: "bytes \<Rightarrow> u32 \<times> u32" where
  "bytes_hashStr sep =
     (let hash = foldl (\<lambda>hash i. hash * primeRK + ucast (sep ! i)) 0 [0..<length sep]
      in (hash, pow_loop (length sep) 1 primeRK))"

definition bytes_hashStrRev :: "bytes \<Rightarrow> u32 \<times> u32" where
  "bytes_hashStrRev sep =
     (let hash = foldl (\<lambda>hash i. hash * primeRK + ucast (sep ! i)) 0 (rev [0..<length sep])
      in (hash, pow_loop (length sep) 1 primeRK))"

definition bytes_indexRabinKarp :: "bytes \<Rightarrow> bytes \<Rightarrow> int go" where
  "bytes_indexRabinKarp s sep =
     (let (hashsep, pow) = bytes_hashStr sep; n = length sep in
      if n > length s then Inl IndexOutOfRange
      else let h = foldl (\<lambda>h i. h * primeRK + ucast (s ! i)) 0 [0..<n] in
      if h = hashsep \<and> bytes_Equal (take n s) sep then Inr 0
      else Inr (bytes_rk_loop s sep hashsep pow n h))"

function bytes_index_short :: "bytealg_ops \<Rightarrow> bytes \<Rightarrow> bytes \<Rightarrow> byte \<Rightarrow> byte \<Rightarrow> nat \<Rightarrow> nat \<Rightarrow> int go" where
  "bytes_index_short ops s sep c0 c1 i fails =
     (let t = length s - length sep + 1 in
      if i < t then
        go_bind (go_nth s i) (\<lambda>b.
          let o' = (if b \<noteq> c0 then bytes_IndexByte (seg i t s) c0 else 0) in
          if o' < 0 then Inr (-1)
          else let i = i + nat o' in
          go_bind (bytes_match_here s sep c1 i) (\<lambda>found.
            if found then Inr (int i)
            else let fails = fails + 1; i = i + 1 in
            go_bind (Cutover ops i) (\<lambda>limit.
              if fails > limit then
                go_bind (IndexBytes ops (drop i s) sep) (\<lambda>r.
                  if r \<ge> 0 then Inr (r + int i) else Inr (-1))
              else bytes_index_short ops s sep c0 c1 i fails)))
      else Inr (-1))"
  by pat_completeness auto
termination
  by (relation "measure (\<lambda>(ops, s, sep, _, _, i, _). length s - length sep + 1 - i)") auto

function bytes_index_long :: "bytes \<Rightarrow> bytes \<Rightarrow> byte \<Rightarrow> byte \<Rightarrow> nat \<Rightarrow> nat \<Rightarrow> int go" where
  "bytes_index_long s sep c0 c1 i fails =
     (let t = length s - length sep + 1 in
      if i < t then
        go_bind (go_nth s i) (\<lambda>b.
          let o' = (if b \<noteq> c0 then bytes_IndexByte (seg i t s) c0 else 0) in
          if o' < 0 then Inr (-1)
          else let i = i + nat o' in
          go_bind (bytes_match_here s sep c1 i) (\<lambda>found.
            if found then Inr (int i)
            else let i = i + 1; fails = fails + 1 in
            if fails \<ge> 4 + i div 16 \<and> i < t then
              go_bind (bytes_indexRabinKarp (drop i s) sep) (\<lambda>j.
                if j < 0 then Inr (-1) else Inr (int i + j))
            else bytes_index_long s sep c0 c1 i fails))
      else Inr (-1))"
  by pat_completeness auto
termination
  by (relation "measure (\<lambda>(s, sep, _, _, i, _). length s - length sep + 1 - i)") auto

declare bytes_explode_loop.simps [simp del] bytes_rk_loop.simps [simp del]
  bytes_index_short.simps [simp del] bytes_index_long.simps [simp del]

definition bytes_Index :: "bytealg_ops \<Rightarrow> bytes \<Rightarrow> bytes \<Rightarrow> int go" where
  "bytes_Index ops s sep =
     (let n = length sep in
      if n = 0 then Inr 0
      else if n = 1 then Inr (bytes_IndexByte s (sep ! 0))
      else if n = length s then Inr (if bytes_Equal sep s then 0 else -1)
      else if n > length s then Inr (-1)
      else if n \<le> MaxLen ops then
        if length s \<le> MaxBruteForce ops then IndexBytes ops s sep
        else bytes_index_short ops s sep (sep ! 0) (sep ! 1) 0 0
      else bytes_index_long s sep (sep ! 0) (sep ! 1) 0 0)"

definition bytes_Contains :: "bytealg_ops \<Rightarrow> bytes \<Rightarrow> bytes \<Rightarrow> bool go" where
  "bytes_Contains ops b subslice = go_bind (bytes_Index ops b subslice) (\<lambda>i. Inr (i \<noteq> -1))"

partial_function (option) bytes_count_loop ::
  "bytealg_ops \<Rightarrow> bytes \<Rightarrow> bytes \<Rightarrow> nat \<Rightarrow> nat go option" where
  "bytes_count_loop ops s sep n =
     (case bytes_Index ops s sep of
        Inl e \<Rightarrow> Some (Inl e)
      | Inr i \<Rightarrow>
          if i = -1 then Some (Inr n)
          else let k = i + int (length sep) in
            if 0 \<le> k \<and> k \<le> int (length s)
            then bytes_count_loop ops (drop (nat k) s) sep (n + 1)
            else Some (Inl SliceOutOfRange))"

definition bytes_Count :: "bytealg_ops \<Rightarrow> bytes \<Rightarrow> bytes \<Rightarrow> nat go option" where
  "bytes_Count ops s sep =
     (if length sep = 0 then Some (Inr (RuneCount s + 1))
      else if length sep = 1 then Some (Inr (bytealg_Count s (sep ! 0)))
      else bytes_count_loop ops s sep 0)"

section \<open>Other searches\<close>

fun bytes_portable_loop :: "bytes \<Rightarrow> byte \<Rightarrow> nat \<Rightarrow> int" where
  "bytes_portable_loop [] c i = -1"
| "bytes_portable_loop (b # s) c i = (if b = c then int i else bytes_portable_loop s c (i + 1))"

definition indexBytePortable :: "bytes \<Rightarrow> byte \<Rightarrow> int" where
  "indexBytePortable s c = bytes_portable_loop s c 0"

definition bytes_LastIndexByte :: "bytes \<Rightarrow> byte \<Rightarrow> int" where
  "bytes_LastIndexByte s c =
     (case find (\<lambda>i. s ! i = c) (rev [0..<length s]) of None \<Rightarrow> -1 | Some i \<Rightarrow> int i)"

fun bytes_lastrk_loop :: "bytes \<Rightarrow> bytes \<Rightarrow> u32 \<Rightarrow> u32 \<Rightarrow> u32 \<Rightarrow> nat \<Rightarrow> int" where
  "bytes_lastrk_loop s sep hashss pow h 0 = -1"
| "bytes_lastrk_loop s sep hashss pow h (Suc i) =
     (let n = length sep;
          h = h * primeRK; h = h + ucast (s ! i); h = h - pow * ucast (s ! (i + n)) in
      if h = hashss \<and> bytes_Equal (seg i (i + n) s) sep then int i
      else bytes_lastrk_loop s sep hashss pow h i)"

definition bytes_LastIndex :: "bytes \<Rightarrow> bytes \<Rightarrow> int" where
  "bytes_LastIndex s sep =
     (let n = length sep in
      if n = 0 then int (length s)
      else if n = 1 then bytes_LastIndexByte s (sep ! 0)
      else if n = length s then (if bytes_Equal s sep then 0 else -1)
      else if n > length s then -1
      else
        let (hashss, pow) = bytes_hashStrRev sep; last = length s - n;
            h = foldl (\<lambda>h i. h * primeRK + ucast (s ! i)) 0 (rev [last..<length s]) in
        if h = hashss \<and> bytes_Equal (drop last s) sep then int last
        else bytes_lastrk_loop s sep hashss pow h last)"

function bytes_error_loop :: "bytes \<Rightarrow> nat \<Rightarrow> int" where
  "bytes_error_loop s i =
     (if i < length s then
        let (r1, n) = DecodeRune (drop i s) in
        if r1 = RuneError then int i else bytes_error_loop s (i + n)
      else -1)"
  by pat_completeness auto
termination
proof (relation "measure (\<lambda>(s, i). length s - i)", goal_cases)
  case (2 s i x r n)
  then show ?case using DecodeRune_progress [of i s] by (cases "DecodeRune (drop i s)") auto
qed simp

text \<open>The default case encodes the rune into an array of four bytes.\<close>

definition bytes_IndexRune :: "bytealg_ops \<Rightarrow> bytes \<Rightarrow> rune \<Rightarrow> int go" where
  "bytes_IndexRune ops s r =
     (if 0 \<le>s r \<and> r <s ucast RuneSelf then Inr (bytes_IndexByte s (ucast r))
      else if r = RuneError then Inr (bytes_error_loop s 0)
      else if \<not> ValidRune r then Inr (-1)
      else go_bind (EncodeRune (replicate UTFMax 0) r) (\<lambda>(b, n). bytes_Index ops s (take n b)))"

definition bytes_ContainsRune :: "bytealg_ops \<Rightarrow> bytes \<Rightarrow> rune \<Rightarrow> bool go" where
  "bytes_ContainsRune ops b r = go_bind (bytes_IndexRune ops b r) (\<lambda>i. Inr (i \<ge> 0))"

text \<open>The rune at \<open>i\<close> as the loops over byte slices read it.\<close>

definition rune_at :: "bytes \<Rightarrow> nat \<Rightarrow> rune \<times> nat" where
  "rune_at s i = (if s ! i < RuneSelf then (ucast (s ! i), 1) else DecodeRune (drop i s))"

lemma rune_at_decode: "i < length s \<Longrightarrow> rune_at s i = DecodeRune (drop i s)"
  using DecodeRune_ascii [of "drop i s"] lead_info_ascii [of "s ! i"] by (auto simp: rune_at_def)

function bytes_indexany_loop :: "bytes \<Rightarrow> bytes \<Rightarrow> nat \<Rightarrow> int" where
  "bytes_indexany_loop s chars i =
     (if i < length s then
        let (r, width) = rune_at s i in
        if list_ex (\<lambda>(_, ch). r = ch) (range_string chars 0) then int i
        else bytes_indexany_loop s chars (i + width)
      else -1)"
  by pat_completeness auto
termination
proof (relation "measure (\<lambda>(s, chars, i). length s - i)", goal_cases)
  case (2 s chars i x r n)
  then show ?case using DecodeRune_progress [of i s] rune_at_decode [of i s] by (cases "DecodeRune (drop i s)") auto
qed simp

definition bytes_makeASCIISet :: "bytes \<Rightarrow> asciiSet \<times> bool" where
  "bytes_makeASCIISet chars = asciiset_loop (replicate 8 0) chars"

definition bytes_contains :: "asciiSet \<Rightarrow> byte \<Rightarrow> bool" where
  "bytes_contains as c \<longleftrightarrow> as ! unat (drop_bit 5 c) AND push_bit (unat (c AND 31)) 1 \<noteq> 0"

definition bytes_IndexAny :: "bytes \<Rightarrow> bytes \<Rightarrow> int" where
  "bytes_IndexAny s chars =
     (if chars = [] then -1
      else let (as, isASCII) = bytes_makeASCIISet chars in
      if length s > 8 \<and> isASCII then
        (case find (\<lambda>i. bytes_contains as (s ! i)) [0..<length s] of None \<Rightarrow> -1 | Some i \<Rightarrow> int i)
      else bytes_indexany_loop s chars 0)"

definition bytes_ContainsAny :: "bytes \<Rightarrow> bytes \<Rightarrow> bool" where
  "bytes_ContainsAny b chars \<longleftrightarrow> bytes_IndexAny b chars \<ge> 0"

lemma DecodeLastRune_progress': "0 < i \<Longrightarrow> i \<le> length s \<Longrightarrow> 0 < snd (DecodeLastRune (take i s))"
  using DecodeLastRune_progress [of i s] by (simp add: string_versions)

function bytes_lastany_loop :: "bytes \<Rightarrow> bytes \<Rightarrow> nat \<Rightarrow> int" where
  "bytes_lastany_loop s chars i =
     (if 0 < i \<and> i \<le> length s then
        let (r, n) = DecodeLastRune (take i s); i = i - n in
        if list_ex (\<lambda>(_, c). r = c) (range_string chars 0) then int i else bytes_lastany_loop s chars i
      else -1)"
  by pat_completeness auto
termination
proof (relation "measure (\<lambda>(s, chars, i). i)", goal_cases)
  case (2 s chars i x r n i')
  then show ?case using DecodeLastRune_progress' [of i s] by (metis diff_less in_measure prod.case snd_conv)
qed simp

definition bytes_LastIndexAny :: "bytes \<Rightarrow> bytes \<Rightarrow> int" where
  "bytes_LastIndexAny s chars =
     (if chars = [] then -1
      else let (as, isASCII) = bytes_makeASCIISet chars in
      if length s > 8 \<and> isASCII then
        (case find (\<lambda>i. bytes_contains as (s ! i)) (rev [0..<length s]) of None \<Rightarrow> -1 | Some i \<Rightarrow> int i)
      else bytes_lastany_loop s chars (length s))"

declare bytes_error_loop.simps [simp del] bytes_indexany_loop.simps [simp del] bytes_lastany_loop.simps [simp del]

section \<open>They agree with the functions of package strings\<close>

lemma Equal_agrees: "bytes_Equal = (=)"
  by (simp add: fun_eq_iff bytes_Equal_def)

lemma IndexByte_agrees: "bytes_IndexByte = strings_IndexByte"
  by (simp add: fun_eq_iff bytes_IndexByte_def strings_IndexByte_def IndexByte_eq)

lemma match_agrees: "bytes_match_here = match_here"
  unfolding fun_eq_iff bytes_match_here_def match_here_def Equal_agrees by simp

lemma hash_agrees: "bytes_hashStr = hashStr" "bytes_hashStrRev = hashStrRev"
  by (simp_all add: fun_eq_iff bytes_hashStr_def hashStr_def bytes_hashStrRev_def hashStrRev_def)

lemma rk_agrees: "bytes_rk_loop s sep hashsep pow i h = rk_loop s sep hashsep pow i h"
proof (induction s sep hashsep pow i h rule: rk_loop.induct)
  case (1 s sep hashsep pow i h)
  then show ?case by (subst rk_loop.simps, subst bytes_rk_loop.simps) (simp add: Equal_agrees Let_def)
qed

lemma RabinKarp_agrees: "bytes_indexRabinKarp = indexRabinKarp"
  unfolding fun_eq_iff bytes_indexRabinKarp_def indexRabinKarp_def hash_agrees rk_agrees Equal_agrees
  by (simp add: Let_def split_beta)

text \<open>The architecture's functions with the search of byte slices used for strings too.\<close>

definition with_bytes :: "bytealg_ops \<Rightarrow> bytealg_ops" where
  "with_bytes ops = ops\<lparr>IndexString := IndexBytes ops\<rparr>"

lemma with_bytes_law: "bytealg ops \<Longrightarrow> bytealg (with_bytes ops)"
  by (simp add: bytealg_def with_bytes_def)

lemma short_agrees: "bytes_index_short ops s sep c0 c1 i fails = index_short (with_bytes ops) s sep c0 c1 i fails"
proof (induction "length s - length sep + 1 - i" arbitrary: i fails rule: less_induct)
  case less
  show ?case
  proof (cases "i < length s - length sep + 1")
    case True
    have "bytes_index_short ops s sep c0 c1 j f = index_short (with_bytes ops) s sep c0 c1 j f" if "i < j" for j f
      using that True by (intro less) auto
    then show ?thesis
      by (subst index_short.simps, subst bytes_index_short.simps)
        (simp add: Let_def match_agrees IndexByte_agrees with_bytes_def cong: if_cong)
  next
    case False
    then show ?thesis by (subst index_short.simps, subst bytes_index_short.simps) simp
  qed
qed

lemma long_agrees: "bytes_index_long s sep c0 c1 i fails = index_long s sep c0 c1 i fails"
proof (induction "length s - length sep + 1 - i" arbitrary: i fails rule: less_induct)
  case less
  show ?case
  proof (cases "i < length s - length sep + 1")
    case True
    have "bytes_index_long s sep c0 c1 j f = index_long s sep c0 c1 j f" if "i < j" for j f
      using that True by (intro less) auto
    then show ?thesis
      by (subst index_long.simps, subst bytes_index_long.simps)
        (simp add: Let_def match_agrees IndexByte_agrees RabinKarp_agrees cong: if_cong)
  next
    case False
    then show ?thesis by (subst index_long.simps, subst bytes_index_long.simps) simp
  qed
qed

lemma Index_with: "bytes_Index ops s sep = Index (with_bytes ops) s sep"
proof -
  have "MaxLen (with_bytes ops) = MaxLen ops" "MaxBruteForce (with_bytes ops) = MaxBruteForce ops"
    "IndexString (with_bytes ops) = IndexBytes ops" by (simp_all add: with_bytes_def)
  then show ?thesis
    unfolding bytes_Index_def Index_def short_agrees long_agrees IndexByte_agrees Equal_agrees by (simp add: Let_def)
qed

lemma Index_agrees:
  assumes "bytealg ops"
  shows "bytes_Index ops s sep = Index ops s sep"
proof -
  obtain i where i: "Index ops s sep = Inr i" "is_first_index s sep i"
    using bytealg.Index_first [OF assms] by blast
  obtain j where j: "Index (with_bytes ops) s sep = Inr j" "is_first_index s sep j"
    using bytealg.Index_first [OF with_bytes_law [OF assms]] by blast
  show ?thesis using i j is_first_index_unique by (simp add: Index_with) blast
qed

lemma Count_agrees:
  assumes "bytealg ops"
  shows "bytes_Count ops s sep = strings_Count ops s sep"
proof -
  have "bytes_count_loop ops s sep n = count_loop ops s sep n" if "sep \<noteq> []" for n
  proof (induction "length s" arbitrary: s n rule: less_induct)
    case less
    obtain i where i: "Index ops s sep = Inr i" "is_first_index s sep i"
      using bytealg.Index_first [OF assms] by blast
    show ?case
    proof (cases "i = -1")
      case True
      then show ?thesis using i(1) Index_agrees [OF assms]
        by (subst count_loop.simps, subst bytes_count_loop.simps) simp
    next
      case False
      then have "0 \<le> i" using i(2) by (auto simp: is_first_index_def split: if_splits)
      moreover have "0 < length sep" using that by simp
      ultimately have k: "0 < i + int (length sep)" by linarith
      have "bytes_count_loop ops (drop (nat (i + int (length sep))) s) sep (n + 1)
          = count_loop ops (drop (nat (i + int (length sep))) s) sep (n + 1)"
        if "i + int (length sep) \<le> int (length s)"
        using k that by (intro less) simp
      then show ?thesis using i(1) Index_agrees [OF assms] False
        by (subst count_loop.simps, subst bytes_count_loop.simps) (simp add: Let_def)
    qed
  qed
  then show ?thesis
    by (simp add: bytes_Count_def strings_Count_def Count_filter CountString_filter
        RuneCount_def RuneCountInString_def RuneCount_loop_runes RuneCountInString_loop_runes)
qed

lemma lastbyte_find: "lastbyte_loop s c k = (case find (\<lambda>i. s ! i = c) (rev [0..<k]) of None \<Rightarrow> -1 | Some i \<Rightarrow> int i)"
  by (induction k) auto

lemma LastIndexByte_agrees: "bytes_LastIndexByte = LastIndexByte"
  by (simp add: fun_eq_iff bytes_LastIndexByte_def LastIndexByte_def lastbyte_find)

lemma lastrk_agrees: "bytes_lastrk_loop s sep hashss pow h i = lastrk_loop s sep hashss pow h i"
  by (induction i arbitrary: h) (simp_all add: Equal_agrees Let_def)

lemma LastIndex_agrees: "bytes_LastIndex = LastIndex"
  unfolding fun_eq_iff bytes_LastIndex_def LastIndex_def LastIndexByte_agrees lastrk_agrees hash_agrees Equal_agrees
  by simp

lemma range_string_step: "i < length s \<Longrightarrow> range_string s i =
    (i, fst (DecodeRune (drop i s))) # range_string s (i + snd (DecodeRune (drop i s)))"
proof -
  assume i: "i < length s"
  then have ne: "drop i s \<noteq> []" by simp
  have "length (take (snd (DecodeRune (drop i s))) (drop i s)) = snd (DecodeRune (drop i s))"
    using DecodeRune_size(2) [OF ne] by simp
  then show ?thesis using ne
    by (simp add: range_string_starts) (subst segs.simps, simp add: add.commute)
qed

lemma range_string_end: "length s \<le> i \<Longrightarrow> range_string s i = []"
  by (simp add: range_string_starts)

lemma error_loop_first: "bytes_error_loop s i = first_item (\<lambda>r. r = RuneError) (range_string s i)"
proof (induction i rule: scan_induct [of s])
  case (1 i)
  then show ?case by (subst bytes_error_loop.simps) (simp add: range_string_end)
next
  case (2 i)
  then show ?case
    by (subst bytes_error_loop.simps) (simp add: range_string_step split_beta del: RuneError_def)
qed

lemma indexany_loop_first:
  "bytes_indexany_loop s chars i = first_item (\<lambda>r. list_ex (\<lambda>(_, m). r = m) (range_string chars 0)) (range_string s i)"
proof (induction i rule: scan_induct [of s])
  case (1 i)
  then show ?case by (subst bytes_indexany_loop.simps) (simp add: range_string_end)
next
  case (2 i)
  then show ?case
    by (subst bytes_indexany_loop.simps) (simp add: range_string_step rune_at_decode case_prod_unfold)
qed

lemma lastany_loop_agrees: "bytes_lastany_loop s chars i = lastany_loop s chars i"
proof (induction i rule: less_induct)
  case (less i)
  show ?case
  proof (cases "0 < i \<and> i \<le> length s")
    case True
    then have "bytes_lastany_loop s chars (i - snd (DecodeLastRune (take i s)))
        = lastany_loop s chars (i - snd (DecodeLastRune (take i s)))"
      using DecodeLastRune_progress' [of i s] by (intro less) simp
    then show ?thesis using True
      by (subst lastany_loop.simps, subst bytes_lastany_loop.simps) (simp add: string_versions split_beta Let_def)
  next
    case False
    then show ?thesis by (subst lastany_loop.simps, subst bytes_lastany_loop.simps) auto
  qed
qed

lemma set_agrees: "bytes_makeASCIISet = makeASCIISet" "bytes_contains = asciiSet_contains"
  by (simp_all add: fun_eq_iff bytes_makeASCIISet_def makeASCIISet_def bytes_contains_def asciiSet_contains_def)

lemma IndexAny_agrees: "bytes_IndexAny = IndexAny" "bytes_LastIndexAny = LastIndexAny"
  unfolding fun_eq_iff bytes_IndexAny_def IndexAny_def bytes_LastIndexAny_def LastIndexAny_def
    set_agrees indexany_loop_first lastany_loop_agrees by simp_all

lemma IndexRune_agrees:
  assumes "bytealg ops"
  shows "bytes_IndexRune ops s r = IndexRune ops s r"
proof -
  have "go_bind (EncodeRune (replicate UTFMax 0) r) (\<lambda>(b, n). bytes_Index ops s (take n b)) = Index ops s (rune_bytes r)"
    using EncodeRune_spec [of "replicate UTFMax 0" r] by (simp add: Index_agrees [OF assms])
  then show ?thesis
    by (simp add: bytes_IndexRune_def IndexRune_def IndexByte_agrees error_loop_first)
qed

end
