(* ===== verification/BytesText.thy ===== *)
theory BytesText
  imports BytesFns
begin

text \<open>
  Package \<open>bytes\<close> (\<open>bytes/bytes.go\<close>), part two: splitting, joining, mapping, trimming and replacing.
  Where the code fills a slice it has sized beforehand, the model checks every store (\<open>go_set\<close>,
  \<open>go_slice\<close>), so that the absence of panics is part of what is proved.  The parameter \<open>M\<close> is the largest
  length of a slice (of bytes, of byte slices or of runes) that \<open>make\<close> can allocate; lengths are computed
  in \<open>int\<close>, which wraps at 64 bits.
\<close>

section \<open>Splitting and joining\<close>

fun bytes_split_loop :: "bytealg_ops \<Rightarrow> bytes \<Rightarrow> nat \<Rightarrow> nat \<Rightarrow> bytes \<Rightarrow> bytes list go" where
  "bytes_split_loop ops sep sepSave 0 s = Inr [s]"
| "bytes_split_loop ops sep sepSave (Suc k) s =
     go_bind (bytes_Index ops s sep) (\<lambda>m.
       if m < 0 then Inr [s]
       else go_bind (go_slice s 0 (nat m + sepSave)) (\<lambda>a.
            go_bind (go_slice s (nat m + length sep) (length s)) (\<lambda>s.
            go_bind (bytes_split_loop ops sep sepSave k s) (\<lambda>as. Inr (a # as)))))"

definition bytes_genSplit :: "bytealg_ops \<Rightarrow> int \<Rightarrow> bytes \<Rightarrow> bytes \<Rightarrow> nat \<Rightarrow> int \<Rightarrow> bytes list go option" where
  "bytes_genSplit ops M s sep sepSave n =
     (if n = 0 then Some (Inr [])
      else if length sep = 0 then Some (bytes_explode M s n)
      else run_bind (if n < 0
             then run_bind (bytes_Count ops s sep) (\<lambda>c. Some (Inr (int c + 1)))
             else Some (Inr n)) (\<lambda>n.
        run_bind (Some (go_make M n ([] :: bytes))) (\<lambda>_.
        Some (bytes_split_loop ops sep sepSave (nat (n - 1)) s))))"

definition bytes_SplitN :: "bytealg_ops \<Rightarrow> int \<Rightarrow> bytes \<Rightarrow> bytes \<Rightarrow> int \<Rightarrow> bytes list go option" where
  "bytes_SplitN ops M s sep n = bytes_genSplit ops M s sep 0 n"

definition bytes_SplitAfterN :: "bytealg_ops \<Rightarrow> int \<Rightarrow> bytes \<Rightarrow> bytes \<Rightarrow> int \<Rightarrow> bytes list go option" where
  "bytes_SplitAfterN ops M s sep n = bytes_genSplit ops M s sep (length sep) n"

definition bytes_Split :: "bytealg_ops \<Rightarrow> int \<Rightarrow> bytes \<Rightarrow> bytes \<Rightarrow> bytes list go option" where
  "bytes_Split ops M s sep = bytes_genSplit ops M s sep 0 (-1)"

definition bytes_SplitAfter :: "bytealg_ops \<Rightarrow> int \<Rightarrow> bytes \<Rightarrow> bytes \<Rightarrow> bytes list go option" where
  "bytes_SplitAfter ops M s sep = bytes_genSplit ops M s sep (length sep) (-1)"

definition bytes_asciiSpace :: "byte \<Rightarrow> nat" where
  "bytes_asciiSpace c = (if c \<in> {0x09, 0x0A, 0x0B, 0x0C, 0x0D, 0x20} then 1 else 0)"

text \<open>The scanning loop of \<open>FieldsFunc\<close>: the spans so far, \<open>fromIndex\<close>, \<open>wasField\<close>.\<close>

function bytes_fields_loop ::
  "bytes \<Rightarrow> (rune \<Rightarrow> bool) \<Rightarrow> nat \<Rightarrow> (nat \<times> nat) list \<times> nat \<times> bool \<Rightarrow> (nat \<times> nat) list \<times> nat \<times> bool" where
  "bytes_fields_loop s f i st =
     (if i < length s then
        let (r, size') = rune_at s i; (spans, fromIndex, wasField) = st in
        bytes_fields_loop s f (i + size')
          (if f r then
             if wasField then (spans @ [(fromIndex, i)], fromIndex, False) else (spans, fromIndex, wasField)
           else if \<not> wasField then (spans, i, True) else (spans, fromIndex, wasField))
      else st)"
  by pat_completeness auto
termination
proof (relation "measure (\<lambda>(s, f, i, st). length s - i)", goal_cases)
  case (2 s f i st x r n)
  then show ?case using DecodeRune_progress [of i s] rune_at_decode [of i s] by (cases "DecodeRune (drop i s)") auto
qed simp

declare bytes_fields_loop.simps [simp del]

definition bytes_FieldsFunc :: "bytes \<Rightarrow> (rune \<Rightarrow> bool) \<Rightarrow> bytes list" where
  "bytes_FieldsFunc s f =
     (let (spans, fromIndex, wasField) = bytes_fields_loop s f 0 ([], 0, False);
          spans = (if wasField then spans @ [(fromIndex, length s)] else spans)
      in map (\<lambda>(start, end'). seg start end' s) spans)"

text \<open>The fast path of \<open>Fields\<close> reads the table of white space; its loops are those of package strings.\<close>

definition bytes_Fields :: "bytes \<Rightarrow> bytes list go" where
  "bytes_Fields s =
     (let (n, wasSpace, setBits) = foldl (\<lambda>(n, wasSpace, setBits) r.
        (n + (if wasSpace = 1 \<and> bytes_asciiSpace r = 0 then 1 else 0), bytes_asciiSpace r, setBits OR r)) (0, 1, 0) s in
      if setBits \<ge> RuneSelf then Inr (bytes_FieldsFunc s IsSpace)
      else let i = skip_spaces s 0 in
        go_bind (fields_loop s i i (replicate n []) 0) (\<lambda>(a, na, fieldStart).
          if fieldStart < length s then go_set a na (drop fieldStart s) else Inr a))"

text \<open>\<open>copy(b[bp:], src)\<close>: as much of \<open>src\<close> as fits, and the count.\<close>

definition bytes_copy_at :: "bytes \<Rightarrow> nat \<Rightarrow> bytes \<Rightarrow> (bytes \<times> nat) go" where
  "bytes_copy_at b bp src =
     (if bp \<le> length b
      then let n = min (length b - bp) (length src) in Inr (take bp b @ take n src @ drop (bp + n) b, n)
      else Inl SliceOutOfRange)"

fun bytes_join_loop :: "bytes \<Rightarrow> bytes list \<Rightarrow> bytes \<Rightarrow> nat \<Rightarrow> bytes go" where
  "bytes_join_loop sep [] b bp = Inr b"
| "bytes_join_loop sep (v # vs) b bp =
     go_bind (bytes_copy_at b bp sep) (\<lambda>(b, n). let bp = bp + n in
     go_bind (bytes_copy_at b bp v) (\<lambda>(b, n). bytes_join_loop sep vs b (bp + n)))"

definition bytes_Join :: "int \<Rightarrow> bytes list \<Rightarrow> bytes \<Rightarrow> bytes go" where
  "bytes_Join M s sep =
     (case s of
        [] \<Rightarrow> Inr []
      | [e] \<Rightarrow> Inr ([] @ e)
      | e # rest \<Rightarrow>
          let n = foldl (\<lambda>n v. wrap64 (n + int (length v))) (wrap64 (int (length sep) * (int (length s) - 1))) s in
          go_bind (go_make M n 0) (\<lambda>b.
          go_bind (bytes_copy_at b 0 e) (\<lambda>(b, bp). bytes_join_loop sep rest b bp)))"

definition bytes_HasPrefix :: "bytes \<Rightarrow> bytes \<Rightarrow> bool" where
  "bytes_HasPrefix s prefix' \<longleftrightarrow> length prefix' \<le> length s \<and> bytes_Equal (take (length prefix') s) prefix'"

definition bytes_HasSuffix :: "bytes \<Rightarrow> bytes \<Rightarrow> bool" where
  "bytes_HasSuffix s suffix' \<longleftrightarrow> length suffix' \<le> length s \<and> bytes_Equal (drop (length s - length suffix') s) suffix'"

definition bytes_TrimPrefix :: "bytes \<Rightarrow> bytes \<Rightarrow> bytes" where
  "bytes_TrimPrefix s prefix' = (if bytes_HasPrefix s prefix' then drop (length prefix') s else s)"

definition bytes_TrimSuffix :: "bytes \<Rightarrow> bytes \<Rightarrow> bytes" where
  "bytes_TrimSuffix s suffix' = (if bytes_HasSuffix s suffix' then take (length s - length suffix') s else s)"

section \<open>\<open>Map\<close>\<close>

text \<open>
  The loop of \<open>Map\<close>, which encodes into a buffer of \<open>maxbytes\<close> bytes, \<open>nbytes\<close> of them in use, and
  doubles the buffer when the next rune does not fit.
\<close>

function bytes_map_loop :: "int \<Rightarrow> 'st mapping \<Rightarrow> 'st \<Rightarrow> bytes \<Rightarrow> nat \<Rightarrow> nat \<Rightarrow> nat \<Rightarrow> bytes \<Rightarrow> (bytes \<times> nat) go" where
  "bytes_map_loop M m st s i maxbytes nbytes b =
     (if i < length s then
        let (r, wid) = rune_at s i; (r, st) = m st r in
        if 0 \<le>s r then
          let rl = RuneLen r; rl = nat (if rl < 0 then int (length (rune_bytes RuneError)) else rl);
              grow = nbytes + rl > maxbytes; newmax = wrap64 (int maxbytes * 2 + int UTFMax) in
          go_bind (if grow
                   then go_bind (go_make M newmax 0) (\<lambda>nb. go_bind (go_slice b 0 nbytes) (\<lambda>old.
                        go_bind (bytes_copy_at nb 0 old) (\<lambda>(nb, n). Inr (nat newmax, nb))))
                   else Inr (maxbytes, b)) (\<lambda>(maxbytes, b).
          go_bind (go_slice b nbytes maxbytes) (\<lambda>p.
          go_bind (EncodeRune p r) (\<lambda>(p, n).
            bytes_map_loop M m st s (i + wid) maxbytes (nbytes + n) (take nbytes b @ p @ drop maxbytes b))))
        else bytes_map_loop M m st s (i + wid) maxbytes nbytes b
      else Inr (b, nbytes))"
  by pat_completeness auto
termination
proof (relation "measure (\<lambda>(M, m, st, s, i, _). length s - i)", goal_cases)
  case (2 M m st s i maxbytes nbytes b x r wid y r' st' rl rl' grow newmax z maxbytes' b' p a p' n)
  then show ?case using DecodeRune_progress [of i s] rune_at_decode [of i s] by (cases "DecodeRune (drop i s)") auto
next
  case (3 M m st s i maxbytes nbytes b x r wid y r' st')
  then show ?case using DecodeRune_progress [of i s] rune_at_decode [of i s] by (cases "DecodeRune (drop i s)") auto
qed simp

declare bytes_map_loop.simps [simp del]

definition bytes_Map :: "int \<Rightarrow> 'st mapping \<Rightarrow> 'st \<Rightarrow> bytes \<Rightarrow> bytes go" where
  "bytes_Map M m st s =
     go_bind (go_make M (int (length s)) 0) (\<lambda>b.
     go_bind (bytes_map_loop M m st s 0 (length s) 0 b) (\<lambda>(b, nbytes). go_slice b 0 nbytes))"

section \<open>Repeating\<close>

partial_function (option) bytes_repeat_loop :: "bytes \<Rightarrow> nat \<Rightarrow> bytes go option" where
  "bytes_repeat_loop nb bp =
     (if bp < length nb then
        (case bytes_copy_at nb bp (take bp nb) of
           Inl e \<Rightarrow> Some (Inl e)
         | Inr (nb, n) \<Rightarrow> bytes_repeat_loop nb (bp * 2))
      else Some (Inr nb))"

definition bytes_Repeat :: "int \<Rightarrow> bytes \<Rightarrow> int \<Rightarrow> bytes go option" where
  "bytes_Repeat M b count =
     (if count = 0 then Some (Inr [])
      else if count < 0 then Some (Inl (PanicValue ''bytes: negative Repeat count''))
      else if go_quot (wrap64 (int (length b) * count)) count \<noteq> int (length b)
      then Some (Inl (PanicValue ''bytes: Repeat count causes overflow''))
      else run_bind (Some (go_make M (wrap64 (int (length b) * count)) 0)) (\<lambda>nb.
        run_bind (Some (bytes_copy_at nb 0 b)) (\<lambda>(nb, bp). bytes_repeat_loop nb bp)))"

section \<open>Case conversions and valid strings\<close>

definition bytes_ToUpper :: "int \<Rightarrow> unicode_data \<Rightarrow> bytes \<Rightarrow> bytes go" where
  "bytes_ToUpper M u s =
     (let (isASCII, hasLower) = upper_scan s False in
      if isASCII then
        if \<not> hasLower then Inr ([] @ s)
        else Inr (map (\<lambda>c. if 0x61 \<le> c \<and> c \<le> 0x7A then c - (0x61 - 0x41) else c) s)
      else bytes_Map M (pure_map (unicode_ToUpper u)) () s)"

definition bytes_ToLower :: "int \<Rightarrow> unicode_data \<Rightarrow> bytes \<Rightarrow> bytes go" where
  "bytes_ToLower M u s =
     (let (isASCII, hasUpper) = lower_scan s False in
      if isASCII then
        if \<not> hasUpper then Inr ([] @ s)
        else Inr (map (\<lambda>c. if 0x41 \<le> c \<and> c \<le> 0x5A then c + (0x61 - 0x41) else c) s)
      else bytes_Map M (pure_map (unicode_ToLower u)) () s)"

definition bytes_ToTitle :: "int \<Rightarrow> unicode_data \<Rightarrow> bytes \<Rightarrow> bytes go" where
  "bytes_ToTitle M u s = bytes_Map M (pure_map (unicode_ToTitle u)) () s"

definition bytes_ToUpperSpecial :: "int \<Rightarrow> unicode_data \<Rightarrow> CaseRange list \<Rightarrow> bytes \<Rightarrow> bytes go" where
  "bytes_ToUpperSpecial M u c s = bytes_Map M (pure_map (Special_ToUpper u c)) () s"

definition bytes_ToLowerSpecial :: "int \<Rightarrow> unicode_data \<Rightarrow> CaseRange list \<Rightarrow> bytes \<Rightarrow> bytes go" where
  "bytes_ToLowerSpecial M u c s = bytes_Map M (pure_map (Special_ToLower u c)) () s"

definition bytes_ToTitleSpecial :: "int \<Rightarrow> unicode_data \<Rightarrow> CaseRange list \<Rightarrow> bytes \<Rightarrow> bytes go" where
  "bytes_ToTitleSpecial M u c s = bytes_Map M (pure_map (Special_ToTitle u c)) () s"

function bytes_valid_loop :: "bytes \<Rightarrow> bytes \<Rightarrow> nat \<Rightarrow> bool \<Rightarrow> bytes \<Rightarrow> bytes" where
  "bytes_valid_loop s replacement i invalid b =
     (if i < length s then
        let c = s ! i in
        if c < RuneSelf then bytes_valid_loop s replacement (i + 1) False (b @ [c])
        else let wid = snd (DecodeRune (drop i s)) in
        if wid = 1 then bytes_valid_loop s replacement (i + 1) True (if \<not> invalid then b @ replacement else b)
        else bytes_valid_loop s replacement (i + wid) False (b @ seg i (i + wid) s)
      else b)"
  by pat_completeness auto
termination
proof (relation "measure (\<lambda>(s, _, i, _). length s - i)", goal_cases)
  case (4 s replacement i invalid b c wid)
  then show ?case using DecodeRune_progress [of i s] by simp
qed auto

declare bytes_valid_loop.simps [simp del]

definition bytes_ToValidUTF8 :: "bytes \<Rightarrow> bytes \<Rightarrow> bytes" where
  "bytes_ToValidUTF8 s replacement = bytes_valid_loop s replacement 0 False []"

definition bytes_isSeparator :: "unicode_data \<Rightarrow> rune \<Rightarrow> bool" where
  "bytes_isSeparator u r =
     (if r \<le>s 0x7F then
        (if 0x30 \<le>s r \<and> r \<le>s 0x39 then False
         else if 0x61 \<le>s r \<and> r \<le>s 0x7A then False
         else if 0x41 \<le>s r \<and> r \<le>s 0x5A then False
         else if r = 0x5F then False
         else True)
      else if IsLetter u r \<or> IsDigit u r then False
      else IsSpace r)"

definition bytes_Title :: "int \<Rightarrow> unicode_data \<Rightarrow> bytes \<Rightarrow> bytes go" where
  "bytes_Title M u s =
     bytes_Map M (\<lambda>prev r. if bytes_isSeparator u prev then (unicode_ToTitle u r, r) else (r, r)) 0x20 s"

section \<open>Trimming\<close>

function bytes_indexfunc_loop :: "bytes \<Rightarrow> rune_pred \<Rightarrow> bool \<Rightarrow> nat \<Rightarrow> int go" where
  "bytes_indexfunc_loop s f truth start =
     (if start < length s then
        let (r, wid) = rune_at s start in
        go_bind (f r) (\<lambda>b. if b = truth then Inr (int start) else bytes_indexfunc_loop s f truth (start + wid))
      else Inr (-1))"
  by pat_completeness auto
termination
proof (relation "measure (\<lambda>(s, f, truth, i). length s - i)", goal_cases)
  case (2 s f truth i x r n b)
  then show ?case using DecodeRune_progress [of i s] rune_at_decode [of i s] by (cases "DecodeRune (drop i s)") auto
qed simp

definition bytes_indexFunc :: "bytes \<Rightarrow> rune_pred \<Rightarrow> bool \<Rightarrow> int go" where
  "bytes_indexFunc s f truth = bytes_indexfunc_loop s f truth 0"

text \<open>The last rune of the first \<open>i\<close> bytes as \<open>lastIndexFunc\<close> reads it.\<close>

definition last_rune_at :: "bytes \<Rightarrow> nat \<Rightarrow> rune \<times> nat" where
  "last_rune_at s i = (if s ! (i - 1) < RuneSelf then (ucast (s ! (i - 1)), 1) else DecodeLastRune (take i s))"

lemma last_rune_at_decode: "0 < i \<Longrightarrow> i \<le> length s \<Longrightarrow> last_rune_at s i = DecodeLastRune (take i s)"
proof -
  assume i: "0 < i" "i \<le> length s"
  have "DecodeLastRune (take i s) = (ucast (s ! (i - 1)), 1)" if "s ! (i - 1) < RuneSelf"
  proof -
    have "take i s = take (i - 1) s @ [s ! (i - 1)]" using i by (metis Suc_pred' Suc_le_eq take_Suc_conv_app_nth)
    then show ?thesis using DecodeLastRune_complete [OF byte_rune(1) [OF that], of "take (i - 1) s"] byte_rune(2) [OF that] by simp
  qed
  then show ?thesis by (simp add: last_rune_at_def)
qed

function bytes_lastindexfunc_loop :: "bytes \<Rightarrow> rune_pred \<Rightarrow> bool \<Rightarrow> nat \<Rightarrow> int go" where
  "bytes_lastindexfunc_loop s f truth i =
     (if 0 < i \<and> i \<le> length s then
        let (r, n) = last_rune_at s i; i = i - n in
        go_bind (f r) (\<lambda>b. if b = truth then Inr (int i) else bytes_lastindexfunc_loop s f truth i)
      else Inr (-1))"
  by pat_completeness auto
termination
proof (relation "measure (\<lambda>(s, f, truth, i). i)", goal_cases)
  case (2 s f truth i x r n i' b)
  then show ?case using DecodeLastRune_progress' [of i s] last_rune_at_decode [of i s]
    by (metis diff_less in_measure prod.case snd_conv)
qed simp

declare bytes_indexfunc_loop.simps [simp del] bytes_lastindexfunc_loop.simps [simp del]

definition bytes_lastIndexFunc :: "bytes \<Rightarrow> rune_pred \<Rightarrow> bool \<Rightarrow> int go" where
  "bytes_lastIndexFunc s f truth = bytes_lastindexfunc_loop s f truth (length s)"

definition bytes_IndexFunc :: "bytes \<Rightarrow> rune_pred \<Rightarrow> int go" where
  "bytes_IndexFunc s f = bytes_indexFunc s f True"

definition bytes_LastIndexFunc :: "bytes \<Rightarrow> rune_pred \<Rightarrow> int go" where
  "bytes_LastIndexFunc s f = bytes_lastIndexFunc s f True"

definition bytes_TrimLeftFunc :: "bytes \<Rightarrow> rune_pred \<Rightarrow> bytes go" where
  "bytes_TrimLeftFunc s f = go_bind (bytes_indexFunc s f False) (\<lambda>i. Inr (if i = -1 then [] else drop (nat i) s))"

definition bytes_TrimRightFunc :: "bytes \<Rightarrow> rune_pred \<Rightarrow> bytes go" where
  "bytes_TrimRightFunc s f = go_bind (bytes_lastIndexFunc s f False) (\<lambda>i.
     let i = (if i \<ge> 0 \<and> s ! nat i \<ge> RuneSelf then i + int (snd (DecodeRune (drop (nat i) s))) else i + 1) in
     Inr (take (nat i) s))"

definition bytes_TrimFunc :: "bytes \<Rightarrow> rune_pred \<Rightarrow> bytes go" where
  "bytes_TrimFunc s f = go_bind (bytes_TrimLeftFunc s f) (\<lambda>s. bytes_TrimRightFunc s f)"

definition bytes_makeCutsetFunc :: "bytes \<Rightarrow> rune_pred" where
  "bytes_makeCutsetFunc cutset =
     (if length cutset = 1 \<and> cutset ! 0 < RuneSelf then (\<lambda>r. Inr (r = ucast (cutset ! 0)))
      else let (as, isASCII) = bytes_makeASCIISet cutset in
      if isASCII then (\<lambda>r. Inr (r <s ucast RuneSelf \<and> bytes_contains as (ucast r)))
      else (\<lambda>r. Inr (list_ex (\<lambda>(_, c). c = r) (range_string cutset 0))))"

definition bytes_Trim :: "bytes \<Rightarrow> bytes \<Rightarrow> bytes go" where
  "bytes_Trim s cutset = bytes_TrimFunc s (bytes_makeCutsetFunc cutset)"

definition bytes_TrimLeft :: "bytes \<Rightarrow> bytes \<Rightarrow> bytes go" where
  "bytes_TrimLeft s cutset = bytes_TrimLeftFunc s (bytes_makeCutsetFunc cutset)"

definition bytes_TrimRight :: "bytes \<Rightarrow> bytes \<Rightarrow> bytes go" where
  "bytes_TrimRight s cutset = bytes_TrimRightFunc s (bytes_makeCutsetFunc cutset)"

definition bytes_TrimSpace :: "bytes \<Rightarrow> bytes go" where
  "bytes_TrimSpace s = (case space_start s 0 of
     Inl start \<Rightarrow> bytes_TrimFunc (drop start s) (\<lambda>r. Inr (IsSpace r))
   | Inr start \<Rightarrow> (case space_stop s start (length s) of
       Inl stop \<Rightarrow> bytes_TrimFunc (seg start stop s) (\<lambda>r. Inr (IsSpace r))
     | Inr stop \<Rightarrow> if start = stop then Inr [] else Inr (seg start stop s)))"

section \<open>Runes, replacing, folding\<close>

function bytes_runes_loop :: "bytes \<Rightarrow> rune list \<Rightarrow> nat \<Rightarrow> rune list go" where
  "bytes_runes_loop s t i =
     (if length s > 0 then
        let (r, l) = DecodeRune s in
        go_bind (go_set t i r) (\<lambda>t. bytes_runes_loop (drop l s) t (i + 1))
      else Inr t)"
  by pat_completeness auto
termination
proof (relation "measure (\<lambda>(s, t, i). length s)", goal_cases)
  case (2 s t i x r l t')
  then show ?case using DecodeRune_size(1) [of s] by (cases "DecodeRune s") auto
qed simp

declare bytes_runes_loop.simps [simp del]

definition bytes_Runes :: "int \<Rightarrow> bytes \<Rightarrow> rune list go" where
  "bytes_Runes M s = go_bind (go_make M (int (RuneCount s)) 0) (\<lambda>t. bytes_runes_loop s t 0)"

fun bytes_replace_loop :: "bytealg_ops \<Rightarrow> bytes \<Rightarrow> bytes \<Rightarrow> bytes \<Rightarrow> nat \<Rightarrow> nat \<Rightarrow> nat \<Rightarrow> nat \<Rightarrow> bytes \<Rightarrow> bytes go" where
  "bytes_replace_loop ops s old new cap 0 i start acc =
     go_bind (go_slice s start (length s)) (\<lambda>rest. Inr (copy_into cap acc rest))"
| "bytes_replace_loop ops s old new cap (Suc k) i start acc =
     go_bind (if length old = 0 then
                if i > 0 then
                  go_bind (go_slice s start (length s)) (\<lambda>t. Inr (int start + int (snd (DecodeRune t))))
                else Inr (int start)
              else
                go_bind (go_slice s start (length s)) (\<lambda>t.
                go_bind (bytes_Index ops t old) (\<lambda>m. Inr (int start + m)))) (\<lambda>j.
     if j < int start then Inl SliceOutOfRange
     else go_bind (go_slice s start (nat j)) (\<lambda>piece.
       bytes_replace_loop ops s old new cap k (i + 1) (nat j + length old)
         (copy_into cap (copy_into cap acc piece) new)))"

definition bytes_Replace :: "bytealg_ops \<Rightarrow> int \<Rightarrow> bytes \<Rightarrow> bytes \<Rightarrow> bytes \<Rightarrow> int \<Rightarrow> bytes go option" where
  "bytes_Replace ops M s old new n =
     run_bind (if n \<noteq> 0 then bytes_Count ops s old else Some (Inr 0)) (\<lambda>m.
       if m = 0 then Some (Inr ([] @ s))
       else let n = (if n < 0 \<or> int m < n then int m else n);
                cap = wrap64 (int (length s) + n * (int (length new) - int (length old))) in
         run_bind (Some (go_make M cap (0 :: byte))) (\<lambda>_.
         Some (bytes_replace_loop ops s old new (nat cap) (nat n) 0 0 [])))"

definition bytes_ReplaceAll :: "bytealg_ops \<Rightarrow> int \<Rightarrow> bytes \<Rightarrow> bytes \<Rightarrow> bytes \<Rightarrow> bytes go option" where
  "bytes_ReplaceAll ops M s old new = bytes_Replace ops M s old new (-1)"

definition bytes_next_rune :: "bytes \<Rightarrow> rune \<times> bytes" where
  "bytes_next_rune s =
     (if s ! 0 < RuneSelf then (ucast (s ! 0), drop 1 s)
      else let (r, n) = DecodeRune s in (r, drop n s))"

lemma bytes_next_rune_eq: "bytes_next_rune s = next_rune s"
  by (simp add: bytes_next_rune_def next_rune_def string_versions)

function bytes_EqualFold :: "unicode_data \<Rightarrow> bytes \<Rightarrow> bytes \<Rightarrow> bool option" where
  "bytes_EqualFold u s t =
     (if length s \<noteq> 0 \<and> length t \<noteq> 0 then
        let (sr, s') = bytes_next_rune s; (tr, t') = bytes_next_rune t in
        (case fold_rune_eq u sr tr of
           None \<Rightarrow> None
         | Some b \<Rightarrow> if b then bytes_EqualFold u s' t' else Some False)
      else Some (length s = length t))"
  by pat_completeness auto
termination
proof (relation "measure (\<lambda>(u, s, t). length s)", goal_cases)
  case (2 u s t x sr s' y tr t' b)
  then have "s' = drop (snd (DecodeRune s)) s" by (simp add: bytes_next_rune_eq next_rune_eq)
  then show ?case using 2 DecodeRune_size(1) [of s] by simp
qed simp

declare bytes_EqualFold.simps [simp del]

end
