(* ===== verification/BytesProps.thy ===== *)
theory BytesProps
  imports BytesText
begin

text \<open>
  What the functions of package \<open>bytes\<close> compute: they agree with their counterparts of package
  \<open>strings\<close>, and the slices they size beforehand are always large enough.
\<close>

section \<open>Mapping into a growing buffer\<close>

lemma EncodeRune_fits:
  assumes "length (rune_bytes r) \<le> length p"
  shows "EncodeRune p r = Inr (rune_bytes r @ drop (length (rune_bytes r)) p, length (rune_bytes r))"
proof -
  have valid: "(r > MaxRune \<or> surrogateMin \<le> r \<and> r \<le> surrogateMax) \<longleftrightarrow> \<not> ValidRune r"
    by (auto simp: ValidRune_iff word_le_nat_alt word_less_nat_alt)
  note defs = EncodeRune_def encode3_def valid
  consider "r \<le> rune1Max" | "\<not> r \<le> rune1Max" "r \<le> rune2Max"
    | "\<not> r \<le> rune1Max" "\<not> r \<le> rune2Max" "ValidRune r" "\<not> r \<le> rune3Max"
    | "\<not> r \<le> rune1Max" "\<not> r \<le> rune2Max" "\<not> (ValidRune r \<and> \<not> r \<le> rune3Max)" by blast
  then show ?thesis
  proof cases
    case 1
    then have e: "rune_bytes r = [ucast r]" unfolding rune_bytes_cases by (simp only: if_True)
    then obtain a q where "p = a # q" using assms by (cases p) auto
    then show ?thesis using 1 unfolding e defs by (simp del: rune1Max_def)
  next
    case 2
    then have e: "rune_bytes r = [utf8_t2 OR ucast (signed_drop_bit 6 r), utf8_tx OR (ucast r AND utf8_maskx)]"
      unfolding rune_bytes_cases by (simp only: if_True if_False)
    then obtain a b q where "p = a # b # q" using assms by (auto simp: Suc_le_length_iff)
    then show ?thesis using 2 unfolding e defs by (simp del: rune1Max_def rune2Max_def)
  next
    case 3
    then have e: "rune_bytes r = [utf8_t4 OR ucast (signed_drop_bit 18 r),
         utf8_tx OR (ucast (signed_drop_bit 12 r) AND utf8_maskx),
         utf8_tx OR (ucast (signed_drop_bit 6 r) AND utf8_maskx),
         utf8_tx OR (ucast r AND utf8_maskx)]"
      unfolding rune_bytes_cases by (simp only: if_True if_False simp_thms)
    then obtain a b c d q where "p = a # b # c # d # q" using assms by (auto simp: Suc_le_length_iff)
    then show ?thesis using 3 unfolding e defs
      by (simp add: numeral_eq_Suc del: rune1Max_def rune2Max_def rune3Max_def)
  next
    case 4
    let ?r = "if ValidRune r then r else RuneError"
    have e: "rune_bytes r = [utf8_t3 OR ucast (signed_drop_bit 12 ?r),
         utf8_tx OR (ucast (signed_drop_bit 6 ?r) AND utf8_maskx),
         utf8_tx OR (ucast ?r AND utf8_maskx)]"
      unfolding rune_bytes_cases if_not_P [OF 4(1)] if_not_P [OF 4(2)] if_not_P [OF 4(3)] by (simp only: Let_def)
    then obtain a b c q where p: "p = a # b # c # q" using assms by (auto simp: Suc_le_length_iff)
    show ?thesis
    proof (cases "ValidRune r")
      case True
      then show ?thesis using 4 p unfolding e defs
        by (simp add: numeral_eq_Suc del: rune1Max_def rune2Max_def rune3Max_def)
    next
      case False
      then show ?thesis using 4 p unfolding e defs
        by (simp add: numeral_eq_Suc del: rune1Max_def rune2Max_def rune3Max_def RuneError_def)
    qed
  qed
qed

lemma length_invalid: "\<not> ValidRune r \<Longrightarrow> length (rune_bytes r) = 3"
proof -
  assume "\<not> ValidRune r"
  then have "map unat (rune_bytes r) = enc_nat 0xFFFD" by (simp add: map_unat_rune_bytes)
  then have "length (map unat (rune_bytes r)) = 3" by (simp add: enc_nat_def)
  then show ?thesis by simp
qed

lemma RuneLen_invalid: "\<not> ValidRune r \<Longrightarrow> RuneLen r = -1"
proof -
  assume v: "\<not> ValidRune r"
  obtain n where n: "unat r = n" "uint r = int n" "n < 2 ^ LENGTH(32)" by (rule word_natE)
  show ?thesis
    unfolding RuneLen_def sless_view sle_view sint_view n(2)
    using v n by (auto simp: ValidRune_iff)
qed

lemma map_width: "nat (if RuneLen r < 0 then int (length (rune_bytes RuneError)) else RuneLen r) = length (rune_bytes r)"
  using RuneLen_rune_bytes [of r] RuneLen_invalid [of r] length_invalid [of r] length_RuneError_bytes
  by (cases "ValidRune r") auto

lemma runes_of_at: "i < length s \<Longrightarrow> runes_of (drop i s) = fst (rune_at s i) # runes_of (drop (i + snd (rune_at s i)) s)"
  using runes_of_step by (simp add: rune_at_decode)

text \<open>
  Every rune read takes at least one byte and every rune written at most \<open>UTFMax\<close>, so the buffer is only
  doubled while it has fewer than \<open>4 * length s\<close> bytes.
\<close>

lemma map_loop_spec:
  assumes "length b = maxbytes" and "nbytes \<le> maxbytes" and "nbytes \<le> 4 * i"
    and M: "8 * int (length s) + 4 \<le> M" "M < 2 ^ 63"
  shows "\<exists>b' n'. bytes_map_loop M m st s i maxbytes nbytes b = Inr (b', n') \<and> n' \<le> length b'
    \<and> take n' b' = take nbytes b @ encode_all (map_runes m st (runes_of (drop i s)))"
  using assms(1-3)
proof (induction i arbitrary: st maxbytes nbytes b rule: scan_induct [of s])
  case (1 i)
  then show ?case by (subst bytes_map_loop.simps) simp
next
  case (2 i)
  obtain r0 wid where at: "rune_at s i = (r0, wid)" by (cases "rune_at s i")
  obtain r st' where m: "m st r0 = (r, st')" by (cases "m st r0")
  have at': "DecodeRune (drop i s) = (r0, wid)" using at rune_at_decode [OF 2(1)] by simp
  have rs: "runes_of (drop i s) = r0 # runes_of (drop (i + wid) s)" using runes_of_at [OF 2(1)] at by simp
  have wid: "0 < wid" using DecodeRune_progress [OF 2(1)] at' by simp
  have IH: "\<exists>b' n'. bytes_map_loop M m st' s (i + wid) max' n b = Inr (b', n') \<and> n' \<le> length b'
    \<and> take n' b' = take n b @ encode_all (map_runes m st' (runes_of (drop (i + wid) s)))"
    if "length b = max'" "n \<le> max'" "n \<le> 4 * (i + wid)" for max' n b
    using 2(2) [of b max' n st'] that at' by simp
  show ?case
  proof (cases "0 \<le>s r")
    case False
    have "nbytes \<le> 4 * (i + wid)" using 2(5) by simp
    then show ?thesis using IH [OF 2(3,4)] False 2(1) at m rs by (subst bytes_map_loop.simps) simp
  next
    case True
    let ?k = "length (rune_bytes r)"
    define max' where "max' = (if nbytes + ?k > maxbytes then maxbytes * 2 + UTFMax else maxbytes)"
    define old where "old = (if nbytes + ?k > maxbytes then take nbytes b @ replicate (maxbytes * 2 + UTFMax - nbytes) 0 else b)"
    have k: "?k \<le> 4" by (rule length_rune_bytes_le(1))
    have old: "length old = max'" "take nbytes old = take nbytes b" "nbytes + ?k \<le> max'"
      using 2(3,4) k by (auto simp: old_def max'_def)
    have grow: "(if nbytes + ?k > maxbytes
        then go_bind (go_make M (wrap64 (int maxbytes * 2 + int UTFMax)) 0) (\<lambda>nb. go_bind (go_slice b 0 nbytes) (\<lambda>o'.
          go_bind (bytes_copy_at nb 0 o') (\<lambda>(nb, n). Inr (nat (wrap64 (int maxbytes * 2 + int UTFMax)), nb))))
        else Inr (maxbytes, b)) = (Inr (max', old) :: (nat \<times> bytes) go)"
    proof (cases "nbytes + ?k > maxbytes")
      case g: True
      then have "int maxbytes * 2 + int UTFMax \<le> M" using 2(1,5) k M(1) by simp
      moreover from this have "wrap64 (int maxbytes * 2 + int UTFMax) = int (maxbytes * 2 + UTFMax)"
        using M(2) by (subst wrap64_id) simp_all
      moreover have "nat (int maxbytes * 2 + int UTFMax) = maxbytes * 2 + UTFMax"
        by (subst nat_add_distrib) simp_all
      ultimately have make: "go_make M (wrap64 (int maxbytes * 2 + int UTFMax)) (0 :: byte) = Inr (replicate (maxbytes * 2 + UTFMax) 0)"
        "nat (wrap64 (int maxbytes * 2 + int UTFMax)) = maxbytes * 2 + UTFMax"
        by (simp_all only: go_make_def of_nat_0_le_iff) (simp_all only: nat_int of_nat_add of_nat_mult of_nat_numeral, simp)
      show ?thesis
        using g 2(3,4) unfolding make by (simp add: bytes_copy_at_def old_def max'_def min_def)
    qed (simp add: old_def max'_def)
    have slice: "go_slice old nbytes max' = Inr (drop nbytes old)" using old(3) by (simp add: go_slice_def flip: old(1))
    have enc: "EncodeRune (drop nbytes old) r = Inr (rune_bytes r @ drop ?k (drop nbytes old), ?k)"
      using old by (intro EncodeRune_fits) simp
    define b1 where "b1 = take nbytes old @ (rune_bytes r @ drop ?k (drop nbytes old)) @ drop max' old"
    have tl: "length (take nbytes old) = nbytes" using old(1,3) by simp
    have b: "length b1 = max'" using old(1,3) by (simp add: b1_def)
    have "take (nbytes + ?k) b1 = take nbytes old @ rune_bytes r"
      using tl by (simp add: b1_def take_append del: length_take)
    then have b': "take (nbytes + ?k) b1 = take nbytes b @ rune_bytes r" by (simp only: old(2))
    have "bytes_map_loop M m st s i maxbytes nbytes b = bytes_map_loop M m st' s (i + wid) max' (nbytes + ?k) b1"
      unfolding b1_def using 2(1) True
      by (subst bytes_map_loop.simps) (simp add: at m map_width grow slice enc Let_def del: UTFMax_def)
    moreover have "nbytes + ?k \<le> 4 * (i + wid)" using 2(5) k wid by simp
    ultimately show ?thesis using IH [OF b old(3)] b' rs m True by simp
  qed
qed

lemma bytes_Map_spec:
  assumes "8 * int (length s) + 4 \<le> M" "M < 2 ^ 63"
  shows "bytes_Map M m st s = Inr (Map m st s)"
proof -
  obtain b n where "bytes_map_loop M m st s 0 (length s) 0 (replicate (length s) 0) = Inr (b, n)" "n \<le> length b"
    "take n b = encode_all (map_runes m st (runes_of s))"
    using map_loop_spec [of "replicate (length s) 0" "length s" 0 0 s M m st] assms by auto
  then show ?thesis using assms(1) by (simp add: bytes_Map_def go_make_def Map_spec)
qed

lemma bytes_case_agrees:
  assumes "8 * int (length s) + 4 \<le> M" "M < 2 ^ 63"
  shows
  "bytes_ToUpper M u s = Inr (ToUpper u s)" "bytes_ToLower M u s = Inr (ToLower u s)" "bytes_ToTitle M u s = Inr (ToTitle u s)"
  "bytes_ToUpperSpecial M u c s = Inr (ToUpperSpecial u c s)" "bytes_ToLowerSpecial M u c s = Inr (ToLowerSpecial u c s)"
  "bytes_ToTitleSpecial M u c s = Inr (ToTitleSpecial u c s)" "bytes_Title M u s = Inr (strings_Title u s)"
proof -
  have "(\<lambda>prev r. if bytes_isSeparator u prev then (unicode_ToTitle u r, r) else (r, r)) = title_map u"
    by (simp add: fun_eq_iff title_map_def bytes_isSeparator_def isSeparator_def)
  then show "bytes_Title M u s = Inr (strings_Title u s)"
    by (simp only: bytes_Title_def strings_Title_def bytes_Map_spec [OF assms])
qed (simp_all add: bytes_ToUpper_def ToUpper_def bytes_ToLower_def ToLower_def bytes_ToTitle_def ToTitle_def
    bytes_ToUpperSpecial_def ToUpperSpecial_def bytes_ToLowerSpecial_def ToLowerSpecial_def
    bytes_ToTitleSpecial_def ToTitleSpecial_def bytes_Map_spec [OF assms] split_beta Let_def)

section \<open>Valid strings and folding\<close>

lemma valid_loop_agrees: "bytes_valid_loop s replacement i invalid b = validutf8_loop s replacement i invalid b"
proof (induction i arbitrary: invalid b rule: scan_induct [of s])
  case (1 i)
  then show ?case by (subst validutf8_loop.simps, subst bytes_valid_loop.simps) simp
next
  case (2 i)
  show ?case
  proof (cases "s ! i < RuneSelf")
    case True
    then have "snd (DecodeRune (drop i s)) = 1"
      using 2(1) DecodeRune_ascii [of "drop i s"] lead_info_ascii by simp
    then show ?thesis using 2 True
      by (subst validutf8_loop.simps, subst bytes_valid_loop.simps)
        (simp add: string_versions Let_def del: RuneSelf_def cong: if_cong)
  next
    case False
    then show ?thesis using 2
      by (subst validutf8_loop.simps, subst bytes_valid_loop.simps)
        (cases "snd (DecodeRune (drop i s)) = 1"; simp add: string_versions Let_def del: RuneSelf_def cong: if_cong)
  qed
qed

lemma bytes_ToValidUTF8_agrees: "bytes_ToValidUTF8 s replacement = ToValidUTF8 s replacement"
  by (simp add: bytes_ToValidUTF8_def valid_loop_agrees validutf8_loop_spec ToValidUTF8_spec)

lemma bytes_EqualFold_agrees: "bytes_EqualFold u s t = EqualFold u s t"
proof (induction s t rule: fold_induct)
  case (finish s t)
  then show ?case by (subst bytes_EqualFold.simps) (auto simp: EqualFold_Nil)
next
  case (step s t)
  then show ?case unfolding EqualFold_step [OF step(1,2)]
    by (subst bytes_EqualFold.simps) (simp add: bytes_next_rune_eq next_rune_eq cong: option.case_cong if_cong)
qed

section \<open>Trimming\<close>

lemma indexfunc_agrees: "bytes_indexfunc_loop s f truth i = indexfunc_loop f truth (range_string s i)"
proof (induction i rule: scan_induct [of s])
  case (1 i)
  then show ?case by (subst bytes_indexfunc_loop.simps) (simp add: range_string_end)
next
  case (2 i)
  then show ?case
    by (subst bytes_indexfunc_loop.simps) (simp add: range_string_step rune_at_decode split_beta cong: if_cong)
qed

lemma lastindexfunc_agrees: "bytes_lastindexfunc_loop s f truth i = lastindexfunc_loop s f truth i"
proof (induction i rule: less_induct)
  case (less i)
  show ?case
  proof (cases "0 < i \<and> i \<le> length s")
    case True
    then have "bytes_lastindexfunc_loop s f truth (i - snd (DecodeLastRune (take i s)))
        = lastindexfunc_loop s f truth (i - snd (DecodeLastRune (take i s)))"
      using DecodeLastRune_progress' [of i s] by (intro less) simp
    then show ?thesis using True
      by (subst lastindexfunc_loop.simps, subst bytes_lastindexfunc_loop.simps)
        (simp add: string_versions split_beta Let_def last_rune_at_decode cong: if_cong)
  next
    case False
    then show ?thesis by (subst lastindexfunc_loop.simps, subst bytes_lastindexfunc_loop.simps) auto
  qed
qed

lemma TrimFunc_agrees:
  "bytes_TrimLeftFunc s f = TrimLeftFunc s f" "bytes_TrimRightFunc s f = TrimRightFunc s f" "bytes_TrimFunc s f = TrimFunc s f"
  by (simp_all add: bytes_TrimLeftFunc_def TrimLeftFunc_def bytes_TrimRightFunc_def TrimRightFunc_def
      bytes_TrimFunc_def TrimFunc_def bytes_indexFunc_def indexFunc_def bytes_lastIndexFunc_def lastIndexFunc_def
      indexfunc_agrees lastindexfunc_agrees string_versions cong: if_cong)

lemma bytes_cutset_on: "\<forall>r\<in>set (runes_of s). bytes_makeCutsetFunc cutset r = Inr (r \<in> set (runes_of cutset))"
proof
  fix r assume "r \<in> set (runes_of s)"
  then have v: "ValidRune r" by (rule runes_of_valid)
  have "list_ex (\<lambda>(_, c). c = r) (range_string cutset 0) \<longleftrightarrow> r \<in> set (runes_of cutset)"
    using range_runes [of "\<lambda>c. c = r" cutset] by auto
  then show "bytes_makeCutsetFunc cutset r = Inr (r \<in> set (runes_of cutset))"
    using makeCutsetFunc_spec [OF generic.bytealg_axioms v, of cutset]
    by (auto simp: bytes_makeCutsetFunc_def makeCutsetFunc_def set_agrees split_beta Let_def split: if_splits)
qed

lemma bytes_TrimSpace_agrees: "bytes_TrimSpace s = TrimSpace s"
  by (simp add: bytes_TrimSpace_def TrimSpace_def TrimFunc_agrees split: sum.split)

section \<open>Splitting and fields\<close>

lemma split_loop_agrees:
  assumes "bytealg ops"
  shows "bytes_split_loop ops sep save k s = split_loop ops sep save k s"
  by (induction k arbitrary: s) (simp_all add: Index_agrees [OF assms] cong: if_cong)

lemma genSplit_agrees:
  assumes "bytealg ops" "sep \<noteq> []"
  shows "bytes_genSplit ops M s sep save n = genSplit ops M s sep save n"
  using assms(2) by (simp add: bytes_genSplit_def genSplit_def Count_agrees [OF assms(1)] split_loop_agrees [OF assms(1)])

lemma explode_loop_concat: "concat (bytes_explode_loop s n na) = s"
proof (induction s n na rule: bytes_explode_loop.induct)
  case (1 s n na)
  show ?case
  proof (cases "s \<noteq> [] \<and> \<not> n \<le> na + 1")
    case True
    obtain r k where d: "DecodeRune s = (r, k)" by (cases "DecodeRune s")
    have "concat (bytes_explode_loop (drop k s) n (na + 1)) = drop k s" using 1 [of "(r, k)" r k] True d by simp
    then show ?thesis using True d by (subst bytes_explode_loop.simps) simp
  next
    case False
    then show ?thesis by (subst bytes_explode_loop.simps) auto
  qed
qed

lemma bytes_explode_concat: "bytes_explode M s n = Inr parts \<Longrightarrow> concat parts = s"
  by (auto simp: bytes_explode_def go_make_def explode_loop_concat Let_def split: if_splits)

lemma fields_loop_agrees: "bytes_fields_loop s f i st = foldl (fields_step f) st (range_string s i)"
proof (induction i arbitrary: st rule: scan_induct [of s])
  case (1 i)
  then show ?case by (subst bytes_fields_loop.simps) (simp add: range_string_end)
next
  case (2 i)
  obtain spans from' fld where st: "st = (spans, from', fld)" by (cases st)
  obtain r k where at: "DecodeRune (drop i s) = (r, k)" by (cases "DecodeRune (drop i s)")
  have "bytes_fields_loop s f i st = bytes_fields_loop s f (i + k) (fields_step f st (i, r))"
    using 2(1) at by (subst bytes_fields_loop.simps) (simp add: rune_at_decode st fields_step_def)
  then show ?case using 2(2) [of "fields_step f st (i, r)"] range_string_step [OF 2(1)] at by simp
qed

lemma FieldsFunc_agrees: "bytes_FieldsFunc = FieldsFunc"
  by (simp add: fun_eq_iff bytes_FieldsFunc_def FieldsFunc_def fields_loop_agrees)

lemma Fields_agrees: "bytes_Fields = Fields"
proof -
  have "bytes_asciiSpace = asciiSpace" by (simp add: fun_eq_iff bytes_asciiSpace_def asciiSpace_def)
  then show ?thesis unfolding fun_eq_iff bytes_Fields_def Fields_def fields_count_def FieldsFunc_agrees by simp
qed

section \<open>Joining and repeating\<close>

lemma copy_fits:
  "bp + length src \<le> length b \<Longrightarrow> bytes_copy_at b bp src = Inr (take bp b @ src @ drop (bp + length src) b, length src)"
  by (simp add: bytes_copy_at_def Let_def)

lemma join_loop_fills:
  assumes "length b = bp + length (concat (map (\<lambda>v. sep @ v) vs))"
  shows "bytes_join_loop sep vs b bp = Inr (take bp b @ concat (map (\<lambda>v. sep @ v) vs))"
  using assms
proof (induction vs arbitrary: b bp)
  case (Cons v vs)
  define b1 where "b1 = take bp b @ sep @ drop (bp + length sep) b"
  define b2 where "b2 = take (bp + length sep) b1 @ v @ drop (bp + length sep + length v) b1"
  have len: "length b1 = length b" "length b2 = length b" using Cons(2) by (simp_all add: b1_def b2_def)
  have "length (take bp b) = bp" using Cons(2) by simp
  then have tk: "take (bp + length sep) b1 = take bp b @ sep" by (simp add: b1_def del: length_take)
  then have tk2: "take (bp + length sep + length v) b2 = take bp b @ sep @ v"
    using Cons(2) len(1) by (simp add: b2_def tk)
  have "bytes_copy_at b bp sep = Inr (b1, length sep)" using Cons(2) unfolding b1_def by (intro copy_fits) simp
  moreover have "bytes_copy_at b1 (bp + length sep) v = Inr (b2, length v)"
    using Cons(2) len(1) unfolding b2_def by (intro copy_fits) simp
  ultimately have "bytes_join_loop sep (v # vs) b bp = bytes_join_loop sep vs b2 (bp + length sep + length v)"
    by (simp add: Let_def)
  then show ?case using Cons(1) [of b2 "bp + length sep + length v"] Cons(2) len(2) tk2 by simp
qed simp

lemma wrap64_add: "wrap64 (wrap64 a + b) = wrap64 (a + b)"
  by (simp add: wrap64_def flip: wi_hom_add)

lemma join_length: "foldl (\<lambda>n v. wrap64 (n + int (length v))) (wrap64 k) vs = wrap64 (k + int (length (concat vs)))"
  by (induction vs arbitrary: k) (simp_all add: wrap64_add add.assoc)

text \<open>With fewer than two elements nothing is sized; otherwise the size is computed in \<open>int\<close>.\<close>

lemma bytes_Join_agrees:
  assumes "int (length (Join s sep)) < 2 ^ 63"
  shows "bytes_Join M s sep = (if length s < 2 \<or> int (length (Join s sep)) \<le> M then Inr (Join s sep)
    else Inl (PanicValue ''makeslice: len out of range''))"
proof (cases s rule: remdups_adj.cases)
  case (3 e v vs)
  let ?rest = "concat (map (\<lambda>v. sep @ v) (v # vs))"
  have join: "Join s sep = e @ ?rest" by (simp add: 3 Join_Cons)
  have sz: "length sep * (length s - 1) + length (concat s) = length (Join s sep)"
  proof -
    have "length (concat (map (\<lambda>v. sep @ v) ws)) = length sep * length ws + length (concat ws)" for ws
      by (induction ws) simp_all
    then show ?thesis unfolding join by (simp add: 3)
  qed
  have "int (length sep) * (int (length s) - 1) + int (length (concat s)) = int (length (Join s sep))"
    unfolding sz [symmetric] by (simp add: 3 algebra_simps)
  then have n: "foldl (\<lambda>n v. wrap64 (n + int (length v))) (wrap64 (int (length sep) * (int (length s) - 1))) s
      = int (length (Join s sep))"
    using assms by (simp only: join_length) (rule wrap64_id, simp_all)
  have "bytes_Join M s sep = go_bind (go_make M (int (length (Join s sep))) 0) (\<lambda>b.
      go_bind (bytes_copy_at b 0 e) (\<lambda>(b, bp). bytes_join_loop sep (v # vs) b bp))"
    unfolding bytes_Join_def n by (simp add: 3 del: bytes_join_loop.simps)
  moreover have "bytes_copy_at (replicate (length (Join s sep)) 0) 0 e = Inr (e @ replicate (length ?rest) 0, length e)"
    unfolding join by (subst copy_fits) (simp_all only: length_replicate drop_replicate, simp_all)
  moreover have "bytes_join_loop sep (v # vs) (e @ replicate (length ?rest) 0) (length e) = Inr (Join s sep)"
    using join_loop_fills [of "e @ replicate (length ?rest) 0" "length e" sep "v # vs"]
    by (simp add: join del: bytes_join_loop.simps)
  ultimately show ?thesis by (simp add: go_make_def 3 del: bytes_join_loop.simps)
qed (simp_all add: bytes_Join_def Join_def)

lemma repeat_loop_fills:
  assumes "length nb = length b * c" "1 \<le> j"
    and "take (length b * j) nb = take (length b * c) (concat (replicate j b))"
  shows "bytes_repeat_loop nb (length b * j) = Some (Inr (concat (replicate c b)))"
  using assms
proof (induction "c - j" arbitrary: j nb rule: less_induct)
  case less
  show ?case
  proof (cases "b \<noteq> [] \<and> j < c")
    case True
    let ?p = "concat (replicate j b)"
    have pos: "0 < length b" and jc: "j < c" using True by simp_all
    have len: "length b * j < length nb" using pos jc by (simp add: less.prems(1))
    have p: "take (length b * j) nb = ?p" using less.prems(3) jc by simp
    define n where "n = min (length nb - length b * j) (length b * j)"
    define nb' where "nb' = ?p @ take n ?p @ drop (length b * j + n) nb"
    have copy: "bytes_copy_at nb (length b * j) (take (length b * j) nb) = Inr (nb', n)"
      unfolding bytes_copy_at_def p Let_def using len by (simp add: nb'_def n_def mult.commute)
    have len': "length nb' = length b * c" using len by (simp add: nb'_def n_def mult.commute flip: less.prems(1)) (simp add: mult.commute less.prems(1))?
    have twice: "concat (replicate (j * 2) b) = ?p @ ?p" using concat_replicate_add [of j j b] by (simp only: mult_2_right)
    have inv: "take (length b * (j * 2)) nb' = take (length b * c) (concat (replicate (j * 2) b))"
    proof (cases "length nb \<le> length b * (j * 2)")
      case small: True
      then have "n = length nb - length b * j" using len by (simp add: n_def)
      then show ?thesis using len len' small unfolding twice by (simp add: nb'_def less.prems(1) mult.commute)
    next
      case big: False
      then have "length b * (j * 2) < length b * c" by (simp only: less.prems(1) not_le)
      then have "j * length b \<le> c * length b - j * length b" by (simp only: mult.commute [of _ "length b"])
      then have "take (c * length b - j * length b) ?p = ?p" by simp
      moreover have "n = length b * j" using big by (simp add: n_def)
      ultimately show ?thesis using len big unfolding twice by (simp add: nb'_def less.prems(1) mult.commute)
    qed
    have "bytes_repeat_loop nb' (length b * (j * 2)) = Some (Inr (concat (replicate c b)))"
      by (rule less.hyps) (use jc less.prems(2) len' inv in auto)
    then show ?thesis using len copy by (subst bytes_repeat_loop.simps) (simp add: mult.assoc)
  next
    case False
    then have "\<not> length b * j < length nb" by (auto simp: less.prems(1))
    moreover have "nb = concat (replicate c b)"
    proof (cases "b = []")
      case True
      then show ?thesis using less.prems(1) by simp
    next
      case ne: False
      then have "c \<le> j" using False by simp
      then obtain d where "j = c + d" using le_Suc_ex by blast
      then show ?thesis using less.prems(1,3) by (simp add: concat_replicate_add mult.commute)
    qed
    ultimately show ?thesis by (subst bytes_repeat_loop.simps) (simp only: if_False)
  qed
qed

lemma bytes_Repeat_copies:
  "bytes_Repeat M b count =
    (if count < 0 then Some (Inl (PanicValue ''bytes: negative Repeat count''))
     else if 2 ^ 63 \<le> int (length b) * count
     then Some (Inl (PanicValue ''bytes: Repeat count causes overflow''))
     else if 0 < count \<and> M < int (length b) * count
     then Some (Inl (PanicValue ''makeslice: len out of range''))
     else Some (Inr (concat (replicate (nat count) b))))"
proof -
  consider "count < 0" | "count = 0" | "0 < count" "2 ^ 63 \<le> int (length b) * count"
    | "0 < count" "int (length b) * count < 2 ^ 63" by linarith
  then show ?thesis
  proof cases
    case 3
    then show ?thesis using wrap_overflow [of count "int (length b)"] by (simp add: bytes_Repeat_def)
  next
    case 4
    let ?c = "nat count"
    have w: "wrap64 (int (length b) * count) = int (length b) * count"
      using 4 by (intro wrap64_id) (auto intro: order_trans [of _ 0])
    have q: "go_quot (int (length b) * count) count = int (length b)"
      using 4 by (simp add: go_quot_def abs_mult not_less)
    have total: "nat (int (length b) * count) = length b * ?c" using 4 by (simp add: nat_mult_distrib)
    have one: "1 \<le> ?c" using 4 by simp
    then have fits: "length b \<le> length b * ?c" by simp
    then have copy: "bytes_copy_at (replicate (length b * ?c) 0) 0 b = Inr (b @ replicate (length b * ?c - length b) 0, length b)"
      by (subst copy_fits) simp_all
    then have "bytes_repeat_loop (b @ replicate (length b * ?c - length b) 0) (length b * 1) = Some (Inr (concat (replicate ?c b)))"
      using fits one by (intro repeat_loop_fills) auto
    moreover have "\<not> int (length b) * count < 0" using 4(1) by (simp add: mult_less_0_iff)
    ultimately show ?thesis using 4 copy by (simp add: bytes_Repeat_def go_make_def w q total)
  qed (simp_all add: bytes_Repeat_def)
qed

section \<open>Runes and replacing\<close>

lemma runes_loop_fills:
  assumes "i + length (runes_of s) = length t"
  shows "bytes_runes_loop s t i = Inr (take i t @ runes_of s)"
  using assms
proof (induction "length s" arbitrary: s t i rule: less_induct)
  case less
  show ?case
  proof (cases "s = []")
    case True
    then show ?thesis using less.prems by (subst bytes_runes_loop.simps) simp
  next
    case False
    obtain r l where d: "DecodeRune s = (r, l)" by (cases "DecodeRune s")
    have rs: "runes_of s = r # runes_of (drop l s)" using runes_of_at [of 0 s] False d rune_at_decode [of 0 s] by simp
    then have i: "i < length t" using less.prems by simp
    have "0 < l" using DecodeRune_size(1) [OF False] d by simp
    then have "bytes_runes_loop (drop l s) (t[i := r]) (i + 1) = Inr (take (i + 1) (t[i := r]) @ runes_of (drop l s))"
      using False less.prems rs by (intro less.hyps) auto
    moreover have "take (i + 1) (t[i := r]) = take i t @ [r]" using i by (simp add: take_Suc_conv_app_nth)
    ultimately show ?thesis using False i
      by (subst bytes_runes_loop.simps) (simp add: d rs go_set_def)
  qed
qed

lemma bytes_Runes_runes:
  "bytes_Runes M s = (if int (RuneCount s) \<le> M then Inr (runes_of s) else Inl (PanicValue ''makeslice: len out of range''))"
  using RuneCount_loop_runes [of s 0 0] runes_loop_fills [of 0 s "replicate (RuneCount s) 0"]
  by (simp add: bytes_Runes_def go_make_def RuneCount_def)

lemma bytes_replace_loop_agrees:
  assumes "bytealg ops"
  shows "bytes_replace_loop ops s old new cap k i start acc = replace_loop ops s old new cap k i start acc"
  by (induction k arbitrary: i start acc) (simp_all add: Index_agrees [OF assms] string_versions cong: if_cong)

lemma bytes_Replace_agrees:
  assumes "bytealg ops" "old \<noteq> []" "int (length s) \<le> M" "M < 2 ^ 63"
  shows "bytes_Replace ops M s old new n = Replace ops M s old new n"
proof (cases "old = new")
  case False
  then show ?thesis
    by (simp add: bytes_Replace_def Replace_def Count_agrees [OF assms(1)] bytes_replace_loop_agrees [OF assms(1)] cong: if_cong)
next
  case True
  let ?g = "greedy_count old s"
  have count: "strings_Count ops s old = Some (Inr ?g)" using bytealg.Count_spec [OF assms(1), of s old] assms(2) by simp
  have loop: "replace_loop ops s old old (length s) j 0 0 [] = Inr s" if "j \<le> ?g" for j
    using bytealg.replace_loop_cuts [OF assms(1,2), of 0 s j "[]" old "length s" 0] that by (simp add: Join_cuts)
  define j where "j = nat (if n < 0 \<or> int ?g < n then int ?g else n)"
  have j: "j \<le> ?g" "(if n < 0 \<or> int ?g < n then int ?g else n) = int j" by (auto simp: j_def)
  have "wrap64 (int (length s)) = int (length s)" using assms(3,4) by (intro wrap64_id) simp_all
  then have "bytes_Replace ops M s old old n = Some (Inr s)"
    using loop [OF j(1)] assms(3)
    by (simp add: bytes_Replace_def go_make_def Count_agrees [OF assms(1)] count bytes_replace_loop_agrees [OF assms(1)] j(2) Let_def)
  then show ?thesis using True by (simp add: Replace_def)
qed

section \<open>Properties\<close>

text \<open>
  Under the contract of \<open>bytealg\<close> and for a non-empty pattern the searching functions of package
  \<open>bytes\<close>, written out again for byte slices, return what those of package \<open>strings\<close> return: \<open>Index\<close>,
  \<open>Count\<close>, \<open>IndexRune\<close>, \<open>SplitN\<close>, \<open>SplitAfterN\<close> and \<open>Replace\<close>, whose loop runs even when the pattern
  and its replacement are equal.  The argument \<open>s\<close> is a slice that could be allocated.
\<close>
theorem bytes_search_as_strings:
  assumes "bytealg ops" "pat \<noteq> []" "int (length s) \<le> M" "M < 2 ^ 63"
  shows "bytes_Index ops s pat = Index ops s pat \<and> bytes_Count ops s pat = strings_Count ops s pat
    \<and> bytes_IndexRune ops s r = IndexRune ops s r
    \<and> bytes_SplitN ops M s pat n = SplitN ops M s pat n \<and> bytes_SplitAfterN ops M s pat n = SplitAfterN ops M s pat n
    \<and> bytes_Replace ops M s pat new n = Replace ops M s pat new n"
  using assms
  by (simp add: Index_agrees Count_agrees IndexRune_agrees bytes_SplitN_def SplitN_def
      bytes_SplitAfterN_def SplitAfterN_def genSplit_agrees bytes_Replace_agrees)

theorem bytes_search_as_strings_witness:
  "bytes_Index (amd64_ops True index_spec index_spec) [1, 2, 1, 2] [2] = Index (amd64_ops True index_spec index_spec) [1, 2, 1, 2] [2]
    \<and> bytes_Count (amd64_ops True index_spec index_spec) [1, 2, 1, 2] [2] = strings_Count (amd64_ops True index_spec index_spec) [1, 2, 1, 2] [2]
    \<and> bytes_IndexRune (amd64_ops True index_spec index_spec) [1, 2, 1, 2] 2 = IndexRune (amd64_ops True index_spec index_spec) [1, 2, 1, 2] 2
    \<and> bytes_SplitN (amd64_ops True index_spec index_spec) 9 [1, 2, 1, 2] [2] 2 = SplitN (amd64_ops True index_spec index_spec) 9 [1, 2, 1, 2] [2] 2
    \<and> bytes_SplitAfterN (amd64_ops True index_spec index_spec) 9 [1, 2, 1, 2] [2] 2
      = SplitAfterN (amd64_ops True index_spec index_spec) 9 [1, 2, 1, 2] [2] 2
    \<and> bytes_Replace (amd64_ops True index_spec index_spec) 9 [1, 2, 1, 2] [2] [2] 2
      = Replace (amd64_ops True index_spec index_spec) 9 [1, 2, 1, 2] [2] [2] 2"
  by (rule bytes_search_as_strings) (simp_all add: amd64.bytealg_axioms)

text \<open>
  C34: the functions of package \<open>bytes\<close> that fill a slice sized beforehand, or regrown on the way, never
  index or slice out of range, where \<open>M\<close> is the largest length \<open>make\<close> can allocate.  For a slice with
  \<open>8 * len(s) + 4\<close> at most \<open>M\<close>, \<open>Map\<close>, whose buffer is doubled when the next rune does not fit, returns
  what \<open>strings.Map\<close> returns.  When the joined slices have fewer than \<open>2^63\<close> bytes, so that their total
  length does not wrap, \<open>Join\<close> fills its slice exactly, and panics only if it is longer than \<open>M\<close>.
  \<open>Runes\<close> fills \<open>RuneCount\<close> elements with the decoded runes, if that many can be allocated.  \<open>Repeat\<close>,
  whose last doubling is cut off by \<open>copy\<close>, panics only for a negative count, a length that does not fit
  in an int, or one longer than \<open>M\<close>.
\<close>
theorem bytes_buffers_suffice:
  assumes "8 * int (length s) + 4 \<le> M" "M < 2 ^ 63" "int (length (Join ss sep)) < 2 ^ 63"
  shows "bytes_Map M m st s = Inr (Map m st s)
   \<and> bytes_Join M ss sep = (if length ss < 2 \<or> int (length (Join ss sep)) \<le> M then Inr (Join ss sep)
       else Inl (PanicValue ''makeslice: len out of range''))
   \<and> bytes_Runes R t = (if int (RuneCount t) \<le> R then Inr (runes_of t) else Inl (PanicValue ''makeslice: len out of range''))
   \<and> bytes_Repeat N b count =
      (if count < 0 then Some (Inl (PanicValue ''bytes: negative Repeat count''))
       else if 2 ^ 63 \<le> int (length b) * count
       then Some (Inl (PanicValue ''bytes: Repeat count causes overflow''))
       else if 0 < count \<and> N < int (length b) * count
       then Some (Inl (PanicValue ''makeslice: len out of range''))
       else Some (Inr (concat (replicate (nat count) b))))"
  by (simp only: bytes_Map_spec [OF assms(1,2)] bytes_Join_agrees [OF assms(3)] bytes_Runes_runes bytes_Repeat_copies
      simp_thms)

theorem bytes_buffers_suffice_witness:
  "bytes_Map (2 ^ 40) (pure_map (\<lambda>r. r + 1)) () [0x61, 0x7F] = Inr (Map (pure_map (\<lambda>r. r + 1)) () [0x61, 0x7F])
    \<and> bytes_Join (2 ^ 40) [[1], [2]] [3] = Inr [1, 3, 2]"
proof -
  have join: "Join [[1], [2]] [3] = ([1, 3, 2] :: bytes)" by (simp add: Join_def)
  show ?thesis
    using bytes_buffers_suffice [of "[0x61, 0x7F]" "2 ^ 40" "[[1], [2]]" "[3]" "pure_map (\<lambda>r. r + 1)" "()"]
    unfolding join by auto
qed

text \<open>
  The loops of package \<open>bytes\<close> that decode runes themselves agree with those of package \<open>strings\<close>,
  which range over the string: trimming white space or a cut set, splitting into fields, finding the
  first and last rune of a set, folding case, and replacing invalid sequences.
\<close>
theorem bytes_runes_as_strings:
  "bytes_TrimSpace s = TrimSpace s
   \<and> bytes_Trim s chars = Inr (trimmed_right (\<lambda>r. r \<in> set (runes_of chars)) (trimmed_left (\<lambda>r. r \<in> set (runes_of chars)) s))
   \<and> bytes_FieldsFunc s f = FieldsFunc s f \<and> bytes_Fields s = Fields s
   \<and> bytes_IndexAny s chars = IndexAny s chars \<and> bytes_LastIndexAny s chars = LastIndexAny s chars
   \<and> bytes_EqualFold u s t = EqualFold u s t \<and> bytes_ToValidUTF8 s t = ToValidUTF8 s t"
proof -
  have "bytes_Trim s chars = TrimFunc s (bytes_makeCutsetFunc chars)" by (simp add: bytes_Trim_def TrimFunc_agrees)
  also have "\<dots> = Inr (trimmed_right (\<lambda>r. r \<in> set (runes_of chars)) (trimmed_left (\<lambda>r. r \<in> set (runes_of chars)) s))"
    by (rule TrimFunc_on) (rule bytes_cutset_on)
  finally show ?thesis
    by (simp only: bytes_TrimSpace_agrees FieldsFunc_agrees Fields_agrees IndexAny_agrees
        bytes_EqualFold_agrees bytes_ToValidUTF8_agrees simp_thms)
qed

end
