(* ===== verification/RuntimeWaitq.thy ===== *)
theory RuntimeWaitq
  imports Prelude
begin

text \<open>
  The queue of goroutines waiting on a channel (\<open>waitq\<close> of \<open>runtime/chan.go\<close> and \<open>dequeueSudoG\<close> of
  \<open>runtime/select.go\<close>): a doubly linked list threaded through the \<open>sudog\<close> records of the heap.  A
  \<open>sudog\<close> is an address; \<open>owner\<close> is its field \<open>g\<close>, \<open>isSel\<close> its field \<open>isSelect\<close>, which the operations of
  the queue do not change.  The operations are proved to be those on the list of addresses.
\<close>

record node =
  sg_next :: "nat option"
  sg_prev :: "nat option"

type_synonym store = "nat \<Rightarrow> node"

record waitq =
  wq_first :: "nat option"
  wq_last :: "nat option"

abbreviation set_next :: "nat \<Rightarrow> nat option \<Rightarrow> store \<Rightarrow> store" where
  "set_next a v h \<equiv> h(a := (h a)\<lparr>sg_next := v\<rparr>)"

abbreviation set_prev :: "nat \<Rightarrow> nat option \<Rightarrow> store \<Rightarrow> store" where
  "set_prev a v h \<equiv> h(a := (h a)\<lparr>sg_prev := v\<rparr>)"

section \<open>The operations\<close>

definition waitq_enqueue :: "store \<Rightarrow> waitq \<Rightarrow> nat \<Rightarrow> store \<times> waitq" where
  "waitq_enqueue h q sgp =
     (let h = set_next sgp None h in
      case wq_last q of
        None \<Rightarrow> (set_prev sgp None h, \<lparr>wq_first = Some sgp, wq_last = Some sgp\<rparr>)
      | Some x \<Rightarrow> (set_next x (Some sgp) (set_prev sgp (Some x) h), q\<lparr>wq_last := Some sgp\<rparr>))"

text \<open>The loop of \<open>dequeue\<close>; \<open>selectDone\<close> is the field of that name of every goroutine, set by the CAS.\<close>

partial_function (option) waitq_dequeue ::
  "(nat \<Rightarrow> nat) \<Rightarrow> (nat \<Rightarrow> bool) \<Rightarrow> store \<Rightarrow> waitq \<Rightarrow> (nat \<Rightarrow> bool)
    \<Rightarrow> (nat option \<times> store \<times> waitq \<times> (nat \<Rightarrow> bool)) option" where
  "waitq_dequeue owner isSel h q selectDone =
     (case wq_first q of
        None \<Rightarrow> Some (None, h, q, selectDone)
      | Some sgp \<Rightarrow>
          let (h, q) = (case sg_next (h sgp) of
                None \<Rightarrow> (h, \<lparr>wq_first = None, wq_last = None\<rparr>)
              | Some y \<Rightarrow> (set_next sgp None (set_prev y None h), q\<lparr>wq_first := Some y\<rparr>)) in
          if isSel sgp \<and> selectDone (owner sgp) then waitq_dequeue owner isSel h q selectDone
          else Some (Some sgp, h, q, if isSel sgp then selectDone(owner sgp := True) else selectDone))"

definition dequeueSudoG :: "store \<Rightarrow> waitq \<Rightarrow> nat \<Rightarrow> store \<times> waitq" where
  "dequeueSudoG h q sgp =
     (case (sg_prev (h sgp), sg_next (h sgp)) of
        (Some x, Some y) \<Rightarrow>
          (set_prev sgp None (set_next sgp None (set_prev y (Some x) (set_next x (Some y) h))), q)
      | (Some x, None) \<Rightarrow> (set_prev sgp None (set_next x None h), q\<lparr>wq_last := Some x\<rparr>)
      | (None, Some y) \<Rightarrow> (set_next sgp None (set_prev y None h), q\<lparr>wq_first := Some y\<rparr>)
      | (None, None) \<Rightarrow>
          (h, if wq_first q = Some sgp then \<lparr>wq_first = None, wq_last = None\<rparr> else q))"

section \<open>The list a queue represents\<close>

fun linked :: "store \<Rightarrow> nat option \<Rightarrow> nat list \<Rightarrow> nat option \<Rightarrow> bool" where
  "linked h p [] e \<longleftrightarrow> True"
| "linked h p [x] e \<longleftrightarrow> sg_prev (h x) = p \<and> sg_next (h x) = e"
| "linked h p (x # y # ys) e \<longleftrightarrow> sg_prev (h x) = p \<and> sg_next (h x) = Some y \<and> linked h (Some x) (y # ys) e"

definition is_queue :: "store \<Rightarrow> waitq \<Rightarrow> nat list \<Rightarrow> bool" where
  "is_queue h q xs \<longleftrightarrow> distinct xs \<and> linked h None xs None
     \<and> wq_first q = (if xs = [] then None else Some (hd xs))
     \<and> wq_last q = (if xs = [] then None else Some (last xs))"

definition detached :: "store \<Rightarrow> nat \<Rightarrow> bool" where
  "detached h a \<longleftrightarrow> sg_next (h a) = None \<and> sg_prev (h a) = None"

text \<open>What \<open>dequeue\<close> does to the list: goroutines that another case of their select has woken are dropped.\<close>

fun dequeue_list :: "('s \<Rightarrow> nat) \<Rightarrow> ('s \<Rightarrow> bool) \<Rightarrow> 's list \<Rightarrow> (nat \<Rightarrow> bool) \<Rightarrow> 's option \<times> 's list \<times> (nat \<Rightarrow> bool)" where
  "dequeue_list owner isSel [] selectDone = (None, [], selectDone)"
| "dequeue_list owner isSel (sg # q) selectDone =
     (if isSel sg \<and> selectDone (owner sg) then dequeue_list owner isSel q selectDone
      else (Some sg, q, if isSel sg then selectDone(owner sg := True) else selectDone))"

lemma linked_cong: "(\<And>a. a \<in> set xs \<Longrightarrow> h' a = h a) \<Longrightarrow> linked h' p xs e \<longleftrightarrow> linked h p xs e"
  by (induction h p xs e rule: linked.induct) auto

lemma linked_append:
  "linked h p (xs @ y # ys) e \<longleftrightarrow>
     linked h p xs (Some y) \<and> linked h (if xs = [] then p else Some (last xs)) (y # ys) e"
proof (induction xs arbitrary: p)
  case (Cons x xs)
  then show ?case by (cases xs) auto
qed simp

lemma linked_Cons:
  "linked h p (x # ys) e \<longleftrightarrow> sg_prev (h x) = p \<and> sg_next (h x) = (if ys = [] then e else Some (hd ys))
     \<and> linked h (Some x) ys e"
  by (cases ys) auto

lemma linked_set_prev:
  assumes "x \<notin> set ys" "linked h p (x # ys) e"
  shows "linked (set_prev x p' h) p' (x # ys) e"
proof -
  have "linked (set_prev x p' h) (Some x) ys e \<longleftrightarrow> linked h (Some x) ys e"
    using assms(1) by (intro linked_cong) auto
  then show ?thesis using assms(2) unfolding linked_Cons by simp
qed

lemma linked_set_next:
  assumes "x \<notin> set xs" "linked h p (xs @ [x]) e"
  shows "linked (set_next x e' h) p (xs @ [x]) e'"
proof -
  have "linked (set_next x e' h) p xs (Some x) \<longleftrightarrow> linked h p xs (Some x)"
    using assms(1) by (intro linked_cong) auto
  then show ?thesis using assms(2) unfolding linked_append by simp
qed

section \<open>Refinement\<close>

lemma enqueue_refines:
  assumes "is_queue h q xs" "sgp \<notin> set xs" "waitq_enqueue h q sgp = (h', q')"
  shows "is_queue h' q' (xs @ [sgp])" "\<And>a. a \<notin> set (xs @ [sgp]) \<Longrightarrow> h' a = h a"
proof -
  show "is_queue h' q' (xs @ [sgp])"
  proof (cases xs rule: rev_cases)
    case Nil
    then show ?thesis using assms by (auto simp: is_queue_def waitq_enqueue_def Let_def)
  next
    case (snoc ys x)
    have q: "wq_last q = Some x" and dist: "x \<notin> set ys" "x \<noteq> sgp" "sgp \<notin> set ys" "distinct ys"
      and l: "linked h None (ys @ [x]) None" and f: "wq_first q = Some (hd (ys @ [x]))"
      using assms(1,2) by (auto simp: is_queue_def snoc split: if_splits)
    have h': "h' = set_next x (Some sgp) (set_prev sgp (Some x) (set_next sgp None h))"
      and q': "q' = q\<lparr>wq_last := Some sgp\<rparr>"
      using assms(3) dist(2) by (simp_all add: waitq_enqueue_def q Let_def)
    have "linked (set_prev sgp (Some x) (set_next sgp None h)) None (ys @ [x]) None"
      using l dist by (subst linked_cong [where h = h]) auto
    then have "linked h' None (ys @ [x]) (Some sgp)" unfolding h' by (rule linked_set_next [OF dist(1)])
    moreover have "linked h' (Some x) [sgp] None" using dist by (simp add: h')
    ultimately have "linked h' None ((ys @ [x]) @ [sgp]) None" by (subst linked_append) simp
    then show ?thesis using dist f unfolding is_queue_def q' snoc by (auto simp: hd_append)
  qed
  show "\<And>a. a \<notin> set (xs @ [sgp]) \<Longrightarrow> h' a = h a"
    using assms by (auto simp: waitq_enqueue_def is_queue_def Let_def split: option.splits if_splits)
qed

text \<open>Taking the first element off, as both branches of \<open>dequeue\<close> do.\<close>

lemma pop_refines:
  assumes "is_queue h q (x # xs)"
    and "(case sg_next (h x) of
            None \<Rightarrow> (h, \<lparr>wq_first = None, wq_last = None\<rparr>)
          | Some y \<Rightarrow> (set_next x None (set_prev y None h), q\<lparr>wq_first := Some y\<rparr>)) = (h', q')"
  shows "is_queue h' q' xs" "detached h' x" "\<And>a. a \<notin> set (x # xs) \<Longrightarrow> h' a = h a"
proof -
  have l: "linked h None (x # xs) None" and d: "x \<notin> set xs" "distinct xs"
    and q: "wq_last q = Some (last (x # xs))" using assms(1) by (auto simp: is_queue_def)
  show "is_queue h' q' xs" "detached h' x" "\<And>a. a \<notin> set (x # xs) \<Longrightarrow> h' a = h a"
  proof (atomize (full), cases xs)
    case Nil
    then show "is_queue h' q' xs \<and> detached h' x \<and> (\<forall>a. a \<notin> set (x # xs) \<longrightarrow> h' a = h a)"
      using l assms(2) by (auto simp: is_queue_def detached_def)
  next
    case (Cons y ys)
    have "linked h (Some x) (y # ys) None" using l Cons by simp
    then have "linked (set_prev y None h) None (y # ys) None" using d Cons by (intro linked_set_prev) auto
    then have "linked (set_next x None (set_prev y None h)) None (y # ys) None"
      using d Cons by (subst linked_cong [where h = "set_prev y None h"]) auto
    then show "is_queue h' q' xs \<and> detached h' x \<and> (\<forall>a. a \<notin> set (x # xs) \<longrightarrow> h' a = h a)"
      using l d q assms(2) Cons by (auto simp: is_queue_def detached_def)
  qed
qed

lemma dequeue_refines:
  assumes "is_queue h q xs"
  shows "\<exists>h' q'. waitq_dequeue owner isSel h q done
        = Some (fst (dequeue_list owner isSel xs done), h', q', snd (snd (dequeue_list owner isSel xs done)))
      \<and> is_queue h' q' (fst (snd (dequeue_list owner isSel xs done)))
      \<and> (\<forall>a \<in> set xs. a \<in> set (fst (snd (dequeue_list owner isSel xs done))) \<or> detached h' a)
      \<and> (\<forall>a. a \<notin> set xs \<longrightarrow> h' a = h a)"
  using assms
proof (induction xs arbitrary: h q)
  case Nil
  then show ?case by (subst waitq_dequeue.simps) (auto simp: is_queue_def)
next
  case (Cons x xs)
  obtain h1 q1 where pop: "(case sg_next (h x) of
            None \<Rightarrow> (h, \<lparr>wq_first = None, wq_last = None\<rparr>)
          | Some y \<Rightarrow> (set_next x None (set_prev y None h), q\<lparr>wq_first := Some y\<rparr>)) = (h1, q1)"
    by (cases "(case sg_next (h x) of
            None \<Rightarrow> (h, \<lparr>wq_first = None, wq_last = None\<rparr>)
          | Some y \<Rightarrow> (set_next x None (set_prev y None h), q\<lparr>wq_first := Some y\<rparr>))")
  note p = pop_refines [OF Cons.prems pop]
  have first: "wq_first q = Some x" and x: "x \<notin> set xs" using Cons.prems by (auto simp: is_queue_def)
  show ?case
  proof (cases "isSel x \<and> done (owner x)")
    case True
    then have "waitq_dequeue owner isSel h q done = waitq_dequeue owner isSel h1 q1 done"
      by (subst waitq_dequeue.simps) (simp add: first pop Let_def)
    moreover obtain h2 q2 where r: "waitq_dequeue owner isSel h1 q1 done
        = Some (fst (dequeue_list owner isSel xs done), h2, q2, snd (snd (dequeue_list owner isSel xs done)))"
      "is_queue h2 q2 (fst (snd (dequeue_list owner isSel xs done)))"
      "\<forall>a \<in> set xs. a \<in> set (fst (snd (dequeue_list owner isSel xs done))) \<or> detached h2 a"
      "\<forall>a. a \<notin> set xs \<longrightarrow> h2 a = h1 a"
      using Cons.IH [OF p(1)] by blast
    moreover have "detached h2 x" using p(2) r(4) x by (simp add: detached_def)
    ultimately show ?thesis using True p(3) by auto
  next
    case False
    then have "waitq_dequeue owner isSel h q done
        = Some (Some x, h1, q1, if isSel x then done(owner x := True) else done)"
      by (subst waitq_dequeue.simps) (auto simp: first pop Let_def)
    then show ?thesis using False p by auto
  qed
qed

lemma dequeueSudoG_absent:
  assumes "is_queue h q xs" "sgp \<notin> set xs" "detached h sgp"
  shows "dequeueSudoG h q sgp = (h, q)"
  using assms by (cases xs) (auto simp: dequeueSudoG_def detached_def is_queue_def)

lemma dequeueSudoG_present:
  assumes "is_queue h q (xs @ sgp # ys)" "dequeueSudoG h q sgp = (h', q')"
  shows "is_queue h' q' (xs @ ys) \<and> detached h' sgp \<and> (\<forall>a. a \<notin> set (xs @ sgp # ys) \<longrightarrow> h' a = h a)"
proof -
  have l: "linked h None xs (Some sgp)" "linked h (if xs = [] then None else Some (last xs)) (sgp # ys) None"
    using assms(1) by (simp_all add: is_queue_def linked_append)
  have d: "distinct xs" "distinct ys" "sgp \<notin> set xs" "sgp \<notin> set ys" "set xs \<inter> set ys = {}"
    using assms(1) by (auto simp: is_queue_def)
  have f: "wq_first q = Some (hd (xs @ [sgp]))" "wq_last q = Some (last (sgp # ys))"
    using assms(1) by (auto simp: is_queue_def hd_append)
  show ?thesis
  proof (cases xs rule: rev_cases)
    case Nil
    have n: "sg_prev (h sgp) = None" "sg_next (h sgp) = (if ys = [] then None else Some (hd ys))"
      using l(2) Nil by (simp_all add: linked_Cons)
    show ?thesis
    proof (cases ys)
      case Nil': Nil
      then show ?thesis using assms(2) f(1) n unfolding Nil
        by (auto simp: dequeueSudoG_def is_queue_def detached_def)
    next
      case (Cons y zs)
      have "dequeueSudoG h q sgp = (set_next sgp None (set_prev y None h), q\<lparr>wq_first := Some y\<rparr>)"
        using n Cons by (simp add: dequeueSudoG_def)
      then show ?thesis
        using pop_refines [of h q sgp ys h' q'] assms n Nil Cons by simp
    qed
  next
    case (snoc us x)
    have n: "sg_prev (h sgp) = Some x" "sg_next (h sgp) = (if ys = [] then None else Some (hd ys))"
      using l(2) snoc by (simp_all add: linked_Cons)
    have x: "x \<notin> set us" "x \<noteq> sgp" "x \<notin> set ys" using d snoc by auto
    have lx: "linked h None (us @ [x]) (Some sgp)" using l(1) snoc by simp
    show ?thesis
    proof (cases ys)
      case Nil
      have e: "h' = set_prev sgp None (set_next x None h)" "q' = q\<lparr>wq_last := Some x\<rparr>"
        using assms(2) n Nil by (simp_all add: dequeueSudoG_def)
      have "linked (set_next x None h) None (us @ [x]) None" using lx by (rule linked_set_next [OF x(1)])
      then have "linked h' None (us @ [x]) None"
        using d snoc unfolding e by (subst linked_cong [where h = "set_next x None h"]) auto
      then show ?thesis using d f n x Nil snoc
        by (auto simp: is_queue_def detached_def e hd_append)
    next
      case (Cons y zs)
      let ?h1 = "set_next x (Some y) h"
      let ?h2 = "set_prev y (Some x) ?h1"
      have e: "h' = set_prev sgp None (set_next sgp None ?h2)" "q' = q"
        using assms(2) n Cons by (simp_all add: dequeueSudoG_def)
      have y: "y \<noteq> x" "y \<noteq> sgp" "y \<notin> set us" "y \<notin> set zs" using d x snoc Cons by auto
      have "linked ?h1 None (us @ [x]) (Some y)" using lx by (rule linked_set_next [OF x(1)])
      then have 1: "linked h' None (us @ [x]) (Some y)"
        using d y snoc unfolding e by (subst linked_cong [where h = ?h1]) auto
      have "linked h (Some sgp) (y # zs) None" using l(2) Cons by simp
      then have "linked ?h1 (Some sgp) (y # zs) None" using x Cons by (subst linked_cong [where h = h]) auto
      then have "linked ?h2 (Some x) (y # zs) None" by (rule linked_set_prev [OF y(4)])
      then have 2: "linked h' (Some x) (y # zs) None"
        using d Cons unfolding e by (subst linked_cong [where h = ?h2]) auto
      have "linked h' None ((us @ [x]) @ y # zs) None" using 1 2 by (subst linked_append) simp
      then show ?thesis using d f n x y Cons snoc
        by (auto simp: is_queue_def detached_def e hd_append)
    qed
  qed
qed

section \<open>Property\<close>

text \<open>C31: the doubly linked queue of waiting goroutines is the list of its elements: \<open>enqueue\<close> appends,
  \<open>dequeue\<close> always returns, with the first element that is not a select already decided, and drops those
  before it, \<open>dequeueSudoG\<close> removes its argument from the middle and does nothing when it has already been
  taken off.\<close>
lemma waitq_refines_list:
  assumes "is_queue h q xs" "\<forall>a \<in> {x, y}. a \<notin> set xs \<and> detached h a"
  shows "(\<exists>h' q'. waitq_enqueue h q x = (h', q') \<and> is_queue h' q' (xs @ [x]))
    \<and> (\<exists>h' q'. waitq_dequeue owner isSel h q done
          = Some (fst (dequeue_list owner isSel xs done), h', q', snd (snd (dequeue_list owner isSel xs done)))
        \<and> is_queue h' q' (fst (snd (dequeue_list owner isSel xs done))))
    \<and> (\<forall>z \<in> insert y (set xs). \<exists>h' q'. dequeueSudoG h q z = (h', q') \<and> is_queue h' q' (remove1 z xs) \<and> detached h' z)"
proof (intro conjI ballI)
  show "\<exists>h' q'. waitq_enqueue h q x = (h', q') \<and> is_queue h' q' (xs @ [x])"
    using enqueue_refines(1) [of h q xs x] assms by (cases "waitq_enqueue h q x") auto
  show "\<exists>h' q'. waitq_dequeue owner isSel h q done
          = Some (fst (dequeue_list owner isSel xs done), h', q', snd (snd (dequeue_list owner isSel xs done)))
        \<and> is_queue h' q' (fst (snd (dequeue_list owner isSel xs done)))"
    using dequeue_refines [OF assms(1)] by blast
next
  fix z assume z: "z \<in> insert y (set xs)"
  show "\<exists>h' q'. dequeueSudoG h q z = (h', q') \<and> is_queue h' q' (remove1 z xs) \<and> detached h' z"
  proof (cases "z \<in> set xs")
    case True
    then obtain us vs where xs: "xs = us @ z # vs" "z \<notin> set us" by (meson split_list_first)
    obtain h' q' where e: "dequeueSudoG h q z = (h', q')" by (cases "dequeueSudoG h q z")
    then show ?thesis using dequeueSudoG_present [of h q us z vs h' q'] assms(1) xs
      by (simp add: remove1_append)
  next
    case False
    then show ?thesis using dequeueSudoG_absent [OF assms(1) False] assms z by (auto simp: remove1_idem)
  qed
qed

text \<open>The queue 1, 2 with the goroutines 3 and 4 outside it.\<close>

definition demo_store :: store where
  "demo_store = (\<lambda>_. \<lparr>sg_next = None, sg_prev = None\<rparr>)(1 := \<lparr>sg_next = Some 2, sg_prev = None\<rparr>, 2 := \<lparr>sg_next = None, sg_prev = Some 1\<rparr>)"

lemma waitq_refines_list_witness:
  "\<exists>h' q'. waitq_enqueue demo_store \<lparr>wq_first = Some 1, wq_last = Some 2\<rparr> 3 = (h', q') \<and> is_queue h' q' ([1, 2] @ [3])"
  using waitq_refines_list [of demo_store "\<lparr>wq_first = Some 1, wq_last = Some 2\<rparr>" "[1, 2]" 3 4]
  by (simp add: demo_store_def is_queue_def detached_def)

end
