(* ===== verification/SelectOrder.thy ===== *)
theory SelectOrder
  imports Prelude "HOL-Library.Multiset"
begin

text \<open>
  The two orders of a select (\<open>selectgo\<close> in \<open>runtime/select.go\<close>): the random order in which the cases are
  polled, and the order of the channels' addresses in which they are locked, by a heap sort.  An order
  is an array of case numbers, here a list; \<open>key\<close> gives the address of the channel of a case.
\<close>

section \<open>The code\<close>

text \<open>\<open>fastrandn(n)\<close> for the value \<open>x\<close> of \<open>fastrand\<close>.\<close>

definition fastrandn :: "u32 \<Rightarrow> nat \<Rightarrow> nat" where
  "fastrandn x n = unat x * n div 2 ^ 32"

text \<open>A permutation of the case numbers; the compiler passes zeroed memory.\<close>

definition poll_step :: "(nat \<Rightarrow> u32) \<Rightarrow> nat list \<Rightarrow> nat \<Rightarrow> nat list" where
  "poll_step rnd pollorder i =
     (let j = fastrandn (rnd i) (i + 1); pollorder = pollorder[i := pollorder ! j] in pollorder[j := i])"

definition poll_order :: "(nat \<Rightarrow> u32) \<Rightarrow> nat \<Rightarrow> nat list" where
  "poll_order rnd ncases = foldl (poll_step rnd) (replicate ncases 0) [1..<ncases]"

text \<open>Inserting \<open>x\<close> into a heap, from the free position \<open>j\<close> upwards.\<close>

function sift_up :: "(nat \<Rightarrow> nat) \<Rightarrow> nat list \<Rightarrow> nat \<Rightarrow> nat \<Rightarrow> nat list" where
  "sift_up key lockorder j x =
     (if j > 0 \<and> key (lockorder ! ((j - 1) div 2)) < key x
      then let k = (j - 1) div 2 in sift_up key (lockorder[j := lockorder ! k]) k x
      else lockorder[j := x])"
  by pat_completeness auto
termination by (relation "measure (\<lambda>(key, l, j, x). j)") auto

text \<open>Putting \<open>x\<close> into the heap of the first \<open>i\<close> elements, from the free position \<open>j\<close> downwards.\<close>

function sift_down :: "(nat \<Rightarrow> nat) \<Rightarrow> nat list \<Rightarrow> nat \<Rightarrow> nat \<Rightarrow> nat \<Rightarrow> nat list" where
  "sift_down key lockorder i j x =
     (let k = j * 2 + 1 in
      if k \<ge> i then lockorder[j := x]
      else let k = (if k + 1 < i \<and> key (lockorder ! k) < key (lockorder ! (k + 1)) then k + 1 else k) in
      if key x < key (lockorder ! k) then sift_down key (lockorder[j := lockorder ! k]) i k x
      else lockorder[j := x])"
  by pat_completeness auto
termination by (relation "measure (\<lambda>(key, l, i, j, x). i - j)") (auto simp: Let_def split: if_splits)

definition lock_order :: "(nat \<Rightarrow> nat) \<Rightarrow> nat list \<Rightarrow> nat list" where
  "lock_order key pollorder =
     (let ncases = length pollorder;
          lockorder = foldl (\<lambda>l i. sift_up key l i (pollorder ! i)) (replicate ncases 0) [0..<ncases]
      in foldl (\<lambda>l i. let o' = l ! i; l = l[i := l ! 0] in sift_down key l i 0 o') lockorder (rev [0..<ncases]))"

declare sift_up.simps [simp del] sift_down.simps [simp del]
lemmas sift_unfold [loop_unfold] = sift_up.simps sift_down.simps

section \<open>The poll order is a permutation\<close>

lemma fastrandn_less: "0 < n \<Longrightarrow> fastrandn x n < n"
proof -
  assume "0 < n"
  have "unat x < 2 ^ 32" using unsigned_less [of x] by simp
  then have "unat x * n < n * 2 ^ 32" using \<open>0 < n\<close> by simp
  then show ?thesis unfolding fastrandn_def by (rule less_mult_imp_div_less)
qed

lemma poll_step_perm:
  assumes "length p = n" "k < n" "mset (take k p) = mset [0..<k]"
  shows "mset (take (Suc k) (poll_step rnd p k)) = mset [0..<Suc k]"
proof -
  define j where "j = fastrandn (rnd k) (k + 1)"
  have j: "j \<le> k" using fastrandn_less [of "k + 1"] by (simp add: j_def less_Suc_eq_le)
  let ?q = "take k p @ [k]"
  have len: "length ?q = Suc k" using assms by simp
  have "take (Suc k) (p[k := p ! j, j := k]) = ?q[k := ?q ! j, j := ?q ! k]"
  proof (rule nth_equalityI)
    show "length (take (Suc k) (p[k := p ! j, j := k])) = length (?q[k := ?q ! j, j := ?q ! k])"
      using len assms by simp
    fix i assume "i < length (take (Suc k) (p[k := p ! j, j := k]))"
    then have "i \<le> k" using assms by simp
    then show "take (Suc k) (p[k := p ! j, j := k]) ! i = ?q[k := ?q ! j, j := ?q ! k] ! i"
      using j assms len by (auto simp: nth_list_update nth_append min_def)
  qed
  moreover have "mset (?q[k := ?q ! j, j := ?q ! k]) = mset ?q" using j len by (intro mset_swap) auto
  ultimately have "mset (take (Suc k) (p[k := p ! j, j := k])) = mset ?q" by simp
  then show ?thesis using assms(3) by (simp add: poll_step_def j_def Let_def)
qed

lemma poll_order_prefix:
  assumes "0 < k" "k \<le> n"
  shows "length (foldl (poll_step rnd) (replicate n 0) [1..<k]) = n
    \<and> mset (take k (foldl (poll_step rnd) (replicate n 0) [1..<k])) = mset [0..<k]"
  using assms
proof (induction k rule: nat_induct_non_zero)
  case 1
  then show ?case by (cases n) auto
next
  case (Suc k)
  define p where "p = foldl (poll_step rnd) (replicate n 0) [1..<k]"
  have p: "length p = n" "mset (take k p) = mset [0..<k]" using Suc unfolding p_def by simp_all
  have "[1..<Suc k] = [1..<k] @ [k]" using Suc.hyps by simp
  then have q: "foldl (poll_step rnd) (replicate n 0) [1..<Suc k] = poll_step rnd p k" by (simp add: p_def)
  have "length (poll_step rnd p k) = n" using p(1) by (simp add: poll_step_def Let_def)
  then show ?case unfolding q using poll_step_perm [OF p(1) _ p(2)] Suc.prems by simp
qed

lemma poll_order_perm: "length (poll_order rnd n) = n \<and> mset (poll_order rnd n) = mset [0..<n]"
proof (cases "n = 0")
  case False
  then have "length (poll_order rnd n) = n" "mset (take n (poll_order rnd n)) = mset [0..<n]"
    using poll_order_prefix [of n n rnd] unfolding poll_order_def by blast+
  then show ?thesis by simp
qed (simp add: poll_order_def)

section \<open>The lock order is sorted\<close>

definition par :: "nat \<Rightarrow> nat" where
  "par j = (j - 1) div 2"

lemmas sift_up_par = sift_up.simps [folded par_def]

text \<open>A heap with the largest key first, and one with a single violation at \<open>j\<close>.\<close>

definition heap_upto :: "(nat \<Rightarrow> nat) \<Rightarrow> nat list \<Rightarrow> nat \<Rightarrow> bool" where
  "heap_upto key l m \<longleftrightarrow> (\<forall>k < m. 0 < k \<longrightarrow> key (l ! k) \<le> key (l ! (par k)))"

definition rising :: "(nat \<Rightarrow> nat) \<Rightarrow> nat list \<Rightarrow> nat \<Rightarrow> nat \<Rightarrow> bool" where
  "rising key l m j \<longleftrightarrow> (\<forall>k < m. 0 < k \<longrightarrow> k \<noteq> j \<longrightarrow> key (l ! k) \<le> key (l ! (par k)))
     \<and> (\<forall>k < m. 0 < k \<longrightarrow> par k = j \<longrightarrow> 0 < j \<longrightarrow> key (l ! k) \<le> key (l ! (par j)))"

definition sinking :: "(nat \<Rightarrow> nat) \<Rightarrow> nat list \<Rightarrow> nat \<Rightarrow> nat \<Rightarrow> bool" where
  "sinking key l m j \<longleftrightarrow> (\<forall>k < m. 0 < k \<longrightarrow> par k \<noteq> j \<longrightarrow> key (l ! k) \<le> key (l ! (par k)))
     \<and> (\<forall>k < m. 0 < k \<longrightarrow> par k = j \<longrightarrow> 0 < j \<longrightarrow> key (l ! k) \<le> key (l ! (par j)))"

lemma swap_hole:
  assumes "j < length l" "k < length l" "j \<noteq> k"
  shows "mset (l[j := l ! k, k := x]) = mset (l[j := x])"
proof -
  let ?l = "l[j := x]"
  have "l[j := l ! k, k := x] = ?l[j := ?l ! k, k := ?l ! j]" using assms by simp
  moreover have "mset (?l[j := ?l ! k, k := ?l ! j]) = mset ?l" using assms by (intro mset_swap) auto
  ultimately show ?thesis by simp
qed

lemma parent_less: "0 < j \<Longrightarrow> par j < j"
  by (simp add: par_def)

lemma rising_step:
  assumes r: "rising key (l[j := x]) m j" and j: "0 < j" "j < m" "m \<le> length l"
    and less: "key (l ! (par j)) < key x"
  shows "rising key (l[j := l ! (par j), par j := x]) m (par j)"
proof -
  let ?p = "par j" and ?l = "l[j := x]"
  let ?l' = "l[j := l ! ?p, ?p := x]"
  have p: "?p < j" using j(1) by (rule parent_less)
  have nth: "?l' ! i = (if i = ?p then x else if i = j then l ! ?p else l ! i)" "?l ! i = (if i = j then x else l ! i)"
    if "i < m" for i using that p j by (auto simp: nth_list_update)
  have one: "key (?l ! k) \<le> key (?l ! (par k))" if "k < m" "0 < k" "k \<noteq> j" for k
    using r that unfolding rising_def by blast
  have two: "key (?l ! k) \<le> key (?l ! ?p)" if "k < m" "0 < k" "par k = j" for k
    using r that j unfolding rising_def by blast
  show ?thesis unfolding rising_def
  proof (intro conjI allI impI)
    fix k assume k: "k < m" "0 < k" "k \<noteq> ?p"
    have q: "par k < m" using k parent_less [of k] by linarith
    consider "k = j" | "k \<noteq> j" "par k = ?p" | "k \<noteq> j" "par k = j" | "k \<noteq> j" "par k \<noteq> ?p" "par k \<noteq> j"
      by blast
    then show "key (?l' ! k) \<le> key (?l' ! (par k))"
    proof cases
      case 1
      then show ?thesis using nth(1) [of j] nth(1) [of ?p] less p j by simp
    next
      case 2
      then have "key (l ! k) \<le> key (l ! ?p)" using one [of k] nth(2) [of k] nth(2) [of ?p] k p j by simp
      then show ?thesis using nth(1) [of k] nth(1) [of ?p] less p j k 2 by simp
    next
      case 3
      then have "key (l ! k) \<le> key (l ! ?p)" using two [of k] nth(2) [of k] nth(2) [of ?p] k p j by simp
      then show ?thesis using nth(1) [of k] nth(1) [of j] less p j k 3 by simp
    next
      case 4
      then show ?thesis using one [of k] nth(1) [of k] nth(1) [of "par k"] nth(2) [of k] nth(2) [of "par k"] k q by simp
    qed
  next
    fix k assume k: "k < m" "0 < k" "par k = ?p" "0 < ?p"
    have g: "par ?p < ?p" using k(4) by (rule parent_less)
    then have gm: "par ?p < m" "?p < m" "par ?p \<noteq> j" using p j by linarith+
    have up: "key (l ! ?p) \<le> key (l ! (par ?p))"
      using one [of ?p] nth(2) [of ?p] nth(2) [of "par ?p"] k(4) p gm by simp
    have "key (?l' ! k) \<le> key (l ! (par ?p))"
    proof (cases "k = j")
      case True
      then show ?thesis using up nth(1) [of j] p j by simp
    next
      case False
      then have "key (l ! k) \<le> key (l ! ?p)" using one [of k] nth(2) [of k] nth(2) [of ?p] k p gm by simp
      moreover have "k \<noteq> ?p" using k parent_less [of k] by linarith
      ultimately show ?thesis using up nth(1) [of k] k False by simp
    qed
    then show "key (?l' ! k) \<le> key (?l' ! (par ?p))" using nth(1) [of "par ?p"] gm g by simp
  qed
qed

lemma sift_up_spec:
  assumes "rising key (l[j := x]) m j" "j < m" "m \<le> length l"
  shows "heap_upto key (sift_up key l j x) m \<and> mset (sift_up key l j x) = mset (l[j := x])
    \<and> length (sift_up key l j x) = length l \<and> (\<forall>k > j. sift_up key l j x ! k = l ! k)"
  using assms
proof (induction key l j x rule: sift_up.induct)
  case (1 key l j x)
  show ?case
  proof (cases "j > 0 \<and> key (l ! (par j)) < key x")
    case True
    let ?p = "par j"
    have p: "?p < j" using True parent_less by blast
    have "rising key (l[j := l ! ?p, ?p := x]) m ?p" using rising_step [OF 1(2)] True 1(3,4) by blast
    then have IH: "heap_upto key (sift_up key (l[j := l ! ?p]) ?p x) m
        \<and> mset (sift_up key (l[j := l ! ?p]) ?p x) = mset (l[j := l ! ?p, ?p := x])
        \<and> length (sift_up key (l[j := l ! ?p]) ?p x) = length l
        \<and> (\<forall>k > ?p. sift_up key (l[j := l ! ?p]) ?p x ! k = l[j := l ! ?p] ! k)"
      using 1(1) [folded par_def, OF True refl] 1(3,4) p by simp
    have "mset (l[j := l ! ?p, ?p := x]) = mset (l[j := x])" using p 1(3,4) by (intro swap_hole) auto
    moreover have "sift_up key l j x = sift_up key (l[j := l ! ?p]) ?p x" using True by (subst sift_up_par) (simp add: Let_def)
    ultimately show ?thesis using IH p by auto
  next
    case False
    then have e: "sift_up key l j x = l[j := x]" by (subst sift_up_par) auto
    have "key x \<le> key (l ! (par j))" if "0 < j" using False that by linarith
    then have "heap_upto key (l[j := x]) m"
      using 1(2,3,4) parent_less unfolding rising_def heap_upto_def
      by (metis nth_list_update_eq nth_list_update_neq order_less_le_trans order_less_irrefl)
    then show ?thesis unfolding e by auto
  qed
qed

lemma sinking_step:
  assumes s: "sinking key (l[j := x]) m j" and k: "k < m" "par k = j" "0 < k" and m: "m \<le> length l"
    and largest: "\<forall>k' < m. 0 < k' \<longrightarrow> par k' = j \<longrightarrow> key (l ! k') \<le> key (l ! k)"
    and less: "key x < key (l ! k)"
  shows "sinking key (l[j := l ! k, k := x]) m k"
proof -
  let ?l = "l[j := x]"
  let ?l' = "l[j := l ! k, k := x]"
  have jk: "j < k" using k parent_less by blast
  have nth: "?l' ! i = (if i = k then x else if i = j then l ! k else l ! i)" "?l ! i = (if i = j then x else l ! i)"
    if "i < m" for i using that jk k m by (auto simp: nth_list_update)
  have one: "key (?l ! i) \<le> key (?l ! (par i))" if "i < m" "0 < i" "par i \<noteq> j" for i
    using s that unfolding sinking_def by blast
  have two: "key (?l ! i) \<le> key (?l ! (par j))" if "i < m" "0 < i" "par i = j" "0 < j" for i
    using s that unfolding sinking_def by blast
  show ?thesis unfolding sinking_def
  proof (intro conjI allI impI)
    fix i assume i: "i < m" "0 < i" "par i \<noteq> k"
    have q: "par i < i" "par i < m" using i parent_less [of i] by linarith+
    consider "i = k" | "i \<noteq> k" "par i = j" | "i = j" | "i \<noteq> k" "i \<noteq> j" "par i \<noteq> j" by blast
    then show "key (?l' ! i) \<le> key (?l' ! (par i))"
    proof cases
      case 1
      then show ?thesis using nth(1) [of k] nth(1) [of j] less k jk by simp
    next
      case 2
      then have "i \<noteq> j" "key (l ! i) \<le> key (l ! k)" using q largest i by auto
      then show ?thesis using nth(1) [of i] nth(1) [of j] 2 i jk k by simp
    next
      case 3
      then have "key (l ! k) \<le> key (l ! (par j))"
        using two [of k] nth(2) [of k] nth(2) [of "par j"] k i q jk by simp
      then show ?thesis using nth(1) [of j] nth(1) [of "par j"] 3 i q jk by simp
    next
      case 4
      then show ?thesis
        using one [of i] nth(1) [of i] nth(1) [of "par i"] nth(2) [of i] nth(2) [of "par i"] i q by simp
    qed
  next
    fix i assume i: "i < m" "0 < i" "par i = k" "0 < k"
    have q: "k < i" using i parent_less [of i] by linarith
    have "key (l ! i) \<le> key (l ! k)" using one [of i] nth(2) [of i] nth(2) [of k] i q jk k by simp
    then show "key (?l' ! i) \<le> key (?l' ! (par k))"
      using nth(1) [of i] nth(1) [of j] i q jk k by simp
  qed
qed

lemma sift_down_step:
  assumes "\<not> j * 2 + 1 \<ge> i"
    and "k = (if j * 2 + 1 + 1 < i \<and> key (l ! (j * 2 + 1)) < key (l ! (j * 2 + 1 + 1)) then j * 2 + 1 + 1 else j * 2 + 1)"
  shows "sift_down key l i j x = (if key x < key (l ! k) then sift_down key (l[j := l ! k]) i k x else l[j := x])"
  unfolding assms(2) by (subst sift_down.simps) (simp only: Let_def assms(1) if_False)

lemma children: "par k' = j \<and> 0 < k' \<longleftrightarrow> k' = j * 2 + 1 \<or> k' = j * 2 + 2"
  unfolding par_def by linarith

lemma sift_down_spec:
  assumes "sinking key (l[j := x]) i j" "j < length l" "i \<le> length l"
  shows "heap_upto key (sift_down key l i j x) i \<and> mset (sift_down key l i j x) = mset (l[j := x])
    \<and> length (sift_down key l i j x) = length l \<and> (\<forall>k \<ge> i. k \<noteq> j \<longrightarrow> sift_down key l i j x ! k = l ! k)"
  using assms
proof (induction key l i j x rule: sift_down.induct)
  case (1 key l i j x)
  let ?k = "j * 2 + 1"
  define k where "k = (if ?k + 1 < i \<and> key (l ! ?k) < key (l ! (?k + 1)) then ?k + 1 else ?k)"
  have stop: "heap_upto key (l[j := x]) i"
    if "\<forall>k' < i. 0 < k' \<longrightarrow> par k' = j \<longrightarrow> key (l ! k') \<le> key x"
    unfolding heap_upto_def
  proof (intro allI impI)
    fix k' assume k': "k' < i" "0 < k'"
    then have "par k' < k'" by (simp add: parent_less)
    then show "key (l[j := x] ! k') \<le> key (l[j := x] ! (par k'))"
      using that k' 1(2-4) unfolding sinking_def by (cases "par k' = j") auto
  qed
  show ?case
  proof (cases "?k \<ge> i")
    case True
    then have e: "sift_down key l i j x = l[j := x]" by (subst sift_down.simps) (simp add: Let_def)
    have "\<not> (k' < i \<and> 0 < k' \<and> par k' = j)" for k' using True children [of k' j] by linarith
    then show ?thesis using stop unfolding e by auto
  next
    case False
    have k: "k < i" "par k = j" "0 < k" "j < k" using False by (auto simp: k_def par_def)
    have largest: "\<forall>k' < i. 0 < k' \<longrightarrow> par k' = j \<longrightarrow> key (l ! k') \<le> key (l ! k)"
    proof (intro allI impI)
      fix k' assume "k' < i" "0 < k'" "par k' = j"
      then have "k' = ?k \<or> k' = ?k + 1 \<and> ?k + 1 < i" using children [of k' j] by auto
      then show "key (l ! k') \<le> key (l ! k)" by (auto simp: k_def)
    qed
    show ?thesis
    proof (cases "key x < key (l ! k)")
      case True
      then have e: "sift_down key l i j x = sift_down key (l[j := l ! k]) i k x"
        using sift_down_step [OF False k_def] by simp
      have "sinking key (l[j := l ! k, k := x]) i k"
        using sinking_step [OF 1(2) k(1-3) 1(4) largest True] .
      then have "heap_upto key (sift_down key (l[j := l ! k]) i k x) i
          \<and> mset (sift_down key (l[j := l ! k]) i k x) = mset (l[j := l ! k, k := x])
          \<and> length (sift_down key (l[j := l ! k]) i k x) = length l
          \<and> (\<forall>k' \<ge> i. k' \<noteq> k \<longrightarrow> sift_down key (l[j := l ! k]) i k x ! k' = l[j := l ! k] ! k')"
        using 1(1) [OF refl False k_def True] k 1(3,4) by simp
      moreover have "mset (l[j := l ! k, k := x]) = mset (l[j := x])" using k 1(3,4) by (intro swap_hole) auto
      ultimately show ?thesis unfolding e using k by auto
    next
      case le: False
      then have e: "sift_down key l i j x = l[j := x]" using sift_down_step [OF False k_def] by simp
      have "\<forall>k' < i. 0 < k' \<longrightarrow> par k' = j \<longrightarrow> key (l ! k') \<le> key x" using largest le by fastforce
      then show ?thesis using stop unfolding e by auto
    qed
  qed
qed

lemma heap_max: "heap_upto key l m \<Longrightarrow> k < m \<Longrightarrow> key (l ! k) \<le> key (l ! 0)"
proof (induction k rule: less_induct)
  case (less k)
  show ?case
  proof (cases "k = 0")
    case False
    then have "key (l ! k) \<le> key (l ! par k)" using less.prems by (simp add: heap_upto_def)
    also have "\<dots> \<le> key (l ! 0)" using less False parent_less [of k] by simp
    finally show ?thesis .
  qed simp
qed

lemma mset_take_eq:
  assumes "mset l = mset l'" "\<forall>k \<ge> i. l ! k = l' ! k"
  shows "mset (take i l) = mset (take i l')"
proof -
  have len: "length l = length l'" using assms(1) by (rule mset_eq_length)
  have "drop i l = drop i l'" using len assms(2) by (intro nth_equalityI) auto
  moreover have "mset (take i l) + mset (drop i l) = mset (take i l') + mset (drop i l')"
    using assms(1) by (simp only: append_take_drop_id flip: mset_append)
  ultimately show ?thesis by simp
qed

lemma build_heap:
  assumes "i \<le> length p"
  shows "let l = foldl (\<lambda>l i. sift_up key l i (p ! i)) (replicate (length p) 0) [0..<i] in
    length l = length p \<and> heap_upto key l i \<and> mset (take i l) = mset (take i p)"
  using assms
proof (induction i)
  case 0
  then show ?case by (simp add: heap_upto_def)
next
  case (Suc i)
  define l where "l = foldl (\<lambda>l i. sift_up key l i (p ! i)) (replicate (length p) 0) [0..<i]"
  have l: "length l = length p" "heap_upto key l i" "mset (take i l) = mset (take i p)"
    using Suc unfolding l_def Let_def by simp_all
  have "rising key (l[i := p ! i]) (Suc i) i"
    unfolding rising_def
  proof (intro conjI allI impI)
    fix k assume "k < Suc i" "0 < k" "k \<noteq> i"
    then have "k < i" "par k < i" using parent_less [of k] by linarith+
    then show "key (l[i := p ! i] ! k) \<le> key (l[i := p ! i] ! par k)" using l(2) \<open>0 < k\<close> by (simp add: heap_upto_def)
  next
    fix k assume "k < Suc i" "0 < k" "par k = i"
    then show "key (l[i := p ! i] ! k) \<le> key (l[i := p ! i] ! par i)" using parent_less [of k] by simp
  qed
  from sift_up_spec [OF this] have r: "heap_upto key (sift_up key l i (p ! i)) (Suc i)"
    "mset (sift_up key l i (p ! i)) = mset (l[i := p ! i])" "length (sift_up key l i (p ! i)) = length l"
    "\<forall>k > i. sift_up key l i (p ! i) ! k = l ! k" using Suc.prems l(1) by simp_all
  have "mset (take (Suc i) (sift_up key l i (p ! i))) = mset (take (Suc i) (l[i := p ! i]))"
    using r(2,4) by (intro mset_take_eq) auto
  also have "take (Suc i) (l[i := p ! i]) = take i l @ [p ! i]" using Suc.prems l(1) by (simp add: take_Suc_conv_app_nth)
  also have "mset (take i l @ [p ! i]) = mset (take (Suc i) p)" using Suc.prems l(3) by (simp add: take_Suc_conv_app_nth)
  finally show ?case using r(1,3) l(1) by (simp add: l_def)
qed

lemma sort_heap:
  assumes "i \<le> length l" "heap_upto key l i"
    and "\<forall>a b. a \<le> b \<longrightarrow> i \<le> b \<longrightarrow> b < length l \<longrightarrow> key (l ! a) \<le> key (l ! b)"
  shows "let r = foldl (\<lambda>l i. let o' = l ! i; l = l[i := l ! 0] in sift_down key l i 0 o') l (rev [0..<i]) in
    mset r = mset l \<and> sorted (map key r)"
  using assms
proof (induction i arbitrary: l)
  case 0
  then show ?case by (auto simp: sorted_iff_nth_mono)
next
  case (Suc i)
  let ?f = "\<lambda>l i. let o' = l ! i; l = l[i := l ! 0] in sift_down key l i 0 o'"
  let ?l1 = "l[i := l ! 0]"
  define r where "r = sift_down key ?l1 i 0 (l ! i)"
  have len: "i < length l" "0 < length l" using Suc.prems(1) by linarith+
  have "sinking key (?l1[0 := l ! i]) i 0"
    unfolding sinking_def
  proof (intro conjI allI impI)
    fix k assume k: "k < i" "0 < k" "par k \<noteq> 0"
    then have "par k < i" using parent_less [of k] by linarith
    then show "key (?l1[0 := l ! i] ! k) \<le> key (?l1[0 := l ! i] ! par k)"
      using Suc.prems(2) k by (simp add: heap_upto_def)
  qed simp
  from sift_down_spec [OF this] have r: "heap_upto key r i" "mset r = mset (?l1[0 := l ! i])" "length r = length l"
    "\<forall>k \<ge> i. k \<noteq> 0 \<longrightarrow> r ! k = ?l1 ! k" using len unfolding r_def by simp_all
  have m: "mset r = mset l" using r(2) mset_swap [of 0 l i] len by simp
  have tail: "r ! k = (if k = i then l ! 0 else l ! k)" if "i \<le> k" for k
  proof (cases "k = 0")
    case True
    then have "i = 0" using that by simp
    then have "r = l[0 := l ! 0, 0 := l ! 0]" unfolding r_def by (subst sift_down.simps) simp
    then show ?thesis using True \<open>i = 0\<close> len by simp
  next
    case False
    then show ?thesis using r(4) that len by simp
  qed
  have "mset (take (Suc i) r) = mset (take (Suc i) l)" using m tail by (intro mset_take_eq) auto
  then have front: "set (take (Suc i) r) = set (take (Suc i) l)" by (rule mset_eq_setD)
  have low: "\<exists>a' \<le> i. r ! a = l ! a'" if "a \<le> i" for a
  proof -
    have "r ! a \<in> set (take (Suc i) r)" using that len r(3) by (auto simp: in_set_conv_nth intro!: exI [of _ a])
    then show ?thesis using front len by (auto simp: in_set_conv_nth less_Suc_eq_le)
  qed
  have "\<forall>a b. a \<le> b \<longrightarrow> i \<le> b \<longrightarrow> b < length r \<longrightarrow> key (r ! a) \<le> key (r ! b)"
  proof (intro allI impI)
    fix a b assume ab: "a \<le> b" "i \<le> b" "b < length r"
    show "key (r ! a) \<le> key (r ! b)"
    proof (cases "b = i")
      case True
      then obtain a' where "a' \<le> i" "r ! a = l ! a'" using low ab by blast
      then show ?thesis using heap_max [OF Suc.prems(2), of a'] tail [of i] True by simp
    next
      case False
      then have b: "i < b" "r ! b = l ! b" using ab tail by simp_all
      show ?thesis
      proof (cases "a \<le> i")
        case True
        then obtain a' where "a' \<le> i" "r ! a = l ! a'" using low by blast
        then show ?thesis using Suc.prems(3) b ab r(3) by simp
      next
        case False
        then show ?thesis using Suc.prems(3) b ab r(3) tail [of a] by simp
      qed
    qed
  qed
  then have "let r' = foldl ?f r (rev [0..<i]) in mset r' = mset r \<and> sorted (map key r')"
    using Suc.IH [of r] r(1,3) len by simp
  moreover have "foldl ?f l (rev [0..<Suc i]) = foldl ?f r (rev [0..<i])" by (simp add: r_def Let_def)
  ultimately show ?case using m by (simp only: Let_def)
qed

lemma lock_order_sorted: "mset (lock_order key p) = mset p \<and> sorted (map key (lock_order key p))"
proof -
  define l where "l = foldl (\<lambda>l i. sift_up key l i (p ! i)) (replicate (length p) 0) [0..<length p]"
  have "length l = length p \<and> heap_upto key l (length p) \<and> mset (take (length p) l) = mset (take (length p) p)"
    using build_heap [of "length p" p key, OF le_refl] unfolding l_def [symmetric] Let_def .
  then have len: "length l = length p" and heap: "heap_upto key l (length p)" and m: "mset (take (length p) l) = mset (take (length p) p)"
    by blast+
  have "take (length p) l = l" using len by simp
  then have "heap_upto key l (length l)" "mset l = mset p" using len heap m by simp_all
  note l = len this
  show ?thesis using l sort_heap [of "length l" l key] unfolding lock_order_def l_def Let_def by simp
qed

section \<open>Property\<close>

text \<open>C32: a select polls and locks every case exactly once, whatever the random numbers: the poll order is a
  permutation of the cases, and the heap sort turns it into one whose channel addresses ascend, so that
  all selects acquire the locks of their channels in the same order.  The code keeps the indices in 16 bits;
  it takes at most \<open>1 << 16\<close> cases, so that an index is not changed by that.\<close>
theorem select_orders:
  "mset (poll_order rnd n) = mset [0..<n] \<and> mset (lock_order key (poll_order rnd n)) = mset [0..<n]
   \<and> sorted (map key (lock_order key (poll_order rnd n)))"
  using poll_order_perm lock_order_sorted by metis

end
