(* ===== verification/RuntimeChan.thy ===== *)
theory RuntimeChan
  imports RuntimeWaitq SelectOrder
begin

text \<open>
  Channels and select (\<open>runtime/chan.go\<close>, \<open>runtime/select.go\<close>).  The state holds all channels and all
  goroutines; a channel is known by a number that also stands for its address, and the queues of
  waiting goroutines are the lists that theory \<open>RuntimeWaitq\<close> refines to linked lists.  Everything that
  the code does under the lock of a channel (or, in a select, under all locks) is one function; a
  goroutine that parks stops there, is made ready by another one, and goes on with a second function.
\<close>

section \<open>State\<close>

text \<open>
  A \<open>sudog\<close>: the waiting goroutine, whether it waits in a select and for which of its cases, and the
  value it sends (\<open>elem\<close>; a receiver's \<open>elem\<close> is the address for the value, kept in the goroutine's state).
\<close>

record 'v sudog =
  sg_g :: nat
  isSelect :: bool
  sg_case :: nat
  sg_elem :: 'v

record 'v hchan =
  qcount :: nat
  dataqsiz :: nat
  chan_buf :: "'v list"
  chan_closed :: bool
  sendx :: nat
  recvx :: nat
  recvq :: "'v sudog list"
  sendq :: "'v sudog list"

datatype scase_kind = caseNil | caseRecv | caseSend | caseDefault

record 'v scase =
  sc_c :: "nat option"
  sc_elem :: 'v
  sc_kind :: scase_kind

text \<open>The operation a goroutine is in the middle of; \<open>OpForever\<close> is one on a nil channel, \<open>OpBlock\<close> an empty select.\<close>

datatype 'v chan_op =
    OpSend nat 'v
  | OpRecv nat
  | OpSelect "'v scase list" "nat list" "nat list"
  | OpForever
  | OpBlock

text \<open>How an operation ended.\<close>

datatype 'v outcome =
    Started
  | SendResult bool
  | RecvResult bool bool 'v
  | SelectResult nat bool 'v
  | CloseResult
  | Panicked string
  | Thrown string

text \<open>
  A goroutine runs, is parked, or has been made ready by another one, with \<open>gp.param\<close> (the case of the
  sudog that woke it; none when the channel was closed) and the value written to its \<open>elem\<close>.
\<close>

datatype 'v gstate =
    Run "'v outcome"
  | Parked "'v chan_op"
  | Ready "'v chan_op" "nat option" 'v

text \<open>
  \<open>waiting\<close> is \<open>gp.waiting\<close>: the sudogs a goroutine waits with, linked in lock order.  A sudog that is in use is
  known by its goroutine and its case, so records stand for pointers where the code compares these; the pool
  that sudogs come from and go back to is left out.
\<close>

record 'v world =
  chans :: "nat \<Rightarrow> 'v hchan"
  gs :: "nat \<Rightarrow> 'v gstate"
  selectDone :: "nat \<Rightarrow> bool"
  waiting :: "nat \<Rightarrow> 'v sudog list"

text \<open>
  The log of a step.  \<open>Put c g v\<close>: a value of goroutine \<open>g\<close> entered channel \<open>c\<close>; \<open>Got c g v\<close>: a value left it for
  \<open>g\<close>; \<open>Ended g op' o'\<close>: \<open>g\<close> came back from an operation, with what the operation returned.
\<close>

datatype 'v chan_event = Put nat nat 'v | Got nat nat 'v | Ended nat "'v chan_op" "'v outcome"

section \<open>Making a channel\<close>

definition maxAlign :: nat where "maxAlign = 8"

definition MulUintptr :: "u64 \<Rightarrow> u64 \<Rightarrow> u64 \<times> bool" where
  "MulUintptr a b =
     (if (a OR b) < push_bit 32 1 \<or> a = 0 then (a * b, False)
      else (a * b, b > (-1) div a))"

definition empty_chan :: "nat \<Rightarrow> ('v::zero) hchan" where
  "empty_chan size' = \<lparr>qcount = 0, dataqsiz = size', chan_buf = replicate size' 0, chan_closed = False,
     sendx = 0, recvx = 0, recvq = [], sendq = []\<rparr>"

text \<open>
  \<open>makechan\<close>: the size of the element, its alignment, the requested size; \<open>hchanSize\<close> and \<open>maxAlloc\<close>
  depend on the architecture.
\<close>

definition makechan :: "u64 \<Rightarrow> u64 \<Rightarrow> u64 \<Rightarrow> u64 \<Rightarrow> u64 \<Rightarrow> ('v::zero) hchan go" where
  "makechan hchanSize maxAlloc elemsize align size' =
     (if elemsize \<ge> push_bit 16 1 then Inl (PanicValue ''throw: makechan: invalid channel element type'')
      else if hchanSize mod of_nat maxAlign \<noteq> 0 \<or> align > of_nat maxAlign
      then Inl (PanicValue ''throw: makechan: bad alignment'')
      else let (mem, overflow) = MulUintptr elemsize size' in
      if overflow \<or> mem > maxAlloc - hchanSize \<or> size' <s 0
      then Inl (PanicValue ''makechan: size out of range'')
      else Inr (empty_chan (unat size')))"

text \<open>\<open>makechan64\<close>, for a size given as an \<open>int64\<close>; \<open>int_size\<close> is the width of \<open>int\<close> (32 or 64).\<close>

definition makechan64 :: "nat \<Rightarrow> u64 \<Rightarrow> u64 \<Rightarrow> u64 \<Rightarrow> u64 \<Rightarrow> u64 \<Rightarrow> ('v::zero) hchan go" where
  "makechan64 int_size hchanSize maxAlloc elemsize align size' =
     (if signed_take_bit (int_size - 1) (sint size') \<noteq> sint size' then Inl (PanicValue ''makechan: size out of range'')
      else makechan hchanSize maxAlloc elemsize align size')"

text \<open>\<open>len(c)\<close> and \<open>cap(c)\<close>.\<close>

definition reflect_chanlen :: "nat option \<Rightarrow> (nat \<Rightarrow> 'v hchan) \<Rightarrow> int" where
  "reflect_chanlen c heap = (case c of None \<Rightarrow> 0 | Some c \<Rightarrow> int (qcount (heap c)))"

definition reflect_chancap :: "nat option \<Rightarrow> (nat \<Rightarrow> 'v hchan) \<Rightarrow> int" where
  "reflect_chancap c heap = (case c of None \<Rightarrow> 0 | Some c \<Rightarrow> int (dataqsiz (heap c)))"

section \<open>Pieces of the operations\<close>

abbreviation upd_chan :: "nat \<Rightarrow> ('v hchan \<Rightarrow> 'v hchan) \<Rightarrow> 'v world \<Rightarrow> 'v world" where
  "upd_chan c f w \<equiv> w\<lparr>chans := (chans w)(c := f (chans w c))\<rparr>"

abbreviation set_waiting :: "nat \<Rightarrow> 'v sudog list \<Rightarrow> 'v world \<Rightarrow> 'v world" where
  "set_waiting g sgs w \<equiv> w\<lparr>waiting := (waiting w)(g := sgs)\<rparr>"

abbreviation set_g :: "nat \<Rightarrow> 'v gstate \<Rightarrow> 'v world \<Rightarrow> 'v world" where
  "set_g g s w \<equiv> w\<lparr>gs := (gs w)(g := s)\<rparr>"

text \<open>\<open>c.recvq.dequeue()\<close> and \<open>c.sendq.dequeue()\<close>.\<close>

definition dequeue_recv :: "nat \<Rightarrow> 'v world \<Rightarrow> 'v sudog option \<times> 'v world" where
  "dequeue_recv c w =
     (case dequeue_list sg_g isSelect (recvq (chans w c)) (selectDone w) of
        (sg, q, done') \<Rightarrow> (sg, (upd_chan c (\<lambda>h. h\<lparr>recvq := q\<rparr>) w)\<lparr>selectDone := done'\<rparr>))"

definition dequeue_send :: "nat \<Rightarrow> 'v world \<Rightarrow> 'v sudog option \<times> 'v world" where
  "dequeue_send c w =
     (case dequeue_list sg_g isSelect (sendq (chans w c)) (selectDone w) of
        (sg, q, done') \<Rightarrow> (sg, (upd_chan c (\<lambda>h. h\<lparr>sendq := q\<rparr>) w)\<lparr>selectDone := done'\<rparr>))"

text \<open>\<open>gp.param = \<dots>; goready(gp)\<close>; making a goroutine ready that is not parked is a fatal error.\<close>

definition goready :: "nat \<Rightarrow> nat option \<Rightarrow> 'v \<Rightarrow> 'v world \<Rightarrow> 'v world" where
  "goready g param got w =
     (case gs w g of
        Parked op' \<Rightarrow> set_g g (Ready op' param got) w
      | _ \<Rightarrow> set_g g (Run (Thrown ''bad g->status in ready'')) w)"

definition next_slot :: "'v hchan \<Rightarrow> nat \<Rightarrow> nat" where
  "next_slot h x = (let x = x + 1 in if x = dataqsiz h then 0 else x)"

text \<open>Storing a value into the ring buffer and taking one out; the slot is cleared.\<close>

definition buf_send :: "'v \<Rightarrow> 'v hchan \<Rightarrow> 'v hchan" where
  "buf_send v h = h\<lparr>chan_buf := (chan_buf h)[sendx h := v], sendx := next_slot h (sendx h), qcount := qcount h + 1\<rparr>"

definition buf_recv :: "('v::zero) hchan \<Rightarrow> 'v \<times> 'v hchan" where
  "buf_recv h = (chan_buf h ! recvx h,
     h\<lparr>chan_buf := (chan_buf h)[recvx h := 0], recvx := next_slot h (recvx h), qcount := qcount h - 1\<rparr>)"

text \<open>\<open>send(c, sg, ep)\<close>: the value goes straight to the waiting receiver; \<open>g\<close> is the sender, for the log.\<close>

definition chan_send_to :: "nat \<Rightarrow> nat \<Rightarrow> 'v sudog \<Rightarrow> 'v \<Rightarrow> 'v world \<Rightarrow> 'v world \<times> 'v chan_event list" where
  "chan_send_to c g sg v w = (goready (sg_g sg) (Some (sg_case sg)) v w, [Put c g v, Got c (sg_g sg) v])"

text \<open>
  \<open>recv(c, sg, ep)\<close>: without a buffer the value comes from the sender; otherwise the buffer is full, the
  receiver \<open>g\<close> takes the head and the sender's value goes into the same slot, the new tail.
\<close>

definition chan_recv_from :: "nat \<Rightarrow> nat \<Rightarrow> 'v sudog \<Rightarrow> 'v world \<Rightarrow> 'v \<times> 'v world \<times> 'v chan_event list" where
  "chan_recv_from c g sg w =
     (let h = chans w c in
      if dataqsiz h = 0 then
        (sg_elem sg, goready (sg_g sg) (Some (sg_case sg)) (sg_elem sg) w,
         [Put c (sg_g sg) (sg_elem sg), Got c g (sg_elem sg)])
      else let v = chan_buf h ! recvx h; h = h\<lparr>chan_buf := (chan_buf h)[recvx h := sg_elem sg]\<rparr>;
               h = h\<lparr>recvx := next_slot h (recvx h)\<rparr>; h = h\<lparr>sendx := recvx h\<rparr> in
        (v, goready (sg_g sg) (Some (sg_case sg)) (sg_elem sg) (upd_chan c (\<lambda>_. h) w),
         [Got c g v, Put c (sg_g sg) (sg_elem sg)]))"

section \<open>Sending and receiving\<close>

text \<open>The test without the lock at the start of a non-blocking send.\<close>

definition send_would_block :: "'v hchan \<Rightarrow> bool" where
  "send_would_block h \<longleftrightarrow> \<not> chan_closed h \<and>
     (dataqsiz h = 0 \<and> recvq h = [] \<or> dataqsiz h > 0 \<and> qcount h = dataqsiz h)"

text \<open>The part of \<open>chansend\<close> under the lock of the channel.\<close>

definition chansend_locked :: "nat \<Rightarrow> nat \<Rightarrow> 'v \<Rightarrow> bool \<Rightarrow> 'v world \<Rightarrow> 'v world \<times> 'v chan_event list" where
  "chansend_locked g c v block w =
     (if chan_closed (chans w c) then (set_g g (Run (Panicked ''send on closed channel'')) w, [])
      else (case dequeue_recv c w of
        (Some sg, w) \<Rightarrow>
          (case chan_send_to c g sg v w of (w, es) \<Rightarrow> (set_g g (Run (SendResult True)) w, es))
      | (None, w) \<Rightarrow>
          if qcount (chans w c) < dataqsiz (chans w c)
          then (set_g g (Run (SendResult True)) (upd_chan c (buf_send v) w), [Put c g v])
          else if \<not> block then (set_g g (Run (SendResult False)) w, [])
          else
            let mysg = \<lparr>sg_g = g, isSelect = False, sg_case = 0, sg_elem = v\<rparr> in
            (set_g g (Parked (OpSend c v)) (upd_chan c (\<lambda>h. h\<lparr>sendq := sendq h @ [mysg]\<rparr>) (set_waiting g [mysg] w)), [])))"

definition chansend :: "nat \<Rightarrow> nat option \<Rightarrow> 'v \<Rightarrow> bool \<Rightarrow> 'v world \<Rightarrow> 'v world \<times> 'v chan_event list" where
  "chansend g ch v block w =
     (case ch of
        None \<Rightarrow> (set_g g (if block then Parked OpForever else Run (SendResult False)) w, [])
      | Some c \<Rightarrow>
          if \<not> block \<and> send_would_block (chans w c) then (set_g g (Run (SendResult False)) w, [])
          else chansend_locked g c v block w)"

definition recv_would_block :: "'v hchan \<Rightarrow> bool" where
  "recv_would_block h \<longleftrightarrow> (dataqsiz h = 0 \<and> sendq h = [] \<or> dataqsiz h > 0 \<and> qcount h = 0) \<and> \<not> chan_closed h"

text \<open>The part of \<open>chanrecv\<close> under the lock of the channel.\<close>

definition chanrecv_locked :: "nat \<Rightarrow> nat \<Rightarrow> bool \<Rightarrow> ('v::zero) world \<Rightarrow> 'v world \<times> 'v chan_event list" where
  "chanrecv_locked g c block w =
     (if chan_closed (chans w c) \<and> qcount (chans w c) = 0
      then (set_g g (Run (RecvResult True False 0)) w, [])
      else (case dequeue_send c w of
        (Some sg, w) \<Rightarrow>
          (case chan_recv_from c g sg w of (v, w, es) \<Rightarrow> (set_g g (Run (RecvResult True True v)) w, es))
      | (None, w) \<Rightarrow>
          if qcount (chans w c) > 0 then
            let (v, h) = buf_recv (chans w c) in
            (set_g g (Run (RecvResult True True v)) (upd_chan c (\<lambda>_. h) w), [Got c g v])
          else if \<not> block then (set_g g (Run (RecvResult False False 0)) w, [])
          else
            let mysg = \<lparr>sg_g = g, isSelect = False, sg_case = 0, sg_elem = 0\<rparr> in
            (set_g g (Parked (OpRecv c)) (upd_chan c (\<lambda>h. h\<lparr>recvq := recvq h @ [mysg]\<rparr>) (set_waiting g [mysg] w)), [])))"

definition chanrecv :: "nat \<Rightarrow> nat option \<Rightarrow> bool \<Rightarrow> ('v::zero) world \<Rightarrow> 'v world \<times> 'v chan_event list" where
  "chanrecv g ch block w =
     (case ch of
        None \<Rightarrow> (set_g g (if block then Parked OpForever else Run (RecvResult False False 0)) w, [])
      | Some c \<Rightarrow>
          if \<not> block \<and> recv_would_block (chans w c) then (set_g g (Run (RecvResult False False 0)) w, [])
          else chanrecv_locked g c block w)"

section \<open>Closing\<close>

text \<open>Taking all goroutines off a queue; each is readied with a nil \<open>param\<close> and a cleared element.\<close>

fun release_all :: "'v sudog list \<Rightarrow> ('v::zero) world \<Rightarrow> 'v world" where
  "release_all [] w = w"
| "release_all (sg # q) w =
     (if isSelect sg \<and> selectDone w (sg_g sg) then release_all q w
      else release_all q (goready (sg_g sg) None 0
             (if isSelect sg then w\<lparr>selectDone := (selectDone w)(sg_g sg := True)\<rparr> else w)))"

definition closechan :: "nat \<Rightarrow> nat option \<Rightarrow> ('v::zero) world \<Rightarrow> 'v world" where
  "closechan g ch w =
     (case ch of
        None \<Rightarrow> set_g g (Run (Panicked ''close of nil channel'')) w
      | Some c \<Rightarrow>
          let h = chans w c in
          if chan_closed h then set_g g (Run (Panicked ''close of closed channel'')) w
          else set_g g (Run CloseResult)
            (release_all (sendq h) (release_all (recvq h)
              (upd_chan c (\<lambda>h. h\<lparr>chan_closed := True, recvq := [], sendq := []\<rparr>) w))))"

section \<open>Going on after being parked\<close>

text \<open>\<open>mysg != gp.waiting\<close>\<close>

definition waits_with :: "nat \<Rightarrow> 'v sudog \<Rightarrow> 'v world \<Rightarrow> bool" where
  "waits_with g mysg w \<longleftrightarrow> (case waiting w g of [] \<Rightarrow> False | sg # _ \<Rightarrow> sg = mysg)"

definition resume_send :: "nat \<Rightarrow> nat \<Rightarrow> 'v \<Rightarrow> nat option \<Rightarrow> 'v world \<Rightarrow> 'v world" where
  "resume_send g c v param w =
     (if \<not> waits_with g \<lparr>sg_g = g, isSelect = False, sg_case = 0, sg_elem = v\<rparr> w
      then set_g g (Run (Thrown ''G waiting list is corrupted'')) w
      else let w = set_waiting g [] w in
        case param of
          Some _ \<Rightarrow> set_g g (Run (SendResult True)) w
        | None \<Rightarrow>
            if \<not> chan_closed (chans w c) then set_g g (Run (Thrown ''chansend: spurious wakeup'')) w
            else set_g g (Run (Panicked ''send on closed channel'')) w)"

definition resume_recv :: "nat \<Rightarrow> nat option \<Rightarrow> ('v::zero) \<Rightarrow> 'v world \<Rightarrow> 'v world" where
  "resume_recv g param got w =
     (if \<not> waits_with g \<lparr>sg_g = g, isSelect = False, sg_case = 0, sg_elem = 0\<rparr> w
      then set_g g (Run (Thrown ''G waiting list is corrupted'')) w
      else set_g g (Run (RecvResult True (param \<noteq> None) got)) (set_waiting g [] w))"

text \<open>Nobody readies a goroutine that waits on a nil channel.\<close>

definition resume_forever :: "nat \<Rightarrow> 'v world \<Rightarrow> 'v world" where
  "resume_forever g w = set_g g (Run (Thrown ''unreachable'')) w"

section \<open>Select\<close>

text \<open>Cases on nil channels are replaced by \<open>scase{}\<close>, whose kind is \<open>caseNil\<close>.\<close>

definition clear_nil :: "('v::zero) scase \<Rightarrow> 'v scase" where
  "clear_nil cas =
     (if sc_c cas = None \<and> sc_kind cas \<noteq> caseDefault then \<lparr>sc_c = None, sc_elem = 0, sc_kind = caseNil\<rparr> else cas)"

text \<open>
  Pass 1 of \<open>selectgo\<close>: look for something already waiting, in poll order.  The result is the finished
  world and its log, or (nothing is ready) the world, whose queues have lost stale goroutines, and the
  default case if there is one.
\<close>

fun select_poll ::
  "nat \<Rightarrow> ('v::zero) scase list \<Rightarrow> nat list \<Rightarrow> nat option \<Rightarrow> 'v world
    \<Rightarrow> ('v world \<times> 'v chan_event list) + ('v world \<times> nat option)" where
  "select_poll g scases [] dfl w = Inr (w, dfl)"
| "select_poll g scases (casi # pollorder) dfl w =
     (let cas = scases ! casi in
      case (sc_kind cas, sc_c cas) of
        (caseRecv, Some c) \<Rightarrow>
          (case dequeue_send c w of
             (Some sg, w) \<Rightarrow>
               (case chan_recv_from c g sg w of (v, w, es) \<Rightarrow> Inl (set_g g (Run (SelectResult casi True v)) w, es))
           | (None, w) \<Rightarrow>
               if qcount (chans w c) > 0 then
                 let (v, h) = buf_recv (chans w c) in
                 Inl (set_g g (Run (SelectResult casi True v)) (upd_chan c (\<lambda>_. h) w), [Got c g v])
               else if chan_closed (chans w c) then Inl (set_g g (Run (SelectResult casi False 0)) w, [])
               else select_poll g scases pollorder dfl w)
      | (caseSend, Some c) \<Rightarrow>
          if chan_closed (chans w c) then Inl (set_g g (Run (Panicked ''send on closed channel'')) w, [])
          else (case dequeue_recv c w of
             (Some sg, w) \<Rightarrow>
               (case chan_send_to c g sg (sc_elem cas) w of
                  (w, es) \<Rightarrow> Inl (set_g g (Run (SelectResult casi False 0)) w, es))
           | (None, w) \<Rightarrow>
               if qcount (chans w c) < dataqsiz (chans w c)
               then Inl (set_g g (Run (SelectResult casi False 0)) (upd_chan c (buf_send (sc_elem cas)) w),
                         [Put c g (sc_elem cas)])
               else select_poll g scases pollorder dfl w)
      | (caseDefault, _) \<Rightarrow> select_poll g scases pollorder (Some casi) w
      | _ \<Rightarrow> select_poll g scases pollorder dfl w)"

text \<open>Pass 2: enqueue on all channels, in lock order, and link the sudogs.\<close>

fun select_enqueue :: "nat \<Rightarrow> 'v scase list \<Rightarrow> nat list \<Rightarrow> 'v world \<Rightarrow> 'v world" where
  "select_enqueue g scases [] w = w"
| "select_enqueue g scases (casi # lockorder) w =
     (let cas = scases ! casi; sg = \<lparr>sg_g = g, isSelect = True, sg_case = casi, sg_elem = sc_elem cas\<rparr> in
      select_enqueue g scases lockorder
        (if sc_kind cas = caseNil then w
         else let w = set_waiting g (waiting w g @ [sg]) w in
           case (sc_kind cas, sc_c cas) of
             (caseRecv, Some c) \<Rightarrow> upd_chan c (\<lambda>h. h\<lparr>recvq := recvq h @ [sg]\<rparr>) w
           | (caseSend, Some c) \<Rightarrow> upd_chan c (\<lambda>h. h\<lparr>sendq := sendq h @ [sg]\<rparr>) w
           | _ \<Rightarrow> w))"

text \<open>The code from the label \<open>loop\<close> to the point where the goroutine parks.\<close>

definition select_loop ::
  "nat \<Rightarrow> ('v::zero) scase list \<Rightarrow> nat list \<Rightarrow> nat list \<Rightarrow> 'v world \<Rightarrow> 'v world \<times> 'v chan_event list" where
  "select_loop g scases pollorder lockorder w =
     (case select_poll g scases pollorder None w of
        Inl (w, es) \<Rightarrow> (w, es)
      | Inr (w, Some dfl) \<Rightarrow> (set_g g (Run (SelectResult dfl False 0)) w, [])
      | Inr (w, None) \<Rightarrow>
          if waiting w g \<noteq> [] then (set_g g (Run (Thrown ''gp.waiting != nil'')) w, [])
          else (set_g g (Parked (OpSelect scases pollorder lockorder)) (select_enqueue g scases lockorder w), []))"

text \<open>
  Pass 3: dequeue from the channels that did not fire, walking along the linked sudogs (\<open>sglist\<close>); \<open>cas\<close> is the case that
  fired, if it has been found.  A list that is too short would be a nil pointer: \<open>None\<close>.
\<close>

fun select_dequeue ::
  "'v scase list \<Rightarrow> nat option \<Rightarrow> nat list \<Rightarrow> 'v sudog list \<Rightarrow> nat option \<Rightarrow> 'v world \<Rightarrow> ('v world \<times> nat option) option" where
  "select_dequeue scases param [] sglist cas w = Some (w, cas)"
| "select_dequeue scases param (casi # lockorder) sglist cas w =
     (let k = scases ! casi in
      if sc_kind k = caseNil then select_dequeue scases param lockorder sglist cas w
      else case sglist of
        [] \<Rightarrow> None
      | sg # sgnext \<Rightarrow>
          if param = Some (sg_case sg) then select_dequeue scases param lockorder sgnext (Some casi) w
          else select_dequeue scases param lockorder sgnext cas
            (case (sc_kind k, sc_c k) of
               (caseSend, Some c) \<Rightarrow> upd_chan c (\<lambda>h. h\<lparr>sendq := remove1 sg (sendq h)\<rparr>) w
             | (caseRecv, Some c) \<Rightarrow> upd_chan c (\<lambda>h. h\<lparr>recvq := remove1 sg (recvq h)\<rparr>) w
             | _ \<Rightarrow> w))"

text \<open>
  Without a case the goroutine was woken by the closing of a channel: it runs again from the label \<open>loop\<close>.
\<close>

definition resume_select ::
  "nat \<Rightarrow> ('v::zero) scase list \<Rightarrow> nat list \<Rightarrow> nat list \<Rightarrow> nat option \<Rightarrow> 'v \<Rightarrow> 'v world
    \<Rightarrow> 'v world \<times> 'v chan_event list" where
  "resume_select g scases pollorder lockorder param got w =
     (let w = w\<lparr>selectDone := (selectDone w)(g := False)\<rparr>; sglist = waiting w g; w = set_waiting g [] w in
      case select_dequeue scases param lockorder sglist None w of
        None \<Rightarrow> (set_g g (Run (Thrown ''invalid memory address or nil pointer dereference'')) w, [])
      | Some (w, Some casi) \<Rightarrow>
          (set_g g (Run (SelectResult casi (sc_kind (scases ! casi) = caseRecv)
             (if sc_kind (scases ! casi) = caseRecv then got else 0))) w, [])
      | Some (w, None) \<Rightarrow> select_loop g scases pollorder lockorder (set_g g (Run Started) w))"

text \<open>The address of a channel, by which a select orders its locks; 0 for nil.\<close>

definition sortkey :: "nat option \<Rightarrow> nat" where
  "sortkey c = (case c of None \<Rightarrow> 0 | Some a \<Rightarrow> a + 1)"

text \<open>The cases are a slice of an array of \<open>1 << 16\<close>, so an index fits into 16 bits.\<close>

definition selectgo ::
  "nat \<Rightarrow> (nat \<Rightarrow> u32) \<Rightarrow> ('v::zero) scase list \<Rightarrow> 'v world \<Rightarrow> 'v world \<times> 'v chan_event list" where
  "selectgo g rnd scases w =
     (if length scases > 2 ^ 16 then (set_g g (Run (Panicked ''slice bounds out of range'')) w, [])
      else let scases = map clear_nil scases;
          pollorder = poll_order rnd (length scases);
          lockorder = lock_order (\<lambda>i. sortkey (sc_c (scases ! i))) pollorder
      in select_loop g scases pollorder lockorder w)"

text \<open>\<open>block()\<close>, the statement \<open>select {}\<close>; it has no code after \<open>gopark\<close>.\<close>

definition block_forever :: "nat \<Rightarrow> 'v world \<Rightarrow> 'v world" where
  "block_forever g w = set_g g (Parked OpBlock) w"

text \<open>A select through package reflect; a direction other than the three gives the zero case.\<close>

datatype selectDir = selectSend | selectRecv | selectDefault | selectOther

record 'v runtimeSelect =
  rs_dir :: selectDir
  rs_ch :: "nat option"
  rs_val :: 'v

definition reflect_case :: "('v::zero) runtimeSelect \<Rightarrow> 'v scase" where
  "reflect_case rc = (case rs_dir rc of
     selectDefault \<Rightarrow> \<lparr>sc_c = None, sc_elem = 0, sc_kind = caseDefault\<rparr>
   | selectSend \<Rightarrow> \<lparr>sc_c = rs_ch rc, sc_elem = rs_val rc, sc_kind = caseSend\<rparr>
   | selectRecv \<Rightarrow> \<lparr>sc_c = rs_ch rc, sc_elem = rs_val rc, sc_kind = caseRecv\<rparr>
   | selectOther \<Rightarrow> \<lparr>sc_c = None, sc_elem = 0, sc_kind = caseNil\<rparr>)"

definition reflect_rselect ::
  "nat \<Rightarrow> (nat \<Rightarrow> u32) \<Rightarrow> ('v::zero) runtimeSelect list \<Rightarrow> 'v world \<Rightarrow> 'v world \<times> 'v chan_event list" where
  "reflect_rselect g rnd cases w =
     (if cases = [] then (block_forever g w, []) else selectgo g rnd (map reflect_case cases) w)"

section \<open>Runs\<close>

text \<open>
  One step of goroutine \<open>g\<close>: it starts an operation, or goes on after it has been made ready.  The log of
  the step says which values went through which channel and, when the step ends the operation, what it returned.
\<close>

definition ended :: "nat \<Rightarrow> 'v chan_op \<Rightarrow> 'v world \<Rightarrow> 'v chan_event list" where
  "ended g op' w = (case gs w g of Run o' \<Rightarrow> [Ended g op' o'] | _ \<Rightarrow> [])"

abbreviation send_op :: "nat option \<Rightarrow> 'v \<Rightarrow> 'v chan_op" where
  "send_op ch v \<equiv> (case ch of None \<Rightarrow> OpForever | Some c \<Rightarrow> OpSend c v)"

abbreviation recv_op :: "nat option \<Rightarrow> 'v chan_op" where
  "recv_op ch \<equiv> (case ch of None \<Rightarrow> OpForever | Some c \<Rightarrow> OpRecv c)"

abbreviation select_op :: "('v::zero) scase list \<Rightarrow> 'v chan_op" where
  "select_op scases \<equiv> OpSelect (map clear_nil scases) [] []"

inductive chan_step :: "nat \<Rightarrow> ('v::zero) world \<Rightarrow> 'v chan_event list \<Rightarrow> 'v world \<Rightarrow> bool" for g where
  send: "gs w g = Run o' \<Longrightarrow> chansend g ch v block w = (w', es) \<Longrightarrow> chan_step g w (es @ ended g (send_op ch v) w') w'"
| recv: "gs w g = Run o' \<Longrightarrow> chanrecv g ch block w = (w', es) \<Longrightarrow> chan_step g w (es @ ended g (recv_op ch) w') w'"
| close: "gs w g = Run o' \<Longrightarrow> chan_step g w [] (closechan g ch w)"
| select: "gs w g = Run o' \<Longrightarrow> selectgo g rnd scases w = (w', es) \<Longrightarrow> chan_step g w (es @ ended g (select_op scases) w') w'"
| block: "gs w g = Run o' \<Longrightarrow> chan_step g w [] (block_forever g w)"
| rselect: "gs w g = Run o' \<Longrightarrow> reflect_rselect g rnd cases w = (w', es) \<Longrightarrow>
    chan_step g w (es @ ended g (select_op (map reflect_case cases)) w') w'"
| resume_send: "gs w g = Ready (OpSend c v) param got \<Longrightarrow> w' = resume_send g c v param w \<Longrightarrow>
    chan_step g w (ended g (OpSend c v) w') w'"
| resume_recv: "gs w g = Ready (OpRecv c) param got \<Longrightarrow> w' = resume_recv g param got w \<Longrightarrow>
    chan_step g w (ended g (OpRecv c) w') w'"
| resume_select: "gs w g = Ready (OpSelect scases pollorder lockorder) param got \<Longrightarrow>
    resume_select g scases pollorder lockorder param got w = (w', es) \<Longrightarrow>
    chan_step g w (es @ ended g (OpSelect scases pollorder lockorder) w') w'"
| resume_forever: "gs w g = Ready OpForever param got \<Longrightarrow> chan_step g w [] (resume_forever g w)"

text \<open>Runs from a world with open, empty channels of the given sizes, with the log of the run.\<close>

definition new_world :: "(nat \<Rightarrow> nat) \<Rightarrow> ('v::zero) world" where
  "new_world sizes = \<lparr>chans = (\<lambda>c. empty_chan (sizes c)), gs = (\<lambda>_. Run Started), selectDone = (\<lambda>_. False),
     waiting = (\<lambda>_. [])\<rparr>"

inductive chan_run :: "(nat \<Rightarrow> nat) \<Rightarrow> ('v::zero) chan_event list \<Rightarrow> 'v world \<Rightarrow> bool" for sizes where
  start: "chan_run sizes [] (new_world sizes)"
| step: "chan_run sizes es w \<Longrightarrow> chan_step g w es' w' \<Longrightarrow> chan_run sizes (es @ es') w'"

end
