(* ===== verification/ChanInv.thy ===== *)
theory ChanInv
  imports RuntimeChan
begin

text \<open>
  The invariant of channels: what the comment at the top of \<open>runtime/chan.go\<close> promises of the queues and
  the ring buffer, and how the queues agree with the states of the goroutines.
\<close>

section \<open>Queues and goroutines\<close>

definition queues :: "'v world \<Rightarrow> nat \<Rightarrow> bool \<Rightarrow> 'v sudog list" where
  "queues w c d = (if d then sendq (chans w c) else recvq (chans w c))"

definition is_select :: "'v chan_op \<Rightarrow> bool" where
  "is_select op' = (case op' of OpSelect _ _ _ \<Rightarrow> True | _ \<Rightarrow> False)"

text \<open>The sudogs that a goroutine in an operation has in the queue of channel \<open>c\<close> (\<open>d\<close>: the one of senders).\<close>

fun wants :: "('v::zero) chan_op \<Rightarrow> nat \<Rightarrow> nat \<Rightarrow> bool \<Rightarrow> 'v sudog \<Rightarrow> bool" where
  "wants (OpSend c' v) g c d sg \<longleftrightarrow> c = c' \<and> d \<and> sg = \<lparr>sg_g = g, isSelect = False, sg_case = 0, sg_elem = v\<rparr>"
| "wants (OpRecv c') g c d sg \<longleftrightarrow> c = c' \<and> \<not> d \<and> sg = \<lparr>sg_g = g, isSelect = False, sg_case = 0, sg_elem = 0\<rparr>"
| "wants (OpSelect cases po lo) g c d sg \<longleftrightarrow>
     sg_case sg < length cases \<and> sc_c (cases ! sg_case sg) = Some c
     \<and> sc_kind (cases ! sg_case sg) = (if d then caseSend else caseRecv)
     \<and> sg_g sg = g \<and> isSelect sg \<and> sg_elem sg = sc_elem (cases ! sg_case sg)"
| "wants _ g c d sg \<longleftrightarrow> False"

text \<open>The sudogs a goroutine in an operation is linked to, in lock order.\<close>

abbreviation case_entry :: "nat \<Rightarrow> 'v scase list \<Rightarrow> nat \<Rightarrow> 'v sudog" where
  "case_entry g scases i \<equiv> \<lparr>sg_g = g, isSelect = True, sg_case = i, sg_elem = sc_elem (scases ! i)\<rparr>"

fun wait_list :: "nat \<Rightarrow> ('v::zero) chan_op \<Rightarrow> 'v sudog list" where
  "wait_list g (OpSend c v) = [\<lparr>sg_g = g, isSelect = False, sg_case = 0, sg_elem = v\<rparr>]"
| "wait_list g (OpRecv c) = [\<lparr>sg_g = g, isSelect = False, sg_case = 0, sg_elem = 0\<rparr>]"
| "wait_list g (OpSelect cases po lo) = map (case_entry g cases) (filter (\<lambda>i. sc_kind (cases ! i) \<noteq> caseNil) lo)"
| "wait_list g _ = []"

definition state_waits :: "nat \<Rightarrow> ('v::zero) gstate \<Rightarrow> 'v sudog list" where
  "state_waits g s = (case s of Run _ \<Rightarrow> [] | Parked op' \<Rightarrow> wait_list g op' | Ready op' _ _ \<Rightarrow> wait_list g op')"

definition waits_ok :: "(nat \<Rightarrow> ('v::zero) gstate) \<Rightarrow> (nat \<Rightarrow> 'v sudog list) \<Rightarrow> bool" where
  "waits_ok G W \<longleftrightarrow> (\<forall>g. W g = state_waits g (G g))"

lemma waits_upd: "waits_ok G W \<Longrightarrow> W' = W(g := state_waits g s) \<Longrightarrow> waits_ok (G(g := s)) W'"
  by (simp add: waits_ok_def)

lemma waits_same: "waits_ok G W \<Longrightarrow> state_waits g s = state_waits g (G g) \<Longrightarrow> waits_ok (G(g := s)) W"
  by (simp add: waits_ok_def)

definition entry_ok :: "('v::zero) gstate \<Rightarrow> nat \<Rightarrow> bool \<Rightarrow> 'v sudog \<Rightarrow> bool" where
  "entry_ok s c d sg = (case s of
     Run _ \<Rightarrow> False
   | Parked op' \<Rightarrow> wants op' (sg_g sg) c d sg
   | Ready op' param got \<Rightarrow> is_select op' \<and> wants op' (sg_g sg) c d sg \<and> param \<noteq> Some (sg_case sg))"

fun op_ok :: "'v chan_op \<Rightarrow> bool" where
  "op_ok (OpSelect cases po lo) \<longleftrightarrow> mset po = mset [0..<length cases] \<and> mset lo = mset [0..<length cases]"
| "op_ok _ \<longleftrightarrow> True"

text \<open>What a state of a goroutine guarantees: it never dies of a fatal error; a sender is woken without
  having sent only by the closing of its channel; a select is woken with one of its cases that has a channel;
  nobody wakes a goroutine that waits for nothing.\<close>

fun g_ok :: "(nat \<Rightarrow> bool) \<Rightarrow> 'v gstate \<Rightarrow> bool" where
  "g_ok cl (Run (Thrown s)) \<longleftrightarrow> False"
| "g_ok cl (Parked op') \<longleftrightarrow> op_ok op'"
| "g_ok cl (Ready (OpSend c v) None got) \<longleftrightarrow> cl c"
| "g_ok cl (Ready (OpSelect cases po lo) (Some i) got) \<longleftrightarrow>
     op_ok (OpSelect cases po lo) \<and> i < length cases \<and> sc_kind (cases ! i) \<noteq> caseNil"
| "g_ok cl (Ready OpForever param got) \<longleftrightarrow> False"
| "g_ok cl (Ready OpBlock param got) \<longleftrightarrow> False"
| "g_ok cl (Ready op' param got) \<longleftrightarrow> op_ok op'"
| "g_ok cl s \<longleftrightarrow> True"

definition queues_ok ::
  "(nat \<Rightarrow> ('v::zero) gstate) \<Rightarrow> (nat \<Rightarrow> bool) \<Rightarrow> (nat \<Rightarrow> bool \<Rightarrow> 'v sudog list) \<Rightarrow> (nat \<Rightarrow> bool) \<Rightarrow> bool" where
  "queues_ok G S Q cl \<longleftrightarrow>
     (\<forall>c d. \<forall>sg\<in>set (Q c d). entry_ok (G (sg_g sg)) c d sg) \<and>
     (\<forall>g op' c d sg. G g = Parked op' \<longrightarrow> wants op' g c d sg \<longrightarrow> sg \<in> set (Q c d)) \<and>
     (\<forall>g. S g \<longleftrightarrow> (\<exists>op' param got. G g = Ready op' param got \<and> is_select op')) \<and>
     (\<forall>c d. distinct (Q c d)) \<and>
     (\<forall>g. g_ok cl (G g))"

section \<open>The ring buffer\<close>

definition ring_ok :: "'v hchan \<Rightarrow> bool" where
  "ring_ok h \<longleftrightarrow> length (chan_buf h) = dataqsiz h \<and> qcount h \<le> dataqsiz h
     \<and> (recvx h < dataqsiz h \<or> dataqsiz h = 0 \<and> recvx h = 0) \<and> sendx h = (recvx h + qcount h) mod dataqsiz h"

text \<open>The comment at the top of the file: at least one of the queues is empty, except when a single
  goroutine waits on both with a select; a buffer with elements has no receivers waiting, one with free
  slots no senders; nobody waits on a closed channel.\<close>

definition chan_ok :: "'v hchan \<Rightarrow> bool" where
  "chan_ok h \<longleftrightarrow> ring_ok h
     \<and> (0 < qcount h \<longrightarrow> recvq h = []) \<and> (qcount h < dataqsiz h \<longrightarrow> sendq h = [])
     \<and> (chan_closed h \<longrightarrow> recvq h = [] \<and> sendq h = [])
     \<and> (\<forall>a\<in>set (recvq h). \<forall>b\<in>set (sendq h). sg_g a = sg_g b)"

definition chan_inv :: "('v::zero) world \<Rightarrow> bool" where
  "chan_inv w \<longleftrightarrow> queues_ok (gs w) (selectDone w) (queues w) (\<lambda>c. chan_closed (chans w c)) \<and> (\<forall>c. chan_ok (chans w c))
     \<and> waits_ok (gs w) (waiting w)"

text \<open>The values in the buffer, first in first out.\<close>

definition contents :: "'v hchan \<Rightarrow> 'v list" where
  "contents h = map (\<lambda>i. chan_buf h ! ((recvx h + i) mod dataqsiz h)) [0..<qcount h]"

lemma next_slot_mod: "x < dataqsiz h \<Longrightarrow> next_slot h x = (x + 1) mod dataqsiz h"
  by (auto simp: next_slot_def Let_def)

lemma slot_cases: "(r::nat) < n \<Longrightarrow> i < n \<Longrightarrow> (r + i) mod n = (if r + i < n then r + i else r + i - n)"
  by (simp add: le_mod_geq)

lemma slot_inj: "(r::nat) < n \<Longrightarrow> i < n \<Longrightarrow> j < n \<Longrightarrow> (r + i) mod n = (r + j) mod n \<longleftrightarrow> i = j"
  by (auto simp: slot_cases split: if_splits)

lemma buf_send_contents:
  assumes "ring_ok h" "qcount h < dataqsiz h"
  shows "contents (buf_send v h) = contents h @ [v] \<and> ring_ok (buf_send v h)"
proof
  have r: "recvx h < dataqsiz h" "length (chan_buf h) = dataqsiz h" "sendx h = (recvx h + qcount h) mod dataqsiz h"
    using assms by (auto simp: ring_ok_def)
  then have s: "sendx h < dataqsiz h" using assms(2) by simp
  have ne: "sendx h \<noteq> (recvx h + i) mod dataqsiz h" if "i < qcount h" for i
    using slot_inj [OF r(1) _ assms(2), of i] that r(3) assms(2) by auto
  have "map (\<lambda>i. (chan_buf h)[sendx h := v] ! ((recvx h + i) mod dataqsiz h)) [0..<qcount h] = contents h"
    unfolding contents_def by (intro map_cong refl nth_list_update_neq) (use ne in auto)
  then show "contents (buf_send v h) = contents h @ [v]"
    using r(2) s unfolding contents_def [of "buf_send v h"] by (simp add: buf_send_def flip: r(3))
  show "ring_ok (buf_send v h)"
    using r s assms(2) by (simp add: ring_ok_def buf_send_def next_slot_mod mod_simps)
qed

lemma contents_Cons:
  assumes "0 < qcount h" "recvx h < dataqsiz h"
  shows "contents h = chan_buf h ! recvx h # map (\<lambda>i. chan_buf h ! ((recvx h + 1 + i) mod dataqsiz h)) [0..<qcount h - 1]"
proof -
  have "[0..<qcount h] = 0 # map Suc [0..<qcount h - 1]"
    using assms(1) by (metis Suc_pred' map_Suc_upt upt_conv_Cons)
  then show ?thesis using assms(2) by (simp add: contents_def comp_def)
qed

lemma buf_recv_contents:
  assumes "ring_ok h" "0 < qcount h" "buf_recv h = (v, h')"
  shows "contents h = v # contents h' \<and> ring_ok h'"
proof -
  have r: "recvx h < dataqsiz h" "length (chan_buf h) = dataqsiz h" "sendx h = (recvx h + qcount h) mod dataqsiz h"
    "qcount h \<le> dataqsiz h"
    using assms by (auto simp: ring_ok_def)
  have h': "v = chan_buf h ! recvx h" "h' = h\<lparr>chan_buf := (chan_buf h)[recvx h := 0],
      recvx := (recvx h + 1) mod dataqsiz h, qcount := qcount h - 1\<rparr>"
    using assms(3) r(1) by (auto simp: buf_recv_def next_slot_mod)
  have ne: "recvx h \<noteq> (recvx h + 1 + i) mod dataqsiz h" if "i < qcount h - 1" for i
  proof -
    have "1 + i < dataqsiz h" "0 < dataqsiz h" using that r by auto
    from slot_inj [OF r(1) this] show ?thesis using r(1) by (auto simp: add.assoc)
  qed
  have "map (\<lambda>i. (chan_buf h)[recvx h := 0] ! ((recvx h + 1 + i) mod dataqsiz h)) [0..<qcount h - 1]
      = map (\<lambda>i. chan_buf h ! ((recvx h + 1 + i) mod dataqsiz h)) [0..<qcount h - 1]"
    by (intro map_cong refl nth_list_update_neq) (use ne in auto)
  then have "contents h' = map (\<lambda>i. chan_buf h ! ((recvx h + 1 + i) mod dataqsiz h)) [0..<qcount h - 1]"
    by (simp add: contents_def h' mod_simps)
  then have "contents h = v # contents h'" using contents_Cons [OF assms(2) r(1)] h'(1) by simp
  moreover obtain q where "qcount h = Suc q" using assms(2) gr0_implies_Suc by blast
  then have "ring_ok h'" using h' r by (simp add: ring_ok_def mod_simps)
  ultimately show ?thesis by simp
qed

text \<open>The head leaves a full buffer and another value takes its slot, as \<open>recv\<close> does.\<close>

lemma exchange_contents:
  assumes "ring_ok h" "qcount h = dataqsiz h" "0 < dataqsiz h"
    and "h' = h\<lparr>chan_buf := (chan_buf h)[recvx h := v], recvx := next_slot h (recvx h), sendx := next_slot h (recvx h)\<rparr>"
  shows "contents h @ [v] = chan_buf h ! recvx h # contents h' \<and> ring_ok h'"
proof -
  have r: "recvx h < dataqsiz h" "length (chan_buf h) = dataqsiz h" using assms by (auto simp: ring_ok_def)
  have h': "h' = h\<lparr>chan_buf := (chan_buf h)[recvx h := v], recvx := (recvx h + 1) mod dataqsiz h,
      sendx := (recvx h + 1) mod dataqsiz h\<rparr>" using assms(4) r(1) by (simp add: next_slot_mod)
  have ne: "recvx h \<noteq> (recvx h + 1 + i) mod dataqsiz h" if "i < dataqsiz h - 1" for i
  proof -
    have "1 + i < dataqsiz h" "0 < dataqsiz h" using that r by auto
    from slot_inj [OF r(1) this] show ?thesis using r(1) by (auto simp: add.assoc)
  qed
  have keep: "map (\<lambda>i. (chan_buf h)[recvx h := v] ! ((recvx h + 1 + i) mod dataqsiz h)) [0..<dataqsiz h - 1]
      = map (\<lambda>i. chan_buf h ! ((recvx h + 1 + i) mod dataqsiz h)) [0..<dataqsiz h - 1]"
    by (intro map_cong refl nth_list_update_neq) (use ne in auto)
  have wrap: "(recvx h + 1 + (dataqsiz h - 1)) mod dataqsiz h = recvx h" using assms(3) r(1) by simp
  have "[0..<dataqsiz h] = [0..<dataqsiz h - 1] @ [dataqsiz h - 1]"
    using assms(3) by (metis Suc_pred' upt_Suc_append zero_le)
  then have "contents h' = map (\<lambda>i. chan_buf h ! ((recvx h + 1 + i) mod dataqsiz h)) [0..<dataqsiz h - 1] @ [v]"
    using keep wrap r by (simp add: contents_def h' mod_simps assms(2))
  then show ?thesis using contents_Cons [of h] h' r assms(2,3) by (simp add: ring_ok_def mod_simps)
qed

section \<open>Taking goroutines off a queue\<close>

lemma dequeue_list_cases:
  obtains (none) "dequeue_list f P q S = (None, [], S)" "\<forall>a\<in>set q. P a \<and> S (f a)"
  | (some) pre sg q' where "q = pre @ sg # q'" "\<forall>a\<in>set pre. P a \<and> S (f a)" "\<not> (P sg \<and> S (f sg))"
      "dequeue_list f P q S = (Some sg, q', if P sg then S(f sg := True) else S)"
proof -
  have "(dequeue_list f P q S = (None, [], S) \<and> (\<forall>a\<in>set q. P a \<and> S (f a)))
    \<or> (\<exists>pre sg q'. q = pre @ sg # q' \<and> (\<forall>a\<in>set pre. P a \<and> S (f a)) \<and> \<not> (P sg \<and> S (f sg))
       \<and> dequeue_list f P q S = (Some sg, q', if P sg then S(f sg := True) else S))"
  proof (induction q)
    case (Cons a q)
    show ?case
    proof (cases "P a \<and> S (f a)")
      case True
      then show ?thesis using Cons
        by (elim disjE exE conjE) (simp, rule disjI2, rule exI [of _ "a # _"], fastforce)
    next
      case False
      then show ?thesis by (intro disjI2 exI [of _ "[]"]) auto
    qed
  qed simp
  then show thesis using none some by blast
qed

lemma wants_g: "wants op' g c d sg \<Longrightarrow> sg_g sg = g"
  by (cases op') auto

lemma wants_isSelect: "wants op' g c d sg \<Longrightarrow> isSelect sg = is_select op'"
  by (cases op') (auto simp: is_select_def)

lemma wants_unique: "wants op' g c d sg \<Longrightarrow> wants op' g c' d' sg' \<Longrightarrow> sg_case sg = sg_case sg' \<Longrightarrow> c = c' \<and> d = d' \<and> sg = sg'"
  by (cases op') (auto split: if_splits intro: sudog.equality)

abbreviation set_queue where
  "set_queue Q c d q \<equiv> (\<lambda>c' d'. if c' = c \<and> d' = d then q else Q c' d')"

text \<open>A goroutine whose select has been decided may be dropped from any queue.\<close>

lemma queues_drop:
  assumes "queues_ok G S Q cl" "Q c d = pre @ q'" "\<forall>a\<in>set pre. isSelect a \<and> S (sg_g a)"
  shows "queues_ok G S (set_queue Q c d q') cl"
proof -
  have "sg \<in> set q'" if "G g = Parked op'" "wants op' g c d sg" for g op' sg
  proof -
    have "sg \<in> set (Q c d)" using assms(1) that unfolding queues_ok_def by blast
    moreover have "sg \<notin> set pre" using assms(1,3) that wants_g [OF that(2)] unfolding queues_ok_def by force
    ultimately show ?thesis using assms(2) by simp
  qed
  moreover have "distinct q'" using assms(1,2) unfolding queues_ok_def by (metis distinct_append)
  ultimately show ?thesis using assms unfolding queues_ok_def by auto
qed

text \<open>The first undecided entry belongs to a parked goroutine; it may be made ready.\<close>

lemma entry_parked:
  assumes "queues_ok G S Q cl" "sg \<in> set (Q c d)" "\<not> (isSelect sg \<and> S (sg_g sg))"
  shows "\<exists>op'. G (sg_g sg) = Parked op' \<and> wants op' (sg_g sg) c d sg"
proof -
  have e: "entry_ok (G (sg_g sg)) c d sg" using assms(1,2) by (auto simp: queues_ok_def)
  show ?thesis
  proof (cases "G (sg_g sg)")
    case (Ready op' param got)
    then have "is_select op'" "wants op' (sg_g sg) c d sg" using e by (auto simp: entry_ok_def)
    then have "isSelect sg" "S (sg_g sg)"
      using wants_isSelect assms(1) Ready unfolding queues_ok_def by blast+
    then show ?thesis using assms(3) by simp
  qed (use e in \<open>auto simp: entry_ok_def\<close>)
qed

lemma queues_ready:
  assumes "queues_ok G S Q cl" "Q c d = sg # q'" "\<not> (isSelect sg \<and> S (sg_g sg))"
    and op: "G (sg_g sg) = Parked op'" "wants op' (sg_g sg) c d sg"
    and param: "param = Some (sg_case sg) \<or> param = None \<and> cl c"
  shows "queues_ok (G(sg_g sg := Ready op' param got)) (if isSelect sg then S(sg_g sg := True) else S)
    (set_queue Q c d q') cl"
proof -
  let ?G = "G(sg_g sg := Ready op' param got)" and ?Q = "set_queue Q c d q'"
  have dist: "sg \<notin> set q'" "distinct q'" using assms(1,2) unfolding queues_ok_def by (metis distinct.simps(2))+
  have sub: "a \<in> set (?Q c' d') \<Longrightarrow> a \<in> set (Q c' d')" for a c' d' using assms(2) by (auto split: if_splits)
  have 1: "entry_ok (?G (sg_g a)) c' d' a" if a: "a \<in> set (?Q c' d')" for a c' d'
  proof -
    have e: "entry_ok (G (sg_g a)) c' d' a" using sub [OF a] assms(1) by (auto simp: queues_ok_def)
    show ?thesis
    proof (cases "sg_g a = sg_g sg")
      case True
      then have w: "wants op' (sg_g sg) c' d' a" using e op(1) by (simp add: entry_ok_def)
      have ne: "\<not> (c' = c \<and> d' = d \<and> a = sg)"
      proof
        assume "c' = c \<and> d' = d \<and> a = sg"
        then have "a \<in> set q'" using a by simp
        then show False using dist(1) \<open>c' = c \<and> d' = d \<and> a = sg\<close> by simp
      qed
      then have "sg_case a \<noteq> sg_case sg" using wants_unique [OF w op(2)] by blast
      moreover have "is_select op'" using w op(2) ne by (cases op') (auto simp: is_select_def)
      ultimately show ?thesis using w True param by (auto simp: entry_ok_def)
    qed (use e in simp)
  qed
  have 2: "a \<in> set (?Q c' d')" if "?G g = Parked o'" "wants o' g c' d' a" for g o' c' d' a
  proof -
    have g: "g \<noteq> sg_g sg" "G g = Parked o'" using that(1) by (auto split: if_splits)
    then have "a \<in> set (Q c' d')" using assms(1) that(2) unfolding queues_ok_def by blast
    moreover have "a \<noteq> sg" using wants_g [OF that(2)] g(1) by auto
    ultimately show ?thesis using assms(2) by (auto split: if_splits)
  qed
  have 3: "(if isSelect sg then S(sg_g sg := True) else S) g \<longleftrightarrow> (\<exists>o' p x. ?G g = Ready o' p x \<and> is_select o')" for g
  proof -
    have "S g \<longleftrightarrow> (\<exists>o' p x. G g = Ready o' p x \<and> is_select o')" using assms(1) by (auto simp: queues_ok_def)
    then show ?thesis using op(1) wants_isSelect [OF op(2)] assms(3) by auto
  qed
  have "op_ok op'" using assms(1) op(1) unfolding queues_ok_def by (metis g_ok.simps(2))
  moreover have "cl c'" if "op' = OpSend c' v" "param = None" for c' v using op(2) that param by auto
  ultimately have "g_ok cl (Ready op' param got)" using op(2) param by (cases op'; cases param) (auto split: if_splits)
  then have 4: "g_ok cl (?G g)" for g using assms(1) by (auto simp: queues_ok_def)
  show ?thesis unfolding queues_ok_def using 1 2 3 4 dist(2) assms(1) by (auto simp: queues_ok_def)
qed

section \<open>Starting and ending operations\<close>

lemma queues_run:
  assumes "queues_ok G S Q cl" "G g = Run o' \<or> (\<exists>op' p x. G g = Ready op' p x \<and> \<not> is_select op')" "\<forall>s. o'' \<noteq> Thrown s"
  shows "queues_ok (G(g := Run o'')) S Q cl"
proof -
  have "sg_g sg \<noteq> g" if "sg \<in> set (Q c d)" for sg c d
  proof -
    have "entry_ok (G (sg_g sg)) c d sg" using assms(1) that by (auto simp: queues_ok_def)
    then show ?thesis using assms(2) by (auto simp: entry_ok_def)
  qed
  moreover have "\<not> S g" using assms(1,2) unfolding queues_ok_def by auto
  moreover have "g_ok cl (Run o'')" using assms(3) by (cases o'') auto
  ultimately show ?thesis using assms(1) unfolding queues_ok_def by auto
qed

lemma queues_park:
  assumes "queues_ok G S Q cl" "G g = Run o'" "op_ok op'"
    and new: "\<And>c d. Q' c d = Q c d @ new c d" "\<And>c d. set (new c d) = {sg. wants op' g c d sg}" "\<And>c d. distinct (new c d)"
  shows "queues_ok (G(g := Parked op')) S Q' cl"
proof -
  have old: "sg_g sg \<noteq> g" if "sg \<in> set (Q c d)" for sg c d
    using assms(1,2) that unfolding queues_ok_def entry_ok_def by (auto split: gstate.splits)
  have "\<not> S g" using assms(1,2) unfolding queues_ok_def by auto
  moreover have "set (Q c d) \<inter> set (new c d) = {}" for c d
    using old wants_g by (fastforce simp: new(2))
  then have "distinct (Q' c d)" for c d
    using assms(1) new(3) unfolding new(1) queues_ok_def by simp
  moreover have "entry_ok ((G(g := Parked op')) (sg_g sg)) c d sg" if "sg \<in> set (Q' c d)" for sg c d
  proof (cases "sg \<in> set (Q c d)")
    case True
    then show ?thesis using old [OF True] assms(1) by (simp add: queues_ok_def)
  next
    case False
    then have w: "wants op' g c d sg" using that new by auto
    then show ?thesis using wants_g [OF w] by (simp add: entry_ok_def)
  qed
  ultimately show ?thesis using assms(1-3) new unfolding queues_ok_def by (auto split: if_splits)
qed

lemma queues_unselect:
  assumes "queues_ok G S Q cl" "G g = Ready op' p x" "\<forall>s. o' \<noteq> Thrown s"
    and "\<And>c d. Q' c d = filter (\<lambda>sg. sg_g sg \<noteq> g) (Q c d)"
  shows "queues_ok (G(g := Run o')) (S(g := False)) Q' cl"
proof -
  have "g_ok cl (Run o')" using assms(3) by (cases o') auto
  then have 1: "g_ok cl ((G(g := Run o')) g')" for g' using assms(1) by (auto simp: queues_ok_def)
  have 2: "entry_ok ((G(g := Run o')) (sg_g sg)) c d sg" if "sg \<in> set (Q' c d)" for sg c d
    using assms(1) that by (auto simp: assms(4) queues_ok_def)
  have 3: "sg \<in> set (Q' c d)" if "(G(g := Run o')) g' = Parked o''" "wants o'' g' c d sg" for g' o'' c d sg
  proof -
    have "g' \<noteq> g" "G g' = Parked o''" using that(1) by (auto split: if_splits)
    then have "sg \<in> set (Q c d)" using assms(1) that(2) unfolding queues_ok_def by blast
    then show ?thesis using wants_g [OF that(2)] \<open>g' \<noteq> g\<close> by (simp add: assms(4))
  qed
  have 4: "(S(g := False)) g' \<longleftrightarrow> (\<exists>o'' p x. (G(g := Run o')) g' = Ready o'' p x \<and> is_select o'')" for g'
    using assms(1) by (auto simp: queues_ok_def)
  have 5: "distinct (Q' c d)" for c d using assms(1) by (simp add: assms(4) queues_ok_def)
  show ?thesis unfolding queues_ok_def using 1 2 3 4 5 by blast
qed

lemma queues_close: "queues_ok G S Q cl \<Longrightarrow> (\<And>c. cl c \<Longrightarrow> cl' c) \<Longrightarrow> queues_ok G S Q cl'"
proof -
  assume cl: "\<And>c. cl c \<Longrightarrow> cl' c"
  have "g_ok cl s \<Longrightarrow> g_ok cl' s" for s using cl by (induction cl s rule: g_ok.induct) auto
  then show "queues_ok G S Q cl \<Longrightarrow> queues_ok G S Q cl'" unfolding queues_ok_def by blast
qed

end
