(* ===== verification/ChanSteps.thy ===== *)
theory ChanSteps
  imports ChanInv
begin

text \<open>
  Every step of a goroutine keeps the invariant of the channels, and moves values through a channel
  first in, first out.
\<close>

section \<open>The log\<close>

fun put_on :: "nat \<Rightarrow> 'v chan_event \<Rightarrow> 'v list" where
  "put_on c (Put c' g v) = (if c' = c then [v] else [])"
| "put_on c _ = []"

fun got_from :: "nat \<Rightarrow> 'v chan_event \<Rightarrow> 'v list" where
  "got_from c (Got c' g v) = (if c' = c then [v] else [])"
| "got_from c _ = []"

text \<open>All values that entered channel \<open>c\<close>, and all that left it.\<close>

definition puts :: "nat \<Rightarrow> 'v chan_event list \<Rightarrow> 'v list" where
  "puts c es = concat (map (put_on c) es)"

definition gots :: "nat \<Rightarrow> 'v chan_event list \<Rightarrow> 'v list" where
  "gots c es = concat (map (got_from c) es)"

fun put_by :: "nat \<Rightarrow> nat \<Rightarrow> 'v chan_event \<Rightarrow> 'v list" where
  "put_by g c (Put c' g' v) = (if c' = c \<and> g' = g then [v] else [])"
| "put_by g c _ = []"

fun got_by :: "nat \<Rightarrow> nat \<Rightarrow> 'v chan_event \<Rightarrow> 'v list" where
  "got_by g c (Got c' g' v) = (if c' = c \<and> g' = g then [v] else [])"
| "got_by g c _ = []"

text \<open>Those that goroutine \<open>g\<close> put in, and those that left for \<open>g\<close>.\<close>

definition puts_by :: "nat \<Rightarrow> nat \<Rightarrow> 'v chan_event list \<Rightarrow> 'v list" where
  "puts_by g c es = concat (map (put_by g c) es)"

definition gots_by :: "nat \<Rightarrow> nat \<Rightarrow> 'v chan_event list \<Rightarrow> 'v list" where
  "gots_by g c es = concat (map (got_by g c) es)"

text \<open>What an operation reports to the program, by its result: the value received from \<open>c\<close>, the value sent to \<open>c\<close>.\<close>

fun received :: "'v chan_op \<Rightarrow> 'v outcome \<Rightarrow> nat \<Rightarrow> 'v list" where
  "received (OpRecv c') (RecvResult sel ok v) c = (if c' = c \<and> ok then [v] else [])"
| "received (OpSelect cases po lo) (SelectResult i ok v) c =
     (if ok \<and> i < length cases \<and> sc_kind (cases ! i) = caseRecv \<and> sc_c (cases ! i) = Some c then [v] else [])"
| "received _ _ c = []"

fun sent_value :: "'v chan_op \<Rightarrow> 'v outcome \<Rightarrow> nat \<Rightarrow> 'v list" where
  "sent_value (OpSend c' v) (SendResult ok) c = (if c' = c \<and> ok then [v] else [])"
| "sent_value (OpSelect cases po lo) (SelectResult i ok v) c =
     (if i < length cases \<and> sc_kind (cases ! i) = caseSend \<and> sc_c (cases ! i) = Some c then [sc_elem (cases ! i)] else [])"
| "sent_value _ _ c = []"

fun recvd_ev :: "nat \<Rightarrow> nat \<Rightarrow> 'v chan_event \<Rightarrow> 'v list" where
  "recvd_ev g c (Ended g' op' o') = (if g' = g then received op' o' c else [])"
| "recvd_ev g c _ = []"

fun sent_ev :: "nat \<Rightarrow> nat \<Rightarrow> 'v chan_event \<Rightarrow> 'v list" where
  "sent_ev g c (Ended g' op' o') = (if g' = g then sent_value op' o' c else [])"
| "sent_ev g c _ = []"

text \<open>The values that the operations of goroutine \<open>g\<close> returned from \<open>c\<close>, and those they reported as sent to \<open>c\<close>.\<close>

definition recvd :: "nat \<Rightarrow> nat \<Rightarrow> 'v chan_event list \<Rightarrow> 'v list" where
  "recvd g c es = concat (map (recvd_ev g c) es)"

definition sent :: "nat \<Rightarrow> nat \<Rightarrow> 'v chan_event list \<Rightarrow> 'v list" where
  "sent g c es = concat (map (sent_ev g c) es)"

text \<open>Handed over already, to a goroutine that has not gone on yet.\<close>

fun pend_got :: "'v gstate \<Rightarrow> nat \<Rightarrow> 'v list" where
  "pend_got (Ready (OpRecv c') (Some i) x) c = (if c' = c then [x] else [])"
| "pend_got (Ready (OpSelect cases po lo) (Some i) x) c =
     (if i < length cases \<and> sc_kind (cases ! i) = caseRecv \<and> sc_c (cases ! i) = Some c then [x] else [])"
| "pend_got _ c = []"

fun pend_put :: "'v gstate \<Rightarrow> nat \<Rightarrow> 'v list" where
  "pend_put (Ready (OpSend c' v) (Some i) x) c = (if c' = c then [v] else [])"
| "pend_put (Ready (OpSelect cases po lo) (Some i) x) c =
     (if i < length cases \<and> sc_kind (cases ! i) = caseSend \<and> sc_c (cases ! i) = Some c then [sc_elem (cases ! i)] else [])"
| "pend_put _ c = []"

lemma log_simps [simp]:
  "puts c [] = []" "puts c (e # es) = put_on c e @ puts c es" "puts c (es @ es') = puts c es @ puts c es'"
  "gots c [] = []" "gots c (e # es) = got_from c e @ gots c es" "gots c (es @ es') = gots c es @ gots c es'"
  "puts_by g c [] = []" "puts_by g c (e # es) = put_by g c e @ puts_by g c es" "puts_by g c (es @ es') = puts_by g c es @ puts_by g c es'"
  "gots_by g c [] = []" "gots_by g c (e # es) = got_by g c e @ gots_by g c es" "gots_by g c (es @ es') = gots_by g c es @ gots_by g c es'"
  "recvd g c [] = []" "recvd g c (e # es) = recvd_ev g c e @ recvd g c es" "recvd g c (es @ es') = recvd g c es @ recvd g c es'"
  "sent g c [] = []" "sent g c (e # es) = sent_ev g c e @ sent g c es" "sent g c (es @ es') = sent g c es @ sent g c es'"
  by (simp_all add: puts_def gots_def puts_by_def gots_by_def recvd_def sent_def)

lemma pend_closed [simp]: "pend_got (Ready op' None x) c = []" "pend_put (Ready op' None x) c = []"
  by (cases op'; simp)+

lemma pend_wants:
  "wants op' h c d sg \<Longrightarrow> pend_got (Ready op' (Some (sg_case sg)) x) c' = (if \<not> d \<and> c' = c then [x] else [])"
  "wants op' h c d sg \<Longrightarrow> pend_put (Ready op' (Some (sg_case sg)) x) c' = (if d \<and> c' = c then [sg_elem sg] else [])"
  by (cases op'; auto)+

section \<open>Parts of a step\<close>

definition no_ends :: "'v chan_event list \<Rightarrow> bool" where
  "no_ends es \<longleftrightarrow> (\<forall>h op' o'. Ended h op' o' \<notin> set es)"

text \<open>
  The effect of a part of a step of goroutine \<open>g\<close>: the invariant stays; every channel is first in, first out; what
  is logged for another goroutine is what that goroutine is handed; and \<open>tk\<close> and \<open>gv\<close> are the values that \<open>g\<close>
  itself has taken from and given to each channel.
\<close>

definition step_ok :: "nat \<Rightarrow> (nat \<Rightarrow> 'v list) \<Rightarrow> (nat \<Rightarrow> 'v list) \<Rightarrow> ('v::zero) world \<Rightarrow> 'v chan_event list \<Rightarrow> 'v world \<Rightarrow> bool" where
  "step_ok g tk gv w es w' \<longleftrightarrow> chan_inv w' \<and> no_ends es
     \<and> (\<forall>c. contents (chans w c) @ puts c es = gots c es @ contents (chans w' c))
     \<and> (\<forall>c. gots_by g c es = tk c \<and> puts_by g c es = gv c)
     \<and> (\<forall>h c. h \<noteq> g \<longrightarrow> pend_got (gs w' h) c = pend_got (gs w h) c @ gots_by h c es
          \<and> pend_put (gs w' h) c = pend_put (gs w h) c @ puts_by h c es)"

abbreviation nothing :: "nat \<Rightarrow> 'v list" where
  "nothing \<equiv> (\<lambda>_. [])"

abbreviation just :: "nat \<Rightarrow> 'v \<Rightarrow> nat \<Rightarrow> 'v list" where
  "just c v \<equiv> (\<lambda>c'. if c' = c then [v] else [])"

text \<open>A whole step, whose operation \<open>op'\<close> has ended or is still under way.\<close>

definition done_ok :: "nat \<Rightarrow> 'v chan_op \<Rightarrow> ('v::zero) world \<Rightarrow> 'v chan_event list \<Rightarrow> 'v world \<Rightarrow> bool" where
  "done_ok g op' w es w' \<longleftrightarrow> (\<exists>tk gv. step_ok g tk gv w es w' \<and>
     (case gs w' g of
        Run o' \<Rightarrow> \<forall>c. received op' o' c = pend_got (gs w g) c @ tk c \<and> sent_value op' o' c = pend_put (gs w g) c @ gv c
      | Parked _ \<Rightarrow> \<forall>c. pend_got (gs w g) c = [] \<and> tk c = [] \<and> pend_put (gs w g) c = [] \<and> gv c = []
      | Ready _ _ _ \<Rightarrow> False))"

text \<open>What it says of all goroutines alike: what a goroutine is handed, it returns.\<close>

definition ledger_ok :: "('v::zero) world \<Rightarrow> 'v chan_event list \<Rightarrow> 'v world \<Rightarrow> bool" where
  "ledger_ok w es w' \<longleftrightarrow> chan_inv w'
     \<and> (\<forall>c. contents (chans w c) @ puts c es = gots c es @ contents (chans w' c))
     \<and> (\<forall>h c. pend_got (gs w h) c @ gots_by h c es = recvd h c es @ pend_got (gs w' h) c
          \<and> pend_put (gs w h) c @ puts_by h c es = sent h c es @ pend_put (gs w' h) c)"

lemma no_ends_log: "no_ends es \<Longrightarrow> recvd h c es = [] \<and> sent h c es = []"
proof (induction es)
  case (Cons e es)
  then show ?case by (cases e) (auto simp: no_ends_def)
qed simp

lemma ended_log [simp]:
  "puts c (ended g op' w) = []" "gots c (ended g op' w) = []" "puts_by h c (ended g op' w) = []" "gots_by h c (ended g op' w) = []"
  "h \<noteq> g \<Longrightarrow> recvd h c (ended g op' w) = []" "h \<noteq> g \<Longrightarrow> sent h c (ended g op' w) = []"
  by (simp_all add: ended_def split: gstate.splits)

lemma done_ledger:
  assumes "done_ok g op' w es w'"
  shows "ledger_ok w (es @ ended g op' w') w'"
proof -
  obtain tk gv where s: "step_ok g tk gv w es w'"
    and e: "case gs w' g of
        Run o' \<Rightarrow> \<forall>c. received op' o' c = pend_got (gs w g) c @ tk c \<and> sent_value op' o' c = pend_put (gs w g) c @ gv c
      | Parked _ \<Rightarrow> \<forall>c. pend_got (gs w g) c = [] \<and> tk c = [] \<and> pend_put (gs w g) c = [] \<and> gv c = []
      | Ready _ _ _ \<Rightarrow> False"
    using assms unfolding done_ok_def by blast
  have own: "pend_got (gs w g) c @ gots_by g c es = recvd g c (ended g op' w') @ pend_got (gs w' g) c
      \<and> pend_put (gs w g) c @ puts_by g c es = sent g c (ended g op' w') @ pend_put (gs w' g) c" for c
    using s e by (auto simp: step_ok_def ended_def split: gstate.splits)
  have n: "recvd h c es = [] \<and> sent h c es = []" for h c using s no_ends_log by (auto simp: step_ok_def)
  have other: "pend_got (gs w h) c @ gots_by h c es = pend_got (gs w' h) c \<and> pend_put (gs w h) c @ puts_by h c es = pend_put (gs w' h) c"
    if "h \<noteq> g" for h c using s that by (simp add: step_ok_def)
  have "pend_got (gs w h) c @ gots_by h c (es @ ended g op' w') = recvd h c (es @ ended g op' w') @ pend_got (gs w' h) c
      \<and> pend_put (gs w h) c @ puts_by h c (es @ ended g op' w') = sent h c (es @ ended g op' w') @ pend_put (gs w' h) c" for h c
    using own [of c] other [of h c] n [of h c] by (cases "h = g") simp_all
  then show ?thesis using s by (simp add: ledger_ok_def step_ok_def)
qed

text \<open>Both queues of a channel, by the side \<open>d\<close>.\<close>

definition set_q :: "bool \<Rightarrow> 'v sudog list \<Rightarrow> 'v hchan \<Rightarrow> 'v hchan" where
  "set_q d q h = (if d then h\<lparr>sendq := q\<rparr> else h\<lparr>recvq := q\<rparr>)"

definition dequeue_side :: "bool \<Rightarrow> nat \<Rightarrow> 'v world \<Rightarrow> 'v sudog option \<times> 'v world" where
  "dequeue_side d c w =
     (case dequeue_list sg_g isSelect (queues w c d) (selectDone w) of
        (sg, q, done') \<Rightarrow> (sg, (upd_chan c (set_q d q) w)\<lparr>selectDone := done'\<rparr>))"

lemma dequeue_sides: "dequeue_recv = dequeue_side False" "dequeue_send = dequeue_side True"
  by (simp_all add: fun_eq_iff dequeue_recv_def dequeue_send_def dequeue_side_def queues_def set_q_def)

lemma set_q_simps [simp]:
  "chan_closed (set_q d q h) = chan_closed h" "qcount (set_q d q h) = qcount h" "dataqsiz (set_q d q h) = dataqsiz h"
  "chan_buf (set_q d q h) = chan_buf h" "recvx (set_q d q h) = recvx h" "sendx (set_q d q h) = sendx h"
  "sendq (set_q True q h) = q" "recvq (set_q True q h) = recvq h" "sendq (set_q False q h) = sendq h" "recvq (set_q False q h) = q"
  by (simp_all add: set_q_def)

lemma queues_upd: "queues (w\<lparr>chans := (chans w)(c := set_q d q (chans w c))\<rparr>) = set_queue (queues w) c d q"
  by (auto simp: queues_def fun_eq_iff set_q_def)

lemma queues_more [simp]:
  "queues (w\<lparr>gs := G\<rparr>) = queues w" "queues (w\<lparr>selectDone := S\<rparr>) = queues w" "queues (w\<lparr>waiting := W\<rparr>) = queues w"
  by (simp_all add: queues_def fun_eq_iff)

definition closed_of :: "'v world \<Rightarrow> nat \<Rightarrow> bool" where
  "closed_of w c = chan_closed (chans w c)"

lemma chan_inv_alt:
  "chan_inv w \<longleftrightarrow> queues_ok (gs w) (selectDone w) (queues w) (closed_of w) \<and> (\<forall>c. chan_ok (chans w c))
     \<and> waits_ok (gs w) (waiting w)"
proof -
  have "closed_of w = (\<lambda>c. chan_closed (chans w c))" by (simp add: fun_eq_iff closed_of_def)
  then show ?thesis by (simp add: chan_inv_def)
qed

lemma closed_upd [simp]:
  "chan_closed h = chan_closed (chans w c) \<Longrightarrow> closed_of (w\<lparr>chans := (chans w)(c := h)\<rparr>) = closed_of w"
  "closed_of (w\<lparr>gs := G\<rparr>) = closed_of w" "closed_of (w\<lparr>selectDone := S\<rparr>) = closed_of w"
  "closed_of (w\<lparr>waiting := W\<rparr>) = closed_of w"
  by (simp_all add: fun_eq_iff closed_of_def)

lemma contents_more [simp]: "contents (set_q d q h) = contents h"
  by (simp add: contents_def)

lemma inv_queues: "chan_inv w \<Longrightarrow> queues_ok (gs w) (selectDone w) (queues w) (closed_of w)"
  by (simp add: chan_inv_alt)

lemma inv_chan: "chan_inv w \<Longrightarrow> chan_ok (chans w c)"
  by (simp add: chan_inv_alt)

lemma inv_waits: "chan_inv w \<Longrightarrow> waits_ok (gs w) (waiting w)"
  by (simp add: chan_inv_alt)

lemma inv_run:
  assumes "chan_inv w" "gs w g = Run o'" "\<forall>s. o'' \<noteq> Thrown s"
  shows "chan_inv (set_g g (Run o'') w)"
  using queues_run [OF inv_queues [OF assms(1)] _ assms(3), of g o'] inv_chan [OF assms(1)] assms(2)
    waits_same [OF inv_waits [OF assms(1)], of g "Run o''"]
  by (simp add: chan_inv_alt state_waits_def)

text \<open>A goroutine that was woken from a plain send or receive clears \<open>gp.waiting\<close> and runs on.\<close>

lemma inv_wake:
  assumes "chan_inv w" "gs w g = Ready op' p x" "\<not> is_select op'" "\<forall>s. o'' \<noteq> Thrown s"
  shows "chan_inv (set_g g (Run o'') (set_waiting g [] w))"
  using queues_run [OF inv_queues [OF assms(1)] _ assms(4), of g] inv_chan [OF assms(1)] assms(2,3)
    waits_upd [OF inv_waits [OF assms(1)], of _ g "Run o''"]
  by (simp add: chan_inv_alt state_waits_def)

text \<open>Changes to the buffer of a channel.\<close>

lemma inv_buffer:
  assumes "chan_inv w" "chan_ok h" "recvq h = recvq (chans w c)" "sendq h = sendq (chans w c)"
    "chan_closed h = chan_closed (chans w c)"
  shows "chan_inv (upd_chan c (\<lambda>_. h) w)"
proof -
  have "queues (upd_chan c (\<lambda>_. h) w) = queues w" using assms(3,4) by (auto simp: queues_def fun_eq_iff)
  then show ?thesis using assms(1,2,5) by (simp add: chan_inv_alt)
qed

lemma wake_chan_ok: "chan_ok (chans w c) \<Longrightarrow> set q \<subseteq> set (queues w c d) \<Longrightarrow> chan_ok (set_q d q (chans w c))"
  by (cases d) (auto simp: chan_ok_def ring_ok_def set_q_def queues_def)

text \<open>Dequeuing from either side: nothing undecided is there, or a parked goroutine is taken off.\<close>

lemma dequeue_cases [consumes 1]:
  assumes "chan_inv w"
  obtains (none) w1 where "dequeue_side d c w = (None, w1)" "chan_inv w1" "gs w1 = gs w"
      "chans w1 = (chans w)(c := set_q d [] (chans w c))" "waiting w1 = waiting w"
  | (some) sg w1 op' q where "dequeue_side d c w = (Some sg, w1)" "gs w (sg_g sg) = Parked op'" "gs w1 = gs w"
      "chans w1 = (chans w)(c := set_q d q (chans w c))" "queues w c d \<noteq> []"
      "\<And>param got. param = Some (sg_case sg) \<or> param = None \<and> closed_of w c \<Longrightarrow>
        chan_inv (set_g (sg_g sg) (Ready op' param got) w1)"
      "wants op' (sg_g sg) c d sg" "waiting w1 = waiting w"
proof (cases rule: dequeue_list_cases [of sg_g isSelect "queues w c d" "selectDone w"])
  case nobody: none
  let ?w1 = "(upd_chan c (set_q d []) w)\<lparr>selectDone := selectDone w\<rparr>"
  have "queues_ok (gs w) (selectDone w) (set_queue (queues w) c d []) (closed_of w)"
    using queues_drop [OF inv_queues [OF assms], of c d "queues w c d" "[]"] nobody(2) by simp
  then have "chan_inv ?w1"
    using assms wake_chan_ok [OF inv_chan [OF assms, of c], of "[]" d] by (simp add: chan_inv_alt queues_upd)
  then show ?thesis using nobody by (intro that(1) [of ?w1]) (simp_all add: dequeue_side_def)
next
  case some: (some pre sg q)
  let ?S = "if isSelect sg then (selectDone w)(sg_g sg := True) else selectDone w"
  let ?w1 = "(upd_chan c (set_q d q) w)\<lparr>selectDone := ?S\<rparr>"
  have dr: "queues_ok (gs w) (selectDone w) (set_queue (queues w) c d (sg # q)) (closed_of w)"
    using queues_drop [OF inv_queues [OF assms], of c d pre "sg # q"] some(1,2) by simp
  obtain op' where op: "gs w (sg_g sg) = Parked op'" "wants op' (sg_g sg) c d sg"
    using entry_parked [OF dr _ some(3), of c d] by auto
  have inv: "chan_inv (set_g (sg_g sg) (Ready op' param got) ?w1)"
    if "param = Some (sg_case sg) \<or> param = None \<and> closed_of w c" for param got
  proof -
    have "queues_ok ((gs w)(sg_g sg := Ready op' param got)) ?S
        (set_queue (set_queue (queues w) c d (sg # q)) c d q) (closed_of w)"
      by (rule queues_ready [OF dr _ some(3) op that]) simp
    moreover have "set_queue (set_queue (queues w) c d (sg # q)) c d q = set_queue (queues w) c d q"
      by (simp add: fun_eq_iff)
    moreover have "chan_ok (set_q d q (chans w c))"
      by (rule wake_chan_ok [OF inv_chan [OF assms]]) (use some(1) in auto)
    moreover have "waits_ok ((gs w)(sg_g sg := Ready op' param got)) (waiting w)"
      by (rule waits_same [OF inv_waits [OF assms]]) (simp add: state_waits_def op(1))
    ultimately show ?thesis using assms by (simp add: chan_inv_alt queues_upd)
  qed
  show ?thesis
  proof (rule that(2) [of sg ?w1 op' q])
    show "dequeue_side d c w = (Some sg, ?w1)" using some(4) by (simp add: dequeue_side_def)
    show "queues w c d \<noteq> []" using some(1) by simp
  qed (use op inv in simp_all)
qed

text \<open>Handing a value to a waiting receiver, and taking one from a waiting sender.\<close>

lemma send_to_ok:
  assumes "chan_inv w" "dequeue_side False c w = (Some sg, w1)" "chan_send_to c g sg v w1 = (w2, es)" "gs w g = Run o'"
  shows "step_ok g nothing (just c v) w es w2 \<and> gs w2 g = Run o'"
  using assms(1)
proof (cases rule: dequeue_cases [where d = False and c = c])
  case (some sg' w1' op' q)
  have e: "sg' = sg" "w1' = w1" using some(1) assms(2) by simp_all
  have w2: "w2 = set_g (sg_g sg) (Ready op' (Some (sg_case sg)) v) w1" "es = [Put c g v, Got c (sg_g sg) v]"
    using assms(3) some(2,3) by (auto simp: chan_send_to_def goready_def e)
  have "chan_inv w2" unfolding w2(1) using some(6) [of "Some (sg_case sg)" v] by (simp add: e)
  moreover have "qcount (chans w c) = 0"
    using some(5) inv_chan [OF assms(1), of c] by (auto simp: queues_def chan_ok_def)
  then have "contents (chans w c) = []" by (simp add: contents_def)
  moreover have "sg_g sg \<noteq> g" using some(2) assms(4) e by auto
  moreover have "wants op' (sg_g sg) c False sg" using some(7) e by simp
  ultimately show ?thesis using some(2-4) assms(4) e by (auto simp: step_ok_def w2 no_ends_def pend_wants)
qed (use assms(2) in simp)

lemma recv_from_ok:
  assumes "chan_inv w" "dequeue_side True c w = (Some sg, w1)" "chan_recv_from c g sg w1 = (v, w2, es)" "gs w g = Run o'"
  shows "step_ok g (just c v) nothing w es w2 \<and> gs w2 g = Run o'"
  using assms(1)
proof (cases rule: dequeue_cases [where d = True and c = c])
  case (some sg' w1' op' q)
  have e: "sg' = sg" "w1' = w1" using some(1) assms(2) by simp_all
  let ?h = "chans w c" and ?w = "set_g (sg_g sg) (Ready op' (Some (sg_case sg)) (sg_elem sg)) w1"
  have inv: "chan_inv ?w" using some(6) [of "Some (sg_case sg)"] by (simp add: e)
  have g: "sg_g sg \<noteq> g" and wt: "wants op' (sg_g sg) c True sg" using some(2,7) assms(4) e by auto
  have full: "qcount ?h = dataqsiz ?h" and ring: "ring_ok ?h"
    using some(5) inv_chan [OF assms(1), of c] by (auto simp: queues_def chan_ok_def ring_ok_def)
  show ?thesis
  proof (cases "dataqsiz ?h = 0")
    case True
    then have "w2 = ?w" "es = [Put c (sg_g sg) (sg_elem sg), Got c g v]" "v = sg_elem sg"
      using assms(3) some(2-4) e by (auto simp: chan_recv_from_def goready_def)
    moreover have "contents ?h = []" using full True by (simp add: contents_def)
    ultimately show ?thesis using inv some(2-4) assms(4) g wt e by (auto simp: step_ok_def no_ends_def pend_wants)
  next
    case False
    let ?h1 = "?h\<lparr>chan_buf := (chan_buf ?h)[recvx ?h := sg_elem sg], recvx := next_slot ?h (recvx ?h), sendx := next_slot ?h (recvx ?h)\<rparr>"
    have slot: "next_slot (?h\<lparr>sendq := q, chan_buf := b\<rparr>) x = next_slot ?h x" for b x by (simp add: next_slot_def)
    have h1: "?h\<lparr>sendq := q, chan_buf := (chan_buf ?h)[recvx ?h := sg_elem sg], recvx := x, sendx := x\<rparr>
        = set_q True q (?h\<lparr>chan_buf := (chan_buf ?h)[recvx ?h := sg_elem sg], recvx := x, sendx := x\<rparr>)" for x
      by (rule hchan.equality) (simp_all add: set_q_def)
    have w2: "w2 = upd_chan c (\<lambda>_. set_q True q ?h1) ?w" "es = [Got c g v, Put c (sg_g sg) (sg_elem sg)]"
      "v = chan_buf ?h ! recvx ?h"
      using assms(3) some(2-4) e False
      by (auto simp: chan_recv_from_def goready_def Let_def set_q_def [of True q ?h] slot h1 intro!: world.equality)
    have ex: "contents ?h @ [sg_elem sg] = chan_buf ?h ! recvx ?h # contents ?h1" "ring_ok ?h1"
      using exchange_contents [OF ring full _ refl] False by auto
    have "chan_ok (set_q True q ?h)" using inv_chan [OF inv, of c] some(4) e by simp
    then have ok: "chan_ok (set_q True q ?h1)" using ex(2) by (simp add: chan_ok_def ring_ok_def set_q_def)
    have "chan_inv w2" unfolding w2(1) by (rule inv_buffer [OF inv ok]) (use some(4) e in \<open>simp_all add: set_q_def\<close>)
    then show ?thesis using w2 ex(1) some(2-4) assms(4) g wt e by (auto simp: step_ok_def no_ends_def pend_wants)
  qed
qed (use assms(2) in simp)

lemma done_run:
  assumes "step_ok g tk gv w es w' \<and> gs w' g = Run o'" "gs w g = Run o''" "\<forall>s. q \<noteq> Thrown s"
    and "received op' q = tk \<and> sent_value op' q = gv"
  shows "done_ok g op' w es (set_g g (Run q) w')"
proof -
  have "step_ok g tk gv w es (set_g g (Run q) w')" using assms(1) inv_run [of w' g o' q] assms(3) by (auto simp: step_ok_def)
  then show ?thesis unfolding done_ok_def using assms(2,4) by (intro exI [of _ tk] exI [of _ gv]) simp
qed

lemma buf_send_ok:
  assumes "chan_inv w" "recvq (chans w c) = []" "qcount (chans w c) < dataqsiz (chans w c)"
  shows "step_ok g nothing (just c v) w [Put c g v] (upd_chan c (buf_send v) w)"
proof -
  have ok: "chan_ok (chans w c)" using inv_chan [OF assms(1)] .
  then have r: "contents (buf_send v (chans w c)) = contents (chans w c) @ [v]" "ring_ok (buf_send v (chans w c))"
    using buf_send_contents [OF _ assms(3)] by (auto simp: chan_ok_def)
  have "chan_ok (buf_send v (chans w c))"
    using ok r(2) assms(2,3) by (auto simp: chan_ok_def buf_send_def)
  then have "chan_inv (upd_chan c (\<lambda>_. buf_send v (chans w c)) w)"
    by (intro inv_buffer [OF assms(1)]) (simp_all add: buf_send_def)
  then show ?thesis using r(1) by (auto simp: step_ok_def no_ends_def)
qed

lemma buf_recv_ok:
  assumes "chan_inv w" "sendq (chans w c) = []" "0 < qcount (chans w c)" "buf_recv (chans w c) = (v, h)"
  shows "step_ok g (just c v) nothing w [Got c g v] (upd_chan c (\<lambda>_. h) w)"
proof -
  have ok: "chan_ok (chans w c)" using inv_chan [OF assms(1)] .
  then have r: "contents (chans w c) = v # contents h" "ring_ok h"
    using buf_recv_contents [OF _ assms(3,4)] by (auto simp: chan_ok_def)
  have h: "recvq h = recvq (chans w c)" "sendq h = sendq (chans w c)" "chan_closed h = chan_closed (chans w c)"
    using assms(4) by (auto simp: buf_recv_def)
  have "chan_ok h" using ok r(2) assms(2,3) h by (auto simp: chan_ok_def)
  then have "chan_inv (upd_chan c (\<lambda>_. h) w)" by (rule inv_buffer [OF assms(1) _ h])
  then show ?thesis using r(1) by (auto simp: step_ok_def no_ends_def)
qed

section \<open>Sending, receiving, closing\<close>

lemma step_ok_refl: "chan_inv w \<Longrightarrow> step_ok g nothing nothing w [] w"
  by (simp add: step_ok_def no_ends_def)

lemma step_ok_trans: "step_ok g nothing nothing w [] w1 \<Longrightarrow> step_ok g tk gv w1 es w2 \<Longrightarrow> step_ok g tk gv w es w2"
  by (simp add: step_ok_def)

lemma step_ok_inv: "step_ok g tk gv w es w' \<Longrightarrow> chan_inv w'"
  by (simp add: step_ok_def)

lemma done_trans:
  assumes "step_ok g nothing nothing w [] w1" "\<And>c. pend_got (gs w g) c = pend_got (gs w1 g) c \<and> pend_put (gs w g) c = pend_put (gs w1 g) c"
    "done_ok g op' w1 es w2"
  shows "done_ok g op' w es w2"
proof -
  obtain tk gv where t: "step_ok g tk gv w1 es w2" "case gs w2 g of
        Run o' \<Rightarrow> \<forall>c. received op' o' c = pend_got (gs w1 g) c @ tk c \<and> sent_value op' o' c = pend_put (gs w1 g) c @ gv c
      | Parked _ \<Rightarrow> \<forall>c. pend_got (gs w1 g) c = [] \<and> tk c = [] \<and> pend_put (gs w1 g) c = [] \<and> gv c = []
      | Ready _ _ _ \<Rightarrow> False"
    using assms(3) unfolding done_ok_def by blast
  show ?thesis unfolding done_ok_def
    by (intro exI [of _ tk] exI [of _ gv] conjI step_ok_trans [OF assms(1) t(1)]) (use t(2) assms(2) in \<open>simp split: gstate.splits\<close>)
qed

lemma done_now:
  assumes "chan_inv w" "gs w g = Run o'" "\<forall>s. q \<noteq> Thrown s" "\<And>c. received op' q c = [] \<and> sent_value op' q c = []"
  shows "done_ok g op' w [] (set_g g (Run q) w)"
  by (rule done_run [OF _ assms(2,3), where tk = nothing and gv = nothing])
    (use step_ok_refl [OF assms(1)] assms(2,4) in \<open>simp_all add: fun_eq_iff\<close>)

lemma done_park:
  assumes "chan_inv w'" "\<And>c. contents (chans w' c) = contents (chans w c)" "gs w' = (gs w)(g := Parked op'')" "gs w g = Run o'"
  shows "done_ok g op' w [] w'"
proof -
  have "step_ok g nothing nothing w [] w'" using assms by (simp add: step_ok_def no_ends_def)
  then show ?thesis unfolding done_ok_def by (intro exI [of _ nothing]) (simp add: assms(3,4))
qed

lemma dequeue_none_ok:
  assumes "chan_inv w" "dequeue_side d c w = (None, w1)"
  shows "step_ok g nothing nothing w [] w1 \<and> gs w1 = gs w \<and> chans w1 = (chans w)(c := set_q d [] (chans w c)) \<and> waiting w1 = waiting w"
  using assms(1)
proof (cases rule: dequeue_cases [where d = d and c = c])
  case (none w1')
  then show ?thesis using assms(2) by (auto simp: step_ok_def no_ends_def)
qed (use assms(2) in simp)

text \<open>Parking, with entries in the queues for exactly what the operation wants.\<close>

lemma inv_park:
  assumes "chan_inv w" "gs w g = Run o'" "op_ok op'" "gs w' = (gs w)(g := Parked op')" "selectDone w' = selectDone w"
    "closed_of w' = closed_of w" "\<And>c. chan_ok (chans w' c)" "waiting w' = (waiting w)(g := wait_list g op')"
    "\<And>c d. queues w' c d = queues w c d @ new c d" "\<And>c d. set (new c d) = {sg. wants op' g c d sg}" "\<And>c d. distinct (new c d)"
  shows "chan_inv w'"
  using queues_park [OF inv_queues [OF assms(1)] assms(2,3,9,10,11)] assms(4-7)
    waits_upd [OF inv_waits [OF assms(1)], of "waiting w'" g "Parked op'"] assms(8)
  by (simp add: chan_inv_alt state_waits_def)

lemma running_waits: "chan_inv w \<Longrightarrow> gs w g = Run o' \<Longrightarrow> waiting w g = []"
  using inv_waits by (fastforce simp: waits_ok_def state_waits_def)

lemma forever_ok:
  assumes "chan_inv w" "gs w g = Run o'" "op' = OpForever \<or> op' = OpBlock"
  shows "done_ok g op'' w [] (set_g g (Parked op') w)"
proof (rule done_park [OF _ _ _ assms(2)])
  have "waiting w = (waiting w)(g := wait_list g op')" using running_waits [OF assms(1,2)] assms(3) by auto
  then show "chan_inv (set_g g (Parked op') w)"
    by (intro inv_park [OF assms(1,2), where new = "\<lambda>_ _. []"]) (use assms(3) in \<open>auto simp: inv_chan [OF assms(1)] elim: wants.elims(2)\<close>)
qed simp_all

lemma chansend_ok:
  assumes "chan_inv w" "gs w g = Run o'" "chansend g ch v block w = (w', es)"
  shows "done_ok g (send_op ch v) w es w'"
proof (cases ch)
  case None
  then show ?thesis using assms(3) forever_ok [OF assms(1,2), of OpForever OpForever] done_now [OF assms(1,2), of "SendResult False" OpForever]
    by (auto simp: chansend_def split: if_splits)
next
  case (Some c)
  have op: "send_op ch v = OpSend c v" using Some by simp
  consider (early) "\<not> block \<and> send_would_block (chans w c)" | (closed) "\<not> (\<not> block \<and> send_would_block (chans w c))" "chan_closed (chans w c)"
    | (locked) "\<not> (\<not> block \<and> send_would_block (chans w c))" "\<not> chan_closed (chans w c)" by blast
  then show ?thesis
  proof cases
    case early
    then show ?thesis using done_now [OF assms(1,2), of "SendResult False" "OpSend c v"] assms(3) Some by (simp add: chansend_def)
  next
    case closed
    then show ?thesis using done_now [OF assms(1,2), of "Panicked ''send on closed channel''" "OpSend c v"] assms(3) Some
      by (simp add: chansend_def chansend_locked_def split: if_splits)
  next
    case locked
    obtain sgo w1 where d: "dequeue_side False c w = (sgo, w1)" by (cases "dequeue_side False c w")
    show ?thesis
    proof (cases sgo)
      case (Some sg)
      obtain w2 es2 where s: "chan_send_to c g sg v w1 = (w2, es2)" by (cases "chan_send_to c g sg v w1")
      have "w' = set_g g (Run (SendResult True)) w2" "es = es2"
        using assms(3) \<open>ch = Some c\<close> locked d Some s by (auto simp: chansend_def chansend_locked_def dequeue_sides)
      then show ?thesis unfolding op
        using done_run [OF send_to_ok [OF assms(1) d [unfolded Some] s assms(2)] assms(2), of "SendResult True" "OpSend c v"] by (auto simp: fun_eq_iff)
    next
      case None
      note n = dequeue_none_ok [OF assms(1) d [unfolded None], of g]
      have w1: "chan_inv w1" "gs w1 g = Run o'" using n assms(2) step_ok_inv by auto
      have r: "recvq (chans w1 c) = []" and cl: "\<not> chan_closed (chans w1 c)" using n locked by auto
      have tr: "done_ok g (send_op ch v) w es w'" if "done_ok g (OpSend c v) w1 es w'"
        unfolding op by (rule done_trans [OF conjunct1 [OF n] _ that]) (use n in simp)
      consider (buffer) "qcount (chans w1 c) < dataqsiz (chans w1 c)"
        | (fail) "\<not> qcount (chans w1 c) < dataqsiz (chans w1 c)" "\<not> block"
        | (park) "\<not> qcount (chans w1 c) < dataqsiz (chans w1 c)" "block" by blast
      then show ?thesis
      proof cases
        case buffer
        have "w' = set_g g (Run (SendResult True)) (upd_chan c (buf_send v) w1)" "es = [Put c g v]"
          using assms(3) \<open>ch = Some c\<close> locked d None buffer by (auto simp: chansend_def chansend_locked_def dequeue_sides)
        moreover have "done_ok g (OpSend c v) w1 [Put c g v] (set_g g (Run (SendResult True)) (upd_chan c (buf_send v) w1))"
          by (rule done_run [OF _ w1(2)]) (use buf_send_ok [OF w1(1) r buffer, of g v] w1(2) in \<open>auto simp: fun_eq_iff\<close>)
        ultimately show ?thesis using tr by simp
      next
        case fail
        have "w' = set_g g (Run (SendResult False)) w1" "es = []"
          using assms(3) \<open>ch = Some c\<close> locked d None fail by (auto simp: chansend_def chansend_locked_def dequeue_sides)
        then show ?thesis using tr done_now [OF w1, of "SendResult False" "OpSend c v"] by simp
      next
        case park
        let ?sg = "\<lparr>sg_g = g, isSelect = False, sg_case = 0, sg_elem = v\<rparr>"
        let ?w = "upd_chan c (\<lambda>h. h\<lparr>sendq := sendq h @ [?sg]\<rparr>) (set_waiting g [?sg] w1)"
        have w': "w' = set_g g (Parked (OpSend c v)) ?w" "es = []"
          using assms(3) \<open>ch = Some c\<close> locked d None park by (auto simp: chansend_def chansend_locked_def dequeue_sides Let_def)
        have "chan_ok (chans w1 c)" by (rule inv_chan [OF w1(1)])
        then have ok: "chan_ok ((chans w1 c)\<lparr>sendq := sendq (chans w1 c) @ [?sg]\<rparr>)"
          using r cl park by (auto simp: chan_ok_def ring_ok_def)
        have "chan_inv w'"
          unfolding w' by (rule inv_park [OF w1, where new = "\<lambda>c' d. if c' = c \<and> d then [?sg] else []"])
            (use ok inv_chan [OF w1(1)] in \<open>auto simp: closed_of_def queues_def fun_eq_iff\<close>)
        then have "done_ok g (OpSend c v) w1 [] w'" by (rule done_park [OF _ _ _ w1(2)]) (auto simp: w' contents_def)
        then show ?thesis using tr w'(2) by simp
      qed
    qed
  qed
qed

lemma chanrecv_ok:
  assumes "chan_inv w" "gs w g = Run o'" "chanrecv g ch block w = (w', es)"
  shows "done_ok g (recv_op ch) w es w'"
proof (cases ch)
  case None
  then show ?thesis using assms(3) forever_ok [OF assms(1,2), of OpForever OpForever] done_now [OF assms(1,2), of "RecvResult False False 0" OpForever]
    by (auto simp: chanrecv_def split: if_splits)
next
  case (Some c)
  have op: "recv_op ch = OpRecv c" using Some by simp
  consider (early) "\<not> block \<and> recv_would_block (chans w c)"
    | (closed) "\<not> (\<not> block \<and> recv_would_block (chans w c))" "chan_closed (chans w c) \<and> qcount (chans w c) = 0"
    | (locked) "\<not> (\<not> block \<and> recv_would_block (chans w c))" "\<not> (chan_closed (chans w c) \<and> qcount (chans w c) = 0)" by blast
  then show ?thesis
  proof cases
    case early
    then show ?thesis using done_now [OF assms(1,2), of "RecvResult False False 0" "OpRecv c"] assms(3) Some by (simp add: chanrecv_def)
  next
    case closed
    then show ?thesis using done_now [OF assms(1,2), of "RecvResult True False 0" "OpRecv c"] assms(3) Some
      by (simp add: chanrecv_def chanrecv_locked_def split: if_splits)
  next
    case locked
    obtain sgo w1 where d: "dequeue_side True c w = (sgo, w1)" by (cases "dequeue_side True c w")
    show ?thesis
    proof (cases sgo)
      case (Some sg)
      obtain v w2 es2 where s: "chan_recv_from c g sg w1 = (v, w2, es2)" by (cases "chan_recv_from c g sg w1")
      have "w' = set_g g (Run (RecvResult True True v)) w2" "es = es2"
        using assms(3) \<open>ch = Some c\<close> locked d Some s by (auto simp: chanrecv_def chanrecv_locked_def dequeue_sides)
      then show ?thesis unfolding op
        using done_run [OF recv_from_ok [OF assms(1) d [unfolded Some] s assms(2)] assms(2), of "RecvResult True True v" "OpRecv c"] by (auto simp: fun_eq_iff)
    next
      case None
      note n = dequeue_none_ok [OF assms(1) d [unfolded None], of g]
      have w1: "chan_inv w1" "gs w1 g = Run o'" using n assms(2) step_ok_inv by auto
      have r: "sendq (chans w1 c) = []" and cl: "chan_closed (chans w1 c) = chan_closed (chans w c)" "qcount (chans w1 c) = qcount (chans w c)"
        using n by auto
      have tr: "done_ok g (recv_op ch) w es w'" if "done_ok g (OpRecv c) w1 es w'"
        unfolding op by (rule done_trans [OF conjunct1 [OF n] _ that]) (use n in simp)
      consider (buffer) "0 < qcount (chans w1 c)"
        | (fail) "\<not> 0 < qcount (chans w1 c)" "\<not> block"
        | (park) "\<not> 0 < qcount (chans w1 c)" "block" by blast
      then show ?thesis
      proof cases
        case buffer
        obtain v h where b: "buf_recv (chans w1 c) = (v, h)" by (cases "buf_recv (chans w1 c)")
        have "w' = set_g g (Run (RecvResult True True v)) (upd_chan c (\<lambda>_. h) w1)" "es = [Got c g v]"
          using assms(3) \<open>ch = Some c\<close> locked d None buffer b by (auto simp: chanrecv_def chanrecv_locked_def dequeue_sides)
        moreover have "done_ok g (OpRecv c) w1 [Got c g v] (set_g g (Run (RecvResult True True v)) (upd_chan c (\<lambda>_. h) w1))"
          by (rule done_run [OF _ w1(2)]) (use buf_recv_ok [OF w1(1) r buffer b, of g] w1(2) in \<open>auto simp: fun_eq_iff\<close>)
        ultimately show ?thesis using tr by simp
      next
        case fail
        have "w' = set_g g (Run (RecvResult False False 0)) w1" "es = []"
          using assms(3) \<open>ch = Some c\<close> locked d None fail by (auto simp: chanrecv_def chanrecv_locked_def dequeue_sides)
        then show ?thesis using tr done_now [OF w1, of "RecvResult False False 0" "OpRecv c"] by simp
      next
        case park
        let ?sg = "\<lparr>sg_g = g, isSelect = False, sg_case = 0, sg_elem = 0\<rparr>"
        let ?w = "upd_chan c (\<lambda>h. h\<lparr>recvq := recvq h @ [?sg]\<rparr>) (set_waiting g [?sg] w1)"
        have w': "w' = set_g g (Parked (OpRecv c)) ?w" "es = []"
          using assms(3) \<open>ch = Some c\<close> locked d None park by (auto simp: chanrecv_def chanrecv_locked_def dequeue_sides Let_def)
        have "chan_ok (chans w1 c)" by (rule inv_chan [OF w1(1)])
        then have ok: "chan_ok ((chans w1 c)\<lparr>recvq := recvq (chans w1 c) @ [?sg]\<rparr>)"
          using r cl park locked by (auto simp: chan_ok_def ring_ok_def)
        have "chan_inv w'"
          unfolding w' by (rule inv_park [OF w1, where new = "\<lambda>c' d. if c' = c \<and> \<not> d then [?sg] else []"])
            (use ok inv_chan [OF w1(1)] in \<open>auto simp: closed_of_def queues_def fun_eq_iff\<close>)
        then have "done_ok g (OpRecv c) w1 [] w'" by (rule done_park [OF _ _ _ w1(2)]) (auto simp: w' contents_def)
        then show ?thesis using tr w'(2) by simp
      qed
    qed
  qed
qed

lemma set_queue_again [simp]: "set_queue (set_queue Q c d q) c d q' = set_queue Q c d q'"
  by (simp add: fun_eq_iff)

lemma set_queue_same: "Q c d = q \<Longrightarrow> set_queue Q c d q = Q"
  by (auto simp: fun_eq_iff)

text \<open>What waking by a close leaves as it is.\<close>

definition woken_only :: "('v::zero) world \<Rightarrow> 'v world \<Rightarrow> bool" where
  "woken_only w w' \<longleftrightarrow> chans w' = chans w \<and> waiting w' = waiting w \<and> (\<forall>g o'. gs w g = Run o' \<longrightarrow> gs w' g = Run o')
     \<and> (\<forall>g. state_waits g (gs w' g) = state_waits g (gs w g))
     \<and> (\<forall>g c. pend_got (gs w' g) c = pend_got (gs w g) c \<and> pend_put (gs w' g) c = pend_put (gs w g) c)"

lemma woken_only_trans: "woken_only w w1 \<Longrightarrow> woken_only w1 w2 \<Longrightarrow> woken_only w w2"
  by (simp add: woken_only_def)

lemma release_all_ok:
  assumes "queues_ok (gs w) (selectDone w) (set_queue Q c d q) cl" "cl c"
  shows "queues_ok (gs (release_all q w)) (selectDone (release_all q w)) (set_queue Q c d []) cl
    \<and> woken_only w (release_all q w)"
  using assms(1)
proof (induction q w rule: release_all.induct)
  case (2 sg q w)
  show ?case
  proof (cases "isSelect sg \<and> selectDone w (sg_g sg)")
    case True
    have "queues_ok (gs w) (selectDone w) (set_queue Q c d q) cl"
      using queues_drop [OF 2(3), of c d "[sg]" q] True by simp
    then show ?thesis using 2(1) True by simp
  next
    case False
    obtain op' where op: "gs w (sg_g sg) = Parked op'" "wants op' (sg_g sg) c d sg"
      using entry_parked [OF 2(3) _ False, of c d] by auto
    let ?w = "goready (sg_g sg) None 0 (if isSelect sg then w\<lparr>selectDone := (selectDone w)(sg_g sg := True)\<rparr> else w)"
    have w: "gs ?w = (gs w)(sg_g sg := Ready op' None 0)" "chans ?w = chans w" "waiting ?w = waiting w"
      "selectDone ?w = (if isSelect sg then (selectDone w)(sg_g sg := True) else selectDone w)"
      using op(1) by (simp_all add: goready_def)
    have "queues_ok (gs ?w) (selectDone ?w) (set_queue (set_queue Q c d (sg # q)) c d q) cl"
      unfolding w by (rule queues_ready [OF 2(3) _ False op]) (use assms(2) in simp_all)
    then have "queues_ok (gs ?w) (selectDone ?w) (set_queue Q c d q) cl" by simp
    note IH = 2(2) [OF False this]
    have keep: "woken_only w ?w" using op(1) unfolding woken_only_def w by (auto simp: state_waits_def)
    have "release_all (sg # q) w = release_all q ?w"
      using False by (subst release_all.simps) (rule if_not_P)
    then show ?thesis using IH woken_only_trans [OF keep] by simp
  qed
qed (simp add: woken_only_def)

lemma closechan_ok:
  assumes "chan_inv w" "gs w g = Run o'"
  shows "done_ok g OpBlock w [] (closechan g ch w)"
proof (cases ch)
  case None
  show ?thesis unfolding None closechan_def option.case
    by (rule done_now [OF assms]) auto
next
  case (Some c)
  let ?h = "chans w c"
  let ?w0 = "upd_chan c (\<lambda>h. h\<lparr>chan_closed := True, recvq := [], sendq := []\<rparr>) w"
  let ?w1 = "release_all (recvq ?h) ?w0" and ?cl = "(closed_of w)(c := True)"
  let ?Q1 = "set_queue (queues w) c False []"
  show ?thesis
  proof (cases "chan_closed ?h")
    case True
    then show ?thesis using done_now [OF assms, of "Panicked ''close of closed channel''" OpBlock] Some
      by (simp add: closechan_def)
  next
    case False
    have "queues_ok (gs w) (selectDone w) (queues w) ?cl"
      using queues_close [OF inv_queues [OF assms(1)], of ?cl] by simp
    moreover have "set_queue (queues w) c False (recvq ?h) = queues w"
      by (rule set_queue_same) (simp add: queues_def)
    moreover have "gs ?w0 = gs w" "selectDone ?w0 = selectDone w" by simp_all
    ultimately have 0: "queues_ok (gs ?w0) (selectDone ?w0) (set_queue (queues w) c False (recvq ?h)) ?cl"
      by metis
    note 1 = release_all_ok [OF 0]
    have "set_queue ?Q1 c True (sendq ?h) = ?Q1"
      by (rule set_queue_same) (simp add: queues_def)
    then have "queues_ok (gs ?w1) (selectDone ?w1) (set_queue ?Q1 c True (sendq ?h)) ?cl"
      using 1 by (simp only:) simp
    note 2 = release_all_ok [OF this]
    let ?w2 = "release_all (sendq ?h) ?w1"
    have wo: "woken_only ?w0 ?w2" by (rule woken_only_trans [OF conjunct2 [OF 1] conjunct2 [OF 2]]) simp_all
    then have ch: "chans ?w2 = (chans w)(c := ?h\<lparr>chan_closed := True, recvq := [], sendq := []\<rparr>)" by (simp add: woken_only_def)
    have g: "gs ?w2 g = Run o'" using wo assms(2) by (simp add: woken_only_def)
    have q: "queues ?w2 = set_queue ?Q1 c True []" by (auto simp: fun_eq_iff queues_def ch)
    have cl: "closed_of ?w2 = ?cl" by (auto simp: fun_eq_iff closed_of_def ch)
    have "chan_ok (chans ?w2 c')" for c'
      using inv_chan [OF assms(1), of c'] by (auto simp: ch chan_ok_def ring_ok_def)
    moreover have "waits_ok (gs ?w2) (waiting ?w2)"
      using inv_waits [OF assms(1)] wo by (simp add: waits_ok_def woken_only_def)
    ultimately have "chan_inv ?w2" using 2 by (simp add: chan_inv_alt q cl)
    then have "step_ok g nothing nothing w [] ?w2"
      using wo by (auto simp: step_ok_def no_ends_def woken_only_def ch contents_def)
    then have "done_ok g OpBlock w [] (set_g g (Run CloseResult) ?w2)"
      by (intro done_run [OF _ assms(2), where tk = nothing and gv = nothing]) (use g in \<open>simp_all add: fun_eq_iff\<close>)
    then show ?thesis using False Some by (simp add: closechan_def Let_def)
  qed
qed

section \<open>Going on\<close>

lemma woken_waits:
  assumes "chan_inv w" "gs w g = Ready op' param got" "wait_list g op' = [sg]"
  shows "waits_with g sg w"
  using inv_waits [OF assms(1)] assms(2,3) by (simp add: waits_with_def waits_ok_def state_waits_def)

text \<open>Ending an operation that another goroutine has completed.\<close>

lemma done_wake:
  assumes "chan_inv w" "gs w g = Ready op' p x" "\<not> is_select op'" "\<forall>s. q \<noteq> Thrown s"
    and "\<And>c. received op' q c = pend_got (gs w g) c \<and> sent_value op' q c = pend_put (gs w g) c"
  shows "done_ok g op' w [] (set_g g (Run q) (set_waiting g [] w))"
proof -
  have "step_ok g nothing nothing w [] (set_g g (Run q) (set_waiting g [] w))"
    using inv_wake [OF assms(1-4)] by (simp add: step_ok_def no_ends_def)
  then show ?thesis unfolding done_ok_def using assms(5) by (intro exI [of _ nothing]) simp
qed

lemma resume_send_ok:
  assumes "chan_inv w" "gs w g = Ready (OpSend c v) param got"
  shows "done_ok g (OpSend c v) w [] (resume_send g c v param w)"
proof -
  have "g_ok (closed_of w) (gs w g)" using inv_queues [OF assms(1)] by (simp add: queues_ok_def)
  then have cl: "param = None \<Longrightarrow> chan_closed (chans w c)" using assms(2) by (simp add: closed_of_def)
  have "done_ok g (OpSend c v) w [] (set_g g (Run (SendResult True)) (set_waiting g [] w))" if "param \<noteq> None"
    by (rule done_wake [OF assms]) (use assms(2) that in \<open>auto simp: is_select_def\<close>)
  moreover have "done_ok g (OpSend c v) w [] (set_g g (Run (Panicked ''send on closed channel'')) (set_waiting g [] w))" if "param = None"
    by (rule done_wake [OF assms]) (use assms(2) that in \<open>auto simp: is_select_def\<close>)
  ultimately show ?thesis using woken_waits [OF assms] cl
    by (cases param) (simp_all add: resume_send_def Let_def)
qed

lemma resume_recv_ok:
  assumes "chan_inv w" "gs w g = Ready (OpRecv c) param got"
  shows "done_ok g (OpRecv c) w [] (resume_recv g param got w)"
proof -
  have "done_ok g (OpRecv c) w [] (set_g g (Run (RecvResult True (param \<noteq> None) got)) (set_waiting g [] w))"
    by (rule done_wake [OF assms]) (use assms(2) in \<open>(cases param; auto simp: is_select_def)+\<close>)
  then show ?thesis using woken_waits [OF assms] by (simp add: resume_recv_def)
qed

text \<open>Nobody is woken from waiting for nothing.\<close>

lemma never_woken:
  assumes "chan_inv w"
  shows "gs w g \<noteq> Ready OpForever param got"
proof -
  have "g_ok (closed_of w) (gs w g)" using inv_queues [OF assms] by (simp add: queues_ok_def)
  then show ?thesis by auto
qed

end
