(* ===== verification/ChanSelect.thy ===== *)
theory ChanSelect
  imports ChanSteps
begin

text \<open>
  The same for \<open>selectgo\<close> and so for every step of a goroutine: in every reachable state the invariant
  holds, and the values of a channel come out in the order in which they went in.
\<close>

section \<open>Pass 1\<close>

text \<open>A case that pass 1 found not ready.\<close>

definition not_ready :: "'v world \<Rightarrow> 'v scase \<Rightarrow> bool" where
  "not_ready w cas \<longleftrightarrow> (case (sc_kind cas, sc_c cas) of
     (caseRecv, Some c) \<Rightarrow> sendq (chans w c) = [] \<and> qcount (chans w c) = 0 \<and> \<not> chan_closed (chans w c)
   | (caseSend, Some c) \<Rightarrow> recvq (chans w c) = [] \<and> \<not> qcount (chans w c) < dataqsiz (chans w c) \<and> \<not> chan_closed (chans w c)
   | _ \<Rightarrow> True)"

definition shrunk :: "'v world \<Rightarrow> 'v world \<Rightarrow> bool" where
  "shrunk w w' \<longleftrightarrow> (\<forall>c. qcount (chans w' c) = qcount (chans w c) \<and> dataqsiz (chans w' c) = dataqsiz (chans w c)
     \<and> chan_closed (chans w' c) = chan_closed (chans w c)
     \<and> (recvq (chans w c) = [] \<longrightarrow> recvq (chans w' c) = []) \<and> (sendq (chans w c) = [] \<longrightarrow> sendq (chans w' c) = []))"

lemma shrunk_refl: "shrunk w w"
  by (simp add: shrunk_def)

lemma shrunk_trans: "shrunk w w1 \<Longrightarrow> shrunk w1 w2 \<Longrightarrow> shrunk w w2"
  by (simp add: shrunk_def)

lemma not_ready_shrunk: "shrunk w w' \<Longrightarrow> not_ready w cas \<Longrightarrow> not_ready w' cas"
  by (auto simp: not_ready_def shrunk_def split: scase_kind.splits option.splits)

definition poll_ok where
  "poll_ok g scases op' pollorder w r \<longleftrightarrow> (case r of
     Inl (w', es) \<Rightarrow> done_ok g op' w es w'
   | Inr (w', dfl) \<Rightarrow> step_ok g nothing nothing w [] w' \<and> gs w' = gs w \<and> waiting w' = waiting w \<and> shrunk w w'
       \<and> (\<forall>i. dfl = Some i \<longrightarrow> sc_kind (scases ! i) = caseDefault) \<and> (\<forall>i\<in>set pollorder. not_ready w' (scases ! i)))"

lemma poll_ok_skip:
  assumes "step_ok g nothing nothing w [] w1" "gs w1 = gs w" "waiting w1 = waiting w" "shrunk w w1" "not_ready w1 (scases ! i)"
    "poll_ok g scases op' po w1 r"
  shows "poll_ok g scases op' (i # po) w r"
proof (cases r)
  case (Inl a)
  obtain w' es where a: "a = (w', es)" by (cases a)
  have "done_ok g op' w es w'"
    by (rule done_trans [OF assms(1)]) (use assms(2,6) Inl a in \<open>simp_all add: poll_ok_def\<close>)
  then show ?thesis using Inl a by (simp add: poll_ok_def)
next
  case (Inr a)
  obtain w' dfl where a: "a = (w', dfl)" by (cases a)
  have p: "step_ok g nothing nothing w1 [] w'" "gs w' = gs w1" "waiting w' = waiting w1" "shrunk w1 w'"
    "\<forall>i\<in>set po. not_ready w' (scases ! i)" "\<forall>i. dfl = Some i \<longrightarrow> sc_kind (scases ! i) = caseDefault"
    using assms(6) Inr a by (auto simp: poll_ok_def)
  then show ?thesis using Inr a assms(2,3) step_ok_trans [OF assms(1)] shrunk_trans [OF assms(4)] not_ready_shrunk [OF p(4) assms(5)]
    by (simp add: poll_ok_def)
qed

lemma select_poll_ok:
  assumes "chan_inv w" "gs w g = Run o'" "\<forall>i\<in>set pollorder. i < length scases"
    "\<forall>i. dfl = Some i \<longrightarrow> sc_kind (scases ! i) = caseDefault"
  shows "poll_ok g scases (OpSelect scases po0 lo0) pollorder w (select_poll g scases pollorder dfl w)"
  using assms
proof (induction pollorder arbitrary: dfl w)
  case Nil
  then show ?case by (simp add: poll_ok_def step_ok_refl shrunk_def)
next
  case (Cons i po)
  let ?cas = "scases ! i" and ?op = "OpSelect scases po0 lo0"
  have i: "i < length scases" and po: "\<forall>i\<in>set po. i < length scases" using Cons.prems(3) by simp_all
  have skip: "poll_ok g scases ?op (i # po) w (select_poll g scases po dfl' w)"
    if "not_ready w ?cas" "\<forall>j. dfl' = Some j \<longrightarrow> sc_kind (scases ! j) = caseDefault" for dfl'
    by (rule poll_ok_skip [OF step_ok_refl [OF Cons.prems(1)] refl refl _ that(1) Cons.IH [OF Cons.prems(1,2) po that(2)]])
      (simp add: shrunk_def)
  consider (recv) c where "sc_kind ?cas = caseRecv" "sc_c ?cas = Some c"
    | (send) c where "sc_kind ?cas = caseSend" "sc_c ?cas = Some c"
    | (other) "not_ready w ?cas" "\<exists>dfl'. select_poll g scases (i # po) dfl w = select_poll g scases po dfl' w
        \<and> (\<forall>j. dfl' = Some j \<longrightarrow> sc_kind (scases ! j) = caseDefault)"
    using Cons.prems(4) by (cases "sc_kind ?cas"; cases "sc_c ?cas") (auto simp: not_ready_def)
  then show ?case
  proof cases
    case recv
    obtain sgo w1 where d: "dequeue_side True c w = (sgo, w1)" by (cases "dequeue_side True c w")
    show ?thesis
    proof (cases sgo)
      case (Some sg)
      obtain v w2 es where s: "chan_recv_from c g sg w1 = (v, w2, es)" by (cases "chan_recv_from c g sg w1")
      have "done_ok g ?op w es (set_g g (Run (SelectResult i True v)) w2)"
        by (rule done_run [OF recv_from_ok [OF Cons.prems(1) d [unfolded Some] s Cons.prems(2)] Cons.prems(2)])
          (use recv i in \<open>auto simp: fun_eq_iff\<close>)
      then show ?thesis using recv d Some s by (simp add: poll_ok_def dequeue_sides Let_def)
    next
      case None
      note n = dequeue_none_ok [OF Cons.prems(1) d [unfolded None], of g]
      have w1: "chan_inv w1" "gs w1 g = Run o'" using n Cons.prems(2) step_ok_inv by auto
      have r: "sendq (chans w1 c) = []" and sh: "shrunk w w1" using n by (auto simp: shrunk_def set_q_def)
      have tr: "done_ok g ?op w es w'" if "done_ok g ?op w1 es w'" for es w'
        by (rule done_trans [OF conjunct1 [OF n] _ that]) (use n in simp)
      consider (buffer) "0 < qcount (chans w1 c)" | (closed) "qcount (chans w1 c) = 0" "chan_closed (chans w1 c)"
        | (idle) "qcount (chans w1 c) = 0" "\<not> chan_closed (chans w1 c)" by blast
      then show ?thesis
      proof cases
        case buffer
        obtain v h where b: "buf_recv (chans w1 c) = (v, h)" by (cases "buf_recv (chans w1 c)")
        have "done_ok g ?op w1 [Got c g v] (set_g g (Run (SelectResult i True v)) (upd_chan c (\<lambda>_. h) w1))"
          by (rule done_run [OF _ w1(2)]) (use buf_recv_ok [OF w1(1) r buffer b, of g] w1(2) recv i in \<open>auto simp: fun_eq_iff\<close>)
        then show ?thesis using recv d None buffer b tr
          by (simp add: poll_ok_def dequeue_sides Let_def)
      next
        case closed
        have "done_ok g ?op w [] (set_g g (Run (SelectResult i False 0)) w1)"
          by (rule tr, rule done_now [OF w1]) (use recv in auto)
        then show ?thesis using recv d None closed by (simp add: poll_ok_def dequeue_sides Let_def)
      next
        case idle
        have "not_ready w1 ?cas" using recv r idle by (simp add: not_ready_def)
        from poll_ok_skip [OF _ _ _ sh this Cons.IH [OF w1 po Cons.prems(4)]] show ?thesis
          using recv d None idle n by (simp add: dequeue_sides)
      qed
    qed
  next
    case send
    show ?thesis
    proof (cases "chan_closed (chans w c)")
      case True
      have "done_ok g ?op w [] (set_g g (Run (Panicked ''send on closed channel'')) w)"
        by (rule done_now [OF Cons.prems(1,2)]) auto
      then show ?thesis using send True by (simp add: poll_ok_def)
    next
      case False
      obtain sgo w1 where d: "dequeue_side False c w = (sgo, w1)" by (cases "dequeue_side False c w")
      show ?thesis
      proof (cases sgo)
        case (Some sg)
        obtain w2 es where s: "chan_send_to c g sg (sc_elem ?cas) w1 = (w2, es)" by (cases "chan_send_to c g sg (sc_elem ?cas) w1")
        have "done_ok g ?op w es (set_g g (Run (SelectResult i False 0)) w2)"
          by (rule done_run [OF send_to_ok [OF Cons.prems(1) d [unfolded Some] s Cons.prems(2)] Cons.prems(2)])
            (use send i in \<open>auto simp: fun_eq_iff\<close>)
        then show ?thesis using send False d Some s by (simp add: poll_ok_def dequeue_sides Let_def)
      next
        case None
        note n = dequeue_none_ok [OF Cons.prems(1) d [unfolded None], of g]
        have w1: "chan_inv w1" "gs w1 g = Run o'" using n Cons.prems(2) step_ok_inv by auto
        have r: "recvq (chans w1 c) = []" and sh: "shrunk w w1" using n by (auto simp: shrunk_def set_q_def)
        have tr: "done_ok g ?op w es w'" if "done_ok g ?op w1 es w'" for es w'
          by (rule done_trans [OF conjunct1 [OF n] _ that]) (use n in simp)
        show ?thesis
        proof (cases "qcount (chans w1 c) < dataqsiz (chans w1 c)")
          case True
          have "done_ok g ?op w1 [Put c g (sc_elem ?cas)] (set_g g (Run (SelectResult i False 0)) (upd_chan c (buf_send (sc_elem ?cas)) w1))"
            by (rule done_run [OF _ w1(2)])
              (use buf_send_ok [OF w1(1) r True, of g "sc_elem ?cas"] w1(2) send i in \<open>auto simp: fun_eq_iff\<close>)
          then show ?thesis using send False d None True tr
            by (simp add: poll_ok_def dequeue_sides Let_def)
        next
          case idle: False
          have "not_ready w1 ?cas" using send r idle False n by (simp add: not_ready_def)
          from poll_ok_skip [OF _ _ _ sh this Cons.IH [OF w1 po Cons.prems(4)]] show ?thesis
            using send d None idle False n by (simp add: dequeue_sides)
        qed
      qed
    qed
  next
    case other
    then show ?thesis using skip by auto
  qed
qed

section \<open>Pass 2 and parking\<close>

definition case_on :: "'v scase list \<Rightarrow> nat \<Rightarrow> bool \<Rightarrow> nat \<Rightarrow> bool" where
  "case_on scases c d i \<longleftrightarrow> sc_c (scases ! i) = Some c \<and> sc_kind (scases ! i) = (if d then caseSend else caseRecv)"

definition case_entries :: "nat \<Rightarrow> 'v scase list \<Rightarrow> nat list \<Rightarrow> nat \<Rightarrow> bool \<Rightarrow> 'v sudog list" where
  "case_entries g scases is c d = map (case_entry g scases) (filter (case_on scases c d) is)"

definition only_queues :: "'v world \<Rightarrow> 'v world \<Rightarrow> bool" where
  "only_queues w w' \<longleftrightarrow> gs w' = gs w \<and> selectDone w' = selectDone w
     \<and> (\<forall>c. chans w' c = (chans w c)\<lparr>recvq := queues w' c False, sendq := queues w' c True\<rparr>)"

lemma only_queues_refl: "only_queues w w"
  by (simp add: only_queues_def queues_def)

lemma only_queues_trans: "only_queues w w1 \<Longrightarrow> only_queues w1 w2 \<Longrightarrow> only_queues w w2"
  by (simp add: only_queues_def)

lemma select_enqueue_ok:
  "only_queues w (select_enqueue g scases is w)
    \<and> (\<forall>c d. queues (select_enqueue g scases is w) c d = queues w c d @ case_entries g scases is c d)
    \<and> waiting (select_enqueue g scases is w)
        = (waiting w)(g := waiting w g @ map (case_entry g scases) (filter (\<lambda>i. sc_kind (scases ! i) \<noteq> caseNil) is))"
proof (induction "is" arbitrary: w)
  case Nil
  then show ?case by (simp add: only_queues_refl case_entries_def)
next
  case (Cons i "is")
  define w1 where "w1 = (if sc_kind (scases ! i) = caseNil then w
    else let w = set_waiting g (waiting w g @ [case_entry g scases i]) w in
      case (sc_kind (scases ! i), sc_c (scases ! i)) of
        (caseRecv, Some c) \<Rightarrow> upd_chan c (\<lambda>h. h\<lparr>recvq := recvq h @ [case_entry g scases i]\<rparr>) w
      | (caseSend, Some c) \<Rightarrow> upd_chan c (\<lambda>h. h\<lparr>sendq := sendq h @ [case_entry g scases i]\<rparr>) w
      | _ \<Rightarrow> w)"
  let ?w2 = "select_enqueue g scases is w1"
  let ?new = "\<lambda>is. map (case_entry g scases) (filter (\<lambda>i. sc_kind (scases ! i) \<noteq> caseNil) is)"
  have 1: "only_queues w w1 \<and> (\<forall>c d. queues w1 c d = queues w c d @ case_entries g scases [i] c d)"
    by (auto simp: w1_def only_queues_def queues_def case_entries_def case_on_def Let_def split: scase_kind.split option.split)
  have w1: "waiting w1 = (waiting w)(g := waiting w g @ ?new [i])"
    by (auto simp: w1_def Let_def split: scase_kind.split option.split)
  have IH: "only_queues w1 ?w2 \<and> (\<forall>c d. queues ?w2 c d = queues w1 c d @ case_entries g scases is c d)
      \<and> waiting ?w2 = (waiting w1)(g := waiting w1 g @ ?new is)"
    by (rule Cons.IH)
  have "only_queues w ?w2" using 1 IH only_queues_trans by blast
  moreover have "queues ?w2 c d = queues w c d @ case_entries g scases (i # is) c d" for c d
    using 1 IH by (simp add: case_entries_def)
  moreover have "waiting ?w2 = (waiting w)(g := waiting w g @ ?new (i # is))" using IH w1 by simp
  moreover have "select_enqueue g scases (i # is) w = ?w2" by (simp only: select_enqueue.simps Let_def w1_def)
  ultimately show ?case by presburger
qed

lemma wants_case_entries:
  assumes "op_ok (OpSelect scases po lo)"
  shows "set (case_entries g scases lo c d) = {sg. wants (OpSelect scases po lo) g c d sg}" "distinct (case_entries g scases lo c d)"
proof -
  have lo: "mset lo = mset [0..<length scases]" using assms by simp
  then have s: "set lo = {0..<length scases}" by (metis set_mset_mset set_upt)
  have "distinct lo" using lo by (metis distinct_upt mset_eq_imp_distinct_iff)
  then show "distinct (case_entries g scases lo c d)"
    by (auto simp: case_entries_def distinct_map inj_on_def)
  show "set (case_entries g scases lo c d) = {sg. wants (OpSelect scases po lo) g c d sg}"
    by (auto simp: case_entries_def case_on_def s image_iff intro!: sudog.equality)
qed

lemma chan_ok_append:
  assumes "chan_ok h" "r \<noteq> [] \<Longrightarrow> sendq h = [] \<and> qcount h = 0 \<and> \<not> chan_closed h"
    "s \<noteq> [] \<Longrightarrow> recvq h = [] \<and> \<not> qcount h < dataqsiz h \<and> \<not> chan_closed h"
    and g: "\<forall>a\<in>set r \<union> set s. sg_g a = g"
  shows "chan_ok (h\<lparr>recvq := recvq h @ r, sendq := sendq h @ s\<rparr>)"
proof -
  have "ring_ok (h\<lparr>recvq := recvq h @ r, sendq := sendq h @ s\<rparr>)" using assms(1) by (simp add: chan_ok_def ring_ok_def)
  moreover have "sg_g a = sg_g b" if ab: "a \<in> set (recvq h @ r)" "b \<in> set (sendq h @ s)" for a b
  proof -
    have "a \<in> set r \<Longrightarrow> b \<notin> set (sendq h)" "b \<in> set s \<Longrightarrow> a \<notin> set (recvq h)" using assms(2,3) by force+
    moreover have "a \<in> set (recvq h) \<Longrightarrow> b \<in> set (sendq h) \<Longrightarrow> sg_g a = sg_g b" using assms(1) unfolding chan_ok_def by blast
    moreover have "a \<in> set r \<Longrightarrow> sg_g a = g" "b \<in> set s \<Longrightarrow> sg_g b = g" using g by blast+
    ultimately show ?thesis using ab by (metis Un_iff set_append)
  qed
  moreover have "recvq h @ r = []" if "0 < qcount h \<or> chan_closed h"
    using assms(1,2) that unfolding chan_ok_def by (cases "r = []") auto
  moreover have "sendq h @ s = []" if "qcount h < dataqsiz h \<or> chan_closed h"
    using assms(1,3) that unfolding chan_ok_def by (cases "s = []") auto
  ultimately show ?thesis by (simp add: chan_ok_def)
qed

lemma chan_ok_case_entries:
  assumes "chan_ok (chans w c)" "\<forall>i\<in>set is. not_ready w (scases ! i)"
  shows "chan_ok ((chans w c)\<lparr>recvq := recvq (chans w c) @ case_entries g scases is c False,
    sendq := sendq (chans w c) @ case_entries g scases is c True\<rparr>)"
proof -
  have nr: "sendq (chans w c) = [] \<and> qcount (chans w c) = 0 \<and> \<not> chan_closed (chans w c)"
    if new: "case_entries g scases is c False \<noteq> []"
  proof -
    obtain i where "i \<in> set is" "case_on scases c False i"
      using new by (auto simp: case_entries_def filter_empty_conv)
    then show ?thesis using assms(2) by (fastforce simp: not_ready_def case_on_def)
  qed
  have ns: "recvq (chans w c) = [] \<and> \<not> qcount (chans w c) < dataqsiz (chans w c) \<and> \<not> chan_closed (chans w c)"
    if new: "case_entries g scases is c True \<noteq> []"
  proof -
    obtain i where "i \<in> set is" "case_on scases c True i"
      using new by (auto simp: case_entries_def filter_empty_conv)
    then show ?thesis using assms(2) by (fastforce simp: not_ready_def case_on_def)
  qed
  show ?thesis
    by (rule chan_ok_append [OF assms(1) nr ns, where g = g]) (auto simp: case_entries_def)
qed

lemma select_loop_ok:
  assumes "chan_inv w" "gs w g = Run o'" "op_ok (OpSelect scases po lo)" "select_loop g scases po lo w = (w', es)"
  shows "done_ok g (OpSelect scases po0 lo0) w es w'"
proof -
  let ?op = "OpSelect scases po0 lo0"
  have "mset po = mset [0..<length scases]" using assms(3) by simp
  then have "set po = {0..<length scases}" by (metis set_mset_mset set_upt)
  then have p: "poll_ok g scases ?op po w (select_poll g scases po None w)" by (intro select_poll_ok [OF assms(1,2)]) auto
  show ?thesis
  proof (cases "select_poll g scases po None w")
    case (Inl r)
    then show ?thesis using p assms(4) by (auto simp: poll_ok_def select_loop_def)
  next
    case (Inr r)
    obtain w1 dfl where r: "r = (w1, dfl)" by (cases r)
    have w1: "step_ok g nothing nothing w [] w1" "gs w1 = gs w" "waiting w1 = waiting w" "\<forall>i\<in>set po. not_ready w1 (scases ! i)"
      "\<forall>i. dfl = Some i \<longrightarrow> sc_kind (scases ! i) = caseDefault"
      using p Inr r by (auto simp: poll_ok_def)
    have i1: "chan_inv w1" "gs w1 g = Run o'" using w1(1,2) assms(2) step_ok_inv by auto
    have tr: "done_ok g ?op w es w'" if "done_ok g ?op w1 es w'"
      by (rule done_trans [OF w1(1) _ that]) (simp add: w1(2))
    show ?thesis
    proof (cases dfl)
      case (Some i)
      have "done_ok g ?op w1 [] (set_g g (Run (SelectResult i False 0)) w1)"
        by (rule done_now [OF i1]) (use w1(5) Some in auto)
      then show ?thesis using Inr r Some assms(4) tr by (auto simp: select_loop_def)
    next
      case None
      let ?w2 = "select_enqueue g scases lo w1"
      have none: "waiting w1 g = []" by (rule running_waits [OF i1])
      then have w': "w' = set_g g (Parked (OpSelect scases po lo)) ?w2" "es = []"
        using Inr r None assms(4) by (auto simp: select_loop_def)
      have e: "only_queues w1 ?w2" "\<And>c d. queues ?w2 c d = queues w1 c d @ case_entries g scases lo c d"
        "waiting ?w2 = (waiting w1)(g := wait_list g (OpSelect scases po lo))"
        using select_enqueue_ok [of w1 g scases lo] none by simp_all
      have chans: "chans ?w2 c = (chans w1 c)\<lparr>recvq := recvq (chans w1 c) @ case_entries g scases lo c False,
          sendq := sendq (chans w1 c) @ case_entries g scases lo c True\<rparr>" for c
        using e(1) by (simp only: only_queues_def e(2)) (simp add: queues_def)
      have "mset lo = mset po" using assms(3) by simp
      then have "set lo = set po" by (rule mset_eq_setD)
      then have ok: "chan_ok (chans w' c)" for c
        using chan_ok_case_entries [OF inv_chan [OF i1(1)], of lo scases c g] w1(4)
        by (simp add: w' chans)
      have cl: "closed_of w' = closed_of w1" by (simp add: fun_eq_iff closed_of_def w' chans)
      have gs': "gs w' = (gs w1)(g := Parked (OpSelect scases po lo))" using e(1) by (simp add: w' only_queues_def)
      have "chan_inv w'"
        by (rule inv_park [OF i1 assms(3) gs' _ cl ok, where new = "case_entries g scases lo"])
          (use e(1) w' in \<open>simp add: only_queues_def\<close>,
            use e w' in \<open>simp_all add: wants_case_entries [OF assms(3)] del: wants.simps\<close>)
      then have "done_ok g ?op w1 [] w'"
        by (rule done_park [OF _ _ gs' i1(2)]) (simp add: w' chans contents_def)
      then show ?thesis using tr w'(2) by simp
    qed
  qed
qed

section \<open>Pass 3\<close>

lemma fold_remove1:
  "distinct q \<Longrightarrow> fold remove1 xs q = filter (\<lambda>a. a \<notin> set xs) q"
proof (induction xs arbitrary: q)
  case (Cons x xs)
  then show ?case by (simp add: distinct_remove1_removeAll removeAll_filter_not_eq) (metis (lifting) filter_cong)
qed simp

definition fired :: "nat option \<Rightarrow> nat list \<Rightarrow> nat list" where
  "fired param is = filter (\<lambda>i. param \<noteq> Some i) is"

text \<open>Pass 3 with the entries written out: on the list that pass 2 has linked, \<open>select_dequeue\<close> is this.\<close>

fun drop_entries :: "nat \<Rightarrow> 'v scase list \<Rightarrow> nat option \<Rightarrow> nat list \<Rightarrow> 'v world \<Rightarrow> 'v world" where
  "drop_entries g scases param [] w = w"
| "drop_entries g scases param (i # is) w = drop_entries g scases param is
     (if param = Some i then w
      else case (sc_kind (scases ! i), sc_c (scases ! i)) of
        (caseSend, Some c) \<Rightarrow> upd_chan c (\<lambda>h. h\<lparr>sendq := remove1 (case_entry g scases i) (sendq h)\<rparr>) w
      | (caseRecv, Some c) \<Rightarrow> upd_chan c (\<lambda>h. h\<lparr>recvq := remove1 (case_entry g scases i) (recvq h)\<rparr>) w
      | _ \<Rightarrow> w)"

definition found_case :: "'v scase list \<Rightarrow> nat option \<Rightarrow> nat list \<Rightarrow> nat option \<Rightarrow> nat option" where
  "found_case scases param is cas = (if \<exists>i\<in>set is. sc_kind (scases ! i) \<noteq> caseNil \<and> param = Some i then param else cas)"

lemma select_dequeue_drop:
  "select_dequeue scases param is (map (case_entry g scases) (filter (\<lambda>i. sc_kind (scases ! i) \<noteq> caseNil) is)) cas w
    = Some (drop_entries g scases param is w, found_case scases param is cas)"
proof (induction "is" arbitrary: cas w)
  case Nil
  then show ?case by (simp add: found_case_def)
next
  case (Cons i "is")
  show ?case
  proof (cases "sc_kind (scases ! i) = caseNil")
    case True
    then have "drop_entries g scases param (i # is) w = drop_entries g scases param is w" by simp
    then show ?thesis using Cons True by (simp add: found_case_def)
  next
    case False
    then show ?thesis using Cons
      by (cases "param = Some i") (simp_all add: Let_def found_case_def)
  qed
qed

lemma drop_entries_ok:
  "only_queues w (drop_entries g scases param is w) \<and> waiting (drop_entries g scases param is w) = waiting w
    \<and> (\<forall>c d. queues (drop_entries g scases param is w) c d = fold remove1 (case_entries g scases (fired param is) c d) (queues w c d))"
proof (induction "is" arbitrary: w)
  case Nil
  then show ?case by (simp add: only_queues_refl case_entries_def fired_def)
next
  case (Cons i "is")
  let ?w1 = "if param = Some i then w else case (sc_kind (scases ! i), sc_c (scases ! i)) of
      (caseSend, Some c) \<Rightarrow> upd_chan c (\<lambda>h. h\<lparr>sendq := remove1 (case_entry g scases i) (sendq h)\<rparr>) w
    | (caseRecv, Some c) \<Rightarrow> upd_chan c (\<lambda>h. h\<lparr>recvq := remove1 (case_entry g scases i) (recvq h)\<rparr>) w
    | _ \<Rightarrow> w"
  have "only_queues w ?w1 \<and> waiting ?w1 = waiting w
      \<and> (\<forall>c d. queues ?w1 c d = fold remove1 (case_entries g scases (fired param [i]) c d) (queues w c d))"
    by (auto simp: only_queues_def queues_def case_entries_def case_on_def fired_def split: scase_kind.split option.split)
  then have 1: "only_queues w ?w1" "waiting ?w1 = waiting w"
    "\<And>c d. queues ?w1 c d = fold remove1 (case_entries g scases (fired param [i]) c d) (queues w c d)" by simp_all
  have "only_queues ?w1 (drop_entries g scases param is ?w1)" "waiting (drop_entries g scases param is ?w1) = waiting ?w1"
    using Cons.IH by blast+
  moreover have "queues (drop_entries g scases param is ?w1) c d = fold remove1 (case_entries g scases (fired param is) c d) (queues ?w1 c d)"
    for c d using Cons.IH by blast
  ultimately have "only_queues w (drop_entries g scases param is ?w1)" "waiting (drop_entries g scases param is ?w1) = waiting w"
    "\<And>c d. queues (drop_entries g scases param is ?w1) c d
      = fold remove1 (case_entries g scases (fired param [i]) c d @ case_entries g scases (fired param is) c d) (queues w c d)"
    using only_queues_trans 1 by (blast, simp, simp)
  moreover have "case_entries g scases (fired param [i]) c d @ case_entries g scases (fired param is) c d
      = case_entries g scases (fired param (i # is)) c d" for c d
    by (simp add: case_entries_def fired_def)
  moreover have "drop_entries g scases param (i # is) w = drop_entries g scases param is ?w1" by (simp only: drop_entries.simps)
  ultimately show ?case by simp
qed

lemma resume_select_ok:
  assumes "chan_inv w" "gs w g = Ready (OpSelect scases po lo) param got" "resume_select g scases po lo param got w = (w', es)"
  shows "done_ok g (OpSelect scases po lo) w es w'"
proof -
  let ?op = "OpSelect scases po lo"
  let ?w1 = "w\<lparr>selectDone := (selectDone w)(g := False), waiting := (waiting w)(g := [])\<rparr>"
  let ?w2 = "drop_entries g scases param lo ?w1"
  have d: "only_queues ?w1 ?w2" "\<And>c d. queues ?w2 c d = fold remove1 (case_entries g scases (fired param lo) c d) (queues w c d)"
    "waiting ?w2 = (waiting w)(g := [])"
    using drop_entries_ok [of ?w1 g scases param lo] by simp_all
  have Q: "queues_ok (gs w) (selectDone w) (queues w) (closed_of w)" by (rule inv_queues [OF assms(1)])
  have gok: "g_ok (closed_of w) (gs w g)" using Q unfolding queues_ok_def by blast
  then have op: "op_ok ?op" using assms(2) by (cases param) auto
  have fil: "queues ?w2 c d = filter (\<lambda>sg. sg_g sg \<noteq> g) (queues w c d)" for c d
  proof -
    have "distinct (queues w c d)" using Q unfolding queues_ok_def by blast
    then have "queues ?w2 c d = filter (\<lambda>sg. sg \<notin> set (case_entries g scases (fired param lo) c d)) (queues w c d)"
      by (simp add: d(2) fold_remove1)
    also have "\<dots> = filter (\<lambda>sg. sg_g sg \<noteq> g) (queues w c d)"
    proof (rule filter_cong [OF refl])
      fix sg assume sg: "sg \<in> set (queues w c d)"
      have "sg \<in> set (case_entries g scases (fired param lo) c d)" if g: "sg_g sg = g"
      proof -
        have "entry_ok (gs w (sg_g sg)) c d sg" using Q sg unfolding queues_ok_def by blast
        then have "wants ?op g c d sg" "param \<noteq> Some (sg_case sg)"
          using g assms(2) by (auto simp: entry_ok_def)
        moreover from this(1) have "sg \<in> set (case_entries g scases lo c d)" using wants_case_entries(1) [OF op] by blast
        ultimately show ?thesis by (auto simp: case_entries_def fired_def)
      qed
      then show "sg \<notin> set (case_entries g scases (fired param lo) c d) \<longleftrightarrow> sg_g sg \<noteq> g"
        by (auto simp: case_entries_def)
    qed
    finally show ?thesis .
  qed
  have chans: "chans ?w2 c = (chans w c)\<lparr>recvq := filter (\<lambda>sg. sg_g sg \<noteq> g) (recvq (chans w c)),
      sendq := filter (\<lambda>sg. sg_g sg \<noteq> g) (sendq (chans w c))\<rparr>" for c
    using d(1) by (simp only: only_queues_def fil) (simp add: queues_def)
  have gs: "gs ?w2 = gs w" "selectDone ?w2 = (selectDone w)(g := False)" using d(1) by (simp_all add: only_queues_def)
  have cl: "closed_of ?w2 = closed_of w" by (simp add: fun_eq_iff closed_of_def chans)
  have inv: "chan_inv (set_g g (Run o') ?w2)" if "\<forall>s. o' \<noteq> Thrown s" for o'
  proof -
    have "queues_ok ((gs w)(g := Run o')) ((selectDone w)(g := False)) (queues ?w2) (closed_of w)"
      by (rule queues_unselect [OF Q assms(2) that fil])
    moreover have "chan_ok (chans ?w2 c)" for c
      using inv_chan [OF assms(1), of c] by (auto simp: chan_ok_def ring_ok_def chans)
    moreover have "waits_ok ((gs w)(g := Run o')) (waiting ?w2)"
      by (rule waits_upd [OF inv_waits [OF assms(1)]]) (simp add: d(3) state_waits_def)
    ultimately show ?thesis by (simp add: chan_inv_alt cl gs)
  qed
  have run: "step_ok g nothing nothing w [] (set_g g (Run o') ?w2)" if "\<forall>s. o' \<noteq> Thrown s" for o'
    using inv [OF that] by (simp add: step_ok_def no_ends_def chans contents_def gs)
  have "waiting w g = map (case_entry g scases) (filter (\<lambda>i. sc_kind (scases ! i) \<noteq> caseNil) lo)"
    using inv_waits [OF assms(1)] assms(2) by (simp add: waits_ok_def state_waits_def)
  then have res: "resume_select g scases po lo param got w = (case found_case scases param lo None of
      Some casi \<Rightarrow> (set_g g (Run (SelectResult casi (sc_kind (scases ! casi) = caseRecv)
         (if sc_kind (scases ! casi) = caseRecv then got else 0))) ?w2, [])
    | None \<Rightarrow> select_loop g scases po lo (set_g g (Run Started) ?w2))"
    using select_dequeue_drop [of scases param lo g None ?w1] by (simp add: resume_select_def Let_def split: option.split)
  show ?thesis
  proof (cases param)
    case None
    then have "select_loop g scases po lo (set_g g (Run Started) ?w2) = (w', es)"
      using assms(3) unfolding res by (simp add: found_case_def)
    from select_loop_ok [OF inv _ op this] have "done_ok g ?op (set_g g (Run Started) ?w2) es w'" by simp
    then show ?thesis by (rule done_trans [OF run, rotated 2]) (use assms(2) None in simp_all)
  next
    case (Some i)
    have i: "i < length scases" "sc_kind (scases ! i) \<noteq> caseNil" using gok assms(2) Some by auto
    have "mset lo = mset [0..<length scases]" using op by simp
    then have "set lo = {0..<length scases}" by (metis set_mset_mset set_upt)
    then have "i \<in> set lo" using i(1) by simp
    then have "found_case scases param lo None = Some i" using i(2) Some by (auto simp: found_case_def)
    then have w': "w' = set_g g (Run (SelectResult i (sc_kind (scases ! i) = caseRecv)
         (if sc_kind (scases ! i) = caseRecv then got else 0))) ?w2" "es = []"
      using assms(3) unfolding res by simp_all
    show ?thesis unfolding w' done_ok_def
      by (intro exI [of _ nothing] conjI run) (use assms(2) Some i(1) in auto)
  qed
qed

section \<open>Steps and runs\<close>

lemma selectgo_ok:
  assumes "chan_inv w" "gs w g = Run o'" "selectgo g rnd scases w = (w', es)"
  shows "done_ok g (select_op scases) w es w'"
proof (cases "length scases > 2 ^ 16")
  case True
  then have "w' = set_g g (Run (Panicked ''slice bounds out of range'')) w" "es = []"
    using assms(3) unfolding selectgo_def by simp_all
  then show ?thesis using done_now [OF assms(1,2), of "Panicked ''slice bounds out of range''"] by simp
next
  case False
  let ?s = "map clear_nil scases"
  let ?po = "poll_order rnd (length ?s)"
  let ?lo = "lock_order (\<lambda>i. sortkey (sc_c (?s ! i))) ?po"
  have "op_ok (OpSelect ?s ?po ?lo)"
    using poll_order_perm [of rnd "length ?s"] lock_order_sorted [of "\<lambda>i. sortkey (sc_c (?s ! i))" ?po] by simp
  moreover have "select_loop g ?s ?po ?lo w = (w', es)" using assms(3) False unfolding selectgo_def Let_def by simp
  ultimately show ?thesis using select_loop_ok [OF assms(1,2)] by blast
qed

lemma block_ok:
  assumes "chan_inv w" "gs w g = Run o'"
  shows "done_ok g op' w [] (block_forever g w)"
  unfolding block_forever_def using forever_ok [OF assms] by blast

lemma block_ledger:
  assumes "chan_inv w" "gs w g = Run o'"
  shows "ledger_ok w [] (block_forever g w)"
  using done_ledger [OF block_ok [OF assms, of OpBlock]] by (simp add: ended_def block_forever_def)

lemma close_ledger:
  assumes "chan_inv w" "gs w g = Run o'"
  shows "ledger_ok w [] (closechan g ch w)"
proof -
  have d: "ledger_ok w (ended g OpBlock (closechan g ch w)) (closechan g ch w)"
    using done_ledger [OF closechan_ok [OF assms]] by simp
  have "recvd h c (ended g OpBlock (closechan g ch w)) = []" "sent h c (ended g OpBlock (closechan g ch w)) = []" for h c
    by (auto simp: ended_def split: gstate.split)
  then show ?thesis using d by (simp add: ledger_ok_def)
qed

lemma rselect_ok:
  assumes "chan_inv w" "gs w g = Run o'" "reflect_rselect g rnd cases w = (w', es)"
  shows "done_ok g (select_op (map reflect_case cases)) w es w'"
  using assms(3) block_ok [OF assms(1,2)] selectgo_ok [OF assms(1,2)]
  by (auto simp: reflect_rselect_def simp del: map_map split: if_splits)

lemma chan_step_ok: "chan_step g w es w' \<Longrightarrow> chan_inv w \<Longrightarrow> ledger_ok w es w'"
proof (induction rule: chan_step.induct)
  case (resume_send w c v param got w')
  then show ?case using done_ledger [OF resume_send_ok] by fastforce
next
  case (resume_recv w c param got w')
  then show ?case using done_ledger [OF resume_recv_ok] by fastforce
next
  case (resume_forever w param got)
  then show ?case using never_woken by blast
qed (blast intro: done_ledger chansend_ok chanrecv_ok selectgo_ok rselect_ok resume_select_ok close_ledger block_ledger)+

lemma new_world_inv: "chan_inv (new_world sizes)"
  by (auto simp: chan_inv_def new_world_def queues_ok_def queues_def empty_chan_def chan_ok_def ring_ok_def waits_ok_def state_waits_def)

lemma chan_run_ok:
  "chan_run sizes es w \<Longrightarrow> chan_inv w \<and> (\<forall>c. puts c es = gots c es @ contents (chans w c))
    \<and> (\<forall>g c. gots_by g c es = recvd g c es @ pend_got (gs w g) c \<and> puts_by g c es = sent g c es @ pend_put (gs w g) c)"
proof (induction rule: chan_run.induct)
  case start
  then show ?case by (simp add: new_world_inv) (simp add: new_world_def empty_chan_def contents_def)
next
  case (step es w g es' w')
  then have s: "ledger_ok w es' w'" using chan_step_ok by blast
  have "gots_by h c (es @ es') = recvd h c (es @ es') @ pend_got (gs w' h) c
      \<and> puts_by h c (es @ es') = sent h c (es @ es') @ pend_put (gs w' h) c" for h c
    using s step.IH by (simp add: ledger_ok_def)
  then show ?case using s step.IH by (simp add: ledger_ok_def)
qed

end
