(* ===== verification/ChanProps.thy ===== *)
theory ChanProps
  imports ChanSelect
begin

text \<open>
  What every reachable state of the channels guarantees, and what sending, receiving, closing and making
  a channel do there.
\<close>

section \<open>Waiting\<close>

text \<open>The operation waits to send to (\<open>d\<close>) or to receive from channel \<open>c\<close>.\<close>

fun waits_on :: "'v chan_op \<Rightarrow> nat \<Rightarrow> bool \<Rightarrow> bool" where
  "waits_on (OpSend c' v) c d \<longleftrightarrow> c' = c \<and> d"
| "waits_on (OpRecv c') c d \<longleftrightarrow> c' = c \<and> \<not> d"
| "waits_on (OpSelect scases po lo) c d \<longleftrightarrow>
     list_ex (\<lambda>cas. sc_c cas = Some c \<and> sc_kind cas = (if d then caseSend else caseRecv)) scases"
| "waits_on _ c d \<longleftrightarrow> False"

lemma waits_wants: "waits_on op' c d \<longleftrightarrow> (\<exists>sg. wants op' g c d sg)"
proof (cases op')
  case (OpSelect scases po lo)
  have "waits_on op' c d \<longleftrightarrow> (\<exists>i<length scases. case_on scases c d i)"
    by (auto simp: OpSelect list_ex_length case_on_def)
  also have "\<dots> \<longleftrightarrow> (\<exists>sg. wants op' g c d sg)"
  proof
    assume "\<exists>i<length scases. case_on scases c d i"
    then obtain i where "i < length scases" "case_on scases c d i" by blast
    then have "wants op' g c d (case_entry g scases i)" by (simp add: OpSelect case_on_def)
    then show "\<exists>sg. wants op' g c d sg" by blast
  qed (auto simp: OpSelect case_on_def)
  finally show ?thesis .
qed auto

lemma run_inv: "chan_run sizes es w \<Longrightarrow> chan_inv w"
  by (simp add: chan_run_ok)

lemma parked_queued:
  assumes "chan_inv w" "gs w g = Parked op'" "waits_on op' c d"
  obtains sg where "wants op' g c d sg" "sg \<in> set (queues w c d)" "sg_g sg = g"
proof -
  obtain sg where sg: "wants op' g c d sg" using assms(3) waits_wants by blast
  then have "sg \<in> set (queues w c d)" using inv_queues [OF assms(1)] assms(2) unfolding queues_ok_def by blast
  then show ?thesis using that sg wants_g [OF sg] by blast
qed

lemma parked_undecided:
  assumes "chan_inv w" "gs w g = Parked op'"
  shows "\<not> selectDone w g"
  using inv_queues [OF assms(1)] assms(2) unfolding queues_ok_def by (metis gstate.distinct(5))

lemma parked_blocked:
  assumes "chan_inv w" "gs w g = Parked op'" "waits_on op' c d"
  shows "\<not> chan_closed (chans w c)" "d \<Longrightarrow> qcount (chans w c) = dataqsiz (chans w c)" "\<not> d \<Longrightarrow> qcount (chans w c) = 0"
proof -
  obtain sg where sg: "sg \<in> set (queues w c d)" using parked_queued [OF assms] .
  have ok: "chan_ok (chans w c)" by (rule inv_chan [OF assms(1)])
  show "\<not> chan_closed (chans w c)" using ok sg by (auto simp: chan_ok_def queues_def split: if_splits)
  have "qcount (chans w c) \<le> dataqsiz (chans w c)" using ok by (simp add: chan_ok_def ring_ok_def)
  then show "d \<Longrightarrow> qcount (chans w c) = dataqsiz (chans w c)" using ok sg by (auto simp: chan_ok_def queues_def)
  show "\<not> d \<Longrightarrow> qcount (chans w c) = 0" using ok sg by (auto simp: chan_ok_def queues_def)
qed

lemma both_sides:
  assumes "chan_inv w" "gs w g = Parked op'" "waits_on op' c d" "gs w g' = Parked op''" "waits_on op'' c (\<not> d)"
  shows "g' = g"
proof -
  obtain sg where "sg \<in> set (queues w c d)" "sg_g sg = g" using parked_queued [OF assms(1-3)] .
  moreover obtain sg' where "sg' \<in> set (queues w c (\<not> d))" "sg_g sg' = g'" using parked_queued [OF assms(1,4,5)] .
  ultimately show ?thesis using inv_chan [OF assms(1), of c] unfolding chan_ok_def queues_def by (cases d) auto
qed

section \<open>Closing releases everybody\<close>

lemma release_all_append: "release_all (q1 @ q2) w = release_all q2 (release_all q1 w)"
  by (induction q1 w rule: release_all.induct) auto

lemma release_stays:
  assumes "gs w g = Ready op' p x" "\<And>sg. sg \<in> set q \<Longrightarrow> sg_g sg = g \<Longrightarrow> isSelect sg \<and> selectDone w g"
  shows "gs (release_all q w) g = Ready op' p x"
  using assms
proof (induction q w rule: release_all.induct)
  case (2 sg q w)
  show ?case
  proof (cases "isSelect sg \<and> selectDone w (sg_g sg)")
    case True
    have "gs (release_all q w) g = Ready op' p x" by (rule 2(1) [OF True 2(3)]) (use 2(4) in auto)
    then show ?thesis using True by simp
  next
    case False
    then have "sg_g sg \<noteq> g" using 2(4) by auto
    let ?w = "goready (sg_g sg) None 0 (if isSelect sg then w\<lparr>selectDone := (selectDone w)(sg_g sg := True)\<rparr> else w)"
    have w: "gs ?w g = Ready op' p x" "selectDone w g \<Longrightarrow> selectDone ?w g"
      using \<open>sg_g sg \<noteq> g\<close> 2(3) by (auto simp: goready_def split: gstate.splits)
    have rel: "release_all (sg # q) w = release_all q ?w" using False by (subst release_all.simps) (rule if_not_P)
    show ?thesis unfolding rel by (rule 2(2) [OF False w(1)]) (metis 2(4) w(2) list.set_intros(2))
  qed
qed simp

lemma release_wakes:
  assumes "gs w g = Parked op'" "\<not> selectDone w g" "sg \<in> set q" "sg_g sg = g"
    and "\<And>a. a \<in> set q \<Longrightarrow> sg_g a = g \<Longrightarrow> isSelect a = is_select op'"
    and "is_select op' \<or> filter (\<lambda>a. sg_g a = g) q = [sg]"
  shows "gs (release_all q w) g = Ready op' None 0"
  using assms
proof (induction q w rule: release_all.induct)
  case (2 a q w)
  let ?w = "goready (sg_g a) None 0 (if isSelect a then w\<lparr>selectDone := (selectDone w)(sg_g a := True)\<rparr> else w)"
  show ?case
  proof (cases "sg_g a = g")
    case True
    then have a: "isSelect a = is_select op'" using 2(7) by simp
    have "\<not> (isSelect a \<and> selectDone w (sg_g a))" using True 2(4) by simp
    then have rel: "release_all (a # q) w = release_all q ?w" by (subst release_all.simps) (rule if_not_P)
    have w: "gs ?w g = Ready op' None 0" "isSelect a \<Longrightarrow> selectDone ?w g" using True 2(3) by (auto simp: goready_def)
    have "isSelect b \<and> selectDone ?w g" if b: "b \<in> set q" "sg_g b = g" for b
    proof -
      have "filter (\<lambda>a. sg_g a = g) q \<noteq> []" using b by (auto simp: filter_empty_conv)
      then have "is_select op'" using 2(8) True by auto
      then show ?thesis using 2(7) [of b] b a w(2) by simp
    qed
    then show ?thesis unfolding rel using release_stays [OF w(1)] by blast
  next
    case False
    then have sg: "sg \<in> set q" "is_select op' \<or> filter (\<lambda>a. sg_g a = g) q = [sg]" using 2(5,6,8) by auto
    show ?thesis
    proof (cases "isSelect a \<and> selectDone w (sg_g a)")
      case True
      then show ?thesis using 2(1) [OF True 2(3,4) sg(1) 2(6) _ sg(2)] 2(7) by simp
    next
      case nd: False
      have rel: "release_all (a # q) w = release_all q ?w" using nd by (subst release_all.simps) (rule if_not_P)
      have w: "gs ?w g = Parked op'" "\<not> selectDone ?w g" using False 2(3,4) by (auto simp: goready_def split: gstate.splits)
      show ?thesis unfolding rel using 2(2) [OF nd w sg(1) 2(6) _ sg(2)] 2(7) by simp
    qed
  qed
qed simp

lemma close_wakes:
  assumes "chan_inv w" "gs w g = Run o'" "gs w g' = Parked op'" "waits_on op' c d"
  shows "gs (closechan g (Some c) w) g' = Ready op' None 0"
proof -
  let ?h = "chans w c"
  let ?q = "recvq ?h @ sendq ?h"
  let ?w0 = "upd_chan c (\<lambda>h. h\<lparr>chan_closed := True, recvq := [], sendq := []\<rparr>) w"
  obtain sg where sg: "wants op' g' c d sg" "sg \<in> set (queues w c d)" "sg_g sg = g'" using parked_queued [OF assms(1,3,4)] .
  have Q: "queues_ok (gs w) (selectDone w) (queues w) (closed_of w)" by (rule inv_queues [OF assms(1)])
  have w: "wants op' g' c e a" if "a \<in> set (queues w c e)" "sg_g a = g'" for a e
  proof -
    have "entry_ok (gs w (sg_g a)) c e a" using Q that(1) unfolding queues_ok_def by blast
    then show ?thesis using that(2) assms(3) by (simp add: entry_ok_def)
  qed
  have one: "filter (\<lambda>a. sg_g a = g') ?q = [sg]" if ns: "\<not> is_select op'"
  proof -
    have same: "e = d \<and> a = sg" if "a \<in> set (queues w c e)" "sg_g a = g'" for a e
      using w [OF that] sg(1) ns by (cases op') (auto simp: is_select_def)
    have other: "filter (\<lambda>a. sg_g a = g') (queues w c (\<not> d)) = []" using same [of _ "\<not> d"] by (auto simp: filter_empty_conv)
    have "distinct (queues w c d)" using Q unfolding queues_ok_def by blast
    then have "filter (\<lambda>a. sg_g a = g') (queues w c d) = [sg]"
    proof -
      obtain l r where lr: "queues w c d = l @ sg # r" using sg(2) by (meson split_list)
      have "sg_g a \<noteq> g'" if "a \<in> set l \<union> set r" for a
      proof -
        have "a \<in> set (queues w c d)" "a \<noteq> sg" using that lr \<open>distinct (queues w c d)\<close> by auto
        then show ?thesis using same by blast
      qed
      then show ?thesis using lr sg(3) by (simp add: filter_empty_conv)
    qed
    then show ?thesis using other by (cases d) (simp_all add: queues_def)
  qed
  have "gs (release_all ?q ?w0) g' = Ready op' None 0"
  proof (rule release_wakes [where sg = sg])
    show "gs ?w0 g' = Parked op'" using assms(3) by simp
    show "\<not> selectDone ?w0 g'" using parked_undecided [OF assms(1,3)] by simp
    show "sg \<in> set ?q" "sg_g sg = g'" using sg by (auto simp: queues_def split: if_splits)
    show "isSelect a = is_select op'" if "a \<in> set ?q" "sg_g a = g'" for a
      using that w [of a True, THEN wants_isSelect] w [of a False, THEN wants_isSelect] by (auto simp: queues_def)
    show "is_select op' \<or> filter (\<lambda>a. sg_g a = g') ?q = [sg]" using one by blast
  qed
  moreover have "g' \<noteq> g" using assms(2,3) by auto
  ultimately show ?thesis
    using parked_blocked(1) [OF assms(1,3,4)] by (simp add: closechan_def Let_def release_all_append)
qed

section \<open>The fast paths\<close>

lemma dequeue_recv_empty: "recvq (chans w c) = [] \<Longrightarrow> dequeue_recv c w = (None, w)"
  by (auto simp: dequeue_recv_def fun_eq_iff intro!: world.equality hchan.equality)

lemma dequeue_send_empty: "sendq (chans w c) = [] \<Longrightarrow> dequeue_send c w = (None, w)"
  by (auto simp: dequeue_send_def fun_eq_iff intro!: world.equality hchan.equality)

lemma send_fast:
  assumes "chan_ok (chans w c)"
  shows "chansend g (Some c) v block w = chansend_locked g c v block w"
  using assms dequeue_recv_empty [of w c]
  by (auto simp: chansend_def chansend_locked_def send_would_block_def chan_ok_def ring_ok_def)

lemma recv_fast:
  assumes "chan_ok (chans w c)"
  shows "chanrecv g (Some c) block w = chanrecv_locked g c block w"
  using assms dequeue_send_empty [of w c]
  by (auto simp: chanrecv_def chanrecv_locked_def recv_would_block_def chan_ok_def ring_ok_def)

section \<open>Handing a value over\<close>

lemma send_handoff:
  assumes "chan_inv w" "gs w g = Run o'" "gs w g' = Parked op'" "waits_on op' c False" "chansend g (Some c) v block w = (w', es)"
  shows "gs w' g = Run (SendResult True) \<and>
    (\<exists>r op'' i. es = [Put c g v, Got c r v] \<and> gs w r = Parked op'' \<and> waits_on op'' c False \<and> gs w' = (gs w)(g := Run (SendResult True), r := Ready op'' (Some i) v))"
  using assms(1)
proof (cases rule: dequeue_cases [where d = False and c = c])
  case (none w1)
  obtain sg where sg: "sg \<in> set (queues w c False)" "sg_g sg = g'" using parked_queued [OF assms(1,3,4)] by blast
  have "\<exists>a. a \<in> set (queues w c False) \<and> \<not> (isSelect a \<and> selectDone w (sg_g a))"
    using sg parked_undecided [OF assms(1,3)] by blast
  then have "\<not> (\<forall>a\<in>set (queues w c False). isSelect a \<and> selectDone w (sg_g a))" by blast
  then have "fst (dequeue_side False c w) \<noteq> None"
    by (cases rule: dequeue_list_cases [of sg_g isSelect "queues w c False" "selectDone w"]) (simp_all add: dequeue_side_def)
  then show ?thesis using none(1) by simp
next
  case (some sg w1 op'' q)
  have "chansend_locked g c v block w = (w', es)"
    using assms(5) send_fast [OF inv_chan [OF assms(1)]] by simp
  moreover have "\<not> chan_closed (chans w c)" by (rule parked_blocked(1) [OF assms(1,3,4)])
  ultimately have r: "w' = set_g g (Run (SendResult True)) (set_g (sg_g sg) (Ready op'' (Some (sg_case sg)) v) w1)" "es = [Put c g v, Got c (sg_g sg) v]"
    using some(1-3) by (auto simp: chansend_locked_def dequeue_sides chan_send_to_def goready_def)
  have ne: "sg_g sg \<noteq> g" using some(2) assms(2) by auto
  have "sg \<in> set (queues w c False) \<and> \<not> (isSelect sg \<and> selectDone w (sg_g sg))"
    using some(1) by (cases rule: dequeue_list_cases [of sg_g isSelect "queues w c False" "selectDone w"]) (auto simp: dequeue_side_def)
  then have "wants op'' (sg_g sg) c False sg"
    using entry_parked [OF inv_queues [OF assms(1)]] some(2) by fastforce
  then have "waits_on op'' c False" using waits_wants by blast
  moreover have "gs w' = (gs w)(g := Run (SendResult True), sg_g sg := Ready op'' (Some (sg_case sg)) v)"
    using r(1) some(3) ne by (simp add: fun_upd_twist)
  ultimately show ?thesis using r some(2) ne by auto
qed

section \<open>Making a channel\<close>

lemma MulUintptr_spec: "MulUintptr a b = (a * b, 2 ^ 64 \<le> unat a * unat b)"
proof -
  have small: "unat a * unat b < 2 ^ 64" if "(a OR b) < push_bit 32 1"
  proof -
    have "unat (a OR b) < 2 ^ 32" using that by (simp add: word_less_nat_alt)
    moreover have "a \<le> a OR b" "b \<le> a OR b" by (simp_all add: word_and_le2 le_word_or1 le_word_or2)
    ultimately have "unat a < 2 ^ 32" "unat b < 2 ^ 32" by (auto simp: word_le_nat_alt)
    then have "unat a * unat b < 2 ^ 32 * 2 ^ 32" by (intro mult_strict_mono) auto
    then show ?thesis by simp
  qed
  have div: "b > (-1) div a \<longleftrightarrow> 2 ^ 64 \<le> unat a * unat b" if "a \<noteq> 0"
  proof -
    have a: "0 < unat a" using that by (simp add: unat_gt_0)
    have "b > (-1) div a \<longleftrightarrow> (2 ^ 64 - 1) div unat a < unat b"
      by (simp add: word_less_nat_alt unat_div_distrib unsigned_minus_1_eq_mask mask_eq_exp_minus_1)
    also have "\<dots> \<longleftrightarrow> 2 ^ 64 - 1 < unat a * unat b" using a by (simp add: div_less_iff_less_mult mult.commute)
    finally show ?thesis by auto
  qed
  show ?thesis using small div by (auto simp: MulUintptr_def not_le)
qed

lemma makechan_spec:
  assumes "hchanSize mod 8 = 0" "hchanSize \<le> maxAlloc" "elemsize < 2 ^ 16" "align \<le> 8"
  shows "makechan hchanSize maxAlloc elemsize align size' =
    (if 0 \<le> sint size' \<and> unat hchanSize + unat elemsize * unat size' \<le> unat maxAlloc
     then Inr (empty_chan (unat size')) else Inl (PanicValue ''makechan: size out of range''))"
proof -
  have e: "\<not> elemsize \<ge> push_bit 16 1" "\<not> (hchanSize mod of_nat maxAlign \<noteq> 0 \<or> align > of_nat maxAlign)"
    using assms by (simp_all add: maxAlign_def not_le not_less)
  have big: "\<not> unat hchanSize + unat elemsize * unat size' \<le> unat maxAlloc" if "2 ^ 64 \<le> unat elemsize * unat size'"
  proof -
    have "unat maxAlloc < 2 ^ LENGTH(64)" by (rule unsigned_less)
    then show ?thesis using that by simp
  qed
  have mem: "elemsize * size' > maxAlloc - hchanSize \<longleftrightarrow> \<not> unat hchanSize + unat elemsize * unat size' \<le> unat maxAlloc"
    if "\<not> 2 ^ 64 \<le> unat elemsize * unat size'"
  proof -
    have "unat (elemsize * size') = unat elemsize * unat size'" using that by (simp add: unat_word_ariths)
    moreover have "unat (maxAlloc - hchanSize) = unat maxAlloc - unat hchanSize" "unat hchanSize \<le> unat maxAlloc"
      using assms(2) by (simp_all add: unat_sub word_le_nat_alt)
    ultimately show ?thesis by (auto simp: word_less_nat_alt)
  qed
  have neg: "size' <s 0 \<longleftrightarrow> \<not> 0 \<le> sint size'" by (simp add: word_sless_alt not_le)
  have "2 ^ 64 \<le> unat elemsize * unat size' \<or> elemsize * size' > maxAlloc - hchanSize \<or> size' <s 0
      \<longleftrightarrow> \<not> (0 \<le> sint size' \<and> unat hchanSize + unat elemsize * unat size' \<le> unat maxAlloc)"
    using mem big neg by blast
  then show ?thesis using e by (simp only: makechan_def MulUintptr_spec Let_def prod.case if_False) simp
qed

section \<open>Properties\<close>

text \<open>C3: in every reachable state the promise at the top of \<open>chan.go\<close> holds: the indices and the count of the
  ring buffer agree; one of the queues of a channel is empty unless a single goroutine waits on both in a
  select; a buffer with elements has no waiting receivers, one with free slots no waiting senders; nobody
  waits on a closed channel.  And no goroutine dies of a fatal error that the code of these operations raises: a
  spurious wake-up, readying a goroutine that does not wait, \<open>G waiting list is corrupted\<close>,
  \<open>gp.waiting != nil\<close>, \<open>unreachable\<close>, or the end of the list of sudogs in the last pass of a select.\<close>
theorem chan_run_invariant:
  assumes "chan_run sizes es w"
  shows "chan_ok (chans w c) \<and> gs w g \<noteq> Run (Thrown s)"
proof
  have inv: "chan_inv w" by (rule run_inv [OF assms])
  then show "chan_ok (chans w c)" by (rule inv_chan)
  have "g_ok (closed_of w) (gs w g)" using inv_queues [OF inv] unfolding queues_ok_def by blast
  then show "gs w g \<noteq> Run (Thrown s)" by auto
qed

text \<open>C4: a channel is first in, first out: in every run of any number of goroutines, with any mix of sends,
  receives, selects and closes, the values that were put into a channel are, in order, the values taken
  from it followed by its buffer, whose length is \<open>len(c)\<close>.  And these values are the ones the program sees: for
  every goroutine, the values taken for it are, in order, the values that its finished receives and selects
  returned, followed by one that has been handed to it if it has not gone on yet; the values put in for it are
  those that its finished sends and selects reported as sent, followed by one that was taken from it while it
  waited if it has not gone on yet.\<close>
theorem chan_run_fifo:
  assumes "chan_run sizes es w"
  shows "puts c es = gots c es @ contents (chans w c) \<and> reflect_chanlen (Some c) (chans w) = int (length (contents (chans w c)))
    \<and> gots_by g c es = recvd g c es @ pend_got (gs w g) c \<and> puts_by g c es = sent g c es @ pend_put (gs w g) c"
  using chan_run_ok [OF assms] by (simp add: contents_def reflect_chanlen_def)

text \<open>C8: no wake-up is lost: a goroutine is parked in an operation only while that operation cannot proceed.
  If it waits to send, in a plain send or in a case of a select, the channel is open, its buffer is full
  and no other goroutine waits to receive; if it waits to receive, the channel is open, its buffer is
  empty and no other goroutine waits to send.\<close>
theorem chan_parked_blocked:
  assumes "chan_run sizes es w" "gs w g = Parked op'" "waits_on op' c d"
  shows "\<not> chan_closed (chans w c) \<and> qcount (chans w c) = (if d then dataqsiz (chans w c) else 0)
    \<and> (g' \<noteq> g \<longrightarrow> \<not> (gs w g' = Parked op'' \<and> waits_on op'' c (\<not> d)))"
proof -
  note inv = run_inv [OF assms(1)]
  have "qcount (chans w c) = (if d then dataqsiz (chans w c) else 0)"
    using parked_blocked(2,3) [OF inv assms(2,3)] by (cases d) simp_all
  moreover have "g' \<noteq> g \<longrightarrow> \<not> (gs w g' = Parked op'' \<and> waits_on op'' c (\<not> d))"
    using both_sides [OF inv assms(2,3)] by blast
  ultimately show ?thesis using parked_blocked(1) [OF inv assms(2,3)] by blast
qed

text \<open>C23: closing a channel makes every goroutine ready that waits on it, in a send, a receive or a select,
  with no case and a zero value; none is left behind and none is woken twice.\<close>
theorem chan_close_wakes_all:
  assumes "chan_run sizes es w" "gs w g = Run o'" "gs w g' = Parked op'" "waits_on op' c d"
  shows "gs (closechan g (Some c) w) g' = Ready op' None 0"
  by (rule close_wakes [OF run_inv [OF assms(1)] assms(2-4)])

text \<open>When some goroutine waits to receive, a send completes at once and hands the value to exactly one
  of the goroutines that wait to receive; no other goroutine changes.\<close>
theorem chan_send_handoff:
  assumes "chan_run sizes es w" "gs w g = Run o'" "gs w g' = Parked op'" "waits_on op' c False"
    and "chansend g (Some c) v block w = (w', es')"
  shows "gs w' g = Run (SendResult True) \<and>
    (\<exists>r op'' i. es' = [Put c g v, Got c r v] \<and> gs w r = Parked op'' \<and> waits_on op'' c False \<and> gs w' = (gs w)(g := Run (SendResult True), r := Ready op'' (Some i) v))"
  by (rule send_handoff [OF run_inv [OF assms(1)] assms(2-5)])

text \<open>The tests that non-blocking operations make without the lock only save time: in every reachable
  state sending and receiving have the effect of their locked parts alone.\<close>
theorem chan_fast_paths:
  assumes "chan_run sizes es w"
  shows "chansend g (Some c) v block w = chansend_locked g c v block w
    \<and> chanrecv g (Some c) block w = chanrecv_locked g c block w"
  by (intro conjI send_fast recv_fast inv_chan [OF run_inv [OF assms]])

text \<open>\<open>makechan\<close> makes an empty channel of the requested size when that size is not negative and
  header and buffer together fit into the address space, and panics otherwise; the test on the 64-bit
  product cannot be fooled by overflow.\<close>
theorem makechan_size:
  assumes "hchanSize mod 8 = 0" "hchanSize \<le> maxAlloc" "elemsize < 2 ^ 16" "align \<le> 8"
  shows "makechan hchanSize maxAlloc elemsize align size' =
    (if 0 \<le> sint size' \<and> unat hchanSize + unat elemsize * unat size' \<le> unat maxAlloc
     then Inr (empty_chan (unat size')) else Inl (PanicValue ''makechan: size out of range''))"
  by (rule makechan_spec [OF assms])

section \<open>Witnesses\<close>

text \<open>Goroutine 1 waits to receive from the unbuffered channel 0; goroutine 2 fills channel 1 of size 1.\<close>

abbreviation demo_sizes :: "nat \<Rightarrow> nat" where
  "demo_sizes \<equiv> (\<lambda>c. if c = 1 then 1 else 0)"

definition demo1 :: "int world" where
  "demo1 = fst (chanrecv 1 (Some 0) True (new_world demo_sizes))"

definition demo2 :: "int world" where
  "demo2 = fst (chansend 2 (Some 1) 7 True demo1)"

lemmas demo_eval = new_world_def empty_chan_def chansend_def chansend_locked_def chanrecv_def chanrecv_locked_def
  dequeue_recv_def dequeue_send_def buf_send_def next_slot_def Let_def

lemma demo1_gs: "gs demo1 1 = Parked (OpRecv 0)" "gs demo1 2 = Run Started"
  by (simp_all add: demo1_def demo_eval)

lemma demo1_run: "chan_run demo_sizes [] demo1"
proof -
  have r: "chanrecv 1 (Some 0) True (new_world demo_sizes) = (demo1, [])" by (simp add: demo1_def demo_eval)
  have "gs (new_world demo_sizes :: int world) 1 = Run Started" by (simp add: new_world_def)
  from chan_run.step [OF chan_run.start chan_step.recv [OF this r]]
  have "chan_run demo_sizes ([] @ [] @ ended 1 (recv_op (Some 0)) demo1) demo1" .
  then show ?thesis unfolding ended_def demo1_gs by simp
qed

lemma demo2_gs: "gs demo2 1 = Parked (OpRecv 0)" "gs demo2 2 = Run (SendResult True)"
  by (simp_all add: demo2_def demo1_def demo_eval)

abbreviation demo2_log :: "int chan_event list" where
  "demo2_log \<equiv> [Put 1 2 7, Ended 2 (OpSend 1 7) (SendResult True)]"

lemma demo2_run: "chan_run demo_sizes demo2_log demo2"
proof -
  have "chansend 2 (Some 1) 7 True demo1 = (demo2, [Put 1 2 7])" by (simp add: demo2_def demo1_def demo_eval)
  then have "chan_run demo_sizes ([] @ [Put 1 2 7] @ ended 2 (send_op (Some 1) 7) demo2) demo2"
    by (rule chan_run.step [OF demo1_run chan_step.send [OF demo1_gs(2)]])
  then show ?thesis by (simp add: ended_def demo2_gs)
qed

lemma demo2_qcount: "qcount (chans demo2 1) = 1"
  by (simp add: demo2_def demo1_def demo_eval)

lemma chan_run_invariant_witness: "chan_ok (chans demo2 1) \<and> gs demo2 2 \<noteq> Run (Thrown ''chansend: spurious wakeup'')"
  by (rule chan_run_invariant [OF demo2_run])

lemma chan_run_fifo_witness: "puts 1 demo2_log = gots 1 demo2_log @ contents (chans demo2 1)
    \<and> 1 = int (length (contents (chans demo2 1))) \<and> puts_by 2 1 demo2_log = sent 2 1 demo2_log @ pend_put (gs demo2 2) 1"
  using chan_run_fifo [OF demo2_run, of 1 2] by (simp only: reflect_chanlen_def option.case demo2_qcount of_nat_1)

lemma chan_parked_blocked_witness: "\<not> chan_closed (chans demo2 0) \<and> qcount (chans demo2 0) = 0"
  using chan_parked_blocked [OF demo2_run demo2_gs(1), of 0 False] by simp

lemma chan_close_wakes_all_witness: "gs (closechan 2 (Some 0) demo2) 1 = Ready (OpRecv 0) None 0"
  by (rule chan_close_wakes_all [OF demo2_run demo2_gs(2,1), of 0 False]) simp

lemma chan_send_handoff_witness: "gs (fst (chansend 2 (Some 0) 5 True demo2)) 2 = Run (SendResult True)"
  using chan_send_handoff [OF demo2_run demo2_gs(2,1) _ surjective_pairing, of 0 5 True] by simp

lemma chan_fast_paths_witness: "chansend 2 (Some 1) 9 False demo2 = chansend_locked 2 1 9 False demo2"
  using chan_fast_paths [OF demo2_run] by blast

lemma makechan_size_witness: "makechan 96 (2 ^ 47) 8 8 (2 ^ 61 + 1) = (Inl (PanicValue ''makechan: size out of range'') :: int hchan go)"
  using makechan_size [of 96 "2 ^ 47" 8 8 "2 ^ 61 + 1"] by simp

end
