(* ===== verification/BufioReader.thy ===== *)
theory BufioReader
  imports BytesBuffer Io
begin

text \<open>
  The buffered reader of package \<open>bufio\<close> (\<open>bufio/bufio.go\<close>, type \<open>Reader\<close>) over any reader.  The slices
  that some methods return point into the buffer; they are lists here, as they are valid until the next
  call only.
\<close>

section \<open>State\<close>

record 'r bufReader =
  rd_buf :: bytes
  rd_rd :: 'r
  rd_r :: int
  rd_w :: int
  rd_err :: "io_error option"
  rd_lastByte :: int
  rd_lastRuneSize :: int

definition defaultBufSize :: int where "defaultBufSize = 4096"
definition minReadBufferSize :: int where "minReadBufferSize = 16"
definition maxConsecutiveEmptyReads :: nat where "maxConsecutiveEmptyReads = 100"

definition ErrInvalidUnreadByte :: io_error where
  "ErrInvalidUnreadByte = NewError ''bufio: invalid use of UnreadByte''"
definition ErrInvalidUnreadRune :: io_error where
  "ErrInvalidUnreadRune = NewError ''bufio: invalid use of UnreadRune''"
definition ErrBufferFull :: io_error where "ErrBufferFull = NewError ''bufio: buffer full''"
definition ErrNegativeCount :: io_error where "ErrNegativeCount = NewError ''bufio: negative count''"

definition rd_errNegativeRead :: panic where
  "rd_errNegativeRead = PanicValue ''bufio: reader returned negative count from Read''"
definition errNegativeWrite :: panic where
  "errNegativeWrite = PanicValue ''bufio: writer returned negative count from Write''"

definition rd_reset :: "bytes \<Rightarrow> 'r \<Rightarrow> 'r bufReader" where
  "rd_reset buf r = \<lparr>rd_buf = buf, rd_rd = r, rd_r = 0, rd_w = 0, rd_err = None, rd_lastByte = -1, rd_lastRuneSize = -1\<rparr>"

text \<open>
  \<open>NewReaderSize(rd, size)\<close>: \<open>as_Reader\<close> is the type assertion \<open>rd.(*Reader)\<close>; the result is that reader
  itself (\<open>Inl\<close>) or a new one over \<open>rd\<close>.
\<close>

definition NewReaderSize :: "('x \<Rightarrow> 'r bufReader option) \<Rightarrow> 'x \<Rightarrow> int \<Rightarrow> 'r bufReader + 'x bufReader" where
  "NewReaderSize as_Reader rd size' =
     (let fresh = rd_reset (replicate (nat (if size' < minReadBufferSize then minReadBufferSize else size')) 0) rd in
      case as_Reader rd of
        Some b \<Rightarrow> if int (length (rd_buf b)) \<ge> size' then Inl b else Inr fresh
      | None \<Rightarrow> Inr fresh)"

definition NewReader :: "('x \<Rightarrow> 'r bufReader option) \<Rightarrow> 'x \<Rightarrow> 'r bufReader + 'x bufReader" where
  "NewReader as_Reader rd = NewReaderSize as_Reader rd defaultBufSize"

definition rd_Size :: "'r bufReader \<Rightarrow> int" where "rd_Size b = int (length (rd_buf b))"

definition rd_Reset :: "'r bufReader \<Rightarrow> 'r \<Rightarrow> 'r bufReader" where "rd_Reset b r = rd_reset (rd_buf b) r"

definition rd_Buffered :: "'r bufReader \<Rightarrow> int" where "rd_Buffered b = rd_w b - rd_r b"

section \<open>Filling the buffer\<close>

text \<open>At most \<open>i\<close> reads that deliver nothing.\<close>

primrec fill_loop :: "'r reader \<Rightarrow> nat \<Rightarrow> 'r bufReader \<Rightarrow> 'r bufReader go" where
  "fill_loop rd 0 b = Inr (b\<lparr>rd_err := Some ErrNoProgress\<rparr>)"
| "fill_loop rd (Suc i) b =
     go_bind (go_from (rd_buf b) (rd_w b)) (\<lambda>p.
     go_bind (rd (rd_rd b) p) (\<lambda>(r, p, n, err).
       let b = b\<lparr>rd_rd := r, rd_buf := take (nat (rd_w b)) (rd_buf b) @ p\<rparr> in
       if n < 0 then Inl rd_errNegativeRead
       else let b = b\<lparr>rd_w := wrap64 (rd_w b + n)\<rparr> in
         case err of
           Some e \<Rightarrow> Inr (b\<lparr>rd_err := Some e\<rparr>)
         | None \<Rightarrow> if n > 0 then Inr b else fill_loop rd i b))"

definition rd_slide :: "'r bufReader \<Rightarrow> 'r bufReader go" where
  "rd_slide b =
     (if rd_r b > 0 then
        go_bind (go_sub (rd_buf b) (rd_r b) (rd_w b)) (\<lambda>data.
          Inr (b\<lparr>rd_buf := data @ drop (length data) (rd_buf b), rd_w := rd_w b - rd_r b, rd_r := 0\<rparr>))
      else Inr b)"

definition rd_fill :: "'r reader \<Rightarrow> 'r bufReader \<Rightarrow> 'r bufReader go" where
  "rd_fill rd b =
     go_bind (rd_slide b) (\<lambda>b.
       if rd_w b \<ge> int (length (rd_buf b)) then Inl (PanicValue ''bufio: tried to fill full buffer'')
       else fill_loop rd maxConsecutiveEmptyReads b)"

text \<open>\<open>for c { b.fill() }\<close>, the loop of several methods.\<close>

partial_function (option) fill_while :: "'r reader \<Rightarrow> ('r bufReader \<Rightarrow> bool) \<Rightarrow> 'r bufReader \<Rightarrow> 'r bufReader go option" where
  "fill_while rd c b =
     (if c b then
        (case rd_fill rd b of
           Inl e \<Rightarrow> Some (Inl e)
         | Inr b \<Rightarrow> fill_while rd c b)
      else Some (Inr b))"

definition rd_readErr :: "'r bufReader \<Rightarrow> 'r bufReader \<times> io_error option" where
  "rd_readErr b = (b\<lparr>rd_err := None\<rparr>, rd_err b)"

section \<open>Reading\<close>

definition rd_Peek :: "'r reader \<Rightarrow> 'r bufReader \<Rightarrow> int \<Rightarrow> ('r bufReader \<times> bytes \<times> io_error option) go option" where
  "rd_Peek rd b n =
     (if n < 0 then Some (Inr (b, [], Some ErrNegativeCount))
      else
        run_bind (fill_while rd (\<lambda>b. rd_w b - rd_r b < n \<and> rd_w b - rd_r b < int (length (rd_buf b)) \<and> rd_err b = None)
            (b\<lparr>rd_lastByte := -1, rd_lastRuneSize := -1\<rparr>)) (\<lambda>b. Some (
          if n > int (length (rd_buf b)) then
            go_bind (go_sub (rd_buf b) (rd_r b) (rd_w b)) (\<lambda>data. Inr (b, data, Some ErrBufferFull))
          else
            let avail = rd_w b - rd_r b;
                (b, n, err) =
                  (if avail < n then
                     let (b, err) = rd_readErr b in (b, avail, if err = None then Some ErrBufferFull else err)
                   else (b, n, None)) in
            go_bind (go_sub (rd_buf b) (rd_r b) (rd_r b + n)) (\<lambda>data. Inr (b, data, err)))))"

partial_function (option) discard_loop ::
  "'r reader \<Rightarrow> int \<Rightarrow> int \<Rightarrow> 'r bufReader \<Rightarrow> ('r bufReader \<times> int \<times> io_error option) go option" where
  "discard_loop rd n remain b =
     (case (if rd_Buffered b = 0 then rd_fill rd b else Inr b) of
        Inl e \<Rightarrow> Some (Inl e)
      | Inr b \<Rightarrow>
          let skip = rd_Buffered b;
              skip = (if skip > remain then remain else skip);
              b = b\<lparr>rd_r := rd_r b + skip\<rparr>;
              remain = remain - skip in
          if remain = 0 then Some (Inr (b, n, None))
          else if rd_err b \<noteq> None then (case rd_readErr b of (b, err) \<Rightarrow> Some (Inr (b, n - remain, err)))
          else discard_loop rd n remain b)"

definition rd_Discard :: "'r reader \<Rightarrow> 'r bufReader \<Rightarrow> int \<Rightarrow> ('r bufReader \<times> int \<times> io_error option) go option" where
  "rd_Discard rd b n =
     (if n < 0 then Some (Inr (b, 0, Some ErrNegativeCount))
      else if n = 0 then Some (Inr (b, 0, None))
      else discard_loop rd n n b)"

text \<open>The end of \<open>Read\<close>: as much as is buffered and fits.\<close>

definition rd_copy :: "'r bufReader \<Rightarrow> bytes \<Rightarrow> ('r bufReader \<times> bytes \<times> int \<times> io_error option) go" where
  "rd_copy b p =
     go_bind (go_sub (rd_buf b) (rd_r b) (rd_w b)) (\<lambda>data.
       let n = min (length p) (length data); b = b\<lparr>rd_r := rd_r b + int n\<rparr> in
       go_bind (go_index (rd_buf b) (rd_r b - 1)) (\<lambda>c.
         Inr (b\<lparr>rd_lastByte := int (unat c), rd_lastRuneSize := -1\<rparr>, take n data @ drop n p, int n, None)))"

definition rd_Read :: "'r reader \<Rightarrow> 'r bufReader reader" where
  "rd_Read rd b p =
     (if p = [] then
        if rd_Buffered b > 0 then Inr (b, p, 0, None)
        else (case rd_readErr b of (b, err) \<Rightarrow> Inr (b, p, 0, err))
      else if rd_r b = rd_w b then
        if rd_err b \<noteq> None then (case rd_readErr b of (b, err) \<Rightarrow> Inr (b, p, 0, err))
        else if length p \<ge> length (rd_buf b) then
          go_bind (rd (rd_rd b) p) (\<lambda>(r, p, n, err).
            let b = b\<lparr>rd_rd := r, rd_err := err\<rparr> in
            if n < 0 then Inl rd_errNegativeRead
            else go_bind (if n > 0
                then go_bind (go_index p (n - 1)) (\<lambda>c. Inr (b\<lparr>rd_lastByte := int (unat c), rd_lastRuneSize := -1\<rparr>))
                else Inr b) (\<lambda>b.
              case rd_readErr b of (b, err) \<Rightarrow> Inr (b, p, n, err)))
        else
          go_bind (rd (rd_rd b) (rd_buf b)) (\<lambda>(r, buf, n, err).
            let b = b\<lparr>rd_r := 0, rd_w := 0, rd_rd := r, rd_buf := buf, rd_err := err\<rparr> in
            if n < 0 then Inl rd_errNegativeRead
            else if n = 0 then (case rd_readErr b of (b, err) \<Rightarrow> Inr (b, p, 0, err))
            else rd_copy (b\<lparr>rd_w := wrap64 (rd_w b + n)\<rparr>) p)
      else rd_copy b p)"

definition rd_ReadByte :: "'r reader \<Rightarrow> 'r bufReader \<Rightarrow> ('r bufReader \<times> byte \<times> io_error option) go option" where
  "rd_ReadByte rd b =
     run_bind (fill_while rd (\<lambda>b. rd_r b = rd_w b \<and> rd_err b = None) (b\<lparr>rd_lastRuneSize := -1\<rparr>)) (\<lambda>b. Some (
       if rd_r b = rd_w b then (case rd_readErr b of (b, err) \<Rightarrow> Inr (b, 0, err))
       else go_bind (go_index (rd_buf b) (rd_r b)) (\<lambda>c.
         Inr (b\<lparr>rd_r := rd_r b + 1, rd_lastByte := int (unat c)\<rparr>, c, None))))"

definition rd_UnreadByte :: "'r bufReader \<Rightarrow> ('r bufReader \<times> io_error option) go" where
  "rd_UnreadByte b =
     (if rd_lastByte b < 0 \<or> rd_r b = 0 \<and> rd_w b > 0 then Inr (b, Some ErrInvalidUnreadByte)
      else
        let b = (if rd_r b > 0 then b\<lparr>rd_r := rd_r b - 1\<rparr> else b\<lparr>rd_w := 1\<rparr>) in
        if 0 \<le> rd_r b \<and> rd_r b < int (length (rd_buf b)) then
          Inr (b\<lparr>rd_buf := (rd_buf b)[nat (rd_r b) := word_of_int (rd_lastByte b)], rd_lastByte := -1, rd_lastRuneSize := -1\<rparr>, None)
        else Inl IndexOutOfRange)"

definition rd_ReadRune :: "'r reader \<Rightarrow> 'r bufReader \<Rightarrow> ('r bufReader \<times> rune \<times> int \<times> io_error option) go option" where
  "rd_ReadRune rd b =
     run_bind (fill_while rd (\<lambda>b. rd_r b + int UTFMax > rd_w b \<and> \<not> FullRune (seg (nat (rd_r b)) (nat (rd_w b)) (rd_buf b))
         \<and> rd_err b = None \<and> rd_w b - rd_r b < int (length (rd_buf b))) b) (\<lambda>b. Some (
       let b = b\<lparr>rd_lastRuneSize := -1\<rparr> in
       if rd_r b = rd_w b then (case rd_readErr b of (b, err) \<Rightarrow> Inr (b, 0, 0, err))
       else
         go_bind (go_index (rd_buf b) (rd_r b)) (\<lambda>c.
         go_bind (if c \<ge> RuneSelf then go_bind (go_sub (rd_buf b) (rd_r b) (rd_w b)) (\<lambda>data. Inr (DecodeRune data))
                  else Inr (ucast c, 1)) (\<lambda>(r, n).
         let b = b\<lparr>rd_r := rd_r b + int n\<rparr> in
         go_bind (go_index (rd_buf b) (rd_r b - 1)) (\<lambda>c.
           Inr (b\<lparr>rd_lastByte := int (unat c), rd_lastRuneSize := int n\<rparr>, r, int n, None))))))"

definition rd_UnreadRune :: "'r bufReader \<Rightarrow> 'r bufReader \<times> io_error option" where
  "rd_UnreadRune b =
     (if rd_lastRuneSize b < 0 \<or> rd_r b < rd_lastRuneSize b then (b, Some ErrInvalidUnreadRune)
      else (b\<lparr>rd_r := rd_r b - rd_lastRuneSize b, rd_lastByte := -1, rd_lastRuneSize := -1\<rparr>, None))"

section \<open>Lines\<close>

text \<open>The loop of \<open>ReadSlice\<close>; \<open>s\<close> bytes have been searched before.\<close>

partial_function (option) slice_loop ::
  "'r reader \<Rightarrow> byte \<Rightarrow> int \<Rightarrow> 'r bufReader \<Rightarrow> ('r bufReader \<times> bytes \<times> io_error option) go option" where
  "slice_loop rd delim s b =
     (case go_sub (rd_buf b) (rd_r b + s) (rd_w b) of
        Inl e \<Rightarrow> Some (Inl e)
      | Inr xs \<Rightarrow>
          let i = bytes_IndexByte xs delim in
          if i \<ge> 0 then
            let i = i + s in
            Some (go_bind (go_sub (rd_buf b) (rd_r b) (rd_r b + i + 1)) (\<lambda>line.
              Inr (b\<lparr>rd_r := rd_r b + i + 1\<rparr>, line, None)))
          else if rd_err b \<noteq> None then
            Some (go_bind (go_sub (rd_buf b) (rd_r b) (rd_w b)) (\<lambda>line.
              case rd_readErr (b\<lparr>rd_r := rd_w b\<rparr>) of (b, err) \<Rightarrow> Inr (b, line, err)))
          else if rd_Buffered b \<ge> int (length (rd_buf b)) then
            Some (Inr (b\<lparr>rd_r := rd_w b\<rparr>, rd_buf b, Some ErrBufferFull))
          else
            (case rd_fill rd b of
               Inl e \<Rightarrow> Some (Inl e)
             | Inr b' \<Rightarrow> slice_loop rd delim (rd_w b - rd_r b) b'))"

definition rd_ReadSlice :: "'r reader \<Rightarrow> 'r bufReader \<Rightarrow> byte \<Rightarrow> ('r bufReader \<times> bytes \<times> io_error option) go option" where
  "rd_ReadSlice rd b delim =
     run_bind (slice_loop rd delim 0 b) (\<lambda>(b, line, err).
       Some (Inr (if line \<noteq> [] then b\<lparr>rd_lastByte := int (unat (last line)), rd_lastRuneSize := -1\<rparr> else b, line, err)))"

definition rd_ReadLine :: "'r reader \<Rightarrow> 'r bufReader \<Rightarrow> ('r bufReader \<times> bytes \<times> bool \<times> io_error option) go option" where
  "rd_ReadLine rd b =
     run_bind (rd_ReadSlice rd b 0x0A) (\<lambda>(b, line, err). Some (
       if err = Some ErrBufferFull then
         if line \<noteq> [] \<and> last line = 0x0D then
           if rd_r b = 0 then Inl (PanicValue ''bufio: tried to rewind past start of buffer'')
           else Inr (b\<lparr>rd_r := rd_r b - 1\<rparr>, butlast line, True, None)
         else Inr (b, line, True, None)
       else if line = [] then Inr (b, [], False, err)
       else if last line = 0x0A then
         let drop' = (if length line > 1 \<and> line ! (length line - 2) = 0x0D then 2 else 1) in
         Inr (b, take (length line - drop') line, False, None)
       else Inr (b, line, False, None)))"

text \<open>\<open>ReadBytes\<close>: the full buffers and the last fragment; then a copy of all of them.\<close>

partial_function (option) readbytes_loop ::
  "'r reader \<Rightarrow> byte \<Rightarrow> 'r bufReader \<Rightarrow> bytes list \<Rightarrow> ('r bufReader \<times> bytes list \<times> bytes \<times> io_error option) go option" where
  "readbytes_loop rd delim b full =
     Option.bind (rd_ReadSlice rd b delim) (\<lambda>x. case x of
       Inl e \<Rightarrow> Some (Inl e)
     | Inr (b, frag, e) \<Rightarrow>
         if e = None then Some (Inr (b, full, frag, None))
         else if e \<noteq> Some ErrBufferFull then Some (Inr (b, full, frag, e))
         else readbytes_loop rd delim b (full @ [frag]))"

fun copy_frags :: "bytes \<Rightarrow> nat \<Rightarrow> bytes list \<Rightarrow> bytes \<times> nat" where
  "copy_frags buf n [] = (buf, n)"
| "copy_frags buf n (xs # full) =
     (let m = min (length buf - n) (length xs) in
      copy_frags (take n buf @ take m xs @ drop (n + m) buf) (n + m) full)"

definition rd_ReadBytes :: "'r reader \<Rightarrow> 'r bufReader \<Rightarrow> byte \<Rightarrow> ('r bufReader \<times> bytes \<times> io_error option) go option" where
  "rd_ReadBytes rd b delim =
     run_bind (readbytes_loop rd delim b []) (\<lambda>(b, full, frag, err).
       let (buf, n) = copy_frags (replicate (sum_list (map length full) + length frag) 0) 0 full;
           (buf, n) = copy_frags buf n [frag] in
       Some (Inr (b, buf, err)))"

definition rd_ReadString :: "'r reader \<Rightarrow> 'r bufReader \<Rightarrow> byte \<Rightarrow> ('r bufReader \<times> bytes \<times> io_error option) go option" where
  "rd_ReadString rd b delim = rd_ReadBytes rd b delim"

section \<open>Writing everything out\<close>

definition rd_writeBuf :: "'w writer \<Rightarrow> 'r bufReader \<Rightarrow> 'w \<Rightarrow> ('r bufReader \<times> 'w \<times> int \<times> io_error option) go" where
  "rd_writeBuf wr b w =
     go_bind (go_sub (rd_buf b) (rd_r b) (rd_w b)) (\<lambda>data.
     go_bind (wr w data) (\<lambda>(w, n, err).
       if n < 0 then Inl errNegativeWrite
       else Inr (b\<lparr>rd_r := wrap64 (rd_r b + n)\<rparr>, w, n, err)))"

partial_function (option) writeto_loop ::
  "'r reader \<Rightarrow> 'w writer \<Rightarrow> 'r bufReader \<Rightarrow> 'w \<Rightarrow> int \<Rightarrow> ('r bufReader \<times> 'w \<times> int \<times> io_error option) go option" where
  "writeto_loop rd wr b w n =
     (if rd_r b < rd_w b then
        (case rd_writeBuf wr b w of
           Inl e \<Rightarrow> Some (Inl e)
         | Inr (b, w, m, err) \<Rightarrow>
             if err \<noteq> None then Some (Inr (b, w, wrap64 (n + m), err))
             else
               (case rd_fill rd b of
                  Inl e \<Rightarrow> Some (Inl e)
                | Inr b \<Rightarrow> writeto_loop rd wr b w (wrap64 (n + m))))
      else
        (case rd_readErr (if rd_err b = Some EOF then b\<lparr>rd_err := None\<rparr> else b) of (b, err) \<Rightarrow>
           Some (Inr (b, w, n, err))))"

text \<open>
  The type assertions: \<open>wt\<close> is the \<open>WriteTo\<close> method of the underlying reader, \<open>rf\<close> the \<open>ReadFrom\<close> method
  of the writer.
\<close>

definition rd_WriteTo ::
  "'r reader \<Rightarrow> ('r, 'w) transfer option \<Rightarrow> 'w writer \<Rightarrow> ('r, 'w) transfer option \<Rightarrow> ('r bufReader, 'w) transfer" where
  "rd_WriteTo rd wt wr rf b w =
     (case rd_writeBuf wr b w of
        Inl e \<Rightarrow> Some (Inl e)
      | Inr (b, w, n, err) \<Rightarrow>
          if err \<noteq> None then Some (Inr (b, w, n, err))
          else
            (case (case wt of Some f \<Rightarrow> Some f | None \<Rightarrow> rf) of
               Some f \<Rightarrow> run_bind (f (rd_rd b) w) (\<lambda>(r, w, m, err). Some (Inr (b\<lparr>rd_rd := r\<rparr>, w, wrap64 (n + m), err)))
             | None \<Rightarrow>
                 (case (if rd_w b - rd_r b < int (length (rd_buf b)) then rd_fill rd b else Inr b) of
                    Inl e \<Rightarrow> Some (Inl e)
                  | Inr b \<Rightarrow> writeto_loop rd wr b w n)))"

declare fill_while.simps [code] discard_loop.simps [code] slice_loop.simps [code] readbytes_loop.simps [code] writeto_loop.simps [code]

end
