(* ===== verification/BufioScan.thy ===== *)
theory BufioScan
  imports StringsSplit BufioReader
begin

text \<open>
  The Scanner of package \<open>bufio\<close> (\<open>bufio/scan.go\<close>): its state machine over a reader and a split function,
  and the four split functions of the package.  A token is an option, since the code distinguishes a
  nil token from an empty one; a split function may panic.
\<close>

section \<open>State\<close>

type_synonym split_func = "bytes \<Rightarrow> bool \<Rightarrow> (int \<times> bytes option \<times> io_error option) go"

record 'r Scanner =
  sn_r :: 'r
  sn_split :: split_func
  maxTokenSize :: int
  sn_token :: "bytes option"
  sn_buf :: bytes
  sn_start :: int
  sn_end :: int
  sn_err :: "io_error option"
  empties :: int
  scanCalled :: bool
  sn_done :: bool

definition ErrTooLong :: io_error where "ErrTooLong = NewError ''bufio.Scanner: token too long''"
definition ErrNegativeAdvance :: io_error where
  "ErrNegativeAdvance = NewError ''bufio.Scanner: SplitFunc returns negative advance count''"
definition ErrAdvanceTooFar :: io_error where
  "ErrAdvanceTooFar = NewError ''bufio.Scanner: SplitFunc returns advance count beyond input''"
definition ErrFinalToken :: io_error where "ErrFinalToken = NewError ''final token''"

definition MaxScanTokenSize :: int where "MaxScanTokenSize = 64 * 1024"
definition startBufSize :: int where "startBufSize = 4096"

section \<open>Split functions\<close>

definition ScanBytes :: split_func where
  "ScanBytes data atEOF =
     (if atEOF \<and> data = [] then Inr (0, None, None)
      else go_bind (go_slice data 0 1) (\<lambda>t. Inr (1, Some t, None)))"

definition errorRune :: bytes where "errorRune = rune_bytes RuneError"

definition ScanRunes :: split_func where
  "ScanRunes data atEOF =
     (if atEOF \<and> data = [] then Inr (0, None, None)
      else go_bind (go_nth data 0) (\<lambda>c.
        if c < RuneSelf then Inr (1, Some (take 1 data), None)
        else let width = snd (DecodeRune data) in
          if width > 1 then go_bind (go_slice data 0 width) (\<lambda>t. Inr (int width, Some t, None))
          else if \<not> atEOF \<and> \<not> FullRune data then Inr (0, None, None)
          else Inr (1, Some errorRune, None)))"

definition dropCR :: "bytes \<Rightarrow> bytes" where
  "dropCR data = (if 0 < length data \<and> data ! (length data - 1) = 0x0D then take (length data - 1) data else data)"

definition ScanLines :: split_func where
  "ScanLines data atEOF =
     (if atEOF \<and> data = [] then Inr (0, None, None)
      else let i = bytes_IndexByte data 0x0A in
        if i \<ge> 0 then go_bind (go_sub data 0 i) (\<lambda>l. Inr (i + 1, Some (dropCR l), None))
        else if atEOF then Inr (int (length data), Some (dropCR data), None)
        else Inr (0, None, None))"

definition isSpace :: "rune \<Rightarrow> bool" where
  "isSpace r =
     (if r \<le>s 0xFF then r \<in> {0x20, 0x09, 0x0A, 0x0B, 0x0C, 0x0D} \<or> r \<in> {0x85, 0xA0}
      else if 0x2000 \<le>s r \<and> r \<le>s 0x200A then True
      else r \<in> {0x1680, 0x2028, 0x2029, 0x202F, 0x205F, 0x3000})"

text \<open>The two loops of \<open>ScanWords\<close>: past the leading spaces; to the next space and its width.\<close>

function words_start :: "bytes \<Rightarrow> nat \<Rightarrow> nat" where
  "words_start data start =
     (if start < length data then
        let (r, width) = DecodeRune (drop start data) in
        if isSpace r then words_start data (start + width) else start
      else start)"
  by pat_completeness auto
termination
proof (relation "measure (\<lambda>(data, start). length data - start)", goal_cases)
  case (2 data start x r width)
  then show ?case using DecodeRune_progress [of start data] by (cases "DecodeRune (drop start data)") auto
qed simp

function words_end :: "bytes \<Rightarrow> nat \<Rightarrow> (nat \<times> nat) option" where
  "words_end data i =
     (if i < length data then
        let (r, width) = DecodeRune (drop i data) in
        if isSpace r then Some (i, width) else words_end data (i + width)
      else None)"
  by pat_completeness auto
termination
proof (relation "measure (\<lambda>(data, i). length data - i)", goal_cases)
  case (2 data i x r width)
  then show ?case using DecodeRune_progress [of i data] by (cases "DecodeRune (drop i data)") auto
qed simp

declare words_start.simps [simp del] words_end.simps [simp del]

definition ScanWords :: split_func where
  "ScanWords data atEOF =
     (let start = words_start data 0 in
      case words_end data start of
        Some (i, width) \<Rightarrow> go_bind (go_slice data start i) (\<lambda>t. Inr (int (i + width), Some t, None))
      | None \<Rightarrow>
          if atEOF \<and> length data > start then Inr (int (length data), Some (drop start data), None)
          else Inr (int start, None, None))"

section \<open>The machine\<close>

definition NewScanner :: "'r \<Rightarrow> 'r Scanner" where
  "NewScanner r = \<lparr>sn_r = r, sn_split = ScanLines, maxTokenSize = MaxScanTokenSize, sn_token = None, sn_buf = [],
     sn_start = 0, sn_end = 0, sn_err = None, empties = 0, scanCalled = False, sn_done = False\<rparr>"

definition sn_Err :: "'r Scanner \<Rightarrow> io_error option" where
  "sn_Err s = (if sn_err s = Some EOF then None else sn_err s)"

definition sn_Bytes :: "'r Scanner \<Rightarrow> bytes option" where "sn_Bytes s = sn_token s"

definition sn_Text :: "'r Scanner \<Rightarrow> bytes" where
  "sn_Text s = (case sn_token s of None \<Rightarrow> [] | Some t \<Rightarrow> t)"

definition sn_setErr :: "'r Scanner \<Rightarrow> io_error \<Rightarrow> 'r Scanner" where
  "sn_setErr s e = (if sn_err s = None \<or> sn_err s = Some EOF then s\<lparr>sn_err := Some e\<rparr> else s)"

definition sn_advance :: "'r Scanner \<Rightarrow> int \<Rightarrow> 'r Scanner \<times> bool" where
  "sn_advance s n =
     (if n < 0 then (sn_setErr s ErrNegativeAdvance, False)
      else if n > sn_end s - sn_start s then (sn_setErr s ErrAdvanceTooFar, False)
      else (s\<lparr>sn_start := sn_start s + n\<rparr>, True))"

text \<open>See whether a token can be had from what is buffered; no answer means that more input is needed.\<close>

definition scan_token :: "'r Scanner \<Rightarrow> ('r Scanner \<times> bool option) go" where
  "scan_token s =
     (if sn_end s > sn_start s \<or> sn_err s \<noteq> None then
        go_bind (go_sub (sn_buf s) (sn_start s) (sn_end s)) (\<lambda>data.
        go_bind (sn_split s data (sn_err s \<noteq> None)) (\<lambda>(adv, token, err).
          case err of
            Some e \<Rightarrow>
              if e = ErrFinalToken then Inr (s\<lparr>sn_token := token, sn_done := True\<rparr>, Some True)
              else Inr (sn_setErr s e, Some False)
          | None \<Rightarrow>
              (case sn_advance s adv of
                 (s, False) \<Rightarrow> Inr (s, Some False)
               | (s, True) \<Rightarrow>
                   let s = s\<lparr>sn_token := token\<rparr> in
                   if token = None then Inr (s, None)
                   else if sn_err s = None \<or> adv > 0 then Inr (s\<lparr>empties := 0\<rparr>, Some True)
                   else let s = s\<lparr>empties := wrap64 (empties s + 1)\<rparr> in
                     if empties s > int maxConsecutiveEmptyReads
                     then Inl (PanicValue ''bufio.Scan: too many empty tokens without progressing'')
                     else Inr (s, Some True))))
      else Inr (s, None))"

text \<open>Make room: move the data to the beginning of the buffer, or enlarge it.\<close>

definition scan_shift :: "'r Scanner \<Rightarrow> 'r Scanner go" where
  "scan_shift s =
     (if sn_start s > 0 \<and> (sn_end s = int (length (sn_buf s)) \<or> sn_start s > int (length (sn_buf s) div 2)) then
        go_bind (go_sub (sn_buf s) (sn_start s) (sn_end s)) (\<lambda>data.
          Inr (s\<lparr>sn_buf := data @ drop (length data) (sn_buf s), sn_end := sn_end s - sn_start s, sn_start := 0\<rparr>))
      else Inr s)"

definition scan_grow :: "'r Scanner \<Rightarrow> ('r Scanner \<times> bool) go" where
  "scan_grow s =
     (if sn_end s = int (length (sn_buf s)) then
        if int (length (sn_buf s)) \<ge> maxTokenSize s \<or> int (length (sn_buf s)) > maxInt div 2
        then Inr (sn_setErr s ErrTooLong, False)
        else
          let newSize = int (length (sn_buf s)) * 2;
              newSize = (if newSize = 0 then startBufSize else newSize);
              newSize = (if newSize > maxTokenSize s then maxTokenSize s else newSize) in
          go_bind (go_sub (sn_buf s) (sn_start s) (sn_end s)) (\<lambda>data.
            Inr (s\<lparr>sn_buf := take (nat newSize) data @ replicate (nat newSize - length data) 0,
                   sn_end := sn_end s - sn_start s, sn_start := 0\<rparr>, True))
      else Inr (s, True))"

text \<open>Read some input, giving up after too many reads that deliver nothing.\<close>

function scan_read :: "'r reader \<Rightarrow> nat \<Rightarrow> 'r Scanner \<Rightarrow> 'r Scanner go" where
  "scan_read rd loop s =
     go_bind (go_from (sn_buf s) (sn_end s)) (\<lambda>p.
     go_bind (rd (sn_r s) p) (\<lambda>(r, p, n, err).
       let s = s\<lparr>sn_r := r, sn_buf := take (nat (sn_end s)) (sn_buf s) @ p, sn_end := wrap64 (sn_end s + n)\<rparr> in
       case err of
         Some e \<Rightarrow> Inr (sn_setErr s e)
       | None \<Rightarrow>
           if n > 0 then Inr (s\<lparr>empties := 0\<rparr>)
           else if loop + 1 > maxConsecutiveEmptyReads then Inr (sn_setErr s ErrNoProgress)
           else scan_read rd (loop + 1) s))"
  by pat_completeness auto
termination by (relation "measure (\<lambda>(rd, loop, s). maxConsecutiveEmptyReads - loop)") auto

declare scan_read.simps [simp del]

partial_function (option) scan_loop :: "'r reader \<Rightarrow> 'r Scanner \<Rightarrow> ('r Scanner \<times> bool) go option" where
  "scan_loop rd s =
     (case scan_token s of
        Inl e \<Rightarrow> Some (Inl e)
      | Inr (s, Some b) \<Rightarrow> Some (Inr (s, b))
      | Inr (s, None) \<Rightarrow>
          if sn_err s \<noteq> None then Some (Inr (s\<lparr>sn_start := 0, sn_end := 0\<rparr>, False))
          else (case go_bind (scan_shift s) scan_grow of
              Inl e \<Rightarrow> Some (Inl e)
            | Inr (s, room) \<Rightarrow>
                if \<not> room then Some (Inr (s, False))
                else (case scan_read rd 0 s of
                   Inl e \<Rightarrow> Some (Inl e)
                 | Inr s \<Rightarrow> scan_loop rd s)))"

definition sn_Scan :: "'r reader \<Rightarrow> 'r Scanner \<Rightarrow> ('r Scanner \<times> bool) go option" where
  "sn_Scan rd s =
     (if sn_done s then Some (Inr (s, False)) else scan_loop rd (s\<lparr>scanCalled := True\<rparr>))"

text \<open>\<open>s.Buffer(buf, max)\<close>, of a slice that shows its whole capacity, and \<open>s.Split(split)\<close>.\<close>

definition sn_Buffer :: "'r Scanner \<Rightarrow> slice \<Rightarrow> int \<Rightarrow> 'r Scanner go" where
  "sn_Buffer s buf max' =
     (if scanCalled s then Inl (PanicValue ''Buffer called after Scan'')
      else Inr (s\<lparr>sn_buf := elems buf @ spare buf, maxTokenSize := max'\<rparr>))"

definition sn_Split :: "'r Scanner \<Rightarrow> split_func \<Rightarrow> 'r Scanner go" where
  "sn_Split s split =
     (if scanCalled s then Inl (PanicValue ''Split called after Scan'') else Inr (s\<lparr>sn_split := split\<rparr>))"

end
