(* ===== verification/BufioScanLaws.thy ===== *)
theory BufioScanLaws
  imports BufioScan IoLaws
begin

text \<open>
  What a Scanner makes of its input does not depend on the portions in which the reader delivers it:
  for every split function whose answers on a part of the input are those on the whole, the tokens are
  the ones that the function cuts off the complete input.
\<close>

section \<open>Tokens of a complete input\<close>

function tokens :: "split_func \<Rightarrow> bytes \<Rightarrow> bytes list" where
  "tokens split u =
     (case split u True of
        Inr (adv, Some t, None) \<Rightarrow>
          if 0 < adv \<and> adv \<le> int (length u) then t # tokens split (drop (nat adv) u) else []
      | _ \<Rightarrow> [])"
  by pat_completeness auto
termination by (relation "measure (\<lambda>(split, u). length u)") auto

declare tokens.simps [simp del]

lemma tokens_eof: "split u True = Inr (int a, None, None) \<Longrightarrow> tokens split u = []"
  by (simp add: tokens.simps)

lemma tokens_cut:
  "split u True = Inr (int a, Some t, None) \<Longrightarrow> 0 < a \<Longrightarrow> a \<le> length u \<Longrightarrow> tokens split u = t # tokens split (drop a u)"
  by (subst tokens.simps) simp

text \<open>
  A split function that never fails, never goes beyond its input, makes progress with every token, and
  whose answers are final: a token found without having seen the end of the input is the next token of
  every continuation; bytes skipped without a token do not matter.
\<close>

definition final_answer :: "split_func \<Rightarrow> bytes \<Rightarrow> nat \<Rightarrow> bytes option \<Rightarrow> bool" where
  "final_answer split u a tok \<longleftrightarrow>
     (\<forall>v. if tok = None then tokens split (u @ v) = tokens split (drop a (u @ v))
          else split (u @ v) True = Inr (int a, tok, None))"

text \<open>A buffer of \<open>M\<close> bytes is enough at \<open>u\<close>: the end of the input is seen, or the split function gets on.\<close>

definition fits :: "split_func \<Rightarrow> nat \<Rightarrow> bytes \<Rightarrow> bool" where
  "fits split M u \<longleftrightarrow> length u < M \<or> 0 < M \<and> split (take M u) False \<noteq> Inr (0, None, None)"

definition all_fit :: "split_func \<Rightarrow> nat \<Rightarrow> bytes \<Rightarrow> bool" where
  "all_fit split M u \<longleftrightarrow> (\<forall>k \<le> length u. fits split M (drop k u))"

lemma all_fit_drop: "all_fit split M u \<Longrightarrow> all_fit split M (drop k u)"
proof -
  assume f: "all_fit split M u"
  have "fits split M (drop j (drop k u))" if "j \<le> length (drop k u)" for j
  proof (cases "k \<le> length u")
    case True
    then show ?thesis using f that by (simp add: all_fit_def)
  next
    case False
    then show ?thesis using f unfolding all_fit_def by (metis drop_all drop_drop le_refl linorder_le_cases nat_le_linear)
  qed
  then show ?thesis by (simp add: all_fit_def)
qed

text \<open>The loop of a client: \<open>for s.Scan() { ... s.Text() ... }\<close>, on a Scanner with a buffer and a split function of its choice.\<close>

partial_function (option) scan_tokens :: "'r reader \<Rightarrow> 'r Scanner \<Rightarrow> bytes list \<Rightarrow> ('r Scanner \<times> bytes list) go option" where
  "scan_tokens rd s acc =
     Option.bind (sn_Scan rd s) (\<lambda>x. case x of
       Inl e \<Rightarrow> Some (Inl e)
     | Inr (s, b) \<Rightarrow> if b then scan_tokens rd s (acc @ [sn_Text s]) else Some (Inr (s, acc)))"

definition scanner_on :: "'r \<Rightarrow> slice \<Rightarrow> int \<Rightarrow> split_func \<Rightarrow> 'r Scanner go" where
  "scanner_on r buf max' split = go_bind (sn_Buffer (NewScanner r) buf max') (\<lambda>s. sn_Split s split)"

definition scan_all :: "'r reader \<Rightarrow> 'r \<Rightarrow> slice \<Rightarrow> int \<Rightarrow> split_func \<Rightarrow> ('r Scanner \<times> bytes list) go option" where
  "scan_all rd r buf max' split =
     (case scanner_on r buf max' split of
        Inl e \<Rightarrow> Some (Inl e)
      | Inr s \<Rightarrow> scan_tokens rd s [])"

locale splitter =
  fixes split :: split_func
  assumes at_eof: "\<exists>a tok. split u True = Inr (int a, tok, None) \<and> a \<le> length u \<and> (tok \<noteq> None \<longrightarrow> 0 < a)"
    and midway: "u \<noteq> [] \<Longrightarrow> \<exists>a tok. split u False = Inr (int a, tok, None) \<and> a \<le> length u \<and> (tok \<noteq> None \<longrightarrow> 0 < a)
      \<and> final_answer split u a tok"
begin

lemma tokens_Nil [simp]: "tokens split [] = []"
proof -
  obtain a tok where "split [] True = Inr (int a, tok, None)" "a \<le> length ([] :: bytes)" "tok \<noteq> None \<longrightarrow> 0 < a"
    using at_eof [of "[]"] by blast
  then have "split [] True = Inr (int a, None, None)" by auto
  then show ?thesis by (rule tokens_eof)
qed

end

section \<open>The machine\<close>

locale scanning = stream_reader rd rest ok + splitter split
  for rd :: "'r reader" and rest and ok and split :: split_func
begin

definition unread :: "'r Scanner \<Rightarrow> bytes" where
  "unread s = seg (nat (sn_start s)) (nat (sn_end s)) (sn_buf s)"

definition ahead :: "'r Scanner \<Rightarrow> bytes" where
  "ahead s = unread s @ rest (sn_r s)"

definition sn_ok :: "nat \<Rightarrow> 'r Scanner \<Rightarrow> bool" where
  "sn_ok M s \<longleftrightarrow> 0 \<le> sn_start s \<and> sn_start s \<le> sn_end s \<and> sn_end s \<le> int (length (sn_buf s)) \<and> M < 2 ^ 62
     \<and> M = max (nat (maxTokenSize s)) (length (sn_buf s)) \<and> sn_split s = split \<and> ok (sn_r s) \<and> \<not> sn_done s
     \<and> (sn_err s = None \<or> sn_err s = Some EOF \<and> rest (sn_r s) = [])"

lemma sn_ok_fields:
  "sn_ok M (s\<lparr>empties := n\<rparr>) = sn_ok M s" "sn_ok M (s\<lparr>scanCalled := b\<rparr>) = sn_ok M s"
  "ahead (s\<lparr>empties := n\<rparr>) = ahead s" "ahead (s\<lparr>scanCalled := b\<rparr>) = ahead s"
  "sn_ok M (s\<lparr>sn_token := t\<rparr>) = sn_ok M s"
  by (simp_all add: sn_ok_def ahead_def unread_def)

lemma sn_okE:
  assumes "sn_ok M s"
  obtains i j where "sn_start s = int i" "sn_end s = int j" "i \<le> j" "j \<le> length (sn_buf s)" "length (sn_buf s) \<le> M" "M < 2 ^ 62"
    "unread s = seg i j (sn_buf s)" "length (unread s) = j - i"
proof -
  have "sn_start s = int (nat (sn_start s))" "sn_end s = int (nat (sn_end s))" "nat (sn_start s) \<le> nat (sn_end s)"
    "nat (sn_end s) \<le> length (sn_buf s)" "length (sn_buf s) \<le> M" "M < 2 ^ 62"
    using assms unfolding sn_ok_def by auto
  then show ?thesis using that [of "nat (sn_start s)" "nat (sn_end s)"] by (simp add: unread_def)
qed

text \<open>One look for a token.\<close>

lemma scan_token_spec:
  assumes "sn_ok M s"
  shows "(\<exists>s' t k. scan_token s = Inr (s', Some True) \<and> sn_ok M s' \<and> sn_token s' = Some t
        \<and> tokens split (ahead s) = t # tokens split (ahead s') \<and> ahead s' = drop k (ahead s))
    \<or> (\<exists>s' k. scan_token s = Inr (s', None) \<and> sn_ok M s' \<and> sn_r s' = sn_r s \<and> sn_err s' = sn_err s \<and> sn_buf s' = sn_buf s
        \<and> ahead s' = drop k (ahead s) \<and> unread s' = drop k (unread s)
        \<and> (if sn_err s = None then tokens split (ahead s') = tokens split (ahead s)
             \<and> (unread s' \<noteq> [] \<and> k = 0 \<longrightarrow> split (unread s') False = Inr (0, None, None))
           else tokens split (ahead s) = []))"
proof -
  obtain i j where ij: "sn_start s = int i" "sn_end s = int j" "i \<le> j" "j \<le> length (sn_buf s)" "unread s = seg i j (sn_buf s)"
    "length (unread s) = j - i" using sn_okE [OF assms] by metis
  have sp: "sn_split s = split" using assms by (simp add: sn_ok_def)
  show ?thesis
  proof (cases "sn_end s > sn_start s \<or> sn_err s \<noteq> None")
    case True
    obtain a tok where a: "split (unread s) (sn_err s \<noteq> None) = Inr (int a, tok, None)" "a \<le> length (unread s)" "tok \<noteq> None \<longrightarrow> 0 < a"
      "sn_err s = None \<longrightarrow> final_answer split (unread s) a tok"
    proof (cases "sn_err s")
      case None
      then have "length (unread s) > 0" using True ij(1,2) unfolding ij(6) by simp
      then have "unread s \<noteq> []" by auto
      then show ?thesis using midway [of "unread s"] that None by auto
    next
      case (Some e)
      then show ?thesis using at_eof [of "unread s"] that by auto
    qed
    define s1 where "s1 = s\<lparr>sn_start := int (i + a), sn_token := tok\<rparr>"
    have un1: "unread s1 = drop a (unread s)" using ij a(2) by (simp add: s1_def unread_def seg_def drop_take nat_int_add add.commute)
    have ok1: "sn_ok M s1" using assms ij a(2) by (auto simp: sn_ok_def s1_def)
    have ah: "ahead s1 = drop a (ahead s)" using a(2) un1 by (simp add: ahead_def s1_def)
    have adv: "sn_advance s (int a) = (s\<lparr>sn_start := int (i + a)\<rparr>, True)" using ij a(2) by (simp add: sn_advance_def)
    have st: "scan_token s = (if tok = None then Inr (s1, None) else Inr (s1\<lparr>empties := 0\<rparr>, Some True))"
      using True a(1,3) ij adv sp unfolding scan_token_def by (auto simp: s1_def Let_def)
    have eof: "sn_err s \<noteq> None \<Longrightarrow> ahead s = unread s" using assms by (auto simp: sn_ok_def ahead_def)
    show ?thesis
    proof (cases tok)
      case None
      have "tokens split (ahead s1) = tokens split (ahead s)" if "sn_err s = None"
        using a(4) that None unfolding ah by (simp add: ahead_def final_answer_def)
      moreover have "tokens split (ahead s) = []" if "sn_err s \<noteq> None"
        using a(1) that None eof tokens_eof by simp
      moreover have "split (unread s1) False = Inr (0, None, None)" if "sn_err s = None" "a = 0"
        using a(1) that None un1 by simp
      ultimately show ?thesis using st None ok1 ah un1 by (intro disjI2 exI [of _ s1] exI [of _ a]) (auto simp: s1_def)
    next
      case (Some t)
      let ?s = "s1\<lparr>empties := 0\<rparr>"
      have "sn_ok M ?s" using ok1 by (simp only: sn_ok_fields)
      moreover have "ahead ?s = ahead s1" by (simp add: ahead_def unread_def)
      moreover have "split (ahead s) True = Inr (int a, Some t, None)"
      proof (cases "sn_err s = None")
        case True
        then show ?thesis using a(4) Some by (simp add: ahead_def final_answer_def)
      next
        case False
        then show ?thesis using a(1) eof Some by simp
      qed
      then have "tokens split (ahead s) = t # tokens split (ahead s1)"
        unfolding ah using a(2,3) Some by (intro tokens_cut) (auto simp: ahead_def)
      ultimately show ?thesis using st Some ah by (intro disjI1 exI [of _ ?s] exI [of _ t] exI [of _ a]) (simp add: s1_def)
    qed
  next
    case False
    then have "scan_token s = Inr (s, None)" "unread s = []" "sn_err s = None" using ij by (auto simp: scan_token_def)
    then show ?thesis using assms by (intro disjI2 exI [of _ s] exI [of _ 0]) simp
  qed
qed

text \<open>Making room for more: nothing is lost, and there is room unless \<open>M\<close> bytes are waiting.\<close>

lemma scan_room_spec:
  assumes "sn_ok M s" "sn_err s = None" "length (unread s) < M"
  shows "\<exists>s'. go_bind (scan_shift s) scan_grow = Inr (s', True) \<and> sn_ok M s' \<and> sn_r s' = sn_r s \<and> sn_err s' = None
    \<and> unread s' = unread s \<and> sn_end s' < int (length (sn_buf s')) \<and> (sn_start s = 0 \<longrightarrow> sn_start s' = 0)"
proof -
  obtain i j where ij: "sn_start s = int i" "sn_end s = int j" "i \<le> j" "j \<le> length (sn_buf s)" "unread s = seg i j (sn_buf s)"
    "length (unread s) = j - i" "length (sn_buf s) \<le> M" "M < 2 ^ 62" using sn_okE [OF assms(1)] by metis
  obtain s1 i1 j1 where s1: "scan_shift s = Inr s1" "sn_ok M s1" "sn_r s1 = sn_r s" "sn_err s1 = None" "unread s1 = unread s"
    "sn_start s1 = int i1" "sn_end s1 = int j1" "i1 \<le> j1" "j1 \<le> length (sn_buf s1)" "length (sn_buf s1) \<le> M" "j1 = length (sn_buf s1) \<longrightarrow> i1 = 0"
    "maxTokenSize s1 = maxTokenSize s" "length (sn_buf s1) = length (sn_buf s)" "sn_start s = 0 \<longrightarrow> sn_start s1 = 0"
  proof (cases "sn_start s > 0 \<and> (sn_end s = int (length (sn_buf s)) \<or> sn_start s > int (length (sn_buf s) div 2))")
    case True
    let ?s1 = "s\<lparr>sn_buf := seg i j (sn_buf s) @ drop (j - i) (sn_buf s), sn_end := int j - int i, sn_start := 0\<rparr>"
    have "scan_shift s = Inr ?s1" using True ij unfolding scan_shift_def by simp
    moreover have "unread ?s1 = unread s" using ij by (simp add: unread_def of_nat_diff [symmetric] del: of_nat_diff)
    moreover have "sn_ok M ?s1" using assms(1) ij by (simp add: sn_ok_def)
    ultimately show ?thesis using that [of ?s1 0 "j - i"] ij assms(2) by (simp add: of_nat_diff)
  next
    case False
    then have "scan_shift s = Inr s" by (auto simp: scan_shift_def)
    then show ?thesis using that [of s i j] ij assms False by auto
  qed
  show ?thesis
  proof (cases "j1 = length (sn_buf s1)")
    case False
    then show ?thesis using s1 by (intro exI [of _ s1]) (simp add: scan_grow_def)
  next
    case True
    then have i1: "i1 = 0" using s1(11) by blast
    then have un: "unread s1 = sn_buf s1" using True s1(6,7) by (simp add: unread_def)
    let ?l = "length (sn_buf s1)"
    have M: "M = max (nat (maxTokenSize s1)) ?l" "?l < M" using s1(2) assms(3) s1(5) un by (simp_all add: sn_ok_def)
    then have max: "int ?l < maxTokenSize s1" "M = nat (maxTokenSize s1)" by auto
    define n where "n = (let n = int ?l * 2; n = (if n = 0 then startBufSize else n) in if n > maxTokenSize s1 then maxTokenSize s1 else n)"
    have n: "int ?l < n" "n \<le> maxTokenSize s1" using max(1) by (auto simp: n_def Let_def startBufSize_def)
    let ?s2 = "s1\<lparr>sn_buf := take (nat n) (sn_buf s1) @ replicate (nat n - ?l) 0, sn_end := int ?l, sn_start := 0\<rparr>"
    have "scan_grow s1 = Inr (?s2, True)"
      using s1(6,7) True i1 max M(2) ij(8) n unfolding scan_grow_def n_def by (simp add: maxInt_eq Let_def)
    moreover have "unread ?s2 = unread s" using un n s1(5) by (simp add: unread_def)
    moreover have "sn_ok M ?s2" using s1(2) n M max by (auto simp: sn_ok_def)
    ultimately show ?thesis using s1 n by (intro exI [of _ ?s2]) simp
  qed
qed

text \<open>Reading.\<close>

lemma scan_read_spec:
  assumes "sn_ok M s" "sn_err s = None" "sn_end s < int (length (sn_buf s))"
  shows "\<exists>s'. scan_read rd 0 s = Inr s' \<and> sn_ok M s' \<and> ahead s' = ahead s \<and> sn_start s' = sn_start s
    \<and> (length (rest (sn_r s')) < length (rest (sn_r s)) \<or> rest (sn_r s') = [] \<and> sn_err s' \<noteq> None)"
proof -
  obtain i j where ij: "sn_start s = int i" "sn_end s = int j" "i \<le> j" "j \<le> length (sn_buf s)" "unread s = seg i j (sn_buf s)"
    "length (sn_buf s) \<le> M" "M < 2 ^ 62" using sn_okE [OF assms(1)] by metis
  have okr: "ok (sn_r s)" using assms(1) by (simp add: sn_ok_def)
  obtain r' k e where r: "rd (sn_r s) (drop j (sn_buf s)) = Inr (r', take k (rest (sn_r s)) @ drop k (drop j (sn_buf s)), int k, e)"
    "ok r'" "k \<le> length (drop j (sn_buf s))" "k \<le> length (rest (sn_r s))" "rest r' = drop k (rest (sn_r s))"
    "e = None \<and> (drop j (sn_buf s) = [] \<or> 0 < k) \<or> e = Some EOF \<and> k = length (rest (sn_r s))"
    by (rule deliversE [OF delivers [OF okr]])
  let ?buf = "take j (sn_buf s) @ take k (rest (sn_r s)) @ drop k (drop j (sn_buf s))"
  let ?s = "s\<lparr>sn_r := r', sn_buf := ?buf, sn_end := int (j + k)\<rparr>"
  have jk: "j + k \<le> M" using r(3) ij(4,6) by simp
  then have w: "wrap64 (int j + int k) = int (j + k)" using ij(7) by (simp add: wrap64_id)
  have len: "length ?buf = length (sn_buf s)" using r(3,4) ij(4) by simp
  have un: "seg i (j + k) ?buf = unread s @ take k (rest (sn_r s))"
    using ij(3,4) r(4) by (simp add: seg_def ij(5) take_drop [symmetric] drop_take)
  have read: "scan_read rd 0 s = Inr (case e of None \<Rightarrow> ?s\<lparr>empties := 0\<rparr> | Some e \<Rightarrow> sn_setErr ?s e)"
    using r(1,6) ij assms(3) w by (subst scan_read.simps) (auto simp: Let_def)
  show ?thesis
  proof (cases e)
    case None
    then have k: "0 < k" using r(6) assms(3) ij(2) by auto
    let ?t = "?s\<lparr>empties := 0\<rparr>"
    have "sn_ok M ?t" using assms(1,2) ij r(2,3) len by (simp add: sn_ok_def)
    moreover have "ahead ?t = ahead s" using un r(5) ij(1,2) by (simp add: ahead_def unread_def nat_int_add)
    ultimately show ?thesis using read None k r(4,5) by (intro exI [of _ ?t]) auto
  next
    case (Some e')
    then have k: "e' = EOF" "k = length (rest (sn_r s))" using r(6) by auto
    let ?t = "?s\<lparr>sn_err := Some EOF\<rparr>"
    have "sn_setErr ?s EOF = ?t" using assms(2) by (simp add: sn_setErr_def)
    moreover have "sn_ok M ?t" using assms(1,2) ij r(2,3,5) len k(2) by (simp add: sn_ok_def)
    moreover have "ahead ?t = ahead s" using un r(5) ij(1,2) by (simp add: ahead_def unread_def nat_int_add)
    ultimately show ?thesis using read Some k r(5) by (intro exI [of _ ?t]) simp
  qed
qed

text \<open>The whole loop: the next token of what is ahead, or the end.\<close>

lemma scan_loop_ok:
  assumes "sn_ok M s" "all_fit split M (ahead s)"
  shows "\<exists>s' b. scan_loop rd s = Some (Inr (s', b))
    \<and> (if b then sn_ok M s' \<and> (\<exists>t k. sn_token s' = Some t \<and> tokens split (ahead s) = t # tokens split (ahead s') \<and> ahead s' = drop k (ahead s))
       else tokens split (ahead s) = [] \<and> sn_err s' = Some EOF)"
  using assms
proof (induction "length (rest (sn_r s)) + (if sn_err s = None then 1 else 0)" arbitrary: s rule: less_induct)
  case less
  show ?case
  proof (cases "\<exists>s' t k. scan_token s = Inr (s', Some True) \<and> sn_ok M s' \<and> sn_token s' = Some t
        \<and> tokens split (ahead s) = t # tokens split (ahead s') \<and> ahead s' = drop k (ahead s)")
    case True
    then obtain s' t k where *: "scan_token s = Inr (s', Some True)" "sn_ok M s'" "sn_token s' = Some t"
      "tokens split (ahead s) = t # tokens split (ahead s')" "ahead s' = drop k (ahead s)" by blast
    then have "scan_loop rd s = Some (Inr (s', True))" by (subst scan_loop.simps) simp
    then show ?thesis using *(2-5) by (intro exI [of _ s'] exI [of _ True]) auto
  next
    case False
    then have "\<exists>s' k. scan_token s = Inr (s', None) \<and> sn_ok M s' \<and> sn_r s' = sn_r s \<and> sn_err s' = sn_err s \<and> sn_buf s' = sn_buf s
        \<and> ahead s' = drop k (ahead s) \<and> unread s' = drop k (unread s)
        \<and> (if sn_err s = None then tokens split (ahead s') = tokens split (ahead s)
             \<and> (unread s' \<noteq> [] \<and> k = 0 \<longrightarrow> split (unread s') False = Inr (0, None, None))
           else tokens split (ahead s) = [])"
      using scan_token_spec [OF less.prems(1)] by blast
    then obtain s1 k where s1: "scan_token s = Inr (s1, None)" "sn_ok M s1" "sn_r s1 = sn_r s" "sn_err s1 = sn_err s"
      "ahead s1 = drop k (ahead s)" "unread s1 = drop k (unread s)"
      and more: "sn_err s = None \<Longrightarrow> tokens split (ahead s1) = tokens split (ahead s)"
      and stuck: "sn_err s = None \<Longrightarrow> unread s1 \<noteq> [] \<Longrightarrow> k = 0 \<Longrightarrow> split (unread s1) False = Inr (0, None, None)"
      and last: "sn_err s \<noteq> None \<Longrightarrow> tokens split (ahead s) = []"
      by metis
    have fit1: "all_fit split M (ahead s1)" using less.prems(2) all_fit_drop s1(5) by simp
    show ?thesis
    proof (cases "sn_err s = None")
      case False
      then have "sn_err s = Some EOF" using less.prems(1) unfolding sn_ok_def by metis
      then have "scan_loop rd s = Some (Inr (s1\<lparr>sn_start := 0, sn_end := 0\<rparr>, False))"
        using s1 by (subst scan_loop.simps) simp
      then show ?thesis using s1 last False \<open>sn_err s = Some EOF\<close> by (intro exI [of _ "s1\<lparr>sn_start := 0, sn_end := 0\<rparr>"] exI [of _ False]) simp
    next
      case True
      have lens: "length (unread s) \<le> M" using sn_okE [OF less.prems(1)] by (metis diff_le_self le_trans)
      have len1: "length (unread s1) < M"
      proof (rule ccontr)
        assume "\<not> length (unread s1) < M"
        then have len: "length (unread s1) = M" using s1(6) lens by simp
        have f: "fits split M (ahead s1)" using fit1 all_fit_def by (metis drop_0 le0)
        then have M: "0 < M" by (auto simp: fits_def)
        then have "k = 0" using len s1(6) lens by (cases k) auto
        then have "split (unread s1) False = Inr (0, None, None)" using stuck True len M by auto
        moreover have "take M (ahead s1) = unread s1" using len by (simp add: ahead_def)
        ultimately show False using f len by (simp add: fits_def ahead_def)
      qed
      obtain s2 where s2: "go_bind (scan_shift s1) scan_grow = Inr (s2, True)" "sn_ok M s2" "sn_r s2 = sn_r s1" "sn_err s2 = None"
        "unread s2 = unread s1" "sn_end s2 < int (length (sn_buf s2))"
        using scan_room_spec [OF s1(2) _ len1] s1(4) True by auto
      obtain s3 where s3: "scan_read rd 0 s2 = Inr s3" "sn_ok M s3" "ahead s3 = ahead s2"
        "length (rest (sn_r s3)) < length (rest (sn_r s2)) \<or> rest (sn_r s3) = [] \<and> sn_err s3 \<noteq> None"
        using scan_read_spec [OF s2(2,4,6)] by blast
      have ah: "ahead s3 = ahead s1" using s3(3) s2(3,5) by (simp add: ahead_def)
      have "length (rest (sn_r s3)) + (if sn_err s3 = None then 1 else 0) < length (rest (sn_r s)) + (if sn_err s = None then 1 else 0)"
        using s3(4) s2(3) s1(3) True by auto
      then obtain s4 b where s4: "scan_loop rd s3 = Some (Inr (s4, b))"
        "if b then sn_ok M s4 \<and> (\<exists>t k. sn_token s4 = Some t \<and> tokens split (ahead s3) = t # tokens split (ahead s4) \<and> ahead s4 = drop k (ahead s3))
         else tokens split (ahead s3) = [] \<and> sn_err s4 = Some EOF"
        using less.hyps [OF _ s3(2)] fit1 ah by auto
      have "scan_loop rd s = scan_loop rd s3"
        using s1(1,4) True s2(1) s3(1) by (subst scan_loop.simps) simp
      then show ?thesis using s4 ah more [OF True] s1(5)
        by (intro exI [of _ s4] exI [of _ b]) (auto simp: drop_drop split: if_splits)
    qed
  qed
qed

lemma Scan_ok: "sn_ok M s \<Longrightarrow> sn_Scan rd s = scan_loop rd (s\<lparr>scanCalled := True\<rparr>)"
  by (simp add: sn_Scan_def sn_ok_def)

lemma scan_tokens_ok:
  assumes "sn_ok M s" "all_fit split M (ahead s)"
  shows "\<exists>s'. scan_tokens rd s acc = Some (Inr (s', acc @ tokens split (ahead s))) \<and> sn_err s' = Some EOF"
  using assms
proof (induction "tokens split (ahead s)" arbitrary: s acc)
  case Nil
  let ?s = "s\<lparr>scanCalled := True\<rparr>"
  obtain s' b where s': "scan_loop rd ?s = Some (Inr (s', b))"
    "if b then sn_ok M s' \<and> (\<exists>t k. sn_token s' = Some t \<and> tokens split (ahead ?s) = t # tokens split (ahead s') \<and> ahead s' = drop k (ahead ?s))
       else tokens split (ahead ?s) = [] \<and> sn_err s' = Some EOF"
    using scan_loop_ok [of M ?s] Nil.prems by (auto simp: sn_ok_fields)
  then have "\<not> b" "sn_err s' = Some EOF" using Nil.hyps by (auto simp: sn_ok_fields split: if_splits)
  then show ?case using s'(1) Scan_ok [OF Nil.prems(1)] Nil.hyps by (subst scan_tokens.simps) simp
next
  case (Cons t ts)
  let ?s = "s\<lparr>scanCalled := True\<rparr>"
  obtain s' b where s': "scan_loop rd ?s = Some (Inr (s', b))"
    "if b then sn_ok M s' \<and> (\<exists>t k. sn_token s' = Some t \<and> tokens split (ahead ?s) = t # tokens split (ahead s') \<and> ahead s' = drop k (ahead ?s))
       else tokens split (ahead ?s) = [] \<and> sn_err s' = Some EOF"
    using scan_loop_ok [of M ?s] Cons.prems by (auto simp: sn_ok_fields)
  then obtain k where b: "b" "sn_ok M s'" "sn_token s' = Some t" "tokens split (ahead s') = ts" "ahead s' = drop k (ahead s)"
    using Cons.hyps(2) by (auto simp: sn_ok_fields split: if_splits)
  have "all_fit split M (ahead s')" unfolding b(5) by (rule all_fit_drop [OF Cons.prems(2)])
  from Cons.hyps(1) [OF b(4) [symmetric] b(2) this, of "acc @ [t]"]
  show ?case using s'(1) b Scan_ok [OF Cons.prems(1)] Cons.hyps(2)
    by (subst scan_tokens.simps) (simp add: sn_Text_def)
qed

text \<open>A token that does not fit: the error is reported, the bytes stay in the buffer.\<close>

lemma scan_too_long:
  assumes "sn_ok M s" "sn_err s = None" "sn_start s = 0" "M < length (ahead s)" "0 < M"
    "\<And>j. 0 < j \<Longrightarrow> j \<le> M \<Longrightarrow> split (take j (ahead s)) False = Inr (0, None, None)"
  shows "\<exists>s'. scan_loop rd s = Some (Inr (s', False)) \<and> sn_ok M (s'\<lparr>sn_err := None\<rparr>) \<and> sn_err s' = Some ErrTooLong
    \<and> sn_start s' = 0 \<and> unread s' = take M (ahead s)"
  using assms
proof (induction "length (rest (sn_r s))" arbitrary: s rule: less_induct)
  case less
  have len: "length (unread s) \<le> M" using sn_okE [OF less.prems(1)] by (metis diff_le_self le_trans)
  have start: "scan_token s = Inr (s, None) \<or> scan_token s = Inr (s\<lparr>sn_token := None\<rparr>, None)"
  proof (cases "unread s = []")
    case True
    then have "sn_end s \<le> sn_start s" using sn_okE [OF less.prems(1)] by (metis diff_is_0_eq list.size(3) of_nat_le_iff)
    then show ?thesis using less.prems(2) by (simp add: scan_token_def)
  next
    case False
    have "split (unread s) False = Inr (0, None, None)"
      using less.prems(6) [of "length (unread s)"] len False by (simp add: ahead_def)
    moreover have "sn_split s = split" "0 \<le> sn_end s" "sn_end s \<le> int (length (sn_buf s))"
      using less.prems(1,3) unfolding sn_ok_def by auto
    moreover have "s\<lparr>sn_start := 0, sn_token := None\<rparr> = s\<lparr>sn_token := None\<rparr>" using less.prems(3) by (cases s) simp
    ultimately show ?thesis using less.prems(2,3)
      by (auto simp: scan_token_def unread_def sn_advance_def Let_def go_sub_def)
  qed
  then obtain s1 where s1: "scan_token s = Inr (s1, None)" "s1 = s \<or> s1 = s\<lparr>sn_token := None\<rparr>" by blast
  have ok1: "sn_ok M s1" and same: "sn_err s1 = None" "sn_start s1 = 0" "unread s1 = unread s" "sn_r s1 = sn_r s" "ahead s1 = ahead s"
    using s1(2) less.prems(1-3) by (auto simp: sn_ok_fields unread_def ahead_def)
  show ?case
  proof (cases "length (unread s) = M")
    case True
    obtain i j where ij: "sn_start s1 = int i" "sn_end s1 = int j" "j \<le> length (sn_buf s1)" "length (sn_buf s1) \<le> M"
      "length (unread s1) = j - i" using sn_okE [OF ok1] by metis
    then have full: "sn_end s1 = int (length (sn_buf s1))" using True same(2,3) by simp
    have "maxTokenSize s1 \<le> int (length (sn_buf s1))" using ok1 ij same(2,3) True unfolding sn_ok_def by auto
    then have "scan_loop rd s = Some (Inr (sn_setErr s1 ErrTooLong, False))"
      using s1(1) same(1,2) full by (subst scan_loop.simps) (simp add: scan_shift_def scan_grow_def)
    moreover have "sn_setErr s1 ErrTooLong = s1\<lparr>sn_err := Some ErrTooLong\<rparr>" using same(1) by (simp add: sn_setErr_def)
    moreover have "s1\<lparr>sn_err := None\<rparr> = s1" using same(1) by (cases s1) simp
    then have "sn_ok M (s1\<lparr>sn_err := None\<rparr>)" using ok1 by (simp only:)
    moreover have "unread (s1\<lparr>sn_err := Some ErrTooLong\<rparr>) = take M (ahead s)"
      using True same(3) by (simp add: unread_def ahead_def)
    ultimately show ?thesis using ok1 same by (intro exI [of _ "s1\<lparr>sn_err := Some ErrTooLong\<rparr>"]) simp
  next
    case False
    then have "length (unread s1) < M" using len same by simp
    then obtain s2 where s2: "go_bind (scan_shift s1) scan_grow = Inr (s2, True)" "sn_ok M s2" "sn_r s2 = sn_r s1" "sn_err s2 = None"
      "unread s2 = unread s1" "sn_end s2 < int (length (sn_buf s2))" "sn_start s2 = 0"
      using scan_room_spec [OF ok1 same(1)] same(2) by blast
    obtain s3 where s3: "scan_read rd 0 s2 = Inr s3" "sn_ok M s3" "ahead s3 = ahead s2" "sn_start s3 = sn_start s2"
      "length (rest (sn_r s3)) < length (rest (sn_r s2)) \<or> rest (sn_r s3) = [] \<and> sn_err s3 \<noteq> None"
      using scan_read_spec [OF s2(2,4,6)] by blast
    have ah: "ahead s3 = ahead s" using s3(3) s2(3,5) same by (simp add: ahead_def)
    have "length (unread s3) \<le> M" using sn_okE [OF s3(2)] by (metis diff_le_self le_trans)
    then have "rest (sn_r s3) \<noteq> []" using less.prems(4) ah unfolding ahead_def by auto
    then have e: "sn_err s3 = None" "length (rest (sn_r s3)) < length (rest (sn_r s))"
      using s3(2,5) s2(3) same unfolding sn_ok_def by auto
    have "scan_loop rd s = scan_loop rd s3" using s1(1) same(1) s2(1) s3(1) by (subst scan_loop.simps) simp
    then show ?thesis using less.hyps [OF e(2) s3(2) e(1)] s3(4) s2(7) less.prems(4-6) ah by simp
  qed
qed

end

end
