(* ===== verification/BufioSplit.thy ===== *)
theory BufioSplit
  imports BufioScanLaws StringsMap BufferQueue BytesReader StringsReader
begin

text \<open>
  The split functions of package \<open>bufio\<close>: what they cut off a complete input, and that their answers on
  a part of it are final.
\<close>

section \<open>Words\<close>

text \<open>The words of a list of pieces, with the word that is being collected.\<close>

fun words_of :: "(rune \<times> bytes) list \<Rightarrow> bytes option \<Rightarrow> bytes list" where
  "words_of [] None = []"
| "words_of [] (Some w) = [w]"
| "words_of ((r, b) # ps) None = (if IsSpace r then words_of ps None else words_of ps (Some b))"
| "words_of ((r, b) # ps) (Some w) = (if IsSpace r then w # words_of ps None else words_of ps (Some (w @ b)))"

abbreviation spaces :: "(rune \<times> bytes) list \<Rightarrow> bool" where "spaces ps \<equiv> \<forall>p \<in> set ps. IsSpace (fst p)"
abbreviation no_spaces :: "(rune \<times> bytes) list \<Rightarrow> bool" where "no_spaces ps \<equiv> \<forall>p \<in> set ps. \<not> IsSpace (fst p)"
abbreviation joined :: "(rune \<times> bytes) list \<Rightarrow> bytes" where "joined ps \<equiv> concat (map snd ps)"

lemma words_of_spaces: "spaces ps \<Longrightarrow> words_of (ps @ qs) None = words_of qs None"
  by (induction ps) auto

lemma words_of_word: "no_spaces ps \<Longrightarrow> words_of (ps @ qs) (Some w) = words_of qs (Some (w @ joined ps))"
  by (induction ps arbitrary: w) auto

lemma words_of_first: "no_spaces ps \<Longrightarrow> ps \<noteq> [] \<Longrightarrow> words_of (ps @ qs) None = words_of qs (Some (joined ps))"
  by (cases ps) (auto simp: words_of_word)

lemma IsSpace_RuneError: "\<not> IsSpace RuneError"
proof -
  have "(0 :: rune) \<le>s RuneError" "unat RuneError \<notin> white_space_points"
    by (simp_all add: RuneError_def white_space_points_def word_sle_eq)
  then show ?thesis using IsSpace_spec by blast
qed

lemma segs_nonneg: "(r, b) \<in> set (segs u) \<Longrightarrow> 0 \<le>s r"
  using segs_piece_rune [of r b u] valid_nonneg' by (auto simp: word_sle_eq)

lemma isSpace_IsSpace: assumes "0 \<le>s r" shows "isSpace r = IsSpace r"
proof -
  have r: "unat r < 0x80000000" using assms nonneg_rune by blast
  note sle = sle_nonneg [OF r] sle_nonneg [OF _ r]
  have "isSpace r \<longleftrightarrow> unat r \<in> white_space_points"
    unfolding isSpace_def white_space_points_def by (auto simp: sle word_unat_eq_iff) presburger
  then show ?thesis using IsSpace_spec [OF assms] by simp
qed

lemma segs_nonempty: "(r, b) \<in> set (segs u) \<Longrightarrow> b \<noteq> []"
proof (induction u rule: segs_induct)
  case (cut u)
  have "take (snd (DecodeRune u)) u \<noteq> []" using cut.hyps DecodeRune_size [of u] by auto
  then show ?case using cut by (subst (asm) segs.simps) auto
qed simp

lemma piece_inside: "segs u = xs @ q # ys \<Longrightarrow> length (joined xs) < length u"
proof -
  assume a: "segs u = xs @ q # ys"
  have "u = joined xs @ snd q @ joined ys" using concat_segs [of u] a by simp
  then have "length u = length (joined xs) + length (snd q) + length (joined ys)" by (metis length_append add.assoc)
  moreover have "snd q \<noteq> []" using segs_nonempty [of "fst q" "snd q" u] a by simp
  ultimately show ?thesis by (cases "snd q") simp_all
qed

section \<open>The loops of \<open>ScanWords\<close>\<close>

lemma words_start_segs:
  assumes "segs u = xs @ ws @ qs" "spaces ws" "qs = [] \<or> \<not> IsSpace (fst (hd qs))"
  shows "words_start u (length (joined xs)) = length (joined (xs @ ws))"
  using assms
proof (induction ws arbitrary: xs)
  case Nil
  show ?case
  proof (cases qs)
    case Nil
    then have "joined xs = u" using Nil.prems(1) concat_segs [of u] by simp
    then show ?thesis by (subst words_start.simps) simp
  next
    case (Cons q qs')
    obtain r b where q: "q = (r, b)" by (cases q)
    have d: "DecodeRune (drop (length (joined xs)) u) = (r, length b)"
      using piece_decodes(1) [of u xs r b qs'] Nil.prems(1) Cons q by simp
    have "\<not> isSpace r" using isSpace_IsSpace segs_nonneg [of r b u] Nil.prems Cons q by simp
    then show ?thesis using d by (subst words_start.simps) simp
  qed
next
  case (Cons w ws)
  obtain r b where w: "w = (r, b)" by (cases w)
  have d: "DecodeRune (drop (length (joined xs)) u) = (r, length b)"
    using piece_decodes(1) [of u xs r b "ws @ qs"] Cons.prems(1) w by simp
  have sp: "isSpace r" using isSpace_IsSpace segs_nonneg [of r b u] Cons.prems w by simp
  have "length (joined xs) < length u" using piece_inside [of u xs w] Cons.prems(1) by auto
  then have "words_start u (length (joined xs)) = words_start u (length (joined (xs @ [w])))"
    using d sp w by (subst words_start.simps) simp
  then show ?case using Cons.IH [of "xs @ [w]"] Cons.prems by simp
qed

lemma words_end_segs:
  assumes "segs u = xs @ nw @ ps" "no_spaces nw" "ps = [] \<or> IsSpace (fst (hd ps))"
  shows "words_end u (length (joined xs)) = (case ps of [] \<Rightarrow> None | (r, b) # _ \<Rightarrow> Some (length (joined (xs @ nw)), length b))"
  using assms
proof (induction nw arbitrary: xs)
  case Nil
  show ?case
  proof (cases ps)
    case Nil
    then have "joined xs = u" using Nil.prems(1) concat_segs [of u] by simp
    then show ?thesis using Nil by (subst words_end.simps) simp
  next
    case (Cons q qs')
    obtain r b where q: "q = (r, b)" by (cases q)
    have d: "DecodeRune (drop (length (joined xs)) u) = (r, length b)"
      using piece_decodes(1) [of u xs r b qs'] Nil.prems(1) Cons q by simp
    have sp: "isSpace r" using isSpace_IsSpace segs_nonneg [of r b u] Nil.prems Cons q by simp
    have "length (joined xs) < length u" using piece_inside [of u xs q] Nil.prems(1) Cons by auto
    then show ?thesis using d sp Cons q by (subst words_end.simps) simp
  qed
next
  case (Cons w ws)
  obtain r b where w: "w = (r, b)" by (cases w)
  have d: "DecodeRune (drop (length (joined xs)) u) = (r, length b)"
    using piece_decodes(1) [of u xs r b "ws @ ps"] Cons.prems(1) w by simp
  have sp: "\<not> isSpace r" using isSpace_IsSpace segs_nonneg [of r b u] Cons.prems w by simp
  have "length (joined xs) < length u" using piece_inside [of u xs w] Cons.prems(1) by auto
  then have "words_end u (length (joined xs)) = words_end u (length (joined (xs @ [w])))"
    using d sp w by (subst words_end.simps) simp
  moreover have "words_end u (length (joined (xs @ [w])))
      = (case ps of [] \<Rightarrow> None | (r, b) # _ \<Rightarrow> Some (length (joined ((xs @ [w]) @ ws)), length b))"
    using Cons.prems by (intro Cons.IH) auto
  ultimately show ?case by (simp add: add.assoc split: list.split)
qed

text \<open>Every input is spaces, then a word, then nothing or a space.\<close>

lemma words_split:
  obtains ws nw ps where "segs u = ws @ nw @ ps" "spaces ws" "no_spaces nw" "ps = [] \<or> IsSpace (fst (hd ps))" "nw = [] \<longrightarrow> ps = []"
proof -
  let ?sp = "\<lambda>p. IsSpace (fst p)" and ?qs = "dropWhile (\<lambda>p. IsSpace (fst p)) (segs u)"
  show ?thesis
  proof (rule that [of "takeWhile ?sp (segs u)" "takeWhile (\<lambda>p. \<not> ?sp p) ?qs" "dropWhile (\<lambda>p. \<not> ?sp p) ?qs"])
    show "takeWhile (\<lambda>p. \<not> ?sp p) ?qs = [] \<longrightarrow> dropWhile (\<lambda>p. \<not> ?sp p) ?qs = []"
    proof
      assume nil: "takeWhile (\<lambda>p. \<not> ?sp p) ?qs = []"
      have "?qs = []"
      proof (rule ccontr)
        assume ne: "?qs \<noteq> []"
        then have "\<not> ?sp (hd ?qs)" by (rule hd_dropWhile)
        then show False using nil ne by (metis list.collapse takeWhile.simps(2) list.distinct(1))
      qed
      then show "dropWhile (\<lambda>p. \<not> ?sp p) ?qs = []" by (simp only: dropWhile.simps)
    qed
    show "dropWhile (\<lambda>p. \<not> ?sp p) ?qs = [] \<or> IsSpace (fst (hd (dropWhile (\<lambda>p. \<not> ?sp p) ?qs)))"
      using hd_dropWhile [of "\<lambda>p. \<not> ?sp p" ?qs] by auto
  qed (auto dest: set_takeWhileD)
qed

lemma ScanWords_segs:
  assumes "segs u = ws @ nw @ ps" "spaces ws" "no_spaces nw" "ps = [] \<or> IsSpace (fst (hd ps))" "nw = [] \<longrightarrow> ps = []"
  shows "ScanWords u eof = (case ps of
      (r, b) # _ \<Rightarrow> Inr (int (length (joined (ws @ nw)) + length b), Some (joined nw), None)
    | [] \<Rightarrow> if eof \<and> nw \<noteq> [] then Inr (int (length u), Some (joined nw), None) else Inr (int (length (joined ws)), None, None))"
proof -
  have u: "u = joined ws @ joined nw @ joined ps" using concat_segs [of u] assms(1) by simp
  have start: "words_start u 0 = length (joined ws)"
    using words_start_segs [of u "[]" ws "nw @ ps"] assms by (cases nw) auto
  have stop: "words_end u (length (joined ws)) = (case ps of [] \<Rightarrow> None | (r, b) # _ \<Rightarrow> Some (length (joined (ws @ nw)), length b))"
    using words_end_segs [of u ws nw ps] assms by simp
  have nw: "nw = [] \<longleftrightarrow> joined nw = []" using segs_nonempty [of "fst (hd nw)" "snd (hd nw)" u] assms(1) by (cases nw) auto
  have sl: "go_slice u (length (joined ws)) (length (joined (ws @ nw))) = Inr (joined nw)"
    by (subst u) (simp add: go_slice_def seg_def)
  show ?thesis
  proof (cases ps)
    case Nil
    have "length u = length (joined ws) + length (joined nw)" "drop (length (joined ws)) u = joined nw" using u Nil by auto
    then show ?thesis using Nil start stop nw unfolding ScanWords_def by (auto simp: Let_def)
  next
    case (Cons p ps')
    then show ?thesis using start stop sl unfolding ScanWords_def by (cases p) simp
  qed
qed

text \<open>The tokens of a complete input are its words.\<close>

lemma tokens_ScanWords: "tokens ScanWords u = words_of (segs u) None"
proof (induction "length u" arbitrary: u rule: less_induct)
  case less
  obtain ws nw ps where w: "segs u = ws @ nw @ ps" "spaces ws" "no_spaces nw" "ps = [] \<or> IsSpace (fst (hd ps))"
    "nw = [] \<longrightarrow> ps = []" by (rule words_split)
  note scan = ScanWords_segs [OF w, of True]
  have u: "u = joined ws @ joined nw @ joined ps" using concat_segs [of u] w(1) by simp
  show ?case
  proof (cases ps)
    case Nil
    show ?thesis
    proof (cases "nw = []")
      case True
      then show ?thesis using scan Nil w(1,2) words_of_spaces [of ws "[]"] by (subst tokens.simps) simp
    next
      case False
      then have "u \<noteq> []" using w(1) by auto
      moreover have "words_of (segs u) None = [joined nw]"
        using w(1-3) False Nil words_of_spaces [of ws nw] words_of_first [of nw "[]"] by simp
      moreover have "tokens ScanWords [] = []" by (subst tokens.simps) (simp add: ScanWords_def words_start.simps words_end.simps)
      ultimately show ?thesis using scan False Nil by (subst tokens.simps) simp
    qed
  next
    case (Cons p ps')
    then obtain r b where p: "ps = (r, b) # ps'" by (cases p) auto
    let ?n = "length (joined (ws @ nw)) + length b"
    have b: "b \<noteq> []" using segs_nonempty w(1) p by (metis in_set_conv_decomp append.assoc)
    have rest: "drop ?n u = joined ps'" by (subst u) (simp add: p)
    have len: "0 < ?n" "?n \<le> length u" using b by (simp, subst u, simp add: p)
    have "segs (joined ps') = ps'" using segs_suffix [of u "ws @ nw @ [(r, b)]" ps'] w(1) p by simp
    moreover have "length (joined ps') < length u" using len b by (subst u) (simp add: p)
    ultimately have "tokens ScanWords (joined ps') = words_of ps' None" using less by metis
    moreover have "ScanWords u True = Inr (int ?n, Some (joined nw), None)" using scan p by simp
    then have "tokens ScanWords u = joined nw # tokens ScanWords (drop ?n u)" using len by (rule tokens_cut)
    moreover have "words_of (segs u) None = joined nw # words_of ps' None"
    proof -
      have "nw \<noteq> []" using w(5) p by auto
      then show ?thesis using w words_of_spaces [of ws "nw @ ps"] words_of_first [of nw ps] p by simp
    qed
    ultimately show ?thesis using rest by simp
  qed
qed

lemma segs_spaces:
  assumes "segs u = ws @ qs" "spaces ws"
  shows "segs (u @ v) = ws @ segs (joined qs @ v)"
  using assms
proof (induction ws arbitrary: u)
  case Nil
  then show ?case using concat_segs [of u] by simp
next
  case (Cons w ws)
  obtain r b where w: "w = (r, b)" by (cases w)
  then have "r \<noteq> RuneError" using Cons.prems(2) IsSpace_RuneError by auto
  then have r: "ValidRune r" "b = rune_bytes r" using segs_piece_rune [of r b u] Cons.prems(1) w by auto
  have u: "u = rune_bytes r @ joined (ws @ qs)" using concat_segs [of u] Cons.prems(1) w r(2) by simp
  have "segs (joined (ws @ qs)) = ws @ qs" using segs_suffix [of u "[w]" "ws @ qs"] Cons.prems(1) by simp
  then have "segs (joined (ws @ qs) @ v) = ws @ segs (joined qs @ v)"
    by (rule Cons.IH) (use Cons.prems(2) in simp)
  then show ?case using w r segs_rune_bytes [OF r(1), of "joined (ws @ qs) @ v"] by (simp add: u)
qed

interpretation words: splitter ScanWords
proof
  fix u
  obtain ws nw ps where w: "segs u = ws @ nw @ ps" "spaces ws" "no_spaces nw" "ps = [] \<or> IsSpace (fst (hd ps))"
    "nw = [] \<longrightarrow> ps = []" by (rule words_split)
  have u: "u = joined ws @ joined nw @ joined ps" using concat_segs [of u] w(1) by simp
  note scan = ScanWords_segs [OF w]
  have ne: "b \<noteq> []" if "ps = (r, b) # ps'" for r b ps'
    using segs_nonempty w(1) that by (metis in_set_conv_decomp append.assoc)
  show "\<exists>a tok. ScanWords u True = Inr (int a, tok, None) \<and> a \<le> length u \<and> (tok \<noteq> None \<longrightarrow> 0 < a)"
  proof (cases ps)
    case Nil
    have "u \<noteq> []" if "nw \<noteq> []" using w(1) that by auto
    then show ?thesis
      using scan [of True] Nil u
      by (intro exI [of _ "if nw = [] then length (joined ws) else length u"] exI [of _ "if nw = [] then None else Some (joined nw)"])
        simp
  next
    case (Cons p ps')
    then obtain r b where p: "ps = (r, b) # ps'" by (cases p) auto
    then show ?thesis using scan [of True] ne [OF p]
      by (intro exI [of _ "length (joined (ws @ nw)) + length b"] exI [of _ "Some (joined nw)"]) (simp add: u)
  qed
  show "\<exists>a tok. ScanWords u False = Inr (int a, tok, None) \<and> a \<le> length u \<and> (tok \<noteq> None \<longrightarrow> 0 < a) \<and> final_answer ScanWords u a tok"
  proof (cases ps)
    case Nil
    have "tokens ScanWords (u @ v) = tokens ScanWords (drop (length (joined ws)) (u @ v))" for v
    proof -
      have "segs (u @ v) = ws @ segs (joined nw @ v)" using segs_spaces [of u ws nw v] w(1,2) Nil by simp
      moreover have "drop (length (joined ws)) (u @ v) = joined nw @ v" by (subst u) (simp add: Nil)
      ultimately show ?thesis using words_of_spaces w(2) by (simp add: tokens_ScanWords)
    qed
    then show ?thesis using scan [of False] Nil
      by (intro exI [of _ "length (joined ws)"] exI [of _ None]) (simp add: final_answer_def u)
  next
    case (Cons p ps')
    then obtain r b where p: "ps = (r, b) # ps'" by (cases p) auto
    have "r \<noteq> RuneError" using w(4) p IsSpace_RuneError by auto
    then have r: "ValidRune r" "b = rune_bytes r" using segs_piece_rune [of r b u] w(1) p by auto
    let ?n = "length (joined (ws @ nw)) + length b"
    have fin: "ScanWords (u @ v) True = Inr (int ?n, Some (joined nw), None)" for v
    proof -
      let ?t = "b @ joined ps' @ v"
      have st: "RuneStart (hd ?t)" using rune_bytes_shape(1) [OF r(1)] r(2) ne [OF p] by simp
      have b: "b @ joined ps' = [] \<or> RuneStart (hd (b @ joined ps'))" using rune_bytes_shape(1) [OF r(1)] r(2) ne [OF p] by simp
      have "segs (joined (ws @ nw) @ b @ joined ps') = segs (joined (ws @ nw)) @ segs (b @ joined ps')"
        using segs_before_start [OF b] .
      moreover have "joined (ws @ nw) @ b @ joined ps' = u" by (subst u) (simp add: p)
      moreover have "segs (b @ joined ps') = ps" using segs_suffix [of u "ws @ nw" ps] w(1) p by simp
      ultimately have "segs (joined (ws @ nw)) = ws @ nw" using w(1) by simp
      then have "segs (u @ v) = (ws @ nw) @ segs ?t" using segs_before_start [of ?t "joined (ws @ nw)"] st by (subst u) (simp add: p)
      then have "segs (u @ v) = ws @ nw @ (r, b) # segs (joined ps' @ v)" using segs_rune_bytes [OF r(1)] r(2) by simp
      from ScanWords_segs [OF this w(2,3), of True] show ?thesis using w(4,5) p by simp
    qed
    then show ?thesis using scan [of False] p ne [OF p]
      by (intro exI [of _ ?n] exI [of _ "Some (joined nw)"]) (simp add: u final_answer_def)
  qed
qed

text \<open>They are what \<open>strings.FieldsFunc\<close> with \<open>unicode.IsSpace\<close> returns.\<close>

definition fields_close :: "bytes \<Rightarrow> (nat \<times> nat) list \<times> nat \<times> bool \<Rightarrow> bytes list" where
  "fields_close s st = (case st of (spans, from, was) \<Rightarrow>
     map (\<lambda>(i, j). seg i j s) (if was then spans @ [(from, length s)] else spans))"

lemma fields_words:
  assumes "segs s = xs @ ps" "was \<Longrightarrow> from \<le> length (joined xs)"
  shows "fields_close s (foldl (fields_step IsSpace) (spans, from, was) (starts (length (joined xs)) ps))
    = map (\<lambda>(i, j). seg i j s) spans @ words_of ps (if was then Some (seg from (length (joined xs)) s) else None)"
  using assms
proof (induction ps arbitrary: xs spans "from" was)
  case Nil
  then have "s = joined xs" using concat_segs [of s] by simp
  then show ?case by (simp add: fields_close_def)
next
  case (Cons p ps)
  obtain r b where p: "p = (r, b)" by (cases p)
  let ?k = "length (joined xs)"
  have s: "s = joined xs @ b @ joined ps" using concat_segs [of s] Cons.prems(1) p by simp
  have b: "seg ?k (?k + length b) s = b" by (subst s) (simp add: seg_def)
  have more: "seg from (?k + length b) s = seg from ?k s @ b" if "from \<le> ?k"
    using that by (subst (1 2) s) (simp add: seg_def)
  have IH: "fields_close s (foldl (fields_step IsSpace) (spans', from', was') (starts (?k + length b) ps))
      = map (\<lambda>(i, j). seg i j s) spans' @ words_of ps (if was' then Some (seg from' (?k + length b) s) else None)"
    if "was' \<Longrightarrow> from' \<le> ?k" for spans' from' was'
  proof -
    have "was' \<Longrightarrow> from' \<le> length (joined (xs @ [p]))" using that by simp
    from Cons.IH [OF _ this, of was' spans'] show ?thesis using Cons.prems(1) p by simp
  qed
  have step: "fields_step IsSpace (spans, from, was') (k, r) =
      (if IsSpace r then if was' then (spans @ [(from, k)], from, False) else (spans, from, was')
       else if \<not> was' then (spans, k, True) else (spans, from, was'))" for k was'
    by (simp add: fields_step_def)
  show ?case
  proof (cases "IsSpace r"; cases was)
    assume "\<not> IsSpace r" "was"
    then show ?thesis using Cons.prems(2) more IH [of was "from" spans] p by (simp add: step)
  qed (use IH [of False "from" "spans @ [(from, ?k)]"] IH [of False "from" spans] IH [of True ?k spans] p b
      in \<open>simp_all add: step\<close>)
qed

lemma FieldsFunc_words: "FieldsFunc s IsSpace = words_of (segs s) None"
  using fields_words [of s "[]" "segs s" False 0 "[]"]
  by (simp add: FieldsFunc_def fields_close_def range_string_starts split_beta)

section \<open>Lines\<close>

fun lines_of :: "bytes \<Rightarrow> bytes option \<Rightarrow> bytes list" where
  "lines_of [] None = []"
| "lines_of [] (Some l) = [dropCR l]"
| "lines_of (c # u) l =
     (let l = (case l of None \<Rightarrow> [] | Some l \<Rightarrow> l) in
      if c = 0x0A then dropCR l # lines_of u None else lines_of u (Some (l @ [c])))"

lemma lines_of_line: "0x0A \<notin> set u \<Longrightarrow> lines_of (u @ v) (Some l) = lines_of v (Some (l @ u))"
  by (induction u arbitrary: l) auto

lemma lines_of_first: "0x0A \<notin> set u \<Longrightarrow> lines_of (u @ 0x0A # v) None = dropCR u # lines_of v None"
  by (cases u) (auto simp: lines_of_line)

lemma lines_of_last: "0x0A \<notin> set u \<Longrightarrow> u \<noteq> [] \<Longrightarrow> lines_of u None = [dropCR u]"
  using lines_of_line [of "tl u" "[]" "[hd u]"] by (cases u) auto

lemma ScanLines_break: "0x0A \<notin> set l \<Longrightarrow> ScanLines (l @ 0x0A # v) eof = Inr (int (length l + 1), Some (dropCR l), None)"
proof -
  assume l: "0x0A \<notin> set l"
  have i: "bytes_IndexByte (l @ 0x0A # v) 0x0A = int (length l)"
    using l by (induction l) (simp_all add: bytes_IndexByte_find)
  show ?thesis by (simp add: ScanLines_def i go_sub_def)
qed

lemma ScanLines_none: "0x0A \<notin> set u \<Longrightarrow> ScanLines u eof =
    (if eof \<and> u \<noteq> [] then Inr (int (length u), Some (dropCR u), None) else Inr (0, None, None))"
  by (simp add: ScanLines_def bytes_IndexByte_find)

lemma first_line:
  assumes "0x0A \<in> set u"
  obtains l v where "u = l @ 0x0A # v" "0x0A \<notin> set l"
  using split_list_first [OF assms] that by blast

interpretation lines: splitter ScanLines
proof
  fix u :: bytes
  show "\<exists>a tok. ScanLines u True = Inr (int a, tok, None) \<and> a \<le> length u \<and> (tok \<noteq> None \<longrightarrow> 0 < a)"
  proof (cases "0x0A \<in> set u")
    case True
    then obtain l v where u: "u = l @ 0x0A # v" "0x0A \<notin> set l" by (rule first_line)
    then show ?thesis using ScanLines_break [OF u(2)] by (intro exI [of _ "length l + 1"] exI [of _ "Some (dropCR l)"]) simp
  next
    case False
    then show ?thesis using ScanLines_none [OF False, of True]
      by (intro exI [of _ "length u"] exI [of _ "if u = [] then None else Some (dropCR u)"]) auto
  qed
  show "\<exists>a tok. ScanLines u False = Inr (int a, tok, None) \<and> a \<le> length u \<and> (tok \<noteq> None \<longrightarrow> 0 < a) \<and> final_answer ScanLines u a tok"
  proof (cases "0x0A \<in> set u")
    case True
    then obtain l v where u: "u = l @ 0x0A # v" "0x0A \<notin> set l" by (rule first_line)
    then show ?thesis using ScanLines_break [OF u(2)]
      by (intro exI [of _ "length l + 1"] exI [of _ "Some (dropCR l)"]) (simp add: final_answer_def)
  next
    case False
    then show ?thesis using ScanLines_none [OF False, of False]
      by (intro exI [of _ 0] exI [of _ None]) (simp add: final_answer_def)
  qed
qed

lemma tokens_ScanLines: "tokens ScanLines u = lines_of u None"
proof (induction "length u" arbitrary: u rule: less_induct)
  case less
  show ?case
  proof (cases "0x0A \<in> set u")
    case True
    then obtain l v where u: "u = l @ 0x0A # v" "0x0A \<notin> set l" by (rule first_line)
    have "tokens ScanLines u = dropCR l # tokens ScanLines (drop (length l + 1) u)"
      using ScanLines_break [OF u(2), of v True] unfolding u(1) by (rule tokens_cut) simp_all
    then show ?thesis using less [of v] u lines_of_first [OF u(2)] by simp
  next
    case False
    show ?thesis
    proof (cases "u = []")
      case ne: False
      have "tokens ScanLines u = dropCR u # tokens ScanLines (drop (length u) u)"
        using ScanLines_none [OF False, of True] ne by (intro tokens_cut) simp_all
      then show ?thesis using lines_of_last [OF False ne] by simp
    qed simp
  qed
qed

section \<open>Runes and bytes\<close>

lemma rune_bytes_single:
  assumes "ValidRune r" "length (rune_bytes r) = 1"
  shows "hd (rune_bytes r) < RuneSelf"
proof -
  have "length (enc_nat (unat r)) = 1" using assms length_rune_bytes by simp
  then have "unat r < 0x80" by (simp add: enc_nat_def split: if_splits)
  then have "map unat (rune_bytes r) = [unat r]" using assms(1) by (simp add: map_unat_rune_bytes enc_nat_def)
  then show ?thesis using \<open>unat r < 0x80\<close> by (auto simp: word_less_nat_alt)
qed

lemma ScanRunes_rune:
  assumes "u \<noteq> []" "ValidRune r" "n \<le> length u" "take n u = rune_bytes r" "n = length (rune_bytes r)"
  shows "ScanRunes u eof = Inr (int n, Some (rune_bytes r), None)"
proof -
  have u: "u = rune_bytes r @ drop n u" using assms(4) by (metis append_take_drop_id)
  have d: "DecodeRune u = (r, n)" using decode_rune_bytes [OF assms(2)] u assms(5) by metis
  have hd: "u ! 0 = hd (rune_bytes r)" by (subst u) (simp add: nth_append hd_conv_nth)
  have n: "1 \<le> n" using assms(1) DecodeRune_size d by (metis snd_conv)
  show ?thesis
  proof (cases "u ! 0 < RuneSelf")
    case True
    then have "n = 1" using d DecodeRune_ascii [OF assms(1)] lead_info_ascii by simp
    then show ?thesis using True assms(1,4) by (simp add: ScanRunes_def)
  next
    case False
    then have "n > 1" using rune_bytes_single [OF assms(2)] n hd assms(5) by force
    then show ?thesis using False assms(1,3,4) d by (simp add: ScanRunes_def go_slice_def seg_def)
  qed
qed

lemma ScanRunes_error:
  assumes "u \<noteq> []" "DecodeRune u = (RuneError, 1)"
  shows "ScanRunes u eof = (if \<not> eof \<and> \<not> FullRune u then Inr (0, None, None) else Inr (1, Some (rune_bytes RuneError), None))"
proof -
  have "\<not> u ! 0 < RuneSelf"
  proof
    assume a: "u ! 0 < RuneSelf"
    then have "ucast (u ! 0) = RuneError" using DecodeRune_ascii [OF assms(1)] lead_info_ascii assms(2) by simp
    then have "rune_bytes RuneError = [u ! 0]" using byte_rune(2) [OF a] by simp
    then show False using length_RuneError_bytes by simp
  qed
  then show ?thesis using assms by (simp add: ScanRunes_def errorRune_def)
qed

lemma tokens_ScanRunes: "tokens ScanRunes u = map rune_bytes (runes_of u)"
proof (induction u rule: segs_induct)
  case Nil
  show ?case by (subst tokens.simps) (simp add: ScanRunes_def runes_of_segs)
next
  case (cut u)
  obtain r n where d: "DecodeRune u = (r, n)" by (cases "DecodeRune u")
  then have n: "1 \<le> n" "n \<le> length u" using DecodeRune_size [of u] cut.hyps by auto
  have "ScanRunes u True = Inr (int n, Some (rune_bytes r), None)"
    using cut.hyps(1) d
  proof (cases rule: decode_cases)
    case error
    then show ?thesis using ScanRunes_error [OF cut.hyps(1), of True] d by simp
  next
    case rune
    then show ?thesis by (rule ScanRunes_rune [OF cut.hyps(1)])
  qed
  then have "tokens ScanRunes u = rune_bytes r # tokens ScanRunes (drop n u)" using n by (intro tokens_cut) simp_all
  then show ?case using cut d by (subst runes_of.simps) simp
qed

interpretation runes: splitter ScanRunes
proof
  fix u :: bytes
  obtain r n where d: "DecodeRune u = (r, n)" by (cases "DecodeRune u")
  have n: "u \<noteq> [] \<Longrightarrow> 1 \<le> n \<and> n \<le> length u" using DecodeRune_size [of u] d by auto
  show "\<exists>a tok. ScanRunes u True = Inr (int a, tok, None) \<and> a \<le> length u \<and> (tok \<noteq> None \<longrightarrow> 0 < a)"
  proof (cases "u = []")
    case True
    then show ?thesis by (intro exI [of _ 0] exI [of _ None]) (simp add: ScanRunes_def)
  next
    case False
    from False d show ?thesis
    proof (cases rule: decode_cases)
      case error
      then show ?thesis using ScanRunes_error [OF False, of True] d n [OF False]
        by (intro exI [of _ 1] exI [of _ "Some (rune_bytes RuneError)"]) simp
    next
      case rune
      then show ?thesis using ScanRunes_rune [OF False rune, of True] n [OF False]
        by (intro exI [of _ n] exI [of _ "Some (rune_bytes r)"]) simp
    qed
  qed
  assume u: "u \<noteq> []"
  from u d show "\<exists>a tok. ScanRunes u False = Inr (int a, tok, None) \<and> a \<le> length u \<and> (tok \<noteq> None \<longrightarrow> 0 < a) \<and> final_answer ScanRunes u a tok"
  proof (cases rule: decode_cases)
    case error
    show ?thesis
    proof (cases "FullRune u")
      case True
      have "ScanRunes (u @ v) True = Inr (1, Some (rune_bytes RuneError), None)" for v
        using ScanRunes_error [of "u @ v" True] FullRune_settled [OF True] u d error by simp
      then show ?thesis using ScanRunes_error [OF u, of False] True d error n [OF u]
        by (intro exI [of _ 1] exI [of _ "Some (rune_bytes RuneError)"]) (simp add: final_answer_def)
    next
      case False
      then show ?thesis using ScanRunes_error [OF u, of False] d error
        by (intro exI [of _ 0] exI [of _ None]) (simp add: final_answer_def)
    qed
  next
    case rune
    have "ScanRunes (u @ v) True = Inr (int n, Some (rune_bytes r), None)" for v
      using u rune by (intro ScanRunes_rune) simp_all
    then show ?thesis using ScanRunes_rune [OF u rune, of False] n [OF u] rune(2)
      by (intro exI [of _ n] exI [of _ "Some (rune_bytes r)"]) (simp add: final_answer_def)
  qed
qed

lemma ScanBytes_Cons: "ScanBytes (c # u) eof = Inr (1, Some [c], None)" "ScanBytes [] True = Inr (0, None, None)"
  by (simp_all add: ScanBytes_def go_slice_def seg_def)

interpretation single: splitter ScanBytes
proof
  fix u :: bytes
  show "\<exists>a tok. ScanBytes u True = Inr (int a, tok, None) \<and> a \<le> length u \<and> (tok \<noteq> None \<longrightarrow> 0 < a)"
    by (cases u) (auto simp: ScanBytes_Cons intro!: exI [of _ "min 1 (length u)"])
  assume "u \<noteq> []"
  then obtain c v where u: "u = c # v" by (cases u) auto
  then show "\<exists>a tok. ScanBytes u False = Inr (int a, tok, None) \<and> a \<le> length u \<and> (tok \<noteq> None \<longrightarrow> 0 < a) \<and> final_answer ScanBytes u a tok"
    by (intro exI [of _ 1] exI [of _ "Some [c]"]) (simp add: ScanBytes_Cons final_answer_def)
qed

lemma tokens_ScanBytes: "tokens ScanBytes u = map (\<lambda>c. [c]) u"
proof (induction u)
  case (Cons c u)
  have "tokens ScanBytes (c # u) = [c] # tokens ScanBytes (drop 1 (c # u))" by (rule tokens_cut) (simp_all add: ScanBytes_Cons)
  then show ?case using Cons.IH by simp
qed simp

section \<open>What a client sees\<close>

context scanning
begin

lemma scanner_on_ok:
  assumes "ok r" "M = max (nat max') (length (elems buf) + length (spare buf))" "M < 2 ^ 62"
  shows "\<exists>s. scanner_on r buf max' split = Inr s \<and> sn_ok M s \<and> ahead s = rest r \<and> sn_start s = 0 \<and> sn_err s = None"
proof -
  let ?s = "(NewScanner r)\<lparr>sn_buf := elems buf @ spare buf, maxTokenSize := max', sn_split := split\<rparr>"
  have "sn_ok M ?s" "ahead ?s = rest r"
    using assms by (simp_all add: sn_ok_def NewScanner_def ahead_def unread_def seg_def)
  then show ?thesis
    by (intro exI [of _ ?s]) (simp add: scanner_on_def sn_Buffer_def sn_Split_def NewScanner_def)
qed

lemma scan_all_ok:
  assumes "ok r" "M = max (nat max') (length (elems buf) + length (spare buf))" "M < 2 ^ 62" "all_fit split M (rest r)"
  shows "\<exists>s. scan_all rd r buf max' split = Some (Inr (s, tokens split (rest r))) \<and> sn_Err s = None"
proof -
  obtain s0 where s0: "scanner_on r buf max' split = Inr s0" "sn_ok M s0" "ahead s0 = rest r"
    using scanner_on_ok [OF assms(1-3)] by blast
  then obtain s where "scan_tokens rd s0 [] = Some (Inr (s, tokens split (rest r)))" "sn_err s = Some EOF"
    using scan_tokens_ok [of M s0 "[]"] assms(4) by auto
  then show ?thesis using s0(1) by (simp add: scan_all_def sn_Err_def)
qed

text \<open>After the error, the next call hands out what is in the buffer, if the split function makes a token of it.\<close>

lemma scan_after_too_long:
  assumes "sn_ok M (s\<lparr>sn_err := None\<rparr>)" "sn_err s = Some ErrTooLong" "sn_start s = 0" "unread s = u" "length u = M" "0 < M"
    "split u True = Inr (int M, Some t, None)"
  shows "\<exists>s'. sn_Scan rd s = Some (Inr (s', True)) \<and> sn_Text s' = t"
proof -
  have ok: "sn_split s = split" "\<not> sn_done s" "0 \<le> sn_end s" "sn_end s \<le> int (length (sn_buf s))"
    using assms(1,3) unfolding sn_ok_def by auto
  then have e: "sn_end s = int M" "seg 0 M (sn_buf s) = u"
    using assms(3,4,5) by (auto simp: unread_def)
  have "scan_token (s\<lparr>scanCalled := True\<rparr>)
      = Inr (s\<lparr>scanCalled := True, sn_start := int M, sn_token := Some t, empties := 0\<rparr>, Some True)"
    using assms(2,3,6,7) ok e by (simp add: scan_token_def go_sub_def sn_advance_def Let_def)
  then show ?thesis using ok(2) by (simp add: sn_Scan_def sn_Text_def scan_loop.simps)
qed

end

text \<open>When the buffer is large enough.\<close>

lemma all_fit_lines:
  assumes "0 < M" "\<And>k. k + M \<le> length u \<Longrightarrow> 0x0A \<in> set (take M (drop k u))"
  shows "all_fit ScanLines M u"
proof -
  have "ScanLines (take M (drop k u)) False \<noteq> Inr (0, None, None)" if "k + M \<le> length u" for k
  proof -
    have "0x0A \<in> set (take M (drop k u))" using assms(2) that .
    then obtain l v where l: "take M (drop k u) = l @ 0x0A # v" "0x0A \<notin> set l" by (rule first_line)
    then show ?thesis using ScanLines_break [OF l(2)] by simp
  qed
  then show ?thesis using assms(1) by (auto simp: all_fit_def fits_def not_less)
qed

lemma ScanWords_not_stuck:
  assumes "asciiSpace c \<noteq> 0" "c \<in> set u"
  shows "ScanWords u False \<noteq> Inr (0, None, None)"
proof -
  obtain ws nw ps where w: "segs u = ws @ nw @ ps" "spaces ws" "no_spaces nw" "ps = [] \<or> IsSpace (fst (hd ps))"
    "nw = [] \<longrightarrow> ps = []" by (rule words_split)
  obtain l v where u: "u = l @ c # v" using assms(2) by (meson split_list)
  have c: "c < RuneSelf" using assms(1) by (auto simp: asciiSpace_def split: if_splits)
  then have c: "c < RuneSelf" "IsSpace (ucast c)" using assms(1) IsSpace_ascii by auto
  have "segs u = segs l @ segs (c # v)"
    unfolding u using rune_bytes_shape(1) [OF byte_rune(1) [OF c(1)]] byte_rune(2) [OF c(1)] by (intro segs_before_start) simp
  also have "segs (c # v) = (ucast c, [c]) # segs v"
    using segs_rune_bytes [OF byte_rune(1) [OF c(1)], of v] byte_rune(2) [OF c(1)] by simp
  finally have "\<exists>p \<in> set (segs u). IsSpace (fst p)" using c(2) by auto
  then have "ws \<noteq> [] \<or> ps \<noteq> []" using w(1,3) by auto
  moreover have "joined ws \<noteq> []" if "ws \<noteq> []" using segs_nonempty [of "fst (hd ws)" "snd (hd ws)" u] w(1) that by (cases ws) auto
  ultimately show ?thesis using ScanWords_segs [OF w, of False] by (cases ps) auto
qed

lemma all_fit_words:
  assumes "0 < M" "\<And>k. k + M \<le> length u \<Longrightarrow> \<exists>c \<in> set (take M (drop k u)). asciiSpace c \<noteq> 0"
  shows "all_fit ScanWords M u"
proof -
  have "ScanWords (take M (drop k u)) False \<noteq> Inr (0, None, None)" if "k + M \<le> length u" for k
    using assms(2) [OF that] ScanWords_not_stuck by blast
  then show ?thesis using assms(1) by (auto simp: all_fit_def fits_def not_less)
qed

lemma all_fit_runes: "4 \<le> M \<Longrightarrow> all_fit ScanRunes M u"
proof -
  assume M: "4 \<le> M"
  have "ScanRunes (take M u) False \<noteq> Inr (0, None, None)" if "M \<le> length u" for u
  proof -
    have ne: "take M u \<noteq> []" using M that by auto
    obtain r n where d: "DecodeRune (take M u) = (r, n)" by (cases "DecodeRune (take M u)")
    from ne d show ?thesis
    proof (cases rule: decode_cases)
      case error
      have "FullRune (take M u)" using FullRune_long M that by simp
      then show ?thesis using ScanRunes_error [OF ne, of False] d error by simp
    next
      case rune
      then show ?thesis using ScanRunes_rune [OF ne rune, of False] by simp
    qed
  qed
  then show ?thesis using M by (auto simp: all_fit_def fits_def not_less)
qed

section \<open>Properties\<close>

interpretation scan_words: scanning "multi_read sr_Read" "multi_rest sr_rest" "multi_ok sr_ok" ScanWords
  by (intro scanning.intro words.splitter_axioms stream_reader.intro sr.multi_delivers)
interpretation scan_lines: scanning "multi_read sr_Read" "multi_rest sr_rest" "multi_ok sr_ok" ScanLines
  by (intro scanning.intro lines.splitter_axioms stream_reader.intro sr.multi_delivers)

text \<open>
  C12: scanning words.  Whatever reader delivers the input, in whatever portions, and whatever buffer the
  Scanner starts with: the tokens of a Scanner with the split function \<open>ScanWords\<close> are what
  \<open>strings.Fields\<close> returns for the whole input, and no error is reported, as long as there is a space
  within every \<open>M\<close> bytes, \<open>M\<close> being the larger of the buffer's capacity and the maximal token size.
\<close>

theorem scanner_words:
  assumes "stream_reader rd rest ok" "ok r" "M = max (nat max') (length (elems buf) + length (spare buf))" "0 < M" "M < 2 ^ 62"
    and "\<And>k. k + M \<le> length (rest r) \<Longrightarrow> \<exists>c \<in> set (take M (drop k (rest r))). asciiSpace c \<noteq> 0"
  shows "\<exists>s ws. Fields (rest r) = Inr ws \<and> scan_all rd r buf max' ScanWords = Some (Inr (s, ws)) \<and> sn_Err s = None"
proof -
  have "scanning rd rest ok ScanWords" by (intro scanning.intro assms(1) words.splitter_axioms)
  from scanning.scan_all_ok [OF this assms(2,3,5) all_fit_words [OF assms(4,6)]]
  show ?thesis by (simp add: Fields_FieldsFunc FieldsFunc_words tokens_ScanWords)
qed

theorem scanner_words_witness:
  "\<exists>s. scan_all br_Read (br_NewReader [0x61, 0x20, 0xE2, 0x80, 0x83, 0x62, 0x63]) nil_slice 8 ScanWords
     = Some (Inr (s, [[0x61], [0x62, 0x63]])) \<and> sn_Err s = None"
proof -
  let ?r = "br_NewReader [0x61, 0x20, 0xE2, 0x80, 0x83, 0x62, 0x63]"
  have r: "br_rest ?r = [0x61, 0x20, 0xE2, 0x80, 0x83, 0x62, 0x63]" "br_ok ?r"
    by (simp_all add: br_rest_def br_ok_def br_NewReader_def)
  have "Fields (br_rest ?r) = Inr [[0x61], [0x62, 0x63]]" unfolding r(1) by code_simp
  moreover have "\<exists>s ws. Fields (br_rest ?r) = Inr ws \<and> scan_all br_Read ?r nil_slice 8 ScanWords = Some (Inr (s, ws)) \<and> sn_Err s = None"
    using r by (intro scanner_words [where M = 8 and ok = br_ok] br.stream_reader_axioms) (simp_all add: nil_slice_def)
  ultimately show ?thesis by auto
qed

text \<open>
  Scanning lines.  With the default split function the tokens are the lines of the whole input, each
  without its newline and one carriage return before it, an unfinished last line included when it is not
  empty, as long as there is a newline within every \<open>M\<close> bytes.
\<close>

theorem scanner_lines:
  assumes "stream_reader rd rest ok" "ok r" "M = max (nat max') (length (elems buf) + length (spare buf))" "0 < M" "M < 2 ^ 62"
    and "\<And>k. k + M \<le> length (rest r) \<Longrightarrow> 0x0A \<in> set (take M (drop k (rest r)))"
  shows "\<exists>s. scan_all rd r buf max' ScanLines = Some (Inr (s, lines_of (rest r) None)) \<and> sn_Err s = None"
proof -
  have "scanning rd rest ok ScanLines" by (intro scanning.intro assms(1) lines.splitter_axioms)
  from scanning.scan_all_ok [OF this assms(2,3,5) all_fit_lines [OF assms(4,6)]]
  show ?thesis by (simp add: tokens_ScanLines)
qed

theorem scanner_lines_witness:
  "\<exists>s. scan_all br_Read (br_NewReader [0x61, 0x0D, 0x0A, 0x0A, 0x62]) nil_slice 3 ScanLines
     = Some (Inr (s, [[0x61], [], [0x62]])) \<and> sn_Err s = None"
proof -
  let ?r = "br_NewReader [0x61, 0x0D, 0x0A, 0x0A, 0x62]"
  have r: "br_rest ?r = [0x61, 0x0D, 0x0A, 0x0A, 0x62]" "br_ok ?r"
    by (simp_all add: br_rest_def br_ok_def br_NewReader_def)
  have "0x0A \<in> set (take 3 (drop k (br_rest ?r)))" if "k + 3 \<le> length (br_rest ?r)" for k
  proof -
    have "k = 0 \<or> k = 1 \<or> k = 2" using that r(1) by auto
    then show ?thesis unfolding r(1) by auto
  qed
  moreover have "lines_of (br_rest ?r) None = [[0x61], [], [0x62]]" unfolding r(1) by (simp add: dropCR_def)
  ultimately show ?thesis
    using scanner_lines [where M = 3 and ok = br_ok and rest = br_rest, OF br.stream_reader_axioms r(2), of 3 nil_slice]
    by (simp add: nil_slice_def)
qed

text \<open>
  Scanning runes and bytes.  The tokens are the UTF-8 encodings of the runes that decoding the whole
  input yields, the replacement character for every invalid byte; a rune that two reads deliver in parts
  is one token.  With \<open>ScanBytes\<close> they are the single bytes.
\<close>

theorem scanner_runes:
  assumes "stream_reader rd rest ok" "ok r" "M = max (nat max') (length (elems buf) + length (spare buf))" "4 \<le> M" "M < 2 ^ 62"
  shows "(\<exists>s. scan_all rd r buf max' ScanRunes = Some (Inr (s, map rune_bytes (runes_of (rest r)))) \<and> sn_Err s = None)
    \<and> (\<exists>s. scan_all rd r buf max' ScanBytes = Some (Inr (s, map (\<lambda>c. [c]) (rest r))) \<and> sn_Err s = None)"
proof (rule conjI)
  have "scanning rd rest ok ScanRunes" by (intro scanning.intro assms(1) runes.splitter_axioms)
  from scanning.scan_all_ok [OF this assms(2,3,5) all_fit_runes [OF assms(4)]]
  show "\<exists>s. scan_all rd r buf max' ScanRunes = Some (Inr (s, map rune_bytes (runes_of (rest r)))) \<and> sn_Err s = None"
    by (simp add: tokens_ScanRunes)
  have "ScanBytes (take M (drop k (rest r))) False \<noteq> Inr (0, None, None)" if "k + M \<le> length (rest r)" for k
    using that assms(4) by (cases "take M (drop k (rest r))") (auto simp: ScanBytes_Cons)
  then have fit: "all_fit ScanBytes M (rest r)" using assms(4) by (auto simp: all_fit_def fits_def not_less)
  have "scanning rd rest ok ScanBytes" by (intro scanning.intro assms(1) single.splitter_axioms)
  from scanning.scan_all_ok [OF this assms(2,3,5) fit]
  show "\<exists>s. scan_all rd r buf max' ScanBytes = Some (Inr (s, map (\<lambda>c. [c]) (rest r))) \<and> sn_Err s = None"
    by (simp add: tokens_ScanBytes)
qed

theorem scanner_runes_witness:
  "\<exists>s. scan_all br_Read (br_NewReader [0xE2, 0x80, 0x83, 0xFF, 0x61]) nil_slice 4 ScanRunes
     = Some (Inr (s, [[0xE2, 0x80, 0x83], [0xEF, 0xBF, 0xBD], [0x61]])) \<and> sn_Err s = None"
proof -
  let ?r = "br_NewReader [0xE2, 0x80, 0x83, 0xFF, 0x61]"
  have r: "br_rest ?r = [0xE2, 0x80, 0x83, 0xFF, 0x61]" "br_ok ?r"
    by (simp_all add: br_rest_def br_ok_def br_NewReader_def)
  have "map rune_bytes (runes_of (br_rest ?r)) = [[0xE2, 0x80, 0x83], [0xEF, 0xBF, 0xBD], [0x61]]" unfolding r(1) by code_simp
  then show ?thesis
    using scanner_runes [where M = 4 and ok = br_ok and rest = br_rest, OF br.stream_reader_axioms r(2), of 4 nil_slice]
    by (simp add: nil_slice_def)
qed

text \<open>
  C29: a token that does not fit.  When the first \<open>M\<close> bytes of a longer input contain no newline, the
  first call of \<open>Scan\<close> returns false and \<open>Err\<close> is \<open>ErrTooLong\<close>.  Scanning has not stopped for good,
  however: a further call returns true and hands out these \<open>M\<close> bytes as a line.
\<close>

theorem scanner_too_long:
  assumes "stream_reader rd rest ok" "ok r" "M = max (nat max') (length (elems buf) + length (spare buf))" "0 < M" "M < 2 ^ 62"
    and "M < length (rest r)" "0x0A \<notin> set (take M (rest r))"
  shows "\<exists>s s1 s2. scanner_on r buf max' ScanLines = Inr s \<and> sn_Scan rd s = Some (Inr (s1, False)) \<and> sn_Err s1 = Some ErrTooLong
    \<and> sn_Scan rd s1 = Some (Inr (s2, True)) \<and> sn_Text s2 = dropCR (take M (rest r))"
proof -
  have sc: "scanning rd rest ok ScanLines" by (intro scanning.intro assms(1) lines.splitter_axioms)
  note [simp] = scanning.sn_ok_fields [OF sc]
  obtain s where s: "scanner_on r buf max' ScanLines = Inr s" "scanning.sn_ok rest ok ScanLines M s"
    "scanning.ahead rest s = rest r" "sn_start s = 0" "sn_err s = None"
    using scanning.scanner_on_ok [OF sc assms(2,3,5)] by blast
  have part: "0x0A \<notin> set (take j (rest r))" if "j \<le> M" for j
    using subsetD [OF set_take_subset_set_take [OF that, of "rest r"]] assms(7) by metis
  obtain s1 where s1: "scan_loop rd (s\<lparr>scanCalled := True\<rparr>) = Some (Inr (s1, False))"
    "scanning.sn_ok rest ok ScanLines M (s1\<lparr>sn_err := None\<rparr>)" "sn_err s1 = Some ErrTooLong" "sn_start s1 = 0"
    "scanning.unread s1 = take M (rest r)"
    using scanning.scan_too_long [OF sc, of M "s\<lparr>scanCalled := True\<rparr>"] s assms(4,6) ScanLines_none [OF part, of _ False] by auto
  have "ScanLines (take M (rest r)) True = Inr (int M, Some (dropCR (take M (rest r))), None)"
    using ScanLines_none [OF assms(7), of True] assms(4,6) by (cases "rest r") auto
  moreover have "length (take M (rest r)) = M" using assms(6) by simp
  ultimately obtain s2 where "sn_Scan rd s1 = Some (Inr (s2, True))" "sn_Text s2 = dropCR (take M (rest r))"
    using scanning.scan_after_too_long [OF sc s1(2-5) _ assms(4)] by metis
  moreover have "sn_Scan rd s = Some (Inr (s1, False))" using scanning.Scan_ok [OF sc s(2)] s1(1) by simp
  moreover have "sn_Err s1 = Some ErrTooLong" using s1(3) by (simp add: sn_Err_def ErrTooLong_def)
  ultimately show ?thesis using s(1) by blast
qed

theorem scanner_too_long_witness:
  "\<exists>s s1 s2. scanner_on (br_NewReader [0x61, 0x62, 0x63, 0x0A]) nil_slice 2 ScanLines = Inr s
    \<and> sn_Scan br_Read s = Some (Inr (s1, False)) \<and> sn_Err s1 = Some ErrTooLong
    \<and> sn_Scan br_Read s1 = Some (Inr (s2, True)) \<and> sn_Text s2 = [0x61, 0x62]"
proof -
  let ?r = "br_NewReader [0x61, 0x62, 0x63, 0x0A]"
  have r: "br_rest ?r = [0x61, 0x62, 0x63, 0x0A]" "br_ok ?r"
    by (simp_all add: br_rest_def br_ok_def br_NewReader_def)
  show ?thesis
    using scanner_too_long [where M = 2 and ok = br_ok and rest = br_rest, OF br.stream_reader_axioms r(2), of 2 nil_slice] r(1)
    by (simp add: nil_slice_def dropCR_def)
qed

end
