(* ===== verification/BufioWriter.thy ===== *)
theory BufioWriter
  imports BufioReader
begin

text \<open>The buffered writer of package \<open>bufio\<close> (\<open>bufio/bufio.go\<close>, type \<open>Writer\<close>) over any writer.\<close>

record 'w bufWriter =
  wt_err :: "io_error option"
  wt_buf :: bytes
  wt_n :: int
  wt_wr :: 'w

definition NewWriterSize :: "('x \<Rightarrow> 'w bufWriter option) \<Rightarrow> 'x \<Rightarrow> int \<Rightarrow> 'w bufWriter + 'x bufWriter" where
  "NewWriterSize as_Writer w size' =
     (let fresh = \<lparr>wt_err = None, wt_buf = replicate (nat (if size' \<le> 0 then defaultBufSize else size')) 0, wt_n = 0, wt_wr = w\<rparr> in
      case as_Writer w of
        Some b \<Rightarrow> if int (length (wt_buf b)) \<ge> size' then Inl b else Inr fresh
      | None \<Rightarrow> Inr fresh)"

definition NewWriter :: "('x \<Rightarrow> 'w bufWriter option) \<Rightarrow> 'x \<Rightarrow> 'w bufWriter + 'x bufWriter" where
  "NewWriter as_Writer w = NewWriterSize as_Writer w defaultBufSize"

definition wt_Size :: "'w bufWriter \<Rightarrow> int" where "wt_Size b = int (length (wt_buf b))"

definition wt_Reset :: "'w bufWriter \<Rightarrow> 'w \<Rightarrow> 'w bufWriter" where
  "wt_Reset b w = b\<lparr>wt_err := None, wt_n := 0, wt_wr := w\<rparr>"

definition wt_Available :: "'w bufWriter \<Rightarrow> int" where "wt_Available b = int (length (wt_buf b)) - wt_n b"
definition wt_Buffered :: "'w bufWriter \<Rightarrow> int" where "wt_Buffered b = wt_n b"

definition wt_Flush :: "'w writer \<Rightarrow> 'w bufWriter \<Rightarrow> ('w bufWriter \<times> io_error option) go" where
  "wt_Flush wr b =
     (if wt_err b \<noteq> None then Inr (b, wt_err b)
      else if wt_n b = 0 then Inr (b, None)
      else
        go_bind (go_sub (wt_buf b) 0 (wt_n b)) (\<lambda>data.
        go_bind (wr (wt_wr b) data) (\<lambda>(w, n, err).
          let b = b\<lparr>wt_wr := w\<rparr>;
              err = (if n < wt_n b \<and> err = None then Some ErrShortWrite else err) in
          if err \<noteq> None then
            go_bind (if n > 0 \<and> n < wt_n b
                then go_bind (go_sub (wt_buf b) n (wt_n b)) (\<lambda>xs. Inr (b\<lparr>wt_buf := xs @ drop (length xs) (wt_buf b)\<rparr>))
                else Inr b) (\<lambda>b.
              Inr (b\<lparr>wt_n := wrap64 (wt_n b - n), wt_err := err\<rparr>, err))
          else Inr (b\<lparr>wt_n := 0\<rparr>, None))))"

text \<open>\<open>copy(b.buf[b.n:], p)\<close> followed by \<open>b.n += n\<close>.\<close>

definition wt_copy :: "'w bufWriter \<Rightarrow> bytes \<Rightarrow> ('w bufWriter \<times> nat) go" where
  "wt_copy b p =
     go_bind (go_from (wt_buf b) (wt_n b)) (\<lambda>space.
       let n = min (length space) (length p) in
       Inr (b\<lparr>wt_buf := take (nat (wt_n b)) (wt_buf b) @ take n p @ drop n space, wt_n := wt_n b + int n\<rparr>, n))"

partial_function (option) wt_write_loop ::
  "'w writer \<Rightarrow> 'w bufWriter \<Rightarrow> bytes \<Rightarrow> int \<Rightarrow> ('w bufWriter \<times> bytes \<times> int) go option" where
  "wt_write_loop wr b p nn =
     (if int (length p) > wt_Available b \<and> wt_err b = None then
        (case (if wt_Buffered b = 0 then
                 go_bind (wr (wt_wr b) p) (\<lambda>(w, n, err). Inr (b\<lparr>wt_wr := w, wt_err := err\<rparr>, n))
               else
                 go_bind (wt_copy b p) (\<lambda>(b, n).
                 go_bind (wt_Flush wr b) (\<lambda>(b, _). Inr (b, int n)))) of
           Inl e \<Rightarrow> Some (Inl e)
         | Inr (b, n) \<Rightarrow>
             (case go_from p n of
                Inl e \<Rightarrow> Some (Inl e)
              | Inr p \<Rightarrow> wt_write_loop wr b p (wrap64 (nn + n))))
      else Some (Inr (b, p, nn)))"

text \<open>What \<open>Write\<close> and \<open>WriteString\<close> do after their loops.\<close>

definition wt_rest :: "'w bufWriter \<Rightarrow> bytes \<Rightarrow> int \<Rightarrow> ('w bufWriter \<times> int \<times> io_error option) go" where
  "wt_rest b p nn =
     (if wt_err b \<noteq> None then Inr (b, nn, wt_err b)
      else go_bind (wt_copy b p) (\<lambda>(b, n). Inr (b, wrap64 (nn + int n), None)))"

definition wt_Write :: "'w writer \<Rightarrow> 'w bufWriter \<Rightarrow> bytes \<Rightarrow> ('w bufWriter \<times> int \<times> io_error option) go option" where
  "wt_Write wr b p = run_bind (wt_write_loop wr b p 0) (\<lambda>(b, p, nn). Some (wt_rest b p nn))"

definition wt_WriteByte :: "'w writer \<Rightarrow> 'w bufWriter \<Rightarrow> byte \<Rightarrow> ('w bufWriter \<times> io_error option) go" where
  "wt_WriteByte wr b c =
     (if wt_err b \<noteq> None then Inr (b, wt_err b)
      else go_bind (if wt_Available b \<le> 0 then wt_Flush wr b else Inr (b, None)) (\<lambda>(b, err).
        if err \<noteq> None then Inr (b, wt_err b)
        else if 0 \<le> wt_n b \<and> wt_n b < int (length (wt_buf b)) then
          Inr (b\<lparr>wt_buf := (wt_buf b)[nat (wt_n b) := c], wt_n := wt_n b + 1\<rparr>, None)
        else Inl IndexOutOfRange))"

partial_function (option) wt_writestring_loop ::
  "'w writer \<Rightarrow> 'w bufWriter \<Rightarrow> bytes \<Rightarrow> int \<Rightarrow> ('w bufWriter \<times> bytes \<times> int) go option" where
  "wt_writestring_loop wr b s nn =
     (if int (length s) > wt_Available b \<and> wt_err b = None then
        (case go_bind (wt_copy b s) (\<lambda>(b, n). go_bind (wt_Flush wr b) (\<lambda>(b, _). Inr (b, n))) of
           Inl e \<Rightarrow> Some (Inl e)
         | Inr (b, n) \<Rightarrow> wt_writestring_loop wr b (drop n s) (wrap64 (nn + int n)))
      else Some (Inr (b, s, nn)))"

definition wt_WriteString :: "'w writer \<Rightarrow> 'w bufWriter \<Rightarrow> bytes \<Rightarrow> ('w bufWriter \<times> int \<times> io_error option) go option" where
  "wt_WriteString wr b s = run_bind (wt_writestring_loop wr b s 0) (\<lambda>(b, s, nn). Some (wt_rest b s nn))"

definition wt_WriteRune :: "'w writer \<Rightarrow> 'w bufWriter \<Rightarrow> rune \<Rightarrow> ('w bufWriter \<times> int \<times> io_error option) go option" where
  "wt_WriteRune wr b r =
     (if r <s ucast RuneSelf then
        Some (go_bind (wt_WriteByte wr b (ucast r)) (\<lambda>(b, err). Inr (if err \<noteq> None then (b, 0, err) else (b, 1, None))))
      else if wt_err b \<noteq> None then Some (Inr (b, 0, wt_err b))
      else
        (case (if wt_Available b < int UTFMax then go_bind (wt_Flush wr b) (\<lambda>(b, _). Inr b) else Inr b) of
           Inl e \<Rightarrow> Some (Inl e)
         | Inr b \<Rightarrow>
             if wt_err b \<noteq> None then Some (Inr (b, 0, wt_err b))
             else if wt_Available b < int UTFMax then wt_WriteString wr b (rune_bytes r)
             else Some (go_bind (go_from (wt_buf b) (wt_n b)) (\<lambda>space.
               go_bind (EncodeRune space r) (\<lambda>(space, n).
                 Inr (b\<lparr>wt_buf := take (nat (wt_n b)) (wt_buf b) @ space, wt_n := wt_n b + int n\<rparr>, int n, None))))))"

section \<open>\<open>ReadFrom\<close>\<close>

text \<open>At most \<open>i\<close> reads that deliver nothing.\<close>

primrec wt_read_loop :: "'r reader \<Rightarrow> nat \<Rightarrow> 'r \<Rightarrow> bytes \<Rightarrow> ('r \<times> bytes \<times> (int \<times> io_error option) option) go" where
  "wt_read_loop rd 0 r p = Inr (r, p, None)"
| "wt_read_loop rd (Suc i) r p =
     go_bind (rd r p) (\<lambda>(r, p, m, err).
       if m \<noteq> 0 \<or> err \<noteq> None then Inr (r, p, Some (m, err)) else wt_read_loop rd i r p)"

definition wt_readfrom_end :: "'w writer \<Rightarrow> 'w bufWriter \<Rightarrow> io_error option \<Rightarrow> ('w bufWriter \<times> io_error option) go" where
  "wt_readfrom_end wr b err =
     (if err = Some EOF then if wt_Available b = 0 then wt_Flush wr b else Inr (b, None)
      else Inr (b, err))"

partial_function (option) wt_readfrom_loop ::
  "'r reader \<Rightarrow> 'w writer \<Rightarrow> 'r \<Rightarrow> 'w bufWriter \<Rightarrow> int \<Rightarrow> ('r \<times> 'w bufWriter \<times> int \<times> io_error option) go option" where
  "wt_readfrom_loop rd wr r b n =
     (case (if wt_Available b = 0 then wt_Flush wr b else Inr (b, None)) of
        Inl e \<Rightarrow> Some (Inl e)
      | Inr (b, err1) \<Rightarrow>
          if err1 \<noteq> None then Some (Inr (r, b, n, err1))
          else
            (case go_bind (go_from (wt_buf b) (wt_n b)) (\<lambda>p. wt_read_loop rd maxConsecutiveEmptyReads r p) of
               Inl e \<Rightarrow> Some (Inl e)
             | Inr (r, p, None) \<Rightarrow>
                 Some (Inr (r, b\<lparr>wt_buf := take (nat (wt_n b)) (wt_buf b) @ p\<rparr>, n, Some ErrNoProgress))
             | Inr (r, p, Some (m, err)) \<Rightarrow>
                 let b = b\<lparr>wt_buf := take (nat (wt_n b)) (wt_buf b) @ p, wt_n := wrap64 (wt_n b + m)\<rparr>;
                     n = wrap64 (n + m) in
                 if err \<noteq> None then Some (go_bind (wt_readfrom_end wr b err) (\<lambda>(b, err). Inr (r, b, n, err)))
                 else wt_readfrom_loop rd wr r b n))"

text \<open>\<open>rf\<close>: the \<open>ReadFrom\<close> method of the underlying writer, if it has one.\<close>

definition wt_ReadFrom :: "'r reader \<Rightarrow> 'w writer \<Rightarrow> ('r, 'w) transfer option \<Rightarrow> ('r, 'w bufWriter) transfer" where
  "wt_ReadFrom rd wr rf r b =
     (if wt_err b \<noteq> None then Some (Inr (r, b, 0, wt_err b))
      else
        (case (if wt_Buffered b = 0 then rf else None) of
           Some f \<Rightarrow> run_bind (f r (wt_wr b)) (\<lambda>(r, w, n, err). Some (Inr (r, b\<lparr>wt_wr := w, wt_err := err\<rparr>, n, err)))
         | None \<Rightarrow> wt_readfrom_loop rd wr r b 0))"

text \<open>A \<open>ReadWriter\<close> holds one of each; its methods are theirs.\<close>

record ('r, 'w) ReadWriter =
  rw_Reader :: "'r bufReader"
  rw_Writer :: "'w bufWriter"

definition NewReadWriter :: "'r bufReader \<Rightarrow> 'w bufWriter \<Rightarrow> ('r, 'w) ReadWriter" where
  "NewReadWriter r w = \<lparr>rw_Reader = r, rw_Writer = w\<rparr>"

declare wt_write_loop.simps [code] wt_writestring_loop.simps [code] wt_readfrom_loop.simps [code]

end
