(* ===== verification/BufioWriterLaws.thy ===== *)
theory BufioWriterLaws
  imports BufioWriter IoLaws
begin

text \<open>
  What the buffered writer does with any writer that keeps the contract of \<open>io.Writer\<close>: every byte it takes is
  either sent or still in the buffer, in order, also when the writer fails; the first error sticks.
\<close>

section \<open>Writers that keep the contract\<close>

text \<open>
  A call takes a prefix of the bytes, and gives an error if not all of them; \<open>room w n\<close> allows for \<open>n\<close> more bytes.
\<close>

locale honest_writer =
  fixes wr :: "'w writer" and sent :: "'w \<Rightarrow> bytes" and room :: "'w \<Rightarrow> nat \<Rightarrow> bool"
  assumes takes: "room w n \<Longrightarrow> length p \<le> n \<Longrightarrow>
    \<exists>w' k e. wr w p = Inr (w', int k, e) \<and> k \<le> length p \<and> (k < length p \<longrightarrow> e \<noteq> None) \<and> sent w' = sent w @ take k p
      \<and> room w' (n - k)"

text \<open>A writer that never fails is one.\<close>

sublocale stream_writer \<subseteq> honest: honest_writer wr sent room
proof
  fix w n and p :: bytes
  assume "room w n" "length p \<le> n"
  then obtain w' where "wr w p = Inr (w', int (length p), None)" "sent w' = sent w @ p" "room w' (n - length p)"
    by (rule acceptsE)
  then show "\<exists>w' k e. wr w p = Inr (w', int k, e) \<and> k \<le> length p \<and> (k < length p \<longrightarrow> e \<noteq> None) \<and> sent w' = sent w @ take k p
      \<and> room w' (n - k)"
    by (intro exI [of _ w'] exI [of _ "length p"] exI [of _ None]) simp
qed

section \<open>The state\<close>

definition pending :: "'w bufWriter \<Rightarrow> bytes" where
  "pending b = take (nat (wt_n b)) (wt_buf b)"

text \<open>\<open>m\<close> more bytes may be written.\<close>

definition wt_wf :: "('w \<Rightarrow> nat \<Rightarrow> bool) \<Rightarrow> nat \<Rightarrow> 'w bufWriter \<Rightarrow> bool" where
  "wt_wf room m b \<longleftrightarrow> 0 \<le> wt_n b \<and> wt_n b \<le> int (length (wt_buf b)) \<and> wt_buf b \<noteq> [] \<and> int (length (wt_buf b)) < 2 ^ 62
     \<and> room (wt_wr b) (nat (wt_n b) + m)"

definition written :: "('w \<Rightarrow> bytes) \<Rightarrow> 'w bufWriter \<Rightarrow> bytes" where
  "written sent b = sent (wt_wr b) @ pending b"

lemma wt_wfE:
  assumes "wt_wf room m b"
  obtains j where "wt_n b = int j" "j \<le> length (wt_buf b)" "pending b = take j (wt_buf b)" "length (pending b) = j"
    "wt_Available b = int (length (wt_buf b) - j)" "wt_Buffered b = int j" "0 < length (wt_buf b)" "length (wt_buf b) < 2 ^ 62"
    "room (wt_wr b) (j + m)"
proof -
  have *: "wt_n b = int (nat (wt_n b))" "nat (wt_n b) \<le> length (wt_buf b)" "0 < length (wt_buf b)" "length (wt_buf b) < 2 ^ 62"
    "room (wt_wr b) (nat (wt_n b) + m)"
    using assms unfolding wt_wf_def by auto
  then have "wt_Available b = int (length (wt_buf b) - nat (wt_n b))" "wt_Buffered b = int (nat (wt_n b))"
    by (simp_all add: wt_Available_def wt_Buffered_def of_nat_diff)
  then show ?thesis using that [of "nat (wt_n b)"] * by (simp add: pending_def)
qed

lemma pending_none: "wt_wf room m b \<Longrightarrow> pending b = [] \<longleftrightarrow> wt_n b = 0"
  by (auto simp: pending_def wt_wf_def)

text \<open>The first error sticks, whatever the writer does.\<close>

lemma wt_sticks:
  assumes "wt_err b = Some e"
  shows "wt_Flush wr b = Inr (b, Some e)" "wt_Write wr b p = Some (Inr (b, 0, Some e))" "wt_WriteByte wr b c = Inr (b, Some e)"
    "wt_WriteString wr b s = Some (Inr (b, 0, Some e))" "wt_WriteRune wr b r = Some (Inr (b, 0, Some e))"
    "wt_ReadFrom rd wr rf x b = Some (Inr (x, b, 0, Some e))"
  using assms
  by (simp_all add: wt_Flush_def wt_Write_def wt_write_loop.simps wt_rest_def wt_WriteByte_def wt_WriteString_def
      wt_writestring_loop.simps wt_WriteRune_def wt_ReadFrom_def)

section \<open>Writing\<close>

context honest_writer
begin

text \<open>An error of the writer.\<close>

definition fails :: "io_error \<Rightarrow> bool" where
  "fails e \<longleftrightarrow> (\<exists>w n p w' k. room w n \<and> length p \<le> n \<and> wr w p = Inr (w', int k, Some e))"

lemma failsI: "room w n \<Longrightarrow> length p \<le> n \<Longrightarrow> wr w p = Inr (w', int k, Some e) \<Longrightarrow> fails e"
  unfolding fails_def by blast

text \<open>From \<open>b\<close> to \<open>b'\<close> the bytes \<open>xs\<close> were taken; \<open>m\<close> more may follow.\<close>

definition wt_puts :: "'w bufWriter \<Rightarrow> bytes \<Rightarrow> nat \<Rightarrow> 'w bufWriter \<Rightarrow> bool" where
  "wt_puts b xs m b' \<longleftrightarrow> wt_wf room m b' \<and> written sent b' = written sent b @ xs \<and> length (wt_buf b') = length (wt_buf b)
     \<and> (\<forall>e. wt_err b' = Some e \<longrightarrow> wt_err b = Some e \<or> fails e)"

lemma wt_puts_refl: "wt_wf room m b \<Longrightarrow> wt_puts b [] m b"
  by (simp add: wt_puts_def)

lemma wt_puts_trans: "wt_puts a xs m b \<Longrightarrow> wt_puts b ys n c \<Longrightarrow> wt_puts a (xs @ ys) n c"
  unfolding wt_puts_def by fastforce

lemma Flush_puts:
  assumes "wt_wf room m b"
  shows "\<exists>b'. wt_Flush wr b = Inr (b', wt_err b') \<and> wt_puts b [] m b' \<and> (wt_err b' = None \<longrightarrow> wt_n b' = 0)"
proof -
  obtain j where b: "wt_n b = int j" "j \<le> length (wt_buf b)" "pending b = take j (wt_buf b)" "length (wt_buf b) < 2 ^ 62"
    "room (wt_wr b) (j + m)" using wt_wfE [OF assms] by metis
  show ?thesis
  proof (cases "wt_err b \<noteq> None \<or> j = 0")
    case True
    then show ?thesis using wt_puts_refl [OF assms] b(1) by (intro exI [of _ b]) (auto simp: wt_Flush_def)
  next
    case False
    have len: "length (take j (wt_buf b)) = j" using b(2) by simp
    then obtain w' k e where w: "wr (wt_wr b) (take j (wt_buf b)) = Inr (w', int k, e)" "k \<le> j" "k < j \<longrightarrow> e \<noteq> None"
      "sent w' = sent (wt_wr b) @ take k (take j (wt_buf b))" "room w' (j + m - k)"
      using takes [OF b(5), of "take j (wt_buf b)"] by auto
    show ?thesis
    proof (cases e)
      case None
      let ?b = "b\<lparr>wt_wr := w', wt_n := 0\<rparr>"
      have k: "k = j" using w(2,3) None by auto
      have "wt_Flush wr b = Inr (?b, None)" using False b(1,2) w(1) None k by (simp add: wt_Flush_def)
      moreover have "wt_puts b [] m ?b" using assms w(4,5) k b(3) False by (simp add: wt_puts_def wt_wf_def written_def pending_def)
      ultimately show ?thesis using False by (intro exI [of _ ?b]) simp
    next
      case (Some x)
      have f: "fails x" using failsI [OF b(5), of "take j (wt_buf b)" w' k x] w(1) Some len by simp
      have wrap: "wrap64 (int j - int k) = int (j - k)" using w(2) b(2,4) by (subst wrap64_id) auto
      have wrap0: "wrap64 (int j) = int j" using b(2,4) by (subst wrap64_id) auto
      let ?buf = "if 0 < k \<and> k < j then seg k j (wt_buf b) @ drop (j - k) (wt_buf b) else wt_buf b"
      let ?b = "b\<lparr>wt_wr := w', wt_buf := ?buf, wt_n := int (j - k), wt_err := Some x\<rparr>"
      have sub: "go_sub (wt_buf b) (int k) (int j) = Inr (seg k j (wt_buf b))" using w(2) b(2) by simp
      have segl: "length (seg k j (wt_buf b)) = j - k" using w(2) b(2) by simp
      have "wt_Flush wr b = Inr (?b, Some x)"
        using False b(1,2) w(1,2) Some wrap wrap0 sub segl by (simp add: wt_Flush_def Let_def)
      moreover have nb: "nat (wt_n ?b) = j - k" by simp
      have pend: "pending ?b = drop k (take j (wt_buf b))"
        unfolding pending_def nb using segl w(2) b(2) by (cases "0 < k \<and> k < j") (auto simp: seg_def drop_take)
      have "length ?buf = length (wt_buf b)" using segl w(2) b(2) by simp
      moreover have wr': "wt_wr ?b = w'" by simp
      have "sent w' @ drop k (take j (wt_buf b)) = sent (wt_wr b) @ take j (wt_buf b)" unfolding w(4) by (simp only: append_assoc append_take_drop_id)
      then have "written sent ?b = written sent b" unfolding written_def pend b(3) wr' .
      moreover have "j - k + m = j + m - k" using w(2) by simp
      ultimately have "wt_puts b [] m ?b"
        using assms w(5) f b(2,4) False unfolding wt_puts_def wt_wf_def by auto
      then show ?thesis using \<open>wt_Flush wr b = _\<close> by (intro exI [of _ ?b]) simp
    qed
  qed
qed

lemma copy_puts:
  assumes "wt_wf room (m + k) b" "k = min (length (wt_buf b) - length (pending b)) (length p)"
  shows "\<exists>b'. wt_copy b p = Inr (b', k) \<and> wt_puts b (take k p) m b' \<and> wt_n b' = wt_n b + int k \<and> wt_err b' = wt_err b"
proof -
  obtain j where b: "wt_n b = int j" "j \<le> length (wt_buf b)" "pending b = take j (wt_buf b)" "length (pending b) = j"
    "room (wt_wr b) (j + (m + k))" using wt_wfE [OF assms(1)] by metis
  have k: "k \<le> length p" "j + k \<le> length (wt_buf b)" "k = min (length (drop j (wt_buf b))) (length p)"
    using assms(2) b(2,4) by auto
  let ?b = "b\<lparr>wt_buf := take j (wt_buf b) @ take k p @ drop k (drop j (wt_buf b)), wt_n := int j + int k\<rparr>"
  have "wt_copy b p = Inr (?b, k)" using b(1,2) k(3) by (simp add: wt_copy_def Let_def)
  moreover have "pending ?b = pending b @ take k p" unfolding b(3) using k(1) b(2) by (simp add: pending_def nat_int_add)
  moreover have "length (wt_buf ?b) = length (wt_buf b)" using k b(2) by simp
  ultimately show ?thesis using assms(1) b(1,5) k(2)
    by (intro exI [of _ ?b]) (auto simp: wt_puts_def wt_wf_def written_def nat_int_add add.assoc add.commute [of m])
qed

lemma direct_puts:
  assumes "wt_wf room (m + length p) b" "wt_n b = 0" "wt_err b = None"
  shows "\<exists>w k e. wr (wt_wr b) p = Inr (w, int k, e) \<and> k \<le> length p \<and> (k < length p \<longrightarrow> e \<noteq> None)
    \<and> wt_puts b (take k p) (m + length p - k) (b\<lparr>wt_wr := w, wt_err := e\<rparr>)"
proof -
  have r: "room (wt_wr b) (m + length p)" using assms(1,2) by (simp add: wt_wf_def)
  then obtain w k e where w: "wr (wt_wr b) p = Inr (w, int k, e)" "k \<le> length p" "k < length p \<longrightarrow> e \<noteq> None"
    "sent w = sent (wt_wr b) @ take k p" "room w (m + length p - k)" using takes [OF r, of p] by auto
  have "fails x" if "e = Some x" for x
    using failsI [OF r, of p w k x] w(1) that by simp
  then have "wt_puts b (take k p) (m + length p - k) (b\<lparr>wt_wr := w, wt_err := e\<rparr>)"
    using assms w(4,5) by (auto simp: wt_puts_def wt_wf_def written_def pending_def)
  then show ?thesis using w(1-3) by blast
qed

text \<open>The loop of \<open>Write\<close> leaves a rest that fits into the buffer, unless there was an error.\<close>

lemma write_loop_puts:
  assumes "wt_wf room (m + length p) b" "nn + length p < 2 ^ 63"
  shows "\<exists>b' k. wt_write_loop wr b p (int nn) = Some (Inr (b', drop k p, int (nn + k))) \<and> k \<le> length p
    \<and> wt_puts b (take k p) (m + length p - k) b' \<and> (wt_err b' = None \<longrightarrow> length p - k \<le> length (wt_buf b') - length (pending b'))"
  using assms
proof (induction "length p + (if wt_n b = 0 then 0 else 1)" arbitrary: b p nn rule: less_induct)
  case less
  obtain j where b: "wt_n b = int j" "j \<le> length (wt_buf b)" "length (pending b) = j"
    "wt_Available b = int (length (wt_buf b) - j)" "wt_Buffered b = int j" "0 < length (wt_buf b)"
    using wt_wfE [OF less.prems(1)] by metis
  show ?case
  proof (cases "int (length p) > wt_Available b \<and> wt_err b = None")
    case False
    then have "wt_write_loop wr b p (int nn) = Some (Inr (b, p, int nn))" by (subst wt_write_loop.simps) (simp only: False if_False)
    then show ?thesis using False wt_puts_refl [OF less.prems(1)] b(3,4) by (intro exI [of _ b] exI [of _ 0]) auto
  next
    case True
    have "\<exists>b1 k. (if wt_Buffered b = 0 then go_bind (wr (wt_wr b) p) (\<lambda>(w, n, err). Inr (b\<lparr>wt_wr := w, wt_err := err\<rparr>, n))
        else go_bind (wt_copy b p) (\<lambda>(b, n). go_bind (wt_Flush wr b) (\<lambda>(b, _). Inr (b, int n)))) = Inr (b1, int k)
      \<and> k \<le> length p \<and> wt_puts b (take k p) (m + length p - k) b1
      \<and> (wt_err b1 = None \<longrightarrow> length (drop k p) + (if wt_n b1 = 0 then 0 else 1) < length p + (if wt_n b = 0 then 0 else 1))"
    proof (cases "j = 0")
      case j: True
      obtain w k e where w: "wr (wt_wr b) p = Inr (w, int k, e)" "k \<le> length p" "k < length p \<longrightarrow> e \<noteq> None"
        "wt_puts b (take k p) (m + length p - k) (b\<lparr>wt_wr := w, wt_err := e\<rparr>)"
        using direct_puts [OF less.prems(1)] b(1) j True by auto
      have "p \<noteq> []" using True b(4) by auto
      then show ?thesis using w j b(1,5)
        by (intro exI [of _ "b\<lparr>wt_wr := w, wt_err := e\<rparr>"] exI [of _ k]) auto
    next
      case j: False
      define k where "k = min (length (wt_buf b) - length (pending b)) (length p)"
      have kp: "k \<le> length p" by (simp add: k_def)
      then have "wt_wf room (m + length p - k + k) b" using less.prems(1) by simp
      from copy_puts [OF this k_def]
      obtain b1 where b1: "wt_copy b p = Inr (b1, k)" "wt_puts b (take k p) (m + length p - k) b1" by blast
      then obtain b2 where b2: "wt_Flush wr b1 = Inr (b2, wt_err b2)" "wt_puts b1 [] (m + length p - k) b2" "wt_err b2 = None \<longrightarrow> wt_n b2 = 0"
        using Flush_puts [of "m + length p - k" b1] by (auto simp: wt_puts_def)
      show ?thesis using b1(1) b2(1,3) wt_puts_trans [OF b1(2) b2(2)] kp j b(1,5)
        by (intro exI [of _ b2] exI [of _ k]) auto
    qed
    then obtain b1 k where b1: "(if wt_Buffered b = 0 then go_bind (wr (wt_wr b) p) (\<lambda>(w, n, err). Inr (b\<lparr>wt_wr := w, wt_err := err\<rparr>, n))
        else go_bind (wt_copy b p) (\<lambda>(b, n). go_bind (wt_Flush wr b) (\<lambda>(b, _). Inr (b, int n)))) = Inr (b1, int k)"
      "k \<le> length p" "wt_puts b (take k p) (m + length p - k) b1"
      "wt_err b1 = None \<longrightarrow> length (drop k p) + (if wt_n b1 = 0 then 0 else 1) < length p + (if wt_n b = 0 then 0 else 1)"
      by (elim exE conjE) (rule that)
    have w: "wrap64 (int nn + int k) = int (nn + k)" using less.prems(2) b1(2) by (subst wrap64_id) auto
    have step: "wt_write_loop wr b p (int nn) = wt_write_loop wr b1 (drop k p) (int (nn + k))"
      using True b1(1,2) w by (subst wt_write_loop.simps) (simp del: of_nat_add)
    show ?thesis
    proof (cases "wt_err b1 = None")
      case False
      then have "wt_write_loop wr b1 (drop k p) (int (nn + k)) = Some (Inr (b1, drop k p, int (nn + k)))"
        by (subst wt_write_loop.simps) (simp only: False simp_thms if_False)
      then show ?thesis using step b1(2,3) False by (intro exI [of _ b1] exI [of _ k]) auto
    next
      case ok: True
      have wf: "wt_wf room (m + length (drop k p)) b1" using b1(2,3) by (simp add: wt_puts_def)
      have lt: "nn + k + length (drop k p) < 2 ^ 63" using less.prems(2) b1(2) by simp
      from less.hyps [OF b1(4) [rule_format, OF ok] wf lt]
      obtain b2 k2 where b2: "wt_write_loop wr b1 (drop k p) (int (nn + k)) = Some (Inr (b2, drop k2 (drop k p), int (nn + k + k2)))"
        "k2 \<le> length (drop k p)" "wt_puts b1 (take k2 (drop k p)) (m + length (drop k p) - k2) b2"
        "wt_err b2 = None \<longrightarrow> length (drop k p) - k2 \<le> length (wt_buf b2) - length (pending b2)"
        by (elim exE conjE) (rule that)
      have "wt_puts b (take (k + k2) p) (m + length p - (k + k2)) b2"
        using wt_puts_trans [OF b1(3) b2(3)] b1(2) b2(2) by (simp add: take_add)
      then show ?thesis using step b2 b1(2) by (intro exI [of _ b2] exI [of _ "k + k2"]) (simp add: add.assoc add.commute)
    qed
  qed
qed

lemma writestring_loop_puts:
  assumes "wt_wf room (m + length p) b" "nn + length p < 2 ^ 63"
  shows "\<exists>b' k. wt_writestring_loop wr b p (int nn) = Some (Inr (b', drop k p, int (nn + k))) \<and> k \<le> length p
    \<and> wt_puts b (take k p) (m + length p - k) b' \<and> (wt_err b' = None \<longrightarrow> length p - k \<le> length (wt_buf b') - length (pending b'))"
  using assms
proof (induction "length p + (if wt_n b = 0 then 0 else 1)" arbitrary: b p nn rule: less_induct)
  case less
  obtain j where b: "wt_n b = int j" "j \<le> length (wt_buf b)" "length (pending b) = j"
    "wt_Available b = int (length (wt_buf b) - j)" "0 < length (wt_buf b)"
    using wt_wfE [OF less.prems(1)] by metis
  show ?case
  proof (cases "int (length p) > wt_Available b \<and> wt_err b = None")
    case False
    then have "wt_writestring_loop wr b p (int nn) = Some (Inr (b, p, int nn))" by (subst wt_writestring_loop.simps) (simp only: False if_False)
    then show ?thesis using False wt_puts_refl [OF less.prems(1)] b(3,4) by (intro exI [of _ b] exI [of _ 0]) auto
  next
    case True
    define k where "k = min (length (wt_buf b) - length (pending b)) (length p)"
    have kp: "k \<le> length p" by (simp add: k_def)
    then have "wt_wf room (m + length p - k + k) b" using less.prems(1) by simp
    from copy_puts [OF this k_def]
    obtain b0 where b0: "wt_copy b p = Inr (b0, k)" "wt_puts b (take k p) (m + length p - k) b0" by blast
    then obtain b1 where b1: "wt_Flush wr b0 = Inr (b1, wt_err b1)" "wt_puts b0 [] (m + length p - k) b1" "wt_err b1 = None \<longrightarrow> wt_n b1 = 0"
      using Flush_puts [of "m + length p - k" b0] by (auto simp: wt_puts_def)
    have p1: "wt_puts b (take k p) (m + length p - k) b1" using wt_puts_trans [OF b0(2) b1(2)] by simp
    have w: "wrap64 (int nn + int k) = int (nn + k)" using less.prems(2) kp by (subst wrap64_id) auto
    have step: "wt_writestring_loop wr b p (int nn) = wt_writestring_loop wr b1 (drop k p) (int (nn + k))"
      using True b0(1) b1(1) w by (subst wt_writestring_loop.simps) (simp del: of_nat_add)
    show ?thesis
    proof (cases "wt_err b1 = None")
      case False
      then have "wt_writestring_loop wr b1 (drop k p) (int (nn + k)) = Some (Inr (b1, drop k p, int (nn + k)))"
        by (subst wt_writestring_loop.simps) (simp only: False simp_thms if_False)
      then show ?thesis using step kp p1 False by (intro exI [of _ b1] exI [of _ k]) auto
    next
      case ok: True
      have wf: "wt_wf room (m + length (drop k p)) b1" using kp p1 by (simp add: wt_puts_def)
      have lt: "nn + k + length (drop k p) < 2 ^ 63" using less.prems(2) kp by simp
      have "k = 0 \<longrightarrow> wt_n b \<noteq> 0" using b True by (auto simp: k_def)
      then have "length (drop k p) + (if wt_n b1 = 0 then 0 else 1) < length p + (if wt_n b = 0 then 0 else 1)"
        using b1(3) ok kp by auto
      from less.hyps [OF this wf lt]
      obtain b2 k2 where b2: "wt_writestring_loop wr b1 (drop k p) (int (nn + k)) = Some (Inr (b2, drop k2 (drop k p), int (nn + k + k2)))"
        "k2 \<le> length (drop k p)" "wt_puts b1 (take k2 (drop k p)) (m + length (drop k p) - k2) b2"
        "wt_err b2 = None \<longrightarrow> length (drop k p) - k2 \<le> length (wt_buf b2) - length (pending b2)"
        by (elim exE conjE) (rule that)
      have "wt_puts b (take (k + k2) p) (m + length p - (k + k2)) b2"
        using wt_puts_trans [OF p1 b2(3)] kp b2(2) by (simp add: take_add)
      then show ?thesis using step b2 kp by (intro exI [of _ b2] exI [of _ "k + k2"]) (simp add: add.assoc add.commute)
    qed
  qed
qed

text \<open>The end of \<open>Write\<close> and \<open>WriteString\<close>.\<close>

lemma rest_puts:
  assumes "wt_wf room (m + length p) b" "wt_err b = None \<longrightarrow> length p \<le> length (wt_buf b) - length (pending b)"
    "nn + length p < 2 ^ 63"
  shows "\<exists>b' k. wt_rest b p (int nn) = Inr (b', int (nn + k), wt_err b') \<and> k \<le> length p \<and> wt_puts b (take k p) (m + length p - k) b'
    \<and> (wt_err b' = None \<longrightarrow> k = length p)"
proof (cases "wt_err b")
  case None
  have "length p = min (length (wt_buf b) - length (pending b)) (length p)" using assms(2) None by simp
  from copy_puts [OF assms(1) this]
  obtain b' where b': "wt_copy b p = Inr (b', length p)" "wt_puts b p m b'" "wt_err b' = None" using None by auto
  have "wrap64 (int nn + int (length p)) = int (nn + length p)" using assms(3) by (subst wrap64_id) auto
  then show ?thesis using None b' by (intro exI [of _ b'] exI [of _ "length p"]) (simp add: wt_rest_def)
next
  case (Some e)
  then show ?thesis using wt_puts_refl [OF assms(1)] by (intro exI [of _ b] exI [of _ 0]) (simp add: wt_rest_def)
qed

lemma rest_after:
  assumes "k \<le> length p" "wt_puts b (take k p) (m + length p - k) b1" "wt_err b1 = None \<longrightarrow> length p - k \<le> length (wt_buf b1) - length (pending b1)"
    "length p < 2 ^ 63"
  shows "\<exists>b' k'. wt_rest b1 (drop k p) (int k) = Inr (b', int k', wt_err b') \<and> k' \<le> length p \<and> wt_puts b (take k' p) (m + length p - k') b'
    \<and> (wt_err b' = None \<longrightarrow> k' = length p)"
proof -
  have "wt_wf room (m + length (drop k p)) b1" "k + length (drop k p) < 2 ^ 63"
    "wt_err b1 = None \<longrightarrow> length (drop k p) \<le> length (wt_buf b1) - length (pending b1)"
    using assms by (simp_all add: wt_puts_def)
  from rest_puts [OF this(1,3,2)]
  obtain b' k2 where b': "wt_rest b1 (drop k p) (int k) = Inr (b', int (k + k2), wt_err b')" "k2 \<le> length (drop k p)"
    "wt_puts b1 (take k2 (drop k p)) (m + length (drop k p) - k2) b'" "wt_err b' = None \<longrightarrow> k2 = length (drop k p)" by (elim exE conjE) (rule that)
  have "wt_puts b (take (k + k2) p) (m + length p - (k + k2)) b'"
    using wt_puts_trans [OF assms(2) b'(3)] assms(1) b'(2) by (simp add: take_add)
  then show ?thesis using b' assms(1) by (intro exI [of _ b'] exI [of _ "k + k2"]) auto
qed

lemma Write_puts:
  assumes "wt_wf room (m + length p) b" "length p < 2 ^ 63"
  shows "\<exists>b' k. wt_Write wr b p = Some (Inr (b', int k, wt_err b')) \<and> k \<le> length p \<and> wt_puts b (take k p) (m + length p - k) b'
    \<and> (wt_err b' = None \<longrightarrow> k = length p)"
proof -
  obtain b1 k where l: "wt_write_loop wr b p (int 0) = Some (Inr (b1, drop k p, int (0 + k)))" "k \<le> length p"
    "wt_puts b (take k p) (m + length p - k) b1" "wt_err b1 = None \<longrightarrow> length p - k \<le> length (wt_buf b1) - length (pending b1)"
    using write_loop_puts [OF assms(1), of 0] assms(2) by auto
  show ?thesis using rest_after [OF l(2-4) assms(2)] l(1) by (auto simp: wt_Write_def)
qed

lemma WriteString_puts:
  assumes "wt_wf room (m + length p) b" "length p < 2 ^ 63"
  shows "\<exists>b' k. wt_WriteString wr b p = Some (Inr (b', int k, wt_err b')) \<and> k \<le> length p \<and> wt_puts b (take k p) (m + length p - k) b'
    \<and> (wt_err b' = None \<longrightarrow> k = length p)"
proof -
  obtain b1 k where l: "wt_writestring_loop wr b p (int 0) = Some (Inr (b1, drop k p, int (0 + k)))" "k \<le> length p"
    "wt_puts b (take k p) (m + length p - k) b1" "wt_err b1 = None \<longrightarrow> length p - k \<le> length (wt_buf b1) - length (pending b1)"
    using writestring_loop_puts [OF assms(1), of 0] assms(2) by auto
  show ?thesis using rest_after [OF l(2-4) assms(2)] l(1) by (auto simp: wt_WriteString_def)
qed

text \<open>Bytes stored directly into the space of the buffer.\<close>

lemma store_puts:
  assumes "wt_wf room (m + length p) b" "length p \<le> length (wt_buf b) - length (pending b)" "wt_n b = int j"
  shows "wt_puts b p m (b\<lparr>wt_buf := take j (wt_buf b) @ p @ drop (length p) (drop j (wt_buf b)), wt_n := int j + int (length p)\<rparr>)"
proof -
  have k: "length p = min (length (wt_buf b) - length (pending b)) (length p)" using assms(2) by simp
  have j: "j \<le> length (wt_buf b)" "pending b = take j (wt_buf b)" using assms(1,3) by (auto simp: wt_wf_def pending_def)
  have m: "min (length (wt_buf b) - j) (length p) = length p" using assms(2) j by simp
  obtain b' where "wt_copy b p = Inr (b', length p)" "wt_puts b p m b'" using copy_puts [OF assms(1) k] by auto
  moreover have "wt_copy b p = Inr (b\<lparr>wt_buf := take j (wt_buf b) @ p @ drop (length p) (drop j (wt_buf b)), wt_n := int j + int (length p)\<rparr>, length p)"
    using assms(3) j(1) m by (simp add: wt_copy_def Let_def)
  ultimately show ?thesis by simp
qed

lemma WriteByte_puts:
  assumes "wt_wf room (Suc m) b"
  shows "\<exists>b' k. wt_WriteByte wr b c = Inr (b', wt_err b') \<and> k \<le> 1 \<and> wt_puts b (take k [c]) (Suc m - k) b' \<and> (wt_err b' = None \<longleftrightarrow> k = 1)"
proof (cases "wt_err b")
  case (Some e)
  then show ?thesis using wt_puts_refl [OF assms] by (intro exI [of _ b] exI [of _ 0]) (simp add: wt_WriteByte_def)
next
  case None
  have "\<exists>b1. (if wt_Available b \<le> 0 then wt_Flush wr b else Inr (b, None)) = Inr (b1, wt_err b1) \<and> wt_puts b [] (Suc m) b1
    \<and> (wt_err b1 = None \<longrightarrow> wt_n b1 < int (length (wt_buf b1)))"
  proof (cases "wt_Available b \<le> 0")
    case True
    obtain b1 where b1: "wt_Flush wr b = Inr (b1, wt_err b1)" "wt_puts b [] (Suc m) b1" "wt_err b1 = None \<longrightarrow> wt_n b1 = 0"
      using Flush_puts [OF assms] by (elim exE conjE) (rule that)
    then have "wt_err b1 = None \<longrightarrow> wt_n b1 < int (length (wt_buf b1))" by (auto simp: wt_puts_def wt_wf_def)
    then show ?thesis using b1 True by (intro exI [of _ b1]) simp
  next
    case False
    then show ?thesis using None wt_puts_refl [OF assms] by (intro exI [of _ b]) (simp add: wt_Available_def)
  qed
  then obtain b1 where b1: "(if wt_Available b \<le> 0 then wt_Flush wr b else Inr (b, None)) = Inr (b1, wt_err b1)" "wt_puts b [] (Suc m) b1"
    "wt_err b1 = None \<longrightarrow> wt_n b1 < int (length (wt_buf b1))" by (elim exE conjE) (rule that)
  show ?thesis
  proof (cases "wt_err b1")
    case (Some e)
    then have "wt_WriteByte wr b c = Inr (b1, wt_err b1)" using None b1(1) by (simp add: wt_WriteByte_def)
    then show ?thesis using b1(2) Some by (intro exI [of _ b1] exI [of _ 0]) simp
  next
    case ok: None
    have wf: "wt_wf room (m + length [c]) b1" using b1(2) by (simp add: wt_puts_def)
    obtain j where j0: "wt_n b1 = int j" "length (pending b1) = j" using wt_wfE [OF wf] by metis
    then have j: "wt_n b1 = int j" "j < length (wt_buf b1)" "length (pending b1) = j" using b1(3) ok by simp_all
    let ?b = "b1\<lparr>wt_buf := (wt_buf b1)[j := c], wt_n := int j + 1\<rparr>"
    have "wt_WriteByte wr b c = Inr (?b, None)" using None b1(1) ok j by (simp add: wt_WriteByte_def)
    moreover have "(wt_buf b1)[j := c] = take j (wt_buf b1) @ [c] @ drop (length [c]) (drop j (wt_buf b1))"
      using j(2) by (simp add: upd_conv_take_nth_drop)
    then have "wt_puts b1 [c] m ?b" using store_puts [OF wf _ j(1)] j by simp
    then have "wt_puts b [c] m ?b" using wt_puts_trans [OF b1(2)] by fastforce
    ultimately show ?thesis using ok by (intro exI [of _ ?b] exI [of _ 1]) simp
  qed
qed

lemma WriteRune_puts:
  assumes "wt_wf room (m + length (written_rune r)) b"
  shows "\<exists>b' k. wt_WriteRune wr b r = Some (Inr (b', int k, wt_err b')) \<and> k \<le> length (written_rune r)
    \<and> wt_puts b (take k (written_rune r)) (m + length (written_rune r) - k) b' \<and> (wt_err b' = None \<longrightarrow> k = length (written_rune r))"
proof (cases "r <s ucast RuneSelf")
  case True
  then have w: "written_rune r = [ucast r]" using rune_bytes_ascii [of r] by (simp add: written_rune_def)
  then obtain b' k where "wt_WriteByte wr b (ucast r) = Inr (b', wt_err b')" "k \<le> 1" "wt_puts b (take k [ucast r]) (Suc m - k) b'"
    "wt_err b' = None \<longleftrightarrow> k = 1" using WriteByte_puts [of m b "ucast r"] assms by auto
  then show ?thesis using True w
    by (intro exI [of _ b'] exI [of _ k]) (cases "wt_err b' = None"; simp add: wt_WriteRune_def)
next
  case False
  have "sint (ucast RuneSelf :: rune) = 128" by simp
  then have w: "written_rune r = rune_bytes r" using False by (simp add: written_rune_def sless_view)
  let ?m = "m + length (written_rune r)"
  have l4: "length (rune_bytes r) \<le> 4" by (rule length_rune_bytes_le)
  show ?thesis
  proof (cases "wt_err b")
    case (Some e)
    then show ?thesis using False wt_puts_refl [OF assms] by (intro exI [of _ b] exI [of _ 0]) (simp add: wt_WriteRune_def)
  next
    case None
    obtain b1 where b1: "(if wt_Available b < int UTFMax then go_bind (wt_Flush wr b) (\<lambda>(b, _). Inr b) else Inr b) = Inr b1" "wt_puts b [] ?m b1"
    proof (cases "wt_Available b < int UTFMax")
      case True
      obtain b1 where b1: "wt_Flush wr b = Inr (b1, wt_err b1)" "wt_puts b [] ?m b1" using Flush_puts [OF assms] by blast
      then show ?thesis using that [of b1] True by simp
    qed (use that [of b] wt_puts_refl [OF assms] in simp)
    have wf: "wt_wf room ?m b1" using b1(2) by (simp add: wt_puts_def)
    show ?thesis
    proof (cases "wt_err b1")
      case (Some e)
      then have "wt_WriteRune wr b r = Some (Inr (b1, 0, wt_err b1))" using False None b1(1) by (simp add: wt_WriteRune_def)
      then show ?thesis using b1(2) Some by (intro exI [of _ b1] exI [of _ 0]) simp
    next
      case ok: None
      show ?thesis
      proof (cases "wt_Available b1 < int UTFMax")
        case True
        then have "wt_WriteRune wr b r = wt_WriteString wr b1 (rune_bytes r)" using False None b1(1) ok by (simp add: wt_WriteRune_def)
        moreover have "length (rune_bytes r) < 2 ^ 63" using l4 by simp
        from WriteString_puts [OF _ this] wf w
        obtain b' k where b': "wt_WriteString wr b1 (rune_bytes r) = Some (Inr (b', int k, wt_err b'))" "k \<le> length (rune_bytes r)"
          "wt_puts b1 (take k (rune_bytes r)) (m + length (rune_bytes r) - k) b'" "wt_err b' = None \<longrightarrow> k = length (rune_bytes r)"
          by metis
        ultimately show ?thesis using wt_puts_trans [OF b1(2) b'(3)] w by (intro exI [of _ b'] exI [of _ k]) simp
      next
        case room: False
        obtain j where j: "wt_n b1 = int j" "j \<le> length (wt_buf b1)" "length (pending b1) = j"
          "wt_Available b1 = int (length (wt_buf b1) - j)" using wt_wfE [OF wf] by metis
        let ?s = "drop j (wt_buf b1)" and ?u = "rune_bytes r"
        let ?b = "b1\<lparr>wt_buf := take j (wt_buf b1) @ ?u @ drop (length ?u) ?s, wt_n := int j + int (length ?u)\<rparr>"
        have s4: "4 \<le> length ?s" using room j(4) by simp
        then have "wt_WriteRune wr b r = Some (Inr (?b, int (length ?u), None))"
          using False None b1(1) ok room j(1,2) EncodeRune_spec [OF s4, of r] by (simp add: wt_WriteRune_def)
        moreover have "length ?u \<le> length (wt_buf b1) - length (pending b1)" using l4 s4 j(3) by simp
        with wf w have "wt_puts b1 ?u m ?b" using store_puts [of m ?u b1 j] j(1) by simp
        then have "wt_puts b ?u m ?b" using wt_puts_trans [OF b1(2)] by fastforce
        ultimately show ?thesis using w ok by (intro exI [of _ ?b] exI [of _ "length ?u"]) simp
      qed
    qed
  qed
qed

end

end
