(* ===== verification/BufioReaderLaws.thy ===== *)
theory BufioReaderLaws
  imports BufioReader IoLaws BufferQueue
begin

text \<open>
  What the buffered reader does with any reader that keeps the letter of \<open>io.Reader\<close>: the state stays well
  formed, no method panics, and the bytes handed out are, in order, those that were read.
\<close>

section \<open>Readers\<close>

locale honest_reader =
  fixes rd :: "'r reader" and ok :: "'r \<Rightarrow> bool"
  assumes honest: "ok r \<Longrightarrow> \<exists>r' p' n e. rd r p = Inr (r', p', int n, e) \<and> ok r' \<and> length p' = length p \<and> n \<le> length p"

text \<open>
  The bytes read from the underlying reader, with the reader and the pending error before and after.
\<close>

inductive pulls :: "'r reader \<Rightarrow> 'r \<times> io_error option \<Rightarrow> bytes \<Rightarrow> 'r \<times> io_error option \<Rightarrow> bool" for rd where
  refl: "pulls rd s [] s"
| clear: "pulls rd s xs (r, e) \<Longrightarrow> pulls rd s xs (r, None)"
| read: "pulls rd s xs (r, e) \<Longrightarrow> rd r p = Inr (r', p', int n, e') \<Longrightarrow> p \<noteq> [] \<Longrightarrow>
    pulls rd s (xs @ take n p') (r', if e' = None then e else e')"
| none: "pulls rd s xs (r, e) \<Longrightarrow> rd r p = Inr (r', p', 0, None) \<Longrightarrow> p \<noteq> [] \<Longrightarrow> pulls rd s xs (r', Some ErrNoProgress)"

lemma pulls_trans: "pulls rd b ys c \<Longrightarrow> pulls rd a xs b \<Longrightarrow> pulls rd a (xs @ ys) c"
proof (induction ys c rule: pulls.induct)
  case (read s xs r e p r' p' n e')
  then show ?case using pulls.read [of rd a "_ @ xs" r e p r' p' n e'] by simp
qed (auto intro: pulls.intros)

section \<open>The state\<close>

definition rd_unread :: "'r bufReader \<Rightarrow> bytes" where
  "rd_unread b = seg (nat (rd_r b)) (nat (rd_w b)) (rd_buf b)"

definition rd_wf :: "('r \<Rightarrow> bool) \<Rightarrow> 'r bufReader \<Rightarrow> bool" where
  "rd_wf ok b \<longleftrightarrow> 0 \<le> rd_r b \<and> rd_r b \<le> rd_w b \<and> rd_w b \<le> int (length (rd_buf b))
     \<and> minReadBufferSize \<le> int (length (rd_buf b)) \<and> int (length (rd_buf b)) < 2 ^ 62 \<and> ok (rd_rd b)"

text \<open>The marks of the last byte and rune play no role in it, nor does the pending error.\<close>

lemma rd_wf_marks [simp]:
  "rd_wf ok (b\<lparr>rd_lastByte := x\<rparr>) = rd_wf ok b" "rd_wf ok (b\<lparr>rd_lastRuneSize := y\<rparr>) = rd_wf ok b"
  "rd_wf ok (b\<lparr>rd_err := e\<rparr>) = rd_wf ok b"
  "rd_unread (b\<lparr>rd_lastByte := x\<rparr>) = rd_unread b" "rd_unread (b\<lparr>rd_lastRuneSize := y\<rparr>) = rd_unread b" "rd_unread (b\<lparr>rd_err := e\<rparr>) = rd_unread b"
  by (simp_all add: rd_wf_def rd_unread_def)

lemma rd_wfE:
  assumes "rd_wf ok b"
  obtains i j where "rd_r b = int i" "rd_w b = int j" "i \<le> j" "j \<le> length (rd_buf b)" "rd_unread b = seg i j (rd_buf b)"
    "length (rd_unread b) = j - i" "rd_Buffered b = int (length (rd_unread b))" "16 \<le> length (rd_buf b)" "length (rd_buf b) < 2 ^ 62"
    "ok (rd_rd b)"
proof -
  have *: "rd_r b = int (nat (rd_r b))" "rd_w b = int (nat (rd_w b))" "nat (rd_r b) \<le> nat (rd_w b)" "nat (rd_w b) \<le> length (rd_buf b)"
    "16 \<le> length (rd_buf b)" "length (rd_buf b) < 2 ^ 62" "ok (rd_rd b)"
    using assms unfolding rd_wf_def minReadBufferSize_def by auto
  have "length (rd_unread b) = nat (rd_w b) - nat (rd_r b)" using *(4) by (simp add: rd_unread_def)
  moreover have "rd_Buffered b = int (nat (rd_w b) - nat (rd_r b))" using *(1-3) unfolding rd_Buffered_def by simp
  ultimately show ?thesis using that [of "nat (rd_r b)" "nat (rd_w b)"] * by (simp add: rd_unread_def)
qed

text \<open>A step of the reader from \<open>b\<close> to \<open>b'\<close> that read \<open>xs\<close> from below.\<close>

definition gets :: "'r reader \<Rightarrow> ('r \<Rightarrow> bool) \<Rightarrow> 'r bufReader \<Rightarrow> bytes \<Rightarrow> 'r bufReader \<Rightarrow> bool" where
  "gets rd ok b xs b' \<longleftrightarrow> rd_wf ok b' \<and> length (rd_buf b') = length (rd_buf b)
     \<and> pulls rd (rd_rd b, rd_err b) xs (rd_rd b', rd_err b')"

lemma gets_refl: "rd_wf ok b \<Longrightarrow> gets rd ok b [] b"
  by (simp add: gets_def pulls.refl)

lemma gets_trans: "gets rd ok a xs b \<Longrightarrow> gets rd ok b ys c \<Longrightarrow> gets rd ok a (xs @ ys) c"
  unfolding gets_def using pulls_trans by fastforce

lemma gets_marks [simp]:
  "gets rd ok (b\<lparr>rd_lastByte := x\<rparr>) xs b' = gets rd ok b xs b'"
  "gets rd ok (b\<lparr>rd_lastRuneSize := y\<rparr>) xs b' = gets rd ok b xs b'"
  "gets rd ok b xs (b'\<lparr>rd_lastByte := x\<rparr>) = gets rd ok b xs b'"
  "gets rd ok b xs (b'\<lparr>rd_lastRuneSize := y\<rparr>) = gets rd ok b xs b'"
  by (simp_all add: gets_def)

lemma gets_clear: "gets rd ok b xs b' \<Longrightarrow> gets rd ok b xs (b'\<lparr>rd_err := None\<rparr>)"
  by (auto simp: gets_def intro: pulls.clear)

text \<open>Consuming what is buffered.\<close>

lemma gets_consume:
  assumes "gets rd ok b xs b'" "n \<le> length (rd_unread b')"
  shows "gets rd ok b xs (b'\<lparr>rd_r := rd_r b' + int n\<rparr>)" "rd_unread (b'\<lparr>rd_r := rd_r b' + int n\<rparr>) = drop n (rd_unread b')"
proof -
  have wf: "rd_wf ok b'" using assms(1) by (simp add: gets_def)
  obtain i j where b': "rd_r b' = int i" "rd_w b' = int j" "i \<le> j" "j \<le> length (rd_buf b')" "rd_unread b' = seg i j (rd_buf b')"
    "length (rd_unread b') = j - i" using rd_wfE [OF wf] by metis
  then show "rd_unread (b'\<lparr>rd_r := rd_r b' + int n\<rparr>) = drop n (rd_unread b')"
    by (simp add: rd_unread_def seg_def drop_take nat_int_add add.commute)
  have "rd_wf ok (b'\<lparr>rd_r := rd_r b' + int n\<rparr>)" using wf b' assms(2) unfolding rd_wf_def by simp
  then show "gets rd ok b xs (b'\<lparr>rd_r := rd_r b' + int n\<rparr>)" using assms(1) by (simp add: gets_def)
qed

lemma rd_unread_slice:
  assumes "rd_wf ok b"
  shows "go_sub (rd_buf b) (rd_r b) (rd_w b) = Inr (rd_unread b)"
proof -
  obtain i j where b: "rd_r b = int i" "rd_w b = int j" "i \<le> j" "j \<le> length (rd_buf b)" "rd_unread b = seg i j (rd_buf b)"
    using rd_wfE [OF assms] by metis
  then show ?thesis by simp
qed

lemma rd_unread_take:
  assumes "rd_wf ok b" "n \<le> length (rd_unread b)"
  shows "go_sub (rd_buf b) (rd_r b) (rd_r b + int n) = Inr (take n (rd_unread b))"
proof -
  obtain i j where b: "rd_r b = int i" "i \<le> j" "j \<le> length (rd_buf b)" "rd_unread b = seg i j (rd_buf b)"
    "length (rd_unread b) = j - i" using rd_wfE [OF assms(1)] by metis
  then have "go_sub (rd_buf b) (int i) (int (i + n)) = Inr (seg i (i + n) (rd_buf b))" using assms(2) by (intro go_sub_ok) auto
  moreover have "seg i (i + n) (rd_buf b) = take n (rd_unread b)" using b(4,5) assms(2) by (simp add: seg_def min_def)
  ultimately show ?thesis using b(1) by simp
qed

lemma rd_unread_len: "rd_wf ok b \<Longrightarrow> rd_w b - rd_r b = int (length (rd_unread b))" "rd_wf ok b \<Longrightarrow> length (rd_unread b) \<le> length (rd_buf b)"
  "rd_wf ok b \<Longrightarrow> rd_r b = rd_w b \<longleftrightarrow> rd_unread b = []"
proof -
  assume wf: "rd_wf ok b"
  obtain i j where b: "rd_r b = int i" "rd_w b = int j" "i \<le> j" "j \<le> length (rd_buf b)" "length (rd_unread b) = j - i"
    using rd_wfE [OF wf] by metis
  then show "rd_w b - rd_r b = int (length (rd_unread b))" "length (rd_unread b) \<le> length (rd_buf b)" by (simp_all add: of_nat_diff)
  show "rd_r b = rd_w b \<longleftrightarrow> rd_unread b = []" using b by (metis length_0_conv diff_is_0_eq of_nat_eq_iff le_antisym order_refl)
qed

text \<open>The mark of the last byte.\<close>

definition marks :: "'r bufReader \<Rightarrow> byte \<Rightarrow> bool" where
  "marks b c \<longleftrightarrow> rd_lastByte b = int (unat c) \<and>
     (0 < rd_r b \<and> rd_r b \<le> int (length (rd_buf b)) \<and> rd_buf b ! nat (rd_r b - 1) = c \<or> rd_r b = rd_w b \<and> (0 < rd_r b \<or> rd_w b = 0))"

lemma consumed_byte:
  assumes "rd_wf ok b" "0 < n" "n \<le> length (rd_unread b)"
  shows "go_index (rd_buf b) (rd_r b + int n - 1) = Inr (rd_unread b ! (n - 1))"
    and "rd_r b + int n \<le> int (length (rd_buf b))" "rd_buf b ! nat (rd_r b + int n - 1) = rd_unread b ! (n - 1)"
proof -
  obtain i j where b: "rd_r b = int i" "i \<le> j" "j \<le> length (rd_buf b)" "rd_unread b = seg i j (rd_buf b)"
    "length (rd_unread b) = j - i" using rd_wfE [OF assms(1)] by metis
  have k: "rd_r b + int n - 1 = int (i + (n - 1))" "i + (n - 1) < length (rd_buf b)" using b assms(2,3) by auto
  have at: "rd_buf b ! (i + (n - 1)) = rd_unread b ! (n - 1)" using b assms(2,3) by (simp add: seg_def)
  show "go_index (rd_buf b) (rd_r b + int n - 1) = Inr (rd_unread b ! (n - 1))"
    using k(2) at unfolding k(1) by (simp add: go_index_def nat_int_add)
  show "rd_buf b ! nat (rd_r b + int n - 1) = rd_unread b ! (n - 1)" using at unfolding k(1) by (simp only: nat_int)
  show "rd_r b + int n \<le> int (length (rd_buf b))" using b assms(3) by simp
qed

section \<open>Filling\<close>

context honest_reader
begin

lemma fill_loop_gets:
  assumes "rd_wf ok b" "rd_w b < int (length (rd_buf b))" "0 < i"
  shows "\<exists>b' xs. fill_loop rd i b = Inr b' \<and> gets rd ok b xs b' \<and> rd_unread b' = rd_unread b @ xs
    \<and> (xs \<noteq> [] \<or> rd_err b' \<noteq> None) \<and> rd_lastByte b' = rd_lastByte b \<and> rd_lastRuneSize b' = rd_lastRuneSize b"
  using assms
proof (induction i arbitrary: b)
  case (Suc k)
  obtain i j where b: "rd_r b = int i" "rd_w b = int j" "i \<le> j" "j \<le> length (rd_buf b)" "rd_unread b = seg i j (rd_buf b)"
    "length (rd_buf b) < 2 ^ 62" "ok (rd_rd b)" using rd_wfE [OF Suc.prems(1)] by metis
  let ?p = "drop j (rd_buf b)"
  obtain r' p' n e where r: "rd (rd_rd b) ?p = Inr (r', p', int n, e)" "ok r'" "length p' = length ?p" "n \<le> length ?p"
    using honest [OF b(7)] by blast
  have p: "?p \<noteq> []" using Suc.prems(2) b(2) by simp
  let ?buf = "take j (rd_buf b) @ p'"
  let ?b = "b\<lparr>rd_rd := r', rd_buf := ?buf, rd_w := int (j + n)\<rparr>"
  have jn: "j + n \<le> length (rd_buf b)" using r(4) b(4) by simp
  then have w: "wrap64 (int j + int n) = int (j + n)" using b(6) by (simp add: wrap64_id)
  have len: "length ?buf = length (rd_buf b)" using r(3) b(4) by simp
  have wf: "rd_wf ok ?b" using Suc.prems(1) b r(2) jn len by (simp add: rd_wf_def)
  have un: "rd_unread ?b = rd_unread b @ take n p'"
    using b(1-4) by (simp add: rd_unread_def seg_def nat_int_add drop_take)
  have pull: "pulls rd (rd_rd b, rd_err b) (take n p') (r', if e = None then rd_err b else e)"
    using pulls.read [OF pulls.refl [of rd "(rd_rd b, rd_err b)"] r(1) p] by simp
  have step: "fill_loop rd (Suc k) b = (case e of Some x \<Rightarrow> Inr (?b\<lparr>rd_err := Some x\<rparr>)
      | None \<Rightarrow> if n > 0 then Inr ?b else fill_loop rd k ?b)"
    using r(1) b(2,4) w by (simp add: Let_def split: option.split)
  show ?case
  proof (cases e)
    case (Some x)
    then have "gets rd ok b (take n p') (?b\<lparr>rd_err := Some x\<rparr>)" using wf len pull by (simp add: gets_def)
    then show ?thesis using step Some un by (intro exI [of _ "?b\<lparr>rd_err := Some x\<rparr>"] exI [of _ "take n p'"]) simp
  next
    case None
    then have g: "gets rd ok b (take n p') ?b" using wf len pull by (simp add: gets_def)
    show ?thesis
    proof (cases "n > 0")
      case True
      then have "take n p' \<noteq> []" using r(3) p by auto
      then show ?thesis using True step None un g by (intro exI [of _ ?b] exI [of _ "take n p'"]) simp
    next
      case n: False
      show ?thesis
      proof (cases k)
        case 0
        have "pulls rd (rd_rd b, rd_err b) [] (r', Some ErrNoProgress)"
          using pulls.none [OF pulls.refl [of rd "(rd_rd b, rd_err b)"] _ p] r(1) n None by simp
        then have "gets rd ok b [] (?b\<lparr>rd_err := Some ErrNoProgress\<rparr>)" using wf len by (simp add: gets_def)
        then show ?thesis using step None n 0 un
          by (intro exI [of _ "?b\<lparr>rd_err := Some ErrNoProgress\<rparr>"] exI [of _ "[]"]) simp
      next
        case (Suc k')
        have room: "rd_w ?b < int (length (rd_buf ?b))" using n len Suc.prems(2) b(2) by simp
        obtain b' xs where b': "fill_loop rd k ?b = Inr b'" "gets rd ok ?b xs b'" "rd_unread b' = rd_unread ?b @ xs"
          "xs \<noteq> [] \<or> rd_err b' \<noteq> None" "rd_lastByte b' = rd_lastByte ?b" "rd_lastRuneSize b' = rd_lastRuneSize ?b"
          using Suc.IH [OF wf room] Suc by auto
        then show ?thesis using step None n un gets_trans [OF g b'(2)] by (intro exI [of _ b'] exI [of _ xs]) simp
      qed
    qed
  qed
qed simp

lemma slide_gets:
  assumes "rd_wf ok b"
  shows "\<exists>b'. rd_slide b = Inr b' \<and> gets rd ok b [] b' \<and> rd_unread b' = rd_unread b \<and> rd_w b' = int (length (rd_unread b))
    \<and> rd_err b' = rd_err b \<and> rd_lastByte b' = rd_lastByte b \<and> rd_lastRuneSize b' = rd_lastRuneSize b"
proof -
  obtain i j where b: "rd_r b = int i" "rd_w b = int j" "i \<le> j" "j \<le> length (rd_buf b)" "rd_unread b = seg i j (rd_buf b)"
    "length (rd_unread b) = j - i" using rd_wfE [OF assms] by metis
  show ?thesis
  proof (cases "i = 0")
    case True
    then show ?thesis using assms b gets_refl by (intro exI [of _ b]) (simp add: rd_slide_def)
  next
    case False
    let ?b = "b\<lparr>rd_buf := rd_unread b @ drop (j - i) (rd_buf b), rd_w := int (j - i), rd_r := 0\<rparr>"
    have len: "length (rd_unread b @ drop (j - i) (rd_buf b)) = length (rd_buf b)" using b by simp
    have "rd_slide b = Inr ?b" using False b by (simp add: rd_slide_def of_nat_diff)
    moreover have "gets rd ok b [] ?b" using assms b len by (simp add: gets_def pulls.refl rd_wf_def)
    moreover have "rd_unread ?b = rd_unread b" using b by (simp add: rd_unread_def)
    ultimately show ?thesis using b by (intro exI [of _ ?b]) simp
  qed
qed

lemma fill_gets:
  assumes "rd_wf ok b" "length (rd_unread b) < length (rd_buf b)"
  shows "\<exists>b' xs. rd_fill rd b = Inr b' \<and> gets rd ok b xs b' \<and> rd_unread b' = rd_unread b @ xs
    \<and> (xs \<noteq> [] \<or> rd_err b' \<noteq> None) \<and> rd_lastByte b' = rd_lastByte b \<and> rd_lastRuneSize b' = rd_lastRuneSize b"
proof -
  obtain b1 where b1: "rd_slide b = Inr b1" "gets rd ok b [] b1" "rd_unread b1 = rd_unread b" "rd_w b1 = int (length (rd_unread b))"
    "rd_lastByte b1 = rd_lastByte b" "rd_lastRuneSize b1 = rd_lastRuneSize b" using slide_gets [OF assms(1)] by blast
  have "rd_wf ok b1" "length (rd_buf b1) = length (rd_buf b)" using b1(2) by (simp_all add: gets_def)
  moreover have room: "rd_w b1 < int (length (rd_buf b1))" using b1(4) assms(2) calculation(2) by simp
  ultimately obtain b2 xs where b2: "fill_loop rd maxConsecutiveEmptyReads b1 = Inr b2" "gets rd ok b1 xs b2" "rd_unread b2 = rd_unread b1 @ xs"
    "xs \<noteq> [] \<or> rd_err b2 \<noteq> None" "rd_lastByte b2 = rd_lastByte b1" "rd_lastRuneSize b2 = rd_lastRuneSize b1"
    using fill_loop_gets [of b1 maxConsecutiveEmptyReads] by (auto simp: maxConsecutiveEmptyReads_def)
  have "rd_fill rd b = Inr b2" using b1(1) b2(1) room by (simp add: rd_fill_def)
  then show ?thesis using gets_trans [OF b1(2) b2(2)] b2 b1 by (intro exI [of _ b2] exI [of _ xs]) simp
qed

text \<open>A loop that fills as long as there is room and no error ends.\<close>

lemma fill_while_gets:
  assumes "rd_wf ok b" "\<And>b. rd_wf ok b \<Longrightarrow> c b \<Longrightarrow> rd_err b = None \<and> length (rd_unread b) < length (rd_buf b)"
  shows "\<exists>b' xs. fill_while rd c b = Some (Inr b') \<and> gets rd ok b xs b' \<and> rd_unread b' = rd_unread b @ xs \<and> \<not> c b'
    \<and> rd_lastByte b' = rd_lastByte b \<and> rd_lastRuneSize b' = rd_lastRuneSize b"
  using assms(1)
proof (induction "length (rd_buf b) - length (rd_unread b) + (if rd_err b = None then 1 else 0)" arbitrary: b rule: less_induct)
  case less
  show ?case
  proof (cases "c b")
    case False
    then show ?thesis using less.prems gets_refl by (intro exI [of _ b] exI [of _ "[]"]) (simp add: fill_while.simps)
  next
    case True
    note room = assms(2) [OF less.prems True]
    obtain b1 xs where b1: "rd_fill rd b = Inr b1" "gets rd ok b xs b1" "rd_unread b1 = rd_unread b @ xs" "xs \<noteq> [] \<or> rd_err b1 \<noteq> None"
      "rd_lastByte b1 = rd_lastByte b" "rd_lastRuneSize b1 = rd_lastRuneSize b"
      using fill_gets [OF less.prems] room by blast
    have wf1: "rd_wf ok b1" and len: "length (rd_buf b1) = length (rd_buf b)" using b1(2) by (simp_all add: gets_def)
    have "length (rd_unread b1) \<le> length (rd_buf b1)" using rd_wfE [OF wf1] by (metis diff_le_self le_trans)
    then have "length (rd_buf b1) - length (rd_unread b1) + (if rd_err b1 = None then 1 else 0)
        < length (rd_buf b) - length (rd_unread b) + (if rd_err b = None then 1 else 0)"
      using room b1(3,4) len by (cases "xs = []") (auto simp: neq_Nil_conv)
    then obtain b2 ys where b2: "fill_while rd c b1 = Some (Inr b2)" "gets rd ok b1 ys b2" "rd_unread b2 = rd_unread b1 @ ys" "\<not> c b2"
      "rd_lastByte b2 = rd_lastByte b1" "rd_lastRuneSize b2 = rd_lastRuneSize b1"
      using less.hyps wf1 by blast
    have "fill_while rd c b = fill_while rd c b1" using True b1(1) by (subst fill_while.simps) simp
    then show ?thesis using b2 b1 gets_trans [OF b1(2) b2(2)] by (intro exI [of _ b2] exI [of _ "xs @ ys"]) simp
  qed
qed

section \<open>The methods\<close>

lemma Peek_gets:
  assumes "rd_wf ok b" "0 \<le> n"
  shows "\<exists>b' xs e. rd_Peek rd b n = Some (Inr (b', take (nat n) (rd_unread b'), e)) \<and> gets rd ok b xs b' \<and> rd_unread b' = rd_unread b @ xs
    \<and> (n \<le> int (length (rd_buf b)) \<and> nat n \<le> length (rd_unread b') \<and> e = None
       \<or> n \<le> int (length (rd_buf b)) \<and> length (rd_unread b') < nat n \<and> e \<noteq> None \<and> pulls rd (rd_rd b, rd_err b) xs (rd_rd b', e)
       \<or> n > int (length (rd_buf b)) \<and> e = Some ErrBufferFull \<and> (length (rd_unread b') = length (rd_buf b) \<or> rd_err b' \<noteq> None))"
proof -
  let ?c = "\<lambda>b. rd_w b - rd_r b < n \<and> rd_w b - rd_r b < int (length (rd_buf b)) \<and> rd_err b = None"
  let ?b = "b\<lparr>rd_lastByte := -1, rd_lastRuneSize := -1\<rparr>"
  obtain b1 xs where b1: "fill_while rd ?c ?b = Some (Inr b1)" "gets rd ok ?b xs b1" "rd_unread b1 = rd_unread ?b @ xs" "\<not> ?c b1"
    using fill_while_gets [of ?b ?c] assms(1) by (auto simp: rd_unread_len)
  have wf: "rd_wf ok b1" and len: "length (rd_buf b1) = length (rd_buf b)"
    and g: "gets rd ok b xs b1" and pull: "pulls rd (rd_rd b, rd_err b) xs (rd_rd b1, rd_err b1)"
    using b1(2) by (simp_all add: gets_def)
  note c = b1(4) [unfolded rd_unread_len(1) [OF wf] len]
  show ?thesis
  proof (cases "n > int (length (rd_buf b))")
    case True
    then have "rd_Peek rd b n = Some (Inr (b1, take (nat n) (rd_unread b1), Some ErrBufferFull))"
      using assms(2) b1(1) rd_unread_slice [OF wf] rd_unread_len(2) [OF wf] len by (simp add: rd_Peek_def)
    then show ?thesis using True g b1(3) c rd_unread_len(2) [OF wf] len
      by (intro exI [of _ b1] exI [of _ xs] exI [of _ "Some ErrBufferFull"]) auto
  next
    case False
    show ?thesis
    proof (cases "int (length (rd_unread b1)) < n")
      case True
      then have e: "rd_err b1 \<noteq> None" using c False by auto
      have sl: "go_sub (rd_buf b1) (rd_r b1) (rd_r b1 + int (length (rd_unread b1))) = Inr (rd_unread b1)"
        using rd_unread_take [OF wf, of "length (rd_unread b1)"] by simp
      have "rd_Peek rd b n = Some (Inr (b1\<lparr>rd_err := None\<rparr>, take (nat n) (rd_unread b1), rd_err b1))"
        using assms(2) b1(1) False True e len sl rd_unread_len(1) [OF wf] by (simp add: rd_Peek_def rd_readErr_def)
      then show ?thesis using False True g b1(3) e pull gets_clear [OF g]
        by (intro exI [of _ "b1\<lparr>rd_err := None\<rparr>"] exI [of _ xs] exI [of _ "rd_err b1"]) auto
    next
      case le: False
      then have "nat n \<le> length (rd_unread b1)" by simp
      then have "rd_Peek rd b n = Some (Inr (b1, take (nat n) (rd_unread b1), None))"
        using assms(2) b1(1) False le len rd_unread_take [OF wf, of "nat n"] rd_unread_len(1) [OF wf] by (simp add: rd_Peek_def)
      then show ?thesis using False le g b1(3) by (intro exI [of _ b1] exI [of _ xs] exI [of _ None]) auto
    qed
  qed
qed

lemma discard_loop_gets:
  assumes "rd_wf ok b" "0 < m" "m \<le> n"
  shows "\<exists>b' xs ys e. discard_loop rd (int n) (int m) b = Some (Inr (b', int (n - m + length ys), e)) \<and> gets rd ok b xs b'
    \<and> rd_unread b @ xs = ys @ rd_unread b'
    \<and> (length ys = m \<and> e = None \<or> length ys < m \<and> rd_unread b' = [] \<and> e \<noteq> None \<and> pulls rd (rd_rd b, rd_err b) xs (rd_rd b', e))"
  using assms
proof (induction m arbitrary: b rule: less_induct)
  case (less m)
  have "\<exists>b1 xs. (if rd_Buffered b = 0 then rd_fill rd b else Inr b) = Inr b1 \<and> gets rd ok b xs b1 \<and> rd_unread b1 = rd_unread b @ xs
      \<and> (rd_unread b1 \<noteq> [] \<or> rd_err b1 \<noteq> None)"
  proof (cases "rd_unread b = []")
    case True
    then have "rd_Buffered b = 0" "length (rd_unread b) < length (rd_buf b)" using rd_wfE [OF less.prems(1)] by fastforce+
    then show ?thesis using fill_gets [OF less.prems(1)] True by fastforce
  next
    case False
    then have "rd_Buffered b \<noteq> 0" using rd_wfE [OF less.prems(1)] by fastforce
    then show ?thesis using False gets_refl [OF less.prems(1)] by (intro exI [of _ b] exI [of _ "[]"]) simp
  qed
  then obtain b1 xs where b1: "(if rd_Buffered b = 0 then rd_fill rd b else Inr b) = Inr b1" "gets rd ok b xs b1"
    "rd_unread b1 = rd_unread b @ xs" "rd_unread b1 \<noteq> [] \<or> rd_err b1 \<noteq> None" by blast
  have wf1: "rd_wf ok b1" using b1(2) by (simp add: gets_def)
  define k where "k = min m (length (rd_unread b1))"
  define b2 where "b2 = b1\<lparr>rd_r := rd_r b1 + int k\<rparr>"
  have b2: "gets rd ok b xs b2" "rd_unread b2 = drop k (rd_unread b1)" "rd_err b2 = rd_err b1"
    using gets_consume [OF b1(2), of k] by (simp_all add: b2_def k_def)
  have all: "rd_unread b @ xs = take k (rd_unread b1) @ rd_unread b2"
    by (simp only: b1(3) [symmetric] b2(2) append_take_drop_id)
  have k: "rd_Buffered b1 = int (length (rd_unread b1))" using rd_wfE [OF wf1] by metis
  have step: "discard_loop rd (int n) (int m) b =
      (if k = m then Some (Inr (b2, int n, None))
       else if rd_err b2 \<noteq> None then Some (Inr (b2\<lparr>rd_err := None\<rparr>, int (n - (m - k)), rd_err b2))
       else discard_loop rd (int n) (int (m - k)) b2)"
  proof -
    have sk: "(if int (length (rd_unread b1)) > int m then int m else int (length (rd_unread b1))) = int k" by (simp add: k_def)
    have "int m - int k = int (m - k)" "int n - int (m - k) = int (n - (m - k))" using less.prems(3) by (simp_all add: k_def)
    then show ?thesis
      by (subst discard_loop.simps, simp only: b1(1) sum.case Let_def k sk b2_def [symmetric] rd_readErr_def prod.case)
        (simp add: k_def)
  qed
  show ?case
  proof (cases "k = m")
    case True
    then show ?thesis using step b2(1) all less.prems(3)
      by (intro exI [of _ b2] exI [of _ xs] exI [of _ "take k (rd_unread b1)"] exI [of _ None]) (simp add: k_def)
  next
    case False
    then have km: "k = length (rd_unread b1)" "k < m" by (simp_all add: k_def)
    have pull: "pulls rd (rd_rd b, rd_err b) xs (rd_rd b2, rd_err b2)" using b2(1) by (simp add: gets_def)
    show ?thesis
    proof (cases "rd_err b2 = None")
      case True
      then have "rd_unread b1 \<noteq> []" using b1(4) b2(3) by simp
      then have "m - k < m" using km less.prems(2) by simp
      moreover have "rd_wf ok b2" using b2(1) by (simp add: gets_def)
      ultimately obtain b' zs ys e where b': "discard_loop rd (int n) (int (m - k)) b2 = Some (Inr (b', int (n - (m - k) + length ys), e))"
        "gets rd ok b2 zs b'" "rd_unread b2 @ zs = ys @ rd_unread b'"
        "length ys = m - k \<and> e = None \<or> length ys < m - k \<and> rd_unread b' = [] \<and> e \<noteq> None \<and> pulls rd (rd_rd b2, rd_err b2) zs (rd_rd b', e)"
        using less.IH [of "m - k" b2] km less.prems(3) by fastforce
      have "discard_loop rd (int n) (int m) b = Some (Inr (b', int (n - m + length (take k (rd_unread b1) @ ys)), e))"
        using step False True b'(1) km less.prems(3) by simp
      moreover have "rd_unread b @ xs @ zs = (take k (rd_unread b1) @ ys) @ rd_unread b'" using all b'(3) by (metis append.assoc)
      moreover have "pulls rd (rd_rd b, rd_err b) (xs @ zs) (rd_rd b', e)" if "pulls rd (rd_rd b2, rd_err b2) zs (rd_rd b', e)"
        using pulls_trans [OF that pull] .
      ultimately show ?thesis using gets_trans [OF b2(1) b'(2)] b'(4) km
        by (intro exI [of _ b'] exI [of _ "xs @ zs"] exI [of _ "take k (rd_unread b1) @ ys"] exI [of _ e]) auto
    next
      case err: False
      then show ?thesis using step False all pull gets_clear [OF b2(1)] b2(2) km less.prems(3)
        by (intro exI [of _ "b2\<lparr>rd_err := None\<rparr>"] exI [of _ xs] exI [of _ "take k (rd_unread b1)"] exI [of _ "rd_err b2"]) auto
    qed
  qed
qed

lemma rd_copy_gets:
  assumes "rd_wf ok b" "rd_unread b \<noteq> []" "p \<noteq> []"
  shows "\<exists>b'. rd_copy b p = (let n = min (length p) (length (rd_unread b)) in Inr (b', take n (rd_unread b) @ drop n p, int n, None))
    \<and> gets rd ok b [] b' \<and> rd_unread b' = drop (length p) (rd_unread b) \<and> rd_err b' = rd_err b
    \<and> marks b' (rd_unread b ! (min (length p) (length (rd_unread b)) - 1)) \<and> rd_lastRuneSize b' = -1"
proof -
  define n where "n = min (length p) (length (rd_unread b))"
  have n: "0 < n" "n \<le> length (rd_unread b)" using assms(2,3) by (auto simp: n_def)
  let ?c = "rd_unread b ! (n - 1)"
  let ?b = "b\<lparr>rd_r := rd_r b + int n, rd_lastByte := int (unat ?c), rd_lastRuneSize := -1\<rparr>"
  have "rd_copy b p = Inr (?b, take n (rd_unread b) @ drop n p, int n, None)"
    using rd_unread_slice [OF assms(1)] consumed_byte(1) [OF assms(1) n] by (simp add: rd_copy_def n_def Let_def)
  moreover have "gets rd ok b [] ?b" "rd_unread ?b = drop n (rd_unread b)"
    using gets_consume [where rd = rd, OF gets_refl [OF assms(1)] n(2)] by simp_all
  moreover have "drop n (rd_unread b) = drop (length p) (rd_unread b)" by (simp add: n_def min_def)
  moreover have "marks ?b ?c"
    using consumed_byte(2,3) [OF assms(1) n] n(1) rd_wfE [OF assms(1)] by (fastforce simp: marks_def)
  ultimately show ?thesis by (intro exI [of _ ?b]) (simp add: n_def Let_def)
qed

lemma copied_last: "0 < n \<Longrightarrow> n \<le> length u \<Longrightarrow> (take n u @ v) ! (n - 1) = u ! (n - 1)"
  by (simp add: nth_append)

text \<open>
  \<open>Read\<close>.  The last case of the result: the bytes come directly from below, or there are none since a
  read delivered none.
\<close>

lemma Read_gets:
  assumes "rd_wf ok b"
  shows "\<exists>b' xs p' k e. rd_Read rd b p = Inr (b', p', int k, e) \<and> gets rd ok b xs b' \<and> length p' = length p \<and> k \<le> length p
    \<and> rd_unread b @ xs = take k p' @ rd_unread b' \<and> (e \<noteq> None \<longrightarrow> rd_unread b' = [] \<and> pulls rd (rd_rd b, rd_err b) xs (rd_rd b', e))
    \<and> (0 < k \<longrightarrow> marks b' (p' ! (k - 1)) \<and> rd_lastRuneSize b' = -1)
    \<and> ((p \<noteq> [] \<longrightarrow> 0 < k \<or> e \<noteq> None) \<and> drop k p' = drop k p
       \<or> (\<exists>r q. ok (rd_rd b) \<and> q \<noteq> [] \<and> rd (rd_rd b) q = Inr (r, p', int k, e) \<and> q = p)
       \<or> (\<exists>r q q'. q \<noteq> [] \<and> rd (rd_rd b) q = Inr (r, q', 0, None)))"
proof -
  have ok: "ok (rd_rd b)" using assms by (simp add: rd_wf_def)
  consider (nil) "p = []" | (data) "p \<noteq> []" "rd_unread b \<noteq> []" | (err) "p \<noteq> []" "rd_unread b = []" "rd_err b \<noteq> None"
    | (direct) "p \<noteq> []" "rd_unread b = []" "rd_err b = None" "length p \<ge> length (rd_buf b)"
    | (buf) "p \<noteq> []" "rd_unread b = []" "rd_err b = None" "length p < length (rd_buf b)" by linarith
  then show ?thesis
  proof cases
    case nil
    show ?thesis
    proof (cases "rd_unread b = []")
      case True
      then have "rd_Read rd b p = Inr (b\<lparr>rd_err := None\<rparr>, p, int 0, rd_err b)"
        using nil rd_wfE [OF assms] by (fastforce simp: rd_Read_def rd_readErr_def)
      then show ?thesis using True nil gets_clear [OF gets_refl [OF assms]]
        by (intro exI [of _ "b\<lparr>rd_err := None\<rparr>"] exI [of _ "[]"] exI [of _ p] exI [of _ 0] exI [of _ "rd_err b"])
          (simp add: pulls.refl)
    next
      case False
      then have "rd_Read rd b p = Inr (b, p, int 0, None)" using nil rd_wfE [OF assms] by (fastforce simp: rd_Read_def)
      then show ?thesis using nil gets_refl [OF assms]
        by (intro exI [of _ b] exI [of _ "[]"] exI [of _ p] exI [of _ 0] exI [of _ None]) simp
    qed
  next
    case data
    let ?n = "min (length p) (length (rd_unread b))"
    obtain b' where b': "rd_copy b p = Inr (b', take ?n (rd_unread b) @ drop ?n p, int ?n, None)" "gets rd ok b [] b'"
      "rd_unread b' = drop (length p) (rd_unread b)" "marks b' (rd_unread b ! (?n - 1))" "rd_lastRuneSize b' = -1"
      using rd_copy_gets [OF assms data(2,1)] by (auto simp: Let_def)
    have "rd_Read rd b p = rd_copy b p" using data rd_unread_len(3) [OF assms] by (simp add: rd_Read_def)
    moreover have "?n > 0" using data by simp
    then have "?n > 0" "(take ?n (rd_unread b) @ drop ?n p) ! (?n - 1) = rd_unread b ! (?n - 1)" by (simp_all only: copied_last min.cobounded2)
    moreover have "rd_unread b = take ?n (rd_unread b) @ rd_unread b'" using b'(3) by (simp add: min_def)
    ultimately show ?thesis using b'
      by (intro exI [of _ b'] exI [of _ "[]"] exI [of _ "take ?n (rd_unread b) @ drop ?n p"] exI [of _ ?n] exI [of _ None]) simp
  next
    case err
    then have "rd_Read rd b p = Inr (b\<lparr>rd_err := None\<rparr>, p, int 0, rd_err b)"
      using rd_unread_len(3) [OF assms] by (simp add: rd_Read_def rd_readErr_def)
    then show ?thesis using err gets_clear [OF gets_refl [OF assms]]
      by (intro exI [of _ "b\<lparr>rd_err := None\<rparr>"] exI [of _ "[]"] exI [of _ p] exI [of _ 0] exI [of _ "rd_err b"]) (simp add: pulls.refl)
  next
    case direct
    obtain r' p' n e where r: "rd (rd_rd b) p = Inr (r', p', int n, e)" "ok r'" "length p' = length p" "n \<le> length p"
      using honest [OF ok] by blast
    define b' where "b' = b\<lparr>rd_rd := r', rd_err := None\<rparr>"
    have wf': "rd_wf ok b'" using assms r(2) by (simp add: b'_def rd_wf_def)
    have un: "rd_unread b' = []" using direct(2) by (simp add: b'_def rd_unread_def)
    have pull: "pulls rd (rd_rd b, None) (take n p') (r', e)"
      using pulls.read [OF pulls.refl [of rd "(rd_rd b, None)"] r(1) direct(1)] by (cases e) simp_all
    then have "pulls rd (rd_rd b, rd_err b) (take n p') (rd_rd b', rd_err b')"
      using direct(3) pulls.clear by (simp add: b'_def)
    then have g: "gets rd ok b (take n p') b'" using wf' by (simp add: gets_def b'_def)
    define b2 where "b2 = (if n > 0 then b'\<lparr>rd_lastByte := int (unat (p' ! (n - 1))), rd_lastRuneSize := -1\<rparr> else b')"
    have "rd_Read rd b p = Inr (b2, p', int n, e)"
      using direct r(1,3,4) rd_unread_len(3) [OF assms]
      by (auto simp: rd_Read_def rd_readErr_def b2_def b'_def go_index_def nat_diff_distrib)
    moreover have "gets rd ok b (take n p') b2" "rd_unread b2 = []" "rd_rd b2 = r'" using g un unfolding b2_def b'_def by (cases "n = 0"; simp)+
    moreover have "marks b2 (p' ! (n - 1)) \<and> rd_lastRuneSize b2 = -1" if "0 < n"
      using that direct(2) rd_unread_len(3) [OF assms] assms by (auto simp: marks_def b2_def b'_def rd_wf_def)
    ultimately show ?thesis using r direct(1-3) pull ok
      by (intro exI [of _ b2] exI [of _ "take n p'"] exI [of _ p'] exI [of _ n] exI [of _ e]) auto
  next
    case buf
    obtain r' q n e where r: "rd (rd_rd b) (rd_buf b) = Inr (r', q, int n, e)" "ok r'" "length q = length (rd_buf b)" "n \<le> length (rd_buf b)"
      using honest [OF ok] by blast
    have bne: "rd_buf b \<noteq> []" using buf(4) by auto
    have pull: "pulls rd (rd_rd b, rd_err b) (take n q) (r', e)"
      using pulls.read [OF pulls.refl [of rd "(rd_rd b, rd_err b)"] r(1) bne] buf(3) by (cases e) simp_all
    define b1 where "b1 = b\<lparr>rd_r := 0, rd_rd := r', rd_buf := q, rd_err := e, rd_w := int n\<rparr>"
    have wf1: "rd_wf ok b1" using assms r(2-4) by (simp add: b1_def rd_wf_def)
    have rb1: "rd_rd b1 = r'" by (simp add: b1_def)
    have un1: "rd_unread b1 = take n q" by (simp add: b1_def rd_unread_def)
    have g1: "gets rd ok b (take n q) b1" using wf1 pull r(3) by (simp add: gets_def b1_def)
    have w: "wrap64 (int n) = int n" using r(4) assms by (intro wrap64_id) (auto simp: rd_wf_def)
    have step: "rd_Read rd b p = (if n = 0 then Inr (b1\<lparr>rd_err := None\<rparr>, p, 0, e) else rd_copy b1 p)"
      using buf r(1) rd_unread_len(3) [OF assms] w by (simp add: rd_Read_def rd_readErr_def b1_def)
    show ?thesis
    proof (cases "n = 0")
      case True
      then have "\<exists>r q q'. q \<noteq> [] \<and> rd (rd_rd b) q = Inr (r, q', 0, None)" if "e = None" using r(1) bne that by auto
      then show ?thesis using True step gets_clear [OF g1] buf un1 pull bne
        by (intro exI [of _ "b1\<lparr>rd_err := None\<rparr>"] exI [of _ "[]"] exI [of _ p] exI [of _ 0] exI [of _ e])
          (auto simp: rb1)
    next
      case False
      then have ne: "rd_unread b1 \<noteq> []" using un1 r(3) bne False by (metis length_0_conv take_eq_Nil)
      let ?n = "min (length p) (length (rd_unread b1))"
      obtain b' where b': "rd_copy b1 p = Inr (b', take ?n (rd_unread b1) @ drop ?n p, int ?n, None)" "gets rd ok b1 [] b'"
        "rd_unread b' = drop (length p) (rd_unread b1)" "marks b' (rd_unread b1 ! (?n - 1))" "rd_lastRuneSize b' = -1"
        using rd_copy_gets [OF wf1 ne buf(1)] by (auto simp: Let_def)
      have "?n > 0" using buf(1) ne by simp
      then have "?n > 0" "(take ?n (rd_unread b1) @ drop ?n p) ! (?n - 1) = rd_unread b1 ! (?n - 1)" by (simp_all only: copied_last min.cobounded2)
      moreover have "take ?n (rd_unread b1) = take (length p) (rd_unread b1)" by (simp add: min_def)
      then have "rd_unread b @ take n q = take ?n (rd_unread b1) @ rd_unread b'"
        by (simp only: b'(3) buf(2) un1 [symmetric] append_Nil append_take_drop_id)
      moreover have "gets rd ok b (take n q) b'" using gets_trans [OF g1 b'(2)] by simp
      ultimately show ?thesis using b' step False
        by (intro exI [of _ b'] exI [of _ "take n q"] exI [of _ "take ?n (rd_unread b1) @ drop ?n p"] exI [of _ ?n] exI [of _ None]) simp
    qed
  qed
qed

lemma ReadByte_gets:
  assumes "rd_wf ok b"
  shows "\<exists>b' xs. gets rd ok b xs b' \<and>
    ((\<exists>c. rd_ReadByte rd b = Some (Inr (b', c, None)) \<and> rd_unread b @ xs = c # rd_unread b' \<and> marks b' c \<and> 0 < rd_r b')
     \<or> (\<exists>e. rd_ReadByte rd b = Some (Inr (b', 0, e)) \<and> rd_unread b = [] \<and> xs = [] \<and> rd_unread b' = [] \<and> e \<noteq> None
          \<and> pulls rd (rd_rd b, rd_err b) xs (rd_rd b', e)))"
proof -
  let ?c = "\<lambda>b. rd_r b = rd_w b \<and> rd_err b = None" and ?b = "b\<lparr>rd_lastRuneSize := -1\<rparr>"
  have cond: "rd_err b = None \<and> length (rd_unread b) < length (rd_buf b)" if "rd_wf ok b" "?c b" for b :: "'r bufReader"
  proof -
    have "rd_unread b = []" using that(2) rd_unread_len(3) [OF that(1)] by simp
    moreover have "16 \<le> length (rd_buf b)" using that(1) by (simp add: rd_wf_def minReadBufferSize_def)
    ultimately show ?thesis using that(2) by auto
  qed
  have pre: "rd_wf ok ?b" using assms by simp
  obtain b1 xs where b1: "fill_while rd ?c ?b = Some (Inr b1)" "gets rd ok ?b xs b1" "rd_unread b1 = rd_unread ?b @ xs" "\<not> ?c b1"
    using fill_while_gets [where c = ?c, OF pre cond] by blast
  note b1 = b1(1) b1(2) [unfolded gets_marks] b1(3) [unfolded rd_wf_marks] b1(4)
  have wf1: "rd_wf ok b1" and pull: "pulls rd (rd_rd b, rd_err b) xs (rd_rd b1, rd_err b1)" using b1(2) by (simp_all add: gets_def)
  show ?thesis
  proof (cases "rd_unread b1 = []")
    case True
    then have "rd_ReadByte rd b = Some (Inr (b1\<lparr>rd_err := None\<rparr>, 0, rd_err b1))"
      using b1(1) rd_unread_len(3) [OF wf1] by (simp add: rd_ReadByte_def rd_readErr_def)
    then show ?thesis using True gets_clear [OF b1(2)] b1(3,4) rd_unread_len(3) [OF wf1] pull
      by (intro exI [of _ "b1\<lparr>rd_err := None\<rparr>"] exI [of _ xs]) auto
  next
    case False
    then have n: "0 < (1 :: nat)" "1 \<le> length (rd_unread b1)" by (simp_all add: Suc_le_eq)
    let ?c = "rd_unread b1 ! 0" and ?b' = "b1\<lparr>rd_r := rd_r b1 + int 1, rd_lastByte := int (unat (rd_unread b1 ! 0))\<rparr>"
    have "go_index (rd_buf b1) (rd_r b1) = Inr ?c" using consumed_byte(1) [OF wf1 n] by simp
    then have "rd_ReadByte rd b = Some (Inr (?b', ?c, None))"
      using b1(1) False rd_unread_len(3) [OF wf1] by (simp add: rd_ReadByte_def)
    moreover have "gets rd ok b xs ?b'" "rd_unread ?b' = drop 1 (rd_unread b1)" using gets_consume [OF b1(2) n(2)] by simp_all
    moreover have "rd_unread b1 = ?c # drop 1 (rd_unread b1)" using False by (cases "rd_unread b1") simp_all
    moreover have "marks ?b' ?c" "0 < rd_r ?b'"
      using consumed_byte(2,3) [OF wf1 n] wf1 by (simp_all add: marks_def rd_wf_def)
    ultimately show ?thesis using b1(3) by (intro exI [of _ ?b'] exI [of _ xs]) (simp del: of_nat_1)
  qed
qed

text \<open>Taking a byte back: it is the byte that the mark says, whatever was read.\<close>

lemma UnreadByte_gets:
  assumes "rd_wf ok b"
  shows "\<exists>b' e. rd_UnreadByte b = Inr (b', e) \<and> gets rd ok b [] b' \<and> (e \<noteq> None \<longrightarrow> b' = b)
    \<and> (\<forall>c. marks b c \<longrightarrow> e = None \<and> rd_unread b' = c # rd_unread b \<and> rd_lastByte b' = -1 \<and> rd_lastRuneSize b' = -1)"
proof (cases "rd_lastByte b < 0 \<or> rd_r b = 0 \<and> rd_w b > 0")
  case True
  then have "rd_UnreadByte b = Inr (b, Some ErrInvalidUnreadByte)" by (auto simp: rd_UnreadByte_def)
  moreover have "\<not> marks b c" for c using True assms by (auto simp: marks_def rd_wf_def)
  ultimately show ?thesis using gets_refl [OF assms] by (intro exI [of _ b] exI [of _ "Some ErrInvalidUnreadByte"]) simp
next
  case False
  obtain i j where b: "rd_r b = int i" "rd_w b = int j" "i \<le> j" "j \<le> length (rd_buf b)" "rd_unread b = seg i j (rd_buf b)"
    "16 \<le> length (rd_buf b)" using rd_wfE [OF assms] by metis
  define b0 where "b0 = (if rd_r b > 0 then b\<lparr>rd_r := rd_r b - 1\<rparr> else b\<lparr>rd_w := 1\<rparr>)"
  let ?x = "word_of_int (rd_lastByte b)"
  let ?b' = "b0\<lparr>rd_buf := (rd_buf b0)[nat (rd_r b0) := ?x], rd_lastByte := -1, rd_lastRuneSize := -1\<rparr>"
  have b0: "rd_buf b0 = rd_buf b" "rd_r b0 = int (i - 1)" "rd_w b0 = int (if i > 0 then j else 1)" "rd_rd b0 = rd_rd b" "rd_err b0 = rd_err b"
    "rd_lastByte b0 = rd_lastByte b"
    using b(1,2) by (auto simp: b0_def of_nat_diff)
  have ij: "i - 1 < (if i > 0 then j else 1)" "(if i > 0 then j else 1) \<le> length (rd_buf b)" using b False by auto
  have un: "rd_UnreadByte b = Inr (?b', None)"
    using False ij b0(1,2) b(2-4) by (simp add: rd_UnreadByte_def b0_def [symmetric] b0(6) Let_def)
  have "rd_wf ok ?b'" using assms ij unfolding rd_wf_def by (simp add: b0)
  then have g: "gets rd ok b [] ?b'" by (simp add: gets_def b0 pulls.refl)
  have un': "rd_unread ?b' = c # rd_unread b" if "marks b c" for c
  proof -
    have x: "?x = c" using that by (simp add: marks_def)
    have "rd_unread ?b' = seg (i - 1) (if i > 0 then j else 1) ((rd_buf b)[i - 1 := c])" unfolding rd_unread_def by (simp add: b0 x)
    also have "\<dots> = c # seg (Suc (i - 1)) (if i > 0 then j else 1) (rd_buf b)"
      using ij by (simp add: seg_def Cons_nth_drop_Suc [symmetric] drop_update_cancel take_Cons')
    also have "seg (Suc (i - 1)) (if i > 0 then j else 1) (rd_buf b) = rd_unread b"
      using that b(1-5) by (auto simp: marks_def seg_def)
    finally show ?thesis .
  qed
  show ?thesis using un g un' by (intro exI [of _ ?b'] exI [of _ None]) simp
qed

lemma ReadRune_gets:
  assumes "rd_wf ok b"
  shows "\<exists>b' xs u. gets rd ok b xs b' \<and> u = rd_unread b @ xs \<and>
    ((\<exists>r n. rd_ReadRune rd b = Some (Inr (b', r, int n, None)) \<and> u \<noteq> [] \<and> DecodeRune u = (r, n) \<and> rd_unread b' = drop n u
        \<and> (FullRune u \<or> rd_err b' \<noteq> None) \<and> marks b' (u ! (n - 1)) \<and> int n \<le> rd_r b' \<and> rd_lastRuneSize b' = int n
        \<and> seg (nat (rd_r b') - n) (nat (rd_w b')) (rd_buf b') = u)
     \<or> (\<exists>e. rd_ReadRune rd b = Some (Inr (b', 0, 0, e)) \<and> u = [] \<and> rd_unread b' = [] \<and> e \<noteq> None
          \<and> pulls rd (rd_rd b, rd_err b) xs (rd_rd b', e)))"
proof -
  let ?c = "\<lambda>b. rd_r b + int UTFMax > rd_w b \<and> \<not> FullRune (seg (nat (rd_r b)) (nat (rd_w b)) (rd_buf b))
         \<and> rd_err b = None \<and> rd_w b - rd_r b < int (length (rd_buf b))"
  have cond: "rd_err b = None \<and> length (rd_unread b) < length (rd_buf b)" if "rd_wf ok b" "?c b" for b :: "'r bufReader"
    using that rd_unread_len(1) [OF that(1)] by simp
  obtain b1 xs where b1: "fill_while rd ?c b = Some (Inr b1)" "gets rd ok b xs b1" "rd_unread b1 = rd_unread b @ xs" "\<not> ?c b1"
    using fill_while_gets [where c = ?c, OF assms cond] by blast
  have wf1: "rd_wf ok b1" and pull: "pulls rd (rd_rd b, rd_err b) xs (rd_rd b1, rd_err b1)" using b1(2) by (simp_all add: gets_def)
  let ?u = "rd_unread b1"
  have full: "FullRune ?u \<or> rd_err b1 \<noteq> None"
  proof (rule ccontr)
    assume n: "\<not> (FullRune ?u \<or> rd_err b1 \<noteq> None)"
    then have "length ?u < 4" using FullRune_long [of ?u] by linarith
    moreover have "16 \<le> length (rd_buf b1)" using rd_wfE [OF wf1] by metis
    ultimately have "?c b1" using n rd_unread_len(1) [OF wf1] by (simp add: rd_unread_def [symmetric] UTFMax_def)
    then show False using b1(4) by blast
  qed
  show ?thesis
  proof (cases "?u = []")
    case True
    then have "rd_ReadRune rd b = Some (Inr (b1\<lparr>rd_lastRuneSize := -1, rd_err := None\<rparr>, 0, 0, rd_err b1))"
      using b1(1) rd_unread_len(3) [OF wf1] by (simp add: rd_ReadRune_def rd_readErr_def)
    moreover have "rd_err b1 \<noteq> None" using full True by (simp add: FullRune_def)
    moreover have "gets rd ok b xs (b1\<lparr>rd_lastRuneSize := -1, rd_err := None\<rparr>)" using gets_clear [of rd ok b xs "b1\<lparr>rd_lastRuneSize := -1\<rparr>"] b1(2) by simp
    ultimately show ?thesis using True b1(3) pull
      by (intro exI [of _ "b1\<lparr>rd_lastRuneSize := -1, rd_err := None\<rparr>"] exI [of _ xs] exI [of _ "[]"]) auto
  next
    case False
    obtain r n where d: "DecodeRune ?u = (r, n)" by (cases "DecodeRune ?u")
    have n: "0 < n" "n \<le> length ?u" using DecodeRune_size [OF False] d by simp_all
    obtain i j where ij: "rd_r b1 = int i" "rd_w b1 = int j" "i \<le> j" "?u = seg i j (rd_buf b1)" using rd_wfE [OF wf1] by metis
    let ?b' = "b1\<lparr>rd_lastRuneSize := int n, rd_r := rd_r b1 + int n, rd_lastByte := int (unat (?u ! (n - 1)))\<rparr>"
    have first: "go_index (rd_buf b1) (rd_r b1) = Inr (?u ! 0)"
      using consumed_byte(1) [OF wf1, of 1] False by (simp add: Suc_le_eq)
    have rn: "(if ?u ! 0 \<ge> RuneSelf then go_bind (go_sub (rd_buf b1) (rd_r b1) (rd_w b1)) (\<lambda>data. Inr (DecodeRune data)) else Inr (ucast (?u ! 0), 1))
        = Inr (r, n)"
    proof (cases "?u ! 0 < RuneSelf")
      case True
      then show ?thesis using DecodeRune_ascii [OF False lead_info_ascii [OF True]] d by (simp add: not_le [symmetric] del: RuneSelf_def)
    next
      case ge: False
      then show ?thesis using d rd_unread_slice [OF wf1] by (simp add: not_less del: RuneSelf_def)
    qed
    have res: "rd_ReadRune rd b = Some (Inr (?b', r, int n, None))"
      using b1(1) False rd_unread_len(3) [OF wf1] first rn consumed_byte(1) [OF wf1 n]
      by (cases "RuneSelf \<le> ?u ! 0") (simp_all add: rd_ReadRune_def Let_def del: RuneSelf_def)
    have eq: "?b' = b1\<lparr>rd_r := rd_r b1 + int n, rd_lastByte := int (unat (?u ! (n - 1))), rd_lastRuneSize := int n\<rparr>" by simp
    have "gets rd ok b xs ?b'" "rd_unread ?b' = drop n ?u" unfolding eq using gets_consume [OF b1(2) n(2)] by simp_all
    moreover have "marks ?b' (?u ! (n - 1))"
      using consumed_byte(2,3) [OF wf1 n] n(1) wf1 by (simp add: marks_def rd_wf_def)
    moreover have "seg (nat (rd_r ?b') - n) (nat (rd_w ?b')) (rd_buf ?b') = ?u" using ij by (simp add: nat_int_add)
    ultimately show ?thesis using res False d full b1(3) ij(1)
      by (intro exI [of _ ?b'] exI [of _ xs] exI [of _ ?u]) simp
  qed
qed

lemma UnreadRune_gets:
  assumes "rd_wf ok b"
  shows "\<exists>b' e. rd_UnreadRune b = (b', e) \<and> gets rd ok b [] b' \<and> (e \<noteq> None \<longrightarrow> b' = b)
    \<and> (\<forall>n. rd_lastRuneSize b = int n \<and> int n \<le> rd_r b \<longrightarrow> e = None \<and> rd_unread b' = seg (nat (rd_r b) - n) (nat (rd_w b)) (rd_buf b))"
proof (cases "rd_lastRuneSize b < 0 \<or> rd_r b < rd_lastRuneSize b")
  case True
  then have "rd_UnreadRune b = (b, Some ErrInvalidUnreadRune)" by (auto simp: rd_UnreadRune_def)
  then show ?thesis using True gets_refl [OF assms] by (intro exI [of _ b] exI [of _ "Some ErrInvalidUnreadRune"]) auto
next
  case False
  let ?b' = "b\<lparr>rd_r := rd_r b - rd_lastRuneSize b, rd_lastByte := -1, rd_lastRuneSize := -1\<rparr>"
  have "rd_UnreadRune b = (?b', None)" using False by (auto simp: rd_UnreadRune_def)
  moreover have "rd_wf ok ?b'" using False assms unfolding rd_wf_def by auto
  then have "gets rd ok b [] ?b'" by (simp add: gets_def pulls.refl)
  moreover have "rd_unread ?b' = seg (nat (rd_r b) - n) (nat (rd_w b)) (rd_buf b)" if "rd_lastRuneSize b = int n" for n
    using that assms by (simp add: rd_unread_def rd_wf_def nat_diff_distrib')
  ultimately show ?thesis by (intro exI [of _ ?b'] exI [of _ None]) simp
qed

text \<open>\<open>ReadSlice\<close>: up to the delimiter; or the whole buffer, full; or all that is left, with the pending error.\<close>

lemma slice_loop_gets:
  assumes "rd_wf ok b" "k \<le> length (rd_unread b)" "delim \<notin> set (take k (rd_unread b))"
  shows "\<exists>b' xs line e. slice_loop rd delim (int k) b = Some (Inr (b', line, e)) \<and> gets rd ok b xs b'
    \<and> rd_unread b @ xs = line @ rd_unread b' \<and> rd_r b' \<ge> int (length line)
    \<and> (line \<noteq> [] \<longrightarrow> 0 < rd_r b' \<and> rd_buf b' ! nat (rd_r b' - 1) = last line)
    \<and> (e = None \<and> (\<exists>l. line = l @ [delim] \<and> delim \<notin> set l)
       \<or> e = Some ErrBufferFull \<and> length line = length (rd_buf b) \<and> delim \<notin> set line \<and> rd_unread b' = []
       \<or> e \<noteq> None \<and> delim \<notin> set line \<and> rd_unread b' = [] \<and> pulls rd (rd_rd b, rd_err b) xs (rd_rd b', e))"
  using assms
proof (induction "length (rd_buf b) - length (rd_unread b) + (if rd_err b = None then 1 else 0)" arbitrary: b k rule: less_induct)
  case less
  obtain i j where ij: "rd_r b = int i" "rd_w b = int j" "i \<le> j" "j \<le> length (rd_buf b)" "rd_unread b = seg i j (rd_buf b)"
    "length (rd_unread b) = j - i" using rd_wfE [OF less.prems(1)] by metis
  have tail: "go_sub (rd_buf b) (rd_r b + int k) (rd_w b) = Inr (drop k (rd_unread b))"
  proof -
    have "go_sub (rd_buf b) (int (i + k)) (int j) = Inr (seg (i + k) j (rd_buf b))" using ij less.prems(2) by (intro go_sub_ok) auto
    moreover have "seg (i + k) j (rd_buf b) = drop k (rd_unread b)" using ij(5) by (simp add: seg_def drop_take add.commute)
    ultimately show ?thesis using ij by simp
  qed
  have part: "delim \<in> set (rd_unread b) \<longleftrightarrow> delim \<in> set (drop k (rd_unread b))"
    using less.prems(3) set_append [of "take k (rd_unread b)" "drop k (rd_unread b)"] by (auto simp: append_take_drop_id)
  note byte = consumed_byte [OF less.prems(1)]
  show ?case
  proof (cases "delim \<in> set (rd_unread b)")
    case True
    then obtain l v where u: "rd_unread b = l @ delim # v" "delim \<notin> set l" using split_list_first by metis
    let ?n = "length l + 1"
    have n: "0 < ?n" "?n \<le> length (rd_unread b)" "take ?n (rd_unread b) = l @ [delim]" by (simp_all add: u)
    have kl: "k \<le> length l"
    proof (rule ccontr)
      assume "\<not> k \<le> length l"
      then have "delim \<in> set (take k (rd_unread b))" by (simp add: u take_Cons')
      then show False using less.prems(3) by blast
    qed
    have "takeWhile (\<lambda>c. c \<noteq> delim) (drop k (rd_unread b)) = drop k l"
    proof -
      have "drop k (rd_unread b) = drop k l @ delim # v" using kl by (simp add: u)
      moreover have "delim \<notin> set (drop k l)" using u(2) in_set_dropD by fast
      ultimately show ?thesis by (auto simp: takeWhile_append)
    qed
    then have find: "bytes_IndexByte (drop k (rd_unread b)) delim = int (length l - k)"
      using True part by (simp add: bytes_IndexByte_find)
    let ?b' = "b\<lparr>rd_r := rd_r b + int ?n\<rparr>"
    have "slice_loop rd delim (int k) b = Some (Inr (?b', l @ [delim], None))"
      using tail find kl rd_unread_take [OF less.prems(1) n(2)] n(3)
      by (subst slice_loop.simps) (simp add: of_nat_diff add.commute add.left_commute)
    moreover have "gets rd ok b [] ?b'" "rd_unread ?b' = v"
      using gets_consume [where rd = rd, OF gets_refl [OF less.prems(1)] n(2)] u by simp_all
    moreover have "0 < rd_r ?b'" "rd_buf ?b' ! nat (rd_r ?b' - 1) = delim" "int ?n \<le> rd_r ?b'"
      using byte(3) [OF n(1,2)] ij(1) by (simp_all add: u)
    ultimately show ?thesis using u
      by (intro exI [of _ ?b'] exI [of _ "[]"] exI [of _ "l @ [delim]"] exI [of _ None]) simp
  next
    case no: False
    then have find: "bytes_IndexByte (drop k (rd_unread b)) delim = -1" using part by (simp add: bytes_IndexByte_find)
    have lenu: "length (rd_unread b) \<le> length (rd_buf b)" using ij by simp
    let ?e = "b\<lparr>rd_r := rd_r b + int (length (rd_unread b))\<rparr>"
    have re: "rd_w b = rd_r b + int (length (rd_unread b))" using ij by simp
    have ge: "gets rd ok b [] ?e" "rd_unread ?e = []" using gets_consume [where rd = rd, OF gets_refl [OF less.prems(1)], of "length (rd_unread b)"] by simp_all
    have lst: "rd_unread b \<noteq> [] \<Longrightarrow> 0 < rd_r ?e \<and> rd_buf ?e ! nat (rd_r ?e - 1) = last (rd_unread b)"
    proof -
      assume ne: "rd_unread b \<noteq> []"
      then have "0 < length (rd_unread b)" by simp
      moreover from this have "0 < rd_r b + int (length (rd_unread b))" using ij(1) by linarith
      ultimately show ?thesis using byte(3) [of "length (rd_unread b)"] ne by (simp add: last_conv_nth)
    qed
    show ?thesis
    proof (cases "rd_err b = None")
      case False
      then have "slice_loop rd delim (int k) b = Some (Inr (?e\<lparr>rd_err := None\<rparr>, rd_unread b, rd_err b))"
        using tail find rd_unread_slice [OF less.prems(1)] by (subst slice_loop.simps) (simp add: re rd_readErr_def)
      then show ?thesis using no False ge gets_clear [OF ge(1)] lst ij(1)
        by (intro exI [of _ "?e\<lparr>rd_err := None\<rparr>"] exI [of _ "[]"] exI [of _ "rd_unread b"] exI [of _ "rd_err b"]) (simp add: pulls.refl)
    next
      case err: True
      show ?thesis
      proof (cases "length (rd_unread b) = length (rd_buf b)")
        case True
        then have i0: "i = 0" "j = length (rd_buf b)" using ij by auto
        then have all: "rd_unread b = rd_buf b" using ij(5) by simp
        have "slice_loop rd delim (int k) b = Some (Inr (?e, rd_unread b, Some ErrBufferFull))"
          using tail find err True less.prems(1) re by (subst slice_loop.simps) (simp add: rd_Buffered_def all)
        then show ?thesis using no True ge lst ij(1)
          by (intro exI [of _ ?e] exI [of _ "[]"] exI [of _ "rd_unread b"] exI [of _ "Some ErrBufferFull"]) simp
      next
        case False
        then have room: "length (rd_unread b) < length (rd_buf b)" using lenu by simp
        obtain b1 xs where b1: "rd_fill rd b = Inr b1" "gets rd ok b xs b1" "rd_unread b1 = rd_unread b @ xs" "xs \<noteq> [] \<or> rd_err b1 \<noteq> None"
          using fill_gets [OF less.prems(1) room] by blast
        have wf1: "rd_wf ok b1" and len: "length (rd_buf b1) = length (rd_buf b)"
          and pull: "pulls rd (rd_rd b, rd_err b) xs (rd_rd b1, rd_err b1)" using b1(2) by (simp_all add: gets_def)
        have m: "length (rd_buf b1) - length (rd_unread b1) + (if rd_err b1 = None then 1 else 0)
            < length (rd_buf b) - length (rd_unread b) + (if rd_err b = None then 1 else 0)"
          using room b1(3,4) len err rd_unread_len(2) [OF wf1] by (cases "xs = []") (auto simp: neq_Nil_conv)
        have pre: "length (rd_unread b) \<le> length (rd_unread b1)" "delim \<notin> set (take (length (rd_unread b)) (rd_unread b1))"
          using b1(3) no by simp_all
        obtain b' ys line e where b': "slice_loop rd delim (int (length (rd_unread b))) b1 = Some (Inr (b', line, e))" "gets rd ok b1 ys b'"
          "rd_unread b1 @ ys = line @ rd_unread b'" "rd_r b' \<ge> int (length line)"
          "line \<noteq> [] \<longrightarrow> 0 < rd_r b' \<and> rd_buf b' ! nat (rd_r b' - 1) = last line"
          "e = None \<and> (\<exists>l. line = l @ [delim] \<and> delim \<notin> set l)
           \<or> e = Some ErrBufferFull \<and> length line = length (rd_buf b1) \<and> delim \<notin> set line \<and> rd_unread b' = []
           \<or> e \<noteq> None \<and> delim \<notin> set line \<and> rd_unread b' = [] \<and> pulls rd (rd_rd b1, rd_err b1) ys (rd_rd b', e)"
          using less.hyps [OF m wf1 pre] by blast
        have "slice_loop rd delim (int k) b = slice_loop rd delim (int (length (rd_unread b))) b1"
          using tail find err room less.prems(1) re b1(1) by (subst slice_loop.simps) (simp add: rd_Buffered_def)
        moreover have "rd_unread b @ xs @ ys = line @ rd_unread b'" using b'(3) b1(3) by simp
        moreover have tr: "pulls rd (rd_rd b, rd_err b) (xs @ ys) (rd_rd b', e)" if "pulls rd (rd_rd b1, rd_err b1) ys (rd_rd b', e)"
          using pulls_trans [OF that pull] .
        moreover have "e = None \<and> (\<exists>l. line = l @ [delim] \<and> delim \<notin> set l)
           \<or> e = Some ErrBufferFull \<and> length line = length (rd_buf b) \<and> delim \<notin> set line \<and> rd_unread b' = []
           \<or> e \<noteq> None \<and> delim \<notin> set line \<and> rd_unread b' = [] \<and> pulls rd (rd_rd b, rd_err b) (xs @ ys) (rd_rd b', e)"
          using b'(6) tr unfolding len by blast
        ultimately show ?thesis using b'(1,4,5) gets_trans [OF b1(2) b'(2)]
          by (intro exI [of _ b'] exI [of _ "xs @ ys"] exI [of _ line] exI [of _ e]) (simp only: simp_thms)
      qed
    qed
  qed
qed

end

end
