(* ===== verification/BufioReaderProps.thy ===== *)
theory BufioReaderProps
  imports BufioReaderLaws BytesReader
begin

text \<open>
  The buffered reader as a whole: the operations as data, safety over any reader that keeps the contract,
  and refinement of a queue of bytes over a stream.
\<close>

section \<open>Lines, for any reader\<close>

context honest_reader
begin

lemma ReadSlice_gets:
  assumes "rd_wf ok b"
  shows "\<exists>b' xs line e. rd_ReadSlice rd b delim = Some (Inr (b', line, e)) \<and> gets rd ok b xs b'
    \<and> rd_unread b @ xs = line @ rd_unread b' \<and> length line \<le> length (rd_buf b) \<and> (line \<noteq> [] \<longrightarrow> marks b' (last line) \<and> 0 < rd_r b' \<and> rd_buf b' ! nat (rd_r b' - 1) = last line)
    \<and> (e = None \<and> (\<exists>l. line = l @ [delim] \<and> delim \<notin> set l)
       \<or> e = Some ErrBufferFull \<and> length line = length (rd_buf b) \<and> delim \<notin> set line \<and> rd_unread b' = []
       \<or> e \<noteq> None \<and> delim \<notin> set line \<and> rd_unread b' = [] \<and> pulls rd (rd_rd b, rd_err b) xs (rd_rd b', e))"
proof -
  have "0 \<le> length (rd_unread b)" "delim \<notin> set (take 0 (rd_unread b))" by simp_all
  from slice_loop_gets [OF assms this]
  obtain b' xs line e where b': "slice_loop rd delim (int 0) b = Some (Inr (b', line, e))" "gets rd ok b xs b'"
    "rd_unread b @ xs = line @ rd_unread b'" "rd_r b' \<ge> int (length line)"
    "line \<noteq> [] \<longrightarrow> 0 < rd_r b' \<and> rd_buf b' ! nat (rd_r b' - 1) = last line"
    and e: "e = None \<and> (\<exists>l. line = l @ [delim] \<and> delim \<notin> set l)
       \<or> e = Some ErrBufferFull \<and> length line = length (rd_buf b) \<and> delim \<notin> set line \<and> rd_unread b' = []
       \<or> e \<noteq> None \<and> delim \<notin> set line \<and> rd_unread b' = [] \<and> pulls rd (rd_rd b, rd_err b) xs (rd_rd b', e)"
    by (elim exE conjE) (rule that)
  have wf: "rd_wf ok b'" and len: "length (rd_buf b') = length (rd_buf b)" using b'(2) by (simp_all add: gets_def)
  have ll: "length line \<le> length (rd_buf b)" using b'(4) wf len by (auto simp: rd_wf_def)
  show ?thesis
  proof (cases "line = []")
    case True
    then have "rd_ReadSlice rd b delim = Some (Inr (b', line, e))" using b'(1) by (simp add: rd_ReadSlice_def)
    then show ?thesis using b'(2,3) e True ll by (intro exI [of _ b'] exI [of _ xs] exI [of _ line] exI [of _ e]) (simp only: simp_thms)
  next
    case False
    let ?b = "b'\<lparr>rd_lastByte := int (unat (last line)), rd_lastRuneSize := -1\<rparr>"
    have "rd_ReadSlice rd b delim = Some (Inr (?b, line, e))" using b'(1) False by (simp add: rd_ReadSlice_def)
    moreover have "gets rd ok b xs ?b" "rd_unread ?b = rd_unread b'" "rd_rd ?b = rd_rd b'" using b'(2) by simp_all
    moreover have "marks ?b (last line)" "0 < rd_r ?b" "rd_buf ?b ! nat (rd_r ?b - 1) = last line"
      using b'(5) False wf by (auto simp: marks_def rd_wf_def)
    ultimately show ?thesis using b'(3) e ll
      by (intro exI [of _ ?b] exI [of _ xs] exI [of _ line] exI [of _ e]) (simp only: simp_thms)
  qed
qed

end

section \<open>Operations as data\<close>

datatype reader_op =
    PeekOp int | DiscardOp int | ReadOp bytes | ReadByteOp | UnreadByteOp | ReadRuneOp | UnreadRuneOp
  | ReadSliceOp byte | ReadLineOp | ReadBytesOp byte

datatype reader_out =
    Data bytes "io_error option" | Counted bytes int "io_error option" | Single byte "io_error option"
  | RuneRead rune int "io_error option" | LineRead bytes bool "io_error option" | Result "io_error option"

fun run_reader_op :: "'r reader \<Rightarrow> 'r bufReader \<Rightarrow> reader_op \<Rightarrow> ('r bufReader \<times> reader_out) go option" where
  "run_reader_op rd b (PeekOp n) = run_bind (rd_Peek rd b n) (\<lambda>(b, d, e). Some (Inr (b, Data d e)))"
| "run_reader_op rd b (DiscardOp n) = run_bind (rd_Discard rd b n) (\<lambda>(b, n, e). Some (Inr (b, Counted [] n e)))"
| "run_reader_op rd b (ReadOp p) = Some (go_bind (rd_Read rd b p) (\<lambda>(b, p, n, e). Inr (b, Counted p n e)))"
| "run_reader_op rd b ReadByteOp = run_bind (rd_ReadByte rd b) (\<lambda>(b, c, e). Some (Inr (b, Single c e)))"
| "run_reader_op rd b UnreadByteOp = Some (go_bind (rd_UnreadByte b) (\<lambda>(b, e). Inr (b, Result e)))"
| "run_reader_op rd b ReadRuneOp = run_bind (rd_ReadRune rd b) (\<lambda>(b, r, n, e). Some (Inr (b, RuneRead r n e)))"
| "run_reader_op rd b UnreadRuneOp = (case rd_UnreadRune b of (b, e) \<Rightarrow> Some (Inr (b, Result e)))"
| "run_reader_op rd b (ReadSliceOp d) = run_bind (rd_ReadSlice rd b d) (\<lambda>(b, l, e). Some (Inr (b, Data l e)))"
| "run_reader_op rd b ReadLineOp = run_bind (rd_ReadLine rd b) (\<lambda>(b, l, more, e). Some (Inr (b, LineRead l more e)))"
| "run_reader_op rd b (ReadBytesOp d) = run_bind (rd_ReadBytes rd b d) (\<lambda>(b, l, e). Some (Inr (b, Data l e)))"

fun run_reader_ops :: "'r reader \<Rightarrow> 'r bufReader \<Rightarrow> reader_op list \<Rightarrow> ('r bufReader \<times> reader_out list) go option" where
  "run_reader_ops rd b [] = Some (Inr (b, []))"
| "run_reader_ops rd b (op # ops) =
     run_bind (run_reader_op rd b op) (\<lambda>(b, out). run_bind (run_reader_ops rd b ops) (\<lambda>(b, outs). Some (Inr (b, out # outs))))"

text \<open>\<open>ReadBytes\<close> goes on until it finds the delimiter, forever if the input is endless.\<close>

fun bounded_op :: "reader_op \<Rightarrow> bool" where
  "bounded_op (ReadBytesOp d) = False"
| "bounded_op _ = True"

context honest_reader
begin

lemma ReadLine_safe: "rd_wf ok b \<Longrightarrow> \<exists>b' l more e. rd_ReadLine rd b = Some (Inr (b', l, more, e)) \<and> rd_wf ok b'"
proof -
  assume "rd_wf ok b"
  then obtain b' xs line e where b': "rd_ReadSlice rd b 0x0A = Some (Inr (b', line, e))" "gets rd ok b xs b'" "line \<noteq> [] \<longrightarrow> 0 < rd_r b'"
    using ReadSlice_gets [where delim = "0x0A" and b = b] by blast
  then have wf: "rd_wf ok b'" by (simp add: gets_def)
  then have "rd_wf ok (b'\<lparr>rd_r := rd_r b' - 1\<rparr>)" if "0 < rd_r b'" using that by (simp add: rd_wf_def)
  then show ?thesis using b'(1,3) wf by (auto simp: rd_ReadLine_def Let_def)
qed

lemma reader_op_safe:
  assumes "rd_wf ok b" "bounded_op op"
  shows "\<exists>b' out. run_reader_op rd b op = Some (Inr (b', out)) \<and> rd_wf ok b'"
proof (cases op)
  case (PeekOp n)
  show ?thesis
  proof (cases "n < 0")
    case False
    then show ?thesis using Peek_gets [OF assms(1), of n] PeekOp by (fastforce simp: gets_def)
  qed (use assms(1) PeekOp in \<open>simp add: rd_Peek_def\<close>)
next
  case (DiscardOp n)
  show ?thesis
  proof (cases "n > 0")
    case True
    then have "0 < nat n" "int (nat n) = n" by simp_all
    then show ?thesis using discard_loop_gets [OF assms(1), of "nat n" "nat n"] True DiscardOp
      by (fastforce simp: rd_Discard_def gets_def)
  qed (use assms(1) DiscardOp in \<open>simp add: rd_Discard_def\<close>)
next
  case (ReadOp p)
  then show ?thesis using Read_gets [OF assms(1), of p] by (fastforce simp: gets_def)
next
  case ReadByteOp
  then show ?thesis using ReadByte_gets [OF assms(1)] by (fastforce simp: gets_def)
next
  case UnreadByteOp
  then show ?thesis using UnreadByte_gets [OF assms(1)] by (fastforce simp: gets_def)
next
  case ReadRuneOp
  then show ?thesis using ReadRune_gets [OF assms(1)] by (fastforce simp: gets_def)
next
  case UnreadRuneOp
  then show ?thesis using UnreadRune_gets [OF assms(1)] by (fastforce simp: gets_def)
next
  case (ReadSliceOp d)
  then show ?thesis using ReadSlice_gets [OF assms(1), of d] by (fastforce simp: gets_def)
next
  case ReadLineOp
  then show ?thesis using ReadLine_safe [OF assms(1)] by fastforce
qed (use assms(2) in simp)

text \<open>\<open>ReadBytes\<close> may read on for ever, but when it returns it has not panicked.\<close>

lemma readbytes_safe:
  assumes "readbytes_loop rd delim b full = Some res" "rd_wf ok b"
  shows "\<exists>b' full' frag e. res = Inr (b', full', frag, e) \<and> rd_wf ok b'"
proof -
  let ?P = "\<lambda>rd' delim b full res. rd' = rd \<longrightarrow> rd_wf ok b \<longrightarrow> (\<exists>b' full' frag e. res = Inr (b', full', frag, e) \<and> rd_wf ok b')"
  have "?P rd delim b full res"
  proof (rule readbytes_loop.raw_induct [where P = ?P, OF _ assms(1)])
    fix f rd' delim b full res
    assume IH: "\<And>rd' delim b full res. f rd' delim b full = Some res \<Longrightarrow> ?P rd' delim b full res"
      and eq: "Option.bind (rd_ReadSlice rd' b delim) (\<lambda>x. case x of
         Inl e \<Rightarrow> Some (Inl e)
       | Inr (b, frag, e) \<Rightarrow>
           if e = None then Some (Inr (b, full, frag, None))
           else if e \<noteq> Some ErrBufferFull then Some (Inr (b, full, frag, e))
           else f rd' delim b (full @ [frag])) = Some res"
    show "?P rd' delim b full res"
    proof (intro impI)
      assume rd': "rd' = rd" and wf: "rd_wf ok b"
      obtain b' xs line e where s: "rd_ReadSlice rd b delim = Some (Inr (b', line, e))" "gets rd ok b xs b'"
        using ReadSlice_gets [OF wf, of delim] by blast
      have wf': "rd_wf ok b'" using s(2) by (simp add: gets_def)
      show "\<exists>b' full' frag e. res = Inr (b', full', frag, e) \<and> rd_wf ok b'"
      proof (cases "e = Some ErrBufferFull")
        case True
        then have "f rd delim b' (full @ [line]) = Some res" using eq s(1) by (simp add: rd')
        then show ?thesis using IH wf' by blast
      next
        case False
        then show ?thesis using eq s(1) wf' by (auto simp: rd' split: if_splits)
      qed
    qed
  qed
  then show ?thesis using assms(2) by blast
qed

lemma ReadBytes_safe:
  assumes "rd_ReadBytes rd b delim = Some res" "rd_wf ok b"
  shows "\<exists>b' xs e. res = Inr (b', xs, e) \<and> rd_wf ok b'"
proof -
  obtain r where r: "readbytes_loop rd delim b [] = Some r" using assms(1) by (cases "readbytes_loop rd delim b []") (simp_all add: rd_ReadBytes_def)
  obtain b' full frag e where "r = Inr (b', full, frag, e)" "rd_wf ok b'" using readbytes_safe [OF r assms(2)] by blast
  then show ?thesis using assms(1) r by (auto simp: rd_ReadBytes_def Let_def split: prod.splits)
qed

text \<open>One operation returns, or is a \<open>ReadBytes\<close> that does not.\<close>

lemma reader_op_total:
  assumes "rd_wf ok b"
  obtains (returns) b' out where "run_reader_op rd b op = Some (Inr (b', out))" "rd_wf ok b'"
    | (reads_on) d where "op = ReadBytesOp d" "rd_ReadBytes rd b d = None" "run_reader_op rd b op = None"
proof (cases "bounded_op op")
  case True
  then show ?thesis using reader_op_safe [OF assms] that(1) by blast
next
  case False
  then obtain d where d: "op = ReadBytesOp d" by (cases op) simp_all
  show ?thesis
  proof (cases "rd_ReadBytes rd b d")
    case None
    then show ?thesis using that(2) d by simp
  next
    case (Some res)
    then show ?thesis using ReadBytes_safe [OF Some assms] that(1) d by fastforce
  qed
qed

lemma reader_ops_total:
  assumes "rd_wf ok b"
  shows "(case run_reader_ops rd b ops of
      None \<Rightarrow> \<exists>pre d post b' outs. ops = pre @ ReadBytesOp d # post \<and> run_reader_ops rd b pre = Some (Inr (b', outs))
        \<and> rd_ReadBytes rd b' d = None
    | Some (Inl p) \<Rightarrow> False
    | Some (Inr (b', outs)) \<Rightarrow> rd_wf ok b' \<and> length outs = length ops)"
  using assms
proof (induction ops arbitrary: b)
  case (Cons op ops)
  from Cons.prems show ?case
  proof (cases rule: reader_op_total [of _ op])
    case (reads_on d)
    then show ?thesis by (simp, intro exI [of _ "[]"]) auto
  next
    case (returns b1 out)
    note IH = Cons.IH [OF returns(2)]
    show ?thesis
    proof (cases "run_reader_ops rd b1 ops")
      case None
      then obtain pre d post b' outs where "ops = pre @ ReadBytesOp d # post" "run_reader_ops rd b1 pre = Some (Inr (b', outs))"
        "rd_ReadBytes rd b' d = None" using IH by auto
      moreover have "run_reader_ops rd b (op # ops) = None" using returns(1) None by simp
      ultimately show ?thesis using returns(1)
        by (simp, intro exI [of _ "op # pre"]) auto
    next
      case (Some res)
      then obtain b2 outs where "res = Inr (b2, outs)" "rd_wf ok b2" "length outs = length ops" using IH by (cases res) auto
      then show ?thesis using returns(1) Some by simp
    qed
  qed
qed simp

end

section \<open>Over a stream\<close>

text \<open>The bytes not handed out yet; the pending error is the end of the stream.\<close>

definition rd_at_end :: "('r \<Rightarrow> bytes) \<Rightarrow> 'r \<Rightarrow> io_error option \<Rightarrow> bool" where
  "rd_at_end rest r e \<longleftrightarrow> e = None \<or> e = Some EOF \<and> rest r = []"

definition rd_stream :: "('r \<Rightarrow> bytes) \<Rightarrow> ('r \<Rightarrow> bool) \<Rightarrow> 'r bufReader \<Rightarrow> bool" where
  "rd_stream rest ok b \<longleftrightarrow> rd_wf ok b \<and> rd_at_end rest (rd_rd b) (rd_err b)"

definition rd_queue :: "('r \<Rightarrow> bytes) \<Rightarrow> 'r bufReader \<Rightarrow> bytes" where
  "rd_queue rest b = rd_unread b @ rest (rd_rd b)"

sublocale stream_reader \<subseteq> honest: honest_reader rd ok
proof
  fix r and p :: bytes
  assume "ok r"
  then obtain r' k e where "rd r p = Inr (r', take k (rest r) @ drop k p, int k, e)" "ok r'" "k \<le> length p" "k \<le> length (rest r)"
    by (rule deliversE [OF delivers])
  then show "\<exists>r' p' n e. rd r p = Inr (r', p', int n, e) \<and> ok r' \<and> length p' = length p \<and> n \<le> length p"
    by (intro exI [of _ r'] exI [of _ "take k (rest r) @ drop k p"] exI [of _ k] exI [of _ e]) simp
qed

context stream_reader
begin

abbreviation at_end :: "'r \<Rightarrow> io_error option \<Rightarrow> bool" where "at_end \<equiv> rd_at_end rest"
abbreviation rd_ok :: "'r bufReader \<Rightarrow> bool" where "rd_ok \<equiv> rd_stream rest ok"
abbreviation ahead :: "'r bufReader \<Rightarrow> bytes" where "ahead \<equiv> rd_queue rest"

lemma no_idle:
  assumes "ok r" "p \<noteq> []"
  shows "rd r p \<noteq> Inr (r', p', 0, None)"
  using deliversE [OF delivers [OF assms(1), of p]] assms(2) by force

lemma pulls_stream:
  assumes "pulls rd (r, e) xs (r', e')" "ok r" "at_end r e"
  shows "ok r' \<and> rest r = xs @ rest r' \<and> at_end r' e'"
  using assms
proof (induction "(r, e)" xs "(r', e')" arbitrary: r' e' rule: pulls.induct)
  case (read xs r1 e1 p r2 p' n e2)
  then have r1: "ok r1" "rest r = xs @ rest r1" "at_end r1 e1" by auto
  obtain r3 k e3 where d: "rd r1 p = Inr (r3, take k (rest r1) @ drop k p, int k, e3)" "ok r3" "k \<le> length p"
    "k \<le> length (rest r1)" "rest r3 = drop k (rest r1)"
    "e3 = None \<and> (p = [] \<or> 0 < k) \<or> e3 = Some EOF \<and> k = length (rest r1)"
    by (rule deliversE [OF delivers [OF r1(1), of p]])
  then have "r3 = r2" "n = k" "e3 = e2" "p' = take k (rest r1) @ drop k p" using read.hyps(3) by auto
  then show ?case using d r1 by (auto simp: rd_at_end_def)
next
  case (none xs r1 e1 p r2 p')
  then show ?case using no_idle [of r1 p r2 p'] by auto
qed (auto simp: rd_at_end_def)

lemma gets_stream:
  assumes "rd_ok b" "gets rd ok b xs b'"
  shows "rd_ok b'" "rest (rd_rd b) = xs @ rest (rd_rd b')"
  using assms pulls_stream [of "rd_rd b" "rd_err b" xs "rd_rd b'" "rd_err b'"]
  by (auto simp: rd_stream_def gets_def rd_wf_def)

lemma pulls_end:
  assumes "rd_ok b" "pulls rd (rd_rd b, rd_err b) xs (rd_rd b', e)" "e \<noteq> None"
  shows "e = Some EOF" "rest (rd_rd b') = []"
  using pulls_stream [OF assms(2)] assms(1,3) by (auto simp: rd_stream_def rd_at_end_def rd_wf_def)

lemma gets_ahead:
  assumes "rd_ok b" "gets rd ok b xs b'" "rd_unread b @ xs = ys @ rd_unread b'"
  shows "ahead b = ys @ ahead b'"
  using gets_stream(2) [OF assms(1,2)] assms(3) unfolding rd_queue_def by (metis append.assoc)

lemma buffered_delivers:
  assumes "rd_ok b"
  shows "delivers (rd_Read rd) ahead rd_ok b p"
proof -
  have wf: "rd_wf ok b" and ok: "ok (rd_rd b)" using assms by (simp_all add: rd_stream_def rd_wf_def)
  obtain b' xs p' k e where r: "rd_Read rd b p = Inr (b', p', int k, e)" "gets rd ok b xs b'" "length p' = length p" "k \<le> length p"
    "rd_unread b @ xs = take k p' @ rd_unread b'" "e \<noteq> None \<longrightarrow> rd_unread b' = [] \<and> pulls rd (rd_rd b, rd_err b) xs (rd_rd b', e)"
    and c: "(p \<noteq> [] \<longrightarrow> 0 < k \<or> e \<noteq> None) \<and> drop k p' = drop k p
       \<or> (\<exists>r q. ok (rd_rd b) \<and> q \<noteq> [] \<and> rd (rd_rd b) q = Inr (r, p', int k, e) \<and> q = p)
       \<or> (\<exists>r q q'. q \<noteq> [] \<and> rd (rd_rd b) q = Inr (r, q', 0, None))"
    using honest.Read_gets [OF wf, of p] by blast
  have p: "(p \<noteq> [] \<longrightarrow> 0 < k \<or> e \<noteq> None) \<and> drop k p' = drop k p"
    using c
  proof (elim disjE exE conjE)
    fix r q assume q: "rd (rd_rd b) q = Inr (r, p', int k, e)" "q = p"
    obtain r2 k2 e2 where d: "rd (rd_rd b) p = Inr (r2, take k2 (rest (rd_rd b)) @ drop k2 p, int k2, e2)"
      "k2 \<le> length p" "k2 \<le> length (rest (rd_rd b))" "e2 = None \<and> (p = [] \<or> 0 < k2) \<or> e2 = Some EOF \<and> k2 = length (rest (rd_rd b))"
      by (rule deliversE [OF delivers [OF ok, of p]])
    then have "k2 = k" "e2 = e" "p' = take k (rest (rd_rd b)) @ drop k p" using q by auto
    then show ?thesis using d(2-4) by auto
  next
    fix r q q' assume "q \<noteq> []" "rd (rd_rd b) q = Inr (r, q', 0, None)"
    then show ?thesis using no_idle [OF ok] by blast
  qed simp
  have ah: "ahead b = take k p' @ ahead b'" using gets_ahead [OF assms r(2,5)] .
  have end': "e = Some EOF \<and> ahead b' = []" if "e \<noteq> None"
    using that r(6) pulls_end [OF assms, of xs b' e] by (auto simp: rd_queue_def)
  have lk: "length (take k p') = k" using r(3,4) by simp
  then have "take k (ahead b) = take k p'" "drop k (ahead b) = ahead b'" "k \<le> length (ahead b)" unfolding ah by simp_all
  moreover have "rd_Read rd b p = Inr (b', take k p' @ drop k p, int k, e)"
    using r(1) p append_take_drop_id [of k p'] by simp
  moreover have "e = None \<and> (p = [] \<or> 0 < k) \<or> e = Some EOF \<and> k = length (ahead b)"
    using p end' lk ah by (cases "e = None") auto
  ultimately show ?thesis using gets_stream(1) [OF assms r(2)] r(4)
    by (intro deliversI [where r' = b' and k = k and e = e]) simp_all
qed

text \<open>A buffered reader over a stream is again a stream.\<close>

lemma buffered_reader: "stream_reader (rd_Read rd) ahead rd_ok"
  by unfold_locales (rule buffered_delivers)

lemma rd_ok_wf: "rd_ok b \<Longrightarrow> rd_wf ok b"
  by (simp add: rd_stream_def)

text \<open>Peeking and discarding.\<close>

lemma Peek_stream:
  assumes "rd_ok b"
  shows "\<exists>b'. rd_Peek rd b n = Some (Inr (b',
        if n < 0 then [] else take (min (nat n) (length (rd_buf b))) (ahead b),
        if n < 0 then Some ErrNegativeCount else if n > int (length (rd_buf b)) then Some ErrBufferFull
        else if nat n \<le> length (ahead b) then None else Some EOF))
    \<and> rd_ok b' \<and> ahead b' = ahead b \<and> length (rd_buf b') = length (rd_buf b)"
proof (cases "n < 0")
  case True
  then show ?thesis using assms by (intro exI [of _ b]) (simp add: rd_Peek_def)
next
  case False
  let ?B = "length (rd_buf b)"
  obtain b' xs e where p: "rd_Peek rd b n = Some (Inr (b', take (nat n) (rd_unread b'), e))" "gets rd ok b xs b'" "rd_unread b' = rd_unread b @ xs"
    and e: "n \<le> int ?B \<and> nat n \<le> length (rd_unread b') \<and> e = None
       \<or> n \<le> int ?B \<and> length (rd_unread b') < nat n \<and> e \<noteq> None \<and> pulls rd (rd_rd b, rd_err b) xs (rd_rd b', e)
       \<or> n > int ?B \<and> e = Some ErrBufferFull \<and> (length (rd_unread b') = ?B \<or> rd_err b' \<noteq> None)"
    using honest.Peek_gets [OF rd_ok_wf [OF assms], of n] False by auto
  have ok: "rd_ok b'" and rest: "rest (rd_rd b) = xs @ rest (rd_rd b')" using gets_stream [OF assms p(2)] .
  have ah: "ahead b' = ahead b" using gets_ahead [OF assms p(2), of "[]"] p(3) by simp
  have len: "length (rd_buf b') = ?B" using p(2) by (simp add: gets_def)
  have le: "length (rd_unread b') \<le> ?B" using rd_unread_len(2) [OF rd_ok_wf [OF ok]] len by simp
  have "take (nat n) (rd_unread b') = take (min (nat n) ?B) (ahead b) \<and> e = (if n > int ?B then Some ErrBufferFull
        else if nat n \<le> length (ahead b) then None else Some EOF)"
  proof -
    consider "n \<le> int ?B" "nat n \<le> length (rd_unread b')" "e = None"
      | "n \<le> int ?B" "length (rd_unread b') < nat n" "e \<noteq> None" "pulls rd (rd_rd b, rd_err b) xs (rd_rd b', e)"
      | "n > int ?B" "e = Some ErrBufferFull" "length (rd_unread b') = ?B \<or> rd_err b' \<noteq> None"
      using e by blast
    then show ?thesis
    proof cases
    case a: 1
    then have "nat n \<le> length (ahead b')" "take (nat n) (ahead b') = take (nat n) (rd_unread b')" by (simp_all add: rd_queue_def)
    moreover have "min (nat n) ?B = nat n" using a(1) by simp
    ultimately show ?thesis using a ah by simp
  next
    case a: 2
    then have r: "e = Some EOF" "rest (rd_rd b') = []" using pulls_end [OF assms a(4)] by auto
    then have "ahead b = rd_unread b'" using ah by (simp add: rd_queue_def)
    moreover have "min (nat n) ?B = nat n" using a(1) by simp
    ultimately show ?thesis using a r(1) by simp
  next
    case a: 3
    have "take ?B (ahead b) = rd_unread b'"
    proof (cases "length (rd_unread b') = ?B")
      case True
      then have "take ?B (ahead b') = rd_unread b'" by (simp add: rd_queue_def)
      then show ?thesis using ah by simp
    next
      case False
      then have "rest (rd_rd b') = []" using a(3) ok by (auto simp: rd_stream_def rd_at_end_def)
      then have "take ?B (ahead b') = rd_unread b'" using le by (simp add: rd_queue_def)
      then show ?thesis using ah by simp
    qed
    moreover have "take (nat n) (rd_unread b') = rd_unread b'" "min (nat n) ?B = ?B" using a(1) le by auto
    ultimately show ?thesis using a by simp
    qed
  qed
  then show ?thesis using p(1) ok ah len False by (intro exI [of _ b']) simp
qed

lemma Discard_stream:
  assumes "rd_ok b" "0 \<le> n"
  shows "\<exists>b'. rd_Discard rd b n = Some (Inr (b', int (min (nat n) (length (ahead b))), if nat n \<le> length (ahead b) then None else Some EOF))
    \<and> rd_ok b' \<and> ahead b' = drop (nat n) (ahead b) \<and> length (rd_buf b') = length (rd_buf b)"
proof (cases "n = 0")
  case True
  then show ?thesis using assms by (intro exI [of _ b]) (simp add: rd_Discard_def)
next
  case False
  define m where "m = nat n"
  have m: "n = int m" "0 < m" using assms(2) False by (simp_all add: m_def)
  obtain b' xs ys e where d: "discard_loop rd (int m) (int m) b = Some (Inr (b', int (m - m + length ys), e))" "gets rd ok b xs b'"
    "rd_unread b @ xs = ys @ rd_unread b'"
    and e: "length ys = m \<and> e = None \<or> length ys < m \<and> rd_unread b' = [] \<and> e \<noteq> None \<and> pulls rd (rd_rd b, rd_err b) xs (rd_rd b', e)"
    using honest.discard_loop_gets [OF rd_ok_wf [OF assms(1)] m(2) le_refl] by blast
  have ah: "ahead b = ys @ ahead b'" using gets_ahead [OF assms(1) d(2,3)] .
  have "min m (length (ahead b)) = length ys \<and> e = (if m \<le> length (ahead b) then None else Some EOF) \<and> ahead b' = drop m (ahead b)"
    using e
  proof (elim disjE conjE)
    assume a: "length ys < m" "rd_unread b' = []" "e \<noteq> None" "pulls rd (rd_rd b, rd_err b) xs (rd_rd b', e)"
    then have "e = Some EOF" "ahead b' = []" using pulls_end [OF assms(1) a(4)] by (auto simp: rd_queue_def)
    then show ?thesis using a ah by simp
  qed (use ah in simp)
  moreover have "length (rd_buf b') = length (rd_buf b)" using d(2) by (simp add: gets_def)
  ultimately show ?thesis using d(1) m gets_stream(1) [OF assms(1) d(2)] by (intro exI [of _ b']) (simp add: rd_Discard_def)
qed

lemma ReadByte_stream:
  assumes "rd_ok b"
  shows "\<exists>b'. rd_ReadByte rd b = Some (Inr (b', if ahead b = [] then 0 else hd (ahead b), if ahead b = [] then Some EOF else None))
    \<and> rd_ok b' \<and> ahead b' = tl (ahead b) \<and> length (rd_buf b') = length (rd_buf b) \<and> (ahead b \<noteq> [] \<longrightarrow> marks b' (hd (ahead b)) \<and> 0 < rd_r b')"
proof -
  obtain b' xs where g: "gets rd ok b xs b'" and r: "(\<exists>c. rd_ReadByte rd b = Some (Inr (b', c, None)) \<and> rd_unread b @ xs = c # rd_unread b' \<and> marks b' c \<and> 0 < rd_r b')
     \<or> (\<exists>e. rd_ReadByte rd b = Some (Inr (b', 0, e)) \<and> rd_unread b = [] \<and> xs = [] \<and> rd_unread b' = [] \<and> e \<noteq> None
          \<and> pulls rd (rd_rd b, rd_err b) xs (rd_rd b', e))"
    using honest.ReadByte_gets [OF rd_ok_wf [OF assms]] by blast
  have len: "length (rd_buf b') = length (rd_buf b)" using g by (simp add: gets_def)
  from r show ?thesis
  proof (elim disjE exE conjE)
    fix c assume c: "rd_ReadByte rd b = Some (Inr (b', c, None))" "rd_unread b @ xs = c # rd_unread b'" "marks b' c" "0 < rd_r b'"
    then have "ahead b = [c] @ ahead b'" using gets_ahead [OF assms g, of "[c]"] by simp
    then show ?thesis using c gets_stream(1) [OF assms g] len by (intro exI [of _ b']) simp
  next
    fix e assume e: "rd_ReadByte rd b = Some (Inr (b', 0, e))" "rd_unread b = []" "xs = []" "rd_unread b' = []" "e \<noteq> None"
      "pulls rd (rd_rd b, rd_err b) xs (rd_rd b', e)"
    then have "e = Some EOF" "ahead b' = []" using pulls_end [OF assms e(6)] by (simp_all add: rd_queue_def)
    moreover have "ahead b = ahead b'" using gets_ahead [OF assms g, of "[]"] e by simp
    ultimately show ?thesis using e(1) gets_stream(1) [OF assms g] len by (intro exI [of _ b']) simp
  qed
qed

lemma ReadRune_stream:
  assumes "rd_ok b"
  shows "\<exists>b'. rd_ReadRune rd b = Some (Inr (if ahead b = [] then (b', 0, 0, Some EOF)
        else (b', fst (DecodeRune (ahead b)), int (snd (DecodeRune (ahead b))), None)))
    \<and> rd_ok b' \<and> ahead b' = drop (snd (DecodeRune (ahead b))) (ahead b) \<and> length (rd_buf b') = length (rd_buf b)
    \<and> (ahead b \<noteq> [] \<longrightarrow> marks b' (ahead b ! (snd (DecodeRune (ahead b)) - 1)) \<and> rd_lastRuneSize b' = int (snd (DecodeRune (ahead b)))
        \<and> int (snd (DecodeRune (ahead b))) \<le> rd_r b'
        \<and> seg (nat (rd_r b') - snd (DecodeRune (ahead b))) (nat (rd_w b')) (rd_buf b') @ rest (rd_rd b') = ahead b)"
proof -
  obtain b' xs u where g: "gets rd ok b xs b'" "u = rd_unread b @ xs"
    and r: "(\<exists>r n. rd_ReadRune rd b = Some (Inr (b', r, int n, None)) \<and> u \<noteq> [] \<and> DecodeRune u = (r, n) \<and> rd_unread b' = drop n u
        \<and> (FullRune u \<or> rd_err b' \<noteq> None) \<and> marks b' (u ! (n - 1)) \<and> int n \<le> rd_r b' \<and> rd_lastRuneSize b' = int n
        \<and> seg (nat (rd_r b') - n) (nat (rd_w b')) (rd_buf b') = u)
     \<or> (\<exists>e. rd_ReadRune rd b = Some (Inr (b', 0, 0, e)) \<and> u = [] \<and> rd_unread b' = [] \<and> e \<noteq> None
          \<and> pulls rd (rd_rd b, rd_err b) xs (rd_rd b', e))"
    using honest.ReadRune_gets [OF rd_ok_wf [OF assms]] by blast
  have len: "length (rd_buf b') = length (rd_buf b)" using g(1) by (simp add: gets_def)
  have ok: "rd_ok b'" and ah: "ahead b = u @ rest (rd_rd b')"
    using gets_stream [OF assms g(1)] g(2) by (simp_all add: rd_queue_def)
  from r show ?thesis
  proof
    assume "\<exists>r n. rd_ReadRune rd b = Some (Inr (b', r, int n, None)) \<and> u \<noteq> [] \<and> DecodeRune u = (r, n) \<and> rd_unread b' = drop n u
        \<and> (FullRune u \<or> rd_err b' \<noteq> None) \<and> marks b' (u ! (n - 1)) \<and> int n \<le> rd_r b' \<and> rd_lastRuneSize b' = int n
        \<and> seg (nat (rd_r b') - n) (nat (rd_w b')) (rd_buf b') = u"
    then obtain r n where a: "rd_ReadRune rd b = Some (Inr (b', r, int n, None))" "u \<noteq> []" "DecodeRune u = (r, n)" "rd_unread b' = drop n u"
      "FullRune u \<or> rd_err b' \<noteq> None" "marks b' (u ! (n - 1))" "int n \<le> rd_r b'" "rd_lastRuneSize b' = int n"
      "seg (nat (rd_r b') - n) (nat (rd_w b')) (rd_buf b') = u"
      by (elim exE conjE) (rule that)
    have n: "0 < n" "n \<le> length u" using DecodeRune_size [OF a(2)] a(3) by simp_all
    have "DecodeRune (ahead b) = (r, n)"
    proof (cases "FullRune u")
      case True
      then show ?thesis using FullRune_settled a(3) ah by metis
    next
      case False
      then have "rest (rd_rd b') = []" using a(5) ok by (auto simp: rd_stream_def rd_at_end_def)
      then show ?thesis using ah a(3) by simp
    qed
    moreover have "ahead b' = drop n (ahead b)" using a(4) n(2) ah by (simp add: rd_queue_def)
    moreover have "ahead b ! (n - 1) = u ! (n - 1)" using nth_append_left [of "n - 1" u "rest (rd_rd b')"] n ah by simp
    ultimately show ?thesis using a ah ok len by (intro exI [of _ b']) simp
  next
    assume "\<exists>e. rd_ReadRune rd b = Some (Inr (b', 0, 0, e)) \<and> u = [] \<and> rd_unread b' = [] \<and> e \<noteq> None
      \<and> pulls rd (rd_rd b, rd_err b) xs (rd_rd b', e)"
    then obtain e where e: "rd_ReadRune rd b = Some (Inr (b', 0, 0, e))" "u = []" "rd_unread b' = []" "e \<noteq> None"
      "pulls rd (rd_rd b, rd_err b) xs (rd_rd b', e)"
      by blast
    then have "e = Some EOF" "ahead b' = []" "ahead b = []" using pulls_end [OF assms e(5)] ah by (simp_all add: rd_queue_def)
    then show ?thesis using e(1) ok len by (intro exI [of _ b']) simp
  qed
qed

end

end
