(* ===== verification/BufioReaderQueue.thy ===== *)
theory BufioReaderQueue
  imports BufioReaderProps
begin

text \<open>
  The methods of the buffered reader that look for a delimiter, over a stream, and the refinement: each
  method is an operation on the queue of bytes not handed out.
\<close>

section \<open>Lines on a queue\<close>

text \<open>
  What \<open>ReadSlice\<close> may give for a queue \<open>q\<close> and a buffer of \<open>B\<close> bytes: the bytes up to the delimiter, a
  full buffer without it, or everything and the end of the stream.
\<close>

definition slice_spec :: "nat \<Rightarrow> byte \<Rightarrow> bytes \<Rightarrow> bytes \<Rightarrow> io_error option \<Rightarrow> bytes \<Rightarrow> bool" where
  "slice_spec B delim q line e q' \<longleftrightarrow> q = line @ q' \<and> length line \<le> B \<and>
     (e = None \<and> (\<exists>l. line = l @ [delim] \<and> delim \<notin> set l)
      \<or> e = Some ErrBufferFull \<and> length line = B \<and> delim \<notin> set line
      \<or> e = Some EOF \<and> q' = [] \<and> delim \<notin> set line)"

text \<open>\<open>ReadBytes\<close> is not limited by the buffer.\<close>

definition line_spec :: "byte \<Rightarrow> bytes \<Rightarrow> bytes \<times> io_error option \<times> bytes" where
  "line_spec delim q =
     (if delim \<in> set q then (takeWhile (\<lambda>c. c \<noteq> delim) q @ [delim], None, tl (dropWhile (\<lambda>c. c \<noteq> delim) q))
      else (q, Some EOF, []))"

lemma scan_past:
  assumes "delim \<notin> set l"
  shows "takeWhile (\<lambda>c. c \<noteq> delim) (l @ q) = l @ takeWhile (\<lambda>c. c \<noteq> delim) q"
    and "dropWhile (\<lambda>c. c \<noteq> delim) (l @ q) = dropWhile (\<lambda>c. c \<noteq> delim) q"
  using assms by (induction l) auto

lemma line_spec_here: "delim \<notin> set l \<Longrightarrow> line_spec delim (l @ delim # q) = (l @ [delim], None, q)"
  by (simp add: line_spec_def scan_past)

lemma line_spec_skip:
  "delim \<notin> set l \<Longrightarrow> line_spec delim (l @ q) = (case line_spec delim q of (line, e, q') \<Rightarrow> (l @ line, e, q'))"
  by (simp add: line_spec_def scan_past)

text \<open>
  \<open>ReadLine\<close>: a part of a long line, which never ends in a carriage return whose line feed is still to come; a line
  without its end; the last line; or the end of the stream.
\<close>

definition readline_spec :: "nat \<Rightarrow> bytes \<Rightarrow> bytes \<Rightarrow> bool \<Rightarrow> io_error option \<Rightarrow> bytes \<Rightarrow> bool" where
  "readline_spec B q line long e q' \<longleftrightarrow> 0x0A \<notin> set line \<and>
     (if long then e = None \<and> q = line @ q' \<and> line \<noteq> [] \<and> last line \<noteq> 0x0D \<and> length line = B
         \<or> e = None \<and> q = line @ q' \<and> length line = B - 1 \<and> (\<exists>t. q' = 0x0D # t)
      else e = None \<and> q = line @ [0x0D, 0x0A] @ q'
         \<or> e = None \<and> q = line @ [0x0A] @ q' \<and> (line = [] \<or> last line \<noteq> 0x0D)
         \<or> e = None \<and> q = line \<and> line \<noteq> [] \<and> q' = []
         \<or> e = Some EOF \<and> q = [] \<and> line = [] \<and> q' = [])"

section \<open>Fragments\<close>

lemma copy_frags_all:
  assumes "sum_list (map length full) \<le> length z"
  shows "copy_frags (pre @ z) (length pre) full
    = (pre @ concat full @ drop (sum_list (map length full)) z, length pre + sum_list (map length full))"
  using assms
proof (induction full arbitrary: pre z)
  case (Cons xs full)
  have m: "min (length (pre @ z) - length pre) (length xs) = length xs" using Cons.prems by simp
  have "copy_frags (pre @ z) (length pre) (xs # full) = copy_frags ((pre @ xs) @ drop (length xs) z) (length (pre @ xs)) full"
    unfolding copy_frags.simps Let_def m by simp
  also have "\<dots> = ((pre @ xs) @ concat full @ drop (sum_list (map length full)) (drop (length xs) z),
      length (pre @ xs) + sum_list (map length full))"
    using Cons.prems by (intro Cons.IH) simp
  finally show ?case by (simp only: drop_drop append.assoc concat.simps list.map sum_list.Cons length_append add.assoc add.commute [of "length xs"])
qed simp

lemma ReadBytes_concat:
  assumes "readbytes_loop rd delim b [] = Some (Inr (b', full, frag, e))"
  shows "rd_ReadBytes rd b delim = Some (Inr (b', concat full @ frag, e))"
proof -
  let ?z = "replicate (sum_list (map length full) + length frag) (0 :: byte)"
  have 1: "copy_frags ?z 0 full = (concat full @ replicate (length frag) 0, sum_list (map length full))"
    using copy_frags_all [of full ?z "[]"] by simp
  have "length (concat full) = sum_list (map length full)" by (simp add: length_concat)
  then have "copy_frags (concat full @ replicate (length frag) 0) (sum_list (map length full)) [frag]
      = (concat full @ frag, sum_list (map length full) + length frag)"
    using copy_frags_all [of "[frag]" "replicate (length frag) 0" "concat full"] by simp
  then show ?thesis using assms 1 by (simp add: rd_ReadBytes_def)
qed

section \<open>Lines over a stream\<close>

context stream_reader
begin

lemma Read_buffer:
  assumes "rd_ok b" "rd_Read rd b p = Inr (b', p', n, e)"
  shows "length (rd_buf b') = length (rd_buf b)"
  using honest.Read_gets [OF rd_ok_wf [OF assms(1)], of p] assms(2) by (auto simp: gets_def)

lemma ReadSlice_stream:
  assumes "rd_ok b"
  shows "\<exists>b' line e. rd_ReadSlice rd b delim = Some (Inr (b', line, e)) \<and> rd_ok b' \<and> length (rd_buf b') = length (rd_buf b)
    \<and> slice_spec (length (rd_buf b)) delim (ahead b) line e (ahead b')
    \<and> (line \<noteq> [] \<longrightarrow> 0 < rd_r b' \<and> rd_buf b' ! nat (rd_r b' - 1) = last line)"
proof -
  obtain b' xs line e where b': "rd_ReadSlice rd b delim = Some (Inr (b', line, e))" "gets rd ok b xs b'"
    "rd_unread b @ xs = line @ rd_unread b'" "length line \<le> length (rd_buf b)"
    "line \<noteq> [] \<longrightarrow> marks b' (last line) \<and> 0 < rd_r b' \<and> rd_buf b' ! nat (rd_r b' - 1) = last line"
    and e: "e = None \<and> (\<exists>l. line = l @ [delim] \<and> delim \<notin> set l)
       \<or> e = Some ErrBufferFull \<and> length line = length (rd_buf b) \<and> delim \<notin> set line \<and> rd_unread b' = []
       \<or> e \<noteq> None \<and> delim \<notin> set line \<and> rd_unread b' = [] \<and> pulls rd (rd_rd b, rd_err b) xs (rd_rd b', e)"
    using honest.ReadSlice_gets [OF rd_ok_wf [OF assms], of delim] by (elim exE conjE) (rule that)
  have ah: "ahead b = line @ ahead b'" using gets_ahead [OF assms b'(2,3)] .
  have "slice_spec (length (rd_buf b)) delim (ahead b) line e (ahead b')"
    using e
  proof (elim disjE)
    assume "e \<noteq> None \<and> delim \<notin> set line \<and> rd_unread b' = [] \<and> pulls rd (rd_rd b, rd_err b) xs (rd_rd b', e)"
    then show ?thesis using pulls_end [OF assms, of xs b' e] ah b'(4) by (simp add: slice_spec_def rd_queue_def)
  qed (use ah b'(4) in \<open>auto simp: slice_spec_def\<close>)
  moreover have "length (rd_buf b') = length (rd_buf b)" using b'(2) by (simp add: gets_def)
  ultimately show ?thesis using b'(1,5) gets_stream(1) [OF assms b'(2)]
    by (intro exI [of _ b'] exI [of _ line] exI [of _ e]) simp
qed

lemma readbytes_stream:
  assumes "rd_ok b"
  shows "\<exists>b' full2 frag. readbytes_loop rd delim b full = Some (Inr (b', full @ full2, frag, fst (snd (line_spec delim (ahead b)))))
    \<and> rd_ok b' \<and> length (rd_buf b') = length (rd_buf b)
    \<and> concat full2 @ frag = fst (line_spec delim (ahead b)) \<and> ahead b' = snd (snd (line_spec delim (ahead b)))"
  using assms
proof (induction "length (ahead b)" arbitrary: b full rule: less_induct)
  case less
  obtain b' line e where b': "rd_ReadSlice rd b delim = Some (Inr (b', line, e))" "rd_ok b'" "length (rd_buf b') = length (rd_buf b)"
    and s: "slice_spec (length (rd_buf b)) delim (ahead b) line e (ahead b')"
    using ReadSlice_stream [OF less.prems, of delim] by blast
  have q: "ahead b = line @ ahead b'" using s by (simp add: slice_spec_def)
  consider l where "e = None" "line = l @ [delim]" "delim \<notin> set l"
    | "e = Some ErrBufferFull" "length line = length (rd_buf b)" "delim \<notin> set line"
    | "e = Some EOF" "ahead b' = []" "delim \<notin> set line"
    using s by (auto simp: slice_spec_def)
  then show ?case
  proof cases
    case 1
    then have "line_spec delim (ahead b) = (line, None, ahead b')" using q line_spec_here [of delim l "ahead b'"] by simp
    then show ?thesis using b' 1(1)
      by (intro exI [of _ b'] exI [of _ "[]"] exI [of _ line]) (subst readbytes_loop.simps, simp)
  next
    case 2
    have "0 < length line" using less.prems 2(2) by (auto simp: rd_stream_def rd_wf_def minReadBufferSize_def)
    then have "length (ahead b') < length (ahead b)" using q by simp
    from less.hyps [OF this b'(2), of "full @ [line]"]
    obtain b2 full2 frag where IH: "readbytes_loop rd delim b' (full @ [line])
        = Some (Inr (b2, (full @ [line]) @ full2, frag, fst (snd (line_spec delim (ahead b')))))"
      "rd_ok b2" "length (rd_buf b2) = length (rd_buf b')"
      "concat full2 @ frag = fst (line_spec delim (ahead b'))" "ahead b2 = snd (snd (line_spec delim (ahead b')))" by blast
    have "line_spec delim (ahead b) = (line @ fst (line_spec delim (ahead b')), snd (line_spec delim (ahead b')))"
      using line_spec_skip [OF 2(3), of "ahead b'"] q by (simp add: case_prod_beta)
    moreover have "readbytes_loop rd delim b full = readbytes_loop rd delim b' (full @ [line])"
      using b'(1) 2(1) by (subst readbytes_loop.simps) simp
    ultimately show ?thesis using IH b'(3)
      by (intro exI [of _ b2] exI [of _ "line # full2"] exI [of _ frag]) simp
  next
    case 3
    have "(Some EOF :: io_error option) \<noteq> Some ErrBufferFull" by (simp add: ErrBufferFull_def)
    moreover have "line_spec delim (ahead b) = (line, Some EOF, [])" using q 3 by (simp add: line_spec_def)
    ultimately show ?thesis using b' 3
      by (intro exI [of _ b'] exI [of _ "[]"] exI [of _ line]) (subst readbytes_loop.simps, simp)
  qed
qed

lemma ReadBytes_stream:
  assumes "rd_ok b"
  shows "\<exists>b'. rd_ReadBytes rd b delim = Some (Inr (b', fst (line_spec delim (ahead b)), fst (snd (line_spec delim (ahead b)))))
    \<and> rd_ok b' \<and> length (rd_buf b') = length (rd_buf b) \<and> ahead b' = snd (snd (line_spec delim (ahead b)))"
proof -
  obtain b' full2 frag where l: "readbytes_loop rd delim b [] = Some (Inr (b', [] @ full2, frag, fst (snd (line_spec delim (ahead b)))))"
    "rd_ok b'" "length (rd_buf b') = length (rd_buf b)" "concat full2 @ frag = fst (line_spec delim (ahead b))"
    "ahead b' = snd (snd (line_spec delim (ahead b)))"
    using readbytes_stream [OF assms, of delim "[]"] by (elim exE conjE) (rule that)
  then show ?thesis using ReadBytes_concat [of rd delim b b' full2 frag] by (intro exI [of _ b']) simp
qed

lemma ReadLine_stream:
  assumes "rd_ok b"
  shows "\<exists>b' line long e. rd_ReadLine rd b = Some (Inr (b', line, long, e)) \<and> rd_ok b' \<and> length (rd_buf b') = length (rd_buf b)
    \<and> readline_spec (length (rd_buf b)) (ahead b) line long e (ahead b')"
proof -
  let ?B = "length (rd_buf b)"
  obtain b' line e where b': "rd_ReadSlice rd b 0x0A = Some (Inr (b', line, e))" "rd_ok b'" "length (rd_buf b') = ?B"
    and s: "slice_spec ?B 0x0A (ahead b) line e (ahead b')"
    and last: "line \<noteq> [] \<longrightarrow> 0 < rd_r b' \<and> rd_buf b' ! nat (rd_r b' - 1) = last line"
    using ReadSlice_stream [OF assms, of "0x0A"] by blast
  have q: "ahead b = line @ ahead b'" using s by (simp add: slice_spec_def)
  have B: "16 \<le> ?B" using assms by (simp add: rd_stream_def rd_wf_def minReadBufferSize_def)
  have *: "rd_ReadLine rd b = Some (
       if e = Some ErrBufferFull then
         if line \<noteq> [] \<and> last line = 0x0D then Inr (b'\<lparr>rd_r := rd_r b' - 1\<rparr>, butlast line, True, None)
         else Inr (b', line, True, None)
       else if line = [] then Inr (b', [], False, e)
       else if last line = 0x0A then
         Inr (b', take (length line - (if length line > 1 \<and> line ! (length line - 2) = 0x0D then 2 else 1)) line, False, None)
       else Inr (b', line, False, None))"
    using b'(1) last by (cases "line = []") (auto simp: rd_ReadLine_def)
  consider l where "e = None" "line = l @ [0x0A]" "0x0A \<notin> set l"
    | "e = Some ErrBufferFull" "length line = ?B" "0x0A \<notin> set line"
    | "e = Some EOF" "ahead b' = []" "0x0A \<notin> set line"
    using s by (auto simp: slice_spec_def)
  then show ?thesis
  proof cases
    case 1
    show ?thesis
    proof (cases "l \<noteq> [] \<and> last l = 0x0D")
      case True
      then obtain l' where l': "l = l' @ [0x0D]" by (metis append_butlast_last_id)
      then have "rd_ReadLine rd b = Some (Inr (b', l', False, None))" using * 1 by (simp add: nth_append)
      moreover have "readline_spec ?B (ahead b) l' False None (ahead b')" using q 1 l' by (simp add: readline_spec_def)
      ultimately show ?thesis using b' by blast
    next
      case False
      have "length line > 1 \<and> line ! (length line - 2) = 0x0D \<longleftrightarrow> l \<noteq> [] \<and> last l = 0x0D"
        using 1(2) by (cases l rule: rev_cases) (simp_all add: nth_append)
      moreover have "last line = 0x0A" "e \<noteq> Some ErrBufferFull" "line \<noteq> []" "take (length line - 1) line = l" using 1 by simp_all
      ultimately have "rd_ReadLine rd b = Some (Inr (b', l, False, None))" unfolding * using False by (simp only: if_False if_True simp_thms)
      moreover have "readline_spec ?B (ahead b) l False None (ahead b')" using q 1 False by (simp add: readline_spec_def)
      ultimately show ?thesis using b' by blast
    qed
  next
    case 2
    then have ne: "line \<noteq> []" using B by auto
    show ?thesis
    proof (cases "last line = 0x0D")
      case True
      let ?b = "b'\<lparr>rd_r := rd_r b' - 1\<rparr>"
      obtain i j where ij: "rd_r b' = int i" "rd_w b' = int j" "i \<le> j" "j \<le> length (rd_buf b')" "rd_unread b' = seg i j (rd_buf b')"
        using rd_wfE [OF rd_ok_wf [OF b'(2)]] by metis
      have i: "0 < i" "rd_buf b' ! (i - 1) = 0x0D" using last ne ij(1) True by (auto simp: nat_diff_distrib)
      have "seg (i - 1) j (rd_buf b') = 0x0D # seg i j (rd_buf b')"
        using i ij(3,4) by (cases i) (auto simp: seg_def Cons_nth_drop_Suc [symmetric] take_Cons')
      then have "ahead ?b = 0x0D # ahead b'" using ij i by (simp add: rd_queue_def rd_unread_def nat_diff_distrib)
      moreover have "line = butlast line @ [0x0D]" using ne True by (metis append_butlast_last_id)
      ultimately have "ahead b = butlast line @ ahead ?b" using q by (metis append.assoc append_Cons append_Nil)
      moreover have "0x0A \<notin> set (butlast line)" using 2(3) by (meson in_set_butlastD)
      ultimately have "readline_spec ?B (ahead b) (butlast line) True None (ahead ?b)"
        using 2(2) \<open>ahead ?b = _\<close> by (simp add: readline_spec_def)
      moreover have "rd_ok ?b" using b'(2) ij(1) i(1) by (auto simp: rd_stream_def rd_wf_def)
      moreover have "rd_ReadLine rd b = Some (Inr (?b, butlast line, True, None))" using * 2(1) ne True by simp
      ultimately show ?thesis using b'(3) by (intro exI [of _ ?b]) auto
    next
      case False
      then have "rd_ReadLine rd b = Some (Inr (b', line, True, None))" using * 2(1) by simp
      moreover have "readline_spec ?B (ahead b) line True None (ahead b')" using q 2 False ne by (simp add: readline_spec_def)
      ultimately show ?thesis using b' by blast
    qed
  next
    case 3
    have ne: "e \<noteq> Some ErrBufferFull" using 3(1) by (simp add: ErrBufferFull_def)
    show ?thesis
    proof (cases "line = []")
      case True
      then have "rd_ReadLine rd b = Some (Inr (b', [], False, Some EOF))" using * 3(1) ne by simp
      moreover have "readline_spec ?B (ahead b) [] False (Some EOF) (ahead b')" using q 3 True by (simp add: readline_spec_def)
      ultimately show ?thesis using b' by blast
    next
      case False
      then have "last line \<noteq> 0x0A" using 3(3) by (metis last_in_set)
      then have "rd_ReadLine rd b = Some (Inr (b', line, False, None))" using * ne False by simp
      moreover have "readline_spec ?B (ahead b) line False None (ahead b')" using q 3 False by (simp add: readline_spec_def)
      ultimately show ?thesis using b' by blast
    qed
  qed
qed

end

section \<open>Refinement of a queue\<close>

text \<open>
  What an operation gives for a queue \<open>q\<close> of bytes and a buffer of \<open>B\<close>, and the queue after it.  How much \<open>Read\<close>
  gives is open, and whether a slice as long as the buffer is reported as full when the stream ends there.
\<close>

fun reader_spec :: "nat \<Rightarrow> bytes \<Rightarrow> reader_op \<Rightarrow> reader_out \<Rightarrow> bytes \<Rightarrow> bool" where
  "reader_spec B q (PeekOp n) out q' \<longleftrightarrow> q' = q \<and>
     out = Data (if n < 0 then [] else take (min (nat n) B) q)
       (if n < 0 then Some ErrNegativeCount else if n > int B then Some ErrBufferFull
        else if nat n \<le> length q then None else Some EOF)"
| "reader_spec B q (DiscardOp n) out q' \<longleftrightarrow>
     (if n < 0 then q' = q \<and> out = Counted [] 0 (Some ErrNegativeCount)
      else q' = drop (nat n) q \<and> out = Counted [] (int (min (nat n) (length q))) (if nat n \<le> length q then None else Some EOF))"
| "reader_spec B q (ReadOp p) out q' \<longleftrightarrow>
     (\<exists>k e. k \<le> length p \<and> k \<le> length q \<and> q' = drop k q \<and> out = Counted (take k q @ drop k p) (int k) e
        \<and> (e = None \<and> (p = [] \<or> 0 < k) \<or> e = Some EOF \<and> k = length q))"
| "reader_spec B q ReadByteOp out q' \<longleftrightarrow> q' = tl q \<and> out = (if q = [] then Single 0 (Some EOF) else Single (hd q) None)"
| "reader_spec B q ReadRuneOp out q' \<longleftrightarrow> q' = drop (snd (DecodeRune q)) q
     \<and> out = (if q = [] then RuneRead 0 0 (Some EOF) else RuneRead (fst (DecodeRune q)) (int (snd (DecodeRune q))) None)"
| "reader_spec B q (ReadSliceOp delim) out q' \<longleftrightarrow> (\<exists>line e. out = Data line e \<and> slice_spec B delim q line e q')"
| "reader_spec B q ReadLineOp out q' \<longleftrightarrow> (\<exists>line long e. out = LineRead line long e \<and> readline_spec B q line long e q')"
| "reader_spec B q (ReadBytesOp delim) out q' \<longleftrightarrow>
     q' = snd (snd (line_spec delim q)) \<and> out = Data (fst (line_spec delim q)) (fst (snd (line_spec delim q)))"
| "reader_spec B q UnreadByteOp out q' \<longleftrightarrow> False"
| "reader_spec B q UnreadRuneOp out q' \<longleftrightarrow> False"

fun reader_specs :: "nat \<Rightarrow> bytes \<Rightarrow> reader_op list \<Rightarrow> reader_out list \<Rightarrow> bytes \<Rightarrow> bool" where
  "reader_specs B q [] outs q' \<longleftrightarrow> outs = [] \<and> q' = q"
| "reader_specs B q (op # ops) outs q' \<longleftrightarrow>
     (\<exists>out outs' q1. outs = out # outs' \<and> reader_spec B q op out q1 \<and> reader_specs B q1 ops outs' q')"

definition takes_back :: "reader_op \<Rightarrow> bool" where
  "takes_back op \<longleftrightarrow> op = UnreadByteOp \<or> op = UnreadRuneOp"

context stream_reader
begin

lemma reader_op_queue:
  assumes "rd_ok b" "\<not> takes_back op"
  shows "\<exists>b' out. run_reader_op rd b op = Some (Inr (b', out)) \<and> rd_ok b' \<and> length (rd_buf b') = length (rd_buf b)
    \<and> reader_spec (length (rd_buf b)) (ahead b) op out (ahead b')"
proof (cases op)
  case (PeekOp n)
  then show ?thesis using Peek_stream [OF assms(1), of n] by fastforce
next
  case (DiscardOp n)
  show ?thesis
  proof (cases "n < 0")
    case True
    then show ?thesis using assms(1) DiscardOp by (simp add: rd_Discard_def)
  next
    case False
    then show ?thesis using Discard_stream [OF assms(1), of n] DiscardOp by fastforce
  qed
next
  case (ReadOp p)
  obtain b' k e where r: "rd_Read rd b p = Inr (b', take k (ahead b) @ drop k p, int k, e)" "rd_ok b'" "k \<le> length p"
    "k \<le> length (ahead b)" "ahead b' = drop k (ahead b)"
    "e = None \<and> (p = [] \<or> 0 < k) \<or> e = Some EOF \<and> k = length (ahead b)"
    by (rule deliversE [OF buffered_delivers [OF assms(1), of p]])
  moreover have "length (rd_buf b') = length (rd_buf b)" using Read_buffer [OF assms(1) r(1)] .
  ultimately show ?thesis using ReadOp by auto
next
  case ReadByteOp
  then show ?thesis using ReadByte_stream [OF assms(1)] by fastforce
next
  case ReadRuneOp
  then show ?thesis using ReadRune_stream [OF assms(1)] by fastforce
next
  case (ReadSliceOp delim)
  then show ?thesis using ReadSlice_stream [OF assms(1), of delim] by fastforce
next
  case ReadLineOp
  then show ?thesis using ReadLine_stream [OF assms(1)] by fastforce
next
  case (ReadBytesOp delim)
  then show ?thesis using ReadBytes_stream [OF assms(1), of delim] by fastforce
qed (use assms(2) in \<open>simp_all add: takes_back_def\<close>)

lemma reader_ops_queue:
  assumes "rd_ok b" "\<forall>op \<in> set ops. \<not> takes_back op"
  shows "\<exists>b' outs. run_reader_ops rd b ops = Some (Inr (b', outs)) \<and> rd_ok b' \<and> length (rd_buf b') = length (rd_buf b)
    \<and> reader_specs (length (rd_buf b)) (ahead b) ops outs (ahead b')"
  using assms
proof (induction ops arbitrary: b)
  case (Cons op ops)
  obtain b1 out where b1: "run_reader_op rd b op = Some (Inr (b1, out))" "rd_ok b1" "length (rd_buf b1) = length (rd_buf b)"
    "reader_spec (length (rd_buf b)) (ahead b) op out (ahead b1)"
    using reader_op_queue [OF Cons.prems(1), of op] Cons.prems(2) by auto
  then obtain b2 outs where "run_reader_ops rd b1 ops = Some (Inr (b2, outs))" "rd_ok b2" "length (rd_buf b2) = length (rd_buf b1)"
    "reader_specs (length (rd_buf b1)) (ahead b1) ops outs (ahead b2)"
    using Cons.IH [OF b1(2)] Cons.prems(2) by auto
  then show ?case using b1 by auto
qed simp

text \<open>Taking back what was read last.\<close>

lemma UnreadByte_stream:
  assumes "rd_ok b" "marks b c"
  shows "\<exists>b'. rd_UnreadByte b = Inr (b', None) \<and> rd_ok b' \<and> ahead b' = c # ahead b
    \<and> rd_UnreadByte b' = Inr (b', Some ErrInvalidUnreadByte) \<and> rd_UnreadRune b' = (b', Some ErrInvalidUnreadRune)"
proof -
  obtain b' where b': "rd_UnreadByte b = Inr (b', None)" "gets rd ok b [] b'" "rd_unread b' = c # rd_unread b"
    "rd_lastByte b' = -1" "rd_lastRuneSize b' = -1"
    using honest.UnreadByte_gets [OF rd_ok_wf [OF assms(1)]] assms(2) by blast
  have "ahead b' = c # ahead b" using gets_stream(2) [OF assms(1) b'(2)] b'(3) by (simp add: rd_queue_def)
  moreover have "rd_UnreadByte b' = Inr (b', Some ErrInvalidUnreadByte)" "rd_UnreadRune b' = (b', Some ErrInvalidUnreadRune)"
    using b'(4,5) by (simp_all add: rd_UnreadByte_def rd_UnreadRune_def)
  ultimately show ?thesis using b'(1) gets_stream(1) [OF assms(1) b'(2)] by blast
qed

lemma UnreadRune_stream:
  assumes "rd_ok b" "rd_lastRuneSize b = int n" "int n \<le> rd_r b"
    "seg (nat (rd_r b) - n) (nat (rd_w b)) (rd_buf b) @ rest (rd_rd b) = q"
  shows "\<exists>b'. rd_UnreadRune b = (b', None) \<and> rd_ok b' \<and> ahead b' = q"
proof -
  obtain b' where b': "rd_UnreadRune b = (b', None)" "gets rd ok b [] b'" "rd_unread b' = seg (nat (rd_r b) - n) (nat (rd_w b)) (rd_buf b)"
    using honest.UnreadRune_gets [OF rd_ok_wf [OF assms(1)]] assms(2,3) by blast
  then have "ahead b' = q" using gets_stream(2) [OF assms(1) b'(2)] assms(4) by (simp add: rd_queue_def)
  then show ?thesis using b'(1) gets_stream(1) [OF assms(1) b'(2)] by blast
qed

end

section \<open>Discard and the mark of the last byte\<close>

text \<open>\<open>Discard\<close> that succeeds leaves the mark, and stops behind a byte of the buffer.\<close>

context honest_reader
begin

lemma discard_keeps_mark:
  assumes "discard_loop rd n remain b = Some res" "rd_wf ok b" "0 < remain" "res = Inr (b', m, None)"
  shows "rd_lastByte b' = rd_lastByte b \<and> 0 < rd_r b'"
proof -
  let ?P = "\<lambda>rd' n remain b res. rd' = rd \<longrightarrow> rd_wf ok b \<longrightarrow> 0 < remain \<longrightarrow> res = Inr (b', m, None)
     \<longrightarrow> rd_lastByte b' = rd_lastByte b \<and> 0 < rd_r b'"
  have "?P rd n remain b res"
  proof (rule discard_loop.raw_induct [where P = ?P, OF _ assms(1)])
    fix f rd' n remain b res
    assume IH: "\<And>rd' n remain b res. f rd' n remain b = Some res \<Longrightarrow> ?P rd' n remain b res"
      and eq: "(case (if rd_Buffered b = 0 then rd_fill rd' b else Inr b) of
        Inl e \<Rightarrow> Some (Inl e)
      | Inr b \<Rightarrow>
          let skip = rd_Buffered b;
              skip = (if skip > remain then remain else skip);
              b = b\<lparr>rd_r := rd_r b + skip\<rparr>;
              remain = remain - skip in
          if remain = 0 then Some (Inr (b, n, None))
          else if rd_err b \<noteq> None then (case rd_readErr b of (b, err) \<Rightarrow> Some (Inr (b, n - remain, err)))
          else f rd' n remain b) = Some res"
    show "?P rd' n remain b res"
    proof (intro impI)
      assume rd': "rd' = rd" and wf: "rd_wf ok b" and pos: "0 < remain" and res: "res = Inr (b', m, None)"
      obtain b1 where b1: "(if rd_Buffered b = 0 then rd_fill rd b else Inr b) = Inr b1" "rd_wf ok b1" "rd_lastByte b1 = rd_lastByte b"
      proof (cases "rd_Buffered b = 0")
        case True
        have "rd_unread b = []" using True rd_wfE [OF wf] by (metis length_0_conv of_nat_eq_0_iff)
        moreover have "16 \<le> length (rd_buf b)" using rd_wfE [OF wf] by metis
        ultimately have "length (rd_unread b) < length (rd_buf b)" by auto
        from fill_gets [OF wf this] show ?thesis using that True by (auto simp: gets_def)
      next
        case False
        then show ?thesis using that [of b] wf by simp
      qed
      define skip where "skip = (if rd_Buffered b1 > remain then remain else rd_Buffered b1)"
      define b2 where "b2 = b1\<lparr>rd_r := rd_r b1 + skip\<rparr>"
      have nn: "0 \<le> rd_Buffered b1" "0 \<le> rd_r b1" using b1(2) by (simp_all add: rd_wf_def rd_Buffered_def)
      then have s: "0 \<le> skip" "skip \<le> remain" "skip \<le> rd_Buffered b1" using pos by (auto simp: skip_def)
      have wf2: "rd_wf ok b2" using b1(2) s(1,3) by (simp add: b2_def rd_wf_def rd_Buffered_def)
      have e: "(if remain - skip = 0 then Some (Inr (b2, n, None))
          else if rd_err b2 \<noteq> None then (case rd_readErr b2 of (b, err) \<Rightarrow> Some (Inr (b, n - (remain - skip), err)))
          else f rd n (remain - skip) b2) = Some res"
        using eq unfolding rd' b1(1) sum.case Let_def skip_def b2_def .
      show "rd_lastByte b' = rd_lastByte b \<and> 0 < rd_r b'"
      proof (cases "remain - skip = 0")
        case True
        then show ?thesis using e res pos nn b1(3) by (auto simp: b2_def)
      next
        case more: False
        show ?thesis
        proof (cases "rd_err b2 = None")
          case True
          then have "f rd n (remain - skip) b2 = Some res" using e more by simp
          then have "rd_lastByte b' = rd_lastByte b2 \<and> 0 < rd_r b'" using IH wf2 res s(2) more by fastforce
          then show ?thesis using b1(3) by (simp add: b2_def)
        next
          case False
          then show ?thesis using e more res by (auto simp: rd_readErr_def)
        qed
      qed
    qed
  qed
  then show ?thesis using assms(2-4) by blast
qed

text \<open>\<open>UnreadByte\<close> writes the byte of the mark over the one before the read position.\<close>

lemma UnreadByte_overwrites:
  assumes "rd_wf ok b" "rd_lastByte b = int (unat c)" "0 < rd_r b"
  shows "\<exists>b'. rd_UnreadByte b = Inr (b', None) \<and> gets rd ok b [] b' \<and> rd_unread b' = c # rd_unread b"
proof -
  obtain i j where b: "rd_r b = int i" "rd_w b = int j" "i \<le> j" "j \<le> length (rd_buf b)" "rd_unread b = seg i j (rd_buf b)"
    using rd_wfE [OF assms(1)] by metis
  let ?b' = "b\<lparr>rd_r := rd_r b - 1, rd_buf := (rd_buf b)[i - 1 := c], rd_lastByte := -1, rd_lastRuneSize := -1\<rparr>"
  have i: "0 < i" "i - 1 < length (rd_buf b)" using assms(3) b by auto
  have n: "nat (int i - 1) = i - 1" "int i - 1 = int (i - 1)" using i by auto
  have un: "rd_UnreadByte b = Inr (?b', None)"
  proof -
    have f: "\<not> (rd_lastByte b < 0 \<or> rd_r b = 0 \<and> rd_w b > 0)"
      unfolding assms(2) using assms(3) by (metis less_irrefl of_nat_less_0_iff)
    have f3: "rd_r b - 1 = int (i - 1)" unfolding b(1) by (rule n(2))
    have w: "word_of_int (rd_lastByte b) = c" unfolding assms(2) by simp
    have g: "0 \<le> int (i - 1) \<and> int (i - 1) < int (length (rd_buf b))" using i(2) by simp
    have "rd_UnreadByte b = (if 0 \<le> rd_r b - 1 \<and> rd_r b - 1 < int (length (rd_buf b)) then
        Inr (b\<lparr>rd_r := rd_r b - 1, rd_buf := (rd_buf b)[nat (rd_r b - 1) := c], rd_lastByte := -1, rd_lastRuneSize := -1\<rparr>, None)
      else Inl IndexOutOfRange)"
      unfolding rd_UnreadByte_def if_not_P [OF f] if_P [OF assms(3)] Let_def
      by (simp add: w)
    then show ?thesis unfolding f3 if_P [OF g] by (simp only: nat_int)
  qed
  have "rd_wf ok ?b'" using assms(1) i b unfolding rd_wf_def by auto
  then have g: "gets rd ok b [] ?b'" by (simp add: gets_def pulls.refl)
  have "rd_unread ?b' = seg (i - 1) j ((rd_buf b)[i - 1 := c])" by (simp add: rd_unread_def b(1,2) n(1))
  also have "\<dots> = c # seg (Suc (i - 1)) j (rd_buf b)"
    using i b(3,4) by (simp add: seg_def Cons_nth_drop_Suc [symmetric] drop_update_cancel take_Cons')
  finally have "rd_unread ?b' = c # rd_unread b" using b(5) i by simp
  then show ?thesis using un g by blast
qed

end

context stream_reader
begin

lemma discard_unread:
  assumes "rd_ok b" "ahead b = c # xs" "0 < n" "n \<le> length xs"
  shows "\<exists>b1 b2 b3. rd_ReadByte rd b = Some (Inr (b1, c, None)) \<and> rd_Discard rd b1 (int n) = Some (Inr (b2, int n, None))
    \<and> ahead b2 = drop n xs \<and> rd_UnreadByte b2 = Inr (b3, None) \<and> rd_ok b3 \<and> ahead b3 = c # drop n xs"
proof -
  obtain b1 where b1: "rd_ReadByte rd b = Some (Inr (b1, c, None))" "rd_ok b1" "ahead b1 = xs" "marks b1 c"
    using ReadByte_stream [OF assms(1)] assms(2) by auto
  obtain b2 where b2: "rd_Discard rd b1 (int n) = Some (Inr (b2, int n, None))" "rd_ok b2" "ahead b2 = drop n xs"
    using Discard_stream [OF b1(2), of "int n"] assms(4) b1(3) by auto
  have "discard_loop rd (int n) (int n) b1 = Some (Inr (b2, int n, None))" using b2(1) assms(3) by (simp add: rd_Discard_def)
  then have "rd_lastByte b2 = rd_lastByte b1 \<and> 0 < rd_r b2"
    using honest.discard_keeps_mark [OF _ rd_ok_wf [OF b1(2)]] assms(3) by simp
  then have m: "rd_lastByte b2 = int (unat c)" "0 < rd_r b2" using b1(4) by (simp_all add: marks_def)
  obtain b3 where b3: "rd_UnreadByte b2 = Inr (b3, None)" "gets rd ok b2 [] b3" "rd_unread b3 = c # rd_unread b2"
    using honest.UnreadByte_overwrites [OF rd_ok_wf [OF b2(2)] m] by blast
  have "ahead b3 = c # ahead b2" using gets_stream(2) [OF b2(2) b3(2)] b3(3) by (simp add: rd_queue_def)
  then show ?thesis using b1(1) b2(1,3) b3(1) gets_stream(1) [OF b2(2) b3(2)] by auto
qed

end

end
