(* ===== verification/BufioWriterProps.thy ===== *)
theory BufioWriterProps
  imports BufioWriterLaws BufioReaderQueue
begin

text \<open>
  The buffered writer as a whole: its operations as data and sequences of them; \<open>ReadFrom\<close> and the reader's
  \<open>WriteTo\<close> between a stream and a writer that never fails.
\<close>

section \<open>Operations as data\<close>

datatype writer_op = WriteOp bytes | WriteByteOp byte | WriteStringOp bytes | WriteRuneOp rune | FlushOp

text \<open>The count of \<open>WriteByte\<close> is 1 if it gives no error; that of \<open>Flush\<close> is 0.\<close>

fun run_writer_op :: "'w writer \<Rightarrow> 'w bufWriter \<Rightarrow> writer_op \<Rightarrow> ('w bufWriter \<times> int \<times> io_error option) go option" where
  "run_writer_op wr b (WriteOp p) = wt_Write wr b p"
| "run_writer_op wr b (WriteByteOp c) = Some (go_bind (wt_WriteByte wr b c) (\<lambda>(b, e). Inr (b, if e = None then 1 else 0, e)))"
| "run_writer_op wr b (WriteStringOp s) = wt_WriteString wr b s"
| "run_writer_op wr b (WriteRuneOp r) = wt_WriteRune wr b r"
| "run_writer_op wr b FlushOp = Some (go_bind (wt_Flush wr b) (\<lambda>(b, e). Inr (b, 0, e)))"

fun run_writer_ops ::
  "'w writer \<Rightarrow> 'w bufWriter \<Rightarrow> writer_op list \<Rightarrow> ('w bufWriter \<times> (int \<times> io_error option) list) go option" where
  "run_writer_ops wr b [] = Some (Inr (b, []))"
| "run_writer_ops wr b (op # ops) =
     run_bind (run_writer_op wr b op) (\<lambda>(b, n, e). run_bind (run_writer_ops wr b ops) (\<lambda>(b, outs). Some (Inr (b, (n, e) # outs))))"

fun op_bytes :: "writer_op \<Rightarrow> bytes" where
  "op_bytes (WriteOp p) = p"
| "op_bytes (WriteByteOp c) = [c]"
| "op_bytes (WriteStringOp s) = s"
| "op_bytes (WriteRuneOp r) = written_rune r"
| "op_bytes FlushOp = []"

text \<open>The bytes that the results say were taken.\<close>

fun took :: "writer_op list \<Rightarrow> (int \<times> io_error option) list \<Rightarrow> bytes" where
  "took (op # ops) ((n, e) # outs) = take (nat n) (op_bytes op) @ took ops outs"
| "took _ _ = []"

text \<open>
  The results of operations from the pending error \<open>e\<close> to \<open>e'\<close>: all is taken unless there is an error, and after an
  error nothing is, and the same error is given again.
\<close>

fun writer_outs :: "io_error option \<Rightarrow> writer_op list \<Rightarrow> (int \<times> io_error option) list \<Rightarrow> io_error option \<Rightarrow> bool" where
  "writer_outs e [] outs e' \<longleftrightarrow> outs = [] \<and> e' = e"
| "writer_outs e (op # ops) outs e' \<longleftrightarrow>
     (\<exists>k e1 outs'. outs = (int k, e1) # outs' \<and> k \<le> length (op_bytes op) \<and> (e1 = None \<longrightarrow> k = length (op_bytes op))
        \<and> (e \<noteq> None \<longrightarrow> k = 0 \<and> e1 = e) \<and> writer_outs e1 ops outs' e')"

abbreviation ops_size :: "writer_op list \<Rightarrow> nat" where
  "ops_size ops \<equiv> sum_list (map (\<lambda>op. length (op_bytes op)) ops)"

lemma writer_op_sticks: "wt_err b = Some e \<Longrightarrow> run_writer_op wr b op = Some (Inr (b, 0, Some e))"
  by (cases op) (simp_all add: wt_sticks)

lemma writer_ops_stick:
  "wt_err b = Some e \<Longrightarrow> \<exists>outs. run_writer_ops wr b ops = Some (Inr (b, outs)) \<and> took ops outs = [] \<and> writer_outs (Some e) ops outs (Some e)"
proof (induction ops)
  case (Cons op ops)
  then obtain outs where "run_writer_ops wr b ops = Some (Inr (b, outs))" "took ops outs = []" "writer_outs (Some e) ops outs (Some e)"
    by blast
  then show ?case using writer_op_sticks [OF Cons.prems, of wr op] by (intro exI [of _ "(0, Some e) # outs"]) auto
qed simp

context honest_writer
begin

lemma writer_op_puts:
  assumes "wt_wf room (m + length (op_bytes op)) b" "length (op_bytes op) < 2 ^ 63"
  shows "\<exists>b' k. run_writer_op wr b op = Some (Inr (b', int k, wt_err b')) \<and> k \<le> length (op_bytes op)
    \<and> wt_puts b (take k (op_bytes op)) (m + length (op_bytes op) - k) b' \<and> (wt_err b' = None \<longrightarrow> k = length (op_bytes op))"
proof (cases op)
  case (WriteOp p)
  then show ?thesis using Write_puts [of m p b] assms by simp
next
  case (WriteByteOp c)
  have wf: "wt_wf room (Suc m) b" using assms(1) WriteByteOp by simp
  obtain b' k where b': "wt_WriteByte wr b c = Inr (b', wt_err b')" "k \<le> 1" "wt_puts b (take k [c]) (Suc m - k) b'"
    "wt_err b' = None \<longleftrightarrow> k = 1" using WriteByte_puts [OF wf, of c] by (elim exE conjE) (rule that)
  then have "(if wt_err b' = None then 1 else 0) = int k" by auto
  then show ?thesis using b' WriteByteOp by (intro exI [of _ b'] exI [of _ k]) simp
next
  case (WriteStringOp s)
  then show ?thesis using WriteString_puts [of m s b] assms by simp
next
  case (WriteRuneOp r)
  then show ?thesis using WriteRune_puts [of m r b] assms by simp
next
  case FlushOp
  then obtain b' where "wt_Flush wr b = Inr (b', wt_err b')" "wt_puts b [] m b'" using Flush_puts [of m b] assms by auto
  then show ?thesis using FlushOp by (intro exI [of _ b'] exI [of _ 0]) simp
qed

lemma writer_ops_puts:
  assumes "wt_wf room (m + ops_size ops) b" "\<forall>op \<in> set ops. length (op_bytes op) < 2 ^ 63"
  shows "\<exists>b' outs. run_writer_ops wr b ops = Some (Inr (b', outs)) \<and> written sent b' = written sent b @ took ops outs
    \<and> writer_outs (wt_err b) ops outs (wt_err b') \<and> (wt_err b' = None \<longrightarrow> wt_puts b (took ops outs) m b' \<and> took ops outs = concat (map op_bytes ops))"
  using assms
proof (induction ops arbitrary: b)
  case Nil
  then show ?case by (simp add: wt_puts_refl)
next
  case (Cons op ops)
  have wf: "wt_wf room (m + ops_size ops + length (op_bytes op)) b" using Cons.prems(1) by (simp add: add.commute add.left_commute)
  obtain b1 k where b1: "run_writer_op wr b op = Some (Inr (b1, int k, wt_err b1))" "k \<le> length (op_bytes op)"
    "wt_puts b (take k (op_bytes op)) (m + ops_size ops + length (op_bytes op) - k) b1" "wt_err b1 = None \<longrightarrow> k = length (op_bytes op)"
    using writer_op_puts [OF wf, OF Cons.prems(2) [rule_format, OF list.set_intros(1)]] by (elim exE conjE) (rule that)
  have w1: "written sent b1 = written sent b @ take k (op_bytes op)" using b1(3) by (simp add: wt_puts_def)
  have stick: "wt_err b \<noteq> None \<longrightarrow> k = 0 \<and> wt_err b1 = wt_err b" using writer_op_sticks [of b _ wr op] b1(1) by auto
  show ?case
  proof (cases "wt_err b1")
    case (Some e)
    then obtain outs where outs: "run_writer_ops wr b1 ops = Some (Inr (b1, outs))" "took ops outs = []" "writer_outs (Some e) ops outs (Some e)"
      using writer_ops_stick by blast
    have "run_writer_ops wr b (op # ops) = Some (Inr (b1, (int k, Some e) # outs))" using b1(1) outs(1) Some by simp
    then show ?thesis using outs(2,3) w1 stick b1(2) Some by (intro exI [of _ b1] exI [of _ "(int k, Some e) # outs"]) auto
  next
    case None
    then have k: "k = length (op_bytes op)" using b1(4) by simp
    then have p1: "wt_puts b (op_bytes op) (m + ops_size ops) b1" using b1(3) by simp
    then have "wt_wf room (m + ops_size ops) b1" by (simp add: wt_puts_def)
    moreover have "\<forall>op \<in> set ops. length (op_bytes op) < 2 ^ 63" using Cons.prems(2) by simp
    ultimately obtain b2 outs where b2: "run_writer_ops wr b1 ops = Some (Inr (b2, outs))" "written sent b2 = written sent b1 @ took ops outs"
      "writer_outs (wt_err b1) ops outs (wt_err b2)"
      "wt_err b2 = None \<longrightarrow> wt_puts b1 (took ops outs) m b2 \<and> took ops outs = concat (map op_bytes ops)"
      using Cons.IH [of b1] by metis
    have "run_writer_ops wr b (op # ops) = Some (Inr (b2, (int k, None) # outs))" using b1(1) b2(1) None by simp
    moreover have "writer_outs (wt_err b) (op # ops) ((int k, None) # outs) (wt_err b2)" using b2(3) None stick k by auto
    moreover have "wt_err b2 = None \<longrightarrow> wt_puts b (op_bytes op @ took ops outs) m b2" using wt_puts_trans [OF p1] b2(4) by blast
    ultimately show ?thesis using b2(2,4) w1 k by (intro exI [of _ b2] exI [of _ "(int k, None) # outs"]) simp
  qed
qed

end

section \<open>A writer that never fails\<close>

context stream_writer
begin

lemma is_honest: "honest_writer wr sent room"
  by unfold_locales

lemma never_fails: "\<not> honest.fails e"
proof
  assume "honest.fails e"
  then obtain w n p w' k where *: "room w n" "length p \<le> n" "wr w p = Inr (w', int k, Some e)" unfolding honest.fails_def by blast
  then show False using acceptsE [OF *(1,2)] by fastforce
qed

lemma no_error: "honest.wt_puts b xs m b' \<Longrightarrow> wt_err b = None \<Longrightarrow> wt_err b' = None"
  using never_fails by (cases "wt_err b'") (auto simp: honest.wt_puts_def)

lemma Flush_all:
  assumes "wt_wf room m b" "wt_err b = None"
  shows "\<exists>b'. wt_Flush wr b = Inr (b', None) \<and> sent (wt_wr b') = written sent b \<and> honest.wt_puts b [] m b'"
proof -
  obtain b' where b': "wt_Flush wr b = Inr (b', wt_err b')" "honest.wt_puts b [] m b'" "wt_err b' = None \<longrightarrow> wt_n b' = 0"
    using honest.Flush_puts [OF assms(1)] by (elim exE conjE) (rule that)
  then have "wt_err b' = None" using no_error assms(2) by blast
  then show ?thesis using b' by (intro exI [of _ b']) (auto simp: honest.wt_puts_def written_def pending_def)
qed

end

section \<open>From a stream to a writer\<close>

context copying
begin

lemma wt_readfrom_loop_all:
  assumes "ok r" "wt_wf room (length (rest r)) b" "wt_err b = None" "n + length (rest r) < 2 ^ 63"
  shows "\<exists>r' b'. wt_readfrom_loop rd wr r b (int n) = Some (Inr (r', b', int (n + length (rest r)), None))
    \<and> ok r' \<and> rest r' = [] \<and> honest.wt_puts b (rest r) 0 b' \<and> wt_err b' = None"
  using assms
proof (induction "length (rest r)" arbitrary: r b n rule: less_induct)
  case less
  have "\<exists>b1. (if wt_Available b = 0 then wt_Flush wr b else Inr (b, None)) = Inr (b1, None) \<and> honest.wt_puts b [] (length (rest r)) b1
    \<and> wt_n b1 < int (length (wt_buf b1))"
  proof (cases "wt_Available b = 0")
    case True
    obtain b1 where b1: "wt_Flush wr b = Inr (b1, wt_err b1)" "honest.wt_puts b [] (length (rest r)) b1" "wt_err b1 = None \<longrightarrow> wt_n b1 = 0"
      using honest.Flush_puts [OF less.prems(2)] by (elim exE conjE) (rule that)
    have "wt_err b1 = None" using no_error [OF b1(2) less.prems(3)] .
    moreover have "wt_wf room (length (rest r)) b1" using b1(2) by (simp add: honest.wt_puts_def)
    then have "wt_buf b1 \<noteq> []" by (simp add: wt_wf_def)
    ultimately show ?thesis using b1 True by (intro exI [of _ b1]) simp
  next
    case False
    then have "wt_n b < int (length (wt_buf b))" using less.prems(2) by (simp add: wt_Available_def wt_wf_def)
    then show ?thesis using False less.prems(2) honest.wt_puts_refl by (intro exI [of _ b]) simp
  qed
  then obtain b1 where b1: "(if wt_Available b = 0 then wt_Flush wr b else Inr (b, None)) = Inr (b1, None)"
    "honest.wt_puts b [] (length (rest r)) b1" "wt_n b1 < int (length (wt_buf b1))" by (elim exE conjE) (rule that)
  have e1: "wt_err b1 = None" using no_error [OF b1(2) less.prems(3)] .
  have wf1: "wt_wf room (length (rest r)) b1" using b1(2) by (simp add: honest.wt_puts_def)
  obtain j where j: "wt_n b1 = int j" "length (pending b1) = j" "length (wt_buf b1) < 2 ^ 62" using wt_wfE [OF wf1] by metis
  let ?p = "drop j (wt_buf b1)"
  obtain r1 k e where r: "rd r ?p = Inr (r1, take k (rest r) @ drop k ?p, int k, e)" "ok r1" "k \<le> length ?p" "k \<le> length (rest r)"
    "rest r1 = drop k (rest r)" "e = None \<and> (?p = [] \<or> 0 < k) \<or> e = Some EOF \<and> k = length (rest r)"
    by (rule deliversE [OF delivers [OF less.prems(1)]])
  have jl: "j < length (wt_buf b1)" using b1(3) j(1) by simp
  have read: "wt_read_loop rd maxConsecutiveEmptyReads r ?p = Inr (r1, take k (rest r) @ drop k ?p, Some (int k, e))"
    using r(1,6) jl by (auto simp: maxConsecutiveEmptyReads_def eval_nat_numeral)
  let ?xs = "take k (rest r)"
  let ?b = "b1\<lparr>wt_buf := take j (wt_buf b1) @ ?xs @ drop (length ?xs) ?p, wt_n := int j + int (length ?xs)\<rparr>"
  have k: "length ?xs = k" using r(4) by simp
  have "wt_wf room (length (rest r) - k + length ?xs) b1" using wf1 r(4) by simp
  moreover have "length ?xs \<le> length (wt_buf b1) - length (pending b1)" using r(3) j(2) k by simp
  ultimately have "honest.wt_puts b1 ?xs (length (rest r) - k) ?b" using j(1) by (rule honest.store_puts)
  then have p2: "honest.wt_puts b ?xs (length (rest r) - k) ?b" using honest.wt_puts_trans [OF b1(2)] by fastforce
  have e2: "wt_err ?b = None" using e1 by simp
  have w: "wrap64 (int j + int k) = int j + int k" "wrap64 (int n + int k) = int (n + k)"
    using less.prems(4) r(3,4) j(3) jl by (auto intro!: wrap64_id)
  have step: "wt_readfrom_loop rd wr r b (int n) =
      (if e \<noteq> None then Some (go_bind (wt_readfrom_end wr ?b e) (\<lambda>(b, err). Inr (r1, b, int (n + k), err)))
       else wt_readfrom_loop rd wr r1 ?b (int (n + k)))"
    using b1(1) j(1) jl read w k by (subst wt_readfrom_loop.simps) (simp add: Let_def del: of_nat_add)
  show ?case
  proof (cases e)
    case None
    then have "length (rest r1) < length (rest r)" using r(4-6) jl by auto
    moreover have "wt_wf room (length (rest r1)) ?b" using p2 r(5) by (simp add: honest.wt_puts_def)
    moreover have "n + k + length (rest r1) < 2 ^ 63" "n + k + length (rest r1) = n + length (rest r)" using less.prems(4) r(4,5) by simp_all
    ultimately obtain r' b' where IH: "wt_readfrom_loop rd wr r1 ?b (int (n + k)) = Some (Inr (r', b', int (n + length (rest r)), None))"
      "ok r'" "rest r' = []" "honest.wt_puts ?b (rest r1) 0 b'" "wt_err b' = None"
      using less.hyps [OF _ r(2) _ e2, of "n + k"] by metis
    have "honest.wt_puts b (rest r) 0 b'" using honest.wt_puts_trans [OF p2 IH(4)] r(5) by simp
    then show ?thesis using step None IH by (intro exI [of _ r'] exI [of _ b']) simp
  next
    case (Some x)
    then have x: "x = EOF" "k = length (rest r)" using r(6) by auto
    have p2': "honest.wt_puts b (rest r) 0 ?b" using p2 x(2) by simp
    then have "wt_wf room 0 ?b" by (simp add: honest.wt_puts_def)
    from Flush_all [OF this e2] obtain b3 where b3: "wt_Flush wr ?b = Inr (b3, None)" "honest.wt_puts ?b [] 0 b3" by (elim exE conjE) (rule that)
    have "honest.wt_puts b (rest r) 0 b3" using honest.wt_puts_trans [OF p2' b3(2)] by simp
    then show ?thesis
    proof (cases "wt_Available ?b = 0")
      case True
      then have "wt_readfrom_loop rd wr r b (int n) = Some (Inr (r1, b3, int (n + length (rest r)), None))"
        using step Some x b3(1) by (simp add: wt_readfrom_end_def)
      moreover have "honest.wt_puts b (rest r) 0 b3" using honest.wt_puts_trans [OF p2' b3(2)] by simp
      ultimately show ?thesis using no_error [OF _ less.prems(3)] r(2,5) x(2) by (intro exI [of _ r1] exI [of _ b3]) simp
    next
      case False
      then have "wt_readfrom_loop rd wr r b (int n) = Some (Inr (r1, ?b, int (n + length (rest r)), None))"
        using step Some x by (simp add: wt_readfrom_end_def)
      then show ?thesis using p2' e2 r(2,5) x(2) by (intro exI [of _ r1] exI [of _ ?b]) simp
    qed
  qed
qed

lemma ReadFrom_all:
  assumes "ok r" "wt_wf room (length (rest r)) b" "wt_err b = None" "length (rest r) < 2 ^ 63"
  shows "\<exists>r' b'. wt_ReadFrom rd wr None r b = Some (Inr (r', b', int (length (rest r)), None))
    \<and> ok r' \<and> rest r' = [] \<and> honest.wt_puts b (rest r) 0 b' \<and> wt_err b' = None"
  using wt_readfrom_loop_all [OF assms(1-3), of 0] assms(3,4) by (simp add: wt_ReadFrom_def)

lemma writeBuf_all:
  assumes "rd_ok b" "room w (length (ahead b))"
  shows "\<exists>b' w'. rd_writeBuf wr b w = Inr (b', w', int (length (rd_unread b)), None) \<and> sent w' = sent w @ rd_unread b
    \<and> room w' (length (ahead b) - length (rd_unread b)) \<and> rd_ok b' \<and> rd_unread b' = [] \<and> rd_rd b' = rd_rd b \<and> rd_err b' = rd_err b
    \<and> length (rd_buf b') = length (rd_buf b)"
proof -
  have wf: "rd_wf ok b" using rd_ok_wf [OF assms(1)] .
  obtain w' where w': "wr w (rd_unread b) = Inr (w', int (length (rd_unread b)), None)" "sent w' = sent w @ rd_unread b"
    "room w' (length (ahead b) - length (rd_unread b))" using acceptsE [OF assms(2), of "rd_unread b"] by (auto simp: rd_queue_def)
  obtain i j where ij: "rd_r b = int i" "rd_w b = int j" "i \<le> j" "j \<le> length (rd_buf b)" "length (rd_unread b) = j - i"
    "length (rd_buf b) < 2 ^ 62" using rd_wfE [OF wf] by metis
  have wrap: "wrap64 (int i + int (j - i)) = int j" using ij by (subst wrap64_id) auto
  let ?b = "b\<lparr>rd_r := int j\<rparr>"
  have "rd_writeBuf wr b w = Inr (?b, w', int (length (rd_unread b)), None)"
    using rd_unread_slice [OF wf] w'(1) wrap ij by (simp add: rd_writeBuf_def del: of_nat_diff)
  moreover have "rd_ok ?b" using assms(1) ij by (auto simp: rd_stream_def rd_wf_def)
  moreover have "rd_unread ?b = []" using ij by (simp add: rd_unread_def)
  ultimately show ?thesis using w'(2,3) by (intro exI [of _ ?b] exI [of _ w']) simp
qed

lemma writeto_loop_all:
  assumes "rd_ok b" "room w (length (ahead b))" "n + length (ahead b) < 2 ^ 63" "rd_unread b \<noteq> [] \<or> rd_err b \<noteq> None"
  shows "\<exists>b' w'. writeto_loop rd wr b w (int n) = Some (Inr (b', w', int (n + length (ahead b)), None))
    \<and> rd_ok b' \<and> ahead b' = [] \<and> sent w' = sent w @ ahead b"
  using assms
proof (induction "length (ahead b)" arbitrary: b w n rule: less_induct)
  case less
  have lt: "rd_r b < rd_w b \<longleftrightarrow> rd_unread b \<noteq> []"
    using rd_unread_len(1,3) [OF rd_ok_wf [OF less.prems(1)]] by (metis diff_gt_0_iff_gt length_greater_0_conv of_nat_0_less_iff)
  show ?case
  proof (cases "rd_unread b = []")
    case True
    then have e: "rd_err b = Some EOF" "rest (rd_rd b) = []" using less.prems(1,4) by (auto simp: rd_stream_def rd_at_end_def)
    have "writeto_loop rd wr b w (int n) = Some (Inr (b\<lparr>rd_err := None\<rparr>, w, int n, None))"
      using True lt e(1) by (subst writeto_loop.simps) (simp add: rd_readErr_def)
    moreover have "rd_ok (b\<lparr>rd_err := None\<rparr>)" using less.prems(1) by (auto simp: rd_stream_def rd_at_end_def)
    ultimately show ?thesis using True e(2) by (intro exI [of _ "b\<lparr>rd_err := None\<rparr>"] exI [of _ w]) (simp add: rd_queue_def)
  next
    case False
    obtain b1 w1 where b1: "rd_writeBuf wr b w = Inr (b1, w1, int (length (rd_unread b)), None)" "sent w1 = sent w @ rd_unread b"
      "room w1 (length (ahead b) - length (rd_unread b))" "rd_ok b1" "rd_unread b1 = []" "rd_rd b1 = rd_rd b" "length (rd_buf b1) = length (rd_buf b)"
      using writeBuf_all [OF less.prems(1,2)] by (elim exE conjE) (rule that)
    have "length (rd_unread b1) < length (rd_buf b1)" using b1(5) rd_ok_wf [OF b1(4)] by (auto simp: rd_wf_def minReadBufferSize_def)
    from honest.fill_gets [OF rd_ok_wf [OF b1(4)] this] obtain b2 xs where b2: "rd_fill rd b1 = Inr b2" "gets rd ok b1 xs b2"
      "rd_unread b2 = rd_unread b1 @ xs" "xs \<noteq> [] \<or> rd_err b2 \<noteq> None" by (elim exE conjE) (rule that)
    have ok2: "rd_ok b2" using gets_stream(1) [OF b1(4) b2(2)] .
    have "ahead b1 = ahead b2" using gets_ahead [OF b1(4) b2(2), of "[]"] b2(3) by simp
    then have a2: "ahead b2 = rest (rd_rd b)" using b1(5,6) by (simp add: rd_queue_def)
    then have a: "ahead b = rd_unread b @ ahead b2" by (simp add: rd_queue_def)
    have w: "wrap64 (int n + int (length (rd_unread b))) = int (n + length (rd_unread b))" using less.prems(3) a by (subst wrap64_id) auto
    have step: "writeto_loop rd wr b w (int n) = writeto_loop rd wr b2 w1 (int (n + length (rd_unread b)))"
      using False lt b1(1) b2(1) w by (subst writeto_loop.simps) (simp del: of_nat_add)
    have h: "length (ahead b2) < length (ahead b)" "room w1 (length (ahead b2))" "n + length (rd_unread b) + length (ahead b2) < 2 ^ 63"
      "rd_unread b2 \<noteq> [] \<or> rd_err b2 \<noteq> None" using a False b1(3,5) less.prems(3) b2(3,4) by auto
    obtain b3 w3 where "writeto_loop rd wr b2 w1 (int (n + length (rd_unread b))) = Some (Inr (b3, w3, int (n + length (rd_unread b) + length (ahead b2)), None))"
      "rd_ok b3" "ahead b3 = []" "sent w3 = sent w1 @ ahead b2"
      using less.hyps [OF h(1) ok2 h(2-4)] by (elim exE conjE) (rule that)
    then show ?thesis using step b1(2) a by (intro exI [of _ b3] exI [of _ w3]) (simp add: add.assoc)
  qed
qed

lemma WriteTo_all:
  assumes "rd_ok b" "room w (length (ahead b))" "length (ahead b) < 2 ^ 63"
  shows "\<exists>b' w'. rd_WriteTo rd None wr None b w = Some (Inr (b', w', int (length (ahead b)), None))
    \<and> rd_ok b' \<and> ahead b' = [] \<and> sent w' = sent w @ ahead b"
proof -
  obtain b1 w1 where b1: "rd_writeBuf wr b w = Inr (b1, w1, int (length (rd_unread b)), None)" "sent w1 = sent w @ rd_unread b"
    "room w1 (length (ahead b) - length (rd_unread b))" "rd_ok b1" "rd_unread b1 = []" "rd_rd b1 = rd_rd b" "length (rd_buf b1) = length (rd_buf b)"
    using writeBuf_all [OF assms(1,2)] by (elim exE conjE) (rule that)
  have l: "length (rd_unread b1) < length (rd_buf b1)" using b1(5) rd_ok_wf [OF b1(4)] by (auto simp: rd_wf_def minReadBufferSize_def)
  from honest.fill_gets [OF rd_ok_wf [OF b1(4)] this] obtain b2 xs where b2: "rd_fill rd b1 = Inr b2" "gets rd ok b1 xs b2"
    "rd_unread b2 = rd_unread b1 @ xs" "xs \<noteq> [] \<or> rd_err b2 \<noteq> None" by (elim exE conjE) (rule that)
  have ok2: "rd_ok b2" using gets_stream(1) [OF b1(4) b2(2)] .
  have "ahead b1 = ahead b2" using gets_ahead [OF b1(4) b2(2), of "[]"] b2(3) by simp
  then have a2: "ahead b2 = rest (rd_rd b)" using b1(5,6) by (simp add: rd_queue_def)
  then have a: "ahead b = rd_unread b @ ahead b2" by (simp add: rd_queue_def)
  have lt: "rd_w b1 - rd_r b1 < int (length (rd_buf b1))" using rd_unread_len(1) [OF rd_ok_wf [OF b1(4)]] l by simp
  have h: "room w1 (length (ahead b2))" "length (rd_unread b) + length (ahead b2) < 2 ^ 63" "rd_unread b2 \<noteq> [] \<or> rd_err b2 \<noteq> None"
    using a b1(3,5) assms(3) b2(3,4) by auto
  obtain b3 w3 where "writeto_loop rd wr b2 w1 (int (length (rd_unread b))) = Some (Inr (b3, w3, int (length (rd_unread b) + length (ahead b2)), None))"
    "rd_ok b3" "ahead b3 = []" "sent w3 = sent w1 @ ahead b2"
    using writeto_loop_all [OF ok2 h] by (elim exE conjE) (rule that)
  then show ?thesis using b1(1,2) b2(1) lt a by (intro exI [of _ b3] exI [of _ w3]) (simp add: rd_WriteTo_def)
qed

lemma ReadFrom_flush:
  assumes "ok r" "wt_wf room (length (rest r)) b" "wt_err b = None" "length (rest r) < 2 ^ 63"
  shows "\<exists>r' b1 b2. wt_ReadFrom rd wr None r b = Some (Inr (r', b1, int (length (rest r)), None))
    \<and> wt_Flush wr b1 = Inr (b2, None) \<and> sent (wt_wr b2) = sent (wt_wr b) @ pending b @ rest r \<and> rest r' = []"
proof -
  obtain r' b1 where b1: "wt_ReadFrom rd wr None r b = Some (Inr (r', b1, int (length (rest r)), None))" "rest r' = []"
    "honest.wt_puts b (rest r) 0 b1" "wt_err b1 = None" using ReadFrom_all [OF assms] by (elim exE conjE) (rule that)
  then have wf: "wt_wf room 0 b1" and w: "written sent b1 = written sent b @ rest r" by (simp_all add: honest.wt_puts_def)
  obtain b2 where "wt_Flush wr b1 = Inr (b2, None)" "sent (wt_wr b2) = written sent b1"
    using Flush_all [OF wf b1(4)] by blast
  then show ?thesis using b1(1,2) w by (intro exI [of _ r'] exI [of _ b1] exI [of _ b2]) (simp add: written_def)
qed

end

end
