(* ===== verification/BufioProps.thy ===== *)
theory BufioProps
  imports BufioWriterProps StringsReader StringsBuilder
begin

text \<open>
  The properties of the buffered reader and writer, for any reader and writer that keep the contracts of
  package \<open>io\<close>, and the contracts interpreted on buffered readers over the readers of \<open>bytes\<close> and \<open>strings\<close>.
\<close>

section \<open>Interpretations\<close>

interpretation buffered_br: stream_reader "rd_Read br_Read" "rd_queue br_rest" "rd_stream br_rest br_ok"
  by (rule br.buffered_reader)

interpretation buffered_sr: stream_reader "rd_Read sr_Read" "rd_queue sr_rest" "rd_stream sr_rest sr_ok"
  by (rule stream_reader.buffered_reader [OF sr.stream_reader_axioms])

text \<open>A buffered reader over a string, copied into a builder or a buffer.\<close>

interpretation buffered_sb: copying "rd_Read sr_Read" "rd_queue sr_rest" "rd_stream sr_rest sr_ok" "sb_Write newcap self" sb_String
    "\<lambda>b n. owned self b" for newcap self
  by unfold_locales

interpretation buffered_bb: copying "rd_Read br_Read" "rd_queue br_rest" "rd_stream br_rest br_ok" "bb_Write M" bb_rest "bb_room M" for M
  by unfold_locales

lemma rd_reset_stream:
  assumes "ok r" "16 \<le> length buf" "length buf < 2 ^ 62"
  shows "rd_wf ok (rd_reset buf r)" "rd_stream rest ok (rd_reset buf r)" "rd_queue rest (rd_reset buf r) = rest r"
  using assms by (simp_all add: rd_stream_def rd_wf_def rd_at_end_def rd_queue_def rd_unread_def rd_reset_def minReadBufferSize_def)

text \<open>\<open>NewReaderSize\<close> and \<open>NewReader\<close> give such a reader, or the one they were given.\<close>

lemma NewReaderSize_stream:
  assumes "ok r" "n < 2 ^ 62" "NewReaderSize as_Reader r n = Inr b"
  shows "rd_stream rest ok b" "rd_queue rest b = rest r" "n \<le> rd_Size b"
proof -
  let ?buf = "replicate (nat (if n < minReadBufferSize then minReadBufferSize else n)) (0 :: byte)"
  have b: "b = rd_reset ?buf r" using assms(3) by (auto simp: NewReaderSize_def Let_def split: option.splits if_splits)
  have l: "16 \<le> length ?buf" "length ?buf < 2 ^ 62" using assms(2) by (auto simp: minReadBufferSize_def)
  show "rd_stream rest ok b" "rd_queue rest b = rest r" using rd_reset_stream(2,3) [of ok r, OF assms(1) l] b by simp_all
  show "n \<le> rd_Size b" using b by (simp add: rd_Size_def rd_reset_def minReadBufferSize_def)
qed

text \<open>A small reader over \<open>abc\<close>, a line feed and \<open>de\<close>.\<close>

definition letters_reader :: "BytesReader bufReader" where
  "letters_reader = rd_reset (replicate 16 0) (br_NewReader [0x61, 0x62, 0x63, 0x0A, 0x64, 0x65])"

lemma letters_reader:
  "rd_wf br_ok letters_reader" "rd_stream br_rest br_ok letters_reader"
  "rd_queue br_rest letters_reader = [0x61, 0x62, 0x63, 0x0A, 0x64, 0x65]" "length (rd_buf letters_reader) = 16"
proof -
  have *: "br_ok (br_NewReader [0x61, 0x62, 0x63, 0x0A, 0x64, 0x65])" "16 \<le> length (replicate 16 (0 :: byte))"
    "length (replicate 16 (0 :: byte)) < 2 ^ 62" by (simp_all add: br_ok_def br_NewReader_def)
  show "rd_wf br_ok letters_reader" "rd_stream br_rest br_ok letters_reader"
    unfolding letters_reader_def using rd_reset_stream(1,2) [of br_ok, OF *] by blast+
  show "rd_queue br_rest letters_reader = [0x61, 0x62, 0x63, 0x0A, 0x64, 0x65]"
    using rd_reset_stream(3) [of br_ok, OF *, of br_rest] by (simp add: letters_reader_def br_rest_def br_NewReader_def)
qed (simp add: letters_reader_def rd_reset_def)

section \<open>The reader\<close>

text \<open>C19: whatever the underlying reader does, as long as it stays within its buffer: no sequence of operations on a
  well-formed buffered reader panics, and the reader stays well formed.  Each operation also returns, however the
  reader delivers its bytes, with one exception: a \<open>ReadBytes\<close> reads on as long as neither its delimiter nor an
  error comes, and when the sequence does not return it is because it has come to such a \<open>ReadBytes\<close>.\<close>

theorem bufio_reader_safe:
  assumes "honest_reader rd ok" "rd_wf ok b"
  shows "case run_reader_ops rd b ops of
      None \<Rightarrow> \<exists>pre d post b' outs. ops = pre @ ReadBytesOp d # post \<and> run_reader_ops rd b pre = Some (Inr (b', outs))
        \<and> rd_ReadBytes rd b' d = None
    | Some (Inl p) \<Rightarrow> False
    | Some (Inr (b', outs)) \<Rightarrow> rd_wf ok b' \<and> length outs = length ops"
  using honest_reader.reader_ops_total [OF assms] .

theorem bufio_reader_safe_witness:
  "\<exists>b' outs. run_reader_ops br_Read letters_reader [ReadByteOp, UnreadByteOp, PeekOp 20, UnreadByteOp, ReadLineOp, DiscardOp 3, ReadRuneOp]
      = Some (Inr (b', outs)) \<and> rd_wf br_ok b' \<and> length outs = 7"
proof -
  let ?ops = "[ReadByteOp, UnreadByteOp, PeekOp 20, UnreadByteOp, ReadLineOp, DiscardOp 3, ReadRuneOp]"
  have no: "ReadBytesOp d \<notin> set ?ops" for d by simp
  have none: "\<nexists>pre d post. ?ops = pre @ ReadBytesOp d # post"
  proof
    assume "\<exists>pre d post. ?ops = pre @ ReadBytesOp d # post"
    then obtain pre d post where e: "?ops = pre @ ReadBytesOp d # post" by blast
    have "ReadBytesOp d \<in> set ?ops" unfolding e by (simp only: set_append list.set_intros Un_iff simp_thms)
    then show False using no by blast
  qed
  have l: "length ?ops = 7" by simp
  have s: "case run_reader_ops br_Read letters_reader ?ops of
      None \<Rightarrow> \<exists>pre d post b' outs. ?ops = pre @ ReadBytesOp d # post \<and> run_reader_ops br_Read letters_reader pre = Some (Inr (b', outs))
        \<and> rd_ReadBytes br_Read b' d = None
    | Some (Inl p) \<Rightarrow> False
    | Some (Inr (b', outs)) \<Rightarrow> rd_wf br_ok b' \<and> length outs = length ?ops"
    by (rule bufio_reader_safe [OF br.honest.honest_reader_axioms letters_reader(1)])
  show ?thesis
  proof (cases "run_reader_ops br_Read letters_reader ?ops")
    case None
    show ?thesis using s none unfolding None option.case by blast
  next
    case (Some r)
    show ?thesis using s l unfolding Some option.case by (cases r) (auto simp only: sum.case split: prod.splits)
  qed
qed

text \<open>C10: over a stream, the operations on a buffered reader refine those of a queue of bytes: each gives what the
  specification says for the bytes not yet handed out, whatever has been buffered, and leaves the bytes that it says.\<close>

theorem bufio_reader_queue:
  assumes "stream_reader rd rest ok" "rd_stream rest ok b" "\<forall>op \<in> set ops. \<not> takes_back op"
  shows "\<exists>b' outs. run_reader_ops rd b ops = Some (Inr (b', outs)) \<and> rd_stream rest ok b'
    \<and> reader_specs (length (rd_buf b)) (rd_queue rest b) ops outs (rd_queue rest b')"
  using stream_reader.reader_ops_queue [OF assms] by blast

theorem bufio_reader_queue_witness:
  "\<exists>b' outs. run_reader_ops br_Read letters_reader [PeekOp 2, ReadByteOp, ReadBytesOp 0x0A, DiscardOp 5]
      = Some (Inr (b', outs)) \<and> outs = [Data [0x61, 0x62] None, Single 0x61 None, Data [0x62, 0x63, 0x0A] None, Counted [] 2 (Some EOF)]"
proof -
  have "\<forall>op \<in> set [PeekOp 2, ReadByteOp, ReadBytesOp 0x0A, DiscardOp 5]. \<not> takes_back op" by (simp add: takes_back_def)
  from bufio_reader_queue [OF br.stream_reader_axioms letters_reader(2) this]
  show ?thesis by (auto simp: letters_reader line_spec_def)
qed

text \<open>Over a stream with a byte left, \<open>UnreadByte\<close> after \<open>ReadByte\<close> restores the queue and a second one fails and
  changes nothing; after \<open>ReadRune\<close>, \<open>UnreadRune\<close> restores the queue, and \<open>UnreadByte\<close> takes back the last byte of the rune.\<close>

theorem bufio_reader_unread:
  assumes "stream_reader rd rest ok" "rd_stream rest ok b" "rd_queue rest b \<noteq> []"
  shows "(\<exists>b1 b2. rd_ReadByte rd b = Some (Inr (b1, hd (rd_queue rest b), None)) \<and> rd_UnreadByte b1 = Inr (b2, None)
        \<and> rd_stream rest ok b2 \<and> rd_queue rest b2 = rd_queue rest b \<and> rd_UnreadByte b2 = Inr (b2, Some ErrInvalidUnreadByte))
    \<and> (\<exists>b1 b2 b3 r n. DecodeRune (rd_queue rest b) = (r, n) \<and> rd_ReadRune rd b = Some (Inr (b1, r, int n, None))
        \<and> rd_UnreadRune b1 = (b2, None) \<and> rd_stream rest ok b2 \<and> rd_queue rest b2 = rd_queue rest b
        \<and> rd_UnreadByte b1 = Inr (b3, None) \<and> rd_queue rest b3 = drop (n - 1) (rd_queue rest b))"
proof (rule conjI)
  obtain b1 where b1: "rd_ReadByte rd b = Some (Inr (b1, hd (rd_queue rest b), None))" "rd_stream rest ok b1"
    "rd_queue rest b1 = tl (rd_queue rest b)" "marks b1 (hd (rd_queue rest b))"
    using stream_reader.ReadByte_stream [OF assms(1,2)] assms(3) by auto
  obtain b2 where b2: "rd_UnreadByte b1 = Inr (b2, None)" "rd_stream rest ok b2" "rd_queue rest b2 = hd (rd_queue rest b) # rd_queue rest b1"
    "rd_UnreadByte b2 = Inr (b2, Some ErrInvalidUnreadByte)"
    using stream_reader.UnreadByte_stream [OF assms(1) b1(2,4)] by blast
  show "\<exists>b1 b2. rd_ReadByte rd b = Some (Inr (b1, hd (rd_queue rest b), None)) \<and> rd_UnreadByte b1 = Inr (b2, None)
        \<and> rd_stream rest ok b2 \<and> rd_queue rest b2 = rd_queue rest b \<and> rd_UnreadByte b2 = Inr (b2, Some ErrInvalidUnreadByte)"
    using b1(1,3) b2 assms(3) by auto
next
  obtain r n where d: "DecodeRune (rd_queue rest b) = (r, n)" by fastforce
  obtain b1 where b1: "rd_ReadRune rd b = Some (Inr (b1, r, int n, None))" "rd_stream rest ok b1" "rd_queue rest b1 = drop n (rd_queue rest b)"
    "marks b1 (rd_queue rest b ! (n - 1))" "rd_lastRuneSize b1 = int n" "int n \<le> rd_r b1"
    "seg (nat (rd_r b1) - n) (nat (rd_w b1)) (rd_buf b1) @ rest (rd_rd b1) = rd_queue rest b"
    using stream_reader.ReadRune_stream [OF assms(1,2)] assms(3) d by auto
  obtain b2 where b2: "rd_UnreadRune b1 = (b2, None)" "rd_stream rest ok b2" "rd_queue rest b2 = rd_queue rest b"
    using stream_reader.UnreadRune_stream [OF assms(1) b1(2,5,6,7)] by blast
  obtain b3 where b3: "rd_UnreadByte b1 = Inr (b3, None)" "rd_queue rest b3 = rd_queue rest b ! (n - 1) # rd_queue rest b1"
    using stream_reader.UnreadByte_stream [OF assms(1) b1(2,4)] by blast
  have "0 < n" "n \<le> length (rd_queue rest b)" using DecodeRune_size [OF assms(3)] d by simp_all
  then have "rd_queue rest b3 = drop (n - 1) (rd_queue rest b)"
    using b3(2) b1(3) Cons_nth_drop_Suc [of "n - 1" "rd_queue rest b"] by simp
  then show "\<exists>b1 b2 b3 r n. DecodeRune (rd_queue rest b) = (r, n) \<and> rd_ReadRune rd b = Some (Inr (b1, r, int n, None))
        \<and> rd_UnreadRune b1 = (b2, None) \<and> rd_stream rest ok b2 \<and> rd_queue rest b2 = rd_queue rest b
        \<and> rd_UnreadByte b1 = Inr (b3, None) \<and> rd_queue rest b3 = drop (n - 1) (rd_queue rest b)"
    using d b1(1) b2 b3(1) by blast
qed

theorem bufio_reader_unread_witness:
  "\<exists>b1 b2. rd_ReadByte br_Read letters_reader = Some (Inr (b1, 0x61, None)) \<and> rd_UnreadByte b1 = Inr (b2, None)
    \<and> rd_queue br_rest b2 = [0x61, 0x62, 0x63, 0x0A, 0x64, 0x65]"
proof -
  have "rd_queue br_rest letters_reader \<noteq> []" by (simp add: letters_reader)
  from bufio_reader_unread [OF br.stream_reader_axioms letters_reader(2) this] show ?thesis by (auto simp: letters_reader)
qed

text \<open>C40: \<open>Discard\<close> leaves the mark of the last byte that was read.  Over any stream, after \<open>ReadByte\<close> gives \<open>c\<close>
  and \<open>Discard(n)\<close> has passed over \<open>n > 0\<close> more bytes, \<open>UnreadByte\<close> gives no error and puts a \<open>c\<close> before the
  bytes that are left, whatever the last of the discarded bytes was.\<close>

theorem bufio_discard_unread:
  assumes "stream_reader rd rest ok" "rd_stream rest ok b" "rd_queue rest b = c # xs" "0 < n" "n \<le> length xs"
  shows "\<exists>b1 b2 b3. rd_ReadByte rd b = Some (Inr (b1, c, None)) \<and> rd_Discard rd b1 (int n) = Some (Inr (b2, int n, None))
    \<and> rd_queue rest b2 = drop n xs \<and> rd_UnreadByte b2 = Inr (b3, None) \<and> rd_stream rest ok b3 \<and> rd_queue rest b3 = c # drop n xs"
  using stream_reader.discard_unread [OF assms] .

theorem bufio_discard_unread_witness:
  "\<exists>b1 b2 b3. rd_ReadByte br_Read letters_reader = Some (Inr (b1, 0x61, None))
    \<and> rd_Discard br_Read b1 (int 2) = Some (Inr (b2, int 2, None)) \<and> rd_queue br_rest b2 = [0x0A, 0x64, 0x65]
    \<and> rd_UnreadByte b2 = Inr (b3, None) \<and> rd_queue br_rest b3 = [0x61, 0x0A, 0x64, 0x65]"
  using bufio_discard_unread [OF br.stream_reader_axioms letters_reader(2) letters_reader(3), of 2] by auto

section \<open>The writer\<close>

text \<open>C11: for any writer that keeps the contract of \<open>io.Writer\<close>, also one that fails midway: a sequence of operations on a
  buffered writer ends without a panic, what was sent and what is still buffered are, in order, the bytes that the results say were taken,
  an operation without an error takes all its bytes, and after an error nothing more is taken and every operation gives that error.\<close>

theorem bufio_writer_account:
  assumes "honest_writer wr sent room" "wt_wf room (ops_size ops) b" "\<forall>op \<in> set ops. length (op_bytes op) < 2 ^ 63"
  shows "\<exists>b' outs. run_writer_ops wr b ops = Some (Inr (b', outs)) \<and> written sent b' = written sent b @ took ops outs
    \<and> writer_outs (wt_err b) ops outs (wt_err b')"
proof -
  have "wt_wf room (0 + ops_size ops) b" using assms(2) by simp
  from honest_writer.writer_ops_puts [OF assms(1) this assms(3)] show ?thesis by blast
qed

text \<open>A small writer into a buffer.\<close>

definition small_writer :: "Buffer bufWriter" where
  "small_writer = \<lparr>wt_err = None, wt_buf = replicate 4 0, wt_n = 0, wt_wr = NewBufferString [7]\<rparr>"

lemma small_writer:
  "n \<le> 100 \<Longrightarrow> wt_wf (bb_room 1000) n small_writer" "wt_err small_writer = None" "written bb_rest small_writer = [7]"
  "pending small_writer = []" "bb_rest (wt_wr small_writer) = [7]"
  by (simp_all add: small_writer_def wt_wf_def written_def pending_def bb_room_def NewBufferString_def bb_ok_def bb_rest_def
      scap_def slice_of_def opInvalid_def maxInt_eq)

theorem bufio_writer_account_witness:
  "\<exists>b' outs. run_writer_ops (bb_Write 1000) small_writer [WriteOp [1, 2, 3, 4, 5, 6], WriteByteOp 8, FlushOp, WriteRuneOp 0x20AC] = Some (Inr (b', outs))
    \<and> written bb_rest b' = [7] @ took [WriteOp [1, 2, 3, 4, 5, 6], WriteByteOp 8, FlushOp, WriteRuneOp 0x20AC] outs"
proof -
  let ?ops = "[WriteOp [1, 2, 3, 4, 5, 6], WriteByteOp 8, FlushOp, WriteRuneOp 0x20AC]"
  have l: "length (written_rune 0x20AC) = 3" by code_simp
  then have "\<forall>op \<in> set ?ops. length (op_bytes op) < 2 ^ 63" "ops_size ?ops \<le> 100" by simp_all
  from bufio_writer_account [OF bb.is_honest small_writer(1) [OF this(2)] this(1)]
  show ?thesis unfolding small_writer(3) by blast
qed

text \<open>C21: \<open>ReadFrom\<close> of a buffered writer, whose underlying writer never fails and has no \<open>ReadFrom\<close> method of its own, from a
  buffered reader over a stream, followed by \<open>Flush\<close>: all bytes that the reader had left arrive, after those that were buffered in the writer, and nothing is left behind.\<close>

theorem bufio_readfrom_flush:
  assumes "stream_reader rd rest ok" "stream_writer wr sent room" "rd_stream rest ok r" "wt_err b = None"
    "wt_wf room (length (rd_queue rest r)) b" "length (rd_queue rest r) < 2 ^ 63"
  shows "\<exists>r' b1 b2. wt_ReadFrom (rd_Read rd) wr None r b = Some (Inr (r', b1, int (length (rd_queue rest r)), None))
    \<and> wt_Flush wr b1 = Inr (b2, None) \<and> sent (wt_wr b2) = sent (wt_wr b) @ pending b @ rd_queue rest r \<and> rd_queue rest r' = []"
proof -
  have "copying (rd_Read rd) (rd_queue rest) (rd_stream rest ok) wr sent room"
    by (intro copying.intro stream_reader.buffered_reader [OF assms(1)] assms(2))
  from copying.ReadFrom_flush [OF this assms(3,5,4,6)] show ?thesis .
qed

text \<open>A small writer into a \<open>strings.Builder\<close>, which has no \<open>ReadFrom\<close>.\<close>

definition builder_writer :: "Builder bufWriter" where
  "builder_writer = \<lparr>wt_err = None, wt_buf = replicate 4 0, wt_n = 0, wt_wr = new_Builder\<rparr>"

theorem bufio_readfrom_flush_witness:
  "\<exists>r' b1 b2. wt_ReadFrom (rd_Read br_Read) (sb_Write (\<lambda>c n. c + n) 1) None letters_reader builder_writer = Some (Inr (r', b1, 6, None))
    \<and> wt_Flush (sb_Write (\<lambda>c n. c + n) 1) b1 = Inr (b2, None) \<and> sb_String (wt_wr b2) = [0x61, 0x62, 0x63, 0x0A, 0x64, 0x65]"
proof -
  have "wt_err builder_writer = None" "wt_wf (\<lambda>b n. owned 1 b) (length (rd_queue br_rest letters_reader)) builder_writer"
    "length (rd_queue br_rest letters_reader) < 2 ^ 63" "sb_String (wt_wr builder_writer) = []" "pending builder_writer = []"
    by (simp_all add: letters_reader builder_writer_def wt_wf_def pending_def owned_def new_Builder_def sb_String_def nil_slice_def)
  then show ?thesis
    using bufio_readfrom_flush [OF br.stream_reader_axioms sb.stream_writer_axioms letters_reader(2), of builder_writer 1 "\<lambda>c n. c + n"]
    by (auto simp: letters_reader)
qed

text \<open>\<open>WriteTo\<close> of a buffered reader over a stream sends all that is left, first what is buffered, to a writer
  that never fails, and reports the number of bytes and no error.\<close>

theorem bufio_WriteTo:
  assumes "stream_reader rd rest ok" "stream_writer wr sent room" "rd_stream rest ok b" "room w (length (rd_queue rest b))"
    "length (rd_queue rest b) < 2 ^ 63"
  shows "\<exists>b' w'. rd_WriteTo rd None wr None b w = Some (Inr (b', w', int (length (rd_queue rest b)), None))
    \<and> rd_stream rest ok b' \<and> rd_queue rest b' = [] \<and> sent w' = sent w @ rd_queue rest b"
proof -
  have "copying rd rest ok wr sent room" by (intro copying.intro assms(1,2))
  from copying.WriteTo_all [OF this assms(3-5)] show ?thesis .
qed

theorem bufio_WriteTo_witness:
  "\<exists>b' w'. rd_WriteTo br_Read None (sb_Write (\<lambda>c n. c + n) 1) None letters_reader new_Builder = Some (Inr (b', w', 6, None))
    \<and> sb_String w' = [0x61, 0x62, 0x63, 0x0A, 0x64, 0x65]"
proof -
  have "owned 1 new_Builder" "length (rd_queue br_rest letters_reader) < 2 ^ 63" "sb_String new_Builder = []"
    by (simp_all add: owned_def new_Builder_def letters_reader sb_String_def nil_slice_def)
  then show ?thesis
    using bufio_WriteTo [OF br.stream_reader_axioms sb.stream_writer_axioms letters_reader(2), of 1 new_Builder "\<lambda>c n. c + n"]
    by (auto simp: letters_reader)
qed

end
