(* ===== verification/SysBits.thy ===== *)
theory SysBits
  imports Prelude
begin

text \<open>
  Counting and reversing the bits of machine words (\<open>runtime/internal/sys\<close>): the portable versions, which
  compute with multiplications and masks and look the rest up in tables.  The specifications are on
  the list of the bits of a word, least significant first.
\<close>

section \<open>The code\<close>

definition deBruijn64ctz :: u64 where "deBruijn64ctz = 0x0218a392cd3d5dbf"
definition deBruijnIdx64ctz :: "nat list" where
  "deBruijnIdx64ctz = [
    0, 1, 2, 7, 3, 13, 8, 19, 4, 25, 14, 28, 9, 34, 20, 40, 5, 17, 26, 38, 15, 46, 29, 48, 10, 31, 35, 54, 21, 50, 41, 57,
    63, 6, 12, 18, 24, 27, 33, 39, 16, 37, 45, 47, 30, 53, 49, 56, 62, 11, 23, 32, 36, 44, 52, 55, 61, 22, 43, 51, 60, 42, 59, 58]"

definition deBruijn32ctz :: u32 where "deBruijn32ctz = 0x04653adf"
definition deBruijnIdx32ctz :: "nat list" where
  "deBruijnIdx32ctz = [
    0, 1, 2, 6, 3, 11, 7, 16, 4, 14, 12, 21, 8, 23, 17, 26, 31, 5, 10, 15, 13, 20, 22, 25, 30, 9, 19, 24, 29, 18, 28, 27]"

definition ntz8tab :: "nat list" where
  "ntz8tab = [
    8, 0, 1, 0, 2, 0, 1, 0, 3, 0, 1, 0, 2, 0, 1, 0, 4, 0, 1, 0, 2, 0, 1, 0, 3, 0, 1, 0, 2, 0, 1, 0,
    5, 0, 1, 0, 2, 0, 1, 0, 3, 0, 1, 0, 2, 0, 1, 0, 4, 0, 1, 0, 2, 0, 1, 0, 3, 0, 1, 0, 2, 0, 1, 0,
    6, 0, 1, 0, 2, 0, 1, 0, 3, 0, 1, 0, 2, 0, 1, 0, 4, 0, 1, 0, 2, 0, 1, 0, 3, 0, 1, 0, 2, 0, 1, 0,
    5, 0, 1, 0, 2, 0, 1, 0, 3, 0, 1, 0, 2, 0, 1, 0, 4, 0, 1, 0, 2, 0, 1, 0, 3, 0, 1, 0, 2, 0, 1, 0,
    7, 0, 1, 0, 2, 0, 1, 0, 3, 0, 1, 0, 2, 0, 1, 0, 4, 0, 1, 0, 2, 0, 1, 0, 3, 0, 1, 0, 2, 0, 1, 0,
    5, 0, 1, 0, 2, 0, 1, 0, 3, 0, 1, 0, 2, 0, 1, 0, 4, 0, 1, 0, 2, 0, 1, 0, 3, 0, 1, 0, 2, 0, 1, 0,
    6, 0, 1, 0, 2, 0, 1, 0, 3, 0, 1, 0, 2, 0, 1, 0, 4, 0, 1, 0, 2, 0, 1, 0, 3, 0, 1, 0, 2, 0, 1, 0,
    5, 0, 1, 0, 2, 0, 1, 0, 3, 0, 1, 0, 2, 0, 1, 0, 4, 0, 1, 0, 2, 0, 1, 0, 3, 0, 1, 0, 2, 0, 1, 0]"

definition len8tab :: "nat list" where
  "len8tab = [
    0, 1, 2, 2, 3, 3, 3, 3, 4, 4, 4, 4, 4, 4, 4, 4, 5, 5, 5, 5, 5, 5, 5, 5, 5, 5, 5, 5, 5, 5, 5, 5,
    6, 6, 6, 6, 6, 6, 6, 6, 6, 6, 6, 6, 6, 6, 6, 6, 6, 6, 6, 6, 6, 6, 6, 6, 6, 6, 6, 6, 6, 6, 6, 6,
    7, 7, 7, 7, 7, 7, 7, 7, 7, 7, 7, 7, 7, 7, 7, 7, 7, 7, 7, 7, 7, 7, 7, 7, 7, 7, 7, 7, 7, 7, 7, 7,
    7, 7, 7, 7, 7, 7, 7, 7, 7, 7, 7, 7, 7, 7, 7, 7, 7, 7, 7, 7, 7, 7, 7, 7, 7, 7, 7, 7, 7, 7, 7, 7,
    8, 8, 8, 8, 8, 8, 8, 8, 8, 8, 8, 8, 8, 8, 8, 8, 8, 8, 8, 8, 8, 8, 8, 8, 8, 8, 8, 8, 8, 8, 8, 8,
    8, 8, 8, 8, 8, 8, 8, 8, 8, 8, 8, 8, 8, 8, 8, 8, 8, 8, 8, 8, 8, 8, 8, 8, 8, 8, 8, 8, 8, 8, 8, 8,
    8, 8, 8, 8, 8, 8, 8, 8, 8, 8, 8, 8, 8, 8, 8, 8, 8, 8, 8, 8, 8, 8, 8, 8, 8, 8, 8, 8, 8, 8, 8, 8,
    8, 8, 8, 8, 8, 8, 8, 8, 8, 8, 8, 8, 8, 8, 8, 8, 8, 8, 8, 8, 8, 8, 8, 8, 8, 8, 8, 8, 8, 8, 8, 8]"

text \<open>An index is the top of a word, so it lies within its table.\<close>

definition Ctz64 :: "u64 \<Rightarrow> nat" where
  "Ctz64 x =
     (let x = x AND - x;
          y = drop_bit 58 (x * deBruijn64ctz);
          i = deBruijnIdx64ctz ! unat y;
          z = unat (drop_bit 57 (x - 1) AND 64) in
      i + z)"

definition Ctz32 :: "u32 \<Rightarrow> nat" where
  "Ctz32 x =
     (let x = x AND - x;
          y = drop_bit 27 (x * deBruijn32ctz);
          i = deBruijnIdx32ctz ! unat y;
          z = unat (drop_bit 26 (x - 1) AND 32) in
      i + z)"

definition Ctz8 :: "byte \<Rightarrow> nat" where "Ctz8 x = ntz8tab ! unat x"

definition Bswap64 :: "u64 \<Rightarrow> u64" where
  "Bswap64 x =
     (let c8 = 0x00ff00ff00ff00ff;
          a = drop_bit 8 x AND c8;
          b = push_bit 8 (x AND c8);
          x = a OR b;
          c16 = 0x0000ffff0000ffff;
          a = drop_bit 16 x AND c16;
          b = push_bit 16 (x AND c16);
          x = a OR b;
          c32 = 0x00000000ffffffff;
          a = drop_bit 32 x AND c32;
          b = push_bit 32 (x AND c32) in
      a OR b)"

definition Bswap32 :: "u32 \<Rightarrow> u32" where
  "Bswap32 x =
     (let c8 = 0x00ff00ff;
          a = drop_bit 8 x AND c8;
          b = push_bit 8 (x AND c8);
          x = a OR b;
          c16 = 0x0000ffff;
          a = drop_bit 16 x AND c16;
          b = push_bit 16 (x AND c16) in
      a OR b)"

definition Len64 :: "u64 \<Rightarrow> nat" where
  "Len64 x =
     (let (x, n) = (if x \<ge> push_bit 32 1 then (drop_bit 32 x, 32) else (x, 0));
          (x, n) = (if x \<ge> push_bit 16 1 then (drop_bit 16 x, n + 16) else (x, n));
          (x, n) = (if x \<ge> push_bit 8 1 then (drop_bit 8 x, n + 8) else (x, n)) in
      n + len8tab ! unat x)"

definition sys_m0 :: u64 where "sys_m0 = 0x5555555555555555"
definition sys_m1 :: u64 where "sys_m1 = 0x3333333333333333"
definition sys_m2 :: u64 where "sys_m2 = 0x0f0f0f0f0f0f0f0f"

definition OnesCount64 :: "u64 \<Rightarrow> nat" where
  "OnesCount64 x =
     (let m = - 1;
          x = (drop_bit 1 x AND (sys_m0 AND m)) + (x AND (sys_m0 AND m));
          x = (drop_bit 2 x AND (sys_m1 AND m)) + (x AND (sys_m1 AND m));
          x = (drop_bit 4 x + x) AND (sys_m2 AND m);
          x = x + drop_bit 8 x;
          x = x + drop_bit 16 x;
          x = x + drop_bit 32 x in
      unat (x AND (push_bit 7 1 - 1)))"

definition deBruijn64 :: u64 where "deBruijn64 = 0x03f79d71b4ca8b09"
definition deBruijn64tab :: "nat list" where
  "deBruijn64tab = [
    0, 1, 56, 2, 57, 49, 28, 3, 61, 58, 42, 50, 38, 29, 17, 4, 62, 47, 59, 36, 45, 43, 51, 22, 53, 39, 33, 30, 24, 18, 12, 5,
    63, 55, 48, 27, 60, 41, 37, 16, 46, 35, 44, 21, 52, 32, 23, 11, 54, 26, 40, 15, 34, 20, 31, 10, 25, 14, 19, 9, 13, 8, 7, 6]"

definition TrailingZeros64 :: "u64 \<Rightarrow> nat" where
  "TrailingZeros64 x = (if x = 0 then 64 else deBruijn64tab ! unat (drop_bit (64 - 6) ((x AND - x) * deBruijn64)))"

definition LeadingZeros64 :: "u64 \<Rightarrow> nat" where "LeadingZeros64 x = 64 - Len64 x"

definition Len8 :: "byte \<Rightarrow> nat" where "Len8 x = len8tab ! unat x"

definition LeadingZeros8 :: "byte \<Rightarrow> nat" where "LeadingZeros8 x = 8 - Len8 x"

definition TrailingZeros8 :: "byte \<Rightarrow> nat" where "TrailingZeros8 x = ntz8tab ! unat x"

section \<open>Runs of zeros\<close>

definition wbits :: "'a::len word \<Rightarrow> bool list" where
  "wbits x = map (bit x) [0..<LENGTH('a)]"

definition zlead :: "bool list \<Rightarrow> nat" where "zlead bs = length (takeWhile Not bs)"
definition ztrail :: "bool list \<Rightarrow> nat" where "ztrail bs = zlead (rev bs)"

text \<open>The longest run.\<close>

fun zmax :: "bool list \<Rightarrow> nat" where
  "zmax [] = 0"
| "zmax (b # bs) = max (zlead (b # bs)) (zmax bs)"

lemma length_wbits [simp]: "length (wbits (x :: 'a::len word)) = LENGTH('a)"
  by (simp add: wbits_def)

lemma nth_wbits [simp]: "k < LENGTH('a) \<Longrightarrow> wbits x ! k = bit x k" for x :: "'a::len word"
  by (simp add: wbits_def)

lemma zlead_le: "zlead bs \<le> length bs"
  by (simp add: zlead_def length_takeWhile_le)

lemma zlead_zero: "j < zlead bs \<Longrightarrow> \<not> bs ! j"
  unfolding zlead_def by (metis nth_mem set_takeWhileD takeWhile_nth)

lemma zlead_one: "zlead bs < length bs \<Longrightarrow> bs ! zlead bs"
  unfolding zlead_def using nth_length_takeWhile [of Not bs] by simp

lemma zlead_unique: "(\<And>j. j < k \<Longrightarrow> \<not> bs ! j) \<Longrightarrow> k \<le> length bs \<Longrightarrow> (k < length bs \<Longrightarrow> bs ! k) \<Longrightarrow> zlead bs = k"
  by (metis linorder_neqE_nat zlead_le zlead_one zlead_zero less_le_trans le_neq_implies_less)

lemma zlead_nth_less: "zlead (wbits x) = k \<Longrightarrow> k < LENGTH('a) \<Longrightarrow> bit x k \<and> (\<forall>j<k. \<not> bit x j)" for x :: "'a::len word"
  using zlead_one [of "wbits x"] zlead_zero [of _ "wbits x"] by fastforce

lemma zlead_all: "zlead (wbits x) = LENGTH('a) \<longleftrightarrow> x = 0" for x :: "'a::len word"
proof
  assume "zlead (wbits x) = LENGTH('a)"
  then have "\<not> bit x j" if "j < LENGTH('a)" for j using zlead_zero [of j "wbits x"] that by simp
  then show "x = 0" by (intro bit_word_eqI) simp
qed (auto intro: zlead_unique)

section \<open>The lowest bit\<close>

lemma lowest_bit:
  fixes x :: "'a::len word"
  assumes "bit x k" "\<forall>j<k. \<not> bit x j"
  shows "x AND - x = push_bit k 1"
proof -
  define m where "m = Suc k"
  then have m: "\<And>j. j < m \<longleftrightarrow> j < k \<or> j = k" and km: "k < m" by auto
  let ?y = "push_bit m (drop_bit m x)"
  have k: "k < LENGTH('a)" using assms(1) bit_imp_le_length by blast
  have low: "take_bit m x = push_bit k 1"
    using assms by (intro bit_word_eqI) (auto simp: bit_simps m)
  have "x = ?y + push_bit k 1" using bits_ident [of m x] low by simp
  then have "x - 1 = ?y + mask k" by (metis mask_eq_exp_minus_1 add_diff_eq push_bit_of_1)
  also have "\<dots> = ?y OR mask k"
    by (rule disjunctive_add_eq_or) (use km in \<open>auto intro!: bit_word_eqI simp: bit_simps\<close>)
  finally have *: "x - 1 = ?y OR mask k" .
  have "bit (x - 1) n \<longleftrightarrow> n < k \<or> k < n \<and> bit x n" if "n < LENGTH('a)" for n
    using that m [of n] unfolding * by (auto simp: bit_simps)
  then show ?thesis using assms k
    by (intro bit_word_eqI) (auto simp: bit_simps bit_minus_iff not_less_iff_gr_or_eq)
qed

lemma deBruijn_table:
  "list_all (\<lambda>k. deBruijn64tab ! (2 ^ k * 0x03f79d71b4ca8b09 mod 2 ^ 64 div 2 ^ 58) = k) [0..<64]"
  "list_all (\<lambda>k. deBruijnIdx64ctz ! (2 ^ k * 0x0218a392cd3d5dbf mod 2 ^ 64 div 2 ^ 58) = k) [0..<64]"
  "list_all (\<lambda>k. deBruijnIdx32ctz ! (2 ^ k * 0x04653adf mod 2 ^ 32 div 2 ^ 27) = k) [0..<32]"
  by (simp_all add: upt_conv_Cons deBruijn64tab_def deBruijnIdx64ctz_def deBruijnIdx32ctz_def)

lemma deBruijn_lookup:
  "k < 64 \<Longrightarrow> deBruijn64tab ! unat (drop_bit 58 (push_bit k 1 * deBruijn64)) = k"
  "k < 64 \<Longrightarrow> deBruijnIdx64ctz ! unat (drop_bit 58 (push_bit k 1 * deBruijn64ctz)) = k"
  "k < 32 \<Longrightarrow> deBruijnIdx32ctz ! unat (drop_bit 27 (push_bit k 1 * deBruijn32ctz)) = k"
proof -
  have *: "unat (drop_bit n (push_bit k 1 * w)) = 2 ^ k * unat w mod 2 ^ LENGTH('a) div 2 ^ n" for n and w :: "'a::len word"
  proof -
    have "push_bit k 1 * w = push_bit k w" by (simp add: push_bit_eq_mult)
    then show ?thesis by (simp only: view_simps) (simp add: mult.commute)
  qed
  show "k < 64 \<Longrightarrow> deBruijn64tab ! unat (drop_bit 58 (push_bit k 1 * deBruijn64)) = k"
    using deBruijn_table(1) unfolding * by (simp add: list_all_iff deBruijn64_def)
  show "k < 64 \<Longrightarrow> deBruijnIdx64ctz ! unat (drop_bit 58 (push_bit k 1 * deBruijn64ctz)) = k"
    using deBruijn_table(2) unfolding * by (simp add: list_all_iff deBruijn64ctz_def)
  show "k < 32 \<Longrightarrow> deBruijnIdx32ctz ! unat (drop_bit 27 (push_bit k 1 * deBruijn32ctz)) = k"
    using deBruijn_table(3) unfolding * by (simp add: list_all_iff deBruijn32ctz_def)
qed

text \<open>The adjustment for zero vanishes elsewhere.\<close>

lemma below_bit:
  assumes "LENGTH('a::len) = n + Suc m" "k < LENGTH('a)"
  shows "drop_bit n (push_bit k 1 - 1 :: 'a word) AND push_bit m 1 = 0"
proof -
  have "push_bit k 1 - 1 = (mask k :: 'a word)" by (simp add: mask_eq_exp_minus_1)
  then show ?thesis using assms by (intro bit_word_eqI) (auto simp: bit_simps)
qed

lemma TrailingZeros64_bits: "TrailingZeros64 x = zlead (wbits x)"
proof (cases "x = 0")
  case True
  then show ?thesis using zlead_all [of x] by (simp add: TrailingZeros64_def)
next
  case False
  then have k: "zlead (wbits x) < 64" using zlead_all [of x] zlead_le [of "wbits x"] by (simp add: le_less)
  then have "x AND - x = push_bit (zlead (wbits x)) 1" using zlead_nth_less [OF refl, of x] by (intro lowest_bit) simp_all
  then show ?thesis using False deBruijn_lookup(1) [OF k] by (simp add: TrailingZeros64_def)
qed

lemma Ctz64_bits: "Ctz64 x = zlead (wbits x)"
proof (cases "x = 0")
  case True
  have "Ctz64 0 = 64" by code_simp
  then show ?thesis using True zlead_all [of x] by simp
next
  case False
  then have k: "zlead (wbits x) < 64" using zlead_all [of x] zlead_le [of "wbits x"] by (simp add: le_less)
  then have "x AND - x = push_bit (zlead (wbits x)) 1" using zlead_nth_less [OF refl, of x] by (intro lowest_bit) simp_all
  then show ?thesis using deBruijn_lookup(2) [OF k] below_bit [where 'a = 64 and n = 57 and m = 6, of "zlead (wbits x)"] k
    by (simp add: Ctz64_def Let_def)
qed

lemma Ctz32_bits: "Ctz32 x = zlead (wbits x)"
proof (cases "x = 0")
  case True
  have "Ctz32 0 = 32" by code_simp
  then show ?thesis using True zlead_all [of x] by simp
next
  case False
  then have k: "zlead (wbits x) < 32" using zlead_all [of x] zlead_le [of "wbits x"] by (simp add: le_less)
  then have "x AND - x = push_bit (zlead (wbits x)) 1" using zlead_nth_less [OF refl, of x] by (intro lowest_bit) simp_all
  then show ?thesis using deBruijn_lookup(3) [OF k] below_bit [where 'a = 32 and n = 26 and m = 5, of "zlead (wbits x)"] k
    by (simp add: Ctz32_def Let_def)
qed

text \<open>The bits of all numbers below \<open>2 ^ n\<close>, in order: the tables are functions of them.\<close>

lemma nth_concat_pairs:
  "k < length xs \<Longrightarrow> concat (map (\<lambda>y. [f y, g y]) xs) ! (2 * k) = f (xs ! k) \<and> concat (map (\<lambda>y. [f y, g y]) xs) ! Suc (2 * k) = g (xs ! k)"
proof (induction xs arbitrary: k)
  case (Cons x xs)
  then show ?case by (cases k) auto
qed simp

lemma nth_bit_lists: "m < 2 ^ n \<Longrightarrow> List.n_lists n [False, True] ! m = map (bit m) [0..<n]"
proof (induction n arbitrary: m)
  case (Suc n)
  let ?L = "List.n_lists n [False, True]"
  have q: "m div 2 < 2 ^ n" using Suc.prems by auto
  have len: "length ?L = 2 ^ n" by (simp add: length_n_lists numeral_2_eq_2)
  have "List.n_lists (Suc n) [False, True] ! m = odd m # ?L ! (m div 2)"
    using nth_concat_pairs [of "m div 2" ?L "Cons False" "Cons True"] q len
    by (cases "odd m") (auto simp: elim!: oddE evenE)
  also have "\<dots> = map (bit m) [0..<Suc n]"
    using Suc.IH [OF q] by (simp add: upt_conv_Cons map_Suc_upt [symmetric] bit_0 bit_Suc del: upt_Suc)
  finally show ?case .
qed simp

lemma wbits_byte: "wbits x = List.n_lists 8 [False, True] ! unat x" for x :: byte
proof -
  have "unat x < 2 ^ 8" using unsigned_less [of x] by simp
  then show ?thesis by (simp add: nth_bit_lists wbits_def bit_unsigned_iff bit_imp_le_length)
qed

lemma bytes_256: "length (List.n_lists 8 [False, True]) = 256" "length len8tab = 256"
  by (simp_all add: length_n_lists numeral_2_eq_2 [symmetric] len8tab_def)

lemma unat_byte: "unat (x :: byte) < 256"
  using unsigned_less [of x] by simp

lemma byte_tables:
  "ntz8tab = map zlead (List.n_lists 8 [False, True])"
  "map (\<lambda>n. 8 - n) len8tab = map ztrail (List.n_lists 8 [False, True])"
  by code_simp+

lemma TrailingZeros8_bits: "TrailingZeros8 x = zlead (wbits x)"
  using bytes_256 unat_byte [of x] by (simp only: TrailingZeros8_def byte_tables(1) wbits_byte nth_map)

lemma Ctz8_bits: "Ctz8 x = zlead (wbits x)"
  using TrailingZeros8_bits [of x] by (simp add: Ctz8_def TrailingZeros8_def)

lemma LeadingZeros8_bits: "LeadingZeros8 x = ztrail (wbits x)"
proof -
  have "8 - len8tab ! unat x = map (\<lambda>n. 8 - n) len8tab ! unat x" using bytes_256 unat_byte [of x] by (simp only: nth_map)
  also have "\<dots> = ztrail (wbits x)" using bytes_256 unat_byte [of x] by (simp only: byte_tables(2) wbits_byte nth_map)
  finally show ?thesis by (simp add: LeadingZeros8_def Len8_def)
qed

section \<open>The highest bit\<close>

text \<open>The number of bits of a number.\<close>

lemma bit_high: "unat x < 2 ^ n \<Longrightarrow> n \<le> m \<Longrightarrow> \<not> bit x m" for x :: "'a::len word"
proof -
  assume "unat x < 2 ^ n" "n \<le> m"
  then have "unat x < 2 ^ m" by (meson order.strict_trans2 one_le_numeral power_increasing)
  then have "\<not> bit (unat x) m" by (simp add: bit_iff_odd)
  then show "\<not> bit x m" using bit_imp_le_length by (auto simp: bit_unsigned_iff)
qed

lemma bit_top: "2 ^ n \<le> unat x \<Longrightarrow> unat x < 2 ^ Suc n \<Longrightarrow> bit x n" for x :: "'a::len word"
proof -
  assume a: "2 ^ n \<le> unat x" "unat x < 2 ^ Suc n"
  then have "unat x div 2 ^ n < 2" by (simp add: less_mult_imp_div_less)
  moreover have "1 \<le> unat x div 2 ^ n" using a(1) by (simp add: less_eq_div_iff_mult_less_eq)
  ultimately have "unat x div 2 ^ n = 1" by linarith
  then have "bit (unat x) n" by (simp add: bit_iff_odd)
  then show "bit x n" by (simp add: bit_unsigned_iff)
qed

lemma ztrail_bits:
  fixes x :: "'a::len word"
  assumes "unat x < 2 ^ n" "n \<le> LENGTH('a)" "n = 0 \<or> 2 ^ (n - 1) \<le> unat x"
  shows "ztrail (wbits x) = LENGTH('a) - n"
  unfolding ztrail_def
proof (rule zlead_unique)
  fix j assume "j < LENGTH('a) - n"
  then show "\<not> rev (wbits x) ! j" using bit_high [OF assms(1), of "LENGTH('a) - Suc j"] by (simp add: rev_nth)
next
  assume "LENGTH('a) - n < length (rev (wbits x))"
  then have n: "0 < n" using assms(2) by auto
  then have "bit x (n - 1)" using bit_top [of "n - 1" x] assms(1,3) by auto
  then show "rev (wbits x) ! (LENGTH('a) - n)" using n assms(2) by (simp add: rev_nth)
qed simp

text \<open>\<open>n\<close> is the length of \<open>k\<close> in bits.\<close>

definition bit_len :: "nat \<Rightarrow> nat \<Rightarrow> bool" where
  "bit_len k n \<longleftrightarrow> k < 2 ^ n \<and> (n = 0 \<or> 2 ^ (n - 1) \<le> k)"

lemma bit_len_shift:
  assumes "bit_len (k div 2 ^ m) n" "2 ^ m \<le> k"
  shows "bit_len k (n + m)"
proof -
  have "0 < k div 2 ^ m" using assms(2) by (simp add: div_greater_zero_iff)
  then have n: "0 < n" "2 ^ (n - 1) \<le> k div 2 ^ m" "k div 2 ^ m < 2 ^ n" using assms(1) by (auto simp: bit_len_def intro: gr0I)
  then have "2 ^ (n - 1) * 2 ^ m \<le> k" "k < 2 ^ n * 2 ^ m"
    by (simp_all add: less_eq_div_iff_mult_less_eq div_less_iff_less_mult)
  moreover have "2 ^ (n + m - 1) = (2 ^ (n - 1) * 2 ^ m :: nat)" using n(1) by (simp flip: power_add)
  ultimately show ?thesis using n(1) unfolding bit_len_def by (simp only: power_add) simp
qed

lemma bit_len_table:
  assumes "k < 256"
  shows "bit_len k (len8tab ! k)"
proof -
  let ?n = "len8tab ! k"
  have "\<forall>n \<in> set len8tab. n \<le> 8" by (simp add: len8tab_def)
  then have n: "?n \<le> 8" using assms bytes_256(2) by simp
  have "8 - ?n = map (\<lambda>n. 8 - n) len8tab ! k" using bytes_256 assms by (simp only: nth_map)
  also have "\<dots> = ztrail (map (bit k) [0..<8])" using bytes_256 assms nth_bit_lists [of k 8] by (simp only: byte_tables(2) nth_map) simp
  finally have z: "zlead (rev (map (bit k) [0..<8])) = 8 - ?n" by (simp add: ztrail_def)
  have k8: "take_bit 8 k = k" using assms by (simp add: take_bit_nat_eq_self)
  have "\<not> bit k j" if "?n \<le> j" for j
  proof (cases "j < 8")
    case True
    then show ?thesis using zlead_zero [of "7 - j" "rev (map (bit k) [0..<8])"] z that n by (simp add: rev_nth)
  next
    case False
    then show ?thesis using k8 by (metis bit_take_bit_iff)
  qed
  then have "take_bit ?n k = k" by (intro bit_eqI) (metis bit_take_bit_iff not_less)
  then have "k < 2 ^ ?n" by (metis take_bit_nat_less_exp)
  moreover have "2 ^ (?n - 1) \<le> k" if "0 < ?n"
  proof -
    have "bit k (?n - 1)" using zlead_one [of "rev (map (bit k) [0..<8])"] z that n by (simp add: rev_nth)
    then show ?thesis by (metis bit_take_bit_iff less_irrefl not_less take_bit_nat_eq_self)
  qed
  ultimately show ?thesis by (auto simp: bit_len_def)
qed

lemma Len64_bits: "bit_len (unat x) (Len64 x)"
proof -
  have tab: "bit_len k (len8tab ! k)" if "k < 256" for k
    using bit_len_table that .
  have ge: "y \<ge> push_bit m 1 \<longleftrightarrow> 2 ^ m \<le> unat y" if "m < 64" for y :: u64 and m
  proof -
    have "(2 :: nat) ^ m < 2 ^ 64" using that by (intro power_strict_increasing) simp_all
    then have "unat (push_bit m 1 :: u64) = 2 ^ m" by (simp only: view_simps) simp
    then show ?thesis by (simp only: word_le_nat_alt)
  qed
  define x1 n1 where "x1 = (if x \<ge> push_bit 32 1 then drop_bit 32 x else x)" and "n1 = (if x \<ge> push_bit 32 1 then 32 else 0 :: nat)"
  define x2 n2 where "x2 = (if x1 \<ge> push_bit 16 1 then drop_bit 16 x1 else x1)" and "n2 = (if x1 \<ge> push_bit 16 1 then n1 + 16 else n1)"
  define x3 n3 where "x3 = (if x2 \<ge> push_bit 8 1 then drop_bit 8 x2 else x2)" and "n3 = (if x2 \<ge> push_bit 8 1 then n2 + 8 else n2)"
  have L: "Len64 x = n3 + len8tab ! unat x3"
    by (simp add: Len64_def x3_def n3_def x2_def n2_def x1_def n1_def split: if_splits)
  have "unat x < 2 ^ 64" using unsigned_less [of x] by simp
  then have x1: "unat x1 < 2 ^ 32" using ge [of 32 x] by (auto simp: x1_def view_simps)
  then have x2: "unat x2 < 2 ^ 16" using ge [of 16 x1] by (auto simp: x2_def view_simps)
  then have x3: "unat x3 < 2 ^ 8" using ge [of 8 x2] by (auto simp: x3_def view_simps)
  let ?n = "len8tab ! unat x3"
  have "bit_len (unat x3) ?n" using tab x3 by simp
  then have "bit_len (unat x2) (?n + (n3 - n2))"
    using ge [of 8 x2] bit_len_shift [of "unat x2" 8 ?n] by (auto simp: x3_def n3_def view_simps split: if_splits)
  then have "bit_len (unat x1) (?n + (n3 - n2) + (n2 - n1))"
    using ge [of 16 x1] bit_len_shift [of "unat x1" 16 "?n + (n3 - n2)"] by (auto simp: x2_def n2_def view_simps add.assoc split: if_splits)
  then have "bit_len (unat x) (?n + (n3 - n2) + (n2 - n1) + n1)"
    using ge [of 32 x] bit_len_shift [of "unat x" 32 "?n + (n3 - n2) + (n2 - n1)"] by (auto simp: x1_def n1_def view_simps split: if_splits)
  moreover have "n1 \<le> n2" "n2 \<le> n3" by (simp_all add: n2_def n3_def)
  ultimately show ?thesis by (simp add: L add.commute)
qed

lemma LeadingZeros64_bits: "LeadingZeros64 x = ztrail (wbits x)"
proof -
  have n: "unat x < 2 ^ Len64 x" "Len64 x = 0 \<or> 2 ^ (Len64 x - 1) \<le> unat x" using Len64_bits [of x] by (simp_all add: bit_len_def)
  have "unat x < 2 ^ 64" using unsigned_less [of x] by simp
  then have "2 ^ (Len64 x - 1) < (2 ^ 64 :: nat)" if "Len64 x \<noteq> 0" using n(2) that by auto
  then have "Len64 x \<noteq> 0 \<longrightarrow> Len64 x - 1 < 64" using power_less_imp_less_exp [of "2 :: nat" _ 64] by auto
  then have "Len64 x \<le> 64" by linarith
  then show ?thesis using ztrail_bits [of x "Len64 x"] n by (simp add: LeadingZeros64_def)
qed

section \<open>Counting ones\<close>

text \<open>Numbers as lists of digits; adding the digits in pairs.\<close>

fun base_digits :: "nat \<Rightarrow> nat list \<Rightarrow> nat" where
  "base_digits B [] = 0"
| "base_digits B (f # fs) = f + B * base_digits B fs"

fun evens :: "nat list \<Rightarrow> nat list" where
  "evens (a # b # fs) = a # evens fs"
| "evens fs = fs"

fun pairs :: "nat list \<Rightarrow> nat list" where
  "pairs (a # b # fs) = (a + b) # pairs fs"
| "pairs fs = fs"

lemma and_split:
  fixes a b c d :: nat
  assumes "a < 2 ^ n" "c < 2 ^ n"
  shows "(a + 2 ^ n * b) AND (c + 2 ^ n * d) = (a AND c) + 2 ^ n * (b AND d)"
proof -
  have *: "a + 2 ^ n * b = a OR push_bit n b" if "a < 2 ^ n" for a b :: nat
    using nat_or_disjoint [of "push_bit n b" n a] that by (simp add: push_bit_eq_mult or.commute mult.commute)
  have t: "take_bit n a = a" "take_bit n c = c" "take_bit n (a AND c) = a AND c" using assms by (simp_all add: take_bit_nat_eq_self)
  then have "a AND c < 2 ^ n" by (metis take_bit_nat_less_exp)
  moreover have "(take_bit n a OR push_bit n b) AND (take_bit n c OR push_bit n d) = take_bit n (a AND c) OR push_bit n (b AND d)"
    by (rule bit_eqI) (auto simp: bit_simps)
  ultimately show ?thesis unfolding * [OF assms(1)] * [OF assms(2)] * [OF \<open>a AND c < 2 ^ n\<close>] t by simp
qed

lemma base_digits_less: "\<forall>f \<in> set fs. f < B \<Longrightarrow> base_digits B fs < B ^ length fs"
proof (induction fs)
  case (Cons f fs)
  then have "f + B * base_digits B fs < B + B * base_digits B fs" by simp
  also have "\<dots> = B * Suc (base_digits B fs)" by simp
  also have "\<dots> \<le> B * B ^ length fs" using Cons by (intro mult_le_mono2) (simp add: Suc_le_eq)
  finally show ?case by simp
qed simp

lemma base_digits_append: "base_digits B (fs @ [0]) = base_digits B fs"
  by (induction fs) simp_all

lemma base_digits_bits: "base_digits 2 (map of_bool bs) = horner_sum of_bool 2 bs"
  by (induction bs) simp_all

lemma base_digits_drop: "\<forall>f \<in> set fs. f < B \<Longrightarrow> base_digits B fs div B ^ k = base_digits B (drop k fs)"
proof (induction fs arbitrary: k)
  case (Cons f fs)
  show ?case
  proof (cases k)
    case (Suc j)
    have "(f + B * base_digits B fs) div B ^ k = (f + B * base_digits B fs) div B div B ^ j" by (simp add: Suc div_mult2_eq)
    also have "(f + B * base_digits B fs) div B = base_digits B fs" using Cons.prems by simp
    finally show ?thesis using Cons Suc by simp
  qed simp
qed simp

lemma base_digits_evens:
  assumes "\<forall>f \<in> set fs. f < 2 ^ w" "length fs = 2 * m"
  shows "base_digits (2 ^ w) fs AND base_digits (2 ^ (2 * w)) (replicate m (2 ^ w - 1)) = base_digits (2 ^ (2 * w)) (evens fs)"
  using assms
proof (induction fs arbitrary: m rule: evens.induct)
  case (1 a b fs)
  obtain j where m: "m = Suc j" using "1.prems"(2) by (cases m) auto
  let ?D = "base_digits (2 ^ w) fs" and ?M = "base_digits (2 ^ (2 * w)) (replicate j (2 ^ w - 1))"
  have B: "(2 :: nat) ^ w * 2 ^ w = 2 ^ (2 * w)" by (simp add: mult_2 power_add)
  have "a + 2 ^ w * b < 2 ^ (2 * w)" using base_digits_less [of "[a, b]" "2 ^ w"] "1.prems"(1) B by simp
  moreover have "2 ^ w - 1 < (2 :: nat) ^ (2 * w)"
    by (rule order.strict_trans2 [of _ "2 ^ w"]) simp_all
  ultimately have "(a + 2 ^ w * b + 2 ^ (2 * w) * ?D) AND (2 ^ w - 1 + 2 ^ (2 * w) * ?M)
      = ((a + 2 ^ w * b) AND (2 ^ w - 1)) + 2 ^ (2 * w) * (?D AND ?M)" by (rule and_split)
  moreover have "(a + 2 ^ w * b) AND (2 ^ w - 1) = a"
    using "1.prems"(1) take_bit_eq_mask [of w "a + 2 ^ w * b"] by (simp add: mask_eq_exp_minus_1 take_bit_eq_mod)
  moreover have "?D AND ?M = base_digits (2 ^ (2 * w)) (evens fs)" using 1 m by simp
  ultimately show ?case using m B by (simp add: distrib_left mult.assoc [symmetric] add.assoc)
qed auto

text \<open>Digits and their right neighbours.\<close>

definition neighbours :: "nat list \<Rightarrow> nat list" where
  "neighbours fs = map2 (+) fs (tl fs @ [0])"

lemma base_digits_add: "length fs = length gs \<Longrightarrow> base_digits B fs + base_digits B gs = base_digits B (map2 (+) fs gs)"
  by (induction fs gs rule: list_induct2) (simp_all flip: distrib_left)

lemma base_digits_neighbours: "fs \<noteq> [] \<Longrightarrow> \<forall>f \<in> set fs. f < B \<Longrightarrow> base_digits B fs div B + base_digits B fs = base_digits B (neighbours fs)"
  using base_digits_drop [of fs B 1] base_digits_append [of B "tl fs"] base_digits_add [of fs "tl fs @ [0]" B]
  by (simp add: neighbours_def drop_Suc)

lemma neighbours_Cons: "neighbours (a # b # fs) = (a + b) # neighbours (b # fs)" "neighbours [a] = [a]"
  by (simp_all add: neighbours_def)

lemma evens_neighbours: "even (length fs) \<Longrightarrow> evens (neighbours fs) = pairs fs"
proof (induction fs rule: evens.induct)
  case (1 a b fs)
  then show ?case by (cases fs) (simp_all add: neighbours_Cons)
qed (simp_all add: neighbours_def)

lemma pairs_evens: "even (length fs) \<Longrightarrow> fs \<noteq> [] \<Longrightarrow> base_digits B (evens fs) + base_digits B (evens (tl fs @ [0])) = base_digits B (pairs fs)"
proof (induction fs rule: evens.induct)
  case (1 a b fs)
  then show ?case by (cases fs) (auto simp flip: distrib_left)
qed auto

lemma pairs_facts:
  assumes "even (length fs)"
  shows "sum_list (pairs fs) = sum_list fs" "2 * length (pairs fs) = length fs"
    "\<forall>f \<in> set fs. f \<le> c \<Longrightarrow> \<forall>f \<in> set (pairs fs). f \<le> 2 * c"
  using assms by (induction fs rule: pairs.induct) auto

lemma pairs_step:
  fixes x M :: u64
  assumes x: "unat x = base_digits (2 ^ w) fs" "\<forall>f \<in> set fs. f < 2 ^ w" "length fs = 2 * m" "w * length fs = 64" "0 < w"
    and M: "unat M = base_digits (2 ^ (2 * w)) (replicate m (2 ^ w - 1))"
  shows "unat ((drop_bit w x AND M) + (x AND M)) = base_digits (2 ^ (2 * w)) (pairs fs)"
proof -
  have ne: "fs \<noteq> []" using x(4) by auto
  have "unat (x AND M) = base_digits (2 ^ (2 * w)) (evens fs)"
    using base_digits_evens [OF x(2,3)] x(1) M by (simp add: unsigned_and_eq)
  moreover have "unat (drop_bit w x) = base_digits (2 ^ w) (tl fs @ [0])"
    using base_digits_drop [OF x(2), of 1] base_digits_append [of "2 ^ w" "tl fs"] x(1) by (simp add: view_simps drop_Suc)
  moreover have "\<forall>f \<in> set (tl fs @ [0]). f < 2 ^ w" "length (tl fs @ [0]) = 2 * m"
    using x(2,3) ne by (cases fs; auto)+
  ultimately have "unat (drop_bit w x AND M) + unat (x AND M) = base_digits (2 ^ (2 * w)) (pairs fs)"
    using base_digits_evens [of "tl fs @ [0]" w m] pairs_evens [of fs "2 ^ (2 * w)"] x(3) ne M by (simp add: unsigned_and_eq add.commute)
  moreover have "base_digits (2 ^ (2 * w)) (pairs fs) < 2 ^ 64"
  proof -
    have "\<forall>f \<in> set fs. f \<le> 2 ^ w - 1" using x(2) by (auto simp: less_eq_Suc_le)
    moreover have "even (length fs)" using x(3) by simp
    ultimately have "\<forall>f \<in> set (pairs fs). f \<le> 2 * (2 ^ w - 1)" by (intro pairs_facts(3))
    moreover have "2 * (2 ^ w - 1) < (2 :: nat) ^ (2 * w)"
    proof -
      have "(2 :: nat) ^ 1 \<le> 2 ^ w" using x(5) by (intro power_increasing) simp_all
      then have "2 * 2 ^ w \<le> (2 :: nat) ^ w * 2 ^ w" by (intro mult_le_mono1) simp
      moreover have "2 * (2 ^ w - 1) < 2 * (2 :: nat) ^ w" by simp
      ultimately show ?thesis by (simp only: mult_2 power_add)
    qed
    ultimately have "base_digits (2 ^ (2 * w)) (pairs fs) < (2 ^ (2 * w)) ^ length (pairs fs)" by (intro base_digits_less) auto
    moreover have "(2 * w) * length (pairs fs) = 64" using pairs_facts(2) [of fs] x(3,4) by simp
    ultimately show ?thesis by (simp only: power_mult [symmetric])
  qed
  ultimately show ?thesis by (simp add: unat_word_ariths)
qed

text \<open>Adding the word shifted by whole digits; the lowest digit collects the sum.\<close>

definition gather :: "nat \<Rightarrow> nat list \<Rightarrow> nat list" where
  "gather k fs = map2 (+) fs (drop k fs @ replicate k 0)"

lemma base_digits_zeros: "base_digits B (fs @ replicate k 0) = base_digits B fs"
proof (induction k)
  case (Suc k)
  have "fs @ replicate (Suc k) 0 = (fs @ replicate k 0) @ [0]" by (simp add: replicate_append_same)
  then show ?case using Suc base_digits_append by metis
qed simp

lemma gather_step:
  fixes x :: u64
  assumes x: "unat x = base_digits (2 ^ 8) fs" "length fs = 8" "\<forall>f \<in> set fs. f \<le> c" "k \<le> 8" "2 * c < 256"
  shows "unat (x + drop_bit (8 * k) x) = base_digits (2 ^ 8) (gather k fs)" "length (gather k fs) = 8" "\<forall>f \<in> set (gather k fs). f \<le> 2 * c"
proof -
  have "\<forall>f \<in> set fs. f < 2 ^ 8" using x(3,5) by auto
  from base_digits_drop [OF this, of k] have d: "unat (drop_bit (8 * k) x) = base_digits (2 ^ 8) (drop k fs @ replicate k 0)"
    using x(1) unfolding power_mult [symmetric] by (simp only: view_simps base_digits_zeros)
  have l: "length fs = length (drop k fs @ replicate k 0)" using x(2,4) by simp
  have sum: "unat x + unat (drop_bit (8 * k) x) = base_digits (2 ^ 8) (gather k fs)"
    unfolding x(1) d gather_def by (rule base_digits_add [OF l])
  show len: "length (gather k fs) = 8" using x(2,4) by (simp add: gather_def)
  show le: "\<forall>f \<in> set (gather k fs). f \<le> 2 * c"
  proof
    fix f assume "f \<in> set (gather k fs)"
    then obtain i where i: "i < 8" "f = gather k fs ! i" using len by (auto simp: in_set_conv_nth)
    have "fs ! j \<le> c" if "j < 8" for j using x(2,3) that by auto
    then have "(drop k fs @ replicate k 0) ! i \<le> c" using i(1) x(2,4) by (cases "i < 8 - k") (simp_all add: nth_append)
    moreover have "f = fs ! i + (drop k fs @ replicate k 0) ! i" using i x(2,4) by (simp add: gather_def)
    moreover have "fs ! i \<le> c" using i(1) x(2,3) by simp
    ultimately show "f \<le> 2 * c" by linarith
  qed
  have "base_digits (2 ^ 8) (gather k fs) < (2 ^ 8) ^ length (gather k fs)" using le x(5) by (intro base_digits_less) auto
  then show "unat (x + drop_bit (8 * k) x) = base_digits (2 ^ 8) (gather k fs)" using sum len by (simp add: unat_word_ariths)
qed

lemma count_ones: "sum_list (map of_bool bs) = length (filter id bs)"
  by (induction bs) simp_all

lemma masks_digits:
  "unat sys_m0 = base_digits (2 ^ (2 * 1)) (replicate 32 (2 ^ 1 - 1))"
  "unat sys_m1 = base_digits (2 ^ (2 * 2)) (replicate 16 (2 ^ 2 - 1))"
  "unat sys_m2 = base_digits (2 ^ (2 * 4)) (replicate 8 (2 ^ 4 - 1))"
proof -
  have r: "replicate n a = map (\<lambda>_. a) [0..<n]" for n and a :: nat by (simp add: map_replicate_const)
  show "unat sys_m0 = base_digits (2 ^ (2 * 1)) (replicate 32 (2 ^ 1 - 1))"
    "unat sys_m1 = base_digits (2 ^ (2 * 2)) (replicate 16 (2 ^ 2 - 1))" "unat sys_m2 = base_digits (2 ^ (2 * 4)) (replicate 8 (2 ^ 4 - 1))"
    unfolding r by (simp_all add: sys_m0_def sys_m1_def sys_m2_def upt_conv_Cons)
qed

theorem OnesCount64_bits: "OnesCount64 x = length (filter id (wbits x))"
proof -
  define f0 :: "nat list" where "f0 = map of_bool (wbits x)"
  have l0: "length f0 = 2 * 32" "even (length f0)" by (simp_all add: f0_def)
  have b0: "\<forall>f \<in> set f0. f \<le> 1" by (auto simp: f0_def)
  have "unat x = horner_sum of_bool 2 (wbits x)"
  proof -
    have "map (bit x) [0..<64] = map (bit (unat x)) [0..<64]" by (simp add: bit_unsigned_iff)
    moreover have "unat x < 2 ^ 64" using unsigned_less [of x] by simp
    then have "take_bit 64 (unat x) = unat x" by (rule take_bit_nat_eq_self)
    moreover have "wbits x = map (bit x) [0..<64]" by (simp add: wbits_def)
    ultimately show ?thesis by (simp only: horner_sum_bit_eq_take_bit)
  qed
  then have x0: "unat x = base_digits (2 ^ 1) f0" by (simp add: f0_def base_digits_bits)
  define x1 where "x1 = (drop_bit 1 x AND sys_m0) + (x AND sys_m0)"
  note m0 = masks_digits(1)
  have x1: "unat x1 = base_digits (2 ^ 2) (pairs f0)"
  proof -
    have "unat x1 = base_digits (2 ^ (2 * 1)) (pairs f0)"
      unfolding x1_def by (rule pairs_step [OF x0 _ l0(1) _ _ m0]) (use b0 l0 in auto)
    then show ?thesis by (simp only: mult_1_right)
  qed
  note f1 = pairs_facts [OF l0(2)]
  have l1: "length (pairs f0) = 2 * 16" "even (length (pairs f0))" using f1(2) l0 by simp_all
  have b1: "\<forall>f \<in> set (pairs f0). f \<le> 2" using f1(3) [OF b0] by simp
  define x2 where "x2 = (drop_bit 2 x1 AND sys_m1) + (x1 AND sys_m1)"
  note m1 = masks_digits(2)
  have x2: "unat x2 = base_digits (2 ^ 4) (pairs (pairs f0))"
  proof -
    have e: "2 * 2 = (4 :: nat)" by simp
    have "unat x2 = base_digits (2 ^ (2 * 2)) (pairs (pairs f0))"
      unfolding x2_def by (rule pairs_step [OF x1 _ l1(1) _ _ m1]) (use b1 l1 in auto)
    then show ?thesis unfolding e .
  qed
  note f2 = pairs_facts [OF l1(2)]
  have l2: "length (pairs (pairs f0)) = 2 * 8" "even (length (pairs (pairs f0)))" using f2(2) l1 by simp_all
  have b2: "\<forall>f \<in> set (pairs (pairs f0)). f \<le> 4" using f2(3) [OF b1] by simp
  let ?f2 = "pairs (pairs f0)"
  define x3 where "x3 = (drop_bit 4 x2 + x2) AND sys_m2"
  note m2 = masks_digits(3)
  have ne: "?f2 \<noteq> []" using l2(1) by auto
  have lt2: "\<forall>f \<in> set ?f2. f < 2 ^ 4" using b2 by auto
  have n2: "length (neighbours ?f2) = 2 * 8" using l2 ne by (simp add: neighbours_def)
  have bn: "\<forall>f \<in> set (neighbours ?f2). f < 2 ^ 4"
  proof
    fix f assume "f \<in> set (neighbours ?f2)"
    then obtain i where i: "i < 16" "f = ?f2 ! i + (tl ?f2 @ [0]) ! i" using n2 l2 ne by (auto simp: in_set_conv_nth neighbours_def)
    have "?f2 ! j \<le> 4" if "j < 16" for j using b2 l2 that by auto
    moreover from this have "(tl ?f2 @ [0]) ! i \<le> 4" using i(1) l2 by (cases "i = 15") (simp_all add: nth_append nth_tl)
    ultimately show "f < 2 ^ 4" using i by fastforce
  qed
  have "unat (drop_bit 4 x2) + unat x2 = base_digits (2 ^ 4) (neighbours ?f2)"
    using base_digits_neighbours [OF ne lt2] x2 by (simp add: view_simps)
  moreover have "base_digits (2 ^ 4) (neighbours ?f2) < (2 ^ 4) ^ length (neighbours ?f2)" using bn by (rule base_digits_less)
  ultimately have "unat (drop_bit 4 x2 + x2) = base_digits (2 ^ 4) (neighbours ?f2)" using n2 by (simp add: unat_word_ariths)
  then have x3: "unat x3 = base_digits (2 ^ 8) (pairs ?f2)"
    using base_digits_evens [OF bn n2] evens_neighbours [OF l2(2)] m2 by (simp add: x3_def unsigned_and_eq)
  note f3 = pairs_facts [OF l2(2)]
  let ?f3 = "pairs ?f2"
  have l3: "length ?f3 = 8" using f3(2) l2 by simp
  have b3: "\<forall>f \<in> set ?f3. f \<le> 8" using f3(3) [OF b2] by simp
  let ?y = "x3 + drop_bit (8 * 1) x3" let ?z = "?y + drop_bit (8 * 2) ?y" let ?w = "?z + drop_bit (8 * 4) ?z"
  have g1: "unat ?y = base_digits (2 ^ 8) (gather 1 ?f3)" "length (gather 1 ?f3) = 8" "\<forall>f \<in> set (gather 1 ?f3). f \<le> 2 * 8"
    by (rule gather_step [OF x3 l3 b3]; simp)+
  have g2: "unat ?z = base_digits (2 ^ 8) (gather 2 (gather 1 ?f3))" "length (gather 2 (gather 1 ?f3)) = 8"
    "\<forall>f \<in> set (gather 2 (gather 1 ?f3)). f \<le> 2 * (2 * 8)"
    by (rule gather_step [OF g1]; simp)+
  have g3: "unat ?w = base_digits (2 ^ 8) (gather 4 (gather 2 (gather 1 ?f3)))" "length (gather 4 (gather 2 (gather 1 ?f3))) = 8"
    by (rule gather_step [OF g2]; simp)+
  obtain a b c d e f g h where fs: "?f3 = [a, b, c, d, e, f, g, h]"
    using l3 by (auto simp: eval_nat_numeral length_Suc_conv)
  have "hd (gather 4 (gather 2 (gather 1 ?f3))) = sum_list ?f3" by (simp add: gather_def fs eval_nat_numeral)
  also have "sum_list ?f3 = length (filter id (wbits x))" using f3(1) f2(1) f1(1) count_ones [of "wbits x"] by (simp add: f0_def)
  finally have hd: "hd (gather 4 (gather 2 (gather 1 ?f3))) = length (filter id (wbits x))" .
  let ?g = "gather 4 (gather 2 (gather 1 ?f3))"
  define N G where "N = unat ?w" and "G = ?g"
  have "(2 :: nat) ^ 8 = 256" by simp
  then have w: "N = base_digits 256 G" using g3(1) unfolding N_def G_def by (simp only:)
  have "G \<noteq> []" using g3(2) unfolding G_def by auto
  then have "base_digits 256 G = hd G + 256 * base_digits 256 (tl G)" by (metis base_digits.simps(2) list.collapse)
  moreover have "hd G = length (filter id (wbits x))" using hd unfolding G_def .
  moreover have "length (filter id (wbits x)) \<le> 64" using length_filter_le [of id "wbits x"] by simp
  moreover have "(s + 256 * t) mod 128 = s" if "s \<le> 64" for s t :: nat
    using mod_mult_self2 [of s 128 "2 * t"] that by simp
  moreover have "(2 :: nat) ^ 7 = 128" by simp
  ultimately have "N mod 2 ^ 7 = length (filter id (wbits x))" using w by (simp only:)
  moreover have "push_bit 7 1 - 1 = (mask 7 :: u64)" by (simp add: mask_eq_exp_minus_1)
  ultimately have "unat (?w AND (push_bit 7 1 - 1)) = length (filter id (wbits x))" by (simp only: unat_and_mask N_def)
  moreover have "OnesCount64 x = unat (?w AND (push_bit 7 1 - 1))"
    unfolding OnesCount64_def Let_def x3_def x2_def x1_def by simp
  ultimately show ?thesis by simp
qed

section \<open>Reversing the bytes\<close>

text \<open>Exchanging neighbouring groups of \<open>k\<close> bits.\<close>

definition swap_bit :: "nat \<Rightarrow> nat \<Rightarrow> nat" where
  "swap_bit k n = (if even (n div k) then n + k else n - k)"

lemma swap_step:
  fixes x c :: "'a::len word"
  assumes c: "\<And>j. j < LENGTH('a) \<Longrightarrow> bit c j \<longleftrightarrow> even (j div k)" and "0 < k" "n < LENGTH('a)"
  shows "bit ((drop_bit k x AND c) OR push_bit k (x AND c)) n \<longleftrightarrow> bit x (swap_bit k n)"
proof (cases "even (n div k)")
  case True
  have "\<not> bit c (n - k)" if "k \<le> n"
  proof -
    have "n div k = Suc ((n - k) div k)" using that assms(2) by (simp add: le_div_geq)
    then show ?thesis using True c [of "n - k"] assms(3) by auto
  qed
  then show ?thesis using True c [OF assms(3)] assms(3) by (auto simp: bit_simps swap_bit_def add.commute)
next
  case False
  then have kn: "k \<le> n" by (metis div_less even_zero not_less)
  have "n div k = Suc ((n - k) div k)" using kn assms(2) by (simp add: le_div_geq)
  then have "bit c (n - k)" using False c [of "n - k"] assms(3) by auto
  then show ?thesis using False kn c [OF assms(3)] assms(3) by (auto simp: bit_simps swap_bit_def)
qed

lemma swap_masks:
  "list_all (\<lambda>n. bit (0x00ff00ff00ff00ff :: u64) n = even (n div 8) \<and> bit (0x0000ffff0000ffff :: u64) n = even (n div 16)
      \<and> bit (0x00000000ffffffff :: u64) n = even (n div 32)) [0..<64]"
  "list_all (\<lambda>n. bit (0x00ff00ff :: u32) n = even (n div 8) \<and> bit (0x0000ffff :: u32) n = even (n div 16)) [0..<32]"
  by (simp_all add: upt_conv_Cons)

lemma swap_bits:
  "list_all (\<lambda>n. swap_bit 8 (swap_bit 16 (swap_bit 32 n)) = 8 * (7 - n div 8) + n mod 8 \<and> swap_bit 32 n < 64 \<and> swap_bit 16 (swap_bit 32 n) < 64) [0..<64]"
  "list_all (\<lambda>n. swap_bit 8 (swap_bit 16 n) = 8 * (3 - n div 8) + n mod 8 \<and> swap_bit 16 n < 32) [0..<32]"
  by (simp_all add: upt_conv_Cons swap_bit_def)

text \<open>Byte \<open>i\<close> of the result is byte \<open>7 - i\<close> of the argument.\<close>

lemma Bswap64_bits:
  assumes "n < 64"
  shows "bit (Bswap64 x) n \<longleftrightarrow> bit x (8 * (7 - n div 8) + n mod 8)"
proof -
  have c: "bit (0x00ff00ff00ff00ff :: u64) j = even (j div 8)" "bit (0x0000ffff0000ffff :: u64) j = even (j div 16)"
    "bit (0x00000000ffffffff :: u64) j = even (j div 32)" if "j < LENGTH(64)" for j
    using swap_masks(1) that by (simp_all add: list_all_iff)
  have n: "swap_bit 8 (swap_bit 16 (swap_bit 32 n)) = 8 * (7 - n div 8) + n mod 8" "swap_bit 32 n < LENGTH(64)"
    "swap_bit 16 (swap_bit 32 n) < LENGTH(64)" "n < LENGTH(64)"
    using swap_bits(1) assms by (simp_all add: list_all_iff)
  show ?thesis
    unfolding Bswap64_def Let_def
    by (simp only: swap_step [OF c(3)] swap_step [OF c(2)] swap_step [OF c(1)] n)
qed

lemma Bswap32_bits:
  assumes "n < 32"
  shows "bit (Bswap32 x) n \<longleftrightarrow> bit x (8 * (3 - n div 8) + n mod 8)"
proof -
  have c: "bit (0x00ff00ff :: u32) j = even (j div 8)" "bit (0x0000ffff :: u32) j = even (j div 16)" if "j < LENGTH(32)" for j
    using swap_masks(2) that by (simp_all add: list_all_iff)
  have n: "swap_bit 8 (swap_bit 16 n) = 8 * (3 - n div 8) + n mod 8" "swap_bit 16 n < LENGTH(32)" "n < LENGTH(32)"
    using swap_bits(2) assms by (simp_all add: list_all_iff)
  show ?thesis
    unfolding Bswap32_def Let_def by (simp only: swap_step [OF c(2)] swap_step [OF c(1)] n)
qed

lemma Bswap64_twice: "Bswap64 (Bswap64 x) = x"
proof (rule bit_word_eqI)
  fix n assume "n < LENGTH(64)"
  then have n: "n < 64" "n div 8 \<le> 7" by auto
  let ?m = "8 * (7 - n div 8) + n mod 8"
  have m: "?m < 64" "?m div 8 = 7 - n div 8" "?m mod 8 = n mod 8" using n(2) by auto
  have "8 * (7 - (7 - n div 8)) + n mod 8 = n" using n(2) by simp
  then show "bit (Bswap64 (Bswap64 x)) n = bit x n"
    using Bswap64_bits [OF n(1), of "Bswap64 x"] Bswap64_bits [OF m(1), of x] unfolding m(2,3) by simp
qed

end
