(* ===== verification/PallocBits.thy ===== *)
theory PallocBits
  imports SysBits
begin

text \<open>
  The bitmaps of the page allocator (\<open>runtime/mpallocbits.go\<close>), the summaries of the radix tree above them
  (\<open>runtime/mpagealloc.go\<close>) and allocation from the cache of pages of a processor (\<open>runtime/mpagecache.go\<close>).  A \<open>uint\<close> is a number; the one difference that may wrap is taken modulo
  \<open>2 ^ 64\<close>.
\<close>

section \<open>Bitmaps\<close>

definition logPallocChunkPages :: nat where "logPallocChunkPages = 9"
definition pallocChunkPages :: nat where "pallocChunkPages = 2 ^ logPallocChunkPages"

text \<open>An array of \<open>pallocChunkPages / 64\<close> words.\<close>

type_synonym pageBits = "u64 list"

definition pb_get :: "pageBits \<Rightarrow> nat \<Rightarrow> nat go" where
  "pb_get b i = go_bind (go_nth b (i div 64)) (\<lambda>x. Inr (unat (drop_bit (i mod 64) x AND 1)))"

definition pb_block64 :: "pageBits \<Rightarrow> nat \<Rightarrow> u64 go" where
  "pb_block64 b i = go_nth b (i div 64)"

text \<open>\<open>b[k] |= m\<close> and \<open>b[k] &^= m\<close>.\<close>

definition pb_or :: "pageBits \<Rightarrow> nat \<Rightarrow> u64 \<Rightarrow> pageBits go" where
  "pb_or b k m = go_bind (go_nth b k) (\<lambda>x. go_set b k (x OR m))"

definition pb_andnot :: "pageBits \<Rightarrow> nat \<Rightarrow> u64 \<Rightarrow> pageBits go" where
  "pb_andnot b k m = go_bind (go_nth b k) (\<lambda>x. go_set b k (x AND NOT m))"

definition pb_set :: "pageBits \<Rightarrow> nat \<Rightarrow> pageBits go" where
  "pb_set b i = pb_or b (i div 64) (push_bit (i mod 64) 1)"

definition pb_clear :: "pageBits \<Rightarrow> nat \<Rightarrow> pageBits go" where
  "pb_clear b i = pb_andnot b (i div 64) (push_bit (i mod 64) 1)"

text \<open>\<open>for k := k; k < m; k++ { b[k] = v }\<close>\<close>

function pb_fill :: "u64 \<Rightarrow> nat \<Rightarrow> nat \<Rightarrow> pageBits \<Rightarrow> pageBits go" where
  "pb_fill v k m b = (if k < m then go_bind (go_set b k v) (\<lambda>b. pb_fill v (k + 1) m b) else Inr b)"
  by pat_completeness auto
termination by (relation "measure (\<lambda>(v, k, m, b). m - k)") auto

declare pb_fill.simps [simp del]

text \<open>\<open>i + n - 1\<close> of type \<open>uint\<close>.\<close>

definition last_bit :: "nat \<Rightarrow> nat \<Rightarrow> nat" where
  "last_bit i n = (i + n + (2 ^ 64 - 1)) mod 2 ^ 64"

definition pb_setRange :: "pageBits \<Rightarrow> nat \<Rightarrow> nat \<Rightarrow> pageBits go" where
  "pb_setRange b i n =
     go_bind (go_nth b (i div 64)) (\<lambda>_.
       if n = 1 then pb_set b i
       else let j = last_bit i n in
         if i div 64 = j div 64 then pb_or b (i div 64) (push_bit (i mod 64) (push_bit n 1 - 1))
         else
           go_bind (go_nth b (j div 64)) (\<lambda>_.
           go_bind (pb_or b (i div 64) (push_bit (i mod 64) (NOT 0))) (\<lambda>b.
           go_bind (pb_fill (NOT 0) (i div 64 + 1) (j div 64) b) (\<lambda>b.
             pb_or b (j div 64) (push_bit (j mod 64 + 1) 1 - 1)))))"

definition pb_setAll :: "pageBits \<Rightarrow> pageBits" where
  "pb_setAll b = map (\<lambda>_. NOT 0) b"

definition pb_clearRange :: "pageBits \<Rightarrow> nat \<Rightarrow> nat \<Rightarrow> pageBits go" where
  "pb_clearRange b i n =
     go_bind (go_nth b (i div 64)) (\<lambda>_.
       if n = 1 then pb_clear b i
       else let j = last_bit i n in
         if i div 64 = j div 64 then pb_andnot b (i div 64) (push_bit (i mod 64) (push_bit n 1 - 1))
         else
           go_bind (go_nth b (j div 64)) (\<lambda>_.
           go_bind (pb_andnot b (i div 64) (push_bit (i mod 64) (NOT 0))) (\<lambda>b.
           go_bind (pb_fill 0 (i div 64 + 1) (j div 64) b) (\<lambda>b.
             pb_andnot b (j div 64) (push_bit (j mod 64 + 1) 1 - 1)))))"

definition pb_clearAll :: "pageBits \<Rightarrow> pageBits" where
  "pb_clearAll b = map (\<lambda>_. 0) b"

function pb_count :: "pageBits \<Rightarrow> nat \<Rightarrow> nat \<Rightarrow> nat \<Rightarrow> nat go" where
  "pb_count b k m s = (if k < m then go_bind (go_nth b k) (\<lambda>x. pb_count b (k + 1) m (s + OnesCount64 x)) else Inr s)"
  by pat_completeness auto
termination by (relation "measure (\<lambda>(b, k, m, s). m - k)") auto

declare pb_count.simps [simp del]

definition pb_popcntRange :: "pageBits \<Rightarrow> nat \<Rightarrow> nat \<Rightarrow> nat go" where
  "pb_popcntRange b i n =
     (if n = 1 then go_bind (go_nth b (i div 64)) (\<lambda>x. Inr (unat (drop_bit (i mod 64) x AND 1)))
      else
        go_bind (go_nth b (i div 64)) (\<lambda>x.
          let j = last_bit i n in
          if i div 64 = j div 64 then Inr (OnesCount64 (drop_bit (i mod 64) x AND (push_bit n 1 - 1)))
          else
            go_bind (go_nth b (j div 64)) (\<lambda>y.
              let s = OnesCount64 (drop_bit (i mod 64) x) in
              go_bind (pb_count b (i div 64 + 1) (j div 64) s) (\<lambda>s.
                Inr (s + OnesCount64 (y AND (push_bit (j mod 64 + 1) 1 - 1)))))))"

section \<open>Summaries\<close>

definition consec8tab :: "nat list" where
  "consec8tab = [
    8, 7, 6, 6, 5, 5, 5, 5, 4, 4, 4, 4, 4, 4, 4, 4, 4, 3, 3, 3, 3, 3, 3, 3, 3, 3, 3, 3, 3, 3, 3, 3,
    5, 4, 3, 3, 2, 2, 2, 2, 3, 2, 2, 2, 2, 2, 2, 2, 4, 3, 2, 2, 2, 2, 2, 2, 3, 2, 2, 2, 2, 2, 2, 2,
    6, 5, 4, 4, 3, 3, 3, 3, 3, 2, 2, 2, 2, 2, 2, 2, 4, 3, 2, 2, 2, 1, 1, 1, 3, 2, 1, 1, 2, 1, 1, 1,
    5, 4, 3, 3, 2, 2, 2, 2, 3, 2, 1, 1, 2, 1, 1, 1, 4, 3, 2, 2, 2, 1, 1, 1, 3, 2, 1, 1, 2, 1, 1, 1,
    7, 6, 5, 5, 4, 4, 4, 4, 3, 3, 3, 3, 3, 3, 3, 3, 4, 3, 2, 2, 2, 2, 2, 2, 3, 2, 2, 2, 2, 2, 2, 2,
    5, 4, 3, 3, 2, 2, 2, 2, 3, 2, 1, 1, 2, 1, 1, 1, 4, 3, 2, 2, 2, 1, 1, 1, 3, 2, 1, 1, 2, 1, 1, 1,
    6, 5, 4, 4, 3, 3, 3, 3, 3, 2, 2, 2, 2, 2, 2, 2, 4, 3, 2, 2, 2, 1, 1, 1, 3, 2, 1, 1, 2, 1, 1, 1,
    5, 4, 3, 3, 2, 2, 2, 2, 3, 2, 1, 1, 2, 1, 1, 1, 4, 3, 2, 2, 2, 1, 1, 1, 3, 2, 1, 1, 2, 1, 1, 0]"

text \<open>Three numbers in one word; \<open>sl\<close> is the number of levels of the radix tree, which depends on the architecture.\<close>

type_synonym pallocSum = u64

definition logMaxPackedValue :: "nat \<Rightarrow> nat" where
  "logMaxPackedValue sl = logPallocChunkPages + (sl - 1) * 3"

definition packPallocSum :: "nat \<Rightarrow> nat \<Rightarrow> nat \<Rightarrow> nat \<Rightarrow> pallocSum" where
  "packPallocSum sl start max' end' =
     (let l = logMaxPackedValue sl; mask' = push_bit l 1 - 1 in
      if max' = 2 ^ l then push_bit 63 1
      else (of_nat start AND mask') OR push_bit l (of_nat max' AND mask') OR push_bit (2 * l) (of_nat end' AND mask'))"

definition sum_start :: "nat \<Rightarrow> pallocSum \<Rightarrow> nat" where
  "sum_start sl p =
     (let l = logMaxPackedValue sl in
      if p AND push_bit 63 1 \<noteq> 0 then 2 ^ l else unat (p AND (push_bit l 1 - 1)))"

definition sum_max :: "nat \<Rightarrow> pallocSum \<Rightarrow> nat" where
  "sum_max sl p =
     (let l = logMaxPackedValue sl in
      if p AND push_bit 63 1 \<noteq> 0 then 2 ^ l else unat (drop_bit l p AND (push_bit l 1 - 1)))"

definition sum_end :: "nat \<Rightarrow> pallocSum \<Rightarrow> nat" where
  "sum_end sl p =
     (let l = logMaxPackedValue sl in
      if p AND push_bit 63 1 \<noteq> 0 then 2 ^ l else unat (drop_bit (2 * l) p AND (push_bit l 1 - 1)))"

definition sum_unpack :: "nat \<Rightarrow> pallocSum \<Rightarrow> nat \<times> nat \<times> nat" where
  "sum_unpack sl p =
     (let l = logMaxPackedValue sl in
      if p AND push_bit 63 1 \<noteq> 0 then (2 ^ l, 2 ^ l, 2 ^ l)
      else (unat (p AND (push_bit l 1 - 1)), unat (drop_bit l p AND (push_bit l 1 - 1)),
        unat (drop_bit (2 * l) p AND (push_bit l 1 - 1))))"

text \<open>One turn of the inner loop of \<open>summarize\<close>, for the byte of \<open>a\<close> at \<open>j\<close>.\<close>

definition sum_byte :: "nat \<Rightarrow> u64 \<Rightarrow> nat \<Rightarrow> nat \<times> nat \<times> nat \<Rightarrow> nat \<times> nat \<times> nat" where
  "sum_byte i a j = (\<lambda>(start, max', end').
     let k = (ucast (drop_bit j a) :: byte);
         si = TrailingZeros8 k;
         start = (if start = i * 64 + j then start + si else start);
         max' = (if end' + si > max' then end' + si else max');
         mi = consec8tab ! unat k;
         max' = (if mi > max' then mi else max');
         end' = (if k = 0 then end' + 8 else LeadingZeros8 k) in
     (start, max', end'))"

definition summarize :: "nat \<Rightarrow> pageBits \<Rightarrow> pallocSum" where
  "summarize sl b =
     (case foldl (\<lambda>s i. foldl (\<lambda>s j. sum_byte i (b ! i) j s) s [0, 8, 16, 24, 32, 40, 48, 56]) (0, 0, 0) [0..<length b] of
        (start, max', end') \<Rightarrow> packPallocSum sl start max' end')"

text \<open>One turn of the loop of \<open>mergeSummaries\<close>.\<close>

definition merge_step :: "nat \<Rightarrow> pallocSum list \<Rightarrow> nat \<Rightarrow> nat \<times> nat \<times> nat \<Rightarrow> nat \<Rightarrow> nat \<times> nat \<times> nat" where
  "merge_step sl sums logMaxPagesPerSum = (\<lambda>(start, max', end') i.
     case sum_unpack sl (sums ! i) of (si, mi, ei) \<Rightarrow>
       let start = (if start = push_bit logMaxPagesPerSum i then start + si else start);
           max' = (if end' + si > max' then end' + si else max');
           max' = (if mi > max' then mi else max');
           end' = (if ei = push_bit logMaxPagesPerSum 1 then end' + push_bit logMaxPagesPerSum 1 else ei) in
       (start, max', end'))"

definition mergeSummaries :: "nat \<Rightarrow> pallocSum list \<Rightarrow> nat \<Rightarrow> pallocSum go" where
  "mergeSummaries sl sums logMaxPagesPerSum =
     go_bind (go_nth sums 0) (\<lambda>p.
       case foldl (merge_step sl sums logMaxPagesPerSum) (sum_unpack sl p) [1..<length sums] of
         (start, max', end') \<Rightarrow> Inr (packPallocSum sl start max' end'))"

section \<open>Searching\<close>

text \<open>\<open>^uint(0)\<close>\<close>

definition noPage :: nat where "noPage = 2 ^ 64 - 1"

function find1_loop :: "pageBits \<Rightarrow> nat \<Rightarrow> nat" where
  "find1_loop b i =
     (if i < length b then
        let x = b ! i in
        if x = NOT 0 then find1_loop b (i + 1) else i * 64 + TrailingZeros64 (NOT x)
      else noPage)"
  by pat_completeness auto
termination by (relation "measure (\<lambda>(b, i). length b - i)") auto

declare find1_loop.simps [simp del]

definition find1 :: "pageBits \<Rightarrow> nat \<Rightarrow> nat" where
  "find1 b searchIdx = find1_loop b (searchIdx div 64)"

text \<open>The loop of \<open>findBitRange64\<close>: \<open>cont\<close> is the number of ones from \<open>i\<close> on.\<close>

partial_function (option) bitrange_loop :: "u64 \<Rightarrow> nat \<Rightarrow> nat \<Rightarrow> nat \<Rightarrow> nat option" where
  "bitrange_loop c n i cont =
     (if cont < n \<and> i < 64 then
        (let i = i + cont;
             i = i + TrailingZeros64 (drop_bit i c);
             cont = TrailingZeros64 (NOT (drop_bit i c)) in
         bitrange_loop c n i cont)
      else Some i)"

definition findBitRange64 :: "u64 \<Rightarrow> nat \<Rightarrow> nat option" where
  "findBitRange64 c n = bitrange_loop c n 0 (TrailingZeros64 (NOT c))"

partial_function (option) findSmallN_loop :: "pageBits \<Rightarrow> nat \<Rightarrow> nat \<Rightarrow> nat \<Rightarrow> nat \<Rightarrow> (nat \<times> nat) option" where
  "findSmallN_loop b npages i end' newSearchIdx =
     (if i < length b then
        (let bi = b ! i in
         if bi = NOT 0 then findSmallN_loop b npages (i + 1) 0 newSearchIdx
         else
           (let start = TrailingZeros64 bi;
                newSearchIdx = (if newSearchIdx = noPage then i * 64 + TrailingZeros64 (NOT bi) else newSearchIdx) in
            if end' + start \<ge> npages then Some (i * 64 - end', newSearchIdx)
            else Option.bind (findBitRange64 (NOT bi) npages) (\<lambda>j.
              if j < 64 then Some (i * 64 + j, newSearchIdx)
              else findSmallN_loop b npages (i + 1) (LeadingZeros64 bi) newSearchIdx)))
      else Some (noPage, newSearchIdx))"

definition findSmallN :: "pageBits \<Rightarrow> nat \<Rightarrow> nat \<Rightarrow> (nat \<times> nat) option" where
  "findSmallN b npages searchIdx = findSmallN_loop b npages (searchIdx div 64) 0 noPage"

function findLargeN_loop :: "pageBits \<Rightarrow> nat \<Rightarrow> nat \<Rightarrow> nat \<Rightarrow> nat \<Rightarrow> nat \<Rightarrow> nat \<times> nat" where
  "findLargeN_loop b npages i start size' newSearchIdx =
     (if i < length b then
        let x = b ! i in
        if x = NOT 0 then findLargeN_loop b npages (i + 1) start 0 newSearchIdx
        else
          let newSearchIdx = (if newSearchIdx = noPage then i * 64 + TrailingZeros64 (NOT x) else newSearchIdx) in
          if size' = 0 then
            let size' = LeadingZeros64 x in
            findLargeN_loop b npages (i + 1) (i * 64 + 64 - size') size' newSearchIdx
          else
            let s = TrailingZeros64 x in
            if s + size' \<ge> npages then (start, newSearchIdx)
            else if s < 64 then
              let size' = LeadingZeros64 x in
              findLargeN_loop b npages (i + 1) (i * 64 + 64 - size') size' newSearchIdx
            else findLargeN_loop b npages (i + 1) start (size' + 64) newSearchIdx
      else if size' < npages then (noPage, newSearchIdx)
      else (start, newSearchIdx))"
  by pat_completeness auto
termination by (relation "measure (\<lambda>(b, npages, i, start, size', newSearchIdx). length b - i)") auto

declare findLargeN_loop.simps [simp del]

definition findLargeN :: "pageBits \<Rightarrow> nat \<Rightarrow> nat \<Rightarrow> nat \<times> nat" where
  "findLargeN b npages searchIdx = findLargeN_loop b npages (searchIdx div 64) noPage 0 noPage"

definition palloc_find :: "pageBits \<Rightarrow> nat \<Rightarrow> nat \<Rightarrow> (nat \<times> nat) option" where
  "palloc_find b npages searchIdx =
     (if npages = 1 then let addr = find1 b searchIdx in Some (addr, addr)
      else if npages \<le> 64 then findSmallN b npages searchIdx
      else Some (findLargeN b npages searchIdx))"

section \<open>Allocating and freeing\<close>

definition palloc_allocRange :: "pageBits \<Rightarrow> nat \<Rightarrow> nat \<Rightarrow> pageBits go" where
  "palloc_allocRange b i n = pb_setRange b i n"

definition palloc_allocAll :: "pageBits \<Rightarrow> pageBits" where "palloc_allocAll b = pb_setAll b"
definition palloc_free1 :: "pageBits \<Rightarrow> nat \<Rightarrow> pageBits go" where "palloc_free1 b i = pb_clear b i"

definition palloc_free :: "pageBits \<Rightarrow> nat \<Rightarrow> nat \<Rightarrow> pageBits go" where
  "palloc_free b i n = pb_clearRange b i n"

definition palloc_freeAll :: "pageBits \<Rightarrow> pageBits" where "palloc_freeAll b = pb_clearAll b"
definition palloc_pages64 :: "pageBits \<Rightarrow> nat \<Rightarrow> u64 go" where "palloc_pages64 b i = pb_block64 b i"

record pallocData =
  pd_bits :: pageBits
  pd_scavenged :: pageBits

definition pd_allocRange :: "pallocData \<Rightarrow> nat \<Rightarrow> nat \<Rightarrow> pallocData go" where
  "pd_allocRange m i n =
     go_bind (palloc_allocRange (pd_bits m) i n) (\<lambda>b.
     go_bind (pb_clearRange (pd_scavenged m) i n) (\<lambda>s.
       Inr \<lparr>pd_bits = b, pd_scavenged = s\<rparr>))"

definition pd_allocAll :: "pallocData \<Rightarrow> pallocData" where
  "pd_allocAll m = \<lparr>pd_bits = palloc_allocAll (pd_bits m), pd_scavenged = pb_clearAll (pd_scavenged m)\<rparr>"

text \<open>The cache of free pages of a processor; addresses and sizes are words.\<close>

definition pageSize :: u64 where "pageSize = 8192"

record pageCache =
  pc_base :: u64
  pc_cache :: u64
  pc_scav :: u64

definition pc_empty :: "pageCache \<Rightarrow> bool" where "pc_empty c \<longleftrightarrow> pc_cache c = 0"

definition pc_allocN :: "pageCache \<Rightarrow> nat \<Rightarrow> (pageCache \<times> u64 \<times> u64) option" where
  "pc_allocN c npages =
     Option.bind (findBitRange64 (pc_cache c) npages) (\<lambda>i.
       if i \<ge> 64 then Some (c, 0, 0)
       else
         let mask' = push_bit i (push_bit npages 1 - 1);
             scav = OnesCount64 (pc_scav c AND mask') in
         Some (c\<lparr>pc_cache := pc_cache c AND NOT mask', pc_scav := pc_scav c AND NOT mask'\<rparr>,
           pc_base c + of_nat i * pageSize, of_nat scav * pageSize))"

definition pc_alloc :: "pageCache \<Rightarrow> nat \<Rightarrow> (pageCache \<times> u64 \<times> u64) option" where
  "pc_alloc c npages =
     (if pc_cache c = 0 then Some (c, 0, 0)
      else if npages = 1 then
        let i = TrailingZeros64 (pc_cache c);
            scav = drop_bit i (pc_scav c) AND 1 in
        Some (c\<lparr>pc_cache := pc_cache c AND NOT (push_bit i 1), pc_scav := pc_scav c AND NOT (push_bit i 1)\<rparr>,
          pc_base c + of_nat i * pageSize, scav * pageSize)
      else pc_allocN c npages)"

end
