(* ===== verification/PallocLaws.thy ===== *)
theory PallocLaws
  imports PallocBits
begin

text \<open>
  The bitmaps of the page allocator as lists of bits: what the range operations change, what a summary says,
  and that the searches find the first run of free pages.
\<close>

section \<open>Runs of free pages\<close>

definition run_free :: "bool list \<Rightarrow> nat \<Rightarrow> nat \<Rightarrow> bool" where
  "run_free bs i n \<longleftrightarrow> i + n \<le> length bs \<and> (\<forall>k<n. \<not> bs ! (i + k))"

definition first_run :: "bool list \<Rightarrow> nat \<Rightarrow> nat \<Rightarrow> bool" where
  "first_run bs n i \<longleftrightarrow> run_free bs i n \<and> (\<forall>j<i. \<not> run_free bs j n)"

lemma zlead_append: "zlead (xs @ ys) = (if zlead xs = length xs then length xs + zlead ys else zlead xs)"
  by (induction xs) (auto simp: zlead_def)

lemma zlead_Nil [simp]: "zlead [] = 0"
  by (simp add: zlead_def)

lemma zlead_Cons: "zlead (x # xs) = (if x then 0 else Suc (zlead xs))"
  by (simp add: zlead_def)

lemma zlead_full: "zlead xs = length xs \<longleftrightarrow> (\<forall>x \<in> set xs. \<not> x)"
proof (induction xs)
  case (Cons x xs)
  then show ?case by (cases x) (simp_all add: zlead_Cons)
qed simp

lemma zlead_rev_full: "zlead (rev xs) = length xs \<longleftrightarrow> zlead xs = length xs"
  using zlead_full [of xs] zlead_full [of "rev xs"] by simp

lemma ztrail_append: "ztrail (xs @ ys) = (if zlead ys = length ys then length ys + ztrail xs else ztrail ys)"
  unfolding ztrail_def by (simp add: zlead_append zlead_rev_full)

lemma ztrail_Cons: "ztrail (x # xs) = (if zlead xs = length xs then (if x then length xs else Suc (length xs)) else ztrail xs)"
  using ztrail_append [of "[x]" xs] by (simp add: ztrail_def zlead_Cons)

lemma ztrail_le: "ztrail bs \<le> length bs"
  unfolding ztrail_def using zlead_le [of "rev bs"] by simp

lemma zmax_ge: "zlead bs \<le> zmax bs"
  by (cases bs) (simp_all add: zlead_def)

lemma zmax_append: "zmax (xs @ ys) = max (max (zmax xs) (zmax ys)) (ztrail xs + zlead ys)"
proof (induction xs)
  case Nil
  then show ?case using zmax_ge [of ys] by (simp add: ztrail_def zlead_def)
next
  case (Cons x xs)
  have "zlead xs \<le> length xs" by (rule zlead_le)
  moreover have "ztrail xs = length xs" if "zlead xs = length xs"
    using that by (simp add: ztrail_def zlead_rev_full)
  ultimately show ?case using Cons zmax_ge [of xs] by (auto simp: zlead_append zlead_Cons ztrail_Cons)
qed

lemma ztrail_zmax: "ztrail bs \<le> zmax bs"
  using zmax_append [of bs "[]"] by simp

lemma zmax_le: "zmax bs \<le> length bs"
proof (induction bs)
  case (Cons b bs)
  then show ?case using zlead_le [of "b # bs"] by simp
qed simp

lemma run_zlead: "run_free bs 0 n \<longleftrightarrow> n \<le> zlead bs"
proof
  assume r: "run_free bs 0 n"
  show "n \<le> zlead bs"
  proof (rule ccontr)
    assume "\<not> n \<le> zlead bs"
    then have "zlead bs < n" "zlead bs < length bs" using r by (auto simp: run_free_def)
    then show False using zlead_one [of bs] r by (auto simp: run_free_def)
  qed
next
  assume "n \<le> zlead bs"
  then show "run_free bs 0 n" using zlead_zero [of _ bs] zlead_le [of bs] by (auto simp: run_free_def)
qed

lemma run_drop: "i \<le> length bs \<Longrightarrow> run_free bs i n \<longleftrightarrow> n \<le> zlead (drop i bs)"
  unfolding run_zlead [symmetric] by (auto simp: run_free_def)

lemma zmax_run: "n \<le> zmax bs \<longleftrightarrow> (\<exists>i \<le> length bs. run_free bs i n)"
proof (induction bs)
  case Nil
  then show ?case by (auto simp: run_free_def)
next
  case (Cons b bs)
  have "(\<exists>i \<le> length (b # bs). run_free (b # bs) i n) \<longleftrightarrow> n \<le> zlead (b # bs) \<or> (\<exists>i \<le> length bs. n \<le> zlead (drop i bs))"
  proof -
    have "(\<exists>i \<le> length (b # bs). run_free (b # bs) i n) \<longleftrightarrow> (\<exists>i \<le> length (b # bs). n \<le> zlead (drop i (b # bs)))"
      using run_drop by blast
    also have "\<dots> \<longleftrightarrow> n \<le> zlead (b # bs) \<or> (\<exists>i \<le> length bs. n \<le> zlead (drop i bs))"
      by (metis Suc_le_mono drop0 drop_Suc_Cons le0 length_Cons not0_implies_Suc)
    finally show ?thesis .
  qed
  also have "(\<exists>i \<le> length bs. n \<le> zlead (drop i bs)) \<longleftrightarrow> n \<le> zmax bs" using Cons run_drop by blast
  finally show ?case by auto
qed

lemma no_run: "zmax bs < n \<Longrightarrow> \<not> run_free bs i n"
  using zmax_run [of n bs] by (auto simp: run_free_def not_le [symmetric])

text \<open>A run across the boundary of two parts of a bitmap.\<close>

lemma run_append:
  assumes "zmax P < n" "run_free (P @ Q) i n" "i < length P"
  shows "length P - ztrail P \<le> i" "n \<le> ztrail P + zlead Q"
proof -
  have r: "n \<le> zlead (drop i P @ Q)" using run_drop [of i "P @ Q" n] assms(2,3) by simp
  have "zlead (drop i P) < n" using no_run [OF assms(1), of i] run_drop [of i P n] assms(3) by simp
  then have full: "zlead (drop i P) = length (drop i P)" using r by (auto simp: zlead_append split: if_splits)
  have "ztrail P = ztrail (take i P @ drop i P)" by simp
  also have "\<dots> = length (drop i P) + ztrail (take i P)" using full by (subst ztrail_append) simp
  finally have "length P - i \<le> ztrail P" by simp
  then show "length P - ztrail P \<le> i" using assms(3) by linarith
  have "n \<le> length (drop i P) + zlead Q" using r full by (simp add: zlead_append)
  then show "n \<le> ztrail P + zlead Q" using \<open>length P - i \<le> ztrail P\<close> by simp
qed

lemma first_run_across:
  assumes "zmax P < n" "n \<le> ztrail P + zlead Q"
  shows "first_run (P @ Q) n (length P - ztrail P)"
proof -
  let ?i = "length P - ztrail P"
  have i: "?i \<le> length P" by simp
  have "zlead (drop ?i P) = length (drop ?i P)"
  proof -
    have "\<not> rev P ! j" if "j < ztrail P" for j using zlead_zero [of j "rev P"] that by (simp add: ztrail_def)
    then have "\<forall>x \<in> set (take (ztrail P) (rev P)). \<not> x" using ztrail_le [of P] by (auto simp: in_set_conv_nth)
    then show ?thesis unfolding zlead_full by (simp add: take_rev)
  qed
  then have "zlead (drop ?i (P @ Q)) = ztrail P + zlead Q" using ztrail_le [of P] by (simp add: zlead_append)
  then have "run_free (P @ Q) ?i n" using assms(2) run_drop [of ?i "P @ Q" n] by simp
  moreover have "\<not> run_free (P @ Q) j n" if j: "j < ?i" for j
  proof
    assume r: "run_free (P @ Q) j n"
    have "j < length P" using j by simp
    from run_append(1) [OF assms(1) r this] j show False by simp
  qed
  ultimately show ?thesis by (simp add: first_run_def)
qed

lemma first_run_within:
  assumes "zmax P < n" "ztrail P + zlead (W @ R) < n" "first_run W n j"
  shows "first_run (P @ W @ R) n (length P + j)"
proof -
  have "run_free (P @ W @ R) (length P + j) n"
    using assms(3) by (auto simp: first_run_def run_free_def nth_append add.assoc)
  moreover have "\<not> run_free (P @ W @ R) i n" if i: "i < length P + j" for i
  proof
    assume r: "run_free (P @ W @ R) i n"
    show False
    proof (cases "i < length P")
      case True
      then show False using run_append(2) [OF assms(1) r] assms(2) by simp
    next
      case False
      then obtain t where t: "i = length P + t" "t < j" using i by (metis add_diff_inverse_nat add_less_cancel_left)
      have "j + n \<le> length W" using assms(3) by (simp add: first_run_def run_free_def)
      then have "run_free W t n" using r t by (auto simp: run_free_def nth_append add.assoc)
      then show False using assms(3) t(2) by (simp add: first_run_def)
    qed
  qed
  ultimately show ?thesis by (simp add: first_run_def)
qed

end
