(* ===== verification/PallocRange.thy ===== *)
theory PallocRange
  imports PallocBits
begin

text \<open>
  The bitmaps of the page allocator as lists of bits: what setting, clearing and counting a range means.
  Setting and clearing are one operation, with the value to store as a parameter.
\<close>

definition pbits :: "pageBits \<Rightarrow> bool list" where "pbits b = concat (map wbits b)"

definition pbit :: "pageBits \<Rightarrow> nat \<Rightarrow> bool" where "pbit b k = bit (b ! (k div 64)) (k mod 64)"

lemma pbits_simps [simp]: "pbits [] = []" "pbits (x # b) = wbits x @ pbits b" "pbits (a @ b) = pbits a @ pbits b"
  by (simp_all add: pbits_def)

lemma length_pbits [simp]: "length (pbits b) = 64 * length b"
  by (induction b) simp_all

lemma nth_pbits: "k < 64 * length b \<Longrightarrow> pbits b ! k = pbit b k"
proof (induction b arbitrary: k)
  case (Cons x b)
  show ?case
  proof (cases "k < 64")
    case True
    then show ?thesis by (simp add: nth_append pbit_def)
  next
    case False
    then obtain m where k: "k = 64 + m" by (metis le_iff_add not_less)
    then have "m < 64 * length b" using Cons.prems by simp
    moreover have "(64 + m) div 64 = Suc (m div 64)" by simp
    ultimately show ?thesis using Cons.IH [of m] unfolding k by (simp add: nth_append pbit_def)
  qed
qed simp

lemma pbits_eqI: "length a = length b \<Longrightarrow> (\<And>k. k < 64 * length b \<Longrightarrow> pbit a k = pbit b k) \<Longrightarrow> pbits a = pbits b"
  by (rule nth_equalityI) (simp_all add: nth_pbits)

section \<open>Storing a range\<close>

definition pb_put :: "bool \<Rightarrow> pageBits \<Rightarrow> nat \<Rightarrow> u64 \<Rightarrow> pageBits go" where
  "pb_put v b k m = (if v then pb_or b k m else pb_andnot b k m)"

definition pb_put1 :: "bool \<Rightarrow> pageBits \<Rightarrow> nat \<Rightarrow> u64 \<Rightarrow> pageBits" where
  "pb_put1 v b k m = b[k := (if v then b ! k OR m else b ! k AND NOT m)]"

definition pb_putRange :: "bool \<Rightarrow> pageBits \<Rightarrow> nat \<Rightarrow> nat \<Rightarrow> pageBits go" where
  "pb_putRange v b i n =
     go_bind (go_nth b (i div 64)) (\<lambda>_.
       if n = 1 then pb_put v b (i div 64) (push_bit (i mod 64) 1)
       else let j = last_bit i n in
         if i div 64 = j div 64 then pb_put v b (i div 64) (push_bit (i mod 64) (push_bit n 1 - 1))
         else
           go_bind (go_nth b (j div 64)) (\<lambda>_.
           go_bind (pb_put v b (i div 64) (push_bit (i mod 64) (NOT 0))) (\<lambda>b.
           go_bind (pb_fill (if v then NOT 0 else 0) (i div 64 + 1) (j div 64) b) (\<lambda>b.
             pb_put v b (j div 64) (push_bit (j mod 64 + 1) 1 - 1)))))"

lemma pb_put_eqs [simp]: "pb_put True = pb_or" "pb_put False = pb_andnot"
  by (simp_all add: pb_put_def fun_eq_iff)

lemma setRange_put: "pb_setRange b i n = pb_putRange True b i n"
  unfolding pb_setRange_def pb_putRange_def pb_set_def pb_put_eqs if_True ..

lemma clearRange_put: "pb_clearRange b i n = pb_putRange False b i n"
  unfolding pb_clearRange_def pb_putRange_def pb_clear_def pb_put_eqs if_False ..

lemma pb_put_ok: "k < length b \<Longrightarrow> pb_put v b k m = Inr (pb_put1 v b k m)"
  by (simp add: pb_put_def pb_put1_def pb_or_def pb_andnot_def)

lemma length_put1 [simp]: "length (pb_put1 v b k m) = length b"
  by (simp add: pb_put1_def)

lemma pbit_put1:
  "q < length b \<Longrightarrow> pbit (pb_put1 v b q m) k \<longleftrightarrow> (if k div 64 = q \<and> bit m (k mod 64) then v else pbit b k)"
  by (cases "k div 64 = q") (auto simp: pbit_def pb_put1_def bit_simps)

definition pb_filled :: "u64 \<Rightarrow> nat \<Rightarrow> nat \<Rightarrow> pageBits \<Rightarrow> pageBits" where
  "pb_filled v k m b = map (\<lambda>q. if k \<le> q \<and> q < m then v else b ! q) [0..<length b]"

lemma pb_fill_ok: "m \<le> length b \<Longrightarrow> pb_fill v k m b = Inr (pb_filled v k m b)"
proof (induction v k m b rule: pb_fill.induct)
  case (1 v k m b)
  show ?case
  proof (cases "k < m")
    case True
    then have "pb_fill v k m b = pb_fill v (k + 1) m (b[k := v])" using 1(2) by (subst pb_fill.simps) simp
    moreover have "pb_fill v (k + 1) m (b[k := v]) = Inr (pb_filled v (k + 1) m (b[k := v]))"
      using 1 True by simp
    moreover have "pb_filled v (k + 1) m (b[k := v]) = pb_filled v k m b"
      using True 1(2) unfolding pb_filled_def by (intro nth_equalityI) (auto simp: nth_list_update)
    ultimately show ?thesis by simp
  next
    case False
    then have "pb_filled v k m b = b" unfolding pb_filled_def by (intro nth_equalityI) auto
    then show ?thesis using False by (subst pb_fill.simps) simp
  qed
qed

lemma length_filled [simp]: "length (pb_filled v k m b) = length b"
  by (simp add: pb_filled_def)

lemma pbit_filled:
  "k < 64 * length b \<Longrightarrow>
     pbit (pb_filled (if v then NOT 0 else 0) p m b) k \<longleftrightarrow> (if p \<le> k div 64 \<and> k div 64 < m then v else pbit b k)"
proof -
  assume "k < 64 * length b"
  then have "k div 64 < length b" by (simp add: less_mult_imp_div_less mult.commute)
  then show ?thesis by (simp add: pbit_def pb_filled_def)
qed

lemma last_bit_ok: "0 < n \<Longrightarrow> i + n \<le> 2 ^ 64 \<Longrightarrow> last_bit i n = i + n - 1"
proof -
  assume a: "0 < n" "i + n \<le> 2 ^ 64"
  have "i + n + (2 ^ 64 - 1) = (i + n - 1) + 2 ^ 64" using a by simp
  then show ?thesis using a unfolding last_bit_def by (simp only: mod_add_self2) simp
qed

lemma range_masks:
  "t < 64 \<Longrightarrow> bit (push_bit r (push_bit n 1 - 1) :: u64) t \<longleftrightarrow> r \<le> t \<and> t < r + n"
  "t < 64 \<Longrightarrow> bit (push_bit r (NOT 0) :: u64) t \<longleftrightarrow> r \<le> t"
  "t < 64 \<Longrightarrow> bit (push_bit (r + 1) 1 - 1 :: u64) t \<longleftrightarrow> t \<le> r"
proof -
  have m: "push_bit n 1 - 1 = (mask n :: u64)" for n by (simp add: mask_eq_exp_minus_1)
  show "t < 64 \<Longrightarrow> bit (push_bit r (push_bit n 1 - 1) :: u64) t \<longleftrightarrow> r \<le> t \<and> t < r + n"
    unfolding m by (auto simp: bit_simps)
  show "t < 64 \<Longrightarrow> bit (push_bit r (NOT 0) :: u64) t \<longleftrightarrow> r \<le> t" by (auto simp: bit_simps)
  show "t < 64 \<Longrightarrow> bit (push_bit (r + 1) 1 - 1 :: u64) t \<longleftrightarrow> t \<le> r" unfolding m by (auto simp: bit_simps)
qed

lemma le_words: "t < 64 \<Longrightarrow> r < 64 \<Longrightarrow> 64 * q + r \<le> 64 * s + t \<longleftrightarrow> q < s \<or> q = s \<and> r \<le> t" for s t q r :: nat
  by (cases q s rule: linorder_cases) auto

lemma put_range:
  assumes "0 < n" "i + n \<le> 64 * length b" "length b \<le> 2 ^ 58"
  obtains b' where "pb_putRange v b i n = Inr b'" "length b' = length b"
    "\<And>k. k < 64 * length b \<Longrightarrow> pbit b' k = (if i \<le> k \<and> k < i + n then v else pbit b k)"
proof -
  define j where "j = i + n - 1"
  have "i + n \<le> 2 ^ 64" using assms(2,3) by simp
  then have lb: "last_bit i n = j" using last_bit_ok [OF assms(1)] by (simp add: j_def)
  obtain q r where i: "i = 64 * q + r" "r < 64" by (metis mod_less_divisor mult_div_mod_eq zero_less_numeral)
  obtain q' r' where j: "j = 64 * q' + r'" "r' < 64" by (metis mod_less_divisor mult_div_mod_eq zero_less_numeral)
  have iq: "i div 64 = q" "i mod 64 = r" using i by simp_all
  have jq: "j div 64 = q'" "j mod 64 = r'" using j by simp_all
  have jn: "j + 1 = i + n" using assms(1) by (simp add: j_def)
  then have len: "q' < length b" "q < length b" "q \<le> q'" using assms i j by linarith+
  have in_range: "i \<le> 64 * s + t \<and> 64 * s + t < i + n \<longleftrightarrow> (q < s \<or> q = s \<and> r \<le> t) \<and> (s < q' \<or> s = q' \<and> t \<le> r')" if "t < 64" for s t
    using le_words [OF that i(2), of q s] le_words [OF j(2) that, of s q'] i(1) j(1) jn by linarith
  have kk: "\<exists>s t. k = 64 * s + t \<and> t < 64 \<and> k div 64 = s \<and> k mod 64 = t" for k :: nat
    by (intro exI [of _ "k div 64"] exI [of _ "k mod 64"]) simp
  consider (one) "n = 1" | (word) "n \<noteq> 1" "q = q'" | (words) "n \<noteq> 1" "q \<noteq> q'" by blast
  then show thesis
  proof cases
    case one
    then have "pb_putRange v b i n = Inr (pb_put1 v b q (push_bit r 1))"
      using len by (simp add: pb_putRange_def iq pb_put_ok)
    moreover have "pbit (pb_put1 v b q (push_bit r 1)) k = (if i \<le> k \<and> k < i + n then v else pbit b k)" if "k < 64 * length b" for k
    proof -
      obtain s t where k: "k = 64 * s + t" "t < 64" "k div 64 = s" "k mod 64 = t" using kk by blast
      have "bit (push_bit r 1 :: u64) t \<longleftrightarrow> t = r" using k(2) i(2) by (auto simp: bit_simps)
      moreover have "s = q \<and> t = r \<longleftrightarrow> i \<le> k \<and> k < i + n"
        unfolding k(1) in_range [OF k(2)] using i j one jn by auto
      ultimately show ?thesis using len by (simp add: pbit_put1 k(3,4))
    qed
    ultimately show ?thesis using that by simp
  next
    case word
    let ?m = "push_bit r (push_bit n 1 - 1)"
    have "pb_putRange v b i n = Inr (pb_put1 v b q ?m)"
      using word len by (simp add: pb_putRange_def iq jq lb pb_put_ok)
    moreover have "pbit (pb_put1 v b q ?m) k = (if i \<le> k \<and> k < i + n then v else pbit b k)" if "k < 64 * length b" for k
    proof -
      obtain s t where k: "k = 64 * s + t" "t < 64" "k div 64 = s" "k mod 64 = t" using kk by blast
      have "s = q \<and> r \<le> t \<and> t < r + n \<longleftrightarrow> i \<le> k \<and> k < i + n" unfolding k(1) in_range [OF k(2)] using i j word(2) jn by auto
      then show ?thesis using len range_masks(1) [OF k(2)] by (simp add: pbit_put1 k(3,4))
    qed
    ultimately show ?thesis using that by simp
  next
    case words
    let ?m = "push_bit r (NOT 0)" and ?m' = "push_bit (r' + 1) 1 - 1" and ?v = "if v then NOT 0 else 0 :: u64"
    let ?b1 = "pb_put1 v b q ?m"
    let ?b2 = "pb_filled ?v (q + 1) q' ?b1"
    let ?b3 = "pb_put1 v ?b2 q' ?m'"
    have "pb_putRange v b i n = Inr ?b3"
      using words len by (simp add: pb_putRange_def iq jq lb pb_put_ok pb_fill_ok del: push_bit_Suc)
    moreover have "pbit ?b3 k = (if i \<le> k \<and> k < i + n then v else pbit b k)" if kl: "k < 64 * length b" for k
    proof -
      obtain s t where k: "k = 64 * s + t" "t < 64" "k div 64 = s" "k mod 64 = t" using kk by blast
      have "pbit ?b3 k = (if s = q' \<and> t \<le> r' \<or> q + 1 \<le> s \<and> s < q' \<or> s = q \<and> r \<le> t then v else pbit b k)"
        using len kl range_masks(2,3) [OF k(2)] pbit_filled [of k ?b1 v "q + 1" q']
        by (simp add: pbit_put1 k(3,4) del: push_bit_Suc)
      moreover have "s = q' \<and> t \<le> r' \<or> q + 1 \<le> s \<and> s < q' \<or> s = q \<and> r \<le> t \<longleftrightarrow> i \<le> k \<and> k < i + n"
        unfolding k(1) in_range [OF k(2)] using words(2) len(3) by auto
      ultimately show ?thesis by simp
    qed
    ultimately show ?thesis using that by simp
  qed
qed

section \<open>Counting a range\<close>

definition pb_ones :: "pageBits \<Rightarrow> nat \<Rightarrow> nat \<Rightarrow> nat" where
  "pb_ones b lo hi = card {k. lo \<le> k \<and> k < hi \<and> pbit b k}"

lemma pb_ones_add: "lo \<le> mid \<Longrightarrow> mid \<le> hi \<Longrightarrow> pb_ones b lo mid + pb_ones b mid hi = pb_ones b lo hi"
proof -
  assume a: "lo \<le> mid" "mid \<le> hi"
  have "{k. lo \<le> k \<and> k < hi \<and> pbit b k} = {k. lo \<le> k \<and> k < mid \<and> pbit b k} \<union> {k. mid \<le> k \<and> k < hi \<and> pbit b k}"
    using a by auto
  moreover have "finite {k. l \<le> k \<and> k < h \<and> pbit b k}" for l h by (rule finite_subset [of _ "{..<h}"]) auto
  ultimately show ?thesis unfolding pb_ones_def by (simp add: card_Un_disjoint disjoint_iff)
qed

lemma OnesCount64_ones:
  assumes "\<And>t. t < 64 \<Longrightarrow> bit y t \<longleftrightarrow> lo + t < hi \<and> pbit b (lo + t)" "hi \<le> lo + 64"
  shows "OnesCount64 y = pb_ones b lo hi"
proof -
  have "OnesCount64 y = card {t. t < 64 \<and> bit y t}"
    unfolding OnesCount64_bits length_filter_conv_card by (rule arg_cong [of _ _ card]) auto
  also have "\<dots> = card ((+) lo ` {t. t < 64 \<and> bit y t})" by (simp add: card_image)
  also have "(+) lo ` {t. t < 64 \<and> bit y t} = {k. lo \<le> k \<and> k < hi \<and> pbit b k}"
  proof (intro equalityI subsetI)
    fix k assume "k \<in> {k. lo \<le> k \<and> k < hi \<and> pbit b k}"
    moreover from this have "k - lo < 64" using assms(2) by auto
    ultimately show "k \<in> (+) lo ` {t. t < 64 \<and> bit y t}" using assms(1) [of "k - lo"] by (intro image_eqI [of _ _ "k - lo"]) auto
  qed (use assms(1) in auto)
  finally show ?thesis by (simp add: pb_ones_def)
qed

lemma pbit_word: "t < 64 \<Longrightarrow> pbit b (64 * q + t) = bit (b ! q) t"
  by (simp add: pbit_def)

lemma pb_count_ok: "m \<le> length b \<Longrightarrow> k \<le> m \<Longrightarrow> pb_count b k m s = Inr (s + pb_ones b (64 * k) (64 * m))"
proof (induction b k m s rule: pb_count.induct)
  case (1 b k m s)
  show ?case
  proof (cases "k < m")
    case True
    have "OnesCount64 (b ! k) = pb_ones b (64 * k) (64 * k + 64)"
      by (rule OnesCount64_ones) (simp_all add: pbit_word)
    moreover have "pb_ones b (64 * k) (64 * k + 64) + pb_ones b (64 * k + 64) (64 * m) = pb_ones b (64 * k) (64 * m)"
      by (rule pb_ones_add) (use True in auto)
    moreover have "pb_count b (k + 1) m (s + OnesCount64 (b ! k)) = Inr (s + OnesCount64 (b ! k) + pb_ones b (64 * (k + 1)) (64 * m))"
      by (rule 1(1)) (use True 1(2) in auto)
    ultimately show ?thesis using True 1(2) by (subst pb_count.simps) (simp add: add.commute add.left_commute)
  next
    case False
    then show ?thesis using 1(3) by (subst pb_count.simps) (simp add: pb_ones_def)
  qed
qed

lemma popcnt_range:
  assumes "0 < n" "i + n \<le> 64 * length b" "length b \<le> 2 ^ 58"
  shows "pb_popcntRange b i n = Inr (pb_ones b i (i + n))"
proof -
  define j where "j = i + n - 1"
  have "i + n \<le> 2 ^ 64" using assms(2,3) by simp
  then have lb: "last_bit i n = j" using last_bit_ok [OF assms(1)] by (simp add: j_def)
  obtain q r where i: "i = 64 * q + r" "r < 64" by (metis mod_less_divisor mult_div_mod_eq zero_less_numeral)
  obtain q' r' where j: "j = 64 * q' + r'" "r' < 64" by (metis mod_less_divisor mult_div_mod_eq zero_less_numeral)
  have iq: "i div 64 = q" "i mod 64 = r" using i by simp_all
  have jq: "j div 64 = q'" "j mod 64 = r'" using j by simp_all
  have jn: "j + 1 = i + n" using assms(1) by (simp add: j_def)
  then have len: "q' < length b" "q < length b" "q \<le> q'" using assms i j by linarith+
  have m: "push_bit n 1 - 1 = (mask n :: u64)" for n by (simp add: mask_eq_exp_minus_1)
  have pi: "pbit b (i + t) = bit (b ! q) (r + t)" if "r + t < 64" for t
    using pbit_word [OF that, of b q] i(1) by (simp add: add.assoc)
  consider (one) "n = 1" | (word) "n \<noteq> 1" "q = q'" | (words) "n \<noteq> 1" "q \<noteq> q'" by blast
  then show ?thesis
  proof cases
    case one
    have "{k. i \<le> k \<and> k < i + n \<and> pbit b k} = (if bit (b ! q) r then {i} else {})"
      using one pi [of 0] i(2) by (auto simp: le_less_Suc_eq)
    moreover have "drop_bit r (b ! q) AND 1 = of_bool (bit (b ! q) r)" by (simp only: and_one_eq mod_2_eq_odd bit_iff_odd_drop_bit)
    ultimately show ?thesis using one len by (simp add: pb_popcntRange_def pb_ones_def iq)
  next
    case word
    then have "r + n \<le> 64" using i j jn by linarith
    then have "OnesCount64 (drop_bit r (b ! q) AND mask n) = pb_ones b i (i + n)"
      using pi by (intro OnesCount64_ones) (auto simp: bit_simps)
    then show ?thesis using word len unfolding m [symmetric] by (simp add: pb_popcntRange_def iq jq lb)
  next
    case words
    then have q: "q + 1 \<le> q'" using len(3) by simp
    have "OnesCount64 (drop_bit r (b ! q)) = pb_ones b i (64 * (q + 1))"
    proof (rule OnesCount64_ones)
      fix t :: nat
      show "bit (drop_bit r (b ! q)) t \<longleftrightarrow> i + t < 64 * (q + 1) \<and> pbit b (i + t)"
        using pi [of t] i(1) bit_imp_le_length [of "b ! q" "r + t"] by (auto simp: bit_simps)
    qed (use i in simp)
    moreover have "OnesCount64 (b ! q' AND mask (r' + 1)) = pb_ones b (64 * q') (i + n)"
    proof (rule OnesCount64_ones)
      fix t :: nat assume "t < 64"
      then show "bit (b ! q' AND mask (r' + 1)) t \<longleftrightarrow> 64 * q' + t < i + n \<and> pbit b (64 * q' + t)"
        using pbit_word [of t b q'] j(1) jn by (auto simp: bit_simps)
    qed (use j jn in simp)
    moreover have "pb_count b (q + 1) q' s = Inr (s + pb_ones b (64 * (q + 1)) (64 * q'))" for s
      by (rule pb_count_ok) (use q len in auto)
    moreover have "pb_ones b i (64 * (q + 1)) + pb_ones b (64 * (q + 1)) (64 * q') = pb_ones b i (64 * q')"
      by (rule pb_ones_add) (use q i in auto)
    moreover have "pb_ones b i (64 * q') + pb_ones b (64 * q') (i + n) = pb_ones b i (i + n)"
      by (rule pb_ones_add) (use q i j jn in auto)
    ultimately show ?thesis using words len unfolding m [symmetric] by (simp add: pb_popcntRange_def iq jq lb)
  qed
qed

end
