(* ===== verification/PallocSum.thy ===== *)
theory PallocSum
  imports PallocLaws PallocRange
begin

text \<open>
  The summaries of the page allocator: \<open>summarize\<close> computes, a byte at a time, the run of free pages at the start,
  the longest one and the one at the end; \<open>mergeSummaries\<close> gives the summary of adjacent chunks from theirs.
\<close>

section \<open>Summarising\<close>

definition runs :: "bool list \<Rightarrow> nat \<times> nat \<times> nat" where
  "runs bs = (zlead bs, zmax bs, ztrail bs)"

definition sum_of :: "nat \<Rightarrow> bool list \<Rightarrow> pallocSum" where
  "sum_of sl bs = packPallocSum sl (zlead bs) (zmax bs) (ztrail bs)"

lemma runs_append:
  "runs (xs @ ys) =
     (if zlead xs = length xs then zlead xs + zlead ys else zlead xs,
      max (max (zmax xs) (ztrail xs + zlead ys)) (zmax ys),
      if zlead ys = length ys then ztrail xs + length ys else ztrail ys)"
  by (auto simp: runs_def zlead_append zmax_append ztrail_append)

lemma consec_table: "consec8tab = map zmax (List.n_lists 8 [False, True])"
  by code_simp

lemma consec8tab_bits: "consec8tab ! unat x = zmax (wbits x)" for x :: byte
  using bytes_256 unat_byte [of x] by (simp only: consec_table wbits_byte nth_map)

lemma sum_byte_runs:
  assumes "length P = i * 64 + j"
  shows "sum_byte i a j (runs P) = runs (P @ wbits (ucast (drop_bit j a) :: byte))"
proof -
  let ?k = "ucast (drop_bit j a) :: byte"
  have "zlead (wbits ?k) = 8 \<longleftrightarrow> ?k = 0" using zlead_all [of ?k] by simp
  then show ?thesis
    using assms unfolding runs_append
    by (auto simp: sum_byte_def runs_def Let_def TrailingZeros8_bits LeadingZeros8_bits consec8tab_bits)
qed

lemma word_byte: "j + 8 \<le> 64 \<Longrightarrow> wbits (ucast (drop_bit j a) :: byte) = map (bit a) [j..<j + 8]" for a :: u64
  by (rule nth_equalityI) (auto simp: bit_simps)

lemma len_64: "LENGTH(64) = 64"
  by simp

lemma word_bytes:
  "wbits a = concat (map (\<lambda>j. wbits (ucast (drop_bit j a) :: byte)) [0, 8, 16, 24, 32, 40, 48, 56])" for a :: u64
proof -
  have "[0..<64] = concat (map (\<lambda>j. [j..<j + 8]) [0, 8, 16, 24, 32, 40, 48, 56])" by code_simp
  then have "wbits a = concat (map (\<lambda>j. map (bit a) [j..<j + 8]) [0, 8, 16, 24, 32, 40, 48, 56])"
    unfolding wbits_def by (simp only: len_64 map_concat map_map comp_def)
  also have "\<dots> = concat (map (\<lambda>j. wbits (ucast (drop_bit j a) :: byte)) [0, 8, 16, 24, 32, 40, 48, 56])"
    by (simp only: list.map word_byte)
  finally show ?thesis .
qed

lemma sum_word_runs:
  assumes "length P = i * 64"
  shows "foldl (\<lambda>s j. sum_byte i a j s) (runs P) [0, 8, 16, 24, 32, 40, 48, 56] = runs (P @ wbits a)"
proof -
  define W where "W j = wbits (ucast (drop_bit j a) :: byte)" for j
  have l: "length (W j) = 8" for j by (simp add: W_def)
  have s: "sum_byte i a j (runs Q) = runs (Q @ W j)" if "length Q = i * 64 + j" for j Q
    using sum_byte_runs [OF that] by (simp add: W_def)
  have "wbits a = W 0 @ W 8 @ W 16 @ W 24 @ W 32 @ W 40 @ W 48 @ W 56"
    unfolding word_bytes [of a] by (simp add: W_def)
  then show ?thesis using assms by (simp add: s l)
qed

theorem summarize_bits: "summarize sl b = sum_of sl (pbits b)"
proof -
  define F where "F s i = foldl (\<lambda>s j. sum_byte i (b ! i) j s) s [0, 8, 16, 24, 32, 40, 48, 56]" for s i
  have "foldl F (0, 0, 0) [0..<n] = runs (pbits (take n b))" if "n \<le> length b" for n
    using that
  proof (induction n)
    case 0
    show ?case by (simp add: runs_def ztrail_def)
  next
    case (Suc n)
    have "length (pbits (take n b)) = n * 64" using Suc.prems by simp
    from sum_word_runs [OF this, of "b ! n"] have "F (runs (pbits (take n b))) n = runs (pbits (take n b) @ wbits (b ! n))"
      unfolding F_def .
    then show ?case using Suc by (simp add: take_Suc_conv_app_nth)
  qed
  from this [of "length b"] show ?thesis
    unfolding summarize_def sum_of_def F_def [symmetric] by (simp add: runs_def)
qed

section \<open>Packing\<close>

lemma and_bit_zero: "\<not> bit p k \<Longrightarrow> p AND push_bit k 1 = 0" for p :: u64
  by (intro bit_word_eqI) (auto simp: bit_simps)

lemma pack_unpack:
  assumes "sl \<le> 5" "start \<le> max'" "end' \<le> max'" "max' \<le> 2 ^ logMaxPackedValue sl"
    "max' = 2 ^ logMaxPackedValue sl \<longrightarrow> start = max' \<and> end' = max'"
  shows "sum_unpack sl (packPallocSum sl start max' end') = (start, max', end')"
proof -
  define l where "l = logMaxPackedValue sl"
  have l: "3 * l \<le> 63" "l \<le> 21" using assms(1) by (simp_all add: l_def logMaxPackedValue_def logPallocChunkPages_def)
  have m: "push_bit l 1 - 1 = (mask l :: u64)" by (simp add: mask_eq_exp_minus_1)
  show ?thesis
  proof (cases "max' = 2 ^ l")
    case True
    then show ?thesis using assms(5) by (simp add: packPallocSum_def sum_unpack_def l_def [symmetric] Let_def)
  next
    case False
    define p :: u64 where
      "p = (of_nat start AND mask l) OR push_bit l (of_nat max' AND mask l) OR push_bit (2 * l) (of_nat end' AND mask l)"
    have p: "packPallocSum sl start max' end' = p"
      using False unfolding packPallocSum_def Let_def l_def [symmetric] m p_def by simp
    have "\<not> bit p 63" using l by (auto simp: p_def bit_simps)
    then have top: "p AND push_bit 63 1 = 0" by (rule and_bit_zero)
    have parts: "p AND mask l = of_nat start AND mask l" "drop_bit l p AND mask l = of_nat max' AND mask l"
      "drop_bit (2 * l) p AND mask l = of_nat end' AND mask l"
      using l by (auto intro!: bit_word_eqI simp: p_def bit_simps)
    have u: "unat (of_nat n AND mask l :: u64) = n" if "n \<le> max'" for n
    proof -
      have "n < 2 ^ l" using that False assms(4) by (simp add: l_def)
      moreover have "(2 :: nat) ^ l \<le> 2 ^ 64" using l(2) by (intro power_increasing) simp_all
      ultimately show ?thesis by (simp add: unat_and_mask unat_of_nat)
    qed
    show ?thesis
      unfolding p sum_unpack_def Let_def l_def [symmetric] m parts using assms(2,3) top u by simp
  qed
qed

lemma zmax_full: "zmax bs = length bs \<Longrightarrow> zlead bs = length bs \<and> ztrail bs = length bs"
proof -
  assume "zmax bs = length bs"
  then obtain i where "run_free bs i (length bs)" using zmax_run [of "length bs" bs] by auto
  moreover from this have "i = 0" by (simp add: run_free_def)
  ultimately have "zlead bs = length bs" using run_zlead [of bs "length bs"] zlead_le [of bs] by simp
  then show ?thesis by (simp add: ztrail_def zlead_rev_full)
qed

lemma unpack_sum_of:
  assumes "sl \<le> 5" "length bs \<le> 2 ^ logMaxPackedValue sl"
  shows "sum_unpack sl (sum_of sl bs) = runs bs"
  unfolding sum_of_def runs_def
proof (rule pack_unpack [OF assms(1) zmax_ge ztrail_zmax])
  show "zmax bs \<le> 2 ^ logMaxPackedValue sl" using zmax_le [of bs] assms(2) by simp
  show "zmax bs = 2 ^ logMaxPackedValue sl \<longrightarrow> zlead bs = zmax bs \<and> ztrail bs = zmax bs"
    using zmax_full [of bs] zmax_le [of bs] assms(2) by simp
qed

lemma sum_fields:
  "sum_unpack sl p = (sum_start sl p, sum_max sl p, sum_end sl p)"
  by (simp add: sum_unpack_def sum_start_def sum_max_def sum_end_def Let_def)

section \<open>Merging\<close>

lemma merge_step_runs:
  assumes "sum_unpack sl (sums ! i) = runs Q" "length Q = 2 ^ lg" "length P = i * 2 ^ lg"
  shows "merge_step sl sums lg (runs P) i = runs (P @ Q)"
proof -
  have "ztrail Q = 2 ^ lg \<longleftrightarrow> zlead Q = 2 ^ lg" using zlead_rev_full [of Q] assms(2) by (simp add: ztrail_def)
  then show ?thesis using assms unfolding runs_append by (auto simp: merge_step_def runs_def Let_def push_bit_eq_mult)
qed

theorem merge_sums:
  assumes "sl \<le> 5" "\<forall>B \<in> set bss. length B = 2 ^ lg" "bss \<noteq> []" "2 ^ lg \<le> (2 :: nat) ^ logMaxPackedValue sl"
  shows "mergeSummaries sl (map (sum_of sl) bss) lg = Inr (sum_of sl (concat bss))"
proof -
  let ?sums = "map (sum_of sl) bss"
  have un: "sum_unpack sl (?sums ! i) = runs (bss ! i)" "length (bss ! i) = 2 ^ lg" if "i < length bss" for i
    using that assms(2,4) by (simp_all add: unpack_sum_of [OF assms(1)])
  have 0: "0 < length bss" using assms(3) by simp
  have len: "length (concat (take n bss)) = n * 2 ^ lg" if "n \<le> length bss" for n
    using that un(2) by (induction n) (simp_all add: take_Suc_conv_app_nth)
  have "foldl (merge_step sl ?sums lg) (runs (bss ! 0)) [1..<Suc n] = runs (concat (take (Suc n) bss))" if "Suc n \<le> length bss" for n
    using that
  proof (induction n)
    case 0
    then show ?case by (cases bss) simp_all
  next
    case (Suc n)
    have "merge_step sl ?sums lg (runs (concat (take (Suc n) bss))) (Suc n) = runs (concat (take (Suc n) bss) @ bss ! Suc n)"
      by (rule merge_step_runs) (use Suc.prems un len in auto)
    then show ?case using Suc by (simp add: take_Suc_conv_app_nth)
  qed
  moreover obtain m where m: "length bss = Suc m" using assms(3) by (cases bss) auto
  ultimately have "foldl (merge_step sl ?sums lg) (runs (bss ! 0)) [1..<length bss] = runs (concat bss)" by simp
  then show ?thesis using 0 un(1) [of 0] unfolding mergeSummaries_def by (simp add: sum_of_def runs_def del: upt_Suc)
qed

end
