(* ===== verification/PallocFind.thy ===== *)
theory PallocFind
  imports PallocLaws PallocRange
begin

text \<open>
  The searches of the page allocator: each finds the first run of free pages that is long enough, and the first
  free page, in a bitmap whose pages before the search index are allocated.
\<close>

section \<open>Within one word\<close>

lemma zlead_not_drop: "i \<le> 64 \<Longrightarrow> zlead (wbits (NOT (drop_bit i c))) = zlead (drop i (wbits (NOT c)))" for c :: u64
proof (rule zlead_unique)
  fix j assume i: "i \<le> 64" and j: "j < zlead (drop i (wbits (NOT c)))"
  then have "i + j < 64" using zlead_le [of "drop i (wbits (NOT c))"] by simp
  then show "\<not> wbits (NOT (drop_bit i c)) ! j" using zlead_zero [OF j] by (simp add: bit_simps add.commute)
next
  assume i: "i \<le> 64"
  show "zlead (drop i (wbits (NOT c))) \<le> length (wbits (NOT (drop_bit i c)))"
    using zlead_le [of "drop i (wbits (NOT c))"] by simp
  let ?k = "zlead (drop i (wbits (NOT c)))"
  assume k: "?k < length (wbits (NOT (drop_bit i c)))"
  show "wbits (NOT (drop_bit i c)) ! ?k"
  proof (cases "i + ?k < 64")
    case True
    then show ?thesis using zlead_one [of "drop i (wbits (NOT c))"] i by (simp add: bit_simps add.commute)
  next
    case False
    then have "\<not> bit c (i + ?k)" using bit_imp_le_length [of c "i + ?k"] by auto
    then show ?thesis using k by (simp add: bit_simps)
  qed
qed

lemma run_free_Suc: "0 < n \<Longrightarrow> run_free bs i n \<Longrightarrow> i < length bs \<and> \<not> bs ! i"
  by (auto simp: run_free_def)

declare bitrange_loop.simps [code]

lemma bitrange_loop_first:
  assumes "0 < n" "\<And>j. j < min i 64 \<Longrightarrow> \<not> run_free (wbits (NOT c)) j n" "i \<le> 64 \<Longrightarrow> cont = zlead (drop i (wbits (NOT c)))"
  shows "\<exists>r. bitrange_loop c n i cont = Some r \<and>
    (if r < 64 then first_run (wbits (NOT c)) n r else \<forall>j. \<not> run_free (wbits (NOT c)) j n)"
  using assms
proof (induction "64 - i" arbitrary: i cont rule: less_induct)
  case less
  let ?W = "wbits (NOT c)"
  show ?case
  proof (cases "cont < n \<and> i < 64")
    case False
    then have "bitrange_loop c n i cont = Some i" by (subst bitrange_loop.simps) (simp only: False if_False)
    moreover have "first_run ?W n i" if "i < 64"
      using that False less.prems run_drop [of i ?W n] by (auto simp: first_run_def)
    moreover have "\<not> run_free ?W j n" if "\<not> i < 64" for j
      using that less.prems(2) [of j] run_free_Suc [OF less.prems(1), of ?W j] by (cases "j < 64") auto
    ultimately show ?thesis by auto
  next
    case True
    then have c: "cont = zlead (drop i ?W)" using less.prems(3) by simp
    define i1 where "i1 = i + cont"
    have i1: "i1 \<le> 64" using c zlead_le [of "drop i ?W"] True unfolding i1_def by simp linarith
    define z where "z = zlead (wbits (drop_bit i1 c))"
    define i2 where "i2 = i1 + z"
    have step: "bitrange_loop c n i cont = bitrange_loop c n i2 (zlead (wbits (NOT (drop_bit i2 c))))"
      by (subst bitrange_loop.simps) (simp only: True simp_thms if_True Let_def TrailingZeros64_bits i1_def [symmetric] z_def [symmetric] i2_def [symmetric])
    have at1: "?W ! i1" if "i1 < 64"
      using zlead_one [of "drop i ?W"] that c True by (simp add: i1_def)
    have zeros: "?W ! j" if "i1 \<le> j" "j < i2" "j < 64" for j
      using zlead_zero [of "j - i1" "wbits (drop_bit i1 c)"] that by (simp add: i2_def z_def bit_simps)
    have "i < i2"
    proof (cases "cont = 0")
      case True
      then have "\<not> bit c i" using at1 \<open>cont < n \<and> i < 64\<close> by (simp add: i1_def bit_simps)
      moreover have "bit c i" if "z = 0"
        using zlead_one [of "wbits (drop_bit i c)"] that True by (simp add: z_def i1_def bit_simps)
      ultimately have "z \<noteq> 0" by blast
      then show ?thesis by (simp add: i2_def i1_def)
    qed (simp add: i2_def i1_def)
    then have dec: "64 - i2 < 64 - i" using True by linarith
    have none: "\<not> run_free ?W j n" if j: "j < min i2 64" for j
    proof -
      consider "j < i" | "i \<le> j" "j < i1" | "i1 \<le> j" using j by linarith
      then show ?thesis
      proof cases
        case 1
        then show ?thesis using less.prems(2) [of j] True by simp
      next
        case 2
        show ?thesis
        proof
          assume r: "run_free ?W j n"
          have "i1 < j + n" using 2 True by (simp add: i1_def)
          then have "j + (i1 - j) = i1" "i1 - j < n" using 2 by auto
          moreover from this have "i1 < 64" using r by (simp add: run_free_def)
          ultimately show False using r at1 by (metis run_free_def)
        qed
      next
        case 3
        then show ?thesis using zeros [of j] j run_free_Suc [OF less.prems(1), of ?W j] by auto
      qed
    qed
    show ?thesis
      unfolding step by (rule less.hyps [OF dec less.prems(1) none]) (simp_all add: zlead_not_drop)
  qed
qed

lemma findBitRange64_first:
  assumes "0 < n"
  obtains r where "findBitRange64 c n = Some r"
    "if r < 64 then first_run (wbits (NOT c)) n r else \<forall>j. \<not> run_free (wbits (NOT c)) j n"
  using bitrange_loop_first [OF assms, of 0 c "TrailingZeros64 (NOT c)"]
  by (auto simp: findBitRange64_def TrailingZeros64_bits)

section \<open>What a search returns\<close>

definition found :: "bool list \<Rightarrow> nat \<Rightarrow> nat \<Rightarrow> bool" where
  "found bs n r \<longleftrightarrow> (if r = noPage then \<forall>i. \<not> run_free bs i n else first_run bs n r)"

text \<open>The first free page.\<close>

definition found1 :: "bool list \<Rightarrow> nat \<Rightarrow> bool" where
  "found1 bs r \<longleftrightarrow> (if r = noPage then \<forall>x \<in> set bs. x else r < length bs \<and> \<not> bs ! r \<and> (\<forall>j<r. bs ! j))"

lemma found1_eq: "found bs 1 r \<longleftrightarrow> found1 bs r"
  by (auto simp: found_def found1_def first_run_def run_free_def all_set_conv_all_nth)

lemma found1_keep: "found1 P s \<Longrightarrow> s \<noteq> noPage \<Longrightarrow> found1 (P @ Q) s"
  by (auto simp: found1_def nth_append)

lemma found1_full: "found1 P s \<Longrightarrow> \<forall>x \<in> set Q. x \<Longrightarrow> found1 (P @ Q) s"
  by (cases "s = noPage") (auto simp: found1_def nth_append)

lemma wbits_full: "(\<forall>x \<in> set (wbits x). x) \<longleftrightarrow> x = NOT 0" for x :: u64
proof
  assume "\<forall>b \<in> set (wbits x). b"
  then show "x = NOT 0" by (intro bit_word_eqI) (simp add: wbits_def)
qed (simp add: wbits_def)

lemma first_page:
  fixes x :: u64
  assumes "x \<noteq> NOT 0"
  shows "\<not> bit x (TrailingZeros64 (NOT x))" "\<And>j. j < TrailingZeros64 (NOT x) \<Longrightarrow> bit x j" "TrailingZeros64 (NOT x) < 64"
proof -
  have "NOT x \<noteq> 0" using assms by (metis bit.double_compl)
  then have k: "zlead (wbits (NOT x)) < 64" using zlead_all [of "NOT x"] zlead_le [of "wbits (NOT x)"] by (simp add: le_less)
  then show "TrailingZeros64 (NOT x) < 64" by (simp only: TrailingZeros64_bits)
  then show "\<not> bit x (TrailingZeros64 (NOT x))" "\<And>j. j < TrailingZeros64 (NOT x) \<Longrightarrow> bit x j"
    using zlead_nth_less [OF refl, of "NOT x"] unfolding TrailingZeros64_bits by (auto simp: bit_simps)
qed

text \<open>The search index after a word that has a free page.\<close>

lemma found1_word:
  fixes x :: u64
  assumes "found1 P s" "x \<noteq> NOT 0" "length P + 64 < 2 ^ 64"
  shows "found1 (P @ wbits x @ R) (if s = noPage then length P + TrailingZeros64 (NOT x) else s)"
proof (cases "s = noPage")
  case True
  let ?k = "TrailingZeros64 (NOT x)"
  note k = first_page [OF assms(2)]
  have full: "P ! j" if "j < length P" for j using assms(1) that True by (simp add: found1_def all_set_conv_all_nth)
  have "length P + ?k \<noteq> noPage" using k(3) assms(3) by (simp add: noPage_def)
  moreover have "(P @ wbits x @ R) ! j" if "j < length P + ?k" for j
  proof (cases "j < length P")
    case False
    then have "j - length P < ?k" using that by linarith
    then show ?thesis using False k(2) [of "j - length P"] k(3) by (simp add: nth_append)
  qed (simp add: full nth_append)
  moreover have "\<not> (P @ wbits x @ R) ! (length P + ?k)" using k(1,3) by (simp add: nth_append)
  ultimately show ?thesis using True k(3) by (simp add: found1_def)
next
  case False
  then show ?thesis using found1_keep [OF assms(1) False] by simp
qed

section \<open>The searches\<close>

lemma pbits_split: "i < length b \<Longrightarrow> pbits b = pbits (take i b) @ wbits (b ! i) @ pbits (drop (Suc i) b)"
  by (metis id_take_nth_drop pbits_simps(2,3))

lemma pbits_take_Suc: "i < length b \<Longrightarrow> pbits (take (Suc i) b) = pbits (take i b) @ wbits (b ! i)"
  by (simp add: take_Suc_conv_app_nth)

lemma find1_loop_found:
  assumes "length b < 2 ^ 57" "found1 (pbits (take i b)) noPage"
  shows "found1 (pbits b) (find1_loop b i)"
  using assms
proof (induction b i rule: find1_loop.induct)
  case (1 b i)
  show ?case
  proof (cases "i < length b")
    case i: True
    show ?thesis
    proof (cases "b ! i = NOT 0")
      case True
      then have "\<forall>x \<in> set (wbits (b ! i)). x" using wbits_full [of "b ! i"] by simp
      then have "found1 (pbits (take (i + 1) b)) noPage"
        using found1_full [OF 1(3)] by (simp add: take_Suc_conv_app_nth i)
      then show ?thesis using 1(1) [OF i refl True 1(2)] True i by (subst find1_loop.simps) (simp only: True i if_True Let_def simp_thms)
    next
      case False
      have "found1 (pbits b) (64 * i + TrailingZeros64 (NOT (b ! i)))"
        using found1_word [OF 1(3) False] 1(2) i unfolding pbits_split [OF i] by simp
      then show ?thesis using False i by (subst find1_loop.simps) (simp only: if_True if_False Let_def mult.commute [of i])
    qed
  next
    case False
    then show ?thesis using 1(3) by (subst find1_loop.simps) simp
  qed
qed


text \<open>What both loops keep between words: no run is complete, and the run at the end is known.\<close>

lemma words_step:
  fixes x :: u64
  assumes "zmax P < n" "zmax (wbits x) < n" "ztrail P + zlead (wbits x) < n"
  shows "zmax (P @ wbits x) < n"
  using assms by (simp add: zmax_append)

lemma ztrail_full: "ztrail (P @ wbits (NOT 0 :: u64)) = 0"
proof -
  have "bit (NOT 0 :: u64) 63" by (simp add: bit_simps)
  then have "rev (wbits (NOT 0 :: u64)) ! 0" by (simp add: rev_nth)
  then have "zlead (rev (wbits (NOT 0 :: u64))) = 0" using zlead_zero [of 0 "rev (wbits (NOT 0 :: u64))"] by (metis gr0I)
  then have "ztrail (wbits (NOT 0 :: u64)) = 0" by (simp add: ztrail_def)
  then show ?thesis using zlead_rev_full [of "wbits (NOT 0 :: u64)"] unfolding ztrail_append by (simp add: ztrail_def)
qed

lemma full_word: "zlead (wbits (NOT 0 :: u64)) = 0" "zmax (wbits (NOT 0 :: u64)) = 0"
proof -
  have *: "\<not> run_free (wbits (NOT 0 :: u64)) i 1" for i by (auto simp: run_free_def)
  then show "zmax (wbits (NOT 0 :: u64)) = 0" using zmax_run [of 1 "wbits (NOT 0 :: u64)"] by auto
  then show "zlead (wbits (NOT 0 :: u64)) = 0" using zmax_ge [of "wbits (NOT 0 :: u64)"] by simp
qed

lemma none_found: "zmax B < n \<Longrightarrow> found B n noPage"
  by (simp add: found_def no_run)

lemma first_found: "first_run B n r \<Longrightarrow> 0 < n \<Longrightarrow> length B < noPage \<Longrightarrow> found B n r"
  by (auto simp: found_def first_run_def run_free_def)

declare findSmallN_loop.simps [code]

lemma findSmallN_loop_found:
  assumes "length b < 2 ^ 57" "1 \<le> n" "n \<le> 64" "i \<le> length b" "zmax (pbits (take i b)) < n" "e = ztrail (pbits (take i b))" "found1 (pbits (take i b)) s"
  shows "\<exists>r s'. findSmallN_loop b n i e s = Some (r, s') \<and> found (pbits b) n r \<and> found1 (pbits b) s'"
  using assms
proof (induction "length b - i" arbitrary: i e s)
  case 0
  then have "i = length b" by simp
  then have "findSmallN_loop b n i e s = Some (noPage, s)" by (subst findSmallN_loop.simps) simp
  then show ?case using 0 \<open>i = length b\<close> none_found by simp
next
  case (Suc m)
  then have i: "i < length b" "m = length b - (i + 1)" by auto
  let ?P = "pbits (take i b)" and ?x = "b ! i" and ?W = "wbits (b ! i)" and ?R = "pbits (drop (Suc i) b)"
  have B: "pbits b = ?P @ ?W @ ?R" by (rule pbits_split [OF i(1)])
  have next_P: "pbits (take (i + 1) b) = ?P @ ?W" by (simp add: take_Suc_conv_app_nth i)
  have P: "length ?P = i * 64" "length ?P + 64 < 2 ^ 64" using i(1) Suc.prems(1) by simp_all
  have B_less: "length (pbits b) < noPage" using Suc.prems(1) by (simp add: noPage_def)
  have go_on: "\<exists>r s'. findSmallN_loop b n (i + 1) e' t = Some (r, s') \<and> found (pbits b) n r \<and> found1 (pbits b) s'"
    if "zmax (?P @ ?W) < n" "e' = ztrail (?P @ ?W)" "found1 (?P @ ?W) t" for e' t
  proof -
    have "i + 1 \<le> length b" using i(1) by simp
    from Suc.hyps(1) [OF i(2) Suc.prems(1,2,3) this that [folded next_P]] show ?thesis .
  qed
  show ?case
  proof (cases "?x = NOT 0")
    case True
    have step: "findSmallN_loop b n i e s = findSmallN_loop b n (i + 1) 0 s"
      by (subst findSmallN_loop.simps) (simp only: i True if_True Let_def simp_thms)
    have "\<forall>y \<in> set ?W. y" using wbits_full True by blast
    then have "found1 (?P @ ?W) s" by (rule found1_full [OF Suc.prems(7)])
    moreover have w: "zmax ?W = 0" "zlead ?W = 0" "0 = ztrail (?P @ ?W)" unfolding True full_word ztrail_full by simp_all
    moreover have "zmax (?P @ ?W) < n"
      using words_step [OF Suc.prems(5), of ?x] ztrail_zmax [of ?P] Suc.prems(2,5) unfolding w(1,2) by linarith
    ultimately show ?thesis
      unfolding step by (intro go_on)
  next
    case False
    let ?s = "if s = noPage then i * 64 + TrailingZeros64 (NOT ?x) else s"
    have s: "found1 (pbits b) ?s" "found1 (?P @ ?W) ?s"
      using found1_word [OF Suc.prems(7) False P(2)] found1_word [OF Suc.prems(7) False P(2), of "[]"] unfolding B P(1) by simp_all
    obtain j where j: "findBitRange64 (NOT ?x) n = Some j"
      "if j < 64 then first_run ?W n j else \<forall>k. \<not> run_free ?W k n"
    proof -
      have "0 < n" using Suc.prems(2) by simp
      then show thesis by (rule findBitRange64_first [of n "NOT ?x"]) (simp only: bit.double_compl that)
    qed
    have step: "findSmallN_loop b n i e s =
      (if e + zlead ?W \<ge> n then Some (i * 64 - e, ?s)
       else if j < 64 then Some (i * 64 + j, ?s) else findSmallN_loop b n (i + 1) (ztrail ?W) ?s)"
      by (subst findSmallN_loop.simps)
        (simp only: i False if_True if_False Let_def j(1) Option.bind.simps TrailingZeros64_bits [of ?x] LeadingZeros64_bits)
    show ?thesis
    proof (cases "e + zlead ?W \<ge> n")
      case True
      have "n \<le> ztrail ?P + zlead (?W @ ?R)"
        using True Suc.prems(6) by (simp add: zlead_append)
      from first_run_across [OF Suc.prems(5) this] have "first_run (pbits b) n (i * 64 - e)"
        unfolding B P(1) Suc.prems(6) .
      then have "found (pbits b) n (i * 64 - e)" using first_found Suc.prems(2) B_less by simp
      then show ?thesis using step s(1) True by simp
    next
      case no: False
      then have z: "zlead ?W < 64" "ztrail ?P + zlead ?W < n" using Suc.prems(3,6) by auto
      then have "zlead (?W @ ?R) = zlead ?W" by (simp add: zlead_append)
      show ?thesis
      proof (cases "j < 64")
        case True
        have "first_run (pbits b) n (length ?P + j)"
          unfolding B by (rule first_run_within [OF Suc.prems(5)]) (use z True j(2) \<open>zlead (?W @ ?R) = zlead ?W\<close> in simp_all)
        then have "found (pbits b) n (i * 64 + j)" using first_found Suc.prems(2) B_less unfolding P(1) by simp
        then show ?thesis using step s(1) True no by simp
      next
        case nj: False
        have "zmax ?W < n" using j(2) nj zmax_run [of n ?W] by (metis not_less)
        then have "zmax (?P @ ?W) < n" using words_step [OF Suc.prems(5)] z by simp
        moreover have "ztrail ?W = ztrail (?P @ ?W)" using z by (simp add: ztrail_append)
        ultimately have "\<exists>r s'. findSmallN_loop b n (i + 1) (ztrail ?W) ?s = Some (r, s') \<and> found (pbits b) n r \<and> found1 (pbits b) s'"
          using s(2) by (rule go_on)
        then show ?thesis unfolding step using no nj by (simp only: if_False simp_thms)
      qed
    qed
  qed
qed

lemma findLargeN_loop_found:
  assumes "length b < 2 ^ 57" "64 < n" "i \<le> length b" "zmax (pbits (take i b)) < n" "sz = ztrail (pbits (take i b))"
    "0 < sz \<longrightarrow> start = i * 64 - sz" "found1 (pbits (take i b)) s"
  shows "\<exists>r s'. findLargeN_loop b n i start sz s = (r, s') \<and> found (pbits b) n r \<and> found1 (pbits b) s'"
  using assms
proof (induction "length b - i" arbitrary: i start sz s)
  case 0
  then have "i = length b" by simp
  moreover from this have "sz < n" using 0 ztrail_zmax [of "pbits b"] by simp
  ultimately have "findLargeN_loop b n i start sz s = (noPage, s)" by (subst findLargeN_loop.simps) simp
  then show ?case using 0 \<open>i = length b\<close> none_found by simp
next
  case (Suc m)
  then have i: "i < length b" "m = length b - (i + 1)" by auto
  let ?P = "pbits (take i b)" and ?x = "b ! i" and ?W = "wbits (b ! i)" and ?R = "pbits (drop (Suc i) b)"
  have B: "pbits b = ?P @ ?W @ ?R" by (rule pbits_split [OF i(1)])
  have next_P: "pbits (take (i + 1) b) = ?P @ ?W" by (simp add: take_Suc_conv_app_nth i)
  have P: "length ?P = i * 64" "length ?P + 64 < 2 ^ 64" using i(1) Suc.prems(1) by simp_all
  have B_less: "length (pbits b) < noPage" using Suc.prems(1) by (simp add: noPage_def)
  have W: "zmax ?W < n" "zlead ?W \<le> 64" "ztrail ?W \<le> 64" using zmax_le [of ?W] zlead_le [of ?W] ztrail_le [of ?W] Suc.prems(2) by simp_all
  have go_on: "\<exists>r s'. findLargeN_loop b n (i + 1) start' sz' t = (r, s') \<and> found (pbits b) n r \<and> found1 (pbits b) s'"
    if "zmax (?P @ ?W) < n" "sz' = ztrail (?P @ ?W)" "0 < sz' \<longrightarrow> start' = (i + 1) * 64 - sz'" "found1 (?P @ ?W) t" for start' sz' t
  proof -
    have "i + 1 \<le> length b" using i(1) by simp
    from Suc.hyps(1) [OF i(2) Suc.prems(1,2) this that(1,2) [folded next_P] that(3) that(4) [folded next_P]] show ?thesis .
  qed
  show ?case
  proof (cases "?x = NOT 0")
    case True
    have step: "findLargeN_loop b n i start sz s = findLargeN_loop b n (i + 1) start 0 s"
      by (subst findLargeN_loop.simps) (simp only: i True if_True Let_def simp_thms)
    have "\<forall>y \<in> set ?W. y" using wbits_full True by blast
    then have "found1 (?P @ ?W) s" by (rule found1_full [OF Suc.prems(7)])
    moreover have w: "zmax ?W = 0" "zlead ?W = 0" "0 = ztrail (?P @ ?W)" unfolding True full_word ztrail_full by simp_all
    moreover have "zmax (?P @ ?W) < n"
      using words_step [OF Suc.prems(4), of ?x] ztrail_zmax [of ?P] Suc.prems(2,4) unfolding w(1,2) by linarith
    ultimately show ?thesis
      unfolding step by (intro go_on) simp_all
  next
    case False
    let ?s = "if s = noPage then i * 64 + TrailingZeros64 (NOT ?x) else s"
    have s: "found1 (pbits b) ?s" "found1 (?P @ ?W) ?s"
      using found1_word [OF Suc.prems(7) False P(2)] found1_word [OF Suc.prems(7) False P(2), of "[]"] unfolding B P(1) by simp_all
    have step: "findLargeN_loop b n i start sz s =
      (if sz = 0 then findLargeN_loop b n (i + 1) (i * 64 + 64 - ztrail ?W) (ztrail ?W) ?s
       else if zlead ?W + sz \<ge> n then (start, ?s)
       else if zlead ?W < 64 then findLargeN_loop b n (i + 1) (i * 64 + 64 - ztrail ?W) (ztrail ?W) ?s
       else findLargeN_loop b n (i + 1) start (sz + 64) ?s)"
      by (subst findLargeN_loop.simps) (simp only: i False if_True if_False Let_def TrailingZeros64_bits [of ?x] LeadingZeros64_bits)
    have go: "\<exists>r s'. findLargeN_loop b n (i + 1) start' sz' ?s = (r, s') \<and> found (pbits b) n r \<and> found1 (pbits b) s'"
      if "ztrail ?P + zlead ?W < n" "sz' = ztrail (?P @ ?W)" "0 < sz' \<longrightarrow> start' = (i + 1) * 64 - sz'" for start' sz'
      using words_step [OF Suc.prems(4) W(1) that(1)] that(2,3) s(2) by (rule go_on)
    consider "sz = 0" | "sz \<noteq> 0" "zlead ?W + sz \<ge> n" | "sz \<noteq> 0" "zlead ?W + sz < n" "zlead ?W < 64" | "sz \<noteq> 0" "zlead ?W + sz < n" "zlead ?W = 64"
      using W(2) by linarith
    then show ?thesis
    proof cases
      case 1
      moreover have "ztrail ?W = 64 \<longleftrightarrow> zlead ?W = 64" using zlead_rev_full [of ?W] unfolding ztrail_def by simp
      ultimately have "ztrail ?W = ztrail (?P @ ?W)" using Suc.prems(5) by (simp add: ztrail_append)
      then have "\<exists>r s'. findLargeN_loop b n (i + 1) (i * 64 + 64 - ztrail ?W) (ztrail ?W) ?s = (r, s') \<and> found (pbits b) n r \<and> found1 (pbits b) s'"
        by (intro go) (use 1 W(2) Suc.prems(2,5) in \<open>simp_all add: add.commute\<close>)
      then show ?thesis unfolding step using 1 by (simp only: if_True simp_thms)
    next
      case 2
      have "n \<le> ztrail ?P + zlead (?W @ ?R)" using 2 Suc.prems(5) by (simp add: zlead_append)
      from first_run_across [OF Suc.prems(4) this] have "first_run (pbits b) n start"
        using Suc.prems(5,6) 2 unfolding B P(1) by simp
      then have "found (pbits b) n start" using first_found Suc.prems(2) B_less by simp
      then show ?thesis using step s(1) 2 by simp
    next
      case 3
      then have "ztrail ?W = ztrail (?P @ ?W)" by (simp add: ztrail_append)
      then have "\<exists>r s'. findLargeN_loop b n (i + 1) (i * 64 + 64 - ztrail ?W) (ztrail ?W) ?s = (r, s') \<and> found (pbits b) n r \<and> found1 (pbits b) s'"
        by (intro go) (use 3 Suc.prems(5) in \<open>simp_all add: add.commute\<close>)
      moreover have "\<not> n \<le> zlead ?W + sz" using 3 by simp
      ultimately show ?thesis unfolding step using 3 by (simp only: if_True if_False simp_thms)
    next
      case 4
      then have "sz + 64 = ztrail (?P @ ?W)" using Suc.prems(5) by (simp add: ztrail_append)
      moreover have "start = (i + 1) * 64 - (sz + 64)" using Suc.prems(6) 4 by simp
      ultimately have "\<exists>r s'. findLargeN_loop b n (i + 1) start (sz + 64) ?s = (r, s') \<and> found (pbits b) n r \<and> found1 (pbits b) s'"
        by (intro go) (use 4 Suc.prems(5) in simp_all)
      moreover have "\<not> n \<le> zlead ?W + sz" "\<not> zlead ?W < 64" using 4 by simp_all
      ultimately show ?thesis unfolding step using 4 by (simp only: if_True if_False simp_thms)
    qed
  qed
qed

text \<open>The pages before the block of the search index are allocated.\<close>

theorem find_found:
  assumes "length b < 2 ^ 57" "1 \<le> n" "s div 64 \<le> length b" "\<forall>x \<in> set (take (s div 64) b). x = NOT 0"
  obtains r s' where "palloc_find b n s = Some (r, s')" "found (pbits b) n r" "found (pbits b) 1 s'"
proof -
  let ?P = "pbits (take (s div 64) b)"
  have full: "\<forall>y \<in> set ?P. y" using assms(4) wbits_full by (auto simp: pbits_def)
  have f: "found1 ?P noPage" using full by (simp add: found1_def)
  have "\<not> run_free ?P i 1" for i using full by (auto simp: run_free_def)
  then have z: "zmax ?P = 0" using zmax_run [of 1 ?P] by auto
  then have t: "ztrail ?P = 0" using ztrail_zmax [of ?P] by simp
  consider "n = 1" | "n \<noteq> 1" "n \<le> 64" | "64 < n" by linarith
  then show thesis
  proof cases
    case 1
    have "found1 (pbits b) (find1 b s)" unfolding find1_def by (rule find1_loop_found [OF assms(1) f])
    then have "found (pbits b) 1 (find1 b s)" by (simp only: found1_eq)
    then show thesis using that [of "find1 b s" "find1 b s"] unfolding 1 palloc_find_def by (simp add: Let_def)
  next
    case 2
    then obtain r s' where "findSmallN b n s = Some (r, s')" "found (pbits b) n r" "found1 (pbits b) s'"
      using findSmallN_loop_found [OF assms(1,2) _ assms(3) _ _ f, of 0] z t assms(2) unfolding findSmallN_def by auto
    then show thesis using 2 that [of r s'] unfolding found1_eq [symmetric] by (simp add: palloc_find_def)
  next
    case 3
    then obtain r s' where "findLargeN b n s = (r, s')" "found (pbits b) n r" "found1 (pbits b) s'"
      using findLargeN_loop_found [OF assms(1) _ assms(3) _ _ _ f, of n 0 noPage] z t unfolding findLargeN_def by auto
    then show thesis using 3 that [of r s'] unfolding found1_eq [symmetric] by (simp add: palloc_find_def)
  qed
qed

end
