(* ===== verification/PallocProps.thy ===== *)
theory PallocProps
  imports PallocSum PallocFind
begin

text \<open>
  The properties of the bit counting functions and of the bitmaps of the page allocator, over the words and
  bitmaps the code keeps; bits are numbered from the least significant one, and a free page is a zero bit.
\<close>

section \<open>Words\<close>

text \<open>
  C27: the table-driven and multiplying bit counts are what their names say: the zeros below the lowest one, the
  zeros above the highest one, and the number of ones of the word; reversing the bytes moves byte \<open>i\<close> to
  byte \<open>7 - i\<close> (\<open>3 - i\<close>), and doing it twice is the identity.
\<close>

theorem sys_bit_counts:
  "Ctz64 x = zlead (wbits x) \<and> TrailingZeros64 x = zlead (wbits x) \<and> LeadingZeros64 x = ztrail (wbits x)
    \<and> Ctz32 y = zlead (wbits y) \<and> Ctz8 z = zlead (wbits z) \<and> TrailingZeros8 z = zlead (wbits z) \<and> LeadingZeros8 z = ztrail (wbits z)
    \<and> OnesCount64 x = length (filter id (wbits x))
    \<and> wbits (Bswap64 x) = map (\<lambda>n. bit x (8 * (7 - n div 8) + n mod 8)) [0..<64]
    \<and> wbits (Bswap32 y) = map (\<lambda>n. bit y (8 * (3 - n div 8) + n mod 8)) [0..<32]
    \<and> Bswap64 (Bswap64 x) = x"
proof -
  have "wbits (Bswap64 x) = map (\<lambda>n. bit x (8 * (7 - n div 8) + n mod 8)) [0..<64]"
    "wbits (Bswap32 y) = map (\<lambda>n. bit y (8 * (3 - n div 8) + n mod 8)) [0..<32]"
    by (rule nth_equalityI; simp add: Bswap64_bits Bswap32_bits)+
  then show ?thesis
    by (simp add: Ctz64_bits TrailingZeros64_bits LeadingZeros64_bits Ctz32_bits Ctz8_bits TrailingZeros8_bits
      LeadingZeros8_bits OnesCount64_bits Bswap64_twice)
qed

section \<open>Ranges\<close>

text \<open>The bitmap with the pages of a range set or cleared.\<close>

definition put_pages :: "bool \<Rightarrow> bool list \<Rightarrow> nat \<Rightarrow> nat \<Rightarrow> bool list" where
  "put_pages v bs i n = take i bs @ replicate n v @ drop (i + n) bs"

lemma put_pages_ok:
  assumes "0 < n" "i + n \<le> 512" "length b = 8"
  obtains b' where "pb_putRange v b i n = Inr b'" "length b' = 8" "pbits b' = put_pages v (pbits b) i n"
proof -
  obtain b' where b': "pb_putRange v b i n = Inr b'" "length b' = length b"
    "\<And>k. k < 64 * length b \<Longrightarrow> pbit b' k = (if i \<le> k \<and> k < i + n then v else pbit b k)"
    using put_range [of n i b v] assms by auto
  have "pbits b' = put_pages v (pbits b) i n"
  proof (rule nth_equalityI)
    show "length (pbits b') = length (put_pages v (pbits b) i n)" using assms b'(2) by (simp add: put_pages_def)
    fix k assume "k < length (pbits b')"
    then have k: "k < 512" using b'(2) assms(3) by simp
    then have "put_pages v (pbits b) i n ! k = (if i \<le> k \<and> k < i + n then v else pbit b k)"
      using assms by (auto simp: put_pages_def nth_append nth_pbits)
    then show "pbits b' ! k = put_pages v (pbits b) i n ! k" using b'(2,3) k assms(3) by (simp add: nth_pbits)
  qed
  then show thesis using that b'(1,2) assms(3) by simp
qed

lemma ones_count: "i + n \<le> 64 * length b \<Longrightarrow> pb_ones b i (i + n) = length (filter id (take n (drop i (pbits b))))"
proof -
  assume a: "i + n \<le> 64 * length b"
  let ?S = "{k. k < n \<and> pbit b (i + k)}"
  have "length (filter id (take n (drop i (pbits b)))) = card ?S"
    unfolding length_filter_conv_card using a by (intro arg_cong [of _ _ card]) (auto simp: nth_pbits)
  also have "\<dots> = card ((+) i ` ?S)" by (simp add: card_image)
  also have "(+) i ` ?S = {k. i \<le> k \<and> k < i + n \<and> pbit b k}"
  proof (intro equalityI subsetI)
    fix k assume "k \<in> {k. i \<le> k \<and> k < i + n \<and> pbit b k}"
    then show "k \<in> (+) i ` ?S" by (intro image_eqI [of _ _ "k - i"]) auto
  qed auto
  finally show ?thesis by (simp only: pb_ones_def)
qed

text \<open>
  C25: over a bitmap of 512 pages, allocating a range of at least one page sets exactly the bits of the range, freeing
  it clears exactly them, and counting it gives the number of set bits in it; none of them panics.
\<close>

theorem palloc_ranges:
  assumes "length b = 8" "1 \<le> n" "i + n \<le> pallocChunkPages"
  shows "(\<exists>b'. palloc_allocRange b i n = Inr b' \<and> length b' = 8 \<and> pbits b' = put_pages True (pbits b) i n)
    \<and> (\<exists>b'. palloc_free b i n = Inr b' \<and> length b' = 8 \<and> pbits b' = put_pages False (pbits b) i n)
    \<and> pb_popcntRange b i n = Inr (length (filter id (take n (drop i (pbits b)))))"
proof -
  have n: "0 < n" "i + n \<le> 512" using assms by (simp_all add: pallocChunkPages_def logPallocChunkPages_def)
  have "pb_popcntRange b i n = Inr (length (filter id (take n (drop i (pbits b)))))"
    using popcnt_range [of n i b] ones_count [of i n b] n assms(1) by simp
  then show ?thesis
    using put_pages_ok [OF n assms(1), of True] put_pages_ok [OF n assms(1), of False]
    unfolding palloc_allocRange_def palloc_free_def setRange_put clearRange_put by metis
qed

theorem palloc_ranges_witness:
  "(\<exists>b'. palloc_allocRange [0, 5, 0, 0, 0, 0, 0, 0] 60 100 = Inr b' \<and> length b' = 8
      \<and> pbits b' = put_pages True (pbits [0, 5, 0, 0, 0, 0, 0, 0]) 60 100)
    \<and> (\<exists>b'. palloc_free [0, 5, 0, 0, 0, 0, 0, 0] 60 100 = Inr b' \<and> length b' = 8
      \<and> pbits b' = put_pages False (pbits [0, 5, 0, 0, 0, 0, 0, 0]) 60 100)
    \<and> pb_popcntRange [0, 5, 0, 0, 0, 0, 0, 0] 60 100
        = Inr (length (filter id (take 100 (drop 60 (pbits [0, 5, 0, 0, 0, 0, 0, 0])))))"
  by (rule palloc_ranges) (simp_all add: pallocChunkPages_def logPallocChunkPages_def)

section \<open>Summaries\<close>

text \<open>
  C18: the summary of adjacent chunks, merged from the summaries of the single chunks, unpacks to the run of free pages at
  the start of all of them, the longest run anywhere, also across chunks, and the run at the end.  The number of
  levels of the radix tree is at most five and the pages fit into the largest value of a summary.
\<close>

theorem palloc_summaries:
  assumes "1 \<le> sl" "sl \<le> 5" "cs \<noteq> []" "\<forall>c \<in> set cs. length c = 8" "512 * length cs \<le> 2 ^ logMaxPackedValue sl"
  shows "\<exists>p. mergeSummaries sl (map (summarize sl) cs) logPallocChunkPages = Inr p
    \<and> sum_unpack sl p = (zlead (pbits (concat cs)), zmax (pbits (concat cs)), ztrail (pbits (concat cs)))"
proof -
  have len: "\<forall>B \<in> set (map pbits cs). length B = 2 ^ logPallocChunkPages"
    using assms(4) by (simp add: logPallocChunkPages_def)
  have "logPallocChunkPages \<le> logMaxPackedValue sl" by (simp add: logMaxPackedValue_def)
  then have pw: "2 ^ logPallocChunkPages \<le> (2 :: nat) ^ logMaxPackedValue sl" by (intro power_increasing) simp_all
  have cc: "concat (map pbits cs) = pbits (concat cs)" by (induction cs) simp_all
  have sm: "map (summarize sl) cs = map (sum_of sl) (map pbits cs)" by (simp add: summarize_bits)
  have "mergeSummaries sl (map (summarize sl) cs) logPallocChunkPages = Inr (sum_of sl (pbits (concat cs)))"
    unfolding sm using merge_sums [OF assms(2) len _ pw] assms(3) cc by simp
  moreover have "length (concat cs) = 8 * length cs" using assms(4) by (induction cs) simp_all
  then have "sum_unpack sl (sum_of sl (pbits (concat cs))) = runs (pbits (concat cs))"
    using assms(5) by (intro unpack_sum_of [OF assms(2)]) simp
  ultimately show ?thesis by (simp add: runs_def)
qed

theorem palloc_summaries_witness:
  "\<exists>p. mergeSummaries 5 (map (summarize 5) [[1, 0, 0, 0, 0, 0, 0, 0], [0, 0, 0, 0, 0, 0, 0, 6]]) logPallocChunkPages = Inr p
    \<and> sum_unpack 5 p = (zlead (pbits (concat [[1, 0, 0, 0, 0, 0, 0, 0], [0, 0, 0, 0, 0, 0, 0, 6]])),
        zmax (pbits (concat [[1, 0, 0, 0, 0, 0, 0, 0], [0, 0, 0, 0, 0, 0, 0, 6]])),
        ztrail (pbits (concat [[1, 0, 0, 0, 0, 0, 0, 0], [0, 0, 0, 0, 0, 0, 0, 6]])))"
  by (rule palloc_summaries) (simp_all add: logMaxPackedValue_def logPallocChunkPages_def)

section \<open>Searching and allocating\<close>

text \<open>
  C17: let the pages before the word of the search index be allocated.  Then the search for \<open>n\<close> pages returns; it gives
  \<open>noPage\<close> exactly when no \<open>n\<close> adjacent pages are free, otherwise the start of the first such run, which allocating
  then marks, and nothing else; and the new search index is the first free page.
\<close>

theorem palloc_find_alloc:
  assumes "length b = 8" "1 \<le> n" "n \<le> pallocChunkPages" "s \<le> pallocChunkPages" "\<forall>x \<in> set (take (s div 64) b). x = NOT 0"
  shows "\<exists>r s'. palloc_find b n s = Some (r, s') \<and> found (pbits b) 1 s'
    \<and> (r = noPage \<longleftrightarrow> (\<forall>i. \<not> run_free (pbits b) i n))
    \<and> (r \<noteq> noPage \<longrightarrow> first_run (pbits b) n r
        \<and> (\<exists>b'. palloc_allocRange b r n = Inr b' \<and> length b' = 8 \<and> pbits b' = put_pages True (pbits b) r n))"
proof -
  have s: "s div 64 \<le> length b" using assms(1,4) by (simp add: pallocChunkPages_def logPallocChunkPages_def)
  have b: "length b < 2 ^ 57" using assms(1) by simp
  obtain r s' where r: "palloc_find b n s = Some (r, s')" "found (pbits b) n r" "found (pbits b) 1 s'"
    using find_found [OF b assms(2) s assms(5)] .
  have none: "r = noPage \<longleftrightarrow> (\<forall>i. \<not> run_free (pbits b) i n)"
    using r(2) by (auto simp: found_def first_run_def split: if_splits)
  have first: "first_run (pbits b) n r" if "r \<noteq> noPage" using r(2) that by (simp add: found_def)
  have "\<exists>b'. palloc_allocRange b r n = Inr b' \<and> length b' = 8 \<and> pbits b' = put_pages True (pbits b) r n" if "r \<noteq> noPage"
  proof -
    have "r + n \<le> 512" using first [OF that] assms(1) by (simp add: first_run_def run_free_def)
    moreover have "0 < n" using assms(2) by simp
    ultimately show ?thesis using put_pages_ok [OF _ _ assms(1), of n r True] unfolding palloc_allocRange_def setRange_put by metis
  qed
  then show ?thesis using r none first by blast
qed

theorem palloc_find_alloc_witness:
  "\<exists>r s'. palloc_find [NOT 0, 1, 2, 0, 0, 0, 0, 0] 70 64 = Some (r, s') \<and> found (pbits [NOT 0, 1, 2, 0, 0, 0, 0, 0]) 1 s'
    \<and> (r = noPage \<longleftrightarrow> (\<forall>i. \<not> run_free (pbits [NOT 0, 1, 2, 0, 0, 0, 0, 0]) i 70))
    \<and> (r \<noteq> noPage \<longrightarrow> first_run (pbits [NOT 0, 1, 2, 0, 0, 0, 0, 0]) 70 r
        \<and> (\<exists>b'. palloc_allocRange [NOT 0, 1, 2, 0, 0, 0, 0, 0] r 70 = Inr b' \<and> length b' = 8
          \<and> pbits b' = put_pages True (pbits [NOT 0, 1, 2, 0, 0, 0, 0, 0]) r 70))"
  by (rule palloc_find_alloc) (simp_all add: pallocChunkPages_def logPallocChunkPages_def)

section \<open>The page cache\<close>

text \<open>In the cache a one is a free page.\<close>

definition cache_pages :: "pageCache \<Rightarrow> bool list" where "cache_pages c = wbits (NOT (pc_cache c))"

lemma range_bits:
  fixes x :: u64
  assumes "i + n \<le> 64"
  shows "wbits (x AND NOT (push_bit i (push_bit n 1 - 1))) = put_pages False (wbits x) i n"
    "wbits (NOT (x AND NOT (push_bit i (push_bit n 1 - 1)))) = put_pages True (wbits (NOT x)) i n"
    "OnesCount64 (x AND push_bit i (push_bit n 1 - 1)) = length (filter id (take n (drop i (wbits x))))"
proof -
  define m :: u64 where "m = push_bit i (push_bit n 1 - 1)"
  have m: "bit m t \<longleftrightarrow> i \<le> t \<and> t < i + n" if "t < 64" for t unfolding m_def by (rule range_masks(1) [OF that])
  show "wbits (x AND NOT (push_bit i (push_bit n 1 - 1))) = put_pages False (wbits x) i n"
    unfolding m_def [symmetric]
    by (rule nth_equalityI; use assms m in \<open>auto simp: put_pages_def nth_append bit_and_iff bit_or_iff bit_not_iff\<close>)
  show "wbits (NOT (x AND NOT (push_bit i (push_bit n 1 - 1)))) = put_pages True (wbits (NOT x)) i n"
    unfolding m_def [symmetric]
    by (rule nth_equalityI; use assms m in \<open>auto simp: put_pages_def nth_append bit_and_iff bit_or_iff bit_not_iff\<close>)
  have "OnesCount64 (x AND m) = pb_ones [x AND m] 0 64"
    by (rule OnesCount64_ones) (simp_all add: pbit_def)
  also have "\<dots> = pb_ones [x] i (i + n)"
    unfolding pb_ones_def using assms m by (intro arg_cong [of _ _ card]) (auto simp: pbit_def bit_and_iff)
  also have "\<dots> = length (filter id (take n (drop i (wbits x))))"
    using ones_count [of i n "[x]"] assms by simp
  finally show "OnesCount64 (x AND push_bit i (push_bit n 1 - 1)) = length (filter id (take n (drop i (wbits x))))"
    unfolding m_def .
qed

lemma pc_alloc_found:
  assumes "first_run (cache_pages c) n i" "1 \<le> n"
  shows "pc_alloc c n = Some (c\<lparr>pc_cache := pc_cache c AND NOT (push_bit i (push_bit n 1 - 1)),
        pc_scav := pc_scav c AND NOT (push_bit i (push_bit n 1 - 1))\<rparr>,
      pc_base c + of_nat i * pageSize, of_nat (OnesCount64 (pc_scav c AND push_bit i (push_bit n 1 - 1))) * pageSize)"
proof -
  have i: "run_free (cache_pages c) i n" "i + n \<le> 64"
    using assms(1) unfolding first_run_def by (blast, simp add: run_free_def cache_pages_def)
  have "bit (pc_cache c) i" using run_free_Suc [of n "cache_pages c" i] i assms(2) by (simp add: cache_pages_def bit_not_iff)
  then have ne: "pc_cache c \<noteq> 0" by auto
  show ?thesis
  proof (cases "n = 1")
    case True
    let ?k = "zlead (wbits (pc_cache c))"
    have k: "?k < 64" using zlead_all [of "pc_cache c"] zlead_le [of "wbits (pc_cache c)"] ne by (simp add: le_less)
    then have *: "bit (pc_cache c) ?k" "\<forall>j<?k. \<not> bit (pc_cache c) j" using zlead_nth_less [OF refl, of "pc_cache c"] by auto
    have pre: "\<not> bit (pc_cache c) j" if "j < i" for j
      using assms(1) that i(2) by (auto simp: True first_run_def run_free_def cache_pages_def bit_not_iff)
    have ki: "?k = i" using *(1,2) pre [of ?k] \<open>bit (pc_cache c) i\<close> by (meson linorder_neqE_nat)
    have sc: "of_nat (OnesCount64 (pc_scav c AND push_bit i (push_bit 1 1 - 1))) = drop_bit i (pc_scav c) AND 1"
    proof -
      have "take 1 (drop i (wbits (pc_scav c))) = [bit (pc_scav c) i]"
        using i(2) True by (simp add: take_Suc_conv_app_nth)
      then have "OnesCount64 (pc_scav c AND push_bit i (push_bit 1 1 - 1)) = of_bool (bit (pc_scav c) i)"
        using range_bits(3) [OF i(2), of "pc_scav c"] True by simp
      then show ?thesis by (simp add: and_one_eq mod_2_eq_odd bit_iff_odd_drop_bit)
    qed
    have m: "push_bit 1 1 - 1 = (1 :: u64)" by simp
    show ?thesis using ne sc unfolding True pc_alloc_def Let_def TrailingZeros64_bits ki m by simp
  next
    case False
    obtain r where r: "findBitRange64 (pc_cache c) n = Some r"
      "if r < 64 then first_run (wbits (NOT (pc_cache c))) n r else \<forall>j. \<not> run_free (wbits (NOT (pc_cache c))) j n"
      using findBitRange64_first [of n "pc_cache c"] assms(2) by auto
    have "r < 64" using r(2) i(1) unfolding cache_pages_def by presburger
    then have f: "first_run (cache_pages c) n r" using r(2) by (simp add: cache_pages_def)
    have "r = i" using f assms(1) by (metis first_run_def linorder_neqE_nat)
    then show ?thesis using False ne r(1) \<open>r < 64\<close> by (simp add: pc_alloc_def pc_allocN_def Let_def del: push_bit_of_1)
  qed
qed

text \<open>
  C26: allocating \<open>n\<close> pages from a page cache returns.  When no \<open>n\<close> adjacent pages are free the cache is unchanged and the
  address is zero; otherwise exactly the pages of the first such run become allocated and are no longer scavenged, the
  address is that of its first page and the second result is the number of bytes of it that were scavenged.
\<close>

theorem pageCache_alloc:
  assumes "1 \<le> n"
  shows "(if \<exists>i. run_free (cache_pages c) i n
     then \<exists>i c'. first_run (cache_pages c) n i
       \<and> pc_alloc c n = Some (c', pc_base c + of_nat i * pageSize,
           of_nat (length (filter id (take n (drop i (wbits (pc_scav c)))))) * pageSize)
       \<and> cache_pages c' = put_pages True (cache_pages c) i n
       \<and> wbits (pc_scav c') = put_pages False (wbits (pc_scav c)) i n \<and> pc_base c' = pc_base c
     else pc_alloc c n = Some (c, 0, 0))"
proof (cases "\<exists>i. run_free (cache_pages c) i n")
  case True
  then obtain i where i: "first_run (cache_pages c) n i" 
    using exists_least_iff [of "\<lambda>i. run_free (cache_pages c) i n"] unfolding first_run_def by blast
  then have le: "i + n \<le> 64" by (simp add: first_run_def run_free_def cache_pages_def)
  let ?m = "push_bit i (push_bit n 1 - 1)"
  let ?c = "c\<lparr>pc_cache := pc_cache c AND NOT ?m, pc_scav := pc_scav c AND NOT ?m\<rparr>"
  have "cache_pages ?c = put_pages True (cache_pages c) i n"
    unfolding cache_pages_def using range_bits(2) [OF le, of "pc_cache c"] by simp
  moreover have "wbits (pc_scav ?c) = put_pages False (wbits (pc_scav c)) i n"
    using range_bits(1) [OF le, of "pc_scav c"] by simp
  moreover have "pc_base ?c = pc_base c" by simp
  moreover note pc_alloc_found [OF i assms, unfolded range_bits(3) [OF le]] i
  ultimately show ?thesis unfolding if_P [OF True] by blast
next
  case False
  obtain r where r: "findBitRange64 (pc_cache c) n = Some r"
    "if r < 64 then first_run (wbits (NOT (pc_cache c))) n r else \<forall>j. \<not> run_free (wbits (NOT (pc_cache c))) j n"
    using findBitRange64_first [of n "pc_cache c"] assms by auto
  have "\<not> r < 64" using r(2) False by (auto simp: cache_pages_def first_run_def)
  moreover have "pc_cache c = 0" if "n = 1"
  proof (rule bit_word_eqI)
    fix j assume "j < LENGTH(64)"
    then show "bit (pc_cache c) j = bit 0 j" using False that by (auto simp: run_free_def cache_pages_def bit_not_iff)
  qed
  ultimately show ?thesis using False r(1) by (auto simp: pc_alloc_def pc_allocN_def)
qed

theorem pageCache_alloc_witness:
  "(if \<exists>i. run_free (cache_pages \<lparr>pc_base = 4194304, pc_cache = 0x36, pc_scav = 0x20\<rparr>) i 2
     then \<exists>i c'. first_run (cache_pages \<lparr>pc_base = 4194304, pc_cache = 0x36, pc_scav = 0x20\<rparr>) 2 i
       \<and> pc_alloc \<lparr>pc_base = 4194304, pc_cache = 0x36, pc_scav = 0x20\<rparr> 2
         = Some (c', pc_base \<lparr>pc_base = 4194304, pc_cache = 0x36, pc_scav = 0x20\<rparr> + of_nat i * pageSize,
           of_nat (length (filter id (take 2 (drop i (wbits (pc_scav \<lparr>pc_base = 4194304, pc_cache = 0x36, pc_scav = 0x20\<rparr>)))))) * pageSize)
       \<and> cache_pages c' = put_pages True (cache_pages \<lparr>pc_base = 4194304, pc_cache = 0x36, pc_scav = 0x20\<rparr>) i 2
       \<and> wbits (pc_scav c') = put_pages False (wbits (pc_scav \<lparr>pc_base = 4194304, pc_cache = 0x36, pc_scav = 0x20\<rparr>)) i 2
       \<and> pc_base c' = pc_base \<lparr>pc_base = 4194304, pc_cache = 0x36, pc_scav = 0x20\<rparr>
     else pc_alloc \<lparr>pc_base = 4194304, pc_cache = 0x36, pc_scav = 0x20\<rparr> 2
       = Some (\<lparr>pc_base = 4194304, pc_cache = 0x36, pc_scav = 0x20\<rparr>, 0, 0))"
  by (rule pageCache_alloc) simp

end
