(* ===== verification/Spec2Isabelle.thy ===== *)
theory Spec2Isabelle
  imports Utf16 StrconvParse IoProps SyncMutex SyncRWMutex SyncOnce SyncWaitGroup BytesProps ChanProps BufioSplit BufioProps PallocProps
begin

section \<open>The Go standard library, modelled and verified\<close>

text \<open>
  The repository is an annotated copy of the Go 1.14 standard library (\<open>src/\<close>).  This development
  translates the parts of it that are programs in their own right, rather than bindings to the
  operating system or to the compiler's data, and proves what makes them correct.

  \<^bold>\<open>Conventions.\<close>  A byte is \<open>8 word\<close>, a rune \<open>32 word\<close> compared as signed (\<open><s\<close>, \<open>\<le>s\<close>), \<open>uint64\<close> is
  \<open>64 word\<close>; an \<open>int\<close> of the source is a HOL \<open>int\<close> with \<open>wrap64\<close> written wherever the source can
  overflow, and a \<open>nat\<close> where it is an index that has just been checked.  Strings and slices are lists of
  bytes; a slice that shares its backing array with another is a \<open>slice\<close> (theory \<open>Slice\<close>) with the bytes
  between its length and its capacity.  A panic is a value: \<open>'a go\<close> is \<open>panic + 'a\<close>, and \<open>go_bind\<close> is
  sequencing; every index and slice expression that could be out of range goes through \<open>go_nth\<close>,
  \<open>go_set\<close> or \<open>go_slice\<close>, so that a statement of the form \<open>f x = Inr y\<close> says that no bounds check fails.
  \<open>make\<close> of a slice whose length depends on a count goes through \<open>go_make\<close>, with the largest length that can
  be allocated as an argument of the model (\<open>M\<close>), and panics beyond it.
  A loop is a recursive function with a measure; where the loop need not end on every input it is a
  \<open>partial_function (option)\<close> and the theorems say that the result is \<open>Some\<close>; for the one loop that need not end
  over an honest reader, that of \<open>bufio.Reader.ReadBytes\<close>, the theorem on sequences of operations says that a sequence
  that does not return has come to it.  No fuel is used.

  \<^bold>\<open>Text.\<close>  \<open>Prelude\<close>: panics, slicing, fixed width integers, shared lemmas.  \<open>Utf8\<close>, \<open>Utf8Seq\<close>,
  \<open>Utf8Segs\<close> (\<open>unicode/utf8/utf8.go\<close>, \<open>runtime/utf8.go\<close>): the decoder against the set of shortest
  encodings, the scanners against repeated decoding, forwards and backwards.  \<open>Utf16\<close>
  (\<open>unicode/utf16/utf16.go\<close>).  \<open>UnicodeLetter\<close> (\<open>unicode/letter.go\<close>, \<open>graphic.go\<close>, \<open>digit.go\<close>): searches in
  range tables; the generated tables are arguments of the model.  \<open>Bytealg\<close> (\<open>internal/bytealg\<close>): the
  portable routines, and the locale \<open>bytealg\<close> with the documented contract of the assembly ones.
  \<open>StringsSearch\<close> (\<open>strings/search.go\<close>): Boyer--Moore.  \<open>StringsIndex\<close>, \<open>StringsSplit\<close>, \<open>StringsRunes\<close>,
  \<open>StringsMap\<close> (\<open>strings/strings.go\<close>): searching, cutting, trimming, mapping.  \<open>BytesFns\<close>, \<open>BytesText\<close>,
  \<open>BytesProps\<close> (\<open>bytes/bytes.go\<close>): the same functions written again for byte slices, and their
  agreement with package strings.  \<open>Strconv\<close>, \<open>StrconvParse\<close> (\<open>strconv/itoa.go\<close>, \<open>atoi.go\<close>, \<open>atob.go\<close>):
  printing and parsing of integers.

  \<^bold>\<open>Readers, writers, buffers.\<close>  \<open>Io\<close>, \<open>IoLaws\<close> (\<open>io/io.go\<close>, \<open>io/multi.go\<close>): a reader is a state with a
  \<open>Read\<close> method as a function; locales state what a reader or writer promises, the copying functions are
  proved once inside them.  \<open>BytesReader\<close>, \<open>StringsReader\<close>, \<open>StringsBuilder\<close>, \<open>BytesBuffer\<close>
  (\<open>bytes/reader.go\<close>, \<open>strings/reader.go\<close>, \<open>strings/builder.go\<close>, \<open>bytes/buffer.go\<close>) are the
  implementations; \<open>BufferQueue\<close> refines a buffer to a queue of bytes, \<open>IoProps\<close> interprets the locales
  on them.  \<open>Copy\<close> takes the \<open>WriteTo\<close> of the source and the \<open>ReadFrom\<close> of the destination as optional arguments: a
  \<open>strings.Builder\<close> is copied into by the loop of \<open>copyBuffer\<close>, a \<open>bytes.Buffer\<close> through \<open>buffer_ReaderFrom\<close>.

  \<^bold>\<open>Concurrency.\<close>  \<open>SyncMutex\<close> (\<open>sync/mutex.go\<close>): the atomic steps of any number of goroutines on the
  state word as an inductive step relation, an invariant by rule induction, exclusion and absence of
  lost wake-ups.

  \<^bold>\<open>Channels.\<close>  \<open>RuntimeWaitq\<close>: the linked queues of waiting goroutines on a store of sudogs, refined to
  lists.  \<open>SelectOrder\<close> (\<open>runtime/select.go\<close>): the random poll order and the heap sort of the locks.
  \<open>RuntimeChan\<close> (\<open>runtime/chan.go\<close>, \<open>runtime/select.go\<close>): a state of all channels and goroutines; what the
  code does under the lock of a channel (in a select, of all its channels) is one function, parking ends
  it, and the code after \<open>gopark\<close> is another one; the step relation lets any goroutine start or go on with
  an operation.  The list \<open>gp.waiting\<close> of a parked goroutine is part of the state, and the fatal errors on it and on
  code that cannot be reached are outcomes of the model.  Beside the values put into and taken out of a channel the
  state logs how every operation ended and with which value, so that what an operation returns is tied to what
  moved.  \<open>ChanInv\<close> states the invariant (ring buffer, queues, agreement of queues and goroutines),
  \<open>ChanSteps\<close> and \<open>ChanSelect\<close> show that every step keeps it, moves values first in, first out, and keeps
  the two logs in step; \<open>ChanProps\<close> draws the conclusions.  Atomicity of the locked parts is built into the model.

  \<^bold>\<open>Other locks.\<close>  \<open>SyncRWMutex\<close>, \<open>SyncOnce\<close>, \<open>SyncWaitGroup\<close> (\<open>sync/rwmutex.go\<close>, \<open>once.go\<close>,
  \<open>waitgroup.go\<close>): atomic steps of any number of goroutines, with the mutex inside taken in one step; a
  goroutine that waits for the mutex of an \<open>RWMutex\<close> has a place of its own.
  The invariants count goroutines by their places; \<open>SyncCounts\<close> holds the lemmas on such counts.

  \<^bold>\<open>Scanner.\<close>  \<open>BufioScan\<close> (\<open>bufio/scan.go\<close>): the state machine, its loop divided into the search for a
  token, making room and reading.  \<open>BufioScanLaws\<close>: a locale for split functions whose answers on a part
  of the input are final, and the machine proved once over such a function and any stream reader.
  \<open>BufioSplit\<close> interprets it for words, lines, runes and bytes.

  \<^bold>\<open>Buffered input and output.\<close>  \<open>BufioReader\<close>, \<open>BufioWriter\<close> (\<open>bufio/bufio.go\<close>): the records of a
  \<open>Reader\<close> and a \<open>Writer\<close> and every method, over any reader and writer.  \<open>BufioReaderLaws\<close>: a locale for readers that
  stay within their buffer; each method keeps the state well formed and hands out what was read, in order.
  \<open>BufioReaderProps\<close> and \<open>BufioReaderQueue\<close>: operations as data, every sequence of which is shown safe, and over a stream the refinement of a queue of bytes; a
  buffered reader over a stream is a stream again.  \<open>BufioWriterLaws\<close>: a locale for writers that may fail but say how much they
  took; \<open>BufioWriterProps\<close>: sequences of operations, \<open>ReadFrom\<close> and \<open>WriteTo\<close>.  \<open>BufioProps\<close> states the properties
  and interprets the locales on the readers and writers of \<open>bytes\<close> and \<open>strings\<close>.

  \<^bold>\<open>Bits and pages.\<close>  \<open>SysBits\<close> (\<open>runtime/internal/sys\<close>): counting and reversing the bits of words through multiplications,
  masks and tables, and that each is what its name says on the list of bits.  \<open>PallocBits\<close> (\<open>runtime/mpallocbits.go\<close>,
  the summaries of \<open>mpagealloc.go\<close>, allocation from the cache of \<open>mpagecache.go\<close>): the bitmap of a chunk of 512 pages as
  eight words.  \<open>PallocLaws\<close>: runs of free pages in lists of bits; \<open>PallocRange\<close>: setting, clearing and counting a range;
  \<open>PallocSum\<close>: summaries, packed in a word, and their merging; \<open>PallocFind\<close>: the three searches;
  \<open>PallocProps\<close>: the properties.  The radix tree over the summaries is not modelled.

  \<^bold>\<open>Not modelled.\<close>  What works on the operating system (\<open>os\<close>, \<open>syscall\<close>, \<open>io/ioutil\<close>), on the compiler's
  type descriptors (\<open>reflect\<close>, \<open>internal/reflectlite\<close>, \<open>fmt\<close>), on raw memory and machine registers (the
  scheduler, the allocator beyond its bitmaps, the collector of \<open>runtime\<close>, \<open>internal/cpu\<close>), generated tables, and
  profiling.  Sharing of backing arrays is modelled for buffers and builders only; capacities that
  \<open>append\<close> chooses are arguments of the model; memory is unbounded except where the largest
  allocation is an argument (buffers, and the slices that \<open>SplitN\<close>, \<open>Replace\<close>, \<open>bytes.Join\<close>, \<open>bytes.Map\<close>, \<open>bytes.Runes\<close>
  and \<open>bytes.Repeat\<close> size beforehand).  Calls into the race detector and the sanitizers are left out.
\<close>

end
